(* ===== verification/Prelude.thy ===== *)
theory Prelude
  imports Main "HOL-Library.Word" "HOL-Library.Sublist"
begin

text \<open>
  Shared vocabulary of the development: the machine types of the Go sources
  (unsigned integers are words of their width, byte slices are lists of 8-bit
  words), the outcome type that tells a normal return from a run-time panic,
  the little- and big-endian codecs of package \<open>encoding/binary\<close> with
  their round trips, and the generic facts on lists and words that several
  components use.
\<close>

unbundle bit_operations_syntax

named_theorems codec_simps
named_theorems outcome_simps

type_synonym byte = "8 word"
type_synonym u16 = "16 word"
type_synonym u32 = "32 word"
type_synonym u64 = "64 word"
type_synonym bytes = "8 word list"

section \<open>Text literals\<close>

text \<open>A Go string constant of ASCII characters, read as the bytes it holds.\<close>

definition ascii :: "string \<Rightarrow> bytes" where
  "ascii s = map of_char s"

lemma ascii_Nil [simp]: "ascii [] = []"
  by (simp add: ascii_def)

lemma ascii_Cons [simp]: "ascii (c # cs) = of_char c # ascii cs"
  by (simp add: ascii_def)

lemma length_ascii [simp]: "length (ascii s) = length s"
  by (simp add: ascii_def)

section \<open>Outcomes\<close>

text \<open>
  A Go function either returns or panics (index out of range, slice bounds).
  Where memory safety is at stake the model keeps the panic as a value.
\<close>

datatype 'a outcome = Ret 'a | Panic

primrec obind :: "'a outcome \<Rightarrow> ('a \<Rightarrow> 'b outcome) \<Rightarrow> 'b outcome" where
  "obind (Ret x) f = f x"
| "obind Panic f = Panic"

lemma obind_cong [fundef_cong]:
  "x = x' \<Longrightarrow> (\<And>y. x' = Ret y \<Longrightarrow> f y = f' y) \<Longrightarrow> obind x f = obind x' f'"
  by (cases x') auto

lemma obind_eq_Ret [outcome_simps]:
  "obind x f = Ret z \<longleftrightarrow> (\<exists>y. x = Ret y \<and> f y = Ret z)"
  by (cases x) auto

lemma obind_eq_Panic [outcome_simps]:
  "obind x f = Panic \<longleftrightarrow> x = Panic \<or> (\<exists>y. x = Ret y \<and> f y = Panic)"
  by (cases x) auto

text \<open>Checked indexing and slicing, \<open>b[i]\<close> and \<open>b[i:j]\<close>.\<close>

definition get_at :: "'a list \<Rightarrow> nat \<Rightarrow> 'a outcome" where
  "get_at xs i = (if i < length xs then Ret (xs ! i) else Panic)"

definition subslice :: "nat \<Rightarrow> nat \<Rightarrow> 'a list \<Rightarrow> 'a list" where
  "subslice i j xs = take (j - i) (drop i xs)"

definition slice_at :: "'a list \<Rightarrow> nat \<Rightarrow> nat \<Rightarrow> 'a list outcome" where
  "slice_at xs i j = (if i \<le> j \<and> j \<le> length xs then Ret (subslice i j xs) else Panic)"

text \<open>Checked assignment, \<open>b[i] = v\<close>.\<close>

definition write_at :: "'a list \<Rightarrow> nat \<Rightarrow> 'a \<Rightarrow> 'a list outcome" where
  "write_at xs i v = (if i < length xs then Ret (xs[i := v]) else Panic)"

lemma get_at_in [simp]: "i < length xs \<Longrightarrow> get_at xs i = Ret (xs ! i)"
  by (simp add: get_at_def)

lemma get_at_eq_Panic [outcome_simps]: "get_at xs i = Panic \<longleftrightarrow> length xs \<le> i"
  by (simp add: get_at_def)

lemma slice_at_in [simp]: "i \<le> j \<Longrightarrow> j \<le> length xs \<Longrightarrow> slice_at xs i j = Ret (subslice i j xs)"
  by (simp add: slice_at_def)

text \<open>Computations that do not panic, with one rule per way of building them.\<close>

definition no_panic :: "'a outcome \<Rightarrow> bool" where
  "no_panic x \<longleftrightarrow> x \<noteq> Panic"

lemma no_panicE: "no_panic x \<Longrightarrow> \<exists>r. x = Ret r"
  by (cases x) (simp_all add: no_panic_def)

lemma no_panic_Ret [simp]: "no_panic (Ret x)" "\<not> no_panic Panic"
  by (simp_all add: no_panic_def)

lemma no_panic_obind: "no_panic x \<Longrightarrow> (\<And>y. x = Ret y \<Longrightarrow> no_panic (f y)) \<Longrightarrow> no_panic (obind x f)"
  by (cases x) simp_all

lemma no_panic_if: "(b \<Longrightarrow> no_panic x) \<Longrightarrow> (\<not> b \<Longrightarrow> no_panic y) \<Longrightarrow> no_panic (if b then x else y)"
  by simp

lemma no_panic_get: "i < length xs \<Longrightarrow> no_panic (get_at xs i)"
  by simp

lemma no_panic_slice: "i \<le> j \<Longrightarrow> j \<le> length xs \<Longrightarrow> no_panic (slice_at xs i j)"
  by simp

lemmas no_panic_rules = no_panic_if no_panic_obind no_panic_get no_panic_slice

lemma length_subslice [simp]: "length (subslice i j xs) = min (j - i) (length xs - i)"
  by (simp add: subslice_def)

lemma nth_subslice [simp]: "k < j - i \<Longrightarrow> i + k < length xs \<Longrightarrow> subslice i j xs ! k = xs ! (i + k)"
  by (simp add: subslice_def)

lemma subslice_append_mid:
  "length xs = i \<Longrightarrow> length ys = j - i \<Longrightarrow> subslice i j (xs @ ys @ zs) = ys"
  by (simp add: subslice_def)

section \<open>Words\<close>

lemma unat_bound: "unat (x :: 'a::len word) < 2 ^ LENGTH('a)"
  by (rule unsigned_less)

lemma unat_plus_of_nat:
  fixes x :: "'a::len word"
  assumes "unat x + i < 2 ^ LENGTH('a)"
  shows "unat (x + word_of_nat i) = unat x + i"
proof -
  have "unat (word_of_nat i :: 'a word) = i" using assms by (simp add: unat_of_nat)
  then show ?thesis using assms by (metis unat_add_lem)
qed

lemma unat_ucast_mod: "unat (ucast (x :: 'a::len word) :: 'b::len word) = unat x mod 2 ^ LENGTH('b)"
  by (simp only: unsigned_ucast_eq take_bit_eq_mod)

lemma unat_plus_one:
  fixes x :: "'a::len word"
  shows "Suc (unat x) < 2 ^ LENGTH('a) \<Longrightarrow> unat (x + 1) = Suc (unat x)"
  by (simp add: unat_word_ariths)

lemma unat_minus_le:
  fixes x y :: "'a::len word"
  shows "y \<le> x \<Longrightarrow> unat (x - y) = unat x - unat y"
  by (simp add: unat_sub word_le_nat_alt)

lemma sint_small:
  fixes x :: "'a::len word"
  assumes "unat x < 2 ^ (LENGTH('a) - 1)"
  shows "sint x = int (unat x)"
proof -
  have "int (unat x) < 2 ^ (LENGTH('a) - 1)" using assms by (metis of_nat_less_numeral_power_cancel_iff)
  then show ?thesis
    by (simp add: sint_uint signed_take_bit_int_eq_self_iff) (simp add: order_trans[of _ 0])
qed

lemma unat_and_mask:
  fixes x :: "'a::len word"
  shows "unat (x AND mask n) = unat x mod 2 ^ n"
proof -
  have "unat (take_bit n x) = unat x mod 2 ^ n"
    by (simp only: unsigned_take_bit_eq) (simp add: take_bit_eq_mod)
  then show ?thesis by (simp add: take_bit_eq_mask)
qed

text \<open>Go's \<open>int\<close> has 64 bits; sums of ints wrap into that range.\<close>

definition go_int :: "int \<Rightarrow> int" where
  "go_int x = signed_take_bit 63 x"

lemma go_int_id [simp]: "- (2 ^ 63) \<le> x \<Longrightarrow> x < 2 ^ 63 \<Longrightarrow> go_int x = x"
  by (simp add: go_int_def signed_take_bit_int_eq_self)

section \<open>Little- and big-endian codecs\<close>

text \<open>
  \<open>binary.LittleEndian.PutUintN\<close> writes the bytes of a word from the
  least significant one, \<open>UintN\<close> reads them back; the big-endian
  variants run over the bytes in reverse.
\<close>

primrec le_get :: "bytes \<Rightarrow> 'a::len word" where
  "le_get [] = 0"
| "le_get (b # bs) = ucast b OR push_bit 8 (le_get bs)"

definition le_put :: "nat \<Rightarrow> 'a::len word \<Rightarrow> bytes" where
  "le_put n x = map (\<lambda>i. ucast (drop_bit (8 * i) x)) [0..<n]"

definition be_get :: "bytes \<Rightarrow> 'a::len word" where
  "be_get bs = le_get (rev bs)"

definition be_put :: "nat \<Rightarrow> 'a::len word \<Rightarrow> bytes" where
  "be_put n x = rev (le_put n x)"

lemma length_le_put [simp]: "length (le_put n x) = n"
  by (simp add: le_put_def)

lemma length_be_put [simp]: "length (be_put n x) = n"
  by (simp add: be_put_def)

lemma bit_le_get:
  "bit (le_get bs :: 'a::len word) i \<longleftrightarrow>
     i < LENGTH('a) \<and> i div 8 < length bs \<and> bit (bs ! (i div 8)) (i mod 8)"
proof (induction bs arbitrary: i)
  case Nil
  then show ?case by simp
next
  case (Cons b bs)
  show ?case
  proof (cases "i < 8")
    case True
    then show ?thesis by (auto simp: bit_or_iff bit_push_bit_iff bit_unsigned_iff)
  next
    case False
    then have d: "i div 8 = Suc ((i - 8) div 8)" "i mod 8 = (i - 8) mod 8"
      by (simp_all add: le_div_geq le_mod_geq)
    from False have "\<not> bit (ucast b :: 'a word) i"
      by (auto simp: bit_unsigned_iff dest: bit_imp_le_length)
    then have "bit (le_get (b # bs) :: 'a word) i \<longleftrightarrow> i < LENGTH('a) \<and> bit (le_get bs :: 'a word) (i - 8)"
      using False by (auto simp: bit_or_iff bit_push_bit_iff dest: bit_imp_le_length)
    then show ?thesis using Cons.IH[of "i - 8"] d by auto
  qed
qed

lemma le_get_put [codec_simps]:
  fixes x :: "'a::len word"
  assumes "LENGTH('a) \<le> 8 * n"
  shows "le_get (le_put n x) = x"
proof (rule bit_word_eqI)
  fix i assume i: "i < LENGTH('a)"
  then have "i div 8 < n" using assms by auto
  then show "bit (le_get (le_put n x) :: 'a word) i = bit x i"
    using i by (simp add: bit_le_get le_put_def bit_unsigned_iff bit_drop_bit_eq)
qed

lemma le_put_get [codec_simps]:
  assumes "8 * length bs \<le> LENGTH('a::len)"
  shows "le_put (length bs) (le_get bs :: 'a word) = bs"
proof (rule nth_equalityI)
  fix k assume "k < length (le_put (length bs) (le_get bs :: 'a word))"
  then have k: "k < length bs" by simp
  show "le_put (length bs) (le_get bs :: 'a word) ! k = bs ! k"
  proof (rule bit_word_eqI)
    fix j assume j: "j < LENGTH(8)"
    then have "8 * k + j < LENGTH('a)" using k assms by simp
    then show "bit (le_put (length bs) (le_get bs :: 'a word) ! k) j = bit (bs ! k) j"
      using k j by (simp add: le_put_def bit_unsigned_iff bit_drop_bit_eq bit_le_get)
  qed
qed simp

text \<open>The number a byte string denotes, without the width of a word.\<close>

primrec le_nat :: "bytes \<Rightarrow> nat" where
  "le_nat [] = 0"
| "le_nat (b # bs) = unat b + 256 * le_nat bs"

lemma le_nat_bound: "le_nat bs < 256 ^ length bs"
proof (induction bs)
  case (Cons b bs)
  have "unat b < 256" using unat_bound[of b] by simp
  then show ?case using Cons by simp
qed simp

lemma unat_le_get: "8 * length bs \<le> LENGTH('a::len) \<Longrightarrow> unat (le_get bs :: 'a word) = le_nat bs"
proof (induction bs)
  case (Cons b bs)
  have ih: "unat (le_get bs :: 'a word) = le_nat bs" using Cons by simp
  have dis: "\<not> bit (ucast b :: 'a word) n \<or> \<not> bit (push_bit 8 (le_get bs) :: 'a word) n" for n
    by (auto simp: bit_push_bit_iff bit_unsigned_iff dest: bit_imp_le_length)
  have "(256::nat) ^ length (b # bs) = 2 ^ (8 * length (b # bs))" by (simp add: power_mult power_add)
  also have "\<dots> \<le> 2 ^ LENGTH('a)" using Cons.prems by (intro power_increasing) auto
  finally have small: "le_nat (b # bs) < 2 ^ LENGTH('a)" using le_nat_bound[of "b # bs"] by linarith
  have "le_get (b # bs) = (ucast b + push_bit 8 (le_get bs) :: 'a word)"
    using dis by (simp add: disjunctive_add)
  also have "\<dots> = word_of_nat (le_nat (b # bs))"
  proof -
    have "(ucast b :: 'a word) = word_of_nat (unat b)" "(le_get bs :: 'a word) = word_of_nat (le_nat bs)"
      using ih by (metis of_nat_unat ucast_id)+
    then show ?thesis by (simp add: push_bit_eq_mult)
  qed
  finally have "unat (le_get (b # bs) :: 'a word) = unat (word_of_nat (le_nat (b # bs)) :: 'a word)" by (rule arg_cong)
  then show ?case using small by (simp only: unat_of_nat mod_less)
qed simp

lemma be_get_put [codec_simps]:
  fixes x :: "'a::len word"
  shows "LENGTH('a) \<le> 8 * n \<Longrightarrow> be_get (be_put n x) = x"
  by (simp add: be_get_def be_put_def codec_simps)

lemma be_put_get [codec_simps]:
  assumes "8 * length bs \<le> LENGTH('a::len)"
  shows "be_put (length bs) (be_get bs :: 'a word) = bs"
proof -
  have "le_put (length (rev bs)) (le_get (rev bs) :: 'a word) = rev bs"
    using assms by (intro le_put_get) simp
  then show ?thesis by (simp add: be_get_def be_put_def)
qed

section \<open>Substring search\<close>

text \<open>\<open>bytes.Index\<close>: the first position at which the pattern occurs.\<close>

definition index_sub :: "'a list \<Rightarrow> 'a list \<Rightarrow> nat option" where
  "index_sub b s = find (\<lambda>i. take (length s) (drop i b) = s) [0..<Suc (length b) - length s]"

definition contains_sub :: "'a list \<Rightarrow> 'a list \<Rightarrow> bool" where
  "contains_sub b s \<longleftrightarrow> index_sub b s \<noteq> None"

definition has_prefix :: "'a list \<Rightarrow> 'a list \<Rightarrow> bool" where
  "has_prefix b s \<longleftrightarrow> take (length s) b = s"

lemma has_prefix_iff: "has_prefix b s \<longleftrightarrow> prefix s b"
  by (auto simp: has_prefix_def prefix_def) (metis append_take_drop_id)

lemma sublist_iff_window:
  "sublist s b \<longleftrightarrow> (\<exists>i < Suc (length b) - length s. take (length s) (drop i b) = s)"
proof
  assume "sublist s b"
  then obtain p q where "b = p @ s @ q" by (auto simp: sublist_def)
  then show "\<exists>i < Suc (length b) - length s. take (length s) (drop i b) = s"
    by (intro exI[of _ "length p"]) auto
next
  assume "\<exists>i < Suc (length b) - length s. take (length s) (drop i b) = s"
  then obtain i where "take (length s) (drop i b) = s" by blast
  then have "b = take i b @ s @ drop (length s) (drop i b)" by (metis append_take_drop_id)
  then show "sublist s b" unfolding sublist_def by blast
qed

lemma contains_sub_iff: "contains_sub b s \<longleftrightarrow> sublist s b"
  by (auto simp: contains_sub_def index_sub_def sublist_iff_window find_None_iff)

lemma index_sub_Some:
  assumes "index_sub b s = Some i"
  shows "i + length s \<le> length b" "take (length s) (drop i b) = s"
    "j < i \<Longrightarrow> take (length s) (drop j b) \<noteq> s"
proof -
  from assms obtain k where k: "k < Suc (length b) - length s" "i = k" "take (length s) (drop k b) = s"
    "\<And>j. j < k \<Longrightarrow> take (length s) (drop j b) \<noteq> s"
    by (auto simp: index_sub_def find_Some_iff)
  then show "i + length s \<le> length b" "take (length s) (drop i b) = s"
    "j < i \<Longrightarrow> take (length s) (drop j b) \<noteq> s" by auto
qed

lemma find_cong_upt:
  "(\<And>i. i < n \<Longrightarrow> P i = Q i) \<Longrightarrow> find P [0..<n] = find Q [0..<n]"
  by (rule find_cong) auto

end
