(* ===== verification/Events.thy ===== *)
theory Events
  imports Prelude
begin

text \<open>
  The data model shared by every component: the 128-byte observation
  \<open>Probe_event_t\<close> of \<open>internal/engine/types_gen.go\<close> and the subsystem,
  action and flag vocabularies of \<open>subsystems.go\<close> and \<open>c2blue55.go\<close>.
\<close>

record probe_event_t =
  Ts_ns :: u64
  Pid :: u32
  Tid :: u32
  Subsystem :: u16
  Action :: u16
  Flags :: u32
  Src :: u64
  Payload :: bytes

text \<open>The Go type fixes the payload array to 96 bytes.\<close>

definition event_wf :: "probe_event_t \<Rightarrow> bool" where
  "event_wf ev \<longleftrightarrow> length (Payload ev) = 96"

text \<open>The zero value of the struct.\<close>

definition zero_event :: probe_event_t where
  "zero_event = \<lparr>Ts_ns = 0, Pid = 0, Tid = 0, Subsystem = 0, Action = 0, Flags = 0,
                 Src = 0, Payload = replicate 96 0\<rparr>"

lemma zero_event_wf [simp]: "event_wf zero_event"
  by (simp add: event_wf_def zero_event_def)

lemma event_wf_update [simp]:
  "event_wf (ev\<lparr>Flags := f\<rparr>) = event_wf ev"
  by (simp add: event_wf_def)

abbreviation SubProc :: u16 where "SubProc \<equiv> 1"
abbreviation SubFile :: u16 where "SubFile \<equiv> 2"
abbreviation SubNet :: u16 where "SubNet \<equiv> 3"
abbreviation SubMCP :: u16 where "SubMCP \<equiv> 4"
abbreviation SubHarness :: u16 where "SubHarness \<equiv> 5"
abbreviation SubEntropy :: u16 where "SubEntropy \<equiv> 6"
abbreviation SubGPU :: u16 where "SubGPU \<equiv> 7"

abbreviation ActExec :: u16 where "ActExec \<equiv> 1"
abbreviation ActToolCall :: u16 where "ActToolCall \<equiv> 4"
abbreviation ActWrite :: u16 where "ActWrite \<equiv> 6"

abbreviation FlagVerdictOK :: u32 where "FlagVerdictOK \<equiv> 0x1"
abbreviation FlagBlocked :: u32 where "FlagBlocked \<equiv> 0x2"
abbreviation FlagAnomaly :: u32 where "FlagAnomaly \<equiv> 0x4"
abbreviation FlagLOLBAS :: u32 where "FlagLOLBAS \<equiv> 0x8"
abbreviation FlagCorrelatedThreat :: u32 where "FlagCorrelatedThreat \<equiv> 0x200"
abbreviation FlagLongPayload :: u32 where "FlagLongPayload \<equiv> 0x1000"

end
