(* ===== verification/Fifo.thy ===== *)
theory Fifo
  imports Prelude
begin

text \<open>
  The contract of a bounded first-in first-out queue with a rejection counter,
  the interface between the rings of the program and everything that feeds or
  drains them.  A queue is seen through the list of its pending elements.  The
  sequence counters of the implementations are 64-bit words that are never
  reset, so the contract also carries \<open>room\<close>, the number of insertions that
  can still be accepted before a counter wraps.
\<close>

datatype 'e fifo_op = Push 'e | Pop | PopBatch nat

text \<open>
  What a run of operations shows to the outside: the elements accepted, the
  number of elements rejected, the elements delivered.
\<close>

record 'e fifo_log =
  accepted :: "'e list"
  rejected :: nat
  delivered :: "'e list"

definition empty_log :: "'e fifo_log" where
  "empty_log = \<lparr>accepted = [], rejected = 0, delivered = []\<rparr>"

text \<open>Running a sequence of operations over any implementation.\<close>

fun fifo_run :: "('s \<Rightarrow> 'e \<Rightarrow> 's \<times> bool) \<Rightarrow> ('s \<Rightarrow> 's \<times> 'e option) \<Rightarrow> ('s \<Rightarrow> nat \<Rightarrow> 's \<times> 'e list)
    \<Rightarrow> 's \<times> 'e fifo_log \<Rightarrow> 'e fifo_op list \<Rightarrow> 's \<times> 'e fifo_log" where
  "fifo_run push pop batch (s, l) [] = (s, l)"
| "fifo_run push pop batch (s, l) (Push e # ops) =
     (let (s', b) = push s e in
      fifo_run push pop batch
        (s', if b then l\<lparr>accepted := accepted l @ [e]\<rparr> else l\<lparr>rejected := Suc (rejected l)\<rparr>) ops)"
| "fifo_run push pop batch (s, l) (Pop # ops) =
     (let (s', r) = pop s in
      fifo_run push pop batch
        (s', case r of None \<Rightarrow> l | Some e \<Rightarrow> l\<lparr>delivered := delivered l @ [e]\<rparr>) ops)"
| "fifo_run push pop batch (s, l) (PopBatch n # ops) =
     (let (s', es) = batch s n in
      fifo_run push pop batch (s', l\<lparr>delivered := delivered l @ es\<rparr>) ops)"

text \<open>The reference queue: a list and a capacity.\<close>

definition list_push :: "nat \<Rightarrow> 'e list \<Rightarrow> 'e \<Rightarrow> 'e list \<times> bool" where
  "list_push cap q e = (if length q < cap then (q @ [e], True) else (q, False))"

definition list_pop :: "'e list \<Rightarrow> 'e list \<times> 'e option" where
  "list_pop q = (case q of [] \<Rightarrow> ([], None) | e # q' \<Rightarrow> (q', Some e))"

definition list_batch :: "'e list \<Rightarrow> nat \<Rightarrow> 'e list \<times> 'e list" where
  "list_batch q n = (drop n q, take n q)"

text \<open>The elements the operations of a sequence try to insert, in order.\<close>

fun offered :: "'e fifo_op list \<Rightarrow> 'e list" where
  "offered [] = []"
| "offered (Push e # ops) = e # offered ops"
| "offered (_ # ops) = offered ops"

section \<open>Circular windows\<close>

text \<open>
  The elements of a circular array of \<open>cap\<close> slots between two sequence
  numbers \<open>t \<le> h\<close>.
\<close>

definition window :: "nat \<Rightarrow> (nat \<Rightarrow> 'e) \<Rightarrow> nat \<Rightarrow> nat \<Rightarrow> 'e list" where
  "window cap slots t h = map (\<lambda>i. slots (i mod cap)) [t..<h]"

lemma length_window [simp]: "length (window cap slots t h) = h - t"
  by (simp add: window_def)

lemma window_empty [simp]: "h \<le> t \<Longrightarrow> window cap slots t h = []"
  by (simp add: window_def)

lemma window_Cons: "t < h \<Longrightarrow> window cap slots t h = slots (t mod cap) # window cap slots (Suc t) h"
  by (simp add: window_def upt_conv_Cons)

lemma window_drop: "t + n \<le> h \<Longrightarrow> window cap slots (t + n) h = drop n (window cap slots t h)"
  by (simp add: window_def drop_map)

lemma window_take:
  "t + n \<le> h \<Longrightarrow> map (\<lambda>i. slots ((t + i) mod cap)) [0..<n] = take n (window cap slots t h)"
  by (rule nth_equalityI) (auto simp: window_def)

lemma distinct_mod_window:
  fixes i h cap :: nat
  assumes "t \<le> i" "i < h" "h < t + cap"
  shows "i mod cap \<noteq> h mod cap"
proof
  assume "i mod cap = h mod cap"
  then have "cap dvd h - i" using assms(2) by (metis less_imp_le mod_eq_dvd_iff_nat)
  moreover have "0 < h - i" "h - i < cap" using assms by auto
  ultimately show False by (auto dest: dvd_imp_le)
qed

text \<open>Writing the slot of the head of a window that is not full appends.\<close>

lemma window_push:
  assumes "t \<le> h" "h < t + cap"
  shows "window cap (slots(h mod cap := e)) t (Suc h) = window cap slots t h @ [e]"
  using assms distinct_mod_window[OF _ _ assms(2)] by (auto simp: window_def)

text \<open>
  The index arithmetic of a ring of \<open>2 ^ n\<close> slots: the masked sum of the
  tail counter and an offset runs over the window, whatever the counters are.
\<close>

lemma ring_batch_window:
  fixes t h :: u64
  assumes "unat t + k \<le> unat h"
  shows "map (\<lambda>i. slots (unat ((t + word_of_nat i) AND mask n))) [0..<k]
       = take k (window (2 ^ n) slots (unat t) (unat h))"
proof -
  have "slots (unat ((t + word_of_nat i) AND mask n)) = slots ((unat t + i) mod 2 ^ n)" if "i < k" for i
  proof -
    have "unat t + i < 2 ^ LENGTH(64)" using that assms unat_bound[of h] by linarith
    then show ?thesis by (simp add: unat_and_mask unat_plus_of_nat)
  qed
  then have "map (\<lambda>i. slots (unat ((t + word_of_nat i) AND mask n))) [0..<k]
           = map (\<lambda>i. slots ((unat t + i) mod 2 ^ n)) [0..<k]" by simp
  then show ?thesis using window_take[OF assms, of slots "2 ^ n"] by (simp only:)
qed

locale bounded_fifo =
  fixes pending :: "'s \<Rightarrow> 'e list"
    and ok :: "'s \<Rightarrow> bool"
    and room :: "'s \<Rightarrow> nat"
    and drops :: "'s \<Rightarrow> u64"
    and capacity :: nat
    and push :: "'s \<Rightarrow> 'e \<Rightarrow> 's \<times> bool"
    and pop :: "'s \<Rightarrow> 's \<times> 'e option"
    and batch :: "'s \<Rightarrow> nat \<Rightarrow> 's \<times> 'e list"
  assumes bound: "ok s \<Longrightarrow> length (pending s) \<le> capacity"
    and push_free: "ok s \<Longrightarrow> length (pending s) < capacity \<Longrightarrow> 0 < room s \<Longrightarrow> push s e = (s', b) \<Longrightarrow>
      b \<and> ok s' \<and> pending s' = pending s @ [e] \<and> drops s' = drops s \<and> Suc (room s') = room s"
    and push_full: "ok s \<Longrightarrow> length (pending s) = capacity \<Longrightarrow> push s e = (s', b) \<Longrightarrow>
      \<not> b \<and> ok s' \<and> pending s' = pending s \<and> drops s' = drops s + 1 \<and> room s' = room s"
    and pop_law: "ok s \<Longrightarrow> pop s = (s', r) \<Longrightarrow>
      ok s' \<and> (pending s', r) = list_pop (pending s) \<and> drops s' = drops s \<and> room s' = room s"
    and batch_law: "ok s \<Longrightarrow> batch s n = (s', es) \<Longrightarrow>
      ok s' \<and> (pending s', es) = list_batch (pending s) n \<and> drops s' = drops s \<and> room s' = room s"
begin

lemma push_cases:
  assumes "ok s" and "0 < room s" and "push s e = (s', b)"
  shows "ok s' \<and> (pending s', b) = list_push capacity (pending s) e
       \<and> drops s' = drops s + (if b then 0 else 1) \<and> room s \<le> Suc (room s')"
proof (cases "length (pending s) < capacity")
  case True
  then show ?thesis using push_free[OF assms(1) True assms(2,3)] by (simp add: list_push_def)
next
  case False
  then have "length (pending s) = capacity" using bound[OF assms(1)] by simp
  then show ?thesis using push_full[OF assms(1) _ assms(3)] by (simp add: list_push_def)
qed

text \<open>Every sequence of operations behaves as on the reference queue.\<close>

lemma run_refines:
  assumes "ok s" and "length (offered ops) \<le> room s"
    and "fifo_run push pop batch (s, l) ops = (s', l')"
  shows "ok s' \<and> fifo_run (list_push capacity) list_pop list_batch (pending s, l) ops = (pending s', l')"
  using assms
proof (induction ops arbitrary: s l)
  case Nil
  then show ?case by simp
next
  case (Cons op ops)
  show ?case
  proof (cases op)
    case (Push e)
    obtain s1 b where p: "push s e = (s1, b)" by force
    have "0 < room s" using Cons.prems(2) Push by simp
    from push_cases[OF Cons.prems(1) this p]
    have c: "ok s1" "list_push capacity (pending s) e = (pending s1, b)" "room s \<le> Suc (room s1)"
      by simp_all
    then have "length (offered ops) \<le> room s1" using Cons.prems(2) Push by simp
    with Cons.IH[OF c(1)] Cons.prems(3) show ?thesis by (simp add: Push p c(2))
  next
    case Pop
    obtain s1 r where p: "pop s = (s1, r)" by force
    from pop_law[OF Cons.prems(1) p]
    have c: "ok s1" "list_pop (pending s) = (pending s1, r)" "room s1 = room s" by simp_all
    with Cons.IH[OF c(1)] Cons.prems(2,3) show ?thesis by (simp add: Pop p c(2))
  next
    case (PopBatch n)
    obtain s1 es where p: "batch s n = (s1, es)" by force
    from batch_law[OF Cons.prems(1) p]
    have c: "ok s1" "list_batch (pending s) n = (pending s1, es)" "room s1 = room s" by simp_all
    with Cons.IH[OF c(1)] Cons.prems(2,3) show ?thesis by (simp add: PopBatch p c(2))
  qed
qed

end

section \<open>The reference queue loses and duplicates nothing\<close>

text \<open>What has been delivered and what is pending is exactly what was accepted.\<close>

lemma list_run_conserves:
  assumes "fifo_run (list_push cap) list_pop list_batch (q, l) ops = (q', l')"
    and "accepted l = delivered l @ q"
  shows "accepted l' = delivered l' @ q'"
  using assms
proof (induction ops arbitrary: q l)
  case (Cons op ops)
  then show ?case
    by (cases op) (auto simp: list_push_def list_pop_def list_batch_def Let_def
        split: if_splits list.splits)
qed simp

lemma list_run_counts:
  assumes "fifo_run (list_push cap) list_pop list_batch (q, l) ops = (q', l')"
  shows "length (accepted l') + rejected l' = length (accepted l) + rejected l + length (offered ops)"
  using assms
proof (induction ops arbitrary: q l)
  case (Cons op ops)
  then show ?case
    by (cases op) (auto simp: list_push_def list_pop_def list_batch_def Let_def
        split: if_splits list.splits)
qed simp

context bounded_fifo
begin

text \<open>
  From an empty log: delivery is in order of acceptance, without loss or
  duplication, and every offered element is either accepted or counted.
\<close>

lemma run_fifo:
  assumes "ok s" and "pending s = []" and "length (offered ops) \<le> room s"
    and "fifo_run push pop batch (s, empty_log) ops = (s', l)"
  shows "ok s' \<and> accepted l = delivered l @ pending s' \<and> length (pending s') \<le> capacity
       \<and> length (accepted l) + rejected l = length (offered ops)"
proof -
  from run_refines[OF assms(1,3,4)] assms(2)
  have r: "ok s'" "fifo_run (list_push capacity) list_pop list_batch ([], empty_log) ops = (pending s', l)"
    by simp_all
  from list_run_conserves[OF r(2)] list_run_counts[OF r(2)] bound[OF r(1)] r(1)
  show ?thesis by (simp add: empty_log_def)
qed

text \<open>The rejection counter of the queue grows by the rejections of the run.\<close>

lemma run_drops:
  assumes "ok s" and "length (offered ops) \<le> room s"
    and "fifo_run push pop batch (s, l) ops = (s', l')"
  shows "drops s' + of_nat (rejected l) = drops s + of_nat (rejected l')"
  using assms
proof (induction ops arbitrary: s l)
  case (Cons op ops)
  show ?case
  proof (cases op)
    case (Push e)
    obtain s1 b where p: "push s e = (s1, b)" by force
    have "0 < room s" using Cons.prems(2) Push by simp
    note c = push_cases[OF Cons.prems(1) this p]
    then have "length (offered ops) \<le> room s1" using Cons.prems(2) Push by simp
    from Cons.IH[OF _ this] Cons.prems(3) c show ?thesis
      by (fastforce simp: Push p algebra_simps split: if_splits)
  next
    case Pop
    obtain s1 r where p: "pop s = (s1, r)" by force
    note c = pop_law[OF Cons.prems(1) p]
    then have "length (offered ops) \<le> room s1" using Cons.prems(2) Pop by simp
    from Cons.IH[OF _ this] Cons.prems(3) c show ?thesis
      by (fastforce simp: Pop p split: option.splits)
  next
    case (PopBatch n)
    obtain s1 es where p: "batch s n = (s1, es)" by force
    note c = batch_law[OF Cons.prems(1) p]
    then have "length (offered ops) \<le> room s1" using Cons.prems(2) PopBatch by simp
    from Cons.IH[OF _ this] Cons.prems(3) c show ?thesis
      by (fastforce simp: PopBatch p)
  qed
qed simp

end

end
