(* ===== verification/RingBuffer.thy ===== *)
theory RingBuffer
  imports Events Fifo
begin

text \<open>
  The global observation channel, \<open>internal/engine/ring_buffer_gen.go\<close>: a
  ring of 1024 slots driven by two 64-bit sequence counters.  A nil pointer is
  \<open>None\<close>.  The slot array is a function of the slot number, which every
  operation computes with the mask \<open>0x3ff\<close>; the padding fields are left out.
  Each operation returns its Go result together with the updated structures.
\<close>

record probe_channel_t =
  Slots :: "nat \<Rightarrow> probe_event_t"
  Head :: u64
  Drops :: u64
  Tail :: u64

definition C2bt_channel_init :: "probe_channel_t option \<Rightarrow> probe_channel_t option" where
  "C2bt_channel_init ch = (case ch of
     None \<Rightarrow> None
   | Some c \<Rightarrow> Some (c\<lparr>Head := 0, Drops := 0, Tail := 0, Slots := (\<lambda>_. zero_event)\<rparr>))"

definition C2bt_channel_write ::
    "probe_channel_t option \<Rightarrow> probe_event_t option \<Rightarrow> int \<times> probe_channel_t option" where
  "C2bt_channel_write ch ev = (case (ch, ev) of
     (Some c, Some e) \<Rightarrow>
       (let v14 = Head c in
        if 0x400 \<le> v14 - Tail c then (-2, Some (c\<lparr>Drops := Drops c + 1\<rparr>))
        else (let v32 = v14 AND 0x3ff in
              (0, Some (c\<lparr>Slots := (Slots c)(unat v32 := e), Head := v14 + 1\<rparr>))))
   | _ \<Rightarrow> (-1, ch))"

text \<open>The third component is the event the out-pointer designates afterwards.\<close>

definition C2bt_channel_read ::
    "probe_channel_t option \<Rightarrow> probe_event_t option \<Rightarrow> int \<times> probe_channel_t option \<times> probe_event_t option" where
  "C2bt_channel_read ch ev = (case (ch, ev) of
     (Some c, Some e) \<Rightarrow>
       (let v14 = Tail c in
        if Head c \<le> v14 then (0, ch, ev)
        else (let v23 = v14 AND 0x3ff in
              (1, Some (c\<lparr>Tail := v14 + 1\<rparr>), Some (Slots c (unat v23)))))
   | _ \<Rightarrow> (-1, ch, ev))"

text \<open>
  The batch read.  Go's \<open>int(v23)\<close> reinterprets the 64-bit difference as a
  signed value, and re-slicing \<open>out_events[:v26]\<close> panics when that value is
  negative.
\<close>

definition C2bt_channel_read_batch ::
    "probe_channel_t option \<Rightarrow> probe_event_t list \<Rightarrow> int
      \<Rightarrow> (int \<times> probe_channel_t option \<times> probe_event_t list) outcome" where
  "C2bt_channel_read_batch ch out_events max_events0 =
     (let max_events = (if int (length out_events) < max_events0
                        then int (length out_events) else max_events0) in
      case ch of
        None \<Rightarrow> Ret (0, ch, out_events)
      | Some c \<Rightarrow>
          if max_events \<le> 0 then Ret (0, ch, out_events)
          else let v16 = Tail c; v23 = Head c - v16 in
            if v23 = 0 then Ret (0, ch, out_events)
            else let v26 = (if max_events < sint v23 then max_events else sint v23) in
              if v26 < 0 then Panic
              else Ret (v26, Some (c\<lparr>Tail := v16 + word_of_int v26\<rparr>),
                map (\<lambda>v28. Slots c (unat ((v16 + word_of_nat v28) AND 0x3ff))) [0..<nat v26]
                @ drop (nat v26) out_events))"

definition C2bt_channel_get_drops :: "probe_channel_t option \<Rightarrow> u64" where
  "C2bt_channel_get_drops ch = (case ch of None \<Rightarrow> 0 | Some c \<Rightarrow> Drops c)"

definition NewChannel :: probe_channel_t where
  "NewChannel = the (C2bt_channel_init
     (Some \<lparr>Slots = (\<lambda>_. zero_event), Head = 0, Drops = 0, Tail = 0\<rparr>))"

section \<open>Invariant and abstraction\<close>

text \<open>
  The tail never passes the head and trails it by at most the capacity, as
  numbers: this is what the unsigned comparison of the single read and the
  wrapped difference of the write rely on.
\<close>

definition channel_ok :: "probe_channel_t \<Rightarrow> bool" where
  "channel_ok c \<longleftrightarrow> unat (Tail c) \<le> unat (Head c) \<and> unat (Head c) \<le> unat (Tail c) + 1024"

definition channel_pending :: "probe_channel_t \<Rightarrow> probe_event_t list" where
  "channel_pending c = window 1024 (Slots c) (unat (Tail c)) (unat (Head c))"

text \<open>Insertions left before the head counter wraps.\<close>

definition channel_room :: "probe_channel_t \<Rightarrow> nat" where
  "channel_room c = 2 ^ 64 - 1 - unat (Head c)"

text \<open>The operations as a client holding a channel and a buffer sees them.\<close>

definition channel_push :: "probe_channel_t \<Rightarrow> probe_event_t \<Rightarrow> probe_channel_t \<times> bool" where
  "channel_push c e = (let (rc, c') = C2bt_channel_write (Some c) (Some e) in (the c', rc = 0))"

definition channel_pop :: "probe_channel_t \<Rightarrow> probe_channel_t \<times> probe_event_t option" where
  "channel_pop c = (let (rc, c', e) = C2bt_channel_read (Some c) (Some zero_event)
                    in (the c', if rc = 1 then e else None))"

definition channel_batch :: "probe_channel_t \<Rightarrow> nat \<Rightarrow> probe_channel_t \<times> probe_event_t list" where
  "channel_batch c n = (case C2bt_channel_read_batch (Some c) (replicate n zero_event) (int n) of
     Ret (k, c', out) \<Rightarrow> (the c', take (nat k) out)
   | Panic \<Rightarrow> (c, []))"

lemma and_3ff: "unat ((x :: u64) AND 0x3ff) = unat x mod 1024"
  using unat_and_mask[of x 10] by (simp add: mask_eq_exp_minus_1)

lemma channel_index_in_range: "unat ((x :: u64) AND 0x3ff) < 1024"
  by (simp add: and_3ff)

lemma channel_occupancy:
  assumes "channel_ok c"
  shows "unat (Head c - Tail c) = unat (Head c) - unat (Tail c)"
    and "(0x400 \<le> Head c - Tail c) \<longleftrightarrow> unat (Head c) = unat (Tail c) + 1024"
    and "sint (Head c - Tail c) = int (unat (Head c) - unat (Tail c))"
proof -
  show u: "unat (Head c - Tail c) = unat (Head c) - unat (Tail c)"
    using assms by (simp add: channel_ok_def unat_minus_le word_le_nat_alt)
  with assms show "(0x400 \<le> Head c - Tail c) \<longleftrightarrow> unat (Head c) = unat (Tail c) + 1024"
    by (auto simp: channel_ok_def word_le_nat_alt)
  have "unat (Head c) - unat (Tail c) \<le> 1024" using assms by (auto simp: channel_ok_def)
  then have "unat (Head c - Tail c) < 2 ^ (LENGTH(64) - 1)" unfolding u
    by (rule order_le_less_trans) simp
  from sint_small[OF this] u
  show "sint (Head c - Tail c) = int (unat (Head c) - unat (Tail c))" by simp
qed

section \<open>Correctness\<close>

lemma channel_push_free:
  assumes "channel_ok c" "length (channel_pending c) < 1024" "0 < channel_room c"
    and "channel_push c e = (c', b)"
  shows "b \<and> channel_ok c' \<and> channel_pending c' = channel_pending c @ [e]
       \<and> Drops c' = Drops c \<and> Suc (channel_room c') = channel_room c"
proof -
  have lt: "\<not> 0x400 \<le> Head c - Tail c" and nw: "Suc (unat (Head c)) < 2 ^ 64"
    using assms(1-3) by (auto simp: channel_occupancy(2)[OF assms(1)] channel_pending_def
        channel_ok_def channel_room_def)
  from nw have u: "unat (Head c + 1) = Suc (unat (Head c))" by (intro unat_plus_one) simp
  have c': "b" "c' = c\<lparr>Slots := (Slots c)(unat (Head c) mod 1024 := e), Head := Head c + 1\<rparr>"
    using assms(4) lt by (auto simp: channel_push_def C2bt_channel_write_def Let_def and_3ff)
  have le: "unat (Tail c) \<le> unat (Head c)" "unat (Head c) < unat (Tail c) + 1024"
    using assms(1,2) by (auto simp: channel_ok_def channel_pending_def)
  show ?thesis using c' u le nw window_push[OF le, of "Slots c" e]
    by (auto simp: channel_ok_def channel_pending_def channel_room_def)
qed

lemma channel_push_full:
  assumes "channel_ok c" "length (channel_pending c) = 1024" and "channel_push c e = (c', b)"
  shows "\<not> b \<and> channel_ok c' \<and> channel_pending c' = channel_pending c
       \<and> Drops c' = Drops c + 1 \<and> channel_room c' = channel_room c"
proof -
  have "unat (Head c) = unat (Tail c) + 1024"
    using assms(1,2) by (auto simp: channel_ok_def channel_pending_def)
  then have "0x400 \<le> Head c - Tail c" by (simp add: channel_occupancy(2)[OF assms(1)])
  then show ?thesis using assms
    by (auto simp: channel_push_def C2bt_channel_write_def channel_ok_def channel_pending_def
        channel_room_def)
qed

lemma channel_pop_law:
  assumes "channel_ok c" and "channel_pop c = (c', r)"
  shows "channel_ok c' \<and> (channel_pending c', r) = list_pop (channel_pending c)
       \<and> Drops c' = Drops c \<and> channel_room c' = channel_room c"
proof (cases "Head c \<le> Tail c")
  case True
  then show ?thesis using assms
    by (auto simp: channel_pop_def C2bt_channel_read_def channel_pending_def list_pop_def
        word_le_nat_alt)
next
  case False
  then have lt: "unat (Tail c) < unat (Head c)" by (simp add: word_le_nat_alt)
  then have "unat (Tail c + 1) = Suc (unat (Tail c))"
    using unat_bound[of "Head c"] by (intro unat_plus_one) simp
  with lt False assms show ?thesis
    by (auto simp: channel_pop_def C2bt_channel_read_def channel_pending_def list_pop_def
        window_Cons channel_ok_def channel_room_def and_3ff Let_def)
qed

text \<open>The batch read under the invariant: never a panic, a prefix of the queue.\<close>

lemma channel_read_batch_ok:
  assumes "channel_ok c" and "0 < m" and "m \<le> int (length out)"
  shows "\<exists>c' k. C2bt_channel_read_batch (Some c) out m = Ret (int k, Some c', take k (channel_pending c) @ drop k out)
       \<and> k = min (nat m) (length (channel_pending c))
       \<and> channel_ok c' \<and> channel_pending c' = drop k (channel_pending c)
       \<and> Drops c' = Drops c \<and> channel_room c' = channel_room c"
proof -
  define n k where "n = unat (Head c) - unat (Tail c)" and "k = min (nat m) n"
  note occ = channel_occupancy(1,3)[OF assms(1), folded n_def]
  have le: "unat (Tail c) \<le> unat (Head c)" using assms(1) by (simp add: channel_ok_def)
  then have kh: "unat (Tail c) + k \<le> unat (Head c)" by (auto simp: k_def n_def)
  have tk: "unat (Tail c + word_of_nat k) = unat (Tail c) + k"
    using kh unat_bound[of "Head c"] by (intro unat_plus_of_nat) linarith
  have w: "map (\<lambda>i. Slots c (unat ((Tail c + word_of_nat i) AND 0x3ff))) [0..<k] = take k (channel_pending c)"
    using ring_batch_window[OF kh, of "Slots c" 10]
    by (simp add: channel_pending_def mask_eq_exp_minus_1)
  have z: "Head c - Tail c = 0 \<longleftrightarrow> k = 0"
    using occ(1) assms(2) by (auto simp: k_def simp flip: unat_eq_zero)
  define c' where "c' = c\<lparr>Tail := Tail c + word_of_nat k\<rparr>"
  have ik: "(if m < int n then m else sint (Head c - Tail c)) = int k"
    using assms(2) by (auto simp: k_def occ(2))
  have "C2bt_channel_read_batch (Some c) out m = Ret (int k, Some c', take k (channel_pending c) @ drop k out)"
  proof (cases "k = 0")
    case True
    then show ?thesis using assms z by (simp add: C2bt_channel_read_batch_def Let_def c'_def)
  next
    case False
    then show ?thesis using assms z w
      by (simp add: C2bt_channel_read_batch_def Let_def c'_def occ(2) ik split del: if_split)
  qed
  moreover have "k = min (nat m) (length (channel_pending c))"
    by (simp add: k_def n_def channel_pending_def)
  moreover have "channel_ok c'" "channel_pending c' = drop k (channel_pending c)"
    using tk kh assms(1) window_drop[OF kh, of 1024 "Slots c"]
    by (auto simp: channel_ok_def c'_def channel_pending_def)
  ultimately show ?thesis by (intro exI[of _ c'] exI[of _ k]) (simp add: c'_def channel_room_def)
qed

lemma channel_batch_law:
  assumes "channel_ok c" and "channel_batch c n = (c', es)"
  shows "channel_ok c' \<and> (channel_pending c', es) = list_batch (channel_pending c) n
       \<and> Drops c' = Drops c \<and> channel_room c' = channel_room c"
proof (cases "n = 0")
  case True
  then show ?thesis using assms
    by (simp add: channel_batch_def C2bt_channel_read_batch_def list_batch_def)
next
  case False
  from channel_read_batch_ok[OF assms(1), of "int n" "replicate n zero_event"] False
  show ?thesis using assms(2)
    by (auto simp: channel_batch_def list_batch_def min_def split: if_splits)
qed

interpretation chan: bounded_fifo channel_pending channel_ok channel_room Drops 1024
    channel_push channel_pop channel_batch
proof unfold_locales
  show "channel_ok s \<Longrightarrow> length (channel_pending s) \<le> 1024" for s
    by (auto simp: channel_ok_def channel_pending_def)
qed (fact channel_push_free channel_push_full channel_pop_law channel_batch_law)+

lemma NewChannel_ok [simp]:
  "channel_ok NewChannel" "channel_pending NewChannel = []" "channel_room NewChannel = 2 ^ 64 - 1"
  by (simp_all add: NewChannel_def C2bt_channel_init_def channel_ok_def channel_pending_def
      channel_room_def)

section \<open>Properties\<close>

text \<open>
  C1.  From a new channel, any sequence of fewer than \<open>2 ^ 64\<close> writes, reads and
  batch reads delivers the accepted events exactly once and in order, keeps the
  rest pending (at most 1024 of them), and accounts for every offered event
  either as accepted or in the rejection counter.
\<close>

theorem channel_fifo:
  assumes "length (offered ops) < 2 ^ 64"
    and "fifo_run channel_push channel_pop channel_batch (NewChannel, empty_log) ops = (c, l)"
  shows "accepted l = delivered l @ channel_pending c
       \<and> length (channel_pending c) \<le> 1024
       \<and> length (accepted l) + rejected l = length (offered ops)
       \<and> C2bt_channel_get_drops (Some c) = of_nat (rejected l)"
proof -
  have room: "length (offered ops) \<le> channel_room NewChannel" using assms(1) by simp
  have "C2bt_channel_get_drops (Some c) = of_nat (rejected l)"
    using chan.run_drops[OF NewChannel_ok(1) room assms(2)]
    by (simp add: C2bt_channel_get_drops_def NewChannel_def C2bt_channel_init_def empty_log_def)
  with chan.run_fifo[OF NewChannel_ok(1,2) room assms(2)] show ?thesis by blast
qed

theorem channel_fifo_witness:
  "let ops = [Push zero_event, Push (zero_event\<lparr>Pid := 7\<rparr>), Pop];
       (c, l) = fifo_run channel_push channel_pop channel_batch (NewChannel, empty_log) ops
   in length (offered ops) < 2 ^ 64 \<and> accepted l = delivered l @ channel_pending c
      \<and> length (accepted l) + rejected l = 2 \<and> C2bt_channel_get_drops (Some c) = of_nat (rejected l)"
proof -
  let ?ops = "[Push zero_event, Push (zero_event\<lparr>Pid := 7\<rparr>), Pop]"
  obtain c l where r: "fifo_run channel_push channel_pop channel_batch (NewChannel, empty_log) ?ops = (c, l)"
    by (metis surj_pair)
  from channel_fifo[OF _ r] show ?thesis unfolding Let_def r by auto
qed

end
