(* ===== verification/Router.thy ===== *)
theory Router
  imports RingBuffer
begin

text \<open>
  The fan-out router of \<open>router.go\<close>: four rings of 256 slots, one per
  routed subsystem, fed from the global channel and drained by workers.  The
  rings satisfy the same queue contract as the global channel.
\<close>

section \<open>The sub-ring\<close>

record SubRing =
  sr_head :: u64
  sr_tail :: u64
  sr_drops :: u64
  sr_slots :: "nat \<Rightarrow> probe_event_t"

definition SubRing_zero :: SubRing where
  "SubRing_zero = \<lparr>sr_head = 0, sr_tail = 0, sr_drops = 0, sr_slots = (\<lambda>_. zero_event)\<rparr>"

abbreviation subRingSlots :: "'a::len word" where "subRingSlots \<equiv> 256"
abbreviation subRingMask :: u64 where "subRingMask \<equiv> 0xff"

definition SubRing_Push :: "SubRing \<Rightarrow> probe_event_t \<Rightarrow> SubRing \<times> bool" where
  "SubRing_Push r ev = (let head = sr_head r in
     if subRingSlots \<le> head - sr_tail r then (r\<lparr>sr_drops := sr_drops r + 1\<rparr>, False)
     else (r\<lparr>sr_slots := (sr_slots r)(unat (head AND subRingMask) := ev), sr_head := head + 1\<rparr>, True))"

text \<open>\<open>Pop\<close> leaves its out-parameter alone on an empty ring: \<open>None\<close>.\<close>

definition SubRing_Pop :: "SubRing \<Rightarrow> SubRing \<times> probe_event_t option" where
  "SubRing_Pop r = (let tail = sr_tail r in
     if sr_head r \<le> tail then (r, None)
     else (r\<lparr>sr_tail := tail + 1\<rparr>, Some (sr_slots r (unat (tail AND subRingMask)))))"

text \<open>
  \<open>PopBatch\<close> returns the count, the ring and the buffer; \<open>min(int(available), maxEvents)\<close>
  is a signed minimum, and ranging over a negative count does nothing.
\<close>

definition SubRing_PopBatch ::
    "SubRing \<Rightarrow> probe_event_t list \<Rightarrow> int \<Rightarrow> int \<times> SubRing \<times> probe_event_t list" where
  "SubRing_PopBatch r out maxEvents0 =
     (if maxEvents0 \<le> 0 then (0, r, out)
      else let maxEvents = (if int (length out) < maxEvents0 then int (length out) else maxEvents0);
               tail = sr_tail r;
               available = sr_head r - tail in
        if available = 0 then (0, r, out)
        else let n = min (sint available) maxEvents in
          (n, r\<lparr>sr_tail := tail + word_of_int n\<rparr>,
           map (\<lambda>i. sr_slots r (unat ((tail + word_of_nat i) AND subRingMask))) [0..<nat n]
           @ drop (nat n) out))"

definition SubRing_Len :: "SubRing \<Rightarrow> u64" where
  "SubRing_Len r = (if sr_head r < sr_tail r then 0 else sr_head r - sr_tail r)"

definition SubRing_Drops :: "SubRing \<Rightarrow> u64" where
  "SubRing_Drops r = sr_drops r"

subsection \<open>Invariant, abstraction and the queue contract\<close>

definition subring_ok :: "SubRing \<Rightarrow> bool" where
  "subring_ok r \<longleftrightarrow> unat (sr_tail r) \<le> unat (sr_head r) \<and> unat (sr_head r) \<le> unat (sr_tail r) + 256"

definition subring_pending :: "SubRing \<Rightarrow> probe_event_t list" where
  "subring_pending r = window 256 (sr_slots r) (unat (sr_tail r)) (unat (sr_head r))"

definition subring_room :: "SubRing \<Rightarrow> nat" where
  "subring_room r = 2 ^ 64 - 1 - unat (sr_head r)"

definition subring_batch :: "SubRing \<Rightarrow> nat \<Rightarrow> SubRing \<times> probe_event_t list" where
  "subring_batch r n = (let (k, r', out) = SubRing_PopBatch r (replicate n zero_event) (int n)
                        in (r', take (nat k) out))"

lemma and_ff: "unat ((x :: u64) AND 0xff) = unat x mod 256"
  using unat_and_mask[of x 8] by (simp add: mask_eq_exp_minus_1)

lemma subring_index_in_range: "unat ((x :: u64) AND subRingMask) < 256"
  by (simp add: and_ff)

lemma subring_occupancy:
  assumes "subring_ok r"
  shows "unat (sr_head r - sr_tail r) = unat (sr_head r) - unat (sr_tail r)"
    and "(256 \<le> sr_head r - sr_tail r) \<longleftrightarrow> unat (sr_head r) = unat (sr_tail r) + 256"
    and "sint (sr_head r - sr_tail r) = int (unat (sr_head r) - unat (sr_tail r))"
proof -
  show u: "unat (sr_head r - sr_tail r) = unat (sr_head r) - unat (sr_tail r)"
    using assms by (simp add: subring_ok_def unat_minus_le word_le_nat_alt)
  with assms show "(256 \<le> sr_head r - sr_tail r) \<longleftrightarrow> unat (sr_head r) = unat (sr_tail r) + 256"
    by (auto simp: subring_ok_def word_le_nat_alt)
  have "unat (sr_head r) - unat (sr_tail r) \<le> 256" using assms by (auto simp: subring_ok_def)
  then have "unat (sr_head r - sr_tail r) < 2 ^ (LENGTH(64) - 1)" unfolding u
    by (rule order_le_less_trans) simp
  from sint_small[OF this] u
  show "sint (sr_head r - sr_tail r) = int (unat (sr_head r) - unat (sr_tail r))" by simp
qed

lemma subring_push_free:
  assumes "subring_ok r" "length (subring_pending r) < 256" "0 < subring_room r"
    and "SubRing_Push r e = (r', b)"
  shows "b \<and> subring_ok r' \<and> subring_pending r' = subring_pending r @ [e]
       \<and> sr_drops r' = sr_drops r \<and> Suc (subring_room r') = subring_room r"
proof -
  have lt: "\<not> 256 \<le> sr_head r - sr_tail r" and nw: "Suc (unat (sr_head r)) < 2 ^ 64"
    using assms(1-3) by (auto simp: subring_occupancy(2)[OF assms(1)] subring_pending_def
        subring_ok_def subring_room_def)
  from nw have u: "unat (sr_head r + 1) = Suc (unat (sr_head r))" by (intro unat_plus_one) simp
  have r': "b" "r' = r\<lparr>sr_slots := (sr_slots r)(unat (sr_head r) mod 256 := e), sr_head := sr_head r + 1\<rparr>"
    using assms(4) lt by (auto simp: SubRing_Push_def Let_def and_ff)
  have le: "unat (sr_tail r) \<le> unat (sr_head r)" "unat (sr_head r) < unat (sr_tail r) + 256"
    using assms(1,2) by (auto simp: subring_ok_def subring_pending_def)
  show ?thesis using r' u le nw window_push[OF le, of "sr_slots r" e]
    by (auto simp: subring_ok_def subring_pending_def subring_room_def)
qed

lemma subring_push_full:
  assumes "subring_ok r" "length (subring_pending r) = 256" and "SubRing_Push r e = (r', b)"
  shows "\<not> b \<and> subring_ok r' \<and> subring_pending r' = subring_pending r
       \<and> sr_drops r' = sr_drops r + 1 \<and> subring_room r' = subring_room r"
proof -
  have "unat (sr_head r) = unat (sr_tail r) + 256"
    using assms(1,2) by (auto simp: subring_ok_def subring_pending_def)
  then have "256 \<le> sr_head r - sr_tail r" by (simp add: subring_occupancy(2)[OF assms(1)])
  then show ?thesis using assms
    by (auto simp: SubRing_Push_def subring_ok_def subring_pending_def subring_room_def)
qed

lemma subring_pop_law:
  assumes "subring_ok r" and "SubRing_Pop r = (r', x)"
  shows "subring_ok r' \<and> (subring_pending r', x) = list_pop (subring_pending r)
       \<and> sr_drops r' = sr_drops r \<and> subring_room r' = subring_room r"
proof (cases "sr_head r \<le> sr_tail r")
  case True
  then show ?thesis using assms
    by (auto simp: SubRing_Pop_def subring_pending_def list_pop_def word_le_nat_alt)
next
  case False
  then have lt: "unat (sr_tail r) < unat (sr_head r)" by (simp add: word_le_nat_alt)
  then have "unat (sr_tail r + 1) = Suc (unat (sr_tail r))"
    using unat_bound[of "sr_head r"] by (intro unat_plus_one) simp
  with lt False assms show ?thesis
    by (auto simp: SubRing_Pop_def subring_pending_def list_pop_def window_Cons subring_ok_def
        subring_room_def and_ff Let_def)
qed

lemma subring_popbatch_ok:
  assumes "subring_ok r" and "0 < m" and "m \<le> int (length out)"
  shows "\<exists>r' k. SubRing_PopBatch r out m = (int k, r', take k (subring_pending r) @ drop k out)
       \<and> k = min (nat m) (length (subring_pending r))
       \<and> subring_ok r' \<and> subring_pending r' = drop k (subring_pending r)
       \<and> sr_drops r' = sr_drops r \<and> subring_room r' = subring_room r"
proof -
  define n k where "n = unat (sr_head r) - unat (sr_tail r)" and "k = min (nat m) n"
  note occ = subring_occupancy(1,3)[OF assms(1), folded n_def]
  have le: "unat (sr_tail r) \<le> unat (sr_head r)" using assms(1) by (simp add: subring_ok_def)
  then have kh: "unat (sr_tail r) + k \<le> unat (sr_head r)" by (auto simp: k_def n_def)
  have tk: "unat (sr_tail r + word_of_nat k) = unat (sr_tail r) + k"
    using kh unat_bound[of "sr_head r"] by (intro unat_plus_of_nat) linarith
  have w: "map (\<lambda>i. sr_slots r (unat ((sr_tail r + word_of_nat i) AND 0xff))) [0..<k] = take k (subring_pending r)"
    using ring_batch_window[OF kh, of "sr_slots r" 8]
    by (simp add: subring_pending_def mask_eq_exp_minus_1)
  have z: "sr_head r - sr_tail r = 0 \<longleftrightarrow> k = 0"
    using occ(1) assms(2) by (auto simp: k_def simp flip: unat_eq_zero)
  define r' where "r' = r\<lparr>sr_tail := sr_tail r + word_of_nat k\<rparr>"
  have ik: "min (int n) m = int k" using assms(2) by (auto simp: k_def)
  have "SubRing_PopBatch r out m = (int k, r', take k (subring_pending r) @ drop k out)"
    using assms z w by (cases "k = 0") (simp_all add: SubRing_PopBatch_def Let_def r'_def occ(2) ik)
  moreover have "k = min (nat m) (length (subring_pending r))"
    by (simp add: k_def n_def subring_pending_def)
  moreover have "subring_ok r'" "subring_pending r' = drop k (subring_pending r)"
    using tk kh assms(1) window_drop[OF kh, of 256 "sr_slots r"]
    by (auto simp: subring_ok_def r'_def subring_pending_def)
  ultimately show ?thesis by (intro exI[of _ r'] exI[of _ k]) (simp add: r'_def subring_room_def)
qed

lemma subring_batch_law:
  assumes "subring_ok r" and "subring_batch r n = (r', es)"
  shows "subring_ok r' \<and> (subring_pending r', es) = list_batch (subring_pending r) n
       \<and> sr_drops r' = sr_drops r \<and> subring_room r' = subring_room r"
proof (cases "n = 0")
  case True
  then show ?thesis using assms
    by (simp add: subring_batch_def SubRing_PopBatch_def list_batch_def)
next
  case False
  from subring_popbatch_ok[OF assms(1), of "int n" "replicate n zero_event"] False
  show ?thesis using assms(2)
    by (auto simp: subring_batch_def list_batch_def min_def split: if_splits)
qed

interpretation subring: bounded_fifo subring_pending subring_ok subring_room sr_drops 256
    SubRing_Push SubRing_Pop subring_batch
proof unfold_locales
  show "subring_ok s \<Longrightarrow> length (subring_pending s) \<le> 256" for s
    by (auto simp: subring_ok_def subring_pending_def)
qed (fact subring_push_free subring_push_full subring_pop_law subring_batch_law)+

lemma SubRing_zero_ok [simp]:
  "subring_ok SubRing_zero" "subring_pending SubRing_zero = []" "subring_room SubRing_zero = 2 ^ 64 - 1"
  by (simp_all add: SubRing_zero_def subring_ok_def subring_pending_def subring_room_def)

lemma SubRing_Len_pending:
  "subring_ok r \<Longrightarrow> unat (SubRing_Len r) = length (subring_pending r)"
  by (auto simp: SubRing_Len_def subring_occupancy subring_pending_def word_less_nat_alt)

section \<open>The router\<close>

record Router =
  rings :: "SubRing list"
  batch :: "probe_event_t list"
  dropsUnknown :: u64

definition NewRouter :: Router where
  "NewRouter = \<lparr>rings = replicate 4 SubRing_zero, batch = replicate 64 zero_event, dropsUnknown = 0\<rparr>"

text \<open>The \<open>-1\<close> of the default case is \<open>None\<close>.\<close>

definition ringIndex :: "u16 \<Rightarrow> nat option" where
  "ringIndex subsystem =
     (if subsystem = SubProc then Some 0
      else if subsystem = SubFile then Some 1
      else if subsystem = SubNet then Some 2
      else if subsystem = SubMCP then Some 3
      else None)"

definition Dispatch :: "Router \<Rightarrow> probe_event_t \<Rightarrow> Router \<times> bool" where
  "Dispatch r ev = (case ringIndex (Subsystem ev) of
     None \<Rightarrow> (r\<lparr>dropsUnknown := dropsUnknown r + 1\<rparr>, False)
   | Some index \<Rightarrow>
       (let (sr, b) = SubRing_Push (rings r ! index) ev
        in (r\<lparr>rings := (rings r)[index := sr]\<rparr>, b)))"

fun DispatchBatch :: "Router \<Rightarrow> probe_event_t list \<Rightarrow> Router \<times> nat" where
  "DispatchBatch r [] = (r, 0)"
| "DispatchBatch r (ev # events) =
     (let (r1, b) = Dispatch r ev; (r2, n) = DispatchBatch r1 events
      in (r2, if b then Suc n else n))"

text \<open>
  One turn of \<open>DispatchLoop\<close> after the stop signal was found open, and the
  loop itself.  The list gives, for each turn, whether the stop channel is
  closed when the turn begins; it is a prefix of an execution, so the loop
  also ends when the prefix does.
\<close>

definition DispatchLoop_turn :: "Router \<Rightarrow> probe_channel_t \<Rightarrow> (Router \<times> probe_channel_t) outcome" where
  "DispatchLoop_turn r ch =
     obind (C2bt_channel_read_batch (Some ch) (batch r) 64) (\<lambda>(n, ch', buf).
       if n = 0 then Ret (r\<lparr>batch := buf\<rparr>, the ch')
       else let (r', _) = DispatchBatch (r\<lparr>batch := buf\<rparr>) (take (nat n) buf)
            in Ret (r', the ch'))"

fun DispatchLoop :: "Router \<Rightarrow> probe_channel_t option \<Rightarrow> bool list \<Rightarrow> (Router \<times> probe_channel_t option) outcome" where
  "DispatchLoop r None stops = Ret (r, None)"
| "DispatchLoop r (Some ch) [] = Ret (r, Some ch)"
| "DispatchLoop r (Some ch) (stopped # stops) =
     (if stopped then Ret (r, Some ch)
      else obind (DispatchLoop_turn r ch) (\<lambda>(r', ch'). DispatchLoop r' (Some ch') stops))"

text \<open>A worker is a state transformer; \<open>None\<close> is the nil interface.\<close>

fun Consume :: "('w \<Rightarrow> probe_event_t \<Rightarrow> 'w) option \<Rightarrow> 'w \<Rightarrow> SubRing \<Rightarrow> bool list \<Rightarrow> 'w \<times> SubRing" where
  "Consume None w r stops = (w, r)"
| "Consume (Some handle) w r [] = (w, r)"
| "Consume (Some handle) w r (stopped # stops) =
     (if stopped then (w, r)
      else let (n, r', local) = SubRing_PopBatch r (replicate 64 zero_event) 64
           in Consume (Some handle) (foldl handle w (take (nat n) local)) r' stops)"

subsection \<open>Routing is exact\<close>

definition router_ok :: "Router \<Rightarrow> bool" where
  "router_ok r \<longleftrightarrow> length (rings r) = 4 \<and> length (batch r) = 64 \<and> (\<forall>sr \<in> set (rings r). subring_ok sr)"

definition router_room :: "Router \<Rightarrow> nat \<Rightarrow> bool" where
  "router_room r n \<longleftrightarrow> (\<forall>sr \<in> set (rings r). n \<le> subring_room sr)"

definition routed_to :: "nat \<Rightarrow> probe_event_t list \<Rightarrow> probe_event_t list" where
  "routed_to k events = filter (\<lambda>ev. ringIndex (Subsystem ev) = Some k) events"

definition unrouted :: "probe_event_t list \<Rightarrow> nat" where
  "unrouted events = length (filter (\<lambda>ev. ringIndex (Subsystem ev) = None) events)"

lemma NewRouter_ok: "router_ok NewRouter" "n < 2 ^ 64 \<Longrightarrow> router_room NewRouter n"
  by (auto simp: router_ok_def router_room_def NewRouter_def)

lemma ringIndex_lt: "ringIndex s = Some k \<Longrightarrow> k < 4"
  by (auto simp: ringIndex_def split: if_splits)

lemma Dispatch_ring:
  assumes "router_ok r" "router_room r (Suc n)" "Dispatch r ev = (r', b)"
  shows "router_ok r'" and "router_room r' n"
    and "k < 4 \<Longrightarrow> subring_pending (rings r' ! k) =
           subring_pending (rings r ! k) @ take (256 - length (subring_pending (rings r ! k))) (routed_to k [ev])"
    and "dropsUnknown r' = dropsUnknown r + of_nat (unrouted [ev])"
proof -
  have "router_ok r' \<and> router_room r' n \<and> (k < 4 \<longrightarrow> subring_pending (rings r' ! k) =
           subring_pending (rings r ! k) @ take (256 - length (subring_pending (rings r ! k))) (routed_to k [ev]))
        \<and> dropsUnknown r' = dropsUnknown r + of_nat (unrouted [ev])"
  proof (cases "ringIndex (Subsystem ev)")
    case None
    then show ?thesis using assms
      by (auto simp: Dispatch_def routed_to_def unrouted_def router_ok_def router_room_def dest: Suc_leD)
  next
    case (Some i)
    then have i: "i < length (rings r)" using assms(1) ringIndex_lt by (simp add: router_ok_def)
    obtain sr where sr: "SubRing_Push (rings r ! i) ev = (sr, b)" "r' = r\<lparr>rings := (rings r)[i := sr]\<rparr>"
      using assms(3) Some by (auto simp: Dispatch_def split: prod.splits)
    have ok: "subring_ok (rings r ! i)" "n < subring_room (rings r ! i)"
      using assms(1,2) i nth_mem[OF i] by (auto simp: router_ok_def router_room_def Suc_le_eq)
    then have pos: "0 < subring_room (rings r ! i)" by simp
    note c = subring.push_cases[OF ok(1) pos sr(1)]
    have "subring_pending sr = subring_pending (rings r ! i) @ take (256 - length (subring_pending (rings r ! i))) [ev]"
      using c by (auto simp: list_push_def split: if_splits)
    then show ?thesis using c ok sr(2) Some i assms(1,2)
      by (auto simp: router_ok_def router_room_def routed_to_def unrouted_def nth_list_update
          dest!: set_update_subset_insert[THEN subsetD])
  qed
  then show "router_ok r'" "router_room r' n"
    "k < 4 \<Longrightarrow> subring_pending (rings r' ! k) =
           subring_pending (rings r ! k) @ take (256 - length (subring_pending (rings r ! k))) (routed_to k [ev])"
    "dropsUnknown r' = dropsUnknown r + of_nat (unrouted [ev])" by auto
qed

lemma take_routed:
  fixes q :: "'e list"
  assumes "length q \<le> cap"
  shows "q @ take (cap - length q) (xs @ ys)
       = (q @ take (cap - length q) xs) @ take (cap - length (q @ take (cap - length q) xs)) ys"
  using assms by (cases "length xs \<le> cap - length q") auto

lemma router_ok_bound: "router_ok r \<Longrightarrow> k < 4 \<Longrightarrow> length (subring_pending (rings r ! k)) \<le> 256"
  using subring.bound by (auto simp: router_ok_def)

text \<open>What a router holds: pending events of each ring and the unknown counter.\<close>

definition routes :: "Router \<Rightarrow> probe_event_t list \<Rightarrow> Router \<Rightarrow> bool" where
  "routes r events r' \<longleftrightarrow>
     (\<forall>k<4. subring_pending (rings r' ! k) = subring_pending (rings r ! k)
        @ take (256 - length (subring_pending (rings r ! k))) (routed_to k events))
     \<and> dropsUnknown r' = dropsUnknown r + of_nat (unrouted events)"

lemma routes_Nil [simp]: "routes r [] r"
  by (simp add: routes_def routed_to_def unrouted_def)

lemma routes_append:
  assumes "router_ok r" "routes r xs r1" "routes r1 ys r2"
  shows "routes r (xs @ ys) r2"
proof -
  have "subring_pending (rings r2 ! k) = subring_pending (rings r ! k)
      @ take (256 - length (subring_pending (rings r ! k))) (routed_to k (xs @ ys))" if "k < 4" for k
  proof -
    have "routed_to k (xs @ ys) = routed_to k xs @ routed_to k ys" by (simp add: routed_to_def)
    with take_routed[OF router_ok_bound[OF assms(1) that], of "routed_to k xs" "routed_to k ys"]
    show ?thesis using assms(2,3) that by (simp only: routes_def)
  qed
  then show ?thesis using assms(2,3) by (simp add: routes_def unrouted_def)
qed

lemma routes_Dispatch:
  assumes "router_ok r" "router_room r (Suc n)" "Dispatch r ev = (r', b)"
  shows "routes r [ev] r'"
  using Dispatch_ring[OF assms] by (simp add: routes_def)

lemma routes_buffer [simp]: "routes (r\<lparr>batch := buf\<rparr>) events r' = routes r events r'"
  by (simp add: routes_def)

lemma DispatchBatch_routes:
  assumes "router_ok r" "router_room r (length events + m)" "DispatchBatch r events = (r', n)"
  shows "router_ok r' \<and> router_room r' m \<and> routes r events r'"
  using assms
proof (induction events arbitrary: r n)
  case (Cons ev events)
  obtain r1 b where d: "Dispatch r ev = (r1, b)" by force
  obtain k where bt: "DispatchBatch r1 events = (r', k)"
    using Cons.prems(3) d by (auto split: prod.splits)
  have room: "router_room r (Suc (length events + m))" using Cons.prems(2) by simp
  note o = Dispatch_ring(1,2)[OF Cons.prems(1) room d]
  from Cons.IH[OF o bt] routes_append[OF Cons.prems(1) routes_Dispatch[OF Cons.prems(1) room d]]
  show ?case by simp
qed simp

lemma router_ok_buffer [simp]:
  "length buf = 64 \<Longrightarrow> router_ok r \<Longrightarrow> router_ok (r\<lparr>batch := buf\<rparr>)"
  "router_room (r\<lparr>batch := buf\<rparr>) n = router_room r n"
  by (simp_all add: router_ok_def router_room_def)

lemma router_room_mono: "router_room r n \<Longrightarrow> m \<le> n \<Longrightarrow> router_room r m"
  by (auto simp: router_room_def)

text \<open>One turn of the dispatch loop moves at most 64 events, in order, and never panics.\<close>

lemma DispatchLoop_turn_ok:
  assumes "router_ok r" "channel_ok ch" "router_room r (64 + m)"
  shows "\<exists>r' ch'. DispatchLoop_turn r ch = Ret (r', ch') \<and> router_ok r' \<and> channel_ok ch'
     \<and> router_room r' m \<and> channel_pending ch' = drop 64 (channel_pending ch)
     \<and> routes r (take 64 (channel_pending ch)) r'"
proof -
  have len: "length (batch r) = 64" using assms(1) by (simp add: router_ok_def)
  define k where "k = min 64 (length (channel_pending ch))"
  obtain ch' where rd: "C2bt_channel_read_batch (Some ch) (batch r) 64
        = Ret (int k, Some ch', take k (channel_pending ch) @ drop k (batch r))"
    and ch': "channel_ok ch'" "channel_pending ch' = drop k (channel_pending ch)"
    using channel_read_batch_ok[OF assms(2), of 64 "batch r"] len by (auto simp: k_def)
  let ?buf = "take k (channel_pending ch) @ drop k (batch r)"
  have buf: "length ?buf = 64" using len by (auto simp: k_def)
  have tk: "take k ?buf = take 64 (channel_pending ch)" "drop k (channel_pending ch) = drop 64 (channel_pending ch)"
    by (auto simp: k_def min_def)
  obtain r' n where db: "DispatchBatch (r\<lparr>batch := ?buf\<rparr>) (take 64 (channel_pending ch)) = (r', n)" by force
  have "router_room r (length (take 64 (channel_pending ch)) + m)"
    using assms(3) by (rule router_room_mono) simp
  then have R: "router_ok r' \<and> router_room r' m \<and> routes r (take 64 (channel_pending ch)) r'"
    using DispatchBatch_routes[OF _ _ db, of m] buf assms(1) by simp
  show ?thesis
  proof (cases "k = 0")
    case True
    then have "channel_pending ch = []" by (auto simp: k_def min_def split: if_splits)
    then show ?thesis using True rd ch' assms router_room_mono[OF assms(3), of m] buf
      by (auto simp: DispatchLoop_turn_def routes_def routed_to_def unrouted_def)
  next
    case False
    then show ?thesis using rd ch' tk db R
      by (auto simp: DispatchLoop_turn_def)
  qed
qed

lemma DispatchLoop_routes:
  fixes stops :: "bool list"
  defines "turns \<equiv> \<lambda>stops. length (takeWhile Not stops)"
  assumes "router_ok r" "channel_ok ch" "router_room r (64 * length stops)"
  shows "\<exists>r' ch'. DispatchLoop r (Some ch) stops = Ret (r', Some ch') \<and> router_ok r' \<and> channel_ok ch'
     \<and> channel_pending ch' = drop (64 * turns stops) (channel_pending ch)
     \<and> routes r (take (64 * turns stops) (channel_pending ch)) r'"
  using assms(2-)
proof (induction stops arbitrary: r ch)
  case Nil
  then show ?case by (simp add: turns_def)
next
  case (Cons s stops)
  show ?case
  proof (cases s)
    case True
    then show ?thesis using Cons.prems by (simp add: turns_def)
  next
    case False
    have "router_room r (64 + 64 * length stops)" using Cons.prems(3) by simp
    from DispatchLoop_turn_ok[OF Cons.prems(1,2) this] obtain r1 ch1 where
      t: "DispatchLoop_turn r ch = Ret (r1, ch1)" "router_ok r1" "channel_ok ch1"
        "router_room r1 (64 * length stops)" "channel_pending ch1 = drop 64 (channel_pending ch)"
        "routes r (take 64 (channel_pending ch)) r1" by blast
    from Cons.IH[OF t(2,3,4)] obtain r' ch' where
      h: "DispatchLoop r1 (Some ch1) stops = Ret (r', Some ch')" "router_ok r'" "channel_ok ch'"
        "channel_pending ch' = drop (64 * turns stops) (channel_pending ch1)"
        "routes r1 (take (64 * turns stops) (channel_pending ch1)) r'" by blast
    have "take 64 (channel_pending ch) @ take (64 * turns stops) (channel_pending ch1)
        = take (64 * turns (s # stops)) (channel_pending ch)"
      using False t(5) by (simp add: turns_def take_add)
    with routes_append[OF Cons.prems(1) t(6) h(5)]
    show ?thesis using False t(1,5) h(1-4) by (auto simp: turns_def add.commute)
  qed
qed

text \<open>A worker sees the pending events once each and in order.\<close>

lemma Consume_in_order:
  assumes "subring_ok r"
  shows "Consume (Some handle) w r stops = (w', r') \<Longrightarrow>
     subring_ok r' \<and> w' = foldl handle w (take (64 * length (takeWhile Not stops)) (subring_pending r))
     \<and> subring_pending r' = drop (64 * length (takeWhile Not stops)) (subring_pending r)"
  using assms
proof (induction stops arbitrary: w r)
  case Nil
  then show ?case by simp
next
  case (Cons s stops)
  show ?case
  proof (cases s)
    case True
    then show ?thesis using Cons.prems by simp
  next
    case False
    define k where "k = min 64 (length (subring_pending r))"
    obtain r1 where p: "SubRing_PopBatch r (replicate 64 zero_event) 64
        = (int k, r1, take k (subring_pending r) @ drop k (replicate 64 zero_event))"
      and r1: "subring_ok r1" "subring_pending r1 = drop k (subring_pending r)"
      using subring_popbatch_ok[OF Cons.prems(2), of 64 "replicate 64 zero_event"] by (auto simp: k_def)
    have k: "take k (subring_pending r) = take 64 (subring_pending r)" "drop k (subring_pending r) = drop 64 (subring_pending r)"
      "take k (take k (subring_pending r) @ drop k (replicate 64 zero_event)) = take 64 (subring_pending r)"
      by (auto simp: k_def min_def)
    have "Consume (Some handle) (foldl handle w (take 64 (subring_pending r))) r1 stops = (w', r')"
      using Cons.prems(1) False by (simp only: Consume.simps p k(3) Let_def prod.case nat_int if_False)
    from Cons.IH[OF this r1(1)] r1(2) k(2) False show ?thesis
      by (simp add: take_add add.commute flip: foldl_append)
  qed
qed

section \<open>Properties\<close>

text \<open>
  C2.  The dispatch loop, run on any stop schedule over a well-formed channel,
  never panics; after \<open>n\<close> turns it has taken exactly the first \<open>64 * n\<close> pending
  events of the channel, each ring holds what it held followed by the events
  of its subsystem in order (as many as fit in 256 slots), and the events of
  unrouted subsystems are counted in \<open>dropsUnknown\<close>.
\<close>

theorem dispatch_loop_exact:
  assumes "router_ok r" and "channel_ok ch" and "router_room r (64 * length stops)"
  shows "\<exists>r' ch' taken. DispatchLoop r (Some ch) stops = Ret (r', Some ch')
     \<and> router_ok r' \<and> channel_ok ch'
     \<and> taken = take (64 * length (takeWhile Not stops)) (channel_pending ch)
     \<and> channel_pending ch = taken @ channel_pending ch'
     \<and> (\<forall>k<4. subring_pending (rings r' ! k) = subring_pending (rings r ! k)
            @ take (256 - length (subring_pending (rings r ! k)))
                (filter (\<lambda>ev. ringIndex (Subsystem ev) = Some k) taken))
     \<and> dropsUnknown r' = dropsUnknown r
         + of_nat (length (filter (\<lambda>ev. ringIndex (Subsystem ev) = None) taken))"
  using DispatchLoop_routes[OF assms]
  by (auto simp: routes_def routed_to_def unrouted_def)

theorem dispatch_loop_exact_witness:
  "\<exists>r' ch'. DispatchLoop NewRouter (Some NewChannel) [False, True] = Ret (r', Some ch')
     \<and> router_ok r' \<and> channel_ok ch'"
  using dispatch_loop_exact[OF NewRouter_ok(1) NewChannel_ok(1) NewRouter_ok(2), of "[False, True]"]
  by auto

text \<open>A worker drains its ring completely reliably: over any stop schedule the
  handler is applied to the pending events once each, in order, 64 per turn.
\<close>

lemma consume_in_order:
  assumes "subring_ok r" and "Consume (Some handle) w r stops = (w', r')"
  shows "\<exists>taken. taken = take (64 * length (takeWhile Not stops)) (subring_pending r)
     \<and> w' = foldl handle w taken \<and> subring_pending r = taken @ subring_pending r' \<and> subring_ok r'"
  using Consume_in_order[OF assms] by auto

end
