(* ===== verification/Spsc.thy ===== *)
theory Spsc
  imports Router
begin

text \<open>
  One producer in \<open>SubRing.Push\<close> and one consumer in \<open>SubRing.Pop\<close> running
  concurrently: every atomic load and store of the two methods is a step of
  its own, and the steps interleave freely.  Two history variables record the
  events whose publication and whose removal are complete.
\<close>

datatype prod_pc =
    PIdle
  | PLoaded probe_event_t u64    (* head.Load() done *)
  | PFull                        (* the ring was found full *)
  | PWrite probe_event_t u64     (* about to store the slot *)
  | PPublish probe_event_t u64   (* about to store the head *)

datatype cons_pc =
    CIdle
  | CLoaded u64                  (* tail.Load() done *)
  | CRead u64                    (* about to copy the slot *)
  | CPublish u64 probe_event_t   (* about to store the tail *)

record spsc =
  ring :: SubRing
  ppc :: prod_pc
  cpc :: cons_pc
  acc :: "probe_event_t list"
  del :: "probe_event_t list"

inductive spsc_step :: "spsc \<Rightarrow> spsc \<Rightarrow> bool" where
  p_load_head: "ppc s = PIdle \<Longrightarrow> spsc_step s (s\<lparr>ppc := PLoaded ev (sr_head (ring s))\<rparr>)"
| p_full: "ppc s = PLoaded ev h \<Longrightarrow> subRingSlots \<le> h - sr_tail (ring s) \<Longrightarrow> spsc_step s (s\<lparr>ppc := PFull\<rparr>)"
| p_free: "ppc s = PLoaded ev h \<Longrightarrow> \<not> subRingSlots \<le> h - sr_tail (ring s) \<Longrightarrow> spsc_step s (s\<lparr>ppc := PWrite ev h\<rparr>)"
| p_drop: "ppc s = PFull \<Longrightarrow>
    spsc_step s (s\<lparr>ppc := PIdle, ring := (ring s)\<lparr>sr_drops := sr_drops (ring s) + 1\<rparr>\<rparr>)"
| p_store_slot: "ppc s = PWrite ev h \<Longrightarrow>
    spsc_step s (s\<lparr>ppc := PPublish ev h,
      ring := (ring s)\<lparr>sr_slots := (sr_slots (ring s))(unat (h AND subRingMask) := ev)\<rparr>\<rparr>)"
| p_store_head: "ppc s = PPublish ev h \<Longrightarrow>
    spsc_step s (s\<lparr>ppc := PIdle, ring := (ring s)\<lparr>sr_head := h + 1\<rparr>, acc := acc s @ [ev]\<rparr>)"
| c_load_tail: "cpc s = CIdle \<Longrightarrow> spsc_step s (s\<lparr>cpc := CLoaded (sr_tail (ring s))\<rparr>)"
| c_empty: "cpc s = CLoaded t \<Longrightarrow> sr_head (ring s) \<le> t \<Longrightarrow> spsc_step s (s\<lparr>cpc := CIdle\<rparr>)"
| c_avail: "cpc s = CLoaded t \<Longrightarrow> \<not> sr_head (ring s) \<le> t \<Longrightarrow> spsc_step s (s\<lparr>cpc := CRead t\<rparr>)"
| c_load_slot: "cpc s = CRead t \<Longrightarrow>
    spsc_step s (s\<lparr>cpc := CPublish t (sr_slots (ring s) (unat (t AND subRingMask)))\<rparr>)"
| c_store_tail: "cpc s = CPublish t ev \<Longrightarrow>
    spsc_step s (s\<lparr>cpc := CIdle, ring := (ring s)\<lparr>sr_tail := t + 1\<rparr>, del := del s @ [ev]\<rparr>)"

inductive_cases spsc_stepE: "spsc_step s s'"

definition spsc_init :: spsc where
  "spsc_init = \<lparr>ring = SubRing_zero, ppc = PIdle, cpc = CIdle, acc = [], del = []\<rparr>"

abbreviation spsc_reach :: "spsc \<Rightarrow> bool" where
  "spsc_reach s \<equiv> spsc_step\<^sup>*\<^sup>* spsc_init s"

section \<open>The invariant\<close>

definition ring_inv :: "spsc \<Rightarrow> bool" where
  "ring_inv s \<longleftrightarrow>
     unat (sr_head (ring s)) = length (acc s) \<and> unat (sr_tail (ring s)) = length (del s)
     \<and> length (del s) \<le> length (acc s) \<and> length (acc s) \<le> length (del s) + 256
     \<and> del s = take (length (del s)) (acc s)
     \<and> (\<forall>i. length (del s) \<le> i \<and> i < length (acc s) \<longrightarrow> sr_slots (ring s) (i mod 256) = acc s ! i)"

definition prod_inv :: "spsc \<Rightarrow> bool" where
  "prod_inv s \<longleftrightarrow> (case ppc s of
     PIdle \<Rightarrow> True
   | PLoaded ev h \<Rightarrow> h = sr_head (ring s)
   | PFull \<Rightarrow> True
   | PWrite ev h \<Rightarrow> h = sr_head (ring s) \<and> length (acc s) < length (del s) + 256
   | PPublish ev h \<Rightarrow> h = sr_head (ring s) \<and> length (acc s) < length (del s) + 256
                    \<and> sr_slots (ring s) (length (acc s) mod 256) = ev)"

definition cons_inv :: "spsc \<Rightarrow> bool" where
  "cons_inv s \<longleftrightarrow> (case cpc s of
     CIdle \<Rightarrow> True
   | CLoaded t \<Rightarrow> t = sr_tail (ring s)
   | CRead t \<Rightarrow> t = sr_tail (ring s) \<and> length (del s) < length (acc s)
   | CPublish t ev \<Rightarrow> t = sr_tail (ring s) \<and> length (del s) < length (acc s) \<and> ev = acc s ! length (del s))"

definition spsc_inv :: "spsc \<Rightarrow> bool" where
  "spsc_inv s \<longleftrightarrow> ring_inv s \<and> prod_inv s \<and> cons_inv s"

lemmas spsc_inv_defs = spsc_inv_def ring_inv_def prod_inv_def cons_inv_def

lemma spsc_init_inv: "spsc_inv spsc_init"
  by (simp add: spsc_inv_defs spsc_init_def SubRing_zero_def)

lemma spsc_acc_mono: "spsc_step s s' \<Longrightarrow> length (acc s) \<le> length (acc s')"
  by (erule spsc_stepE) auto

lemma occupied:
  assumes "ring_inv s"
  shows "subRingSlots \<le> sr_head (ring s) - sr_tail (ring s) \<longleftrightarrow> length (acc s) = length (del s) + 256"
proof -
  have "subring_ok (ring s)" using assms by (simp add: ring_inv_def subring_ok_def)
  from subring_occupancy(2)[OF this] show ?thesis using assms by (simp add: ring_inv_def)
qed

lemma p_store_slot_inv:
  assumes "spsc_inv s" "ppc s = PWrite ev h"
  shows "spsc_inv (s\<lparr>ppc := PPublish ev h,
      ring := (ring s)\<lparr>sr_slots := (sr_slots (ring s))(unat (h AND subRingMask) := ev)\<rparr>\<rparr>)"
proof -
  have h: "unat (h AND subRingMask) = length (acc s) mod 256" and lt: "length (acc s) < length (del s) + 256"
    using assms by (auto simp: spsc_inv_defs and_ff)
  have "i mod 256 \<noteq> length (acc s) mod 256" if "length (del s) \<le> i" "i < length (acc s)" for i
    using distinct_mod_window[OF that lt] .
  then show ?thesis using assms h lt by (auto simp: spsc_inv_defs split: cons_pc.splits)
qed

lemma p_store_head_inv:
  assumes "spsc_inv s" "ppc s = PPublish ev h" "Suc (length (acc s)) < 2 ^ 64"
  shows "spsc_inv (s\<lparr>ppc := PIdle, ring := (ring s)\<lparr>sr_head := h + 1\<rparr>, acc := acc s @ [ev]\<rparr>)"
proof -
  have "unat (h + 1) = Suc (length (acc s))"
    using assms by (subst unat_plus_one) (auto simp: spsc_inv_defs)
  then show ?thesis using assms
    by (auto simp: spsc_inv_defs nth_append less_Suc_eq split: cons_pc.splits)
qed

lemma c_load_slot_inv:
  assumes "spsc_inv s" "cpc s = CRead t"
  shows "spsc_inv (s\<lparr>cpc := CPublish t (sr_slots (ring s) (unat (t AND subRingMask)))\<rparr>)"
  using assms by (auto simp: spsc_inv_defs and_ff split: prod_pc.splits)

lemma c_store_tail_inv:
  assumes "spsc_inv s" "cpc s = CPublish t ev" "length (acc s) < 2 ^ 64"
  shows "spsc_inv (s\<lparr>cpc := CIdle, ring := (ring s)\<lparr>sr_tail := t + 1\<rparr>, del := del s @ [ev]\<rparr>)"
proof -
  have *: "t = sr_tail (ring s)" "length (del s) < length (acc s)" "ev = acc s ! length (del s)"
    "unat (sr_tail (ring s)) = length (del s)" "del s = take (length (del s)) (acc s)"
    using assms by (auto simp: spsc_inv_defs)
  then have u: "unat (t + 1) = Suc (length (del s))"
    using assms(3) by (subst unat_plus_one) auto
  have "del s @ [ev] = take (Suc (length (del s))) (acc s)"
    using * by (metis take_Suc_conv_app_nth)
  then show ?thesis using assms u *(1,2)
    by (auto simp: spsc_inv_defs split: prod_pc.splits)
qed

lemma spsc_step_inv:
  assumes "spsc_step s s'" "spsc_inv s" "length (acc s') < 2 ^ 64"
  shows "spsc_inv s'"
  using assms
proof (cases rule: spsc_step.cases)
  case (p_free ev h)
  then have "h = sr_head (ring s)" "ring_inv s" using assms(2) by (auto simp: spsc_inv_def prod_inv_def)
  with p_free(3) occupied have "length (acc s) \<noteq> length (del s) + 256" by blast
  then have "length (acc s) < length (del s) + 256" using \<open>ring_inv s\<close> by (simp add: ring_inv_def)
  with p_free assms(2) show ?thesis by (auto simp: spsc_inv_defs split: cons_pc.splits)
next
  case (c_avail t)
  then show ?thesis using assms(2)
    by (auto simp: spsc_inv_defs word_le_nat_alt split: prod_pc.splits)
next
  case (p_store_slot ev h)
  then show ?thesis using p_store_slot_inv[OF assms(2)] by simp
next
  case (p_store_head ev h)
  then show ?thesis using p_store_head_inv[OF assms(2)] assms(3) by simp
next
  case (c_load_slot t)
  then show ?thesis using c_load_slot_inv[OF assms(2)] by simp
next
  case (c_store_tail t ev)
  then show ?thesis using c_store_tail_inv[OF assms(2)] assms(3) by simp
qed (auto simp: spsc_inv_defs split: cons_pc.splits prod_pc.splits)

lemma spsc_reach_inv:
  assumes "spsc_reach s" "length (acc s) < 2 ^ 64"
  shows "spsc_inv s"
  using assms
proof (induction rule: rtranclp_induct)
  case base
  then show ?case by (simp add: spsc_init_inv)
next
  case (step s s')
  then show ?case using spsc_acc_mono[OF step.hyps(2)] spsc_step_inv by simp
qed

section \<open>The atomic steps of an undisturbed call are the sequential method\<close>

lemma solo_push:
  assumes "ppc s = PIdle" "SubRing_Push (ring s) ev = (r', b)"
  shows "spsc_step\<^sup>*\<^sup>* s (s\<lparr>ppc := PIdle, ring := r', acc := acc s @ (if b then [ev] else [])\<rparr>)"
proof (cases "subRingSlots \<le> sr_head (ring s) - sr_tail (ring s)")
  case True
  let ?s1 = "s\<lparr>ppc := PLoaded ev (sr_head (ring s))\<rparr>"
  have "spsc_step s ?s1" using assms(1) by (rule p_load_head)
  moreover have "spsc_step ?s1 (?s1\<lparr>ppc := PFull\<rparr>)" using True by (intro p_full) auto
  moreover have "spsc_step (?s1\<lparr>ppc := PFull\<rparr>) (s\<lparr>ppc := PIdle, ring := r', acc := acc s @ (if b then [ev] else [])\<rparr>)"
    using p_drop[of "?s1\<lparr>ppc := PFull\<rparr>"] True assms by (simp add: SubRing_Push_def)
  ultimately show ?thesis by (meson converse_rtranclp_into_rtranclp rtranclp.rtrancl_refl)
next
  case False
  let ?h = "sr_head (ring s)"
  let ?s1 = "s\<lparr>ppc := PLoaded ev ?h\<rparr>" and ?s2 = "s\<lparr>ppc := PWrite ev ?h\<rparr>"
  let ?s3 = "s\<lparr>ppc := PPublish ev ?h, ring := (ring s)\<lparr>sr_slots := (sr_slots (ring s))(unat (?h AND subRingMask) := ev)\<rparr>\<rparr>"
  have "spsc_step s ?s1" using assms(1) by (rule p_load_head)
  moreover have "spsc_step ?s1 ?s2" using p_free[of ?s1 ev ?h] False by simp
  moreover have "spsc_step ?s2 ?s3" using p_store_slot[of ?s2 ev ?h] by simp
  moreover have "spsc_step ?s3 (s\<lparr>ppc := PIdle, ring := r', acc := acc s @ (if b then [ev] else [])\<rparr>)"
    using p_store_head[of ?s3 ev ?h] False assms by (simp add: SubRing_Push_def Let_def)
  ultimately show ?thesis by (meson converse_rtranclp_into_rtranclp rtranclp.rtrancl_refl)
qed

section \<open>Properties\<close>

text \<open>
  C3.  In every reachable interleaving of one producer and one consumer (fewer
  than \<open>2 ^ 64\<close> publications) the delivered events are a prefix of the published
  ones, at most 256 are outstanding, and the slot the producer is about to
  overwrite is never the slot the consumer is about to copy: no loss, no
  duplication, no reordering and no data race on the slots.
\<close>

theorem spsc_linear:
  assumes "spsc_reach s" and "length (acc s) < 2 ^ 64"
  shows "(\<exists>rest. acc s = del s @ rest \<and> length rest \<le> 256)
    \<and> (\<forall>ev h t. ppc s = PWrite ev h \<and> cpc s = CRead t \<longrightarrow>
          unat (h AND subRingMask) \<noteq> unat (t AND subRingMask))
    \<and> subring_ok (ring s)"
proof -
  note inv = spsc_reach_inv[OF assms]
  have "acc s = del s @ drop (length (del s)) (acc s)"
    using inv by (metis append_take_drop_id ring_inv_def spsc_inv_def)
  moreover have "length (drop (length (del s)) (acc s)) \<le> 256" using inv by (auto simp: spsc_inv_defs)
  moreover have "subring_ok (ring s)" using inv by (simp add: spsc_inv_defs subring_ok_def)
  moreover have "unat (h AND subRingMask) \<noteq> unat (t AND subRingMask)"
    if "ppc s = PWrite ev h" "cpc s = CRead t" for ev h t
  proof -
    from that have "length (del s) < length (acc s)" "length (acc s) < length (del s) + 256"
      "unat h = length (acc s)" "unat t = length (del s)"
      using inv by (auto simp: spsc_inv_defs)
    then show ?thesis
      using distinct_mod_window[of "length (del s)" "length (del s)" "length (acc s)" 256]
      by (simp add: and_ff)
  qed
  ultimately show ?thesis by blast
qed

theorem spsc_linear_witness:
  "\<exists>s. spsc_reach s \<and> ppc s = PWrite (zero_event\<lparr>Pid := 2\<rparr>) 1 \<and> cpc s = CRead 0
     \<and> length (acc s) < 2 ^ 64 \<and> unat ((1 :: u64) AND subRingMask) \<noteq> unat ((0 :: u64) AND subRingMask)
     \<and> (\<exists>rest. acc s = del s @ rest \<and> length rest \<le> 256) \<and> subring_ok (ring s)"
proof -
  obtain r' b where p: "SubRing_Push (ring spsc_init) zero_event = (r', b)" by force
  then have b: "b" "sr_head r' = 1" "sr_tail r' = 0"
    by (auto simp: SubRing_Push_def spsc_init_def SubRing_zero_def)
  let ?s1 = "spsc_init\<lparr>ppc := PIdle, ring := r', acc := [zero_event]\<rparr>"
  let ?e = "zero_event\<lparr>Pid := 2\<rparr>"
  have "spsc_reach ?s1" using solo_push[OF _ p] b by (simp add: spsc_init_def)
  moreover have "spsc_step ?s1 (?s1\<lparr>ppc := PLoaded ?e 1\<rparr>)"
    using p_load_head[of ?s1 ?e] b by simp
  moreover have "spsc_step (?s1\<lparr>ppc := PLoaded ?e 1\<rparr>) (?s1\<lparr>ppc := PWrite ?e 1\<rparr>)"
    using p_free[of "?s1\<lparr>ppc := PLoaded ?e 1\<rparr>" ?e 1] b by (simp add: word_le_nat_alt)
  moreover have "spsc_step (?s1\<lparr>ppc := PWrite ?e 1\<rparr>) (?s1\<lparr>ppc := PWrite ?e 1, cpc := CLoaded 0\<rparr>)"
    using c_load_tail[of "?s1\<lparr>ppc := PWrite ?e 1\<rparr>"] b by (simp add: spsc_init_def)
  moreover have "spsc_step (?s1\<lparr>ppc := PWrite ?e 1, cpc := CLoaded 0\<rparr>) (?s1\<lparr>ppc := PWrite ?e 1, cpc := CRead 0\<rparr>)"
    using c_avail[of "?s1\<lparr>ppc := PWrite ?e 1, cpc := CLoaded 0\<rparr>" 0] b by simp
  ultimately have r: "spsc_reach (?s1\<lparr>ppc := PWrite ?e 1, cpc := CRead 0\<rparr>)"
    by (meson rtranclp.rtrancl_into_rtrancl)
  have "length (acc (?s1\<lparr>ppc := PWrite ?e 1, cpc := CRead 0\<rparr>)) < 2 ^ 64" by simp
  from spsc_linear[OF r this] r this show ?thesis
    by (intro exI[of _ "?s1\<lparr>ppc := PWrite ?e 1, cpc := CRead 0\<rparr>"]) auto
qed

end
