(* ===== verification/Codec.thy ===== *)
theory Codec
  imports Prelude
begin

text \<open>
  Fixed-size binary records, the layer below the \<open>.c2book\<close>, snapshot and pcap
  files: reading a record with \<open>io.ReadFull\<close>, reading a counted sequence of
  records, and the contract of an encoder and a decoder of one record size.
\<close>

section \<open>Fields of a record\<close>

lemma subslice_put_get:
  assumes "length src = n" "j \<le> n" "i \<le> j" "8 * (j - i) = LENGTH('a::len)"
  shows "le_put (j - i) (le_get (subslice i j src) :: 'a word) = subslice i j src"
proof -
  have "length (subslice i j src) = j - i" using assms by (simp add: min_absorb1)
  then show ?thesis using le_put_get[where ?'a = 'a, of "subslice i j src"] assms(4) by simp
qed

lemma subslice_glue: "i \<le> j \<Longrightarrow> j \<le> k \<Longrightarrow> subslice i j xs @ subslice j k xs = subslice i k xs"
  using take_add[of "j - i" "k - j" "drop i xs"] by (simp add: subslice_def add.commute)

lemma subslice_all: "length xs \<le> n \<Longrightarrow> subslice 0 n xs = xs"
  by (simp add: subslice_def)

section \<open>Reading records\<close>

text \<open>\<open>io.ReadFull\<close>: the bytes and the rest, or \<open>None\<close> when fewer are left.\<close>

definition read_full :: "nat \<Rightarrow> bytes \<Rightarrow> (bytes \<times> bytes) option" where
  "read_full n bs = (if n \<le> length bs then Some (take n bs, drop n bs) else None)"

fun read_many :: "nat \<Rightarrow> (bytes \<Rightarrow> 'a) \<Rightarrow> nat \<Rightarrow> bytes \<Rightarrow> ('a list \<times> bytes) option" where
  "read_many sz dec 0 bs = Some ([], bs)"
| "read_many sz dec (Suc k) bs = (case read_full sz bs of
     None \<Rightarrow> None
   | Some (eb, rest) \<Rightarrow> (case read_many sz dec k rest of
       None \<Rightarrow> None
     | Some (xs, rest') \<Rightarrow> Some (dec eb # xs, rest')))"

lemma read_full_append [simp]: "length xs = n \<Longrightarrow> read_full n (xs @ ys) = Some (xs, ys)"
  by (simp add: read_full_def)

lemma read_full_None [simp]: "read_full n bs = None \<longleftrightarrow> length bs < n"
  by (auto simp: read_full_def)

lemma read_full_rest: "read_full n s = Some (b, s') \<Longrightarrow> length s' = length s - n \<and> n \<le> length s \<and> length b = n"
  by (auto simp: read_full_def split: if_splits)

text \<open>A counted read succeeds exactly when the input is long enough.\<close>

lemma read_many_None: "read_many sz dec k bs = None \<longleftrightarrow> length bs < k * sz"
proof (induction k arbitrary: bs)
  case (Suc k)
  show ?case
  proof (cases "sz \<le> length bs")
    case True
    then show ?thesis using Suc.IH[of "drop sz bs"]
      by (auto simp: read_full_def split: option.splits)
  next
    case False
    then show ?thesis by (simp add: read_full_def)
  qed
qed simp

lemma read_many_length:
  "read_many sz dec k bs = Some (xs, rest) \<Longrightarrow> length xs = k \<and> rest = drop (k * sz) bs"
proof (induction k arbitrary: bs xs)
  case (Suc k)
  then show ?case by (fastforce simp: read_full_def add.commute split: option.splits if_splits)
qed simp

locale fixed_codec =
  fixes enc :: "'a \<Rightarrow> bytes"
    and dec :: "bytes \<Rightarrow> 'a"
    and sz :: nat
    and wf :: "'a \<Rightarrow> bool"
  assumes enc_size: "wf x \<Longrightarrow> length (enc x) = sz"
    and dec_enc: "wf x \<Longrightarrow> dec (enc x) = x"
    and dec_wf: "length bs = sz \<Longrightarrow> wf (dec bs)"
    and enc_dec: "length bs = sz \<Longrightarrow> enc (dec bs) = bs"
begin

text \<open>Writing records one after the other and reading them back.\<close>

lemma read_many_enc:
  "list_all wf xs \<Longrightarrow> read_many sz dec (length xs) (concat (map enc xs) @ rest) = Some (xs, rest)"
  by (induction xs) (simp_all add: enc_size dec_enc)

text \<open>What is read is well formed and re-encodes to the bytes read.\<close>

lemma read_many_sound:
  "read_many sz dec k bs = Some (xs, rest) \<Longrightarrow> list_all wf xs \<and> bs = concat (map enc xs) @ rest"
proof (induction k arbitrary: bs xs)
  case (Suc k)
  then obtain ys where "read_many sz dec k (drop sz bs) = Some (ys, rest)"
    "xs = dec (take sz bs) # ys" "sz \<le> length bs"
    by (auto simp: read_full_def split: option.splits if_splits)
  with Suc.IH show ?case by (auto simp: dec_wf enc_dec)
qed simp

lemma enc_inj: "wf x \<Longrightarrow> wf y \<Longrightarrow> enc x = enc y \<Longrightarrow> x = y"
  by (metis dec_enc)

end

end
