(* ===== verification/Codebook.thy ===== *)
theory Codebook
  imports Codec
begin

text \<open>
  The RaBitQ codebook of \<open>internal/engine/codebook.go\<close>: the \<open>.c2book\<close> file
  format, the Hamming-distance search with early exit and the container that
  is replaced while readers use it.  A file system is a partial map from paths
  to contents; \<open>nil\<close> is \<open>None\<close>.
\<close>

abbreviation codebookVersion :: u16 where "codebookVersion \<equiv> 1"
abbreviation codebookVectorDim :: u16 where "codebookVectorDim \<equiv> 512"
abbreviation codebookBits :: int where "codebookBits \<equiv> 512"
abbreviation codebookMaxEntries :: nat where "codebookMaxEntries \<equiv> 2 ^ 24"

definition codebookMagic :: bytes where
  "codebookMagic = ascii ''C2BOOK1'' @ [0]"

datatype codebook_error =
    ErrCodebookOpen
  | ErrCodebookNil
  | ErrCodebookMagic
  | ErrCodebookVersion
  | ErrCodebookDim
  | ErrCodebookCorrupt
  | ErrCodebookHuge

record CodebookHeader =
  Magic :: bytes
  Version :: u16
  VectorDim :: u16
  EntryCount :: u32
  Reserved :: bytes

record CodebookEntry =
  Bitcode :: "u64 list"
  ThreatID :: u32
  ESubsystem :: u16
  Severity :: u16

record CodebookMatch =
  Entry :: CodebookEntry
  Distance :: int

record Codebook =
  entries :: "CodebookEntry list"

text \<open>The zero value \<open>CodebookEntry{}\<close> and the shapes the Go array types fix.\<close>

definition zero_entry :: CodebookEntry where
  "zero_entry = \<lparr>Bitcode = replicate 8 0, ThreatID = 0, ESubsystem = 0, Severity = 0\<rparr>"

definition entry_wf :: "CodebookEntry \<Rightarrow> bool" where
  "entry_wf e \<longleftrightarrow> length (Bitcode e) = 8"

definition header_wf :: "CodebookHeader \<Rightarrow> bool" where
  "header_wf h \<longleftrightarrow> length (Magic h) = 8 \<and> length (Reserved h) = 16"

definition NewCodebook :: "CodebookEntry list \<Rightarrow> Codebook" where
  "NewCodebook es = \<lparr>entries = es\<rparr>"

definition Codebook_Len :: "Codebook option \<Rightarrow> nat" where
  "Codebook_Len cb = (case cb of None \<Rightarrow> 0 | Some c \<Rightarrow> length (entries c))"

definition Entries :: "Codebook option \<Rightarrow> CodebookEntry list" where
  "Entries cb = (case cb of None \<Rightarrow> [] | Some c \<Rightarrow> entries c)"

section \<open>Serialisation\<close>

definition encodeCodebookHeader :: "CodebookHeader \<Rightarrow> bytes" where
  "encodeCodebookHeader hdr = Magic hdr @ le_put 2 (Version hdr) @ le_put 2 (VectorDim hdr)
     @ le_put 4 (EntryCount hdr) @ Reserved hdr"

definition decodeCodebookHeader :: "bytes \<Rightarrow> CodebookHeader" where
  "decodeCodebookHeader src =
     \<lparr>Magic = subslice 0 8 src, Version = le_get (subslice 8 10 src),
      VectorDim = le_get (subslice 10 12 src), EntryCount = le_get (subslice 12 16 src),
      Reserved = subslice 16 32 src\<rparr>"

definition encodeCodebookEntry :: "CodebookEntry \<Rightarrow> bytes" where
  "encodeCodebookEntry e = concat (map (\<lambda>k. le_put 8 (Bitcode e ! k)) [0..<8])
     @ le_put 4 (ThreatID e) @ le_put 2 (ESubsystem e) @ le_put 2 (Severity e)"

definition decodeCodebookEntry :: "bytes \<Rightarrow> CodebookEntry" where
  "decodeCodebookEntry src =
     \<lparr>Bitcode = map (\<lambda>k. le_get (subslice (k * 8) (k * 8 + 8) src)) [0..<8],
      ThreatID = le_get (subslice 64 68 src), ESubsystem = le_get (subslice 68 70 src),
      Severity = le_get (subslice 70 72 src)\<rparr>"

text \<open>What \<open>SaveCodebook\<close> writes, and the save itself; \<open>creatable\<close> says whether \<open>os.Create\<close> succeeds.\<close>

definition codebook_file :: "CodebookEntry list \<Rightarrow> bytes" where
  "codebook_file es =
     encodeCodebookHeader \<lparr>Magic = codebookMagic, Version = codebookVersion, VectorDim = codebookVectorDim,
                           EntryCount = word_of_nat (length es), Reserved = replicate 16 0\<rparr>
     @ concat (map encodeCodebookEntry es)"

definition SaveCodebook ::
    "(string \<rightharpoonup> bytes) \<Rightarrow> (string \<Rightarrow> bool) \<Rightarrow> string \<Rightarrow> CodebookEntry list
      \<Rightarrow> (string \<rightharpoonup> bytes) \<times> codebook_error option" where
  "SaveCodebook fs creatable path es =
     (if \<not> creatable path then (fs, Some ErrCodebookOpen)
      else (fs(path \<mapsto> codebook_file es), None))"

definition Codebook_Save ::
    "(string \<rightharpoonup> bytes) \<Rightarrow> (string \<Rightarrow> bool) \<Rightarrow> Codebook option \<Rightarrow> string
      \<Rightarrow> (string \<rightharpoonup> bytes) \<times> codebook_error option" where
  "Codebook_Save fs creatable cb path = (case cb of
     None \<Rightarrow> (fs, Some ErrCodebookNil)
   | Some c \<Rightarrow> SaveCodebook fs creatable path (entries c))"

definition parse_codebook :: "bytes \<Rightarrow> codebook_error + Codebook" where
  "parse_codebook content = (case read_full 32 content of
     None \<Rightarrow> Inl ErrCodebookCorrupt
   | Some (hb, rest) \<Rightarrow>
       (let hdr = decodeCodebookHeader hb in
        if Magic hdr \<noteq> codebookMagic then Inl ErrCodebookMagic
        else if Version hdr \<noteq> codebookVersion then Inl ErrCodebookVersion
        else if VectorDim hdr \<noteq> codebookVectorDim then Inl ErrCodebookDim
        else if codebookMaxEntries < unat (EntryCount hdr) then Inl ErrCodebookHuge
        else case read_many 72 decodeCodebookEntry (unat (EntryCount hdr)) rest of
            None \<Rightarrow> Inl ErrCodebookCorrupt
          | Some (es, _) \<Rightarrow> Inr \<lparr>entries = es\<rparr>))"

definition LoadCodebook :: "(string \<rightharpoonup> bytes) \<Rightarrow> string \<Rightarrow> codebook_error + Codebook" where
  "LoadCodebook fs path = (case fs path of
     None \<Rightarrow> Inl ErrCodebookOpen
   | Some content \<Rightarrow> parse_codebook content)"

section \<open>Hamming distance and search\<close>

definition OnesCount64 :: "u64 \<Rightarrow> int" where
  "OnesCount64 x = int (length (filter (bit x) [0..<64]))"

definition codebookHamming :: "u64 list \<Rightarrow> CodebookEntry \<Rightarrow> int" where
  "codebookHamming q e = (let b = Bitcode e in
     OnesCount64 (q ! 0 XOR b ! 0) + OnesCount64 (q ! 1 XOR b ! 1) +
     OnesCount64 (q ! 2 XOR b ! 2) + OnesCount64 (q ! 3 XOR b ! 3) +
     OnesCount64 (q ! 4 XOR b ! 4) + OnesCount64 (q ! 5 XOR b ! 5) +
     OnesCount64 (q ! 6 XOR b ! 6) + OnesCount64 (q ! 7 XOR b ! 7))"

definition codebookHammingBounded :: "u64 list \<Rightarrow> CodebookEntry \<Rightarrow> int \<Rightarrow> int" where
  "codebookHammingBounded q e maxHamming = (let b = Bitcode e;
     d0 = OnesCount64 (q ! 0 XOR b ! 0) in if d0 > maxHamming then d0 else let
     d1 = d0 + OnesCount64 (q ! 1 XOR b ! 1) in if d1 > maxHamming then d1 else let
     d2 = d1 + OnesCount64 (q ! 2 XOR b ! 2) in if d2 > maxHamming then d2 else let
     d3 = d2 + OnesCount64 (q ! 3 XOR b ! 3) in if d3 > maxHamming then d3 else let
     d4 = d3 + OnesCount64 (q ! 4 XOR b ! 4) in if d4 > maxHamming then d4 else let
     d5 = d4 + OnesCount64 (q ! 5 XOR b ! 5) in if d5 > maxHamming then d5 else let
     d6 = d5 + OnesCount64 (q ! 6 XOR b ! 6) in if d6 > maxHamming then d6 else
     d6 + OnesCount64 (q ! 7 XOR b ! 7))"

definition entry_distance :: "u64 list \<Rightarrow> int \<Rightarrow> CodebookEntry \<Rightarrow> int" where
  "entry_distance query maxHamming e =
     (if maxHamming < codebookBits then codebookHammingBounded query e maxHamming
      else codebookHamming query e)"

text \<open>One iteration of the search loop over (best, match, found).\<close>

definition nearest_step ::
    "u64 list \<Rightarrow> int \<Rightarrow> int \<times> CodebookEntry \<times> bool \<Rightarrow> CodebookEntry \<Rightarrow> int \<times> CodebookEntry \<times> bool" where
  "nearest_step query maxHamming st e = (case st of (best, m, found) \<Rightarrow>
     let d = entry_distance query maxHamming e in
     if d \<le> maxHamming \<and> d < best then (d, e, True) else (best, m, found))"

text \<open>\<open>best := maxHamming + 1\<close> is a 64-bit addition.\<close>

definition SearchNearest :: "Codebook option \<Rightarrow> u64 list option \<Rightarrow> int \<Rightarrow> CodebookEntry \<times> int \<times> bool" where
  "SearchNearest cb query maxHamming = (case (cb, query) of
     (Some c, Some q) \<Rightarrow>
       (case foldl (nearest_step q maxHamming) (go_int (maxHamming + 1), zero_entry, False) (entries c) of
          (best, m, found) \<Rightarrow> if \<not> found then (zero_entry, 0, False) else (m, best, True))
   | _ \<Rightarrow> (zero_entry, 0, False))"

definition all_step ::
    "u64 list \<Rightarrow> int \<Rightarrow> nat \<times> CodebookMatch list \<Rightarrow> CodebookEntry \<Rightarrow> nat \<times> CodebookMatch list" where
  "all_step query maxHamming st e = (case st of (n, out) \<Rightarrow>
     let d = entry_distance query maxHamming e in
     if d \<le> maxHamming
     then (Suc n, if n < length out then out[n := \<lparr>Entry = e, Distance = d\<rparr>] else out)
     else (n, out))"

definition SearchAll :: "Codebook option \<Rightarrow> u64 list option \<Rightarrow> int \<Rightarrow> CodebookMatch list \<Rightarrow> nat \<times> CodebookMatch list" where
  "SearchAll cb query maxHamming out = (case (cb, query) of
     (Some c, Some q) \<Rightarrow> foldl (all_step q maxHamming) (0, out) (entries c)
   | _ \<Rightarrow> (0, out))"

section \<open>The replaceable container\<close>

record AtomicCodebook =
  cb_ptr :: "Codebook option"

definition NewAtomicCodebook :: "Codebook option \<Rightarrow> AtomicCodebook" where
  "NewAtomicCodebook cb = \<lparr>cb_ptr = cb\<rparr>"

definition LoadAtomicCodebook :: "(string \<rightharpoonup> bytes) \<Rightarrow> string \<Rightarrow> codebook_error + AtomicCodebook" where
  "LoadAtomicCodebook fs path = (case LoadCodebook fs path of
     Inl err \<Rightarrow> Inl err
   | Inr cb \<Rightarrow> Inr (NewAtomicCodebook (Some cb)))"

definition Swap :: "AtomicCodebook \<Rightarrow> Codebook option \<Rightarrow> AtomicCodebook" where
  "Swap ac cb = ac\<lparr>cb_ptr := cb\<rparr>"

definition ReloadFile :: "(string \<rightharpoonup> bytes) \<Rightarrow> AtomicCodebook \<Rightarrow> string \<Rightarrow> AtomicCodebook \<times> codebook_error option" where
  "ReloadFile fs ac path = (case LoadCodebook fs path of
     Inl err \<Rightarrow> (ac, Some err)
   | Inr cb \<Rightarrow> (Swap ac (Some cb), None))"

definition Current :: "AtomicCodebook \<Rightarrow> Codebook option" where
  "Current ac = cb_ptr ac"

definition Atomic_SearchNearest :: "AtomicCodebook \<Rightarrow> u64 list option \<Rightarrow> int \<Rightarrow> CodebookEntry \<times> int \<times> bool" where
  "Atomic_SearchNearest ac query maxHamming = (case Current ac of
     None \<Rightarrow> (zero_entry, 0, False)
   | Some cb \<Rightarrow> SearchNearest (Some cb) query maxHamming)"

definition Atomic_SearchAll ::
    "AtomicCodebook \<Rightarrow> u64 list option \<Rightarrow> int \<Rightarrow> CodebookMatch list \<Rightarrow> nat \<times> CodebookMatch list" where
  "Atomic_SearchAll ac query maxHamming out = (case Current ac of
     None \<Rightarrow> (0, out)
   | Some cb \<Rightarrow> SearchAll (Some cb) query maxHamming out)"

definition Atomic_Len :: "AtomicCodebook \<Rightarrow> nat" where
  "Atomic_Len ac = (case Current ac of None \<Rightarrow> 0 | Some cb \<Rightarrow> Codebook_Len (Some cb))"

section \<open>The file format is a codec\<close>

lemma upt_8: "[0..<8] = [0, 1, 2, 3, 4, 5, 6, 7 :: nat]"
  by (simp add: upt_rec)

lemma list_8: "length xs = 8 \<Longrightarrow> xs = [xs ! 0, xs ! 1, xs ! 2, xs ! 3, xs ! 4, xs ! 5, xs ! 6, xs ! 7]"
  by (rule nth_equalityI) (auto simp: less_Suc_eq numeral_eq_Suc)

interpretation header_codec: fixed_codec encodeCodebookHeader decodeCodebookHeader 32 header_wf
proof unfold_locales
  fix h :: CodebookHeader assume h: "header_wf h"
  then show "length (encodeCodebookHeader h) = 32"
    by (simp add: encodeCodebookHeader_def header_wf_def)
  show "decodeCodebookHeader (encodeCodebookHeader h) = h"
    using h by (simp add: encodeCodebookHeader_def decodeCodebookHeader_def header_wf_def subslice_def
        codec_simps)
next
  fix bs :: bytes assume bs: "length bs = 32"
  then show "header_wf (decodeCodebookHeader bs)"
    by (simp add: decodeCodebookHeader_def header_wf_def)
  have w: "le_put 2 (le_get (subslice 8 10 bs) :: u16) = subslice 8 10 bs"
    "le_put 2 (le_get (subslice 10 12 bs) :: u16) = subslice 10 12 bs"
    "le_put 4 (le_get (subslice 12 16 bs) :: u32) = subslice 12 16 bs"
    using subslice_put_get[OF bs, of 10 8, where ?'a = 16] subslice_put_get[OF bs, of 12 10, where ?'a = 16]
      subslice_put_get[OF bs, of 16 12, where ?'a = 32] by simp_all
  show "encodeCodebookHeader (decodeCodebookHeader bs) = bs"
    using bs by (simp add: encodeCodebookHeader_def decodeCodebookHeader_def w subslice_glue subslice_all)
qed

interpretation entry_codec: fixed_codec encodeCodebookEntry decodeCodebookEntry 72 entry_wf
proof unfold_locales
  fix e :: CodebookEntry assume e: "entry_wf e"
  then show "length (encodeCodebookEntry e) = 72"
    by (simp add: encodeCodebookEntry_def upt_8)
  show "decodeCodebookEntry (encodeCodebookEntry e) = e"
    using e list_8[of "Bitcode e"]
    by (simp add: encodeCodebookEntry_def decodeCodebookEntry_def entry_wf_def upt_8 subslice_def codec_simps)
next
  fix bs :: bytes assume bs: "length bs = 72"
  then show "entry_wf (decodeCodebookEntry bs)"
    by (simp add: decodeCodebookEntry_def entry_wf_def)
  have w8: "le_put 8 (le_get (subslice i (i + 8) bs) :: u64) = subslice i (i + 8) bs" if "i + 8 \<le> 72" for i
    using subslice_put_get[OF bs that, where ?'a = 64] by simp
  have w: "le_put 4 (le_get (subslice 64 68 bs) :: u32) = subslice 64 68 bs"
    "le_put 2 (le_get (subslice 68 70 bs) :: u16) = subslice 68 70 bs"
    "le_put 2 (le_get (subslice 70 72 bs) :: u16) = subslice 70 72 bs"
    using subslice_put_get[OF bs, of 68 64, where ?'a = 32] subslice_put_get[OF bs, of 70 68, where ?'a = 16]
      subslice_put_get[OF bs, of 72 70, where ?'a = 16] by simp_all
  show "encodeCodebookEntry (decodeCodebookEntry bs) = bs"
    using bs w8[of 0] w8[of 8] w8[of 16] w8[of 24] w8[of 32] w8[of 40] w8[of 48] w8[of 56]
    by (simp add: encodeCodebookEntry_def decodeCodebookEntry_def upt_8 w subslice_glue subslice_all)
qed

lemma parse_codebook_file:
  assumes "list_all entry_wf es" "length es \<le> codebookMaxEntries"
  shows "parse_codebook (codebook_file es) = Inr \<lparr>entries = es\<rparr>"
proof -
  let ?h = "\<lparr>Magic = codebookMagic, Version = codebookVersion, VectorDim = codebookVectorDim,
             EntryCount = word_of_nat (length es), Reserved = replicate 16 0\<rparr>"
  have h: "header_wf ?h" by (simp add: header_wf_def codebookMagic_def)
  have n: "unat (word_of_nat (length es) :: u32) = length es"
    using assms(2) by (simp add: unat_of_nat)
  show ?thesis
    using entry_codec.read_many_enc[OF assms(1), of "[]"] assms(2)
    by (simp add: codebook_file_def parse_codebook_def header_codec.enc_size[OF h]
        header_codec.dec_enc[OF h] n Let_def)
qed

section \<open>The search is exact\<close>

lemma OnesCount64_bounds: "0 \<le> OnesCount64 x" "OnesCount64 x \<le> 64"
proof -
  show "0 \<le> OnesCount64 x" by (simp add: OnesCount64_def)
  have "length (filter (bit x) [0..<64]) \<le> 64" using length_filter_le[of "bit x" "[0..<64]"] by simp
  then show "OnesCount64 x \<le> 64" by (simp add: OnesCount64_def)
qed

lemma codebookHamming_bounds: "0 \<le> codebookHamming q e" "codebookHamming q e \<le> 512"
  using OnesCount64_bounds[of "q ! 0 XOR Bitcode e ! 0"] OnesCount64_bounds[of "q ! 1 XOR Bitcode e ! 1"]
    OnesCount64_bounds[of "q ! 2 XOR Bitcode e ! 2"] OnesCount64_bounds[of "q ! 3 XOR Bitcode e ! 3"]
    OnesCount64_bounds[of "q ! 4 XOR Bitcode e ! 4"] OnesCount64_bounds[of "q ! 5 XOR Bitcode e ! 5"]
    OnesCount64_bounds[of "q ! 6 XOR Bitcode e ! 6"] OnesCount64_bounds[of "q ! 7 XOR Bitcode e ! 7"]
  by (simp_all add: codebookHamming_def Let_def)

lemma codebookHamming_zero_iff:
  assumes "length q = 8" "entry_wf e"
  shows "codebookHamming q e = 0 \<longleftrightarrow> q = Bitcode e"
proof -
  have z: "OnesCount64 (a XOR b) = 0 \<longleftrightarrow> a = b" for a b
    by (auto simp: OnesCount64_def filter_empty_conv bit_xor_iff intro!: bit_word_eqI)
  have "codebookHamming q e = 0 \<longleftrightarrow> (\<forall>k \<in> {0,1,2,3,4,5,6,7}. OnesCount64 (q ! k XOR Bitcode e ! k) = 0)"
    using OnesCount64_bounds(1) by (simp add: codebookHamming_def Let_def add_nonneg_eq_0_iff)
  also have "\<dots> \<longleftrightarrow> q = Bitcode e"
    unfolding z using list_8[OF assms(1)] list_8[of "Bitcode e"] assms(2)
    by (auto simp: entry_wf_def)
  finally show ?thesis .
qed

lemma codebookHammingBounded_exact:
  "codebookHammingBounded q e m \<le> m \<longleftrightarrow> codebookHamming q e \<le> m"
  "codebookHammingBounded q e m \<le> m \<Longrightarrow> codebookHammingBounded q e m = codebookHamming q e"
  using OnesCount64_bounds(1)[of "q ! 1 XOR Bitcode e ! 1"]
    OnesCount64_bounds(1)[of "q ! 2 XOR Bitcode e ! 2"] OnesCount64_bounds(1)[of "q ! 3 XOR Bitcode e ! 3"]
    OnesCount64_bounds(1)[of "q ! 4 XOR Bitcode e ! 4"] OnesCount64_bounds(1)[of "q ! 5 XOR Bitcode e ! 5"]
    OnesCount64_bounds(1)[of "q ! 6 XOR Bitcode e ! 6"] OnesCount64_bounds(1)[of "q ! 7 XOR Bitcode e ! 7"]
  by (simp_all add: codebookHammingBounded_def codebookHamming_def Let_def split: if_splits)

lemma entry_distance_exact:
  "entry_distance q m e \<le> m \<longleftrightarrow> codebookHamming q e \<le> m"
  "entry_distance q m e \<le> m \<Longrightarrow> entry_distance q m e = codebookHamming q e"
  by (auto simp: entry_distance_def codebookHammingBounded_exact split: if_splits)

text \<open>The reference: the first entry at minimal distance, if it is within the bound.\<close>

definition is_nearest :: "CodebookEntry list \<Rightarrow> u64 list \<Rightarrow> nat \<Rightarrow> bool" where
  "is_nearest es q i \<longleftrightarrow> i < length es
     \<and> (\<forall>j < length es. codebookHamming q (es ! i) \<le> codebookHamming q (es ! j))
     \<and> (\<forall>j < i. codebookHamming q (es ! i) < codebookHamming q (es ! j))"

text \<open>What the loop has established after a prefix of the entries.\<close>

definition search_inv :: "u64 list \<Rightarrow> int \<Rightarrow> CodebookEntry list \<Rightarrow> int \<times> CodebookEntry \<times> bool \<Rightarrow> bool" where
  "search_inv q m es st \<longleftrightarrow> (case st of (best, e, found) \<Rightarrow>
     if found then best \<le> m \<and> (\<exists>i. is_nearest es q i \<and> e = es ! i \<and> best = codebookHamming q e)
     else best = m + 1 \<and> (\<forall>e \<in> set es. m < codebookHamming q e))"

lemma is_nearest_snoc_better:
  assumes "\<forall>e' \<in> set es. codebookHamming q e < codebookHamming q e'"
  shows "is_nearest (es @ [e]) q (length es)"
  using assms by (auto simp: is_nearest_def nth_append less_Suc_eq intro: less_imp_le)

lemma is_nearest_snoc_keep:
  assumes "is_nearest es q i" "codebookHamming q (es ! i) \<le> codebookHamming q e"
  shows "is_nearest (es @ [e]) q i"
  using assms by (auto simp: is_nearest_def nth_append less_Suc_eq)

lemma search_inv_step:
  assumes "search_inv q m es st"
  shows "search_inv q m (es @ [e]) (nearest_step q m st e)"
proof (cases st)
  case (fields best e0 found)
  show ?thesis
  proof (cases "codebookHamming q e \<le> m \<and> codebookHamming q e < best")
    case True
    then have step: "nearest_step q m st e = (codebookHamming q e, e, True)"
      by (simp add: nearest_step_def fields entry_distance_exact)
    have "\<forall>e' \<in> set es. codebookHamming q e < codebookHamming q e'"
    proof
      fix e' assume "e' \<in> set es"
      then have "best \<le> codebookHamming q e' \<or> m < codebookHamming q e'"
        using assms
        by (auto simp: search_inv_def fields is_nearest_def in_set_conv_nth split: if_splits dest: nth_mem)
      then show "codebookHamming q e < codebookHamming q e'" using True by linarith
    qed
    from is_nearest_snoc_better[OF this] show ?thesis using True
      by (auto simp: search_inv_def step intro!: exI[of _ "length es"])
  next
    case False
    then have step: "nearest_step q m st e = st"
      by (auto simp: nearest_step_def fields entry_distance_exact Let_def)
    show ?thesis
    proof (cases found)
      case True
      then obtain i where i: "is_nearest es q i" "e0 = es ! i" "best = codebookHamming q e0" "best \<le> m"
        using assms by (auto simp: search_inv_def fields)
      then have "codebookHamming q (es ! i) \<le> codebookHamming q e" using False by auto
      from is_nearest_snoc_keep[OF i(1) this] i show ?thesis unfolding step
        by (auto simp: search_inv_def fields True is_nearest_def nth_append intro!: exI[of _ i])
    next
      case nf: False
      then show ?thesis using assms False unfolding step by (auto simp: search_inv_def fields)
    qed
  qed
qed

lemma search_inv_foldl:
  "search_inv q m es st \<Longrightarrow> search_inv q m (es @ es') (foldl (nearest_step q m) st es')"
proof (induction es' arbitrary: es st)
  case (Cons e es')
  from Cons.IH[OF search_inv_step[OF Cons.prems, of e]] show ?case by simp
qed simp

lemma SearchNearest_cases:
  assumes "- (2 ^ 63) \<le> m" "m < 2 ^ 63 - 1"
  obtains (found) i where "is_nearest (entries c) q i" "codebookHamming q (entries c ! i) \<le> m"
      "SearchNearest (Some c) (Some q) m = (entries c ! i, codebookHamming q (entries c ! i), True)"
    | (missing) "\<forall>e \<in> set (entries c). m < codebookHamming q e"
      "SearchNearest (Some c) (Some q) m = (zero_entry, 0, False)"
proof -
  obtain best e f where r: "foldl (nearest_step q m) (m + 1, zero_entry, False) (entries c) = (best, e, f)"
    by (metis surj_pair)
  have "search_inv q m [] (m + 1, zero_entry, False)" by (simp add: search_inv_def)
  from search_inv_foldl[OF this, of "entries c"] have inv: "search_inv q m (entries c) (best, e, f)"
    by (simp add: r)
  have s: "SearchNearest (Some c) (Some q) m = (if \<not> f then (zero_entry, 0, False) else (e, best, True))"
    using assms by (simp add: SearchNearest_def r)
  show ?thesis
  proof (cases f)
    case True
    then show ?thesis using inv s found by (auto simp: search_inv_def)
  next
    case False
    then show ?thesis using inv s missing by (simp add: search_inv_def)
  qed
qed

text \<open>The exhaustive search: the count, and as many matches as the buffer holds.\<close>

definition matches :: "u64 list \<Rightarrow> int \<Rightarrow> CodebookEntry list \<Rightarrow> CodebookMatch list" where
  "matches q m es = map (\<lambda>e. \<lparr>Entry = e, Distance = codebookHamming q e\<rparr>)
                        (filter (\<lambda>e. codebookHamming q e \<le> m) es)"

lemma list_update_take_drop:
  "n < length out \<Longrightarrow> length xs = n \<Longrightarrow> (xs @ drop n out)[n := x] = (xs @ [x]) @ drop (Suc n) out"
  by (simp add: list_update_append Cons_nth_drop_Suc[symmetric])

lemma SearchAll_foldl:
  assumes "n = length ms" "out' = take (length out) ms @ drop n out"
  shows "foldl (all_step q m) (n, out') es =
    (n + length (matches q m es), take (length out) (ms @ matches q m es) @ drop (n + length (matches q m es)) out)"
  using assms
proof (induction es arbitrary: n ms out')
  case Nil
  then show ?case by (simp add: matches_def)
next
  case (Cons e es)
  show ?case
  proof (cases "codebookHamming q e \<le> m")
    case False
    then have "all_step q m (n, out') e = (n, out')"
      by (simp add: all_step_def entry_distance_exact)
    then show ?thesis using Cons.IH[OF Cons.prems] False by (simp add: matches_def)
  next
    case True
    let ?me = "\<lparr>Entry = e, Distance = codebookHamming q e\<rparr>"
    let ?out = "take (length out) (ms @ [?me]) @ drop (Suc n) out"
    have d: "entry_distance q m e = codebookHamming q e" using True entry_distance_exact by blast
    have "length out' = length out" using Cons.prems by auto
    then have "all_step q m (n, out') e = (Suc n, ?out)"
      using True d Cons.prems by (auto simp: all_step_def Let_def list_update_take_drop)
    then show ?thesis using Cons.IH[of "Suc n" "ms @ [?me]" ?out] True Cons.prems(1)
      by (simp add: matches_def)
  qed
qed

lemma SearchAll_exact:
  "SearchAll (Some c) (Some q) m out =
     (length (matches q m (entries c)),
      take (length out) (matches q m (entries c)) @ drop (length (matches q m (entries c))) out)"
  using SearchAll_foldl[of 0 "[]" out out q m "entries c"] by (simp add: SearchAll_def)

section \<open>The contract of a nearest-neighbour index\<close>

text \<open>
  What a decision maker relies on when it asks an index for the element nearest
  to a query within a bound.
\<close>

locale nearest_index =
  fixes dist :: "'q \<Rightarrow> 'e \<Rightarrow> int"
    and items :: "'i \<Rightarrow> 'e set"
    and search :: "'i \<Rightarrow> 'q \<Rightarrow> int \<Rightarrow> 'e \<times> int \<times> bool"
    and in_range :: "int \<Rightarrow> bool"
  assumes hit: "in_range m \<Longrightarrow> search i q m = (e, d, True) \<Longrightarrow>
      e \<in> items i \<and> d = dist q e \<and> d \<le> m \<and> (\<forall>e' \<in> items i. d \<le> dist q e')"
    and miss: "in_range m \<Longrightarrow> search i q m = (e, d, False) \<Longrightarrow> \<forall>e' \<in> items i. m < dist q e'"
begin

lemma found_iff:
  assumes "in_range m" "search i q m = (e, d, f)"
  shows "f \<longleftrightarrow> (\<exists>e' \<in> items i. dist q e' \<le> m)"
proof (cases f)
  case True
  then have "search i q m = (e, d, True)" using assms(2) by simp
  from hit[OF assms(1) this] True show ?thesis by auto
next
  case False
  then show ?thesis using miss[OF assms(1)] assms(2) by (fastforce simp: not_le)
qed

text \<open>One search with the wide bound also answers the question for a narrower one.\<close>

lemma within_iff:
  assumes "in_range far" "near \<le> far" "search i q far = (e, d, f)"
  shows "f \<and> d \<le> near \<longleftrightarrow> (\<exists>e' \<in> items i. dist q e' \<le> near)"
proof (cases f)
  case True
  then have "search i q far = (e, d, True)" using assms(3) by simp
  from hit[OF assms(1) this] True show ?thesis by (auto intro: order_trans)
next
  case False
  then show ?thesis using miss[OF assms(1)] assms(2,3) by (fastforce simp: not_le)
qed

end

definition search_range :: "int \<Rightarrow> bool" where
  "search_range m \<longleftrightarrow> - (2 ^ 63) \<le> m \<and> m < 2 ^ 63 - 1"

interpretation codebook_index: nearest_index codebookHamming "\<lambda>c. set (entries c)"
    "\<lambda>c q m. SearchNearest (Some c) (Some q) m" search_range
proof unfold_locales
  fix m c q e d
  assume m: "search_range m"
  then have r: "- (2 ^ 63) \<le> m" "m < 2 ^ 63 - 1" by (simp_all add: search_range_def)
  show "e \<in> set (entries c) \<and> d = codebookHamming q e \<and> d \<le> m \<and> (\<forall>e' \<in> set (entries c). d \<le> codebookHamming q e')"
    if "SearchNearest (Some c) (Some q) m = (e, d, True)"
    by (rule SearchNearest_cases[OF r, of c q]) (use that in \<open>auto simp: is_nearest_def in_set_conv_nth\<close>)
  show "\<forall>e' \<in> set (entries c). m < codebookHamming q e'"
    if "SearchNearest (Some c) (Some q) m = (e, d, False)"
    by (rule SearchNearest_cases[OF r, of c q]) (use that in auto)
qed

section \<open>Properties\<close>

text \<open>Saving a codebook of at most \<open>2 ^ 24\<close> entries and loading the file gives
  back the same entries.
\<close>

lemma codebook_roundtrip:
  assumes "list_all entry_wf es" and "length es \<le> 2 ^ 24" and "creatable path"
  shows "\<exists>fs'. SaveCodebook fs creatable path es = (fs', None) \<and> LoadCodebook fs' path = Inr (NewCodebook es)"
  using assms parse_codebook_file[OF assms(1,2)]
  by (simp add: SaveCodebook_def LoadCodebook_def NewCodebook_def)

text \<open>A load succeeds only on a file that is byte for byte the saved form of the
  entries it returns, up to the reserved header bytes and a trailing rest; every
  other content is refused with an error.
\<close>

lemma codebook_load_sound:
  assumes "LoadCodebook fs path = Inr cb"
  shows "\<exists>content reserved rest. fs path = Some content \<and> length reserved = 16
     \<and> content = codebookMagic @ le_put 2 codebookVersion @ le_put 2 codebookVectorDim
         @ le_put 4 (word_of_nat (length (entries cb)) :: u32) @ reserved
         @ concat (map encodeCodebookEntry (entries cb)) @ rest
     \<and> list_all entry_wf (entries cb) \<and> length (entries cb) \<le> 2 ^ 24"
proof -
  obtain content where c: "fs path = Some content" and p: "parse_codebook content = Inr cb"
    using assms by (auto simp: LoadCodebook_def split: option.splits)
  obtain hb body where r: "content = hb @ body" "length hb = 32"
    using p by (auto simp: parse_codebook_def read_full_def split: option.splits if_splits)
      (metis append_take_drop_id length_take min.absorb2)
  define hdr where "hdr = decodeCodebookHeader hb"
  have h: "header_wf hdr" "encodeCodebookHeader hdr = hb"
    using header_codec.dec_wf[OF r(2)] header_codec.enc_dec[OF r(2)] by (simp_all add: hdr_def)
  have ok: "Magic hdr = codebookMagic" "Version hdr = codebookVersion" "VectorDim hdr = codebookVectorDim"
    "unat (EntryCount hdr) \<le> codebookMaxEntries"
    and "\<exists>rest. read_many 72 decodeCodebookEntry (unat (EntryCount hdr)) body = Some (entries cb, rest)"
    using p r by (auto simp: parse_codebook_def Let_def hdr_def[symmetric] split: if_splits option.splits)
  then obtain rest where rm: "read_many 72 decodeCodebookEntry (unat (EntryCount hdr)) body = Some (entries cb, rest)"
    by blast
  from read_many_length[OF rm] have n: "length (entries cb) = unat (EntryCount hdr)" by simp
  note s = entry_codec.read_many_sound[OF rm]
  show ?thesis
    by (rule exI[of _ content], rule exI[of _ "Reserved hdr"], rule exI[of _ rest])
      (use c r(1) h ok n s in \<open>auto simp: encodeCodebookHeader_def header_wf_def\<close>)
qed

text \<open>
  C4.  The nearest-neighbour search with early exit returns the first entry at
  the least Hamming distance together with that distance, when one lies within
  the bound, and reports a miss exactly when none does.
\<close>

theorem search_nearest_exact:
  assumes "- (2 ^ 63) \<le> m" and "m < 2 ^ 63 - 1"
  shows "case SearchNearest (Some c) (Some q) m of (e, d, found) \<Rightarrow>
     (found \<longleftrightarrow> (\<exists>e' \<in> set (entries c). codebookHamming q e' \<le> m))
     \<and> (found \<longrightarrow> (\<exists>i < length (entries c). e = entries c ! i \<and> d = codebookHamming q e \<and> d \<le> m
            \<and> (\<forall>e' \<in> set (entries c). d \<le> codebookHamming q e')
            \<and> (\<forall>j < i. d < codebookHamming q (entries c ! j))))
     \<and> (\<not> found \<longrightarrow> e = zero_entry \<and> d = 0)"
proof (rule SearchNearest_cases[OF assms, of c q])
  fix i assume n: "is_nearest (entries c) q i" and le: "codebookHamming q (entries c ! i) \<le> m"
    and s: "SearchNearest (Some c) (Some q) m = (entries c ! i, codebookHamming q (entries c ! i), True)"
  from n have "entries c ! i \<in> set (entries c)" "i < length (entries c)"
    "\<forall>e' \<in> set (entries c). codebookHamming q (entries c ! i) \<le> codebookHamming q e'"
    "\<forall>j < i. codebookHamming q (entries c ! i) < codebookHamming q (entries c ! j)"
    by (auto simp: is_nearest_def in_set_conv_nth)
  with le show ?thesis unfolding s by auto
qed (auto simp: not_le)

theorem search_nearest_exact_witness:
  "case SearchNearest (Some \<lparr>entries = [zero_entry, zero_entry\<lparr>ThreatID := 9\<rparr>]\<rparr>) (Some (replicate 8 0)) 3 of
     (e, d, found) \<Rightarrow> found \<longleftrightarrow> (\<exists>e' \<in> {zero_entry, zero_entry\<lparr>ThreatID := 9\<rparr>}. codebookHamming (replicate 8 0) e' \<le> 3)"
  using search_nearest_exact[of 3 "\<lparr>entries = [zero_entry, zero_entry\<lparr>ThreatID := 9\<rparr>]\<rparr>" "replicate 8 0"]
  by (auto split: prod.splits)

text \<open>The exhaustive search counts every entry within the bound and fills the
  caller's buffer with the first of them, in order, leaving the rest of the
  buffer untouched.
\<close>

lemma search_all_exact:
  "let found = map (\<lambda>e. \<lparr>Entry = e, Distance = codebookHamming q e\<rparr>)
                 (filter (\<lambda>e. codebookHamming q e \<le> m) (entries c))
   in SearchAll (Some c) (Some q) m out = (length found, take (length out) found @ drop (length found) out)"
  unfolding Let_def matches_def[symmetric] by (rule SearchAll_exact)

text \<open>
  A reload that fails leaves the active codebook as it was; one that
  succeeds installs exactly the codebook of the file.
\<close>

lemma reload_keeps_active:
  "case ReloadFile fs ac path of
     (ac', Some err) \<Rightarrow> ac' = ac \<and> LoadCodebook fs path = Inl err
   | (ac', None) \<Rightarrow> (\<exists>cb. LoadCodebook fs path = Inr cb \<and> Current ac' = Some cb
        \<and> Atomic_SearchNearest ac' q m = SearchNearest (Some cb) q m)"
  by (auto simp: ReloadFile_def Swap_def Current_def Atomic_SearchNearest_def split: sum.splits)

end
