(* ===== verification/Ontology.thy ===== *)
theory Ontology
  imports Prelude
begin

text \<open>
  The four-axis ontology of \<open>internal/engine/ontology_table.go\<close>: a 20-bit key
  packing subject, action, target and context, the invariance axioms that map a
  key to a verdict, and the derivation of the context from what the host shows
  of a process.
\<close>

abbreviation SubjUnknown :: byte where "SubjUnknown \<equiv> 0"
abbreviation SubjRootSystemd :: byte where "SubjRootSystemd \<equiv> 1"
abbreviation SubjRootInteractive :: byte where "SubjRootInteractive \<equiv> 2"
abbreviation SubjUserInteractive :: byte where "SubjUserInteractive \<equiv> 3"
abbreviation SubjServiceUnpriv :: byte where "SubjServiceUnpriv \<equiv> 4"
abbreviation SubjContainerK8s :: byte where "SubjContainerK8s \<equiv> 5"
abbreviation SubjMemfdAnon :: byte where "SubjMemfdAnon \<equiv> 6"
abbreviation SubjDeletedBinary :: byte where "SubjDeletedBinary \<equiv> 7"
abbreviation SubjKernelWorker :: byte where "SubjKernelWorker \<equiv> 8"
abbreviation SubjMax :: byte where "SubjMax \<equiv> 63"
abbreviation ActUnknown :: byte where "ActUnknown \<equiv> 0"
abbreviation ActExecve :: byte where "ActExecve \<equiv> 1"
abbreviation ActMemfdCreate :: byte where "ActMemfdCreate \<equiv> 2"
abbreviation ActMprotectWX :: byte where "ActMprotectWX \<equiv> 3"
abbreviation ActConnectNet :: byte where "ActConnectNet \<equiv> 4"
abbreviation ActWriteFile :: byte where "ActWriteFile \<equiv> 5"
abbreviation ActUnlinkFile :: byte where "ActUnlinkFile \<equiv> 6"
abbreviation ActSetxattr :: byte where "ActSetxattr \<equiv> 7"
abbreviation ActPrctlMasq :: byte where "ActPrctlMasq \<equiv> 8"
abbreviation ActDnsTunnel :: byte where "ActDnsTunnel \<equiv> 9"
abbreviation ActMax :: byte where "ActMax \<equiv> 31"
abbreviation TgtUnknown :: byte where "TgtUnknown \<equiv> 0"
abbreviation TgtFIMEtc :: byte where "TgtFIMEtc \<equiv> 1"
abbreviation TgtFIMSsh :: byte where "TgtFIMSsh \<equiv> 2"
abbreviation TgtTmpExec :: byte where "TgtTmpExec \<equiv> 3"
abbreviation TgtProcSelf :: byte where "TgtProcSelf \<equiv> 4"
abbreviation TgtNetExternal :: byte where "TgtNetExternal \<equiv> 5"
abbreviation TgtBinSystem :: byte where "TgtBinSystem \<equiv> 6"
abbreviation TgtPipeInterpreter :: byte where "TgtPipeInterpreter \<equiv> 7"
abbreviation TgtMax :: byte where "TgtMax \<equiv> 31"
abbreviation CtxDefault :: byte where "CtxDefault \<equiv> 0"
abbreviation CtxBootInit :: byte where "CtxBootInit \<equiv> 1"
abbreviation CtxSystemdUnit :: byte where "CtxSystemdUnit \<equiv> 2"
abbreviation CtxInteractiveTTY :: byte where "CtxInteractiveTTY \<equiv> 3"
abbreviation CtxCronBatch :: byte where "CtxCronBatch \<equiv> 4"
abbreviation CtxHighEntropy :: byte where "CtxHighEntropy \<equiv> 5"
abbreviation CtxNetworkBurst :: byte where "CtxNetworkBurst \<equiv> 6"
abbreviation CtxMemfdSpoof :: byte where "CtxMemfdSpoof \<equiv> 7"
abbreviation CtxDeletedExe :: byte where "CtxDeletedExe \<equiv> 8"
abbreviation CtxAnonWX :: byte where "CtxAnonWX \<equiv> 9"
abbreviation CtxTmpResidence :: byte where "CtxTmpResidence \<equiv> 10"
abbreviation CtxKworkerSpoof :: byte where "CtxKworkerSpoof \<equiv> 11"
abbreviation CtxMax :: byte where "CtxMax \<equiv> 15"
abbreviation OntoVerdictUnknown :: byte where "OntoVerdictUnknown \<equiv> 0"
abbreviation OntoVerdictAllow :: byte where "OntoVerdictAllow \<equiv> 1"
abbreviation OntoVerdictDeny :: byte where "OntoVerdictDeny \<equiv> 2"
abbreviation OntoVerdictAmbiguous :: byte where "OntoVerdictAmbiguous \<equiv> 3"

type_synonym OntoKey = u32

section \<open>Packing\<close>

definition PackOntoKey :: "byte \<Rightarrow> byte \<Rightarrow> byte \<Rightarrow> byte \<Rightarrow> OntoKey" where
  "PackOntoKey subject act target context0 =
     ucast (subject AND 0x3F) OR push_bit 6 (ucast (act AND 0x1F))
     OR push_bit 11 (ucast (target AND 0x1F)) OR push_bit 16 (ucast (context0 AND 0x0F))"

definition Unpack :: "OntoKey \<Rightarrow> byte \<times> byte \<times> byte \<times> byte" where
  "Unpack u = (ucast (u AND 0x3F), ucast (drop_bit 6 u AND 0x1F),
               ucast (drop_bit 11 u AND 0x1F), ucast (drop_bit 16 u AND 0x0F))"

section \<open>The axioms\<close>

definition EvaluateOntology :: "OntoKey \<Rightarrow> byte" where
  "EvaluateOntology k = (case Unpack k of (subj, act, tgt, ctx) \<Rightarrow>
     if (tgt = TgtFIMEtc \<or> tgt = TgtFIMSsh) \<and> (act = ActWriteFile \<or> act = ActUnlinkFile \<or> act = ActSetxattr) then
       (if subj = SubjRootSystemd \<and> ctx = CtxSystemdUnit then OntoVerdictAllow else OntoVerdictDeny)
     else if (subj = SubjMemfdAnon \<or> subj = SubjDeletedBinary)
           \<and> (act = ActExecve \<or> act = ActConnectNet \<or> act = ActMprotectWX) then OntoVerdictDeny
     else if (act = ActMemfdCreate \<or> act = ActMprotectWX)
           \<and> (subj = SubjServiceUnpriv \<or> subj = SubjContainerK8s) then OntoVerdictDeny
     else if act = ActPrctlMasq \<and> subj \<noteq> SubjKernelWorker then OntoVerdictDeny
     else if tgt = TgtTmpExec \<and> act = ActExecve
           \<and> (subj = SubjServiceUnpriv \<or> ctx = CtxSystemdUnit) then OntoVerdictDeny
     else if tgt = TgtPipeInterpreter \<and> act = ActExecve then OntoVerdictDeny
     else if act = ActDnsTunnel \<and> ctx = CtxHighEntropy \<and> tgt = TgtNetExternal then OntoVerdictDeny
     else if ctx = CtxKworkerSpoof \<or> ctx = CtxMemfdSpoof \<or> ctx = CtxDeletedExe \<or> ctx = CtxAnonWX
       then OntoVerdictDeny
     else if ctx = CtxTmpResidence \<and> (act = ActExecve \<or> act = ActConnectNet) then OntoVerdictDeny
     else if subj = SubjRootSystemd \<and> ctx = CtxSystemdUnit \<and> act = ActExecve \<and> tgt = TgtBinSystem
       then OntoVerdictAllow
     else if (subj = SubjUserInteractive \<or> subj = SubjRootInteractive) \<and> ctx = CtxInteractiveTTY
           \<and> act = ActExecve \<and> tgt = TgtBinSystem then OntoVerdictAllow
     else OntoVerdictAmbiguous)"

section \<open>Deriving the context\<close>

definition isKworker :: "bytes \<Rightarrow> bool" where
  "isKworker comm \<longleftrightarrow> 7 \<le> length comm \<and> take 7 comm = ascii ''kworker''"

text \<open>The two nested loops of \<open>indexOfStr\<close>; \<open>-1\<close> is \<open>None\<close>.\<close>

definition indexOfStr :: "bytes \<Rightarrow> bytes \<Rightarrow> nat option" where
  "indexOfStr b s = (let n = length s in
     if n = 0 then Some 0
     else if length b < n then None
     else find (\<lambda>i. list_all (\<lambda>j. b ! (i + j) = s ! j) [0..<n]) [0..<Suc (length b - n)])"

definition DeriveOntoContext :: "bytes \<Rightarrow> bool \<Rightarrow> bool \<Rightarrow> bool \<Rightarrow> bytes \<Rightarrow> u32 \<Rightarrow> byte" where
  "DeriveOntoContext exeTarget isMemfd isDeleted hasWXAnon comm pid =
     (if isKworker comm \<and> (2 < pid \<or> 0 < length exeTarget) then CtxKworkerSpoof
      else if isMemfd \<or> indexOfStr exeTarget (ascii ''/memfd:'') \<noteq> None then CtxMemfdSpoof
      else if isDeleted \<or> indexOfStr exeTarget (ascii ''(deleted)'') \<noteq> None then CtxDeletedExe
      else if hasWXAnon then CtxAnonWX
      else if indexOfStr exeTarget (ascii ''/tmp/'') \<noteq> None
            \<or> indexOfStr exeTarget (ascii ''/var/tmp/'') \<noteq> None
            \<or> indexOfStr exeTarget (ascii ''/dev/shm/'') \<noteq> None then CtxTmpResidence
      else CtxDefault)"

section \<open>The diagnostic line\<close>

text \<open>A \<open>switch\<close> over constants with a default.\<close>

definition switch_str :: "byte \<Rightarrow> (byte \<times> string) list \<Rightarrow> string \<Rightarrow> string" where
  "switch_str x cases dflt = (case map_of cases x of None \<Rightarrow> dflt | Some s \<Rightarrow> s)"

definition OntoDiagnostic :: "OntoKey \<Rightarrow> string" where
  "OntoDiagnostic k = (case Unpack k of (subj, act, tgt, ctx) \<Rightarrow>
     let v = EvaluateOntology k;
         subjStr = switch_str subj
           [(SubjRootSystemd, ''RootSystemd''), (SubjRootInteractive, ''RootInteractif''),
            (SubjUserInteractive, ''UserInteractif''), (SubjServiceUnpriv, ''ServiceNonPrivilege''),
            (SubjContainerK8s, ''ConteneurK8s''), (SubjMemfdAnon, ''MemfdAnonyme''),
            (SubjDeletedBinary, ''BinaireSupprime''), (SubjKernelWorker, ''KernelWorker'')] ''Inconnu'';
         actStr = switch_str act
           [(ActExecve, ''Execve''), (ActMemfdCreate, ''MemfdCreate''), (ActMprotectWX, ''MprotectWX''),
            (ActConnectNet, ''ConnectNet''), (ActWriteFile, ''WriteFile''), (ActUnlinkFile, ''UnlinkFile''),
            (ActSetxattr, ''Setxattr''), (ActPrctlMasq, ''PrctlMasquerade''), (ActDnsTunnel, ''DnsTunnel'')]
           ''Inconnue'';
         tgtStr = switch_str tgt
           [(TgtFIMEtc, ''FIM:/etc''), (TgtFIMSsh, ''FIM:~/.ssh''), (TgtTmpExec, ''TmpExec:/tmp''),
            (TgtProcSelf, ''ProcSelf:/proc''), (TgtNetExternal, ''ReseauExterne''),
            (TgtBinSystem, ''BinairesSysteme''), (TgtPipeInterpreter, ''PipeInterpreteur'')] ''Inconnue'';
         ctxStr = switch_str ctx
           [(CtxBootInit, ''BootInit''), (CtxSystemdUnit, ''SystemdUnit''),
            (CtxInteractiveTTY, ''InteractiveTTY''), (CtxCronBatch, ''CronBatch''),
            (CtxHighEntropy, ''HighEntropy''), (CtxNetworkBurst, ''NetworkBurst''),
            (CtxMemfdSpoof, ''MemfdSpoof''), (CtxDeletedExe, ''DeletedExe''), (CtxAnonWX, ''AnonWX''),
            (CtxTmpResidence, ''TmpResidence''), (CtxKworkerSpoof, ''KworkerSpoof'')] ''Defaut'';
         vStr = (if v = OntoVerdictAllow then ''CONFORME'' else if v = OntoVerdictDeny then ''VIOLATION''
                 else ''AMBIGU'')
     in ''[Onto4x:'' @ vStr @ ''] Sujet='' @ subjStr @ '' Action='' @ actStr @ '' Cible='' @ tgtStr
        @ '' Contexte='' @ ctxStr)"

section \<open>Lemmas\<close>

lemma unpack_pack:
  "Unpack (PackOntoKey s a t c) = (s AND 0x3F, a AND 0x1F, t AND 0x1F, c AND 0x0F)"
proof -
  have m: "(0x3F :: 'a::len word) = mask 6" "(0x1F :: 'a::len word) = mask 5" "(0x0F :: 'a::len word) = mask 4"
    by (simp_all add: mask_eq_exp_minus_1)
  show ?thesis unfolding Unpack_def PackOntoKey_def m
    by (auto intro!: bit_word_eqI simp: bit_simps)
qed

lemma indexOfStr_index_sub: "indexOfStr b s = index_sub b s"
proof -
  have eq: "list_all (\<lambda>j. b ! (i + j) = s ! j) [0..<length s] \<longleftrightarrow> take (length s) (drop i b) = s"
    if "i < Suc (length b - length s)" "length s \<le> length b" for i
  proof
    assume "list_all (\<lambda>j. b ! (i + j) = s ! j) [0..<length s]"
    then show "take (length s) (drop i b) = s"
      using that by (intro nth_equalityI) (auto simp: list_all_iff)
  next
    assume t: "take (length s) (drop i b) = s"
    have "b ! (i + j) = s ! j" if "j < length s" for j
    proof -
      have "i + j < length b" using that \<open>i < _\<close> \<open>length s \<le> _\<close> by simp
      then show ?thesis using that by (subst t[symmetric]) simp
    qed
    then show "list_all (\<lambda>j. b ! (i + j) = s ! j) [0..<length s]" by (simp add: list_all_iff)
  qed
  consider "s = []" | "length b < length s" | "s \<noteq> []" "length s \<le> length b" by linarith
  then show ?thesis
  proof cases
    case 1
    have "find (\<lambda>i. True) [0..<Suc n] = Some 0" for n
      by (subst upt_conv_Cons) simp_all
    then show ?thesis using 1 by (simp add: indexOfStr_def index_sub_def del: upt_Suc)
  next
    case 2
    then show ?thesis by (auto simp: indexOfStr_def index_sub_def Let_def)
  next
    case 3
    then have "Suc (length b) - length s = Suc (length b - length s)" by simp
    moreover have "find (\<lambda>i. list_all (\<lambda>j. b ! (i + j) = s ! j) [0..<length s]) [0..<Suc (length b - length s)]
        = find (\<lambda>i. take (length s) (drop i b) = s) [0..<Suc (length b - length s)]"
      using 3 by (intro find_cong_upt eq)
    ultimately show ?thesis using 3 by (simp add: indexOfStr_def index_sub_def Let_def del: upt_Suc)
  qed
qed

lemma indexOfStr_found: "indexOfStr b s \<noteq> None \<longleftrightarrow> sublist s b"
  unfolding indexOfStr_index_sub using contains_sub_def[of b s] contains_sub_iff[of b s] by simp

lemma hostile_context_denied:
  assumes "Unpack k = (s, a, t, c)" "c \<in> {CtxKworkerSpoof, CtxMemfdSpoof, CtxDeletedExe, CtxAnonWX}"
  shows "EvaluateOntology k = OntoVerdictDeny"
  using assms(2) by (elim insertE emptyE) (simp_all add: EvaluateOntology_def assms(1))

section \<open>Properties\<close>

text \<open>The verdict of a packed key is exactly this: conformity is granted only to
  a root systemd unit modifying a protected file or running a system binary,
  and to an interactive session running a system binary from its terminal;
  every verdict is one of conform, violation, ambiguous.
\<close>

lemma onto_allow_iff:
  "(EvaluateOntology (PackOntoKey s a t c) = OntoVerdictAllow \<longleftrightarrow>
      (s AND 0x3F = SubjRootSystemd \<and> c AND 0x0F = CtxSystemdUnit
        \<and> (a AND 0x1F \<in> {ActWriteFile, ActUnlinkFile, ActSetxattr} \<and> t AND 0x1F \<in> {TgtFIMEtc, TgtFIMSsh}
           \<or> a AND 0x1F = ActExecve \<and> t AND 0x1F = TgtBinSystem))
      \<or> (s AND 0x3F \<in> {SubjUserInteractive, SubjRootInteractive} \<and> c AND 0x0F = CtxInteractiveTTY
        \<and> a AND 0x1F = ActExecve \<and> t AND 0x1F = TgtBinSystem))
   \<and> EvaluateOntology (PackOntoKey s a t c) \<in> {OntoVerdictAllow, OntoVerdictDeny, OntoVerdictAmbiguous}"
proof -
  define s' a' t' c' where d: "s' = s AND 0x3F" "a' = a AND 0x1F" "t' = t AND 0x1F" "c' = c AND 0x0F"
  show ?thesis unfolding EvaluateOntology_def unpack_pack d[symmetric]
    by simp
qed

text \<open>A process whose image is an anonymous memory file, whose binary was
  unlinked, that holds anonymous writable and executable pages, or that carries
  a kernel worker name outside the kernel is denied whatever subject, action
  and target its key declares.
\<close>

lemma derived_context_denied:
  assumes "isMemfd \<or> sublist (ascii ''/memfd:'') exe \<or> isDeleted \<or> sublist (ascii ''(deleted)'') exe
         \<or> hasWX \<or> (prefix (ascii ''kworker'') comm \<and> (2 < pid \<or> exe \<noteq> []))"
  shows "EvaluateOntology (PackOntoKey s a t (DeriveOntoContext exe isMemfd isDeleted hasWX comm pid))
       = OntoVerdictDeny"
proof (rule hostile_context_denied[OF unpack_pack])
  have k: "isKworker comm \<longleftrightarrow> prefix (ascii ''kworker'') comm"
    unfolding has_prefix_iff[symmetric] isKworker_def has_prefix_def
    by (auto simp: numeral_eq_Suc dest: arg_cong[of _ _ length])
  show "DeriveOntoContext exe isMemfd isDeleted hasWX comm pid AND 0x0F
      \<in> {CtxKworkerSpoof, CtxMemfdSpoof, CtxDeletedExe, CtxAnonWX}"
    using assms unfolding DeriveOntoContext_def k indexOfStr_found by auto
qed

text \<open>The diagnostic line announces a violation exactly for the denied keys.\<close>

lemma diagnostic_violation_iff:
  "prefix ''[Onto4x:VIOLATION]'' (OntoDiagnostic k) \<longleftrightarrow> EvaluateOntology k = OntoVerdictDeny"
  by (auto simp: OntoDiagnostic_def Let_def split: prod.split)

end
