(* ===== verification/GrayZone.thy ===== *)
theory GrayZone
  imports Codebook Ontology
begin

text \<open>
  The gray-zone decider of \<open>internal/engine/grayzone.go\<close>: the ontology verdict
  and the vector search are combined, and what stays ambiguous is escalated
  under two token buckets, one per source and one global.  The clock readings
  \<open>time.Now().UnixNano()\<close> are arguments.  Each call is modelled as it runs
  without interference, where every compare-and-swap succeeds at once.
\<close>

abbreviation CascadeFastPass :: byte where "CascadeFastPass \<equiv> 1"
abbreviation CascadeFastDrop :: byte where "CascadeFastDrop \<equiv> 2"
abbreviation CascadeEscalate :: byte where "CascadeEscalate \<equiv> 3"
abbreviation CascadeQueueFull :: byte where "CascadeQueueFull \<equiv> 4"
abbreviation CascadeSourceThrottled :: byte where "CascadeSourceThrottled \<equiv> 5"

abbreviation second :: int where "second \<equiv> 1000000000"

record sourceSlot =
  slot_sourceID :: u64
  slot_tokens :: u32
  slot_lastRefill :: int

record GrayZoneConfig =
  DistStrict :: int
  DistFar :: int
  MaxBurst :: u32
  RefillPerSec :: u32
  SourceMaxBurst :: u32
  SourceRefillPerSec :: u32

definition DefaultGrayZoneConfig :: GrayZoneConfig where
  "DefaultGrayZoneConfig = \<lparr>DistStrict = 16, DistFar = 64, MaxBurst = 100, RefillPerSec = 25,
                            SourceMaxBurst = 20, SourceRefillPerSec = 5\<rparr>"

record GrayZoneDecider =
  cfg :: GrayZoneConfig
  tokens :: u32
  lastRefill :: int
  escalated :: u64
  throttledGlobal :: u64
  throttledSource :: u64
  sources :: "nat \<Rightarrow> sourceSlot"

definition normalize_config :: "GrayZoneConfig \<Rightarrow> GrayZoneConfig" where
  "normalize_config c0 = (let
     c1 = (if DistStrict c0 \<le> 0 then c0\<lparr>DistStrict := 16\<rparr> else c0);
     c2 = (if DistFar c1 \<le> DistStrict c1 then c1\<lparr>DistFar := 64\<rparr> else c1);
     c3 = (if MaxBurst c2 = 0 then c2\<lparr>MaxBurst := 100\<rparr> else c2);
     c4 = (if RefillPerSec c3 = 0 then c3\<lparr>RefillPerSec := 25\<rparr> else c3);
     c5 = (if SourceMaxBurst c4 = 0 then c4\<lparr>SourceMaxBurst := 20\<rparr> else c4);
     c6 = (if SourceRefillPerSec c5 = 0 then c5\<lparr>SourceRefillPerSec := 5\<rparr> else c5)
   in c6)"

definition NewGrayZoneDecider :: "int \<Rightarrow> GrayZoneConfig \<Rightarrow> GrayZoneDecider" where
  "NewGrayZoneDecider now c0 = (let c = normalize_config c0 in
     \<lparr>cfg = c, tokens = MaxBurst c, lastRefill = now, escalated = 0, throttledGlobal = 0,
      throttledSource = 0, sources = (\<lambda>_. \<lparr>slot_sourceID = 0, slot_tokens = 0, slot_lastRefill = 0\<rparr>)\<rparr>)"

text \<open>
  The refill both buckets share: whole seconds elapsed, truncated to 32 bits,
  times the rate, added with 32-bit wrap-around and capped by the burst.
\<close>

definition refilled :: "int \<Rightarrow> u32 \<Rightarrow> u32 \<Rightarrow> u32 \<Rightarrow> u32" where
  "refilled elapsed rate burst cur = min (cur + word_of_int (elapsed div second) * rate) burst"

definition tryAcquireGlobalToken :: "int \<Rightarrow> GrayZoneDecider \<Rightarrow> GrayZoneDecider \<times> bool" where
  "tryAcquireGlobalToken now d = (let
     last = lastRefill d;
     elapsed = go_int (now - last);
     d1 = (if elapsed > second
           then d\<lparr>lastRefill := now,
                  tokens := refilled elapsed (RefillPerSec (cfg d)) (MaxBurst (cfg d)) (tokens d)\<rparr>
           else d);
     cur = tokens d1
   in if cur = 0 then (d1\<lparr>throttledGlobal := throttledGlobal d1 + 1\<rparr>, False)
      else (d1\<lparr>tokens := cur - 1, escalated := escalated d1 + 1\<rparr>, True))"

abbreviation anonymousSourceID :: u64 where "anonymousSourceID \<equiv> 0xAAAAAAAAAAAAAAAA"

definition sipHashMix :: "u64 \<Rightarrow> nat" where
  "sipHashMix x0 = (let
     x1 = x0 XOR 0x9e3779b97f4a7c15;
     x2 = (x1 XOR drop_bit 30 x1) * 0xbf58476d1ce4e5b9;
     x3 = (x2 XOR drop_bit 27 x2) * 0x94d049bb133111eb;
     x4 = x3 XOR drop_bit 31 x3
   in unat (x4 AND 0xff))"

text \<open>
  The three stages on the slot of a source: claiming it when it is free or idle
  for more than three seconds, refilling it, taking one token.
\<close>

definition claim_slot :: "int \<Rightarrow> u32 \<Rightarrow> u64 \<Rightarrow> sourceSlot \<Rightarrow> sourceSlot" where
  "claim_slot now burst sourceID slot = (let curSrc = slot_sourceID slot in
     if curSrc \<noteq> sourceID \<and> (curSrc = 0 \<or> go_int (now - slot_lastRefill slot) > 3 * second)
     then \<lparr>slot_sourceID = sourceID, slot_tokens = burst, slot_lastRefill = now\<rparr>
     else slot)"

definition refill_slot :: "int \<Rightarrow> u32 \<Rightarrow> u32 \<Rightarrow> sourceSlot \<Rightarrow> sourceSlot" where
  "refill_slot now rate burst slot = (let elapsed = go_int (now - slot_lastRefill slot) in
     if elapsed > second
     then slot\<lparr>slot_lastRefill := now, slot_tokens := refilled elapsed rate burst (slot_tokens slot)\<rparr>
     else slot)"

definition tryAcquireSourceToken :: "int \<Rightarrow> GrayZoneDecider \<Rightarrow> u64 \<Rightarrow> GrayZoneDecider \<times> bool" where
  "tryAcquireSourceToken now d sourceID0 = (let
     sourceID = (if sourceID0 = 0 then anonymousSourceID else sourceID0);
     slotIdx = sipHashMix sourceID;
     slot = refill_slot now (SourceRefillPerSec (cfg d)) (SourceMaxBurst (cfg d))
              (claim_slot now (SourceMaxBurst (cfg d)) sourceID (sources d slotIdx));
     cur = slot_tokens slot
   in if cur = 0
      then (d\<lparr>sources := (sources d)(slotIdx := slot), throttledSource := throttledSource d + 1\<rparr>, False)
      else (d\<lparr>sources := (sources d)(slotIdx := slot\<lparr>slot_tokens := cur - 1\<rparr>)\<rparr>, True))"

record CascadeResult =
  Verdict :: byte
  HammingDist :: int
  MatchedEntry :: CodebookEntry
  OntoVerdict :: byte
  Diagnostic :: string
  RequiresSlowPath :: bool

definition zero_result :: CascadeResult where
  "zero_result = \<lparr>Verdict = 0, HammingDist = 0, MatchedEntry = zero_entry, OntoVerdict = 0,
                  Diagnostic = [], RequiresSlowPath = False\<rparr>"

definition source_throttled_msg :: string where
  "source_throttled_msg = ''[Anti-DoS:SourceThrottled] Quota unitaire depasse pour la source, rejet conservateur''"

definition global_full_msg :: string where
  "global_full_msg = ''[Anti-DoS:GlobalQueueFull] File d arbitrage global saturee, rejet conservateur''"

text \<open>
  The regulated escalation that ends \<open>DecideWithSource\<close>; \<open>now1\<close> and \<open>now2\<close> are the
  clock readings of the two buckets.
\<close>

definition escalate_regulated ::
    "int \<Rightarrow> int \<Rightarrow> GrayZoneDecider \<Rightarrow> CascadeResult \<Rightarrow> u64 \<Rightarrow> GrayZoneDecider \<times> CascadeResult" where
  "escalate_regulated now1 now2 d res sourceID = (let (d1, src) = tryAcquireSourceToken now1 d sourceID in
     if \<not> src then (d1, res\<lparr>Verdict := CascadeSourceThrottled, Diagnostic := source_throttled_msg\<rparr>)
     else let (d2, glob) = tryAcquireGlobalToken now2 d1 in
       if glob then (d2, res\<lparr>Verdict := CascadeEscalate\<rparr>)
       else (d2, res\<lparr>Verdict := CascadeQueueFull, Diagnostic := global_full_msg\<rparr>))"

definition DecideWithSource ::
    "int \<Rightarrow> int \<Rightarrow> GrayZoneDecider \<Rightarrow> u64 list option \<Rightarrow> Codebook option \<Rightarrow> OntoKey \<Rightarrow> u64
      \<Rightarrow> GrayZoneDecider \<times> CascadeResult" where
  "DecideWithSource now1 now2 d query cb ontoKey sourceID = (let
     onto = EvaluateOntology ontoKey;
     res = zero_result\<lparr>OntoVerdict := onto\<rparr>
   in if onto = OntoVerdictDeny then (d, res\<lparr>Verdict := CascadeFastDrop\<rparr>)
      else let
        (match, bestDist, found) =
          (if cb \<noteq> None \<and> query \<noteq> None then SearchNearest cb query (DistFar (cfg d))
           else (zero_entry, go_int (DistFar (cfg d) + 1), False));
        res = res\<lparr>HammingDist := bestDist, MatchedEntry := match\<rparr>
      in if found \<and> bestDist \<le> DistStrict (cfg d) then (d, res\<lparr>Verdict := CascadeFastDrop\<rparr>)
         else if onto = OntoVerdictAllow \<and> (\<not> found \<or> bestDist > DistFar (cfg d))
         then (d, res\<lparr>Verdict := CascadeFastPass\<rparr>)
         else escalate_regulated now1 now2 d
                (res\<lparr>RequiresSlowPath := True, Diagnostic := OntoDiagnostic ontoKey\<rparr>) sourceID)"

definition Decide ::
    "int \<Rightarrow> int \<Rightarrow> GrayZoneDecider \<Rightarrow> u64 list option \<Rightarrow> Codebook option \<Rightarrow> OntoKey
      \<Rightarrow> GrayZoneDecider \<times> CascadeResult" where
  "Decide now1 now2 d query cb ontoKey = DecideWithSource now1 now2 d query cb ontoKey 0"

definition Stats :: "GrayZoneDecider \<Rightarrow> u64 \<times> u64 \<times> u64" where
  "Stats d = (escalated d, throttledGlobal d, throttledSource d)"

section \<open>The buckets\<close>

definition gz_ok :: "GrayZoneDecider \<Rightarrow> bool" where
  "gz_ok d \<longleftrightarrow> tokens d \<le> MaxBurst (cfg d) \<and> (\<forall>i. slot_tokens (sources d i) \<le> SourceMaxBurst (cfg d))"

lemma word_dec_le: "(x :: 'a::len word) \<noteq> 0 \<Longrightarrow> x \<le> m \<Longrightarrow> x - 1 \<le> m"
  by (simp add: word_le_nat_alt unat_minus_one)

lemma unat_dec: "(x :: 'a::len word) \<noteq> 0 \<Longrightarrow> Suc (unat (x - 1)) = unat x"
  by (simp add: unat_minus_one unat_gt_0)

lemma unat_word_of_int_le: "0 \<le> k \<Longrightarrow> unat (word_of_int k :: 'a::len word) \<le> nat k"
  by (simp add: unsigned_of_int nat_le_iff take_bit_int_less_eq_self_iff)

lemma refilled_le: "refilled elapsed rate burst cur \<le> burst"
  by (simp add: refilled_def)

lemma unat_refilled:
  assumes "0 \<le> elapsed"
  shows "unat (refilled elapsed rate burst cur) \<le> unat cur + unat rate * nat (elapsed div second)"
proof -
  let ?k = "word_of_int (elapsed div second) :: u32"
  have k: "unat ?k \<le> nat (elapsed div second)"
    using assms by (simp add: unat_word_of_int_le)
  have "unat (cur + ?k * rate) \<le> unat cur + unat (?k * rate)"
    by (simp add: unat_word_ariths(1))
  also have "unat (?k * rate) \<le> unat ?k * unat rate" by (simp add: unat_word_ariths(2))
  also have "\<dots> \<le> nat (elapsed div second) * unat rate" using k by (rule mult_le_mono1)
  finally have "unat (cur + ?k * rate) \<le> unat cur + unat rate * nat (elapsed div second)"
    by (simp add: mult.commute)
  then show ?thesis by (simp add: refilled_def min_def word_le_nat_alt)
qed

lemma tryAcquireGlobalToken_ok:
  assumes "gz_ok d" "tryAcquireGlobalToken now d = (d', b)"
  shows "gz_ok d' \<and> cfg d' = cfg d"
  using assms by (auto simp: tryAcquireGlobalToken_def gz_ok_def Let_def refilled_le word_dec_le split: if_splits)

lemma claim_slot_le: "slot_tokens s \<le> burst \<Longrightarrow> slot_tokens (claim_slot now burst i s) \<le> burst"
  by (simp add: claim_slot_def Let_def)

lemma refill_slot_le: "slot_tokens s \<le> burst \<Longrightarrow> slot_tokens (refill_slot now rate burst s) \<le> burst"
  by (simp add: refill_slot_def Let_def refilled_le)

lemma tryAcquireSourceToken_ok:
  assumes "gz_ok d" "tryAcquireSourceToken now d s = (d', b)"
  shows "gz_ok d' \<and> cfg d' = cfg d \<and> tokens d' = tokens d \<and> lastRefill d' = lastRefill d"
proof -
  define slot where "slot = refill_slot now (SourceRefillPerSec (cfg d)) (SourceMaxBurst (cfg d))
      (claim_slot now (SourceMaxBurst (cfg d)) (if s = 0 then anonymousSourceID else s)
        (sources d (sipHashMix (if s = 0 then anonymousSourceID else s))))"
  have "slot_tokens slot \<le> SourceMaxBurst (cfg d)"
    unfolding slot_def using assms(1) by (intro refill_slot_le claim_slot_le) (simp add: gz_ok_def)
  then show ?thesis using assms unfolding tryAcquireSourceToken_def Let_def slot_def[symmetric]
    by (auto simp: gz_ok_def word_dec_le split: if_splits)
qed

lemma div_add_le:
  fixes a b k :: int
  assumes "0 < k" "0 \<le> a" "0 \<le> b"
  shows "nat (a div k) + nat (b div k) \<le> nat ((a + b) div k)"
proof -
  have "0 \<le> (a mod k + b mod k) div k" using assms(1) by (simp add: pos_imp_zdiv_nonneg_iff)
  then have "a div k + b div k \<le> (a + b) div k" by (subst div_add1_eq) simp
  moreover have "0 \<le> a div k" "0 \<le> b div k" using assms by (simp_all add: pos_imp_zdiv_nonneg_iff)
  ultimately show ?thesis using nat_mono nat_add_distrib by metis
qed

text \<open>The potential argument: a granted token is paid by the reserve or by elapsed seconds.\<close>

definition clock_ok :: "int \<Rightarrow> bool" where
  "clock_ok t \<longleftrightarrow> 0 \<le> t \<and> t < 2 ^ 63"

lemma tryAcquireGlobalToken_pays:
  assumes "clock_ok now" "clock_ok (lastRefill d)" "tryAcquireGlobalToken now d = (d', b)"
  shows "of_bool b + unat (tokens d') \<le> unat (tokens d)
           + unat (RefillPerSec (cfg d)) * nat ((lastRefill d' - lastRefill d) div second)"
    and "lastRefill d \<le> lastRefill d'" and "lastRefill d' \<in> {lastRefill d, now}"
proof -
  have e: "go_int (now - lastRefill d) = now - lastRefill d"
    using assms(1,2) by (intro go_int_id) (auto simp: clock_ok_def)
  define d1 where "d1 = (if now - lastRefill d > second
           then d\<lparr>lastRefill := now,
                  tokens := refilled (now - lastRefill d) (RefillPerSec (cfg d)) (MaxBurst (cfg d)) (tokens d)\<rparr>
           else d)"
  have d': "(d', b) = (if tokens d1 = 0 then (d1\<lparr>throttledGlobal := throttledGlobal d1 + 1\<rparr>, False)
      else (d1\<lparr>tokens := tokens d1 - 1, escalated := escalated d1 + 1\<rparr>, True))"
    using assms(3) unfolding tryAcquireGlobalToken_def Let_def e d1_def[symmetric] by simp
  then have l: "lastRefill d' = lastRefill d1" and t: "of_bool b + unat (tokens d') = unat (tokens d1)"
    by (auto simp: unat_dec split: if_splits)
  have "unat (tokens d1) \<le> unat (tokens d)
      + unat (RefillPerSec (cfg d)) * nat ((lastRefill d1 - lastRefill d) div second)"
    using unat_refilled[of "now - lastRefill d"] by (simp add: d1_def)
  with t l show "of_bool b + unat (tokens d') \<le> unat (tokens d)
           + unat (RefillPerSec (cfg d)) * nat ((lastRefill d' - lastRefill d) div second)" by simp
  show "lastRefill d \<le> lastRefill d'" "lastRefill d' \<in> {lastRefill d, now}" by (simp_all add: l d1_def)
qed

section \<open>The decision\<close>

text \<open>What a call does to the decider: nothing, or the source stage, then possibly the global stage.\<close>

lemma escalate_stages:
  assumes "escalate_regulated now1 now2 d res s = (d', r)"
  shows "(tryAcquireSourceToken now1 d s = (d', False) \<and> Verdict r = CascadeSourceThrottled)
       \<or> (\<exists>d1 b. tryAcquireSourceToken now1 d s = (d1, True) \<and> tryAcquireGlobalToken now2 d1 = (d', b)
            \<and> Verdict r = (if b then CascadeEscalate else CascadeQueueFull))"
proof -
  obtain d1 b1 where s1: "tryAcquireSourceToken now1 d s = (d1, b1)" by force
  obtain d2 b2 where s2: "tryAcquireGlobalToken now2 d1 = (d2, b2)" by force
  have "(d', r) = (if \<not> b1 then (d1, res\<lparr>Verdict := CascadeSourceThrottled, Diagnostic := source_throttled_msg\<rparr>)
     else if b2 then (d2, res\<lparr>Verdict := CascadeEscalate\<rparr>)
       else (d2, res\<lparr>Verdict := CascadeQueueFull, Diagnostic := global_full_msg\<rparr>))"
    using assms unfolding escalate_regulated_def s1 s2 Let_def prod.case by (rule sym)
  then show ?thesis using s1 s2 by (cases b1; cases b2; simp) blast+
qed

lemma escalate_keeps:
  assumes "escalate_regulated now1 now2 d res s = (d', r)"
  shows "HammingDist r = HammingDist res" "MatchedEntry r = MatchedEntry res"
    "OntoVerdict r = OntoVerdict res" "RequiresSlowPath r = RequiresSlowPath res"
    "Verdict r \<in> {CascadeEscalate, CascadeQueueFull, CascadeSourceThrottled}"
  using assms by (auto simp: escalate_regulated_def split: prod.splits if_splits)

lemma DecideWithSource_stages:
  assumes "DecideWithSource now1 now2 d q cb k s = (d', r)"
  shows "(d' = d \<and> Verdict r \<in> {CascadeFastDrop, CascadeFastPass})
       \<or> (tryAcquireSourceToken now1 d s = (d', False) \<and> Verdict r = CascadeSourceThrottled)
       \<or> (\<exists>d1 b. tryAcquireSourceToken now1 d s = (d1, True) \<and> tryAcquireGlobalToken now2 d1 = (d', b)
            \<and> Verdict r = (if b then CascadeEscalate else CascadeQueueFull))"
proof -
  have "(d' = d \<and> Verdict r \<in> {CascadeFastDrop, CascadeFastPass})
      \<or> (\<exists>res. escalate_regulated now1 now2 d res s = (d', r))"
    using assms by (auto simp: DecideWithSource_def Let_def split: prod.splits if_splits)
  then show ?thesis using escalate_stages by blast
qed

lemma DecideWithSource_ok:
  assumes "gz_ok d" "DecideWithSource now1 now2 d q cb k s = (d', r)"
  shows "gz_ok d' \<and> cfg d' = cfg d"
  using DecideWithSource_stages[OF assms(2)] tryAcquireSourceToken_ok[OF assms(1)]
    tryAcquireGlobalToken_ok assms(1) by metis

lemma DecideWithSource_pays:
  assumes "gz_ok d" "clock_ok now2" "clock_ok (lastRefill d)"
    and "DecideWithSource now1 now2 d q cb k s = (d', r)"
  shows "of_bool (Verdict r = CascadeEscalate) + unat (tokens d') \<le> unat (tokens d)
           + unat (RefillPerSec (cfg d)) * nat ((lastRefill d' - lastRefill d) div second)"
    and "lastRefill d \<le> lastRefill d'" and "lastRefill d' \<in> {lastRefill d, now2}"
proof -
  consider "d' = d" "Verdict r \<noteq> CascadeEscalate" | "tryAcquireSourceToken now1 d s = (d', False)" "Verdict r \<noteq> CascadeEscalate"
    | d1 b where "tryAcquireSourceToken now1 d s = (d1, True)" "tryAcquireGlobalToken now2 d1 = (d', b)"
      "b = (Verdict r = CascadeEscalate)"
    using DecideWithSource_stages[OF assms(4)] by fastforce
  then have "of_bool (Verdict r = CascadeEscalate) + unat (tokens d') \<le> unat (tokens d)
           + unat (RefillPerSec (cfg d)) * nat ((lastRefill d' - lastRefill d) div second)
       \<and> lastRefill d \<le> lastRefill d' \<and> lastRefill d' \<in> {lastRefill d, now2}"
  proof cases
    case 3
    note s = tryAcquireSourceToken_ok[OF assms(1) 3(1)]
    then show ?thesis using tryAcquireGlobalToken_pays[OF assms(2) _ 3(2)] assms(3) 3(3) by simp
  qed (use tryAcquireSourceToken_ok[OF assms(1)] in auto)
  then show "of_bool (Verdict r = CascadeEscalate) + unat (tokens d') \<le> unat (tokens d)
           + unat (RefillPerSec (cfg d)) * nat ((lastRefill d' - lastRefill d) div second)"
    "lastRefill d \<le> lastRefill d'" "lastRefill d' \<in> {lastRefill d, now2}" by blast+
qed

text \<open>A request: the two clock readings and the arguments of a call.\<close>

type_synonym gz_request = "int \<times> int \<times> u64 list option \<times> Codebook option \<times> OntoKey \<times> u64"

fun gz_run :: "GrayZoneDecider \<Rightarrow> gz_request list \<Rightarrow> GrayZoneDecider \<times> CascadeResult list" where
  "gz_run d [] = (d, [])"
| "gz_run d ((now1, now2, q, cb, k, s) # reqs) =
     (let (d1, r) = DecideWithSource now1 now2 d q cb k s; (d2, rs) = gz_run d1 reqs in (d2, r # rs))"

definition escalations :: "CascadeResult list \<Rightarrow> nat" where
  "escalations rs = length (filter (\<lambda>r. Verdict r = CascadeEscalate) rs)"

lemma gz_run_pays:
  assumes "gz_ok d" "clock_ok (lastRefill d)" "\<forall>(n1, n2, _) \<in> set reqs. clock_ok n2 \<and> n2 \<le> T"
    and "lastRefill d \<le> T" "gz_run d reqs = (d', rs)"
  shows "gz_ok d' \<and> escalations rs + unat (tokens d') \<le> unat (tokens d)
           + unat (RefillPerSec (cfg d)) * nat ((lastRefill d' - lastRefill d) div second)
       \<and> lastRefill d \<le> lastRefill d' \<and> lastRefill d' \<le> T"
  using assms
proof (induction reqs arbitrary: d rs)
  case Nil
  then show ?case by (simp add: escalations_def)
next
  case (Cons req reqs)
  obtain n1 n2 q cb k s where req: "req = (n1, n2, q, cb, k, s)" by (metis surj_pair)
  obtain d1 r where dc: "DecideWithSource n1 n2 d q cb k s = (d1, r)" by force
  obtain rs' where rn: "gz_run d1 reqs = (d', rs')" and rs: "rs = r # rs'"
    using Cons.prems(5) by (auto simp: req dc split: prod.splits)
  have n2: "clock_ok n2" "n2 \<le> T" using Cons.prems(3) by (auto simp: req)
  note ok = DecideWithSource_ok[OF Cons.prems(1) dc]
  note pay = DecideWithSource_pays[OF Cons.prems(1) n2(1) Cons.prems(2) dc]
  have c1: "clock_ok (lastRefill d1)" "lastRefill d1 \<le> T" using pay(3) n2 Cons.prems(2,4) by auto
  have IH: "gz_ok d' \<and> escalations rs' + unat (tokens d') \<le> unat (tokens d1)
           + unat (RefillPerSec (cfg d1)) * nat ((lastRefill d' - lastRefill d1) div second)
       \<and> lastRefill d1 \<le> lastRefill d' \<and> lastRefill d' \<le> T"
    using Cons.IH[OF _ c1(1) _ c1(2) rn] ok Cons.prems(3) by (auto split: prod.splits)
  let ?R = "unat (RefillPerSec (cfg d))"
  let ?a = "nat ((lastRefill d1 - lastRefill d) div second)" and ?b = "nat ((lastRefill d' - lastRefill d1) div second)"
  have "?a + ?b \<le> nat ((lastRefill d' - lastRefill d) div second)"
    using div_add_le[of second "lastRefill d1 - lastRefill d" "lastRefill d' - lastRefill d1"] pay(2) IH by simp
  then have "?R * ?a + ?R * ?b \<le> ?R * nat ((lastRefill d' - lastRefill d) div second)"
    by (metis add_mult_distrib2 mult_le_mono2)
  moreover have "escalations rs = of_bool (Verdict r = CascadeEscalate) + escalations rs'"
    by (simp add: rs escalations_def)
  moreover have "lastRefill d \<le> lastRefill d'" using pay(2) IH by linarith
  ultimately show ?case using pay(1) IH ok by auto
qed

lemma DecideWithSource_deny:
  "EvaluateOntology k = OntoVerdictDeny \<Longrightarrow>
     DecideWithSource now1 now2 d q cb k s =
       (d, zero_result\<lparr>OntoVerdict := OntoVerdictDeny, Verdict := CascadeFastDrop\<rparr>)"
  by (simp add: DecideWithSource_def)

lemma DecideWithSource_search:
  assumes "EvaluateOntology k \<noteq> OntoVerdictDeny" "SearchNearest (Some c) (Some q) (DistFar (cfg d)) = (e, bd, f)"
    and "DecideWithSource now1 now2 d (Some q) (Some c) k s = (d', r)"
  shows "HammingDist r = bd" "MatchedEntry r = e"
    "Verdict r = CascadeFastDrop \<longleftrightarrow> f \<and> bd \<le> DistStrict (cfg d)"
    "Verdict r = CascadeFastPass \<longleftrightarrow> EvaluateOntology k = OntoVerdictAllow
       \<and> \<not> (f \<and> bd \<le> DistStrict (cfg d)) \<and> (\<not> f \<or> bd > DistFar (cfg d))"
    "RequiresSlowPath r \<longleftrightarrow> Verdict r \<in> {CascadeEscalate, CascadeQueueFull, CascadeSourceThrottled}"
proof -
  let ?res = "zero_result\<lparr>OntoVerdict := EvaluateOntology k, HammingDist := bd, MatchedEntry := e\<rparr>"
  consider "f \<and> bd \<le> DistStrict (cfg d)" "r = ?res\<lparr>Verdict := CascadeFastDrop\<rparr>"
    | "\<not> (f \<and> bd \<le> DistStrict (cfg d))" "EvaluateOntology k = OntoVerdictAllow" "\<not> f \<or> bd > DistFar (cfg d)"
      "r = ?res\<lparr>Verdict := CascadeFastPass\<rparr>"
    | "\<not> (f \<and> bd \<le> DistStrict (cfg d))" "\<not> (EvaluateOntology k = OntoVerdictAllow \<and> (\<not> f \<or> bd > DistFar (cfg d)))"
      "escalate_regulated now1 now2 d (?res\<lparr>RequiresSlowPath := True, Diagnostic := OntoDiagnostic k\<rparr>) s = (d', r)"
    using assms by (fastforce simp: DecideWithSource_def Let_def split: if_splits)
  then have "HammingDist r = bd \<and> MatchedEntry r = e
    \<and> (Verdict r = CascadeFastDrop \<longleftrightarrow> f \<and> bd \<le> DistStrict (cfg d))
    \<and> (Verdict r = CascadeFastPass \<longleftrightarrow> EvaluateOntology k = OntoVerdictAllow
       \<and> \<not> (f \<and> bd \<le> DistStrict (cfg d)) \<and> (\<not> f \<or> bd > DistFar (cfg d)))
    \<and> (RequiresSlowPath r \<longleftrightarrow> Verdict r \<in> {CascadeEscalate, CascadeQueueFull, CascadeSourceThrottled})"
  proof cases
    case 1 then show ?thesis by (auto simp: zero_result_def)
  next
    case 2 then show ?thesis by (auto simp: zero_result_def)
  next
    case 3
    note e = escalate_keeps[OF 3(3)]
    then have "Verdict r \<noteq> CascadeFastDrop" "Verdict r \<noteq> CascadeFastPass" by auto
    with e 3(1,2) show ?thesis by (simp add: zero_result_def)
  qed
  then show "HammingDist r = bd" "MatchedEntry r = e"
    "Verdict r = CascadeFastDrop \<longleftrightarrow> f \<and> bd \<le> DistStrict (cfg d)"
    "Verdict r = CascadeFastPass \<longleftrightarrow> EvaluateOntology k = OntoVerdictAllow
       \<and> \<not> (f \<and> bd \<le> DistStrict (cfg d)) \<and> (\<not> f \<or> bd > DistFar (cfg d))"
    "RequiresSlowPath r \<longleftrightarrow> Verdict r \<in> {CascadeEscalate, CascadeQueueFull, CascadeSourceThrottled}"
    by blast+
qed

lemma NewGrayZoneDecider_ok: "gz_ok (NewGrayZoneDecider now c)"
  by (simp add: NewGrayZoneDecider_def gz_ok_def Let_def)

section \<open>The table of a decision\<close>

text \<open>
  What the two buckets hold for a request, in natural numbers: a bucket last
  refilled at \<open>since\<close> gains its rate for every whole second once more than a
  second has passed (the counter wraps at 32 bits before it is capped by the
  burst), and a source finds a full bucket when its slot is free, or when the
  slot is another source's and was last refilled more than three seconds ago.
\<close>

definition bucket_left :: "int \<Rightarrow> int \<Rightarrow> u32 \<Rightarrow> u32 \<Rightarrow> u32 \<Rightarrow> nat" where
  "bucket_left now since rate burst held =
     (if go_int (now - since) > second
      then min (unat burst) ((unat held + nat (go_int (now - since) div second) * unat rate) mod 2 ^ 32)
      else unat held)"

definition source_name :: "u64 \<Rightarrow> u64" where
  "source_name s = (if s = 0 then anonymousSourceID else s)"

definition source_slot :: "GrayZoneDecider \<Rightarrow> u64 \<Rightarrow> sourceSlot" where
  "source_slot d s = sources d (sipHashMix (source_name s))"

definition slot_taken_over :: "int \<Rightarrow> GrayZoneDecider \<Rightarrow> u64 \<Rightarrow> bool" where
  "slot_taken_over now d s \<longleftrightarrow> slot_sourceID (source_slot d s) \<noteq> source_name s
     \<and> (slot_sourceID (source_slot d s) = 0 \<or> go_int (now - slot_lastRefill (source_slot d s)) > 3 * second)"

definition source_left :: "int \<Rightarrow> GrayZoneDecider \<Rightarrow> u64 \<Rightarrow> nat" where
  "source_left now d s = (if slot_taken_over now d s then unat (SourceMaxBurst (cfg d))
     else bucket_left now (slot_lastRefill (source_slot d s)) (SourceRefillPerSec (cfg d)) (SourceMaxBurst (cfg d))
            (slot_tokens (source_slot d s)))"

definition global_left :: "int \<Rightarrow> GrayZoneDecider \<Rightarrow> nat" where
  "global_left now d = bucket_left now (lastRefill d) (RefillPerSec (cfg d)) (MaxBurst (cfg d)) (tokens d)"

lemma unat_refilled_eq:
  assumes "0 \<le> k"
  shows "unat (refilled k rate burst cur) = min (unat burst) ((unat cur + nat (k div second) * unat rate) mod 2 ^ 32)"
proof -
  have n: "0 \<le> k div second" using assms by (simp add: pos_imp_zdiv_nonneg_iff)
  have "word_of_int (k div second) = (word_of_nat (nat (k div second)) :: u32)"
    using n by (simp add: of_nat_nat)
  then have "cur + word_of_int (k div second) * rate = word_of_nat (unat cur + nat (k div second) * unat rate)"
    by simp
  then have "unat (cur + word_of_int (k div second) * rate) = (unat cur + nat (k div second) * unat rate) mod 2 ^ 32"
    by (simp only: unat_of_nat) simp
  then show ?thesis by (simp add: refilled_def min_def word_le_nat_alt)
qed

text \<open>What the source stage does to the slot and to the counters.\<close>

lemma tryAcquireSourceToken_exact:
  assumes "tryAcquireSourceToken now d s = (d1, b)"
  shows "(b \<longleftrightarrow> 0 < source_left now d s)
     \<and> d1 = d\<lparr>sources := (sources d)(sipHashMix (source_name s) := source_slot d1 s),
              throttledSource := throttledSource d + of_bool (source_left now d s = 0)\<rparr>
     \<and> unat (slot_tokens (source_slot d1 s)) = source_left now d s - 1
     \<and> slot_sourceID (source_slot d1 s)
         = (if slot_taken_over now d s then source_name s else slot_sourceID (source_slot d s))
     \<and> slot_lastRefill (source_slot d1 s)
         = (if slot_taken_over now d s \<or> go_int (now - slot_lastRefill (source_slot d s)) > second
            then now else slot_lastRefill (source_slot d s))"
proof -
  define slot where "slot = refill_slot now (SourceRefillPerSec (cfg d)) (SourceMaxBurst (cfg d))
              (claim_slot now (SourceMaxBurst (cfg d)) (source_name s) (source_slot d s))"
  have z: "go_int (now - now) = 0" by simp
  have sl: "unat (slot_tokens slot) = source_left now d s"
    "slot_sourceID slot = (if slot_taken_over now d s then source_name s else slot_sourceID (source_slot d s))"
    "slot_lastRefill slot = (if slot_taken_over now d s \<or> go_int (now - slot_lastRefill (source_slot d s)) > second
            then now else slot_lastRefill (source_slot d s))"
    using z by (auto simp: slot_def refill_slot_def claim_slot_def slot_taken_over_def source_left_def
        bucket_left_def Let_def unat_refilled_eq)
  have r: "(d1, b) = (if slot_tokens slot = 0
      then (d\<lparr>sources := (sources d)(sipHashMix (source_name s) := slot), throttledSource := throttledSource d + 1\<rparr>, False)
      else (d\<lparr>sources := (sources d)(sipHashMix (source_name s) := slot\<lparr>slot_tokens := slot_tokens slot - 1\<rparr>)\<rparr>, True))"
    using assms unfolding tryAcquireSourceToken_def Let_def source_name_def[symmetric] source_slot_def[symmetric]
      slot_def[symmetric] by simp
  show ?thesis
  proof (cases "slot_tokens slot = 0")
    case True
    then have "source_left now d s = 0" using sl(1) by simp
    then show ?thesis using r True sl by (simp add: source_slot_def)
  next
    case False
    then have "0 < source_left now d s" by (simp add: sl(1)[symmetric] unat_gt_0)
    moreover have "unat (slot_tokens slot - 1) = source_left now d s - 1"
      using sl(1) False by (simp add: unat_minus_one)
    ultimately show ?thesis using r False sl(2,3) by (simp add: source_slot_def)
  qed
qed

lemma tryAcquireGlobalToken_exact:
  assumes "tryAcquireGlobalToken now d = (d1, b)"
  shows "(b \<longleftrightarrow> 0 < global_left now d) \<and> unat (tokens d1) = global_left now d - 1
     \<and> d1 = d\<lparr>tokens := tokens d1,
              lastRefill := (if go_int (now - lastRefill d) > second then now else lastRefill d),
              escalated := escalated d + of_bool (0 < global_left now d),
              throttledGlobal := throttledGlobal d + of_bool (global_left now d = 0)\<rparr>"
proof -
  define e where "e = (if go_int (now - lastRefill d) > second
           then d\<lparr>lastRefill := now, tokens := refilled (go_int (now - lastRefill d)) (RefillPerSec (cfg d)) (MaxBurst (cfg d)) (tokens d)\<rparr>
           else d)"
  have t: "unat (tokens e) = global_left now d"
    by (simp add: e_def global_left_def bucket_left_def unat_refilled_eq)
  have f: "lastRefill e = (if go_int (now - lastRefill d) > second then now else lastRefill d)"
    "escalated e = escalated d" "throttledGlobal e = throttledGlobal d" "e\<lparr>tokens := x, lastRefill := y\<rparr> = d\<lparr>tokens := x, lastRefill := y\<rparr>"
    for x y by (simp_all add: e_def)
  have r: "(d1, b) = (if tokens e = 0 then (e\<lparr>throttledGlobal := throttledGlobal e + 1\<rparr>, False)
      else (e\<lparr>tokens := tokens e - 1, escalated := escalated e + 1\<rparr>, True))"
    using assms unfolding tryAcquireGlobalToken_def Let_def e_def[symmetric] by simp
  show ?thesis
  proof (cases "tokens e = 0")
    case True
    then have "global_left now d = 0" using t by simp
    then show ?thesis using r True by (auto simp: e_def)
  next
    case False
    then have g: "0 < global_left now d" "unat (tokens e - 1) = global_left now d - 1"
      by (simp_all add: t[symmetric] unat_gt_0 unat_minus_one)
    then show ?thesis using r False by (auto simp: e_def)
  qed
qed

lemma tryAcquireSourceToken_keeps:
  "tryAcquireSourceToken now d s = (d1, b) \<Longrightarrow> global_left now2 d1 = global_left now2 d \<and> cfg d1 = cfg d
     \<and> lastRefill d1 = lastRefill d \<and> escalated d1 = escalated d \<and> throttledGlobal d1 = throttledGlobal d
     \<and> tokens d1 = tokens d"
  by (auto simp: tryAcquireSourceToken_def Let_def global_left_def split: if_splits)

text \<open>What the search contributes, the missing codebook and the missing query included.\<close>

definition near_entry :: "Codebook option \<Rightarrow> u64 list option \<Rightarrow> int \<Rightarrow> bool" where
  "near_entry cb q bound = (case (cb, q) of
     (Some c, Some v) \<Rightarrow> \<exists>e \<in> set (entries c). codebookHamming v e \<le> bound | _ \<Rightarrow> False)"

lemma search_stage:
  assumes "search_range far"
    and "(if cb \<noteq> None \<and> q \<noteq> None then SearchNearest cb q far else (zero_entry, go_int (far + 1), False)) = (e, bd, f)"
  shows "f \<longleftrightarrow> near_entry cb q far" and "strict \<le> far \<Longrightarrow> f \<and> bd \<le> strict \<longleftrightarrow> near_entry cb q strict"
    and "f \<Longrightarrow> bd \<le> far"
    and "\<not> f \<Longrightarrow> e = zero_entry \<and> bd = (if cb \<noteq> None \<and> q \<noteq> None then 0 else far + 1)"
    and "f \<Longrightarrow> \<exists>c v i. cb = Some c \<and> q = Some v \<and> is_nearest (entries c) v i \<and> e = entries c ! i \<and> bd = codebookHamming v e"
proof -
  have r: "- (2 ^ 63) \<le> far" "far < 2 ^ 63 - 1" using assms(1) by (simp_all add: search_range_def)
  have g: "go_int (far + 1) = far + 1" using r by simp
  have "(f \<longleftrightarrow> near_entry cb q far) \<and> (strict \<le> far \<longrightarrow> (f \<and> bd \<le> strict \<longleftrightarrow> near_entry cb q strict)) \<and> (f \<longrightarrow> bd \<le> far)
    \<and> (\<not> f \<longrightarrow> e = zero_entry \<and> bd = (if cb \<noteq> None \<and> q \<noteq> None then 0 else far + 1))
    \<and> (f \<longrightarrow> (\<exists>c v i. cb = Some c \<and> q = Some v \<and> is_nearest (entries c) v i \<and> e = entries c ! i \<and> bd = codebookHamming v e))"
  proof (cases "cb \<noteq> None \<and> q \<noteq> None")
    case False
    then have "near_entry cb q x = False" for x by (auto simp: near_entry_def split: option.splits)
    then show ?thesis using assms(2) False g by auto
  next
    case True
    then obtain c v where s: "cb = Some c" "q = Some v" by auto
    have sn: "SearchNearest (Some c) (Some v) far = (e, bd, f)" using assms(2) s by simp
    show ?thesis
    proof (rule SearchNearest_cases[OF r, of c v])
      fix i assume n: "is_nearest (entries c) v i" and le: "codebookHamming v (entries c ! i) \<le> far"
        and h: "SearchNearest (Some c) (Some v) far = (entries c ! i, codebookHamming v (entries c ! i), True)"
      have e: "e = entries c ! i" "bd = codebookHamming v e" f using h sn by auto
      have m: "near_entry cb q b \<longleftrightarrow> codebookHamming v e \<le> b" for b
      proof -
        have "e \<in> set (entries c)" "\<forall>x \<in> set (entries c). codebookHamming v e \<le> codebookHamming v x"
          using n unfolding e(1) is_nearest_def by (auto simp: in_set_conv_nth)
        then show ?thesis unfolding near_entry_def s by (auto intro: order_trans)
      qed
      show ?thesis using e n le m s by auto
    next
      assume m: "\<forall>e \<in> set (entries c). far < codebookHamming v e"
        and h: "SearchNearest (Some c) (Some v) far = (zero_entry, 0, False)"
      have "\<not> near_entry cb q b" if "b \<le> far" for b using m that by (force simp: near_entry_def s)
      then show ?thesis using h sn s by auto
    qed
  qed
  then show "f \<longleftrightarrow> near_entry cb q far" "strict \<le> far \<Longrightarrow> f \<and> bd \<le> strict \<longleftrightarrow> near_entry cb q strict"
    "f \<Longrightarrow> bd \<le> far" "\<not> f \<Longrightarrow> e = zero_entry \<and> bd = (if cb \<noteq> None \<and> q \<noteq> None then 0 else far + 1)"
    "f \<Longrightarrow> \<exists>c v i. cb = Some c \<and> q = Some v \<and> is_nearest (entries c) v i \<and> e = entries c ! i \<and> bd = codebookHamming v e"
    by blast+
qed

text \<open>The regulated escalation by what the two buckets hold.\<close>

lemma escalate_exact:
  assumes "escalate_regulated now1 now2 d res s = (d', r)"
  shows "r = res\<lparr>Verdict := (if source_left now1 d s = 0 then CascadeSourceThrottled
                 else if global_left now2 d = 0 then CascadeQueueFull else CascadeEscalate),
              Diagnostic := (if source_left now1 d s = 0 then source_throttled_msg
                 else if global_left now2 d = 0 then global_full_msg else Diagnostic res)\<rparr>"
    and "let sl = source_left now1 d s; gl = global_left now2 d in
       cfg d' = cfg d
     \<and> (\<forall>j. j \<noteq> sipHashMix (source_name s) \<longrightarrow> sources d' j = sources d j)
     \<and> unat (slot_tokens (source_slot d' s)) = sl - 1
     \<and> slot_sourceID (source_slot d' s)
         = (if slot_taken_over now1 d s then source_name s else slot_sourceID (source_slot d s))
     \<and> slot_lastRefill (source_slot d' s)
         = (if slot_taken_over now1 d s \<or> go_int (now1 - slot_lastRefill (source_slot d s)) > second
            then now1 else slot_lastRefill (source_slot d s))
     \<and> unat (tokens d') = (if sl = 0 then unat (tokens d) else gl - 1)
     \<and> lastRefill d' = (if 0 < sl \<and> go_int (now2 - lastRefill d) > second then now2 else lastRefill d)
     \<and> throttledSource d' = throttledSource d + of_bool (sl = 0)
     \<and> throttledGlobal d' = throttledGlobal d + of_bool (0 < sl \<and> gl = 0)
     \<and> escalated d' = escalated d + of_bool (0 < sl \<and> 0 < gl)"
proof -
  obtain d1 b1 where s1: "tryAcquireSourceToken now1 d s = (d1, b1)" by force
  obtain d2 b2 where s2: "tryAcquireGlobalToken now2 d1 = (d2, b2)" by force
  note x1 = tryAcquireSourceToken_exact[OF s1] and x2 = tryAcquireGlobalToken_exact[OF s2]
    and k = tryAcquireSourceToken_keeps[OF s1]
  have src: "\<forall>j. j \<noteq> sipHashMix (source_name s) \<longrightarrow> sources d1 j = sources d j" "throttledSource d1 = throttledSource d + of_bool (source_left now1 d s = 0)"
    by (subst x1[THEN conjunct2, THEN conjunct1], simp)+
  have glob: "sources d2 = sources d1" "cfg d2 = cfg d1" "throttledSource d2 = throttledSource d1"
    "lastRefill d2 = (if go_int (now2 - lastRefill d1) > second then now2 else lastRefill d1)"
    "escalated d2 = escalated d1 + of_bool (0 < global_left now2 d1)"
    "throttledGlobal d2 = throttledGlobal d1 + of_bool (global_left now2 d1 = 0)"
    by (subst x2[THEN conjunct2, THEN conjunct2], simp)+
  have e: "(d', r) = (if \<not> b1 then (d1, res\<lparr>Verdict := CascadeSourceThrottled, Diagnostic := source_throttled_msg\<rparr>)
     else if b2 then (d2, res\<lparr>Verdict := CascadeEscalate\<rparr>)
       else (d2, res\<lparr>Verdict := CascadeQueueFull, Diagnostic := global_full_msg\<rparr>))"
    using assms unfolding escalate_regulated_def s1 s2 Let_def prod.case by (rule sym)
  show "r = res\<lparr>Verdict := (if source_left now1 d s = 0 then CascadeSourceThrottled
                 else if global_left now2 d = 0 then CascadeQueueFull else CascadeEscalate),
              Diagnostic := (if source_left now1 d s = 0 then source_throttled_msg
                 else if global_left now2 d = 0 then global_full_msg else Diagnostic res)\<rparr>"
    using e x1 x2 k by (auto split: if_splits)
  have "d' = (if b1 then d2 else d1)" using e by (auto split: if_splits)
  then show "let sl = source_left now1 d s; gl = global_left now2 d in
       cfg d' = cfg d
     \<and> (\<forall>j. j \<noteq> sipHashMix (source_name s) \<longrightarrow> sources d' j = sources d j)
     \<and> unat (slot_tokens (source_slot d' s)) = sl - 1
     \<and> slot_sourceID (source_slot d' s)
         = (if slot_taken_over now1 d s then source_name s else slot_sourceID (source_slot d s))
     \<and> slot_lastRefill (source_slot d' s)
         = (if slot_taken_over now1 d s \<or> go_int (now1 - slot_lastRefill (source_slot d s)) > second
            then now1 else slot_lastRefill (source_slot d s))
     \<and> unat (tokens d') = (if sl = 0 then unat (tokens d) else gl - 1)
     \<and> lastRefill d' = (if 0 < sl \<and> go_int (now2 - lastRefill d) > second then now2 else lastRefill d)
     \<and> throttledSource d' = throttledSource d + of_bool (sl = 0)
     \<and> throttledGlobal d' = throttledGlobal d + of_bool (0 < sl \<and> gl = 0)
     \<and> escalated d' = escalated d + of_bool (0 < sl \<and> 0 < gl)"
    using x1[THEN conjunct1] x1[THEN conjunct2, THEN conjunct2] x2[THEN conjunct1] x2[THEN conjunct2, THEN conjunct1]
      k src glob
    by (cases b1) (simp_all add: Let_def source_slot_def)
qed

section \<open>Properties\<close>

text \<open>
  C5.  The decision of the cascade, completely, with or without a codebook and a
  query.  A violation of the ontology is dropped before any search; otherwise an
  entry of the codebook within \<open>DistStrict\<close> is dropped, and a conforming key with
  no entry within \<open>DistFar\<close> passes; these three leave the decider as it was.
  Everything else goes to the slow path: throttled exactly when the bucket of the
  source is empty, refused for saturation exactly when that one is not and the
  global bucket is, escalated otherwise, each with its message.  The slow path
  takes one token of the source, if it has one, and then one global token, if
  there is one, records the refills, counts the outcome, and touches no other
  slot.  The result carries the nearest entry (the first of the nearest) and its
  distance when there is one within \<open>DistFar\<close>.
\<close>

theorem grayzone_decision:
  assumes "search_range (DistFar (cfg d))" and "DistStrict (cfg d) \<le> DistFar (cfg d)"
    and "DecideWithSource now1 now2 d q cb k s = (d', r)"
  shows "let near = (\<lambda>bound. case (cb, q) of
              (Some c, Some v) \<Rightarrow> \<exists>e \<in> set (entries c). codebookHamming v e \<le> bound | _ \<Rightarrow> False);
           v = EvaluateOntology k;
           drop = (v = OntoVerdictDeny \<or> near (DistStrict (cfg d)));
           pass = (v = OntoVerdictAllow \<and> \<not> near (DistFar (cfg d)));
           sl = source_left now1 d s; gl = global_left now2 d in
     OntoVerdict r = v
   \<and> Verdict r = (if drop then CascadeFastDrop else if pass then CascadeFastPass
        else if sl = 0 then CascadeSourceThrottled else if gl = 0 then CascadeQueueFull else CascadeEscalate)
   \<and> (RequiresSlowPath r \<longleftrightarrow> \<not> drop \<and> \<not> pass)
   \<and> Diagnostic r = (if drop \<or> pass then []
        else if sl = 0 then source_throttled_msg else if gl = 0 then global_full_msg else OntoDiagnostic k)
   \<and> (v = OntoVerdictDeny \<longrightarrow> MatchedEntry r = zero_entry \<and> HammingDist r = 0)
   \<and> (v \<noteq> OntoVerdictDeny \<and> \<not> near (DistFar (cfg d)) \<longrightarrow> MatchedEntry r = zero_entry
        \<and> HammingDist r = (if cb = None \<or> q = None then DistFar (cfg d) + 1 else 0))
   \<and> (v \<noteq> OntoVerdictDeny \<and> near (DistFar (cfg d)) \<longrightarrow>
        (\<exists>i. is_nearest (entries (the cb)) (the q) i \<and> MatchedEntry r = entries (the cb) ! i
           \<and> HammingDist r = codebookHamming (the q) (MatchedEntry r)))
   \<and> (drop \<or> pass \<longrightarrow> d' = d)
   \<and> (\<not> drop \<and> \<not> pass \<longrightarrow> cfg d' = cfg d
       \<and> (\<forall>j. j \<noteq> sipHashMix (source_name s) \<longrightarrow> sources d' j = sources d j)
       \<and> unat (slot_tokens (source_slot d' s)) = sl - 1
       \<and> slot_sourceID (source_slot d' s)
           = (if slot_taken_over now1 d s then source_name s else slot_sourceID (source_slot d s))
       \<and> slot_lastRefill (source_slot d' s)
           = (if slot_taken_over now1 d s \<or> go_int (now1 - slot_lastRefill (source_slot d s)) > second
              then now1 else slot_lastRefill (source_slot d s))
       \<and> unat (tokens d') = (if sl = 0 then unat (tokens d) else gl - 1)
       \<and> lastRefill d' = (if 0 < sl \<and> go_int (now2 - lastRefill d) > second then now2 else lastRefill d)
       \<and> throttledSource d' = throttledSource d + of_bool (sl = 0)
       \<and> throttledGlobal d' = throttledGlobal d + of_bool (0 < sl \<and> gl = 0)
       \<and> escalated d' = escalated d + of_bool (0 < sl \<and> 0 < gl))"
proof (cases "EvaluateOntology k = OntoVerdictDeny")
  case True
  then show ?thesis using assms(3) by (auto simp: DecideWithSource_deny zero_result_def)
next
  case False
  obtain e bd f where sn: "(if cb \<noteq> None \<and> q \<noteq> None then SearchNearest cb q (DistFar (cfg d))
      else (zero_entry, go_int (DistFar (cfg d) + 1), False)) = (e, bd, f)" by (metis surj_pair)
  note st = search_stage[OF assms(1) sn]
  let ?near = "near_entry cb q"
  let ?res = "zero_result\<lparr>OntoVerdict := EvaluateOntology k, HammingDist := bd, MatchedEntry := e\<rparr>"
  have r: "(d', r) = (if ?near (DistStrict (cfg d)) then (d, ?res\<lparr>Verdict := CascadeFastDrop\<rparr>)
      else if EvaluateOntology k = OntoVerdictAllow \<and> \<not> ?near (DistFar (cfg d)) then (d, ?res\<lparr>Verdict := CascadeFastPass\<rparr>)
      else escalate_regulated now1 now2 d (?res\<lparr>RequiresSlowPath := True, Diagnostic := OntoDiagnostic k\<rparr>) s)"
    using assms(3) False st(1) st(2)[OF assms(2)] st(3)
    unfolding DecideWithSource_def Let_def sn by (auto simp: not_less)
  have far: "?near (DistFar (cfg d)) \<Longrightarrow> \<exists>i. is_nearest (entries (the cb)) (the q) i \<and> e = entries (the cb) ! i \<and> bd = codebookHamming (the q) e"
    and miss: "\<not> ?near (DistFar (cfg d)) \<Longrightarrow> e = zero_entry \<and> bd = (if cb = None \<or> q = None then DistFar (cfg d) + 1 else 0)"
    using st(1,4,5) by auto
  have le: "?near (DistStrict (cfg d)) \<Longrightarrow> ?near (DistFar (cfg d))" using st(1) st(2)[OF assms(2)] by blast
  show ?thesis
  proof (cases "?near (DistStrict (cfg d)) \<or> EvaluateOntology k = OntoVerdictAllow \<and> \<not> ?near (DistFar (cfg d))")
    case True
    then show ?thesis using r False far miss le unfolding near_entry_def[symmetric] Let_def
      by (auto simp: zero_result_def split: if_splits)
  next
    case slow: False
    then have x: "escalate_regulated now1 now2 d (?res\<lparr>RequiresSlowPath := True, Diagnostic := OntoDiagnostic k\<rparr>) s = (d', r)"
      using r by auto
    show ?thesis using escalate_exact(2)[OF x] slow False far miss
      unfolding near_entry_def[symmetric] Let_def escalate_exact(1)[OF x]
      by (auto simp: zero_result_def)
  qed
qed

theorem grayzone_decision_witness:
  "let d = NewGrayZoneDecider 0 DefaultGrayZoneConfig;
       (d', r) = DecideWithSource 1 1 d (Some (replicate 8 0)) (Some \<lparr>entries = []\<rparr>)
           (PackOntoKey SubjUserInteractive ActExecve TgtBinSystem CtxInteractiveTTY) 7
   in Verdict r = CascadeFastPass"
proof -
  let ?k = "PackOntoKey SubjUserInteractive ActExecve TgtBinSystem CtxInteractiveTTY"
  let ?d = "NewGrayZoneDecider 0 DefaultGrayZoneConfig"
  have c: "search_range (DistFar (cfg ?d))" "DistStrict (cfg ?d) \<le> DistFar (cfg ?d)"
    by (simp_all add: NewGrayZoneDecider_def normalize_config_def DefaultGrayZoneConfig_def search_range_def Let_def)
  obtain d' r where r: "DecideWithSource 1 1 ?d (Some (replicate 8 0)) (Some \<lparr>entries = []\<rparr>) ?k 7 = (d', r)" by force
  have "EvaluateOntology ?k = OntoVerdictAllow" by (simp add: EvaluateOntology_def unpack_pack)
  with grayzone_decision[OF c r] have "Verdict r = CascadeFastPass" by (simp add: Let_def)
  then show ?thesis by (simp add: r Let_def)
qed

text \<open>Neither bucket ever holds more than its burst, whatever the clock does,
  and a decision leaves the configuration alone.
\<close>

lemma grayzone_buckets_bounded:
  assumes "gz_ok d" and "DecideWithSource now1 now2 d q cb k s = (d', r)"
  shows "tokens d' \<le> MaxBurst (cfg d) \<and> (\<forall>i. slot_tokens (sources d' i) \<le> SourceMaxBurst (cfg d)) \<and> cfg d' = cfg d"
  using DecideWithSource_ok[OF assms] by (auto simp: gz_ok_def)

text \<open>
  C6.  The rate limit: over any sequence of requests from the creation of the
  decider at time \<open>t0\<close> to time \<open>T\<close>, the number of escalations granted is at most
  the burst plus the refill rate times the whole seconds elapsed.
\<close>

theorem grayzone_rate_limit:
  assumes "clock_ok t0" and "t0 \<le> T" and "\<forall>(n1, n2, _) \<in> set reqs. clock_ok n2 \<and> n2 \<le> T"
    and "gz_run (NewGrayZoneDecider t0 c) reqs = (d', rs)"
  shows "length (filter (\<lambda>r. Verdict r = CascadeEscalate) rs)
       \<le> unat (MaxBurst (normalize_config c))
         + unat (RefillPerSec (normalize_config c)) * nat ((T - t0) div second)"
proof -
  let ?d = "NewGrayZoneDecider t0 c"
  have d: "lastRefill ?d = t0" "tokens ?d = MaxBurst (normalize_config c)" "cfg ?d = normalize_config c"
    by (simp_all add: NewGrayZoneDecider_def Let_def)
  have p: "escalations rs + unat (tokens d') \<le> unat (MaxBurst (normalize_config c))
        + unat (RefillPerSec (normalize_config c)) * nat ((lastRefill d' - t0) div second)"
    and T: "lastRefill d' \<le> T"
    using gz_run_pays[OF NewGrayZoneDecider_ok _ assms(3) _ assms(4)] assms(1,2) by (simp_all add: d)
  have "nat ((lastRefill d' - t0) div second) \<le> nat ((T - t0) div second)"
    using T by (intro nat_mono zdiv_mono1) auto
  then have "unat (RefillPerSec (normalize_config c)) * nat ((lastRefill d' - t0) div second)
      \<le> unat (RefillPerSec (normalize_config c)) * nat ((T - t0) div second)" by (rule mult_le_mono2)
  with p show ?thesis unfolding escalations_def by linarith
qed

theorem grayzone_rate_limit_witness:
  "let rs = snd (gz_run (NewGrayZoneDecider 0 DefaultGrayZoneConfig) [(5, 6, None, None, 0, 7)])
   in length (filter (\<lambda>r. Verdict r = CascadeEscalate) rs) \<le> 100 + 25 * 3"
proof -
  obtain d' rs where r: "gz_run (NewGrayZoneDecider 0 DefaultGrayZoneConfig) [(5, 6, None, None, 0, 7)] = (d', rs)"
    by force
  have n: "normalize_config DefaultGrayZoneConfig = DefaultGrayZoneConfig"
    by (simp add: normalize_config_def DefaultGrayZoneConfig_def Let_def)
  from grayzone_rate_limit[OF _ _ _ r, of "3 * second"]
  have "length (filter (\<lambda>r. Verdict r = CascadeEscalate) rs) \<le> 100 + 25 * 3"
    by (simp add: clock_ok_def n) (simp add: DefaultGrayZoneConfig_def)
  then show ?thesis unfolding r by simp
qed

text \<open>When the codebook has no entry within \<open>DistFar\<close>, the result reports a
  Hamming distance of 0, the value of an exact match, and not the value
  beyond \<open>DistFar\<close> that is prepared before the search.
\<close>

lemma grayzone_miss_reports_zero:
  assumes "search_range (DistFar (cfg d))" and "EvaluateOntology k \<noteq> OntoVerdictDeny"
    and "\<forall>e \<in> set (entries c). DistFar (cfg d) < codebookHamming q e"
    and "DecideWithSource now1 now2 d (Some q) (Some c) k s = (d', r)"
  shows "HammingDist r = 0"
proof -
  obtain e bd f where sn: "SearchNearest (Some c) (Some q) (DistFar (cfg d)) = (e, bd, f)" by (metis surj_pair)
  from codebook_index.found_iff[OF assms(1) sn] assms(3) have "\<not> f" by force
  then have "bd = 0" using sn by (auto simp: SearchNearest_def split: prod.splits if_splits)
  then show ?thesis using DecideWithSource_search(1)[OF assms(2) sn assms(4)] by simp
qed

end
