(* ===== verification/Arena.thy ===== *)
theory Arena
  imports Events
begin

text \<open>
  The page arena of \<open>internal/engine/arena_pool.go\<close>, where payloads longer than
  the 96 bytes of an event are kept: storing with a sealed descriptor, and
  resolving a descriptor against the page it names.  The checksum is the
  CRC-32C of \<open>hash/crc32\<close>, written out bit by bit.  This theory runs every call
  alone; the interleaved accesses to a page are in theory \<open>Seqlock\<close>.
\<close>

section \<open>CRC-32C\<close>

definition crc_bit :: "u32 \<Rightarrow> u32" where
  "crc_bit c = (if bit c 0 then drop_bit 1 c XOR 0x82F63B78 else drop_bit 1 c)"

definition crc_byte :: "u32 \<Rightarrow> byte \<Rightarrow> u32" where
  "crc_byte c b = (crc_bit ^^ 8) (c XOR ucast b)"

definition crc32_update :: "u32 \<Rightarrow> bytes \<Rightarrow> u32" where
  "crc32_update crc p = NOT (foldl crc_byte (NOT crc) p)"

lemma crc32_update_append: "crc32_update (crc32_update c xs) ys = crc32_update c (xs @ ys)"
  by (simp add: crc32_update_def)

text \<open>The page checksum in two streamed parts, the data and its tail of zeros.\<close>

definition arenaPageCRC32C :: "bytes \<Rightarrow> u32" where
  "arenaPageCRC32C payloadBytes =
     (let crc = crc32_update 0 payloadBytes
      in crc32_update crc (replicate (4096 - length payloadBytes) 0))"

lemma arenaPageCRC32C_page:
  "arenaPageCRC32C payload = crc32_update 0 (payload @ replicate (4096 - length payload) 0)"
  by (simp add: arenaPageCRC32C_def crc32_update_append)

section \<open>Pages and the pool\<close>

record ArenaPage =
  words :: "nat \<Rightarrow> u64"
  seq :: u32
  Epoch :: u32
  Len :: u32
  CRC32 :: u32

record ArenaPool =
  pages :: "nat \<Rightarrow> ArenaPage"
  alloc :: u64

definition NewArenaPool :: ArenaPool where
  "NewArenaPool = \<lparr>pages = (\<lambda>_. \<lparr>words = (\<lambda>_. 0), seq = 0, Epoch = 0, Len = 0, CRC32 = 0\<rparr>), alloc = 0\<rparr>"

datatype arena_error = ErrArenaDescriptor | ErrArenaStale | ErrArenaTorn | ErrArenaCorrupt

text \<open>\<open>binary.LittleEndian.Uint64\<close> of eight bytes, the missing ones being zero.\<close>

definition word_at :: "bytes \<Rightarrow> nat \<Rightarrow> u64" where
  "word_at data w = le_get (take 8 (take 8 (drop (8 * w) data) @ replicate 8 0))"

text \<open>What the critical section of the page lock writes.\<close>

definition page_store :: "ArenaPage \<Rightarrow> bytes \<Rightarrow> u32 \<Rightarrow> u32 \<Rightarrow> ArenaPage" where
  "page_store page data crc epoch =
     page\<lparr>words := (\<lambda>w. if w < (length data + 7) div 8 then word_at data w else words page w),
          Len := word_of_nat (length data), CRC32 := crc, Epoch := epoch, seq := seq page + 2\<rparr>"

text \<open>The descriptor sealed into bytes 80 to 95 of the event.\<close>

definition descriptor :: "u32 \<Rightarrow> nat \<Rightarrow> u32 \<Rightarrow> u32 \<Rightarrow> bytes" where
  "descriptor pageIdx len crc epoch =
     le_put 4 pageIdx @ le_put 2 (word_of_nat len :: u16) @ le_put 4 crc @ le_put 4 epoch @ le_put 2 (0 :: u16)"

text \<open>
  \<open>StorePayload\<close>.  The outer \<open>None\<close> means that the call does not return: the
  lock loop spins as long as the sequence number of the page is odd.
\<close>

definition StorePayload ::
    "ArenaPool \<Rightarrow> probe_event_t option \<Rightarrow> bytes \<Rightarrow> (ArenaPool \<times> probe_event_t option \<times> nat) option" where
  "StorePayload p ev payloadBytes = (case ev of
     None \<Rightarrow> Some (p, ev, 0)
   | Some e \<Rightarrow>
     if payloadBytes = [] then Some (p, ev, 0)
     else if length payloadBytes \<le> 96
     then Some (p, Some (e\<lparr>Payload := payloadBytes @ replicate (96 - length payloadBytes) 0,
                           Flags := Flags e AND NOT FlagLongPayload\<rparr>), length payloadBytes)
     else let
       len = min (length payloadBytes) 4096;
       data = take len payloadBytes;
       crc = arenaPageCRC32C data;
       slotIdx = alloc p;
       pageIdx = (ucast (slotIdx AND 1023) :: u32);
       page = pages p (unat pageIdx);
       epoch = (ucast (slotIdx div 1024) :: u32)
     in if bit (seq page) 0 then None
        else Some (p\<lparr>alloc := alloc p + 1, pages := (pages p)(unat pageIdx := page_store page data crc epoch)\<rparr>,
                   Some (e\<lparr>Payload := take 80 payloadBytes @ descriptor pageIdx len crc epoch,
                           Flags := Flags e OR FlagLongPayload\<rparr>), len))"

fun inlinePayloadUsed_from :: "nat \<Rightarrow> bytes \<Rightarrow> nat" where
  "inlinePayloadUsed_from i [] = i"
| "inlinePayloadUsed_from i (b # bs) = (if b = 0 then i else inlinePayloadUsed_from (Suc i) bs)"

definition inlinePayloadUsed :: "bytes \<Rightarrow> nat" where
  "inlinePayloadUsed buf = inlinePayloadUsed_from 0 (take 96 buf)"

definition words_to_bytes :: "(nat \<Rightarrow> u64) \<Rightarrow> nat \<Rightarrow> bytes" where
  "words_to_bytes ws n = concat (map (\<lambda>w. le_put 8 (ws w)) [0..<n])"

text \<open>
  \<open>ResolvePayload\<close>, given whether the caller provides a destination page.
  \<open>seq'\<close> is the sequence number found when the lock is closed.
\<close>

definition resolve_page :: "ArenaPage \<Rightarrow> u32 \<Rightarrow> nat \<Rightarrow> u32 \<Rightarrow> u32 \<Rightarrow> arena_error + bytes" where
  "resolve_page page seq' len expectedCRC expectedEpoch =
     (if bit (seq page) 0 \<or> Epoch page \<noteq> expectedEpoch then Inl ErrArenaStale
      else if Len page \<noteq> word_of_nat len \<or> CRC32 page \<noteq> expectedCRC then Inl ErrArenaCorrupt
      else if seq' \<noteq> seq page then Inl ErrArenaTorn
      else Inr (take len (words_to_bytes (words page) ((len + 7) div 8))))"

definition ResolvePayload :: "ArenaPool \<Rightarrow> probe_event_t option \<Rightarrow> bool \<Rightarrow> arena_error + bytes" where
  "ResolvePayload p ev has_dst = (case ev of
     None \<Rightarrow> Inr []
   | Some e \<Rightarrow>
     if Flags e AND FlagLongPayload = 0 then Inr (take (inlinePayloadUsed (Payload e)) (Payload e))
     else if \<not> has_dst then Inl ErrArenaDescriptor
     else let
       pageIdx = (le_get (subslice 80 84 (Payload e)) :: u32);
       len = unat (le_get (subslice 84 86 (Payload e)) :: u16)
     in if 1024 \<le> pageIdx \<or> len \<le> 96 \<or> 4096 < len then Inl ErrArenaDescriptor
        else let
          expectedCRC = le_get (subslice 86 90 (Payload e));
          expectedEpoch = le_get (subslice 90 94 (Payload e));
          page = pages p (unat pageIdx)
        in resolve_page page (seq page) len expectedCRC expectedEpoch)"

lemma inlinePayloadUsed_from_takeWhile:
  "inlinePayloadUsed_from i bs = i + length (takeWhile (\<lambda>x. x \<noteq> 0) bs)"
  by (induction bs arbitrary: i) simp_all

lemma ResolvePayload_inline:
  "Flags e AND FlagLongPayload = 0 \<Longrightarrow>
     ResolvePayload p (Some e) b = Inr (take (inlinePayloadUsed (Payload e)) (Payload e))"
  by (simp add: ResolvePayload_def)

lemma and_not_and: "(x AND NOT y) AND y = (0 :: 'a::len word)"
  by (rule bit_word_eqI) (simp add: bit_and_iff bit_not_iff)

lemma takeWhile_zero_pad:
  "takeWhile (\<lambda>x. x \<noteq> 0) (xs @ replicate n (0 :: byte)) = takeWhile (\<lambda>x. x \<noteq> 0) xs"
proof (induction xs)
  case Nil
  then show ?case by (cases n) simp_all
qed simp

section \<open>Words and bytes\<close>

lemma le_put_word_at: "le_put 8 (word_at data w) = take 8 (take 8 (drop (8 * w) data) @ replicate 8 0)"
  using le_put_get[where ?'a = 64, of "take 8 (take 8 (drop (8 * w) data) @ replicate 8 0)"]
  by (simp add: word_at_def)

lemma take_drop_glue: "take 8 (drop m xs) @ drop (m + 8) xs = drop m xs"
  by (metis append_take_drop_id drop_drop add.commute)

lemma words_to_bytes_full:
  "8 * n \<le> length data \<Longrightarrow> words_to_bytes (word_at data) n = take (8 * n) data"
proof (induction n)
  case 0
  then show ?case by (simp add: words_to_bytes_def)
next
  case (Suc n)
  then have "le_put 8 (word_at data n) = take 8 (drop (8 * n) data)"
    by (simp add: le_put_word_at)
  moreover have "words_to_bytes (word_at data) (Suc n) = words_to_bytes (word_at data) n @ le_put 8 (word_at data n)"
    by (simp add: words_to_bytes_def)
  ultimately show ?case using Suc take_add[of "8 * n" 8 data] by (simp add: add.commute)
qed

lemma words_to_bytes_roundtrip:
  "take (length data) (words_to_bytes (word_at data) ((length data + 7) div 8)) = data"
proof (cases "length data mod 8 = 0")
  case True
  then obtain n where "length data = 8 * n" by auto
  then show ?thesis using words_to_bytes_full[of n data] by simp
next
  case False
  define n where "n = length data div 8"
  define r where "r = length data mod 8"
  have r: "length data = 8 * n + r" "0 < r" "r < 8"
    using False by (simp_all add: r_def n_def)
  have "length data + 7 = (r - 1) + Suc n * 8" using r by simp
  moreover have "((r - 1) + Suc n * 8) div 8 = Suc n" using r(3) by (subst div_mult_self1) simp_all
  ultimately have n: "(length data + 7) div 8 = Suc n" "8 * n \<le> length data"
    "length data < 8 * n + 8" "8 * n < length data" using r by simp_all
  have "words_to_bytes (word_at data) (Suc n) = take (8 * n) data @ le_put 8 (word_at data n)"
    using words_to_bytes_full[OF n(2)] by (simp add: words_to_bytes_def)
  also have "le_put 8 (word_at data n) = drop (8 * n) data @ replicate (8 * n + 8 - length data) 0"
    using n by (simp add: le_put_word_at)
  finally have "words_to_bytes (word_at data) (Suc n) = data @ replicate (8 * n + 8 - length data) 0"
    by simp
  then show ?thesis by (simp add: n(1))
qed

lemma words_to_bytes_cong:
  "(\<And>w. w < n \<Longrightarrow> f w = g w) \<Longrightarrow> words_to_bytes f n = words_to_bytes g n"
  unfolding words_to_bytes_def by (metis (no_types, lifting) map_cong atLeastLessThan_iff set_upt)

text \<open>A page gives back what was stored in it.\<close>

lemma resolve_page_store:
  assumes "\<not> bit (seq page) 0" "length data \<le> 4096"
  shows "resolve_page (page_store page data crc epoch) (seq page + 2) (length data) crc epoch = Inr data"
proof -
  have "\<not> bit (seq page + 2) 0" using assms(1) by (simp add: bit_0)
  moreover have "words_to_bytes (words (page_store page data crc epoch)) ((length data + 7) div 8)
      = words_to_bytes (word_at data) ((length data + 7) div 8)"
    by (rule words_to_bytes_cong) (simp add: page_store_def)
  ultimately show ?thesis
    using words_to_bytes_roundtrip[of data] by (simp add: resolve_page_def) (simp add: page_store_def)
qed

section \<open>Storing and resolving\<close>

text \<open>Between calls every page is stable.\<close>

definition arena_ok :: "ArenaPool \<Rightarrow> bool" where
  "arena_ok p \<longleftrightarrow> (\<forall>i. \<not> bit (seq (pages p i)) 0)"

lemma NewArenaPool_ok: "arena_ok NewArenaPool"
  by (simp add: arena_ok_def NewArenaPool_def)

lemma even_plus_two: "\<not> bit (x :: u32) 0 \<Longrightarrow> \<not> bit (x + 2) 0"
  by (simp add: bit_0)

lemma page_store_even: "\<not> bit (seq page) 0 \<Longrightarrow> \<not> bit (seq (page_store page data crc epoch)) 0"
  by (simp add: page_store_def even_plus_two)

lemma page_store_simps [simp]:
  "Epoch (page_store page data crc epoch) = epoch" "CRC32 (page_store page data crc epoch) = crc"
  "Len (page_store page data crc epoch) = word_of_nat (length data)"
  by (simp_all add: page_store_def)

text \<open>The page a slot number falls on, and its epoch, as numbers.\<close>

lemma page_index: "unat (ucast ((a :: u64) AND 1023) :: u32) = unat a mod 1024"
proof -
  have "unat (a AND 1023) = unat a mod 1024"
    using unat_and_mask[of a 10] by (simp add: mask_eq_exp_minus_1)
  then show ?thesis by (simp add: unat_ucast_mod)
qed

lemma page_epoch: "(ucast ((a :: u64) div 1024) :: u32) = word_of_nat (unat a div 1024)"
  by (rule unsigned_word_eqI[where ?'a = nat]) (simp add: unat_ucast_mod unat_div unat_of_nat)

definition sealed_payload :: "nat \<Rightarrow> bytes \<Rightarrow> bytes" where
  "sealed_payload slot payload = (let len = min (length payload) 4096; data = take len payload in
     take 80 payload @ descriptor (word_of_nat (slot mod 1024)) len (arenaPageCRC32C data) (word_of_nat (slot div 1024)))"

definition stored_page :: "ArenaPage \<Rightarrow> nat \<Rightarrow> bytes \<Rightarrow> ArenaPage" where
  "stored_page page slot payload = (let data = take 4096 payload in
     page_store page data (arenaPageCRC32C data) (word_of_nat (slot div 1024)))"

lemma StorePayload_long:
  assumes "arena_ok p" "96 < length payload"
  shows "StorePayload p (Some e) payload =
    Some (p\<lparr>alloc := alloc p + 1,
            pages := (pages p)(unat (alloc p) mod 1024 :=
              stored_page (pages p (unat (alloc p) mod 1024)) (unat (alloc p)) payload)\<rparr>,
          Some (e\<lparr>Payload := sealed_payload (unat (alloc p)) payload, Flags := Flags e OR FlagLongPayload\<rparr>),
          min (length payload) 4096)"
proof -
  have t: "take (min (length payload) 4096) payload = take 4096 payload" by (simp add: min_def)
  have i: "(ucast (alloc p AND 1023) :: u32) = word_of_nat (unat (alloc p) mod 1024)"
    by (rule unsigned_word_eqI[where ?'a = nat]) (simp add: page_index unat_of_nat)
  have e: "\<not> bit (seq (pages p (unat (alloc p) mod 1024))) 0" using assms(1) by (simp add: arena_ok_def)
  have ne: "payload \<noteq> []" using assms(2) by auto
  have ix: "unat (word_of_nat (unat (alloc p) mod 1024) :: u32) = unat (alloc p) mod 1024"
    by (simp add: unat_of_nat)
  show ?thesis using assms(2) e ne
    by (simp add: StorePayload_def Let_def i ix page_epoch t stored_page_def sealed_payload_def)
qed

lemma StorePayload_long_ok:
  assumes "arena_ok p" "96 < length payload" "StorePayload p (Some e) payload = Some (p', e', n)"
  shows "arena_ok p'"
  using assms by (auto simp: StorePayload_long arena_ok_def stored_page_def Let_def page_store_even split: if_splits)

text \<open>Decoding the descriptor of a sealed event.\<close>

lemma descriptor_fields:
  assumes "length pre = 80" "len < 65536"
  shows "le_get (subslice 80 84 (pre @ descriptor i len crc epoch)) = i"
    "unat (le_get (subslice 84 86 (pre @ descriptor i len crc epoch)) :: u16) = len"
    "le_get (subslice 86 90 (pre @ descriptor i len crc epoch)) = crc"
    "le_get (subslice 90 94 (pre @ descriptor i len crc epoch)) = epoch"
  using assms by (simp_all add: descriptor_def subslice_def codec_simps unat_of_nat)

lemma ResolvePayload_sealed:
  assumes "96 < length payload" "Payload e = sealed_payload slot payload" "Flags e AND FlagLongPayload \<noteq> 0"
  shows "ResolvePayload p (Some e) True =
    (let page = pages p (slot mod 1024); data = take 4096 payload in
     resolve_page page (seq page) (length data) (arenaPageCRC32C data) (word_of_nat (slot div 1024)))"
proof -
  define len where "len = min (length payload) 4096"
  define crc where "crc = arenaPageCRC32C (take 4096 payload)"
  have t: "take len payload = take 4096 payload" "length (take 4096 payload) = len" by (simp_all add: len_def min_def)
  have s: "sealed_payload slot payload
      = take 80 payload @ descriptor (word_of_nat (slot mod 1024)) len crc (word_of_nat (slot div 1024))"
    using t by (simp add: sealed_payload_def len_def crc_def Let_def min_def)
  have l80: "length (take 80 payload) = 80" "len < 65536" using assms(1) by (auto simp: len_def)
  note f = descriptor_fields[OF l80, of "word_of_nat (slot mod 1024)" crc "word_of_nat (slot div 1024)"]
  have ix: "unat (word_of_nat (slot mod 1024) :: u32) = slot mod 1024" by (simp add: unat_of_nat)
  then have lt: "\<not> 1024 \<le> (word_of_nat (slot mod 1024) :: u32)" by (simp add: word_le_nat_alt not_le)
  have b: "\<not> len \<le> 96" "\<not> 4096 < len" using assms(1) by (auto simp: len_def)
  show ?thesis using assms(3) b lt t(2)
    by (simp add: ResolvePayload_def assms(2) s f ix Let_def flip: crc_def)
qed

section \<open>Histories of stores\<close>

text \<open>A sequence of long stores into the pool, each for an event of its own.\<close>

fun store_all :: "ArenaPool \<Rightarrow> bytes list \<Rightarrow> ArenaPool option" where
  "store_all p [] = Some p"
| "store_all p (payload # rest) = (case StorePayload p (Some zero_event) payload of
     None \<Rightarrow> None
   | Some (p', _, _) \<Rightarrow> store_all p' rest)"

definition long_payloads :: "bytes list \<Rightarrow> bool" where
  "long_payloads ds \<longleftrightarrow> (\<forall>d \<in> set ds. 96 < length d)"

lemma store_all_Cons_long:
  assumes "arena_ok p" "96 < length d"
  shows "\<exists>p1. store_all p (d # ds) = store_all p1 ds \<and> arena_ok p1 \<and> alloc p1 = alloc p + 1
    \<and> pages p1 = (pages p)(unat (alloc p) mod 1024 :=
         stored_page (pages p (unat (alloc p) mod 1024)) (unat (alloc p)) d)"
proof -
  let ?st = "StorePayload p (Some zero_event) d"
  obtain p1 e n where st: "?st = Some (p1, e, n)" "alloc p1 = alloc p + 1"
    "pages p1 = (pages p)(unat (alloc p) mod 1024 :=
         stored_page (pages p (unat (alloc p) mod 1024)) (unat (alloc p)) d)"
    by (rule that[OF StorePayload_long[OF assms]]) simp_all
  then show ?thesis using StorePayload_long_ok[OF assms st(1)] by auto
qed

text \<open>
  After the stores of slots \<open>a\<close> to \<open>a + n - 1\<close>, a page that none of these slots
  falls on is untouched, and any other page carries the epoch of one of them.
\<close>

lemma store_all_pages:
  assumes "arena_ok p" "long_payloads ds" "unat (alloc p) + length ds < 2 ^ 64"
  shows "\<exists>p'. store_all p ds = Some p' \<and> arena_ok p' \<and> unat (alloc p') = unat (alloc p) + length ds
    \<and> (\<forall>j. (\<forall>s. unat (alloc p) \<le> s \<and> s < unat (alloc p) + length ds \<longrightarrow> s mod 1024 \<noteq> j) \<and> pages p' j = pages p j
         \<or> (\<exists>s. unat (alloc p) \<le> s \<and> s < unat (alloc p) + length ds \<and> s mod 1024 = j
              \<and> Epoch (pages p' j) = word_of_nat (s div 1024)))"
  using assms
proof (induction ds arbitrary: p)
  case Nil
  then show ?case by simp
next
  case (Cons d ds)
  have "96 < length d" using Cons.prems(2) by (simp add: long_payloads_def)
  from store_all_Cons_long[OF Cons.prems(1) this] obtain p1 where
    p1: "store_all p (d # ds) = store_all p1 ds" "arena_ok p1" "alloc p1 = alloc p + 1"
    "pages p1 = (pages p)(unat (alloc p) mod 1024 :=
         stored_page (pages p (unat (alloc p) mod 1024)) (unat (alloc p)) d)" by blast
  let ?a = "unat (alloc p)"
  have a1: "unat (alloc p1) = Suc ?a"
    using Cons.prems(3) unfolding p1(3) by (intro unat_plus_one) simp
  have "long_payloads ds" using Cons.prems(2) by (simp add: long_payloads_def)
  from Cons.IH[OF p1(2) this] Cons.prems(3) a1 obtain p' where
    p': "store_all p1 ds = Some p'" "arena_ok p'" "unat (alloc p') = Suc ?a + length ds"
    and pg: "\<And>j. (\<forall>s. Suc ?a \<le> s \<and> s < Suc ?a + length ds \<longrightarrow> s mod 1024 \<noteq> j) \<and> pages p' j = pages p1 j
         \<or> (\<exists>s. Suc ?a \<le> s \<and> s < Suc ?a + length ds \<and> s mod 1024 = j
              \<and> Epoch (pages p' j) = word_of_nat (s div 1024))" by auto
  have "(\<forall>s. ?a \<le> s \<and> s < ?a + length (d # ds) \<longrightarrow> s mod 1024 \<noteq> j) \<and> pages p' j = pages p j
         \<or> (\<exists>s. ?a \<le> s \<and> s < ?a + length (d # ds) \<and> s mod 1024 = j
              \<and> Epoch (pages p' j) = word_of_nat (s div 1024))" for j
  proof (cases "?a mod 1024 = j \<and> (\<forall>s. Suc ?a \<le> s \<and> s < Suc ?a + length ds \<longrightarrow> s mod 1024 \<noteq> j)")
    case True
    then have "pages p' j = pages p1 j" using pg[of j] by blast
    then have "Epoch (pages p' j) = word_of_nat (?a div 1024)"
      using True by (simp add: p1(4) stored_page_def Let_def)
    then show ?thesis using True by auto
  next
    case False
    show ?thesis using pg[of j]
    proof
      assume n: "(\<forall>s. Suc ?a \<le> s \<and> s < Suc ?a + length ds \<longrightarrow> s mod 1024 \<noteq> j) \<and> pages p' j = pages p1 j"
      then have "?a mod 1024 \<noteq> j" using False by blast
      then show ?thesis using n p1(4) by (metis Suc_leI add_Suc add_Suc_right fun_upd_other le_neq_implies_less length_Cons)
    next
      assume "\<exists>s. Suc ?a \<le> s \<and> s < Suc ?a + length ds \<and> s mod 1024 = j
              \<and> Epoch (pages p' j) = word_of_nat (s div 1024)"
      then show ?thesis by (metis Suc_leD add_Suc add_Suc_right length_Cons)
    qed
  qed
  then show ?case using p1(1) p' by auto
qed

lemma same_page_later:
  fixes a s n :: nat
  assumes "a < s" "s mod 1024 = a mod 1024" "s \<le> a + n" "n < 2 ^ 41"
  shows "(word_of_nat (s div 1024) :: u32) \<noteq> word_of_nat (a div 1024)"
proof
  assume "(word_of_nat (s div 1024) :: u32) = word_of_nat (a div 1024)"
  from arg_cong[OF this, of unat] have "s div 1024 mod 2 ^ 32 = a div 1024 mod 2 ^ 32"
    by (simp add: unat_of_nat)
  moreover have lt: "a div 1024 < s div 1024" using assms(1,2)
    by (metis div_le_mono div_mod_decomp le_neq_implies_less less_imp_le less_irrefl)
  ultimately have "2 ^ 32 dvd s div 1024 - a div 1024"
    by (metis less_imp_le mod_eq_dvd_iff_nat)
  then have "2 ^ 32 \<le> s div 1024 - a div 1024" using lt by (intro dvd_imp_le) auto
  moreover have "s div 1024 \<le> (a + 2 ^ 31 * 1024) div 1024"
    using assms(3,4) by (intro div_le_mono) simp
  then have "s div 1024 - a div 1024 \<le> 2 ^ 31" by simp
  ultimately show False by simp
qed

lemma distinct_mod_1024: "a < s \<Longrightarrow> s < a + 1024 \<Longrightarrow> s mod 1024 \<noteq> a mod (1024 :: nat)"
proof
  assume "a < s" "s < a + 1024" "s mod 1024 = a mod 1024"
  then have "1024 dvd s - a" by (metis less_imp_le mod_eq_dvd_iff_nat)
  then show False using \<open>a < s\<close> \<open>s < a + 1024\<close> by (auto dest: dvd_imp_le)
qed

lemma or_and_absorb: "(x OR y) AND y = (y :: 'a::len word)"
  by (rule bit_word_eqI) (auto simp: bit_and_iff bit_or_iff)

text \<open>A store followed by other stores, as seen by the page of the first one.\<close>

lemma store_then_stores:
  assumes "arena_ok p" "96 < length payload" "long_payloads ds" "unat (alloc p) + length ds + 1 < 2 ^ 64"
  obtains p1 e' p2 where
    "StorePayload p (Some e) payload = Some (p1, Some e', min (length payload) 4096)"
    "Payload e' = sealed_payload (unat (alloc p)) payload" "Flags e' AND FlagLongPayload \<noteq> 0"
    "store_all p1 ds = Some p2"
    "length ds < 1024 \<Longrightarrow> pages p2 (unat (alloc p) mod 1024)
        = stored_page (pages p (unat (alloc p) mod 1024)) (unat (alloc p)) payload"
    "1024 \<le> length ds \<Longrightarrow> length ds < 2 ^ 41 \<Longrightarrow>
        Epoch (pages p2 (unat (alloc p) mod 1024)) \<noteq> word_of_nat (unat (alloc p) div 1024)"
proof -
  let ?a = "unat (alloc p)" and ?j = "unat (alloc p) mod 1024"
  let ?e = "e\<lparr>Payload := sealed_payload ?a payload, Flags := Flags e OR FlagLongPayload\<rparr>"
  obtain p1 where st: "StorePayload p (Some e) payload = Some (p1, Some ?e, min (length payload) 4096)"
    and p1: "alloc p1 = alloc p + 1" "pages p1 ?j = stored_page (pages p ?j) ?a payload"
    by (rule that[OF StorePayload_long[OF assms(1,2)]]) simp_all
  have a1: "unat (alloc p1) = Suc ?a" using assms(4) unfolding p1(1) by (intro unat_plus_one) simp
  from store_all_pages[OF StorePayload_long_ok[OF assms(1,2) st] assms(3)] assms(4) a1
  obtain p2 where p2: "store_all p1 ds = Some p2"
    and pg: "(\<forall>s. Suc ?a \<le> s \<and> s < Suc ?a + length ds \<longrightarrow> s mod 1024 \<noteq> ?j) \<and> pages p2 ?j = pages p1 ?j
         \<or> (\<exists>s. Suc ?a \<le> s \<and> s < Suc ?a + length ds \<and> s mod 1024 = ?j
              \<and> Epoch (pages p2 ?j) = word_of_nat (s div 1024))" by auto
  have flag: "Flags ?e AND FlagLongPayload \<noteq> 0"
    using or_and_absorb[of "Flags e" FlagLongPayload] by simp
  have keep: "pages p2 ?j = stored_page (pages p ?j) ?a payload" if "length ds < 1024"
  proof -
    have "\<not> (Suc ?a \<le> s \<and> s < Suc ?a + length ds \<and> s mod 1024 = ?j)" for s
      using distinct_mod_1024[of ?a s] that by auto
    then show ?thesis using pg p1(2) by metis
  qed
  have recycled: "Epoch (pages p2 ?j) \<noteq> word_of_nat (?a div 1024)" if "1024 \<le> length ds" "length ds < 2 ^ 41"
  proof -
    have "\<not> (\<forall>s. Suc ?a \<le> s \<and> s < Suc ?a + length ds \<longrightarrow> s mod 1024 \<noteq> ?j)"
      using that(1) by (auto intro!: exI[of _ "?a + 1024"])
    then obtain s where s: "Suc ?a \<le> s" "s < Suc ?a + length ds" "s mod 1024 = ?j"
      "Epoch (pages p2 ?j) = word_of_nat (s div 1024)" using pg by blast
    from same_page_later[of ?a s "length ds"] s that(2) show ?thesis by simp
  qed
  show ?thesis by (rule that[OF st _ flag p2 keep recycled]) simp_all
qed

section \<open>Properties\<close>

text \<open>A payload of more than 96 bytes that was stored is resolved to its first
  4096 bytes, exactly, as long as fewer than 1024 further long payloads have
  been stored.
\<close>

lemma arena_roundtrip:
  assumes "arena_ok p" and "96 < length payload" and "long_payloads ds"
    and "length ds < 1024" and "unat (alloc p) + length ds + 1 < 2 ^ 64"
  shows "\<exists>p1 e' p2. StorePayload p (Some e) payload = Some (p1, Some e', min (length payload) 4096)
     \<and> store_all p1 ds = Some p2 \<and> ResolvePayload p2 (Some e') True = Inr (take 4096 payload)"
proof -
  let ?a = "unat (alloc p)" and ?data = "take 4096 payload"
  obtain p1 e' p2 where st: "StorePayload p (Some e) payload = Some (p1, Some e', min (length payload) 4096)"
    "Payload e' = sealed_payload ?a payload" "Flags e' AND FlagLongPayload \<noteq> 0" "store_all p1 ds = Some p2"
    "pages p2 (?a mod 1024) = stored_page (pages p (?a mod 1024)) ?a payload"
    using store_then_stores[OF assms(1-3,5)] assms(4) by metis
  have "\<not> bit (seq (pages p (?a mod 1024))) 0" using assms(1) by (simp add: arena_ok_def)
  from resolve_page_store[OF this, of ?data "arenaPageCRC32C ?data" "word_of_nat (?a div 1024)"]
  have "ResolvePayload p2 (Some e') True = Inr ?data"
    by (simp add: ResolvePayload_sealed[OF assms(2) st(2,3)] st(5) stored_page_def Let_def)
      (simp add: page_store_def)
  with st show ?thesis by blast
qed

text \<open>Once 1024 further long payloads have been stored (and fewer than
  \<open>2 ^ 41\<close>), the page has been recycled and the descriptor is refused as stale:
  bytes of another payload are never returned for it.
\<close>

lemma arena_stale:
  assumes "arena_ok p" and "96 < length payload" and "long_payloads ds"
    and "1024 \<le> length ds" and "length ds < 2 ^ 41" and "unat (alloc p) + length ds + 1 < 2 ^ 64"
  shows "\<exists>p1 e' p2. StorePayload p (Some e) payload = Some (p1, Some e', min (length payload) 4096)
     \<and> store_all p1 ds = Some p2 \<and> ResolvePayload p2 (Some e') True = Inl ErrArenaStale"
proof -
  let ?a = "unat (alloc p)"
  obtain p1 e' p2 where st: "StorePayload p (Some e) payload = Some (p1, Some e', min (length payload) 4096)"
    "Payload e' = sealed_payload ?a payload" "Flags e' AND FlagLongPayload \<noteq> 0" "store_all p1 ds = Some p2"
    "Epoch (pages p2 (?a mod 1024)) \<noteq> word_of_nat (?a div 1024)"
    using store_then_stores[OF assms(1-3,6)] assms(4,5) by metis
  have "ResolvePayload p2 (Some e') True = Inl ErrArenaStale"
    using st(5) by (simp add: ResolvePayload_sealed[OF assms(2) st(2,3)] resolve_page_def Let_def)
  with st show ?thesis by blast
qed

text \<open>A payload of 1 to 96 bytes is resolved to its bytes before the first zero
  byte: it comes back whole exactly when it holds no zero byte.
\<close>

lemma arena_short_payload:
  assumes "payload \<noteq> []" and "length payload \<le> 96"
  shows "\<exists>e'. StorePayload p (Some e) payload = Some (p, Some e', length payload)
     \<and> ResolvePayload p (Some e') b = Inr (takeWhile (\<lambda>x. x \<noteq> 0) payload)
     \<and> (ResolvePayload p (Some e') b = Inr payload \<longleftrightarrow> 0 \<notin> set payload)"
proof -
  let ?buf = "payload @ replicate (96 - length payload) 0"
  have u: "take (inlinePayloadUsed ?buf) ?buf = takeWhile (\<lambda>x. x \<noteq> 0) payload"
  proof -
    have "inlinePayloadUsed ?buf = length (takeWhile (\<lambda>x. x \<noteq> 0) ?buf)"
      using assms(2) by (simp add: inlinePayloadUsed_def inlinePayloadUsed_from_takeWhile)
    then show ?thesis using takeWhile_eq_take[of "\<lambda>x. x \<noteq> 0" ?buf] by (simp only: takeWhile_zero_pad)
  qed
  define e' where "e' = e\<lparr>Payload := ?buf, Flags := Flags e AND NOT FlagLongPayload\<rparr>"
  have "Flags e' = Flags e AND NOT FlagLongPayload" by (simp add: e'_def)
  then have "Flags e' AND FlagLongPayload = 0" by (simp only: and_not_and)
  then have r: "ResolvePayload p (Some e') b = Inr (takeWhile (\<lambda>x. x \<noteq> 0) payload)"
    using u by (simp add: ResolvePayload_inline e'_def)
  have st: "StorePayload p (Some e) payload = Some (p, Some e', length payload)"
    using assms by (simp add: StorePayload_def e'_def)
  have "takeWhile (\<lambda>x. x \<noteq> 0) payload = payload \<longleftrightarrow> 0 \<notin> set payload"
    by (auto simp: takeWhile_eq_all_conv)
  with r st show ?thesis by (intro exI[of _ e']) simp
qed

end
