(* ===== verification/Seqlock.thy ===== *)
theory Seqlock
  imports Arena
begin

text \<open>
  One page of the arena under concurrent access: any number of writers in the
  critical section of \<open>StorePayload\<close> and a reader in \<open>ResolvePayload\<close>, one step
  per atomic load, store or compare-and-swap.  The history variable \<open>ver\<close> counts
  the changes of the 32-bit sequence number, and \<open>written\<close> collects the payloads
  of completed writes with their epochs.
\<close>

datatype writer_pc =
    WIdle
  | WTry bytes u32               (* about to load seq *)
  | WLoaded bytes u32 u32        (* seq loaded, about to compare-and-swap *)
  | WWord bytes u32 u32 nat      (* lock held, next word to store *)
  | WLen bytes u32 u32
  | WCrc bytes u32 u32
  | WEpoch bytes u32 u32
  | WRelease bytes u32 u32

datatype reader_pc =
    RStart
  | REpoch u32
  | RLen u32
  | RCrc u32
  | RWord u32 "u64 list"
  | RClose u32 "u64 list"
  | RDone "arena_error + bytes"

record seqlock =
  mem :: ArenaPage
  wpc :: "nat \<Rightarrow> writer_pc"
  rpc :: reader_pc
  ver :: nat
  rver :: nat
  written :: "(bytes \<times> u32) set"

text \<open>The descriptor the reader resolves.\<close>

record request =
  rq_len :: nat
  rq_crc :: u32
  rq_epoch :: u32

inductive sl_step :: "request \<Rightarrow> seqlock \<Rightarrow> seqlock \<Rightarrow> bool" for rq :: request where
  w_begin: "wpc s i = WIdle \<Longrightarrow> 96 < length data \<Longrightarrow> length data \<le> 4096 \<Longrightarrow>
    sl_step rq s (s\<lparr>wpc := (wpc s)(i := WTry data epoch)\<rparr>)"
| w_load: "wpc s i = WTry data epoch \<Longrightarrow>
    sl_step rq s (s\<lparr>wpc := (wpc s)(i := WLoaded data epoch (seq (mem s)))\<rparr>)"
| w_retry: "wpc s i = WLoaded data epoch q \<Longrightarrow> bit q 0 \<or> seq (mem s) \<noteq> q \<Longrightarrow>
    sl_step rq s (s\<lparr>wpc := (wpc s)(i := WTry data epoch)\<rparr>)"
| w_acquire: "wpc s i = WLoaded data epoch q \<Longrightarrow> \<not> bit q 0 \<Longrightarrow> seq (mem s) = q \<Longrightarrow>
    sl_step rq s (s\<lparr>wpc := (wpc s)(i := WWord data epoch q 0), mem := (mem s)\<lparr>seq := q + 1\<rparr>, ver := Suc (ver s)\<rparr>)"
| w_word: "wpc s i = WWord data epoch q w \<Longrightarrow> w < (length data + 7) div 8 \<Longrightarrow>
    sl_step rq s (s\<lparr>wpc := (wpc s)(i := WWord data epoch q (Suc w)),
                    mem := (mem s)\<lparr>words := (words (mem s))(w := word_at data w)\<rparr>\<rparr>)"
| w_words_done: "wpc s i = WWord data epoch q w \<Longrightarrow> \<not> w < (length data + 7) div 8 \<Longrightarrow>
    sl_step rq s (s\<lparr>wpc := (wpc s)(i := WLen data epoch q)\<rparr>)"
| w_len: "wpc s i = WLen data epoch q \<Longrightarrow>
    sl_step rq s (s\<lparr>wpc := (wpc s)(i := WCrc data epoch q), mem := (mem s)\<lparr>Len := word_of_nat (length data)\<rparr>\<rparr>)"
| w_crc: "wpc s i = WCrc data epoch q \<Longrightarrow>
    sl_step rq s (s\<lparr>wpc := (wpc s)(i := WEpoch data epoch q), mem := (mem s)\<lparr>CRC32 := arenaPageCRC32C data\<rparr>\<rparr>)"
| w_epoch: "wpc s i = WEpoch data epoch q \<Longrightarrow>
    sl_step rq s (s\<lparr>wpc := (wpc s)(i := WRelease data epoch q), mem := (mem s)\<lparr>Epoch := epoch\<rparr>\<rparr>)"
| w_release: "wpc s i = WRelease data epoch q \<Longrightarrow>
    sl_step rq s (s\<lparr>wpc := (wpc s)(i := WIdle), mem := (mem s)\<lparr>seq := q + 2\<rparr>, ver := Suc (ver s),
                    written := insert (data, epoch) (written s)\<rparr>)"
| r_open: "rpc s = RStart \<Longrightarrow>
    sl_step rq s (s\<lparr>rpc := (if bit (seq (mem s)) 0 then RDone (Inl ErrArenaStale) else REpoch (seq (mem s))), rver := ver s\<rparr>)"
| r_epoch: "rpc s = REpoch q \<Longrightarrow>
    sl_step rq s (s\<lparr>rpc := (if Epoch (mem s) \<noteq> rq_epoch rq then RDone (Inl ErrArenaStale) else RLen q)\<rparr>)"
| r_len: "rpc s = RLen q \<Longrightarrow>
    sl_step rq s (s\<lparr>rpc := (if Len (mem s) \<noteq> word_of_nat (rq_len rq) then RDone (Inl ErrArenaCorrupt) else RCrc q)\<rparr>)"
| r_crc: "rpc s = RCrc q \<Longrightarrow>
    sl_step rq s (s\<lparr>rpc := (if CRC32 (mem s) \<noteq> rq_crc rq then RDone (Inl ErrArenaCorrupt) else RWord q [])\<rparr>)"
| r_word: "rpc s = RWord q buf \<Longrightarrow> length buf < (rq_len rq + 7) div 8 \<Longrightarrow>
    sl_step rq s (s\<lparr>rpc := RWord q (buf @ [words (mem s) (length buf)])\<rparr>)"
| r_words_done: "rpc s = RWord q buf \<Longrightarrow> \<not> length buf < (rq_len rq + 7) div 8 \<Longrightarrow>
    sl_step rq s (s\<lparr>rpc := RClose q buf\<rparr>)"
| r_close: "rpc s = RClose q buf \<Longrightarrow>
    sl_step rq s (s\<lparr>rpc := RDone (if seq (mem s) \<noteq> q then Inl ErrArenaTorn
                                 else Inr (take (rq_len rq) (concat (map (le_put 8) buf))))\<rparr>)"

inductive_cases sl_stepE: "sl_step rq s s'"

definition sl_init :: seqlock where
  "sl_init = \<lparr>mem = \<lparr>words = (\<lambda>_. 0), seq = 0, Epoch = 0, Len = 0, CRC32 = 0\<rparr>,
              wpc = (\<lambda>_. WIdle), rpc = RStart, ver = 0, rver = 0, written = {}\<rparr>"

section \<open>Mutual exclusion of the writers\<close>

text \<open>The write a program counter is in the critical section for, and how far it has come.\<close>

primrec in_cs :: "writer_pc \<Rightarrow> (bytes \<times> u32 \<times> u32) option" where
  "in_cs WIdle = None"
| "in_cs (WTry d e) = None"
| "in_cs (WLoaded d e q) = None"
| "in_cs (WWord d e q w) = Some (d, e, q)"
| "in_cs (WLen d e q) = Some (d, e, q)"
| "in_cs (WCrc d e q) = Some (d, e, q)"
| "in_cs (WEpoch d e q) = Some (d, e, q)"
| "in_cs (WRelease d e q) = Some (d, e, q)"

definition lock_inv :: "seqlock \<Rightarrow> bool" where
  "lock_inv s \<longleftrightarrow> seq (mem s) = word_of_nat (ver s)
     \<and> (\<forall>i d e q. in_cs (wpc s i) = Some (d, e, q) \<longrightarrow> odd (ver s) \<and> q = word_of_nat (ver s) - 1)
     \<and> (\<forall>i j. in_cs (wpc s i) \<noteq> None \<and> in_cs (wpc s j) \<noteq> None \<longrightarrow> i = j)"

definition words_ok :: "ArenaPage \<Rightarrow> bytes \<Rightarrow> nat \<Rightarrow> bool" where
  "words_ok m d n \<longleftrightarrow> (\<forall>w < n. words m w = word_at d w)"

primrec progress :: "ArenaPage \<Rightarrow> writer_pc \<Rightarrow> bool" where
  "progress m WIdle = True"
| "progress m (WTry d e) = (length d \<le> 4096)"
| "progress m (WLoaded d e q) = (length d \<le> 4096)"
| "progress m (WWord d e q w) = (length d \<le> 4096 \<and> words_ok m d (min w ((length d + 7) div 8)))"
| "progress m (WLen d e q) = (length d \<le> 4096 \<and> words_ok m d ((length d + 7) div 8))"
| "progress m (WCrc d e q) = (length d \<le> 4096 \<and> words_ok m d ((length d + 7) div 8) \<and> Len m = word_of_nat (length d))"
| "progress m (WEpoch d e q) = (length d \<le> 4096 \<and> words_ok m d ((length d + 7) div 8) \<and> Len m = word_of_nat (length d)
     \<and> CRC32 m = arenaPageCRC32C d)"
| "progress m (WRelease d e q) = (length d \<le> 4096 \<and> words_ok m d ((length d + 7) div 8) \<and> Len m = word_of_nat (length d)
     \<and> CRC32 m = arenaPageCRC32C d \<and> Epoch m = e)"

text \<open>A stable page holds one completed write, whole, or is still in its initial state.\<close>

definition holds_write :: "ArenaPage \<Rightarrow> (bytes \<times> u32) set \<Rightarrow> bool" where
  "holds_write m W \<longleftrightarrow> Len m = 0 \<or> (\<exists>d e. (d, e) \<in> W \<and> length d \<le> 4096 \<and> words_ok m d ((length d + 7) div 8)
     \<and> Len m = word_of_nat (length d) \<and> CRC32 m = arenaPageCRC32C d \<and> Epoch m = e)"

definition write_inv :: "seqlock \<Rightarrow> bool" where
  "write_inv s \<longleftrightarrow> (\<forall>i. progress (mem s) (wpc s i)) \<and> (even (ver s) \<longrightarrow> holds_write (mem s) (written s))"

lemma bit0_of_nat: "bit (word_of_nat n :: u32) 0 \<longleftrightarrow> odd n"
  by transfer (simp add: bit_take_bit_iff bit_0)

text \<open>The lock invariant only depends on who holds the lock and on the sequence number.\<close>

lemma lock_inv_cong:
  assumes "\<And>j. in_cs (wpc s' j) = in_cs (wpc s j)" "seq (mem s') = seq (mem s)" "ver s' = ver s" "lock_inv s"
  shows "lock_inv s'"
  using assms by (simp add: lock_inv_def)

lemma lock_inv_step:
  assumes "lock_inv s" "sl_step rq s s'"
  shows "lock_inv s'"
  using assms(2)
proof (cases rule: sl_step.cases)
  case (w_acquire i data epoch q)
  then have "even (ver s)" using assms(1) by (simp add: lock_inv_def bit0_of_nat)
  then have "in_cs (wpc s j) = None" for j
    using assms(1) unfolding lock_inv_def by (metis option.exhaust prod_cases3)
  with w_acquire assms(1) \<open>even (ver s)\<close> show ?thesis
    by (auto simp: lock_inv_def algebra_simps)
next
  case (w_release i data epoch q)
  then have c: "in_cs (wpc s i) = Some (data, epoch, q)" by simp
  with assms(1) have o: "odd (ver s)" "q = word_of_nat (ver s) - 1" "in_cs (wpc s i) = Some (data, epoch, q)"
    unfolding lock_inv_def by blast+
  have others: "in_cs (wpc s j) = None" if "j \<noteq> i" for j
  proof (rule ccontr)
    assume "in_cs (wpc s j) \<noteq> None"
    moreover have "in_cs (wpc s i) \<noteq> None" using c by simp
    ultimately show False using assms(1) that unfolding lock_inv_def by blast
  qed
  have "q + 2 = word_of_nat (Suc (ver s))" using o(2) by simp
  with w_release(1) others show ?thesis by (simp add: lock_inv_def)
qed (auto intro!: lock_inv_cong[OF _ _ _ assms(1)])

lemma progress_outside: "in_cs pc = None \<Longrightarrow> progress m pc = progress m' pc"
  by (cases pc) simp_all

lemma words_ok_seq [simp]:
  "words_ok (m\<lparr>seq := q\<rparr>) d n = words_ok m d n" "words_ok (m\<lparr>Len := l\<rparr>) d n = words_ok m d n"
  "words_ok (m\<lparr>CRC32 := c\<rparr>) d n = words_ok m d n" "words_ok (m\<lparr>Epoch := e\<rparr>) d n = words_ok m d n"
  by (simp_all add: words_ok_def)

lemma progress_seq [simp]: "progress (m\<lparr>seq := q\<rparr>) pc = progress m pc"
  by (cases pc) simp_all

lemma holds_write_seq [simp]: "holds_write (m\<lparr>seq := q\<rparr>) W = holds_write m W"
  by (simp add: holds_write_def)

text \<open>A step of the lock holder touches nobody else's progress.\<close>

lemma holder_step:
  assumes "lock_inv s" "write_inv s" "in_cs (wpc s i) \<noteq> None" "progress m' pc'"
  shows "\<forall>j. progress m' (((wpc s)(i := pc')) j)"
proof
  fix j
  have "in_cs (wpc s j) = None" if "j \<noteq> i" using assms(1,3) that unfolding lock_inv_def by blast
  then show "progress m' (((wpc s)(i := pc')) j)"
    using assms(2,4) progress_outside[of "wpc s j" m' "mem s"] by (auto simp: write_inv_def)
qed

lemma holder_odd:
  assumes "lock_inv s" "in_cs (wpc s i) \<noteq> None"
  shows "odd (ver s)"
  using assms by (auto simp: lock_inv_def)

lemma write_inv_step:
  assumes "lock_inv s" "write_inv s" "sl_step rq s s'"
  shows "write_inv s'"
  using assms(3)
proof (cases rule: sl_step.cases)
  case (w_word i data epoch q w)
  then have "progress (mem s) (WWord data epoch q w)" using assms(2) by (metis write_inv_def)
  with w_word(3) have "progress ((mem s)\<lparr>words := (words (mem s))(w := word_at data w)\<rparr>) (WWord data epoch q (Suc w))"
    by (auto simp: words_ok_def less_Suc_eq)
  moreover have "in_cs (wpc s i) \<noteq> None" using w_word(2) by simp
  ultimately show ?thesis using holder_step[OF assms(1,2)] holder_odd[OF assms(1)] w_word(1)
    by (simp add: write_inv_def)
next
  case (w_len i data epoch q)
  then have "progress (mem s) (WLen data epoch q)" using assms(2) by (metis write_inv_def)
  then have "progress ((mem s)\<lparr>Len := word_of_nat (length data)\<rparr>) (WCrc data epoch q)" by simp
  moreover have "in_cs (wpc s i) \<noteq> None" using w_len(2) by simp
  ultimately show ?thesis using holder_step[OF assms(1,2)] holder_odd[OF assms(1)] w_len(1)
    by (simp add: write_inv_def)
next
  case (w_crc i data epoch q)
  then have "progress (mem s) (WCrc data epoch q)" using assms(2) by (metis write_inv_def)
  then have "progress ((mem s)\<lparr>CRC32 := arenaPageCRC32C data\<rparr>) (WEpoch data epoch q)" by simp
  moreover have "in_cs (wpc s i) \<noteq> None" using w_crc(2) by simp
  ultimately show ?thesis using holder_step[OF assms(1,2)] holder_odd[OF assms(1)] w_crc(1)
    by (simp add: write_inv_def)
next
  case (w_epoch i data epoch q)
  then have "progress (mem s) (WEpoch data epoch q)" using assms(2) by (metis write_inv_def)
  then have "progress ((mem s)\<lparr>Epoch := epoch\<rparr>) (WRelease data epoch q)" by simp
  moreover have "in_cs (wpc s i) \<noteq> None" using w_epoch(2) by simp
  ultimately show ?thesis using holder_step[OF assms(1,2)] holder_odd[OF assms(1)] w_epoch(1)
    by (simp add: write_inv_def)
next
  case (w_words_done i data epoch q w)
  then have "progress (mem s) (WWord data epoch q w)" using assms(2) by (metis write_inv_def)
  with w_words_done(3) have "progress (mem s) (WLen data epoch q)" by (simp add: min_absorb2)
  with w_words_done(1) assms(2) show ?thesis by (auto simp: write_inv_def)
next
  case (w_release i data epoch q)
  then have "progress (mem s) (WRelease data epoch q)" using assms(2) by (metis write_inv_def)
  then have "holds_write (mem s) (insert (data, epoch) (written s))" by (auto simp: holds_write_def)
  with w_release assms(2) show ?thesis by (auto simp: write_inv_def)
next
  case (w_begin i data epoch)
  then show ?thesis using assms(2) by (auto simp: write_inv_def)
next
  case (w_load i data epoch)
  then have "progress (mem s) (WTry data epoch)" using assms(2) by (metis write_inv_def)
  with w_load assms(2) show ?thesis by (auto simp: write_inv_def)
next
  case (w_retry i data epoch q)
  then have "progress (mem s) (WLoaded data epoch q)" using assms(2) by (metis write_inv_def)
  with w_retry assms(2) show ?thesis by (auto simp: write_inv_def)
next
  case (w_acquire i data epoch q)
  then have "progress (mem s) (WLoaded data epoch q)" "even (ver s)"
    using assms(1,2) by (metis write_inv_def, auto simp: lock_inv_def bit0_of_nat)
  with w_acquire assms(2) show ?thesis by (auto simp: write_inv_def words_ok_def)
qed (use assms(2) in \<open>auto simp: write_inv_def\<close>)

section \<open>The reader\<close>

text \<open>
  As long as the version is the one the reader opened, what it has read is what
  the page holds.  A result, once returned, is the payload of a completed write.
\<close>

definition seen :: "request \<Rightarrow> seqlock \<Rightarrow> u64 list \<Rightarrow> bool" where
  "seen rq s buf \<longleftrightarrow> Epoch (mem s) = rq_epoch rq \<and> Len (mem s) = word_of_nat (rq_len rq) \<and> CRC32 (mem s) = rq_crc rq
     \<and> buf = map (words (mem s)) [0..<length buf]"

definition result_ok :: "request \<Rightarrow> (bytes \<times> u32) set \<Rightarrow> bytes \<Rightarrow> bool" where
  "result_ok rq W d \<longleftrightarrow> (d, rq_epoch rq) \<in> W \<and> length d = rq_len rq \<and> arenaPageCRC32C d = rq_crc rq"

definition opened :: "seqlock \<Rightarrow> u32 \<Rightarrow> bool" where
  "opened s q \<longleftrightarrow> q = word_of_nat (rver s) \<and> even (rver s)"

definition reader_inv :: "request \<Rightarrow> seqlock \<Rightarrow> bool" where
  "reader_inv rq s \<longleftrightarrow> rver s \<le> ver s \<and> (case rpc s of
     RStart \<Rightarrow> True
   | REpoch q \<Rightarrow> opened s q
   | RLen q \<Rightarrow> opened s q \<and> (ver s = rver s \<longrightarrow> Epoch (mem s) = rq_epoch rq)
   | RCrc q \<Rightarrow> opened s q \<and> (ver s = rver s \<longrightarrow> Epoch (mem s) = rq_epoch rq \<and> Len (mem s) = word_of_nat (rq_len rq))
   | RWord q buf \<Rightarrow> opened s q \<and> (ver s = rver s \<longrightarrow> seen rq s buf) \<and> length buf \<le> (rq_len rq + 7) div 8
   | RClose q buf \<Rightarrow> opened s q \<and> (ver s = rver s \<longrightarrow> seen rq s buf) \<and> length buf = (rq_len rq + 7) div 8
   | RDone (Inl _) \<Rightarrow> True
   | RDone (Inr d) \<Rightarrow> result_ok rq (written s) d)"

lemma result_ok_mono: "result_ok rq W d \<Longrightarrow> W \<subseteq> W' \<Longrightarrow> result_ok rq W' d"
  by (auto simp: result_ok_def)

text \<open>A writer that changes the page does so while the version differs from the opened one.\<close>

lemma reader_inv_writer:
  assumes "reader_inv rq s" "rpc s' = rpc s" "rver s' = rver s" "ver s \<le> ver s'"
    and "ver s' = rver s \<Longrightarrow> even (ver s') \<Longrightarrow> mem s' = mem s" "written s \<subseteq> written s'"
  shows "reader_inv rq s'"
proof -
  have m: "ver s' = rver s \<Longrightarrow> even (rver s) \<Longrightarrow> ver s = rver s \<and> mem s' = mem s"
    using assms(1,4,5) by (auto simp: reader_inv_def)
  show ?thesis using assms(1-4) m result_ok_mono[OF _ assms(6)]
    by (auto simp: reader_inv_def opened_def seen_def split: reader_pc.splits sum.splits)
qed

lemma reader_close:
  assumes "lock_inv s" "write_inv s" "reader_inv rq s" "rpc s = RClose q buf" "seq (mem s) = q"
    and "ver s < 2 ^ 32" "96 < rq_len rq" "rq_len rq \<le> 4096"
  shows "result_ok rq (written s) (take (rq_len rq) (concat (map (le_put 8) buf)))"
proof -
  have rv: "q = word_of_nat (rver s)" "even (rver s)" "rver s \<le> ver s"
    using assms(3,4) by (auto simp: reader_inv_def opened_def)
  have "(word_of_nat (ver s) :: u32) = word_of_nat (rver s)"
    using assms(1,5) rv(1) by (simp add: lock_inv_def)
  from arg_cong[OF this, of unat] have v: "ver s = rver s"
    using assms(6) rv(3) by (simp add: unat_of_nat)
  then have sn: "seen rq s buf" and len: "length buf = (rq_len rq + 7) div 8"
    using assms(3,4) by (auto simp: reader_inv_def)
  have "Len (mem s) \<noteq> 0" using sn assms(7,8) by (auto simp: seen_def word_of_nat_eq_0_iff dest: dvd_imp_le)
  then obtain d e where d: "(d, e) \<in> written s" "length d \<le> 4096" "words_ok (mem s) d ((length d + 7) div 8)"
    "Len (mem s) = word_of_nat (length d)" "CRC32 (mem s) = arenaPageCRC32C d" "Epoch (mem s) = e"
    using assms(2) rv(2) v by (auto simp: write_inv_def holds_write_def)
  have "(word_of_nat (length d) :: u32) = word_of_nat (rq_len rq)" using sn d(4) by (simp add: seen_def)
  from arg_cong[OF this, of unat] have l: "length d = rq_len rq" using d(2) assms(8) by (simp add: unat_of_nat)
  have "buf = map (word_at d) [0..<(length d + 7) div 8]"
  proof (rule nth_equalityI)
    show "length buf = length (map (word_at d) [0..<(length d + 7) div 8])" using len l by simp
    fix i assume "i < length buf"
    moreover from this have "buf ! i = words (mem s) i" using sn unfolding seen_def
      by (metis (no_types, lifting) add_0 length_map length_upt minus_nat.diff_0 nth_map nth_upt)
    ultimately show "buf ! i = map (word_at d) [0..<(length d + 7) div 8] ! i"
      using d(3) len l by (simp add: words_ok_def)
  qed
  then have "concat (map (le_put 8) buf) = words_to_bytes (word_at d) ((length d + 7) div 8)"
    by (simp add: words_to_bytes_def comp_def)
  then have "take (rq_len rq) (concat (map (le_put 8) buf)) = d"
    using words_to_bytes_roundtrip[of d] l by simp
  then show ?thesis using d sn l by (simp add: result_ok_def seen_def)
qed

lemma reader_inv_step:
  assumes "lock_inv s" "write_inv s" "reader_inv rq s" "sl_step rq s s'"
    and "ver s' < 2 ^ 32" "96 < rq_len rq" "rq_len rq \<le> 4096"
  shows "reader_inv rq s'"
  using assms(4)
proof (cases rule: sl_step.cases)
  case (w_acquire i data epoch q)
  have "rver s \<le> ver s" using assms(3) by (simp add: reader_inv_def)
  with w_acquire(1) show ?thesis by (intro reader_inv_writer[OF assms(3)]) auto
next
  case (w_release i data epoch q)
  then have "in_cs (wpc s i) \<noteq> None" by simp
  then have "odd (ver s)" by (rule holder_odd[OF assms(1)])
  moreover have "rver s \<le> ver s" using assms(3) by (simp add: reader_inv_def)
  ultimately show ?thesis using w_release(1) by (intro reader_inv_writer[OF assms(3)]) auto
next
  case (w_word i data epoch q w)
  then have "odd (ver s)" using holder_odd[OF assms(1), of i] by simp
  then show ?thesis using w_word(1) by (intro reader_inv_writer[OF assms(3)]) auto
next
  case (w_len i data epoch q)
  then have "odd (ver s)" using holder_odd[OF assms(1), of i] by simp
  then show ?thesis using w_len(1) by (intro reader_inv_writer[OF assms(3)]) auto
next
  case (w_crc i data epoch q)
  then have "odd (ver s)" using holder_odd[OF assms(1), of i] by simp
  then show ?thesis using w_crc(1) by (intro reader_inv_writer[OF assms(3)]) auto
next
  case (w_epoch i data epoch q)
  then have "odd (ver s)" using holder_odd[OF assms(1), of i] by simp
  then show ?thesis using w_epoch(1) by (intro reader_inv_writer[OF assms(3)]) auto
next
  case (w_begin i data epoch)
  then show ?thesis by (intro reader_inv_writer[OF assms(3)]) auto
next
  case (w_load i data epoch)
  then show ?thesis by (intro reader_inv_writer[OF assms(3)]) auto
next
  case (w_retry i data epoch q)
  then show ?thesis by (intro reader_inv_writer[OF assms(3)]) auto
next
  case (w_words_done i data epoch q w)
  then show ?thesis by (intro reader_inv_writer[OF assms(3)]) auto
next
  case r_open
  then show ?thesis using assms(1) by (auto simp: reader_inv_def opened_def lock_inv_def bit0_of_nat)
next
  case (r_word q buf)
  then show ?thesis using assms(3) by (auto simp: reader_inv_def opened_def seen_def)
next
  case (r_close q buf)
  then show ?thesis using assms(3) reader_close[OF assms(1-3) r_close(2) _ _ assms(6,7)] assms(5)
    by (auto simp: reader_inv_def)
qed (use assms(3) in \<open>auto simp: reader_inv_def opened_def seen_def\<close>)

lemma sl_ver_mono: "sl_step rq s s' \<Longrightarrow> ver s \<le> ver s'"
  by (erule sl_stepE) auto

lemma sl_reach_inv:
  assumes "(sl_step rq)\<^sup>*\<^sup>* sl_init s" "ver s < 2 ^ 32" "96 < rq_len rq" "rq_len rq \<le> 4096"
  shows "lock_inv s \<and> write_inv s \<and> reader_inv rq s"
  using assms(1,2)
proof (induction rule: rtranclp_induct)
  case base
  then show ?case
    by (simp add: lock_inv_def write_inv_def reader_inv_def sl_init_def holds_write_def)
next
  case (step s s')
  then have "lock_inv s \<and> write_inv s \<and> reader_inv rq s" using sl_ver_mono[OF step.hyps(2)] by simp
  then show ?case
    using lock_inv_step[OF _ step.hyps(2)] write_inv_step[OF _ _ step.hyps(2)]
      reader_inv_step[OF _ _ _ step.hyps(2) step.prems assms(3,4)] by blast
qed

section \<open>Undisturbed calls are the sequential operations\<close>

definition put_words :: "bytes \<Rightarrow> nat \<Rightarrow> (nat \<Rightarrow> u64) \<Rightarrow> nat \<Rightarrow> u64" where
  "put_words d w f = (\<lambda>k. if w \<le> k \<and> k < (length d + 7) div 8 then word_at d k else f k)"

lemma solo_words:
  assumes "wpc s i = WWord d e q w" "w \<le> (length d + 7) div 8"
  shows "(sl_step rq)\<^sup>*\<^sup>* s (s\<lparr>wpc := (wpc s)(i := WWord d e q ((length d + 7) div 8)),
     mem := (mem s)\<lparr>words := put_words d w (words (mem s))\<rparr>\<rparr>)"
  using assms
proof (induction "(length d + 7) div 8 - w" arbitrary: s w)
  case 0
  then have w: "w = (length d + 7) div 8" by simp
  then have "(wpc s)(i := WWord d e q ((length d + 7) div 8)) = wpc s" using 0(2) by auto
  moreover have "put_words d w (words (mem s)) = words (mem s)" by (auto simp: put_words_def w fun_eq_iff)
  ultimately show ?case by simp
next
  case (Suc n)
  let ?s1 = "s\<lparr>wpc := (wpc s)(i := WWord d e q (Suc w)), mem := (mem s)\<lparr>words := (words (mem s))(w := word_at d w)\<rparr>\<rparr>"
  have lt: "w < (length d + 7) div 8" using Suc.hyps(2) by simp
  have st: "sl_step rq s ?s1" using Suc.prems(1) lt by (rule w_word)
  have f: "put_words d (Suc w) ((words (mem s))(w := word_at d w)) = put_words d w (words (mem s))"
    using lt by (auto simp: put_words_def fun_eq_iff)
  have "(sl_step rq)\<^sup>*\<^sup>* ?s1 (?s1\<lparr>wpc := (wpc ?s1)(i := WWord d e q ((length d + 7) div 8)),
     mem := (mem ?s1)\<lparr>words := put_words d (Suc w) (words (mem ?s1))\<rparr>\<rparr>)"
    using Suc.hyps(2) lt by (intro Suc.hyps(1)) auto
  then have "(sl_step rq)\<^sup>*\<^sup>* ?s1 (s\<lparr>wpc := (wpc s)(i := WWord d e q ((length d + 7) div 8)),
     mem := (mem s)\<lparr>words := put_words d w (words (mem s))\<rparr>\<rparr>)"
    using f by simp
  with st show ?case by (rule converse_rtranclp_into_rtranclp)
qed

lemma solo_write:
  assumes "wpc s i = WIdle" "\<not> bit (seq (mem s)) 0" "96 < length d" "length d \<le> 4096"
  shows "(sl_step rq)\<^sup>*\<^sup>* s (s\<lparr>wpc := (wpc s)(i := WIdle), mem := page_store (mem s) d (arenaPageCRC32C d) e,
     ver := Suc (Suc (ver s)), written := insert (d, e) (written s)\<rparr>)"
proof -
  let ?n = "(length d + 7) div 8" and ?q = "seq (mem s)"
  let ?W = "put_words d 0 (words (mem s))"
  let ?at = "\<lambda>pc m v. s\<lparr>wpc := (wpc s)(i := pc), mem := m, ver := v\<rparr>"
  let ?m0 = "(mem s)\<lparr>seq := ?q + 1\<rparr>" and ?v = "Suc (ver s)"
  let ?m1 = "?m0\<lparr>words := ?W\<rparr>"
  let ?m2 = "?m1\<lparr>Len := word_of_nat (length d)\<rparr>"
  let ?m3 = "?m2\<lparr>CRC32 := arenaPageCRC32C d\<rparr>"
  let ?m4 = "?m3\<lparr>Epoch := e\<rparr>"
  have "sl_step rq s (s\<lparr>wpc := (wpc s)(i := WTry d e)\<rparr>)" using assms by (intro w_begin) auto
  moreover have "sl_step rq (s\<lparr>wpc := (wpc s)(i := WTry d e)\<rparr>) (s\<lparr>wpc := (wpc s)(i := WLoaded d e ?q)\<rparr>)"
    using w_load[of "s\<lparr>wpc := (wpc s)(i := WTry d e)\<rparr>" i d e rq] by (cases s) simp
  moreover have "sl_step rq (s\<lparr>wpc := (wpc s)(i := WLoaded d e ?q)\<rparr>) (?at (WWord d e ?q 0) ?m0 ?v)"
    using w_acquire[of "s\<lparr>wpc := (wpc s)(i := WLoaded d e ?q)\<rparr>" i d e ?q rq] assms(2) by (cases s) simp
  moreover have "(sl_step rq)\<^sup>*\<^sup>* (?at (WWord d e ?q 0) ?m0 ?v) (?at (WWord d e ?q ?n) ?m1 ?v)"
    using solo_words[of "?at (WWord d e ?q 0) ?m0 ?v" i d e ?q 0 rq] by (cases s) simp
  moreover have "sl_step rq (?at (WWord d e ?q ?n) ?m1 ?v) (?at (WLen d e ?q) ?m1 ?v)"
    using w_words_done[of "?at (WWord d e ?q ?n) ?m1 ?v" i d e ?q ?n rq] by (cases s) simp
  moreover have "sl_step rq (?at (WLen d e ?q) ?m1 ?v) (?at (WCrc d e ?q) ?m2 ?v)"
    using w_len[of "?at (WLen d e ?q) ?m1 ?v" i d e ?q rq] by (cases s) simp
  moreover have "sl_step rq (?at (WCrc d e ?q) ?m2 ?v) (?at (WEpoch d e ?q) ?m3 ?v)"
    using w_crc[of "?at (WCrc d e ?q) ?m2 ?v" i d e ?q rq] by (cases s) simp
  moreover have "sl_step rq (?at (WEpoch d e ?q) ?m3 ?v) (?at (WRelease d e ?q) ?m4 ?v)"
    using w_epoch[of "?at (WEpoch d e ?q) ?m3 ?v" i d e ?q rq] by (cases s) simp
  moreover have "sl_step rq (?at (WRelease d e ?q) ?m4 ?v) (s\<lparr>wpc := (wpc s)(i := WIdle),
      mem := page_store (mem s) d (arenaPageCRC32C d) e, ver := Suc ?v, written := insert (d, e) (written s)\<rparr>)"
    using w_release[of "?at (WRelease d e ?q) ?m4 ?v" i d e ?q rq] by (cases s) (simp add: page_store_def put_words_def)
  ultimately show ?thesis
    by (meson converse_rtranclp_into_rtranclp rtranclp.rtrancl_refl rtranclp_trans)
qed

lemma solo_read_words:
  assumes "rpc s = RWord q buf" "buf = map (words (mem s)) [0..<length buf]" "length buf \<le> (rq_len rq + 7) div 8"
  shows "(sl_step rq)\<^sup>*\<^sup>* s (s\<lparr>rpc := RClose q (map (words (mem s)) [0..<(rq_len rq + 7) div 8])\<rparr>)"
  using assms
proof (induction "(rq_len rq + 7) div 8 - length buf" arbitrary: s buf)
  case 0
  then have "length buf = (rq_len rq + 7) div 8" by simp
  then have "sl_step rq s (s\<lparr>rpc := RClose q buf\<rparr>)" using 0(2) by (intro r_words_done) auto
  then show ?case using 0(3) \<open>length buf = _\<close> by auto
next
  case (Suc n)
  let ?buf = "buf @ [words (mem s) (length buf)]"
  have st: "sl_step rq s (s\<lparr>rpc := RWord q ?buf\<rparr>)" using Suc.hyps(2) Suc.prems(1) by (intro r_word) auto
  have "?buf = map (words (mem s)) [0..<length ?buf]" using Suc.prems(2) by simp
  then have "(sl_step rq)\<^sup>*\<^sup>* (s\<lparr>rpc := RWord q ?buf\<rparr>) (s\<lparr>rpc := RClose q (map (words (mem s)) [0..<(rq_len rq + 7) div 8])\<rparr>)"
    using Suc.hyps(1)[of ?buf "s\<lparr>rpc := RWord q ?buf\<rparr>"] Suc.hyps(2) by simp
  with st show ?case by (rule converse_rtranclp_into_rtranclp)
qed

text \<open>A successful undisturbed read returns what the sequential resolution returns.\<close>

lemma solo_read:
  assumes "rpc s = RStart" "resolve_page (mem s) (seq (mem s)) (rq_len rq) (rq_crc rq) (rq_epoch rq) = Inr d"
  shows "(sl_step rq)\<^sup>*\<^sup>* s (s\<lparr>rpc := RDone (Inr d), rver := ver s\<rparr>)"
proof -
  let ?q = "seq (mem s)" and ?at = "\<lambda>pc. s\<lparr>rpc := pc, rver := ver s\<rparr>"
  let ?buf = "map (words (mem s)) [0..<(rq_len rq + 7) div 8]"
  have ok: "\<not> bit ?q 0" "Epoch (mem s) = rq_epoch rq" "Len (mem s) = word_of_nat (rq_len rq)" "CRC32 (mem s) = rq_crc rq"
    and d: "d = take (rq_len rq) (concat (map (le_put 8) ?buf))"
    using assms(2) by (auto simp: resolve_page_def words_to_bytes_def comp_def split: if_splits)
  have "sl_step rq s (?at (REpoch ?q))" using r_open[of s rq] assms(1) ok by (cases s) simp
  moreover have "sl_step rq (?at (REpoch ?q)) (?at (RLen ?q))" using r_epoch[of "?at (REpoch ?q)" ?q rq] ok by (cases s) simp
  moreover have "sl_step rq (?at (RLen ?q)) (?at (RCrc ?q))" using r_len[of "?at (RLen ?q)" ?q rq] ok by (cases s) simp
  moreover have "sl_step rq (?at (RCrc ?q)) (?at (RWord ?q []))" using r_crc[of "?at (RCrc ?q)" ?q rq] ok by (cases s) simp
  moreover have "(sl_step rq)\<^sup>*\<^sup>* (?at (RWord ?q [])) (?at (RClose ?q ?buf))"
    using solo_read_words[of "?at (RWord ?q [])" ?q "[]" rq] by (cases s) simp
  moreover have "sl_step rq (?at (RClose ?q ?buf)) (?at (RDone (Inr d)))"
    using r_close[of "?at (RClose ?q ?buf)" ?q ?buf rq] d by (cases s) simp
  ultimately show ?thesis
    by (meson converse_rtranclp_into_rtranclp rtranclp.rtrancl_refl rtranclp_trans)
qed

section \<open>Properties\<close>

text \<open>
  C7.  Reads are never torn: in every interleaving of any number of writers and a
  reader, fewer than \<open>2 ^ 32\<close> sequence changes in, a successful resolution
  returns exactly the payload of one completed write that carries the length,
  checksum and epoch of the descriptor, and at most one writer is ever inside
  the critical section.
\<close>

theorem seqlock_not_torn:
  assumes "(sl_step rq)\<^sup>*\<^sup>* sl_init s" and "ver s < 2 ^ 32"
    and "96 < rq_len rq" and "rq_len rq \<le> 4096" and "rpc s = RDone (Inr d)"
  shows "(d, rq_epoch rq) \<in> written s \<and> length d = rq_len rq \<and> arenaPageCRC32C d = rq_crc rq
     \<and> (\<forall>i j. in_cs (wpc s i) = None \<or> in_cs (wpc s j) = None \<or> i = j)"
proof -
  note inv = sl_reach_inv[OF assms(1-4)]
  then have "result_ok rq (written s) d" using assms(5) by (simp add: reader_inv_def)
  moreover have "\<forall>i j. in_cs (wpc s i) = None \<or> in_cs (wpc s j) = None \<or> i = j"
    using inv unfolding lock_inv_def by blast
  ultimately show ?thesis by (simp add: result_ok_def)
qed

theorem seqlock_not_torn_witness:
  "\<exists>rq s d. (sl_step rq)\<^sup>*\<^sup>* sl_init s \<and> rpc s = RDone (Inr d) \<and> (d, rq_epoch rq) \<in> written s
     \<and> d = replicate 100 65"
proof -
  let ?d = "replicate 100 65 :: bytes"
  let ?rq = "\<lparr>rq_len = 100, rq_crc = arenaPageCRC32C ?d, rq_epoch = 3\<rparr>"
  let ?s1 = "sl_init\<lparr>wpc := (wpc sl_init)(0 := WIdle), mem := page_store (mem sl_init) ?d (arenaPageCRC32C ?d) 3,
     ver := Suc (Suc (ver sl_init)), written := insert (?d, 3) (written sl_init)\<rparr>"
  let ?s2 = "?s1\<lparr>rpc := RDone (Inr ?d), rver := ver ?s1\<rparr>"
  have e: "\<not> bit (seq (mem sl_init)) 0" by (simp add: sl_init_def)
  have w: "(sl_step ?rq)\<^sup>*\<^sup>* sl_init ?s1" using e by (intro solo_write) (simp_all add: sl_init_def)
  have "resolve_page (mem ?s1) (seq (mem ?s1)) (rq_len ?rq) (rq_crc ?rq) (rq_epoch ?rq) = Inr ?d"
    using resolve_page_store[OF e, of ?d "arenaPageCRC32C ?d" 3] by (simp add: page_store_def)
  then have "(sl_step ?rq)\<^sup>*\<^sup>* ?s1 ?s2" by (intro solo_read) (simp_all add: sl_init_def)
  with w have r: "(sl_step ?rq)\<^sup>*\<^sup>* sl_init ?s2" by (rule rtranclp_trans)
  have "ver ?s2 < 2 ^ 32" by (simp add: sl_init_def)
  from seqlock_not_torn[OF r this] have "(?d, rq_epoch ?rq) \<in> written ?s2" by simp
  with r show ?thesis by (intro exI[of _ ?rq] exI[of _ ?s2] exI[of _ ?d]) simp
qed

end
