(* ===== verification/Rules.thy ===== *)
theory Rules
  imports Events
begin

text \<open>
  The observation rules of \<open>internal/engine/rules.go\<close>: recognition of
  living-off-the-land binaries and the per-subsystem flagging of a batch.
\<close>

section \<open>Command recognition\<close>

text \<open>The two scanning loops of \<open>Check_lolbas_comm\<close> and the cut after the last slash.\<close>

definition comm_word :: "bytes \<Rightarrow> bytes" where
  "comm_word comm = takeWhile (\<lambda>c. c \<noteq> 0 \<and> c \<noteq> 0x20 \<and> c \<noteq> 0x09 \<and> c \<noteq> 0x0D \<and> c \<noteq> 0x0A)
     (dropWhile (\<lambda>c. c = 0x20 \<or> c = 0x09) comm)"

definition after_last_slash :: "bytes \<Rightarrow> bytes" where
  "after_last_slash w = rev (takeWhile (\<lambda>c. c \<noteq> 0x2F) (rev w))"

definition lolbas_names :: "bytes list" where
  "lolbas_names = map ascii [''curl'', ''wget'', ''nc'', ''ncat'', ''netcat'', ''socat'', ''base64'', ''perl'',
     ''ruby'', ''sh'', ''bash'', ''zsh'', ''dash'', ''ash'']"

definition lolbas_prefixes :: "bytes list" where
  "lolbas_prefixes = map ascii [''python'', ''php'', ''lua'']"

definition Check_lolbas_comm :: "bytes \<Rightarrow> bool" where
  "Check_lolbas_comm comm = (let w = after_last_slash (comm_word comm) in
     w \<in> set lolbas_names \<or> list_ex (has_prefix w) lolbas_prefixes)"

section \<open>Flagging\<close>

text \<open>The payload up to its first zero byte.\<close>

definition rule_payload :: "probe_event_t \<Rightarrow> bytes" where
  "rule_payload ev = takeWhile (\<lambda>b. b \<noteq> 0) (Payload ev)"

definition doctrine_path :: "bytes \<Rightarrow> bool" where
  "doctrine_path payload \<longleftrightarrow> contains_sub payload (ascii ''.claude'') \<or> contains_sub payload (ascii ''CLAUDE.md'')
     \<or> contains_sub payload (ascii ''AGENTS.md'')"

definition tool_call_hostile :: "bytes \<Rightarrow> bool" where
  "tool_call_hostile payload = (let has = (\<lambda>s. contains_sub payload (ascii s));
       piped = (has ''curl'' \<or> has ''wget'') \<and> (has ''| sh'' \<or> has ''| bash'' \<or> has ''|sh'' \<or> has ''|bash'')
     in piped \<or> has ''rm -rf'' \<or> has ''rm -r '' \<or> has ''chmod 777'' \<or> has ''mkfs'' \<or> has ''dd if='' \<or> doctrine_path payload)"

text \<open>The bits a rule adds, before the verdict bit is settled.\<close>

definition rule_flags :: "probe_event_t \<Rightarrow> u32" where
  "rule_flags ev = (let payload = rule_payload ev; flags = Flags ev in
     if Subsystem ev = 1 then
       (if Action ev = 1 \<and> Check_lolbas_comm payload then flags OR 12 else flags)
     else if Subsystem ev = 4 then
       (if Action ev = 4 \<and> (tool_call_hostile payload \<or> flags AND 0x100 \<noteq> 0) then flags OR 6 else flags)
     else if Subsystem ev = 6 then
       (let cls = (ucast (drop_bit 32 (Src ev)) :: u32) in
        if cls = 4 \<or> 0x780 \<le> (ucast (Src ev) :: u32) \<or> flags AND 0x100 \<noteq> 0 then flags OR 0x106
        else if cls = 3 \<or> flags AND 0x80 \<noteq> 0 then flags OR 0x84
        else if cls = 2 \<or> flags AND 0x40 \<noteq> 0 then flags OR 0x44
        else flags)
     else if Subsystem ev = 2 then
       (if Action ev = 6 \<and> doctrine_path payload then flags OR 6 else flags)
     else flags)"

definition settle_verdict :: "u32 \<Rightarrow> u32" where
  "settle_verdict flags = (if flags AND 6 \<noteq> 0 then flags AND NOT 1 else flags OR 1)"

definition eval_rules_event :: "probe_event_t \<Rightarrow> probe_event_t" where
  "eval_rules_event ev = ev\<lparr>Flags := settle_verdict (rule_flags ev)\<rparr>"

text \<open>
  The batch.  Input and output may be the same slice: each event is read
  before its own slot is written.
\<close>

definition C2bt_eval_rules_batch :: "probe_event_t list \<Rightarrow> probe_event_t list \<Rightarrow> int \<Rightarrow> int \<times> probe_event_t list" where
  "C2bt_eval_rules_batch inEvents outEvents batchCount0 =
     (let batchCount = min batchCount0 (min (int (length inEvents)) (int (length outEvents))) in
      if batchCount \<le> 0 then (0, outEvents)
      else (batchCount, map eval_rules_event (take (nat batchCount) inEvents) @ drop (nat batchCount) outEvents))"

section \<open>Lemmas\<close>

lemma bit_mask_zero: "x AND m = (0 :: u32) \<longleftrightarrow> (\<forall>n. \<not> (bit x n \<and> bit m n))"
proof
  assume z: "x AND m = 0"
  show "\<forall>n. \<not> (bit x n \<and> bit m n)"
  proof
    fix n
    have "\<not> bit (x AND m) n" by (simp only: z bit_0_eq) simp
    then show "\<not> (bit x n \<and> bit m n)" by (simp add: bit_and_iff)
  qed
next
  assume "\<forall>n. \<not> (bit x n \<and> bit m n)"
  then show "x AND m = 0" by (intro bit_word_eqI) (simp add: bit_and_iff)
qed

lemma settle_keeps: "n \<noteq> 0 \<Longrightarrow> bit (settle_verdict f) n = bit f n"
  by (auto simp: settle_verdict_def bit_simps dest: bit_imp_le_length)

lemma settle_verdict_bit: "bit (settle_verdict f) 0 \<longleftrightarrow> f AND 6 = 0"
  by (simp add: settle_verdict_def bit_simps)

lemma six_bits: "f AND (6 :: u32) = 0 \<longleftrightarrow> \<not> bit f 1 \<and> \<not> bit f 2"
proof -
  have "bit (6 :: u32) n \<longleftrightarrow> n = 1 \<or> n = 2" for n
    by (cases n; cases "n - 1"; cases "n - 2") (auto simp: bit_numeral_rec bit_1_iff)
  then show ?thesis by (auto simp: bit_mask_zero)
qed

lemma settle_verdict_exclusive:
  "bit (settle_verdict f) 0 \<longleftrightarrow> settle_verdict f AND 6 = 0"
  by (simp add: settle_verdict_bit six_bits settle_keeps)

lemma rule_flags_mono: "bit (Flags ev) n \<Longrightarrow> bit (rule_flags ev) n"
  by (simp add: rule_flags_def Let_def bit_or_iff)

lemma eval_rules_event_fields [simp]:
  "Subsystem (eval_rules_event ev) = Subsystem ev" "Action (eval_rules_event ev) = Action ev"
  "Src (eval_rules_event ev) = Src ev" "rule_payload (eval_rules_event ev) = rule_payload ev"
  "Pid (eval_rules_event ev) = Pid ev" "Ts_ns (eval_rules_event ev) = Ts_ns ev"
  "Payload (eval_rules_event ev) = Payload ev"
  by (simp_all add: eval_rules_event_def rule_payload_def)

section \<open>Properties\<close>

text \<open>After evaluation every event of the batch carries the conformity bit
  exactly when it carries neither the blocked nor the anomaly bit; no other
  flag of the event is lost, the remaining fields are untouched, and the slots
  beyond the batch keep their events.
\<close>

lemma eval_rules_batch_verdict:
  assumes "C2bt_eval_rules_batch ins outs k = (n, outs')"
  shows "length outs' = length outs \<and> 0 \<le> n \<and> n \<le> int (length ins) \<and> n \<le> max 0 k
     \<and> (\<forall>i < nat n. (bit (Flags (outs' ! i)) 0 \<longleftrightarrow> Flags (outs' ! i) AND 6 = 0)
          \<and> (\<forall>j. j \<noteq> 0 \<and> bit (Flags (ins ! i)) j \<longrightarrow> bit (Flags (outs' ! i)) j)
          \<and> outs' ! i = (ins ! i)\<lparr>Flags := Flags (outs' ! i)\<rparr>)
     \<and> (\<forall>i. nat n \<le> i \<and> i < length outs \<longrightarrow> outs' ! i = outs ! i)"
proof (cases "min k (min (int (length ins)) (int (length outs))) \<le> 0")
  case True
  then show ?thesis using assms by (simp add: C2bt_eval_rules_batch_def)
next
  case False
  then have n: "n = min k (min (int (length ins)) (int (length outs)))" "0 < n"
    and o: "outs' = map eval_rules_event (take (nat n) ins) @ drop (nat n) outs"
    using assms by (auto simp: C2bt_eval_rules_batch_def Let_def)
  have le: "nat n \<le> length ins" "nat n \<le> length outs" using n by linarith+
  have ev: "outs' ! i = eval_rules_event (ins ! i)" if "i < nat n" for i
    using that le by (simp add: o nth_append)
  have "bit (Flags (eval_rules_event e)) 0 \<longleftrightarrow> Flags (eval_rules_event e) AND 6 = 0" for e
    by (simp add: eval_rules_event_def settle_verdict_exclusive)
  moreover have "bit (Flags (eval_rules_event e)) j" if "j \<noteq> 0" "bit (Flags e) j" for e j
    using that by (simp add: eval_rules_event_def settle_keeps rule_flags_mono)
  moreover have "eval_rules_event e = e\<lparr>Flags := Flags (eval_rules_event e)\<rparr>" for e
    by (simp add: eval_rules_event_def)
  moreover have "outs' ! i = outs ! i" if "nat n \<le> i" "i < length outs" for i
    using that le by (simp add: o nth_append)
  moreover have "length outs' = length outs" using le by (simp add: o)
  moreover have "n \<le> int (length ins)" "n \<le> max 0 k" using n by auto
  ultimately show ?thesis using ev n(2) by auto
qed

end
