(* ===== verification/Correlator.thy ===== *)
theory Correlator
  imports Events
begin

text \<open>
  The per-process correlation of \<open>internal/engine/correlator.go\<close>: a table of 1024
  trackers indexed by the low bits of the process number, each counting the
  subsystems that raised a hostile signal inside a fixed time window.
\<close>

record process_tracker =
  Last_ts_ns :: u64
  Trk_pid :: u32
  Subsystems_mask :: u32
  Accumulated_score :: u32
  Last_action :: u16
  Event_count :: u16
  Trk_reserved :: u32

type_synonym tracker_table = "nat \<Rightarrow> process_tracker"

definition zero_tracker :: process_tracker where
  "zero_tracker = \<lparr>Last_ts_ns = 0, Trk_pid = 0, Subsystems_mask = 0, Accumulated_score = 0,
                   Last_action = 0, Event_count = 0, Trk_reserved = 0\<rparr>"

definition C2bt_tracker_init :: tracker_table where
  "C2bt_tracker_init = (\<lambda>_. zero_tracker)"

definition C2bt_tracker_reset_entry :: "u32 \<Rightarrow> u64 \<Rightarrow> process_tracker" where
  "C2bt_tracker_reset_entry pid tsNS = zero_tracker\<lparr>Trk_pid := pid, Last_ts_ns := tsNS\<rparr>"

definition hostile_signal :: "probe_event_t \<Rightarrow> bool" where
  "hostile_signal ev \<longleftrightarrow>
     (Subsystem ev = 1 \<and> Action ev = 1 \<and> Flags ev AND 8 \<noteq> 0)
   \<or> (Subsystem ev = 2 \<and> Action ev = 6 \<and> Flags ev AND 6 = 6)
   \<or> (Subsystem ev = 3 \<and> Flags ev AND 0x10 \<noteq> 0)
   \<or> (Subsystem ev = 4 \<and> Action ev = 4 \<and> (Flags ev AND 0x400 \<noteq> 0 \<or> Flags ev AND 6 = 6))
   \<or> (Subsystem ev = 5 \<and> Flags ev AND 0x20 \<noteq> 0)
   \<or> (Subsystem ev = 6 \<and> Flags ev AND 0x100 \<noteq> 0)"

text \<open>The tracker an event is counted on: the present one, or a fresh one when the
  slot is free, belongs to another process, or its window does not contain the event.\<close>

definition window_entry :: "process_tracker \<Rightarrow> probe_event_t \<Rightarrow> u64 \<Rightarrow> process_tracker" where
  "window_entry entry ev windowNS =
     (if Event_count entry = 0 \<or> Trk_pid entry \<noteq> Pid ev \<or> Ts_ns ev < Last_ts_ns entry
         \<or> windowNS \<le> Ts_ns ev - Last_ts_ns entry
      then C2bt_tracker_reset_entry (Pid ev) (Ts_ns ev) else entry)"

definition count_event :: "process_tracker \<Rightarrow> probe_event_t \<Rightarrow> process_tracker" where
  "count_event entry ev =
     (let e1 = (if Event_count entry < 65535 then entry\<lparr>Event_count := Event_count entry + 1\<rparr> else entry)
      in e1\<lparr>Last_action := Action ev\<rparr>)"

definition score_signal :: "process_tracker \<Rightarrow> probe_event_t \<Rightarrow> process_tracker" where
  "score_signal entry ev = (let b = push_bit (unat (Subsystem ev)) 1 in
     if Subsystems_mask entry AND b = 0
     then entry\<lparr>Subsystems_mask := Subsystems_mask entry OR b, Accumulated_score := Accumulated_score entry + 50\<rparr>
     else entry)"

text \<open>The result code, the table and the flags written through the out-pointer.\<close>

definition C2bt_correlate_event :: "tracker_table \<Rightarrow> probe_event_t \<Rightarrow> u64 \<Rightarrow> tracker_table \<times> u32" where
  "C2bt_correlate_event table ev windowNS0 =
     (let out0 = Flags ev AND NOT 0x200 in
      if Pid ev = 0 then (table, out0)
      else let
        windowNS = (if windowNS0 = 0 then 1000000000 else windowNS0);
        slot = unat (Pid ev AND 1023);
        entry = count_event (window_entry (table slot) ev windowNS) ev
      in if \<not> hostile_signal ev then (table(slot := entry), out0)
         else let entry2 = score_signal entry ev
           in (table(slot := entry2),
               if 100 \<le> Accumulated_score entry2 then (Flags ev OR 0x204) AND NOT 1 else out0))"

section \<open>The score counts subsystems\<close>

definition subsystems :: "process_tracker \<Rightarrow> nat set" where
  "subsystems t = {n. bit (Subsystems_mask t) n}"

definition tracker_ok :: "process_tracker \<Rightarrow> bool" where
  "tracker_ok t \<longleftrightarrow> subsystems t \<subseteq> {1..6} \<and> Accumulated_score t = 50 * word_of_nat (card (subsystems t))"

lemma zero_tracker_ok: "tracker_ok zero_tracker"
  by (simp add: tracker_ok_def subsystems_def zero_tracker_def)

lemma reset_ok [simp]:
  "tracker_ok (C2bt_tracker_reset_entry p t)" "subsystems (C2bt_tracker_reset_entry p t) = {}"
  by (simp_all add: tracker_ok_def subsystems_def zero_tracker_def C2bt_tracker_reset_entry_def)

lemma window_entry_ok: "tracker_ok e \<Longrightarrow> tracker_ok (window_entry e ev w)"
  by (simp add: window_entry_def)

lemma count_event_simps [simp]:
  "Subsystems_mask (count_event e ev) = Subsystems_mask e" "Accumulated_score (count_event e ev) = Accumulated_score e"
  "Trk_pid (count_event e ev) = Trk_pid e" "Last_ts_ns (count_event e ev) = Last_ts_ns e"
  "subsystems (count_event e ev) = subsystems e" "tracker_ok (count_event e ev) = tracker_ok e"
  by (simp_all add: count_event_def Let_def subsystems_def tracker_ok_def)

lemma hostile_subsystem: "hostile_signal ev \<Longrightarrow> unat (Subsystem ev) \<in> {1..6}"
  by (auto simp: hostile_signal_def)

lemma single_bit: "n < 32 \<Longrightarrow> bit (2 ^ n :: u32) k \<longleftrightarrow> k = n"
  by (auto simp: bit_exp_iff)

lemma mask_single: "n < 32 \<Longrightarrow> m AND 2 ^ n = (0 :: u32) \<longleftrightarrow> \<not> bit m n"
proof -
  assume n: "n < 32"
  have "m AND 2 ^ n = (if bit m n then 2 ^ n else 0)"
    by (rule bit_word_eqI) (auto simp: bit_and_iff single_bit[OF n])
  moreover have "(2 ^ n :: u32) \<noteq> 0" using n by simp
  ultimately show ?thesis by simp
qed

lemma score_signal_subsystems:
  assumes "unat (Subsystem ev) < 32"
  shows "subsystems (score_signal e ev) = insert (unat (Subsystem ev)) (subsystems e)"
  using assms
  by (auto simp: score_signal_def Let_def subsystems_def mask_single bit_or_iff single_bit)

lemma score_signal_ok:
  assumes "tracker_ok e" "hostile_signal ev"
  shows "tracker_ok (score_signal e ev)"
proof -
  let ?n = "unat (Subsystem ev)"
  have n: "?n \<in> {1..6}" "?n < 32" using hostile_subsystem[OF assms(2)] by auto
  have fin: "finite (subsystems e)" using assms(1) finite_subset by (auto simp: tracker_ok_def)
  show ?thesis
  proof (cases "?n \<in> subsystems e")
    case True
    then have "score_signal e ev = e"
      using n by (simp add: score_signal_def Let_def mask_single subsystems_def)
    then show ?thesis using assms(1) by simp
  next
    case False
    then have "Accumulated_score (score_signal e ev) = Accumulated_score e + 50"
      using n by (simp add: score_signal_def Let_def mask_single subsystems_def)
    then show ?thesis using assms(1) n False fin
      by (simp add: tracker_ok_def score_signal_subsystems algebra_simps)
  qed
qed

lemma score_threshold:
  assumes "tracker_ok e"
  shows "100 \<le> Accumulated_score e \<longleftrightarrow> 2 \<le> card (subsystems e)"
proof -
  have "card (subsystems e) \<le> card {1..6 :: nat}" using assms by (intro card_mono) (auto simp: tracker_ok_def)
  then have c: "card (subsystems e) \<le> 6" by simp
  have s: "Accumulated_score e = word_of_nat (50 * card (subsystems e))" using assms by (simp add: tracker_ok_def)
  have "unat (Accumulated_score e) = 50 * card (subsystems e)"
    unfolding s using c by (subst unat_of_nat) simp
  then show ?thesis by (auto simp: word_le_nat_alt)
qed

lemma C2bt_correlate_event_ok:
  assumes "\<forall>i. tracker_ok (table i)" "C2bt_correlate_event table ev w = (table', out)"
  shows "\<forall>i. tracker_ok (table' i)"
  using assms
  by (auto simp: C2bt_correlate_event_def Let_def window_entry_ok score_signal_ok split: if_splits)

section \<open>The window of a process\<close>

text \<open>
  The tracker of a slot serves an event when it is in use, belongs to the
  process of the event, and the event falls at or after its start and less than
  the window later; 0 asks for the default window of one second.
\<close>

definition in_window :: "process_tracker \<Rightarrow> probe_event_t \<Rightarrow> u64 \<Rightarrow> bool" where
  "in_window trk ev w \<longleftrightarrow> Event_count trk \<noteq> 0 \<and> Trk_pid trk = Pid ev
     \<and> unat (Last_ts_ns trk) \<le> unat (Ts_ns ev)
     \<and> unat (Ts_ns ev) < unat (Last_ts_ns trk) + (if w = 0 then 1000000000 else unat w)"

lemma window_entry_in_window:
  "window_entry trk ev (if w = 0 then 1000000000 else w) =
     (if in_window trk ev w then trk else C2bt_tracker_reset_entry (Pid ev) (Ts_ns ev))"
proof -
  let ?w = "if w = 0 then 1000000000 else w"
  have w: "unat ?w = (if w = 0 then 1000000000 else unat w)" by simp
  have "(Ts_ns ev < Last_ts_ns trk \<or> ?w \<le> Ts_ns ev - Last_ts_ns trk)
      \<longleftrightarrow> \<not> (unat (Last_ts_ns trk) \<le> unat (Ts_ns ev) \<and> unat (Ts_ns ev) < unat (Last_ts_ns trk) + unat ?w)"
  proof (cases "Last_ts_ns trk \<le> Ts_ns ev")
    case True
    then have "unat (Ts_ns ev - Last_ts_ns trk) = unat (Ts_ns ev) - unat (Last_ts_ns trk)" by (rule unat_sub)
    then show ?thesis using True unfolding word_less_nat_alt word_le_nat_alt by linarith
  next
    case False
    then show ?thesis by (simp add: word_less_nat_alt word_le_nat_alt not_le)
  qed
  then show ?thesis unfolding window_entry_def in_window_def w by auto
qed

lemma count_event_exact:
  "unat (Event_count (count_event e ev)) = min 65535 (unat (Event_count e) + 1)"
  "Last_action (count_event e ev) = Action ev" "Trk_reserved (count_event e ev) = Trk_reserved e"
proof -
  have "unat (Event_count e) < 2 ^ LENGTH(16)" by (rule unsigned_less)
  then have lim: "unat (Event_count e) \<le> 65535" by simp
  show "unat (Event_count (count_event e ev)) = min 65535 (unat (Event_count e) + 1)"
  proof (cases "Event_count e < 65535")
    case True
    then have "unat (Event_count e) < 65535" by (simp add: word_less_nat_alt)
    then have "unat (Event_count e + 1) = unat (Event_count e) + 1" by (simp add: unat_word_ariths(1))
    then show ?thesis using True by (simp add: count_event_def Let_def word_less_nat_alt)
  next
    case False
    then show ?thesis using lim by (simp add: count_event_def Let_def word_less_nat_alt)
  qed
qed (simp_all add: count_event_def Let_def)

lemma score_signal_simps:
  "Trk_pid (score_signal e ev) = Trk_pid e" "Last_ts_ns (score_signal e ev) = Last_ts_ns e"
  "Event_count (score_signal e ev) = Event_count e" "Last_action (score_signal e ev) = Last_action e"
  "Trk_reserved (score_signal e ev) = Trk_reserved e"
  by (simp_all add: score_signal_def Let_def)

lemma reset_entry_simps:
  "Trk_pid (C2bt_tracker_reset_entry p t) = p" "Last_ts_ns (C2bt_tracker_reset_entry p t) = t"
  "Event_count (C2bt_tracker_reset_entry p t) = 0" "Trk_reserved (C2bt_tracker_reset_entry p t) = 0"
  by (simp_all add: C2bt_tracker_reset_entry_def zero_tracker_def)

lemma tracker_ok_score:
  assumes "tracker_ok t"
  shows "unat (Accumulated_score t) = 50 * card (subsystems t)" and "card (subsystems t) \<le> 6"
proof -
  have "card (subsystems t) \<le> card {1..6 :: nat}" using assms by (intro card_mono) (auto simp: tracker_ok_def)
  then show c: "card (subsystems t) \<le> 6" by simp
  have s: "Accumulated_score t = word_of_nat (50 * card (subsystems t))" using assms by (simp add: tracker_ok_def)
  show "unat (Accumulated_score t) = 50 * card (subsystems t)" unfolding s using c by (subst unat_of_nat) simp
qed

section \<open>Properties\<close>

text \<open>
  C8.  Correlation, with the table it leaves.  An event of no process changes
  nothing.  Otherwise exactly the slot of the process changes: inside the window
  its tracker keeps its start and the subsystems seen, outside it starts afresh
  at the event; the event is counted (the counter stops at 65535), its action
  recorded, and a hostile signal adds its subsystem.  The correlated-threat flag
  is raised on the event (isolate raised, allow cleared) exactly when it is a
  hostile signal of an identified process and two distinct subsystems or more
  have signalled in the window, this event included; it is cleared in every other
  case, and no other flag changes.  Every tracker keeps a score of 50 per
  signalling subsystem, hence at most 300.
\<close>

theorem correlate_two_subsystems:
  assumes "\<forall>i. tracker_ok (table i)" and "C2bt_correlate_event table ev w = (table', out)"
  shows "let slot = unat (Pid ev) mod 1024; old = table slot; new = table' slot;
       inside = in_window old ev w;
       seen = (if inside then subsystems old else {}) \<union> (if hostile_signal ev then {unat (Subsystem ev)} else {});
       alarm = (Pid ev \<noteq> 0 \<and> hostile_signal ev \<and> 2 \<le> card seen) in
     (\<forall>i. tracker_ok (table' i) \<and> unat (Accumulated_score (table' i)) = 50 * card (subsystems (table' i))
          \<and> unat (Accumulated_score (table' i)) \<le> 300)
     \<and> (bit out 9 \<longleftrightarrow> alarm)
     \<and> out = (if alarm then (Flags ev OR 0x204) AND NOT 1 else Flags ev AND NOT 0x200)
     \<and> (Pid ev = 0 \<longrightarrow> table' = table)
     \<and> (\<forall>i. i \<noteq> slot \<longrightarrow> table' i = table i)
     \<and> (Pid ev \<noteq> 0 \<longrightarrow> Trk_pid new = Pid ev \<and> Last_ts_ns new = (if inside then Last_ts_ns old else Ts_ns ev)
          \<and> subsystems new = seen
          \<and> unat (Event_count new) = min 65535 ((if inside then unat (Event_count old) else 0) + 1)
          \<and> Last_action new = Action ev \<and> Trk_reserved new = (if inside then Trk_reserved old else 0))"
proof -
  let ?slot = "unat (Pid ev AND 1023)"
  let ?in = "in_window (table ?slot) ev w"
  let ?e0 = "if ?in then table ?slot else C2bt_tracker_reset_entry (Pid ev) (Ts_ns ev)"
  let ?e = "count_event ?e0 ev"
  have slot: "unat (Pid ev) mod 1024 = ?slot"
    using unat_and_mask[of "Pid ev" 10] by (simp add: mask_eq_exp_minus_1)
  have nb: "\<not> bit (Flags ev AND NOT 0x200) 9" by (simp add: bit_and_iff bit_not_iff bit_numeral_rec)
  have yb: "bit ((Flags ev OR 0x204) AND NOT 1) 9" by (simp add: bit_and_iff bit_or_iff bit_not_iff bit_numeral_rec bit_1_iff)
  have ok': "\<forall>i. tracker_ok (table' i)" by (rule C2bt_correlate_event_ok[OF assms])
  define inv where "inv \<longleftrightarrow> (\<forall>i. tracker_ok (table' i) \<and> unat (Accumulated_score (table' i)) = 50 * card (subsystems (table' i))
      \<and> unat (Accumulated_score (table' i)) \<le> 300)"
  have sc: inv unfolding inv_def using tracker_ok_score[OF ok'[rule_format]] ok' by fastforce
  have ok: "tracker_ok ?e" using assms(1) by simp
  have r: "(table', out) = (if Pid ev = 0 then (table, Flags ev AND NOT 0x200)
      else if \<not> hostile_signal ev then (table(?slot := ?e), Flags ev AND NOT 0x200)
      else (table(?slot := score_signal ?e ev),
            if 100 \<le> Accumulated_score (score_signal ?e ev) then (Flags ev OR 0x204) AND NOT 1 else Flags ev AND NOT 0x200))"
    using assms(2) unfolding C2bt_correlate_event_def Let_def window_entry_in_window by simp
  have pid: "?in \<Longrightarrow> Trk_pid (table ?slot) = Pid ev" by (simp add: in_window_def)
  consider "Pid ev = 0" | "Pid ev \<noteq> 0" "\<not> hostile_signal ev" | "Pid ev \<noteq> 0" "hostile_signal ev" by blast
  then show ?thesis
  proof cases
    case 1
    then show ?thesis using r sc nb unfolding slot Let_def inv_def[symmetric] by simp
  next
    case 2
    then have e: "table' = table(?slot := ?e)" "out = Flags ev AND NOT 0x200" using r by simp_all
    show ?thesis using 2 sc nb pid unfolding slot Let_def inv_def[symmetric]
      by (simp add: e count_event_exact reset_entry_simps)
  next
    case 3
    have n: "unat (Subsystem ev) < 32" using hostile_subsystem[OF 3(2)] by auto
    have th: "100 \<le> Accumulated_score (score_signal ?e ev) \<longleftrightarrow> 2 \<le> card (insert (unat (Subsystem ev)) (subsystems ?e0))"
      using score_threshold[OF score_signal_ok[OF ok 3(2)]] by (simp add: score_signal_subsystems[OF n])
    from 3 r have e: "table' = table(?slot := score_signal ?e ev)"
      "out = (if 2 \<le> card (insert (unat (Subsystem ev)) (subsystems ?e0)) then (Flags ev OR 0x204) AND NOT 1 else Flags ev AND NOT 0x200)"
      unfolding th by simp_all
    show ?thesis using 3 sc nb yb pid unfolding slot Let_def inv_def[symmetric]
      by (simp add: e score_signal_simps score_signal_subsystems[OF n] count_event_exact reset_entry_simps)
  qed
qed

theorem correlate_two_subsystems_witness:
  "let exec = zero_event\<lparr>Pid := 7, Ts_ns := 100, Subsystem := 1, Action := 1, Flags := 12\<rparr>;
       mcp = zero_event\<lparr>Pid := 7, Ts_ns := 101, Subsystem := 4, Action := 4, Flags := 0x400\<rparr>;
       (t1, f1) = C2bt_correlate_event C2bt_tracker_init exec 0;
       (t2, f2) = C2bt_correlate_event t1 mcp 0
   in \<not> bit f1 9 \<and> bit f2 9 \<and> subsystems (t2 7) = {1, 4} \<and> unat (Event_count (t2 7)) = 2"
proof -
  let ?exec = "zero_event\<lparr>Pid := 7, Ts_ns := 100, Subsystem := 1, Action := 1, Flags := 12\<rparr>"
  let ?mcp = "zero_event\<lparr>Pid := 7, Ts_ns := 101, Subsystem := 4, Action := 4, Flags := 0x400\<rparr>"
  obtain t1 f1 where c1: "C2bt_correlate_event C2bt_tracker_init ?exec 0 = (t1, f1)" by force
  obtain t2 f2 where c2: "C2bt_correlate_event t1 ?mcp 0 = (t2, f2)" by force
  have ok0: "\<forall>i. tracker_ok (C2bt_tracker_init i)" by (simp add: C2bt_tracker_init_def zero_tracker_ok)
  note r1 = correlate_two_subsystems[OF ok0 c1]
  then have ok1: "\<forall>i. tracker_ok (t1 i)" by (auto simp: Let_def)
  note r2 = correlate_two_subsystems[OF ok1 c2]
  have h: "hostile_signal ?exec" "hostile_signal ?mcp" by (simp_all add: hostile_signal_def zero_event_def)
  have p: "unat (Pid ?exec) mod 1024 = 7" "unat (Pid ?mcp) mod 1024 = 7" "Pid ?exec \<noteq> 0" "Pid ?mcp \<noteq> 0"
    "unat (Subsystem ?exec) = 1" "unat (Subsystem ?mcp) = 4" "Pid ?exec = 7" "Ts_ns ?exec = 100" by simp_all
  have w1: "in_window (C2bt_tracker_init 7) ?exec 0 = False"
    by (simp add: in_window_def C2bt_tracker_init_def zero_tracker_def)
  note a1 = r1[unfolded Let_def, THEN conjunct2, unfolded p(1) p(5) w1 if_False]
  note b1 = a1[THEN conjunct2, THEN conjunct2, THEN conjunct2, THEN conjunct2, THEN mp, OF p(3)]
  have s1: "\<not> bit f1 9" using a1[THEN conjunct1] by simp
  have s2: "subsystems (t1 7) = {1}" using b1 h(1) by simp
  have s3: "Trk_pid (t1 7) = 7" "Last_ts_ns (t1 7) = 100" "unat (Event_count (t1 7)) = 1"
    using b1 p(7,8) by simp_all
  then have "Event_count (t1 7) \<noteq> 0" by auto
  with s3 have w2: "in_window (t1 7) ?mcp 0 = True" by (simp add: in_window_def)
  note a2 = r2[unfolded Let_def, THEN conjunct2, unfolded p(2) p(6) w2 if_True s2 s3(3)]
  note b2 = a2[THEN conjunct2, THEN conjunct2, THEN conjunct2, THEN conjunct2, THEN mp, OF p(4)]
  have "bit f2 9" using a2[THEN conjunct1] h(2) by simp
  moreover have "subsystems (t2 7) = {1, 4}" using b2 h(2) by (simp add: insert_commute)
  moreover have "unat (Event_count (t2 7)) = 2" using b2 by simp
  ultimately show ?thesis using s1 by (simp add: Let_def c1 c2)
qed

end
