(* ===== verification/Supervisor.thy ===== *)
theory Supervisor
  imports RingBuffer Rules Correlator "HOL-Library.Multiset"
begin

text \<open>
  The supervisor of \<open>internal/engine/context.go\<close> and its facade \<open>Context\<close> in
  \<open>c2blue55.go\<close>: life cycle, injection of observations into the four channels
  and the polling pass that drains, evaluates and correlates them.
\<close>

record C2bt_config_t =
  Enable_proc :: byte
  Enable_file :: byte
  Enable_net :: byte
  Enable_mcp :: byte
  Enable_entropy :: byte
  Enable_gpu :: byte
  Enforce_mode :: byte
  Fail_safe_policy :: byte
  Mcp_socket_path :: bytes
  Harness_dir :: bytes

record C2bt_ctx_t =
  Config :: C2bt_config_t
  Chan_proc :: probe_channel_t
  Chan_file :: probe_channel_t
  Chan_net :: probe_channel_t
  Chan_mcp :: probe_channel_t
  Tracker_table :: tracker_table
  Running :: int

definition zero_config :: C2bt_config_t where
  "zero_config = \<lparr>Enable_proc = 0, Enable_file = 0, Enable_net = 0, Enable_mcp = 0, Enable_entropy = 0,
     Enable_gpu = 0, Enforce_mode = 0, Fail_safe_policy = 0, Mcp_socket_path = [], Harness_dir = []\<rparr>"

text \<open>\<open>Config\<close> of the facade and its translation by \<open>NewContext\<close>.\<close>

record Config_facade =
  EnableProc :: bool
  EnableFile :: bool
  EnableNet :: bool
  EnableMCP :: bool
  EnableEntropy :: bool
  EnableGPU :: bool
  EnforceMode :: byte
  FailSafePolicy :: byte
  MCPSocketPath :: bytes
  HarnessDir :: bytes

definition zero_channel :: probe_channel_t where
  "zero_channel = \<lparr>Slots = (\<lambda>_. zero_event), Head = 0, Drops = 0, Tail = 0\<rparr>"

definition C2bt_init_inplace :: "C2bt_config_t option \<Rightarrow> C2bt_ctx_t" where
  "C2bt_init_inplace c = \<lparr>Config = (case c of None \<Rightarrow> zero_config | Some x \<Rightarrow> x),
     Chan_proc = zero_channel, Chan_file = zero_channel, Chan_net = zero_channel, Chan_mcp = zero_channel,
     Tracker_table = C2bt_tracker_init, Running = 0\<rparr>"

definition NewContext :: "Config_facade \<Rightarrow> C2bt_ctx_t" where
  "NewContext c = C2bt_init_inplace (Some
     \<lparr>Enable_proc = of_bool (EnableProc c), Enable_file = of_bool (EnableFile c),
      Enable_net = of_bool (EnableNet c), Enable_mcp = of_bool (EnableMCP c),
      Enable_entropy = of_bool (EnableEntropy c), Enable_gpu = of_bool (EnableGPU c),
      Enforce_mode = EnforceMode c, Fail_safe_policy = FailSafePolicy c,
      Mcp_socket_path = MCPSocketPath c, Harness_dir = HarnessDir c\<rparr>)"

definition C2bt_start :: "C2bt_ctx_t \<Rightarrow> int \<times> C2bt_ctx_t" where
  "C2bt_start ctx = (let c = Config ctx in
     if Enable_proc c \<noteq> 0 \<or> Enable_file c \<noteq> 0 \<or> Enable_net c \<noteq> 0 \<or> Enable_mcp c \<noteq> 0 \<or> Enable_entropy c \<noteq> 0
      \<or> Enable_gpu c \<noteq> 0 \<or> Enforce_mode c \<noteq> 0 \<or> Fail_safe_policy c \<noteq> 0
      \<or> length (Mcp_socket_path c) \<noteq> 0 \<or> length (Harness_dir c) \<noteq> 0
     then (-2, ctx) else (0, ctx\<lparr>Running := 1\<rparr>))"

definition C2bt_stop :: "C2bt_ctx_t \<Rightarrow> int \<times> C2bt_ctx_t" where
  "C2bt_stop ctx = (0, ctx\<lparr>Running := 0\<rparr>)"

text \<open>The facade's \<open>Start\<close> and \<open>Stop\<close>; \<open>True\<close> stands for a nil error.\<close>

definition Context_Start :: "C2bt_ctx_t \<Rightarrow> bool \<times> C2bt_ctx_t" where
  "Context_Start ctx = (let (rc, ctx') = C2bt_start ctx in (rc = 0, ctx'))"

definition Context_Stop :: "C2bt_ctx_t \<Rightarrow> bool \<times> C2bt_ctx_t" where
  "Context_Stop ctx = (True, snd (C2bt_stop ctx))"

definition InjectObservation :: "C2bt_ctx_t \<Rightarrow> probe_event_t option \<Rightarrow> int \<times> C2bt_ctx_t" where
  "InjectObservation ctx ev = (case ev of
     None \<Rightarrow> (-1, ctx)
   | Some e \<Rightarrow>
     if Running ctx = 0 \<or> Subsystem e < SubProc \<or> Subsystem e > SubGPU then (-1, ctx)
     else if Subsystem e = SubFile then
       (let (rc, ch) = C2bt_channel_write (Some (Chan_file ctx)) ev in (rc, ctx\<lparr>Chan_file := the ch\<rparr>))
     else if Subsystem e = SubNet then
       (let (rc, ch) = C2bt_channel_write (Some (Chan_net ctx)) ev in (rc, ctx\<lparr>Chan_net := the ch\<rparr>))
     else if Subsystem e = SubMCP then
       (let (rc, ch) = C2bt_channel_write (Some (Chan_mcp ctx)) ev in (rc, ctx\<lparr>Chan_mcp := the ch\<rparr>))
     else
       (let (rc, ch) = C2bt_channel_write (Some (Chan_proc ctx)) ev in (rc, ctx\<lparr>Chan_proc := the ch\<rparr>)))"

section \<open>Polling\<close>

text \<open>
  One pass over the channels: each gives at most one event while there is room.
  The list \<open>got\<close> is the filled part of the output buffer.
\<close>

fun poll_round :: "nat \<Rightarrow> probe_channel_t list \<Rightarrow> probe_event_t list \<Rightarrow> probe_channel_t list \<times> probe_event_t list" where
  "poll_round maxEvents [] got = ([], got)"
| "poll_round maxEvents (ch # chs) got =
     (if length got < maxEvents then
        (case C2bt_channel_read (Some ch) (Some zero_event) of
           (rc, ch', e) \<Rightarrow>
             (let (chs', got') = poll_round maxEvents chs (if rc = 1 then got @ [the e] else got)
              in (the ch' # chs', got')))
      else let (chs', got') = poll_round maxEvents chs got in (ch # chs', got'))"

lemma poll_round_mono: "poll_round m chs got = (chs', got') \<Longrightarrow> length got \<le> length got'"
proof (induction m chs got arbitrary: chs' got' rule: poll_round.induct)
  case (2 m ch chs got)
  then show ?case by (fastforce split: if_splits prod.splits)
qed simp

text \<open>The outer loop ends when the buffer is full or a whole pass gives nothing.\<close>

function poll_loop :: "nat \<Rightarrow> probe_channel_t list \<Rightarrow> probe_event_t list \<Rightarrow> probe_channel_t list \<times> probe_event_t list" where
  "poll_loop maxEvents chs got =
     (if length got < maxEvents then
        (let (chs', got') = poll_round maxEvents chs got in
         if length got' = length got then (chs', got') else poll_loop maxEvents chs' got')
      else (chs, got))"
  by pat_completeness auto

termination
proof (relation "measure (\<lambda>(m, chs, got). m - length got)")
  fix m :: nat and chs :: "probe_channel_t list" and got x chs' got'
  assume l: "length got < m" and x: "x = poll_round m chs got" "(chs', got') = x" and n: "length got' \<noteq> length got"
  from x have "length got \<le> length got'" using poll_round_mono[of m chs got chs' got'] by simp
  with l n show "((m, chs', got'), (m, chs, got)) \<in> measure (\<lambda>(m, chs, got). m - length got)" by simp
qed simp

text \<open>Correlating the polled events one after the other.\<close>

fun correlate_all :: "tracker_table \<Rightarrow> probe_event_t list \<Rightarrow> tracker_table \<times> probe_event_t list" where
  "correlate_all t [] = (t, [])"
| "correlate_all t (ev # evs) =
     (let (t1, flags) = C2bt_correlate_event t ev 1000000000; (t2, evs') = correlate_all t1 evs
      in (t2, ev\<lparr>Flags := flags\<rparr> # evs'))"

definition C2bt_poll_batch :: "C2bt_ctx_t \<Rightarrow> probe_event_t list \<Rightarrow> int \<Rightarrow> int \<times> C2bt_ctx_t \<times> probe_event_t list" where
  "C2bt_poll_batch ctx out maxEvents0 =
     (if Running ctx = 0 then (0, ctx, out)
      else let
        maxEvents = nat (min maxEvents0 (int (length out)));
        (chs, got) = poll_loop maxEvents [Chan_proc ctx, Chan_file ctx, Chan_net ctx, Chan_mcp ctx] [];
        polled = length got;
        out1 = got @ drop polled out;
        (_, out2) = C2bt_eval_rules_batch out1 out1 (int polled);
        (table, evs) = correlate_all (Tracker_table ctx) (take polled out2)
      in (int polled,
          ctx\<lparr>Chan_proc := chs ! 0, Chan_file := chs ! 1, Chan_net := chs ! 2, Chan_mcp := chs ! 3,
              Tracker_table := table\<rparr>,
          evs @ drop polled out2))"

section \<open>What a polling pass takes\<close>

text \<open>Prefixes of the pending queues, taken from each channel.\<close>

definition takes :: "probe_channel_t list \<Rightarrow> probe_channel_t list \<Rightarrow> probe_event_t list list \<Rightarrow> bool" where
  "takes chs chs' ts \<longleftrightarrow> length ts = length chs \<and> length chs' = length chs
     \<and> (\<forall>i < length chs. channel_ok (chs' ! i) \<and> channel_pending (chs ! i) = ts ! i @ channel_pending (chs' ! i))"

lemma takes_refl: "\<forall>c \<in> set chs. channel_ok c \<Longrightarrow> takes chs chs (map (\<lambda>_. []) chs)"
  by (simp add: takes_def)

lemma takes_Cons:
  "takes (c # chs) (c' # chs') (t # ts) \<longleftrightarrow>
     channel_ok c' \<and> channel_pending c = t @ channel_pending c' \<and> takes chs chs' ts"
  by (auto simp: takes_def less_Suc_eq_0_disj)

lemma takes_trans:
  assumes "takes a b ts" "takes b c us"
  shows "takes a c (map2 (@) ts us)"
  using assms by (auto simp: takes_def)

lemma mset_concat_map2:
  "length ts = length us \<Longrightarrow> mset (concat (map2 (@) ts us)) = mset (concat ts) + mset (concat us)"
  by (induction ts us rule: list_induct2) (simp_all add: ac_simps)

lemma channel_read_cases:
  assumes "channel_ok c"
  shows "(channel_pending c = [] \<and> C2bt_channel_read (Some c) (Some e) = (0, Some c, Some e))
    \<or> (\<exists>c' x. C2bt_channel_read (Some c) (Some e) = (1, Some c', Some x) \<and> channel_ok c'
         \<and> channel_pending c = x # channel_pending c')"
proof (cases "Head c \<le> Tail c")
  case True
  then show ?thesis by (simp add: C2bt_channel_read_def channel_pending_def word_le_nat_alt)
next
  case False
  obtain c' x where r: "C2bt_channel_read (Some c) (Some e) = (1, Some c', Some x)"
    and p: "channel_pop c = (c', Some x)"
    using False by (simp add: C2bt_channel_read_def channel_pop_def Let_def)
  have "channel_pending c \<noteq> []"
    using False by (simp add: channel_pending_def word_le_nat_alt window_Cons not_le)
  with channel_pop_law[OF assms p] show ?thesis using r
    by (auto simp: list_pop_def split: list.splits)
qed

lemma poll_round_takes:
  assumes "\<forall>c \<in> set chs. channel_ok c" "poll_round m chs got = (chs', got')" "length got \<le> m"
  shows "\<exists>ts. takes chs chs' ts \<and> got' = got @ concat ts \<and> length got' \<le> m
     \<and> (length got' = length got \<and> length got < m \<longrightarrow> (\<forall>c \<in> set chs. channel_pending c = []))"
  using assms
proof (induction chs arbitrary: chs' got)
  case Nil
  then show ?case by (auto simp: takes_def)
next
  case (Cons ch chs)
  have okc: "channel_ok ch" "\<forall>c \<in> set chs. channel_ok c" using Cons.prems(1) by auto
  show ?case
  proof (cases "length got < m")
    case False
    obtain chs1 where r: "poll_round m chs got = (chs1, got')" "chs' = ch # chs1"
      using Cons.prems(2) False by (auto split: prod.splits)
    from Cons.IH[OF okc(2) r(1) Cons.prems(3)] obtain ts where
      "takes chs chs1 ts" "got' = got @ concat ts" "length got' \<le> m" by blast
    then show ?thesis using r(2) okc(1) False
      by (intro exI[of _ "[] # ts"]) (simp add: takes_Cons)
  next
    case True
    consider (empty) "channel_pending ch = []" "C2bt_channel_read (Some ch) (Some zero_event) = (0, Some ch, Some zero_event)"
      | (one) c' x where "C2bt_channel_read (Some ch) (Some zero_event) = (1, Some c', Some x)" "channel_ok c'"
          "channel_pending ch = x # channel_pending c'"
      using channel_read_cases[OF okc(1), of zero_event] by blast
    then show ?thesis
    proof cases
      case empty
      obtain chs1 where r: "poll_round m chs got = (chs1, got')" "chs' = ch # chs1"
        using Cons.prems(2) True empty(2) by (auto split: prod.splits)
      from Cons.IH[OF okc(2) r(1) Cons.prems(3)]
      obtain ts where "takes chs chs1 ts" "got' = got @ concat ts" "length got' \<le> m"
        "length got' = length got \<and> length got < m \<longrightarrow> (\<forall>c \<in> set chs. channel_pending c = [])" by blast
      then show ?thesis using r(2) okc(1) empty(1)
        by (intro exI[of _ "[] # ts"]) (auto simp: takes_Cons)
    next
      case (one c' x)
      obtain chs1 where r: "poll_round m chs (got @ [x]) = (chs1, got')" "chs' = c' # chs1"
        using Cons.prems(2) True one(1) by (auto split: prod.splits)
      have "length (got @ [x]) \<le> m" using True by simp
      from Cons.IH[OF okc(2) r(1) this]
      obtain ts where "takes chs chs1 ts" "got' = (got @ [x]) @ concat ts" "length got' \<le> m" by blast
      then show ?thesis using r(2) one by (intro exI[of _ "[x] # ts"]) (simp add: takes_Cons)
    qed
  qed
qed

lemma takes_ok: "takes chs chs' ts \<Longrightarrow> \<forall>c \<in> set chs'. channel_ok c"
  by (auto simp: takes_def in_set_conv_nth)

lemma poll_loop_takes:
  assumes "\<forall>c \<in> set chs. channel_ok c" "poll_loop m chs got = (chs', got')" "length got \<le> m"
  shows "\<exists>ts. takes chs chs' ts \<and> mset got' = mset got + mset (concat ts) \<and> length got' \<le> m
     \<and> (length got' < m \<longrightarrow> (\<forall>c \<in> set chs'. channel_pending c = []))"
  using assms
proof (induction m chs got arbitrary: chs' got' rule: poll_loop.induct)
  case (1 m chs got)
  show ?case
  proof (cases "length got < m")
    case False
    then show ?thesis using "1.prems" takes_refl[OF "1.prems"(1)]
      by (auto intro!: exI[of _ "map (\<lambda>_. []) chs"])
  next
    case True
    obtain c1 g1 where r: "poll_round m chs got = (c1, g1)" by force
    from poll_round_takes[OF "1.prems"(1) r "1.prems"(3)] obtain ts where
      t: "takes chs c1 ts" "g1 = got @ concat ts" "length g1 \<le> m"
      "length g1 = length got \<and> length got < m \<longrightarrow> (\<forall>c \<in> set chs. channel_pending c = [])" by blast
    show ?thesis
    proof (cases "length g1 = length got")
      case eq: True
      then have e: "chs' = c1" "got' = g1" using "1.prems"(2) True r by simp_all
      have "\<forall>c \<in> set c1. channel_pending c = []"
        using t(1,4) eq True by (auto simp: takes_def in_set_conv_nth) (metis append_is_Nil_conv nth_mem)
      then show ?thesis using t e by (intro exI[of _ ts]) auto
    next
      case neq: False
      then have "poll_loop m c1 g1 = (chs', got')" using "1.prems"(2) True r by simp
      from "1.IH"[OF True r[symmetric] refl neq takes_ok[OF t(1)] this t(3)] obtain us where
        u: "takes c1 chs' us" "mset got' = mset g1 + mset (concat us)" "length got' \<le> m"
        "length got' < m \<longrightarrow> (\<forall>c \<in> set chs'. channel_pending c = [])" by blast
      have "length ts = length us" using t(1) u(1) by (simp add: takes_def)
      from mset_concat_map2[OF this] takes_trans[OF t(1) u(1)] show ?thesis
        using u t(2) by (intro exI[of _ "map2 (@) ts us"]) (simp add: ac_simps)
    qed
  qed
qed

section \<open>The order of a polling pass\<close>

text \<open>
  The passes visit the four queues in turn, so the events come out round robin:
  the first of each queue, then the second of each, and so on.  That is the list
  of the columns of the queues, which \<open>transpose\<close> computes; here are the facts on
  it that the passes need.
\<close>

definition heads :: "'a list list \<Rightarrow> 'a list" where
  "heads qs = map hd (filter (\<lambda>q. q \<noteq> []) qs)"

lemma heads_simps [simp]:
  "heads [] = []" "heads ([] # qs) = heads qs" "heads ((x # xs) # qs) = x # heads qs"
  by (simp_all add: heads_def)

lemma foldr_max_nonempty:
  "foldr (\<lambda>xs. max (length xs)) (filter (\<lambda>q. q \<noteq> []) qs) 0 = foldr (\<lambda>xs. max (length xs)) qs 0"
  by (induction qs) auto

lemma transpose_nonempty: "transpose (filter (\<lambda>q. q \<noteq> []) qs) = transpose qs"
proof (rule nth_equalityI)
  show l: "length (transpose (filter (\<lambda>q. q \<noteq> []) qs)) = length (transpose qs)"
    by (simp add: length_transpose foldr_max_nonempty)
  fix i assume i: "i < length (transpose (filter (\<lambda>q. q \<noteq> []) qs))"
  have "filter (\<lambda>q. i < length q) (filter (\<lambda>q. q \<noteq> []) qs) = filter (\<lambda>q. i < length q) qs"
    by (induction qs) auto
  then show "transpose (filter (\<lambda>q. q \<noteq> []) qs) ! i = transpose qs ! i"
    using i l by (simp add: nth_transpose)
qed

lemma transpose_heads: "concat (transpose qs) = heads qs @ concat (transpose (map tl qs))"
proof (induction qs rule: transpose.induct)
  case (3 x xs xss)
  have "filter (\<lambda>q. q \<noteq> []) (map tl (filter (\<lambda>q. q \<noteq> []) xss)) = filter (\<lambda>q. q \<noteq> []) (map tl xss)"
    by (induction xss) auto
  then have f: "filter (\<lambda>q. q \<noteq> []) (xs # map tl (filter (\<lambda>q. q \<noteq> []) xss)) = filter (\<lambda>q. q \<noteq> []) (xs # map tl xss)"
    by (simp only: filter.simps)
  have "transpose (xs # map tl (filter (\<lambda>q. q \<noteq> []) xss)) = transpose (xs # map tl xss)"
    using transpose_nonempty[of "xs # map tl (filter (\<lambda>q. q \<noteq> []) xss)"] transpose_nonempty[of "xs # map tl xss"]
    unfolding f by simp
  then show ?case
    by (simp add: transpose_aux_filter_head transpose_aux_filter_tail heads_def)
qed simp_all

lemma transpose_empty_queues: "heads qs = [] \<Longrightarrow> concat (transpose qs) = []"
proof (induction qs)
  case (Cons q qs)
  then show ?case by (cases q) simp_all
qed simp

lemma heads_empty: "heads qs = [] \<longleftrightarrow> (\<forall>q \<in> set qs. q = [])"
  by (auto simp: heads_def filter_empty_conv)

lemma poll_round_order:
  assumes "\<forall>c \<in> set chs. channel_ok c" "poll_round m chs got = (chs', got')" "length got \<le> m"
  shows "got' = got @ take (m - length got) (heads (map channel_pending chs))
     \<and> (length (heads (map channel_pending chs)) \<le> m - length got
          \<longrightarrow> map channel_pending chs' = map tl (map channel_pending chs))"
  using assms
proof (induction chs arbitrary: chs' got)
  case (Cons ch chs)
  have okc: "channel_ok ch" "\<forall>c \<in> set chs. channel_ok c" using Cons.prems(1) by auto
  show ?case
  proof (cases "length got < m")
    case False
    obtain chs1 where r: "poll_round m chs got = (chs1, got')" "chs' = ch # chs1"
      using Cons.prems(2) False by (auto split: prod.splits)
    from Cons.IH[OF okc(2) r(1) Cons.prems(3)] False Cons.prems(3) r(2) show ?thesis
      by (cases "channel_pending ch") auto
  next
    case True
    consider (empty) "channel_pending ch = []" "C2bt_channel_read (Some ch) (Some zero_event) = (0, Some ch, Some zero_event)"
      | (one) c' x where "C2bt_channel_read (Some ch) (Some zero_event) = (1, Some c', Some x)"
          "channel_pending ch = x # channel_pending c'"
      using channel_read_cases[OF okc(1), of zero_event] by blast
    then show ?thesis
    proof cases
      case empty
      obtain chs1 where r: "poll_round m chs got = (chs1, got')" "chs' = ch # chs1"
        using Cons.prems(2) True empty(2) by (auto split: prod.splits)
      from Cons.IH[OF okc(2) r(1) Cons.prems(3)] r(2) empty(1) show ?thesis by simp
    next
      case (one c' x)
      obtain chs1 where r: "poll_round m chs (got @ [x]) = (chs1, got')" "chs' = c' # chs1"
        using Cons.prems(2) True one(1) by (auto split: prod.splits)
      have "length (got @ [x]) \<le> m" using True by simp
      from Cons.IH[OF okc(2) r(1) this] r(2) one(2) True show ?thesis
        by (auto simp: take_Cons' Suc_diff_Suc le_diff_conv)
    qed
  qed
qed simp

lemma poll_loop_order:
  assumes "\<forall>c \<in> set chs. channel_ok c" "poll_loop m chs got = (chs', got')" "length got \<le> m"
  shows "got' = got @ take (m - length got) (concat (transpose (map channel_pending chs)))"
  using assms
proof (induction m chs got arbitrary: chs' got' rule: poll_loop.induct)
  case (1 m chs got)
  let ?qs = "map channel_pending chs"
  show ?case
  proof (cases "length got < m")
    case False
    then show ?thesis using "1.prems" by simp
  next
    case True
    obtain c1 g1 where r: "poll_round m chs got = (c1, g1)" by force
    from poll_round_takes[OF "1.prems"(1) r "1.prems"(3)] obtain ts where t: "takes chs c1 ts" "length g1 \<le> m" by blast
    note o = poll_round_order[OF "1.prems"(1) r "1.prems"(3)]
    show ?thesis
    proof (cases "length g1 = length got")
      case eq: True
      then have "heads ?qs = []" using o True by (auto simp: min_def split: if_splits)
      moreover have "got' = g1" using "1.prems"(2) True r eq by simp
      ultimately show ?thesis using o transpose_empty_queues[of ?qs] by simp
    next
      case neq: False
      then have n: "poll_loop m c1 g1 = (chs', got')" using "1.prems"(2) True r by simp
      from "1.IH"[OF True r[symmetric] refl neq takes_ok[OF t(1)] n t(2)]
      have g: "got' = g1 @ take (m - length g1) (concat (transpose (map channel_pending c1)))" .
      show ?thesis
      proof (cases "length (heads ?qs) \<le> m - length got")
        case True
        then have "g1 = got @ heads ?qs" "map channel_pending c1 = map tl ?qs" using o by simp_all
        then show ?thesis using g True transpose_heads[of ?qs] by (simp add: diff_diff_eq)
      next
        case False
        then have "length g1 = m" using o "1.prems"(3) by auto
        then show ?thesis using g o False transpose_heads[of ?qs] by simp
      qed
    qed
  qed
qed

section \<open>Evaluation and correlation of what was taken\<close>

text \<open>The event as it was injected, its flags aside.\<close>

definition strip :: "probe_event_t \<Rightarrow> probe_event_t" where
  "strip ev = ev\<lparr>Flags := 0\<rparr>"

definition verdict_settled :: "u32 \<Rightarrow> bool" where
  "verdict_settled f \<longleftrightarrow> (bit f 0 \<longleftrightarrow> f AND 6 = 0)"

lemma correlate_flags:
  assumes "verdict_settled (Flags ev)" "C2bt_correlate_event t ev w = (t', f)"
  shows "verdict_settled f"
proof -
  have "f = Flags ev AND NOT 0x200 \<or> f = (Flags ev OR 0x204) AND NOT 1"
    using assms(2) by (auto simp: C2bt_correlate_event_def Let_def split: if_splits)
  then show ?thesis
  proof
    assume f: "f = Flags ev AND NOT 0x200"
    have "bit f n = bit (Flags ev) n" if "n \<in> {0, 1, 2}" for n
      using that by (auto simp: f bit_and_iff bit_not_iff bit_numeral_rec)
    then show ?thesis using assms(1) by (simp add: verdict_settled_def six_bits)
  next
    assume f: "f = (Flags ev OR 0x204) AND NOT 1"
    have "\<not> bit f 0" "bit f 2" by (simp_all add: f bit_and_iff bit_or_iff bit_not_iff bit_numeral_rec bit_1_iff)
    then show ?thesis by (simp add: verdict_settled_def six_bits)
  qed
qed

lemma correlate_all_props:
  assumes "correlate_all t evs = (t', evs')" "\<forall>ev \<in> set evs. verdict_settled (Flags ev)" "\<forall>i. tracker_ok (t i)"
  shows "map strip evs' = map strip evs \<and> (\<forall>ev \<in> set evs'. verdict_settled (Flags ev)) \<and> (\<forall>i. tracker_ok (t' i))"
  using assms
proof (induction evs arbitrary: t evs')
  case (Cons ev evs)
  obtain t1 f where c: "C2bt_correlate_event t ev 1000000000 = (t1, f)" by force
  obtain evs1 where r: "correlate_all t1 evs = (t', evs1)" "evs' = ev\<lparr>Flags := f\<rparr> # evs1"
    using Cons.prems(1) by (auto simp: c split: prod.splits)
  have "\<forall>i. tracker_ok (t1 i)" using C2bt_correlate_event_ok[OF Cons.prems(3) c] .
  from Cons.IH[OF r(1) _ this] Cons.prems(2) correlate_flags[OF _ c] show ?case
    by (auto simp: r(2) strip_def)
qed simp

text \<open>
  The tracker table after a sequence of events, and what an event becomes there:
  its flags are those correlation writes.
\<close>

definition table_after :: "tracker_table \<Rightarrow> probe_event_t list \<Rightarrow> tracker_table" where
  "table_after t evs = foldl (\<lambda>t ev. fst (C2bt_correlate_event t ev 1000000000)) t evs"

lemma correlate_all_exact:
  assumes "correlate_all t evs = (t', evs')"
  shows "t' = table_after t evs \<and> length evs' = length evs
     \<and> (\<forall>i < length evs. evs' ! i =
          (evs ! i)\<lparr>Flags := snd (C2bt_correlate_event (table_after t (take i evs)) (evs ! i) 1000000000)\<rparr>)"
  using assms
proof (induction evs arbitrary: t evs')
  case (Cons ev evs)
  obtain t1 f where c: "C2bt_correlate_event t ev 1000000000 = (t1, f)" by force
  obtain evs1 where r: "correlate_all t1 evs = (t', evs1)" "evs' = ev\<lparr>Flags := f\<rparr> # evs1"
    using Cons.prems(1) by (auto simp: c split: prod.splits)
  from Cons.IH[OF r(1)] show ?case
    by (auto simp: r(2) table_after_def c nth_Cons split: nat.splits)
qed (simp add: table_after_def)

definition supervisor_ok :: "C2bt_ctx_t \<Rightarrow> bool" where
  "supervisor_ok ctx \<longleftrightarrow> channel_ok (Chan_proc ctx) \<and> channel_ok (Chan_file ctx) \<and> channel_ok (Chan_net ctx)
     \<and> channel_ok (Chan_mcp ctx) \<and> (\<forall>i. tracker_ok (Tracker_table ctx i))"

lemma init_ok: "supervisor_ok (C2bt_init_inplace c)"
  by (simp add: supervisor_ok_def C2bt_init_inplace_def zero_channel_def channel_ok_def C2bt_tracker_init_def zero_tracker_ok)

lemma takes_4:
  assumes "takes [a, b, c, d] chs' ts"
  obtains a' b' c' d' t1 t2 t3 t4 where "chs' = [a', b', c', d']" "ts = [t1, t2, t3, t4]"
    "channel_pending a = t1 @ channel_pending a'" "channel_pending b = t2 @ channel_pending b'"
    "channel_pending c = t3 @ channel_pending c'" "channel_pending d = t4 @ channel_pending d'"
    "channel_ok a'" "channel_ok b'" "channel_ok c'" "channel_ok d'"
proof -
  have l: "length ts = Suc (Suc (Suc (Suc 0)))" "length chs' = Suc (Suc (Suc (Suc 0)))"
    using assms by (simp_all add: takes_def)
  then obtain a' b' c' d' t1 t2 t3 t4 where e: "chs' = [a', b', c', d']" "ts = [t1, t2, t3, t4]"
    by (auto simp: length_Suc_conv)
  show ?thesis by (rule that[OF e]) (use assms e in \<open>auto simp: takes_Cons\<close>)
qed

text \<open>The channel an observation is queued on.\<close>

definition injection_channel :: "u16 \<Rightarrow> C2bt_ctx_t \<Rightarrow> probe_channel_t" where
  "injection_channel sub ctx = (if sub = SubFile then Chan_file ctx else if sub = SubNet then Chan_net ctx
     else if sub = SubMCP then Chan_mcp ctx else Chan_proc ctx)"

lemma channel_write_push:
  "C2bt_channel_write (Some c) (Some e) = (rc, ch) \<Longrightarrow>
     ch \<noteq> None \<and> channel_push c e = (the ch, rc = 0) \<and> rc \<in> {0, -2}"
  by (auto simp: channel_push_def C2bt_channel_write_def Let_def split: if_splits)

lemma channel_push_result:
  assumes "channel_ok c" "0 < channel_room c" "channel_push c e = (c', b)"
  shows "channel_ok c' \<and> (b \<longrightarrow> channel_pending c' = channel_pending c @ [e])
     \<and> (\<not> b \<longrightarrow> channel_pending c' = channel_pending c \<and> length (channel_pending c) = 1024)"
  using chan.push_cases[OF assms] chan.bound[OF assms(1)] by (auto simp: list_push_def split: if_splits)

section \<open>Properties\<close>

text \<open>
  Start succeeds exactly for the all-default configuration: every probe,
  enforcement, fail-close or path setting is refused and leaves the context as
  it was.
\<close>

lemma start_refuses_unsupported:
  "C2bt_start ctx = (if Config ctx = zero_config then (0, ctx\<lparr>Running := 1\<rparr>) else (-2, ctx))"
  by (cases "Config ctx") (auto simp: C2bt_start_def zero_config_def Let_def)

text \<open>
  C9.  A polling pass on a running context.  The events taken are the first ones,
  up to the requested number and the size of the buffer, of the four queues read
  round robin (process, file, network, MCP: the first of each, then the second of
  each, and so on), each queue losing exactly the front taken from it; events stay
  behind only when the buffer is full.  Each taken event is delivered once, in that
  order: evaluated by the rules, then correlated on the tracker table its
  predecessors of the pass left, which gives its flags (fields other than the
  flags are unchanged, the verdict is settled).  The table left behind is the one
  after all of them, and the rest of the buffer is untouched.
\<close>

theorem poll_batch_exact:
  assumes "supervisor_ok ctx" and "Running ctx \<noteq> 0" and "C2bt_poll_batch ctx out m = (n, ctx', out')"
  shows "let queues = map channel_pending [Chan_proc ctx, Chan_file ctx, Chan_net ctx, Chan_mcp ctx];
       got = take (nat (min m (int (length out)))) (concat (transpose queues));
       evaluated = map eval_rules_event got;
       table = (\<lambda>i. foldl (\<lambda>t ev. fst (C2bt_correlate_event t ev 1000000000)) (Tracker_table ctx) (take i evaluated)) in
     supervisor_ok ctx' \<and> length out' = length out \<and> n = int (length got)
     \<and> (\<forall>i < length got. out' ! i =
          (evaluated ! i)\<lparr>Flags := snd (C2bt_correlate_event (table i) (evaluated ! i) 1000000000)\<rparr>
        \<and> strip (out' ! i) = strip (got ! i) \<and> verdict_settled (Flags (out' ! i)))
     \<and> drop (length got) out' = drop (length got) out
     \<and> Tracker_table ctx' = table (length got) \<and> Running ctx' = Running ctx \<and> Config ctx' = Config ctx
     \<and> (\<exists>t1 t2 t3 t4. channel_pending (Chan_proc ctx) = t1 @ channel_pending (Chan_proc ctx')
          \<and> channel_pending (Chan_file ctx) = t2 @ channel_pending (Chan_file ctx')
          \<and> channel_pending (Chan_net ctx) = t3 @ channel_pending (Chan_net ctx')
          \<and> channel_pending (Chan_mcp ctx) = t4 @ channel_pending (Chan_mcp ctx')
          \<and> mset got = mset (t1 @ t2 @ t3 @ t4))
     \<and> (n < min m (int (length out)) \<longrightarrow> channel_pending (Chan_proc ctx') = [] \<and> channel_pending (Chan_file ctx') = []
          \<and> channel_pending (Chan_net ctx') = [] \<and> channel_pending (Chan_mcp ctx') = [])"
proof -
  let ?max = "nat (min m (int (length out)))"
  let ?chs = "[Chan_proc ctx, Chan_file ctx, Chan_net ctx, Chan_mcp ctx]"
  obtain chs got where pl: "poll_loop ?max ?chs [] = (chs, got)" by force
  have cok: "\<forall>c \<in> set ?chs. channel_ok c" using assms(1) by (simp add: supervisor_ok_def)
  from poll_loop_takes[OF cok pl] obtain ts where ts: "takes ?chs chs ts" "mset got = mset (concat ts)"
    "length got \<le> ?max" "length got < ?max \<longrightarrow> (\<forall>c \<in> set chs. channel_pending c = [])" by auto
  have got: "take ?max (concat (transpose (map channel_pending ?chs))) = got"
    using poll_loop_order[OF cok pl] by simp
  have lg: "length got \<le> length out" using ts(3) by linarith
  let ?out1 = "got @ drop (length got) out"
  obtain k out2 where ev: "C2bt_eval_rules_batch ?out1 ?out1 (int (length got)) = (k, out2)" by force
  have o2: "take (length got) out2 = map eval_rules_event got" "length out2 = length out"
    "drop (length got) out2 = drop (length got) out"
    using ev lg by (auto simp: C2bt_eval_rules_batch_def Let_def split: if_splits)
  obtain tab evs where co: "correlate_all (Tracker_table ctx) (map eval_rules_event got) = (tab, evs)" by force
  have "\<forall>ev \<in> set (map eval_rules_event got). verdict_settled (Flags ev)"
    by (auto simp: verdict_settled_def eval_rules_event_def settle_verdict_exclusive)
  from correlate_all_props[OF co this] assms(1)
  have evs: "map strip evs = map strip (map eval_rules_event got)" "\<forall>ev \<in> set evs. verdict_settled (Flags ev)"
    "\<forall>i. tracker_ok (tab i)" by (auto simp: supervisor_ok_def)
  then have st: "map strip evs = map strip got" by (simp add: strip_def eval_rules_event_def comp_def)
  then have le: "length evs = length got" by (metis length_map)
  note x = correlate_all_exact[OF co, unfolded table_after_def length_map]
  have r: "n = int (length got)" "out' = evs @ drop (length got) out"
    "ctx' = ctx\<lparr>Chan_proc := chs ! 0, Chan_file := chs ! 1, Chan_net := chs ! 2, Chan_mcp := chs ! 3, Tracker_table := tab\<rparr>"
    using assms(2,3) by (auto simp: C2bt_poll_batch_def Let_def pl ev co o2 simp del: poll_loop.simps)
  have each: "out' ! i = evs ! i \<and> strip (out' ! i) = strip (got ! i) \<and> verdict_settled (Flags (out' ! i))"
    if "i < length got" for i
    using that evs(2) le st by (simp add: r(2) nth_append) (metis nth_map)
  let ?table = "\<lambda>i. foldl (\<lambda>t ev. fst (C2bt_correlate_event t ev 1000000000)) (Tracker_table ctx)
      (take i (map eval_rules_event got))"
  have all: "\<forall>i < length got. out' ! i = (map eval_rules_event got ! i)
          \<lparr>Flags := snd (C2bt_correlate_event (?table i) (map eval_rules_event got ! i) 1000000000)\<rparr>
        \<and> strip (out' ! i) = strip (got ! i) \<and> verdict_settled (Flags (out' ! i))"
    using each x by (metis (no_types, lifting))
  have tabs: "Tracker_table ctx' = ?table (length got)" "Running ctx' = Running ctx" "Config ctx' = Config ctx"
    using x by (simp_all add: r(3))
  from ts(1) show ?thesis
  proof (rule takes_4)
    fix a b c d t1 t2 t3 t4
    assume e: "chs = [a, b, c, d]" "ts = [t1, t2, t3, t4]"
      and p: "channel_pending (Chan_proc ctx) = t1 @ channel_pending a" "channel_pending (Chan_file ctx) = t2 @ channel_pending b"
      "channel_pending (Chan_net ctx) = t3 @ channel_pending c" "channel_pending (Chan_mcp ctx) = t4 @ channel_pending d"
      and k: "channel_ok a" "channel_ok b" "channel_ok c" "channel_ok d"
    have ms: "mset got = mset (t1 @ t2 @ t3 @ t4)" using ts(2) e(2) by simp
    have "supervisor_ok ctx'" using k evs(3) by (simp add: r(3) e supervisor_ok_def)
    moreover have "length out' = length out" using le lg by (simp add: r(2))
    moreover have ch: "Chan_proc ctx' = a" "Chan_file ctx' = b" "Chan_net ctx' = c" "Chan_mcp ctx' = d"
      by (simp_all add: r(3) e(1))
    moreover have "n < min m (int (length out)) \<longrightarrow> channel_pending a = [] \<and> channel_pending b = []
        \<and> channel_pending c = [] \<and> channel_pending d = []"
      using ts(4) e(1) by (auto simp: r(1))
    moreover have "drop (length got) out' = drop (length got) out" using le by (simp add: r(2))
    ultimately show ?thesis using all tabs ms p r(1) unfolding Let_def got ch by blast
  qed
qed

theorem poll_batch_exact_witness:
  "let ctx = (C2bt_init_inplace None)\<lparr>Running := 1,
         Chan_net := zero_channel\<lparr>Slots := (\<lambda>_. zero_event\<lparr>Pid := 7\<rparr>), Head := 1\<rparr>\<rparr>;
       (n, ctx', out') = C2bt_poll_batch ctx [zero_event] 1
   in n = 1 \<and> Pid (out' ! 0) = 7 \<and> Trk_pid (Tracker_table ctx' 7) = 7"
proof -
  let ?ctx = "(C2bt_init_inplace None)\<lparr>Running := 1,
         Chan_net := zero_channel\<lparr>Slots := (\<lambda>_. zero_event\<lparr>Pid := 7\<rparr>), Head := 1\<rparr>\<rparr>"
  obtain n ctx' out' where r: "C2bt_poll_batch ?ctx [zero_event] 1 = (n, ctx', out')" by (metis surj_pair)
  have ok: "supervisor_ok ?ctx"
    using init_ok[of None] by (simp add: supervisor_ok_def zero_channel_def channel_ok_def)
  have q: "map channel_pending [Chan_proc ?ctx, Chan_file ?ctx, Chan_net ?ctx, Chan_mcp ?ctx]
      = [[], [], [zero_event\<lparr>Pid := 7\<rparr>], []]"
    by (simp add: C2bt_init_inplace_def zero_channel_def channel_pending_def window_def)
  note x = poll_batch_exact[OF ok _ r, unfolded q Let_def]
  let ?e = "eval_rules_event (zero_event\<lparr>Pid := 7\<rparr>)"
  obtain t f where c: "C2bt_correlate_event C2bt_tracker_init ?e 1000000000 = (t, f)" by force
  have pid: "Pid ?e = 7" by (simp add: eval_rules_event_def)
  have tab: "Tracker_table ?ctx = C2bt_tracker_init" by (simp add: C2bt_init_inplace_def)
  have "n = 1" "Pid (out' ! 0) = 7" "Tracker_table ctx' = t"
    using x by (simp_all add: tab c pid)
  moreover have "Trk_pid (t 7) = 7"
    using c pid by (auto simp: C2bt_correlate_event_def Let_def score_signal_simps window_entry_def
        reset_entry_simps split: if_splits)
  ultimately show ?thesis by (simp add: Let_def r)
qed

text \<open>An observation is queued, on the channel of its subsystem and at its end,
  exactly when the context runs, the subsystem is one of the seven known ones
  and the channel is not full; otherwise nothing is queued and the code tells
  the two refusals apart.
\<close>

lemma inject_observation_exact:
  assumes "supervisor_ok ctx" and "0 < channel_room (injection_channel (Subsystem e) ctx)"
    and "InjectObservation ctx (Some e) = (rc, ctx')"
  shows "supervisor_ok ctx' \<and> rc \<in> {0, -1, -2}
     \<and> (rc = -1 \<longleftrightarrow> Running ctx = 0 \<or> Subsystem e \<notin> {1..7}) \<and> (rc = -1 \<longrightarrow> ctx' = ctx)
     \<and> (rc = 0 \<longrightarrow> channel_pending (injection_channel (Subsystem e) ctx')
           = channel_pending (injection_channel (Subsystem e) ctx) @ [e])
     \<and> (rc = -2 \<longrightarrow> length (channel_pending (injection_channel (Subsystem e) ctx)) = 1024
           \<and> channel_pending (injection_channel (Subsystem e) ctx') = channel_pending (injection_channel (Subsystem e) ctx))
     \<and> (\<forall>sub. injection_channel sub ctx' = injection_channel sub ctx
           \<or> injection_channel sub ctx = injection_channel (Subsystem e) ctx)"
proof (cases "Running ctx = 0 \<or> Subsystem e < 1 \<or> Subsystem e > 7")
  case True
  then show ?thesis using assms(1,3) by (auto simp: InjectObservation_def)
next
  case False
  let ?c = "injection_channel (Subsystem e) ctx"
  obtain ch where w: "C2bt_channel_write (Some ?c) (Some e) = (rc, Some ch)"
    and ctx': "ctx' = (if Subsystem e = SubFile then ctx\<lparr>Chan_file := ch\<rparr> else if Subsystem e = SubNet then ctx\<lparr>Chan_net := ch\<rparr>
      else if Subsystem e = SubMCP then ctx\<lparr>Chan_mcp := ch\<rparr> else ctx\<lparr>Chan_proc := ch\<rparr>)"
    using False assms(3) channel_write_push
    by (fastforce simp: InjectObservation_def injection_channel_def split: if_splits prod.splits)
  have rng: "Subsystem e \<in> {1..7}" using False unfolding atLeastAtMost_iff by (metis not_less)
  have ok: "channel_ok ?c" using assms(1) by (simp add: supervisor_ok_def injection_channel_def)
  from channel_write_push[OF w] have p: "channel_push ?c e = (ch, rc = 0)" "rc \<in> {0, -2}" by auto
  note res = channel_push_result[OF ok assms(2) p(1)]
  have new: "injection_channel (Subsystem e) ctx' = ch" by (simp add: ctx' injection_channel_def)
  have "supervisor_ok ctx'" using assms(1) res by (simp add: ctx' supervisor_ok_def)
  moreover have "\<forall>sub. injection_channel sub ctx' = injection_channel sub ctx
           \<or> injection_channel sub ctx = injection_channel (Subsystem e) ctx"
    by (simp add: ctx' injection_channel_def)
  moreover have "rc \<noteq> -1" "Running ctx \<noteq> 0" using p(2) False by auto
  ultimately show ?thesis using res p(2) rng unfolding new
    by (elim insertE emptyE) (simp_all del: atLeastAtMost_iff)
qed

end
