(* ===== verification/DnsGrammar.thy ===== *)
theory DnsGrammar
  imports Prelude
begin

text \<open>
  Character classes of DNS labels (\<open>dns.go\<close>) and the grammar profile of a
  query name (\<open>dns_grammar.go\<close>).  UTF-8 validity is the one of package
  \<open>unicode/utf8\<close>: shortest form, no surrogates, at most U+10FFFF.
\<close>

section \<open>Character classes\<close>

definition lower :: "byte \<Rightarrow> byte" where
  "lower b = (if 0x41 \<le> b \<and> b \<le> 0x5A then b + 32 else b)"

definition dnsLabelByte :: "byte \<Rightarrow> bool" where
  "dnsLabelByte b \<longleftrightarrow> (0x61 \<le> b \<and> b \<le> 0x7A) \<or> (0x30 \<le> b \<and> b \<le> 0x39) \<or> b = 0x2D \<or> b = 0x5F"

definition isDNSEncodingByte :: "byte \<Rightarrow> bool" where
  "isDNSEncodingByte b \<longleftrightarrow> b = 0x2B \<or> b = 0x2F \<or> b = 0x3D"

section \<open>UTF-8\<close>

definition utf8_cont :: "byte \<Rightarrow> bool" where
  "utf8_cont b \<longleftrightarrow> 0x80 \<le> b \<and> b \<le> 0xBF"

fun utf8_valid :: "bytes \<Rightarrow> bool" where
  "utf8_valid [] = True"
| "utf8_valid (a # bs) =
     (if a < 0x80 then utf8_valid bs
      else if 0xC2 \<le> a \<and> a \<le> 0xDF then
        (case bs of b # r \<Rightarrow> utf8_cont b \<and> utf8_valid r | _ \<Rightarrow> False)
      else if 0xE0 \<le> a \<and> a \<le> 0xEF then
        (case bs of b # c # r \<Rightarrow>
           (if a = 0xE0 then 0xA0 \<le> b \<and> b \<le> 0xBF else if a = 0xED then 0x80 \<le> b \<and> b \<le> 0x9F else utf8_cont b)
           \<and> utf8_cont c \<and> utf8_valid r
         | _ \<Rightarrow> False)
      else if 0xF0 \<le> a \<and> a \<le> 0xF4 then
        (case bs of b # c # d # r \<Rightarrow>
           (if a = 0xF0 then 0x90 \<le> b \<and> b \<le> 0xBF else if a = 0xF4 then 0x80 \<le> b \<and> b \<le> 0x8F else utf8_cont b)
           \<and> utf8_cont c \<and> utf8_cont d \<and> utf8_valid r
         | _ \<Rightarrow> False)
      else False)"

section \<open>The profile\<close>

datatype QNameGrammar =
    QNameGrammarLDH
  | QNameGrammarDNSSDInstance
  | QNameGrammarUTF8Local
  | QNameGrammarASCIIOutsideLDH
  | QNameGrammarBinary

primrec QNameGrammar_String :: "QNameGrammar \<Rightarrow> string" where
  "QNameGrammar_String QNameGrammarLDH = ''LDH''"
| "QNameGrammar_String QNameGrammarDNSSDInstance = ''DNSSD_INSTANCE''"
| "QNameGrammar_String QNameGrammarUTF8Local = ''UTF8_LOCAL''"
| "QNameGrammar_String QNameGrammarASCIIOutsideLDH = ''ASCII_HORS_LDH''"
| "QNameGrammar_String QNameGrammarBinary = ''BINAIRE''"

record QNameGrammarProfile =
  Classe :: QNameGrammar
  OctetsHorsLDH :: byte
  OctetsHautBit :: byte
  OctetsControle :: byte
  PointsInternes :: byte
  LabelsHorsLDH :: byte
  PremierLabelHorsLDH :: bool
  SecondLabelService :: bool
  TroisiemeLabelTransport :: bool
  UTF8Invalide :: bool

definition zero_profile :: QNameGrammarProfile where
  "zero_profile = \<lparr>Classe = QNameGrammarLDH, OctetsHorsLDH = 0, OctetsHautBit = 0, OctetsControle = 0,
     PointsInternes = 0, LabelsHorsLDH = 0, PremierLabelHorsLDH = False, SecondLabelService = False,
     TroisiemeLabelTransport = False, UTF8Invalide = False\<rparr>"

definition outside_ldh :: "byte \<Rightarrow> bool" where
  "outside_ldh octet \<longleftrightarrow> \<not> (dnsLabelByte (lower octet) \<or> isDNSEncodingByte (lower octet))"

text \<open>The loop over the bytes of a label: the profile, the bytes outside LDH, high-bit seen.\<close>

definition observe_octet :: "QNameGrammarProfile \<times> nat \<times> bool \<Rightarrow> byte \<Rightarrow> QNameGrammarProfile \<times> nat \<times> bool" where
  "observe_octet st octet = (case st of (p, n, hi) \<Rightarrow>
     if \<not> outside_ldh octet then (p, n, hi)
     else if 0x80 \<le> octet then (p\<lparr>OctetsHautBit := OctetsHautBit p + 1\<rparr>, Suc n, True)
     else if octet < 0x20 \<or> octet = 0x7f then (p\<lparr>OctetsControle := OctetsControle p + 1\<rparr>, Suc n, hi)
     else if octet = 0x2E then (p\<lparr>PointsInternes := PointsInternes p + 1\<rparr>, Suc n, hi)
     else (p, Suc n, hi))"

definition labelEgalInsensible :: "bytes \<Rightarrow> bytes \<Rightarrow> bool" where
  "labelEgalInsensible labelBrut attendu \<longleftrightarrow>
     length labelBrut = length attendu \<and> list_all2 (\<lambda>o1 a. lower o1 = a) labelBrut attendu"

definition observerLabelGrammaire :: "QNameGrammarProfile \<Rightarrow> bytes \<Rightarrow> nat \<Rightarrow> QNameGrammarProfile" where
  "observerLabelGrammaire profil labelBrut indiceLabel =
     (case foldl observe_octet (profil, 0, False) labelBrut of (p, n, hautBitPresent) \<Rightarrow>
      let p1 = (if 0 < n
                then p\<lparr>OctetsHorsLDH := OctetsHorsLDH p + word_of_nat n, LabelsHorsLDH := LabelsHorsLDH p + 1,
                       PremierLabelHorsLDH := (indiceLabel = 0 \<or> PremierLabelHorsLDH p),
                       UTF8Invalide := ((hautBitPresent \<and> \<not> utf8_valid labelBrut) \<or> UTF8Invalide p)\<rparr>
                else p)
      in if indiceLabel = 1
         then p1\<lparr>SecondLabelService := (n = 0 \<and> 2 \<le> length labelBrut \<and> labelBrut ! 0 = 0x5F)\<rparr>
         else if indiceLabel = 2
         then p1\<lparr>TroisiemeLabelTransport := (labelEgalInsensible labelBrut (ascii ''_tcp'')
                   \<or> labelEgalInsensible labelBrut (ascii ''_udp''))\<rparr>
         else p1)"

definition finaliserGrammaire :: "QNameGrammarProfile \<Rightarrow> QNameGrammarProfile" where
  "finaliserGrammaire p = p\<lparr>Classe :=
     (if OctetsHorsLDH p = 0 then QNameGrammarLDH
      else if LabelsHorsLDH p = 1 \<and> PremierLabelHorsLDH p \<and> SecondLabelService p
            \<and> TroisiemeLabelTransport p \<and> OctetsControle p = 0 \<and> \<not> UTF8Invalide p then QNameGrammarDNSSDInstance
      else if 0 < OctetsControle p \<or> UTF8Invalide p \<or> 0 < PointsInternes p then QNameGrammarBinary
      else if 0 < OctetsHautBit p then QNameGrammarUTF8Local
      else QNameGrammarASCIIOutsideLDH)\<rparr>"

text \<open>The profile of an uncompressed wire name; \<open>None\<close> is the failure result.\<close>

function profile_wire_loop :: "bytes \<Rightarrow> nat \<Rightarrow> nat \<Rightarrow> QNameGrammarProfile \<Rightarrow> QNameGrammarProfile option" where
  "profile_wire_loop nom position indice profil =
     (if position < length nom then
        (let longueurLabel = unat (nom ! position) in
         if longueurLabel = 0 then Some (finaliserGrammaire profil)
         else if 63 < longueurLabel \<or> length nom < position + 1 + longueurLabel then None
         else profile_wire_loop nom (position + 1 + longueurLabel) (Suc indice)
                (observerLabelGrammaire profil (subslice (position + 1) (position + 1 + longueurLabel) nom) indice))
      else None)"
  by pat_completeness auto

termination
  by (relation "measure (\<lambda>(nom, position, _, _). length nom - position)") auto

definition ProfileWireQName :: "bytes \<Rightarrow> QNameGrammarProfile option" where
  "ProfileWireQName nomFilaire = profile_wire_loop nomFilaire 0 0 zero_profile"

section \<open>Lemmas\<close>

lemma lower_idem [simp]: "lower (lower b) = lower b"
proof -
  have "\<not> (0x41 \<le> b + 32 \<and> b + 32 \<le> 0x5A)" if "0x41 \<le> b" "b \<le> 0x5A"
  proof -
    have "unat (b + 32) = unat b + 32"
      using that by (subst unat_plus_simple[THEN iffD1]) (auto simp: word_le_nat_alt unat_word_ariths)
    then show ?thesis using that by (simp add: word_le_nat_alt)
  qed
  then show ?thesis by (auto simp: lower_def)
qed

end
