(* ===== verification/DnsWire.thy ===== *)
theory DnsWire
  imports DnsGrammar
begin

text \<open>
  The question decoders of \<open>dns.go\<close>: \<open>ParseDNSName\<close> for textual names and
  \<open>ParseDNSQuery\<close> (strict or tolerant) for wire packets.  Every slice access and
  every store into a fixed array is checked: out of bounds is \<open>Panic\<close>, and the
  lemmas of this theory show that it does not happen.
\<close>

datatype dns_error =
    ErrPacketTooShort
  | ErrInvalidLabel
  | ErrLoopPointer
  | ErrNameTooLong
  | ErrQuestionContract
  | ErrTooManyRRs
  | ErrRDataTooLong

abbreviation maxDNSLabels :: nat where "maxDNSLabels \<equiv> 128"

record DNSEvent =
  Timestamp :: u64
  ID :: u16
  EvFlags :: u16
  QType :: u16
  QClass :: u16
  NameLen :: byte
  Name :: bytes
  SubdomainLen :: byte
  Subdomain :: bytes
  ParentDomainLen :: byte
  ParentDomain :: bytes
  SLDLen :: byte
  SLD :: bytes
  TLDLen :: byte
  TLD :: bytes
  LabelCount :: byte
  MaxLabelLen :: byte
  HasEncoding :: bool
  ClientIP :: bytes
  Grammar :: QNameGrammarProfile

text \<open>\<open>DNSEvent{Timestamp: stamp, ClientIP: client}\<close>.\<close>

definition fresh_event :: "u64 \<Rightarrow> bytes \<Rightarrow> DNSEvent" where
  "fresh_event stamp client = \<lparr>Timestamp = stamp, ID = 0, EvFlags = 0, QType = 0, QClass = 0, NameLen = 0,
     Name = replicate 256 0, SubdomainLen = 0, Subdomain = replicate 256 0, ParentDomainLen = 0,
     ParentDomain = replicate 128 0, SLDLen = 0, SLD = replicate 64 0, TLDLen = 0, TLD = replicate 64 0,
     LabelCount = 0, MaxLabelLen = 0, HasEncoding = False, ClientIP = client, Grammar = zero_profile\<rparr>"

text \<open>The array sizes of the struct.\<close>

definition event_shape :: "DNSEvent \<Rightarrow> bool" where
  "event_shape ev \<longleftrightarrow> length (Name ev) = 256 \<and> length (Subdomain ev) = 256 \<and> length (ParentDomain ev) = 128
     \<and> length (SLD ev) = 64 \<and> length (TLD ev) = 64"

text \<open>\<open>copy(dst[:], src)\<close>.\<close>

definition copy_into :: "'a list \<Rightarrow> 'a list \<Rightarrow> 'a list" where
  "copy_into dst src = take (length dst) src @ drop (length src) dst"

lemma length_copy_into [simp]: "length (copy_into dst src) = length dst"
  by (simp add: copy_into_def)

section \<open>Accessors\<close>

definition RegistrableSLD :: "DNSEvent \<Rightarrow> bytes" where
  "RegistrableSLD e = (if SLDLen e = 0 then [] else take (unat (SLDLen e)) (SLD e))"

definition PublicSuffix :: "DNSEvent \<Rightarrow> bytes" where
  "PublicSuffix e = (if TLDLen e = 0 then [] else take (unat (TLDLen e)) (TLD e))"

definition FQDN :: "DNSEvent \<Rightarrow> bytes" where
  "FQDN e = (if NameLen e = 0 then [] else take (unat (NameLen e)) (Name e))"

definition Parent :: "DNSEvent \<Rightarrow> bytes" where
  "Parent e = (if ParentDomainLen e = 0 then [] else take (unat (ParentDomainLen e)) (ParentDomain e))"

definition Sub :: "DNSEvent \<Rightarrow> bytes" where
  "Sub e = (if SubdomainLen e = 0 then [] else take (unat (SubdomainLen e)) (Subdomain e))"

section \<open>Domain parts\<close>

definition two_level_suffixes :: "string list" where
  "two_level_suffixes = [''co.uk'', ''org.uk'', ''ac.uk'', ''gov.uk'', ''me.uk'',
     ''com.br'', ''net.br'', ''org.br'', ''gov.br'', ''com.au'', ''net.au'', ''org.au'', ''edu.au'',
     ''co.jp'', ''ne.jp'', ''or.jp'', ''ac.jp'', ''co.nz'', ''co.za'', ''co.in'', ''co.kr'', ''co.il'', ''co.id'', ''co.th'',
     ''com.cn'', ''net.cn'', ''org.cn'', ''com.hk'', ''com.tw'', ''com.sg'', ''com.my'',
     ''com.mx'', ''com.ar'', ''com.co'', ''com.pe'', ''com.tr'', ''com.ua'', ''com.pl'',
     ''com.eg'', ''com.sa'', ''com.ng'', ''com.pk'', ''com.vn'', ''com.ph'']"

definition isTwoLevelPublicSuffix :: "bytes \<Rightarrow> bool" where
  "isTwoLevelPublicSuffix sfx \<longleftrightarrow> sfx \<in> set (map ascii two_level_suffixes)"

text \<open>The four guarded copies of \<open>populateDomainParts\<close>, once the two label indices are known.\<close>

definition put_parent :: "nat \<Rightarrow> nat \<Rightarrow> DNSEvent \<Rightarrow> DNSEvent outcome" where
  "put_parent outPos parentStartIdx ev =
     (if parentStartIdx < outPos \<and> outPos - parentStartIdx \<le> length (ParentDomain ev)
      then obind (slice_at (Name ev) parentStartIdx outPos) (\<lambda>s.
             Ret (ev\<lparr>ParentDomain := copy_into (ParentDomain ev) s,
                     ParentDomainLen := word_of_nat (outPos - parentStartIdx)\<rparr>))
      else Ret ev)"

definition put_sld :: "nat \<Rightarrow> nat \<Rightarrow> DNSEvent \<Rightarrow> DNSEvent outcome" where
  "put_sld parentStartIdx tldStartIdx ev =
     (if parentStartIdx + 1 < tldStartIdx
      then let sldLen = tldStartIdx - 1 - parentStartIdx in
        (if 0 < sldLen \<and> sldLen \<le> length (SLD ev)
         then obind (slice_at (Name ev) parentStartIdx (tldStartIdx - 1)) (\<lambda>s.
                Ret (ev\<lparr>SLD := copy_into (SLD ev) s, SLDLen := word_of_nat sldLen\<rparr>))
         else Ret ev)
      else Ret ev)"

definition put_tld :: "nat \<Rightarrow> nat \<Rightarrow> DNSEvent \<Rightarrow> DNSEvent outcome" where
  "put_tld outPos tldStartIdx ev =
     (if tldStartIdx < outPos \<and> outPos - tldStartIdx \<le> length (TLD ev)
      then obind (slice_at (Name ev) tldStartIdx outPos) (\<lambda>s.
             Ret (ev\<lparr>TLD := copy_into (TLD ev) s, TLDLen := word_of_nat (outPos - tldStartIdx)\<rparr>))
      else Ret ev)"

definition put_sub :: "nat \<Rightarrow> DNSEvent \<Rightarrow> DNSEvent outcome" where
  "put_sub parentStartIdx ev =
     (if 1 < parentStartIdx
      then let subLen = parentStartIdx - 1 in
        (if 0 < subLen \<and> subLen \<le> length (Subdomain ev)
         then obind (slice_at (Name ev) 0 subLen) (\<lambda>s.
                Ret (ev\<lparr>Subdomain := copy_into (Subdomain ev) s, SubdomainLen := word_of_nat subLen\<rparr>))
         else Ret ev)
      else Ret ev)"

definition populate_at :: "DNSEvent \<Rightarrow> nat \<Rightarrow> nat \<Rightarrow> nat \<Rightarrow> DNSEvent outcome" where
  "populate_at ev outPos parentStartIdx tldStartIdx =
     obind (put_parent outPos parentStartIdx ev) (\<lambda>ev.
     obind (put_sld parentStartIdx tldStartIdx ev) (\<lambda>ev.
     obind (put_tld outPos tldStartIdx ev) (\<lambda>ev.
     put_sub parentStartIdx ev)))"

definition populateDomainParts :: "DNSEvent \<Rightarrow> nat \<Rightarrow> nat \<Rightarrow> byte list \<Rightarrow> DNSEvent outcome" where
  "populateDomainParts ev outPos labelCount offsets =
     (if 2 \<le> labelCount \<and> labelCount - 2 < maxDNSLabels then
        obind (if 3 \<le> labelCount \<and> labelCount - 3 < maxDNSLabels
               then obind (get_at offsets (labelCount - 2)) (\<lambda>twoLvlStart.
                    obind (slice_at (Name ev) (unat twoLvlStart) outPos) (\<lambda>sfx.
                    Ret (isTwoLevelPublicSuffix sfx)))
               else Ret False) (\<lambda>two.
        let tldIdx = (if two then labelCount - 2 else labelCount - 1);
            sldIdx = (if two then labelCount - 3 else labelCount - 2) in
        obind (get_at offsets sldIdx) (\<lambda>p.
        obind (get_at offsets tldIdx) (\<lambda>t.
        populate_at ev outPos (unat p) (unat t))))
      else if labelCount = 1 then
        obind (if outPos \<le> length (ParentDomain ev)
               then obind (slice_at (Name ev) 0 outPos) (\<lambda>s.
                      Ret (ev\<lparr>ParentDomain := copy_into (ParentDomain ev) s, ParentDomainLen := word_of_nat outPos\<rparr>))
               else Ret ev) (\<lambda>ev.
        obind (if outPos \<le> length (SLD ev)
               then obind (slice_at (Name ev) 0 outPos) (\<lambda>s.
                      Ret (ev\<lparr>SLD := copy_into (SLD ev) s, SLDLen := word_of_nat outPos\<rparr>))
               else Ret ev) (\<lambda>ev.
        Ret (ev\<lparr>SubdomainLen := 0\<rparr>)))
      else Ret ev)"

section \<open>Copying a wire label\<close>

fun copierLabelQuestion :: "DNSEvent \<Rightarrow> bytes \<Rightarrow> nat \<Rightarrow> bool \<Rightarrow> (dns_error + DNSEvent) outcome" where
  "copierLabelQuestion ev [] pos tolerant = Ret (Inr ev)"
| "copierLabelQuestion ev (octet0 # rest) pos tolerant =
     (let octet = lower octet0 in
      if \<not> dnsLabelByte octet \<and> \<not> isDNSEncodingByte octet \<and> \<not> tolerant then Ret (Inl ErrInvalidLabel)
      else let ev1 = (if \<not> dnsLabelByte octet \<and> isDNSEncodingByte octet then ev\<lparr>HasEncoding := True\<rparr> else ev) in
        obind (write_at (Name ev1) pos octet) (\<lambda>nm.
        copierLabelQuestion (ev1\<lparr>Name := nm\<rparr>) rest (Suc pos) tolerant))"

text \<open>The running state of the name loops.\<close>

record name_acc =
  outPos :: nat
  labelCount :: nat
  maxLabelLen :: nat
  labelOffsets :: "byte list"
  nev :: DNSEvent

text \<open>
  What both loops do with one label of the packet, once its length is known to
  be at most 63 and its bytes to lie inside the packet: the length check, the
  separating dot, the bookkeeping, the copy and the grammar survey.
\<close>

definition emit_label :: "bool \<Rightarrow> name_acc \<Rightarrow> bytes \<Rightarrow> (dns_error + name_acc) outcome" where
  "emit_label tolerant acc label =
     (if 254 < outPos acc + length label + 1 then Ret (Inl ErrNameTooLong)
      else obind (if 0 < outPos acc
                  then obind (write_at (Name (nev acc)) (outPos acc) 0x2E) (\<lambda>nm.
                         Ret (acc\<lparr>nev := (nev acc)\<lparr>Name := nm\<rparr>, outPos := Suc (outPos acc)\<rparr>))
                  else Ret acc) (\<lambda>acc.
      obind (if labelCount acc < maxDNSLabels
             then write_at (labelOffsets acc) (labelCount acc) (word_of_nat (outPos acc))
             else Ret (labelOffsets acc)) (\<lambda>offs.
      let acc = acc\<lparr>labelOffsets := offs, labelCount := Suc (labelCount acc),
                    maxLabelLen := max (maxLabelLen acc) (length label)\<rparr> in
      obind (copierLabelQuestion (nev acc) label (outPos acc) tolerant) (\<lambda>r.
      case r of
        Inl err \<Rightarrow> Ret (Inl err)
      | Inr ev \<Rightarrow>
          (let ev1 = (if tolerant then ev\<lparr>Grammar := observerLabelGrammaire (Grammar ev) label (labelCount acc - 1)\<rparr>
                      else ev)
           in Ret (Inr (acc\<lparr>nev := ev1, outPos := outPos acc + length label\<rparr>)))))))"

text \<open>The loop behind a compression pointer; a second pointer is refused.\<close>

function pointer_loop :: "bool \<Rightarrow> bytes \<Rightarrow> nat \<Rightarrow> name_acc \<Rightarrow> (dns_error + name_acc) outcome" where
  "pointer_loop tolerant raw pOffset acc =
     (if length raw \<le> pOffset then Ret (Inl ErrPacketTooShort)
      else obind (get_at raw pOffset) (\<lambda>b.
        let pLen = unat b in
        if pLen = 0 then Ret (Inr acc)
        else if b AND 0xC0 = 0xC0 then Ret (Inl ErrLoopPointer)
        else if 63 < pLen then Ret (Inl ErrInvalidLabel)
        else if length raw < pOffset + 1 + pLen then Ret (Inl ErrPacketTooShort)
        else obind (slice_at raw (pOffset + 1) (pOffset + 1 + pLen)) (\<lambda>label.
          obind (emit_label tolerant acc label) (\<lambda>r. case r of
            Inl err \<Rightarrow> Ret (Inl err)
          | Inr acc' \<Rightarrow> pointer_loop tolerant raw (pOffset + 1 + pLen) acc'))))"
  by pat_completeness auto

termination
  by (relation "measure (\<lambda>(_, raw, pOffset, _). length raw - pOffset)") auto

text \<open>The main loop; it also returns the offset behind the name.\<close>

function question_loop :: "bool \<Rightarrow> bytes \<Rightarrow> nat \<Rightarrow> name_acc \<Rightarrow> (dns_error + (nat \<times> name_acc)) outcome" where
  "question_loop tolerant raw offset acc =
     (if length raw \<le> offset then Ret (Inl ErrPacketTooShort)
      else obind (get_at raw offset) (\<lambda>b.
        let lenByte = unat b in
        if lenByte = 0 then Ret (Inr (offset + 1, acc))
        else if b AND 0xC0 = 0xC0 then
          (if length raw \<le> offset + 1 then Ret (Inl ErrPacketTooShort)
           else obind (slice_at raw offset (offset + 2)) (\<lambda>two.
             let ptrOffset = unat ((be_get two :: u16) AND 0x3FFF) in
             if length raw \<le> ptrOffset \<or> ptrOffset < 12 then Ret (Inl ErrInvalidLabel)
             else if ptrOffset = offset then Ret (Inl ErrLoopPointer)
             else obind (pointer_loop tolerant raw ptrOffset acc) (\<lambda>r. case r of
                 Inl err \<Rightarrow> Ret (Inl err)
               | Inr acc' \<Rightarrow> Ret (Inr (offset + 2, acc')))))
        else if 63 < lenByte then Ret (Inl ErrInvalidLabel)
        else if length raw < offset + 1 + lenByte then Ret (Inl ErrPacketTooShort)
        else obind (slice_at raw (offset + 1) (offset + 1 + lenByte)) (\<lambda>label.
          obind (emit_label tolerant acc label) (\<lambda>r. case r of
            Inl err \<Rightarrow> Ret (Inl err)
          | Inr acc' \<Rightarrow> question_loop tolerant raw (offset + 1 + lenByte) acc'))))"
  by pat_completeness auto

termination
  by (relation "measure (\<lambda>(_, raw, offset, _). length raw - offset)") auto

declare pointer_loop.simps [simp del] question_loop.simps [simp del]

text \<open>The end of \<open>parseDNSQueryWire\<close>, behind the name: type and class, the contract, the summary fields.\<close>

definition question_tail :: "bool \<Rightarrow> bytes \<Rightarrow> nat \<Rightarrow> name_acc \<Rightarrow> (dns_error + DNSEvent) outcome" where
  "question_tail tolerant raw offset acc =
     (if length raw < offset + 4 then Ret (Inl ErrPacketTooShort)
      else let ev = (nev acc)\<lparr>QType := be_get (subslice offset (offset + 2) raw),
                              QClass := be_get (subslice (offset + 2) (offset + 4) raw)\<rparr> in
        if 253 < outPos acc then Ret (Inl ErrNameTooLong)
        else if outPos acc = 0 \<or> QType ev = 0 \<or> QClass ev \<noteq> 1 then Ret (Inl ErrQuestionContract)
        else let ev = ev\<lparr>NameLen := word_of_nat (outPos acc), LabelCount := word_of_nat (labelCount acc),
                         MaxLabelLen := word_of_nat (maxLabelLen acc)\<rparr>;
                 ev = (if tolerant then ev\<lparr>Grammar := finaliserGrammaire (Grammar ev)\<rparr> else ev) in
          obind (populateDomainParts ev (outPos acc) (labelCount acc) (labelOffsets acc)) (\<lambda>ev. Ret (Inr ev)))"

definition acc_start :: "DNSEvent \<Rightarrow> name_acc" where
  "acc_start ev = \<lparr>outPos = 0, labelCount = 0, maxLabelLen = 0, labelOffsets = replicate 128 0, nev = ev\<rparr>"

text \<open>\<open>parseDNSQueryWire\<close> up to the deferred reset: the event it has built, or the error.\<close>

definition query_body :: "bytes \<Rightarrow> DNSEvent \<Rightarrow> bool \<Rightarrow> (dns_error + DNSEvent) outcome" where
  "query_body raw ev0 tolerant =
     (if length raw < 12 then Ret (Inl ErrPacketTooShort)
      else let ev = ev0\<lparr>ID := be_get (subslice 0 2 raw), EvFlags := be_get (subslice 2 4 raw)\<rparr>;
               qdCount = (be_get (subslice 4 6 raw) :: u16) in
        if qdCount \<noteq> 1 \<or> EvFlags ev AND 0xf800 \<noteq> 0 then Ret (Inl ErrQuestionContract)
        else obind (question_loop tolerant raw 12 (acc_start ev)) (\<lambda>r. case r of
            Inl err \<Rightarrow> Ret (Inl err)
          | Inr (offset, acc) \<Rightarrow> question_tail tolerant raw offset acc))"

text \<open>The whole method: the error and the event as the caller finds it.\<close>

definition parseDNSQueryWire :: "bytes \<Rightarrow> DNSEvent option \<Rightarrow> bool \<Rightarrow> (dns_error option \<times> DNSEvent option) outcome" where
  "parseDNSQueryWire raw ev tolerant = (case ev of
     None \<Rightarrow> Ret (Some ErrQuestionContract, None)
   | Some e \<Rightarrow>
       (let fresh = fresh_event (Timestamp e) (ClientIP e) in
        obind (query_body raw fresh tolerant) (\<lambda>r. case r of
          Inl err \<Rightarrow> Ret (Some err, Some fresh)
        | Inr e' \<Rightarrow> Ret (None, Some e'))))"

definition ParseDNSQuery :: "bytes \<Rightarrow> DNSEvent option \<Rightarrow> (dns_error option \<times> DNSEvent option) outcome" where
  "ParseDNSQuery raw ev = parseDNSQueryWire raw ev False"

definition ParseDNSQueryTolerant :: "bytes \<Rightarrow> DNSEvent option \<Rightarrow> (dns_error option \<times> DNSEvent option) outcome" where
  "ParseDNSQueryTolerant raw ev = parseDNSQueryWire raw ev True"

section \<open>Textual names\<close>

text \<open>The loop of \<open>ParseDNSName\<close> over the bytes of the name; it returns the start of the last label.\<close>

fun text_loop :: "bytes \<Rightarrow> nat \<Rightarrow> nat \<Rightarrow> name_acc \<Rightarrow> (dns_error + (nat \<times> name_acc)) outcome" where
  "text_loop [] i labelStart acc = Ret (Inr (labelStart, acc))"
| "text_loop (b0 # rest) i labelStart acc =
     (if b0 = 0x2E then
        let lLen = i - labelStart in
        (if lLen = 0 \<or> 63 < lLen then Ret (Inl ErrInvalidLabel)
         else obind (if labelCount acc < maxDNSLabels
                     then write_at (labelOffsets acc) (labelCount acc) (word_of_nat labelStart)
                     else Ret (labelOffsets acc)) (\<lambda>offs.
           obind (write_at (Name (nev acc)) i 0x2E) (\<lambda>nm.
           text_loop rest (Suc i) (Suc i)
             (acc\<lparr>labelOffsets := offs, labelCount := Suc (labelCount acc), maxLabelLen := max (maxLabelLen acc) lLen,
                  nev := (nev acc)\<lparr>Name := nm\<rparr>\<rparr>))))
      else
        let b = lower b0 in
        (if \<not> dnsLabelByte b \<and> \<not> isDNSEncodingByte b then Ret (Inl ErrInvalidLabel)
         else let ev1 = (if \<not> dnsLabelByte b then (nev acc)\<lparr>HasEncoding := True\<rparr> else nev acc) in
           obind (write_at (Name ev1) i b) (\<lambda>nm.
           text_loop rest (Suc i) labelStart (acc\<lparr>nev := ev1\<lparr>Name := nm\<rparr>\<rparr>))))"

text \<open>Behind the loop: the last label, the summary fields and the domain parts.\<close>

definition text_tail :: "nat \<Rightarrow> u16 \<Rightarrow> nat \<Rightarrow> name_acc \<Rightarrow> (dns_error + DNSEvent) outcome" where
  "text_tail n qtype labelStart acc = (let lastLen = n - labelStart in
     if lastLen = 0 \<or> 63 < lastLen then Ret (Inl ErrInvalidLabel)
     else obind (if labelCount acc < maxDNSLabels
                 then write_at (labelOffsets acc) (labelCount acc) (word_of_nat labelStart)
                 else Ret (labelOffsets acc)) (\<lambda>offs.
       let count = Suc (labelCount acc);
           ev = (nev acc)\<lparr>QType := qtype, QClass := 1, NameLen := word_of_nat n, LabelCount := word_of_nat count,
                          MaxLabelLen := word_of_nat (max (maxLabelLen acc) lastLen)\<rparr> in
       obind (populateDomainParts ev n count offs) (\<lambda>ev. Ret (Inr ev))))"

definition strip_dot :: "bytes \<Rightarrow> bytes" where
  "strip_dot qname = (if qname \<noteq> [] \<and> last qname = 0x2E then butlast qname else qname)"

definition name_body :: "bytes \<Rightarrow> u16 \<Rightarrow> DNSEvent \<Rightarrow> (dns_error + DNSEvent) outcome" where
  "name_body qname qtype ev =
     (if qtype = 0 then Ret (Inl ErrQuestionContract)
      else let n = length (strip_dot qname) in
        if n = 0 then Ret (Inl ErrQuestionContract)
        else if 253 < n then Ret (Inl ErrNameTooLong)
        else obind (text_loop (strip_dot qname) 0 0 (acc_start ev)) (\<lambda>r. case r of
            Inl err \<Rightarrow> Ret (Inl err)
          | Inr (labelStart, acc) \<Rightarrow> text_tail n qtype labelStart acc))"

definition ParseDNSName :: "bytes \<Rightarrow> u16 \<Rightarrow> DNSEvent option \<Rightarrow> (dns_error option \<times> DNSEvent option) outcome" where
  "ParseDNSName qname qtype ev = (case ev of
     None \<Rightarrow> Ret (Some ErrQuestionContract, None)
   | Some e \<Rightarrow>
       (let fresh = fresh_event (Timestamp e) (ClientIP e) in
        obind (name_body qname qtype fresh) (\<lambda>r. case r of
          Inl err \<Rightarrow> Ret (Some err, Some fresh)
        | Inr e' \<Rightarrow> Ret (None, Some e'))))"

section \<open>The copy of a label\<close>

definition bad_octet :: "byte \<Rightarrow> bool" where
  "bad_octet b \<longleftrightarrow> \<not> dnsLabelByte (lower b) \<and> \<not> isDNSEncodingByte (lower b)"

definition enc_octet :: "byte \<Rightarrow> bool" where
  "enc_octet b \<longleftrightarrow> \<not> dnsLabelByte (lower b) \<and> isDNSEncodingByte (lower b)"

definition put_label :: "DNSEvent \<Rightarrow> bytes \<Rightarrow> nat \<Rightarrow> DNSEvent" where
  "put_label ev label pos = ev\<lparr>Name := take pos (Name ev) @ map lower label @ drop (pos + length label) (Name ev),
     HasEncoding := (HasEncoding ev \<or> list_ex enc_octet label)\<rparr>"

lemma put_label_Cons:
  assumes "pos < length (Name ev)" "ev1 = (if enc_octet b then ev\<lparr>HasEncoding := True\<rparr> else ev)"
  shows "put_label (ev1\<lparr>Name := (Name ev1)[pos := lower b]\<rparr>) rest (Suc pos) = put_label ev (b # rest) pos"
proof -
  have "take (Suc pos) ((Name ev)[pos := lower b]) = take pos (Name ev) @ [lower b]"
    using assms(1) by (simp add: take_Suc_conv_app_nth)
  moreover have "drop (Suc (pos + length rest)) ((Name ev)[pos := lower b]) = drop (Suc (pos + length rest)) (Name ev)"
    by simp
  ultimately show ?thesis using assms(2) by (auto simp: put_label_def)
qed

lemma copierLabelQuestion_spec:
  assumes "pos + length label \<le> length (Name ev)"
  shows "copierLabelQuestion ev label pos tolerant =
    Ret (if \<not> tolerant \<and> list_ex bad_octet label then Inl ErrInvalidLabel else Inr (put_label ev label pos))"
  using assms
proof (induction label arbitrary: ev pos)
  case Nil
  then show ?case by (simp add: put_label_def)
next
  case (Cons b rest)
  show ?case
  proof (cases "bad_octet b \<and> \<not> tolerant")
    case True
    then show ?thesis by (simp add: bad_octet_def)
  next
    case False
    define ev1 where "ev1 = (if enc_octet b then ev\<lparr>HasEncoding := True\<rparr> else ev)"
    have lt: "pos < length (Name ev)" and n1: "Name ev1 = Name ev" using Cons.prems by (auto simp: ev1_def)
    have "copierLabelQuestion ev (b # rest) pos tolerant
        = copierLabelQuestion (ev1\<lparr>Name := (Name ev1)[pos := lower b]\<rparr>) rest (Suc pos) tolerant"
      using False lt n1 unfolding ev1_def enc_octet_def bad_octet_def
      by (auto simp: write_at_def Let_def)
    also have "\<dots> = Ret (if \<not> tolerant \<and> list_ex bad_octet rest then Inl ErrInvalidLabel
        else Inr (put_label (ev1\<lparr>Name := (Name ev1)[pos := lower b]\<rparr>) rest (Suc pos)))"
      using Cons.prems n1 by (intro Cons.IH) simp
    finally show ?thesis using False by (auto simp: put_label_Cons[OF lt ev1_def])
  qed
qed

section \<open>The accumulator\<close>

definition acc_ok :: "name_acc \<Rightarrow> bool" where
  "acc_ok acc \<longleftrightarrow> event_shape (nev acc) \<and> length (labelOffsets acc) = 128 \<and> outPos acc \<le> 254
     \<and> 2 * labelCount acc \<le> outPos acc + 1 \<and> (labelCount acc = 0 \<longleftrightarrow> outPos acc = 0) \<and> maxLabelLen acc \<le> 63
     \<and> (\<forall>i < labelCount acc. unat (labelOffsets acc ! i) \<le> outPos acc)"

text \<open>The part of the name written so far.\<close>

definition acc_name :: "name_acc \<Rightarrow> bytes" where
  "acc_name acc = take (outPos acc) (Name (nev acc))"

definition emitted :: "bool \<Rightarrow> name_acc \<Rightarrow> bytes \<Rightarrow> name_acc" where
  "emitted tolerant acc label = (let
     start = (if 0 < outPos acc then Suc (outPos acc) else 0);
     ev0 = (if 0 < outPos acc then (nev acc)\<lparr>Name := (Name (nev acc))[outPos acc := 0x2E]\<rparr> else nev acc);
     ev1 = put_label ev0 label start;
     ev2 = (if tolerant then ev1\<lparr>Grammar := observerLabelGrammaire (Grammar ev1) label (labelCount acc)\<rparr> else ev1)
   in acc\<lparr>outPos := start + length label, labelCount := Suc (labelCount acc),
          maxLabelLen := max (maxLabelLen acc) (length label),
          labelOffsets := (labelOffsets acc)[labelCount acc := word_of_nat start], nev := ev2\<rparr>)"

lemma emit_label_spec:
  assumes "acc_ok acc" "label \<noteq> []" "length label \<le> 63"
  shows "emit_label tolerant acc label =
    Ret (if 254 < outPos acc + length label + 1 then Inl ErrNameTooLong
         else if \<not> tolerant \<and> list_ex bad_octet label then Inl ErrInvalidLabel
         else Inr (emitted tolerant acc label))"
proof (cases "254 < outPos acc + length label + 1")
  case True
  then show ?thesis by (simp add: emit_label_def)
next
  case False
  have a: "length (Name (nev acc)) = 256" "length (labelOffsets acc) = 128" "labelCount acc < 128"
    using assms(1) by (auto simp: acc_ok_def event_shape_def)
  define start where "start = (if 0 < outPos acc then Suc (outPos acc) else 0)"
  define ev0 where "ev0 = (if 0 < outPos acc then (nev acc)\<lparr>Name := (Name (nev acc))[outPos acc := 0x2E]\<rparr> else nev acc)"
  define acc1 where "acc1 = (if 0 < outPos acc then acc\<lparr>nev := (nev acc)\<lparr>Name := (Name (nev acc))[outPos acc := 0x2E]\<rparr>,
      outPos := Suc (outPos acc)\<rparr> else acc)"
  have 1: "(if 0 < outPos acc
                  then obind (write_at (Name (nev acc)) (outPos acc) 0x2E) (\<lambda>nm.
                         Ret (acc\<lparr>nev := (nev acc)\<lparr>Name := nm\<rparr>, outPos := Suc (outPos acc)\<rparr>))
                  else Ret acc) = Ret acc1"
    using a False by (auto simp: write_at_def acc1_def)
  have acc1: "outPos acc1 = start" "nev acc1 = ev0" "labelCount acc1 = labelCount acc"
    "labelOffsets acc1 = labelOffsets acc" "maxLabelLen acc1 = maxLabelLen acc"
    by (simp_all add: acc1_def start_def ev0_def)
  have n0: "length (Name ev0) = 256" using a by (simp add: ev0_def)
  have 2: "copierLabelQuestion ev0 label start tolerant =
    Ret (if \<not> tolerant \<and> list_ex bad_octet label then Inl ErrInvalidLabel else Inr (put_label ev0 label start))"
    using n0 False by (intro copierLabelQuestion_spec) (simp add: start_def)
  have em: "emitted tolerant acc label = acc1\<lparr>outPos := start + length label, labelCount := Suc (labelCount acc),
          maxLabelLen := max (maxLabelLen acc) (length label),
          labelOffsets := (labelOffsets acc)[labelCount acc := word_of_nat start],
          nev := (if tolerant then (put_label ev0 label start)\<lparr>Grammar := observerLabelGrammaire (Grammar (put_label ev0 label start)) label (labelCount acc)\<rparr>
                  else put_label ev0 label start)\<rparr>"
    unfolding emitted_def Let_def start_def[symmetric] ev0_def[symmetric] by (cases acc) (simp add: acc1_def)
  show ?thesis
    unfolding emit_label_def 1 using False a acc1 2
    by (cases acc1) (auto simp: write_at_def Let_def em)
qed

lemma put_label_shape:
  "pos + length label \<le> length (Name ev) \<Longrightarrow> event_shape (put_label ev label pos) = event_shape ev"
  by (simp add: put_label_def event_shape_def)

lemma event_shape_dot: "event_shape (ev\<lparr>Name := (Name ev)[i := v]\<rparr>) = event_shape ev"
  "event_shape (ev\<lparr>Grammar := g\<rparr>) = event_shape ev"
  by (simp_all add: event_shape_def)

lemma emitted_ok:
  assumes "acc_ok acc" "label \<noteq> []" "length label \<le> 63" "\<not> 254 < outPos acc + length label + 1"
  shows "acc_ok (emitted tolerant acc label)"
proof -
  define start where "start = (if 0 < outPos acc then Suc (outPos acc) else 0)"
  define ev0 where "ev0 = (if 0 < outPos acc then (nev acc)\<lparr>Name := (Name (nev acc))[outPos acc := 0x2E]\<rparr> else nev acc)"
  define ev2 where "ev2 = (let ev1 = put_label ev0 label start in
    if tolerant then ev1\<lparr>Grammar := observerLabelGrammaire (Grammar ev1) label (labelCount acc)\<rparr> else ev1)"
  have l: "0 < length label" using assms(2) by simp
  have sh: "event_shape ev0" using assms(1) by (simp add: acc_ok_def ev0_def event_shape_dot)
  then have "event_shape ev2"
    using assms(4) put_label_shape[of start label ev0]
    by (simp add: ev2_def Let_def event_shape_dot event_shape_def start_def)
  moreover have "unat (((labelOffsets acc)[labelCount acc := word_of_nat start]) ! i) \<le> start + length label"
    if "i < Suc (labelCount acc)" for i
  proof (cases "i = labelCount acc")
    case True
    have "start < 256" using assms(4) by (simp add: start_def)
    moreover have "labelCount acc < length (labelOffsets acc)" using assms(1) by (auto simp: acc_ok_def)
    ultimately show ?thesis using True by (simp add: unat_of_nat)
  next
    case False
    then have "unat (labelOffsets acc ! i) \<le> outPos acc" using that assms(1) by (simp add: acc_ok_def)
    then show ?thesis using False by (simp add: start_def)
  qed
  moreover have "2 * Suc (labelCount acc) \<le> start + length label + 1"
  proof -
    have "2 * labelCount acc \<le> outPos acc + 1" "labelCount acc = 0 \<longleftrightarrow> outPos acc = 0"
      using assms(1) by (simp_all add: acc_ok_def)
    then show ?thesis using l unfolding start_def by presburger
  qed
  moreover have "start + length label \<le> 254" using assms(4) by (simp add: start_def)
  moreover have "emitted tolerant acc label = acc\<lparr>outPos := start + length label, labelCount := Suc (labelCount acc),
          maxLabelLen := max (maxLabelLen acc) (length label),
          labelOffsets := (labelOffsets acc)[labelCount acc := word_of_nat start], nev := ev2\<rparr>"
    by (simp add: emitted_def ev2_def ev0_def start_def Let_def)
  ultimately show ?thesis using assms(1,3) l by (simp add: acc_ok_def)
qed

text \<open>The text written grows by the separating dot and the label in lower case.\<close>

lemma emitted_name:
  assumes "acc_ok acc" "\<not> 254 < outPos acc + length label + 1"
  shows "acc_name (emitted tolerant acc label)
       = (if outPos acc = 0 then [] else acc_name acc @ [0x2E]) @ map lower label"
proof (cases "outPos acc = 0")
  case True
  then show ?thesis by (simp add: emitted_def acc_name_def put_label_def Let_def)
next
  case False
  have l: "outPos acc < length (Name (nev acc))" using assms by (simp add: acc_ok_def event_shape_def)
  then have "take (Suc (outPos acc)) ((Name (nev acc))[outPos acc := 0x2E]) = acc_name acc @ [0x2E]"
    by (simp add: take_Suc_conv_app_nth acc_name_def)
  then show ?thesis using False l
    by (simp add: emitted_def acc_name_def put_label_def Let_def)
qed

section \<open>Labels and their positions\<close>

fun dotted :: "bytes list \<Rightarrow> bytes" where
  "dotted [] = []"
| "dotted [l] = l"
| "dotted (l # m # ls) = l @ 0x2E # dotted (m # ls)"

definition label_start :: "bytes list \<Rightarrow> nat \<Rightarrow> nat" where
  "label_start ls i = (if i = 0 then 0 else Suc (length (dotted (take i ls))))"

definition dns_labels :: "bytes list \<Rightarrow> bool" where
  "dns_labels ls \<longleftrightarrow> (\<forall>l \<in> set ls. l \<noteq> [] \<and> length l \<le> 63)"

definition longest :: "bytes list \<Rightarrow> nat" where
  "longest ls = fold max (map length ls) 0"

lemma dotted_append: "ls \<noteq> [] \<Longrightarrow> ms \<noteq> [] \<Longrightarrow> dotted (ls @ ms) = dotted ls @ 0x2E # dotted ms"
proof (induction ls rule: dotted.induct)
  case (2 l)
  then show ?case by (cases ms) auto
qed auto

lemma length_dotted: "length (dotted ls) = sum_list (map length ls) + (length ls - 1)"
  by (induction ls rule: dotted.induct) auto

lemma dotted_eq_Nil: "dns_labels ls \<Longrightarrow> dotted ls = [] \<longleftrightarrow> ls = []"
  by (induction ls rule: dotted.induct) (auto simp: dns_labels_def)

lemma dotted_split: "0 < i \<Longrightarrow> i < length ls \<Longrightarrow> dotted ls = dotted (take i ls) @ 0x2E # dotted (drop i ls)"
  using dotted_append[of "take i ls" "drop i ls"] by (cases ls) auto

lemma drop_label_start: "i < length ls \<Longrightarrow> drop (label_start ls i) (dotted ls) = dotted (drop i ls)"
  by (cases "i = 0") (auto simp: label_start_def dotted_split[of i])

lemma take_label_start: "0 < i \<Longrightarrow> i < length ls \<Longrightarrow> take (label_start ls i - 1) (dotted ls) = dotted (take i ls)"
  by (auto simp: label_start_def dotted_split[of i])

lemma label_start_le: "i < length ls \<Longrightarrow> label_start ls i \<le> length (dotted ls)"
  by (cases "i = 0") (auto simp: label_start_def dotted_split[of i])

lemma label_start_Suc: "i < length ls \<Longrightarrow> label_start ls (Suc i) = label_start ls i + length (ls ! i) + 1"
proof (cases "i = 0")
  case False
  assume "i < length ls"
  then have "dotted (take i ls @ [ls ! i]) = dotted (take i ls) @ 0x2E # ls ! i"
    using False by (subst dotted_append) auto
  then show ?thesis using False \<open>i < length ls\<close> by (simp add: label_start_def take_Suc_conv_app_nth)
qed (cases ls; simp add: label_start_def)

lemma label_start_append: "i \<le> length ls \<Longrightarrow> label_start (ls @ ms) i = label_start ls i"
  by (simp add: label_start_def)

text \<open>The accumulator holds exactly the labels \<open>ls\<close>.\<close>

definition acc_labels :: "bytes list \<Rightarrow> name_acc \<Rightarrow> bool" where
  "acc_labels ls acc \<longleftrightarrow> dns_labels ls \<and> labelCount acc = length ls \<and> acc_name acc = dotted ls
     \<and> outPos acc = length (dotted ls) \<and> maxLabelLen acc = longest ls
     \<and> (\<forall>i < length ls. unat (labelOffsets acc ! i) = label_start ls i)"

lemma emitted_labels:
  assumes ok: "acc_ok acc" and ls: "acc_labels ls acc" and lab: "label \<noteq> []" "length label \<le> 63"
    and fits: "\<not> 254 < outPos acc + length label + 1"
  shows "acc_labels (ls @ [map lower label]) (emitted tolerant acc label)"
proof -
  define start where "start = (if 0 < outPos acc then Suc (outPos acc) else 0)"
  have n: "labelCount acc = length ls" "outPos acc = length (dotted ls)" "acc_name acc = dotted ls"
    "dns_labels ls" "maxLabelLen acc = longest ls"
    using ls by (auto simp: acc_labels_def)
  have empty: "dotted ls = [] \<longleftrightarrow> ls = []" using dotted_eq_Nil n(4) by blast
  have name: "acc_name (emitted tolerant acc label) = dotted (ls @ [map lower label])"
    using emitted_name[OF ok fits] n empty by (cases "ls = []") (simp_all add: dotted_append)
  have start: "start = label_start (ls @ [map lower label]) (length ls)"
    using n empty by (simp add: start_def label_start_def)
  have "start < 256" using fits by (simp add: start_def)
  have offs: "unat (((labelOffsets acc)[length ls := word_of_nat start]) ! i) = label_start (ls @ [map lower label]) i"
    if "i < Suc (length ls)" for i
  proof (cases "i = length ls")
    case True
    have "length ls < length (labelOffsets acc)" using ok n by (auto simp: acc_ok_def)
    then show ?thesis using True \<open>start < 256\<close> start by (simp add: unat_of_nat)
  next
    case False
    then show ?thesis using that ls by (simp add: acc_labels_def label_start_append)
  qed
  have len: "outPos (emitted tolerant acc label) = length (dotted (ls @ [map lower label]))"
    using n empty by (cases "ls = []") (simp_all add: emitted_def Let_def dotted_append)
  show ?thesis unfolding acc_labels_def
    using name offs len n lab
    by (simp add: emitted_def Let_def start_def dns_labels_def longest_def max.commute del: nth_list_update)
qed

lemma populated_labels_unchanged: "acc_labels ls acc \<Longrightarrow> acc_ok acc \<Longrightarrow> length ls \<le> 127"
  by (auto simp: acc_labels_def acc_ok_def)

text \<open>What the name loops leave alone: the message header, the caller's metadata and the
  length fields that only \<open>populateDomainParts\<close> writes.\<close>

definition same_head :: "DNSEvent \<Rightarrow> DNSEvent \<Rightarrow> bool" where
  "same_head ev ev' \<longleftrightarrow> ID ev' = ID ev \<and> EvFlags ev' = EvFlags ev \<and> Timestamp ev' = Timestamp ev \<and> ClientIP ev' = ClientIP ev"

definition parts_blank :: "DNSEvent \<Rightarrow> bool" where
  "parts_blank ev \<longleftrightarrow> SubdomainLen ev = 0 \<and> ParentDomainLen ev = 0 \<and> SLDLen ev = 0 \<and> TLDLen ev = 0"

lemma emitted_blank: "parts_blank (nev (emitted tolerant acc label)) = parts_blank (nev acc)"
  "same_head ev (nev (emitted tolerant acc label)) = same_head ev (nev acc)"
  by (simp_all add: parts_blank_def same_head_def emitted_def put_label_def Let_def)

text \<open>The invariant of the name loops.\<close>

definition acc_good :: "DNSEvent \<Rightarrow> name_acc \<Rightarrow> bool" where
  "acc_good ev0 acc \<longleftrightarrow> acc_ok acc \<and> parts_blank (nev acc) \<and> same_head ev0 (nev acc) \<and> (\<exists>ls. acc_labels ls acc)"

section \<open>No panic in the name loops\<close>

lemma emit_label_result:
  assumes "acc_good ev0 acc" "label \<noteq> []" "length label \<le> 63"
  shows "\<exists>r. emit_label tolerant acc label = Ret r \<and> (\<forall>acc'. r = Inr acc' \<longrightarrow> acc_good ev0 acc')"
  using assms emit_label_spec[of acc label tolerant] emitted_ok[of acc label] emitted_labels[of acc _ label]
  unfolding acc_good_def by (auto simp: emitted_blank split: if_splits)

lemma pointer_loop_safe:
  "acc_good ev0 acc \<Longrightarrow> \<exists>r. pointer_loop tolerant raw pOffset acc = Ret r \<and> (\<forall>acc'. r = Inr acc' \<longrightarrow> acc_good ev0 acc')"
proof (induction tolerant raw pOffset acc rule: pointer_loop.induct)
  case (1 tolerant raw pOffset acc)
  show ?case
  proof (cases "length raw \<le> pOffset")
    case True
    then show ?thesis by (subst pointer_loop.simps) simp
  next
    case inside: False
    define b where "b = raw ! pOffset"
    have g: "get_at raw pOffset = Ret b" using inside by (simp add: b_def)
    show ?thesis
    proof (cases "unat b = 0 \<or> b AND 0xC0 = 0xC0 \<or> 63 < unat b \<or> length raw < pOffset + 1 + unat b")
      case True
      then show ?thesis using inside g "1.prems" by (subst pointer_loop.simps) (auto simp: Let_def)
    next
      case False
      define label where "label = subslice (pOffset + 1) (pOffset + 1 + unat b) raw"
      have sl: "slice_at raw (pOffset + 1) (pOffset + 1 + unat b) = Ret label" using False by (simp add: label_def)
      have "length label = unat b" using False by (auto simp: label_def)
      then have lab: "label \<noteq> []" "length label \<le> 63" using False by auto
      obtain r where r: "emit_label tolerant acc label = Ret r" "\<forall>acc'. r = Inr acc' \<longrightarrow> acc_good ev0 acc'"
        using emit_label_result[OF "1.prems" lab] by blast
      have step: "pointer_loop tolerant raw pOffset acc = (case r of Inl err \<Rightarrow> Ret (Inl err)
          | Inr acc' \<Rightarrow> pointer_loop tolerant raw (pOffset + 1 + unat b) acc')"
        using inside False g sl r(1) by (subst pointer_loop.simps) (cases r; simp add: Let_def)
      show ?thesis
      proof (cases r)
        case (Inr acc')
        then show ?thesis using step r(2) "1.IH"[OF inside g refl _ _ _ _ sl r(1) Inr] False by simp
      qed (simp add: step)
    qed
  qed
qed

lemma question_loop_safe:
  "acc_good ev0 acc \<Longrightarrow> \<exists>r. question_loop tolerant raw offset acc = Ret r
     \<and> (\<forall>off acc'. r = Inr (off, acc') \<longrightarrow> acc_good ev0 acc' \<and> offset < off \<and> off \<le> length raw)"
proof (induction tolerant raw offset acc rule: question_loop.induct)
  case (1 tolerant raw offset acc)
  show ?case
  proof (cases "length raw \<le> offset")
    case True
    then show ?thesis by (subst question_loop.simps) simp
  next
    case inside: False
    define b where "b = raw ! offset"
    have g: "get_at raw offset = Ret b" using inside by (simp add: b_def)
    consider "unat b = 0" | "unat b \<noteq> 0" "b AND 0xC0 = 0xC0"
      | "unat b \<noteq> 0" "b AND 0xC0 \<noteq> 0xC0" "63 < unat b \<or> length raw < offset + 1 + unat b"
      | "unat b \<noteq> 0" "b AND 0xC0 \<noteq> 0xC0" "unat b \<le> 63" "offset + 1 + unat b \<le> length raw" by linarith
    then show ?thesis
    proof cases
      case 1
      then show ?thesis using inside g "1.prems" by (subst question_loop.simps) (simp add: Let_def)
    next
      case 2
      obtain r where r: "pointer_loop tolerant raw (unat ((be_get (subslice offset (offset + 2) raw) :: u16) AND 0x3FFF)) acc = Ret r"
        "\<forall>acc'. r = Inr acc' \<longrightarrow> acc_good ev0 acc'" using pointer_loop_safe[OF "1.prems"] by blast
      then show ?thesis using inside g 2
        by (subst question_loop.simps) (cases r; simp add: Let_def slice_at_def not_le)
    next
      case 3
      then show ?thesis using inside g by (subst question_loop.simps) (auto simp: Let_def)
    next
      case 4
      define label where "label = subslice (offset + 1) (offset + 1 + unat b) raw"
      have sl: "slice_at raw (offset + 1) (offset + 1 + unat b) = Ret label" using 4 by (simp add: label_def)
      have "length label = unat b" using 4 by (simp add: label_def)
      then have lab: "label \<noteq> []" "length label \<le> 63" using 4 by auto
      obtain r where r: "emit_label tolerant acc label = Ret r" "\<forall>acc'. r = Inr acc' \<longrightarrow> acc_good ev0 acc'"
        using emit_label_result[OF "1.prems" lab] by blast
      have step: "question_loop tolerant raw offset acc = (case r of Inl err \<Rightarrow> Ret (Inl err)
          | Inr acc' \<Rightarrow> question_loop tolerant raw (offset + 1 + unat b) acc')"
        using inside 4 g sl r(1) by (subst question_loop.simps) (cases r; simp add: Let_def)
      show ?thesis
      proof (cases r)
        case (Inr acc')
        then show ?thesis using step r(2) "1.IH"[OF inside g refl _ _ _ _ sl r(1) Inr] 4 by fastforce
      qed (simp add: step)
    qed
  qed
qed

section \<open>Domain parts\<close>

lemma take_copy_into: "length src \<le> length dst \<Longrightarrow> take (length src) (copy_into dst src) = src"
  by (simp add: copy_into_def)

lemma subslice_of_take: "j \<le> n \<Longrightarrow> subslice i j xs = subslice i j (take n xs)"
  by (simp add: subslice_def drop_take)

text \<open>How many labels the parent domain has: three behind a two-level public suffix, else two.\<close>

definition parent_labels :: "bytes list \<Rightarrow> nat" where
  "parent_labels ls = (if 3 \<le> length ls \<and> isTwoLevelPublicSuffix (dotted (drop (length ls - 2) ls)) then 3 else 2)"

definition parts_of :: "bytes list \<Rightarrow> DNSEvent \<Rightarrow> bool" where
  "parts_of ls ev \<longleftrightarrow> (let k = length ls - parent_labels ls in
     if 2 \<le> length ls then
       Parent ev = (if length (dotted (drop k ls)) \<le> 128 then dotted (drop k ls) else [])
       \<and> RegistrableSLD ev = ls ! k \<and> PublicSuffix ev = dotted (drop (Suc k) ls) \<and> Sub ev = dotted (take k ls)
     else Parent ev = dotted ls \<and> RegistrableSLD ev = dotted ls \<and> PublicSuffix ev = [] \<and> Sub ev = [])"

lemma two_level_short: "isTwoLevelPublicSuffix s \<Longrightarrow> length s \<le> 6"
  by (auto simp: isTwoLevelPublicSuffix_def two_level_suffixes_def ascii_def)

lemma byte_len: "k < 256 \<Longrightarrow> unat (word_of_nat k :: byte) = k" "k < 256 \<Longrightarrow> (word_of_nat k :: byte) = 0 \<longleftrightarrow> k = 0"
  by (simp_all add: unat_of_nat word_of_nat_eq_0_iff nat_dvd_not_less) (metis bot_nat_0.not_eq_extremum dvd_0_right nat_dvd_not_less)

lemma take_copied: "k = length src \<Longrightarrow> length src \<le> length dst \<Longrightarrow> take k (copy_into dst src) = src"
  using take_copy_into by blast

text \<open>The fields no copy touches.\<close>

definition same_rest :: "DNSEvent \<Rightarrow> DNSEvent \<Rightarrow> bool" where
  "same_rest ev ev' \<longleftrightarrow> event_shape ev' = event_shape ev \<and> Name ev' = Name ev \<and> NameLen ev' = NameLen ev
     \<and> LabelCount ev' = LabelCount ev \<and> MaxLabelLen ev' = MaxLabelLen ev \<and> QType ev' = QType ev \<and> QClass ev' = QClass ev
     \<and> ID ev' = ID ev \<and> EvFlags ev' = EvFlags ev \<and> HasEncoding ev' = HasEncoding ev
     \<and> Timestamp ev' = Timestamp ev \<and> ClientIP ev' = ClientIP ev \<and> Grammar ev' = Grammar ev"

lemma put_parent_ok:
  assumes "event_shape ev" "ParentDomainLen ev = 0" "P < n" "n \<le> 253"
  shows "\<exists>ev'. put_parent n P ev = Ret ev' \<and> same_rest ev ev'
    \<and> Parent ev' = (if n - P \<le> 128 then subslice P n (Name ev) else [])
    \<and> SubdomainLen ev' = SubdomainLen ev"
  using assms
  by (auto simp: put_parent_def same_rest_def event_shape_def Parent_def byte_len take_copied min_def simp del: of_nat_diff)

lemma put_sld_ok:
  assumes "event_shape ev" "0 < L" "L \<le> 63" "P + L \<le> 253"
  shows "\<exists>ev'. put_sld P (P + L + 1) ev = Ret ev' \<and> same_rest ev ev' \<and> RegistrableSLD ev' = subslice P (P + L) (Name ev)
    \<and> SubdomainLen ev' = SubdomainLen ev \<and> Parent ev' = Parent ev"
  using assms
  by (auto simp: put_sld_def same_rest_def event_shape_def RegistrableSLD_def Parent_def byte_len take_copied min_def simp del: of_nat_diff)

lemma put_tld_ok:
  assumes "event_shape ev" "T < n" "n - T \<le> 64" "n \<le> 253"
  shows "\<exists>ev'. put_tld n T ev = Ret ev' \<and> same_rest ev ev' \<and> PublicSuffix ev' = subslice T n (Name ev)
    \<and> SubdomainLen ev' = SubdomainLen ev \<and> Parent ev' = Parent ev \<and> RegistrableSLD ev' = RegistrableSLD ev"
  using assms
  by (auto simp: put_tld_def same_rest_def event_shape_def RegistrableSLD_def Parent_def PublicSuffix_def byte_len take_copied min_def simp del: of_nat_diff)

lemma put_sub_ok:
  assumes "event_shape ev" "SubdomainLen ev = 0" "P \<le> 253"
  shows "\<exists>ev'. put_sub P ev = Ret ev' \<and> same_rest ev ev' \<and> Sub ev' = take (P - 1) (Name ev)
    \<and> PublicSuffix ev' = PublicSuffix ev \<and> Parent ev' = Parent ev \<and> RegistrableSLD ev' = RegistrableSLD ev"
proof (cases "1 < P")
  case True
  define q where "q = P - 1"
  have q: "0 < q" "q < 256" "q \<le> length (Subdomain ev)" "q \<le> length (Name ev)"
    using True assms by (auto simp: q_def event_shape_def)
  then have "put_sub P ev = Ret (ev\<lparr>Subdomain := copy_into (Subdomain ev) (take q (Name ev)), SubdomainLen := word_of_nat q\<rparr>)"
    using True unfolding put_sub_def q_def[symmetric] by (simp add: Let_def subslice_def)
  then show ?thesis using q unfolding q_def[symmetric]
    by (simp add: same_rest_def event_shape_def RegistrableSLD_def Parent_def PublicSuffix_def Sub_def byte_len take_copied)
next
  case False
  then show ?thesis using assms by (simp add: put_sub_def same_rest_def Sub_def)
qed

lemma same_rest_trans: "same_rest a b \<Longrightarrow> same_rest b c \<Longrightarrow> same_rest a c"
  by (simp add: same_rest_def)

lemma same_rest_shape: "same_rest a b \<Longrightarrow> event_shape a \<Longrightarrow> event_shape b" "same_rest a b \<Longrightarrow> Name b = Name a"
  by (simp_all add: same_rest_def)

lemma populate_at_parts:
  assumes ev: "event_shape ev" "SubdomainLen ev = 0" "ParentDomainLen ev = 0"
    and pos: "0 < L" "L \<le> 63" "P + L + 1 < n" "n - (P + L + 1) \<le> 64" "n \<le> 253"
  shows "\<exists>ev'. populate_at ev n P (P + L + 1) = Ret ev' \<and> same_rest ev ev'
     \<and> Parent ev' = (if n - P \<le> 128 then subslice P n (Name ev) else [])
     \<and> RegistrableSLD ev' = subslice P (P + L) (Name ev) \<and> PublicSuffix ev' = subslice (P + L + 1) n (Name ev)
     \<and> Sub ev' = take (P - 1) (Name ev)"
proof -
  obtain e1 where 1: "put_parent n P ev = Ret e1" "same_rest ev e1" "SubdomainLen e1 = SubdomainLen ev"
    "Parent e1 = (if n - P \<le> 128 then subslice P n (Name ev) else [])"
    using put_parent_ok[OF ev(1,3), of P n] pos by auto
  obtain e2 where 2: "put_sld P (P + L + 1) e1 = Ret e2" "same_rest e1 e2" "RegistrableSLD e2 = subslice P (P + L) (Name e1)"
    "SubdomainLen e2 = SubdomainLen e1" "Parent e2 = Parent e1"
    using put_sld_ok[OF same_rest_shape(1)[OF 1(2) ev(1)] pos(1,2), of P] pos by auto
  obtain e3 where 3: "put_tld n (P + L + 1) e2 = Ret e3" "same_rest e2 e3" "PublicSuffix e3 = subslice (P + L + 1) n (Name e2)"
    "SubdomainLen e3 = SubdomainLen e2" "Parent e3 = Parent e2" "RegistrableSLD e3 = RegistrableSLD e2"
    using put_tld_ok[OF same_rest_shape(1)[OF same_rest_trans[OF 1(2) 2(2)] ev(1)] pos(3-5)] by auto
  have s3: "same_rest ev e3" using 1(2) 2(2) 3(2) same_rest_trans by blast
  obtain e4 where 4: "put_sub P e3 = Ret e4" "same_rest e3 e4" "Sub e4 = take (P - 1) (Name e3)"
    "PublicSuffix e4 = PublicSuffix e3" "Parent e4 = Parent e3" "RegistrableSLD e4 = RegistrableSLD e3"
    using put_sub_ok[OF same_rest_shape(1)[OF s3 ev(1)], of P] 1 2 3 ev pos by auto
  show ?thesis
    using 1 2 3 4 same_rest_trans[OF s3 4(2)] same_rest_shape(2)[OF s3] same_rest_shape(2)[OF 1(2)]
      same_rest_shape(2)[OF same_rest_trans[OF 1(2) 2(2)]] by (simp add: populate_at_def)
qed

text \<open>The copies are taken at the label boundaries: the parts of the name are exactly its labels.\<close>

lemma populateDomainParts_parts:
  assumes ev: "event_shape ev" "SubdomainLen ev = 0" "ParentDomainLen ev = 0" "SLDLen ev = 0" "TLDLen ev = 0"
    and ls: "dns_labels ls" "ls \<noteq> []" "n = length (dotted ls)" "n \<le> 253" "length ls \<le> 127" "take n (Name ev) = dotted ls"
    and offs: "length offsets = 128" "\<And>i. i < length ls \<Longrightarrow> unat (offsets ! i) = label_start ls i"
  shows "\<exists>ev'. populateDomainParts ev n (length ls) offsets = Ret ev' \<and> same_rest ev ev' \<and> parts_of ls ev'"
proof (cases "2 \<le> length ls")
  case False
  then obtain l where l: "ls = [l]" using ls(2) by (cases ls) (auto simp: Suc_le_eq)
  then have "length l = n" "0 < n" "n \<le> 63" "subslice 0 n (Name ev) = l" using ls by (auto simp: dns_labels_def subslice_def)
  then show ?thesis using l ev
    by (simp add: populateDomainParts_def parts_of_def same_rest_def event_shape_def Parent_def RegistrableSLD_def
        PublicSuffix_def Sub_def byte_len take_copied)
next
  case True
  define k where "k = length ls - parent_labels ls"
  have pl: "parent_labels ls \<le> length ls" "2 \<le> parent_labels ls" "parent_labels ls \<le> 3" using True by (auto simp: parent_labels_def)
  have k: "Suc k < length ls" using pl True by (simp add: k_def)
  have sub: "subslice (label_start ls i) n (Name ev) = dotted (drop i ls)" if "i < length ls" for i
    using drop_label_start[OF that] subslice_of_take[of n n "label_start ls i" "Name ev"] ls by (simp add: subslice_def)
  have le: "label_start ls i \<le> n" if "i < length ls" for i using label_start_le[OF that] ls by simp
  have nm: "length (Name ev) = 256" using ev by (simp add: event_shape_def)
  have get: "get_at offsets i = Ret (offsets ! i)" if "i < length ls" for i using that ls offs by simp
  define T where "T = label_start ls (Suc k)"
  define P where "P = label_start ls k"
  have TP: "T = P + length (ls ! k) + 1" unfolding T_def P_def using label_start_Suc k by simp
  have two: "(if 3 \<le> length ls \<and> length ls - 3 < maxDNSLabels
               then obind (get_at offsets (length ls - 2)) (\<lambda>twoLvlStart.
                    obind (slice_at (Name ev) (unat twoLvlStart) n) (\<lambda>sfx.
                    Ret (isTwoLevelPublicSuffix sfx)))
               else Ret False) = Ret (parent_labels ls = 3)"
    using get[of "length ls - 2"] offs(2)[of "length ls - 2"] sub[of "length ls - 2"] le[of "length ls - 2"] ls nm True
    by (auto simp: parent_labels_def)
  have step: "populateDomainParts ev n (length ls) offsets = populate_at ev n P T"
  proof -
    have idx: "(if parent_labels ls = 3 then length ls - 2 else length ls - 1) = Suc k"
      "(if parent_labels ls = 3 then length ls - 3 else length ls - 2) = k"
      using pl True by (auto simp: k_def)
    show ?thesis
      unfolding populateDomainParts_def two obind.simps(1) Let_def idx
      using True ls(5) get[of k] get[OF k] offs(2)[of k] offs(2)[OF k] k by (auto simp: P_def T_def)
  qed
  have lk: "0 < length (ls ! k)" "length (ls ! k) \<le> 63" using ls(1) k by (auto simp: dns_labels_def)
  have rest: "drop T (dotted ls) = dotted (drop (Suc k) ls)" unfolding T_def using drop_label_start k by simp
  have ne: "dotted (drop (Suc k) ls) \<noteq> []" using dotted_eq_Nil[of "drop (Suc k) ls"] ls(1) k
    by (auto simp: dns_labels_def dest: in_set_dropD)
  have short: "n - T \<le> 64"
  proof (cases "parent_labels ls = 3")
    case True
    then have "Suc k = length ls - 2" "isTwoLevelPublicSuffix (dotted (drop (length ls - 2) ls))"
      using pl(1) by (auto simp: parent_labels_def k_def split: if_splits)
    moreover have "length (dotted (drop (Suc k) ls)) = n - T" using rest ls(3) by (metis length_drop)
    ultimately show ?thesis using rest two_level_short[of "dotted (drop (Suc k) ls)"] by simp
  next
    case False
    then have "Suc k = length ls - 1" using pl True by (simp add: k_def)
    then have "drop (Suc k) ls = [ls ! Suc k]" using k by (simp add: Cons_nth_drop_Suc[symmetric])
    then have "n - T = length (ls ! Suc k)" using rest ls(3) by (metis dotted.simps(2) length_drop)
    moreover have "length (ls ! Suc k) \<le> 63" using ls(1) k by (auto simp: dns_labels_def)
    ultimately show ?thesis by simp
  qed
  have "T < n" using rest ne ls(3) by (metis drop_all not_le_imp_less)
  obtain ev' where ev': "populate_at ev n P T = Ret ev'" "same_rest ev ev'"
     "Parent ev' = (if n - P \<le> 128 then subslice P n (Name ev) else [])"
     "RegistrableSLD ev' = subslice P (P + length (ls ! k)) (Name ev)" "PublicSuffix ev' = subslice T n (Name ev)"
     "Sub ev' = take (P - 1) (Name ev)"
    using populate_at_parts[OF ev(1-3) lk, of P n] short \<open>T < n\<close> ls(4) unfolding TP by auto
  have "n - P = length (dotted (drop k ls))" unfolding P_def using drop_label_start[of k ls] k ls(3) by (metis Suc_lessD length_drop)
  moreover have "subslice P (P + length (ls ! k)) (Name ev) = ls ! k"
  proof -
    have "dotted (drop k ls) = ls ! k @ 0x2E # dotted (drop (Suc k) ls)"
      using dotted_append[of "[ls ! k]" "drop (Suc k) ls"] k by (simp add: Cons_nth_drop_Suc)
    moreover have "subslice P (P + length (ls ! k)) (Name ev) = take (length (ls ! k)) (drop P (dotted ls))"
      using subslice_of_take[of "P + length (ls ! k)" n P "Name ev"] \<open>T < n\<close> TP ls by (simp add: subslice_def)
    ultimately show ?thesis using drop_label_start[of k ls] k by (simp add: P_def)
  qed
  moreover have "take (P - 1) (Name ev) = dotted (take k ls)"
  proof -
    have "take (P - 1) (Name ev) = take (P - 1) (dotted ls)"
      using le[of k] k ls(6) by (metis P_def Suc_lessD diff_le_self le_trans min.absorb1 take_take)
    then show ?thesis using take_label_start[of k ls] k by (cases "k = 0") (simp_all add: P_def label_start_def)
  qed
  ultimately show ?thesis using ev' step sub[of k] sub[OF k] k True
    by (simp add: parts_of_def k_def[symmetric] P_def T_def)
qed

section \<open>The question decoder\<close>

lemma acc_start_good: "event_shape ev \<Longrightarrow> parts_blank ev \<Longrightarrow> same_head ev0 ev \<Longrightarrow> acc_good ev0 (acc_start ev)"
proof -
  assume a: "event_shape ev" "parts_blank ev" "same_head ev0 ev"
  have "acc_labels [] (acc_start ev)"
    by (simp add: acc_labels_def acc_start_def dns_labels_def acc_name_def longest_def)
  then show ?thesis using a unfolding acc_good_def by (auto simp: acc_ok_def acc_start_def)
qed

lemma fresh_event_shape: "event_shape (fresh_event stamp client)"
  by (simp add: fresh_event_def event_shape_def)

text \<open>What an accepted question holds.\<close>

definition question_event :: "bytes list \<Rightarrow> DNSEvent \<Rightarrow> bool" where
  "question_event ls ev \<longleftrightarrow> dns_labels ls \<and> ls \<noteq> [] \<and> length (dotted ls) \<le> 253 \<and> length ls \<le> 127
     \<and> FQDN ev = dotted ls \<and> unat (LabelCount ev) = length ls \<and> unat (MaxLabelLen ev) = longest ls \<and> longest ls \<le> 63
     \<and> parts_of ls ev \<and> QType ev \<noteq> 0 \<and> QClass ev = 1"

lemma question_finish:
  assumes good: "acc_good ev0 acc" "acc_labels ls acc" and n: "outPos acc \<noteq> 0" "outPos acc \<le> 253"
    and ev: "same_rest ((nev acc)\<lparr>QType := qt, QClass := 1, NameLen := word_of_nat (outPos acc),
       LabelCount := word_of_nat (labelCount acc), MaxLabelLen := word_of_nat (maxLabelLen acc)\<rparr>) (ev\<lparr>Grammar := Grammar (nev acc)\<rparr>)"
      "parts_blank ev" and "qt \<noteq> 0"
  shows "\<exists>ev'. populateDomainParts ev (outPos acc) (labelCount acc) (labelOffsets acc) = Ret ev'
     \<and> same_rest ev ev' \<and> question_event ls ev'"
proof -
  have ok: "acc_ok acc" using good(1) by (simp add: acc_good_def)
  have ls: "dns_labels ls" "labelCount acc = length ls" "outPos acc = length (dotted ls)" "take (outPos acc) (Name (nev acc)) = dotted ls"
    "maxLabelLen acc = longest ls" "\<And>i. i < length ls \<Longrightarrow> unat (labelOffsets acc ! i) = label_start ls i"
    using good(2) by (auto simp: acc_labels_def acc_name_def)
  have b: "event_shape ev" "Name ev = Name (nev acc)" using ev(1) ok by (auto simp: same_rest_def acc_ok_def event_shape_def)
  have c: "length ls \<le> 127" "ls \<noteq> []" "longest ls \<le> 63" using ok ls n by (auto simp: acc_ok_def)
  obtain ev' where ev': "populateDomainParts ev (outPos acc) (length ls) (labelOffsets acc) = Ret ev'" "same_rest ev ev'" "parts_of ls ev'"
    using populateDomainParts_parts[OF b(1) _ _ _ _ ls(1) c(2) ls(3) n(2) c(1), of "labelOffsets acc"] ev(2) b(2) ls ok
    by (auto simp: parts_blank_def acc_ok_def)
  have "FQDN ev' = dotted ls" "unat (LabelCount ev') = length ls" "unat (MaxLabelLen ev') = longest ls" "QType ev' = qt" "QClass ev' = 1"
    using ev(1) ev'(2) b(2) ls n c by (auto simp: same_rest_def FQDN_def byte_len)
  then show ?thesis using ev' ls c n \<open>qt \<noteq> 0\<close> by (simp add: question_event_def)
qed

lemma question_tail_safe:
  assumes good: "acc_good ev0 acc" and ls: "acc_labels ls acc"
  shows "\<exists>r. question_tail tolerant raw offset acc = Ret r
    \<and> (\<forall>ev. r = Inr ev \<longrightarrow> question_event ls ev \<and> same_head ev0 ev)"
proof (cases "length raw < offset + 4 \<or> 253 < outPos acc \<or> outPos acc = 0
    \<or> (be_get (subslice offset (offset + 2) raw) :: u16) = 0 \<or> (be_get (subslice (offset + 2) (offset + 4) raw) :: u16) \<noteq> 1")
  case True
  then show ?thesis by (auto simp: question_tail_def Let_def)
next
  case False
  define ev where "ev = (nev acc)\<lparr>QType := be_get (subslice offset (offset + 2) raw), QClass := 1,
       NameLen := word_of_nat (outPos acc), LabelCount := word_of_nat (labelCount acc), MaxLabelLen := word_of_nat (maxLabelLen acc)\<rparr>"
  define ev1 where "ev1 = (if tolerant then ev\<lparr>Grammar := finaliserGrammaire (Grammar ev)\<rparr> else ev)"
  have "parts_blank ev1" "same_head ev0 ev1"
    using good by (auto simp: ev1_def ev_def acc_good_def parts_blank_def same_head_def)
  moreover have "same_rest ev (ev1\<lparr>Grammar := Grammar (nev acc)\<rparr>)"
    by (simp add: ev1_def ev_def same_rest_def event_shape_def)
  ultimately obtain ev' where "populateDomainParts ev1 (outPos acc) (labelCount acc) (labelOffsets acc) = Ret ev'"
     "same_rest ev1 ev'" "question_event ls ev'" "same_head ev0 ev'"
    using question_finish[OF good ls, of "be_get (subslice offset (offset + 2) raw)" ev1] False
    by (auto simp: ev_def same_head_def same_rest_def)
  moreover have "question_tail tolerant raw offset acc =
      obind (populateDomainParts ev1 (outPos acc) (labelCount acc) (labelOffsets acc)) (\<lambda>ev. Ret (Inr ev))"
    using False by (simp add: question_tail_def Let_def ev1_def ev_def)
  ultimately show ?thesis by auto
qed

lemma query_body_safe:
  "\<exists>r. query_body raw (fresh_event stamp client) tolerant = Ret r
    \<and> (\<forall>ev. r = Inr ev \<longrightarrow> (\<exists>ls. question_event ls ev) \<and> ID ev = be_get (subslice 0 2 raw)
         \<and> EvFlags ev = be_get (subslice 2 4 raw) \<and> EvFlags ev AND 0xf800 = 0
         \<and> Timestamp ev = stamp \<and> ClientIP ev = client)"
proof (cases "length raw < 12 \<or> (be_get (subslice 4 6 raw) :: u16) \<noteq> 1 \<or> be_get (subslice 2 4 raw) AND (0xf800 :: u16) \<noteq> 0")
  case True
  then show ?thesis by (auto simp: query_body_def Let_def)
next
  case False
  define ev1 where "ev1 = (fresh_event stamp client)\<lparr>ID := be_get (subslice 0 2 raw), EvFlags := be_get (subslice 2 4 raw)\<rparr>"
  have ev1: "event_shape ev1" "parts_blank ev1" "same_head ev1 ev1"
    by (simp_all add: ev1_def event_shape_def parts_blank_def same_head_def fresh_event_def)
  obtain r where r: "question_loop tolerant raw 12 (acc_start ev1) = Ret r"
     "\<forall>off acc'. r = Inr (off, acc') \<longrightarrow> acc_good ev1 acc' \<and> 12 < off \<and> off \<le> length raw"
    using question_loop_safe[OF acc_start_good[OF ev1], of tolerant raw 12] by blast
  have body: "query_body raw (fresh_event stamp client) tolerant = (case r of
            Inl err \<Rightarrow> Ret (Inl err)
          | Inr (offset, acc) \<Rightarrow> question_tail tolerant raw offset acc)"
    using False r(1) by (simp add: query_body_def Let_def ev1_def)
  show ?thesis
  proof (cases r)
    case (Inr oa)
    obtain off acc where oa: "oa = (off, acc)" by (cases oa)
    have "acc_good ev1 acc" using r(2) Inr oa by blast
    moreover from this obtain ls where "acc_labels ls acc" by (auto simp: acc_good_def)
    ultimately obtain r' where "question_tail tolerant raw off acc = Ret r'"
      "\<forall>ev. r' = Inr ev \<longrightarrow> question_event ls ev \<and> same_head ev1 ev"
      using question_tail_safe[of ev1 acc ls tolerant raw off] by blast
    then show ?thesis using body Inr oa False by (auto simp: same_head_def ev1_def fresh_event_def)
  qed (simp add: body)
qed

section \<open>Strict against tolerant\<close>

definition plain :: "DNSEvent \<Rightarrow> DNSEvent" where
  "plain ev = ev\<lparr>Grammar := zero_profile\<rparr>"

definition plain_acc :: "name_acc \<Rightarrow> name_acc" where
  "plain_acc acc = acc\<lparr>nev := plain (nev acc)\<rparr>"

lemma plain_acc_sel [simp]: "outPos (plain_acc acc) = outPos acc" "labelCount (plain_acc acc) = labelCount acc"
  "maxLabelLen (plain_acc acc) = maxLabelLen acc" "labelOffsets (plain_acc acc) = labelOffsets acc"
  "nev (plain_acc acc) = plain (nev acc)"
  by (simp_all add: plain_acc_def)

lemma acc_ok_plain: "acc_ok (plain_acc acc) = acc_ok acc"
  by (simp add: acc_ok_def plain_def event_shape_def)

text \<open>The strict decoder either stops at a bad octet or does what the tolerant one does.\<close>

definition strict_sim :: "('a \<Rightarrow> 'a) \<Rightarrow> (dns_error + 'a) outcome \<Rightarrow> (dns_error + 'a) outcome \<Rightarrow> bool" where
  "strict_sim f s t \<longleftrightarrow> s = Ret (Inl ErrInvalidLabel) \<or> s = obind t (\<lambda>r. Ret (map_sum id f r))"

lemma strict_simI: "s = obind t (\<lambda>r. Ret (map_sum id f r)) \<Longrightarrow> strict_sim f s t"
  by (simp add: strict_sim_def)

lemma strict_sim_bind:
  assumes "strict_sim f s t" "\<And>x. t = Ret (Inr x) \<Longrightarrow> strict_sim g (S (f x)) (T x)"
  shows "strict_sim g (obind s (\<lambda>r. case r of Inl err \<Rightarrow> Ret (Inl err) | Inr x \<Rightarrow> S x))
     (obind t (\<lambda>r. case r of Inl err \<Rightarrow> Ret (Inl err) | Inr x \<Rightarrow> T x))"
proof (cases "s = Ret (Inl ErrInvalidLabel)")
  case True
  then show ?thesis by (simp add: strict_sim_def)
next
  case False
  then have "s = obind t (\<lambda>r. Ret (map_sum id f r))" using assms(1) by (simp add: strict_sim_def)
  then show ?thesis using assms(2) by (cases t) (auto simp: strict_sim_def split: sum.splits)
qed

lemma emitted_plain: "emitted False (plain_acc acc) label = plain_acc (emitted True acc label)"
  by (cases acc) (auto simp: emitted_def plain_acc_def plain_def put_label_def Let_def)

lemma emit_label_sim:
  assumes "acc_ok acc" "label \<noteq> []" "length label \<le> 63"
  shows "strict_sim plain_acc (emit_label False (plain_acc acc) label) (emit_label True acc label)"
  using emit_label_spec[OF assms, of True] emit_label_spec[of "plain_acc acc" label False] assms
  by (auto simp: strict_sim_def acc_ok_plain emitted_plain)

lemma label_at:
  assumes "0 < unat (b::byte)" "unat b \<le> 63" "off + 1 + unat b \<le> length raw"
  defines "label \<equiv> subslice (off + 1) (off + 1 + unat b) raw"
  shows "label \<noteq> []" "length label \<le> 63" "slice_at raw (off + 1) (off + 1 + unat b) = Ret label"
proof -
  have "length label = unat b" using assms by (simp add: label_def)
  then show "label \<noteq> []" "length label \<le> 63" using assms(1,2) by force+
  show "slice_at raw (off + 1) (off + 1 + unat b) = Ret label" using assms by simp
qed

lemma pointer_loop_sim:
  "acc_ok acc \<Longrightarrow> strict_sim plain_acc (pointer_loop False raw pOffset (plain_acc acc)) (pointer_loop True raw pOffset acc)"
proof (induction "length raw - pOffset" arbitrary: pOffset acc rule: less_induct)
  case less
  show ?case
  proof (cases "length raw \<le> pOffset \<or> unat (raw ! pOffset) = 0 \<or> raw ! pOffset AND 0xC0 = 0xC0
      \<or> 63 < unat (raw ! pOffset) \<or> length raw < pOffset + 1 + unat (raw ! pOffset)")
    case True
    then show ?thesis
      by (intro strict_simI, subst (1 2) pointer_loop.simps) (auto simp: Let_def)
  next
    case False
    define label where "label = subslice (pOffset + 1) (pOffset + 1 + unat (raw ! pOffset)) raw"
    have lab: "label \<noteq> []" "length label \<le> 63"
      "slice_at raw (pOffset + 1) (pOffset + 1 + unat (raw ! pOffset)) = Ret label"
      using label_at[of "raw ! pOffset" pOffset raw] False by (auto simp: label_def)
    have step: "pointer_loop t raw pOffset a = obind (emit_label t a label) (\<lambda>r. case r of Inl err \<Rightarrow> Ret (Inl err)
          | Inr acc' \<Rightarrow> pointer_loop t raw (pOffset + 1 + unat (raw ! pOffset)) acc')" for t a
      using False lab(3) by (subst pointer_loop.simps) (simp add: Let_def)
    show ?thesis unfolding step
    proof (rule strict_sim_bind[OF emit_label_sim[OF less.prems lab(1,2)]])
      fix acc' assume "emit_label True acc label = Ret (Inr acc')"
      then have "acc_ok acc'"
        using emit_label_spec[OF less.prems lab(1,2), of True] emitted_ok[OF less.prems lab(1,2), of True]
        by (auto split: if_splits)
      then show "strict_sim plain_acc (pointer_loop False raw (pOffset + 1 + unat (raw ! pOffset)) (plain_acc acc'))
          (pointer_loop True raw (pOffset + 1 + unat (raw ! pOffset)) acc')"
        using False by (intro less.hyps) auto
    qed
  qed
qed

lemma question_loop_sim:
  "acc_ok acc \<Longrightarrow> strict_sim (map_prod id plain_acc) (question_loop False raw offset (plain_acc acc)) (question_loop True raw offset acc)"
proof (induction "length raw - offset" arbitrary: offset acc rule: less_induct)
  case less
  consider "length raw \<le> offset \<or> unat (raw ! offset) = 0
      \<or> raw ! offset AND 0xC0 \<noteq> 0xC0 \<and> (63 < unat (raw ! offset) \<or> length raw < offset + 1 + unat (raw ! offset))"
    | "offset < length raw" "unat (raw ! offset) \<noteq> 0" "raw ! offset AND 0xC0 = 0xC0"
    | "offset < length raw" "unat (raw ! offset) \<noteq> 0" "raw ! offset AND 0xC0 \<noteq> 0xC0"
      "unat (raw ! offset) \<le> 63" "offset + 1 + unat (raw ! offset) \<le> length raw" by linarith
  then show ?case
  proof cases
    case 1
    then show ?thesis
      by (intro strict_simI, subst (1 2) question_loop.simps) (auto simp: Let_def)
  next
    case 2
    define target where "target = unat ((be_get (subslice offset (offset + 2) raw) :: u16) AND 0x3FFF)"
    have step: "question_loop t raw offset a =
       (if length raw \<le> offset + 1 then Ret (Inl ErrPacketTooShort)
        else if length raw \<le> target \<or> target < 12 then Ret (Inl ErrInvalidLabel)
        else if target = offset then Ret (Inl ErrLoopPointer)
        else obind (pointer_loop t raw target a) (\<lambda>r. case r of Inl err \<Rightarrow> Ret (Inl err)
               | Inr acc' \<Rightarrow> Ret (Inr (offset + 2, acc'))))" for t a
      using 2 by (subst question_loop.simps) (simp add: Let_def target_def slice_at_def not_le)
    have "strict_sim (map_prod id plain_acc)
       (obind (pointer_loop False raw target (plain_acc acc)) (\<lambda>r. case r of Inl err \<Rightarrow> Ret (Inl err) | Inr acc' \<Rightarrow> Ret (Inr (offset + 2, acc'))))
       (obind (pointer_loop True raw target acc) (\<lambda>r. case r of Inl err \<Rightarrow> Ret (Inl err) | Inr acc' \<Rightarrow> Ret (Inr (offset + 2, acc'))))"
      by (rule strict_sim_bind[OF pointer_loop_sim[OF less.prems]]) (simp add: strict_sim_def)
    then show ?thesis unfolding step by (auto simp: strict_sim_def)
  next
    case 3
    define label where "label = subslice (offset + 1) (offset + 1 + unat (raw ! offset)) raw"
    have lab: "label \<noteq> []" "length label \<le> 63"
      "slice_at raw (offset + 1) (offset + 1 + unat (raw ! offset)) = Ret label"
      using label_at[of "raw ! offset" offset raw] 3 by (auto simp: label_def)
    have step: "question_loop t raw offset a = obind (emit_label t a label) (\<lambda>r. case r of Inl err \<Rightarrow> Ret (Inl err)
          | Inr acc' \<Rightarrow> question_loop t raw (offset + 1 + unat (raw ! offset)) acc')" for t a
      using 3 lab(3) by (subst question_loop.simps) (simp add: Let_def)
    show ?thesis unfolding step
    proof (rule strict_sim_bind[OF emit_label_sim[OF less.prems lab(1,2)]])
      fix acc' assume "emit_label True acc label = Ret (Inr acc')"
      then have "acc_ok acc'"
        using emit_label_spec[OF less.prems lab(1,2), of True] emitted_ok[OF less.prems lab(1,2), of True]
        by (auto split: if_splits)
      then show "strict_sim (map_prod id plain_acc) (question_loop False raw (offset + 1 + unat (raw ! offset)) (plain_acc acc'))
          (question_loop True raw (offset + 1 + unat (raw ! offset)) acc')"
        using less.hyps 3 by simp
    qed
  qed
qed

lemma put_plain:
  "put_parent n p (plain ev) = obind (put_parent n p ev) (\<lambda>e. Ret (plain e))"
  "put_sld p t (plain ev) = obind (put_sld p t ev) (\<lambda>e. Ret (plain e))"
  "put_tld n t (plain ev) = obind (put_tld n t ev) (\<lambda>e. Ret (plain e))"
  "put_sub p (plain ev) = obind (put_sub p ev) (\<lambda>e. Ret (plain e))"
  by (simp_all add: put_parent_def put_sld_def put_tld_def put_sub_def plain_def slice_at_def Let_def)

lemma obind_assoc: "obind (obind x f) g = obind x (\<lambda>y. obind (f y) g)"
  by (cases x) simp_all

lemma populate_plain: "populateDomainParts (plain ev) n c offs = obind (populateDomainParts ev n c offs) (\<lambda>e. Ret (plain e))"
proof -
  have 1: "populate_at (plain ev) n p t = obind (populate_at ev n p t) (\<lambda>e. Ret (plain e))" for p t ev
    by (simp add: populate_at_def put_plain obind_assoc)
  have 2: "Name (plain ev) = Name ev" "ParentDomain (plain ev) = ParentDomain ev" by (simp_all add: plain_def)
  show ?thesis
    by (simp add: populateDomainParts_def 1 2 Let_def obind_assoc) (simp add: plain_def slice_at_def Let_def)
qed

lemma question_tail_plain:
  "question_tail False raw off (plain_acc acc) = obind (question_tail True raw off acc) (\<lambda>r. Ret (map_sum id plain r))"
proof -
  have pl: "(plain ev)\<lparr>QType := a, QClass := b\<rparr> = plain (ev\<lparr>QType := a, QClass := b\<rparr>)"
    "(plain ev)\<lparr>NameLen := x, LabelCount := y, MaxLabelLen := z\<rparr> = plain (ev\<lparr>NameLen := x, LabelCount := y, MaxLabelLen := z\<rparr>)"
    "QType (plain ev) = QType ev" "QClass (plain ev) = QClass ev" for ev a b x y z
    by (cases ev; simp add: plain_def)+
  have "plain (ev\<lparr>Grammar := g\<rparr>) = plain ev" for ev g by (simp add: plain_def)
  then have key: "populateDomainParts (plain ev) n c offs
      = obind (populateDomainParts (ev\<lparr>Grammar := g\<rparr>) n c offs) (\<lambda>e. Ret (plain e))" for ev g n c offs
    using populate_plain[of "ev\<lparr>Grammar := g\<rparr>"] by simp
  then show ?thesis
    by (simp add: question_tail_def Let_def pl obind_assoc key[where g = "finaliserGrammaire (Grammar (nev acc))"])
qed

lemma query_body_sim:
  "strict_sim plain (query_body raw (fresh_event stamp client) False) (query_body raw (fresh_event stamp client) True)"
proof (cases "length raw < 12 \<or> (be_get (subslice 4 6 raw) :: u16) \<noteq> 1 \<or> be_get (subslice 2 4 raw) AND (0xf800 :: u16) \<noteq> 0")
  case True
  then show ?thesis by (intro strict_simI) (auto simp: query_body_def Let_def)
next
  case False
  define ev1 where "ev1 = (fresh_event stamp client)\<lparr>ID := be_get (subslice 0 2 raw), EvFlags := be_get (subslice 2 4 raw)\<rparr>"
  have ok: "acc_ok (acc_start ev1)" "plain_acc (acc_start ev1) = acc_start ev1"
    by (simp_all add: ev1_def event_shape_def fresh_event_def acc_ok_def acc_start_def plain_acc_def plain_def)
  have body: "query_body raw (fresh_event stamp client) t = obind (question_loop t raw 12 (acc_start ev1)) (\<lambda>r. case r of
            Inl err \<Rightarrow> Ret (Inl err)
          | Inr oa \<Rightarrow> (case oa of (offset, acc) \<Rightarrow> question_tail t raw offset acc))" for t
    using False by (simp add: query_body_def Let_def ev1_def)
  show ?thesis unfolding body
    using question_loop_sim[OF ok(1), of raw 12] unfolding ok(2)
    by (rule strict_sim_bind) (auto intro!: strict_simI simp: question_tail_plain)
qed

section \<open>Round trip of an uncompressed question\<close>

definition wire_name :: "bytes list \<Rightarrow> bytes" where
  "wire_name ls = concat (map (\<lambda>l. word_of_nat (length l) # l) ls) @ [0]"

definition wire_query :: "u16 \<Rightarrow> u16 \<Rightarrow> bytes list \<Rightarrow> u16 \<Rightarrow> bytes" where
  "wire_query ident flags ls qtype = be_put 2 ident @ be_put 2 flags @ [0, 1, 0, 0, 0, 0, 0, 0] @ wire_name ls @ be_put 2 qtype @ [0, 1]"

lemma wire_name_Cons: "wire_name (l # ls) = word_of_nat (length l) # l @ wire_name ls"
  by (simp add: wire_name_def)

lemma wire_name_Nil: "wire_name [] = [0]"
  by (simp add: wire_name_def)

lemma small_byte_no_pointer: "k \<le> 63 \<Longrightarrow> (word_of_nat k :: byte) AND 0xC0 \<noteq> 0xC0"
proof
  assume k: "k \<le> 63" and "(word_of_nat k :: byte) AND 0xC0 = 0xC0"
  then have "(0xC0 :: byte) \<le> word_of_nat k" using word_and_le2[of "word_of_nat k :: byte" "0xC0"] by simp
  then show False using k by (simp add: word_le_nat_alt unat_of_nat)
qed

definition clean_label :: "bytes \<Rightarrow> bool" where
  "clean_label l \<longleftrightarrow> l \<noteq> [] \<and> length l \<le> 63 \<and> \<not> list_ex bad_octet l"

lemma question_loop_wire:
  assumes "acc_good ev0 acc" "acc_labels done acc"
    and "\<forall>l \<in> set ls. clean_label l" "length (dotted (done @ ls)) \<le> 253"
  shows "\<exists>acc'. question_loop tolerant (pre @ wire_name ls @ post) (length pre) acc
        = Ret (Inr (length pre + length (wire_name ls), acc'))
     \<and> acc_good ev0 acc' \<and> acc_labels (done @ map (map lower) ls) acc'"
  using assms
proof (induction ls arbitrary: pre acc "done")
  case Nil
  then show ?case by (subst question_loop.simps) (auto simp: wire_name_Nil nth_append)
next
  case (Cons l ls)
  let ?raw = "pre @ wire_name (l # ls) @ post"
  have l: "l \<noteq> []" "length l \<le> 63" "\<not> list_ex bad_octet l" using Cons.prems(3) by (auto simp: clean_label_def)
  have ok: "acc_ok acc" "outPos acc = length (dotted done)" using Cons.prems by (auto simp: acc_good_def acc_labels_def)
  have fits: "\<not> 254 < outPos acc + length l + 1"
  proof (cases "done = []")
    case False
    have "dotted (done @ l # ls) = dotted done @ 0x2E # dotted (l # ls)" using False by (simp add: dotted_append)
    moreover have "length l \<le> length (dotted (l # ls))" by (cases ls) auto
    ultimately show ?thesis using Cons.prems(4) ok by simp
  qed (use ok l in auto)
  have em: "emit_label tolerant acc l = Ret (Inr (emitted tolerant acc l))"
    using emit_label_spec[OF ok(1) l(1,2), of tolerant] fits l(3) by simp
  have good: "acc_good ev0 (emitted tolerant acc l)"
    using emit_label_result[OF Cons.prems(1) l(1,2), of tolerant] em by auto
  have labs: "acc_labels (done @ [map lower l]) (emitted tolerant acc l)"
    using emitted_labels[OF ok(1) Cons.prems(2) l(1,2) fits] by simp
  have b: "unat (word_of_nat (length l) :: byte) = length l" using l by (simp add: byte_len)
  have step: "question_loop tolerant ?raw (length pre) acc
      = question_loop tolerant ((pre @ word_of_nat (length l) # l) @ wire_name ls @ post) (length (pre @ word_of_nat (length l) # l)) (emitted tolerant acc l)"
    using em l small_byte_no_pointer[OF l(2)] b
    by (subst question_loop.simps) (simp add: wire_name_Cons nth_append Let_def subslice_def)
  have len: "length (dotted ((done @ [map lower l]) @ ls)) \<le> 253"
    using Cons.prems(4) by (simp add: length_dotted)
  obtain acc' where "question_loop tolerant ((pre @ word_of_nat (length l) # l) @ wire_name ls @ post) (length (pre @ word_of_nat (length l) # l)) (emitted tolerant acc l)
     = Ret (Inr (length (pre @ word_of_nat (length l) # l) + length (wire_name ls), acc'))"
     "acc_good ev0 acc'" "acc_labels ((done @ [map lower l]) @ map (map lower) ls) acc'"
    using Cons.IH[OF good labs _ len, of "pre @ word_of_nat (length l) # l"] Cons.prems(3) by auto
  then show ?case using step by (auto simp: wire_name_Cons)
qed

section \<open>The textual decoder\<close>

lemma longest_le: "dns_labels ls \<Longrightarrow> longest ls \<le> 63"
proof -
  have "m \<le> 63 \<Longrightarrow> \<forall>l \<in> set ls. length l \<le> 63 \<Longrightarrow> fold max (map length ls) m \<le> 63" for m
    by (induction ls arbitrary: m) auto
  then show "dns_labels ls \<Longrightarrow> longest ls \<le> 63" by (simp add: longest_def dns_labels_def)
qed

lemma dotted_long: "dns_labels ls \<Longrightarrow> 2 * length ls \<le> length (dotted ls) + 1"
proof (induction ls rule: dotted.induct)
  case (3 l m ls)
  then have "2 * length (m # ls) \<le> length (dotted (m # ls)) + 1" "0 < length l" by (auto simp: dns_labels_def)
  then show ?case by (simp del: length_greater_0_conv)
qed (auto simp: dns_labels_def Suc_le_eq)

lemma acc_labels_ok:
  assumes "acc_labels ls acc" "event_shape (nev acc)" "length (labelOffsets acc) = 128" "outPos acc \<le> 254"
  shows "acc_ok acc"
proof -
  have d: "dns_labels ls" using assms(1) by (simp add: acc_labels_def)
  then show ?thesis using assms dotted_long[OF d] dotted_eq_Nil[OF d] longest_le[OF d] label_start_le[of _ ls]
    by (auto simp: acc_labels_def acc_ok_def)
qed

definition dotfree :: "bytes list \<Rightarrow> bool" where
  "dotfree ls \<longleftrightarrow> (\<forall>l \<in> set ls. 0x2E \<notin> set l)"

lemma dotfree_simps [simp]: "dotfree []" "dotfree (l # ls) \<longleftrightarrow> 0x2E \<notin> set l \<and> dotfree ls"
  "dotfree (ls @ ms) \<longleftrightarrow> dotfree ls \<and> dotfree ms"
  by (auto simp: dotfree_def)

lemma dotted_head: "0x2E \<notin> set l \<Longrightarrow> takeWhile (\<lambda>b. b \<noteq> 0x2E) (dotted (l # ls)) = l"
  by (cases ls) (auto simp: takeWhile_append)

lemma dotted_inj:
  "dotfree ls \<Longrightarrow> dotfree ms \<Longrightarrow> ls \<noteq> [] \<Longrightarrow> ms \<noteq> [] \<Longrightarrow> dotted ls = dotted ms \<Longrightarrow> ls = ms"
proof (induction ls arbitrary: ms)
  case (Cons l ls)
  obtain m ms' where ms: "ms = m # ms'" using Cons.prems by (cases ms) auto
  have lm: "l = m" using dotted_head[of l ls] dotted_head[of m ms'] Cons.prems ms by simp
  have iff: "ls = [] \<longleftrightarrow> ms' = []"
    using Cons.prems(5) lm ms by (cases ls; cases ms') auto
  show ?case
  proof (cases "ls = []")
    case False
    then have "dotted ls = dotted ms'" using Cons.prems(5) lm ms iff by (cases ls; cases ms') auto
    then show ?thesis using Cons.IH[of ms'] Cons.prems False iff ms lm by simp
  qed (use iff ms lm in simp)
qed simp

lemma lower_eq_dot: "lower b = 0x2E \<Longrightarrow> b = 0x2E"
proof -
  have "lower b \<noteq> 0x2E" if "0x41 \<le> b" "b \<le> 0x5A"
  proof -
    have "unat (b + 32) = unat b + 32"
      using that by (subst unat_plus_simple[THEN iffD1]) (auto simp: word_le_nat_alt unat_word_ariths)
    then have "b + 32 \<noteq> 0x2E" using that by (auto simp: word_le_nat_alt)
    then show ?thesis using that by (simp add: lower_def)
  qed
  then show "lower b = 0x2E \<Longrightarrow> b = 0x2E" by (auto simp: lower_def split: if_splits)
qed

text \<open>In the loop: \<open>ls\<close> are the finished labels, \<open>cur\<close> the bytes of the label under way.\<close>

definition text_inv :: "DNSEvent \<Rightarrow> bytes list \<Rightarrow> bytes \<Rightarrow> nat \<Rightarrow> nat \<Rightarrow> name_acc \<Rightarrow> bool" where
  "text_inv ev0 ls cur i labelStart acc \<longleftrightarrow> dns_labels ls \<and> labelStart = label_start (ls @ [cur]) (length ls)
     \<and> i = labelStart + length cur \<and> labelCount acc = length ls \<and> maxLabelLen acc = longest ls
     \<and> (\<forall>j < length ls. unat (labelOffsets acc ! j) = label_start ls j) \<and> length (labelOffsets acc) = 128
     \<and> take i (Name (nev acc)) = dotted (ls @ [cur]) \<and> event_shape (nev acc) \<and> parts_blank (nev acc) \<and> same_head ev0 (nev acc)
     \<and> dotfree (ls @ [cur])"

lemma text_inv_name: "text_inv ev0 ls cur i labelStart acc \<Longrightarrow> take i (Name (nev acc)) = dotted (ls @ [cur])"
  "text_inv ev0 ls cur i labelStart acc \<Longrightarrow> length (Name (nev acc)) = 256"
  unfolding text_inv_def event_shape_def by blast+

text \<open>Closing the label under way.\<close>

lemma text_inv_close:
  assumes inv: "text_inv ev0 ls cur i labelStart acc" and "cur \<noteq> []" "length cur \<le> 63" "i \<le> 253"
  defines "acc' \<equiv> acc\<lparr>labelOffsets := (labelOffsets acc)[length ls := word_of_nat labelStart], labelCount := Suc (length ls),
       maxLabelLen := max (maxLabelLen acc) (length cur), outPos := i\<rparr>"
  shows "length ls < 128" "acc_labels (ls @ [cur]) acc'" "acc_good ev0 acc'"
proof -
  have i: "i = length (dotted (ls @ [cur]))"
    using inv by (cases "ls = []") (auto simp: text_inv_def label_start_def dotted_append)
  have d: "dns_labels (ls @ [cur])" using inv assms(2,3) by (auto simp: text_inv_def dns_labels_def)
  show n: "length ls < 128" using dotted_long[OF d] i assms(4) by simp
  have t: "take i (Name (nev acc)) = dotted (ls @ [cur])" "maxLabelLen acc = longest ls" using inv by (auto simp: text_inv_def)
  have "labelStart < 256" using inv assms(4) by (simp add: text_inv_def)
  then have "unat ((labelOffsets acc)[length ls := word_of_nat labelStart] ! j) = label_start (ls @ [cur]) j" if "j < Suc (length ls)" for j
    using inv that n by (cases "j = length ls") (auto simp: text_inv_def label_start_append unat_of_nat)
  then show lab: "acc_labels (ls @ [cur]) acc'"
    using d i t by (simp add: acc_labels_def acc'_def acc_name_def longest_def max.commute)
  then show "acc_good ev0 acc'"
    using acc_labels_ok[OF lab] inv assms(4) unfolding acc_good_def by (auto simp: acc'_def text_inv_def)
qed

lemma text_inv_dot:
  assumes inv: "text_inv ev0 ls cur i labelStart acc" and "cur \<noteq> []" "length cur \<le> 63" "i \<le> 253"
  shows "text_inv ev0 (ls @ [cur]) [] (Suc i) (Suc i)
    (acc\<lparr>labelOffsets := (labelOffsets acc)[length ls := word_of_nat labelStart], labelCount := Suc (length ls),
       maxLabelLen := max (maxLabelLen acc) (length cur), nev := (nev acc)\<lparr>Name := (Name (nev acc))[i := 0x2E]\<rparr>\<rparr>)"
proof -
  note cl = text_inv_close[OF assms]
  have i: "i = length (dotted (ls @ [cur]))" using cl(2) by (simp add: acc_labels_def)
  have "dotted (ls @ [cur, []]) = dotted (ls @ [cur]) @ [0x2E]" using dotted_append[of "ls @ [cur]" "[[]]"] by simp
  then have "take (Suc i) ((Name (nev acc))[i := 0x2E]) = dotted (ls @ [cur, []])"
    using text_inv_name[OF inv] assms(4) by (simp add: take_Suc_conv_app_nth)
  moreover have "Suc i = label_start ((ls @ [cur]) @ [[]]) (length (ls @ [cur]))" using i by (simp add: label_start_def)
  ultimately show ?thesis using cl inv
    by (simp add: text_inv_def acc_labels_def event_shape_def parts_blank_def same_head_def)
qed

lemma text_inv_byte:
  assumes inv: "text_inv ev0 ls cur i labelStart acc" and "i \<le> 253"
    and ev1: "ev1 = nev acc \<or> ev1 = (nev acc)\<lparr>HasEncoding := True\<rparr>" and "b \<noteq> 0x2E"
  shows "text_inv ev0 ls (cur @ [b]) (Suc i) labelStart (acc\<lparr>nev := ev1\<lparr>Name := (Name ev1)[i := b]\<rparr>\<rparr>)"
proof -
  have n: "Name ev1 = Name (nev acc)" "length (Name (nev acc)) = 256" using ev1 inv by (auto simp: text_inv_def event_shape_def)
  have "take (Suc i) ((Name ev1)[i := b]) = dotted (ls @ [cur]) @ [b]"
    using text_inv_name[OF inv] n assms(2) by (simp add: take_Suc_conv_app_nth)
  also have "\<dots> = dotted (ls @ [cur @ [b]])" by (cases "ls = []") (simp_all add: dotted_append)
  finally show ?thesis using inv n ev1 assms(4)
    by (auto simp: text_inv_def label_start_def event_shape_def parts_blank_def same_head_def)
qed

lemma lower_dot: "lower 0x2E = 0x2E"
  by (simp add: lower_def)

lemma text_loop_safe:
  "text_inv ev0 ls cur i labelStart acc \<Longrightarrow> i + length t \<le> 253 \<Longrightarrow>
   \<exists>r. text_loop t i labelStart acc = Ret r
     \<and> (\<forall>s acc'. r = Inr (s, acc') \<longrightarrow> (\<exists>ls' cur'. text_inv ev0 ls' cur' (i + length t) s acc'
           \<and> dotted (ls' @ [cur']) = dotted (ls @ [cur]) @ map lower t))"
proof (induction t arbitrary: ls cur i labelStart acc)
  case Nil
  then show ?case by auto
next
  case (Cons b0 t)
  have c: "i - labelStart = length cur" "length (labelOffsets acc) = 128" "labelCount acc = length ls" "length (Name (nev acc)) = 256"
    using Cons.prems by (auto simp: text_inv_def event_shape_def)
  consider (bad) "b0 = 0x2E" "cur = [] \<or> 63 < length cur" | (dot) "b0 = 0x2E" "cur \<noteq> []" "length cur \<le> 63"
    | (oct) "b0 \<noteq> 0x2E" "bad_octet b0" | (byte) "b0 \<noteq> 0x2E" "\<not> bad_octet b0" by linarith
  then show ?case
  proof cases
    case bad
    then show ?thesis using c by (simp add: Let_def)
  next
    case oct
    then show ?thesis by (simp add: Let_def bad_octet_def)
  next
    case dot
    let ?acc = "acc\<lparr>labelOffsets := (labelOffsets acc)[length ls := word_of_nat labelStart], labelCount := Suc (length ls),
       maxLabelLen := max (maxLabelLen acc) (length cur), nev := (nev acc)\<lparr>Name := (Name (nev acc))[i := 0x2E]\<rparr>\<rparr>"
    have i: "i \<le> 253" using Cons.prems by simp
    have "text_loop (b0 # t) i labelStart acc = text_loop t (Suc i) (Suc i) ?acc"
      using dot c Cons.prems(2) text_inv_close(1)[OF Cons.prems(1) dot(2,3) i] by (simp add: Let_def write_at_def)
    moreover have "dotted ((ls @ [cur]) @ [[]]) = dotted (ls @ [cur]) @ [0x2E]" by (subst dotted_append) simp_all
    ultimately show ?thesis
      using Cons.IH[OF text_inv_dot[OF Cons.prems(1) dot(2,3) i]] Cons.prems(2) dot(1) lower_dot by simp
  next
    case byte
    define ev1 where "ev1 = (if \<not> dnsLabelByte (lower b0) then (nev acc)\<lparr>HasEncoding := True\<rparr> else nev acc)"
    have ev1: "ev1 = nev acc \<or> ev1 = (nev acc)\<lparr>HasEncoding := True\<rparr>" "Name ev1 = Name (nev acc)" by (auto simp: ev1_def)
    have i: "i \<le> 253" using Cons.prems by simp
    have "text_loop (b0 # t) i labelStart acc = text_loop t (Suc i) labelStart (acc\<lparr>nev := ev1\<lparr>Name := (Name ev1)[i := lower b0]\<rparr>\<rparr>)"
      using byte c i ev1(2) unfolding ev1_def bad_octet_def by (auto simp: Let_def write_at_def)
    moreover have "dotted (ls @ [cur @ [lower b0]]) = dotted (ls @ [cur]) @ [lower b0]"
      by (cases "ls = []") (simp_all add: dotted_append)
    ultimately show ?thesis
      using Cons.IH[OF text_inv_byte[OF Cons.prems(1) i ev1(1), of "lower b0"]] Cons.prems(2) lower_eq_dot[of b0] byte(1) by auto
  qed
qed

lemma name_body_safe:
  "\<exists>r. name_body qname qtype (fresh_event stamp client) = Ret r
    \<and> (\<forall>ev. r = Inr ev \<longrightarrow> (\<exists>ls. question_event ls ev \<and> dotfree ls \<and> dotted ls = map lower (strip_dot qname))
         \<and> QType ev = qtype \<and> Timestamp ev = stamp \<and> ClientIP ev = client)"
proof (cases "qtype = 0 \<or> strip_dot qname = [] \<or> 253 < length (strip_dot qname)")
  case True
  then show ?thesis by (auto simp: name_body_def Let_def)
next
  case False
  define n where "n = length (strip_dot qname)"
  define ev1 where "ev1 = fresh_event stamp client"
  have inv: "text_inv ev1 [] [] 0 0 (acc_start ev1)"
    by (simp add: text_inv_def acc_start_def dns_labels_def label_start_def longest_def ev1_def fresh_event_def
        event_shape_def parts_blank_def same_head_def)
  obtain r where r: "text_loop (strip_dot qname) 0 0 (acc_start ev1) = Ret r"
    "\<forall>s acc. r = Inr (s, acc) \<longrightarrow> (\<exists>ls cur. text_inv ev1 ls cur n s acc \<and> dotted (ls @ [cur]) = map lower (strip_dot qname))"
    using text_loop_safe[OF inv, of "strip_dot qname"] False by (auto simp: n_def)
  have body: "name_body qname qtype ev1 = (case r of
            Inl err \<Rightarrow> Ret (Inl err)
          | Inr (labelStart, acc) \<Rightarrow> text_tail n qtype labelStart acc)"
    using False r(1) unfolding n_def by (simp add: name_body_def)
  show ?thesis
  proof (cases r)
    case (Inl err)
    then show ?thesis using body by (simp add: ev1_def)
  next
    case (Inr oa)
    obtain s acc where oa: "oa = (s, acc)" by (cases oa)
    obtain ls cur where inv: "text_inv ev1 ls cur n s acc" and nm: "dotted (ls @ [cur]) = map lower (strip_dot qname)"
      using r(2) Inr oa by blast
    have n: "n - s = length cur" "n \<le> 253" "n \<noteq> 0" using inv False by (auto simp: text_inv_def n_def)
    show ?thesis
    proof (cases "cur = [] \<or> 63 < length cur")
      case True
      then show ?thesis using body Inr oa n by (auto simp: text_tail_def Let_def ev1_def)
    next
      case ok: False
      define acc' where "acc' = acc\<lparr>labelOffsets := (labelOffsets acc)[length ls := word_of_nat s], labelCount := Suc (length ls),
       maxLabelLen := max (maxLabelLen acc) (length cur), outPos := n\<rparr>"
      have cl: "length ls < 128" "acc_labels (ls @ [cur]) acc'" "acc_good ev1 acc'"
        using text_inv_close[OF inv _ _ n(2)] ok by (auto simp: acc'_def)
      define ev where "ev = (nev acc)\<lparr>QType := qtype, QClass := 1, NameLen := word_of_nat n, LabelCount := word_of_nat (Suc (length ls)),
                          MaxLabelLen := word_of_nat (max (maxLabelLen acc) (length cur))\<rparr>"
      have "text_tail n qtype s acc = obind (populateDomainParts ev n (Suc (length ls)) (labelOffsets acc')) (\<lambda>ev. Ret (Inr ev))"
        using ok n cl(1) inv unfolding text_tail_def ev_def acc'_def by (auto simp: Let_def write_at_def text_inv_def)
      moreover obtain ev' where "populateDomainParts ev n (Suc (length ls)) (labelOffsets acc') = Ret ev'"
        "same_rest ev ev'" "question_event (ls @ [cur]) ev'"
        using question_finish[OF cl(3,2), of qtype ev] n False inv
        by (auto simp: ev_def acc'_def same_rest_def event_shape_def parts_blank_def text_inv_def)
      moreover have "Timestamp ev = stamp" "ClientIP ev = client" "QType ev = qtype"
        using inv by (auto simp: text_inv_def ev_def same_head_def ev1_def fresh_event_def)
      moreover have "dotfree (ls @ [cur])" using inv by (simp add: text_inv_def)
      ultimately show ?thesis using body Inr oa nm by (auto simp: same_rest_def ev1_def)
    qed
  qed
qed

section \<open>Properties\<close>

text \<open>
  C10.  The wire decoder never reads or writes out of bounds, on any packet, strict or tolerant.
  On an error the event holds only the caller's timestamp and address; on success it holds a
  name of one to 127 labels of one to 63 octets, at most 253 octets long, and the parent domain,
  registrable label, public suffix and subdomain are cut exactly at the label boundaries.
\<close>
theorem dns_query_safe:
  "\<exists>err ev'. parseDNSQueryWire raw (Some ev) tolerant = Ret (err, Some ev')
     \<and> Timestamp ev' = Timestamp ev \<and> ClientIP ev' = ClientIP ev
     \<and> (err \<noteq> None \<longrightarrow> ev' = fresh_event (Timestamp ev) (ClientIP ev))
     \<and> (err = None \<longrightarrow> ID ev' = be_get (subslice 0 2 raw) \<and> EvFlags ev' AND 0xf800 = 0 \<and> (\<exists>ls. question_event ls ev'))"
proof -
  obtain r where r: "query_body raw (fresh_event (Timestamp ev) (ClientIP ev)) tolerant = Ret r"
    "\<forall>e. r = Inr e \<longrightarrow> (\<exists>ls. question_event ls e) \<and> ID e = be_get (subslice 0 2 raw)
         \<and> EvFlags e AND 0xf800 = 0
         \<and> Timestamp e = Timestamp ev \<and> ClientIP e = ClientIP ev"
    using query_body_safe by blast
  have fr: "Timestamp (fresh_event a b) = a" "ClientIP (fresh_event a b) = b" for a b by (simp_all add: fresh_event_def)
  show ?thesis
  proof (cases r)
    case (Inl err)
    then show ?thesis using r(1) by (simp add: parseDNSQueryWire_def Let_def fr)
  next
    case (Inr e)
    then have "parseDNSQueryWire raw (Some ev) tolerant = Ret (None, Some e)"
      using r(1) by (simp add: parseDNSQueryWire_def Let_def)
    then show ?thesis using r(2) Inr by simp
  qed
qed

theorem dns_query_safe_witness:
  "\<exists>ev'. parseDNSQueryWire (wire_query 7 0x100 [ascii ''ww'', ascii ''Ex'', ascii ''co'', ascii ''uk''] 1)
        (Some (fresh_event 5 [])) False = Ret (None, Some ev')
     \<and> Timestamp ev' = 5 \<and> ID ev' = 7 \<and> (\<exists>ls. question_event ls ev')"
proof -
  let ?raw = "wire_query 7 0x100 [ascii ''ww'', ascii ''Ex'', ascii ''co'', ascii ''uk''] 1"
  have "case parseDNSQueryWire ?raw (Some (fresh_event 5 [])) False of Ret (err, _) \<Rightarrow> err = None | Panic \<Rightarrow> False"
    by code_simp
  moreover have "subslice 0 2 ?raw = [0, 7]" by code_simp
  moreover have "be_get [0, 7] = (7 :: u16)" by code_simp
  ultimately show ?thesis using dns_query_safe[of ?raw "fresh_event 5 []" False] by (auto simp: fresh_event_def)
qed

text \<open>The textual decoder never writes out of bounds, resets the event on an error, and what it
  accepts is the name itself in lower case without its final dot, of one to 127 labels of one to
  63 octets, with the domain parts cut at the label boundaries.
\<close>

lemma dns_name_safe:
  "\<exists>err ev'. ParseDNSName qname qtype (Some ev) = Ret (err, Some ev')
     \<and> Timestamp ev' = Timestamp ev \<and> ClientIP ev' = ClientIP ev
     \<and> (err \<noteq> None \<longrightarrow> ev' = fresh_event (Timestamp ev) (ClientIP ev))
     \<and> (err = None \<longrightarrow> QType ev' = qtype \<and> (\<exists>ls. question_event ls ev' \<and> dotfree ls \<and> dotted ls = map lower (strip_dot qname)))"
proof -
  obtain r where r: "name_body qname qtype (fresh_event (Timestamp ev) (ClientIP ev)) = Ret r"
    "\<forall>e. r = Inr e \<longrightarrow> (\<exists>ls. question_event ls e \<and> dotfree ls \<and> dotted ls = map lower (strip_dot qname))
         \<and> QType e = qtype \<and> Timestamp e = Timestamp ev \<and> ClientIP e = ClientIP ev"
    using name_body_safe by blast
  have fr: "Timestamp (fresh_event a b) = a" "ClientIP (fresh_event a b) = b" for a b by (simp_all add: fresh_event_def)
  show ?thesis
  proof (cases r)
    case (Inl err)
    then show ?thesis using r(1) by (simp add: ParseDNSName_def Let_def fr)
  next
    case (Inr e)
    then have "ParseDNSName qname qtype (Some ev) = Ret (None, Some e)"
      using r(1) by (simp add: ParseDNSName_def Let_def)
    then show ?thesis using r(2) Inr by simp
  qed
qed

text \<open>
  C11.  A question in the plain encoding, of labels the strict decoder admits, is decoded to its
  own labels in lower case, with its own identifier, flags and type.
\<close>
theorem dns_query_roundtrip:
  assumes "ls \<noteq> []" "\<forall>l \<in> set ls. clean_label l" "length (dotted ls) \<le> 253"
    and "flags AND 0xf800 = 0" "qtype \<noteq> 0"
  shows "\<exists>ev'. parseDNSQueryWire (wire_query ident flags ls qtype) (Some ev) tolerant = Ret (None, Some ev')
     \<and> question_event (map (map lower) ls) ev' \<and> ID ev' = ident \<and> EvFlags ev' = flags \<and> QType ev' = qtype"
proof -
  let ?raw = "wire_query ident flags ls qtype"
  let ?pre = "be_put 2 ident @ be_put 2 flags @ [0, 1, 0, 0, 0, 0, 0, 0]"
  have raw: "?raw = ?pre @ wire_name ls @ (be_put 2 qtype @ [0, 1])" by (simp add: wire_query_def)
  have head: "subslice 0 2 ?raw = be_put 2 ident" "subslice 2 4 ?raw = be_put 2 flags" "subslice 4 6 ?raw = [0, 1]"
    by (simp_all add: wire_query_def subslice_def)
  have one: "be_get [0, 1] = (1 :: u16)" by (simp add: be_get_def le_get_def)
  define ev1 where "ev1 = (fresh_event (Timestamp ev) (ClientIP ev))\<lparr>ID := ident, EvFlags := flags\<rparr>"
  have ev1: "event_shape ev1" "parts_blank ev1" "same_head ev1 ev1"
    by (simp_all add: ev1_def event_shape_def parts_blank_def same_head_def fresh_event_def)
  have nil: "acc_labels [] (acc_start ev1)"
    by (simp add: acc_labels_def acc_start_def dns_labels_def acc_name_def longest_def)
  obtain acc where acc: "question_loop tolerant ?raw 12 (acc_start ev1) = Ret (Inr (12 + length (wire_name ls), acc))"
     "acc_good ev1 acc" "acc_labels (map (map lower) ls) acc"
    using question_loop_wire[OF acc_start_good[OF ev1] nil assms(2), of tolerant ?pre "be_put 2 qtype @ [0, 1]"] assms(3)
    unfolding raw[symmetric] by auto
  have tail: "subslice (12 + length (wire_name ls)) (12 + length (wire_name ls) + 2) ?raw = be_put 2 qtype"
    "subslice (12 + length (wire_name ls) + 2) (12 + length (wire_name ls) + 4) ?raw = [0, 1]"
    using subslice_append_mid[of "?pre @ wire_name ls" _ "be_put 2 qtype" _ "[0, 1]"]
      subslice_append_mid[of "?pre @ wire_name ls @ be_put 2 qtype" _ "[0, 1]" _ "[]"]
    by (simp_all add: wire_query_def)
  have n: "outPos acc = length (dotted ls)"
    using acc(3) by (simp add: acc_labels_def length_dotted comp_def)
  moreover have "dotted ls \<noteq> []"
    using assms(1,2) dotted_eq_Nil[of ls] by (auto simp: dns_labels_def clean_label_def)
  ultimately have n: "outPos acc = length (dotted ls)" "outPos acc \<noteq> 0" by simp_all
  define ev2 where "ev2 = (nev acc)\<lparr>QType := qtype, QClass := 1,
       NameLen := word_of_nat (outPos acc), LabelCount := word_of_nat (labelCount acc), MaxLabelLen := word_of_nat (maxLabelLen acc)\<rparr>"
  define ev3 where "ev3 = (if tolerant then ev2\<lparr>Grammar := finaliserGrammaire (Grammar ev2)\<rparr> else ev2)"
  have "parts_blank ev3" "same_head ev1 ev3" "QType ev3 = qtype"
    using acc(2) by (auto simp: ev3_def ev2_def acc_good_def parts_blank_def same_head_def)
  moreover have "same_rest ev2 (ev3\<lparr>Grammar := Grammar (nev acc)\<rparr>)"
    by (simp add: ev3_def ev2_def same_rest_def event_shape_def)
  ultimately obtain ev' where ev': "populateDomainParts ev3 (outPos acc) (labelCount acc) (labelOffsets acc) = Ret ev'"
     "same_head ev1 ev'" "question_event (map (map lower) ls) ev'" "QType ev' = qtype"
    using question_finish[OF acc(2,3) n(2), of qtype ev3] n assms(3,5)
    by (auto simp: ev2_def same_head_def same_rest_def)
  have "question_tail tolerant ?raw (12 + length (wire_name ls)) acc = Ret (Inr ev')"
  proof -
    have "length ?raw = 16 + length (wire_name ls)" by (simp add: wire_query_def)
    then show ?thesis using n assms(3,5) ev'(1) unfolding question_tail_def tail ev3_def ev2_def
      by (cases tolerant) (simp_all add: codec_simps one)
  qed
  moreover have "query_body ?raw (fresh_event (Timestamp ev) (ClientIP ev)) tolerant = question_tail tolerant ?raw (12 + length (wire_name ls)) acc"
    using acc(1) assms(4) unfolding query_body_def head
    by (simp add: codec_simps one Let_def ev1_def) (simp add: wire_query_def)
  ultimately have "query_body ?raw (fresh_event (Timestamp ev) (ClientIP ev)) tolerant = Ret (Inr ev')" by simp
  then show ?thesis using ev' by (auto simp: parseDNSQueryWire_def Let_def same_head_def ev1_def)
qed

theorem dns_query_roundtrip_witness:
  "\<exists>ev'. parseDNSQueryWire (wire_query 7 0x100 [ascii ''ww'', ascii ''Ex''] 1) (Some (fresh_event 5 [])) True = Ret (None, Some ev')
     \<and> question_event [ascii ''ww'', ascii ''ex''] ev' \<and> ID ev' = 7 \<and> EvFlags ev' = 0x100 \<and> QType ev' = 1"
proof -
  have "\<forall>l \<in> set [ascii ''ww'', ascii ''Ex'']. clean_label l" by code_simp
  moreover have "map (map lower) [ascii ''ww'', ascii ''Ex''] = [ascii ''ww'', ascii ''ex'']" by code_simp
  ultimately show ?thesis
    using dns_query_roundtrip[of "[ascii ''ww'', ascii ''Ex'']" "0x100" 1 7 "fresh_event 5 []" True] by simp
qed

text \<open>The tolerant decoder applies exactly the structural refusals of the strict one: on every
  packet the strict decoder either refuses with an invalid label or returns the same verdict, and
  the same event up to the grammar survey.
\<close>

lemma dns_tolerant_extends_strict:
  "\<exists>es e1 et e2. ParseDNSQuery raw (Some ev) = Ret (es, Some e1) \<and> ParseDNSQueryTolerant raw (Some ev) = Ret (et, Some e2)
     \<and> (es = Some ErrInvalidLabel \<or> es = et \<and> e1 = e2\<lparr>Grammar := zero_profile\<rparr>)"
proof -
  obtain t where t: "query_body raw (fresh_event (Timestamp ev) (ClientIP ev)) True = Ret t"
    using query_body_safe by blast
  have fr: "(fresh_event a b)\<lparr>Grammar := zero_profile\<rparr> = fresh_event a b" for a b by (simp add: fresh_event_def)
  have "strict_sim plain (query_body raw (fresh_event (Timestamp ev) (ClientIP ev)) False) (Ret t)"
    using query_body_sim t by metis
  then show ?thesis using t
    by (cases t) (auto simp: strict_sim_def ParseDNSQuery_def ParseDNSQueryTolerant_def parseDNSQueryWire_def Let_def plain_def fr)
qed

end
