(* ===== verification/DnsMessage.thy ===== *)
theory DnsMessage
  imports DnsWire
begin

text \<open>
  The complete-message decoder of \<open>dns_message.go\<close>: names with chained
  compression pointers (at most eight jumps, strictly backwards), the question,
  and the three resource-record sections.  The buffers a failing call has
  written are part of the result, as the caller sees them.
\<close>

abbreviation MaxDNSMessageRRs :: nat where "MaxDNSMessageRRs \<equiv> 16"
abbreviation MaxDNSRDataBytes :: nat where "MaxDNSRDataBytes \<equiv> 1536"
abbreviation maxPointerJumps :: nat where "maxPointerJumps \<equiv> 8"

record DNSRR =
  rrNameLen :: byte
  rrName :: bytes
  rrType :: u16
  rrClass :: u16
  rrTTL :: u32
  rrRDLength :: u16
  rrRDataLen :: u16
  rrRData :: bytes

definition zero_rr :: DNSRR where
  "zero_rr = \<lparr>rrNameLen = 0, rrName = replicate 256 0, rrType = 0, rrClass = 0, rrTTL = 0, rrRDLength = 0,
     rrRDataLen = 0, rrRData = replicate 1536 0\<rparr>"

record DNSMessage =
  mID :: u16
  mFlags :: u16
  IsResponse :: bool
  Opcode :: byte
  AA :: bool
  TC :: bool
  RD :: bool
  RA :: bool
  RCode :: byte
  QDCount :: u16
  ANCount :: u16
  NSCount :: u16
  ARCount :: u16
  mQType :: u16
  mQClass :: u16
  QNameLen :: byte
  QName :: bytes
  mSubdomainLen :: byte
  mSubdomain :: bytes
  mParentDomainLen :: byte
  mParentDomain :: bytes
  mSLDLen :: byte
  mSLD :: bytes
  mTLDLen :: byte
  mTLD :: bytes
  mLabelCount :: byte
  mMaxLabelLen :: byte
  HasNonLDH :: bool
  FirstLabelUpper :: byte
  FirstLabelLower :: byte
  FirstLabelDigits :: byte
  FirstLabelHasZeroOIl :: bool
  FirstLabelHasHyphen :: bool
  AnswerCount :: byte
  Answers :: "DNSRR list"
  AuthorityCount :: byte
  Authorities :: "DNSRR list"
  AdditionalCount :: byte
  Additionals :: "DNSRR list"

definition zero_message :: DNSMessage where
  "zero_message = \<lparr>mID = 0, mFlags = 0, IsResponse = False, Opcode = 0, AA = False, TC = False, RD = False, RA = False,
     RCode = 0, QDCount = 0, ANCount = 0, NSCount = 0, ARCount = 0, mQType = 0, mQClass = 0, QNameLen = 0,
     QName = replicate 256 0, mSubdomainLen = 0, mSubdomain = replicate 256 0, mParentDomainLen = 0,
     mParentDomain = replicate 128 0, mSLDLen = 0, mSLD = replicate 64 0, mTLDLen = 0, mTLD = replicate 64 0,
     mLabelCount = 0, mMaxLabelLen = 0, HasNonLDH = False, FirstLabelUpper = 0, FirstLabelLower = 0,
     FirstLabelDigits = 0, FirstLabelHasZeroOIl = False, FirstLabelHasHyphen = False,
     AnswerCount = 0, Answers = replicate 16 zero_rr, AuthorityCount = 0, Authorities = replicate 16 zero_rr,
     AdditionalCount = 0, Additionals = replicate 16 zero_rr\<rparr>"

section \<open>Names\<close>

text \<open>
  The buffers and counters of \<open>decodeDNSWireName\<close>: the destination, the label
  offsets (\<open>None\<close> is the nil pointer), and the running results.
\<close>

record wire_state =
  dst :: bytes
  offs :: "byte list option"
  outLen :: nat
  wCount :: byte
  maxLbl :: byte
  hasNonLDH :: bool

definition wire_start :: "bytes \<Rightarrow> byte list option \<Rightarrow> wire_state" where
  "wire_start d o' = \<lparr>dst = d, offs = o', outLen = 0, wCount = 0, maxLbl = 0, hasNonLDH = False\<rparr>"

text \<open>The copy of the bytes of a label.\<close>

fun wire_copy :: "bytes \<Rightarrow> wire_state \<Rightarrow> wire_state outcome" where
  "wire_copy [] st = Ret st"
| "wire_copy (b # bs) st =
     (let ch = lower b;
          st1 = (if \<not> dnsLabelByte ch then st\<lparr>hasNonLDH := True\<rparr> else st) in
      obind (write_at (dst st1) (outLen st1) ch) (\<lambda>d.
      wire_copy bs (st1\<lparr>dst := d, outLen := Suc (outLen st1)\<rparr>)))"

text \<open>One label: the separating dot, the two length checks, the offset, the copy, the counters.\<close>

definition wire_label :: "bytes \<Rightarrow> wire_state \<Rightarrow> (dns_error option \<times> wire_state) outcome" where
  "wire_label label st =
     (if 0 < outLen st \<and> 253 < outLen st + 1 then Ret (Some ErrNameTooLong, st)
      else obind (if 0 < outLen st
                  then obind (write_at (dst st) (outLen st) 0x2E) (\<lambda>d. Ret (st\<lparr>dst := d, outLen := Suc (outLen st)\<rparr>))
                  else Ret st) (\<lambda>st.
      if 253 < outLen st + length label then Ret (Some ErrNameTooLong, st)
      else obind (case offs st of
                    Some os \<Rightarrow> if unat (wCount st) < maxDNSLabels
                               then obind (write_at os (unat (wCount st)) (word_of_nat (outLen st))) (\<lambda>os'. Ret (st\<lparr>offs := Some os'\<rparr>))
                               else Ret st
                  | None \<Rightarrow> Ret st) (\<lambda>st.
      obind (wire_copy label st) (\<lambda>st.
      Ret (None, st\<lparr>wCount := wCount st + 1,
                    maxLbl := (if maxLbl st < word_of_nat (length label) then word_of_nat (length label) else maxLbl st)\<rparr>)))))"

definition pointer_target :: "byte \<Rightarrow> byte \<Rightarrow> nat" where
  "pointer_target b b2 = unat (b AND 0x3F) * 256 + unat b2"

text \<open>The loop; \<open>nextOff\<close> is \<open>None\<close> for the initial -1.\<close>

function wire_loop :: "bytes \<Rightarrow> nat \<Rightarrow> nat option \<Rightarrow> nat \<Rightarrow> wire_state \<Rightarrow> ((dns_error + nat) \<times> wire_state) outcome" where
  "wire_loop raw pos nextOff jumps st =
     (if length raw \<le> pos then Ret (Inl ErrInvalidLabel, st)
      else obind (get_at raw pos) (\<lambda>b.
        if b = 0 then Ret (Inr (case nextOff of None \<Rightarrow> pos + 1 | Some k \<Rightarrow> k), st)
        else if b AND 0xC0 = 0xC0 then
          (if length raw \<le> pos + 1 then Ret (Inl ErrInvalidLabel, st)
           else obind (get_at raw (pos + 1)) (\<lambda>b2.
             let target = pointer_target b b2 in
             if target < 12 \<or> pos \<le> target then Ret (Inl ErrLoopPointer, st)
             else if maxPointerJumps < jumps + 1 then Ret (Inl ErrLoopPointer, st)
             else wire_loop raw target (case nextOff of None \<Rightarrow> Some (pos + 2) | Some k \<Rightarrow> Some k) (jumps + 1) st))
        else if b AND 0xC0 \<noteq> 0 then Ret (Inl ErrInvalidLabel, st)
        else let lLen = unat b in
          if 63 < lLen \<or> length raw < pos + 1 + lLen then Ret (Inl ErrInvalidLabel, st)
          else obind (slice_at raw (pos + 1) (pos + 1 + lLen)) (\<lambda>label.
            obind (wire_label label st) (\<lambda>(err, st').
              case err of Some e \<Rightarrow> Ret (Inl e, st')
              | None \<Rightarrow> wire_loop raw (pos + 1 + lLen) nextOff jumps st'))))"
  by pat_completeness auto

termination
  by (relation "measures [\<lambda>(raw, pos, _, jumps, _). 9 - jumps, \<lambda>(raw, pos, _, jumps, _). length raw - pos]") auto

declare wire_loop.simps [simp del]

text \<open>The results \<open>(outLen, nextOff, labelCount, maxLbl, hasNonLDH)\<close> or the error, and the two buffers.\<close>

definition decodeDNSWireName :: "bytes \<Rightarrow> nat \<Rightarrow> bytes \<Rightarrow> byte list option
    \<Rightarrow> ((dns_error + (byte \<times> nat \<times> byte \<times> byte \<times> bool)) \<times> bytes \<times> byte list option) outcome" where
  "decodeDNSWireName raw startOff d offsets =
     obind (wire_loop raw startOff None 0 (wire_start d offsets)) (\<lambda>(r, st).
       Ret (case r of
          Inl err \<Rightarrow> Inl err
        | Inr nextOff \<Rightarrow> Inr (word_of_nat (outLen st), nextOff, wCount st, maxLbl st, hasNonLDH st),
        dst st, offs st))"

section \<open>Resource records\<close>

text \<open>One record at \<open>off\<close>: the error, or the record and the offset behind it.\<close>

definition decode_rr :: "bytes \<Rightarrow> nat \<Rightarrow> (dns_error + (DNSRR \<times> nat)) outcome" where
  "decode_rr raw off =
     obind (decodeDNSWireName raw off (rrName zero_rr) None) (\<lambda>(r, nm, _). case r of
       Inl err \<Rightarrow> Ret (Inl err)
     | Inr (nLen, nextOff, _) \<Rightarrow>
         if length raw < nextOff + 10 then Ret (Inl ErrInvalidLabel)
         else let rdLen = (be_get (subslice (nextOff + 8) (nextOff + 10) raw) :: u16);
                  rdataStart = nextOff + 10;
                  rdataEnd = rdataStart + unat rdLen in
           if length raw < rdataEnd then Ret (Inl ErrInvalidLabel)
           else if MaxDNSRDataBytes < unat rdLen then Ret (Inl ErrRDataTooLong)
           else obind (slice_at raw rdataStart rdataEnd) (\<lambda>payload.
             Ret (Inr (\<lparr>rrNameLen = nLen, rrName = nm,
                        rrType = be_get (subslice nextOff (nextOff + 2) raw),
                        rrClass = be_get (subslice (nextOff + 2) (nextOff + 4) raw),
                        rrTTL = be_get (subslice (nextOff + 4) (nextOff + 8) raw),
                        rrRDLength = rdLen, rrRDataLen = rdLen,
                        rrRData = copy_into (rrRData zero_rr) payload\<rparr>, rdataEnd))))"

primrec rr_loop :: "nat \<Rightarrow> bytes \<Rightarrow> nat \<Rightarrow> byte \<Rightarrow> DNSRR list \<Rightarrow> ((dns_error + (nat \<times> byte)) \<times> DNSRR list) outcome" where
  "rr_loop 0 raw off stored rrs = Ret (Inr (off, stored), rrs)"
| "rr_loop (Suc k) raw off stored rrs =
     obind (decode_rr raw off) (\<lambda>r. case r of
       Inl err \<Rightarrow> Ret (Inl err, rrs)
     | Inr (rr, rdataEnd) \<Rightarrow>
         obind (write_at rrs (unat stored) rr) (\<lambda>rrs'. rr_loop k raw rdataEnd (stored + 1) rrs'))"

definition decodeRRSection :: "bytes \<Rightarrow> nat \<Rightarrow> u16 \<Rightarrow> DNSRR list \<Rightarrow> ((dns_error + (nat \<times> byte)) \<times> DNSRR list) outcome" where
  "decodeRRSection raw off rrCount rrs =
     (if MaxDNSMessageRRs < unat rrCount then Ret (Inl ErrTooManyRRs, rrs)
      else rr_loop (unat rrCount) raw off 0 rrs)"

section \<open>The message\<close>

definition header_of :: "bytes \<Rightarrow> DNSMessage" where
  "header_of raw = (let flags = (be_get (subslice 2 4 raw) :: u16) in
     zero_message\<lparr>mID := be_get (subslice 0 2 raw), mFlags := flags,
       IsResponse := (flags AND 0x8000 \<noteq> 0), Opcode := ucast (drop_bit 11 flags AND 0x0F),
       AA := (flags AND 0x0400 \<noteq> 0), TC := (flags AND 0x0200 \<noteq> 0),
       RD := (flags AND 0x0100 \<noteq> 0), RA := (flags AND 0x0080 \<noteq> 0), RCode := ucast (flags AND 0x000F),
       QDCount := be_get (subslice 4 6 raw), ANCount := be_get (subslice 6 8 raw),
       NSCount := be_get (subslice 8 10 raw), ARCount := be_get (subslice 10 12 raw)\<rparr>)"

text \<open>The survey of the first label, as it stands in the packet.\<close>

definition is_upper :: "byte \<Rightarrow> bool" where "is_upper b \<longleftrightarrow> 0x41 \<le> b \<and> b \<le> 0x5A"

definition is_lower :: "byte \<Rightarrow> bool" where "is_lower b \<longleftrightarrow> 0x61 \<le> b \<and> b \<le> 0x7A"

definition is_digit :: "byte \<Rightarrow> bool" where "is_digit b \<longleftrightarrow> 0x30 \<le> b \<and> b \<le> 0x39"

definition first_octet :: "DNSMessage \<Rightarrow> byte \<Rightarrow> DNSMessage" where
  "first_octet msg b = msg\<lparr>
     FirstLabelUpper := (if is_upper b then FirstLabelUpper msg + 1 else FirstLabelUpper msg),
     FirstLabelLower := (if \<not> is_upper b \<and> is_lower b then FirstLabelLower msg + 1 else FirstLabelLower msg),
     FirstLabelDigits := (if \<not> is_upper b \<and> \<not> is_lower b \<and> is_digit b then FirstLabelDigits msg + 1 else FirstLabelDigits msg),
     FirstLabelHasZeroOIl := (FirstLabelHasZeroOIl msg \<or> b = 0x30 \<or> b = 0x4F \<or> b = 0x49 \<or> b = 0x6C),
     FirstLabelHasHyphen := (FirstLabelHasHyphen msg \<or> b = 0x2D)\<rparr>"

definition first_label :: "bytes \<Rightarrow> DNSMessage \<Rightarrow> DNSMessage outcome" where
  "first_label raw msg =
     (if 13 < length raw then
        let l0 = unat (raw ! 12) in
        if 0 < l0 \<and> l0 \<le> 63 \<and> 13 + l0 \<le> length raw
        then obind (slice_at raw 13 (13 + l0)) (\<lambda>label. Ret (foldl first_octet msg label))
        else Ret msg
      else Ret msg)"

definition copy_parts :: "DNSEvent \<Rightarrow> DNSMessage \<Rightarrow> DNSMessage" where
  "copy_parts ev msg = msg\<lparr>mSubdomainLen := SubdomainLen ev, mSubdomain := Subdomain ev,
     mParentDomainLen := ParentDomainLen ev, mParentDomain := ParentDomain ev,
     mSLDLen := SLDLen ev, mSLD := SLD ev, mTLDLen := TLDLen ev, mTLD := TLD ev\<rparr>"

text \<open>The positions of the last two dots, for the fallback that has no label offsets.\<close>

fun last_dots :: "bytes \<Rightarrow> nat \<Rightarrow> nat option \<Rightarrow> nat option \<Rightarrow> nat option \<times> nat option" where
  "last_dots [] i lastDot prevDot = (lastDot, prevDot)"
| "last_dots (b # bs) i lastDot prevDot =
     (if b = 0x2E then last_dots bs (Suc i) (Some i) lastDot else last_dots bs (Suc i) lastDot prevDot)"

definition split_by_dots :: "DNSMessage \<Rightarrow> nat \<Rightarrow> DNSMessage outcome" where
  "split_by_dots msg n =
     obind (slice_at (QName msg) 0 n) (\<lambda>name.
       let (lastDot, prevDot) = last_dots name 0 None None in
       case lastDot of
         None \<Rightarrow> Ret (msg\<lparr>mSLD := copy_into (mSLD msg) name, mSLDLen := word_of_nat (min n (length (mSLD msg))),
                         mParentDomain := copy_into (mParentDomain msg) name,
                         mParentDomainLen := word_of_nat (min n (length (mParentDomain msg)))\<rparr>)
       | Some ld \<Rightarrow>
           if ld = 0
           then Ret (msg\<lparr>mSLD := copy_into (mSLD msg) name, mSLDLen := word_of_nat (min n (length (mSLD msg))),
                         mParentDomain := copy_into (mParentDomain msg) name,
                         mParentDomainLen := word_of_nat (min n (length (mParentDomain msg)))\<rparr>)
           else let tld = drop (Suc ld) name;
                    pStart = (case prevDot of None \<Rightarrow> 0 | Some pd \<Rightarrow> Suc pd);
                    m1 = msg\<lparr>mTLD := copy_into (mTLD msg) tld, mTLDLen := word_of_nat (min (length tld) (length (mTLD msg)))\<rparr>;
                    m2 = (case prevDot of None \<Rightarrow> m1
                          | Some pd \<Rightarrow> m1\<lparr>mSubdomain := copy_into (mSubdomain m1) (take pd name),
                                         mSubdomainLen := word_of_nat (min pd (length (mSubdomain m1)))\<rparr>);
                    sld = subslice pStart ld name; par = drop pStart name in
                Ret (m2\<lparr>mSLD := copy_into (mSLD m2) sld, mSLDLen := word_of_nat (min (length sld) (length (mSLD m2))),
                        mParentDomain := copy_into (mParentDomain m2) par,
                        mParentDomainLen := word_of_nat (min (length par) (length (mParentDomain m2)))\<rparr>))"

definition splitWireQName :: "DNSMessage \<Rightarrow> byte list option \<Rightarrow> DNSMessage outcome" where
  "splitWireQName msg offsets = (let n = unat (QNameLen msg) in
     if n = 0 then Ret msg
     else obind (if \<not> HasNonLDH msg \<and> mQType msg \<noteq> 0
                 then obind (slice_at (QName msg) 0 n) (\<lambda>name.
                        ParseDNSName name (mQType msg) (Some (fresh_event 0 (replicate 16 0))))
                 else Ret (Some ErrQuestionContract, Some (fresh_event 0 (replicate 16 0)))) (\<lambda>(err, ev).
       case ev of None \<Rightarrow> Panic
       | Some ev \<Rightarrow>
         (if err = None then Ret (copy_parts ev msg)
          else case offsets of
              Some os \<Rightarrow>
                (if 0 < mLabelCount msg
                 then obind (populateDomainParts (ev\<lparr>Name := QName msg\<rparr>) n (unat (mLabelCount msg)) os) (\<lambda>ev'.
                        Ret (copy_parts ev' msg))
                 else split_by_dots msg n)
            | None \<Rightarrow> split_by_dots msg n)))"

text \<open>The remaining questions are skipped.\<close>

primrec skip_questions :: "nat \<Rightarrow> bytes \<Rightarrow> nat \<Rightarrow> (dns_error + nat) outcome" where
  "skip_questions 0 raw off = Ret (Inr off)"
| "skip_questions (Suc k) raw off =
     obind (decodeDNSWireName raw off (replicate 256 0) None) (\<lambda>(r, _). case r of
       Inl err \<Rightarrow> Ret (Inl err)
     | Inr (_, nextOff, _) \<Rightarrow>
         if length raw < nextOff + 4 then Ret (Inl ErrQuestionContract)
         else skip_questions k raw (nextOff + 4))"

text \<open>The three sections, in order.\<close>

definition decode_sections :: "bytes \<Rightarrow> nat \<Rightarrow> DNSMessage \<Rightarrow> (dns_error option \<times> DNSMessage) outcome" where
  "decode_sections raw off msg =
     obind (decodeRRSection raw off (ANCount msg) (Answers msg)) (\<lambda>(r, rrs). case r of
       Inl err \<Rightarrow> Ret (Some err, msg\<lparr>Answers := rrs, AnswerCount := 0\<rparr>)
     | Inr (off, n) \<Rightarrow>
     (let msg = msg\<lparr>Answers := rrs, AnswerCount := n\<rparr> in
     obind (decodeRRSection raw off (NSCount msg) (Authorities msg)) (\<lambda>(r, rrs). case r of
       Inl err \<Rightarrow> Ret (Some err, msg\<lparr>Authorities := rrs, AuthorityCount := 0\<rparr>)
     | Inr (off, n) \<Rightarrow>
     (let msg = msg\<lparr>Authorities := rrs, AuthorityCount := n\<rparr> in
     obind (decodeRRSection raw off (ARCount msg) (Additionals msg)) (\<lambda>(r, rrs). case r of
       Inl err \<Rightarrow> Ret (Some err, msg\<lparr>Additionals := rrs, AdditionalCount := 0\<rparr>)
     | Inr (off, n) \<Rightarrow> Ret (None, msg\<lparr>Additionals := rrs, AdditionalCount := n\<rparr>))))))"

text \<open>Behind the fields of the question: the first label, the parts, the other questions, the sections.\<close>

definition message_tail :: "bytes \<Rightarrow> nat \<Rightarrow> byte list option \<Rightarrow> DNSMessage \<Rightarrow> (dns_error option \<times> DNSMessage) outcome" where
  "message_tail raw off os msg =
     obind (first_label raw msg) (\<lambda>msg.
     obind (splitWireQName msg os) (\<lambda>msg.
     obind (skip_questions (unat (QDCount msg) - 1) raw off) (\<lambda>r. case r of
       Inl err \<Rightarrow> Ret (Some err, msg)
     | Inr off' \<Rightarrow> decode_sections raw off' msg)))"

text \<open>The question: \<open>r\<close> is the outcome of its name, already copied into the message.\<close>

definition message_question :: "bytes \<Rightarrow> DNSMessage \<Rightarrow> dns_error + (byte \<times> nat \<times> byte \<times> byte \<times> bool) \<Rightarrow> byte list option
    \<Rightarrow> (dns_error option \<times> DNSMessage) outcome" where
  "message_question raw msg r os = (case r of
     Inl err \<Rightarrow> Ret (Some err, msg)
   | Inr (qLen, off, lc, mx, nonLDH) \<Rightarrow>
       if length raw < off + 4 then Ret (Some ErrQuestionContract, msg)
       else message_tail raw (off + 4) os
              (msg\<lparr>QNameLen := qLen, mLabelCount := lc, mMaxLabelLen := mx, HasNonLDH := nonLDH,
                   mQType := be_get (subslice off (off + 2) raw),
                   mQClass := be_get (subslice (off + 2) (off + 4) raw)\<rparr>))"

definition ParseDNSMessage :: "bytes \<Rightarrow> DNSMessage option \<Rightarrow> (dns_error option \<times> DNSMessage option) outcome" where
  "ParseDNSMessage raw msg0 = (case msg0 of
     None \<Rightarrow> Ret (Some ErrQuestionContract, None)
   | Some _ \<Rightarrow>
     if length raw < 12 then Ret (Some ErrPacketTooShort, Some zero_message)
     else let msg = header_of raw in
     if QDCount msg = 0 then Ret (Some ErrQuestionContract, Some msg)
     else obind (decodeDNSWireName raw 12 (QName msg) (Some (replicate 128 0))) (\<lambda>(r, d, os).
       obind (message_question raw (msg\<lparr>QName := d\<rparr>) r os) (\<lambda>(err, msg). Ret (err, Some msg))))"

section \<open>The wire format, abstractly\<close>

text \<open>
  The labels that a name at \<open>pos\<close> denotes, following labels and compression
  pointers, without any limit of the decoders.
\<close>

inductive wire_name_at :: "bytes \<Rightarrow> nat \<Rightarrow> bytes list \<Rightarrow> bool" for raw where
  root: "pos < length raw \<Longrightarrow> raw ! pos = 0 \<Longrightarrow> wire_name_at raw pos []"
| label: "pos < length raw \<Longrightarrow> 0 < unat (raw ! pos) \<Longrightarrow> unat (raw ! pos) \<le> 63 \<Longrightarrow> pos + 1 + unat (raw ! pos) \<le> length raw
    \<Longrightarrow> wire_name_at raw (pos + 1 + unat (raw ! pos)) ls
    \<Longrightarrow> wire_name_at raw pos (subslice (pos + 1) (pos + 1 + unat (raw ! pos)) raw # ls)"
| pointer: "pos + 1 < length raw \<Longrightarrow> raw ! pos AND 0xC0 = 0xC0 \<Longrightarrow> wire_name_at raw (pointer_target (raw ! pos) (raw ! (pos + 1))) ls
    \<Longrightarrow> wire_name_at raw pos ls"

text \<open>
  The labels of the name at \<open>pos\<close> together with the offset behind it: behind the
  final zero octet, or behind the first compression pointer, which leads
  backwards into the packet.
\<close>

inductive name_span :: "bytes \<Rightarrow> nat \<Rightarrow> bytes list \<Rightarrow> nat \<Rightarrow> bool" for raw where
  root: "pos < length raw \<Longrightarrow> raw ! pos = 0 \<Longrightarrow> name_span raw pos [] (pos + 1)"
| label: "pos < length raw \<Longrightarrow> 0 < unat (raw ! pos) \<Longrightarrow> unat (raw ! pos) \<le> 63 \<Longrightarrow> pos + 1 + unat (raw ! pos) \<le> length raw
    \<Longrightarrow> name_span raw (pos + 1 + unat (raw ! pos)) ls e
    \<Longrightarrow> name_span raw pos (subslice (pos + 1) (pos + 1 + unat (raw ! pos)) raw # ls) e"
| pointer: "pos + 1 < length raw \<Longrightarrow> raw ! pos AND 0xC0 = 0xC0 \<Longrightarrow> 12 \<le> pointer_target (raw ! pos) (raw ! (pos + 1))
    \<Longrightarrow> pointer_target (raw ! pos) (raw ! (pos + 1)) < pos
    \<Longrightarrow> wire_name_at raw (pointer_target (raw ! pos) (raw ! (pos + 1))) ls \<Longrightarrow> name_span raw pos ls (pos + 2)"

lemma name_span_wire: "name_span raw pos ls e \<Longrightarrow> wire_name_at raw pos ls \<and> pos < e \<and> e \<le> length raw"
  by (induction rule: name_span.induct)
    (auto intro: wire_name_at.root wire_name_at.label[simplified] wire_name_at.pointer[simplified])

lemma small_not_pointer: "unat (b :: byte) \<le> 63 \<Longrightarrow> b AND 0xC0 \<noteq> 0xC0"
  using small_byte_no_pointer[of "unat b"] by simp

lemma wire_name_at_fun: "wire_name_at raw pos ls \<Longrightarrow> wire_name_at raw pos ms \<Longrightarrow> ls = ms"
proof (induction arbitrary: ms rule: wire_name_at.induct)
  case (root pos)
  from root.prems show ?case
  proof (cases rule: wire_name_at.cases)
    case pointer
    then show ?thesis using root.hyps by simp
  qed (use root.hyps in auto)
next
  case (label pos ls)
  from label.prems show ?case
  proof (cases rule: wire_name_at.cases)
    case (label ls')
    then show ?thesis using label.IH by blast
  next
    case root
    then show ?thesis using label.hyps by simp
  next
    case pointer
    then show ?thesis using label.hyps(3) small_not_pointer by blast
  qed
next
  case (pointer pos ls)
  from pointer.prems show ?case
  proof (cases rule: wire_name_at.cases)
    case root
    then show ?thesis using pointer.hyps by simp
  next
    case label
    then show ?thesis using pointer.hyps(2) small_not_pointer by blast
  next
    case pointer
    then show ?thesis using pointer.IH by blast
  qed
qed

section \<open>The decoder implements it\<close>

definition wst_shape :: "bool \<Rightarrow> wire_state \<Rightarrow> bool" where
  "wst_shape z st \<longleftrightarrow> (offs st = None) = z \<and> length (dst st) = 256 \<and> (\<forall>os. offs st = Some os \<longrightarrow> length os = 128)"

definition wst :: "bool \<Rightarrow> bytes list \<Rightarrow> wire_state \<Rightarrow> bool" where
  "wst z ls st \<longleftrightarrow> wst_shape z st \<and> dns_labels ls \<and> outLen st = length (dotted ls) \<and> outLen st \<le> 253
     \<and> take (outLen st) (dst st) = dotted ls \<and> unat (wCount st) = length ls \<and> unat (maxLbl st) = longest ls
     \<and> (\<forall>os. offs st = Some os \<longrightarrow> (\<forall>i < length ls. unat (os ! i) = label_start ls i))
     \<and> hasNonLDH st = (\<exists>l \<in> set ls. \<exists>b \<in> set l. \<not> dnsLabelByte b)"

lemma wire_copy_spec:
  "outLen st + length bs \<le> length (dst st) \<Longrightarrow> wire_copy bs st = Ret (st\<lparr>
     dst := take (outLen st) (dst st) @ map lower bs @ drop (outLen st + length bs) (dst st),
     outLen := outLen st + length bs,
     hasNonLDH := (hasNonLDH st \<or> (\<exists>b \<in> set bs. \<not> dnsLabelByte (lower b)))\<rparr>)"
proof (induction bs arbitrary: st)
  case Nil
  then show ?case by simp
next
  case (Cons b bs)
  then have t: "take (Suc (outLen st)) ((dst st)[outLen st := lower b]) = take (outLen st) (dst st) @ [lower b]"
    and lt: "outLen st < length (dst st)"
    by (simp_all add: take_Suc_conv_app_nth)
  define st2 where "st2 = st\<lparr>dst := (dst st)[outLen st := lower b], outLen := Suc (outLen st),
    hasNonLDH := (hasNonLDH st \<or> \<not> dnsLabelByte (lower b))\<rparr>"
  have "wire_copy (b # bs) st = wire_copy bs st2"
    using lt by (cases st; cases "dnsLabelByte (lower b)") (simp_all add: write_at_def st2_def)
  also have "\<dots> = Ret (st2\<lparr>
     dst := take (outLen st2) (dst st2) @ map lower bs @ drop (outLen st2 + length bs) (dst st2),
     outLen := outLen st2 + length bs,
     hasNonLDH := (hasNonLDH st2 \<or> (\<exists>b \<in> set bs. \<not> dnsLabelByte (lower b)))\<rparr>)"
    using Cons.prems by (intro Cons.IH) (simp add: st2_def)
  finally show ?case using t by (cases st) (simp add: st2_def)
qed

lemma wst_count: "wst z ls st \<Longrightarrow> length ls \<le> 127" "wst z ls st \<Longrightarrow> longest ls \<le> 63"
  using dotted_long[of ls] longest_le[of ls] by (auto simp: wst_def)

definition wire_labelled :: "bytes \<Rightarrow> wire_state \<Rightarrow> wire_state" where
  "wire_labelled label st = (let start = (if 0 < outLen st then Suc (outLen st) else 0);
       d = (if 0 < outLen st then (dst st)[outLen st := 0x2E] else dst st) in
     st\<lparr>dst := take start d @ map lower label @ drop (start + length label) d,
        offs := map_option (\<lambda>os. os[unat (wCount st) := word_of_nat start]) (offs st),
        outLen := start + length label, wCount := wCount st + 1,
        maxLbl := (if maxLbl st < word_of_nat (length label) then word_of_nat (length label) else maxLbl st),
        hasNonLDH := (hasNonLDH st \<or> (\<exists>b \<in> set label. \<not> dnsLabelByte (lower b)))\<rparr>)"

lemma wire_label_spec:
  assumes w: "wst z ls st" and lab: "label \<noteq> []" "length label \<le> 63"
  shows "if (if 0 < outLen st then Suc (outLen st) else 0) + length label \<le> 253
     then wire_label label st = Ret (None, wire_labelled label st)
     else \<exists>st'. wire_label label st = Ret (Some ErrNameTooLong, st') \<and> wst_shape z st'"
proof -
  have sh: "length (dst st) = 256" "\<And>os. offs st = Some os \<Longrightarrow> length os = 128" "unat (wCount st) < 128"
    using w wst_count(1)[OF w] by (auto simp: wst_def wst_shape_def)
  define start where "start = (if 0 < outLen st then Suc (outLen st) else 0)"
  define st1 where "st1 = (if 0 < outLen st then st\<lparr>dst := (dst st)[outLen st := 0x2E], outLen := Suc (outLen st)\<rparr> else st)"
  have out: "outLen st \<le> 253" using w by (simp add: wst_def)
  have dot: "(if 0 < outLen st
              then obind (write_at (dst st) (outLen st) 0x2E) (\<lambda>d. Ret (st\<lparr>dst := d, outLen := Suc (outLen st)\<rparr>))
              else Ret st) = Ret st1"
    using sh out by (simp add: st1_def write_at_def)
  have st1: "outLen st1 = start" "offs st1 = offs st" "wCount st1 = wCount st" "wst_shape z st1" "length (dst st1) = 256"
    using w sh by (auto simp: st1_def start_def wst_def wst_shape_def)
  show ?thesis
  proof (cases "start + length label \<le> 253")
    case False
    have "\<exists>st'. wire_label label st = Ret (Some ErrNameTooLong, st') \<and> wst_shape z st'"
      unfolding wire_label_def dot using False st1 w by (auto simp: wst_def)
    then show ?thesis using False by (simp add: start_def)
  next
    case True
    define st2 where "st2 = st1\<lparr>offs := map_option (\<lambda>os. os[unat (wCount st) := word_of_nat start]) (offs st)\<rparr>"
    have offs: "(case offs st1 of
                    Some os \<Rightarrow> if unat (wCount st1) < maxDNSLabels
                               then obind (write_at os (unat (wCount st1)) (word_of_nat (outLen st1))) (\<lambda>os'. Ret (st1\<lparr>offs := Some os'\<rparr>))
                               else Ret st1
                  | None \<Rightarrow> Ret st1) = Ret st2"
      using st1 sh by (cases "offs st") (auto simp: st2_def write_at_def)
    have guard: "\<not> (0 < outLen st \<and> 253 < outLen st + 1)" using True lab by (auto simp: start_def)
    have cp: "wire_copy label st2 = Ret (st2\<lparr>
       dst := take start (dst st1) @ map lower label @ drop (start + length label) (dst st1), outLen := start + length label,
       hasNonLDH := (hasNonLDH st \<or> (\<exists>b \<in> set label. \<not> dnsLabelByte (lower b)))\<rparr>)"
      using True st1 by (subst wire_copy_spec) (auto simp: st2_def st1_def)
    have "wire_label label st = Ret (None, wire_labelled label st)"
      unfolding wire_label_def dot using guard True st1(1)
      by (simp add: offs cp) (simp add: wire_labelled_def Let_def start_def st2_def st1_def)
    then show ?thesis using True by (simp add: start_def)
  qed
qed

lemma wire_labelled_wst:
  assumes w: "wst z ls st" and lab: "label \<noteq> []" "length label \<le> 63"
    and fits: "(if 0 < outLen st then Suc (outLen st) else 0) + length label \<le> 253"
  shows "wst z (ls @ [map lower label]) (wire_labelled label st)"
proof -
  define start where "start = (if 0 < outLen st then Suc (outLen st) else 0)"
  define d where "d = (if 0 < outLen st then (dst st)[outLen st := 0x2E] else dst st)"
  have n: "dns_labels ls" "outLen st = length (dotted ls)" "take (outLen st) (dst st) = dotted ls" "length (dst st) = 256"
    "unat (wCount st) = length ls" "unat (maxLbl st) = longest ls" "hasNonLDH st = (\<exists>l \<in> set ls. \<exists>b \<in> set l. \<not> dnsLabelByte b)"
    using w by (auto simp: wst_def wst_shape_def)
  have empty: "dotted ls = [] \<longleftrightarrow> ls = []" using dotted_eq_Nil n(1) by blast
  have start: "start = label_start (ls @ [map lower label]) (length ls)"
    using n empty by (simp add: start_def label_start_def)
  have pre: "take start d @ map lower label = dotted (ls @ [map lower label])"
  proof (cases "ls = []")
    case False
    then have "take (Suc (outLen st)) ((dst st)[outLen st := 0x2E]) = dotted ls @ [0x2E]"
      using n w by (simp add: take_Suc_conv_app_nth wst_def)
    then show ?thesis using False n empty by (simp add: start_def d_def dotted_append)
  qed (use n in \<open>simp add: start_def\<close>)
  have sd: "start + length label \<le> 253" using fits by (simp add: start_def)
  moreover have "length d = 256" using n by (simp add: d_def)
  ultimately have len: "start + length label = length (dotted (ls @ [map lower label]))" and sl: "length (take start d) = start"
    unfolding pre[symmetric] by auto
  have cnt: "length ls \<le> 127" using wst_count(1)[OF w] .
  have offs: "unat (os[length ls := word_of_nat start] ! i) = label_start (ls @ [map lower label]) i"
    if "offs st = Some os" "i < Suc (length ls)" for os i
  proof -
    have "length os = 128" "\<forall>i < length ls. unat (os ! i) = label_start ls i" using w that(1) by (auto simp: wst_def wst_shape_def)
    then show ?thesis using that(2) cnt sd start
      by (cases "i = length ls") (auto simp: unat_of_nat label_start_append)
  qed
  have mx: "unat (if maxLbl st < word_of_nat (length label) then word_of_nat (length label) else maxLbl st)
      = longest (ls @ [map lower label])"
    using n(6) lab(2) by (simp add: word_less_nat_alt unat_of_nat longest_def max_def)
  have ct: "unat (wCount st + 1) = Suc (length ls)" using n(5) cnt unat_plus_one[of "wCount st"] by simp
  have st': "wire_labelled label st = st\<lparr>dst := take start d @ map lower label @ drop (start + length label) d,
        offs := map_option (\<lambda>os. os[unat (wCount st) := word_of_nat start]) (offs st),
        outLen := start + length label, wCount := wCount st + 1,
        maxLbl := (if maxLbl st < word_of_nat (length label) then word_of_nat (length label) else maxLbl st),
        hasNonLDH := (hasNonLDH st \<or> (\<exists>b \<in> set label. \<not> dnsLabelByte (lower b)))\<rparr>"
    by (simp add: wire_labelled_def Let_def start_def d_def)
  have shape: "wst_shape z (wire_labelled label st)"
    using w sl \<open>length d = 256\<close> sd unfolding st' wst_shape_def by (auto simp: wst_def wst_shape_def)
  have name: "take (start + length label) (take start d @ map lower label @ drop (start + length label) d) = dotted (ls @ [map lower label])"
    using pre sl len by (simp add: append_assoc[symmetric] del: append_assoc)
  show ?thesis
    unfolding wst_def using shape name len sd ct mx offs n lab unfolding st'
    by (auto simp: dns_labels_def)
qed

text \<open>What a run of the loop from \<open>pos\<close> with the labels \<open>ls\<close> already written returns.\<close>

definition wire_result :: "bool \<Rightarrow> bytes \<Rightarrow> nat \<Rightarrow> nat option \<Rightarrow> bytes list \<Rightarrow> (dns_error + nat) \<Rightarrow> wire_state \<Rightarrow> bool" where
  "wire_result z raw pos nextOff ls r st' \<longleftrightarrow> wst_shape z st' \<and> (case r of Inl _ \<Rightarrow> True | Inr n \<Rightarrow> n \<le> length raw
     \<and> (\<exists>ls'. wire_name_at raw pos ls' \<and> wst z (ls @ map (map lower) ls') st'
          \<and> (case nextOff of None \<Rightarrow> name_span raw pos ls' n | Some k \<Rightarrow> n = k)))"

lemma wire_result_error: "wst_shape z st' \<Longrightarrow> wire_result z raw pos nextOff ls (Inl e) st'"
  by (simp add: wire_result_def)

lemma wire_result_pointer:
  assumes "pos + 1 < length raw" "raw ! pos AND 0xC0 = 0xC0"
    and "12 \<le> pointer_target (raw ! pos) (raw ! (pos + 1))" "pointer_target (raw ! pos) (raw ! (pos + 1)) < pos"
    and "wire_result z raw (pointer_target (raw ! pos) (raw ! (pos + 1))) (case nextOff of None \<Rightarrow> Some (pos + 2) | Some k \<Rightarrow> Some k) ls r st'"
  shows "wire_result z raw pos nextOff ls r st'"
proof (cases r)
  case (Inr n)
  let ?next = "case nextOff of None \<Rightarrow> Some (pos + 2) | Some k \<Rightarrow> Some k"
  obtain ls' where w: "wire_name_at raw (pointer_target (raw ! pos) (raw ! (pos + 1))) ls'" "wst z (ls @ map (map lower) ls') st'"
    "n = (case nextOff of None \<Rightarrow> pos + 2 | Some k \<Rightarrow> k)"
    using assms(5) Inr by (cases nextOff) (auto simp: wire_result_def)
  note p = wire_name_at.pointer[OF assms(1,2) w(1)] name_span.pointer[OF assms(1-4) w(1)]
  have "case nextOff of None \<Rightarrow> name_span raw pos ls' n | Some k \<Rightarrow> n = k"
    using w(3) p(2) by (cases nextOff) simp_all
  then show ?thesis using assms(5) Inr w(2) p(1) unfolding wire_result_def by auto
qed (use assms(5) in \<open>simp add: wire_result_def\<close>)

lemma wire_result_label:
  assumes "pos < length raw" "0 < unat (raw ! pos)" "unat (raw ! pos) \<le> 63" "pos + 1 + unat (raw ! pos) \<le> length raw"
    and "wire_result z raw (pos + 1 + unat (raw ! pos)) nextOff
           (ls @ [map lower (subslice (pos + 1) (pos + 1 + unat (raw ! pos)) raw)]) r st'"
  shows "wire_result z raw pos nextOff ls r st'"
proof (cases r)
  case (Inr n)
  then obtain ls' where w: "wire_name_at raw (pos + 1 + unat (raw ! pos)) ls'"
    "wst z (ls @ map (map lower) (subslice (pos + 1) (pos + 1 + unat (raw ! pos)) raw # ls')) st'"
    "case nextOff of None \<Rightarrow> name_span raw (pos + 1 + unat (raw ! pos)) ls' n | Some k \<Rightarrow> n = k"
    using assms(5) by (cases nextOff) (auto simp: wire_result_def)
  have "case nextOff of None \<Rightarrow> name_span raw pos (subslice (pos + 1) (pos + 1 + unat (raw ! pos)) raw # ls') n | Some k \<Rightarrow> n = k"
    using w(3) name_span.label[OF assms(1-4)] by (cases nextOff) simp_all
  then show ?thesis using assms(5) Inr w(2) wire_name_at.label[OF assms(1-4) w(1)] unfolding wire_result_def
    by (cases nextOff) auto
qed (use assms(5) in \<open>simp add: wire_result_def\<close>)

lemma wire_loop_sound:
  "wst z ls st \<Longrightarrow> (\<forall>k. nextOff = Some k \<longrightarrow> k \<le> length raw) \<Longrightarrow>
   \<exists>r st'. wire_loop raw pos nextOff jumps st = Ret (r, st') \<and> wire_result z raw pos nextOff ls r st'"
proof (induction raw pos nextOff jumps st arbitrary: ls rule: wire_loop.induct)
  case (1 raw pos nextOff jumps st)
  have sh: "wst_shape z st" using "1.prems" by (simp add: wst_def)
  note err = wire_result_error[OF sh]
  define b where "b = raw ! pos"
  define b2 where "b2 = raw ! (pos + 1)"
  consider (out) "length raw \<le> pos" | (zero) "pos < length raw" "b = 0"
    | (bad) "pos < length raw" "b \<noteq> 0" "b AND 0xC0 = 0xC0" "length raw \<le> pos + 1 \<or> pointer_target b b2 < 12 \<or> pos \<le> pointer_target b b2 \<or> 8 < jumps + 1"
    | (ptr) "pos + 1 < length raw" "b \<noteq> 0" "b AND 0xC0 = 0xC0" "\<not> (pointer_target b b2 < 12 \<or> pos \<le> pointer_target b b2)" "\<not> 8 < jumps + 1"
    | (odd) "pos < length raw" "b \<noteq> 0" "b AND 0xC0 \<noteq> 0xC0" "b AND 0xC0 \<noteq> 0 \<or> 63 < unat b \<or> length raw < pos + 1 + unat b"
    | (lab) "pos < length raw" "b \<noteq> 0" "b AND 0xC0 \<noteq> 0xC0" "b AND 0xC0 = 0" "unat b \<le> 63" "pos + 1 + unat b \<le> length raw" by linarith
  then show ?case
  proof cases
    case out
    then show ?thesis using err by (subst wire_loop.simps) simp
  next
    case zero
    have "wire_name_at raw pos []" "name_span raw pos [] (pos + 1)"
      using zero by (auto intro: wire_name_at.root name_span.root[simplified] simp: b_def)
    then show ?thesis using zero sh "1.prems" unfolding b_def
      by (subst wire_loop.simps) (auto simp: wire_result_def split: option.splits intro!: exI[of _ "[]"])
  next
    case bad
    then show ?thesis using err unfolding b_def b2_def by (subst wire_loop.simps) (auto simp: Let_def)
  next
    case odd
    then show ?thesis using err unfolding b_def by (subst wire_loop.simps) (auto simp: Let_def)
  next
    case ptr
    have inside: "\<not> length raw \<le> pos" "\<not> length raw \<le> pos + 1" using ptr(1) by auto
    have g: "get_at raw pos = Ret b" "get_at raw (pos + 1) = Ret b2" using ptr(1) by (auto simp: b_def b2_def)
    let ?next = "case nextOff of None \<Rightarrow> Some (pos + 2) | Some k \<Rightarrow> Some k"
    have step: "wire_loop raw pos nextOff jumps st = wire_loop raw (pointer_target b b2) ?next (jumps + 1) st"
      using inside g ptr by (subst wire_loop.simps) (simp add: Let_def)
    have far: "12 \<le> pointer_target (raw ! pos) (raw ! (pos + 1))" "pointer_target (raw ! pos) (raw ! (pos + 1)) < pos"
      using ptr(4) by (auto simp: b_def b2_def)
    have nk: "\<forall>k. ?next = Some k \<longrightarrow> k \<le> length raw" using "1.prems"(2) ptr(1) by (auto split: option.splits)
    show ?thesis
      using "1.IH"(1)[OF inside(1) g(1) ptr(2,3) inside(2) g(2) refl ptr(4,5) "1.prems"(1) nk]
        wire_result_pointer[OF ptr(1) ptr(3)[unfolded b_def] far] unfolding step b_def b2_def by blast
  next
    case lab
    define label where "label = subslice (pos + 1) (pos + 1 + unat b) raw"
    have inside: "\<not> length raw \<le> pos" and big: "\<not> (63 < unat b \<or> length raw < pos + 1 + unat b)" and z: "\<not> b AND 0xC0 \<noteq> 0"
      and pos: "0 < unat b" and g: "get_at raw pos = Ret b" using lab by (auto simp: unat_gt_0 b_def)
    have l: "label \<noteq> []" "length label \<le> 63" "slice_at raw (pos + 1) (pos + 1 + unat b) = Ret label"
      using label_at[OF pos lab(5,6)] by (auto simp: label_def)
    have step: "wire_loop raw pos nextOff jumps st = obind (wire_label label st) (\<lambda>(err, st').
              case err of Some e \<Rightarrow> Ret (Inl e, st')
              | None \<Rightarrow> wire_loop raw (pos + 1 + unat b) nextOff jumps st')"
      using inside g lab l(3) by (subst wire_loop.simps) (simp add: Let_def)
    show ?thesis
    proof (cases "(if 0 < outLen st then Suc (outLen st) else 0) + length label \<le> 253")
      case False
      then obtain st' where "wire_label label st = Ret (Some ErrNameTooLong, st')" "wst_shape z st'"
        using wire_label_spec[OF "1.prems"(1) l(1,2)] by (auto split: if_splits)
      then show ?thesis using step wire_result_error by simp
    next
      case True
      then have wl: "wire_label label st = Ret (None, wire_labelled label st)"
        using wire_label_spec[OF "1.prems"(1) l(1,2)] by simp
      then have step: "wire_loop raw pos nextOff jumps st = wire_loop raw (pos + 1 + unat b) nextOff jumps (wire_labelled label st)"
        using step by simp
      show ?thesis
        using "1.IH"(2)[OF inside g lab(2,3) z refl big l(3) wl refl refl wire_labelled_wst[OF "1.prems"(1) l(1,2) True] "1.prems"(2)]
          wire_result_label[OF lab(1) pos[unfolded b_def] lab(5,6)[unfolded b_def]]
        unfolding step label_def b_def by blast
    qed
  qed
qed

text \<open>A decoded name: its labels as the packet denotes them, in lower case.\<close>

definition name_ok :: "bytes \<Rightarrow> nat \<Rightarrow> byte \<Rightarrow> nat \<Rightarrow> byte \<Rightarrow> byte \<Rightarrow> bool \<Rightarrow> bytes \<Rightarrow> bytes list \<Rightarrow> bool" where
  "name_ok raw off n next lc mx non d ls \<longleftrightarrow> off < next \<and> next \<le> length raw
     \<and> (\<exists>wls. name_span raw off wls next \<and> ls = map (map lower) wls) \<and> dns_labels ls
     \<and> length (dotted ls) \<le> 253 \<and> length ls \<le> 127 \<and> longest ls \<le> 63
     \<and> unat n = length (dotted ls) \<and> take (unat n) d = dotted ls
     \<and> unat lc = length ls \<and> unat mx = longest ls \<and> non = (\<exists>l \<in> set ls. \<exists>b \<in> set l. \<not> dnsLabelByte b)"

lemma decode_name_sound:
  assumes "length d = 256" "\<forall>os. offsets = Some os \<longrightarrow> length os = 128"
  shows "\<exists>r d' o'. decodeDNSWireName raw off d offsets = Ret (r, d', o') \<and> length d' = 256 \<and> (o' = None) = (offsets = None)
     \<and> (\<forall>n next lc mx non. r = Inr (n, next, lc, mx, non) \<longrightarrow> (\<exists>ls. name_ok raw off n next lc mx non d' ls
          \<and> (\<forall>os. o' = Some os \<longrightarrow> length os = 128 \<and> (\<forall>i < length ls. unat (os ! i) = label_start ls i))))"
proof -
  define z where "z = (offsets = None)"
  have "wst z [] (wire_start d offsets)"
    using assms by (simp add: wst_def wst_shape_def wire_start_def dns_labels_def longest_def z_def)
  then obtain r st where r: "wire_loop raw off None 0 (wire_start d offsets) = Ret (r, st)" "wire_result z raw off None [] r st"
    using wire_loop_sound[of z "[]" "wire_start d offsets" None raw off 0] by auto
  show ?thesis
  proof (cases r)
    case (Inl e)
    then show ?thesis using r by (simp add: decodeDNSWireName_def wire_result_def wst_shape_def z_def)
  next
    case (Inr n)
    then obtain wls where w0: "name_span raw off wls n" and w: "wire_name_at raw off wls" "wst z (map (map lower) wls) st" "off < n" "n \<le> length raw"
      using r(2) name_span_wire by (auto simp: wire_result_def)
    have b: "unat (word_of_nat (outLen st) :: byte) = outLen st" using w(2) by (simp add: wst_def byte_len)
    have "name_ok raw off (word_of_nat (outLen st)) n (wCount st) (maxLbl st) (hasNonLDH st) (dst st) (map (map lower) wls)"
      using w0 w b wst_count[OF w(2)] unfolding name_ok_def wst_def by auto
    then show ?thesis using r(1) Inr w(2) unfolding decodeDNSWireName_def wst_def wst_shape_def z_def
      by (auto intro!: exI[of _ "map (map lower) wls"])
  qed
qed

lemma decode_name_plain:
  assumes "length d = 256"
  shows "\<exists>r d' o'. decodeDNSWireName raw off d None = Ret (r, d', o') \<and> length d' = 256
     \<and> (\<forall>n next lc mx non. r = Inr (n, next, lc, mx, non) \<longrightarrow> off < next \<and> next \<le> length raw \<and> unat n \<le> 253
          \<and> (\<exists>wls. name_span raw off wls next \<and> unat n = length (dotted (map (map lower) wls))
               \<and> take (unat n) d' = dotted (map (map lower) wls)))"
proof -
  obtain r d' o' where d: "decodeDNSWireName raw off d None = Ret (r, d', o')" "length d' = 256"
    and ok: "\<forall>n next lc mx non. r = Inr (n, next, lc, mx, non) \<longrightarrow> (\<exists>ls. name_ok raw off n next lc mx non d' ls
          \<and> (\<forall>os. o' = Some os \<longrightarrow> length os = 128 \<and> (\<forall>i < length ls. unat (os ! i) = label_start ls i)))"
    using decode_name_sound[OF assms, of None raw off] by auto
  have "off < nx \<and> nx \<le> length raw \<and> unat n \<le> 253
      \<and> (\<exists>wls. name_span raw off wls nx \<and> unat n = length (dotted (map (map lower) wls))
               \<and> take (unat n) d' = dotted (map (map lower) wls))" if "r = Inr (n, nx, lc, mx, non)" for n nx lc mx non
    using ok that by (auto simp: name_ok_def)
  then show ?thesis using d by blast
qed

definition rr_ok :: "DNSRR \<Rightarrow> bool" where
  "rr_ok rr \<longleftrightarrow> length (rrName rr) = 256 \<and> unat (rrNameLen rr) \<le> 253 \<and> length (rrRData rr) = 1536
     \<and> rrRDataLen rr = rrRDLength rr \<and> unat (rrRDataLen rr) \<le> 1536"

text \<open>
  What a record says, as the encoder of a packet would write it: at \<open>off\<close> the
  packet has a name with the labels of the record (in lower case there), and
  behind it the octets of the type, the class, the time to live and the length
  in network order, then the data; \<open>e\<close> is the offset behind them.  Nothing of
  the data buffer but those octets is set.
\<close>

definition rr_denotes :: "bytes \<Rightarrow> nat \<Rightarrow> DNSRR \<Rightarrow> nat \<Rightarrow> bool" where
  "rr_denotes raw off rr e \<longleftrightarrow> rr_ok rr \<and> e \<le> length raw
     \<and> (\<exists>wls p. name_span raw off wls p \<and> e = p + 10 + unat (rrRDLength rr)
          \<and> unat (rrNameLen rr) = length (dotted (map (map lower) wls))
          \<and> take (unat (rrNameLen rr)) (rrName rr) = dotted (map (map lower) wls)
          \<and> subslice p e raw = be_put 2 (rrType rr) @ be_put 2 (rrClass rr) @ be_put 4 (rrTTL rr)
               @ be_put 2 (rrRDLength rr) @ take (unat (rrRDLength rr)) (rrRData rr)
          \<and> drop (unat (rrRDLength rr)) (rrRData rr) = replicate (1536 - unat (rrRDLength rr)) 0)"

primrec records_at :: "bytes \<Rightarrow> nat \<Rightarrow> DNSRR list \<Rightarrow> nat \<Rightarrow> bool" where
  "records_at raw off [] e \<longleftrightarrow> e = off"
| "records_at raw off (rr # rrs) e \<longleftrightarrow> (\<exists>m. rr_denotes raw off rr m \<and> records_at raw m rrs e)"

lemma rr_denotes_span: "rr_denotes raw off rr e \<Longrightarrow> rr_ok rr \<and> off + 10 < e \<and> e \<le> length raw"
  using name_span_wire by (fastforce simp: rr_denotes_def)

lemma subslice_append: "i \<le> j \<Longrightarrow> j \<le> k \<Longrightarrow> subslice i k xs = subslice i j xs @ subslice j k xs"
  using take_add[of "j - i" "k - j" "drop i xs"] by (simp add: subslice_def)

lemma be_put_subslice:
  "j = i + n \<Longrightarrow> j \<le> length raw \<Longrightarrow> 8 * n \<le> LENGTH('a::len) \<Longrightarrow> be_put n (be_get (subslice i j raw) :: 'a word) = subslice i j raw"
  using be_put_get[of "subslice i j raw", where ?'a = 'a] by simp

lemma decode_rr_sound:
  "\<exists>r. decode_rr raw off = Ret r \<and> (\<forall>rr e. r = Inr (rr, e) \<longrightarrow> rr_denotes raw off rr e)"
proof -
  obtain r d' o' where d: "decodeDNSWireName raw off (rrName zero_rr) None = Ret (r, d', o')" "length d' = 256"
    "\<forall>n next lc mx non. r = Inr (n, next, lc, mx, non) \<longrightarrow> off < next \<and> next \<le> length raw \<and> unat n \<le> 253
       \<and> (\<exists>wls. name_span raw off wls next \<and> unat n = length (dotted (map (map lower) wls))
               \<and> take (unat n) d' = dotted (map (map lower) wls))"
    using decode_name_plain[of "rrName zero_rr" raw off] by (auto simp: zero_rr_def)
  show ?thesis
  proof (cases r)
    case (Inr x)
    obtain n nx lc mx non where x: "x = (n, nx, lc, mx, non)" by (cases x)
    obtain wls where nxt: "off < nx" "unat n \<le> 253" "name_span raw off wls nx" "unat n = length (dotted (map (map lower) wls))"
      "take (unat n) d' = dotted (map (map lower) wls)" using d(3) Inr x by blast
    define rd where "rd = (be_get (subslice (nx + 8) (nx + 10) raw) :: u16)"
    show ?thesis
    proof (cases "length raw < nx + 10 \<or> length raw < nx + 10 + unat rd \<or> 1536 < unat rd")
      case True
      then show ?thesis using d(1) Inr x by (auto simp: decode_rr_def Let_def rd_def)
    next
      case False
      let ?e = "nx + 10 + unat rd"
      define data where "data = subslice (nx + 10) ?e raw"
      have ld: "length data = unat rd" using False by (auto simp: data_def)
      define rr where "rr = \<lparr>rrNameLen = n, rrName = d', rrType = be_get (subslice nx (nx + 2) raw),
                        rrClass = be_get (subslice (nx + 2) (nx + 4) raw),
                        rrTTL = be_get (subslice (nx + 4) (nx + 8) raw),
                        rrRDLength = rd, rrRDataLen = rd, rrRData = copy_into (rrRData zero_rr) data\<rparr>"
      have dec: "decode_rr raw off = Ret (Inr (rr, ?e))"
        using d(1) Inr x False by (simp add: decode_rr_def Let_def rd_def[symmetric] rr_def data_def)
      have cp: "rrRData rr = data @ replicate (1536 - unat rd) 0"
        using ld False by (simp add: rr_def copy_into_def zero_rr_def)
      have "subslice nx ?e raw = subslice nx (nx + 2) raw @ subslice (nx + 2) (nx + 4) raw @ subslice (nx + 4) (nx + 8) raw
          @ subslice (nx + 8) (nx + 10) raw @ data"
        unfolding data_def by (simp add: subslice_append[symmetric])
      also have "\<dots> = be_put 2 (rrType rr) @ be_put 2 (rrClass rr) @ be_put 4 (rrTTL rr) @ be_put 2 rd @ data"
        using False by (simp add: rr_def rd_def be_put_subslice)
      finally have oct: "subslice nx ?e raw = be_put 2 (rrType rr) @ be_put 2 (rrClass rr) @ be_put 4 (rrTTL rr)
          @ be_put 2 rd @ take (unat rd) (rrRData rr)" using cp ld by simp
      have "rr_ok rr" using False nxt(2) d(2) cp ld by (simp add: rr_ok_def) (simp add: rr_def)
      then have "rr_denotes raw off rr ?e" unfolding rr_denotes_def
        using nxt False oct cp ld by (intro conjI exI[of _ wls] exI[of _ nx]) (auto simp: rr_def)
      then show ?thesis using dec by simp
    qed
  qed (simp add: decode_rr_def d(1))
qed

lemma rr_loop_sound:
  "length rrs = 16 \<Longrightarrow> off \<le> length raw \<Longrightarrow> unat stored + k \<le> 16 \<Longrightarrow>
   \<exists>r rrs'. rr_loop k raw off stored rrs = Ret (r, rrs') \<and> length rrs' = 16
     \<and> (\<forall>off' n. r = Inr (off', n) \<longrightarrow> off' \<le> length raw \<and> unat n = unat stored + k
          \<and> take (unat stored) rrs' = take (unat stored) rrs \<and> drop (unat n) rrs' = drop (unat n) rrs
          \<and> records_at raw off (subslice (unat stored) (unat n) rrs') off')"
proof (induction k arbitrary: off stored rrs)
  case 0
  then show ?case by (simp add: subslice_def)
next
  case (Suc k)
  obtain r where r: "decode_rr raw off = Ret r" "\<forall>rr e. r = Inr (rr, e) \<longrightarrow> rr_denotes raw off rr e"
    using decode_rr_sound[of raw off] by blast
  show ?case
  proof (cases r)
    case (Inl err)
    then show ?thesis using r Suc.prems by simp
  next
    case (Inr x)
    obtain rr e where x: "x = (rr, e)" by (cases x)
    have e: "rr_denotes raw off rr e" "e \<le> length raw" using r(2) Inr x rr_denotes_span by auto
    have st: "unat (stored + 1) = Suc (unat stored)" using Suc.prems unat_plus_one[of stored] by simp
    let ?rrs = "rrs[unat stored := rr]"
    have step: "rr_loop (Suc k) raw off stored rrs = rr_loop k raw e (stored + 1) ?rrs"
      using r(1) Inr x Suc.prems by (simp add: write_at_def)
    obtain r' rrs' where l: "rr_loop k raw e (stored + 1) ?rrs = Ret (r', rrs')" "length rrs' = 16"
      and ok: "\<forall>off' n. r' = Inr (off', n) \<longrightarrow> off' \<le> length raw \<and> unat n = Suc (unat stored) + k
          \<and> take (Suc (unat stored)) rrs' = take (Suc (unat stored)) ?rrs \<and> drop (unat n) rrs' = drop (unat n) ?rrs
          \<and> records_at raw e (subslice (Suc (unat stored)) (unat n) rrs') off'"
      using Suc.IH[of ?rrs e "stored + 1"] Suc.prems e(2) st by auto
    have "off' \<le> length raw \<and> unat n = unat stored + Suc k
          \<and> take (unat stored) rrs' = take (unat stored) rrs \<and> drop (unat n) rrs' = drop (unat n) rrs
          \<and> records_at raw off (subslice (unat stored) (unat n) rrs') off'" if n: "r' = Inr (off', n)" for off' n
    proof -
      note o = ok[rule_format, OF n]
      let ?i = "unat stored"
      have lt: "?i < length rrs" using Suc.prems by simp
      have tk: "take (Suc ?i) rrs' = take ?i rrs @ [rr]"
        using o lt by (simp add: take_Suc_conv_app_nth take_update_swap list_update_append)
      have "rrs' ! ?i = rr" using tk lt l(2) Suc.prems(1) nth_take[of ?i "Suc ?i" rrs'] by (simp add: nth_append)
      then have "subslice ?i (unat n) rrs' = rr # subslice (Suc ?i) (unat n) rrs'"
        using o l(2) Suc.prems by (simp add: subslice_def Cons_nth_drop_Suc[symmetric] take_Cons')
      moreover have "take ?i rrs' = take ?i rrs"
        using arg_cong[OF tk, of "take ?i"] lt by (simp add: min_def)
      ultimately show ?thesis using o e(1) by auto
    qed
    then show ?thesis using step l by auto
  qed
qed

text \<open>A section: the records of the header's count, one after the other from \<open>off\<close>; \<open>e\<close> is the offset behind them.\<close>

definition section_denotes :: "bytes \<Rightarrow> nat \<Rightarrow> u16 \<Rightarrow> byte \<Rightarrow> DNSRR list \<Rightarrow> nat \<Rightarrow> bool" where
  "section_denotes raw off count n rrs e \<longleftrightarrow> unat n = unat count \<and> unat n \<le> 16 \<and> length rrs = 16 \<and> e \<le> length raw
     \<and> records_at raw off (take (unat n) rrs) e \<and> drop (unat n) rrs = replicate (16 - unat n) zero_rr"

lemma decodeRRSection_sound:
  assumes "rrs = replicate 16 zero_rr" "off \<le> length raw"
  shows "\<exists>r rrs'. decodeRRSection raw off count rrs = Ret (r, rrs') \<and> length rrs' = 16
     \<and> (\<forall>off' n. r = Inr (off', n) \<longrightarrow> section_denotes raw off count n rrs' off')"
proof (cases "16 < unat count")
  case True
  then show ?thesis using assms by (simp add: decodeRRSection_def)
next
  case False
  then show ?thesis using rr_loop_sound[of rrs off raw 0 "unat count"] assms
    by (fastforce simp: decodeRRSection_def section_denotes_def subslice_def)
qed

section \<open>The question of a message\<close>

text \<open>The questions after the first: names followed by four octets; \<open>e\<close> is the offset behind them.\<close>

primrec questions_at :: "bytes \<Rightarrow> nat \<Rightarrow> nat \<Rightarrow> nat \<Rightarrow> bool" where
  "questions_at raw off 0 e \<longleftrightarrow> e = off"
| "questions_at raw off (Suc k) e \<longleftrightarrow>
     (\<exists>wls p. name_span raw off wls p \<and> p + 4 \<le> length raw \<and> questions_at raw (p + 4) k e)"

lemma skip_questions_sound:
  "off \<le> length raw \<Longrightarrow> \<exists>r. skip_questions k raw off = Ret r
     \<and> (\<forall>off'. r = Inr off' \<longrightarrow> off' \<le> length raw \<and> questions_at raw off k off')"
proof (induction k arbitrary: off)
  case (Suc k)
  obtain r d' o' where d: "decodeDNSWireName raw off (replicate 256 0) None = Ret (r, d', o')"
    and ok: "\<forall>n next lc mx non. r = Inr (n, next, lc, mx, non) \<longrightarrow> (\<exists>wls. name_span raw off wls next)"
    using decode_name_plain[OF length_replicate, of raw off 0] by blast
  show ?case
  proof (cases r)
    case (Inr x)
    obtain n nx lc mx non where x: "x = (n, nx, lc, mx, non)" by (cases x)
    obtain wls where w: "name_span raw off wls nx" using ok Inr x by auto
    show ?thesis
    proof (cases "length raw < nx + 4")
      case True
      then show ?thesis using d Inr x by simp
    next
      case False
      then obtain r' where r': "skip_questions k raw (nx + 4) = Ret r'"
        "\<forall>off'. r' = Inr off' \<longrightarrow> off' \<le> length raw \<and> questions_at raw (nx + 4) k off'"
        using Suc.IH[of "nx + 4"] by auto
      then show ?thesis using d Inr x False w by (cases r') (auto intro!: exI[of _ wls] exI[of _ nx])
    qed
  qed (simp add: d)
qed simp

lemma class_disjoint: "is_upper b \<Longrightarrow> \<not> is_lower b" "is_upper b \<Longrightarrow> \<not> is_digit b" "is_lower b \<Longrightarrow> \<not> is_digit b"
  by (auto simp: is_upper_def is_lower_def is_digit_def word_le_nat_alt)

definition count_of :: "(byte \<Rightarrow> bool) \<Rightarrow> bytes \<Rightarrow> byte" where
  "count_of P l = word_of_nat (length (filter P l))"

lemma first_label_fold:
  "foldl first_octet msg l = msg\<lparr>FirstLabelUpper := FirstLabelUpper msg + count_of is_upper l,
     FirstLabelLower := FirstLabelLower msg + count_of is_lower l, FirstLabelDigits := FirstLabelDigits msg + count_of is_digit l,
     FirstLabelHasZeroOIl := (FirstLabelHasZeroOIl msg \<or> (\<exists>b \<in> set l. b = 0x30 \<or> b = 0x4F \<or> b = 0x49 \<or> b = 0x6C)),
     FirstLabelHasHyphen := (FirstLabelHasHyphen msg \<or> 0x2D \<in> set l)\<rparr>"
proof (induction l rule: rev_induct)
  case Nil
  then show ?case by (simp add: count_of_def)
next
  case (snoc b l)
  have c: "count_of P (l @ [b]) = count_of P l + (if P b then 1 else 0)" for P by (simp add: count_of_def add.commute)
  show ?case unfolding foldl_append snoc.IH foldl.simps
    using class_disjoint[of b] by (auto simp: first_octet_def c ac_simps)
qed

text \<open>What the survey reports of the first label, as it stands in the packet; nothing for the root.\<close>

definition survey_ok :: "bytes list \<Rightarrow> DNSMessage \<Rightarrow> bool" where
  "survey_ok wls msg \<longleftrightarrow> (let l = (case wls of [] \<Rightarrow> [] | l # _ \<Rightarrow> l) in
     unat (FirstLabelUpper msg) = length (filter is_upper l) \<and> unat (FirstLabelLower msg) = length (filter is_lower l)
   \<and> unat (FirstLabelDigits msg) = length (filter is_digit l)
   \<and> (FirstLabelHasZeroOIl msg \<longleftrightarrow> (\<exists>b \<in> set l. b = 0x30 \<or> b = 0x4F \<or> b = 0x49 \<or> b = 0x6C))
   \<and> (FirstLabelHasHyphen msg \<longleftrightarrow> 0x2D \<in> set l))"

definition unsurveyed :: "DNSMessage \<Rightarrow> bool" where
  "unsurveyed msg \<longleftrightarrow> FirstLabelUpper msg = 0 \<and> FirstLabelLower msg = 0 \<and> FirstLabelDigits msg = 0
     \<and> \<not> FirstLabelHasZeroOIl msg \<and> \<not> FirstLabelHasHyphen msg"

definition first_survey :: "DNSMessage \<Rightarrow> DNSMessage \<Rightarrow> bool" where
  "first_survey msg msg' \<longleftrightarrow> (\<exists>u l d z h. msg' = msg\<lparr>FirstLabelUpper := u, FirstLabelLower := l, FirstLabelDigits := d,
     FirstLabelHasZeroOIl := z, FirstLabelHasHyphen := h\<rparr>)"

lemma unat_count_of: "length l \<le> 63 \<Longrightarrow> unat (count_of P l) = length (filter P l)"
proof -
  assume "length l \<le> 63"
  then have "length (filter P l) \<le> 63" using length_filter_le order_trans by blast
  then show ?thesis by (simp add: count_of_def byte_len)
qed

lemma first_label_sound:
  assumes "name_span raw 12 wls e" "unsurveyed msg"
  shows "\<exists>msg'. first_label raw msg = Ret msg' \<and> first_survey msg msg' \<and> survey_ok wls msg'"
  using assms(1)
proof (cases rule: name_span.cases)
  case root
  have "first_survey msg msg" unfolding first_survey_def
    by (rule exI[of _ "FirstLabelUpper msg"], rule exI[of _ "FirstLabelLower msg"], rule exI[of _ "FirstLabelDigits msg"],
      rule exI[of _ "FirstLabelHasZeroOIl msg"], rule exI[of _ "FirstLabelHasHyphen msg"]) simp
  moreover have "first_label raw msg = Ret msg" using root by (auto simp: first_label_def Let_def)
  ultimately show ?thesis using root assms(2) by (simp add: survey_ok_def unsurveyed_def)
next
  case (label ls)
  define l where "l = subslice 13 (13 + unat (raw ! 12)) raw"
  have l: "length l \<le> 63" "wls = l # ls" using label by (auto simp: l_def)
  have "first_label raw msg = Ret (foldl first_octet msg l)"
    using label by (auto simp: first_label_def Let_def l_def)
  moreover have "survey_ok wls (foldl first_octet msg l)"
    using assms(2) unfolding first_label_fold survey_ok_def l(2) unsurveyed_def by (simp add: unat_count_of[OF l(1)])
  moreover have "first_survey msg (foldl first_octet msg l)"
    unfolding first_label_fold first_survey_def by blast
  ultimately show ?thesis by blast
qed simp

text \<open>The domain parts of a message, seen as those of an event.\<close>

definition parts_view :: "DNSMessage \<Rightarrow> DNSEvent" where
  "parts_view msg = (fresh_event 0 [])\<lparr>SubdomainLen := mSubdomainLen msg, Subdomain := mSubdomain msg,
     ParentDomainLen := mParentDomainLen msg, ParentDomain := mParentDomain msg,
     SLDLen := mSLDLen msg, SLD := mSLD msg, TLDLen := mTLDLen msg, TLD := mTLD msg\<rparr>"

lemma parts_view_copy: "parts_of ls (parts_view (copy_parts ev msg)) = parts_of ls ev"
  by (simp add: parts_of_def parts_view_def copy_parts_def Parent_def RegistrableSLD_def PublicSuffix_def Sub_def Let_def)

definition qname_ok :: "DNSMessage \<Rightarrow> bytes list \<Rightarrow> bool" where
  "qname_ok msg ls \<longleftrightarrow> length (QName msg) = 256 \<and> dns_labels ls \<and> length (dotted ls) \<le> 253 \<and> length ls \<le> 127
     \<and> unat (QNameLen msg) = length (dotted ls) \<and> take (length (dotted ls)) (QName msg) = dotted ls
     \<and> unat (mLabelCount msg) = length ls \<and> unat (mMaxLabelLen msg) = longest ls
     \<and> HasNonLDH msg = (\<exists>l \<in> set ls. \<exists>b \<in> set l. \<not> dnsLabelByte b)"

lemma ldh_dotfree: "\<not> (\<exists>l \<in> set ls. \<exists>b \<in> set l. \<not> dnsLabelByte b) \<Longrightarrow> dotfree ls"
proof -
  have "\<not> dnsLabelByte 0x2E" by (simp add: dnsLabelByte_def)
  then show "\<not> (\<exists>l \<in> set ls. \<exists>b \<in> set l. \<not> dnsLabelByte b) \<Longrightarrow> dotfree ls" by (auto simp: dotfree_def)
qed

lemma ldh_lower: "dnsLabelByte b \<Longrightarrow> lower b = b"
  by (auto simp: dnsLabelByte_def lower_def word_le_nat_alt)

lemma dotted_lower_id: "\<forall>l \<in> set ls. \<forall>b \<in> set l. dnsLabelByte b \<Longrightarrow> map lower (dotted ls) = dotted ls"
  by (induction ls rule: dotted.induct) (auto simp: ldh_lower lower_dot intro!: map_idI)

lemma dotted_last: "ls \<noteq> [] \<Longrightarrow> dns_labels ls \<Longrightarrow> dotfree ls \<Longrightarrow> last (dotted ls) \<noteq> 0x2E"
proof (induction ls rule: dotted.induct)
  case (2 l)
  then show ?case by (cases l rule: rev_cases) (auto simp: dns_labels_def)
next
  case (3 l m ls)
  then show ?case using dotted_eq_Nil[of "m # ls"] by (auto simp: dns_labels_def)
qed simp

lemma split_sound:
  assumes q: "qname_ok msg ls" and os: "length os = 128" "\<forall>i < length ls. unat (os ! i) = label_start ls i"
  shows "\<exists>msg'. splitWireQName msg (Some os) = Ret msg' \<and> (ls = [] \<and> msg' = msg \<or> (\<exists>ev. msg' = copy_parts ev msg \<and> parts_of ls ev))"
proof (cases "ls = []")
  case True
  then show ?thesis using q by (simp add: splitWireQName_def Let_def qname_ok_def)
next
  case ne: False
  define n where "n = length (dotted ls)"
  have l: "dns_labels ls" "n \<le> 253" "length ls \<le> 127" "unat (QNameLen msg) = n" "take n (QName msg) = dotted ls"
    "unat (mLabelCount msg) = length ls" "length (QName msg) = 256"
    using q by (auto simp: qname_ok_def n_def)
  have n0: "n \<noteq> 0" using dotted_eq_Nil[OF l(1)] ne by (simp add: n_def)
  have sl: "slice_at (QName msg) 0 n = Ret (dotted ls)" using l by (simp add: subslice_def)
  define fr where "fr = fresh_event 0 (replicate 16 0)"
  define attempt where "attempt = (if \<not> HasNonLDH msg \<and> mQType msg \<noteq> 0 then name_body (dotted ls) (mQType msg) fr else Ret (Inl ErrQuestionContract))"
  have lc: "0 < mLabelCount msg" using l(6) ne by (auto simp: word_gt_0 unat_eq_zero[symmetric])
  have frs: "fresh_event (Timestamp fr) (ClientIP fr) = fr" by (simp add: fr_def fresh_event_def)
  have step: "splitWireQName msg (Some os) = obind attempt (\<lambda>r. case r of
      Inr ev \<Rightarrow> Ret (copy_parts ev msg)
    | Inl _ \<Rightarrow> obind (populateDomainParts (fr\<lparr>Name := QName msg\<rparr>) n (length ls) os) (\<lambda>ev'. Ret (copy_parts ev' msg)))"
    unfolding splitWireQName_def Let_def l(4) attempt_def fr_def[symmetric]
    using n0 lc l(6) sl frs by (auto simp: ParseDNSName_def obind_assoc Let_def intro!: obind_cong split: sum.splits)
  obtain ev' where pop: "populateDomainParts (fr\<lparr>Name := QName msg\<rparr>) n (length ls) os = Ret ev'"
    "same_rest (fr\<lparr>Name := QName msg\<rparr>) ev'" "parts_of ls ev'"
    using populateDomainParts_parts[of "fr\<lparr>Name := QName msg\<rparr>" ls n os] l ne os
    by (auto simp: fr_def fresh_event_def event_shape_def n_def)
  have "\<exists>r. attempt = Ret r \<and> (\<forall>ev. r = Inr ev \<longrightarrow> parts_of ls ev)"
  proof (cases "\<not> HasNonLDH msg \<and> mQType msg \<noteq> 0")
    case True
    have ldh: "\<forall>l \<in> set ls. \<forall>b \<in> set l. dnsLabelByte b" using True q by (auto simp: qname_ok_def)
    have df: "dotfree ls" using ldh_dotfree ldh by blast
    have sd: "map lower (strip_dot (dotted ls)) = dotted ls"
      using dotted_last[OF ne l(1) df] dotted_lower_id[OF ldh] by (simp add: strip_dot_def)
    obtain r where r: "name_body (dotted ls) (mQType msg) fr = Ret r"
      "\<forall>ev. r = Inr ev \<longrightarrow> (\<exists>ms. question_event ms ev \<and> dotfree ms \<and> dotted ms = dotted ls)"
      using name_body_safe[of "dotted ls" "mQType msg" 0 "replicate 16 0"] unfolding sd fr_def[symmetric] by blast
    then show ?thesis using True df ne dotted_inj[of _ ls] by (auto simp: attempt_def question_event_def)
  qed (auto simp: attempt_def)
  then show ?thesis using step pop by (auto split: sum.splits)
qed

section \<open>Properties\<close>

text \<open>The header: its twelve octets are those of the six fields, and the flags are the bits of the second.\<close>

definition header_ok :: "bytes \<Rightarrow> DNSMessage \<Rightarrow> bool" where
  "header_ok raw msg \<longleftrightarrow> 12 \<le> length raw
     \<and> take 12 raw = be_put 2 (mID msg) @ be_put 2 (mFlags msg) @ be_put 2 (QDCount msg) @ be_put 2 (ANCount msg)
          @ be_put 2 (NSCount msg) @ be_put 2 (ARCount msg)
     \<and> (IsResponse msg \<longleftrightarrow> bit (mFlags msg) 15) \<and> unat (Opcode msg) = unat (mFlags msg) div 2048 mod 16
     \<and> (AA msg \<longleftrightarrow> bit (mFlags msg) 10) \<and> (TC msg \<longleftrightarrow> bit (mFlags msg) 9) \<and> (RD msg \<longleftrightarrow> bit (mFlags msg) 8)
     \<and> (RA msg \<longleftrightarrow> bit (mFlags msg) 7) \<and> unat (RCode msg) = unat (mFlags msg) mod 16"

text \<open>
  What a packet says, part by part and in the order of the octets: the header,
  the question (name up to \<open>p\<close>, type and class behind it), the other questions
  up to \<open>q\<close>, and the three sections up to \<open>a\<close>, \<open>b\<close> and \<open>c\<close>.
\<close>

definition message_ok :: "bytes \<Rightarrow> DNSMessage \<Rightarrow> bool" where
  "message_ok raw msg \<longleftrightarrow> header_ok raw msg \<and> QDCount msg \<noteq> 0
     \<and> (\<exists>wls p q a b c. name_span raw 12 wls p \<and> qname_ok msg (map (map lower) wls)
          \<and> (wls \<noteq> [] \<longrightarrow> parts_of (map (map lower) wls) (parts_view msg)) \<and> survey_ok wls msg
          \<and> p + 4 \<le> length raw \<and> subslice p (p + 4) raw = be_put 2 (mQType msg) @ be_put 2 (mQClass msg)
          \<and> questions_at raw (p + 4) (unat (QDCount msg) - 1) q
          \<and> section_denotes raw q (ANCount msg) (AnswerCount msg) (Answers msg) a
          \<and> section_denotes raw a (NSCount msg) (AuthorityCount msg) (Authorities msg) b
          \<and> section_denotes raw b (ARCount msg) (AdditionalCount msg) (Additionals msg) c)"

lemma message_ok_name:
  "message_ok raw msg \<Longrightarrow> \<exists>wls. wire_name_at raw 12 wls \<and> qname_ok msg (map (map lower) wls)
     \<and> (wls \<noteq> [] \<longrightarrow> parts_of (map (map lower) wls) (parts_view msg))"
  using name_span_wire by (fastforce simp: message_ok_def)

text \<open>The fields the sections do not touch.\<close>

definition head_view where
  "head_view msg = (mID msg, mFlags msg, IsResponse msg, Opcode msg, AA msg, TC msg, RD msg, RA msg, RCode msg,
     QDCount msg, ANCount msg, NSCount msg, ARCount msg, mQType msg, mQClass msg, QName msg, QNameLen msg, mLabelCount msg,
     mMaxLabelLen msg, HasNonLDH msg, (FirstLabelUpper msg, FirstLabelLower msg, FirstLabelDigits msg,
     FirstLabelHasZeroOIl msg, FirstLabelHasHyphen msg), parts_view msg)"

lemma head_view_eq:
  assumes "head_view m = head_view m'"
  shows "header_ok raw m = header_ok raw m'" "qname_ok m ls = qname_ok m' ls" "survey_ok wls m = survey_ok wls m'"
    "parts_view m = parts_view m'" "mQType m = mQType m'" "mQClass m = mQClass m'" "QDCount m = QDCount m'"
    "ANCount m = ANCount m'" "NSCount m = NSCount m'" "ARCount m = ARCount m'"
  using assms unfolding head_view_def header_ok_def qname_ok_def survey_ok_def Let_def prod.inject by simp_all

definition no_records :: "DNSMessage \<Rightarrow> bool" where
  "no_records msg \<longleftrightarrow> Answers msg = replicate 16 zero_rr \<and> Authorities msg = replicate 16 zero_rr
     \<and> Additionals msg = replicate 16 zero_rr"

lemma section_denotes_end: "section_denotes raw off n k rrs e \<Longrightarrow> e \<le> length raw"
  by (simp add: section_denotes_def)

lemma sections_sound:
  assumes "no_records msg" "off \<le> length raw"
  shows "\<exists>err msg'. decode_sections raw off msg = Ret (err, msg') \<and> head_view msg' = head_view msg
     \<and> (err = None \<longrightarrow> (\<exists>a b c. section_denotes raw off (ANCount msg') (AnswerCount msg') (Answers msg') a
        \<and> section_denotes raw a (NSCount msg') (AuthorityCount msg') (Authorities msg') b
        \<and> section_denotes raw b (ARCount msg') (AdditionalCount msg') (Additionals msg') c))"
proof -
  have z: "Answers msg = replicate 16 zero_rr" "Authorities msg = replicate 16 zero_rr" "Additionals msg = replicate 16 zero_rr"
    using assms(1) by (simp_all add: no_records_def)
  obtain r1 a where 1: "decodeRRSection raw off (ANCount msg) (Answers msg) = Ret (r1, a)"
    "\<forall>off' n. r1 = Inr (off', n) \<longrightarrow> section_denotes raw off (ANCount msg) n a off'"
    using decodeRRSection_sound[OF z(1) assms(2)] by blast
  show ?thesis
  proof (cases r1)
    case (Inl e)
    then show ?thesis using 1 by (simp add: decode_sections_def head_view_def parts_view_def)
  next
    case r1: (Inr x1)
    obtain off1 n1 where x1: "x1 = (off1, n1)" by (cases x1)
    have o1: "section_denotes raw off (ANCount msg) n1 a off1" using 1(2) r1 x1 by auto
    obtain r2 b where 2: "decodeRRSection raw off1 (NSCount msg) (Authorities msg) = Ret (r2, b)"
      "\<forall>off' n. r2 = Inr (off', n) \<longrightarrow> section_denotes raw off1 (NSCount msg) n b off'"
      using decodeRRSection_sound[OF z(2) section_denotes_end[OF o1]] by blast
    show ?thesis
    proof (cases r2)
      case (Inl e)
      then show ?thesis using 1 2 r1 x1 by (simp add: decode_sections_def head_view_def parts_view_def)
    next
      case r2: (Inr x2)
      obtain off2 n2 where x2: "x2 = (off2, n2)" by (cases x2)
      have o2: "section_denotes raw off1 (NSCount msg) n2 b off2" using 2(2) r2 x2 by auto
      obtain r3 c where 3: "decodeRRSection raw off2 (ARCount msg) (Additionals msg) = Ret (r3, c)"
        "\<forall>off' n. r3 = Inr (off', n) \<longrightarrow> section_denotes raw off2 (ARCount msg) n c off'"
        using decodeRRSection_sound[OF z(3) section_denotes_end[OF o2]] by blast
      show ?thesis
      proof (cases r3)
        case (Inl e)
        then show ?thesis using 1 2 3 r1 x1 r2 x2 by (simp add: decode_sections_def head_view_def parts_view_def)
      next
        case (Inr x3)
        obtain off3 n3 where x3: "x3 = (off3, n3)" by (cases x3)
        have o3: "section_denotes raw off2 (ARCount msg) n3 c off3" using 3(2) Inr x3 by auto
        show ?thesis using 1(1) 2(1) 3(1) r1 x1 r2 x2 Inr x3 o1 o2 o3
          by (simp add: decode_sections_def head_view_def parts_view_def) blast
      qed
    qed
  qed
qed

lemma message_tail_sound:
  assumes q: "qname_ok msg (map (map lower) wls)" "name_span raw 12 wls p" and off: "p + 4 \<le> length raw"
    and qt: "subslice p (p + 4) raw = be_put 2 (mQType msg) @ be_put 2 (mQClass msg)"
    and os: "length os = 128" "\<forall>i < length (map (map lower) wls). unat (os ! i) = label_start (map (map lower) wls) i"
    and sec: "no_records msg" "unsurveyed msg" and hd: "header_ok raw msg" "QDCount msg \<noteq> 0"
  shows "\<exists>err msg'. message_tail raw (p + 4) (Some os) msg = Ret (err, msg') \<and> (err = None \<longrightarrow> message_ok raw msg')"
proof -
  let ?ls = "map (map lower) wls"
  obtain m1 where m1: "first_label raw msg = Ret m1" "first_survey msg m1" "survey_ok wls m1"
    using first_label_sound[OF q(2) sec(2)] by blast
  have q1: "qname_ok m1 ?ls" "no_records m1" "header_ok raw m1" "QDCount m1 = QDCount msg"
    "mQType m1 = mQType msg" "mQClass m1 = mQClass msg"
  proof -
    obtain u l d z h where e: "m1 = msg\<lparr>FirstLabelUpper := u, FirstLabelLower := l, FirstLabelDigits := d,
      FirstLabelHasZeroOIl := z, FirstLabelHasHyphen := h\<rparr>" using m1(2) unfolding first_survey_def by blast
    have "qname_ok m1 ?ls = qname_ok msg ?ls" "no_records m1 = no_records msg" "header_ok raw m1 = header_ok raw msg"
      by (simp_all add: e qname_ok_def no_records_def header_ok_def)
    then show "qname_ok m1 ?ls" "no_records m1" "header_ok raw m1" using q(1) sec(1) hd(1) by simp_all
  qed (use m1(2) in \<open>auto simp: first_survey_def\<close>)
  obtain m2 where m2: "splitWireQName m1 (Some os) = Ret m2"
    "?ls = [] \<and> m2 = m1 \<or> (\<exists>ev. m2 = copy_parts ev m1 \<and> parts_of ?ls ev)"
    using split_sound[OF q1(1) os] by blast
  have q2: "qname_ok m2 ?ls" "no_records m2" "header_ok raw m2" "QDCount m2 = QDCount msg"
    "mQType m2 = mQType msg" "mQClass m2 = mQClass msg" "survey_ok wls m2" "wls \<noteq> [] \<longrightarrow> parts_of ?ls (parts_view m2)"
  proof -
    have c: "qname_ok (copy_parts ev m1) ?ls = qname_ok m1 ?ls" "no_records (copy_parts ev m1) = no_records m1"
      "header_ok raw (copy_parts ev m1) = header_ok raw m1" "survey_ok wls (copy_parts ev m1) = survey_ok wls m1"
      "QDCount (copy_parts ev m1) = QDCount m1" "mQType (copy_parts ev m1) = mQType m1" "mQClass (copy_parts ev m1) = mQClass m1" for ev
      by (simp_all add: copy_parts_def qname_ok_def no_records_def header_ok_def survey_ok_def Let_def)
    show "qname_ok m2 ?ls" "no_records m2" "header_ok raw m2" "QDCount m2 = QDCount msg"
      "mQType m2 = mQType msg" "mQClass m2 = mQClass msg" "survey_ok wls m2"
      using m2(2) q1 m1(3) c by metis+
    show "wls \<noteq> [] \<longrightarrow> parts_of ?ls (parts_view m2)" using m2(2) parts_view_copy by auto
  qed
  obtain r where r: "skip_questions (unat (QDCount m2) - 1) raw (p + 4) = Ret r"
    "\<forall>off'. r = Inr off' \<longrightarrow> off' \<le> length raw \<and> questions_at raw (p + 4) (unat (QDCount m2) - 1) off'"
    using skip_questions_sound[OF off] by blast
  show ?thesis
  proof (cases r)
    case (Inl e)
    then show ?thesis using m1 m2 r by (simp add: message_tail_def)
  next
    case (Inr off')
    have off': "off' \<le> length raw" "questions_at raw (p + 4) (unat (QDCount m2) - 1) off'" using r(2) Inr by auto
    obtain err m3 where m3: "decode_sections raw off' m2 = Ret (err, m3)" "head_view m3 = head_view m2"
      "err = None \<longrightarrow> (\<exists>a b c. section_denotes raw off' (ANCount m3) (AnswerCount m3) (Answers m3) a
        \<and> section_denotes raw a (NSCount m3) (AuthorityCount m3) (Authorities m3) b
        \<and> section_denotes raw b (ARCount m3) (AdditionalCount m3) (Additionals m3) c)"
      using sections_sound[OF q2(2) off'(1)] by blast
    have run: "message_tail raw (p + 4) (Some os) msg = Ret (err, m3)" using m1 m2 r Inr m3 by (simp add: message_tail_def)
    note hv = head_view_eq[OF m3(2)]
    have "message_ok raw m3" if "err = None"
    proof -
      obtain a b c where "section_denotes raw off' (ANCount m3) (AnswerCount m3) (Answers m3) a"
        "section_denotes raw a (NSCount m3) (AuthorityCount m3) (Authorities m3) b"
        "section_denotes raw b (ARCount m3) (AdditionalCount m3) (Additionals m3) c" using m3(3) \<open>err = None\<close> by blast
      then show ?thesis unfolding message_ok_def
        using q2 hd(2) q(2) off qt off'(2) hv(1-7) by (intro conjI exI[of _ wls] exI[of _ p] exI[of _ off'] exI[of _ a] exI[of _ b] exI[of _ c]) simp_all
    qed
    then show ?thesis using run by blast
  qed
qed

lemma bit_and_flag: "(f AND 2 ^ n \<noteq> (0 :: u16)) \<longleftrightarrow> bit f n" if "n < 16"
  using that by (simp add: and_exp_eq_0_iff_not_bit)

lemma header_of_ok: "12 \<le> length raw \<Longrightarrow> header_ok raw (header_of raw)"
proof -
  assume l: "12 \<le> length raw"
  let ?f = "be_get (subslice 2 4 raw) :: u16"
  have "take 12 raw = subslice 0 2 raw @ subslice 2 4 raw @ subslice 4 6 raw @ subslice 6 8 raw @ subslice 8 10 raw @ subslice 10 12 raw"
    by (simp add: subslice_append[symmetric]) (simp add: subslice_def)
  also have "\<dots> = be_put 2 (be_get (subslice 0 2 raw) :: u16) @ be_put 2 ?f @ be_put 2 (be_get (subslice 4 6 raw) :: u16)
      @ be_put 2 (be_get (subslice 6 8 raw) :: u16) @ be_put 2 (be_get (subslice 8 10 raw) :: u16) @ be_put 2 (be_get (subslice 10 12 raw) :: u16)"
    using l by (simp add: be_put_subslice)
  finally have t: "take 12 raw = \<dots>" .
  have b: "(?f AND 0x8000 \<noteq> 0) = bit ?f 15" "(?f AND 0x400 \<noteq> 0) = bit ?f 10" "(?f AND 0x200 \<noteq> 0) = bit ?f 9"
    "(?f AND 0x100 \<noteq> 0) = bit ?f 8" "(?f AND 0x80 \<noteq> 0) = bit ?f 7"
    using bit_and_flag[of 15 ?f] bit_and_flag[of 10 ?f] bit_and_flag[of 9 ?f] bit_and_flag[of 8 ?f] bit_and_flag[of 7 ?f] by simp_all
  have m: "unat (x AND 0xF) = unat x mod 16" for x :: u16 using unat_and_mask[of x 4] by (simp add: mask_eq_exp_minus_1)
  have u: "unat (ucast (x AND 0xF) :: byte) = unat x mod 16" for x :: u16
    using m[of x] by (simp add: unsigned_ucast_eq take_bit_eq_mod)
  show ?thesis using l t b u unfolding header_ok_def
    by (simp add: header_of_def Let_def zero_message_def drop_bit_eq_div unat_div)
qed

lemma message_sound:
  "\<exists>err msg'. ParseDNSMessage raw (Some msg) = Ret (err, Some msg') \<and> (err = None \<longrightarrow> message_ok raw msg')"
proof (cases "length raw < 12 \<or> QDCount (header_of raw) = 0")
  case True
  then show ?thesis by (auto simp: ParseDNSMessage_def Let_def)
next
  case False
  define h where "h = header_of raw"
  have h: "length (QName h) = 256" "no_records h" "unsurveyed h" "QDCount h \<noteq> 0" "header_ok raw h"
    using False header_of_ok[of raw]
    by (simp_all add: h_def) (simp_all add: header_of_def zero_message_def Let_def no_records_def unsurveyed_def)
  obtain r d os where r: "decodeDNSWireName raw 12 (QName h) (Some (replicate 128 0)) = Ret (r, d, os)" "length d = 256" "os \<noteq> None"
    and ok: "\<forall>n next lc mx non. r = Inr (n, next, lc, mx, non) \<longrightarrow> (\<exists>ls. name_ok raw 12 n next lc mx non d ls
          \<and> (\<forall>os'. os = Some os' \<longrightarrow> length os' = 128 \<and> (\<forall>i < length ls. unat (os' ! i) = label_start ls i)))"
    using decode_name_sound[OF h(1), of "Some (replicate 128 0)" raw 12] by auto
  have main: "ParseDNSMessage raw (Some msg) = obind (message_question raw (h\<lparr>QName := d\<rparr>) r os) (\<lambda>(err, msg). Ret (err, Some msg))"
    using False r(1) by (simp add: ParseDNSMessage_def h_def)
  obtain os' where os': "os = Some os'" using r(3) by auto
  show ?thesis
  proof (cases r)
    case (Inl e)
    then show ?thesis using main by (simp add: message_question_def)
  next
    case (Inr x)
    obtain n nx lc mx non where x: "x = (n, nx, lc, mx, non)" by (cases x)
    obtain ls where ls: "name_ok raw 12 n nx lc mx non d ls" "length os' = 128" "\<forall>i < length ls. unat (os' ! i) = label_start ls i"
      using ok[THEN spec, THEN spec, THEN spec, THEN spec, THEN spec, THEN mp, OF Inr[unfolded x]] os' by auto
    then obtain wls where w: "name_span raw 12 wls nx" "ls = map (map lower) wls" by (auto simp: name_ok_def)
    define m where "m = h\<lparr>QName := d, QNameLen := n, mLabelCount := lc, mMaxLabelLen := mx, HasNonLDH := non,
                         mQType := be_get (subslice nx (nx + 2) raw), mQClass := be_get (subslice (nx + 2) (nx + 4) raw)\<rparr>"
    have q: "qname_ok m (map (map lower) wls)" using ls(1) r(2) unfolding w(2) by (auto simp: name_ok_def qname_ok_def m_def)
    have mh: "no_records m" "unsurveyed m" "header_ok raw m" "QDCount m \<noteq> 0"
      using h by (simp_all add: m_def no_records_def unsurveyed_def header_ok_def)
    show ?thesis
    proof (cases "length raw < nx + 4")
      case True
      then show ?thesis using main Inr x by (simp add: message_question_def)
    next
      case fits: False
      have le: "nx + 4 \<le> length raw" using fits by simp
      have qt: "subslice nx (nx + 4) raw = be_put 2 (mQType m) @ be_put 2 (mQClass m)"
        using le by (simp add: m_def be_put_subslice subslice_append[symmetric])
      obtain err m' where mt: "message_tail raw (nx + 4) (Some os') m = Ret (err, m')" "err = None \<longrightarrow> message_ok raw m'"
        using message_tail_sound[OF q w(1) le qt ls(2) ls(3)[unfolded w(2)] mh] by blast
      have "message_question raw (h\<lparr>QName := d\<rparr>) r os = Ret (err, m')"
        using mt(1) fits unfolding message_question_def Inr x os' m_def by simp
      then have "ParseDNSMessage raw (Some msg) = Ret (err, Some m')" using main by simp
      then show ?thesis using mt(2) by simp
    qed
  qed
qed

text \<open>
  C12.  The message decoder never reads or writes out of bounds, whatever the
  packet, and a message it accepts says what the octets of the packet say, field
  by field: the header fields and flags; the labels of the question through any
  compression, in lower case, with the domain parts cut at the label boundaries,
  the survey of the first label as it stands in the packet, and the type and
  class behind the name; the other questions skipped over; and the three
  sections one after the other, each with exactly the number of records of the
  header, at most sixteen, every record having the labels, type, class, time to
  live, length and data octets found at its place, and nothing set beyond them.
\<close>

theorem dns_message_safe:
  "\<exists>err msg'. ParseDNSMessage raw (Some msg) = Ret (err, Some msg')
     \<and> (err = None \<longrightarrow> header_ok raw msg' \<and> QDCount msg' \<noteq> 0
          \<and> (\<exists>wls p q a b c. name_span raw 12 wls p \<and> qname_ok msg' (map (map lower) wls)
               \<and> (wls \<noteq> [] \<longrightarrow> parts_of (map (map lower) wls) (parts_view msg')) \<and> survey_ok wls msg'
               \<and> p + 4 \<le> length raw \<and> subslice p (p + 4) raw = be_put 2 (mQType msg') @ be_put 2 (mQClass msg')
               \<and> questions_at raw (p + 4) (unat (QDCount msg') - 1) q
               \<and> section_denotes raw q (ANCount msg') (AnswerCount msg') (Answers msg') a
               \<and> section_denotes raw a (NSCount msg') (AuthorityCount msg') (Authorities msg') b
               \<and> section_denotes raw b (ARCount msg') (AdditionalCount msg') (Additionals msg') c))"
  using message_sound[of raw msg] unfolding message_ok_def by blast

text \<open>A packet with a compressed answer, for the witness.\<close>

definition sample_response :: bytes where
  "sample_response = be_put 2 (7 :: u16) @ be_put 2 (0x8180 :: u16) @ [0, 1, 0, 1, 0, 0, 0, 0]
     @ wire_name [ascii ''Ab'', ascii ''cd''] @ [0, 1, 0, 1]
     @ [0xC0, 12, 0, 1, 0, 1, 0, 0, 0, 60, 0, 4, 10, 0, 0, 1]"

theorem dns_message_safe_witness:
  "\<exists>msg'. ParseDNSMessage sample_response (Some zero_message) = Ret (None, Some msg') \<and> message_ok sample_response msg'"
proof -
  have "case ParseDNSMessage sample_response (Some zero_message) of Ret (err, _) \<Rightarrow> err = None | Panic \<Rightarrow> False"
    by code_simp
  moreover obtain err msg' where p: "ParseDNSMessage sample_response (Some zero_message) = Ret (err, Some msg')"
    and "err = None \<longrightarrow> message_ok sample_response msg'"
    using dns_message_safe[of sample_response zero_message] unfolding message_ok_def by blast
  ultimately show ?thesis by auto
qed

end
