(* ===== verification/DnsAgree.thy ===== *)
theory DnsAgree
  imports DnsMessage
begin

text \<open>
  The question decoder of \<open>dns.go\<close> and the message decoder of
  \<open>dns_message.go\<close> are written separately.  Both are shown to read the labels of
  the abstract wire format, and so to agree on every packet that both accept.
\<close>

lemma be_get_pair: "unat ((be_get [x, y] :: u16) AND 0x3FFF) = pointer_target x y"
proof -
  have u: "unat (be_get [x, y] :: u16) = unat x * 256 + unat y"
    using unat_le_get[where 'a = 16, of "[y, x]"] by (simp add: be_get_def)
  have "unat ((be_get [x, y] :: u16) AND 0x3FFF) = (unat x * 256 + unat y) mod 16384"
    using unat_and_mask[of "be_get [x, y] :: u16" 14] u by (simp add: mask_eq_decr_exp)
  also have "\<dots> = (unat x mod 64) * 256 + unat y"
  proof -
    have "unat y < 256" using unat_bound[of y] by simp
    moreover have "unat x * 256 + unat y = (unat x mod 64 * 256 + unat y) + unat x div 64 * 16384"
      using div_mult_mod_eq[of "unat x" 64] by linarith
    moreover have "unat x mod 64 < 64" by simp
    ultimately have "unat x mod 64 * 256 + unat y < 16384"
      "(unat x * 256 + unat y) mod 16384 = (unat x mod 64 * 256 + unat y) mod 16384" by (linarith, metis mod_mult_self1)
    then show ?thesis by simp
  qed
  also have "unat x mod 64 = unat (x AND 0x3F)"
    using unat_and_mask[of x 6] by (simp add: mask_eq_decr_exp)
  finally show ?thesis by (simp add: pointer_target_def)
qed

lemma obind_sum_Inr:
  "obind x (\<lambda>r. case r of Inl e \<Rightarrow> Ret (Inl e) | Inr a \<Rightarrow> f a) = Ret (Inr z) \<longleftrightarrow> (\<exists>a. x = Ret (Inr a) \<and> f a = Ret (Inr z))"
  by (cases x) (auto split: sum.splits)

lemma emit_label_labels:
  assumes "acc_ok acc" "acc_labels ls acc" "label \<noteq> []" "length label \<le> 63" "emit_label tolerant acc label = Ret (Inr acc')"
  shows "acc_ok acc'" "acc_labels (ls @ [map lower label]) acc'"
  using emit_label_spec[OF assms(1,3,4), of tolerant] emitted_ok[OF assms(1,3,4), of tolerant]
    emitted_labels[OF assms(1-4), of tolerant] assms(5)
  by (auto split: if_splits)

lemma pointer_loop_names:
  "acc_ok acc \<Longrightarrow> acc_labels ls acc \<Longrightarrow> pointer_loop tolerant raw pOffset acc = Ret (Inr acc') \<Longrightarrow>
   \<exists>wls. wire_name_at raw pOffset wls \<and> acc_labels (ls @ map (map lower) wls) acc'"
proof (induction "length raw - pOffset" arbitrary: pOffset acc ls rule: less_induct)
  case less
  define b where "b = raw ! pOffset"
  consider (stop) "length raw \<le> pOffset \<or> unat b \<noteq> 0 \<and> (b AND 0xC0 = 0xC0 \<or> 63 < unat b \<or> length raw < pOffset + 1 + unat b)"
    | (root) "pOffset < length raw" "unat b = 0"
    | (lab) "pOffset < length raw" "0 < unat b" "b AND 0xC0 \<noteq> 0xC0" "unat b \<le> 63" "pOffset + 1 + unat b \<le> length raw" by linarith
  then show ?case
  proof cases
    case stop
    have "pointer_loop tolerant raw pOffset acc \<noteq> Ret (Inr acc')"
      using stop unfolding b_def by (subst pointer_loop.simps) (auto simp: Let_def)
    then show ?thesis using less.prems(3) by simp
  next
    case root
    have "pointer_loop tolerant raw pOffset acc = Ret (Inr acc)"
      using root unfolding b_def by (subst pointer_loop.simps) (simp add: Let_def)
    then have "acc' = acc" using less.prems(3) by simp
    moreover have "wire_name_at raw pOffset []"
      using root by (intro wire_name_at.root) (simp_all add: b_def unat_eq_zero)
    ultimately show ?thesis using less.prems(2) by (intro exI[of _ "[]"]) simp
  next
    case lab
    define label where "label = subslice (pOffset + 1) (pOffset + 1 + unat b) raw"
    note l = label_at[OF lab(2,4,5), folded label_def]
    have step: "pointer_loop tolerant raw pOffset acc = obind (emit_label tolerant acc label) (\<lambda>r. case r of Inl err \<Rightarrow> Ret (Inl err)
          | Inr a \<Rightarrow> pointer_loop tolerant raw (pOffset + 1 + unat b) a)"
      using lab l(3) by (subst pointer_loop.simps) (simp add: Let_def b_def[symmetric])
    obtain a where a: "emit_label tolerant acc label = Ret (Inr a)" "pointer_loop tolerant raw (pOffset + 1 + unat b) a = Ret (Inr acc')"
      using less.prems(3) unfolding step obind_sum_Inr by blast
    have lt: "length raw - (pOffset + 1 + unat b) < length raw - pOffset" using lab by (intro diff_less_mono2) auto
    obtain wls where "wire_name_at raw (pOffset + 1 + unat b) wls" "acc_labels ((ls @ [map lower label]) @ map (map lower) wls) acc'"
      using less.hyps[OF lt emit_label_labels[OF less.prems(1,2) l(1,2) a(1)] a(2)] by blast
    moreover from this have "wire_name_at raw pOffset (label # wls)"
      using wire_name_at.label[of pOffset raw wls] lab by (simp add: b_def label_def)
    ultimately show ?thesis by (intro exI[of _ "label # wls"]) simp
  qed
qed

lemma question_loop_names:
  "acc_ok acc \<Longrightarrow> acc_labels ls acc \<Longrightarrow> question_loop tolerant raw offset acc = Ret (Inr (off, acc')) \<Longrightarrow>
   \<exists>wls. wire_name_at raw offset wls \<and> acc_labels (ls @ map (map lower) wls) acc'"
proof (induction "length raw - offset" arbitrary: offset acc ls rule: less_induct)
  case less
  define b where "b = raw ! offset"
  define target where "target = pointer_target b (raw ! (offset + 1))"
  consider (stop) "length raw \<le> offset \<or> unat b \<noteq> 0 \<and> b AND 0xC0 \<noteq> 0xC0 \<and> (63 < unat b \<or> length raw < offset + 1 + unat b)
      \<or> unat b \<noteq> 0 \<and> b AND 0xC0 = 0xC0 \<and> length raw \<le> offset + 1"
    | (root) "offset < length raw" "unat b = 0"
    | (ptr) "offset + 1 < length raw" "unat b \<noteq> 0" "b AND 0xC0 = 0xC0"
    | (lab) "offset < length raw" "0 < unat b" "b AND 0xC0 \<noteq> 0xC0" "unat b \<le> 63" "offset + 1 + unat b \<le> length raw" by linarith
  then show ?case
  proof cases
    case stop
    have "question_loop tolerant raw offset acc \<noteq> Ret (Inr (off, acc'))"
      using stop unfolding b_def by (subst question_loop.simps) (auto simp: Let_def)
    then show ?thesis using less.prems(3) by simp
  next
    case root
    have "question_loop tolerant raw offset acc = Ret (Inr (offset + 1, acc))"
      using root unfolding b_def by (subst question_loop.simps) (simp add: Let_def)
    then have "acc' = acc" using less.prems(3) by simp
    moreover have "wire_name_at raw offset []"
      using root by (intro wire_name_at.root) (simp_all add: b_def unat_eq_zero)
    ultimately show ?thesis using less.prems(2) by (intro exI[of _ "[]"]) simp
  next
    case ptr
    have two: "subslice offset (offset + 2) raw = [b, raw ! (offset + 1)]"
      using ptr(1) by (intro nth_equalityI) (auto simp: b_def nth_Cons less_Suc_eq_0_disj split: nat.splits)
    have step: "question_loop tolerant raw offset acc =
       (if length raw \<le> target \<or> target < 12 then Ret (Inl ErrInvalidLabel)
        else if target = offset then Ret (Inl ErrLoopPointer)
        else obind (pointer_loop tolerant raw target acc) (\<lambda>r. case r of Inl err \<Rightarrow> Ret (Inl err)
               | Inr a \<Rightarrow> Ret (Inr (offset + 2, a))))"
      using ptr two by (subst question_loop.simps) (simp add: Let_def target_def slice_at_def b_def[symmetric] be_get_pair)
    then have "pointer_loop tolerant raw target acc = Ret (Inr acc')"
      using less.prems(3) unfolding step by (auto simp: obind_sum_Inr split: if_splits)
    from pointer_loop_names[OF less.prems(1,2) this] show ?thesis
      using wire_name_at.pointer[of offset raw] ptr unfolding target_def b_def by blast
  next
    case lab
    define label where "label = subslice (offset + 1) (offset + 1 + unat b) raw"
    note l = label_at[OF lab(2,4,5), folded label_def]
    have step: "question_loop tolerant raw offset acc = obind (emit_label tolerant acc label) (\<lambda>r. case r of Inl err \<Rightarrow> Ret (Inl err)
          | Inr a \<Rightarrow> question_loop tolerant raw (offset + 1 + unat b) a)"
      using lab l(3) by (subst question_loop.simps) (simp add: Let_def b_def[symmetric])
    obtain a where a: "emit_label tolerant acc label = Ret (Inr a)" "question_loop tolerant raw (offset + 1 + unat b) a = Ret (Inr (off, acc'))"
      using less.prems(3) unfolding step obind_sum_Inr by blast
    have lt: "length raw - (offset + 1 + unat b) < length raw - offset" using lab by (intro diff_less_mono2) auto
    obtain wls where "wire_name_at raw (offset + 1 + unat b) wls" "acc_labels ((ls @ [map lower label]) @ map (map lower) wls) acc'"
      using less.hyps[OF lt emit_label_labels[OF less.prems(1,2) l(1,2) a(1)] a(2)] by blast
    moreover from this have "wire_name_at raw offset (label # wls)"
      using wire_name_at.label[of offset raw wls] lab by (simp add: b_def label_def)
    ultimately show ?thesis by (intro exI[of _ "label # wls"]) simp
  qed
qed

lemma query_body_names:
  assumes "query_body raw (fresh_event stamp client) tolerant = Ret (Inr ev)"
  shows "\<exists>wls. wire_name_at raw 12 wls \<and> question_event (map (map lower) wls) ev"
proof -
  define ev1 where "ev1 = (fresh_event stamp client)\<lparr>ID := be_get (subslice 0 2 raw), EvFlags := be_get (subslice 2 4 raw)\<rparr>"
  have ev1: "event_shape ev1" "parts_blank ev1" "same_head ev1 ev1"
    by (simp_all add: ev1_def event_shape_def parts_blank_def same_head_def fresh_event_def)
  note good = acc_start_good[OF ev1]
  have nil: "acc_ok (acc_start ev1)" "acc_labels [] (acc_start ev1)" using good
    by (simp_all add: acc_good_def acc_labels_def acc_start_def dns_labels_def acc_name_def longest_def)
  obtain off acc where q: "question_loop tolerant raw 12 (acc_start ev1) = Ret (Inr (off, acc))" "question_tail tolerant raw off acc = Ret (Inr ev)"
    using assms unfolding query_body_def by (auto simp: Let_def ev1_def[symmetric] obind_sum_Inr split: if_splits)
  obtain wls where w: "wire_name_at raw 12 wls" "acc_labels (map (map lower) wls) acc"
    using question_loop_names[OF nil q(1)] by auto
  have "acc_good ev1 acc" using question_loop_safe[OF good, of tolerant raw 12] q(1) by auto
  from question_tail_safe[OF this w(2), of tolerant raw off] q(2) w(1) show ?thesis by auto
qed

text \<open>
  C13.  The two DNS decoders agree: when the strict or tolerant question decoder and the message
  decoder both accept a packet, they have read the same name and cut it into the same parent
  domain, registrable label, public suffix and subdomain.
\<close>
theorem dns_decoders_agree:
  assumes "parseDNSQueryWire raw (Some ev0) tolerant = Ret (None, Some ev)"
    and "ParseDNSMessage raw (Some msg0) = Ret (None, Some msg)"
  shows "FQDN ev = take (unat (QNameLen msg)) (QName msg) \<and> LabelCount ev = mLabelCount msg \<and> MaxLabelLen ev = mMaxLabelLen msg
     \<and> Parent ev = Parent (parts_view msg) \<and> RegistrableSLD ev = RegistrableSLD (parts_view msg)
     \<and> PublicSuffix ev = PublicSuffix (parts_view msg) \<and> Sub ev = Sub (parts_view msg)"
proof -
  obtain wls where w: "wire_name_at raw 12 wls" "question_event (map (map lower) wls) ev"
  proof -
    obtain r where r: "query_body raw (fresh_event (Timestamp ev0) (ClientIP ev0)) tolerant = Ret r" using query_body_safe by blast
    then have "r = Inr ev" using assms(1) by (cases r) (auto simp: parseDNSQueryWire_def Let_def)
    then show thesis using query_body_names r that by blast
  qed
  have "message_ok raw msg" using message_sound[of raw msg0] assms(2) by auto
  then obtain wms where m: "wire_name_at raw 12 wms" "qname_ok msg (map (map lower) wms)"
    "wms \<noteq> [] \<longrightarrow> parts_of (map (map lower) wms) (parts_view msg)" using message_ok_name by blast
  have eq: "wms = wls" using wire_name_at_fun[OF m(1) w(1)] .
  have ne: "wls \<noteq> []" using w(2) by (auto simp: question_event_def)
  have "parts_of (map (map lower) wls) ev" using w(2) by (simp add: question_event_def)
  moreover have "parts_of (map (map lower) wls) (parts_view msg)" using m(3) eq ne by simp
  moreover have "LabelCount ev = mLabelCount msg" "MaxLabelLen ev = mMaxLabelLen msg"
    using w(2) m(2) eq by (auto simp: question_event_def qname_ok_def intro: unsigned_word_eqI[where ?'a = nat])
  moreover have "FQDN ev = take (unat (QNameLen msg)) (QName msg)"
    using w(2) m(2) eq by (simp add: question_event_def qname_ok_def)
  ultimately show ?thesis by (simp add: parts_of_def Let_def split: if_splits)
qed

theorem dns_decoders_agree_witness:
  "\<exists>ev msg. ParseDNSQuery (wire_query 7 0x100 [ascii ''Ab'', ascii ''cd''] 1) (Some (fresh_event 5 [])) = Ret (None, Some ev)
     \<and> ParseDNSMessage (wire_query 7 0x100 [ascii ''Ab'', ascii ''cd''] 1) (Some zero_message) = Ret (None, Some msg)
     \<and> FQDN ev = take (unat (QNameLen msg)) (QName msg) \<and> Sub ev = Sub (parts_view msg)"
proof -
  let ?raw = "wire_query 7 0x100 [ascii ''Ab'', ascii ''cd''] 1"
  have "case parseDNSQueryWire ?raw (Some (fresh_event 5 [])) False of Ret (None, Some _) \<Rightarrow> True | _ \<Rightarrow> False" by code_simp
  then obtain ev where 1: "parseDNSQueryWire ?raw (Some (fresh_event 5 [])) False = Ret (None, Some ev)"
    by (auto split: outcome.splits option.splits prod.splits)
  have "case ParseDNSMessage ?raw (Some zero_message) of Ret (None, Some _) \<Rightarrow> True | _ \<Rightarrow> False" by code_simp
  then obtain msg where 2: "ParseDNSMessage ?raw (Some zero_message) = Ret (None, Some msg)"
    by (auto split: outcome.splits option.splits prod.splits)
  show ?thesis using dns_decoders_agree[OF 1 2] 1 2 by (auto simp: ParseDNSQuery_def)
qed

end
