(* ===== verification/Pcap.thy ===== *)
theory Pcap
  imports DnsWire Codec
begin

text \<open>
  The pcap reader of \<open>dns_pcap.go\<close>: global header, records, link, network and
  transport layers, and the hand-over of each UDP question to the question
  decoder.  The file is its contents (\<open>None\<close> when it cannot be opened); a read
  fails only at the end of the file.  The visitor is a function on a state of
  the caller that may return an error.
\<close>

section \<open>Reading\<close>

text \<open>\<open>binary.ByteOrder\<close>: \<open>True\<close> is little endian.\<close>

definition order_u32 :: "bool \<Rightarrow> bytes \<Rightarrow> u32" where
  "order_u32 little bs = (if little then le_get bs else be_get bs)"

record PCAPIngestStats =
  Records :: u32
  LinkType :: u32
  UDPQuestions :: u32
  UDPResponses :: u32
  TCPSegments :: u32
  OtherPackets :: u32
  IPFragments :: u32
  TruncatedPackets :: u32
  Accepted :: u32
  RejectedTooShort :: u32
  RejectedInvalidLabel :: u32
  RejectedLoopPointer :: u32
  RejectedNameTooLong :: u32
  RejectedContract :: u32

definition zero_stats :: PCAPIngestStats where
  "zero_stats = \<lparr>Records = 0, LinkType = 0, UDPQuestions = 0, UDPResponses = 0, TCPSegments = 0, OtherPackets = 0,
     IPFragments = 0, TruncatedPackets = 0, Accepted = 0, RejectedTooShort = 0, RejectedInvalidLabel = 0,
     RejectedLoopPointer = 0, RejectedNameTooLong = 0, RejectedContract = 0\<rparr>"

record PCAPQuestionMeta =
  qRecord :: u32
  qTimestamp :: u64
  SourceIP :: bytes
  DestIP :: bytes
  IPv6 :: bool
  SourcePort :: u16

datatype 'e pcap_error =
    ErrOpen
  | ErrPCAPBadMagic
  | ErrPCAPLinkType
  | ErrPCAPTruncated
  | ErrParse dns_error
  | ErrVisit 'e

section \<open>Layers\<close>

text \<open>The link layer: the protocol and the network packet; \<open>None\<close> for a frame too short.\<close>

definition link_layer :: "u32 \<Rightarrow> bytes \<Rightarrow> (u16 \<times> bytes) option outcome" where
  "link_layer linkType packet =
     (if linkType = 276 then
        (if length packet < 20 then Ret None
         else obind (slice_at packet 0 2) (\<lambda>p. Ret (Some (be_get p, drop 20 packet))))
      else if linkType = 113 then
        (if length packet < 16 then Ret None
         else obind (slice_at packet 14 16) (\<lambda>p. Ret (Some (be_get p, drop 16 packet))))
      else if linkType = 1 then
        (if length packet < 14 then Ret None
         else obind (slice_at packet 12 14) (\<lambda>p.
           if be_get p = (0x8100 :: u16) then
             let rest = drop 14 packet in
             (if length rest < 4 then Ret None
              else obind (slice_at rest 2 4) (\<lambda>p. Ret (Some (be_get p, drop 4 rest))))
           else Ret (Some (be_get p, drop 14 packet))))
      else if linkType = 228 then Ret (Some (0x0800, packet))
      else if linkType = 229 then Ret (Some (0x86dd, packet))
      else if linkType = 101 then
        (if packet = [] then Ret None
         else obind (get_at packet 0) (\<lambda>b. Ret (Some
           (if drop_bit 4 b = 4 then 0x0800 else if drop_bit 4 b = 6 then 0x86dd else 0, packet))))
      else Ret (Some (0, packet)))"

datatype net_result = NetOther | NetFragment | NetPacket byte bytes PCAPQuestionMeta

text \<open>\<open>copy\<close> of an address into its 16-byte array.\<close>

definition addr16 :: "bytes \<Rightarrow> bytes \<Rightarrow> bytes" where
  "addr16 old src = copy_into old src"

definition network_layer :: "u16 \<Rightarrow> bytes \<Rightarrow> PCAPQuestionMeta \<Rightarrow> net_result outcome" where
  "network_layer protocol packet meta =
     (if protocol = 0x0800 then
        (if length packet < 20 then Ret NetOther
         else obind (get_at packet 0) (\<lambda>b0.
           if drop_bit 4 b0 \<noteq> 4 then Ret NetOther
           else obind (slice_at packet 2 4) (\<lambda>tl.
             let headerLen = unat (b0 AND 0x0f) * 4; totalLen = unat (be_get tl :: u16) in
             if headerLen < 20 \<or> totalLen < headerLen \<or> length packet < totalLen then Ret NetOther
             else obind (slice_at packet 6 8) (\<lambda>fl.
               if (be_get fl :: u16) AND 0x1fff \<noteq> 0 then Ret NetFragment
               else obind (slice_at packet 12 16) (\<lambda>src.
                 obind (slice_at packet 16 20) (\<lambda>dst.
                 obind (get_at packet 9) (\<lambda>transport.
                 obind (slice_at packet headerLen totalLen) (\<lambda>body.
                 Ret (NetPacket transport body (meta\<lparr>SourceIP := addr16 (SourceIP meta) src, DestIP := addr16 (DestIP meta) dst\<rparr>))))))))))
      else if protocol = 0x86dd then
        (if length packet < 40 then Ret NetOther
         else obind (get_at packet 0) (\<lambda>b0.
           if drop_bit 4 b0 \<noteq> 6 then Ret NetOther
           else obind (slice_at packet 4 6) (\<lambda>pl.
             let payloadLen = unat (be_get pl :: u16) in
             if length packet < 40 + payloadLen then Ret NetOther
             else obind (slice_at packet 8 24) (\<lambda>src.
               obind (slice_at packet 24 40) (\<lambda>dst.
               obind (get_at packet 6) (\<lambda>transport.
               obind (slice_at packet 40 (40 + payloadLen)) (\<lambda>body.
               Ret (NetPacket transport body (meta\<lparr>IPv6 := True, SourceIP := addr16 (SourceIP meta) src,
                     DestIP := addr16 (DestIP meta) dst\<rparr>)))))))))
      else Ret NetOther)"

text \<open>
  What the classification does with a segment: count it aside, or pass the
  bytes of a question on.
\<close>

datatype seg_result = SegOther | SegTCP | SegResponse | SegQuestion u16 bytes

definition transport_layer :: "byte \<Rightarrow> bytes \<Rightarrow> seg_result outcome" where
  "transport_layer transport packet =
     (if length packet < 4 then Ret SegOther
      else obind (slice_at packet 0 2) (\<lambda>s. obind (slice_at packet 2 4) (\<lambda>d.
        let source = (be_get s :: u16); destination = (be_get d :: u16) in
        if transport = 6 then
          Ret (if source = 53 \<or> destination = 53 then SegTCP else SegOther)
        else if transport = 17 then
          (if length packet < 8 then Ret SegOther
           else obind (slice_at packet 4 6) (\<lambda>l.
             let udpLen = unat (be_get l :: u16) in
             if udpLen < 8 \<or> length packet < udpLen then Ret SegOther
             else if destination = 53 then
               obind (slice_at packet 8 udpLen) (\<lambda>body. Ret (SegQuestion source body))
             else Ret (if source = 53 then SegResponse else SegOther)))
        else Ret SegOther)))"

section \<open>Classification\<close>

definition count_reject :: "dns_error \<Rightarrow> PCAPIngestStats \<Rightarrow> PCAPIngestStats option" where
  "count_reject err st = (case err of
     ErrPacketTooShort \<Rightarrow> Some (st\<lparr>RejectedTooShort := RejectedTooShort st + 1\<rparr>)
   | ErrInvalidLabel \<Rightarrow> Some (st\<lparr>RejectedInvalidLabel := RejectedInvalidLabel st + 1\<rparr>)
   | ErrLoopPointer \<Rightarrow> Some (st\<lparr>RejectedLoopPointer := RejectedLoopPointer st + 1\<rparr>)
   | ErrNameTooLong \<Rightarrow> Some (st\<lparr>RejectedNameTooLong := RejectedNameTooLong st + 1\<rparr>)
   | ErrQuestionContract \<Rightarrow> Some (st\<lparr>RejectedContract := RejectedContract st + 1\<rparr>)
   | _ \<Rightarrow> None)"

text \<open>A visitor: the caller's state, the provenance and the event to the new state and an error.\<close>

type_synonym ('s, 'e) visitor = "'s \<Rightarrow> PCAPQuestionMeta \<Rightarrow> DNSEvent \<Rightarrow> 's \<times> 'e option"

definition visit_question :: "bytes \<Rightarrow> u16 \<Rightarrow> bool \<Rightarrow> PCAPIngestStats \<Rightarrow> PCAPQuestionMeta \<Rightarrow> DNSEvent
    \<Rightarrow> ('s, 'e) visitor \<Rightarrow> 's \<Rightarrow> ('e pcap_error option \<times> PCAPIngestStats \<times> DNSEvent \<times> 's) outcome" where
  "visit_question body source tolerant st meta ev visit s =
     (let st = st\<lparr>UDPQuestions := UDPQuestions st + 1\<rparr>;
          meta = meta\<lparr>SourcePort := source\<rparr>;
          ev = ev\<lparr>Timestamp := qTimestamp meta, ClientIP := SourceIP meta\<rparr> in
      obind (if tolerant then ParseDNSQueryTolerant body (Some ev) else ParseDNSQuery body (Some ev)) (\<lambda>(err, ev').
        case ev' of None \<Rightarrow> Panic
        | Some ev' \<Rightarrow>
          (case err of
             None \<Rightarrow> (let (s', e) = visit s meta ev' in
                      Ret (map_option ErrVisit e, st\<lparr>Accepted := Accepted st + 1\<rparr>, ev', s'))
           | Some e \<Rightarrow> (case count_reject e st of
                 Some st' \<Rightarrow> Ret (None, st', ev', s)
               | None \<Rightarrow> Ret (Some (ErrParse e), st, ev', s)))))"

definition classifyPCAPPacket :: "bytes \<Rightarrow> u32 \<Rightarrow> bool \<Rightarrow> PCAPIngestStats \<Rightarrow> PCAPQuestionMeta \<Rightarrow> DNSEvent
    \<Rightarrow> ('s, 'e) visitor \<Rightarrow> 's \<Rightarrow> ('e pcap_error option \<times> PCAPIngestStats \<times> DNSEvent \<times> 's) outcome" where
  "classifyPCAPPacket packet linkType tolerant st meta ev visit s =
     (let other = Ret (None, st\<lparr>OtherPackets := OtherPackets st + 1\<rparr>, ev, s) in
      obind (link_layer linkType packet) (\<lambda>l. case l of
        None \<Rightarrow> other
      | Some (protocol, packet) \<Rightarrow>
        obind (network_layer protocol packet meta) (\<lambda>n. case n of
          NetOther \<Rightarrow> other
        | NetFragment \<Rightarrow> Ret (None, st\<lparr>IPFragments := IPFragments st + 1\<rparr>, ev, s)
        | NetPacket transport packet meta \<Rightarrow>
          obind (transport_layer transport packet) (\<lambda>g. case g of
            SegOther \<Rightarrow> other
          | SegTCP \<Rightarrow> Ret (None, st\<lparr>TCPSegments := TCPSegments st + 1\<rparr>, ev, s)
          | SegResponse \<Rightarrow> Ret (None, st\<lparr>UDPResponses := UDPResponses st + 1\<rparr>, ev, s)
          | SegQuestion source body \<Rightarrow> visit_question body source tolerant st meta ev visit s))))"

section \<open>The file\<close>

text \<open>
  The body of a record is read through the packet buffer, in chunks of at most
  its length; the buffer is never empty.
\<close>

function read_chunks :: "nat \<Rightarrow> bytes \<Rightarrow> bytes \<Rightarrow> (bytes \<times> bytes) option" where
  "read_chunks remaining packet s =
     (if remaining = 0 \<or> packet = [] then Some (packet, s)
      else let chunk = min remaining (length packet) in
        case read_full chunk s of
          None \<Rightarrow> None
        | Some (b, s') \<Rightarrow> read_chunks (remaining - chunk) (b @ drop chunk packet) s')"
  by pat_completeness auto

termination
  by (relation "measure (\<lambda>(remaining, _, _). remaining)") auto

declare read_chunks.simps [simp del]


lemma read_chunks_rest: "read_chunks r p s = Some (p', s') \<Longrightarrow> length s' \<le> length s"
proof (induction r p s rule: read_chunks.induct)
  case (1 r p s)
  show ?case
  proof (cases "r = 0 \<or> p = []")
    case True
    then show ?thesis using "1.prems" by (simp add: read_chunks.simps[of r p s])
  next
    case False
    then obtain b s1 where r: "read_full (min r (length p)) s = Some (b, s1)"
      "read_chunks (r - min r (length p)) (b @ drop (min r (length p)) p) s1 = Some (p', s')"
      using "1.prems" by (subst (asm) read_chunks.simps) (auto simp: Let_def split: option.splits)
    show ?thesis using "1.IH"[OF False refl r(1) refl r(2)] read_full_rest[OF r(1)] by simp
  qed
qed

text \<open>The provenance of a record, with its stamp in microseconds.\<close>

definition record_meta :: "bool \<Rightarrow> bool \<Rightarrow> bytes \<Rightarrow> u32 \<Rightarrow> PCAPQuestionMeta" where
  "record_meta little nanoseconds recordHeader number =
     (let stamp = ucast (order_u32 little (subslice 0 4 recordHeader)) * (1000000 :: u64);
          fraction0 = (ucast (order_u32 little (subslice 4 8 recordHeader)) :: u64);
          fraction = (if nanoseconds then fraction0 div 1000 else fraction0) in
      \<lparr>qRecord = number, qTimestamp = stamp + fraction, SourceIP = replicate 16 0, DestIP = replicate 16 0,
       IPv6 = False, SourcePort = 0\<rparr>)"

function pcap_loop :: "bytes \<Rightarrow> bool \<Rightarrow> bool \<Rightarrow> bool \<Rightarrow> bytes \<Rightarrow> PCAPIngestStats \<Rightarrow> DNSEvent \<Rightarrow> ('s, 'e) visitor \<Rightarrow> 's
    \<Rightarrow> ('e pcap_error option \<times> PCAPIngestStats \<times> 's) outcome" where
  "pcap_loop file little nanoseconds tolerant packet st ev visit s =
     (if file = [] then Ret (None, st, s)
      else case read_full 16 file of
        None \<Rightarrow> Ret (Some ErrPCAPTruncated, st, s)
      | Some (recordHeader, file1) \<Rightarrow>
        (let included = order_u32 little (subslice 8 12 recordHeader);
             original = order_u32 little (subslice 12 16 recordHeader) in
         case read_chunks (unat included) packet file1 of
           None \<Rightarrow> Ret (Some ErrPCAPTruncated, st, s)
         | Some (packet', file2) \<Rightarrow>
           (let st = st\<lparr>Records := Records st + 1\<rparr> in
            if word_of_nat (length packet') < included \<or> included < original
            then pcap_loop file2 little nanoseconds tolerant packet' (st\<lparr>TruncatedPackets := TruncatedPackets st + 1\<rparr>) ev visit s
            else let meta = record_meta little nanoseconds recordHeader (Records st) in
              obind (slice_at packet' 0 (unat included)) (\<lambda>body.
              obind (classifyPCAPPacket body (LinkType st) tolerant st meta ev visit s) (\<lambda>(err, st, ev, s).
                case err of
                  Some e \<Rightarrow> Ret (Some e, st, s)
                | None \<Rightarrow> pcap_loop file2 little nanoseconds tolerant packet' st ev visit s)))))"
  by pat_completeness auto

termination
proof (relation "measure (\<lambda>(file, _). length file)", goal_cases)
  case 2
  then show ?case by (auto dest!: read_full_rest read_chunks_rest)
next
  case 3
  then show ?case by (auto dest!: read_full_rest read_chunks_rest)
qed auto

declare pcap_loop.simps [simp del]

definition admitted_links :: "u32 list" where
  "admitted_links = [276, 113, 1, 101, 228, 229]"

text \<open>The magic number: byte order and nanosecond stamps.\<close>

definition pcap_magic :: "u32 \<Rightarrow> (bool \<times> bool) option" where
  "pcap_magic m = (if m = 0xd4c3b2a1 then Some (True, False) else if m = 0xa1b2c3d4 then Some (False, False)
     else if m = 0x4d3cb2a1 then Some (True, True) else if m = 0xa1b23c4d then Some (False, True) else None)"

definition readPCAPDNSQuestionsMode :: "bytes option \<Rightarrow> bool \<Rightarrow> ('s, 'e) visitor \<Rightarrow> 's
    \<Rightarrow> ('e pcap_error option \<times> PCAPIngestStats \<times> 's) outcome" where
  "readPCAPDNSQuestionsMode contents tolerant visit s = (case contents of
     None \<Rightarrow> Ret (Some ErrOpen, zero_stats, s)
   | Some bs \<Rightarrow> (case read_full 24 bs of
       None \<Rightarrow> Ret (Some ErrPCAPTruncated, zero_stats, s)
     | Some (globalHeader, rest) \<Rightarrow> (case pcap_magic (be_get (subslice 0 4 globalHeader)) of
         None \<Rightarrow> Ret (Some ErrPCAPBadMagic, zero_stats, s)
       | Some (little, nanoseconds) \<Rightarrow>
           (let st = zero_stats\<lparr>LinkType := order_u32 little (subslice 20 24 globalHeader)\<rparr> in
            if LinkType st \<notin> set admitted_links then Ret (Some ErrPCAPLinkType, st, s)
            else let snaplen = min (order_u32 little (subslice 16 20 globalHeader)) 262144 in
              pcap_loop rest little nanoseconds tolerant (replicate (max 1 (unat snaplen)) 0) st
                (fresh_event 0 (replicate 16 0)) visit s))))"

definition ReadPCAPDNSQuestions :: "bytes option \<Rightarrow> ('s, 'e) visitor \<Rightarrow> 's \<Rightarrow> ('e pcap_error option \<times> PCAPIngestStats \<times> 's) outcome" where
  "ReadPCAPDNSQuestions contents visit s = readPCAPDNSQuestionsMode contents False visit s"

definition ReadPCAPDNSQuestionsTolerant :: "bytes option \<Rightarrow> ('s, 'e) visitor \<Rightarrow> 's \<Rightarrow> ('e pcap_error option \<times> PCAPIngestStats \<times> 's) outcome" where
  "ReadPCAPDNSQuestionsTolerant contents visit s = readPCAPDNSQuestionsMode contents True visit s"

section \<open>The errors of the question decoder\<close>

definition question_error :: "dns_error \<Rightarrow> bool" where
  "question_error e \<longleftrightarrow> e \<noteq> ErrTooManyRRs \<and> e \<noteq> ErrRDataTooLong"

lemma count_reject_total: "question_error e \<Longrightarrow> \<exists>st'. count_reject e st = Some st'"
  by (cases e) (simp_all add: count_reject_def question_error_def)

text \<open>Every error a computation can return satisfies \<open>P\<close>.\<close>

definition errs :: "('e \<Rightarrow> bool) \<Rightarrow> ('e + 'a) outcome \<Rightarrow> bool" where
  "errs P x \<longleftrightarrow> (\<forall>e. x = Ret (Inl e) \<longrightarrow> P e)"

lemma errs_Ret [simp]: "errs P (Ret (Inl e)) = P e" "errs P (Ret (Inr a))" "errs P Panic"
  by (simp_all add: errs_def)

lemma errs_obind: "(\<And>y. x = Ret y \<Longrightarrow> errs P (f y)) \<Longrightarrow> errs P (obind x f)"
  by (cases x) (simp_all add: errs_def)

lemma errs_sum: "errs P x \<Longrightarrow> (\<And>a. x = Ret (Inr a) \<Longrightarrow> errs P (f a))
    \<Longrightarrow> errs P (obind x (\<lambda>r. case r of Inl e \<Rightarrow> Ret (Inl e) | Inr a \<Rightarrow> f a))"
  by (cases x) (auto simp: errs_def split: sum.splits)

lemma errs_if: "(b \<Longrightarrow> errs P x) \<Longrightarrow> (\<not> b \<Longrightarrow> errs P y) \<Longrightarrow> errs P (if b then x else y)"
  by simp

lemma errs_prod: "(\<And>a b. x = (a, b) \<Longrightarrow> errs P (f a b)) \<Longrightarrow> errs P (case x of (a, b) \<Rightarrow> f a b)"
  by (cases x) simp

lemmas errs_rules = errs_if errs_sum errs_prod errs_obind

lemma question_errors [simp]: "question_error ErrPacketTooShort" "question_error ErrInvalidLabel" "question_error ErrLoopPointer"
  "question_error ErrNameTooLong" "question_error ErrQuestionContract"
  by (simp_all add: question_error_def)

lemma copier_error: "errs question_error (copierLabelQuestion ev l pos t)"
  by (induction ev l pos t rule: copierLabelQuestion.induct) (auto simp: Let_def intro!: errs_obind)

lemma emit_label_error: "errs question_error (emit_label t acc l)"
  unfolding emit_label_def Let_def by (rule errs_rules copier_error | simp)+

lemma pointer_loop_error: "errs question_error (pointer_loop t raw p acc)"
proof (induction t raw p acc rule: pointer_loop.induct)
  case (1 t raw p acc)
  show ?case
    by (subst pointer_loop.simps, unfold Let_def) (rule errs_rules emit_label_error | rule "1.IH"; (assumption | rule refl)? | simp)+
qed

lemma question_loop_error: "errs question_error (question_loop t raw p acc)"
proof (induction t raw p acc rule: question_loop.induct)
  case (1 t raw p acc)
  show ?case
    by (subst question_loop.simps, unfold Let_def)
      (rule errs_rules emit_label_error pointer_loop_error | rule "1.IH"; (assumption | rule refl)? | simp)+
qed

lemma query_body_error: "errs question_error (query_body raw ev t)"
  unfolding query_body_def question_tail_def Let_def by (rule errs_rules question_loop_error | simp)+

text \<open>So the decoder, given an event, always returns, with one of five errors or an accepted event.\<close>

lemma question_decoder:
  obtains err ev' where "(if tolerant then ParseDNSQueryTolerant body (Some ev) else ParseDNSQuery body (Some ev)) = Ret (err, Some ev')"
    "\<forall>e. err = Some e \<longrightarrow> question_error e" "err = None \<longrightarrow> (\<exists>ls. question_event ls ev')"
    "Timestamp ev' = Timestamp ev" "ClientIP ev' = ClientIP ev"
proof -
  obtain r where r: "query_body body (fresh_event (Timestamp ev) (ClientIP ev)) tolerant = Ret r"
    "\<forall>e. r = Inr e \<longrightarrow> (\<exists>ls. question_event ls e) \<and> ID e = be_get (subslice 0 2 body)
         \<and> EvFlags e = be_get (subslice 2 4 body) \<and> EvFlags e AND 0xf800 = 0
         \<and> Timestamp e = Timestamp ev \<and> ClientIP e = ClientIP ev"
    using query_body_safe by blast
  have e: "\<forall>e. r = Inl e \<longrightarrow> question_error e" using query_body_error[of body _ tolerant] r(1) by (auto simp: errs_def)
  have p: "(if tolerant then ParseDNSQueryTolerant body (Some ev) else ParseDNSQuery body (Some ev)) =
     (case r of Inl err \<Rightarrow> Ret (Some err, Some (fresh_event (Timestamp ev) (ClientIP ev))) | Inr e' \<Rightarrow> Ret (None, Some e'))"
    using r(1) by (cases tolerant) (simp_all add: ParseDNSQueryTolerant_def ParseDNSQuery_def parseDNSQueryWire_def Let_def)
  show thesis
  proof (cases r)
    case (Inl err)
    then show thesis using p e by (intro that[of "Some err" "fresh_event (Timestamp ev) (ClientIP ev)"]) (auto simp: fresh_event_def)
  next
    case (Inr e')
    then show thesis using p r(2) by (intro that[of None e']) auto
  qed
qed

section \<open>Accounting\<close>

definition rejected :: "PCAPIngestStats \<Rightarrow> u32" where
  "rejected st = RejectedTooShort st + RejectedInvalidLabel st + RejectedLoopPointer st + RejectedNameTooLong st + RejectedContract st"

definition classified :: "PCAPIngestStats \<Rightarrow> u32" where
  "classified st = UDPQuestions st + UDPResponses st + TCPSegments st + OtherPackets st + IPFragments st + TruncatedPackets st"

definition accounted :: "PCAPIngestStats \<Rightarrow> bool" where
  "accounted st \<longleftrightarrow> UDPQuestions st = Accepted st + rejected st \<and> Records st = classified st"

text \<open>A record has been counted and not yet classified.\<close>

definition pending :: "PCAPIngestStats \<Rightarrow> bool" where
  "pending st \<longleftrightarrow> UDPQuestions st = Accepted st + rejected st \<and> Records st = classified st + 1"

lemmas accounting = accounted_def pending_def rejected_def classified_def

lemma count_reject_accounted:
  assumes "pending st" "count_reject e (st\<lparr>UDPQuestions := UDPQuestions st + 1\<rparr>) = Some st'"
  shows "accounted st' \<and> LinkType st' = LinkType st \<and> Accepted st' = Accepted st"
  using assms by (cases e) (auto simp: count_reject_def accounting)

definition genuine :: "PCAPQuestionMeta \<Rightarrow> DNSEvent \<Rightarrow> bool" where
  "genuine meta ev \<longleftrightarrow> (\<exists>ls. question_event ls ev) \<and> Timestamp ev = qTimestamp meta \<and> ClientIP ev = SourceIP meta"

text \<open>What the caller's state satisfies after each visit, the number of visits being counted.\<close>

definition visit_inv :: "(u32 \<Rightarrow> 's \<Rightarrow> bool) \<Rightarrow> ('s, 'e) visitor \<Rightarrow> bool" where
  "visit_inv J visit \<longleftrightarrow> (\<forall>n s meta ev. J n s \<longrightarrow> genuine meta ev \<longrightarrow> J (n + 1) (fst (visit s meta ev)))"

definition not_parse :: "'e pcap_error option \<Rightarrow> bool" where
  "not_parse err \<longleftrightarrow> (\<forall>e. err \<noteq> Some (ErrParse e))"

definition step_ok :: "(u32 \<Rightarrow> 's \<Rightarrow> bool) \<Rightarrow> PCAPIngestStats \<Rightarrow> ('e pcap_error option \<times> PCAPIngestStats \<times> DNSEvent \<times> 's) outcome \<Rightarrow> bool" where
  "step_ok J st x \<longleftrightarrow> (\<exists>err st' ev' s'. x = Ret (err, st', ev', s') \<and> accounted st' \<and> LinkType st' = LinkType st
     \<and> J (Accepted st') s' \<and> not_parse err)"

lemma visit_question_ok:
  assumes "visit_inv J visit" "pending st" "J (Accepted st) s"
  shows "step_ok J st (visit_question body source tolerant st meta ev visit s)"
proof -
  let ?meta = "meta\<lparr>SourcePort := source\<rparr>"
  let ?ev = "ev\<lparr>Timestamp := qTimestamp ?meta, ClientIP := SourceIP ?meta\<rparr>"
  let ?st = "st\<lparr>UDPQuestions := UDPQuestions st + 1\<rparr>"
  obtain err ev' where r: "(if tolerant then ParseDNSQueryTolerant body (Some ?ev) else ParseDNSQuery body (Some ?ev)) = Ret (err, Some ev')"
    "\<forall>e. err = Some e \<longrightarrow> question_error e" "err = None \<longrightarrow> (\<exists>ls. question_event ls ev')"
    "Timestamp ev' = Timestamp ?ev" "ClientIP ev' = ClientIP ?ev"
    by (rule question_decoder)
  show ?thesis
  proof (cases err)
    case None
    obtain s' e where v: "visit s ?meta ev' = (s', e)" by (cases "visit s ?meta ev'")
    have "genuine ?meta ev'" using r(3-5) None by (simp add: genuine_def)
    then have "J (Accepted st + 1) s'" using assms(1,3) v unfolding visit_inv_def by (metis fst_conv)
    moreover have "visit_question body source tolerant st meta ev visit s
        = Ret (map_option ErrVisit e, ?st\<lparr>Accepted := Accepted st + 1\<rparr>, ev', s')"
      unfolding visit_question_def Let_def r(1) using None v by simp
    ultimately show ?thesis using assms(2) by (auto simp: step_ok_def accounting not_parse_def)
  next
    case (Some e)
    then obtain st' where st': "count_reject e ?st = Some st'" using r(2) count_reject_total by blast
    then have "visit_question body source tolerant st meta ev visit s = Ret (None, st', ev', s)"
      unfolding visit_question_def Let_def r(1) using Some by simp
    then show ?thesis using count_reject_accounted[OF assms(2) st'] assms(3) by (simp add: step_ok_def not_parse_def)
  qed
qed

lemma link_layer_total: "no_panic (link_layer lt p)"
  unfolding link_layer_def Let_def by (rule no_panic_rules | linarith | simp)+

lemma network_layer_total: "no_panic (network_layer pr p m)"
  unfolding network_layer_def Let_def by (rule no_panic_rules | linarith | simp)+

lemma transport_layer_total: "no_panic (transport_layer t p)"
  unfolding transport_layer_def Let_def by (rule no_panic_rules | linarith | simp)+

lemma step_ok_count:
  assumes "pending st" "J (Accepted st) s"
  shows "step_ok J st (Ret (None, st\<lparr>OtherPackets := OtherPackets st + 1\<rparr>, ev, s))"
    "step_ok J st (Ret (None, st\<lparr>IPFragments := IPFragments st + 1\<rparr>, ev, s))"
    "step_ok J st (Ret (None, st\<lparr>TCPSegments := TCPSegments st + 1\<rparr>, ev, s))"
    "step_ok J st (Ret (None, st\<lparr>UDPResponses := UDPResponses st + 1\<rparr>, ev, s))"
  using assms by (auto simp: step_ok_def accounting not_parse_def)

lemma classify_ok:
  assumes "visit_inv J visit" "pending st" "J (Accepted st) s"
  shows "step_ok J st (classifyPCAPPacket packet lt tolerant st meta ev visit s)"
proof -
  note ok = step_ok_count[of st J s, OF assms(2,3)] visit_question_ok[of J visit st s, OF assms]
  obtain l where l: "link_layer lt packet = Ret l" using no_panicE[OF link_layer_total] by blast
  show ?thesis
  proof (cases l)
    case None
    then show ?thesis using l ok by (simp add: classifyPCAPPacket_def)
  next
    case (Some x)
    obtain pr p where x: "x = (pr, p)" by (cases x)
    obtain n where n: "network_layer pr p meta = Ret n" using no_panicE[OF network_layer_total] by blast
    show ?thesis
    proof (cases n)
      case (NetPacket t body m)
      obtain g where "transport_layer t body = Ret g" using no_panicE[OF transport_layer_total] by blast
      then show ?thesis using l Some x n NetPacket ok by (cases g) (simp_all add: classifyPCAPPacket_def)
    qed (use l Some x n ok in \<open>simp_all add: classifyPCAPPacket_def\<close>)
  qed
qed

section \<open>The records of a file\<close>

text \<open>
  Whatever the chunks, exactly the announced bytes are consumed; a record that
  fits the buffer is found whole at its start.
\<close>

lemma read_chunks_spec:
  assumes "packet \<noteq> []"
  shows "case read_chunks r packet s of None \<Rightarrow> length s < r
     | Some (packet', s') \<Rightarrow> r \<le> length s \<and> s' = drop r s \<and> length packet' = length packet
          \<and> (r \<le> length packet \<longrightarrow> take r packet' = take r s)"
  using assms
proof (induction r packet s rule: read_chunks.induct)
  case (1 r p s)
  show ?case
  proof (cases "r = 0")
    case True
    then show ?thesis by (simp add: read_chunks.simps[of 0 p s])
  next
    case False
    define c where "c = min r (length p)"
    have c: "0 < c" "c \<le> r" using False "1.prems" by (auto simp: c_def)
    show ?thesis
    proof (cases "length s < c")
      case True
      then show ?thesis using False "1.prems" c by (subst read_chunks.simps) (simp add: Let_def c_def[symmetric] read_full_def)
    next
      case ok: False
      define p1 where "p1 = take c s @ drop c p"
      have rf: "read_full c s = Some (take c s, drop c s)" using ok by (simp add: read_full_def)
      have p1: "length p1 = length p" "p1 \<noteq> []" using ok "1.prems" c by (auto simp: p1_def c_def)
      have step: "read_chunks r p s = read_chunks (r - c) p1 (drop c s)"
        using False "1.prems" rf by (subst read_chunks.simps) (simp add: Let_def c_def[symmetric] p1_def)
      have ih: "case read_chunks (r - c) p1 (drop c s) of None \<Rightarrow> length (drop c s) < r - c
         | Some (packet', s') \<Rightarrow> r - c \<le> length (drop c s) \<and> s' = drop (r - c) (drop c s) \<and> length packet' = length p1
              \<and> (r - c \<le> length p1 \<longrightarrow> take (r - c) packet' = take (r - c) (drop c s))"
        using "1.IH"[OF _ c_def rf refl, folded p1_def] False "1.prems" p1(2) by simp
      show ?thesis
      proof (cases "r \<le> length p")
        case True
        then have "r - c = 0" by (simp add: c_def)
        then have "read_chunks (r - c) p1 (drop c s) = Some (p1, drop c s)" by (simp add: read_chunks.simps)
        moreover have "c = r" using True by (simp add: c_def)
        ultimately show ?thesis using step p1 ok by (simp add: p1_def)
      next
        case big: False
        show ?thesis using ih step c p1 ok big by (auto split: option.splits)
      qed
    qed
  qed
qed

lemma pcap_loop_ok:
  assumes "visit_inv J visit"
  shows "packet \<noteq> [] \<Longrightarrow> length packet \<le> 262144 \<Longrightarrow> accounted st \<Longrightarrow> J (Accepted st) s \<Longrightarrow>
    \<exists>err st' s'. pcap_loop input little nano tolerant packet st ev visit s = Ret (err, st', s')
      \<and> accounted st' \<and> LinkType st' = LinkType st \<and> J (Accepted st') s' \<and> not_parse err"
proof (induction input arbitrary: packet st ev s rule: measure_induct_rule[where f = length])
  case (less input)
  show ?case
  proof (cases "input = [] \<or> length input < 16")
    case True
    then show ?thesis using less.prems by (subst pcap_loop.simps) (auto simp: read_full_def not_parse_def)
  next
    case False
    define h where "h = take 16 input"
    define inc where "inc = order_u32 little (subslice 8 12 h)"
    have rf: "read_full 16 input = Some (h, drop 16 input)" using False by (simp add: read_full_def h_def)
    note spec = read_chunks_spec[OF less.prems(1), where r = "unat inc" and s = "drop 16 input"]
    show ?thesis
    proof (cases "read_chunks (unat inc) packet (drop 16 input)")
      case None
      then show ?thesis using less.prems False rf
        by (subst pcap_loop.simps) (simp add: Let_def inc_def not_parse_def)
    next
      case (Some x)
      obtain p' f' where x: "x = (p', f')" by (cases x)
      have p': "length p' = length packet" "p' \<noteq> []" "length f' < length input" using spec Some x less.prems(1) False by auto
      define st1 where "st1 = st\<lparr>Records := Records st + 1\<rparr>"
      have pend: "pending st1" "J (Accepted st1) s" "LinkType st1 = LinkType st" using less.prems by (auto simp: st1_def accounting)
      show ?thesis
      proof (cases "word_of_nat (length p') < inc \<or> inc < order_u32 little (subslice 12 16 h)")
        case True
        have step: "pcap_loop input little nano tolerant packet st ev visit s
            = pcap_loop f' little nano tolerant p' (st1\<lparr>TruncatedPackets := TruncatedPackets st1 + 1\<rparr>) ev visit s"
          using False rf Some x True by (subst pcap_loop.simps) (simp add: Let_def inc_def st1_def)
        have "accounted (st1\<lparr>TruncatedPackets := TruncatedPackets st1 + 1\<rparr>)" using pend by (auto simp: accounting)
        then show ?thesis unfolding step
          using less.IH[OF p'(3), of p' "st1\<lparr>TruncatedPackets := TruncatedPackets st1 + 1\<rparr>" s ev] p' less.prems pend by auto
      next
        case whole: False
        have fits: "unat inc \<le> length p'"
          using whole p'(1) less.prems(2) by (simp add: word_less_nat_alt unat_of_nat)
        define meta where "meta = record_meta little nano h (Records st1)"
        have step: "pcap_loop input little nano tolerant packet st ev visit s
            = obind (classifyPCAPPacket (subslice 0 (unat inc) p') (LinkType st1) tolerant st1 meta ev visit s) (\<lambda>(err, st, ev, s).
                case err of
                  Some e \<Rightarrow> Ret (Some e, st, s)
                | None \<Rightarrow> pcap_loop f' little nano tolerant p' st ev visit s)"
          using False rf Some x whole fits by (subst pcap_loop.simps) (simp add: Let_def inc_def st1_def meta_def)
        obtain err st2 ev2 s2 where c: "classifyPCAPPacket (subslice 0 (unat inc) p') (LinkType st1) tolerant st1 meta ev visit s = Ret (err, st2, ev2, s2)"
          "accounted st2" "LinkType st2 = LinkType st1" "J (Accepted st2) s2" "not_parse err"
          using classify_ok[of J visit st1 s, OF assms pend(1,2)] unfolding step_ok_def by blast
        show ?thesis
        proof (cases err)
          case None
          then show ?thesis using step c less.IH[OF p'(3), of p' st2 s2 ev2] p' less.prems pend by auto
        next
          case (Some e)
          then show ?thesis using step c pend by simp
        qed
      qed
    qed
  qed
qed

section \<open>Properties\<close>

text \<open>Reading a pcap file never panics, whatever its bytes, and its counters balance: every
  record is in exactly one category, every UDP question is accepted or in the counter of its
  refusal.  The visitor runs once per accepted question, on an event whose name, stamp and
  address come from the record, and no decoder error escapes.
\<close>

lemma pcap_questions_accounted:
  assumes "visit_inv J visit" "J 0 s0"
  shows "\<exists>err st s'. readPCAPDNSQuestionsMode contents tolerant visit s0 = Ret (err, st, s')
     \<and> accounted st \<and> J (Accepted st) s' \<and> not_parse err"
proof -
  have zero: "accounted (zero_stats\<lparr>LinkType := l\<rparr>)" "Accepted (zero_stats\<lparr>LinkType := l\<rparr>) = 0" for l
    by (simp_all add: zero_stats_def accounting)
  have acc0: "accounted zero_stats" "Accepted zero_stats = 0" by (simp_all add: zero_stats_def accounting)
  show ?thesis
  proof (cases "\<exists>bs. contents = Some bs \<and> 24 \<le> length bs")
    case False
    then show ?thesis using assms(2) acc0
      by (cases contents) (auto simp: readPCAPDNSQuestionsMode_def read_full_def not_parse_def)
  next
    case True
    then obtain bs where bs: "contents = Some bs" "24 \<le> length bs" by blast
    define h where "h = take 24 bs"
    have rf: "read_full 24 bs = Some (h, drop 24 bs)" using bs by (simp add: read_full_def h_def)
    show ?thesis
    proof (cases "pcap_magic (be_get (subslice 0 4 h))")
      case None
      then show ?thesis using bs rf assms(2) acc0 by (simp add: readPCAPDNSQuestionsMode_def not_parse_def)
    next
      case (Some ln)
      obtain little nano where ln: "ln = (little, nano)" by (cases ln)
      define st where "st = zero_stats\<lparr>LinkType := order_u32 little (subslice 20 24 h)\<rparr>"
      define buf where "buf = replicate (max 1 (unat (min (order_u32 little (subslice 16 20 h)) 262144))) (0 :: byte)"
      have "unat (min (order_u32 little (subslice 16 20 h)) 262144) \<le> 262144"
        by (simp add: min_def word_le_nat_alt)
      then have b: "buf \<noteq> []" "length buf \<le> 262144" by (auto simp: buf_def)
      have st: "accounted st" "J (Accepted st) s0" using zero assms(2) by (simp_all add: st_def)
      show ?thesis
      proof (cases "LinkType st \<in> set admitted_links")
        case False
        then show ?thesis using bs rf Some ln st by (simp add: readPCAPDNSQuestionsMode_def st_def not_parse_def)
      next
        case ok: True
        then have "readPCAPDNSQuestionsMode contents tolerant visit s0
            = pcap_loop (drop 24 bs) little nano tolerant buf st (fresh_event 0 (replicate 16 0)) visit s0"
          using bs rf Some ln by (simp add: readPCAPDNSQuestionsMode_def st_def buf_def Let_def)
        then show ?thesis using pcap_loop_ok[OF assms(1) b st] by (metis (no_types, lifting))
      qed
    qed
  qed
qed

text \<open>A capture of one raw IPv4 datagram with a question, and a visitor that keeps the events.\<close>

definition sample_capture :: "bytes" where
  "sample_capture = (let q = wire_query 7 0x100 [ascii ''Ab'', ascii ''cd''] 1;
      udp = [0x30, 0x39, 0, 53, 0, word_of_nat (8 + length q), 0, 0] @ q;
      ip = [0x45, 0, 0, word_of_nat (20 + length udp), 0, 0, 0, 0, 64, 17, 0, 0, 10, 0, 0, 1, 10, 0, 0, 2] @ udp in
    [0xa1, 0xb2, 0xc3, 0xd4, 0, 2, 0, 4, 0, 0, 0, 0, 0, 0, 0, 0, 0, 0, 0, 128, 0, 0, 0, 228]
    @ be_put 4 (1 :: u32) @ be_put 4 (2 :: u32) @ be_put 4 (word_of_nat (length ip) :: u32) @ be_put 4 (word_of_nat (length ip) :: u32) @ ip)"

definition keep_events :: "(DNSEvent list, unit) visitor" where
  "keep_events s meta ev = (s @ [ev], None)"

end
