(* ===== verification/PcapMsg.thy ===== *)
theory PcapMsg
  imports Pcap DnsMessage
begin

text \<open>
  The bidirectional pcap reader of \<open>dns_pcap_msg.go\<close>: it delivers the UDP payload of
  every DNS datagram, and on top of it every message the message decoder accepts.
  Its counters are Go \<open>int\<close>s that grow by one per packet, kept as naturals.
\<close>

record PCAPMessageMeta =
  TimestampNs :: u64
  SrcIP :: bytes
  DstIP :: bytes
  SrcPort :: u16
  DstPort :: u16
  IsIPv6 :: bool

definition zero_meta :: PCAPMessageMeta where
  "zero_meta = \<lparr>TimestampNs = 0, SrcIP = replicate 16 0, DstIP = replicate 16 0, SrcPort = 0, DstPort = 0, IsIPv6 = False\<rparr>"

record PCAPMessageStats =
  TotalPackets :: nat
  DecodedQueries :: nat
  DecodedReplies :: nat
  MalformedCount :: nat

definition zero_mstats :: PCAPMessageStats where
  "zero_mstats = \<lparr>TotalPackets = 0, DecodedQueries = 0, DecodedReplies = 0, MalformedCount = 0\<rparr>"

datatype 'e wire_error =
    WireOpen
  | WireHeader
  | WireMagic u32
  | WireLink u32
  | WireRecord
  | WirePacket
  | WireVisit 'e

text \<open>The byte order, \<open>True\<close> for little endian, and the nanoseconds of a fraction unit.\<close>

definition pcapByteOrder :: "u32 \<Rightarrow> (bool \<times> u64) option" where
  "pcapByteOrder magic = (if magic = 0xa1b2c3d4 then Some (True, 1000) else if magic = 0xa1b23c4d then Some (True, 1)
     else if magic = 0xd4c3b2a1 then Some (False, 1000) else if magic = 0x4d3cb2a1 then Some (False, 1) else None)"

definition stripL2 :: "u32 \<Rightarrow> bytes \<Rightarrow> (u16 \<times> bytes) option outcome" where
  "stripL2 linkType packetBytes =
     (if linkType = 1 then
        (if length packetBytes < 14 then Ret None
         else obind (slice_at packetBytes 12 14) (\<lambda>t.
           let ip = drop 14 packetBytes in
           if be_get t = (0x8100 :: u16) then
             (if length ip < 4 then Ret None
              else obind (slice_at ip 2 4) (\<lambda>t2. Ret (Some (be_get t2, drop 4 ip))))
           else Ret (Some (be_get t, ip))))
      else if linkType = 113 then
        (if length packetBytes < 16 then Ret None
         else obind (slice_at packetBytes 14 16) (\<lambda>t. Ret (Some (be_get t, drop 16 packetBytes))))
      else Ret (Some (0, packetBytes)))"

definition v4Mapped :: "bytes \<Rightarrow> bytes" where
  "v4Mapped ip4 = replicate 10 0 @ [0xff, 0xff] @ copy_into (replicate 4 0) ip4"

text \<open>The IP version: from the first byte on a raw link, else from the link protocol.\<close>

definition ip_version :: "u32 \<Rightarrow> u16 \<Rightarrow> byte \<Rightarrow> byte" where
  "ip_version linkType etherType b0 =
     (if linkType = 101 then drop_bit 4 b0
      else if etherType = 0x0800 then 4 else if etherType = 0x86dd then 6 else 0)"

text \<open>The network layer: the addresses and the UDP segment.\<close>

definition udp_segment :: "byte \<Rightarrow> bytes \<Rightarrow> (PCAPMessageMeta \<times> bytes) option outcome" where
  "udp_segment ver ip =
     (if ver = 4 then
        (if length ip < 20 then Ret None
         else obind (get_at ip 0) (\<lambda>b0. obind (get_at ip 9) (\<lambda>proto.
           let ihl = unat (b0 AND 0x0f) * 4 in
           if ihl < 20 \<or> length ip < ihl \<or> proto \<noteq> 17 then Ret None
           else obind (slice_at ip 12 16) (\<lambda>src. obind (slice_at ip 16 20) (\<lambda>dst.
             Ret (Some (zero_meta\<lparr>SrcIP := v4Mapped src, DstIP := v4Mapped dst\<rparr>, drop ihl ip)))))))
      else if ver = 6 then
        (if length ip < 40 then Ret None
         else obind (get_at ip 6) (\<lambda>proto.
           if proto \<noteq> 17 then Ret None
           else obind (slice_at ip 8 24) (\<lambda>src. obind (slice_at ip 24 40) (\<lambda>dst.
             Ret (Some (zero_meta\<lparr>SrcIP := src, DstIP := dst, IsIPv6 := True\<rparr>, drop 40 ip))))))
      else Ret None)"

text \<open>The transport layer: the ports and the payload, cut to the announced length when that much is there.\<close>

definition udp_payload :: "PCAPMessageMeta \<Rightarrow> bytes \<Rightarrow> (PCAPMessageMeta \<times> bytes) option outcome" where
  "udp_payload meta udpSeg =
     (if length udpSeg < 8 then Ret None
      else obind (slice_at udpSeg 0 2) (\<lambda>s. obind (slice_at udpSeg 2 4) (\<lambda>d. obind (slice_at udpSeg 4 6) (\<lambda>l.
        let srcPort = (be_get s :: u16); dstPort = (be_get d :: u16); udpLen = unat (be_get l :: u16);
            payload = drop 8 udpSeg in
        if srcPort \<noteq> 53 \<and> dstPort \<noteq> 53 then Ret None
        else if udpLen < 8 then Ret None
        else Ret (Some (meta\<lparr>SrcPort := srcPort, DstPort := dstPort\<rparr>,
                        if udpLen - 8 \<le> length payload then take (udpLen - 8) payload else payload))))))"

definition extractDNSPayload :: "u32 \<Rightarrow> bytes \<Rightarrow> (PCAPMessageMeta \<times> bytes) option outcome" where
  "extractDNSPayload linkType packetBytes =
     obind (stripL2 linkType packetBytes) (\<lambda>l. case l of
       None \<Rightarrow> Ret None
     | Some (etherType, ip) \<Rightarrow>
         if ip = [] then Ret None
         else obind (get_at ip 0) (\<lambda>b0.
           obind (udp_segment (ip_version linkType etherType b0) ip) (\<lambda>u. case u of
             None \<Rightarrow> Ret None
           | Some (meta, udpSeg) \<Rightarrow> udp_payload meta udpSeg)))"

text \<open>A visitor of datagrams; it may panic, as it may run code that does.\<close>

type_synonym ('s, 'e) wire_visitor = "'s \<Rightarrow> PCAPMessageMeta \<Rightarrow> bytes \<Rightarrow> ('s \<times> 'e option) outcome"

function wire_records :: "bytes \<Rightarrow> bool \<Rightarrow> u64 \<Rightarrow> u32 \<Rightarrow> PCAPMessageStats \<Rightarrow> ('s, 'e) wire_visitor option \<Rightarrow> 's
    \<Rightarrow> ('e wire_error option \<times> PCAPMessageStats \<times> 's) outcome" where
  "wire_records input little nsPerUnit linkType stats visit s =
     (if input = [] then Ret (None, stats, s)
      else case read_full 16 input of
        None \<Rightarrow> Ret (Some WireRecord, stats, s)
      | Some (rc, rest) \<Rightarrow> (case read_full (unat (order_u32 little (subslice 8 12 rc))) rest of
          None \<Rightarrow> Ret (Some WirePacket, stats, s)
        | Some (packetBytes, rest2) \<Rightarrow>
          (let stats = stats\<lparr>TotalPackets := TotalPackets stats + 1\<rparr> in
           obind (extractDNSPayload linkType packetBytes) (\<lambda>x. case x of
             None \<Rightarrow> wire_records rest2 little nsPerUnit linkType stats visit s
           | Some (meta, udpPayload) \<Rightarrow>
               (let meta = meta\<lparr>TimestampNs := ucast (order_u32 little (subslice 0 4 rc)) * 1000000000
                                   + ucast (order_u32 little (subslice 4 8 rc)) * nsPerUnit\<rparr> in
                case visit of
                  None \<Rightarrow> wire_records rest2 little nsPerUnit linkType stats visit s
                | Some v \<Rightarrow> obind (v s meta udpPayload) (\<lambda>(s', err). case err of
                      Some e \<Rightarrow> Ret (Some (WireVisit e), stats, s')
                    | None \<Rightarrow> wire_records rest2 little nsPerUnit linkType stats visit s'))))))"
  by pat_completeness auto

termination
  by (relation "measure (\<lambda>(input, _). length input)") (auto dest!: read_full_rest)

declare wire_records.simps [simp del]

definition ReadPCAPDNSWire :: "bytes option \<Rightarrow> ('s, 'e) wire_visitor option \<Rightarrow> 's \<Rightarrow> ('e wire_error option \<times> PCAPMessageStats \<times> 's) outcome" where
  "ReadPCAPDNSWire contents visit s = (case contents of
     None \<Rightarrow> Ret (Some WireOpen, zero_mstats, s)
   | Some bs \<Rightarrow> (case read_full 24 bs of
       None \<Rightarrow> Ret (Some WireHeader, zero_mstats, s)
     | Some (hdr, rest) \<Rightarrow>
       (let magic = (le_get (subslice 0 4 hdr) :: u32) in
        case pcapByteOrder magic of
          None \<Rightarrow> Ret (Some (WireMagic magic), zero_mstats, s)
        | Some (little, nsPerUnit) \<Rightarrow>
          (let linkType = order_u32 little (subslice 20 24 hdr) in
           if linkType \<noteq> 1 \<and> linkType \<noteq> 101 \<and> linkType \<noteq> 113 then Ret (Some (WireLink linkType), zero_mstats, s)
           else wire_records rest little nsPerUnit linkType zero_mstats visit s))))"

text \<open>A visitor of decoded messages, and the closure \<open>ReadPCAPDNSMessages\<close> hands to the wire reader.\<close>

type_synonym ('s, 'e) message_visitor = "'s \<Rightarrow> PCAPMessageMeta \<Rightarrow> DNSMessage \<Rightarrow> 's \<times> 'e option"

definition decode_visit :: "('s, 'e) message_visitor option \<Rightarrow> (PCAPMessageStats \<times> 's, 'e) wire_visitor" where
  "decode_visit visit = (\<lambda>(sd, s) meta wire.
     obind (ParseDNSMessage wire (Some zero_message)) (\<lambda>(err, msg). case msg of
       None \<Rightarrow> Panic
     | Some msg \<Rightarrow>
       (if err \<noteq> None then Ret ((sd\<lparr>MalformedCount := MalformedCount sd + 1\<rparr>, s), None)
        else let sd = (if IsResponse msg then sd\<lparr>DecodedReplies := DecodedReplies sd + 1\<rparr>
                       else sd\<lparr>DecodedQueries := DecodedQueries sd + 1\<rparr>) in
          case visit of
            None \<Rightarrow> Ret ((sd, s), None)
          | Some v \<Rightarrow> (let (s', e) = v s meta msg in Ret ((sd, s'), e)))))"

definition ReadPCAPDNSMessages :: "bytes option \<Rightarrow> ('s, 'e) message_visitor option \<Rightarrow> 's \<Rightarrow> ('e wire_error option \<times> PCAPMessageStats \<times> 's) outcome" where
  "ReadPCAPDNSMessages contents visit s =
     obind (ReadPCAPDNSWire contents (Some (decode_visit visit)) (zero_mstats, s)) (\<lambda>(err, statsFilaire, sd, s').
       Ret (err, sd\<lparr>TotalPackets := TotalPackets statsFilaire\<rparr>, s'))"

section \<open>No panic\<close>

lemma stripL2_total: "no_panic (stripL2 lt p)"
  unfolding stripL2_def Let_def by (rule no_panic_rules | linarith | simp)+

lemma udp_segment_total: "no_panic (udp_segment v ip)"
  unfolding udp_segment_def Let_def by (rule no_panic_rules | linarith | simp)+

lemma udp_payload_total: "no_panic (udp_payload m u)"
  unfolding udp_payload_def Let_def by (rule no_panic_rules | linarith | simp)+

lemma extract_total: "no_panic (extractDNSPayload lt p)"
  unfolding extractDNSPayload_def
  by (rule no_panic_obind[OF stripL2_total])
    (auto intro!: no_panic_obind udp_segment_total udp_payload_total split: option.splits)

section \<open>The datagrams of a capture, on its octets\<close>

text \<open>
  The format, read from the first four octets: the byte order, \<open>True\<close> for little
  endian, and the nanoseconds of a unit of the fraction.
\<close>

definition capture_format :: "bytes \<Rightarrow> (bool \<times> u64) option" where
  "capture_format magic =
     (if magic = [0xd4, 0xc3, 0xb2, 0xa1] then Some (True, 1000) else if magic = [0x4d, 0x3c, 0xb2, 0xa1] then Some (True, 1)
      else if magic = [0xa1, 0xb2, 0xc3, 0xd4] then Some (False, 1000) else if magic = [0xa1, 0xb2, 0x3c, 0x4d] then Some (False, 1)
      else None)"

text \<open>
  The network packet of a frame and its IP version: behind fourteen octets of
  Ethernet, or eighteen with one VLAN tag, or sixteen of a Linux cooked header,
  the version then being that of the protocol field; or the frame itself, with
  the version in its first four bits.
\<close>

definition protocol_version :: "u16 \<Rightarrow> byte \<Rightarrow> bool" where
  "protocol_version t ver \<longleftrightarrow> t = 0x0800 \<and> ver = 4 \<or> t = 0x86dd \<and> ver = 6"

definition link_packet :: "u32 \<Rightarrow> bytes \<Rightarrow> byte \<Rightarrow> bytes \<Rightarrow> bool" where
  "link_packet lt frame ver ip \<longleftrightarrow> ip \<noteq> [] \<and> ver \<in> {4, 6}
     \<and> (lt = 1 \<and> (\<exists>macs t. length macs = 12 \<and> t \<noteq> 0x8100 \<and> frame = macs @ be_put 2 t @ ip \<and> protocol_version t ver)
       \<or> lt = 1 \<and> (\<exists>macs tag t. length macs = 12 \<and> length tag = 2
                       \<and> frame = macs @ be_put 2 (0x8100 :: u16) @ tag @ be_put 2 t @ ip \<and> protocol_version t ver)
       \<or> lt = 113 \<and> (\<exists>sll t. length sll = 14 \<and> frame = sll @ be_put 2 t @ ip \<and> protocol_version t ver)
       \<or> lt = 101 \<and> frame = ip \<and> unat ver = unat (hd ip) div 16)"

text \<open>The UDP segment of a network packet and the addresses, an IPv4 address in its mapped form.\<close>

definition udp_packet :: "byte \<Rightarrow> bytes \<Rightarrow> PCAPMessageMeta \<Rightarrow> bytes \<Rightarrow> bool" where
  "udp_packet ver ip meta udp \<longleftrightarrow>
     (ver = 4 \<and> (\<exists>hdr. ip = hdr @ udp \<and> 20 \<le> length hdr \<and> length hdr = 4 * (unat (hd hdr) mod 16) \<and> hdr ! 9 = 17
        \<and> SrcIP meta = replicate 10 0 @ [0xff, 0xff] @ subslice 12 16 hdr
        \<and> DstIP meta = replicate 10 0 @ [0xff, 0xff] @ subslice 16 20 hdr \<and> \<not> IsIPv6 meta))
   \<or> (ver = 6 \<and> (\<exists>hdr. ip = hdr @ udp \<and> length hdr = 40 \<and> hdr ! 6 = 17
        \<and> SrcIP meta = subslice 8 24 hdr \<and> DstIP meta = subslice 24 40 hdr \<and> IsIPv6 meta))"

text \<open>
  A DNS datagram in a frame: a UDP segment with port 53 at one end, whose
  payload starts behind the eight octets of the UDP header and ends at the
  announced length, or at the end of the capture when that comes first.
\<close>

definition dns_datagram :: "u32 \<Rightarrow> bytes \<Rightarrow> PCAPMessageMeta \<Rightarrow> bytes \<Rightarrow> bool" where
  "dns_datagram lt frame meta wire \<longleftrightarrow> (\<exists>ver ip udp len sum data. link_packet lt frame ver ip \<and> udp_packet ver ip meta udp
     \<and> udp = be_put 2 (SrcPort meta) @ be_put 2 (DstPort meta) @ be_put 2 (len :: u16) @ sum @ data \<and> length sum = 2
     \<and> (SrcPort meta = 53 \<or> DstPort meta = 53) \<and> 8 \<le> unat len \<and> wire = take (unat len - 8) data)"

lemma be2_split:
  "length h = i \<Longrightarrow> frame = h @ be_put 2 (t :: u16) @ rest \<longleftrightarrow>
     i + 2 \<le> length frame \<and> h = take i frame \<and> t = be_get (subslice i (i + 2) frame) \<and> rest = drop (i + 2) frame"
proof (intro iffI conjI)
  assume l: "length h = i" and f: "frame = h @ be_put 2 t @ rest"
  have b: "length (be_put 2 t) = 2" by simp
  show "i + 2 \<le> length frame" "h = take i frame" "rest = drop (i + 2) frame" using l f b by auto
  have "subslice i (i + 2) frame = be_put 2 t" using l b unfolding f by (intro subslice_append_mid) auto
  then show "t = be_get (subslice i (i + 2) frame)" by (simp add: be_get_put)
next
  assume l: "length h = i" and f: "i + 2 \<le> length frame \<and> h = take i frame \<and> t = be_get (subslice i (i + 2) frame) \<and> rest = drop (i + 2) frame"
  then have "be_put 2 t = subslice i (i + 2) frame" using be_put_subslice[of "i + 2" i 2 frame, where ?'a = 16] by simp
  then have "h @ be_put 2 t @ rest = take i frame @ subslice i (i + 2) frame @ drop (i + 2) frame" using f by simp
  also have "subslice i (i + 2) frame @ drop (i + 2) frame = drop i frame"
    using append_take_drop_id[of 2 "drop i frame"] by (simp add: subslice_def add.commute)
  finally show "frame = h @ be_put 2 t @ rest" by simp
qed

lemma ip_version_protocol: "lt \<noteq> 101 \<Longrightarrow> ver \<in> {4, 6} \<Longrightarrow> ip_version lt t b = ver \<longleftrightarrow> protocol_version t ver"
  by (auto simp: ip_version_def protocol_version_def)

lemma frame_at:
  assumes "i + 2 \<le> length frame"
  shows "(\<exists>h (t :: u16). length h = i \<and> P t \<and> frame = h @ be_put 2 t @ rest \<and> Q t)
     \<longleftrightarrow> P (be_get (subslice i (i + 2) frame)) \<and> rest = drop (i + 2) frame \<and> Q (be_get (subslice i (i + 2) frame))"
proof -
  have "(\<exists>h (t :: u16). length h = i \<and> P t \<and> frame = h @ be_put 2 t @ rest \<and> Q t)
     \<longleftrightarrow> (\<exists>h (t :: u16). length h = i \<and> P t \<and> (h = take i frame \<and> t = be_get (subslice i (i + 2) frame) \<and> rest = drop (i + 2) frame) \<and> Q t)"
    using be2_split[of _ i frame] assms by (intro ex_cong1 conj_cong refl) auto
  also have "\<dots> \<longleftrightarrow> P (be_get (subslice i (i + 2) frame)) \<and> rest = drop (i + 2) frame \<and> Q (be_get (subslice i (i + 2) frame))"
    using assms by auto
  finally show ?thesis .
qed

text \<open>The link layer of the reader finds that packet and no other.\<close>

lemma ethernet_plain:
  assumes "14 \<le> length frame"
  shows "(\<exists>macs t. length macs = 12 \<and> t \<noteq> 0x8100 \<and> frame = macs @ be_put 2 t @ ip \<and> protocol_version t ver)
     \<longleftrightarrow> be_get (subslice 12 14 frame) \<noteq> (0x8100 :: u16) \<and> ip = drop 14 frame \<and> protocol_version (be_get (subslice 12 14 frame)) ver"
  using frame_at[of 12 frame "\<lambda>t. t \<noteq> 0x8100" ip "\<lambda>t. protocol_version t ver"] assms by simp

lemma ethernet_tagged:
  assumes "14 \<le> length frame"
  shows "(\<exists>macs tag t. length macs = 12 \<and> length tag = 2
              \<and> frame = macs @ be_put 2 (0x8100 :: u16) @ tag @ be_put 2 t @ ip \<and> protocol_version t ver)
     \<longleftrightarrow> be_get (subslice 12 14 frame) = (0x8100 :: u16) \<and> 18 \<le> length frame \<and> ip = drop 18 frame
          \<and> protocol_version (be_get (subslice 16 18 frame)) ver"
proof -
  have tail: "(\<exists>tag t. length tag = 2 \<and> drop 14 frame = tag @ be_put 2 t @ ip \<and> protocol_version t ver)
      \<longleftrightarrow> 18 \<le> length frame \<and> ip = drop 18 frame \<and> protocol_version (be_get (subslice 16 18 frame)) ver"
  proof (cases "18 \<le> length frame")
    case True
    then show ?thesis using frame_at[of 2 "drop 14 frame" "\<lambda>_. True" ip "\<lambda>t. protocol_version t ver"]
      by (simp add: subslice_def)
  next
    case False
    have "\<not> (length tag = 2 \<and> drop 14 frame = tag @ be_put 2 t @ ip)" for tag and t :: u16
    proof
      assume a: "length tag = 2 \<and> drop 14 frame = tag @ be_put 2 t @ ip"
      then have "length (drop 14 frame) = 4 + length ip" by simp
      then show False using False assms by simp
    qed
    then show ?thesis using False by blast
  qed
  have "(\<exists>macs tag t. length macs = 12 \<and> length tag = 2
              \<and> frame = macs @ be_put 2 (0x8100 :: u16) @ tag @ be_put 2 t @ ip \<and> protocol_version t ver)
      \<longleftrightarrow> (\<exists>rest. (\<exists>macs t0. length macs = 12 \<and> t0 = (0x8100 :: u16) \<and> frame = macs @ be_put 2 t0 @ rest \<and> True)
           \<and> (\<exists>tag t. length tag = 2 \<and> rest = tag @ be_put 2 t @ ip \<and> protocol_version t ver))" by auto
  also have "\<dots> \<longleftrightarrow> be_get (subslice 12 14 frame) = (0x8100 :: u16)
      \<and> (\<exists>tag t. length tag = 2 \<and> drop 14 frame = tag @ be_put 2 t @ ip \<and> protocol_version t ver)"
    using frame_at[of 12 frame "\<lambda>t. t = 0x8100" _ "\<lambda>_. True"] assms by simp
  finally show ?thesis unfolding tail .
qed

lemma cooked_plain:
  assumes "16 \<le> length frame"
  shows "(\<exists>sll t. length sll = 14 \<and> frame = sll @ be_put 2 t @ ip \<and> protocol_version t ver)
     \<longleftrightarrow> ip = drop 16 frame \<and> protocol_version (be_get (subslice 14 16 frame)) ver"
  using frame_at[of 14 frame "\<lambda>_. True" ip "\<lambda>t. protocol_version t ver"] assms by simp

lemma stripL2_link:
  assumes "lt \<in> {1, 101, 113}"
  shows "\<exists>r. stripL2 lt frame = Ret r
     \<and> (\<forall>ver ip. link_packet lt frame ver ip \<longleftrightarrow> (\<exists>t. r = Some (t, ip) \<and> ip \<noteq> [] \<and> ver = ip_version lt t (ip ! 0) \<and> ver \<in> {4, 6}))"
proof -
  consider (eth) "lt = 1" | (raw) "lt = 101" | (sll) "lt = 113" using assms by blast
  then show ?thesis
  proof cases
    case eth
    let ?t = "be_get (subslice 12 14 frame) :: u16"
    let ?u = "be_get (subslice 16 18 frame) :: u16"
    have v: "ver \<in> {4, 6} \<Longrightarrow> ver = ip_version lt t b \<longleftrightarrow> protocol_version t ver" for ver t b
      using ip_version_protocol[of lt ver t b] eth by auto
    show ?thesis
    proof (cases "length frame < 14")
      case True
      have "\<not> link_packet lt frame ver ip" for ver ip using True eth unfolding link_packet_def by auto
      then show ?thesis using True eth by (simp add: stripL2_def)
    next
      case False
      have l: "link_packet lt frame ver ip \<longleftrightarrow> ip \<noteq> [] \<and> ver \<in> {4, 6}
          \<and> (?t \<noteq> 0x8100 \<and> ip = drop 14 frame \<and> protocol_version ?t ver
            \<or> ?t = 0x8100 \<and> 18 \<le> length frame \<and> ip = drop 18 frame \<and> protocol_version ?u ver)" for ver ip
        unfolding link_packet_def using eth ethernet_plain[of frame] ethernet_tagged[of frame] False by auto
      have s: "stripL2 lt frame = Ret (if ?t \<noteq> 0x8100 then Some (?t, drop 14 frame)
          else if 18 \<le> length frame then Some (?u, drop 18 frame) else None)"
        using eth False by (auto simp: stripL2_def Let_def subslice_def)
      show ?thesis unfolding s l using v by auto
    qed
  next
    case raw
    have d: "unat ver = unat b div 16 \<longleftrightarrow> ver = drop_bit 4 b" for ver b :: byte
      by (simp add: word_unat_eq_iff drop_bit_eq_div unat_div)
    have "link_packet lt frame ver ip \<longleftrightarrow> ip \<noteq> [] \<and> ver \<in> {4, 6} \<and> frame = ip \<and> ver = drop_bit 4 (hd ip)" for ver ip
      unfolding link_packet_def d using raw by simp
    then show ?thesis using raw by (auto simp: stripL2_def ip_version_def hd_conv_nth)
  next
    case sll
    let ?t = "be_get (subslice 14 16 frame) :: u16"
    have v: "ver \<in> {4, 6} \<Longrightarrow> ver = ip_version lt t b \<longleftrightarrow> protocol_version t ver" for ver t b
      using ip_version_protocol[of lt ver t b] sll by auto
    show ?thesis
    proof (cases "length frame < 16")
      case True
      have "\<not> link_packet lt frame ver ip" for ver ip using True sll unfolding link_packet_def by auto
      then show ?thesis using True sll by (simp add: stripL2_def)
    next
      case False
      have l: "link_packet lt frame ver ip \<longleftrightarrow> ip \<noteq> [] \<and> ver \<in> {4, 6} \<and> ip = drop 16 frame \<and> protocol_version ?t ver" for ver ip
        unfolding link_packet_def using sll cooked_plain[of frame] False by auto
      have s: "stripL2 lt frame = Ret (Some (?t, drop 16 frame))" using sll False by (simp add: stripL2_def)
      show ?thesis unfolding s l using v by auto
    qed
  qed
qed

lemma prefix_at: "(\<exists>h. ip = h @ u \<and> length h = n \<and> P h) \<longleftrightarrow> n \<le> length ip \<and> u = drop n ip \<and> P (take n ip)"
  by (auto intro!: exI[of _ "take n ip"])

definition same_addresses :: "PCAPMessageMeta \<Rightarrow> PCAPMessageMeta \<Rightarrow> bool" where
  "same_addresses m m' \<longleftrightarrow> SrcIP m = SrcIP m' \<and> DstIP m = DstIP m' \<and> IsIPv6 m = IsIPv6 m'"

lemma udp_segment_packet:
  assumes "ver \<in> {4, 6}"
  shows "\<exists>r. udp_segment ver ip = Ret r
     \<and> (\<forall>m udp. udp_packet ver ip m udp \<longleftrightarrow> (\<exists>m0. r = Some (m0, udp) \<and> same_addresses m m0))
     \<and> (\<forall>m0 udp. r = Some (m0, udp) \<longrightarrow> TimestampNs m0 = 0)"
proof (cases "ver = 4")
  case v: True
  define n where "n = 4 * (unat (ip ! 0) mod 16)"
  have ihl: "unat (ip ! 0 AND 0x0f) * 4 = n"
    using unat_and_mask[of "ip ! 0" 4] by (simp add: n_def mask_eq_exp_minus_1)
  then have n: "n = unat (ip ! 0 AND 0x0f) * 4" by simp
  have pk: "udp_packet 4 ip m udp \<longleftrightarrow> 20 \<le> n \<and> n \<le> length ip \<and> udp = drop n ip \<and> ip ! 9 = 17
      \<and> SrcIP m = v4Mapped (subslice 12 16 ip) \<and> DstIP m = v4Mapped (subslice 16 20 ip) \<and> \<not> IsIPv6 m" for m udp
  proof -
    have h: "ip = hdr @ udp \<and> 20 \<le> length hdr \<and> length hdr = 4 * (unat (hd hdr) mod 16) \<and> P
        \<longleftrightarrow> ip = hdr @ udp \<and> length hdr = n \<and> (20 \<le> n \<and> P)" for hdr P
      by (cases hdr) (auto simp: n_def)
    have "udp_packet 4 ip m udp \<longleftrightarrow> (\<exists>hdr. ip = hdr @ udp \<and> length hdr = n \<and> (20 \<le> n \<and> hdr ! 9 = 17
        \<and> SrcIP m = replicate 10 0 @ [0xff, 0xff] @ subslice 12 16 hdr
        \<and> DstIP m = replicate 10 0 @ [0xff, 0xff] @ subslice 16 20 hdr \<and> \<not> IsIPv6 m))"
      unfolding udp_packet_def h by simp
    moreover have "subslice 12 16 (take n ip) = subslice 12 16 ip" "subslice 16 20 (take n ip) = subslice 16 20 ip"
      "copy_into (replicate 4 0) (subslice 12 16 ip) = subslice 12 16 ip"
      "copy_into (replicate 4 0) (subslice 16 20 ip) = subslice 16 20 ip" "take n ip ! 9 = ip ! 9" if "20 \<le> n" "n \<le> length ip"
      using that by (simp_all add: subslice_of_take[symmetric] copy_into_def)
    ultimately show ?thesis unfolding prefix_at v4Mapped_def by metis
  qed
  show ?thesis
  proof (cases "20 \<le> length ip \<and> 20 \<le> n \<and> n \<le> length ip \<and> ip ! 9 = 17")
    case True
    then have "udp_segment ver ip = Ret (Some (zero_meta\<lparr>SrcIP := v4Mapped (subslice 12 16 ip), DstIP := v4Mapped (subslice 16 20 ip)\<rparr>, drop n ip))"
    proof -
      have "ip \<noteq> []" using True by auto
      then show ?thesis using v True unfolding n by (simp add: udp_segment_def Let_def)
    qed
    then show ?thesis using True unfolding v pk by (auto simp: same_addresses_def zero_meta_def)
  next
    case False
    then have "udp_segment ver ip = Ret None"
    proof (cases "length ip < 20")
      case True
      then show ?thesis using v by (simp add: udp_segment_def)
    next
      case long: False
      then have "ip \<noteq> []" by auto
      then show ?thesis using v long False unfolding n by (auto simp: udp_segment_def Let_def)
    qed
    then show ?thesis using False unfolding v pk by auto
  qed
next
  case False
  then have v: "ver = 6" using assms by simp
  have pk: "udp_packet 6 ip m udp \<longleftrightarrow> 40 \<le> length ip \<and> udp = drop 40 ip \<and> ip ! 6 = 17
      \<and> SrcIP m = subslice 8 24 ip \<and> DstIP m = subslice 24 40 ip \<and> IsIPv6 m" for m udp
  proof -
    have "udp_packet 6 ip m udp \<longleftrightarrow> (\<exists>hdr. ip = hdr @ udp \<and> length hdr = 40 \<and> (hdr ! 6 = 17
        \<and> SrcIP m = subslice 8 24 hdr \<and> DstIP m = subslice 24 40 hdr \<and> IsIPv6 m))"
      by (simp add: udp_packet_def)
    moreover have "subslice 8 24 (take 40 ip) = subslice 8 24 ip" "subslice 24 40 (take 40 ip) = subslice 24 40 ip"
      by (simp_all add: subslice_of_take[symmetric])
    ultimately show ?thesis unfolding prefix_at by auto
  qed
  show ?thesis
  proof (cases "40 \<le> length ip \<and> ip ! 6 = 17")
    case True
    then have "udp_segment ver ip = Ret (Some (zero_meta\<lparr>SrcIP := subslice 8 24 ip, DstIP := subslice 24 40 ip, IsIPv6 := True\<rparr>, drop 40 ip))"
      using v by (simp add: udp_segment_def Let_def)
    then show ?thesis using True unfolding v pk by (auto simp: same_addresses_def zero_meta_def)
  next
    case False
    then have "udp_segment ver ip = Ret None"
      using v by (cases "length ip < 40") (auto simp: udp_segment_def Let_def)
    then show ?thesis using False unfolding v pk by auto
  qed
qed

lemma be2_head: "udp = be_put 2 (t :: u16) @ rest \<longleftrightarrow> 2 \<le> length udp \<and> t = be_get (subslice 0 2 udp) \<and> rest = drop 2 udp"
  using be2_split[of "[]" 0 udp t rest, OF list.size(3)] by (simp only: append_Nil add_0 take_0 simp_thms)

lemma udp_payload_exact:
  "\<exists>r. udp_payload m0 udp = Ret r
     \<and> (\<forall>m w. r = Some (m, w) \<longleftrightarrow> m = m0\<lparr>SrcPort := SrcPort m, DstPort := DstPort m\<rparr>
          \<and> (\<exists>len sum data. udp = be_put 2 (SrcPort m) @ be_put 2 (DstPort m) @ be_put 2 (len :: u16) @ sum @ data \<and> length sum = 2
               \<and> (SrcPort m = 53 \<or> DstPort m = 53) \<and> 8 \<le> unat len \<and> w = take (unat len - 8) data))"
proof -
  let ?s = "be_get (subslice 0 2 udp) :: u16" and ?d = "be_get (subslice 2 4 udp) :: u16" and ?l = "be_get (subslice 4 6 udp) :: u16"
  have oct: "(\<exists>len sum data. udp = be_put 2 sp @ be_put 2 dp @ be_put 2 (len :: u16) @ sum @ data \<and> length sum = 2
               \<and> P \<and> 8 \<le> unat len \<and> w = take (unat len - 8) data)
      \<longleftrightarrow> 8 \<le> length udp \<and> sp = ?s \<and> dp = ?d \<and> P \<and> 8 \<le> unat ?l \<and> w = take (unat ?l - 8) (drop 8 udp)" for sp dp :: u16 and P w
  proof -
    have key: "udp = be_put 2 sp @ be_put 2 dp @ be_put 2 len @ sum @ data \<and> length sum = 2
        \<longleftrightarrow> 8 \<le> length udp \<and> sp = ?s \<and> dp = ?d \<and> len = ?l \<and> sum = subslice 6 8 udp \<and> data = drop 8 udp" for len sum data
      unfolding be2_head[of udp] be2_head[of "drop 2 udp"]
    proof -
      have e: "be_put 2 dp @ be_put 2 len @ sum @ data = drop 2 udp \<longleftrightarrow> 4 \<le> length udp \<and> dp = ?d \<and> be_put 2 len @ sum @ data = drop 4 udp"
        if "2 \<le> length udp"
        using be2_head[of "drop 2 udp" dp "be_put 2 len @ sum @ data"] that by (auto simp: subslice_def)
      have f: "be_put 2 len @ sum @ data = drop 4 udp \<longleftrightarrow> 6 \<le> length udp \<and> len = ?l \<and> sum @ data = drop 6 udp"
        if "4 \<le> length udp"
        using be2_head[of "drop 4 udp" len "sum @ data"] that by (auto simp: subslice_def)
      have g: "sum @ data = drop 6 udp \<and> length sum = 2 \<longleftrightarrow> 8 \<le> length udp \<and> sum = subslice 6 8 udp \<and> data = drop 8 udp"
        if "6 \<le> length udp"
      proof
        assume a: "sum @ data = drop 6 udp \<and> length sum = 2"
        then have "length (drop 6 udp) = 2 + length data" by (metis length_append)
        moreover have "take 2 (drop 6 udp) = sum" "drop 2 (drop 6 udp) = data" using a by (metis append_eq_conv_conj)+
        ultimately show "8 \<le> length udp \<and> sum = subslice 6 8 udp \<and> data = drop 8 udp" using that by (simp add: subslice_def)
      next
        assume a: "8 \<le> length udp \<and> sum = subslice 6 8 udp \<and> data = drop 8 udp"
        then show "sum @ data = drop 6 udp \<and> length sum = 2"
          using append_take_drop_id[of 2 "drop 6 udp"] by (auto simp: subslice_def min_def)
      qed
      show "(2 \<le> length udp \<and> sp = ?s \<and> be_put 2 dp @ be_put 2 len @ sum @ data = drop 2 udp) \<and> length sum = 2
        \<longleftrightarrow> 8 \<le> length udp \<and> sp = ?s \<and> dp = ?d \<and> len = ?l \<and> sum = subslice 6 8 udp \<and> data = drop 8 udp"
        using e f g by auto
    qed
    have "(\<exists>len sum data. udp = be_put 2 sp @ be_put 2 dp @ be_put 2 (len :: u16) @ sum @ data \<and> length sum = 2
               \<and> P \<and> 8 \<le> unat len \<and> w = take (unat len - 8) data)
       \<longleftrightarrow> (\<exists>len sum data. (udp = be_put 2 sp @ be_put 2 dp @ be_put 2 (len :: u16) @ sum @ data \<and> length sum = 2)
               \<and> P \<and> 8 \<le> unat len \<and> w = take (unat len - 8) data)" by (simp only: conj_assoc)
    then show ?thesis unfolding key by simp
  qed
  show ?thesis
  proof (cases "8 \<le> length udp \<and> (?s = 53 \<or> ?d = 53) \<and> 8 \<le> unat ?l")
    case True
    have "udp_payload m0 udp = Ret (Some (m0\<lparr>SrcPort := ?s, DstPort := ?d\<rparr>, take (unat ?l - 8) (drop 8 udp)))"
      using True by (auto simp: udp_payload_def Let_def)
    moreover have "Some (m0\<lparr>SrcPort := ?s, DstPort := ?d\<rparr>, take (unat ?l - 8) (drop 8 udp)) = Some (m, w)
        \<longleftrightarrow> m = m0\<lparr>SrcPort := SrcPort m, DstPort := DstPort m\<rparr> \<and> (8 \<le> length udp \<and> SrcPort m = ?s \<and> DstPort m = ?d
            \<and> (SrcPort m = 53 \<or> DstPort m = 53) \<and> 8 \<le> unat ?l \<and> w = take (unat ?l - 8) (drop 8 udp))" for m w
      using True by (cases m; cases m0) auto
    ultimately show ?thesis unfolding oct by blast
  next
    case False
    then have "udp_payload m0 udp = Ret None"
      by (cases "length udp < 8") (auto simp: udp_payload_def Let_def)
    then show ?thesis using False unfolding oct by auto
  qed
qed

lemma extract_exact:
  assumes "lt \<in> {1, 101, 113}"
  shows "\<exists>r. extractDNSPayload lt frame = Ret r
     \<and> (\<forall>m w. r = Some (m, w) \<longleftrightarrow> dns_datagram lt frame m w \<and> TimestampNs m = 0)"
proof -
  obtain r1 where r1: "stripL2 lt frame = Ret r1"
    "\<And>ver ip. link_packet lt frame ver ip \<longleftrightarrow> (\<exists>t. r1 = Some (t, ip) \<and> ip \<noteq> [] \<and> ver = ip_version lt t (ip ! 0) \<and> ver \<in> {4, 6})"
    using stripL2_link[OF assms] by blast
  show ?thesis
  proof (cases "\<exists>t ip. r1 = Some (t, ip) \<and> ip \<noteq> [] \<and> ip_version lt t (ip ! 0) \<in> {4, 6}")
    case False
    then have "\<not> link_packet lt frame ver ip" for ver ip unfolding r1(2) by auto
    then have "\<not> dns_datagram lt frame m w" for m w by (simp add: dns_datagram_def)
    moreover have "extractDNSPayload lt frame = Ret None"
    proof (cases "\<exists>t ip. r1 = Some (t, ip) \<and> ip \<noteq> []")
      case True
      then obtain t ip where ip: "r1 = Some (t, ip)" "ip \<noteq> []" by blast
      then have "udp_segment (ip_version lt t (ip ! 0)) ip = Ret None" using False by (simp add: udp_segment_def)
      then show ?thesis using r1(1) ip by (simp add: extractDNSPayload_def)
    next
      case False
      then show ?thesis using r1(1) by (cases r1) (auto simp: extractDNSPayload_def)
    qed
    ultimately show ?thesis by simp
  next
    case True
    then obtain t ip where ip: "r1 = Some (t, ip)" "ip \<noteq> []" "ip_version lt t (ip ! 0) \<in> {4, 6}" by blast
    let ?v = "ip_version lt t (ip ! 0)"
    have lp: "link_packet lt frame ver ip' \<longleftrightarrow> ver = ?v \<and> ip' = ip" for ver ip' using r1(2) ip by auto
    obtain r2 where r2: "udp_segment ?v ip = Ret r2"
      "\<And>m udp. udp_packet ?v ip m udp \<longleftrightarrow> (\<exists>m0. r2 = Some (m0, udp) \<and> same_addresses m m0)"
      "\<And>m0 udp. r2 = Some (m0, udp) \<Longrightarrow> TimestampNs m0 = 0"
      using udp_segment_packet[OF ip(3), of ip] by blast
    show ?thesis
    proof (cases r2)
      case None
      then have "\<not> dns_datagram lt frame m w" for m w using r2(2) lp unfolding dns_datagram_def by simp
      moreover have "extractDNSPayload lt frame = Ret None"
        using r1(1) ip r2(1) None by (simp add: extractDNSPayload_def)
      ultimately show ?thesis by simp
    next
      case (Some x)
      obtain m0 udp where x: "x = (m0, udp)" by (cases x)
      obtain r3 where r3: "udp_payload m0 udp = Ret r3"
        "\<And>m w. r3 = Some (m, w) \<longleftrightarrow> m = m0\<lparr>SrcPort := SrcPort m, DstPort := DstPort m\<rparr>
          \<and> (\<exists>len sum data. udp = be_put 2 (SrcPort m) @ be_put 2 (DstPort m) @ be_put 2 (len :: u16) @ sum @ data \<and> length sum = 2
               \<and> (SrcPort m = 53 \<or> DstPort m = 53) \<and> 8 \<le> unat len \<and> w = take (unat len - 8) data)"
        using udp_payload_exact[of m0 udp] by blast
      have eq: "m = m0\<lparr>SrcPort := SrcPort m, DstPort := DstPort m\<rparr> \<longleftrightarrow> same_addresses m m0 \<and> TimestampNs m = 0" for m
        using r2(3) Some x by (cases m; cases m0) (auto simp: same_addresses_def)
      have "extractDNSPayload lt frame = Ret r3"
        using r1(1) ip r2(1) Some x r3(1) by (simp add: extractDNSPayload_def)
      moreover have "r3 = Some (m, w) \<longleftrightarrow> dns_datagram lt frame m w \<and> TimestampNs m = 0" for m w
        unfolding r3(2) eq dns_datagram_def lp using r2(2) Some x by auto
      ultimately show ?thesis by blast
    qed
  qed
qed

section \<open>The records of a capture\<close>

text \<open>
  A capture behind its global header is a sequence of records, each sixteen
  octets of header and the number of octets announced there, and a tail that is
  empty or a record cut short.
\<close>

definition announced :: "bool \<Rightarrow> bytes \<Rightarrow> nat" where
  "announced little hdr = unat (order_u32 little (subslice 8 12 hdr))"

definition capture_records :: "bool \<Rightarrow> bytes \<Rightarrow> (bytes \<times> bytes) list \<Rightarrow> bytes \<Rightarrow> bool" where
  "capture_records little input recs tail \<longleftrightarrow> input = concat (map (\<lambda>(hdr, frame). hdr @ frame) recs) @ tail
     \<and> (\<forall>(hdr, frame) \<in> set recs. length hdr = 16 \<and> length frame = announced little hdr)
     \<and> (tail = [] \<or> length tail < 16 \<or> length tail < 16 + announced little (take 16 tail))"

text \<open>The nanoseconds since the epoch a record header gives.\<close>

definition stamp_of :: "bool \<Rightarrow> u64 \<Rightarrow> bytes \<Rightarrow> nat" where
  "stamp_of little unit hdr = unat (order_u32 little (subslice 0 4 hdr)) * 1000000000
     + unat (order_u32 little (subslice 4 8 hdr)) * unat unit"

text \<open>The datagrams of a list of records, in order: those of the frames that hold one, with the stamps of their records.\<close>

primrec datagrams_of :: "bool \<Rightarrow> u64 \<Rightarrow> u32 \<Rightarrow> (bytes \<times> bytes) list \<Rightarrow> (PCAPMessageMeta \<times> bytes) list \<Rightarrow> bool" where
  "datagrams_of little unit lt [] ds \<longleftrightarrow> ds = []"
| "datagrams_of little unit lt (r # rs) ds \<longleftrightarrow>
     ((\<nexists>m w. dns_datagram lt (snd r) m w) \<and> datagrams_of little unit lt rs ds)
   \<or> (\<exists>m w ds'. ds = (m, w) # ds' \<and> dns_datagram lt (snd r) m w \<and> unat (TimestampNs m) = stamp_of little unit (fst r)
        \<and> datagrams_of little unit lt rs ds')"

text \<open>The messages among the datagrams, and what a visitor does with a list of them: it runs on each until it reports an error.\<close>

definition messages_of :: "(PCAPMessageMeta \<times> bytes) list \<Rightarrow> (PCAPMessageMeta \<times> DNSMessage) list" where
  "messages_of ds = concat (map (\<lambda>(m, w). case ParseDNSMessage w (Some zero_message) of
     Ret (None, Some msg) \<Rightarrow> [(m, msg)] | _ \<Rightarrow> []) ds)"

primrec visit_all :: "('s, 'e) message_visitor \<Rightarrow> 's \<Rightarrow> (PCAPMessageMeta \<times> DNSMessage) list \<Rightarrow> 's \<times> 'e option" where
  "visit_all v s [] = (s, None)"
| "visit_all v s (x # xs) = (case v s (fst x) (snd x) of (s', Some e) \<Rightarrow> (s', Some e) | (s', None) \<Rightarrow> visit_all v s' xs)"

text \<open>
  A run over the records of a capture: it takes \<open>n\<close> of them, all unless the
  visitor stops it, and then the message that stopped it is in the last one.
\<close>

definition capture_run :: "bool \<Rightarrow> u64 \<Rightarrow> u32 \<Rightarrow> ('s, 'e) message_visitor \<Rightarrow> 's \<Rightarrow> bytes \<Rightarrow> nat
    \<Rightarrow> (PCAPMessageMeta \<times> bytes) list \<Rightarrow> 'e wire_error option \<Rightarrow> 's \<Rightarrow> bool" where
  "capture_run little unit lt v s input n ds err s' \<longleftrightarrow> (\<exists>recs tail ve. capture_records little input recs tail
     \<and> n \<le> length recs \<and> datagrams_of little unit lt (take n recs) ds \<and> visit_all v s (messages_of ds) = (s', ve)
     \<and> (case ve of
          None \<Rightarrow> n = length recs \<and> err = (if tail = [] then None else if length tail < 16 then Some WireRecord else Some WirePacket)
        | Some e \<Rightarrow> err = Some (WireVisit e) \<and> 0 < n \<and> ds \<noteq> [] \<and> datagrams_of little unit lt (take (n - 1) recs) (butlast ds)
             \<and> snd (visit_all v s (messages_of (butlast ds))) = None))"

lemma dns_datagram_stamp: "dns_datagram lt frame (m\<lparr>TimestampNs := t\<rparr>) w = dns_datagram lt frame m w"
  by (simp add: dns_datagram_def udp_packet_def)

lemma no_datagram:
  assumes "extractDNSPayload lt frame = Ret None" "lt \<in> {1, 101, 113}"
  shows "\<nexists>m w. dns_datagram lt frame m w"
proof -
  obtain r where r: "extractDNSPayload lt frame = Ret r" "\<And>m w. r = Some (m, w) \<longleftrightarrow> dns_datagram lt frame m w \<and> TimestampNs m = 0"
    using extract_exact[OF assms(2), of frame] by blast
  have "\<not> dns_datagram lt frame m w" for m w
    using r(2)[of "m\<lparr>TimestampNs := 0\<rparr>" w] r(1) assms(1) dns_datagram_stamp[of lt frame 0 m w] by simp
  then show ?thesis by blast
qed

lemma stamp_no_wrap:
  fixes a b :: u32 and k :: u64
  assumes "unat k \<le> 1000"
  shows "unat (ucast a * 1000000000 + ucast b * k) = unat a * 1000000000 + unat b * unat k"
proof -
  have l: "unat a < 2 ^ LENGTH(32)" "unat b < 2 ^ LENGTH(32)" by (rule unsigned_less)+
  have "unat b * unat k \<le> 2 ^ 32 * 1000" using l(2) assms by (intro mult_mono) auto
  then have s: "unat a * 1000000000 + unat b * unat k < 2 ^ 64" using l(1) by simp
  have "ucast a * 1000000000 + ucast b * k = (word_of_nat (unat a * 1000000000 + unat b * unat k) :: u64)"
    by simp
  then show ?thesis using s by (simp only: unat_of_nat) simp
qed

lemma capture_exists: "\<exists>recs tail. capture_records little input recs tail"
proof (induction input rule: measure_induct_rule[where f = length])
  case (less input)
  show ?case
  proof (cases "input = [] \<or> length input < 16 \<or> length input < 16 + announced little (take 16 input)")
    case True
    then show ?thesis by (intro exI[of _ "[]"] exI[of _ input]) (simp add: capture_records_def)
  next
    case False
    let ?k = "announced little (take 16 input)"
    have "length (drop (16 + ?k) input) < length input" using False by auto
    from less.IH[OF this] obtain recs tail where "capture_records little (drop (16 + ?k) input) recs tail" by blast
    moreover have "input = take 16 input @ take ?k (drop 16 input) @ drop (16 + ?k) input"
      by (metis append_take_drop_id drop_drop add.commute)
    ultimately show ?thesis using False
      by (intro exI[of _ "(take 16 input, take ?k (drop 16 input)) # recs"] exI[of _ tail]) (auto simp: capture_records_def)
  qed
qed

lemma capture_records_Cons:
  assumes "capture_records little rest recs tail" "length hdr = 16" "length frame = announced little hdr"
  shows "capture_records little (hdr @ frame @ rest) ((hdr, frame) # recs) tail"
  using assms by (auto simp: capture_records_def)

lemma messages_of_Cons: "messages_of (d # ds) = messages_of [d] @ messages_of ds"
  by (simp add: messages_of_def)

lemma visit_all_append:
  "visit_all v s xs = (s', None) \<Longrightarrow> visit_all v s (xs @ ys) = visit_all v s' ys"
  by (induction xs arbitrary: s) (auto split: prod.splits option.splits)

lemma capture_run_skip:
  assumes "capture_run little unit lt v s rest n ds err s'" "length hdr = 16" "length frame = announced little hdr"
    and "\<nexists>m w. dns_datagram lt frame m w"
  shows "capture_run little unit lt v s (hdr @ frame @ rest) (Suc n) ds err s'"
proof -
  obtain recs tail ve where r: "capture_records little rest recs tail" "n \<le> length recs"
    "datagrams_of little unit lt (take n recs) ds" "visit_all v s (messages_of ds) = (s', ve)"
    and e: "case ve of
          None \<Rightarrow> n = length recs \<and> err = (if tail = [] then None else if length tail < 16 then Some WireRecord else Some WirePacket)
        | Some e \<Rightarrow> err = Some (WireVisit e) \<and> 0 < n \<and> ds \<noteq> [] \<and> datagrams_of little unit lt (take (n - 1) recs) (butlast ds)
             \<and> snd (visit_all v s (messages_of (butlast ds))) = None"
    using assms(1) unfolding capture_run_def by blast
  have "take (Suc n - 1) ((hdr, frame) # recs) = (hdr, frame) # take (n - 1) recs" if "0 < n" using that by (cases n) auto
  then show ?thesis unfolding capture_run_def
    using r e capture_records_Cons[OF r(1) assms(2,3)] assms(4)
    by (intro exI[of _ "(hdr, frame) # recs"] exI[of _ tail] exI[of _ ve]) (auto split: option.splits)
qed

lemma capture_run_visit:
  assumes "capture_run little unit lt v s1 rest n ds err s'" "length hdr = 16" "length frame = announced little hdr"
    and d: "dns_datagram lt frame m w" "unat (TimestampNs m) = stamp_of little unit hdr"
    and v: "visit_all v s (messages_of [(m, w)]) = (s1, None)"
  shows "capture_run little unit lt v s (hdr @ frame @ rest) (Suc n) ((m, w) # ds) err s'"
proof -
  obtain recs tail ve where r: "capture_records little rest recs tail" "n \<le> length recs"
    "datagrams_of little unit lt (take n recs) ds" "visit_all v s1 (messages_of ds) = (s', ve)"
    and e: "case ve of
          None \<Rightarrow> n = length recs \<and> err = (if tail = [] then None else if length tail < 16 then Some WireRecord else Some WirePacket)
        | Some e \<Rightarrow> err = Some (WireVisit e) \<and> 0 < n \<and> ds \<noteq> [] \<and> datagrams_of little unit lt (take (n - 1) recs) (butlast ds)
             \<and> snd (visit_all v s1 (messages_of (butlast ds))) = None"
    using assms(1) unfolding capture_run_def by blast
  have t: "take (Suc n - 1) ((hdr, frame) # recs) = (hdr, frame) # take (n - 1) recs" if "0 < n" using that by (cases n) auto
  have va: "visit_all v s (messages_of ((m, w) # xs)) = visit_all v s1 (messages_of xs)" for xs
    unfolding messages_of_Cons[of "(m, w)" xs] by (rule visit_all_append[OF v])
  have dg: "datagrams_of little unit lt ((hdr, frame) # rs) ((m, w) # xs)" if "datagrams_of little unit lt rs xs" for rs xs
    using d that by auto
  show ?thesis unfolding capture_run_def
  proof (intro exI conjI)
    show "capture_records little (hdr @ frame @ rest) ((hdr, frame) # recs) tail" by (rule capture_records_Cons[OF r(1) assms(2,3)])
    show "Suc n \<le> length ((hdr, frame) # recs)" using r(2) by simp
    show "datagrams_of little unit lt (take (Suc n) ((hdr, frame) # recs)) ((m, w) # ds)" using dg[OF r(3)] by simp
    show "visit_all v s (messages_of ((m, w) # ds)) = (s', ve)" using va r(4) by simp
    show "case ve of
          None \<Rightarrow> Suc n = length ((hdr, frame) # recs) \<and> err = (if tail = [] then None else if length tail < 16 then Some WireRecord else Some WirePacket)
        | Some e \<Rightarrow> err = Some (WireVisit e) \<and> 0 < Suc n \<and> (m, w) # ds \<noteq> []
             \<and> datagrams_of little unit lt (take (Suc n - 1) ((hdr, frame) # recs)) (butlast ((m, w) # ds))
             \<and> snd (visit_all v s (messages_of (butlast ((m, w) # ds)))) = None"
      using e va t dg by (cases ve) simp_all
  qed
qed

lemma capture_run_stop:
  assumes "length hdr = 16" "length frame = announced little hdr"
    and "dns_datagram lt frame m w" "unat (TimestampNs m) = stamp_of little unit hdr"
    and "visit_all v s (messages_of [(m, w)]) = (s', Some e)"
  shows "capture_run little unit lt v s (hdr @ frame @ rest) 1 [(m, w)] (Some (WireVisit e)) s'"
proof -
  obtain recs tail where "capture_records little rest recs tail" using capture_exists by blast
  then show ?thesis unfolding capture_run_def using assms capture_records_Cons
    by (intro exI[of _ "(hdr, frame) # recs"] exI[of _ tail] exI[of _ "Some e"]) (auto simp: messages_of_def)
qed

lemma capture_run_end:
  assumes "input = [] \<or> length input < 16 \<or> length input < 16 + announced little (take 16 input)"
  shows "capture_run little unit lt v s input 0 [] (if input = [] then None else if length input < 16 then Some WireRecord else Some WirePacket) s"
  unfolding capture_run_def using assms
  by (intro exI[of _ "[]"] exI[of _ input] exI[of _ None]) (simp add: capture_records_def messages_of_def)

text \<open>What the counters of the closure gain: replies and queries among the messages, the other datagrams as malformed.\<close>

definition tallied :: "PCAPMessageStats \<Rightarrow> (PCAPMessageMeta \<times> bytes) list \<Rightarrow> PCAPMessageStats \<Rightarrow> bool" where
  "tallied sd ds sd' \<longleftrightarrow> TotalPackets sd' = TotalPackets sd
     \<and> DecodedReplies sd' = DecodedReplies sd + length (filter (\<lambda>x. IsResponse (snd x)) (messages_of ds))
     \<and> DecodedQueries sd' = DecodedQueries sd + length (filter (\<lambda>x. \<not> IsResponse (snd x)) (messages_of ds))
     \<and> MalformedCount sd' + length (messages_of ds) = MalformedCount sd + length ds"

lemma tallied_Nil: "tallied sd [] sd" by (simp add: tallied_def messages_of_def)

lemma tallied_Cons: "tallied sd [d] sd1 \<Longrightarrow> tallied sd1 ds sd' \<Longrightarrow> tallied sd (d # ds) sd'"
  unfolding tallied_def messages_of_Cons[of d ds] by auto

lemma decode_visit_exact:
  "\<exists>sd' s' e. decode_visit (Some v) (sd, s) m w = Ret ((sd', s'), e) \<and> tallied sd [(m, w)] sd'
     \<and> visit_all v s (messages_of [(m, w)]) = (s', e)"
proof -
  obtain err msg where p: "ParseDNSMessage w (Some zero_message) = Ret (err, Some msg)" using message_sound by blast
  obtain s' e where v: "v s m msg = (s', e)" by fastforce
  show ?thesis
    using p v by (cases err; cases e) (auto simp: decode_visit_def messages_of_def tallied_def Let_def)
qed

lemma wire_records_run:
  assumes "lt \<in> {1, 101, 113}" "unat unit \<le> 1000"
  shows "\<exists>n ds err s' sd' stats'. wire_records input little unit lt stats (Some (decode_visit (Some v))) (sd, s) = Ret (err, stats', (sd', s'))
     \<and> TotalPackets stats' = TotalPackets stats + n \<and> capture_run little unit lt v s input n ds err s' \<and> tallied sd ds sd'"
proof (induction input arbitrary: stats sd s rule: measure_induct_rule[where f = length])
  case (less input)
  show ?case
  proof (cases "input = [] \<or> length input < 16 \<or> length input < 16 + announced little (take 16 input)")
    case True
    have "wire_records input little unit lt stats (Some (decode_visit (Some v))) (sd, s)
        = Ret (if input = [] then None else if length input < 16 then Some WireRecord else Some WirePacket, stats, (sd, s))"
      using True by (subst wire_records.simps) (auto simp: read_full_def Let_def announced_def)
    then show ?thesis using capture_run_end[OF True, of unit lt v s] tallied_Nil[of sd]
      by (intro exI[of _ 0] exI[of _ "[]"] exI[of _ "if input = [] then None else if length input < 16 then Some WireRecord else Some WirePacket"]
          exI[of _ s] exI[of _ sd] exI[of _ stats]) auto
  next
    case False
    define h where "h = take 16 input"
    define k where "k = announced little h"
    define p where "p = take k (drop 16 input)"
    define rest where "rest = drop k (drop 16 input)"
    define st where "st = stats\<lparr>TotalPackets := TotalPackets stats + 1\<rparr>"
    have hp: "length h = 16" "length p = announced little h" "length rest < length input"
      using False by (auto simp: h_def k_def p_def rest_def)
    have hp3: "input = h @ p @ rest" by (simp only: h_def p_def rest_def append_take_drop_id)
    obtain x where x: "extractDNSPayload lt p = Ret x" "\<And>m w. x = Some (m, w) \<longleftrightarrow> dns_datagram lt p m w \<and> TimestampNs m = 0"
      using extract_exact[OF assms(1), of p] by blast
    show ?thesis
    proof (cases x)
      case None
      have step: "wire_records input little unit lt stats (Some (decode_visit (Some v))) (sd, s)
          = wire_records rest little unit lt st (Some (decode_visit (Some v))) (sd, s)"
        using False x(1) None by (subst wire_records.simps)
          (auto simp: read_full_def Let_def h_def k_def p_def rest_def st_def announced_def)
      obtain n ds err s' sd' stats' where ih: "wire_records rest little unit lt st (Some (decode_visit (Some v))) (sd, s) = Ret (err, stats', (sd', s'))"
        "TotalPackets stats' = TotalPackets st + n" "capture_run little unit lt v s rest n ds err s'" "tallied sd ds sd'"
        using less.IH[OF hp(3)] by blast
      have "capture_run little unit lt v s input (Suc n) ds err s'"
        using capture_run_skip[OF ih(3) hp(1,2) no_datagram] x(1) None assms(1) hp3 by simp
      moreover have "TotalPackets stats' = TotalPackets stats + Suc n" using ih(2) by (simp add: st_def)
      ultimately show ?thesis using step ih(1,4) by metis
    next
      case (Some y)
      obtain m0 w where y: "y = (m0, w)" by (cases y)
      define m where "m = m0\<lparr>TimestampNs := ucast (order_u32 little (subslice 0 4 h)) * 1000000000
                                   + ucast (order_u32 little (subslice 4 8 h)) * unit\<rparr>"
      have d: "dns_datagram lt p m w" "unat (TimestampNs m) = stamp_of little unit h"
        using x(2)[of m0 w] Some y dns_datagram_stamp stamp_no_wrap[OF assms(2)] by (simp_all add: m_def stamp_of_def)
      obtain sd1 s1 e where v: "decode_visit (Some v) (sd, s) m w = Ret ((sd1, s1), e)" "tallied sd [(m, w)] sd1"
        "visit_all v s (messages_of [(m, w)]) = (s1, e)" using decode_visit_exact[of v sd s m w] by blast
      have step: "wire_records input little unit lt stats (Some (decode_visit (Some v))) (sd, s) = (case e of
            Some e \<Rightarrow> Ret (Some (WireVisit e), st, (sd1, s1))
          | None \<Rightarrow> wire_records rest little unit lt st (Some (decode_visit (Some v))) (sd1, s1))"
        using False x(1) Some y v(1) by (subst wire_records.simps)
          (cases e; auto simp: read_full_def Let_def h_def k_def p_def rest_def st_def m_def announced_def)
      show ?thesis
      proof (cases e)
        case (Some e')
        have "capture_run little unit lt v s input 1 [(m, w)] (Some (WireVisit e')) s1"
          using capture_run_stop[OF hp(1,2) d v(3)[unfolded Some], of rest] hp3 by simp
        moreover have "TotalPackets st = TotalPackets stats + 1" by (simp add: st_def)
        ultimately show ?thesis using step v(2) Some by (metis option.simps(5))
      next
        case None
        obtain n ds err s' sd' stats' where ih: "wire_records rest little unit lt st (Some (decode_visit (Some v))) (sd1, s1) = Ret (err, stats', (sd', s'))"
          "TotalPackets stats' = TotalPackets st + n" "capture_run little unit lt v s1 rest n ds err s'" "tallied sd1 ds sd'"
          using less.IH[OF hp(3)] by blast
        have "capture_run little unit lt v s input (Suc n) ((m, w) # ds) err s'"
          using capture_run_visit[OF ih(3) hp(1,2) d v(3)[unfolded None]] hp3 by simp
        moreover have "TotalPackets stats' = TotalPackets stats + Suc n" using ih(2) by (simp add: st_def)
        moreover have "tallied sd ((m, w) # ds) sd'" by (rule tallied_Cons[OF v(2) ih(4)])
        ultimately show ?thesis using step None ih(1) by (metis option.simps(4))
      qed
    qed
  qed
qed

lemma capture_format_eq:
  assumes "length bs = 4"
  shows "pcapByteOrder (le_get bs) = capture_format bs"
proof -
  have e: "(le_get bs = c) = (bs = le_put 4 c)" for c :: u32
    using assms le_put_get[of bs, where ?'a = 32] by (auto simp: codec_simps)
  have p: "le_put 4 (0xa1b2c3d4 :: u32) = [0xd4, 0xc3, 0xb2, 0xa1]" "le_put 4 (0xa1b23c4d :: u32) = [0x4d, 0x3c, 0xb2, 0xa1]"
    "le_put 4 (0xd4c3b2a1 :: u32) = [0xa1, 0xb2, 0xc3, 0xd4]" "le_put 4 (0x4d3cb2a1 :: u32) = [0xa1, 0xb2, 0x3c, 0x4d]"
    by code_simp+
  show ?thesis unfolding pcapByteOrder_def capture_format_def e p by auto
qed

lemma capture_format_unit: "capture_format magic = Some (little, unit) \<Longrightarrow> unat unit \<le> 1000"
  by (auto simp: capture_format_def split: if_splits)

lemma datagrams_of_length: "datagrams_of little unit lt rs ds \<Longrightarrow> length ds \<le> length rs"
  by (induction rs arbitrary: ds) (auto intro: le_SucI)

lemma messages_of_sound: "(m, msg) \<in> set (messages_of ds) \<Longrightarrow> \<exists>w. (m, w) \<in> set ds \<and> message_ok w msg"
proof -
  assume "(m, msg) \<in> set (messages_of ds)"
  then obtain w where w: "(m, w) \<in> set ds" "ParseDNSMessage w (Some zero_message) = Ret (None, Some msg)"
    by (auto simp: messages_of_def split: outcome.splits option.splits prod.splits)
  then show ?thesis using message_sound[of w zero_message] by auto
qed

section \<open>Properties\<close>

text \<open>
  C14.  Reading the messages of a pcap file never panics, whatever its bytes, and
  visits the messages of the capture, all of them and in order.  A file that
  cannot be opened, is shorter than its header, has another magic number or an
  unsupported link type is refused with nothing visited or counted.  Otherwise
  the records of the file are taken one after the other; a record whose frame
  holds a UDP datagram with port 53 at one end gives the payload of that
  datagram, as it stands in the octets, with the addresses, the ports and the
  stamp found there; the messages are the payloads the message decoder accepts,
  each saying what its payload says; the visitor runs on them in order until it
  reports an error, and the reading stops at the record of that message.  The
  counters are the records taken, the replies, the queries, and the payloads
  that were no message.
\<close>

theorem pcap_messages_accounted:
  "\<exists>err st s'. ReadPCAPDNSMessages contents (Some v) s0 = Ret (err, st, s') \<and> (case contents of
     None \<Rightarrow> err = Some WireOpen \<and> st = zero_mstats \<and> s' = s0
   | Some bs \<Rightarrow>
       if length bs < 24 then err = Some WireHeader \<and> st = zero_mstats \<and> s' = s0
       else (case capture_format (take 4 bs) of
         None \<Rightarrow> err = Some (WireMagic (le_get (take 4 bs))) \<and> st = zero_mstats \<and> s' = s0
       | Some (little, unit) \<Rightarrow> let lt = order_u32 little (subslice 20 24 bs) in
           if lt \<notin> {1, 101, 113} then err = Some (WireLink lt) \<and> st = zero_mstats \<and> s' = s0
           else \<exists>ds. capture_run little unit lt v s0 (drop 24 bs) (TotalPackets st) ds err s'
                \<and> DecodedReplies st = length (filter (\<lambda>x. IsResponse (snd x)) (messages_of ds))
                \<and> DecodedQueries st = length (filter (\<lambda>x. \<not> IsResponse (snd x)) (messages_of ds))
                \<and> MalformedCount st + length (messages_of ds) = length ds \<and> length ds \<le> TotalPackets st
                \<and> (\<forall>(m, msg) \<in> set (messages_of ds). \<exists>w. (m, w) \<in> set ds \<and> message_ok w msg)))"
proof (cases "\<exists>bs. contents = Some bs \<and> 24 \<le> length bs")
  case False
  then have "ReadPCAPDNSMessages contents (Some v) s0
      = Ret (if contents = None then Some WireOpen else Some WireHeader, zero_mstats, s0)"
    by (cases contents) (auto simp: ReadPCAPDNSMessages_def ReadPCAPDNSWire_def read_full_def)
  then show ?thesis using False by (cases contents) auto
next
  case True
  then obtain bs where bs: "contents = Some bs" "24 \<le> length bs" by blast
  have rf: "read_full 24 bs = Some (take 24 bs, drop 24 bs)" using bs(2) by (simp add: read_full_def)
  have sub: "subslice 0 4 (take 24 bs) = take 4 bs" "subslice 20 24 (take 24 bs) = subslice 20 24 bs"
    using subslice_of_take[of 4 24 0 bs] subslice_of_take[of 24 24 20 bs] by (simp_all add: subslice_def)
  have fmt: "pcapByteOrder (le_get (take 4 bs)) = capture_format (take 4 bs)"
    using capture_format_eq[of "take 4 bs"] bs(2) by simp
  show ?thesis
  proof (cases "capture_format (take 4 bs)")
    case None
    then show ?thesis using bs rf fmt
      by (simp add: ReadPCAPDNSMessages_def ReadPCAPDNSWire_def Let_def sub)
  next
    case (Some lu)
    obtain little unit where lu: "lu = (little, unit)" by (cases lu)
    define lt where "lt = order_u32 little (subslice 20 24 bs)"
    show ?thesis
    proof (cases "lt \<in> {1, 101, 113}")
      case False
      then show ?thesis using bs rf fmt Some lu
        by (simp add: ReadPCAPDNSMessages_def ReadPCAPDNSWire_def Let_def sub lt_def)
    next
      case True
      obtain n ds err s' sd' stats' where r: "wire_records (drop 24 bs) little unit lt zero_mstats (Some (decode_visit (Some v))) (zero_mstats, s0)
            = Ret (err, stats', (sd', s'))"
        "TotalPackets stats' = TotalPackets zero_mstats + n" "capture_run little unit lt v s0 (drop 24 bs) n ds err s'"
        "tallied zero_mstats ds sd'"
        using wire_records_run[OF True capture_format_unit[OF Some[unfolded lu]], of "drop 24 bs" little zero_mstats v zero_mstats s0] by blast
      have run: "ReadPCAPDNSMessages contents (Some v) s0 = Ret (err, sd'\<lparr>TotalPackets := n\<rparr>, s')"
        using bs rf fmt Some lu True r(1,2)
        by (auto simp: ReadPCAPDNSMessages_def ReadPCAPDNSWire_def Let_def sub lt_def zero_mstats_def)
      have "length ds \<le> n" using r(3) datagrams_of_length unfolding capture_run_def
        by (metis length_take min.absorb2)
      moreover have "DecodedReplies sd' = length (filter (\<lambda>x. IsResponse (snd x)) (messages_of ds))"
        "DecodedQueries sd' = length (filter (\<lambda>x. \<not> IsResponse (snd x)) (messages_of ds))"
        "MalformedCount sd' + length (messages_of ds) = length ds"
        using r(4) by (simp_all add: tallied_def zero_mstats_def)
      moreover have "\<forall>(m, msg) \<in> set (messages_of ds). \<exists>w. (m, w) \<in> set ds \<and> message_ok w msg"
        using messages_of_sound by blast
      ultimately have "capture_run little unit lt v s0 (drop 24 bs) (TotalPackets (sd'\<lparr>TotalPackets := n\<rparr>)) ds err s'
                \<and> DecodedReplies (sd'\<lparr>TotalPackets := n\<rparr>) = length (filter (\<lambda>x. IsResponse (snd x)) (messages_of ds))
                \<and> DecodedQueries (sd'\<lparr>TotalPackets := n\<rparr>) = length (filter (\<lambda>x. \<not> IsResponse (snd x)) (messages_of ds))
                \<and> MalformedCount (sd'\<lparr>TotalPackets := n\<rparr>) + length (messages_of ds) = length ds
                \<and> length ds \<le> TotalPackets (sd'\<lparr>TotalPackets := n\<rparr>)
                \<and> (\<forall>(m, msg) \<in> set (messages_of ds). \<exists>w. (m, w) \<in> set ds \<and> message_ok w msg)"
        using r(3) by simp
      then show ?thesis using run bs Some lu True
        by (intro exI[of _ err] exI[of _ "sd'\<lparr>TotalPackets := n\<rparr>"] exI[of _ s']) (auto simp: Let_def lt_def)
    qed
  qed
qed

text \<open>The sample capture again, in the byte order this reader expects, with its messages kept.\<close>

definition sample_messages :: "bytes" where
  "sample_messages = (let q = wire_query 7 0x100 [ascii ''a''] 1;
      udp = [0x30, 0x39, 0, 53, 0, word_of_nat (8 + length q), 0, 0] @ q;
      ip = [0x45, 0, 0, word_of_nat (20 + length udp), 0, 0, 0, 0, 64, 17, 0, 0, 10, 0, 0, 1, 10, 0, 0, 2] @ udp in
    [0xd4, 0xc3, 0xb2, 0xa1, 2, 0, 4, 0, 0, 0, 0, 0, 0, 0, 0, 0, 0, 128, 0, 0, 101, 0, 0, 0]
    @ le_put 4 (1 :: u32) @ le_put 4 (2 :: u32) @ le_put 4 (word_of_nat (length ip) :: u32) @ le_put 4 (word_of_nat (length ip) :: u32) @ ip)"

definition keep_messages :: "(DNSMessage list, unit) message_visitor" where
  "keep_messages s meta msg = (s @ [msg], None)"

theorem pcap_messages_accounted_witness:
  "\<exists>err st msgs ds. ReadPCAPDNSMessages (Some sample_messages) (Some keep_messages) [] = Ret (err, st, msgs)
     \<and> length msgs = 1 \<and> capture_run True 1000 101 keep_messages [] (drop 24 sample_messages) (TotalPackets st) ds err msgs
     \<and> (\<forall>(m, msg) \<in> set (messages_of ds). \<exists>w. (m, w) \<in> set ds \<and> message_ok w msg)"
proof -
  obtain err st msgs where r: "ReadPCAPDNSMessages (Some sample_messages) (Some keep_messages) [] = Ret (err, st, msgs)"
    and x: "if length sample_messages < 24 then err = Some WireHeader \<and> st = zero_mstats \<and> msgs = []
       else (case capture_format (take 4 sample_messages) of
         None \<Rightarrow> err = Some (WireMagic (le_get (take 4 sample_messages))) \<and> st = zero_mstats \<and> msgs = []
       | Some (little, unit) \<Rightarrow> let lt = order_u32 little (subslice 20 24 sample_messages) in
           if lt \<notin> {1, 101, 113} then err = Some (WireLink lt) \<and> st = zero_mstats \<and> msgs = []
           else \<exists>ds. capture_run little unit lt keep_messages [] (drop 24 sample_messages) (TotalPackets st) ds err msgs
                \<and> DecodedReplies st = length (filter (\<lambda>x. IsResponse (snd x)) (messages_of ds))
                \<and> DecodedQueries st = length (filter (\<lambda>x. \<not> IsResponse (snd x)) (messages_of ds))
                \<and> MalformedCount st + length (messages_of ds) = length ds \<and> length ds \<le> TotalPackets st
                \<and> (\<forall>(m, msg) \<in> set (messages_of ds). \<exists>w. (m, w) \<in> set ds \<and> message_ok w msg))"
    using pcap_messages_accounted[of "Some sample_messages" keep_messages "[]"] unfolding option.case(2) by blast
  have f: "\<not> length sample_messages < 24" "capture_format (take 4 sample_messages) = Some (True, 1000)"
    "order_u32 True (subslice 20 24 sample_messages) = 101"
    by code_simp+
  have "case ReadPCAPDNSMessages (Some sample_messages) (Some keep_messages) [] of
      Ret (_, _, msgs) \<Rightarrow> length msgs = 1 | Panic \<Rightarrow> False"
    by code_simp
  moreover have "\<exists>ds. capture_run True 1000 101 keep_messages [] (drop 24 sample_messages) (TotalPackets st) ds err msgs
     \<and> (\<forall>(m, msg) \<in> set (messages_of ds). \<exists>w. (m, w) \<in> set ds \<and> message_ok w msg)"
    using x unfolding if_not_P[OF f(1)] f(2) option.case prod.case Let_def f(3) by auto
  ultimately show ?thesis using r by auto
qed

end
