(* ===== verification/RabitqProbe.thy ===== *)
theory RabitqProbe
  imports Codebook
begin

text \<open>
  The prototype index of \<open>internal/goclassifier/rabitq_probe.go\<close>: creation, filing of
  prototypes with every error, and the integer part of the class dispersion.  The projection
  and quantisation of a vector are floating point; they are a parameter that turns the bit
  patterns of a vector into a code.
\<close>

abbreviation RabitqDim :: nat where "RabitqDim \<equiv> 512"
abbreviation MaxClasses :: int where "MaxClasses \<equiv> 1024"

datatype probe_error = ErrInvalidDimensions | ErrNilProbe | ErrClassOutOfRange | ErrRabitqDimension

record 'c RabitqProbe =
  classes :: int
  protos :: "'c list list"

definition NewRabitqProbe :: "int \<Rightarrow> probe_error + 'c RabitqProbe" where
  "NewRabitqProbe n = (if n \<le> 0 \<or> MaxClasses < n then Inl ErrInvalidDimensions
     else Inr \<lparr>classes = n, protos = replicate (nat n) []\<rparr>)"

definition Classes :: "'c RabitqProbe option \<Rightarrow> int" where
  "Classes p = (case p of None \<Rightarrow> 0 | Some p \<Rightarrow> classes p)"

definition PrototypeCount :: "'c RabitqProbe option \<Rightarrow> int \<Rightarrow> nat" where
  "PrototypeCount p cl = (case p of
     None \<Rightarrow> 0
   | Some p \<Rightarrow> (if cl < 0 \<or> classes p \<le> cl then 0 else length (protos p ! nat cl)))"

text \<open>\<open>quantize\<close> stands for \<open>ProjectRabitq\<close> followed by \<open>QuantizeRabitq\<close>.\<close>

definition AddPrototype :: "(u32 list \<Rightarrow> 'c) \<Rightarrow> 'c RabitqProbe option \<Rightarrow> int \<Rightarrow> u32 list \<Rightarrow> probe_error + 'c RabitqProbe" where
  "AddPrototype quantize p cl features = (case p of
     None \<Rightarrow> Inl ErrNilProbe
   | Some p \<Rightarrow>
     (if cl < 0 \<or> classes p \<le> cl then Inl ErrClassOutOfRange
      else if features = [] \<or> RabitqDim < length features then Inl ErrRabitqDimension
      else Inr (p\<lparr>protos := (protos p)[nat cl := protos p ! nat cl @ [quantize features]]\<rparr>)))"

definition hamming512 :: "u64 list \<Rightarrow> u64 list \<Rightarrow> int" where
  "hamming512 a b = sum_list (map (\<lambda>w. OnesCount64 (a ! w XOR b ! w)) [0..<8])"

text \<open>The centroid of a class: one word, all ones or all zeros, for each word position.\<close>

definition spread_word :: "u64 list list \<Rightarrow> nat \<Rightarrow> u64" where
  "spread_word codes w = (let ones = sum_list (map (\<lambda>c. OnesCount64 (c ! w)) codes) in
     if int (length codes) * 64 \<le> ones * 2 then NOT 0 else 0)"

definition spread_centroid :: "u64 list list \<Rightarrow> u64 list" where
  "spread_centroid codes = map (spread_word codes) [0..<8]"

definition spread_sum :: "u64 list list \<Rightarrow> int" where
  "spread_sum codes = (if length codes \<le> 1 then 0
     else sum_list (map (\<lambda>c. hamming512 (spread_centroid codes) c) codes))"

section \<open>Lemmas\<close>

definition probe_wf :: "'c RabitqProbe \<Rightarrow> bool" where
  "probe_wf p \<longleftrightarrow> 0 < classes p \<and> classes p \<le> MaxClasses \<and> length (protos p) = nat (classes p)"

lemma NewRabitqProbe_wf: "NewRabitqProbe n = Inr p \<Longrightarrow> probe_wf p \<and> classes p = n"
  by (auto simp: NewRabitqProbe_def probe_wf_def split: if_splits)

lemma AddPrototype_wf:
  "probe_wf p \<Longrightarrow> AddPrototype q (Some p) cl fs = Inr p' \<Longrightarrow> probe_wf p' \<and> classes p' = classes p"
  by (auto simp: AddPrototype_def probe_wf_def split: if_splits)

lemma AddPrototype_count:
  assumes "probe_wf p" "AddPrototype q (Some p) cl fs = Inr p'"
  shows "PrototypeCount (Some p') k = PrototypeCount (Some p) k + (if k = cl then 1 else 0)"
  using assms by (auto simp: AddPrototype_def probe_wf_def PrototypeCount_def nth_list_update split: if_splits)

text \<open>
  The comment of \<open>classSpread\<close> speaks of the majority-bit centroid.  Two equal codes with one bit
  set have that code as the centroid of their bits, at distance zero; the word-wise centroid is at
  distance two from them in sum.
\<close>

definition majority_bit :: "u64 list list \<Rightarrow> nat \<Rightarrow> nat \<Rightarrow> bool" where
  "majority_bit codes w b \<longleftrightarrow> length codes \<le> 2 * length (filter (\<lambda>c. bit (c ! w) b) codes)"

definition one_bit :: "u64 list" where
  "one_bit = [1, 0, 0, 0, 0, 0, 0, 0]"

lemma spread_is_wordwise:
  "majority_bit [one_bit, one_bit] 0 0 \<and> \<not> bit (spread_centroid [one_bit, one_bit] ! 0) 0 \<and> spread_sum [one_bit, one_bit] = 2"
proof -
  have c: "OnesCount64 1 = 1" "OnesCount64 0 = 0" by (simp_all add: OnesCount64_def bit_1_iff upt_rec)
  have "spread_word [one_bit, one_bit] w = 0" if "w < 8" for w
    using that c by (auto simp: spread_word_def one_bit_def nth_Cons split: nat.splits)
  then have z: "spread_centroid [one_bit, one_bit] = replicate 8 0"
    unfolding spread_centroid_def by (intro nth_equalityI) simp_all
  then show ?thesis using c
    by (simp add: spread_sum_def hamming512_def majority_bit_def) (simp add: one_bit_def upt_8 c)
qed

end
