(* ===== verification/Floppy.thy ===== *)
theory Floppy
  imports RabitqProbe Arena
begin

text \<open>
  The sealed vector disks of \<open>internal/engine/floppy_engine.go\<close>: the file image with its header,
  keyword, centroid, decision-head and prototype sections, the integrity checks of the loader, the
  keyword and centroid searches and the replaceable slot.  A float is its bit pattern.  HMAC-SHA256,
  the strict mode read from the environment and the quantiser of the probe are parameters.  The
  integer head and the calibration of the radius compute with floats and are not modelled; mapping
  a file and releasing the mapping are taken to succeed.
\<close>

abbreviation FloppyHeaderSize :: nat where "FloppyHeaderSize \<equiv> 64"
abbreviation FloppyVersion :: u16 where "FloppyVersion \<equiv> 1"
abbreviation EmbeddingDim :: nat where "EmbeddingDim \<equiv> 512"
abbreviation FloppyFlagSealed :: byte where "FloppyFlagSealed \<equiv> 1"
abbreviation FloppyDefaultBlockRadius :: byte where "FloppyDefaultBlockRadius \<equiv> 12"
abbreviation classRecSize :: nat where "classRecSize \<equiv> 520"
abbreviation floppyProtoRecSize :: nat where "floppyProtoRecSize \<equiv> 2052"
abbreviation codebookEntrySize :: nat where "codebookEntrySize \<equiv> 72"

definition FloppyMagic :: bytes where
  "FloppyMagic = ascii ''C2FLOP1'' @ [0]"

record FloppyHeader =
  fMagic :: bytes
  fVersion :: u16
  FamilyID :: u16
  fVectorDim :: u16
  fFlags :: byte
  fBlockRadius :: byte
  fEntryCount :: u32
  KwCount :: u32
  CRC32C :: u32
  HeadClasses :: u16
  ProtoCount :: u16
  Seal :: bytes

record DecisionClass =
  Weights :: bytes
  Bias :: u32
  QHat :: u32

record FloppyPrototype =
  pClass :: u16
  pVector :: "u32 list"

record 'c FloppyDisk =
  dHeader :: FloppyHeader
  Keywords :: "bytes list"
  dEntries :: "CodebookEntry list"
  dHead :: "DecisionClass list"
  Prototypes :: "FloppyPrototype list"
  dProbe :: "'c RabitqProbe option"

datatype floppy_error =
    FloppyOpen
  | FloppyShort
  | FloppyBadMagic
  | FloppyBadVersion
  | FloppyBadDim
  | ErrFloppyUnsealed
  | ErrFloppySeal
  | FloppyBadCRC
  | ErrFloppyTruncated
  | FloppyProtoClass
  | FloppyProtoFinite
  | FloppyProtoCount
  | FloppyProbe probe_error
  | FloppyWrite

section \<open>Records of the image\<close>

text \<open>The header is copied as the 64 bytes of its struct, which has no padding.\<close>

definition encode_fheader :: "FloppyHeader \<Rightarrow> bytes" where
  "encode_fheader h = fMagic h @ le_put 2 (fVersion h) @ le_put 2 (FamilyID h) @ le_put 2 (fVectorDim h)
     @ [fFlags h, fBlockRadius h] @ le_put 4 (fEntryCount h) @ le_put 4 (KwCount h) @ le_put 4 (CRC32C h)
     @ le_put 2 (HeadClasses h) @ le_put 2 (ProtoCount h) @ Seal h"

definition decode_fheader :: "bytes \<Rightarrow> FloppyHeader" where
  "decode_fheader b = \<lparr>fMagic = subslice 0 8 b, fVersion = le_get (subslice 8 10 b), FamilyID = le_get (subslice 10 12 b),
     fVectorDim = le_get (subslice 12 14 b), fFlags = b ! 14, fBlockRadius = b ! 15, fEntryCount = le_get (subslice 16 20 b),
     KwCount = le_get (subslice 20 24 b), CRC32C = le_get (subslice 24 28 b), HeadClasses = le_get (subslice 28 30 b),
     ProtoCount = le_get (subslice 30 32 b), Seal = subslice 32 64 b\<rparr>"

definition encode_keyword :: "bytes \<Rightarrow> bytes" where
  "encode_keyword kw = le_put 2 (word_of_nat (length kw) :: u16) @ kw"

definition encode_class :: "DecisionClass \<Rightarrow> bytes" where
  "encode_class c = Weights c @ le_put 4 (Bias c) @ le_put 4 (QHat c)"

definition decode_class :: "bytes \<Rightarrow> DecisionClass" where
  "decode_class b = \<lparr>Weights = subslice 0 512 b, Bias = le_get (subslice 512 516 b), QHat = le_get (subslice 516 520 b)\<rparr>"

definition encode_proto :: "FloppyPrototype \<Rightarrow> bytes" where
  "encode_proto p = le_put 2 (pClass p) @ [0, 0] @ concat (map (le_put 4) (pVector p))"

text \<open>\<open>math.IsNaN\<close> or \<open>math.IsInf\<close> of a 32-bit float: the exponent is all ones.\<close>

definition finite32 :: "u32 \<Rightarrow> bool" where
  "finite32 v \<longleftrightarrow> drop_bit 23 v AND 0xFF \<noteq> 0xFF"

definition decode_proto :: "bytes \<Rightarrow> floppy_error + FloppyPrototype" where
  "decode_proto b = (let cl = le_get (subslice 0 2 b) :: u16;
       v = map (\<lambda>d. le_get (subslice (4 + d * 4) (4 + d * 4 + 4) b)) [0..<EmbeddingDim] in
     if 1 < cl then Inl FloppyProtoClass
     else if \<not> list_all finite32 v then Inl FloppyProtoFinite
     else Inr \<lparr>pClass = cl, pVector = v\<rparr>)"

section \<open>The loader\<close>

fun read_keywords :: "bytes \<Rightarrow> nat \<Rightarrow> nat \<Rightarrow> bytes list \<Rightarrow> (bytes list \<times> nat) option outcome" where
  "read_keywords img 0 offset acc = Ret (Some (acc, offset))"
| "read_keywords img (Suc n) offset acc =
     (if length img < offset + 2 then Ret None
      else obind (slice_at img offset (offset + 2)) (\<lambda>lb. let kwLen = unat (le_get lb :: u16); offset = offset + 2 in
        if length img < offset + kwLen then Ret None
        else obind (slice_at img offset (offset + kwLen)) (\<lambda>kw.
          read_keywords img n (offset + kwLen) (acc @ [kw]))))"

text \<open>The loop over the records of one section, \<open>sz\<close> bytes each.\<close>

fun read_section :: "(bytes \<Rightarrow> floppy_error + 'a) \<Rightarrow> bytes \<Rightarrow> nat \<Rightarrow> nat \<Rightarrow> nat list \<Rightarrow> (floppy_error + 'a list) outcome" where
  "read_section dec img sz offset [] = Ret (Inr [])"
| "read_section dec img sz offset (i # ix) = obind (slice_at img (offset + i * sz) (offset + (i + 1) * sz)) (\<lambda>rec.
     case dec rec of
       Inl err \<Rightarrow> Ret (Inl err)
     | Inr x \<Rightarrow> obind (read_section dec img sz offset ix) (\<lambda>r. case r of
         Inl err \<Rightarrow> Ret (Inl err)
       | Inr xs \<Rightarrow> Ret (Inr (x # xs))))"

fun add_prototypes :: "(u32 list \<Rightarrow> 'c) \<Rightarrow> FloppyPrototype list \<Rightarrow> 'c RabitqProbe \<Rightarrow> floppy_error + 'c RabitqProbe" where
  "add_prototypes quantize [] probe = Inr probe"
| "add_prototypes quantize (p # ps) probe = (case AddPrototype quantize (Some probe) (int (unat (pClass p))) (pVector p) of
     Inl err \<Rightarrow> Inl (FloppyProbe err)
   | Inr probe \<Rightarrow> add_prototypes quantize ps probe)"

text \<open>\<open>n[protos[i].Class]++\<close> indexes an array of two.\<close>

definition buildFloppyProbe :: "(u32 list \<Rightarrow> 'c) \<Rightarrow> FloppyPrototype list \<Rightarrow> (floppy_error + 'c RabitqProbe option) outcome" where
  "buildFloppyProbe quantize ps =
     (if list_ex (\<lambda>p. 1 < pClass p) ps then Panic
      else if filter (\<lambda>p. pClass p = 0) ps = [] \<or> filter (\<lambda>p. pClass p = 1) ps = [] then Ret (Inr None)
      else case NewRabitqProbe 2 of
        Inl err \<Rightarrow> Ret (Inl (FloppyProbe err))
      | Inr probe \<Rightarrow> (case add_prototypes quantize ps probe of
          Inl err \<Rightarrow> Ret (Inl err)
        | Inr probe \<Rightarrow> Ret (Inr (Some probe))))"

text \<open>The magic, version and dimension checks, and the seal and checksum checks.\<close>

definition check_fheader :: "FloppyHeader \<Rightarrow> floppy_error option" where
  "check_fheader hdr =
     (if fMagic hdr \<noteq> FloppyMagic then Some FloppyBadMagic
      else if fVersion hdr \<noteq> FloppyVersion then Some FloppyBadVersion
      else if fVectorDim hdr \<noteq> 512 then Some FloppyBadDim
      else None)"

definition check_seal :: "(bytes \<Rightarrow> bytes \<Rightarrow> bytes) \<Rightarrow> bool \<Rightarrow> bytes \<Rightarrow> FloppyHeader \<Rightarrow> bytes \<Rightarrow> bytes \<Rightarrow> floppy_error option" where
  "check_seal hmac isStrict hmacKey hdr prefix32 body =
     (let sealed = fFlags hdr AND FloppyFlagSealed \<noteq> 0 in
      if isStrict \<and> \<not> sealed then Some ErrFloppyUnsealed
      else if sealed then
        (if hmacKey = [] then Some ErrFloppyUnsealed
         else if hmac hmacKey (prefix32 @ body) \<noteq> Seal hdr then Some ErrFloppySeal else None)
      else if 0 < length hmacKey then Some ErrFloppyUnsealed else None)"

text \<open>The four sections and the probe.\<close>

definition read_prototypes ::
    "(u32 list \<Rightarrow> 'c) \<Rightarrow> bytes \<Rightarrow> FloppyHeader \<Rightarrow> bytes list \<Rightarrow> CodebookEntry list \<Rightarrow> DecisionClass list \<Rightarrow> nat
      \<Rightarrow> (floppy_error + 'c FloppyDisk) outcome" where
  "read_prototypes quantize img hdr kws es hcs offset =
     (let protoBytes = unat (ProtoCount hdr) * floppyProtoRecSize in
      if length img < offset + protoBytes then Ret (Inl ErrFloppyTruncated)
      else obind (read_section decode_proto img floppyProtoRecSize offset [0..<unat (ProtoCount hdr)]) (\<lambda>r. case r of
        Inl err \<Rightarrow> Ret (Inl err)
      | Inr ps \<Rightarrow>
        (if offset + protoBytes \<noteq> length img then Ret (Inl ErrFloppyTruncated)
         else obind (buildFloppyProbe quantize ps) (\<lambda>pr. case pr of
           Inl err \<Rightarrow> Ret (Inl err)
         | Inr probe \<Rightarrow> Ret (Inr \<lparr>dHeader = hdr, Keywords = kws, dEntries = es, dHead = hcs, Prototypes = ps, dProbe = probe\<rparr>)))))"

definition read_head ::
    "(u32 list \<Rightarrow> 'c) \<Rightarrow> bytes \<Rightarrow> FloppyHeader \<Rightarrow> bytes list \<Rightarrow> CodebookEntry list \<Rightarrow> nat \<Rightarrow> (floppy_error + 'c FloppyDisk) outcome" where
  "read_head quantize img hdr kws es offset =
     (let headBytes = unat (HeadClasses hdr) * classRecSize in
      if length img < offset + headBytes then Ret (Inl ErrFloppyTruncated)
      else obind (read_section (\<lambda>b. Inr (decode_class b)) img classRecSize offset [0..<unat (HeadClasses hdr)]) (\<lambda>r. case r of
        Inl err \<Rightarrow> Ret (Inl err)
      | Inr hcs \<Rightarrow> read_prototypes quantize img hdr kws es hcs (offset + headBytes)))"

definition read_entries ::
    "(u32 list \<Rightarrow> 'c) \<Rightarrow> bytes \<Rightarrow> FloppyHeader \<Rightarrow> bytes list \<Rightarrow> nat \<Rightarrow> (floppy_error + 'c FloppyDisk) outcome" where
  "read_entries quantize img hdr kws offset =
     (let entryBytes = unat (fEntryCount hdr) * codebookEntrySize in
      if length img < offset + entryBytes then Ret (Inl ErrFloppyTruncated)
      else obind (read_section (\<lambda>b. Inr (decodeCodebookEntry b)) img codebookEntrySize offset [0..<unat (fEntryCount hdr)]) (\<lambda>r. case r of
        Inl err \<Rightarrow> Ret (Inl err)
      | Inr es \<Rightarrow> read_head quantize img hdr kws es (offset + entryBytes)))"

definition min_body :: "FloppyHeader \<Rightarrow> nat" where
  "min_body hdr = unat (KwCount hdr) * 2 + unat (fEntryCount hdr) * codebookEntrySize
     + unat (HeadClasses hdr) * classRecSize + unat (ProtoCount hdr) * floppyProtoRecSize"

definition decodeFloppy ::
    "(bytes \<Rightarrow> bytes \<Rightarrow> bytes) \<Rightarrow> bool \<Rightarrow> (u32 list \<Rightarrow> 'c) \<Rightarrow> bytes \<Rightarrow> bytes \<Rightarrow> (floppy_error + 'c FloppyDisk) outcome" where
  "decodeFloppy hmac isStrict quantize img hmacKey =
     obind (slice_at img 0 FloppyHeaderSize) (\<lambda>hb. let hdr = decode_fheader hb in
     case check_fheader hdr of
       Some err \<Rightarrow> Ret (Inl err)
     | None \<Rightarrow> obind (slice_at img FloppyHeaderSize (length img)) (\<lambda>body.
         obind (slice_at img 0 32) (\<lambda>prefix32.
         case check_seal hmac isStrict hmacKey hdr prefix32 body of
           Some err \<Rightarrow> Ret (Inl err)
         | None \<Rightarrow>
           (if crc32_update 0 body \<noteq> CRC32C hdr then Ret (Inl FloppyBadCRC)
            else if length body < min_body hdr then Ret (Inl ErrFloppyTruncated)
            else obind (read_keywords img (unat (KwCount hdr)) FloppyHeaderSize []) (\<lambda>r. case r of
              None \<Rightarrow> Ret (Inl ErrFloppyTruncated)
            | Some (kws, offset) \<Rightarrow> read_entries quantize img hdr kws offset)))))"

text \<open>A file system is a partial map from paths to contents.\<close>

definition LoadFloppyMmap ::
    "(bytes \<Rightarrow> bytes \<Rightarrow> bytes) \<Rightarrow> bool \<Rightarrow> (u32 list \<Rightarrow> 'c) \<Rightarrow> (string \<rightharpoonup> bytes) \<Rightarrow> string \<Rightarrow> bytes
      \<Rightarrow> (floppy_error + 'c FloppyDisk) outcome" where
  "LoadFloppyMmap hmac isStrict quantize fs path hmacKey = (case fs path of
     None \<Rightarrow> Ret (Inl FloppyOpen)
   | Some img \<Rightarrow> (if length img < FloppyHeaderSize then Ret (Inl FloppyShort)
                   else decodeFloppy hmac isStrict quantize img hmacKey))"

section \<open>The writer\<close>

definition floppy_body :: "bytes list \<Rightarrow> CodebookEntry list \<Rightarrow> DecisionClass list \<Rightarrow> FloppyPrototype list \<Rightarrow> bytes" where
  "floppy_body kws es hcs ps = concat (map encode_keyword kws) @ concat (map encodeCodebookEntry es)
     @ concat (map encode_class hcs) @ concat (map encode_proto ps)"

definition floppy_header :: "u16 \<Rightarrow> bytes list \<Rightarrow> CodebookEntry list \<Rightarrow> DecisionClass list \<Rightarrow> FloppyPrototype list \<Rightarrow> byte \<Rightarrow> FloppyHeader" where
  "floppy_header familyID kws es hcs ps blockRadius =
     \<lparr>fMagic = FloppyMagic, fVersion = FloppyVersion, FamilyID = familyID, fVectorDim = 512, fFlags = 0, fBlockRadius = blockRadius,
      fEntryCount = word_of_nat (length es), KwCount = word_of_nat (length kws), CRC32C = crc32_update 0 (floppy_body kws es hcs ps),
      HeadClasses = word_of_nat (length hcs), ProtoCount = word_of_nat (length ps), Seal = replicate 32 0\<rparr>"

definition seal_header :: "(bytes \<Rightarrow> bytes \<Rightarrow> bytes) \<Rightarrow> bytes \<Rightarrow> bytes \<Rightarrow> FloppyHeader \<Rightarrow> FloppyHeader" where
  "seal_header hmac hmacKey body hdr =
     (if 0 < length hmacKey then
        (let hdr = hdr\<lparr>fFlags := fFlags hdr OR FloppyFlagSealed\<rparr>;
             mac = hmac hmacKey (take 32 (encode_fheader hdr) @ body) in
         hdr\<lparr>Seal := take 32 mac @ drop (length mac) (Seal hdr)\<rparr>)
      else hdr)"

text \<open>The temporary file is renamed once it is complete; \<open>commits\<close> says whether every file operation succeeds.\<close>

definition SaveFloppyFile ::
    "(bytes \<Rightarrow> bytes \<Rightarrow> bytes) \<Rightarrow> (string \<rightharpoonup> bytes) \<Rightarrow> bool \<Rightarrow> string \<Rightarrow> u16 \<Rightarrow> bytes list \<Rightarrow> CodebookEntry list
      \<Rightarrow> DecisionClass list \<Rightarrow> FloppyPrototype list \<Rightarrow> byte \<Rightarrow> bytes \<Rightarrow> (string \<rightharpoonup> bytes) \<times> floppy_error option" where
  "SaveFloppyFile hmac fs commits path familyID kws es hcs ps blockRadius hmacKey =
     (if 65535 < length ps then (fs, Some FloppyProtoCount)
      else if list_ex (\<lambda>p. 1 < pClass p) ps then (fs, Some FloppyProtoClass)
      else if \<not> commits then (fs, Some FloppyWrite)
      else let body = floppy_body kws es hcs ps;
               hdr = seal_header hmac hmacKey body (floppy_header familyID kws es hcs ps blockRadius) in
        (fs(path \<mapsto> encode_fheader hdr @ body), None))"

section \<open>Searches\<close>

definition fold_byte :: "byte \<Rightarrow> byte" where
  "fold_byte c = (if 0x41 \<le> c \<and> c \<le> 0x5A then c + 0x20 else c)"

fun fold_match :: "bytes \<Rightarrow> bytes \<Rightarrow> bool" where
  "fold_match h [] = True"
| "fold_match [] (c2 # n) = False"
| "fold_match (c1 # h) (c2 # n) = (if c1 \<noteq> c2 \<and> fold_byte c1 \<noteq> fold_byte c2 then False else fold_match h n)"

definition containsSubsliceFold :: "bytes \<Rightarrow> bytes \<Rightarrow> bool" where
  "containsSubsliceFold haystack needle \<longleftrightarrow>
     (if needle = [] then True
      else if length haystack < length needle then False
      else list_ex (\<lambda>i. fold_match (drop i haystack) needle) [0..<length haystack - length needle + 1])"

definition MatchKeyword :: "'c FloppyDisk option \<Rightarrow> bytes \<Rightarrow> bytes \<times> bool" where
  "MatchKeyword d payload = (case d of
     None \<Rightarrow> ([], False)
   | Some d \<Rightarrow> (if payload = [] then ([], False)
       else case find (\<lambda>kw. 0 < length kw \<and> length kw \<le> length payload \<and> containsSubsliceFold payload kw) (Keywords d) of
         None \<Rightarrow> ([], False)
       | Some kw \<Rightarrow> (kw, True)))"

definition centroid_step :: "u64 list \<Rightarrow> int \<Rightarrow> int \<times> CodebookEntry \<times> bool \<Rightarrow> CodebookEntry \<Rightarrow> int \<times> CodebookEntry \<times> bool" where
  "centroid_step query maxHamming st e = (case st of (best, m, found) \<Rightarrow>
     let dist = codebookHammingBounded query e maxHamming in
     if dist \<le> maxHamming \<and> dist < best then (dist, e, True) else (best, m, found))"

definition SearchCentroid :: "'c FloppyDisk option \<Rightarrow> u64 list option \<Rightarrow> int \<Rightarrow> CodebookEntry \<times> int \<times> bool" where
  "SearchCentroid d query maxHamming = (case (d, query) of
     (Some d, Some q) \<Rightarrow>
       (if dEntries d = [] then (zero_entry, 0, False)
        else case foldl (centroid_step q maxHamming) (go_int (maxHamming + 1), zero_entry, False) (dEntries d) of
          (best, m, found) \<Rightarrow> (m, best, found))
   | _ \<Rightarrow> (zero_entry, 0, False))"

definition BlockRadius :: "'c FloppyDisk option \<Rightarrow> int" where
  "BlockRadius d = (case d of
     None \<Rightarrow> int (unat FloppyDefaultBlockRadius)
   | Some d \<Rightarrow> (if fBlockRadius (dHeader d) = 0 then int (unat FloppyDefaultBlockRadius) else int (unat (fBlockRadius (dHeader d)))))"

definition nearThreatWithin :: "'c FloppyDisk option \<Rightarrow> u64 list option \<Rightarrow> int \<Rightarrow> bool" where
  "nearThreatWithin d query radius = (if d = None then False
     else case SearchCentroid d query radius of (_, dist, found) \<Rightarrow> found \<and> dist \<le> radius)"

definition nearThreat :: "'c FloppyDisk option \<Rightarrow> u64 list option \<Rightarrow> bool" where
  "nearThreat d query = nearThreatWithin d query (BlockRadius d)"

section \<open>The slot\<close>

record 'c FloppySlot =
  slot_current :: "'c FloppyDisk option"
  slot_epoch :: u64

definition NewFloppySlot :: "'c FloppySlot" where
  "NewFloppySlot = \<lparr>slot_current = None, slot_epoch = 0\<rparr>"

definition Slot_Current :: "'c FloppySlot option \<Rightarrow> 'c FloppyDisk option" where
  "Slot_Current s = (case s of None \<Rightarrow> None | Some s \<Rightarrow> slot_current s)"

definition Slot_Swap :: "'c FloppySlot option \<Rightarrow> 'c FloppyDisk option \<Rightarrow> 'c FloppySlot option \<times> 'c FloppyDisk option" where
  "Slot_Swap s newDisk = (case s of
     None \<Rightarrow> (None, None)
   | Some s \<Rightarrow> (Some (s\<lparr>slot_epoch := slot_epoch s + 1, slot_current := newDisk\<rparr>), slot_current s))"

definition Slot_Epoch :: "'c FloppySlot option \<Rightarrow> u64" where
  "Slot_Epoch s = (case s of None \<Rightarrow> 0 | Some s \<Rightarrow> slot_epoch s)"

section \<open>Reading sections\<close>

fun decode_all :: "(bytes \<Rightarrow> 'e + 'a) \<Rightarrow> bytes list \<Rightarrow> 'e + 'a list" where
  "decode_all dec [] = Inr []"
| "decode_all dec (r # rs) = (case dec r of Inl err \<Rightarrow> Inl err
     | Inr x \<Rightarrow> (case decode_all dec rs of Inl err \<Rightarrow> Inl err | Inr xs \<Rightarrow> Inr (x # xs)))"

lemma decode_all_Inr [simp]: "decode_all (\<lambda>b. Inr (dec b)) rs = Inr (map dec rs)"
  by (induction rs) simp_all

lemma decode_all_sound: "decode_all dec rs = Inr xs \<Longrightarrow> list_all2 (\<lambda>x r. dec r = Inr x) xs rs"
  by (induction rs arbitrary: xs) (auto split: sum.split_asm)

lemma decode_all_complete: "list_all2 (\<lambda>x r. dec r = Inr x) xs rs \<Longrightarrow> decode_all dec rs = Inr xs"
  by (induction rule: list_all2_induct) simp_all

lemma length_concat_same: "\<forall>r \<in> set rs. length r = sz \<Longrightarrow> length (concat rs) = length rs * sz"
  by (induction rs) simp_all

lemma chunk_at:
  assumes "\<forall>r \<in> set rs. length r = sz" "i < length rs"
  shows "slice_at (pre @ concat rs @ rest) (length pre + i * sz) (length pre + (i + 1) * sz) = Ret (rs ! i)"
proof -
  have split: "concat rs = concat (take i rs) @ rs ! i @ concat (drop (Suc i) rs)"
    using arg_cong[OF id_take_nth_drop[OF assms(2)], of concat] by simp
  have t: "length (concat (take i rs)) = i * sz" using assms length_concat_same[of "take i rs" sz] by (auto dest: in_set_takeD)
  have r: "length (rs ! i) = sz" using assms by simp
  show ?thesis unfolding split slice_at_def subslice_def using t r by simp
qed

lemma read_section_app:
  assumes "\<forall>r \<in> set rs. length r = sz"
  shows "i \<le> length rs \<Longrightarrow> read_section dec (pre @ concat rs @ rest) sz (length pre) [i..<length rs] = Ret (decode_all dec (drop i rs))"
proof (induction "length rs - i" arbitrary: i)
  case 0
  then show ?case by simp
next
  case (Suc k)
  then have i: "i < length rs" by simp
  have up: "[i..<length rs] = i # [Suc i..<length rs]" "drop i rs = rs ! i # drop (Suc i) rs"
    using i by (simp_all add: upt_conv_Cons Cons_nth_drop_Suc)
  have IH: "read_section dec (pre @ concat rs @ rest) sz (length pre) [Suc i..<length rs] = Ret (decode_all dec (drop (Suc i) rs))"
    using Suc.hyps i by simp
  show ?case unfolding up read_section.simps chunk_at[OF assms i] obind.simps
    by (cases "dec (rs ! i)"; cases "decode_all dec (drop (Suc i) rs)") (simp_all add: IH del: upt_Suc)
qed

lemma chunks_exist:
  "n * sz \<le> length s \<Longrightarrow> \<exists>rs rest. s = concat rs @ rest \<and> length rs = n \<and> (\<forall>r \<in> set rs. length r = (sz :: nat))"
proof (induction n arbitrary: s)
  case 0
  then show ?case by (intro exI[of _ "[]"] exI[of _ s]) simp
next
  case (Suc n)
  then have "n * sz \<le> length (drop sz s)" by simp
  then obtain rs rest where rs: "drop sz s = concat rs @ rest" "length rs = n" "\<forall>r \<in> set rs. length r = sz" using Suc.IH by blast
  have "s = concat (take sz s # rs) @ rest" using rs(1) append_take_drop_id[of sz s] by simp
  then show ?case using rs Suc.prems by (intro exI[of _ "take sz s # rs"] exI[of _ rest]) auto
qed

definition short_keyword :: "bytes \<Rightarrow> bool" where
  "short_keyword kw \<longleftrightarrow> length kw < 2 ^ 16"

lemma length_encode_keyword [simp]: "length (encode_keyword kw) = 2 + length kw"
  by (simp add: encode_keyword_def)

lemma read_keywords_app:
  "list_all short_keyword kws \<Longrightarrow> read_keywords (pre @ concat (map encode_keyword kws) @ rest) (length kws) (length pre) acc
     = Ret (Some (acc @ kws, length pre + length (concat (map encode_keyword kws))))"
proof (induction kws arbitrary: pre acc)
  case (Cons kw kws)
  define tail where "tail = concat (map encode_keyword kws) @ rest"
  define img where "img = pre @ encode_keyword kw @ tail"
  have kw: "length kw < 2 ^ 16" using Cons.prems by (simp add: short_keyword_def)
  then have n: "unat (word_of_nat (length kw) :: u16) = length kw" by (simp add: unat_of_nat)
  have s1: "slice_at img (length pre) (length pre + 2) = Ret (le_put 2 (word_of_nat (length kw) :: u16))"
    by (simp add: img_def encode_keyword_def slice_at_def subslice_def)
  have s2: "slice_at img (length pre + 2) (length pre + 2 + length kw) = Ret kw"
    by (simp add: img_def encode_keyword_def slice_at_def subslice_def)
  have g: "\<not> length img < length pre + 2" "\<not> length img < length pre + 2 + length kw" by (simp_all add: img_def encode_keyword_def)
  have next_img: "img = (pre @ encode_keyword kw) @ concat (map encode_keyword kws) @ rest" by (simp add: img_def tail_def)
  have IH: "read_keywords img (length kws) (length pre + 2 + length kw) (acc @ [kw])
      = Ret (Some ((acc @ [kw]) @ kws, length pre + 2 + length kw + length (concat (map encode_keyword kws))))"
    using Cons.IH[of "pre @ encode_keyword kw" "acc @ [kw]"] Cons.prems unfolding next_img by (simp add: add.assoc)
  have "read_keywords img (length (kw # kws)) (length pre) acc = Ret (Some ((acc @ [kw]) @ kws, length pre + 2 + length kw + length (concat (map encode_keyword kws))))"
    using g s1 s2 IH by (simp add: codec_simps n Let_def)
  then show ?case by (simp add: img_def tail_def add.assoc)
qed simp

lemma read_keywords_sound:
  "off \<le> length img \<Longrightarrow> \<exists>r. read_keywords img n off acc = Ret r \<and> (\<forall>acc' off'. r = Some (acc', off') \<longrightarrow>
     (\<exists>kws. acc' = acc @ kws \<and> length kws = n \<and> list_all short_keyword kws \<and> off' \<le> length img
        \<and> take off' img = take off img @ concat (map encode_keyword kws)))"
proof (induction n arbitrary: off acc)
  case (Suc n)
  show ?case
  proof (cases "length img < off + 2")
    case True
    then show ?thesis by simp
  next
    case False
    define lb where "lb = subslice off (off + 2) img"
    define k where "k = unat (le_get lb :: u16)"
    have s1: "slice_at img off (off + 2) = Ret lb" using False by (simp add: lb_def)
    have lb: "length lb = 2" using False by (simp add: lb_def)
    have kb: "k < 2 ^ 16" using unat_bound[of "le_get lb :: u16"] by (simp add: k_def)
    show ?thesis
    proof (cases "length img < off + 2 + k")
      case True
      then show ?thesis using False s1 by (simp add: k_def Let_def)
    next
      case fits: False
      define kw where "kw = subslice (off + 2) (off + 2 + k) img"
      have s2: "slice_at img (off + 2) (off + 2 + k) = Ret kw" using fits by (simp add: kw_def)
      have kw: "length kw = k" using fits by (simp add: kw_def)
      have "word_of_nat k = (le_get lb :: u16)" by (simp add: k_def)
      then have enc: "encode_keyword kw = lb @ kw" using le_put_get[of lb, where ?'a = 16] lb kw by (simp add: encode_keyword_def)
      have tk: "take (off + 2 + k) img = take off img @ encode_keyword kw"
        unfolding enc unfolding lb_def kw_def subslice_def using take_add[of "off + 2" k img] take_add[of off 2 img] by simp
      have step: "read_keywords img (Suc n) off acc = read_keywords img n (off + 2 + k) (acc @ [kw])"
        using False fits s1 s2 by (simp add: k_def Let_def)
      from Suc.IH[of "off + 2 + k" "acc @ [kw]"] fits obtain r where
        r: "read_keywords img n (off + 2 + k) (acc @ [kw]) = Ret r" and
        kws: "\<forall>acc' off'. r = Some (acc', off') \<longrightarrow> (\<exists>kws. acc' = (acc @ [kw]) @ kws \<and> length kws = n \<and> list_all short_keyword kws
          \<and> off' \<le> length img \<and> take off' img = take (off + 2 + k) img @ concat (map encode_keyword kws))"
        by auto
      have sk: "short_keyword kw" using kw kb by (simp add: short_keyword_def)
      show ?thesis
      proof (intro exI[of _ r] conjI allI impI)
        show "read_keywords img (Suc n) off acc = Ret r" using step r by simp
        fix acc' off' assume "r = Some (acc', off')"
        then obtain ks where "acc' = (acc @ [kw]) @ ks" "length ks = n" "list_all short_keyword ks" "off' \<le> length img"
          "take off' img = take (off + 2 + k) img @ concat (map encode_keyword ks)" using kws by blast
        then show "\<exists>ks. acc' = acc @ ks \<and> length ks = Suc n \<and> list_all short_keyword ks \<and> off' \<le> length img
            \<and> take off' img = take off img @ concat (map encode_keyword ks)"
          using sk tk by (intro exI[of _ "kw # ks"]) simp
      qed
    qed
  qed
qed simp

section \<open>The records are codecs\<close>

definition fheader_wf :: "FloppyHeader \<Rightarrow> bool" where
  "fheader_wf h \<longleftrightarrow> length (fMagic h) = 8 \<and> length (Seal h) = 32"

definition class_wf :: "DecisionClass \<Rightarrow> bool" where
  "class_wf c \<longleftrightarrow> length (Weights c) = EmbeddingDim"

lemma subslice_byte: "Suc i \<le> length xs \<Longrightarrow> subslice i (i + 1) xs = [xs ! i]"
  by (simp add: subslice_def take_Suc_conv_app_nth)

interpretation fheader_codec: fixed_codec encode_fheader decode_fheader 64 fheader_wf
proof unfold_locales
  fix h assume h: "fheader_wf h"
  then show "length (encode_fheader h) = 64" by (simp add: encode_fheader_def fheader_wf_def)
  show "decode_fheader (encode_fheader h) = h"
    using h by (simp add: encode_fheader_def decode_fheader_def fheader_wf_def subslice_def nth_append codec_simps)
next
  fix bs :: bytes assume bs: "length bs = 64"
  then show "fheader_wf (decode_fheader bs)" by (simp add: decode_fheader_def fheader_wf_def)
  have w2: "le_put 2 (le_get (subslice i (i + 2) bs) :: u16) = subslice i (i + 2) bs" if "i + 2 \<le> 64" for i
    using subslice_put_get[OF bs that, where ?'a = 16] by simp
  have w4: "le_put 4 (le_get (subslice i (i + 4) bs) :: u32) = subslice i (i + 4) bs" if "i + 4 \<le> 64" for i
    using subslice_put_get[OF bs that, where ?'a = 32] by simp
  have b: "[bs ! 14, bs ! 15] = subslice 14 16 bs"
    using subslice_byte[of 14 bs] subslice_byte[of 15 bs] subslice_glue[of 14 15 16 bs] bs by simp
  show "encode_fheader (decode_fheader bs) = bs"
    using bs w2[of 8] w2[of 10] w2[of 12] w4[of 16] w4[of 20] w4[of 24] w2[of 28] w2[of 30] b
    by (simp add: encode_fheader_def decode_fheader_def)
      (simp only: append_Cons[symmetric] append_Nil[symmetric] append_assoc b, simp add: subslice_glue subslice_all)
qed

interpretation class_codec: fixed_codec encode_class decode_class 520 class_wf
proof unfold_locales
  fix c assume c: "class_wf c"
  then show "length (encode_class c) = 520" by (simp add: encode_class_def class_wf_def)
  show "decode_class (encode_class c) = c"
    using c by (simp add: encode_class_def decode_class_def class_wf_def subslice_def codec_simps)
next
  fix bs :: bytes assume bs: "length bs = 520"
  then show "class_wf (decode_class bs)" by (simp add: decode_class_def class_wf_def)
  have w4: "le_put 4 (le_get (subslice i (i + 4) bs) :: u32) = subslice i (i + 4) bs" if "i + 4 \<le> 520" for i
    using subslice_put_get[OF bs that, where ?'a = 32] by simp
  show "encode_class (decode_class bs) = bs"
    using bs w4[of 512] w4[of 516] by (simp add: encode_class_def decode_class_def subslice_glue subslice_all)
qed

text \<open>A prototype record, whose two reserved bytes the loader ignores.\<close>

definition proto_wf :: "FloppyPrototype \<Rightarrow> bool" where
  "proto_wf p \<longleftrightarrow> pClass p \<le> 1 \<and> length (pVector p) = EmbeddingDim \<and> list_all finite32 (pVector p)"

definition proto_record :: "FloppyPrototype \<Rightarrow> bytes \<Rightarrow> bool" where
  "proto_record p r \<longleftrightarrow> (\<exists>reserved. length reserved = 2 \<and> r = le_put 2 (pClass p) @ reserved @ concat (map (le_put 4) (pVector p)))"

lemma vector_at:
  assumes "i < length v" "length pre = 4"
  shows "le_get (subslice (4 + i * 4) (4 + i * 4 + 4) (pre @ concat (map (le_put 4) v))) = (v ! i :: u32)"
proof -
  have "slice_at (pre @ concat (map (le_put 4) v) @ []) (length pre + i * 4) (length pre + (i + 1) * 4) = Ret (map (le_put 4) v ! i)"
    by (rule chunk_at) (use assms in auto)
  then have "subslice (4 + i * 4) (4 + i * 4 + 4) (pre @ concat (map (le_put 4) v)) = le_put 4 (v ! i)"
    using assms by (simp add: slice_at_def add.commute split: if_splits)
  then show ?thesis by (simp add: codec_simps)
qed

lemma decode_proto_record:
  assumes "proto_wf p" "proto_record p r"
  shows "decode_proto r = Inr p"
proof -
  obtain res where r: "length res = 2" "r = (le_put 2 (pClass p) @ res) @ concat (map (le_put 4) (pVector p))"
    using assms(2) by (auto simp: proto_record_def)
  have "map (\<lambda>d. le_get (subslice (4 + d * 4) (4 + d * 4 + 4) r)) [0..<EmbeddingDim] = pVector p"
    by (rule nth_equalityI) (use assms(1) r vector_at[of _ "pVector p" "le_put 2 (pClass p) @ res"] in \<open>simp_all add: proto_wf_def\<close>)
  moreover have "le_get (subslice 0 2 r) = pClass p" using r by (simp add: subslice_def codec_simps)
  ultimately show ?thesis using assms(1) by (simp add: decode_proto_def proto_wf_def Let_def not_less)
qed

lemma words_of_bytes:
  assumes "length b = n * 4"
  shows "concat (map (\<lambda>d. le_put 4 (le_get (subslice (d * 4) (d * 4 + 4) b) :: u32)) [0..<n]) = b"
  using assms
proof (induction n arbitrary: b)
  case (Suc n)
  define b' where "b' = take (n * 4) b"
  have l: "length b' = n * 4" using Suc.prems by (simp add: b'_def)
  have same: "subslice (d * 4) (d * 4 + 4) b' = subslice (d * 4) (d * 4 + 4) b" if "d < n" for d
    using that by (auto simp: b'_def subslice_def drop_take min_def)
  have last: "le_put 4 (le_get (subslice (n * 4) (n * 4 + 4) b) :: u32) = drop (n * 4) b"
    using subslice_put_get[of b "Suc n * 4" "n * 4 + 4" "n * 4", where ?'a = 32] Suc.prems by (simp add: subslice_def)
  have "concat (map (\<lambda>d. le_put 4 (le_get (subslice (d * 4) (d * 4 + 4) b) :: u32)) [0..<n])
      = concat (map (\<lambda>d. le_put 4 (le_get (subslice (d * 4) (d * 4 + 4) b') :: u32)) [0..<n])"
    by (intro arg_cong[of _ _ concat] map_cong) (simp_all add: same)
  also have "\<dots> = b'" by (rule Suc.IH[OF l])
  finally show ?case using last by (simp add: b'_def)
qed simp

lemma decode_proto_sound:
  assumes "decode_proto r = Inr p" "length r = floppyProtoRecSize"
  shows "proto_wf p" "proto_record p r"
proof -
  define v where "v = map (\<lambda>d. le_get (subslice (4 + d * 4) (4 + d * 4 + 4) r) :: u32) [0..<EmbeddingDim]"
  have p: "p = \<lparr>pClass = le_get (subslice 0 2 r), pVector = v\<rparr>" "pClass p \<le> 1" "list_all finite32 v"
    using assms(1) unfolding decode_proto_def v_def[symmetric] by (auto simp: Let_def not_less split: if_splits)
  then show "proto_wf p" by (simp add: proto_wf_def v_def)
  have b: "length (drop 4 r) = EmbeddingDim * 4" using assms(2) by simp
  have "subslice (d * 4) (d * 4 + 4) (drop 4 r) = subslice (4 + d * 4) (4 + d * 4 + 4) r" for d
    by (simp add: subslice_def add.commute)
  then have v: "concat (map (le_put 4) v) = drop 4 r" using words_of_bytes[OF b] by (simp add: v_def comp_def)
  have c: "le_put 2 (pClass p) = subslice 0 2 r" using subslice_put_get[OF assms(2), of 2 0, where ?'a = 16] p(1) by simp
  have "r = subslice 0 2 r @ subslice 2 4 r @ drop 4 r"
    using subslice_glue[of 0 2 4 r] by (simp add: subslice_def) (metis append_assoc append_take_drop_id)
  then have "r = le_put 2 (pClass p) @ subslice 2 4 r @ concat (map (le_put 4) (pVector p))" using v c p(1) by simp
  moreover have "length (subslice 2 4 r) = 2" using assms(2) by simp
  ultimately show "proto_record p r" unfolding proto_record_def by blast
qed

section \<open>The probe of the prototypes\<close>

lemma add_prototypes_ok:
  "probe_wf pr \<Longrightarrow> classes pr = 2 \<Longrightarrow> list_all proto_wf ps \<Longrightarrow> \<exists>pr'. add_prototypes quantize ps pr = Inr pr'"
proof (induction ps arbitrary: pr)
  case (Cons p ps)
  have "unat (pClass p) \<le> 1" using Cons.prems(3) by (simp add: proto_wf_def word_le_nat_alt)
  then have "int (unat (pClass p)) < 2" by linarith
  then have ok: "\<exists>pr'. AddPrototype quantize (Some pr) (int (unat (pClass p))) (pVector p) = Inr pr'"
    using Cons.prems by (auto simp: AddPrototype_def proto_wf_def)
  then obtain pr' where pr': "AddPrototype quantize (Some pr) (int (unat (pClass p))) (pVector p) = Inr pr'" by blast
  show ?case using Cons.IH[of pr'] AddPrototype_wf[OF Cons.prems(1) pr'] Cons.prems pr' by simp
qed simp

lemma buildFloppyProbe_ok:
  assumes "list_all proto_wf ps"
  shows "\<exists>pr. buildFloppyProbe quantize ps = Ret (Inr pr)"
proof -
  have n: "\<not> list_ex (\<lambda>p. 1 < pClass p) ps" using assms by (auto simp: list_ex_iff list_all_iff proto_wf_def not_less)
  obtain pr where pr: "(NewRabitqProbe 2 :: probe_error + 'a RabitqProbe) = Inr pr" by (simp add: NewRabitqProbe_def)
  note wf = NewRabitqProbe_wf[OF pr]
  obtain pr' where "add_prototypes quantize ps pr = Inr pr'" using add_prototypes_ok[of pr ps quantize] wf assms by blast
  then show ?thesis using n pr by (auto simp: buildFloppyProbe_def)
qed

section \<open>The sections of a body\<close>

text \<open>The body of an image that holds the contents of a disk, and nothing else.\<close>

definition body_holds :: "bytes \<Rightarrow> bytes list \<Rightarrow> CodebookEntry list \<Rightarrow> DecisionClass list \<Rightarrow> FloppyPrototype list \<Rightarrow> bool" where
  "body_holds body kws es hcs ps \<longleftrightarrow> list_all short_keyword kws \<and> list_all entry_wf es \<and> list_all class_wf hcs \<and> list_all proto_wf ps
     \<and> (\<exists>recs. list_all2 proto_record ps recs \<and> body = concat (map encode_keyword kws) @ concat (map encodeCodebookEntry es)
          @ concat (map encode_class hcs) @ concat recs)"

definition counts_hold :: "FloppyHeader \<Rightarrow> bytes list \<Rightarrow> CodebookEntry list \<Rightarrow> DecisionClass list \<Rightarrow> FloppyPrototype list \<Rightarrow> bool" where
  "counts_hold hdr kws es hcs ps \<longleftrightarrow> unat (KwCount hdr) = length kws \<and> unat (fEntryCount hdr) = length es
     \<and> unat (HeadClasses hdr) = length hcs \<and> unat (ProtoCount hdr) = length ps"

lemma proto_record_size: "proto_wf p \<Longrightarrow> proto_record p r \<Longrightarrow> length r = floppyProtoRecSize"
proof -
  assume "proto_wf p" "proto_record p r"
  moreover have "length (concat (map (le_put 4) (pVector p))) = length (pVector p) * 4" by (simp add: length_concat comp_def sum_list_triv)
  ultimately show ?thesis by (auto simp: proto_record_def proto_wf_def)
qed

lemma proto_records_size:
  "list_all proto_wf ps \<Longrightarrow> list_all2 proto_record ps recs \<Longrightarrow> \<forall>r \<in> set recs. length r = floppyProtoRecSize"
  by (auto simp: list_all2_conv_all_nth in_set_conv_nth list_all_length) (metis proto_record_size)

text \<open>Reading back what the writer puts behind a prefix.\<close>

lemma read_prototypes_app:
  assumes "list_all proto_wf ps" "list_all2 proto_record ps recs" "unat (ProtoCount hdr) = length ps"
  shows "\<exists>pr. read_prototypes quantize (pre @ concat recs) hdr kws es hcs (length pre)
     = Ret (Inr \<lparr>dHeader = hdr, Keywords = kws, dEntries = es, dHead = hcs, Prototypes = ps, dProbe = pr\<rparr>)"
proof -
  have sz: "\<forall>r \<in> set recs. length r = floppyProtoRecSize" by (rule proto_records_size[OF assms(1,2)])
  have n: "length ps = length recs" using assms(2) by (rule list_all2_lengthD)
  have "list_all2 (\<lambda>x r. decode_proto r = Inr x) ps recs"
    using assms(1,2) by (auto simp: list_all2_conv_all_nth list_all_length intro: decode_proto_record)
  then have "decode_all decode_proto recs = Inr ps" by (rule decode_all_complete)
  then have "read_section decode_proto (pre @ concat recs) floppyProtoRecSize (length pre) [0..<length recs] = Ret (Inr ps)"
    using read_section_app[OF sz, of 0 decode_proto pre "[]"] by simp
  moreover obtain pr where "buildFloppyProbe quantize ps = Ret (Inr pr)" using buildFloppyProbe_ok[OF assms(1)] by blast
  ultimately show ?thesis using assms(3) n length_concat_same[OF sz] by (simp add: read_prototypes_def)
qed

lemma read_head_app:
  assumes "list_all class_wf hcs" "list_all proto_wf ps" "list_all2 proto_record ps recs"
    "unat (HeadClasses hdr) = length hcs" "unat (ProtoCount hdr) = length ps"
  shows "\<exists>pr. read_head quantize (pre @ concat (map encode_class hcs) @ concat recs) hdr kws es (length pre)
     = Ret (Inr \<lparr>dHeader = hdr, Keywords = kws, dEntries = es, dHead = hcs, Prototypes = ps, dProbe = pr\<rparr>)"
proof -
  have sz: "\<forall>r \<in> set (map encode_class hcs). length r = 520" using assms(1) class_codec.enc_size by (auto simp: list_all_iff)
  have "map decode_class (map encode_class hcs) = hcs" using assms(1) class_codec.dec_enc by (auto simp: list_all_iff intro: map_idI)
  then have "read_section (\<lambda>b. Inr (decode_class b)) (pre @ concat (map encode_class hcs) @ concat recs) 520 (length pre) [0..<length hcs] = Ret (Inr hcs)"
    using read_section_app[OF sz, of 0 "\<lambda>b. Inr (decode_class b)" pre "concat recs"] by simp
  then show ?thesis
    using read_prototypes_app[OF assms(2,3,5), of quantize "pre @ concat (map encode_class hcs)" kws es hcs] length_concat_same[OF sz] assms(4)
    by (simp add: read_head_def)
qed

lemma read_entries_app:
  assumes "list_all entry_wf es" "list_all class_wf hcs" "list_all proto_wf ps" "list_all2 proto_record ps recs"
    "unat (fEntryCount hdr) = length es" "unat (HeadClasses hdr) = length hcs" "unat (ProtoCount hdr) = length ps"
  shows "\<exists>pr. read_entries quantize (pre @ concat (map encodeCodebookEntry es) @ concat (map encode_class hcs) @ concat recs) hdr kws (length pre)
     = Ret (Inr \<lparr>dHeader = hdr, Keywords = kws, dEntries = es, dHead = hcs, Prototypes = ps, dProbe = pr\<rparr>)"
proof -
  have sz: "\<forall>r \<in> set (map encodeCodebookEntry es). length r = 72" using assms(1) entry_codec.enc_size by (auto simp: list_all_iff)
  have "map decodeCodebookEntry (map encodeCodebookEntry es) = es" using assms(1) entry_codec.dec_enc by (auto simp: list_all_iff intro: map_idI)
  then have "read_section (\<lambda>b. Inr (decodeCodebookEntry b)) (pre @ concat (map encodeCodebookEntry es) @ concat (map encode_class hcs) @ concat recs)
      72 (length pre) [0..<length es] = Ret (Inr es)"
    using read_section_app[OF sz, of 0 "\<lambda>b. Inr (decodeCodebookEntry b)" pre "concat (map encode_class hcs) @ concat recs"] by simp
  then show ?thesis
    using read_head_app[OF assms(2,3,4,6,7), of quantize "pre @ concat (map encodeCodebookEntry es)" kws es] length_concat_same[OF sz] assms(5)
    by (simp add: read_entries_def)
qed

text \<open>Every section that is read is one the writer can write.\<close>

lemma read_prototypes_sound:
  assumes "img = pre @ rest" "length pre = off"
  shows "\<exists>r. read_prototypes quantize img hdr kws es hcs off = Ret r \<and> (\<forall>d. r = Inr d \<longrightarrow> (\<exists>ps recs. list_all proto_wf ps
     \<and> list_all2 proto_record ps recs \<and> rest = concat recs \<and> unat (ProtoCount hdr) = length ps
     \<and> dHeader d = hdr \<and> Keywords d = kws \<and> dEntries d = es \<and> dHead d = hcs \<and> Prototypes d = ps))"
proof (cases "length img < off + unat (ProtoCount hdr) * floppyProtoRecSize")
  case True
  then show ?thesis by (simp add: read_prototypes_def)
next
  case False
  then obtain recs tail where rs: "rest = concat recs @ tail" "length recs = unat (ProtoCount hdr)" "\<forall>r \<in> set recs. length r = floppyProtoRecSize"
    using chunks_exist[of "unat (ProtoCount hdr)" floppyProtoRecSize rest] assms by auto
  have sec: "read_section decode_proto img floppyProtoRecSize off [0..<unat (ProtoCount hdr)] = Ret (decode_all decode_proto recs)"
    using read_section_app[OF rs(3), of 0 decode_proto pre tail] rs assms by simp
  show ?thesis
  proof (cases "decode_all decode_proto recs")
    case (Inl err)
    then show ?thesis using False sec by (simp add: read_prototypes_def)
  next
    case (Inr ps)
    then have l2: "list_all2 (\<lambda>x r. decode_proto r = Inr x) ps recs" by (rule decode_all_sound)
    then have wf: "list_all proto_wf ps" "list_all2 proto_record ps recs"
      using rs(3) decode_proto_sound by (auto simp: list_all2_conv_all_nth list_all_length)
    obtain pr where pr: "buildFloppyProbe quantize ps = Ret (Inr pr)" using buildFloppyProbe_ok[OF wf(1)] by blast
    have "off + unat (ProtoCount hdr) * floppyProtoRecSize = length img \<longleftrightarrow> tail = []"
      using assms rs length_concat_same[OF rs(3)] by simp
    then show ?thesis using False sec Inr pr wf rs list_all2_lengthD[OF l2] by (auto simp: read_prototypes_def) metis
  qed
qed

lemma read_head_sound:
  assumes "img = pre @ rest" "length pre = off"
  shows "\<exists>r. read_head quantize img hdr kws es off = Ret r \<and> (\<forall>d. r = Inr d \<longrightarrow> (\<exists>hcs ps recs. list_all class_wf hcs \<and> list_all proto_wf ps
     \<and> list_all2 proto_record ps recs \<and> rest = concat (map encode_class hcs) @ concat recs
     \<and> unat (HeadClasses hdr) = length hcs \<and> unat (ProtoCount hdr) = length ps
     \<and> dHeader d = hdr \<and> Keywords d = kws \<and> dEntries d = es \<and> dHead d = hcs \<and> Prototypes d = ps))"
proof (cases "length img < off + unat (HeadClasses hdr) * classRecSize")
  case True
  then show ?thesis by (simp add: read_head_def)
next
  case False
  then obtain rs tail where rs: "rest = concat rs @ tail" "length rs = unat (HeadClasses hdr)" "\<forall>r \<in> set rs. length r = 520"
    using chunks_exist[of "unat (HeadClasses hdr)" 520 rest] assms by auto
  define hcs where "hcs = map decode_class rs"
  have h: "map encode_class hcs = rs" "list_all class_wf hcs"
    using rs(3) class_codec.enc_dec class_codec.dec_wf by (auto simp: hcs_def list_all_iff intro!: map_idI)
  have "read_section (\<lambda>b. Inr (decode_class b)) img 520 off [0..<unat (HeadClasses hdr)] = Ret (Inr hcs)"
    using read_section_app[OF rs(3), of 0 "\<lambda>b. Inr (decode_class b)" pre tail] rs assms by (simp add: hcs_def)
  then have step: "read_head quantize img hdr kws es off = read_prototypes quantize img hdr kws es hcs (off + unat (HeadClasses hdr) * 520)"
    using False by (simp add: read_head_def)
  have "img = (pre @ concat rs) @ tail" "length (pre @ concat rs) = off + unat (HeadClasses hdr) * 520"
    using assms rs length_concat_same[OF rs(3)] by simp_all
  from read_prototypes_sound[OF this, of quantize hdr kws es hcs] obtain r where r:
    "read_head quantize img hdr kws es off = Ret r" "\<And>d. r = Inr d \<Longrightarrow> \<exists>ps recs. list_all proto_wf ps
     \<and> list_all2 proto_record ps recs \<and> tail = concat recs \<and> unat (ProtoCount hdr) = length ps
     \<and> dHeader d = hdr \<and> Keywords d = kws \<and> dEntries d = es \<and> dHead d = hcs \<and> Prototypes d = ps" unfolding step by metis
  have "rest = concat (map encode_class hcs) @ tail" "unat (HeadClasses hdr) = length hcs" using rs(1,2) h(1) by (simp_all add: hcs_def)
  then show ?thesis using r h(2) by (intro exI[of _ r] conjI allI impI) (simp, metis)
qed

lemma read_entries_sound:
  assumes "img = pre @ rest" "length pre = off"
  shows "\<exists>r. read_entries quantize img hdr kws off = Ret r \<and> (\<forall>d. r = Inr d \<longrightarrow> (\<exists>es hcs ps recs. list_all entry_wf es \<and> list_all class_wf hcs
     \<and> list_all proto_wf ps \<and> list_all2 proto_record ps recs
     \<and> rest = concat (map encodeCodebookEntry es) @ concat (map encode_class hcs) @ concat recs
     \<and> unat (fEntryCount hdr) = length es \<and> unat (HeadClasses hdr) = length hcs \<and> unat (ProtoCount hdr) = length ps
     \<and> dHeader d = hdr \<and> Keywords d = kws \<and> dEntries d = es \<and> dHead d = hcs \<and> Prototypes d = ps))"
proof (cases "length img < off + unat (fEntryCount hdr) * codebookEntrySize")
  case True
  then show ?thesis by (simp add: read_entries_def)
next
  case False
  then obtain rs tail where rs: "rest = concat rs @ tail" "length rs = unat (fEntryCount hdr)" "\<forall>r \<in> set rs. length r = 72"
    using chunks_exist[of "unat (fEntryCount hdr)" 72 rest] assms by auto
  define es where "es = map decodeCodebookEntry rs"
  have h: "map encodeCodebookEntry es = rs" "list_all entry_wf es"
    using rs(3) entry_codec.enc_dec entry_codec.dec_wf by (auto simp: es_def list_all_iff intro!: map_idI)
  have "read_section (\<lambda>b. Inr (decodeCodebookEntry b)) img 72 off [0..<unat (fEntryCount hdr)] = Ret (Inr es)"
    using read_section_app[OF rs(3), of 0 "\<lambda>b. Inr (decodeCodebookEntry b)" pre tail] rs assms by (simp add: es_def)
  then have step: "read_entries quantize img hdr kws off = read_head quantize img hdr kws es (off + unat (fEntryCount hdr) * 72)"
    using False by (simp add: read_entries_def)
  have "img = (pre @ concat rs) @ tail" "length (pre @ concat rs) = off + unat (fEntryCount hdr) * 72"
    using assms rs length_concat_same[OF rs(3)] by simp_all
  from read_head_sound[OF this, of quantize hdr kws es] obtain r where r:
    "read_entries quantize img hdr kws off = Ret r" "\<And>d. r = Inr d \<Longrightarrow> \<exists>hcs ps recs. list_all class_wf hcs \<and> list_all proto_wf ps
     \<and> list_all2 proto_record ps recs \<and> tail = concat (map encode_class hcs) @ concat recs
     \<and> unat (HeadClasses hdr) = length hcs \<and> unat (ProtoCount hdr) = length ps
     \<and> dHeader d = hdr \<and> Keywords d = kws \<and> dEntries d = es \<and> dHead d = hcs \<and> Prototypes d = ps" unfolding step by metis
  have "rest = concat (map encodeCodebookEntry es) @ tail" "unat (fEntryCount hdr) = length es" using rs(1,2) h(1) by (simp_all add: es_def)
  then show ?thesis using r h(2) by (intro exI[of _ r] conjI allI impI) (simp, metis)
qed

section \<open>Searching the centroids\<close>

lemma centroid_step_nearest: "centroid_step q m st e = nearest_step q m st e"
proof (cases "codebookHamming q e \<le> m")
  case True
  then have "codebookHammingBounded q e m = entry_distance q m e"
    using codebookHammingBounded_exact[of q e m] entry_distance_exact[of q m e] by metis
  then show ?thesis by (simp only: centroid_step_def nearest_step_def)
next
  case False
  then have "\<not> codebookHammingBounded q e m \<le> m" "\<not> entry_distance q m e \<le> m"
    using codebookHammingBounded_exact(1)[of q e m] entry_distance_exact(1)[of q m e] by blast+
  then show ?thesis by (cases st) (simp add: centroid_step_def nearest_step_def Let_def)
qed

lemma SearchCentroid_cases:
  assumes "- (2 ^ 63) \<le> m" "m < 2 ^ 63 - 1"
  obtains (found) i where "is_nearest (dEntries d) q i" "codebookHamming q (dEntries d ! i) \<le> m"
      "SearchCentroid (Some d) (Some q) m = (dEntries d ! i, codebookHamming q (dEntries d ! i), True)"
    | (missing) e b where "\<forall>e \<in> set (dEntries d). m < codebookHamming q e" "SearchCentroid (Some d) (Some q) m = (e, b, False)"
proof (cases "dEntries d = []")
  case True
  then show ?thesis using missing[of zero_entry 0] by (simp add: SearchCentroid_def)
next
  case False
  obtain best e f where r: "foldl (nearest_step q m) (m + 1, zero_entry, False) (dEntries d) = (best, e, f)"
    by (metis surj_pair)
  have "search_inv q m [] (m + 1, zero_entry, False)" by (simp add: search_inv_def)
  from search_inv_foldl[OF this, of "dEntries d"] have inv: "search_inv q m (dEntries d) (best, e, f)" by (simp add: r)
  have "centroid_step q m = nearest_step q m" by (intro ext) (rule centroid_step_nearest)
  then have s: "SearchCentroid (Some d) (Some q) m = (e, best, f)" using assms False by (simp add: SearchCentroid_def r)
  show ?thesis
  proof (cases f)
    case True
    then show ?thesis using inv s found by (auto simp: search_inv_def)
  next
    case nf: False
    then show ?thesis using inv s missing by (simp add: search_inv_def)
  qed
qed

interpretation floppy_index: nearest_index codebookHamming "\<lambda>d. set (dEntries d)"
    "\<lambda>d q m. SearchCentroid (Some d) (Some q) m" search_range
proof unfold_locales
  fix m q e b and d :: "'a FloppyDisk"
  assume m: "search_range m"
  then have r: "- (2 ^ 63) \<le> m" "m < 2 ^ 63 - 1" by (simp_all add: search_range_def)
  show "e \<in> set (dEntries d) \<and> b = codebookHamming q e \<and> b \<le> m \<and> (\<forall>e' \<in> set (dEntries d). b \<le> codebookHamming q e')"
    if "SearchCentroid (Some d) (Some q) m = (e, b, True)"
    by (rule SearchCentroid_cases[OF r, of d q]) (use that in \<open>auto simp: is_nearest_def in_set_conv_nth\<close>)
  show "\<forall>e' \<in> set (dEntries d). m < codebookHamming q e'"
    if "SearchCentroid (Some d) (Some q) m = (e, b, False)"
    by (rule SearchCentroid_cases[OF r, of d q]) (use that in auto)
qed

section \<open>Keywords\<close>

lemma fold_match_iff: "fold_match h n \<longleftrightarrow> length n \<le> length h \<and> map fold_byte (take (length n) h) = map fold_byte n"
  by (induction h n rule: fold_match.induct) auto

lemma containsSubsliceFold_iff: "containsSubsliceFold h n \<longleftrightarrow> sublist (map fold_byte n) (map fold_byte h)"
proof (cases "n = []")
  case False
  show ?thesis
  proof (cases "length h < length n")
    case True
    then show ?thesis using False sublist_length_le[of "map fold_byte n" "map fold_byte h"] by (auto simp: containsSubsliceFold_def)
  next
    case fits: False
    have eq: "fold_match (drop i h) n \<longleftrightarrow> take (length n) (drop i (map fold_byte h)) = map fold_byte n" if "i < Suc (length h) - length n" for i
      using that fits by (auto simp: fold_match_iff take_map drop_map)
    have "containsSubsliceFold h n \<longleftrightarrow> (\<exists>i < Suc (length h) - length n. fold_match (drop i h) n)"
      using False fits by (simp add: containsSubsliceFold_def list_ex_iff Suc_diff_le Bex_def del: upt_Suc)
    then show ?thesis using eq by (simp add: sublist_iff_window cong: conj_cong)
  qed
qed (simp add: containsSubsliceFold_def)

section \<open>Loading what was saved\<close>

definition hmac_size :: "(bytes \<Rightarrow> bytes \<Rightarrow> bytes) \<Rightarrow> bool" where
  "hmac_size hmac \<longleftrightarrow> (\<forall>k m. length (hmac k m) = 32)"

definition sealed :: "FloppyHeader \<Rightarrow> bool" where
  "sealed h \<longleftrightarrow> fFlags h AND FloppyFlagSealed \<noteq> 0"

lemma seal_header_facts:
  fixes key body :: bytes
  assumes "hmac_size hmac" "fheader_wf h" "fFlags h = 0"
  defines "s \<equiv> seal_header hmac key body h"
  shows "fheader_wf s" "sealed s \<longleftrightarrow> key \<noteq> []" "s = h\<lparr>fFlags := fFlags s, Seal := Seal s\<rparr>"
    "key \<noteq> [] \<Longrightarrow> Seal s = hmac key (take 32 (encode_fheader s) @ body)"
proof -
  have sz: "length (hmac k m) = 32" for k m using assms(1) by (simp add: hmac_size_def)
  have m: "length (fMagic h) = 8" "length (Seal h) = 32" using assms(2) by (simp_all add: fheader_wf_def)
  show "fheader_wf s" "sealed s \<longleftrightarrow> key \<noteq> []" "s = h\<lparr>fFlags := fFlags s, Seal := Seal s\<rparr>"
    using assms(2,3) sz m by (auto simp: s_def seal_header_def fheader_wf_def sealed_def Let_def)
  have pre: "take 32 (encode_fheader (h'\<lparr>Seal := x\<rparr>)) = take 32 (encode_fheader h')" if "length (fMagic h') = 8" for h' x
    using that by (simp add: encode_fheader_def)
  show "Seal s = hmac key (take 32 (encode_fheader s) @ body)" if "key \<noteq> []"
    using that m sz pre[of "h\<lparr>fFlags := fFlags h OR FloppyFlagSealed\<rparr>"] by (simp add: s_def seal_header_def Let_def)
qed

definition contents_ok :: "bytes list \<Rightarrow> CodebookEntry list \<Rightarrow> DecisionClass list \<Rightarrow> FloppyPrototype list \<Rightarrow> bool" where
  "contents_ok kws es hcs ps \<longleftrightarrow> list_all short_keyword kws \<and> list_all entry_wf es \<and> list_all class_wf hcs \<and> list_all proto_wf ps
     \<and> length kws < 2 ^ 32 \<and> length es < 2 ^ 32 \<and> length hcs < 2 ^ 16 \<and> length ps < 2 ^ 16"

lemma encode_proto_record: "proto_record p (encode_proto p)"
  unfolding proto_record_def encode_proto_def by (rule exI[of _ "[0, 0]"]) simp

lemma decode_image:
  assumes "fheader_wf hdr" "check_fheader hdr = None" "check_seal hmac strict key hdr (take 32 (encode_fheader hdr)) body = None"
    "CRC32C hdr = crc32_update 0 body" "counts_hold hdr kws es hcs ps" "body_holds body kws es hcs ps"
  shows "\<exists>pr. decodeFloppy hmac strict quantize (encode_fheader hdr @ body) key
     = Ret (Inr \<lparr>dHeader = hdr, Keywords = kws, dEntries = es, dHead = hcs, Prototypes = ps, dProbe = pr\<rparr>)"
proof -
  define hb where "hb = encode_fheader hdr"
  have hb: "length hb = 64" "decode_fheader hb = hdr"
    using fheader_codec.enc_size[OF assms(1)] fheader_codec.dec_enc[OF assms(1)] by (simp_all add: hb_def)
  obtain recs where recs: "list_all2 proto_record ps recs" "body = concat (map encode_keyword kws) @ concat (map encodeCodebookEntry es)
          @ concat (map encode_class hcs) @ concat recs" and wf: "list_all short_keyword kws" "list_all entry_wf es" "list_all class_wf hcs" "list_all proto_wf ps"
    using assms(6) by (auto simp: body_holds_def)
  have n: "unat (KwCount hdr) = length kws" "unat (fEntryCount hdr) = length es" "unat (HeadClasses hdr) = length hcs" "unat (ProtoCount hdr) = length ps"
    using assms(5) by (simp_all add: counts_hold_def)
  define rest where "rest = concat (map encodeCodebookEntry es) @ concat (map encode_class hcs) @ concat recs"
  have body: "body = concat (map encode_keyword kws) @ rest" by (simp add: recs(2) rest_def)
  have "length (concat (map encodeCodebookEntry es)) = length es * 72" "length (concat (map encode_class hcs)) = length hcs * 520"
    using wf length_concat_same[of "map encodeCodebookEntry es" 72] length_concat_same[of "map encode_class hcs" 520]
      entry_codec.enc_size class_codec.enc_size by (auto simp: list_all_iff)
  moreover have "length (concat recs) = length ps * floppyProtoRecSize"
    using length_concat_same[OF proto_records_size[OF wf(4) recs(1)]] list_all2_lengthD[OF recs(1)] by simp
  moreover have "length kws * 2 \<le> length (concat (map encode_keyword kws))" by (induction kws) simp_all
  ultimately have mb: "\<not> length body < min_body hdr" by (simp add: min_body_def n recs(2))
  have kw: "read_keywords (hb @ body) (length kws) 64 [] = Ret (Some (kws, 64 + length (concat (map encode_keyword kws))))"
    using read_keywords_app[OF wf(1), of hb rest "[]"] by (simp add: body hb)
  obtain pr where pr: "read_entries quantize (hb @ body) hdr kws (64 + length (concat (map encode_keyword kws)))
      = Ret (Inr \<lparr>dHeader = hdr, Keywords = kws, dEntries = es, dHead = hcs, Prototypes = ps, dProbe = pr\<rparr>)"
    using read_entries_app[OF wf(2,3,4) recs(1) n(2,3,4), of quantize "hb @ concat (map encode_keyword kws)" kws] by (auto simp: recs(2) hb)
  have sl: "slice_at (hb @ body) 0 64 = Ret hb" "slice_at (hb @ body) 64 (length (hb @ body)) = Ret body" "slice_at (hb @ body) 0 32 = Ret (take 32 hb)"
    using hb(1) by (simp_all add: slice_at_def subslice_def)
  have "decodeFloppy hmac strict quantize (hb @ body) key = Ret (Inr \<lparr>dHeader = hdr, Keywords = kws, dEntries = es, dHead = hcs, Prototypes = ps, dProbe = pr\<rparr>)"
    unfolding decodeFloppy_def sl obind.simps Let_def hb(2) assms(2) option.case
    using assms(3,4) mb kw pr by (simp add: hb_def[symmetric] n)
  then show ?thesis unfolding hb_def by blast
qed

lemma decode_sound:
  assumes "FloppyHeaderSize \<le> length img"
  shows "\<exists>r. decodeFloppy hmac strict quantize img key = Ret r \<and> (\<forall>d. r = Inr d \<longrightarrow>
     dHeader d = decode_fheader (take 64 img) \<and> check_fheader (dHeader d) = None
     \<and> check_seal hmac strict key (dHeader d) (take 32 img) (drop 64 img) = None \<and> crc32_update 0 (drop 64 img) = CRC32C (dHeader d)
     \<and> counts_hold (dHeader d) (Keywords d) (dEntries d) (dHead d) (Prototypes d)
     \<and> body_holds (drop 64 img) (Keywords d) (dEntries d) (dHead d) (Prototypes d))"
proof -
  define hdr where "hdr = decode_fheader (take 64 img)"
  define body where "body = drop 64 img"
  have sl: "slice_at img 0 64 = Ret (take 64 img)" "slice_at img 64 (length img) = Ret body" "slice_at img 0 32 = Ret (take 32 img)"
    using assms by (simp_all add: slice_at_def subslice_def body_def)
  show ?thesis
  proof (cases "check_fheader hdr = None \<and> check_seal hmac strict key hdr (take 32 img) body = None
      \<and> crc32_update 0 body = CRC32C hdr \<and> min_body hdr \<le> length body")
    case False
    then have "\<exists>err. decodeFloppy hmac strict quantize img key = Ret (Inl err)"
      unfolding decodeFloppy_def sl obind.simps Let_def hdr_def[symmetric]
      by (auto simp: sl split: option.split)
    then show ?thesis by auto
  next
    case True
    obtain r where r: "read_keywords img (unat (KwCount hdr)) 64 [] = Ret r" and
      ks: "\<And>kws off. r = Some (kws, off) \<Longrightarrow> length kws = unat (KwCount hdr) \<and> list_all short_keyword kws \<and> off \<le> length img
         \<and> take off img = take 64 img @ concat (map encode_keyword kws)"
      using read_keywords_sound[OF assms, of "unat (KwCount hdr)" "[]"] by fastforce
    have step: "decodeFloppy hmac strict quantize img key = (case r of None \<Rightarrow> Ret (Inl ErrFloppyTruncated)
        | Some (kws, off) \<Rightarrow> read_entries quantize img hdr kws off)"
      unfolding decodeFloppy_def sl obind.simps Let_def hdr_def[symmetric] using True by (simp add: r)
    show ?thesis
    proof (cases r)
      case None
      then show ?thesis using step by simp
    next
      case (Some x)
      obtain kws off where x: "x = (kws, off)" by (cases x)
      note k = ks[OF Some[unfolded x]]
      have pre: "img = take off img @ drop off img" "length (take off img) = off"
        by (rule append_take_drop_id[symmetric]) (metis k length_take min.absorb2)
      obtain rr where rr: "read_entries quantize img hdr kws off = Ret rr"
        and sec: "\<forall>d. rr = Inr d \<longrightarrow> (\<exists>es hcs ps recs. list_all entry_wf es \<and> list_all class_wf hcs
           \<and> list_all proto_wf ps \<and> list_all2 proto_record ps recs
           \<and> drop off img = concat (map encodeCodebookEntry es) @ concat (map encode_class hcs) @ concat recs
           \<and> unat (fEntryCount hdr) = length es \<and> unat (HeadClasses hdr) = length hcs \<and> unat (ProtoCount hdr) = length ps
           \<and> dHeader d = hdr \<and> Keywords d = kws \<and> dEntries d = es \<and> dHead d = hcs \<and> Prototypes d = ps)"
        using read_entries_sound[OF pre, of quantize hdr kws] by blast
      have body: "body = concat (map encode_keyword kws) @ drop off img"
      proof -
        have "img = take 64 img @ concat (map encode_keyword kws) @ drop off img" using k by (metis append_assoc append_take_drop_id)
        then have "drop 64 img = drop 64 (take 64 img @ concat (map encode_keyword kws) @ drop off img)" by simp
        then show ?thesis using assms by (simp add: body_def)
      qed
      show ?thesis
      proof (intro exI[of _ rr] conjI allI impI)
        show "decodeFloppy hmac strict quantize img key = Ret rr" using step Some x rr by simp
        fix d assume "rr = Inr d"
        then obtain recs where d: "list_all entry_wf (dEntries d)" "list_all class_wf (dHead d)" "list_all proto_wf (Prototypes d)"
          "list_all2 proto_record (Prototypes d) recs"
          "drop off img = concat (map encodeCodebookEntry (dEntries d)) @ concat (map encode_class (dHead d)) @ concat recs"
          "unat (fEntryCount hdr) = length (dEntries d)" "unat (HeadClasses hdr) = length (dHead d)" "unat (ProtoCount hdr) = length (Prototypes d)"
          "dHeader d = hdr" "Keywords d = kws" using sec by blast
        show "dHeader d = decode_fheader (take 64 img)" "check_fheader (dHeader d) = None"
          "check_seal hmac strict key (dHeader d) (take 32 img) (drop 64 img) = None" "crc32_update 0 (drop 64 img) = CRC32C (dHeader d)"
          using d(9) True by (simp_all add: hdr_def[symmetric] body_def[symmetric])
        show "counts_hold (dHeader d) (Keywords d) (dEntries d) (dHead d) (Prototypes d)" using d k by (simp add: counts_hold_def)
        show "body_holds (drop 64 img) (Keywords d) (dEntries d) (dHead d) (Prototypes d)"
          unfolding body_holds_def body_def[symmetric] body d(10) using d k by auto
      qed
    qed
  qed
qed

section \<open>Properties\<close>

text \<open>
  C17.  Loading a disk never panics, whatever its bytes.  A disk that loads has the right magic,
  version and dimension, a correct checksum, counts that match, and a body that is exactly its
  keywords, centroids, decision head and finite prototypes, with nothing left over.  With a key, or
  in strict mode, it carries the seal of that key over its header and body; a sealed disk never
  loads without a key.
\<close>
theorem floppy_load_sound:
  "\<exists>r. LoadFloppyMmap hmac strict quantize fs path key = Ret r \<and> (\<forall>d. r = Inr d \<longrightarrow> (\<exists>img. fs path = Some img
     \<and> dHeader d = decode_fheader (take 64 img) \<and> fMagic (dHeader d) = FloppyMagic \<and> fVersion (dHeader d) = FloppyVersion
     \<and> fVectorDim (dHeader d) = 512 \<and> crc32_update 0 (drop 64 img) = CRC32C (dHeader d)
     \<and> counts_hold (dHeader d) (Keywords d) (dEntries d) (dHead d) (Prototypes d)
     \<and> body_holds (drop 64 img) (Keywords d) (dEntries d) (dHead d) (Prototypes d)
     \<and> (key \<noteq> [] \<or> strict \<or> sealed (dHeader d) \<longrightarrow> key \<noteq> [] \<and> sealed (dHeader d) \<and> hmac key (take 32 img @ drop 64 img) = Seal (dHeader d))))"
proof (cases "\<exists>img. fs path = Some img \<and> 64 \<le> length img")
  case False
  then show ?thesis by (cases "fs path") (auto simp: LoadFloppyMmap_def)
next
  case True
  then obtain img where img: "fs path = Some img" "64 \<le> length img" by blast
  have seal: "key \<noteq> [] \<and> sealed h \<and> hmac key m = Seal h" if "check_seal hmac strict key h p b = None" "m = p @ b" "key \<noteq> [] \<or> strict \<or> sealed h" for h p b m
    using that by (auto simp: check_seal_def sealed_def Let_def split: if_splits)
  have hdr: "fMagic h = FloppyMagic \<and> fVersion h = FloppyVersion \<and> fVectorDim h = 512" if "check_fheader h = None" for h
    using that by (auto simp: check_fheader_def split: if_splits)
  obtain r where r: "decodeFloppy hmac strict quantize img key = Ret r" and d: "\<And>d. r = Inr d \<Longrightarrow>
     dHeader d = decode_fheader (take 64 img) \<and> check_fheader (dHeader d) = None
     \<and> check_seal hmac strict key (dHeader d) (take 32 img) (drop 64 img) = None \<and> crc32_update 0 (drop 64 img) = CRC32C (dHeader d)
     \<and> counts_hold (dHeader d) (Keywords d) (dEntries d) (dHead d) (Prototypes d)
     \<and> body_holds (drop 64 img) (Keywords d) (dEntries d) (dHead d) (Prototypes d)"
    using decode_sound[OF img(2), of hmac strict quantize key] by blast
  have "LoadFloppyMmap hmac strict quantize fs path key = Ret r" using img r by (simp add: LoadFloppyMmap_def)
  then show ?thesis using img d hdr seal by (intro exI[of _ r] conjI allI impI exI[of _ img]) (simp_all, metis+)
qed

text \<open>
  C18.  Saving a disk and loading the file with the same key gives back its keywords, centroids,
  decision head and prototypes, provided the keywords fit their 16-bit length, the sections their
  counters, the prototypes are finite and of class 0 or 1, and strict mode has a key.
\<close>
theorem floppy_roundtrip:
  assumes "hmac_size hmac" "contents_ok kws es hcs ps" "strict \<longrightarrow> key \<noteq> []" "commits"
  shows "\<exists>fs' d. SaveFloppyFile hmac fs commits path family kws es hcs ps radius key = (fs', None)
     \<and> LoadFloppyMmap hmac strict quantize fs' path key = Ret (Inr d)
     \<and> Keywords d = kws \<and> dEntries d = es \<and> dHead d = hcs \<and> Prototypes d = ps
     \<and> FamilyID (dHeader d) = family \<and> fBlockRadius (dHeader d) = radius"
proof -
  define body where "body = floppy_body kws es hcs ps"
  define h0 where "h0 = floppy_header family kws es hcs ps radius"
  define h where "h = seal_header hmac key body h0"
  have wf0: "fheader_wf h0" "fFlags h0 = 0" by (simp_all add: h0_def floppy_header_def fheader_wf_def FloppyMagic_def)
  note s = seal_header_facts[OF assms(1) wf0, of key body, folded h_def]
  note ok = assms(2)[unfolded contents_ok_def]
  have f: "fMagic h = FloppyMagic" "fVersion h = FloppyVersion" "fVectorDim h = 512" "CRC32C h = crc32_update 0 body"
    "FamilyID h = family" "fBlockRadius h = radius" "KwCount h = word_of_nat (length kws)" "fEntryCount h = word_of_nat (length es)"
    "HeadClasses h = word_of_nat (length hcs)" "ProtoCount h = word_of_nat (length ps)"
    by (subst s(3), simp add: h0_def floppy_header_def body_def)+
  have chk: "check_fheader h = None" by (simp add: check_fheader_def f)
  have seal: "check_seal hmac strict key h (take 32 (encode_fheader h)) body = None"
    using s(2,4) assms(3) by (auto simp: check_seal_def sealed_def Let_def)
  have cnt: "counts_hold h kws es hcs ps" using ok by (simp add: counts_hold_def f unat_of_nat)
  have "list_all2 proto_record ps (map encode_proto ps)" by (simp add: list_all2_conv_all_nth encode_proto_record)
  then have holds: "body_holds body kws es hcs ps"
    unfolding body_holds_def using ok by (auto simp: body_def floppy_body_def intro!: exI[of _ "map encode_proto ps"])
  obtain pr where dec: "decodeFloppy hmac strict quantize (encode_fheader h @ body) key
     = Ret (Inr \<lparr>dHeader = h, Keywords = kws, dEntries = es, dHead = hcs, Prototypes = ps, dProbe = pr\<rparr>)"
    using decode_image[OF s(1) chk seal f(4) cnt holds] by blast
  have "\<not> list_ex (\<lambda>p. 1 < pClass p) ps" using ok by (auto simp: list_ex_iff list_all_iff proto_wf_def not_less)
  then have save: "SaveFloppyFile hmac fs commits path family kws es hcs ps radius key = (fs(path \<mapsto> encode_fheader h @ body), None)"
    using ok assms(4) by (simp add: SaveFloppyFile_def Let_def body_def h_def h0_def)
  have "LoadFloppyMmap hmac strict quantize (fs(path \<mapsto> encode_fheader h @ body)) path key
     = Ret (Inr \<lparr>dHeader = h, Keywords = kws, dEntries = es, dHead = hcs, Prototypes = ps, dProbe = pr\<rparr>)"
    using dec fheader_codec.enc_size[OF s(1)] by (simp add: LoadFloppyMmap_def)
  then show ?thesis using save f by fastforce
qed

text \<open>The veto of a disk is exact: a query is near a threat if and only if some centroid of the
  disk is within the block radius of its header, 12 when the header declares none, although the
  search abandons each distance as soon as it exceeds the radius.
\<close>

lemma floppy_veto_exact:
  "nearThreat (Some d) (Some q) \<longleftrightarrow> (\<exists>e \<in> set (dEntries d). codebookHamming q e
     \<le> (if fBlockRadius (dHeader d) = 0 then 12 else int (unat (fBlockRadius (dHeader d)))))"
proof -
  define m where "m = BlockRadius (Some d)"
  have m: "m = (if fBlockRadius (dHeader d) = 0 then 12 else int (unat (fBlockRadius (dHeader d))))" by (simp add: m_def BlockRadius_def)
  have "unat (fBlockRadius (dHeader d)) < 256" using unat_bound[of "fBlockRadius (dHeader d)"] by simp
  then have "int (unat (fBlockRadius (dHeader d))) < 256" by linarith
  then have "0 \<le> m" "m < 256" by (simp_all add: m)
  then have r: "search_range m" by (simp add: search_range_def)
  obtain e b f where s: "SearchCentroid (Some d) (Some q) m = (e, b, f)" by (metis surj_pair)
  show ?thesis using floppy_index.within_iff[OF r order.refl s] s
    by (simp add: nearThreat_def nearThreatWithin_def m_def[symmetric] m)
qed

section \<open>Examples\<close>

definition sample_seal :: "bytes \<Rightarrow> bytes \<Rightarrow> bytes" where
  "sample_seal k m = le_put 4 (crc32_update 0 (k @ m)) @ replicate 28 0"

definition sample_proto :: "u16 \<Rightarrow> FloppyPrototype" where
  "sample_proto cl = \<lparr>pClass = cl, pVector = replicate 512 0x3F800000\<rparr>"

theorem floppy_roundtrip_witness:
  "\<exists>fs' d. SaveFloppyFile sample_seal Map.empty True ''x'' 2 [ascii ''curl''] [zero_entry] [] [sample_proto 0, sample_proto 1] 9 [1, 2] = (fs', None)
     \<and> LoadFloppyMmap sample_seal True id fs' ''x'' [1, 2] = Ret (Inr d) \<and> Keywords d = [ascii ''curl''] \<and> dEntries d = [zero_entry]
     \<and> Prototypes d = [sample_proto 0, sample_proto 1]"
proof -
  have h: "hmac_size sample_seal" by (simp add: hmac_size_def sample_seal_def)
  have "finite32 0x3F800000" by (simp add: finite32_def)
  then have c: "contents_ok [ascii ''curl''] [zero_entry] [] [sample_proto 0, sample_proto 1]"
    by (simp add: contents_ok_def short_keyword_def entry_wf_def zero_entry_def proto_wf_def sample_proto_def list_all_iff)
  show ?thesis using floppy_roundtrip[OF h c, of True "[1, 2]" True Map.empty "''x''" 2 9 id] by auto
qed

theorem floppy_load_sound_witness:
  "\<exists>d img fs'. LoadFloppyMmap sample_seal True id fs' ''x'' [1, 2] = Ret (Inr d) \<and> fs' ''x'' = Some img
     \<and> sealed (dHeader d) \<and> sample_seal [1, 2] (take 32 img @ drop 64 img) = Seal (dHeader d)"
proof -
  have h: "hmac_size sample_seal" by (simp add: hmac_size_def sample_seal_def)
  have c: "contents_ok [] [] [] []" by (simp add: contents_ok_def)
  define body where "body = floppy_body [] [] [] []"
  define hd where "hd = seal_header sample_seal [1, 2] body (floppy_header 2 [] [] [] [] 9)"
  have wf: "fheader_wf (floppy_header 2 [] [] [] [] 9)" "fFlags (floppy_header 2 [] [] [] [] 9) = 0"
    by (simp_all add: floppy_header_def fheader_wf_def FloppyMagic_def)
  note s = seal_header_facts[OF h wf, of "[1, 2]" body, folded hd_def]
  have "check_fheader hd = None" by (subst s(3)) (simp add: check_fheader_def floppy_header_def)
  moreover have "check_seal sample_seal True [1, 2] hd (take 32 (encode_fheader hd)) body = None"
    using s(2,4) by (simp add: check_seal_def sealed_def Let_def)
  moreover have "CRC32C hd = crc32_update 0 body" "counts_hold hd [] [] [] []"
    by (subst s(3), simp add: floppy_header_def body_def counts_hold_def)+
  moreover have "body_holds body [] [] [] []" by (simp add: body_holds_def body_def floppy_body_def)
  ultimately obtain pr where "decodeFloppy sample_seal True id (encode_fheader hd @ body) [1, 2]
     = Ret (Inr \<lparr>dHeader = hd, Keywords = [], dEntries = [], dHead = [], Prototypes = [], dProbe = pr\<rparr>)"
    using decode_image[OF s(1)] by blast
  then have "\<exists>d. LoadFloppyMmap sample_seal True id [''x'' \<mapsto> encode_fheader hd @ body] ''x'' [1, 2] = Ret (Inr d)"
    using fheader_codec.enc_size[OF s(1)] by (simp add: LoadFloppyMmap_def)
  then show ?thesis
    using floppy_load_sound[of sample_seal True id "[''x'' \<mapsto> encode_fheader hd @ body]" "''x''" "[1, 2]"] by force
qed

end
