(* ===== verification/Fnv.thy ===== *)
theory Fnv
  imports Prelude
begin

text \<open>
  The FNV-1a hash of 64 bits, shared by the reputation table (\<open>compact_reputation.go\<close>) and the
  trackers, which also feed it piece by piece.
\<close>

definition fnv_step :: "u64 \<Rightarrow> byte \<Rightarrow> u64" where
  "fnv_step h b = (h XOR ucast b) * 1099511628211"

definition fnv_from :: "u64 \<Rightarrow> bytes \<Rightarrow> u64" where
  "fnv_from h payload = foldl fnv_step h payload"

definition FNV1a64 :: "bytes \<Rightarrow> u64" where
  "FNV1a64 payload = fnv_from 14695981039346656037 payload"

lemma fnv_from_append: "fnv_from (fnv_from h xs) ys = fnv_from h (xs @ ys)"
  by (simp add: fnv_from_def)

lemma fnv_from_FNV: "fnv_from (FNV1a64 xs) ys = FNV1a64 (xs @ ys)"
  by (simp add: FNV1a64_def fnv_from_append)

end
