(* ===== verification/Reputation.thy ===== *)
theory Reputation
  imports Codec Fnv DnsGrammar "HOL-Library.List_Lexorder" "HOL-Library.Product_Lexorder" "HOL-Library.Multiset"
begin

text \<open>
  The reputation table of \<open>compact_reputation.go\<close>: the compiler of a list of
  entries into the compact snapshot, the loader that validates a snapshot, the
  search of a name and of its parent domains, and the replaceable container.
  The Unicode tables behind \<open>strings.ToLower\<close>, \<open>TrimSpace\<close> and \<open>Fields\<close> are
  a parameter; on ASCII strings the three functions are written out.  Lengths and
  sums of 32-bit fields computed in 64 bits do not wrap and are naturals; sums
  computed in 32 bits keep their width.
\<close>

section \<open>Strings\<close>

record unicode =
  uLower :: "bytes \<Rightarrow> bytes"
  uTrim :: "bytes \<Rightarrow> bytes"
  uFields :: "bytes \<Rightarrow> bytes list"

definition is_ascii :: "bytes \<Rightarrow> bool" where
  "is_ascii s \<longleftrightarrow> list_all (\<lambda>b. b < 0x80) s"

definition is_upper :: "byte \<Rightarrow> bool" where
  "is_upper b \<longleftrightarrow> 0x41 \<le> b \<and> b \<le> 0x5A"

definition is_space :: "byte \<Rightarrow> bool" where
  "is_space b \<longleftrightarrow> (0x09 \<le> b \<and> b \<le> 0x0D) \<or> b = 0x20"

definition ToLower :: "unicode \<Rightarrow> bytes \<Rightarrow> bytes" where
  "ToLower U s = (if is_ascii s then map (\<lambda>b. if is_upper b then b + 0x20 else b) s else uLower U s)"

definition TrimSpace :: "unicode \<Rightarrow> bytes \<Rightarrow> bytes" where
  "TrimSpace U s = (if is_ascii s then rev (dropWhile is_space (rev (dropWhile is_space s))) else uTrim U s)"

function ascii_fields :: "bytes \<Rightarrow> bytes list" where
  "ascii_fields s = (let t = dropWhile is_space s in
     if t = [] then [] else takeWhile (\<lambda>b. \<not> is_space b) t # ascii_fields (dropWhile (\<lambda>b. \<not> is_space b) t))"
  by pat_completeness auto

termination
proof (relation "measure length")
  fix s t :: bytes
  assume t: "t = dropWhile is_space s" "t \<noteq> []"
  then have "\<not> is_space (hd t)" by (simp add: hd_dropWhile)
  then have "length (dropWhile (\<lambda>b. \<not> is_space b) t) < length t"
    using t(2) by (cases t) (simp_all add: le_imp_less_Suc length_dropWhile_le)
  also have "\<dots> \<le> length s" by (simp add: t length_dropWhile_le)
  finally show "(dropWhile (\<lambda>b. \<not> is_space b) t, s) \<in> measure length" by simp
qed simp

declare ascii_fields.simps [simp del]

definition Fields :: "unicode \<Rightarrow> bytes \<Rightarrow> bytes list" where
  "Fields U s = (if is_ascii s then ascii_fields s else uFields U s)"

definition TrimSuffix_dot :: "bytes \<Rightarrow> bytes" where
  "TrimSuffix_dot s = (if s \<noteq> [] \<and> last s = 0x2E then butlast s else s)"

section \<open>Names\<close>

definition cleanDomain :: "unicode \<Rightarrow> bytes \<Rightarrow> bytes" where
  "cleanDomain U fqdn = (if fqdn = [] then []
     else TrimSuffix_dot (if list_ex is_upper fqdn then ToLower U fqdn else fqdn))"

text \<open>The loop over the bytes of a name: the byte before, the length of the current label.\<close>

fun domain_loop :: "byte \<Rightarrow> nat \<Rightarrow> bytes \<Rightarrow> nat option" where
  "domain_loop prev labelLen [] = Some labelLen"
| "domain_loop prev labelLen (b # bs) =
     (if b = 0x2E then
        (if labelLen = 0 \<or> 63 < labelLen \<or> prev = 0x2D then None else domain_loop b 0 bs)
      else if \<not> dnsLabelByte b \<or> (b = 0x2D \<and> labelLen = 0) then None
      else domain_loop b (labelLen + 1) bs)"

definition validReputationDomain :: "bytes \<Rightarrow> bool" where
  "validReputationDomain name \<longleftrightarrow> name \<noteq> [] \<and> length name \<le> 253
     \<and> (case domain_loop 0 0 name of None \<Rightarrow> False | Some labelLen \<Rightarrow> 0 < labelLen \<and> labelLen \<le> 63 \<and> last name \<noteq> 0x2D)"

definition shared_hosting :: "bytes list" where
  "shared_hosting = [ascii ''amazonaws.com'', ascii ''cloudfront.net'', ascii ''trafficmanager.net'', ascii ''azure.com'',
     ascii ''githubusercontent.com'', ascii ''github.io'', ascii ''appspot.com'', ascii ''googleapis.com'',
     ascii ''akamai.net'', ascii ''akamaiedge.net'']"

definition isSharedHostingDomain :: "bytes \<Rightarrow> bool" where
  "isSharedHostingDomain name \<longleftrightarrow> name \<in> set shared_hosting"

abbreviation RepClassAllowVendor :: byte where "RepClassAllowVendor \<equiv> 1"
abbreviation RepClassBlockC2 :: byte where "RepClassBlockC2 \<equiv> 3"
abbreviation RepClassProtocolCrypto :: byte where "RepClassProtocolCrypto \<equiv> 4"
abbreviation MatchExact :: byte where "MatchExact \<equiv> 1"
abbreviation MatchSubtree :: byte where "MatchSubtree \<equiv> 2"
abbreviation CompactMagic :: u32 where "CompactMagic \<equiv> 0x42443243"

definition validReputationClass :: "byte \<Rightarrow> bool" where
  "validReputationClass cl \<longleftrightarrow> RepClassAllowVendor \<le> cl \<and> cl \<le> RepClassProtocolCrypto"

definition reputationRank :: "byte \<Rightarrow> byte" where
  "reputationRank cl = (if cl = RepClassBlockC2 then 10 else cl)"

section \<open>The table\<close>

datatype rep_error = ErrCorruptSnapshot | ErrInvalidMagic | ErrScan

record CompactEntry =
  DomainHash :: u64
  Offset :: u32
  Length :: byte
  eClassification :: byte
  eMatchKind :: byte
  eFlags :: byte

record ReputationTable =
  rawBytes :: bytes
  numEntries :: nat
  entriesData :: bytes
  stringBlock :: bytes

record MatchResult =
  MatchedDomain :: bytes
  mClassification :: byte
  mMatchKind :: byte

record BuildEntry =
  Domain :: bytes
  Classification :: byte
  MatchKind :: byte

definition no_match :: MatchResult where
  "no_match = \<lparr>MatchedDomain = [], mClassification = 0, mMatchKind = 0\<rparr>"

text \<open>One turn of the validation loop: the hash of the entry, or \<open>None\<close> for a corrupt one.\<close>

definition check_entry :: "unicode \<Rightarrow> bytes \<Rightarrow> bytes \<Rightarrow> nat \<Rightarrow> u64 \<Rightarrow> u64 option outcome" where
  "check_entry U ed sb i previousHash = (let off = i * 16 in
     obind (slice_at ed (off + 8) (off + 12)) (\<lambda>ob. let entryOffset = unat (le_get ob :: u32) in
     obind (get_at ed (off + 12)) (\<lambda>lb. let entryLength = unat lb in
     if length sb < entryOffset \<or> length sb - entryOffset < entryLength then Ret None
     else obind (slice_at sb entryOffset (entryOffset + entryLength)) (\<lambda>name.
       obind (slice_at ed off (off + 8)) (\<lambda>hb. let hash = le_get hb :: u64 in
       if \<not> validReputationDomain name \<or> name \<noteq> cleanDomain U name \<or> hash \<noteq> FNV1a64 name \<or> (0 < i \<and> hash < previousHash)
       then Ret None
       else obind (get_at ed (off + 13)) (\<lambda>cl. if \<not> validReputationClass cl then Ret None
         else obind (get_at ed (off + 14)) (\<lambda>k. if k \<noteq> MatchExact \<and> k \<noteq> MatchSubtree then Ret None
           else obind (get_at ed (off + 15)) (\<lambda>f. if f \<noteq> 0 then Ret None else Ret (Some hash)))))))))"

fun check_entries :: "unicode \<Rightarrow> bytes \<Rightarrow> bytes \<Rightarrow> nat list \<Rightarrow> u64 \<Rightarrow> bool outcome" where
  "check_entries U ed sb [] previousHash = Ret True"
| "check_entries U ed sb (i # ix) previousHash = obind (check_entry U ed sb i previousHash) (\<lambda>r. case r of
     None \<Rightarrow> Ret False
   | Some hash \<Rightarrow> check_entries U ed sb ix hash)"

definition NewReputationTable :: "unicode \<Rightarrow> bytes \<Rightarrow> (rep_error + ReputationTable) outcome" where
  "NewReputationTable U raw =
     (if length raw < 24 then Ret (Inl ErrCorruptSnapshot)
      else if (le_get (subslice 0 4 raw) :: u32) \<noteq> CompactMagic then Ret (Inl ErrInvalidMagic)
      else if (le_get (subslice 4 6 raw) :: u16) \<noteq> 1 \<or> subslice 18 24 raw \<noteq> replicate 6 0 then Ret (Inl ErrCorruptSnapshot)
      else let count64 = unat (le_get (subslice 6 10 raw) :: u32);
               start64 = unat (le_get (subslice 10 14 raw) :: u32);
               length64 = unat (le_get (subslice 14 18 raw) :: u32) in
        if (length raw - 24) div 16 < count64 \<or> start64 \<noteq> 24 + count64 * 16 \<or> length raw < start64
           \<or> length64 \<noteq> length raw - start64 then Ret (Inl ErrCorruptSnapshot)
        else obind (slice_at raw 24 (24 + count64 * 16)) (\<lambda>ed.
          obind (slice_at raw start64 (start64 + length64)) (\<lambda>sb.
          obind (check_entries U ed sb [0..<count64] 0) (\<lambda>ok.
          if ok then Ret (Inr \<lparr>rawBytes = raw, numEntries = count64, entriesData = ed, stringBlock = sb\<rparr>)
          else Ret (Inl ErrCorruptSnapshot)))))"

definition getEntry :: "ReputationTable \<Rightarrow> nat \<Rightarrow> CompactEntry outcome" where
  "getEntry t idx = (let off = idx * 16 in
     obind (slice_at (entriesData t) off (off + 8)) (\<lambda>h.
     obind (slice_at (entriesData t) (off + 8) (off + 12)) (\<lambda>ob.
     obind (get_at (entriesData t) (off + 12)) (\<lambda>l.
     obind (get_at (entriesData t) (off + 13)) (\<lambda>cl.
     obind (get_at (entriesData t) (off + 14)) (\<lambda>k.
     obind (get_at (entriesData t) (off + 15)) (\<lambda>f.
     Ret \<lparr>DomainHash = le_get h, Offset = le_get ob, Length = l, eClassification = cl, eMatchKind = k, eFlags = f\<rparr>)))))))"

section \<open>Searching\<close>

text \<open>The binary search for the first entry whose hash is not below the one sought.\<close>

function lower_bound :: "ReputationTable \<Rightarrow> u64 \<Rightarrow> nat \<Rightarrow> nat \<Rightarrow> nat outcome" where
  "lower_bound t hash low high =
     (if low < high then
        (let mid = low + (high - low) div 2 in
         obind (slice_at (entriesData t) (mid * 16) (length (entriesData t))) (\<lambda>s.
         obind (slice_at s 0 8) (\<lambda>hb.
         if (le_get hb :: u64) < hash then lower_bound t hash (mid + 1) high else lower_bound t hash low mid)))
      else Ret low)"
  by pat_completeness auto

termination
proof (relation "measure (\<lambda>(t, hash, low, high). high - low)")
  fix low high mid :: nat
  assume "low < high" "mid = low + (high - low) div 2"
  then have "low \<le> mid" "mid < high" by linarith+
  then show "((t, hash, mid + 1, high), (t, hash, low, high)) \<in> measure (\<lambda>(t, hash, low, high). high - low)"
    "((t, hash, low, mid), (t, hash, low, high)) \<in> measure (\<lambda>(t, hash, low, high). high - low)"
    for t :: ReputationTable and hash :: u64 by auto
qed simp

declare lower_bound.simps [simp del]

text \<open>The string of an entry; its end is a 32-bit sum.\<close>

definition stored_name :: "ReputationTable \<Rightarrow> CompactEntry \<Rightarrow> bytes outcome" where
  "stored_name t e = slice_at (stringBlock t) (unat (Offset e)) (unat (Offset e + ucast (Length e)))"

definition prefer_match :: "MatchResult \<Rightarrow> bytes \<Rightarrow> byte \<Rightarrow> byte \<Rightarrow> MatchResult" where
  "prefer_match res stored cl k =
     (if mClassification res = 0 \<or> reputationRank cl > reputationRank (mClassification res)
         \<or> (cl = mClassification res \<and> k < mMatchKind res)
      then \<lparr>MatchedDomain = stored, mClassification = cl, mMatchKind = k\<rparr> else res)"

fun scan_equal :: "ReputationTable \<Rightarrow> bytes \<Rightarrow> u64 \<Rightarrow> bool \<Rightarrow> nat list \<Rightarrow> MatchResult \<Rightarrow> MatchResult outcome" where
  "scan_equal t name hash exact [] res = Ret res"
| "scan_equal t name hash exact (i # ix) res = obind (getEntry t i) (\<lambda>entry.
     if DomainHash entry \<noteq> hash then Ret res
     else obind (stored_name t entry) (\<lambda>stored.
       if stored \<noteq> name \<or> (\<not> exact \<and> (eMatchKind entry \<noteq> MatchSubtree
            \<or> (isSharedHostingDomain stored \<and> eClassification entry \<noteq> RepClassBlockC2)))
       then scan_equal t name hash exact ix res
       else scan_equal t name hash exact ix (prefer_match res stored (eClassification entry) (eMatchKind entry))))"

definition matchHash :: "ReputationTable \<Rightarrow> bytes \<Rightarrow> u64 \<Rightarrow> bool \<Rightarrow> (MatchResult \<times> bool) outcome" where
  "matchHash t name hash exact = obind (lower_bound t hash 0 (numEntries t)) (\<lambda>low.
     obind (scan_equal t name hash exact [low..<numEntries t] no_match) (\<lambda>res.
     Ret (res, mClassification res \<noteq> 0)))"

text \<open>\<open>strings.IndexByte\<close> for the dot, and the loop over the parents of the name.\<close>

definition dot_index :: "bytes \<Rightarrow> nat option" where
  "dot_index s = (if 0x2E \<in> set s then Some (length (takeWhile (\<lambda>b. b \<noteq> 0x2E) s)) else None)"

function match_loop :: "ReputationTable \<Rightarrow> bytes \<Rightarrow> bytes \<Rightarrow> MatchResult \<Rightarrow> MatchResult outcome" where
  "match_loop t fqdnClean cur res = obind (matchHash t cur (FNV1a64 cur) (cur = fqdnClean)) (\<lambda>(candidate, ok).
     let res = (if ok \<and> (mClassification res = 0
                       \<or> reputationRank (mClassification candidate) > reputationRank (mClassification res))
                then candidate else res) in
     case dot_index cur of
       None \<Rightarrow> Ret res
     | Some dotIdx \<Rightarrow> (if length cur \<le> dotIdx + 1 then Ret res else match_loop t fqdnClean (drop (dotIdx + 1) cur) res))"
  by pat_completeness auto

termination
  by (relation "measure (\<lambda>(t, f, cur, res). length cur)") (auto simp: dot_index_def split: if_splits)

declare match_loop.simps [simp del]

definition Match :: "unicode \<Rightarrow> ReputationTable option \<Rightarrow> bytes \<Rightarrow> (MatchResult \<times> bool) outcome" where
  "Match U tbl fqdn = (case tbl of
     None \<Rightarrow> Ret (no_match, False)
   | Some t \<Rightarrow>
     (if fqdn = [] \<or> numEntries t = 0 then Ret (no_match, False)
      else let fqdnClean = cleanDomain U fqdn in
        if \<not> validReputationDomain fqdnClean then Ret (no_match, False)
        else obind (match_loop t fqdnClean fqdnClean no_match) (\<lambda>res. Ret (res, mClassification res \<noteq> 0))))"

fun collect_entries :: "ReputationTable \<Rightarrow> nat list \<Rightarrow> BuildEntry list \<Rightarrow> BuildEntry list outcome" where
  "collect_entries t [] out = Ret out"
| "collect_entries t (i # ix) out = obind (getEntry t i) (\<lambda>e.
     if length (stringBlock t) < unat (Offset e) + unat (Length e) then collect_entries t ix out
     else obind (stored_name t e) (\<lambda>d.
       collect_entries t ix (out @ [\<lparr>Domain = d, Classification = eClassification e, MatchKind = eMatchKind e\<rparr>])))"

definition Entries :: "ReputationTable \<Rightarrow> BuildEntry list outcome" where
  "Entries t = collect_entries t [0..<numEntries t] []"

section \<open>Compiling\<close>

record item =
  ihash :: u64
  ientry :: BuildEntry

definition clean_entry :: "unicode \<Rightarrow> BuildEntry \<Rightarrow> BuildEntry" where
  "clean_entry U e = (let nameClean = TrimSuffix_dot (ToLower U (TrimSpace U (Domain e))) in
     \<lparr>Domain = nameClean, Classification = Classification e,
      MatchKind = (if isSharedHostingDomain nameClean \<and> Classification e \<noteq> RepClassBlockC2 then MatchExact else MatchKind e)\<rparr>)"

definition acceptable :: "unicode \<Rightarrow> BuildEntry \<Rightarrow> bool" where
  "acceptable U e \<longleftrightarrow> validReputationDomain (TrimSuffix_dot (ToLower U (TrimSpace U (Domain e))))
     \<and> validReputationClass (Classification e) \<and> (MatchKind e = MatchExact \<or> MatchKind e = MatchSubtree)"

text \<open>The loop that cleans the entries and adds up the size of the snapshot.\<close>

fun compile_items :: "unicode \<Rightarrow> BuildEntry list \<Rightarrow> nat \<Rightarrow> item list option" where
  "compile_items U [] bytesRequired = Some []"
| "compile_items U (e # es) bytesRequired =
     (if \<not> acceptable U e then None
      else let c = clean_entry U e; bytesRequired = bytesRequired + length (Domain c) in
        if 2 ^ 32 - 1 < bytesRequired then None
        else case compile_items U es bytesRequired of
          None \<Rightarrow> None
        | Some items \<Rightarrow> Some (\<lparr>ihash = FNV1a64 (Domain c), ientry = c\<rparr> # items))"

text \<open>The comparison given to \<open>sort.Slice\<close>, and the same order as a key.\<close>

definition item_less :: "item \<Rightarrow> item \<Rightarrow> bool" where
  "item_less a b \<longleftrightarrow>
     (if ihash a \<noteq> ihash b then ihash a < ihash b
      else if Domain (ientry a) \<noteq> Domain (ientry b) then Domain (ientry a) < Domain (ientry b)
      else if MatchKind (ientry a) \<noteq> MatchKind (ientry b) then MatchKind (ientry a) < MatchKind (ientry b)
      else reputationRank (Classification (ientry a)) > reputationRank (Classification (ientry b)))"

definition item_key :: "item \<Rightarrow> u64 \<times> bytes \<times> byte \<times> nat" where
  "item_key a = (ihash a, Domain (ientry a), MatchKind (ientry a), 255 - unat (reputationRank (Classification (ientry a))))"

definition sort_items :: "item list \<Rightarrow> item list" where
  "sort_items items = sort_key item_key items"

definition merge_step :: "item list \<Rightarrow> item \<Rightarrow> item list" where
  "merge_step merged it =
     (if merged \<noteq> [] \<and> Domain (ientry (last merged)) = Domain (ientry it) \<and> MatchKind (ientry (last merged)) = MatchKind (ientry it)
      then merged else merged @ [it])"

definition index_entry :: "u64 \<Rightarrow> u32 \<Rightarrow> BuildEntry \<Rightarrow> bytes" where
  "index_entry hash off e = le_put 8 hash @ le_put 4 off @ [word_of_nat (length (Domain e)), Classification e, MatchKind e, 0]"

fun write_items :: "item list \<Rightarrow> bytes \<Rightarrow> bytes \<Rightarrow> bytes \<times> bytes" where
  "write_items [] buf strBuf = (buf, strBuf)"
| "write_items (it # items) buf strBuf =
     write_items items (buf @ index_entry (ihash it) (word_of_nat (length strBuf)) (ientry it)) (strBuf @ Domain (ientry it))"

definition CompileReputationSnapshot :: "unicode \<Rightarrow> BuildEntry list \<Rightarrow> rep_error + bytes" where
  "CompileReputationSnapshot U entries =
     (if (2 ^ 32 - 1 - 24) div 16 < length entries then Inl ErrCorruptSnapshot
      else case compile_items U entries (24 + length entries * 16) of
        None \<Rightarrow> Inl ErrCorruptSnapshot
      | Some items \<Rightarrow>
        (let items = foldl merge_step [] (sort_items items);
             (buf, strBuf) = write_items items (replicate 24 0) [];
             stringBlockStart = (word_of_nat (length buf) :: u32);
             stringBlockLen = (word_of_nat (length strBuf) :: u32);
             res = buf @ strBuf in
         Inr (le_put 4 CompactMagic @ le_put 2 (1 :: u16) @ le_put 4 (word_of_nat (length items) :: u32)
              @ le_put 4 stringBlockStart @ le_put 4 stringBlockLen @ le_put 4 (0 :: u32) @ drop 22 res)))"

section \<open>The container and the list reader\<close>

record AtomicReputation =
  rep_ptr :: "ReputationTable option"

definition NewAtomicReputation :: "ReputationTable option \<Rightarrow> AtomicReputation" where
  "NewAtomicReputation initial = \<lparr>rep_ptr = initial\<rparr>"

definition rep_Load :: "AtomicReputation \<Rightarrow> ReputationTable option" where
  "rep_Load ar = rep_ptr ar"

definition rep_Store :: "AtomicReputation \<Rightarrow> ReputationTable option \<Rightarrow> AtomicReputation" where
  "rep_Store ar tbl = ar\<lparr>rep_ptr := tbl\<rparr>"

definition Atomic_Match :: "unicode \<Rightarrow> AtomicReputation \<Rightarrow> bytes \<Rightarrow> (MatchResult \<times> bool) outcome" where
  "Atomic_Match U ar fqdn = (case rep_Load ar of None \<Rightarrow> Ret (no_match, False) | Some tbl \<Rightarrow> Match U (Some tbl) fqdn)"

definition ReloadFromEntries :: "unicode \<Rightarrow> AtomicReputation \<Rightarrow> BuildEntry list \<Rightarrow> (AtomicReputation \<times> rep_error option) outcome" where
  "ReloadFromEntries U ar entries = (case CompileReputationSnapshot U entries of
     Inl err \<Rightarrow> Ret (ar, Some err)
   | Inr snap \<Rightarrow> obind (NewReputationTable U snap) (\<lambda>r. case r of
       Inl err \<Rightarrow> Ret (ar, Some err)
     | Inr newTbl \<Rightarrow> Ret (rep_Store ar (Some newTbl), None)))"

text \<open>
  The reader of a domain list.  The scanner over the stream is its lines and the
  error it ends with.
\<close>

definition before_hash :: "bytes \<Rightarrow> bytes" where
  "before_hash line = takeWhile (\<lambda>b. b \<noteq> 0x23) line"

fun parse_lines :: "unicode \<Rightarrow> byte \<Rightarrow> byte \<Rightarrow> bytes list \<Rightarrow> BuildEntry list \<Rightarrow> (rep_error + BuildEntry list) outcome" where
  "parse_lines U classification matchKind [] entries = Ret (Inr entries)"
| "parse_lines U classification matchKind (l # ls) entries = (let line = TrimSpace U l in
     if line = [] \<or> hd line = 0x23 then parse_lines U classification matchKind ls entries
     else let fields = Fields U (before_hash line) in
       obind (get_at fields 0) (\<lambda>f0.
       let hosts = 2 \<le> length fields \<and> (f0 = ascii ''0.0.0.0'' \<or> f0 = ascii ''127.0.0.1'');
           domain = TrimSuffix_dot (ToLower U (if hosts then fields ! 1 else f0)) in
       if length fields \<noteq> (if hosts then 2 else 1) \<or> \<not> validReputationDomain domain then Ret (Inl ErrCorruptSnapshot)
       else parse_lines U classification matchKind ls
         (if 0 < length domain then entries @ [\<lparr>Domain = domain, Classification = classification, MatchKind = matchKind\<rparr>] else entries)))"

definition ParseDomainList :: "unicode \<Rightarrow> bytes list \<Rightarrow> bool \<Rightarrow> byte \<Rightarrow> byte \<Rightarrow> (rep_error option \<times> BuildEntry list) outcome" where
  "ParseDomainList U lines scan_failed classification matchKind =
     (if \<not> validReputationClass classification \<or> (matchKind \<noteq> MatchExact \<and> matchKind \<noteq> MatchSubtree)
      then Ret (Some ErrCorruptSnapshot, [])
      else obind (parse_lines U classification matchKind lines []) (\<lambda>r. case r of
        Inl err \<Rightarrow> Ret (Some err, [])
      | Inr entries \<Rightarrow> Ret (if scan_failed then Some ErrScan else None, entries)))"

section \<open>Valid names\<close>

definition name_byte :: "byte \<Rightarrow> bool" where
  "name_byte b \<longleftrightarrow> dnsLabelByte b \<or> b = 0x2E"

lemma domain_loop_bytes: "domain_loop prev n s \<noteq> None \<Longrightarrow> b \<in> set s \<Longrightarrow> name_byte b"
  by (induction prev n s rule: domain_loop.induct) (auto simp: name_byte_def split: if_splits)

lemma domain_loop_last:
  "domain_loop prev n s = Some k \<Longrightarrow> s \<noteq> [] \<Longrightarrow> last s = 0x2E \<Longrightarrow> k = 0"
proof (induction prev n s rule: domain_loop.induct)
  case (2 prev n b bs)
  then show ?case by (cases "bs = []") (auto split: if_splits)
qed simp

lemma valid_domain:
  assumes "validReputationDomain s"
  shows "s \<noteq> []" "length s \<le> 253" "b \<in> set s \<Longrightarrow> name_byte b" "last s \<noteq> 0x2E"
proof -
  obtain k where k: "domain_loop 0 0 s = Some k" "0 < k" "s \<noteq> []" "length s \<le> 253"
    using assms by (auto simp: validReputationDomain_def split: option.splits)
  then show "s \<noteq> []" "length s \<le> 253" "b \<in> set s \<Longrightarrow> name_byte b" "last s \<noteq> 0x2E"
    using domain_loop_bytes[of 0 0 s b] domain_loop_last[OF k(1,3)] by auto
qed

lemma name_byte_lower: "name_byte b \<Longrightarrow> \<not> is_upper b"
  by (auto simp: name_byte_def dnsLabelByte_def is_upper_def word_le_nat_alt)

lemma clean_valid [simp]:
  assumes "validReputationDomain s"
  shows "cleanDomain U s = s"
  using valid_domain[OF assms] name_byte_lower by (auto simp: cleanDomain_def TrimSuffix_dot_def list_ex_iff)

section \<open>The loader\<close>

definition entry_at :: "bytes \<Rightarrow> nat \<Rightarrow> CompactEntry" where
  "entry_at ed i = \<lparr>DomainHash = le_get (subslice (i * 16) (i * 16 + 8) ed), Offset = le_get (subslice (i * 16 + 8) (i * 16 + 12) ed),
     Length = ed ! (i * 16 + 12), eClassification = ed ! (i * 16 + 13), eMatchKind = ed ! (i * 16 + 14), eFlags = ed ! (i * 16 + 15)\<rparr>"

definition name_of :: "bytes \<Rightarrow> CompactEntry \<Rightarrow> bytes" where
  "name_of sb e = subslice (unat (Offset e)) (unat (Offset e) + unat (Length e)) sb"

definition entry_ok :: "bytes \<Rightarrow> CompactEntry \<Rightarrow> bool" where
  "entry_ok sb e \<longleftrightarrow> unat (Offset e) + unat (Length e) \<le> length sb \<and> validReputationDomain (name_of sb e)
     \<and> DomainHash e = FNV1a64 (name_of sb e) \<and> validReputationClass (eClassification e)
     \<and> (eMatchKind e = MatchExact \<or> eMatchKind e = MatchSubtree) \<and> eFlags e = 0"

abbreviation hash_at :: "bytes \<Rightarrow> nat \<Rightarrow> u64" where
  "hash_at ed i \<equiv> DomainHash (entry_at ed i)"

lemma check_entry_eq:
  assumes "(i + 1) * 16 \<le> length ed"
  shows "check_entry U ed sb i prev = Ret (if entry_ok sb (entry_at ed i) \<and> (0 < i \<longrightarrow> prev \<le> hash_at ed i)
     then Some (hash_at ed i) else None)"
proof -
  define e where "e = entry_at ed i"
  define name where "name = name_of sb e"
  have fields: "slice_at ed (i * 16 + 8) (i * 16 + 12) = Ret (subslice (i * 16 + 8) (i * 16 + 12) ed)"
    "get_at ed (i * 16 + 12) = Ret (Length e)" "slice_at ed (i * 16) (i * 16 + 8) = Ret (subslice (i * 16) (i * 16 + 8) ed)"
    "get_at ed (i * 16 + 13) = Ret (eClassification e)" "get_at ed (i * 16 + 14) = Ret (eMatchKind e)"
    "get_at ed (i * 16 + 15) = Ret (eFlags e)"
    using assms by (simp_all add: e_def entry_at_def)
  have words: "le_get (subslice (i * 16 + 8) (i * 16 + 12) ed) = Offset e" "le_get (subslice (i * 16) (i * 16 + 8) ed) = DomainHash e"
    by (simp_all add: e_def entry_at_def)
  have ok: "entry_ok sb e \<longleftrightarrow> unat (Offset e) + unat (Length e) \<le> length sb \<and> validReputationDomain name
     \<and> DomainHash e = FNV1a64 name \<and> validReputationClass (eClassification e)
     \<and> (eMatchKind e = MatchExact \<or> eMatchKind e = MatchSubtree) \<and> eFlags e = 0"
    by (simp only: entry_ok_def name_def)
  show ?thesis
  proof (cases "unat (Offset e) + unat (Length e) \<le> length sb")
    case False
    then have bad: "length sb < unat (Offset e) \<or> length sb - unat (Offset e) < unat (Length e)" by linarith
    then have "check_entry U ed sb i prev = Ret None"
      unfolding check_entry_def Let_def fields words obind.simps by (simp only: if_True simp_thms)
    then show ?thesis using False ok by (simp add: e_def)
  next
    case True
    then have fit: "(length sb < unat (Offset e) \<or> length sb - unat (Offset e) < unat (Length e)) = False" by (simp add: not_less)
    have sl: "slice_at sb (unat (Offset e)) (unat (Offset e) + unat (Length e)) = Ret name"
      using True by (simp add: name_of_def name_def)
    have "check_entry U ed sb i prev =
       (if \<not> validReputationDomain name \<or> name \<noteq> cleanDomain U name \<or> DomainHash e \<noteq> FNV1a64 name \<or> (0 < i \<and> DomainHash e < prev)
        then Ret None else if \<not> validReputationClass (eClassification e) then Ret None
        else if eMatchKind e \<noteq> MatchExact \<and> eMatchKind e \<noteq> MatchSubtree then Ret None
        else if eFlags e \<noteq> 0 then Ret None else Ret (Some (DomainHash e)))"
      unfolding check_entry_def Let_def fields words obind.simps fit sl if_False ..
    then show ?thesis unfolding e_def[symmetric] ok using True by (auto simp: not_less)
  qed
qed

lemma check_entries_eq:
  assumes "n * 16 \<le> length ed"
  shows "i \<le> n \<Longrightarrow> check_entries U ed sb [i..<n] prev = Ret (list_all (\<lambda>j. entry_ok sb (entry_at ed j)) [i..<n]
     \<and> sorted ((if i = 0 then [] else [prev]) @ map (hash_at ed) [i..<n]))"
proof (induction "n - i" arbitrary: i prev)
  case 0
  then show ?case by simp
next
  case (Suc k)
  then have i: "i < n" by simp
  have up: "[i..<n] = i # [Suc i..<n]" using i by (rule upt_conv_Cons)
  have len: "(i + 1) * 16 \<le> length ed" using i assms mult_le_mono1[of "i + 1" n 16] by linarith
  have IH: "check_entries U ed sb [Suc i..<n] (hash_at ed i) = Ret (list_all (\<lambda>j. entry_ok sb (entry_at ed j)) [Suc i..<n]
     \<and> sorted (hash_at ed i # map (hash_at ed) [Suc i..<n]))"
    using Suc.hyps(1)[of "Suc i" "hash_at ed i"] Suc.hyps(2) i by simp
  show ?case unfolding up check_entries.simps check_entry_eq[OF len]
    using IH by (auto simp del: upt_Suc)
qed

section \<open>The loaded table\<close>

text \<open>What the loader establishes of a table, and the list of entries the table stands for.\<close>

definition table_ok :: "ReputationTable \<Rightarrow> bool" where
  "table_ok t \<longleftrightarrow> length (entriesData t) = numEntries t * 16 \<and> length (stringBlock t) < 2 ^ 32
     \<and> (\<forall>i < numEntries t. entry_ok (stringBlock t) (entry_at (entriesData t) i))
     \<and> sorted (map (hash_at (entriesData t)) [0..<numEntries t])"

definition build_at :: "ReputationTable \<Rightarrow> nat \<Rightarrow> BuildEntry" where
  "build_at t i = (let e = entry_at (entriesData t) i in
     \<lparr>Domain = name_of (stringBlock t) e, Classification = eClassification e, MatchKind = eMatchKind e\<rparr>)"

definition table_list :: "ReputationTable \<Rightarrow> BuildEntry list" where
  "table_list t = map (build_at t) [0..<numEntries t]"

definition build_ok :: "BuildEntry \<Rightarrow> bool" where
  "build_ok e \<longleftrightarrow> validReputationDomain (Domain e) \<and> validReputationClass (Classification e)
     \<and> (MatchKind e = MatchExact \<or> MatchKind e = MatchSubtree)"

text \<open>The outcome of the loader, on every input.\<close>

definition snapshot_shape :: "bytes \<Rightarrow> bool" where
  "snapshot_shape raw \<longleftrightarrow> 24 \<le> length raw \<and> (le_get (subslice 0 4 raw) :: u32) = CompactMagic \<and> (le_get (subslice 4 6 raw) :: u16) = 1
     \<and> subslice 18 24 raw = replicate 6 0
     \<and> 24 + le_nat (subslice 6 10 raw) * 16 = le_nat (subslice 10 14 raw)
     \<and> le_nat (subslice 10 14 raw) + le_nat (subslice 14 18 raw) = length raw"

definition table_of :: "bytes \<Rightarrow> ReputationTable" where
  "table_of raw = (let n = le_nat (subslice 6 10 raw) in
     \<lparr>rawBytes = raw, numEntries = n, entriesData = subslice 24 (24 + n * 16) raw, stringBlock = drop (24 + n * 16) raw\<rparr>)"

lemma unat_field: "unat (le_get (subslice i (i + 4) raw) :: u32) = le_nat (subslice i (i + 4) raw)"
  by (rule unat_le_get) simp

lemma NewReputationTable_eq:
  "NewReputationTable U raw = Ret (if snapshot_shape raw \<and> table_ok (table_of raw) then Inr (table_of raw)
     else Inl (if 24 \<le> length raw \<and> (le_get (subslice 0 4 raw) :: u32) \<noteq> CompactMagic then ErrInvalidMagic else ErrCorruptSnapshot))"
proof (cases "24 \<le> length raw \<and> (le_get (subslice 0 4 raw) :: u32) = CompactMagic \<and> (le_get (subslice 4 6 raw) :: u16) = 1
     \<and> subslice 18 24 raw = replicate 6 0")
  case False
  then have "\<not> snapshot_shape raw" by (auto simp: snapshot_shape_def)
  then show ?thesis using False by (auto simp: NewReputationTable_def)
next
  case True
  define n where "n = le_nat (subslice 6 10 raw)"
  define st where "st = le_nat (subslice 10 14 raw)"
  define ln where "ln = le_nat (subslice 14 18 raw)"
  have words: "unat (le_get (subslice 6 10 raw) :: u32) = n" "unat (le_get (subslice 10 14 raw) :: u32) = st"
    "unat (le_get (subslice 14 18 raw) :: u32) = ln"
    using unat_field[of 6 raw] unat_field[of 10 raw] unat_field[of 14 raw] by (simp_all add: n_def st_def ln_def)
  have shape: "snapshot_shape raw \<longleftrightarrow> 24 + n * 16 = st \<and> st + ln = length raw"
    using True by (simp add: snapshot_shape_def n_def st_def ln_def)
  have guard: "((length raw - 24) div 16 < n \<or> st \<noteq> 24 + n * 16 \<or> length raw < st \<or> ln \<noteq> length raw - st) \<longleftrightarrow> \<not> snapshot_shape raw"
    using True unfolding shape by (auto simp: div_less_iff_less_mult)
  show ?thesis
  proof (cases "snapshot_shape raw")
    case False
    then show ?thesis using True guard by (simp add: NewReputationTable_def words)
  next
    case ok: True
    then have dims: "24 + n * 16 = st" "st + ln = length raw" using shape by simp_all
    define t where "t = table_of raw"
    have t: "t = \<lparr>rawBytes = raw, numEntries = n, entriesData = subslice 24 (24 + n * 16) raw, stringBlock = drop (24 + n * 16) raw\<rparr>"
      by (simp add: t_def table_of_def n_def Let_def)
    have len: "length (subslice 24 (24 + n * 16) raw) = n * 16" using dims by simp
    have "24 \<le> length raw" using True by blast
    then have "length (subslice 14 18 raw) = 4" by simp
    then have "ln < 2 ^ 32" using le_nat_bound[of "subslice 14 18 raw"] by (simp add: ln_def)
    then have sb: "length (stringBlock t) < 2 ^ 32" using dims by (simp add: t)
    have sl: "slice_at raw 24 (24 + n * 16) = Ret (entriesData t)" "slice_at raw st (st + ln) = Ret (stringBlock t)"
      using dims by (simp_all add: t subslice_def)
    have chk: "check_entries U (entriesData t) (stringBlock t) [0..<n] 0 = Ret (table_ok t)"
      using check_entries_eq[of n "entriesData t" 0] len sb
      by (auto simp: t table_ok_def list_all_iff)
    have "NewReputationTable U raw = (if table_ok t then Ret (Inr \<lparr>rawBytes = raw, numEntries = n,
        entriesData = entriesData t, stringBlock = stringBlock t\<rparr>) else Ret (Inl ErrCorruptSnapshot))"
    proof -
      have g: "(length raw < 24) = False" "((length raw - 24) div 16 < n \<or> st \<noteq> 24 + n * 16 \<or> length raw < st \<or> ln \<noteq> length raw - st) = False"
        "((le_get (subslice 0 4 raw) :: u32) \<noteq> CompactMagic) = False"
        "((le_get (subslice 4 6 raw) :: u16) \<noteq> 1 \<or> subslice 18 24 raw \<noteq> replicate 6 0) = False"
        using True ok guard by auto
      show ?thesis unfolding NewReputationTable_def Let_def words g sl obind.simps chk if_False ..
    qed
    then show ?thesis using ok True unfolding t_def[symmetric] by (simp add: t)
  qed
qed

section \<open>Reading a loaded table\<close>

lemma getEntry_ok:
  assumes "table_ok t" "i < numEntries t"
  shows "getEntry t i = Ret (entry_at (entriesData t) i)"
proof -
  have "(i + 1) * 16 \<le> length (entriesData t)"
    using assms mult_le_mono1[of "i + 1" "numEntries t" 16] by (simp add: table_ok_def)
  then show ?thesis by (simp add: getEntry_def entry_at_def Let_def)
qed

lemma entry_end:
  assumes "entry_ok sb e" "length sb < 2 ^ 32"
  shows "unat (Offset e + ucast (Length e)) = unat (Offset e) + unat (Length e)"
proof -
  have "unat (Offset e) + unat (Length e) < 2 ^ 32" using assms by (simp add: entry_ok_def)
  moreover have "unat (ucast (Length e) :: u32) = unat (Length e)"
    using unat_bound[of "Length e"] by (simp only: unat_ucast_mod) simp
  ultimately show ?thesis using unat_add_lem[of "Offset e" "ucast (Length e)"] by simp
qed

lemma stored_name_ok:
  assumes "table_ok t" "i < numEntries t"
  shows "stored_name t (entry_at (entriesData t) i) = Ret (Domain (build_at t i))"
proof -
  have ok: "entry_ok (stringBlock t) (entry_at (entriesData t) i)" "length (stringBlock t) < 2 ^ 32"
    using assms by (simp_all add: table_ok_def)
  then have "unat (Offset (entry_at (entriesData t) i)) + unat (Length (entry_at (entriesData t) i)) \<le> length (stringBlock t)"
    by (simp add: entry_ok_def)
  then show ?thesis unfolding stored_name_def entry_end[OF ok] by (simp add: build_at_def name_of_def Let_def)
qed

lemma build_at_ok:
  assumes "table_ok t" "i < numEntries t"
  shows "build_ok (build_at t i)" "hash_at (entriesData t) i = FNV1a64 (Domain (build_at t i))"
  using assms by (simp_all add: table_ok_def entry_ok_def build_ok_def build_at_def Let_def)

lemma hash_mono:
  assumes "table_ok t" "i \<le> j" "j < numEntries t"
  shows "hash_at (entriesData t) i \<le> hash_at (entriesData t) j"
  using assms sorted_nth_mono[of "map (hash_at (entriesData t)) [0..<numEntries t]" i j] by (simp add: table_ok_def)

lemma collect_entries_ok:
  assumes "table_ok t"
  shows "list_all (\<lambda>i. i < numEntries t) ix \<Longrightarrow> collect_entries t ix out = Ret (out @ map (build_at t) ix)"
proof (induction ix arbitrary: out)
  case (Cons i ix)
  then have i: "i < numEntries t" by simp
  have "entry_ok (stringBlock t) (entry_at (entriesData t) i)" using assms i by (simp add: table_ok_def)
  then have "\<not> length (stringBlock t) < unat (Offset (entry_at (entriesData t) i)) + unat (Length (entry_at (entriesData t) i))"
    by (simp add: entry_ok_def)
  moreover have "build_at t i = \<lparr>Domain = Domain (build_at t i), Classification = eClassification (entry_at (entriesData t) i),
      MatchKind = eMatchKind (entry_at (entriesData t) i)\<rparr>" by (simp add: build_at_def Let_def)
  ultimately show ?case using Cons by (simp add: getEntry_ok[OF assms i] stored_name_ok[OF assms i])
qed simp

lemma Entries_ok: "table_ok t \<Longrightarrow> Entries t = Ret (table_list t)"
  by (simp add: Entries_def table_list_def collect_entries_ok list_all_iff)

lemma lower_bound_ok:
  assumes "table_ok t"
  shows "\<lbrakk>low \<le> high; high \<le> numEntries t; \<forall>i < low. hash_at (entriesData t) i < h;
     \<forall>i < numEntries t. high \<le> i \<longrightarrow> h \<le> hash_at (entriesData t) i\<rbrakk> \<Longrightarrow>
    \<exists>k \<le> numEntries t. lower_bound t h low high = Ret k \<and> (\<forall>i < k. hash_at (entriesData t) i < h)
     \<and> (\<forall>i < numEntries t. k \<le> i \<longrightarrow> h \<le> hash_at (entriesData t) i)"
proof (induction "high - low" arbitrary: low high rule: less_induct)
  case less
  show ?case
  proof (cases "low < high")
    case False
    then show ?thesis using less.prems by (subst lower_bound.simps) (auto intro!: exI[of _ low])
  next
    case True
    define mid where "mid = low + (high - low) div 2"
    have mid: "low \<le> mid" "mid < high" using True by (simp_all add: mid_def)
    then have n: "mid < numEntries t" using less.prems(2) by simp
    have len: "mid * 16 + 8 \<le> length (entriesData t)"
      using assms n mult_le_mono1[of "mid + 1" "numEntries t" 16] by (simp add: table_ok_def)
    have step: "lower_bound t h low high = (if hash_at (entriesData t) mid < h
        then lower_bound t h (mid + 1) high else lower_bound t h low mid)"
      using True len by (subst lower_bound.simps) (simp add: mid_def[symmetric] Let_def subslice_def entry_at_def)
    show ?thesis
    proof (cases "hash_at (entriesData t) mid < h")
      case below: True
      have "\<forall>i < mid + 1. hash_at (entriesData t) i < h"
        using hash_mono[OF assms _ n] below by (metis le_less_trans less_Suc_eq_le Suc_eq_plus1)
      then show ?thesis using less.hyps[of high "mid + 1"] less.prems mid below step by simp
    next
      case above: False
      have "\<forall>i < numEntries t. mid \<le> i \<longrightarrow> h \<le> hash_at (entriesData t) i"
        using hash_mono[OF assms] above by (meson not_less order_trans)
      then show ?thesis using less.hyps[of mid low] less.prems mid n above step by simp
    qed
  qed
qed

section \<open>The candidates of one name\<close>

definition cand :: "bytes \<Rightarrow> bool \<Rightarrow> BuildEntry \<Rightarrow> bool" where
  "cand name exact e \<longleftrightarrow> Domain e = name \<and> (exact \<or> (MatchKind e = MatchSubtree
     \<and> (\<not> isSharedHostingDomain name \<or> Classification e = RepClassBlockC2)))"

definition pick :: "MatchResult \<Rightarrow> BuildEntry \<Rightarrow> MatchResult" where
  "pick res e = prefer_match res (Domain e) (Classification e) (MatchKind e)"

lemma scan_equal_ok:
  assumes t: "table_ok t"
  shows "k \<le> numEntries t \<Longrightarrow> \<forall>i < numEntries t. k \<le> i \<longrightarrow> FNV1a64 name \<le> hash_at (entriesData t) i \<Longrightarrow>
    scan_equal t name (FNV1a64 name) exact [k..<numEntries t] res
     = Ret (foldl pick res (filter (cand name exact) (map (build_at t) [k..<numEntries t])))"
proof (induction "numEntries t - k" arbitrary: k res)
  case 0
  then show ?case by simp
next
  case (Suc m)
  then have k: "k < numEntries t" by simp
  have up: "[k..<numEntries t] = k # [Suc k..<numEntries t]" using k by (rule upt_conv_Cons)
  show ?case
  proof (cases "hash_at (entriesData t) k = FNV1a64 name")
    case False
    then have "FNV1a64 name < hash_at (entriesData t) k" using Suc.prems(2) k by (metis order_le_less order_refl)
    then have "Domain (build_at t i) \<noteq> name" if "k \<le> i" "i < numEntries t" for i
      using hash_mono[OF t that] build_at_ok(2)[OF t that(2)] by auto
    then have "filter (cand name exact) (map (build_at t) [k..<numEntries t]) = []"
      by (auto simp: filter_empty_conv cand_def)
    then show ?thesis unfolding up using False by (simp add: getEntry_ok[OF t k] del: upt_Suc)
  next
    case True
    have IH: "scan_equal t name (FNV1a64 name) exact [Suc k..<numEntries t] r
       = Ret (foldl pick r (filter (cand name exact) (map (build_at t) [Suc k..<numEntries t])))" for r
      using Suc.hyps(1)[of "Suc k" r] Suc.hyps(2) Suc.prems k by simp
    have f: "eClassification (entry_at (entriesData t) k) = Classification (build_at t k)"
      "eMatchKind (entry_at (entriesData t) k) = MatchKind (build_at t k)" by (simp_all add: build_at_def Let_def)
    show ?thesis unfolding up
      by (auto simp: True getEntry_ok[OF t k] stored_name_ok[OF t k] IH f cand_def pick_def simp del: upt_Suc)
  qed
qed

lemma matchHash_ok:
  assumes t: "table_ok t"
  defines "r name exact \<equiv> foldl pick no_match (filter (cand name exact) (table_list t))"
  shows "matchHash t name (FNV1a64 name) exact = Ret (r name exact, mClassification (r name exact) \<noteq> 0)"
proof -
  obtain k where k: "k \<le> numEntries t" "lower_bound t (FNV1a64 name) 0 (numEntries t) = Ret k"
    "\<forall>i < k. hash_at (entriesData t) i < FNV1a64 name" "\<forall>i < numEntries t. k \<le> i \<longrightarrow> FNV1a64 name \<le> hash_at (entriesData t) i"
    using lower_bound_ok[OF t, of 0 "numEntries t" "FNV1a64 name"] by auto
  have "filter (cand name exact) (map (build_at t) [0..<k]) = []"
    using k(1,3) build_at_ok(2)[OF t] by (fastforce simp: filter_empty_conv cand_def)
  moreover have "[0..<numEntries t] = [0..<k] @ [k..<numEntries t]" using k(1) upt_add_eq_append[of 0 k "numEntries t - k"] by simp
  ultimately have "filter (cand name exact) (table_list t) = filter (cand name exact) (map (build_at t) [k..<numEntries t])"
    by (simp add: table_list_def)
  then show ?thesis unfolding matchHash_def k(2) obind.simps scan_equal_ok[OF t k(1,4)] r_def by simp
qed

section \<open>The best entry of a set\<close>

definition result_of :: "BuildEntry \<Rightarrow> MatchResult" where
  "result_of e = \<lparr>MatchedDomain = Domain e, mClassification = Classification e, mMatchKind = MatchKind e\<rparr>"

text \<open>The order the search maximises: rank, then length of the domain, then exact before subtree.\<close>

definition outranks :: "BuildEntry \<Rightarrow> BuildEntry \<Rightarrow> bool" where
  "outranks e e' \<longleftrightarrow> reputationRank (Classification e') < reputationRank (Classification e)
     \<or> (reputationRank (Classification e') = reputationRank (Classification e)
        \<and> (length (Domain e') < length (Domain e) \<or> (Domain e' = Domain e \<and> MatchKind e \<le> MatchKind e')))"

definition best :: "BuildEntry set \<Rightarrow> MatchResult \<Rightarrow> bool" where
  "best S r \<longleftrightarrow> (if S = {} then r = no_match else \<exists>e \<in> S. r = result_of e \<and> (\<forall>e' \<in> S. outranks e e'))"

lemma valid_class_cases:
  assumes "validReputationClass cl"
  obtains "cl = 1" | "cl = 2" | "cl = 3" | "cl = 4"
proof -
  have "1 \<le> unat cl" "unat cl \<le> 4" using assms by (simp_all add: validReputationClass_def word_le_nat_alt)
  then have "unat cl = 1 \<or> unat cl = 2 \<or> unat cl = 3 \<or> unat cl = 4" by linarith
  then have "cl = 1 \<or> cl = 2 \<or> cl = 3 \<or> cl = 4"
    by (auto simp: word_unat_eq_iff)
  then show ?thesis using that by blast
qed

lemma rank_inj:
  assumes "validReputationClass a" "validReputationClass b"
  shows "reputationRank a = reputationRank b \<longleftrightarrow> a = b"
  using assms by (elim valid_class_cases) (simp_all add: reputationRank_def)

lemma valid_class_nonzero: "validReputationClass cl \<Longrightarrow> cl \<noteq> 0"
  by (elim valid_class_cases) simp_all

lemma outranks_trans: "outranks a b \<Longrightarrow> outranks b c \<Longrightarrow> outranks a c"
  by (auto simp: outranks_def)

lemma outranks_total: "Domain e = Domain e' \<Longrightarrow> \<not> outranks e e' \<Longrightarrow> outranks e' e"
  by (auto simp: outranks_def)

lemma outranks_refl [simp]: "outranks e e"
  by (simp add: outranks_def)

lemma best_found:
  assumes "best S r" "\<forall>e \<in> S. build_ok e"
  shows "mClassification r = 0 \<longleftrightarrow> S = {}"
  using assms by (auto simp: best_def no_match_def result_of_def build_ok_def dest!: valid_class_nonzero split: if_splits)

lemma pick_result_of:
  assumes "build_ok e" "build_ok e'" "Domain e = Domain e'"
  shows "pick (result_of e) e' = (if outranks e e' then result_of e else result_of e')"
proof -
  have ok: "validReputationClass (Classification e)" "validReputationClass (Classification e')"
    using assms by (simp_all add: build_ok_def)
  have nz: "Classification e \<noteq> 0" using valid_class_nonzero[OF ok(1)] .
  consider "reputationRank (Classification e') < reputationRank (Classification e)" "Classification e \<noteq> Classification e'"
    | "reputationRank (Classification e) < reputationRank (Classification e')" "Classification e \<noteq> Classification e'"
    | "Classification e = Classification e'"
    using rank_inj[OF ok] by fastforce
  then show ?thesis
  proof cases
    case 1
    then show ?thesis using nz by (simp add: pick_def prefer_match_def result_of_def outranks_def)
  next
    case 2
    then have "\<not> outranks e e'" by (auto simp: outranks_def)
    then show ?thesis using 2 by (simp add: pick_def prefer_match_def result_of_def outranks_def)
  next
    case 3
    then show ?thesis using nz assms(3) by (auto simp: pick_def prefer_match_def result_of_def outranks_def not_less)
  qed
qed

lemma best_pick:
  assumes "\<forall>e \<in> set xs. build_ok e \<and> Domain e = d"
  shows "best (set xs) (foldl pick no_match xs)"
  using assms
proof (induction xs rule: rev_induct)
  case Nil
  then show ?case by (simp add: best_def)
next
  case (snoc x xs)
  show ?case
  proof (cases "xs = []")
    case True
    then show ?thesis by (simp add: best_def pick_def prefer_match_def no_match_def result_of_def)
  next
    case False
    then obtain e where e: "e \<in> set xs" "foldl pick no_match xs = result_of e" "\<forall>e' \<in> set xs. outranks e e'"
      using snoc by (auto simp: best_def)
    have ok: "build_ok e" "build_ok x" "Domain e = Domain x" using snoc.prems e(1) by auto
    show ?thesis
    proof (cases "outranks e x")
      case True
      then show ?thesis using e ok by (auto simp: best_def pick_result_of)
    next
      case F: False
      then have "\<forall>e' \<in> set xs. outranks x e'" using e(3) outranks_total[OF ok(3)] outranks_trans by blast
      then show ?thesis using F e(2) ok by (auto simp: best_def pick_result_of)
    qed
  qed
qed

text \<open>Two sets of entries, the domains of the second shorter than those of the first.\<close>

lemma best_union:
  assumes S: "best S r" "\<forall>e \<in> S. build_ok e" and C: "best C c" "\<forall>e \<in> C. build_ok e"
    and shorter: "\<forall>e \<in> S. \<forall>e' \<in> C. length (Domain e') < length (Domain e)"
  shows "best (S \<union> C) (if mClassification c \<noteq> 0 \<and> (mClassification r = 0
     \<or> reputationRank (mClassification c) > reputationRank (mClassification r)) then c else r)"
proof (cases "S = {} \<or> C = {}")
  case True
  then show ?thesis
  proof
    assume "C = {}"
    then show ?thesis using S(1) best_found[OF C] by simp
  next
    assume "S = {}"
    then show ?thesis using S(1) C(1) best_found[OF S] best_found[OF C] by (cases "C = {}") (simp_all add: best_def)
  qed
next
  case False
  obtain e where e: "e \<in> S" "r = result_of e" "\<forall>e' \<in> S. outranks e e'" using S(1) False by (auto simp: best_def)
  obtain d where d: "d \<in> C" "c = result_of d" "\<forall>e' \<in> C. outranks d e'" using C(1) False by (auto simp: best_def)
  have nz: "mClassification c \<noteq> 0" "mClassification r \<noteq> 0" using best_found[OF S] best_found[OF C] False by simp_all
  show ?thesis
  proof (cases "reputationRank (mClassification r) < reputationRank (mClassification c)")
    case True
    then have "outranks d e" by (simp add: outranks_def e d result_of_def)
    then have "\<forall>e' \<in> S \<union> C. outranks d e'" using e(3) d(3) outranks_trans by blast
    then show ?thesis using True nz d(1,2) False by (auto simp: best_def)
  next
    case not: False
    then have "outranks e d" using shorter e(1) d(1) by (auto simp: outranks_def e d result_of_def)
    then have "\<forall>e' \<in> S \<union> C. outranks e e'" using e(3) d(3) outranks_trans by blast
    then show ?thesis using not nz e(1,2) False by (auto simp: best_def)
  qed
qed

section \<open>The search over the parents of a name\<close>

text \<open>An entry covers a name when it is the name itself or, as a subtree, a parent domain at a label boundary.\<close>

definition covers :: "bytes \<Rightarrow> BuildEntry \<Rightarrow> bool" where
  "covers f e \<longleftrightarrow> Domain e = f \<or> (suffix (0x2E # Domain e) f \<and> MatchKind e = MatchSubtree
     \<and> (\<not> isSharedHostingDomain (Domain e) \<or> Classification e = RepClassBlockC2))"

definition boundary :: "bytes \<Rightarrow> bytes \<Rightarrow> bool" where
  "boundary f d \<longleftrightarrow> d = f \<or> suffix (0x2E # d) f"

lemma boundary_below:
  assumes "boundary f c" "boundary f d" "length d < length c"
  shows "suffix (0x2E # d) c"
proof -
  have "suffix (0x2E # d) f" using assms by (auto simp: boundary_def dest: suffix_length_le)
  moreover have "suffix c f" using assms(1) by (auto simp: boundary_def dest: suffix_ConsD)
  ultimately show ?thesis using assms(3) suffix_length_suffix[of "0x2E # d" f c] by simp
qed

lemma dot_index_None: "dot_index s = None \<Longrightarrow> \<not> suffix (0x2E # d) s"
  by (auto simp: dot_index_def suffix_def split: if_splits)

lemma dot_index_Some:
  assumes "dot_index s = Some k"
  shows "suffix (0x2E # drop (k + 1) s) s" "suffix (0x2E # d) s \<Longrightarrow> length d \<le> length (drop (k + 1) s)"
proof -
  have k: "k = length (takeWhile (\<lambda>b. b \<noteq> 0x2E) s)" "0x2E \<in> set s" using assms by (auto simp: dot_index_def split: if_splits)
  then have "dropWhile (\<lambda>b. b \<noteq> 0x2E) s \<noteq> []" by (auto simp: dropWhile_eq_Nil_conv)
  then have lt: "k < length s"
    using arg_cong[OF takeWhile_dropWhile_id[of "\<lambda>b. b \<noteq> 0x2E" s], of length] unfolding k(1) length_append
    by (metis length_greater_0_conv less_add_same_cancel1)
  then have "s ! k = 0x2E" using nth_length_takeWhile[of "\<lambda>b. b \<noteq> 0x2E" s] k by simp
  then have "drop k s = 0x2E # drop (k + 1) s" using Cons_nth_drop_Suc[OF lt] by simp
  then show "suffix (0x2E # drop (k + 1) s) s" by (metis suffix_drop)
  assume "suffix (0x2E # d) s"
  then obtain p where s: "s = p @ 0x2E # d" by (auto simp: suffix_def)
  have "k \<le> length p"
    using takeWhile_append[of "\<lambda>b. b \<noteq> 0x2E" p "0x2E # d"] length_takeWhile_le[of "\<lambda>b. b \<noteq> 0x2E" p]
    unfolding k(1) s by (auto split: if_splits)
  then show "length d \<le> length (drop (k + 1) s)" by (simp add: s)
qed

text \<open>The entries that cover the name with a domain longer than \<open>n\<close>.\<close>

definition covering :: "BuildEntry set \<Rightarrow> bytes \<Rightarrow> nat \<Rightarrow> BuildEntry set" where
  "covering E f n = {e \<in> E. covers f e \<and> n < length (Domain e)}"

lemma covers_boundary: "covers f e \<Longrightarrow> boundary f (Domain e)"
  by (auto simp: covers_def boundary_def)

lemma covering_step:
  assumes "boundary f c" "\<And>d. suffix (0x2E # d) c \<Longrightarrow> d \<noteq> [] \<Longrightarrow> length d \<le> n" "\<forall>e \<in> E. Domain e \<noteq> []" "n < length c"
  shows "covering E f n = covering E f (length c) \<union> {e \<in> E. cand c (c = f) e}"
proof -
  have same: "Domain e = c" if "e \<in> E" "covers f e" "n < length (Domain e)" "\<not> length c < length (Domain e)" for e
  proof (rule ccontr)
    assume ne: "Domain e \<noteq> c"
    have b: "boundary f (Domain e)" using that covers_boundary by blast
    have "length (Domain e) \<noteq> length c"
    proof
      assume l: "length (Domain e) = length c"
      have "suffix (Domain e) f" "suffix c f" using b assms(1) by (auto simp: boundary_def dest: suffix_ConsD)
      then show False using l ne suffix_length_suffix[of "Domain e" f c] by (auto simp: suffix_def)
    qed
    then have "suffix (0x2E # Domain e) c" using boundary_below[OF assms(1) b] that(4) by simp
    then show False using assms(2)[of "Domain e"] assms(3) that(1,3) by fastforce
  qed
  have "covers f e" if "cand c (c = f) e" for e
    using that assms(1) by (auto simp: cand_def covers_def boundary_def)
  moreover have "cand c (c = f) e" if "covers f e" "Domain e = c" for e
    using that by (auto simp: cand_def covers_def)
  ultimately have iff: "cand c (c = f) e \<longleftrightarrow> covers f e \<and> Domain e = c" for e by (auto simp: cand_def)
  show ?thesis
  proof (rule set_eqI)
    fix e
    show "e \<in> covering E f n \<longleftrightarrow> e \<in> covering E f (length c) \<union> {e \<in> E. cand c (c = f) e}"
    proof (cases "length c < length (Domain e)")
      case True
      then show ?thesis using assms(4) by (auto simp: covering_def iff)
    next
      case False
      then show ?thesis using same[of e] assms(4) unfolding covering_def iff by blast
    qed
  qed
qed

lemma match_loop_ok:
  assumes t: "table_ok t"
  shows "boundary f c \<Longrightarrow> c \<noteq> [] \<Longrightarrow> best (covering (set (table_list t)) f (length c)) res \<Longrightarrow>
    \<exists>r. match_loop t f c res = Ret r \<and> best (covering (set (table_list t)) f 0) r"
proof (induction "length c" arbitrary: c res rule: less_induct)
  case less
  define E where "E = set (table_list t)"
  have ok: "\<forall>e \<in> E. build_ok e" using build_at_ok(1)[OF t] by (auto simp: E_def table_list_def)
  then have ne: "\<forall>e \<in> E. Domain e \<noteq> []" using valid_domain(1) by (auto simp: build_ok_def)
  define C where "C = {e \<in> E. cand c (c = f) e}"
  define cd where "cd = foldl pick no_match (filter (cand c (c = f)) (table_list t))"
  define r where "r = (if mClassification cd \<noteq> 0 \<and> (mClassification res = 0
     \<or> reputationRank (mClassification cd) > reputationRank (mClassification res)) then cd else res)"
  have "set (filter (cand c (c = f)) (table_list t)) = C" by (auto simp: C_def E_def)
  then have C: "best C cd" using best_pick[of "filter (cand c (c = f)) (table_list t)" c] ok by (auto simp: cd_def C_def cand_def)
  have r: "best (covering E f (length c) \<union> C) r" unfolding r_def
    using best_union[OF less.prems(3)[folded E_def] _ C] ok by (auto simp: covering_def C_def cand_def)
  have step: "match_loop t f c res = (case dot_index c of None \<Rightarrow> Ret r
     | Some dotIdx \<Rightarrow> (if length c \<le> dotIdx + 1 then Ret r else match_loop t f (drop (dotIdx + 1) c) r))"
    by (subst match_loop.simps) (simp only: matchHash_ok[OF t] obind.simps prod.case Let_def r_def cd_def)
  have stop: "best (covering E f 0) r" if "\<And>d. suffix (0x2E # d) c \<Longrightarrow> d \<noteq> [] \<Longrightarrow> length d \<le> 0"
    using covering_step[OF less.prems(1) that ne] less.prems(2) r by (simp add: C_def)
  show ?case
  proof (cases "dot_index c")
    case None
    then show ?thesis using step stop dot_index_None[OF None] by (simp add: E_def)
  next
    case (Some k)
    note dots = dot_index_Some[OF Some]
    show ?thesis
    proof (cases "length c \<le> k + 1")
      case True
      then show ?thesis using step Some stop dots(2) by (fastforce simp: E_def)
    next
      case False
      define c' where "c' = drop (k + 1) c"
      have c': "length c' < length c" "c' \<noteq> []" "suffix (0x2E # c') c" using False dots(1) by (auto simp: c'_def)
      have "suffix (0x2E # c') f" using c'(3) less.prems(1) unfolding boundary_def by (metis suffix_ConsD suffix_order.trans)
      then have b: "boundary f c'" by (simp add: boundary_def)
      have "covering E f (length c') = covering E f (length c) \<union> C"
        unfolding C_def by (rule covering_step[OF less.prems(1) _ ne c'(1)]) (use dots(2) in \<open>simp add: c'_def\<close>)
      then have "best (covering E f (length c')) r" using r by simp
      from less.hyps[OF c'(1) b c'(2) this[unfolded E_def]] show ?thesis using step Some False by (simp add: c'_def)
    qed
  qed
qed

lemma Match_ok:
  assumes "table_ok t" "validReputationDomain (cleanDomain U f)"
  shows "\<exists>r. Match U (Some t) f = Ret (r, mClassification r \<noteq> 0) \<and> best {e \<in> set (table_list t). covers (cleanDomain U f) e} r"
proof -
  define c where "c = cleanDomain U f"
  define E where "E = set (table_list t)"
  have c: "validReputationDomain c" "c \<noteq> []" using assms(2) valid_domain(1) by (simp_all add: c_def)
  then have f: "f \<noteq> []" by (auto simp: c_def cleanDomain_def)
  have ok: "\<forall>e \<in> E. Domain e \<noteq> []" using build_at_ok(1)[OF assms(1)] valid_domain(1) by (auto simp: E_def table_list_def build_ok_def)
  have "covering E c (length c) = {}" by (auto simp: covering_def covers_def dest: suffix_length_le)
  then have "best (covering E c (length c)) no_match" by (simp add: best_def)
  then obtain r where r: "match_loop t c c no_match = Ret r" "best (covering E c 0) r"
    using match_loop_ok[OF assms(1), of c c no_match] c(2) by (auto simp: boundary_def E_def)
  have cov: "covering E c 0 = {e \<in> E. covers c e}" using ok by (auto simp: covering_def)
  show ?thesis
  proof (cases "numEntries t = 0")
    case True
    then have "E = {}" by (simp add: E_def table_list_def)
    then show ?thesis using True by (simp add: Match_def best_def E_def no_match_def)
  next
    case False
    then show ?thesis using r cov f c by (simp add: Match_def c_def[symmetric] E_def[symmetric])
  qed
qed

section \<open>Sorting and merging\<close>

definition mk_item :: "BuildEntry \<Rightarrow> item" where
  "mk_item e = \<lparr>ihash = FNV1a64 (Domain e), ientry = e\<rparr>"

definition admissible :: "unicode \<Rightarrow> BuildEntry list \<Rightarrow> bool" where
  "admissible U es \<longleftrightarrow> list_all (acceptable U) es
     \<and> 24 + length es * 16 + sum_list (map (\<lambda>e. length (Domain (clean_entry U e))) es) \<le> 2 ^ 32 - 1"

lemma clean_entry_ok: "acceptable U e \<Longrightarrow> build_ok (clean_entry U e)"
  by (simp add: acceptable_def build_ok_def clean_entry_def Let_def)

lemma compile_items_eq:
  "b \<le> 2 ^ 32 - 1 \<Longrightarrow> compile_items U es b =
     (if list_all (acceptable U) es \<and> b + sum_list (map (\<lambda>e. length (Domain (clean_entry U e))) es) \<le> 2 ^ 32 - 1
      then Some (map (\<lambda>e. mk_item (clean_entry U e)) es) else None)"
proof (induction es arbitrary: b)
  case (Cons e es)
  define c where "c = clean_entry U e"
  show ?case
  proof (cases "acceptable U e \<and> b + length (Domain c) \<le> 2 ^ 32 - 1")
    case True
    then show ?thesis using Cons.IH[of "b + length (Domain c)"]
      by (simp add: c_def[symmetric] Let_def mk_item_def add.assoc)
  next
    case False
    then show ?thesis by (auto simp: c_def[symmetric] Let_def)
  qed
qed simp

text \<open>The comparison is the strict order of the key, so any sorting gives the same list.\<close>

lemma rank_bound: "validReputationClass cl \<Longrightarrow> unat (reputationRank cl) \<le> 10"
  by (elim valid_class_cases) (simp_all add: reputationRank_def)

lemma item_less_key:
  assumes "build_ok (ientry a)" "build_ok (ientry b)"
  shows "item_less a b \<longleftrightarrow> item_key a < item_key b"
proof -
  have "unat (reputationRank (Classification (ientry a))) \<le> 10" "unat (reputationRank (Classification (ientry b))) \<le> 10"
    using assms rank_bound by (simp_all add: build_ok_def)
  then have "reputationRank (Classification (ientry b)) < reputationRank (Classification (ientry a))
      \<longleftrightarrow> 255 - unat (reputationRank (Classification (ientry a))) < 255 - unat (reputationRank (Classification (ientry b)))"
    unfolding word_less_nat_alt by linarith
  then show ?thesis by (auto simp: item_less_def item_key_def less_prod_def)
qed

lemma item_key_inj:
  assumes "build_ok (ientry a)" "build_ok (ientry b)" "item_key a = item_key b"
  shows "a = b"
proof -
  have c: "validReputationClass (Classification (ientry a))" "validReputationClass (Classification (ientry b))"
    using assms by (simp_all add: build_ok_def)
  then have "unat (reputationRank (Classification (ientry a))) = unat (reputationRank (Classification (ientry b)))"
    using rank_bound[OF c(1)] rank_bound[OF c(2)] assms(3) unfolding item_key_def prod.inject by linarith
  then have "Classification (ientry a) = Classification (ientry b)" using rank_inj[OF c] by (metis word_unat_eq_iff)
  then show ?thesis using assms(3) by (simp add: item_key_def)
qed

lemma sort_items_unique:
  assumes "mset ys = mset items" "sorted_wrt (\<lambda>a b. \<not> item_less b a) ys" "\<forall>it \<in> set items. build_ok (ientry it)"
  shows "ys = sort_items items"
proof -
  have ok: "\<forall>it \<in> set ys. build_ok (ientry it)" using assms(1,3) by (metis mset_eq_setD)
  have "sorted (map item_key ys)"
    using assms(2) ok unfolding sorted_map
    by (elim sorted_wrt_mono_rel[rotated]) (auto simp: item_less_key not_less)
  moreover have "inj_on item_key (set ys)" using ok item_key_inj by (auto intro!: inj_onI)
  ultimately show ?thesis using properties_for_sort_key[of ys items item_key] assms(1)
    by (metis (mono_tags, lifting) filter_mset_cong mset_filter sort_items_def
        sort_key_inj_key_eq mset_sort sorted_sort_key)
qed

abbreviation key3 :: "item \<Rightarrow> u64 \<times> bytes \<times> byte" where
  "key3 it \<equiv> (ihash it, Domain (ientry it), MatchKind (ientry it))"

definition rank_of :: "item \<Rightarrow> byte" where
  "rank_of it = reputationRank (Classification (ientry it))"

lemma key_le:
  assumes "item_key a \<le> item_key b"
  shows "key3 a \<le> key3 b" "key3 a = key3 b \<Longrightarrow> build_ok (ientry a) \<Longrightarrow> build_ok (ientry b) \<Longrightarrow> rank_of b \<le> rank_of a"
proof -
  show "key3 a \<le> key3 b" using assms by (auto simp: item_key_def less_eq_prod_def)
  assume k: "key3 a = key3 b" and ok: "build_ok (ientry a)" "build_ok (ientry b)"
  have "unat (rank_of a) \<le> 10" "unat (rank_of b) \<le> 10" using ok rank_bound by (simp_all add: build_ok_def rank_of_def)
  moreover have "255 - unat (rank_of a) \<le> 255 - unat (rank_of b)" using assms k by (simp add: item_key_def rank_of_def)
  ultimately show "rank_of b \<le> rank_of a" unfolding word_le_nat_alt by linarith
qed

text \<open>What merging keeps of a sorted list.\<close>

definition merged_ok :: "item list \<Rightarrow> item list \<Rightarrow> bool" where
  "merged_ok xs m \<longleftrightarrow> set m \<subseteq> set xs \<and> sorted_wrt (\<lambda>a b. key3 a < key3 b) m
     \<and> (\<forall>x \<in> set xs. \<exists>y \<in> set m. key3 y = key3 x \<and> rank_of x \<le> rank_of y)
     \<and> (xs \<noteq> [] \<longrightarrow> m \<noteq> [] \<and> key3 (last m) = key3 (last xs)) \<and> length m \<le> length xs
     \<and> sum_list (map (\<lambda>it. length (Domain (ientry it))) m) \<le> sum_list (map (\<lambda>it. length (Domain (ientry it))) xs)"

lemma merge_ok:
  assumes "sorted (map item_key xs)" "\<forall>x \<in> set xs. build_ok (ientry x) \<and> ihash x = FNV1a64 (Domain (ientry x))"
  shows "merged_ok xs (foldl merge_step [] xs)"
  using assms
proof (induction xs rule: rev_induct)
  case Nil
  then show ?case by (simp add: merged_ok_def)
next
  case (snoc x xs)
  define m where "m = foldl merge_step [] xs"
  have IH: "merged_ok xs m" using snoc by (simp add: sorted_append m_def)
  have le: "item_key y \<le> item_key x" if "y \<in> set xs" for y using snoc.prems(1) that by (simp add: sorted_append)
  have ok: "build_ok (ientry y)" "ihash y = FNV1a64 (Domain (ientry y))" if "y \<in> set xs \<or> y = x" for y
    using snoc.prems(2) that by auto
  have sub: "set m \<subseteq> set xs" using IH by (simp add: merged_ok_def)
  show ?case
  proof (cases "m \<noteq> [] \<and> Domain (ientry (last m)) = Domain (ientry x) \<and> MatchKind (ientry (last m)) = MatchKind (ientry x)")
    case True
    then have l: "last m \<in> set m" "last m \<in> set xs" using sub by auto
    then have k: "key3 (last m) = key3 x" using True ok by simp
    have "rank_of x \<le> rank_of (last m)" using key_le(2)[OF le[OF l(2)] k] ok l(2) by simp
    moreover have "foldl merge_step [] (xs @ [x]) = m" using True by (simp add: merge_step_def m_def)
    ultimately show ?thesis using IH k l True unfolding merged_ok_def by fastforce
  next
    case False
    have app: "foldl merge_step [] (xs @ [x]) = m @ [x]" using False by (auto simp: merge_step_def m_def)
    have "key3 y < key3 x" if y: "y \<in> set m" for y
    proof -
      have ne: "m \<noteq> []" using y by auto
      then have "last m \<in> set xs" using sub by auto
      then have "key3 (last m) \<le> key3 x" by (rule key_le(1)[OF le])
      moreover have "key3 (last m) \<noteq> key3 x" using False ne by auto
      moreover have "sorted_wrt (\<lambda>a b. key3 a < key3 b) (butlast m @ [last m])" using IH ne by (simp add: merged_ok_def)
      then have below: "\<forall>z \<in> set (butlast m). key3 z < key3 (last m)" unfolding sorted_wrt_append by simp
      have "y = last m \<or> y \<in> set (butlast m)" using y ne by (metis in_set_butlast_appendI append_butlast_last_id rotate1.simps(2) set_ConsD set_rotate1)
      then have "key3 y \<le> key3 (last m)" using below by (metis order.refl order_less_imp_le)
      ultimately show ?thesis by order
    qed
    then show ?thesis unfolding app using IH unfolding merged_ok_def by (auto simp: sorted_wrt_append)
  qed
qed

section \<open>The snapshot read back\<close>

fun index_bytes :: "item list \<Rightarrow> nat \<Rightarrow> bytes" where
  "index_bytes [] k = []"
| "index_bytes (it # items) k = index_entry (ihash it) (word_of_nat k) (ientry it) @ index_bytes items (k + length (Domain (ientry it)))"

abbreviation names :: "item list \<Rightarrow> bytes" where
  "names items \<equiv> concat (map (\<lambda>it. Domain (ientry it)) items)"

lemma write_items_eq: "write_items items buf strBuf = (buf @ index_bytes items (length strBuf), strBuf @ names items)"
  by (induction items arbitrary: buf strBuf) simp_all

lemma length_index_entry [simp]: "length (index_entry h off e) = 16"
  by (simp add: index_entry_def)

lemma length_index_bytes [simp]: "length (index_bytes items k) = length items * 16"
  by (induction items arbitrary: k) simp_all

lemma entry_at_skip: "length xs = 16 \<Longrightarrow> entry_at (xs @ ys) (Suc i) = entry_at ys i"
  by (simp add: entry_at_def subslice_def nth_append add.commute)

lemma entry_at_index: "entry_at (index_entry h off e @ ys) 0 = \<lparr>DomainHash = h, Offset = off,
   Length = word_of_nat (length (Domain e)), eClassification = Classification e, eMatchKind = MatchKind e, eFlags = 0\<rparr>"
  by (simp add: entry_at_def index_entry_def subslice_def nth_append codec_simps)

lemma entry_at_bytes:
  "i < length items \<Longrightarrow> entry_at (index_bytes items k) i = \<lparr>DomainHash = ihash (items ! i), Offset = word_of_nat (k + length (names (take i items))),
     Length = word_of_nat (length (Domain (ientry (items ! i)))), eClassification = Classification (ientry (items ! i)),
     eMatchKind = MatchKind (ientry (items ! i)), eFlags = 0\<rparr>"
proof (induction items arbitrary: i k)
  case (Cons it items)
  then show ?case by (cases i) (simp_all add: entry_at_index entry_at_skip add.assoc)
qed simp

lemma names_at:
  assumes "i < length items"
  shows "length (names (take i items)) + length (Domain (ientry (items ! i))) \<le> length (names items)"
    "subslice (length (names (take i items))) (length (names (take i items)) + length (Domain (ientry (items ! i)))) (names items)
       = Domain (ientry (items ! i))"
proof -
  have "names items = names (take i items) @ Domain (ientry (items ! i)) @ names (drop (Suc i) items)"
    using arg_cong[OF id_take_nth_drop[OF assms], of names] by simp
  then show "length (names (take i items)) + length (Domain (ientry (items ! i))) \<le> length (names items)"
    "subslice (length (names (take i items))) (length (names (take i items)) + length (Domain (ientry (items ! i)))) (names items)
       = Domain (ientry (items ! i))"
    by (simp_all add: subslice_def)
qed

definition item_ok :: "item \<Rightarrow> bool" where
  "item_ok it \<longleftrightarrow> build_ok (ientry it) \<and> ihash it = FNV1a64 (Domain (ientry it))"

text \<open>The table of sorted items has those items, in order.\<close>

lemma written_entry:
  assumes "i < length items" "item_ok (items ! i)" "length (names items) < 2 ^ 32"
  defines "e \<equiv> entry_at (index_bytes items 0) i"
  shows "entry_ok (names items) e" "name_of (names items) e = Domain (ientry (items ! i))" "DomainHash e = ihash (items ! i)"
    "eClassification e = Classification (ientry (items ! i))" "eMatchKind e = MatchKind (ientry (items ! i))"
proof -
  define it where "it = items ! i"
  define off where "off = length (names (take i items))"
  note nm = names_at[OF assms(1), folded it_def off_def]
  have e: "e = \<lparr>DomainHash = ihash it, Offset = word_of_nat off, Length = word_of_nat (length (Domain (ientry it))),
      eClassification = Classification (ientry it), eMatchKind = MatchKind (ientry it), eFlags = 0\<rparr>"
    using entry_at_bytes[OF assms(1), of 0] by (simp add: e_def it_def off_def)
  have ok: "build_ok (ientry it)" "ihash it = FNV1a64 (Domain (ientry it))" using assms(2) by (simp_all add: item_ok_def it_def)
  then have "length (Domain (ientry it)) \<le> 253" using valid_domain(2) by (simp add: build_ok_def)
  then have len: "unat (Length e) = length (Domain (ientry it))" by (simp add: e unat_of_nat)
  have "off < 2 ^ 32" using nm(1) assms(3) by linarith
  then have o: "unat (Offset e) = off" by (simp add: e unat_of_nat)
  show name: "name_of (names items) e = Domain (ientry (items ! i))" using nm(2) by (simp add: name_of_def o len it_def)
  show "DomainHash e = ihash (items ! i)" "eClassification e = Classification (ientry (items ! i))"
    "eMatchKind e = MatchKind (ientry (items ! i))" by (simp_all add: e it_def)
  have "eFlags e = 0" by (simp add: e)
  then show "entry_ok (names items) e"
    using nm(1) ok unfolding entry_ok_def name build_ok_def o len by (simp add: e it_def)
qed

lemma le_nat_put: "unat (x :: u32) = le_nat (le_put 4 x)"
  using unat_le_get[of "le_put 4 x", where ?'a = 32] by (simp add: codec_simps)

lemma compile_load:
  assumes items: "list_all item_ok items" "sorted (map ihash items)" and size: "24 + length items * 16 + length (names items) < 2 ^ 32"
  defines "snap \<equiv> le_put 4 CompactMagic @ le_put 2 (1 :: u16) @ le_put 4 (word_of_nat (length items) :: u32)
     @ le_put 4 (word_of_nat (24 + length items * 16) :: u32) @ le_put 4 (word_of_nat (length (names items)) :: u32)
     @ le_put 4 (0 :: u32) @ [0, 0] @ index_bytes items 0 @ names items"
  shows "snapshot_shape snap" "table_ok (table_of snap)" "table_list (table_of snap) = map ientry items"
proof -
  define t where "t = table_of snap"
  have z: "le_put 4 (0 :: u32) = [0, 0, 0, 0]" "replicate 6 (0 :: byte) = [0, 0, 0, 0, 0, 0]"
    by (simp_all add: le_put_def upt_rec numeral_eq_Suc)
  have f: "subslice 0 4 snap = le_put 4 CompactMagic" "subslice 4 6 snap = le_put 2 (1 :: u16)"
    "subslice 6 10 snap = le_put 4 (word_of_nat (length items) :: u32)"
    "subslice 10 14 snap = le_put 4 (word_of_nat (24 + length items * 16) :: u32)"
    "subslice 14 18 snap = le_put 4 (word_of_nat (length (names items)) :: u32)" "subslice 18 24 snap = replicate 6 0"
    by (simp_all add: snap_def subslice_def z)
  have n: "le_nat (subslice 6 10 snap) = length items" "le_nat (subslice 10 14 snap) = 24 + length items * 16"
    "le_nat (subslice 14 18 snap) = length (names items)"
    unfolding f le_nat_put[symmetric] unat_of_nat using size by simp_all
  have len: "length snap = 24 + length items * 16 + length (names items)" by (simp add: snap_def)
  show "snapshot_shape snap" unfolding snapshot_shape_def n using f len by (simp add: codec_simps)
  have d: "drop 24 snap = index_bytes items 0 @ names items" by (simp add: snap_def)
  have dk: "drop (24 + k) snap = drop k (drop 24 snap)" for k by (simp add: add.commute)
  have t: "numEntries t = length items" "entriesData t = index_bytes items 0" "stringBlock t = names items"
    unfolding t_def table_of_def n Let_def using d dk by (simp_all add: subslice_def)
  have sz: "length (names items) < 2 ^ 32" using size by linarith
  have ok: "item_ok (items ! i)" if "i < length items" for i using items(1) that by (simp add: list_all_length)
  have "map (hash_at (entriesData t)) [0..<numEntries t] = map ihash items"
    unfolding t by (rule nth_equalityI) (simp_all add: written_entry[OF _ ok sz])
  then show "table_ok t" using items(2) written_entry(1)[OF _ ok sz] sz unfolding table_ok_def by (simp add: t)
  show "table_list t = map ientry items"
    by (rule nth_equalityI) (simp_all add: table_list_def t build_at_def Let_def written_entry[OF _ ok sz])
qed

lemma reload_ok:
  assumes "admissible U entries"
  shows "\<exists>t es. ReloadFromEntries U ar entries = Ret (rep_Store ar (Some t), None) \<and> table_ok t \<and> table_list t = es
     \<and> distinct (map (\<lambda>e. (Domain e, MatchKind e)) es) \<and> set es \<subseteq> clean_entry U ` set entries
     \<and> (\<forall>e \<in> set entries. \<exists>e' \<in> set es. Domain e' = Domain (clean_entry U e) \<and> MatchKind e' = MatchKind (clean_entry U e)
          \<and> reputationRank (Classification (clean_entry U e)) \<le> reputationRank (Classification e'))"
proof -
  define items where "items = map (\<lambda>e. mk_item (clean_entry U e)) entries"
  define srt where "srt = sort_items items"
  define m where "m = foldl merge_step [] srt"
  have acc: "list_all (acceptable U) entries" and fit: "24 + length entries * 16 + sum_list (map (\<lambda>e. length (Domain (clean_entry U e))) entries) \<le> 2 ^ 32 - 1"
    using assms by (simp_all add: admissible_def)
  have size: "length entries \<le> (2 ^ 32 - 1 - 24) div 16" "24 + length entries * 16 \<le> 2 ^ 32 - 1" using fit by (simp_all add: less_eq_div_iff_mult_less_eq)
  have set: "set srt = set items" "length srt = length items" "mset srt = mset items" by (simp_all add: srt_def sort_items_def)
  have ok: "\<forall>x \<in> set srt. build_ok (ientry x) \<and> ihash x = FNV1a64 (Domain (ientry x))"
    using acc clean_entry_ok by (auto simp: set items_def mk_item_def list_all_iff)
  have m: "merged_ok srt m" unfolding m_def by (rule merge_ok[OF _ ok]) (simp add: srt_def sort_items_def)
  then have sub: "set m \<subseteq> set items" "sorted_wrt (\<lambda>a b. key3 a < key3 b) m" by (simp_all add: merged_ok_def set)
  have lens: "length m \<le> length entries" "length (names m) \<le> sum_list (map (\<lambda>e. length (Domain (clean_entry U e))) entries)"
  proof -
    have "sum_list (map (\<lambda>it. length (Domain (ientry it))) srt) = sum_list (map (\<lambda>it. length (Domain (ientry it))) items)"
      using set(3) by (metis mset_map sum_mset_sum_list)
    also have "\<dots> = sum_list (map (\<lambda>e. length (Domain (clean_entry U e))) entries)" by (simp add: items_def mk_item_def comp_def)
    finally show "length m \<le> length entries" "length (names m) \<le> sum_list (map (\<lambda>e. length (Domain (clean_entry U e))) entries)"
      using m set(2) by (simp_all add: merged_ok_def items_def length_concat comp_def)
  qed
  have items: "list_all item_ok m" using ok sub(1) by (auto simp: list_all_iff item_ok_def set)
  have "sorted (map ihash m)" unfolding sorted_map
    by (rule sorted_wrt_mono_rel[OF _ sub(2)]) (auto simp: less_prod_def)
  note load = compile_load[OF items this]
  have msize: "24 + length m * 16 + length (names m) < 2 ^ 32" using lens fit by simp
  define snap where "snap = le_put 4 CompactMagic @ le_put 2 (1 :: u16) @ le_put 4 (word_of_nat (length m) :: u32)
     @ le_put 4 (word_of_nat (24 + length m * 16) :: u32) @ le_put 4 (word_of_nat (length (names m)) :: u32)
     @ le_put 4 (0 :: u32) @ [0, 0] @ index_bytes m 0 @ names m"
  note snap = load[OF msize, folded snap_def]
  have "compile_items U entries (24 + length entries * 16) = Some items"
    using compile_items_eq[OF size(2)] acc fit by (simp add: items_def)
  then have "CompileReputationSnapshot U entries = Inr snap"
    using size(1) by (simp add: CompileReputationSnapshot_def write_items_eq srt_def[symmetric] m_def[symmetric] Let_def snap_def numeral_2_eq_2)
  then have "ReloadFromEntries U ar entries = Ret (rep_Store ar (Some (table_of snap)), None)"
    using snap by (simp add: ReloadFromEntries_def NewReputationTable_eq)
  moreover have "distinct (map (\<lambda>e. (Domain e, MatchKind e)) (map ientry m))"
  proof -
    have "sorted_wrt (<) (map key3 m)" using sub(2) by (simp only: sorted_wrt_map)
    then have "distinct (map key3 m)" by (simp only: strict_sorted_iff)
    moreover have "inj_on (\<lambda>(h, d, k). (d, k)) (set (map key3 m))"
      using items by (auto intro!: inj_onI simp: list_all_iff item_ok_def)
    ultimately have "distinct (map (\<lambda>(h, d, k). (d, k)) (map key3 m))" by (simp only: distinct_map)
    then show ?thesis by (simp add: comp_def)
  qed
  moreover have "set (map ientry m) \<subseteq> clean_entry U ` set entries" using sub(1) by (auto simp: items_def mk_item_def)
  moreover have "\<exists>e' \<in> set (map ientry m). Domain e' = Domain (clean_entry U e) \<and> MatchKind e' = MatchKind (clean_entry U e)
      \<and> reputationRank (Classification (clean_entry U e)) \<le> reputationRank (Classification e')" if "e \<in> set entries" for e
  proof -
    have "mk_item (clean_entry U e) \<in> set srt" using that by (simp add: set items_def)
    then obtain y where "y \<in> set m" "key3 y = key3 (mk_item (clean_entry U e))" "rank_of (mk_item (clean_entry U e)) \<le> rank_of y"
      using m unfolding merged_ok_def by blast
    then show ?thesis by (auto simp: mk_item_def rank_of_def)
  qed
  ultimately show ?thesis using snap(2,3) by blast
qed

lemma reload_error:
  assumes "\<not> admissible U entries"
  shows "ReloadFromEntries U ar entries = Ret (ar, Some ErrCorruptSnapshot)"
proof (cases "(2 ^ 32 - 1 - 24) div 16 < length entries")
  case True
  then show ?thesis by (simp add: ReloadFromEntries_def CompileReputationSnapshot_def)
next
  case False
  then have "24 + length entries * 16 \<le> 2 ^ 32 - 1" by simp
  then have "compile_items U entries (24 + length entries * 16) = None"
    using compile_items_eq[of "24 + length entries * 16" U entries] assms by (auto simp: admissible_def)
  then show ?thesis using False by (simp add: ReloadFromEntries_def CompileReputationSnapshot_def)
qed

section \<open>Domain lists\<close>

lemma valid_plain:
  assumes "validReputationDomain s"
  shows "is_ascii s" "ToLower U s = s" "TrimSpace U s = s" "TrimSuffix_dot s = s"
proof -
  note v = valid_domain[OF assms]
  have b: "b < 0x80 \<and> \<not> is_upper b \<and> \<not> is_space b" if "b \<in> set s" for b
    using v(3)[OF that] by (auto simp: name_byte_def dnsLabelByte_def is_upper_def is_space_def word_le_nat_alt word_less_nat_alt)
  then show ascii: "is_ascii s" by (auto simp: is_ascii_def list_all_iff)
  show "ToLower U s = s" using b ascii by (auto simp: ToLower_def intro: map_idI)
  have drop: "dropWhile is_space u = u" if "set u = set s" for u using b that by (cases u) auto
  have "dropWhile is_space s = s" "dropWhile is_space (rev s) = rev s" by (rule drop, simp)+
  then show "TrimSpace U s = s" using ascii by (simp add: TrimSpace_def)
  show "TrimSuffix_dot s = s" using v(4) by (simp add: TrimSuffix_dot_def)
qed

lemma acceptable_valid:
  "validReputationDomain (Domain e) \<Longrightarrow> validReputationClass (Classification e) \<Longrightarrow> MatchKind e = MatchExact \<or> MatchKind e = MatchSubtree
    \<Longrightarrow> acceptable U e"
  by (simp add: acceptable_def valid_plain)

lemma trimmed_line:
  assumes "is_ascii l" "TrimSpace U l \<noteq> []" "hd (TrimSpace U l) \<noteq> 0x23"
  shows "Fields U (before_hash (TrimSpace U l)) \<noteq> []"
proof -
  define s where "s = TrimSpace U l"
  have s: "s = rev (dropWhile is_space (rev (dropWhile is_space l)))" using assms(1) by (simp add: s_def TrimSpace_def)
  have "set s \<subseteq> set l" unfolding s by (metis set_dropWhileD set_rev subsetI)
  then have ascii: "is_ascii s" using assms(1) by (auto simp: is_ascii_def list_all_iff)
  obtain p where p: "dropWhile is_space l = s @ p"
    unfolding s by (metis rev_append rev_rev_ident takeWhile_dropWhile_id)
  have ne: "s \<noteq> []" "hd s \<noteq> 0x23" using assms(2,3) by (simp_all add: s_def)
  then have "\<not> is_space (hd s)" using p hd_dropWhile[of is_space l] by (cases s) auto
  moreover have "set (before_hash s) \<subseteq> set s" by (auto simp: before_hash_def dest: set_takeWhileD)
  moreover have "hd s \<in> set (before_hash s)" using ne by (cases s) (auto simp: before_hash_def)
  ultimately show ?thesis using ascii unfolding s_def[symmetric]
    by (auto simp: Fields_def is_ascii_def list_all_iff ascii_fields.simps[of "before_hash s"] Let_def dropWhile_eq_Nil_conv)
qed

lemma parse_lines_ok:
  assumes "validReputationClass cl" "k = MatchExact \<or> k = MatchSubtree"
  shows "list_all is_ascii ls \<Longrightarrow> list_all build_ok es \<Longrightarrow> \<exists>r. parse_lines U cl k ls es = Ret r
     \<and> (\<forall>es'. r = Inr es' \<longrightarrow> list_all build_ok es')"
proof (induction ls arbitrary: es)
  case (Cons l ls)
  define s where "s = TrimSpace U l"
  have IH: "\<exists>r. parse_lines U cl k ls es' = Ret r \<and> (\<forall>es'. r = Inr es' \<longrightarrow> list_all build_ok es')"
    if "list_all build_ok es'" for es' using Cons.IH[OF _ that] Cons.prems(1) by simp
  show ?case
  proof (cases "s = [] \<or> hd s = 0x23")
    case True
    then show ?thesis using IH[OF Cons.prems(2)] by (simp add: s_def[symmetric] Let_def)
  next
    case False
    define fs where "fs = Fields U (before_hash s)"
    have "fs \<noteq> []" using trimmed_line[of l U] Cons.prems(1) False by (simp add: fs_def s_def)
    then have get: "get_at fs 0 = Ret (fs ! 0)" by simp
    define hosts where "hosts \<longleftrightarrow> 2 \<le> length fs \<and> (fs ! 0 = ascii ''0.0.0.0'' \<or> fs ! 0 = ascii ''127.0.0.1'')"
    define d where "d = TrimSuffix_dot (ToLower U (if hosts then fs ! 1 else fs ! 0))"
    have step: "parse_lines U cl k (l # ls) es = (if length fs \<noteq> (if hosts then 2 else 1) \<or> \<not> validReputationDomain d
        then Ret (Inl ErrCorruptSnapshot)
        else parse_lines U cl k ls (if 0 < length d then es @ [\<lparr>Domain = d, Classification = cl, MatchKind = k\<rparr>] else es))"
      using False unfolding parse_lines.simps Let_def s_def[symmetric] fs_def[symmetric] get obind.simps hosts_def[symmetric] d_def[symmetric]
      by (simp only: if_False)
    have "build_ok \<lparr>Domain = d, Classification = cl, MatchKind = k\<rparr>" if "validReputationDomain d"
      using that assms by (simp add: build_ok_def)
    then show ?thesis unfolding step using IH Cons.prems(2) by auto
  qed
qed simp

section \<open>Properties\<close>

text \<open>Reading a list of domains, one per line or in hosts format, never panics on ASCII lines, and
  every entry it returns is a valid one.
\<close>

lemma domain_list_build_ok:
  assumes "list_all is_ascii lines"
  shows "\<exists>err es. ParseDomainList U lines scan_failed cl k = Ret (err, es) \<and> list_all build_ok es"
proof (cases "validReputationClass cl \<and> (k = MatchExact \<or> k = MatchSubtree)")
  case True
  then obtain r where "parse_lines U cl k lines [] = Ret r" "\<forall>es'. r = Inr es' \<longrightarrow> list_all build_ok es'"
    using parse_lines_ok[of cl k lines "[]" U] assms by auto
  then show ?thesis using True by (cases r) (auto simp: ParseDomainList_def)
next
  case False
  then show ?thesis by (auto simp: ParseDomainList_def)
qed

text \<open>
  C15.  A loaded table is searched without going out of bounds, and the search over hashes and
  parent domains gives the best of the entries that cover the name: an entry for the name itself
  or a subtree entry for a parent at a label boundary, highest rank first (a block entry wins),
  then the longest domain, then exact before subtree.  A name that is no domain matches nothing.
\<close>
theorem reputation_match_exact:
  assumes "NewReputationTable U raw = Ret (Inr t)"
  shows "\<exists>es r. Entries t = Ret es \<and> Match U (Some t) f = Ret (r, mClassification r \<noteq> 0)
     \<and> best {e \<in> set es. validReputationDomain (cleanDomain U f) \<and> covers (cleanDomain U f) e} r"
proof -
  have t: "table_ok t" using assms by (auto simp: NewReputationTable_eq split: if_splits)
  show ?thesis
  proof (cases "validReputationDomain (cleanDomain U f)")
    case True
    then show ?thesis using Entries_ok[OF t] Match_ok[OF t True] by simp
  next
    case False
    then show ?thesis using Entries_ok[OF t] by (simp add: Match_def best_def no_match_def Let_def)
  qed
qed

text \<open>Reloading from a list of entries either installs a table or leaves the container as it was.
  It succeeds exactly when every entry is a valid domain with a valid class and kind and the
  snapshot fits in 32 bits; the table then holds the cleaned entries, one for each domain and
  kind, and for each given entry one of at least its rank.
\<close>

lemma reputation_reload:
  "if admissible U entries
   then \<exists>t es. ReloadFromEntries U ar entries = Ret (rep_Store ar (Some t), None) \<and> Entries t = Ret es
     \<and> distinct (map (\<lambda>e. (Domain e, MatchKind e)) es) \<and> set es \<subseteq> clean_entry U ` set entries
     \<and> (\<forall>e \<in> set entries. \<exists>e' \<in> set es. Domain e' = Domain (clean_entry U e) \<and> MatchKind e' = MatchKind (clean_entry U e)
          \<and> reputationRank (Classification (clean_entry U e)) \<le> reputationRank (Classification e'))
   else ReloadFromEntries U ar entries = Ret (ar, Some ErrCorruptSnapshot)"
  using reload_ok[of U entries ar] reload_error[of U entries ar] Entries_ok by (cases "admissible U entries") auto

lemma block_is_best:
  assumes t: "table_ok t" and e: "e \<in> set (table_list t)" "10 \<le> reputationRank (Classification e)" "boundary f (Domain e)" "Domain e = f \<or> MatchKind e = MatchSubtree"
    and r: "best {e \<in> set (table_list t). covers f e} r"
  shows "mClassification r = RepClassBlockC2"
proof -
  have ok: "build_ok x" if "x \<in> set (table_list t)" for x using that build_at_ok(1)[OF t] by (auto simp: table_list_def)
  have top: "Classification x = RepClassBlockC2" if "x \<in> set (table_list t)" "10 \<le> reputationRank (Classification x)" for x
    using ok[OF that(1)] that(2) unfolding build_ok_def by (elim conjE valid_class_cases) (auto simp: reputationRank_def word_le_nat_alt)
  have "covers f e" using e top[OF e(1,2)] by (auto simp: covers_def boundary_def)
  then obtain x where x: "x \<in> set (table_list t)" "r = result_of x" "outranks x e" using r e(1) by (auto simp: best_def split: if_splits)
  then have "10 \<le> reputationRank (Classification x)" using e(2) by (auto simp: outranks_def)
  then show ?thesis using top[OF x(1)] x(2) by (simp add: result_of_def)
qed

lemma reload_block:
  assumes "ReloadFromEntries U ar entries = Ret (ar', None)" "e \<in> set entries" "Classification e = RepClassBlockC2"
    and "validReputationDomain (cleanDomain U f)" "covers (cleanDomain U f) (clean_entry U e)"
  shows "\<exists>d k. Atomic_Match U ar' f = Ret (\<lparr>MatchedDomain = d, mClassification = RepClassBlockC2, mMatchKind = k\<rparr>, True)"
proof -
  have adm: "admissible U entries" using assms(1) reload_error[of U entries ar] by auto
  obtain t where t: "ar' = rep_Store ar (Some t)" "table_ok t"
    and up: "\<exists>e' \<in> set (table_list t). Domain e' = Domain (clean_entry U e) \<and> MatchKind e' = MatchKind (clean_entry U e)
          \<and> reputationRank (Classification (clean_entry U e)) \<le> reputationRank (Classification e')"
    using reload_ok[OF adm, of ar] assms(1,2) by auto
  then obtain e' where e': "e' \<in> set (table_list t)" "Domain e' = Domain (clean_entry U e)" "MatchKind e' = MatchKind (clean_entry U e)"
    "10 \<le> reputationRank (Classification e')"
    using assms(3) by (auto simp: clean_entry_def Let_def reputationRank_def)
  obtain r where r: "Match U (Some t) f = Ret (r, mClassification r \<noteq> 0)" "best {e \<in> set (table_list t). covers (cleanDomain U f) e} r"
    using Match_ok[OF t(2) assms(4)] by blast
  have "mClassification r = RepClassBlockC2"
    by (rule block_is_best[OF t(2) e'(1,4) _ _ r(2)]) (use assms(5) e'(2,3) in \<open>auto simp: covers_def boundary_def\<close>)
  then show ?thesis using r(1) by (cases r) (simp add: Atomic_Match_def rep_Load_def rep_Store_def t(1))
qed

text \<open>
  C16.  Once a list of entries is installed, every name covered by one of its block entries is
  reported as blocked, whatever the allow entries beside it.
\<close>
theorem reputation_block_wins:
  assumes "ReloadFromEntries U ar entries = Ret (ar', None)" "e \<in> set entries" "Classification e = RepClassBlockC2"
    and "validReputationDomain (cleanDomain U f)" "covers (cleanDomain U f) (clean_entry U e)"
  shows "\<exists>d k. Atomic_Match U ar' f = Ret (\<lparr>MatchedDomain = d, mClassification = RepClassBlockC2, mMatchKind = k\<rparr>, True)"
  by (rule reload_block[OF assms])

section \<open>Examples\<close>

definition ascii_only :: unicode where
  "ascii_only = \<lparr>uLower = id, uTrim = id, uFields = (\<lambda>s. [s])\<rparr>"

definition sample_entries :: "BuildEntry list" where
  "sample_entries = [\<lparr>Domain = ascii '' Ab.cd.'', Classification = 1, MatchKind = 2\<rparr>, \<lparr>Domain = ascii ''cd'', Classification = 3, MatchKind = 2\<rparr>]"

lemma sample_admissible: "admissible ascii_only sample_entries"
proof -
  have "list_all (acceptable ascii_only) sample_entries" by code_simp
  moreover have "sum_list (map (\<lambda>e. length (Domain (clean_entry ascii_only e))) sample_entries) = 7" by code_simp
  moreover have "length sample_entries = 2" by (simp add: sample_entries_def)
  ultimately show ?thesis by (simp add: admissible_def)
qed

lemma sample_name:
  "cleanDomain ascii_only (ascii ''x.ab.cd'') = ascii ''x.ab.cd''" "validReputationDomain (ascii ''x.ab.cd'')"
  by code_simp+

theorem reputation_match_exact_witness:
  "\<exists>raw t es r. CompileReputationSnapshot ascii_only sample_entries = Inr raw \<and> NewReputationTable ascii_only raw = Ret (Inr t)
     \<and> Entries t = Ret es \<and> Match ascii_only (Some t) (ascii ''x.ab.cd'') = Ret (r, mClassification r \<noteq> 0) \<and> best {e \<in> set es. covers (ascii ''x.ab.cd'') e} r"
proof -
  have "\<exists>t. ReloadFromEntries ascii_only (NewAtomicReputation None) sample_entries = Ret (NewAtomicReputation (Some t), None)"
    using reload_ok[OF sample_admissible, of "NewAtomicReputation None"] by (auto simp: NewAtomicReputation_def rep_Store_def)
  then obtain raw t where t: "CompileReputationSnapshot ascii_only sample_entries = Inr raw" "NewReputationTable ascii_only raw = Ret (Inr t)"
    by (auto simp: ReloadFromEntries_def outcome_simps split: sum.split_asm) (metis sum.exhaust)
  define f where "f = ascii ''x.ab.cd''"
  have f: "cleanDomain ascii_only f = f" "validReputationDomain f" unfolding f_def by (rule sample_name)+
  obtain es r where r: "Entries t = Ret es" "Match ascii_only (Some t) f = Ret (r, mClassification r \<noteq> 0)"
    "best {e \<in> set es. covers f e} r" using reputation_match_exact[OF t(2), of f] by (auto simp: f)
  show ?thesis unfolding f_def[symmetric] using t r by blast
qed

theorem reputation_block_wins_witness:
  "\<exists>ar' d k. ReloadFromEntries ascii_only (NewAtomicReputation None) sample_entries = Ret (ar', None)
     \<and> Atomic_Match ascii_only ar' (ascii ''x.ab.cd'') = Ret (\<lparr>MatchedDomain = d, mClassification = RepClassBlockC2, mMatchKind = k\<rparr>, True)"
proof -
  define e where "e = \<lparr>Domain = ascii ''cd'', Classification = 3, MatchKind = 2\<rparr>"
  have e: "e \<in> set sample_entries" "Classification e = 3" by (simp_all add: e_def sample_entries_def)
  have cov: "covers (ascii ''x.ab.cd'') (clean_entry ascii_only e)" unfolding e_def by code_simp
  obtain ar' where "ReloadFromEntries ascii_only (NewAtomicReputation None) sample_entries = Ret (ar', None)"
    using reload_ok[OF sample_admissible] by blast
  then show ?thesis using reputation_block_wins[OF _ e, of ascii_only _ _ "ascii ''x.ab.cd''", unfolded sample_name] cov sample_name(2) by blast
qed

end
