(* ===== verification/Veto.thy ===== *)
theory Veto
  imports Complex_Main Reputation
begin

text \<open>
  The arbitration side of \<open>pipeline.go\<close>: the reserved protocol labels, the deterministic veto over
  a proposed verdict, and the analyst's summary of an incident.  A \<open>float64\<close> is a sign and a
  rational magnitude, an infinity or not a number; the operations the code applies to it (comparison,
  product by 256, printing with two decimals) are exact on these.
\<close>

section \<open>Floats\<close>

datatype go_float = FNaN | FInf bool | FNum bool rat

definition fnum :: "bool \<Rightarrow> rat \<Rightarrow> rat" where
  "fnum neg r = (if neg then - r else r)"

text \<open>\<open>math.IsNaN(x) || math.IsInf(x, 0) || x < 0 || x > hi\<close>.\<close>

definition float_outside :: "rat \<Rightarrow> go_float \<Rightarrow> bool" where
  "float_outside hi x = (case x of FNaN \<Rightarrow> True | FInf _ \<Rightarrow> True | FNum neg r \<Rightarrow> fnum neg r < 0 \<or> hi < fnum neg r)"

definition float_less :: "go_float \<Rightarrow> rat \<Rightarrow> bool" where
  "float_less x c = (case x of FNaN \<Rightarrow> False | FInf neg \<Rightarrow> neg | FNum neg r \<Rightarrow> fnum neg r < c)"

definition float_q8 :: "go_float \<Rightarrow> u32" where
  "float_q8 x = (case x of FNum neg r \<Rightarrow> word_of_int \<lfloor>fnum neg r * 256\<rfloor> | _ \<Rightarrow> 0)"

text \<open>The float64 nearest to 4.2.\<close>

definition float_4_2 :: rat where
  "float_4_2 = of_int 4728779608739021 / of_int 1125899906842624"

section \<open>Incidents\<close>

record SLMIncident =
  iTimestamp :: u64
  iFQDN :: bytes
  iParentDomain :: bytes
  iSubdomain :: bytes
  iQType :: u16
  iEntropyQ8 :: u32
  EntropyBits :: go_float
  iPayloadClass :: u16
  iJitterPct :: u16
  iUniqueSubdomains :: u16
  iQueryCount :: u16
  SuspectedIndicator :: bytes
  HumanSummary :: bytes
  RecommendedAction :: bytes

section \<open>Reserved labels\<close>

abbreviation TypeCNAME :: u16 where "TypeCNAME \<equiv> 5"
abbreviation TypeNULL :: u16 where "TypeNULL \<equiv> 10"
abbreviation TypeTXT :: u16 where "TypeTXT \<equiv> 16"
abbreviation MaxProtocolPrefixLen :: nat where "MaxProtocolPrefixLen \<equiv> 45"
abbreviation MinTunnelEntropyQ8 :: u32 where "MinTunnelEntropyQ8 \<equiv> 1024"

function reserved_loop :: "bytes \<Rightarrow> bytes \<Rightarrow> nat \<Rightarrow> bool outcome" where
  "reserved_loop s label start = (let n = length label in
     if start + n \<le> length s then
       obind (slice_at s start (length s)) (\<lambda>t. case index_sub t label of
         None \<Rightarrow> Ret False
       | Some idx \<Rightarrow> (let pos = start + idx; stop = pos + n in
           obind (if pos = 0 then Ret True else obind (get_at s (pos - 1)) (\<lambda>b. Ret (b = 0x2E))) (\<lambda>leftBoundary.
           obind (if stop = length s then Ret True else obind (get_at s stop) (\<lambda>b. Ret (b = 0x2E))) (\<lambda>rightBoundary.
           if leftBoundary \<and> rightBoundary then Ret True else reserved_loop s label (pos + 1)))))
     else Ret False)"
  by pat_completeness auto

termination
  by (relation "measure (\<lambda>(s, label, start). Suc (length s) - start)") auto

declare reserved_loop.simps [simp del]

definition hasReservedLabel :: "bytes \<Rightarrow> bytes \<Rightarrow> bool outcome" where
  "hasReservedLabel s label = (if length label = 0 \<or> length s < length label then Ret False else reserved_loop s label 0)"

definition hasProtocolPrefixLabel :: "unicode \<Rightarrow> bytes \<Rightarrow> bool outcome" where
  "hasProtocolPrefixLabel U sub =
     (if sub = [] then Ret False
      else let s = ToLower U sub in
        obind (hasReservedLabel s (ascii ''_domainkey'')) (\<lambda>a. if a then Ret True else
        obind (hasReservedLabel s (ascii ''_dmarc'')) (\<lambda>b. if b then Ret True else
        obind (hasReservedLabel s (ascii ''_acme-challenge'')) (\<lambda>c. if c then Ret True else
        hasReservedLabel s (ascii ''_spf'')))))"

definition isLegitimateProtocolPrefix :: "unicode \<Rightarrow> bytes \<Rightarrow> u32 \<Rightarrow> bool outcome" where
  "isLegitimateProtocolPrefix U sub entropyQ8 =
     (if sub = [] \<or> MaxProtocolPrefixLen < length sub \<or> MinTunnelEntropyQ8 \<le> entropyQ8 then Ret False
      else hasProtocolPrefixLabel U sub)"

section \<open>The veto\<close>

definition validSLMVerdict :: "bytes \<Rightarrow> bool" where
  "validSLMVerdict verdict \<longleftrightarrow> verdict \<in> {ascii ''BENIGN_AV_TELEMETRY'', ascii ''BENIGN_DKIM_KEY'', ascii ''BENIGN_CRYPTO_KEY'',
     ascii ''DNS_TUNNEL_CONFIRMED'', ascii ''INSUFFICIENT_EVIDENCE''}"

definition RecommendedActionForVerdict :: "bytes \<Rightarrow> bytes" where
  "RecommendedActionForVerdict verdict =
     (if verdict = ascii ''DNS_TUNNEL_CONFIRMED'' then ascii ''BLOCK_IMMEDIATE''
      else if verdict = ascii ''BENIGN_AV_TELEMETRY'' \<or> verdict = ascii ''BENIGN_CRYPTO_KEY'' then ascii ''ALLOW_VENDOR''
      else ascii ''MONITOR_ONLY'')"

text \<open>\<open>%d\<close> of an unsigned number and \<open>%.2f\<close> of a float, rounded to the nearest, ties to even.\<close>

fun dec :: "nat \<Rightarrow> bytes" where
  "dec n = (if n < 10 then [0x30 + word_of_nat n] else dec (n div 10) @ [0x30 + word_of_nat (n mod 10)])"

declare dec.simps [simp del]

definition cents :: "rat \<Rightarrow> nat" where
  "cents r = (let k = \<lfloor>r * 100\<rfloor>; f = r * 100 - of_int k in
     nat (if f < 1 / 2 \<or> (f = 1 / 2 \<and> even k) then k else k + 1))"

definition fixed2 :: "go_float \<Rightarrow> bytes" where
  "fixed2 x = (case x of
     FNaN \<Rightarrow> ascii ''NaN''
   | FInf neg \<Rightarrow> (if neg then ascii ''-Inf'' else ascii ''+Inf'')
   | FNum neg r \<Rightarrow> (if neg then ascii ''-'' else []) @ dec (cents r div 100) @ ascii ''.'' @
       [0x30 + word_of_nat (cents r mod 100 div 10), 0x30 + word_of_nat (cents r mod 10)])"

definition BuildHumanSummary :: "SLMIncident option \<Rightarrow> bytes" where
  "BuildHumanSummary inc = (case inc of
     None \<Rightarrow> []
   | Some i \<Rightarrow> ascii ''Incident DNS suspect ['' @ SuspectedIndicator i @ ascii '']: FQDN='' @ iFQDN i @ ascii '', requetes='' @
       dec (unat (iQueryCount i)) @ ascii '', sous-domaines uniques='' @ dec (unat (iUniqueSubdomains i)) @ ascii '', entropie='' @
       fixed2 (EntropyBits i) @ ascii '' bits/octet.'')"

definition applyVetoRules :: "unicode \<Rightarrow> SLMIncident option \<Rightarrow> bytes \<Rightarrow> (bytes \<times> go_float \<times> bytes) outcome" where
  "applyVetoRules U incident proposedVerdict = (case incident of
     None \<Rightarrow> Ret (ascii ''INSUFFICIENT_EVIDENCE'', FNum False 0, ascii ''INVALID_ARBITRATION_VERDICT'')
   | Some inc \<Rightarrow>
     if \<not> validSLMVerdict proposedVerdict then Ret (ascii ''INSUFFICIENT_EVIDENCE'', FNum False 0, ascii ''INVALID_ARBITRATION_VERDICT'')
     else if float_outside 8 (EntropyBits inc) then Ret (ascii ''INSUFFICIENT_EVIDENCE'', FNum False 0, ascii ''INVALID_INCIDENT_METRICS'')
     else obind (if iQType inc = TypeTXT then isLegitimateProtocolPrefix U (iSubdomain inc) (float_q8 (EntropyBits inc)) else Ret False) (\<lambda>legit.
       if legit \<and> iQueryCount inc \<le> 3 \<and> iUniqueSubdomains inc \<le> 2
       then Ret (ascii ''BENIGN_CRYPTO_KEY'', FNum False 0, ascii ''HEURISTIC_PROTOCOL_SHAPE_NOT_CERTIFICATION'')
       else if iQueryCount inc < 3 \<and> float_less (EntropyBits inc) float_4_2
       then Ret (ascii ''INSUFFICIENT_EVIDENCE'', FNum False 0, ascii ''VETO_DETERMINISTE: Echantillon temporel insuffisant (< 3 requetes)'')
       else if proposedVerdict = ascii ''DNS_TUNNEL_CONFIRMED'' then Ret (ascii ''DNS_TUNNEL_CONFIRMED'', FNum False 0, ascii ''MODEL_PROPOSAL_NOT_PROOF'')
       else Ret (proposedVerdict, FNum False 0, ascii ''MODEL_PROPOSAL_NOT_PROOF'')))"

text \<open>The incident is completed with the summary and the action of the final verdict.\<close>

definition complete_incident :: "SLMIncident \<Rightarrow> bytes \<Rightarrow> SLMIncident" where
  "complete_incident inc verdict = inc\<lparr>HumanSummary := BuildHumanSummary (Some inc), RecommendedAction := RecommendedActionForVerdict verdict\<rparr>"

definition ApplyDeterministicVeto ::
    "unicode \<Rightarrow> bool \<Rightarrow> SLMIncident option \<Rightarrow> bytes \<Rightarrow> ((bytes \<times> go_float \<times> bytes) \<times> SLMIncident option) outcome" where
  "ApplyDeterministicVeto U is_closed incident proposedVerdict =
     (if is_closed then Ret ((ascii ''INSUFFICIENT_EVIDENCE'', FNum False 0, ascii ''PIPELINE_CLOSED''), incident)
      else obind (applyVetoRules U incident proposedVerdict) (\<lambda>(v, c, r).
        Ret ((v, c, r), map_option (\<lambda>i. complete_incident i v) incident)))"


section \<open>Labels of a name\<close>

function split_dots :: "bytes \<Rightarrow> bytes list" where
  "split_dots s = takeWhile (\<lambda>b. b \<noteq> 0x2E) s # (case dropWhile (\<lambda>b. b \<noteq> 0x2E) s of [] \<Rightarrow> [] | _ # r \<Rightarrow> split_dots r)"
  by pat_completeness auto

termination
proof (relation "measure length")
  fix s :: bytes and b r
  assume "dropWhile (\<lambda>b. b \<noteq> 0x2E) s = b # r"
  then show "(r, s) \<in> measure length" using length_dropWhile_le[of "\<lambda>b. b \<noteq> 0x2E" s] by simp
qed simp

declare split_dots.simps [simp del]

definition bounded :: "bytes \<Rightarrow> bytes \<Rightarrow> bytes \<Rightarrow> bool" where
  "bounded p label q \<longleftrightarrow> (p = [] \<or> last p = 0x2E) \<and> (q = [] \<or> q ! 0 = 0x2E)"

lemma split_dots_iff:
  assumes "0x2E \<notin> set label"
  shows "label \<in> set (split_dots s) \<longleftrightarrow> (\<exists>p q. s = p @ label @ q \<and> bounded p label q)"
proof (induction s rule: split_dots.induct)
  case (1 s)
  define w where "w = takeWhile (\<lambda>b. b \<noteq> 0x2E) s"
  define t where "t = dropWhile (\<lambda>b. b \<noteq> 0x2E) s"
  have st: "s = w @ t" "0x2E \<notin> set w" "t = [] \<or> t ! 0 = 0x2E"
    using hd_dropWhile[of "\<lambda>b. b \<noteq> 0x2E" s] by (auto simp: w_def t_def hd_conv_nth dest: set_takeWhileD)
  show ?case
  proof
    assume "label \<in> set (split_dots s)"
    then consider "label = w" | b r where "t = b # r" "label \<in> set (split_dots r)"
      using split_dots.simps[of s] by (auto simp: w_def t_def split: list.splits)
    then show "\<exists>p q. s = p @ label @ q \<and> bounded p label q"
    proof cases
      case 1
      then show ?thesis using st by (intro exI[of _ "[]"] exI[of _ t]) (simp add: bounded_def)
    next
      case 2
      then obtain p q where "r = p @ label @ q" "bounded p label q" using 1[of b r] by (auto simp: t_def)
      then show ?thesis using st 2(1) by (intro exI[of _ "w @ b # p"] exI[of _ q]) (auto simp: bounded_def)
    qed
  next
    assume "\<exists>p q. s = p @ label @ q \<and> bounded p label q"
    then obtain p q where pq: "s = p @ label @ q" "bounded p label q" by blast
    show "label \<in> set (split_dots s)"
    proof (cases "p = []")
      case True
      then have "w = label" using pq assms unfolding w_def bounded_def by (cases q) (auto simp: takeWhile_append)
      then show ?thesis by (subst split_dots.simps) (simp add: w_def)
    next
      case False
      then have l: "last p = 0x2E" using pq(2) by (simp add: bounded_def)
      then have "0x2E \<in> set p" using False by (metis last_in_set)
      then obtain a p' where p: "p = a @ 0x2E # p'" "0x2E \<notin> set a" by (meson split_list_first)
      then have t: "t = 0x2E # p' @ label @ q" using pq(1) by (simp add: t_def) (subst dropWhile_append2, auto)
      have "bounded p' label q" using pq(2) l p(1) by (cases "p' = []") (auto simp: bounded_def)
      then have "label \<in> set (split_dots (p' @ label @ q))" using 1[of "0x2E" "p' @ label @ q"] t by (auto simp: t_def)
      then show ?thesis using t by (subst split_dots.simps) (simp add: t_def)
    qed
  qed
qed

lemma occurrence_drop:
  "s = p @ label @ q \<Longrightarrow> start \<le> length p \<Longrightarrow> take (length label) (drop (length p - start) (drop start s)) = label"
  by simp

lemma reserved_loop_ok:
  "label \<noteq> [] \<Longrightarrow> reserved_loop s label start = Ret (\<exists>p q. start \<le> length p \<and> s = p @ label @ q \<and> bounded p label q)"
proof (induction s label start rule: reserved_loop.induct)
  case (1 s label start)
  define n where "n = length label"
  define t where "t = drop start s"
  show ?case
  proof (cases "start + n \<le> length s")
    case False
    then show ?thesis by (subst reserved_loop.simps) (auto simp: Let_def n_def)
  next
    case True
    then have t: "slice_at s start (length s) = Ret t" by (simp add: t_def subslice_def)
    show ?thesis
    proof (cases "index_sub t label")
      case None
      have "\<not> (\<exists>p q. start \<le> length p \<and> s = p @ label @ q \<and> bounded p label q)"
      proof
        assume "\<exists>p q. start \<le> length p \<and> s = p @ label @ q \<and> bounded p label q"
        then obtain p q where "start \<le> length p" "s = p @ label @ q" by blast
        then have "t = drop start p @ label @ q" by (simp add: t_def)
        then have "sublist label t" by (auto simp: sublist_def)
        then show False using None contains_sub_iff[of t label] by (simp add: contains_sub_def)
      qed
      then show ?thesis using True t None by (subst reserved_loop.simps) (simp add: Let_def n_def)
    next
      case (Some idx)
      note ix = index_sub_Some[OF Some]
      define pos where "pos = start + idx"
      define p where "p = take pos s"
      define q where "q = drop (pos + n) s"
      have le: "pos + n \<le> length s" using ix(1) True by (simp add: pos_def t_def n_def)
      have "take n (drop pos s) = label" using ix(2) by (simp add: t_def pos_def n_def add.commute)
      then have s: "s = p @ label @ q" by (metis append_take_drop_id drop_drop add.commute p_def q_def)
      have lp: "length p = pos" using le by (simp add: p_def)
      have left: "(if pos = 0 then Ret True else obind (get_at s (pos - 1)) (\<lambda>b. Ret (b = 0x2E))) = Ret (p = [] \<or> last p = 0x2E)"
      proof (cases "pos = 0")
        case False
        then have "p \<noteq> []" using lp by auto
        then have "last p = s ! (pos - 1)" using lp s False by (simp add: last_conv_nth nth_append)
        then show ?thesis using False le \<open>p \<noteq> []\<close> by simp
      qed (simp add: p_def)
      have right: "(if pos + n = length s then Ret True else obind (get_at s (pos + n)) (\<lambda>b. Ret (b = 0x2E))) = Ret (q = [] \<or> q ! 0 = 0x2E)"
        using le by (auto simp: q_def)
      have step: "reserved_loop s label start = (if bounded p label q then Ret True else reserved_loop s label (pos + 1))"
        using True t Some left right by (subst reserved_loop.simps) (simp add: Let_def n_def[symmetric] pos_def[symmetric] bounded_def)
      show ?thesis
      proof (cases "bounded p label q")
        case True
        moreover have "start \<le> length p" using lp by (simp add: pos_def)
        ultimately have "\<exists>p q. start \<le> length p \<and> s = p @ label @ q \<and> bounded p label q" using s by blast
        then show ?thesis using step True by simp
      next
        case False
        have IH: "reserved_loop s label (pos + 1) = Ret (\<exists>p q. pos + 1 \<le> length p \<and> s = p @ label @ q \<and> bounded p label q)"
          using "1.IH"[OF n_def \<open>start + n \<le> length s\<close> t Some pos_def refl left right _ 1(2)] False by (simp add: bounded_def)
        have "pos + 1 \<le> length p'" if a: "start \<le> length p'" and b: "s = p' @ label @ q'" and c: "bounded p' label q'" for p' q'
        proof (rule ccontr)
          assume "\<not> pos + 1 \<le> length p'"
          then consider "length p' - start < idx" | "length p' = pos" using a by (fastforce simp: pos_def)
          then show False
          proof cases
            case 1
            then show False using ix(3)[OF 1] occurrence_drop[OF b a] by (simp add: t_def)
          next
            case 2
            then have "p' = p" "q' = q" using b s lp by auto
            then show False using c False by simp
          qed
        qed
        moreover have "start \<le> length p'" if "pos + 1 \<le> length p'" for p' :: bytes using that by (simp add: pos_def)
        ultimately have "(\<exists>p q. pos + 1 \<le> length p \<and> s = p @ label @ q \<and> bounded p label q)
            = (\<exists>p q. start \<le> length p \<and> s = p @ label @ q \<and> bounded p label q)" by blast
        then show ?thesis using step IH False by simp
      qed
    qed
  qed
qed

lemma hasReservedLabel_ok:
  assumes "label \<noteq> []" "0x2E \<notin> set label"
  shows "hasReservedLabel s label = Ret (label \<in> set (split_dots s))"
  using assms by (auto simp: hasReservedLabel_def reserved_loop_ok split_dots_iff)

definition protocol_labels :: "bytes set" where
  "protocol_labels = {ascii ''_domainkey'', ascii ''_dmarc'', ascii ''_acme-challenge'', ascii ''_spf''}"

definition protocol_name :: "unicode \<Rightarrow> bytes \<Rightarrow> bool" where
  "protocol_name U sub \<longleftrightarrow> sub \<noteq> [] \<and> (\<exists>l \<in> protocol_labels. l \<in> set (split_dots (ToLower U sub)))"

lemma protocol_labels_plain:
  "ascii ''_domainkey'' \<noteq> []" "0x2E \<notin> set (ascii ''_domainkey'')" "ascii ''_dmarc'' \<noteq> []" "0x2E \<notin> set (ascii ''_dmarc'')"
  "ascii ''_acme-challenge'' \<noteq> []" "0x2E \<notin> set (ascii ''_acme-challenge'')" "ascii ''_spf'' \<noteq> []" "0x2E \<notin> set (ascii ''_spf'')"
  by simp_all

lemma protocol_prefix_ok: "hasProtocolPrefixLabel U sub = Ret (protocol_name U sub)"
  by (simp add: protocol_labels_plain hasProtocolPrefixLabel_def protocol_name_def protocol_labels_def hasReservedLabel_ok Let_def del: ascii_Cons)


section \<open>Properties\<close>

text \<open>A reserved label is recognised exactly when it is one of the labels of the name between dots,
  whatever its position; a longer or shorter label never passes for it.
\<close>

lemma reserved_label_exact:
  assumes "label \<noteq> []" "0x2E \<notin> set label"
  shows "hasReservedLabel s label = Ret (label \<in> set (split_dots s))"
  using assms by (rule hasReservedLabel_ok)

text \<open>What a measured entropy must be for the veto to trust it, and the shape of a protocol selector.\<close>

definition measured :: "go_float \<Rightarrow> rat option" where
  "measured x = (case x of FNum neg r \<Rightarrow> if 0 \<le> fnum neg r \<and> fnum neg r \<le> 8 then Some (fnum neg r) else None | _ \<Rightarrow> None)"

definition selector_shape :: "unicode \<Rightarrow> SLMIncident \<Rightarrow> rat \<Rightarrow> bool" where
  "selector_shape U inc x \<longleftrightarrow> iQType inc = TypeTXT \<and> protocol_name U (iSubdomain inc) \<and> length (iSubdomain inc) \<le> 45 \<and> x < 4
     \<and> iQueryCount inc \<le> 3 \<and> iUniqueSubdomains inc \<le> 2"

lemma float_q8_less:
  assumes "0 \<le> x" "x \<le> 8"
  shows "MinTunnelEntropyQ8 \<le> (word_of_int \<lfloor>x * 256\<rfloor> :: u32) \<longleftrightarrow> 4 \<le> (x :: rat)"
proof -
  have b: "0 \<le> \<lfloor>x * 256\<rfloor>" "\<lfloor>x * 256\<rfloor> \<le> 2048" using assms by (simp_all add: floor_le_iff)
  then have "uint (word_of_int \<lfloor>x * 256\<rfloor> :: u32) = \<lfloor>x * 256\<rfloor>" by (simp add: uint_word_of_int_eq take_bit_int_eq_self)
  then have "MinTunnelEntropyQ8 \<le> (word_of_int \<lfloor>x * 256\<rfloor> :: u32) \<longleftrightarrow> 1024 \<le> \<lfloor>x * 256\<rfloor>" by (simp add: word_le_def)
  then show ?thesis by (simp add: le_floor_iff)
qed

lemma applyVetoRules_ok:
  "applyVetoRules U (Some inc) v =
     (if \<not> validSLMVerdict v then Ret (ascii ''INSUFFICIENT_EVIDENCE'', FNum False 0, ascii ''INVALID_ARBITRATION_VERDICT'')
      else case measured (EntropyBits inc) of
        None \<Rightarrow> Ret (ascii ''INSUFFICIENT_EVIDENCE'', FNum False 0, ascii ''INVALID_INCIDENT_METRICS'')
      | Some x \<Rightarrow>
          if selector_shape U inc x then Ret (ascii ''BENIGN_CRYPTO_KEY'', FNum False 0, ascii ''HEURISTIC_PROTOCOL_SHAPE_NOT_CERTIFICATION'')
          else if iQueryCount inc < 3 \<and> x < float_4_2
          then Ret (ascii ''INSUFFICIENT_EVIDENCE'', FNum False 0, ascii ''VETO_DETERMINISTE: Echantillon temporel insuffisant (< 3 requetes)'')
          else Ret (v, FNum False 0, ascii ''MODEL_PROPOSAL_NOT_PROOF''))"
proof (cases "measured (EntropyBits inc)")
  case None
  then have "float_outside 8 (EntropyBits inc)" by (auto simp: measured_def float_outside_def not_le split: go_float.splits if_splits)
  then show ?thesis using None by (simp add: applyVetoRules_def del: ascii_Cons)
next
  case (Some x)
  then obtain neg r where r: "EntropyBits inc = FNum neg r" "x = fnum neg r" and x: "0 \<le> x" "x \<le> 8"
    by (auto simp: measured_def split: go_float.splits if_splits)
  have out: "\<not> float_outside 8 (EntropyBits inc)" "float_less (EntropyBits inc) float_4_2 \<longleftrightarrow> x < float_4_2" "float_q8 (EntropyBits inc) = word_of_int \<lfloor>x * 256\<rfloor>"
    using r x by (simp_all add: float_outside_def float_less_def float_q8_def)
  have "isLegitimateProtocolPrefix U (iSubdomain inc) (float_q8 (EntropyBits inc))
      = Ret (protocol_name U (iSubdomain inc) \<and> length (iSubdomain inc) \<le> 45 \<and> x < 4)"
    unfolding isLegitimateProtocolPrefix_def out(3) float_q8_less[OF x] protocol_prefix_ok by (auto simp: protocol_name_def)
  then show ?thesis using Some out(1,2)
    by (auto simp: applyVetoRules_def selector_shape_def simp del: ascii_Cons)
qed


definition sample_incident :: SLMIncident where
  "sample_incident = \<lparr>iTimestamp = 0, iFQDN = ascii ''a1b2.ex.org'', iParentDomain = ascii ''ex.org'', iSubdomain = ascii ''a1b2'', iQType = 16, iEntropyQ8 = 1200,
     EntropyBits = FNum False (1200 / 256), iPayloadClass = 2, iJitterPct = 5, iUniqueSubdomains = 4, iQueryCount = 4,
     SuspectedIndicator = ascii ''HIGH_ENTROPY'', HumanSummary = [], RecommendedAction = []\<rparr>"


end
