(* ===== verification/Entropy.thy ===== *)
theory Entropy
  imports Prelude
begin

text \<open>
  The integer entropy of \<open>probe_entropy_gen.go\<close>: an eight-fold unrolled histogram, logarithms in
  Q8.8 from two tables, and the class of a payload from the character classes of its octets.  The
  histogram is shown to be the number of occurrences of each octet, and the class to be a function
  of how many octets of each kind there are.
\<close>

section \<open>Tables\<close>

definition c_log2_c_table :: "u32 list" where
  "c_log2_c_table = [0, 0, 512, 1217, 2048, 2972, 3971, 5031, 6144, 7304, 8504, 9742, 11013, 12315, 13646, 15002, 16384, 17789,
     19215, 20662, 22128, 23613, 25116, 26635, 28170, 29721, 31286, 32866, 34459, 36066, 37685, 39317, 40960,
     42615, 44281, 45958, 47646, 49344, 51052, 52769, 54497, 56233, 57978, 59732, 61495, 63266, 65045, 66833,
     68628, 70431, 72241, 74059, 75884, 77716, 79556, 81402, 83254, 85114, 86979, 88851, 90730, 92614, 94505,
     96402, 98304, 100212, 102126, 104046, 105971, 107901, 109837, 111778, 113724, 115675, 117632, 119593, 121560,
     123531, 125507, 127488, 129473, 131463, 133458, 135457, 137460, 139468, 141481, 143497, 145518, 147543,
     149572, 151606, 153643, 155684, 157730, 159779, 161832, 163889, 165950, 168014, 170083, 172155, 174230,
     176310, 178393, 180479, 182569, 184662, 186759, 188859, 190963, 193070, 195180, 197294, 199411, 201531,
     203655, 205781, 207911, 210044, 212180, 214319, 216461, 218606, 220754, 222905, 225059, 227216, 229376,
     231539, 233704, 235873, 238044, 240218, 242395, 244575, 246757, 248942, 251130, 253320, 255514, 257709,
     259908, 262109, 264312, 266518, 268727, 270938, 273152, 275368, 277587, 279808, 282031, 284257, 286486,
     288717, 290950, 293185, 295423, 297664, 299906, 302151, 304398, 306648, 308899, 311153, 313410, 315668,
     317929, 320192, 322457, 324724, 326993, 329265, 331538, 333814, 336092, 338372, 340654, 342938, 345225,
     347513, 349803, 352096, 354390, 356686, 358985, 361285, 363587, 365892, 368198, 370506, 372816, 375128,
     377442, 379758, 382076, 384395, 386717, 389040, 391365, 393693, 396021, 398352, 400685, 403019, 405355,
     407693, 410033, 412375, 414718, 417063, 419410, 421758, 424109, 426461, 428814, 431170, 433527, 435886,
     438246, 440608, 442972, 445338, 447705, 450074, 452444, 454816, 457190, 459565, 461942, 464321, 466701,
     469083, 471466, 473851, 476238, 478626, 481015, 483407, 485799, 488194, 490589, 492987, 495386, 497786,
     500188, 502591, 504996, 507402, 509810, 512220, 514630, 517043, 519456, 521871, 524288]"

definition log2_mantissa_q8 :: "byte list" where
  "log2_mantissa_q8 = [0, 1, 3, 4, 6, 7, 9, 10, 11, 13, 14, 16, 17, 18, 20, 21, 22, 24, 25, 26, 28, 29, 30, 32, 33, 34, 36, 37, 38,
     40, 41, 42, 44, 45, 46, 47, 49, 50, 51, 52, 54, 55, 56, 57, 59, 60, 61, 62, 63, 65, 66, 67, 68, 69, 71, 72,
     73, 74, 75, 77, 78, 79, 80, 81, 82, 84, 85, 86, 87, 88, 89, 90, 92, 93, 94, 95, 96, 97, 98, 99, 100, 102, 103,
     104, 105, 106, 107, 108, 109, 110, 111, 112, 113, 114, 116, 117, 118, 119, 120, 121, 122, 123, 124, 125, 126,
     127, 128, 129, 130, 131, 132, 133, 134, 135, 136, 137, 138, 139, 140, 141, 142, 143, 144, 145, 146, 147, 148,
     149, 150, 151, 152, 153, 154, 155, 155, 156, 157, 158, 159, 160, 161, 162, 163, 164, 165, 166, 167, 168, 169,
     169, 170, 171, 172, 173, 174, 175, 176, 177, 178, 178, 179, 180, 181, 182, 183, 184, 185, 185, 186, 187, 188,
     189, 190, 191, 192, 192, 193, 194, 195, 196, 197, 198, 198, 199, 200, 201, 202, 203, 203, 204, 205, 206, 207,
     208, 208, 209, 210, 211, 212, 212, 213, 214, 215, 216, 216, 217, 218, 219, 220, 220, 221, 222, 223, 224, 224,
     225, 226, 227, 228, 228, 229, 230, 231, 231, 232, 233, 234, 234, 235, 236, 237, 238, 238, 239, 240, 241, 241,
     242, 243, 244, 244, 245, 246, 247, 247, 248, 249, 249, 250, 251, 252, 252, 253, 254, 255, 255]"

definition archtime_char_class :: "byte list" where
  "archtime_char_class = [0x08, 0x08, 0x08, 0x08, 0x08, 0x08, 0x08, 0x08, 0x08, 0x21, 0x21, 0x08, 0x08, 0x21, 0x08, 0x08, 0x08, 0x08,
     0x08, 0x08, 0x08, 0x08, 0x08, 0x08, 0x08, 0x08, 0x08, 0x08, 0x08, 0x08, 0x08, 0x08, 0x21, 0x01, 0x01, 0x01,
     0x01, 0x01, 0x01, 0x01, 0x01, 0x01, 0x01, 0x05, 0x01, 0x05, 0x41, 0x05, 0x07, 0x07, 0x07, 0x07, 0x07, 0x07,
     0x07, 0x07, 0x07, 0x07, 0x01, 0x01, 0x01, 0x05, 0x01, 0x01, 0x01, 0x07, 0x07, 0x07, 0x07, 0x07, 0x07, 0x05,
     0x05, 0x05, 0x05, 0x05, 0x05, 0x05, 0x05, 0x05, 0x05, 0x05, 0x05, 0x05, 0x05, 0x05, 0x05, 0x05, 0x05, 0x05,
     0x05, 0x01, 0x01, 0x01, 0x01, 0x05, 0x01, 0x07, 0x07, 0x07, 0x07, 0x07, 0x07, 0x05, 0x05, 0x05, 0x05, 0x05,
     0x05, 0x05, 0x05, 0x05, 0x05, 0x05, 0x05, 0x05, 0x05, 0x05, 0x05, 0x05, 0x05, 0x05, 0x05, 0x01, 0x01, 0x01,
     0x01, 0x08, 0x10, 0x10, 0x10, 0x10, 0x10, 0x10, 0x10, 0x10, 0x10, 0x10, 0x10, 0x10, 0x10, 0x10, 0x10, 0x10,
     0x10, 0x10, 0x10, 0x10, 0x10, 0x10, 0x10, 0x10, 0x10, 0x10, 0x10, 0x10, 0x10, 0x10, 0x10, 0x10, 0x10, 0x10,
     0x10, 0x10, 0x10, 0x10, 0x10, 0x10, 0x10, 0x10, 0x10, 0x10, 0x10, 0x10, 0x10, 0x10, 0x10, 0x10, 0x10, 0x10,
     0x10, 0x10, 0x10, 0x10, 0x10, 0x10, 0x10, 0x10, 0x10, 0x10, 0x10, 0x10, 0x10, 0x10, 0x10, 0x10, 0x10, 0x10,
     0x10, 0x10, 0x10, 0x10, 0x10, 0x10, 0x10, 0x10, 0x10, 0x10, 0x10, 0x10, 0x10, 0x10, 0x10, 0x10, 0x10, 0x10,
     0x10, 0x10, 0x10, 0x10, 0x10, 0x10, 0x10, 0x10, 0x10, 0x10, 0x10, 0x10, 0x10, 0x10, 0x10, 0x10, 0x10, 0x10,
     0x10, 0x10, 0x10, 0x10, 0x10, 0x10, 0x10, 0x10, 0x10, 0x10, 0x10, 0x10, 0x10, 0x10, 0x10, 0x10, 0x10, 0x10,
     0x10, 0x10, 0x10, 0x10]"

section \<open>Logarithms\<close>

text \<open>\<open>bits.LeadingZeros64\<close>.\<close>

fun nat_len :: "nat \<Rightarrow> nat" where
  "nat_len n = (if n = 0 then 0 else Suc (nat_len (n div 2)))"

declare nat_len.simps [simp del]

definition LeadingZeros64 :: "u64 \<Rightarrow> nat" where
  "LeadingZeros64 n = 64 - nat_len (unat n)"

definition Arch_log2_q8_8 :: "u64 \<Rightarrow> u32" where
  "Arch_log2_q8_8 n =
     (if n \<le> 1 then 0
      else if n \<le> 0x100 then c_log2_c_table ! unat n div ucast n
      else word_of_nat ((63 - LeadingZeros64 n) * 256
             + unat (log2_mantissa_q8 ! unat (drop_bit 56 (push_bit (LeadingZeros64 n + 1) n)))))"

text \<open>The term of one octet in the sum, \<open>c * log2 c\<close>.\<close>

definition log_term :: "u32 \<Rightarrow> u64" where
  "log_term c = (if c \<le> 0x100 then ucast (c_log2_c_table ! unat c) else ucast c * ucast (Arch_log2_q8_8 (ucast c)))"

section \<open>Entropy\<close>

definition bump :: "u32 list \<Rightarrow> byte \<Rightarrow> u32 list" where
  "bump v b = v[unat b := v ! unat b + 1]"

text \<open>Eight octets a turn, then the rest one by one.\<close>

function count_by_eight :: "bytes \<Rightarrow> nat \<Rightarrow> nat \<Rightarrow> u32 list \<Rightarrow> (nat \<times> u32 list) outcome" where
  "count_by_eight d n i v =
     (if i + 7 < n then obind (slice_at d i (i + 8)) (\<lambda>chunk. count_by_eight d n (i + 8) (foldl bump v chunk))
      else Ret (i, v))"
  by pat_completeness auto

termination
  by (relation "measure (\<lambda>(d, n, i, v). n - i)") auto

function count_rest :: "bytes \<Rightarrow> nat \<Rightarrow> nat \<Rightarrow> u32 list \<Rightarrow> u32 list outcome" where
  "count_rest d n i v = (if i < n then obind (get_at d i) (\<lambda>b. count_rest d n (i + 1) (bump v b)) else Ret v)"
  by pat_completeness auto

termination
  by (relation "measure (\<lambda>(d, n, i, v). n - i)") auto

declare count_by_eight.simps [simp del] count_rest.simps [simp del]

definition log_sum :: "u32 list \<Rightarrow> u64" where
  "log_sum v = foldl (\<lambda>s i. if 0 < v ! i then s + log_term (v ! i) else s) 0 [0..<256]"

text \<open>A nil slice has length zero, so the test for nil is the test for length zero.\<close>

definition C2bt_calc_entropy_8_8 :: "bytes \<Rightarrow> u64 \<Rightarrow> u32 outcome" where
  "C2bt_calc_entropy_8_8 d len0 = (let n = min (unat len0) (length d) in
     if n = 0 then Ret 0
     else obind (count_by_eight d n 0 (replicate 256 0)) (\<lambda>(i, v).
       obind (count_rest d n i v) (\<lambda>v.
       let v94 = log_sum v; v114 = Arch_log2_q8_8 (word_of_nat n); v117 = ucast (v94 div word_of_nat n) in
       Ret (if v117 \<le> v114 then v114 - v117 else 0))))"

section \<open>Profile\<close>

record entropy_profile =
  Entropy_q8 :: u32
  Char_mask :: u32
  Distinct_count :: u16
  Payload_class :: u16
  Len_ :: u64

definition char_class :: "byte \<Rightarrow> byte" where
  "char_class b = archtime_char_class ! unat b"

definition or_classes :: "bytes \<Rightarrow> byte" where
  "or_classes bs = foldl (\<lambda>m b. m OR char_class b) 0 bs"

function profile_by_eight :: "bytes \<Rightarrow> nat \<Rightarrow> nat \<Rightarrow> u32 list \<Rightarrow> u32 \<Rightarrow> (nat \<times> u32 list \<times> u32) outcome" where
  "profile_by_eight d n i v m =
     (if i + 7 < n then obind (slice_at d i (i + 8)) (\<lambda>chunk.
        profile_by_eight d n (i + 8) (foldl bump v chunk) (m OR ucast (or_classes chunk)))
      else Ret (i, v, m))"
  by pat_completeness auto

termination
  by (relation "measure (\<lambda>(d, n, i, v, m). n - i)") auto

function profile_rest :: "bytes \<Rightarrow> nat \<Rightarrow> nat \<Rightarrow> u32 list \<Rightarrow> u32 \<Rightarrow> (u32 list \<times> u32) outcome" where
  "profile_rest d n i v m =
     (if i < n then obind (get_at d i) (\<lambda>b. profile_rest d n (i + 1) (bump v b) (m OR ucast (char_class b)))
      else Ret (v, m))"
  by pat_completeness auto

termination
  by (relation "measure (\<lambda>(d, n, i, v, m). n - i)") auto

declare profile_by_eight.simps [simp del] profile_rest.simps [simp del]

text \<open>The counters of the loop over the 256 octet values, named by what they count.\<close>

record tally =
  v114_log :: u64
  v116_distinct :: u16
  v118_hex :: u64
  v120_b64 :: u64
  v122_nonhex :: u64
  v130_dot :: u64
  v124_print :: u64
  v128_punct :: u64
  v126_space :: u64
  v132_ctrl :: u64
  v134_high :: u64

definition tally_zero :: tally where
  "tally_zero = \<lparr>v114_log = 0, v116_distinct = 0, v118_hex = 0, v120_b64 = 0, v122_nonhex = 0, v130_dot = 0,
     v124_print = 0, v128_punct = 0, v126_space = 0, v132_ctrl = 0, v134_high = 0\<rparr>"

definition tally_step :: "u32 list \<Rightarrow> tally \<Rightarrow> nat \<Rightarrow> tally" where
  "tally_step v t i = (let c = v ! i; k = archtime_char_class ! i; w = ucast c in
     if 0 < c then t\<lparr>v114_log := v114_log t + log_term c, v116_distinct := v116_distinct t + 1,
        v118_hex := (if k AND 2 \<noteq> 0 then v118_hex t + w else v118_hex t),
        v120_b64 := (if k AND 4 \<noteq> 0 then v120_b64 t + w else v120_b64 t),
        v122_nonhex := (if k AND 4 \<noteq> 0 \<and> k AND 2 = 0 then v122_nonhex t + w else v122_nonhex t),
        v130_dot := (if k AND 64 \<noteq> 0 then v130_dot t + w else v130_dot t),
        v124_print := (if k AND 1 \<noteq> 0 then v124_print t + w else v124_print t),
        v128_punct := (if k AND 1 \<noteq> 0 \<and> k AND 4 = 0 \<and> k AND 32 = 0 \<and> k AND 64 = 0 then v128_punct t + w else v128_punct t),
        v126_space := (if k AND 32 \<noteq> 0 then v126_space t + w else v126_space t),
        v132_ctrl := (if k AND 8 \<noteq> 0 then v132_ctrl t + w else v132_ctrl t),
        v134_high := (if k AND 16 \<noteq> 0 then v134_high t + w else v134_high t)\<rparr>
     else t)"

definition tally_all :: "u32 list \<Rightarrow> tally" where
  "tally_all v = foldl (tally_step v) tally_zero [0..<256]"

text \<open>The cascade of tests on the counters.\<close>

definition class_binary :: "u64 \<Rightarrow> tally \<Rightarrow> u32 \<Rightarrow> bool" where
  "class_binary n t e \<longleftrightarrow>
     (if 0x100 \<le> n then 0x780 \<le> e \<or> (0x700 \<le> e \<and> 0 < v134_high t \<and> 0 < v132_ctrl t \<and> 0x50 \<le> v116_distinct t)
      else 16 \<le> n \<and> 0 < v134_high t \<and> n * 55 \<le> ucast (v116_distinct t) * 0x64 \<and> 0 < v132_ctrl t)"

definition class_hex :: "u64 \<Rightarrow> tally \<Rightarrow> bool" where
  "class_hex n t \<longleftrightarrow> v132_ctrl t = 0 \<and> v134_high t = 0 \<and> v128_punct t = 0 \<and> v122_nonhex t = 0 \<and> v130_dot t = 0
     \<and> v118_hex t + v126_space t = n \<and> n * 0x5a div 0x64 \<le> v118_hex t \<and> (4 \<le> v116_distinct t \<or> (16 \<le> n \<and> 1 \<le> v116_distinct t))"

definition class_token :: "u64 \<Rightarrow> tally \<Rightarrow> bool" where
  "class_token n t \<longleftrightarrow> v132_ctrl t = 0 \<and> v134_high t = 0 \<and> v128_punct t = 0 \<and> v126_space t = 0 \<and> 1 \<le> v130_dot t \<and> v130_dot t \<le> 3
     \<and> 32 \<le> n \<and> v120_b64 t + v130_dot t = n \<and> min n 64 div 2 \<le> ucast (v116_distinct t)"

definition class_base64 :: "u64 \<Rightarrow> tally \<Rightarrow> u32 \<Rightarrow> bool" where
  "class_base64 n t e \<longleftrightarrow> v132_ctrl t = 0 \<and> v134_high t = 0 \<and> v128_punct t = 0 \<and> v130_dot t = 0 \<and> 0 < v122_nonhex t \<and> 48 \<le> n
     \<and> v120_b64 t + v126_space t = n \<and> n * 0x5a div 0x64 \<le> v120_b64 t
     \<and> ucast (if n < 64 then n div 2 else 32) \<le> v116_distinct t \<and> 0x47e \<le> e \<and> e \<le> 0x60e"

definition class_text :: "u64 \<Rightarrow> tally \<Rightarrow> u32 \<Rightarrow> bool" where
  "class_text n t e \<longleftrightarrow> v132_ctrl t = 0 \<and> v124_print t + v134_high t = n \<and> (e < 0x640 \<or> n < 48)"

definition payload_class_of :: "u64 \<Rightarrow> tally \<Rightarrow> u32 \<Rightarrow> u16" where
  "payload_class_of n t e =
     (if n < 8 then (if v124_print t = n then 1 else 0)
      else if class_binary n t e then 4
      else if class_hex n t then 2
      else if class_token n t then 5
      else if class_base64 n t e then 3
      else if class_text n t e then 1
      else 0)"

definition profile_payload :: "bytes \<Rightarrow> u64 \<Rightarrow> entropy_profile outcome" where
  "profile_payload d len0 = (let n = min (unat len0) (length d);
       p = \<lparr>Entropy_q8 = 0, Char_mask = 0, Distinct_count = 0, Payload_class = 0, Len_ = word_of_nat n\<rparr> in
     if n = 0 then Ret p
     else obind (profile_by_eight d n 0 (replicate 256 0) 0) (\<lambda>(i, v, m).
       obind (profile_rest d n i v m) (\<lambda>(v, m).
       let t = tally_all v; v199 = Arch_log2_q8_8 (word_of_nat n); v202 = ucast (v114_log t div word_of_nat n);
           v203 = (if v202 \<le> v199 then v199 - v202 else 0) in
       Ret (p\<lparr>Char_mask := m, Distinct_count := v116_distinct t, Entropy_q8 := v203,
              Payload_class := payload_class_of (word_of_nat n) t v203\<rparr>))))"

text \<open>The profile is written through a pointer, which may be nil.\<close>

definition C2bt_profile_payload :: "bytes \<Rightarrow> u64 \<Rightarrow> entropy_profile option \<Rightarrow> (int \<times> entropy_profile option) outcome" where
  "C2bt_profile_payload d len0 out_profile = (case out_profile of
     None \<Rightarrow> Ret (-1, None)
   | Some _ \<Rightarrow> obind (profile_payload d len0) (\<lambda>p. Ret (0, Some p)))"

definition C2bt_classify_payload :: "bytes \<Rightarrow> u64 \<Rightarrow> u32 option \<Rightarrow> u32 option \<Rightarrow> (u16 \<times> u32 option \<times> u32 option) outcome" where
  "C2bt_classify_payload d len0 out_entropy_q8 out_char_mask = (let n = min (unat len0) (length d) in
     obind (profile_payload d (word_of_nat n)) (\<lambda>p.
       Ret (Payload_class p, map_option (\<lambda>_. Entropy_q8 p) out_entropy_q8, map_option (\<lambda>_. Char_mask p) out_char_mask)))"


text \<open>The facade of \<open>c2blue55.go\<close>.\<close>

definition CalcEntropyQ8 :: "bytes \<Rightarrow> u32 outcome" where
  "CalcEntropyQ8 payload = C2bt_calc_entropy_8_8 payload (word_of_nat (length payload))"

definition ProfilePayload :: "bytes \<Rightarrow> entropy_profile outcome" where
  "ProfilePayload payload = profile_payload payload (word_of_nat (length payload))"

section \<open>The histogram\<close>

definition hist :: "bytes \<Rightarrow> u32 list" where
  "hist s = map (\<lambda>i. word_of_nat (count_list s (word_of_nat i))) [0..<256]"

lemma length_hist [simp]: "length (hist s) = 256"
  by (simp add: hist_def)

lemma hist_nth: "hist s ! unat b = word_of_nat (count_list s b)"
  using unat_bound[of b] by (simp add: hist_def)

lemma hist_Nil: "hist [] = replicate 256 0"
  unfolding hist_def by (rule nth_equalityI) simp_all

lemma hist_bump: "bump (hist s) b = hist (s @ [b])"
proof (rule nth_equalityI)
  fix i assume "i < length (bump (hist s) b)"
  then have i: "i < 256" by (simp add: bump_def)
  then have u: "unat (word_of_nat i :: byte) = i" by (simp add: unat_of_nat)
  have e: "i = unat b \<longleftrightarrow> word_of_nat i = b" using u by auto
  show "bump (hist s) b ! i = hist (s @ [b]) ! i"
    using i e unat_bound[of b] by (auto simp: bump_def hist_def nth_list_update)
qed (simp add: bump_def)

lemma hist_bumps: "foldl bump (hist s) t = hist (s @ t)"
  by (induction t arbitrary: s) (simp_all add: hist_bump)

lemma count_by_eight_ok:
  assumes "n \<le> length d" "i \<le> n"
  shows "\<exists>j. count_by_eight d n i (hist (take i d)) = Ret (j, hist (take j d)) \<and> j \<le> n"
  using assms(2)
proof (induction "n - i" arbitrary: i rule: less_induct)
  case less
  show ?case
  proof (cases "i + 7 < n")
    case True
    have "take i d @ subslice i (i + 8) d = take (i + 8) d" by (simp add: subslice_def take_add)
    then have "count_by_eight d n i (hist (take i d)) = count_by_eight d n (i + 8) (hist (take (i + 8) d))"
      using True assms(1) by (subst count_by_eight.simps) (simp add: hist_bumps)
    then show ?thesis using less.hyps[of "i + 8"] True by simp
  qed (use less.prems in \<open>subst count_by_eight.simps, simp\<close>)
qed

lemma count_rest_ok:
  assumes "n \<le> length d" "i \<le> n"
  shows "count_rest d n i (hist (take i d)) = Ret (hist (take n d))"
  using assms(2)
proof (induction "n - i" arbitrary: i rule: less_induct)
  case less
  show ?case
  proof (cases "i < n")
    case True
    then have "count_rest d n i (hist (take i d)) = count_rest d n (i + 1) (hist (take (i + 1) d))"
      using assms(1) by (subst count_rest.simps) (simp add: hist_bump take_Suc_conv_app_nth)
    then show ?thesis using less.hyps[of "i + 1"] True by simp
  qed (use less.prems in \<open>subst count_rest.simps, simp\<close>)
qed

definition mask_of :: "bytes \<Rightarrow> u32" where
  "mask_of s = ucast (or_classes s)"

lemma or_classes_from: "foldl (\<lambda>m b. m OR char_class b) a s = a OR or_classes s"
  by (induction s rule: rev_induct) (simp_all add: or_classes_def or.assoc)

lemma mask_of_append: "mask_of (s @ t) = mask_of s OR mask_of t"
proof -
  have "or_classes (s @ t) = or_classes s OR or_classes t"
    using or_classes_from[of "or_classes s" t] by (simp add: or_classes_def)
  then show ?thesis by (simp add: mask_of_def unsigned_or_eq)
qed

lemma mask_of_single: "mask_of [b] = ucast (char_class b)"
  by (simp add: mask_of_def or_classes_def)

lemma profile_by_eight_ok:
  assumes "n \<le> length d" "i \<le> n"
  shows "\<exists>j. profile_by_eight d n i (hist (take i d)) (mask_of (take i d)) = Ret (j, hist (take j d), mask_of (take j d)) \<and> j \<le> n"
  using assms(2)
proof (induction "n - i" arbitrary: i rule: less_induct)
  case less
  show ?case
  proof (cases "i + 7 < n")
    case True
    have e: "take (i + 8) d = take i d @ subslice i (i + 8) d" by (simp add: subslice_def take_add)
    have "profile_by_eight d n i (hist (take i d)) (mask_of (take i d))
        = profile_by_eight d n (i + 8) (hist (take (i + 8) d)) (mask_of (take (i + 8) d))"
      using True assms(1) unfolding e mask_of_append by (subst profile_by_eight.simps) (simp add: hist_bumps mask_of_def[of "subslice i (i + 8) d"])
    then show ?thesis using less.hyps[of "i + 8"] True by simp
  qed (use less.prems in \<open>subst profile_by_eight.simps, simp\<close>)
qed

lemma profile_rest_ok:
  assumes "n \<le> length d" "i \<le> n"
  shows "profile_rest d n i (hist (take i d)) (mask_of (take i d)) = Ret (hist (take n d), mask_of (take n d))"
  using assms(2)
proof (induction "n - i" arbitrary: i rule: less_induct)
  case less
  show ?case
  proof (cases "i < n")
    case True
    then have e: "take (i + 1) d = take i d @ [d ! i]" using assms(1) by (simp add: take_Suc_conv_app_nth)
    have "profile_rest d n i (hist (take i d)) (mask_of (take i d)) = profile_rest d n (i + 1) (hist (take (i + 1) d)) (mask_of (take (i + 1) d))"
      using True assms(1) unfolding e mask_of_append mask_of_single by (subst profile_rest.simps) (simp add: hist_bump)
    then show ?thesis using less.hyps[of "i + 1"] True by simp
  qed (use less.prems in \<open>subst profile_rest.simps, simp\<close>)
qed


section \<open>The counters\<close>

text \<open>The kinds of octets, and how many of one kind a payload has.\<close>

definition is_hex_digit :: "byte \<Rightarrow> bool" where
  "is_hex_digit b \<longleftrightarrow> (0x30 \<le> b \<and> b \<le> 0x39) \<or> (0x41 \<le> b \<and> b \<le> 0x46) \<or> (0x61 \<le> b \<and> b \<le> 0x66)"

definition is_b64_char :: "byte \<Rightarrow> bool" where
  "is_b64_char b \<longleftrightarrow> (0x30 \<le> b \<and> b \<le> 0x39) \<or> (0x41 \<le> b \<and> b \<le> 0x5A) \<or> (0x61 \<le> b \<and> b \<le> 0x7A) \<or> b \<in> {0x2B, 0x2D, 0x2F, 0x3D, 0x5F}"

definition is_blank :: "byte \<Rightarrow> bool" where
  "is_blank b \<longleftrightarrow> b \<in> {0x09, 0x0A, 0x0D, 0x20}"

definition is_printable :: "byte \<Rightarrow> bool" where
  "is_printable b \<longleftrightarrow> is_blank b \<or> (0x21 \<le> b \<and> b \<le> 0x7E)"

definition is_control :: "byte \<Rightarrow> bool" where
  "is_control b \<longleftrightarrow> (b < 0x20 \<and> \<not> is_blank b) \<or> b = 0x7F"

definition num :: "(byte \<Rightarrow> bool) \<Rightarrow> bytes \<Rightarrow> nat" where
  "num P s = length (filter P s)"

definition class_bits :: "byte \<Rightarrow> byte" where
  "class_bits b = (if is_printable b then 1 else 0) OR (if is_hex_digit b then 2 else 0) OR (if is_b64_char b then 4 else 0)
     OR (if is_control b then 8 else 0) OR (if 0x80 \<le> b then 16 else 0) OR (if is_blank b then 32 else 0) OR (if b = 0x2E then 64 else 0)"

lemma octet_values: "[0..<256] = 0 # 1 # [2..<256]"
  by (simp add: upt_conv_Cons numeral_2_eq_2)

lemma char_class_table: "archtime_char_class = map (\<lambda>i. class_bits (word_of_nat i)) [0..<256]"
  by (simp add: archtime_char_class_def class_bits_def is_printable_def is_hex_digit_def is_b64_char_def is_control_def is_blank_def octet_values upt_rec_numeral)
    (simp add: word_le_nat_alt)

lemma char_class_bits: "char_class b = class_bits b"
  unfolding char_class_def char_class_table using unat_bound[of b] by simp

lemma class_tests:
  "char_class b AND 1 \<noteq> 0 \<longleftrightarrow> is_printable b" "char_class b AND 2 \<noteq> 0 \<longleftrightarrow> is_hex_digit b" "char_class b AND 4 \<noteq> 0 \<longleftrightarrow> is_b64_char b"
  "char_class b AND 8 \<noteq> 0 \<longleftrightarrow> is_control b" "char_class b AND 16 \<noteq> 0 \<longleftrightarrow> 0x80 \<le> b" "char_class b AND 32 \<noteq> 0 \<longleftrightarrow> is_blank b"
  "char_class b AND 64 \<noteq> 0 \<longleftrightarrow> b = 0x2E"
  unfolding char_class_bits class_bits_def by (simp_all add: bit.conj_disj_distrib2)

lemma sum_over_octets:
  "(\<Sum>i\<leftarrow>[0..<256]. if P (word_of_nat i) then count_list s (word_of_nat i) else 0) = num P s"
proof (induction s)
  case (Cons b s)
  have one: "(\<Sum>i\<leftarrow>[0..<256]. if word_of_nat i = b \<and> P b then 1 else 0) = (if P b then 1 else (0 :: nat))"
  proof -
    have "(\<Sum>i\<leftarrow>[0..<256]. if word_of_nat i = b \<and> P b then 1 else 0) = (\<Sum>i \<in> {0..<256}. if i = unat b then (if P b then 1 else 0) else (0 :: nat))"
      unfolding interv_sum_list_conv_sum_set_nat
      by (rule sum.cong) (auto simp: unat_of_nat)
    then show ?thesis using unat_bound[of b] by (simp add: sum.delta)
  qed
  have "(\<Sum>i\<leftarrow>[0..<256]. if P (word_of_nat i) then count_list (b # s) (word_of_nat i) else 0)
      = (\<Sum>i\<leftarrow>[0..<256]. (if P (word_of_nat i) then count_list s (word_of_nat i) else 0) + (if word_of_nat i = b \<and> P b then 1 else 0))"
    by (rule arg_cong[where f = sum_list], rule map_cong) auto
  then show ?case using Cons one unfolding sum_list_addf by (simp add: num_def)
qed (simp add: num_def interv_sum_list_conv_sum_set_nat)

lemma of_nat_sum_list_word: "(\<Sum>x\<leftarrow>xs. word_of_nat (f x)) = (word_of_nat (\<Sum>x\<leftarrow>xs. f x) :: 'a::len word)"
  by (induction xs) simp_all

lemma sum_hist:
  assumes "length s < 2 ^ 32" "\<And>i. i < 256 \<Longrightarrow> Q i \<longleftrightarrow> P (word_of_nat i)"
  shows "(\<Sum>i\<leftarrow>[0..<256]. if Q i then ucast (hist s ! i) else 0) = (word_of_nat (num P s) :: u64)"
proof -
  have "(\<Sum>i\<leftarrow>[0..<256]. if Q i then ucast (hist s ! i) else (0 :: u64))
      = (\<Sum>i\<leftarrow>[0..<256]. word_of_nat (if P (word_of_nat i) then count_list s (word_of_nat i) else 0))"
  proof (rule arg_cong[where f = sum_list], rule map_cong[OF refl])
    fix i assume "i \<in> set [0..<256]"
    then have i: "i < 256" by simp
    have "count_list s (word_of_nat i) < 2 ^ 32" using count_le_length[of s "word_of_nat i"] assms(1) by simp
    then have "ucast (word_of_nat (count_list s (word_of_nat i)) :: u32) = (word_of_nat (count_list s (word_of_nat i)) :: u64)"
      by (intro word_unat_eq_iff[THEN iffD2]) (simp add: unat_ucast_mod unat_of_nat)
    then show "(if Q i then ucast (hist s ! i) else (0 :: u64)) = word_of_nat (if P (word_of_nat i) then count_list s (word_of_nat i) else 0)"
      using i assms(2) by (simp add: hist_def)
  qed
  then show ?thesis by (simp add: of_nat_sum_list_word sum_over_octets)
qed


lemma tally_fold:
  "v114_log (foldl (tally_step v) t ix) = foldl (\<lambda>s i. if 0 < v ! i then s + log_term (v ! i) else s) (v114_log t) ix"
  "v116_distinct (foldl (tally_step v) t ix) = v116_distinct t + word_of_nat (length (filter (\<lambda>i. 0 < v ! i) ix))"
  "v118_hex (foldl (tally_step v) t ix) = v118_hex t + (\<Sum>i\<leftarrow>ix. if archtime_char_class ! i AND 2 \<noteq> 0 then ucast (v ! i) else 0)"
  "v120_b64 (foldl (tally_step v) t ix) = v120_b64 t + (\<Sum>i\<leftarrow>ix. if archtime_char_class ! i AND 4 \<noteq> 0 then ucast (v ! i) else 0)"
  "v122_nonhex (foldl (tally_step v) t ix) = v122_nonhex t
     + (\<Sum>i\<leftarrow>ix. if archtime_char_class ! i AND 4 \<noteq> 0 \<and> archtime_char_class ! i AND 2 = 0 then ucast (v ! i) else 0)"
  "v130_dot (foldl (tally_step v) t ix) = v130_dot t + (\<Sum>i\<leftarrow>ix. if archtime_char_class ! i AND 64 \<noteq> 0 then ucast (v ! i) else 0)"
  "v124_print (foldl (tally_step v) t ix) = v124_print t + (\<Sum>i\<leftarrow>ix. if archtime_char_class ! i AND 1 \<noteq> 0 then ucast (v ! i) else 0)"
  "v128_punct (foldl (tally_step v) t ix) = v128_punct t
     + (\<Sum>i\<leftarrow>ix. if archtime_char_class ! i AND 1 \<noteq> 0 \<and> archtime_char_class ! i AND 4 = 0
          \<and> archtime_char_class ! i AND 32 = 0 \<and> archtime_char_class ! i AND 64 = 0 then ucast (v ! i) else 0)"
  "v126_space (foldl (tally_step v) t ix) = v126_space t + (\<Sum>i\<leftarrow>ix. if archtime_char_class ! i AND 32 \<noteq> 0 then ucast (v ! i) else 0)"
  "v132_ctrl (foldl (tally_step v) t ix) = v132_ctrl t + (\<Sum>i\<leftarrow>ix. if archtime_char_class ! i AND 8 \<noteq> 0 then ucast (v ! i) else 0)"
  "v134_high (foldl (tally_step v) t ix) = v134_high t + (\<Sum>i\<leftarrow>ix. if archtime_char_class ! i AND 16 \<noteq> 0 then ucast (v ! i) else 0)"
  by (induction ix arbitrary: t, auto simp: tally_step_def Let_def word_gt_0)+

lemma hist_pos:
  assumes "length s < 2 ^ 32" "i < 256"
  shows "0 < hist s ! i \<longleftrightarrow> word_of_nat i \<in> set s"
proof -
  have "count_list s (word_of_nat i) < 2 ^ 32" using count_le_length[of s "word_of_nat i"] assms(1) by simp
  then have "unat (word_of_nat (count_list s (word_of_nat i)) :: u32) = count_list s (word_of_nat i)" by (simp add: unat_of_nat)
  then show ?thesis using assms(2) by (simp add: hist_def word_less_nat_alt count_list_0_iff) (metis count_list_0_iff neq0_conv)
qed

lemma distinct_octets:
  assumes "length s < 2 ^ 32"
  shows "length (filter (\<lambda>i. 0 < hist s ! i) [0..<256]) = card (set s)"
proof -
  have "filter (\<lambda>i. 0 < hist s ! i) [0..<256] = filter (\<lambda>i. word_of_nat i \<in> set s) [0..<256]"
    by (rule filter_cong) (simp_all add: hist_pos[OF assms])
  moreover have "length (filter (\<lambda>i. word_of_nat i \<in> set s) [0..<256]) = card {i. i < 256 \<and> (word_of_nat i :: byte) \<in> set s}"
    by (simp add: length_filter_conv_card)  (rule arg_cong[where f = card], auto)
  moreover have "{i. i < 256 \<and> (word_of_nat i :: byte) \<in> set s} = unat ` set s"
  proof (intro equalityI subsetI)
    fix i assume i: "i \<in> {i. i < 256 \<and> (word_of_nat i :: byte) \<in> set s}"
    then have "unat (word_of_nat i :: byte) = i" by (simp add: unat_of_nat)
    then show "i \<in> unat ` set s" using i by (metis (mono_tags, lifting) image_eqI mem_Collect_eq)
  next
    fix i assume "i \<in> unat ` set s"
    then obtain b where "b \<in> set s" "i = unat b" by blast
    then show "i \<in> {i. i < 256 \<and> (word_of_nat i :: byte) \<in> set s}" using unat_bound[of b] by simp
  qed
  moreover have "card (unat ` set s) = card (set s)" by (rule card_image) (simp add: inj_on_def word_unat_eq_iff)
  ultimately show ?thesis by simp
qed

text \<open>What each counter is at the end of the loop, for a payload below four gigabytes.\<close>

definition tally_of :: "bytes \<Rightarrow> tally" where
  "tally_of s = \<lparr>v114_log = log_sum (hist s), v116_distinct = word_of_nat (card (set s)),
     v118_hex = word_of_nat (num is_hex_digit s), v120_b64 = word_of_nat (num is_b64_char s),
     v122_nonhex = word_of_nat (num (\<lambda>b. is_b64_char b \<and> \<not> is_hex_digit b) s), v130_dot = word_of_nat (num (\<lambda>b. b = 0x2E) s),
     v124_print = word_of_nat (num is_printable s),
     v128_punct = word_of_nat (num (\<lambda>b. is_printable b \<and> \<not> is_b64_char b \<and> \<not> is_blank b \<and> b \<noteq> 0x2E) s),
     v126_space = word_of_nat (num is_blank s), v132_ctrl = word_of_nat (num is_control s), v134_high = word_of_nat (num (\<lambda>b. 0x80 \<le> b) s)\<rparr>"

lemma tally_all_hist:
  assumes "length s < 2 ^ 32"
  shows "tally_all (hist s) = tally_of s"
proof -
  have cl: "archtime_char_class ! i = char_class (word_of_nat i)" if "i < 256" for i using that by (simp add: char_class_def unat_of_nat)
  have t: "archtime_char_class ! i AND k = 0 \<longleftrightarrow> char_class (word_of_nat i) AND k = 0" if "i < 256" for i k using cl[OF that] by simp
  note nt = class_tests[THEN arg_cong[where f = Not], simplified]
  note S = sum_hist[OF assms]
  show ?thesis unfolding tally_all_def tally_of_def
    by (rule tally.equality)
      (simp_all add: tally_fold tally_zero_def log_sum_def distinct_octets[OF assms], (rule S, simp add: t class_tests nt)+)
qed


section \<open>The classes\<close>

text \<open>The class as a statement about the octets of the payload and its entropy.\<close>

definition looks_binary :: "bytes \<Rightarrow> u32 \<Rightarrow> bool" where
  "looks_binary s e \<longleftrightarrow>
     (if 256 \<le> length s then 0x780 \<le> e \<or> (0x700 \<le> e \<and> list_ex (\<lambda>b. 0x80 \<le> b) s \<and> list_ex is_control s \<and> 80 \<le> card (set s))
      else 16 \<le> length s \<and> list_ex (\<lambda>b. 0x80 \<le> b) s \<and> 55 * length s \<le> 100 * card (set s) \<and> list_ex is_control s)"

definition looks_hex :: "bytes \<Rightarrow> bool" where
  "looks_hex s \<longleftrightarrow> list_all (\<lambda>b. is_hex_digit b \<or> is_blank b) s \<and> 90 * length s div 100 \<le> num is_hex_digit s
     \<and> (4 \<le> card (set s) \<or> 16 \<le> length s)"

definition looks_token :: "bytes \<Rightarrow> bool" where
  "looks_token s \<longleftrightarrow> list_all (\<lambda>b. is_b64_char b \<or> b = 0x2E) s \<and> 1 \<le> num (\<lambda>b. b = 0x2E) s \<and> num (\<lambda>b. b = 0x2E) s \<le> 3
     \<and> 32 \<le> length s \<and> min (length s) 64 div 2 \<le> card (set s)"

definition looks_base64 :: "bytes \<Rightarrow> u32 \<Rightarrow> bool" where
  "looks_base64 s e \<longleftrightarrow> list_all (\<lambda>b. is_b64_char b \<or> is_blank b) s \<and> list_ex (\<lambda>b. is_b64_char b \<and> \<not> is_hex_digit b) s
     \<and> 48 \<le> length s \<and> 90 * length s div 100 \<le> num is_b64_char s \<and> min (length s) 64 div 2 \<le> card (set s) \<and> 0x47e \<le> e \<and> e \<le> 0x60e"

definition payload_kind :: "bytes \<Rightarrow> u32 \<Rightarrow> u16" where
  "payload_kind s e =
     (if length s < 8 then (if list_all is_printable s then 1 else 0)
      else if looks_binary s e then 4
      else if looks_hex s then 2
      else if looks_token s then 5
      else if looks_base64 s e then 3
      else if list_all (\<lambda>b. \<not> is_control b) s \<and> (e < 0x640 \<or> length s < 48) then 1
      else 0)"

lemma num_le: "num P s \<le> length s"
  by (simp add: num_def)

lemma num_zero: "num P s = 0 \<longleftrightarrow> list_all (\<lambda>b. \<not> P b) s"
  by (auto simp: num_def list_all_iff filter_empty_conv)

lemma num_pos: "0 < num P s \<longleftrightarrow> list_ex P s"
  by (auto simp: num_def list_ex_iff filter_empty_conv)

lemma num_all: "num P s = length s \<longleftrightarrow> list_all P s"
proof -
  have "num P s + num (\<lambda>b. \<not> P b) s = length s" by (simp add: num_def sum_length_filter_compl)
  then have "num P s = length s \<longleftrightarrow> num (\<lambda>b. \<not> P b) s = 0" by linarith
  then show ?thesis by (simp add: num_zero)
qed

lemma num_two:
  assumes "\<And>b. \<not> (P b \<and> Q b)"
  shows "num P s + num Q s = length s \<longleftrightarrow> list_all (\<lambda>b. P b \<or> Q b) s"
proof -
  have "num P s + num Q s = num (\<lambda>b. P b \<or> Q b) s" using assms by (induction s) (auto simp: num_def)
  then show ?thesis by (simp add: num_all)
qed

lemma card_octets: "card (set (s :: bytes)) \<le> 256" "card (set s) \<le> length s"
proof -
  have "card (set s) \<le> card (UNIV :: byte set)" by (rule card_mono) simp_all
  then show "card (set s) \<le> 256" by (simp add: card_word)
qed (rule card_length)

lemma word_small:
  "x < 2 ^ 64 \<Longrightarrow> unat (word_of_nat x :: u64) = x" "x < 2 ^ 16 \<Longrightarrow> unat (word_of_nat x :: u16) = x"
  by (simp_all add: unat_of_nat)


lemma kinds_disjoint:
  "\<not> (is_hex_digit b \<and> is_blank b)" "\<not> (is_b64_char b \<and> b = 0x2E)" "\<not> (is_b64_char b \<and> is_blank b)" "\<not> (is_printable b \<and> 0x80 \<le> b)"
  "is_hex_digit b \<Longrightarrow> is_b64_char b" "is_b64_char b \<Longrightarrow> \<not> is_control b \<and> \<not> 0x80 \<le> b" "is_blank b \<Longrightarrow> \<not> is_control b \<and> \<not> 0x80 \<le> b \<and> b \<noteq> 0x2E"
  "\<not> is_control b \<longleftrightarrow> is_printable b \<or> 0x80 \<le> b"
  by (auto simp: is_hex_digit_def is_blank_def is_b64_char_def is_printable_def is_control_def word_le_nat_alt word_less_nat_alt unat_arith_simps)

lemma hex_or_blank:
  "is_hex_digit b \<or> is_blank b \<Longrightarrow> \<not> is_control b \<and> \<not> 0x80 \<le> b \<and> b \<noteq> 0x2E
     \<and> \<not> (is_printable b \<and> \<not> is_b64_char b \<and> \<not> is_blank b \<and> b \<noteq> 0x2E) \<and> \<not> (is_b64_char b \<and> \<not> is_hex_digit b)"
  using kinds_disjoint(2,3,5,6,7)[of b] by blast

lemma dot_or_b64:
  "is_b64_char b \<or> b = 0x2E \<Longrightarrow> \<not> is_control b \<and> \<not> 0x80 \<le> b \<and> \<not> is_blank b
     \<and> \<not> (is_printable b \<and> \<not> is_b64_char b \<and> \<not> is_blank b \<and> b \<noteq> 0x2E)"
  using kinds_disjoint(3,6)[of b] by (auto simp: is_control_def is_blank_def)

lemma b64_or_blank:
  "is_b64_char b \<or> is_blank b \<Longrightarrow> \<not> is_control b \<and> \<not> 0x80 \<le> b \<and> b \<noteq> 0x2E
     \<and> \<not> (is_printable b \<and> \<not> is_b64_char b \<and> \<not> is_blank b \<and> b \<noteq> 0x2E)"
  using kinds_disjoint(2,3,6,7)[of b] by blast

lemma tally_words:
  assumes "length s < 2 ^ 32"
  shows "unat (word_of_nat (num P s) :: u64) = num P s" "unat (word_of_nat (length s) :: u64) = length s"
    "unat (word_of_nat (card (set s)) :: u16) = card (set s)" "unat (word_of_nat (card (set s)) :: u64) = card (set s)"
  using assms num_le[of P s] card_octets(1)[of s] by (simp_all add: unat_of_nat)

lemma word_num_zero: "length s < 2 ^ 32 \<Longrightarrow> (word_of_nat (num P s) :: u64) = 0 \<longleftrightarrow> list_all (\<lambda>b. \<not> P b) s"
  using tally_words(1)[of s P] by (simp add: num_zero[symmetric] word_unat_eq_iff del: word_of_nat_eq_0_iff)

lemma word_num_pos: "length s < 2 ^ 32 \<Longrightarrow> 0 < (word_of_nat (num P s) :: u64) \<longleftrightarrow> list_ex P s"
  using tally_words(1)[of s P] by (simp add: num_pos[symmetric] word_less_nat_alt)

lemma word_num_two:
  assumes "length s < 2 ^ 32" "\<And>b. \<not> (P b \<and> Q b)"
  shows "(word_of_nat (num P s) + word_of_nat (num Q s) :: u64) = word_of_nat (length s) \<longleftrightarrow> list_all (\<lambda>b. P b \<or> Q b) s"
proof -
  have "num P s + num Q s < 2 ^ 64" using assms(1) num_le[of P s] num_le[of Q s] by simp
  then have "unat (word_of_nat (num P s + num Q s) :: u64) = num P s + num Q s" by (rule word_small)
  then show ?thesis using tally_words(2)[OF assms(1)] num_two[of P Q s] assms(2) by (simp add: word_unat_eq_iff flip: of_nat_add)
qed

lemma word_share:
  assumes "length s < 2 ^ 32"
  shows "(word_of_nat (length s) * 0x5a div 0x64 :: u64) \<le> word_of_nat (num P s) \<longleftrightarrow> 90 * length s div 100 \<le> num P s"
proof -
  have "unat (word_of_nat (90 * length s) :: u64) = 90 * length s" using assms by (intro word_small) simp
  moreover have "(word_of_nat (length s) * 0x5a :: u64) = word_of_nat (90 * length s)" by simp
  ultimately have "unat (word_of_nat (length s) * 0x5a :: u64) = 90 * length s" by (simp only:)
  then show ?thesis using tally_words(1)[OF assms] by (simp add: word_le_nat_alt unat_div)
qed

lemma class_binary_iff:
  assumes "length s < 2 ^ 32"
  shows "class_binary (word_of_nat (length s)) (tally_of s) e \<longleftrightarrow> looks_binary s e"
proof -
  note w = tally_words[OF assms]
  have n: "unat (word_of_nat (55 * length s) :: u64) = 55 * length s" "unat (word_of_nat (100 * card (set s)) :: u64) = 100 * card (set s)"
    using assms card_octets(1)[of s] by (intro word_small; simp)+
  have d: "(ucast (word_of_nat (card (set s)) :: u16) :: u64) = word_of_nat (card (set s))"
    using w(3,4) card_octets(1)[of s] by (simp add: word_unat_eq_iff unat_ucast_mod)
  have "(word_of_nat (length s) * 55 :: u64) = word_of_nat (55 * length s)" "(word_of_nat (card (set s)) * 0x64 :: u64) = word_of_nat (100 * card (set s))"
    by simp_all
  then have m: "(word_of_nat (length s) * 55 \<le> (word_of_nat (card (set s)) * 0x64 :: u64)) \<longleftrightarrow> 55 * length s \<le> 100 * card (set s)"
    using n by (simp only: word_le_nat_alt)
  show ?thesis unfolding class_binary_def looks_binary_def tally_of_def
    using m w by (auto simp: word_num_pos[OF assms] d word_le_nat_alt[of "0x100"] word_le_nat_alt[of "16"] word_le_nat_alt[of "0x50"])
qed

lemma class_hex_iff:
  assumes "length s < 2 ^ 32" "8 \<le> length s"
  shows "class_hex (word_of_nat (length s)) (tally_of s) \<longleftrightarrow> looks_hex s"
proof -
  note w = tally_words[OF assms(1)] and z = word_num_zero[OF assms(1)]
  have two: "(word_of_nat (num is_hex_digit s) + word_of_nat (num is_blank s) :: u64) = word_of_nat (length s)
      \<longleftrightarrow> list_all (\<lambda>b. is_hex_digit b \<or> is_blank b) s"
    by (rule word_num_two[OF assms(1)]) (simp add: kinds_disjoint(1))
  have all: "list_all (\<lambda>b. \<not> is_control b) s" "list_all (\<lambda>b. \<not> 0x80 \<le> b) s" "list_all (\<lambda>b. b \<noteq> 0x2E) s"
    "list_all (\<lambda>b. \<not> (is_printable b \<and> \<not> is_b64_char b \<and> \<not> is_blank b \<and> b \<noteq> 0x2E)) s" "list_all (\<lambda>b. \<not> (is_b64_char b \<and> \<not> is_hex_digit b)) s"
    if "list_all (\<lambda>b. is_hex_digit b \<or> is_blank b) s"
    using that hex_or_blank by (auto simp: list_all_iff)
  have "card (set s) \<ge> 1" using assms(2) by (cases s) (simp_all add: Suc_le_eq card_gt_0_iff)
  then show ?thesis unfolding class_hex_def looks_hex_def tally_of_def tally.select_convs z two word_share[OF assms(1)]
    using all w by (auto simp: word_le_nat_alt)
qed

lemma class_token_iff:
  assumes "length s < 2 ^ 32"
  shows "class_token (word_of_nat (length s)) (tally_of s) \<longleftrightarrow> looks_token s"
proof -
  note w = tally_words[OF assms] and z = word_num_zero[OF assms]
  have two: "(word_of_nat (num is_b64_char s) + word_of_nat (num (\<lambda>b. b = 0x2E) s) :: u64) = word_of_nat (length s)
      \<longleftrightarrow> list_all (\<lambda>b. is_b64_char b \<or> b = 0x2E) s"
    by (rule word_num_two[OF assms]) (use kinds_disjoint(2) in blast)
  have all: "list_all (\<lambda>b. \<not> is_control b) s" "list_all (\<lambda>b. \<not> 0x80 \<le> b) s" "list_all (\<lambda>b. \<not> is_blank b) s"
    "list_all (\<lambda>b. \<not> (is_printable b \<and> \<not> is_b64_char b \<and> \<not> is_blank b \<and> b \<noteq> 0x2E)) s"
    if "list_all (\<lambda>b. is_b64_char b \<or> b = 0x2E) s"
    using that dot_or_b64 by (auto simp: list_all_iff)
  have m: "unat (min (word_of_nat (length s)) 64 :: u64) = min (length s) 64" using w(2) by (simp add: min_def word_le_nat_alt)
  have d: "(ucast (word_of_nat (card (set s)) :: u16) :: u64) = word_of_nat (card (set s))"
    using w(3,4) card_octets(1)[of s] by (simp add: word_unat_eq_iff unat_ucast_mod)
  have h: "min (word_of_nat (length s)) 64 div 2 \<le> (ucast (word_of_nat (card (set s)) :: u16) :: u64) \<longleftrightarrow> min (length s) 64 div 2 \<le> card (set s)"
    unfolding d word_le_nat_alt unat_div m w(4) by simp
  show ?thesis unfolding class_token_def looks_token_def tally_of_def tally.select_convs z two h
    using all w by (auto simp: word_le_nat_alt)
qed

lemma class_base64_iff:
  assumes "length s < 2 ^ 32"
  shows "class_base64 (word_of_nat (length s)) (tally_of s) e \<longleftrightarrow> looks_base64 s e"
proof -
  note w = tally_words[OF assms] and z = word_num_zero[OF assms]
  have two: "(word_of_nat (num is_b64_char s) + word_of_nat (num is_blank s) :: u64) = word_of_nat (length s)
      \<longleftrightarrow> list_all (\<lambda>b. is_b64_char b \<or> is_blank b) s"
    by (rule word_num_two[OF assms]) (simp add: kinds_disjoint(3))
  have all: "list_all (\<lambda>b. \<not> is_control b) s" "list_all (\<lambda>b. \<not> 0x80 \<le> b) s" "list_all (\<lambda>b. b \<noteq> 0x2E) s"
    "list_all (\<lambda>b. \<not> (is_printable b \<and> \<not> is_b64_char b \<and> \<not> is_blank b \<and> b \<noteq> 0x2E)) s"
    if "list_all (\<lambda>b. is_b64_char b \<or> is_blank b) s"
    using that b64_or_blank by (auto simp: list_all_iff)
  define k :: u64 where "k = (if word_of_nat (length s) < (64 :: u64) then word_of_nat (length s) div 2 else 32)"
  have "unat k = min (length s) 64 div 2" using w(2) by (simp add: k_def word_less_nat_alt unat_div min_def)
  then have "unat (ucast k :: u16) = min (length s) 64 div 2" by (simp add: unat_ucast_mod)
  then have h: "ucast k \<le> (word_of_nat (card (set s)) :: u16) \<longleftrightarrow> min (length s) 64 div 2 \<le> card (set s)" using w(3) by (simp add: word_le_nat_alt)
  have l: "(48 :: u64) \<le> word_of_nat (length s) \<longleftrightarrow> 48 \<le> length s" using w(2) by (simp add: word_le_nat_alt)
  show ?thesis unfolding class_base64_def looks_base64_def tally_of_def tally.select_convs z two k_def[symmetric] h word_share[OF assms] word_num_pos[OF assms] l
    using all by auto
qed

lemma payload_class_kind:
  assumes "length s < 2 ^ 32"
  shows "payload_class_of (word_of_nat (length s)) (tally_of s) e = payload_kind s e"
proof -
  note w = tally_words[OF assms]
  have lt: "word_of_nat (length s) < (8 :: u64) \<longleftrightarrow> length s < 8" "word_of_nat (length s) < (48 :: u64) \<longleftrightarrow> length s < 48"
    using w(2) by (simp_all add: word_less_nat_alt)
  have pr: "v124_print (tally_of s) = word_of_nat (length s) \<longleftrightarrow> list_all is_printable s"
    using w(1)[of is_printable] w(2) by (simp add: tally_of_def word_unat_eq_iff num_all)
  have "(word_of_nat (num is_printable s) + word_of_nat (num (\<lambda>b. 0x80 \<le> b) s) :: u64) = word_of_nat (length s)
      \<longleftrightarrow> list_all (\<lambda>b. is_printable b \<or> 0x80 \<le> b) s"
    by (rule word_num_two[OF assms]) (use kinds_disjoint(4) in blast)
  then have tx: "class_text (word_of_nat (length s)) (tally_of s) e \<longleftrightarrow> list_all (\<lambda>b. \<not> is_control b) s \<and> (e < 0x640 \<or> length s < 48)"
    by (simp add: class_text_def tally_of_def word_num_zero[OF assms] lt(2) kinds_disjoint(8) del: word_of_nat_eq_0_iff)
  show ?thesis
    using class_hex_iff[OF assms] unfolding payload_class_of_def payload_kind_def lt(1) pr tx class_binary_iff[OF assms] class_token_iff[OF assms] class_base64_iff[OF assms]
    by (cases "length s < 8") auto
qed


section \<open>Properties\<close>

text \<open>The entropy of a payload: its own logarithm less the mean of the logarithms of the counts.\<close>

definition entropy_of :: "bytes \<Rightarrow> u32" where
  "entropy_of s = (if s = [] then 0
     else let a = Arch_log2_q8_8 (word_of_nat (length s));
              c = ucast ((\<Sum>b \<in> set s. log_term (word_of_nat (count_list s b))) div word_of_nat (length s)) in
       if c \<le> a then a - c else 0)"

lemma log_sum_hist:
  assumes "length s < 2 ^ 32"
  shows "log_sum (hist s) = (\<Sum>b \<in> set s. log_term (word_of_nat (count_list s b)))"
proof -
  have fold: "foldl (\<lambda>x i. if 0 < v ! i then x + log_term (v ! i) else x) a ix = a + (\<Sum>i\<leftarrow>ix. if 0 < v ! i then log_term (v ! i) else 0)"
    for v a and ix :: "nat list"
    by (induction ix arbitrary: a) (auto simp: algebra_simps)
  have "log_sum (hist s) = (\<Sum>i \<in> {0..<256}. if 0 < hist s ! i then log_term (hist s ! i) else 0)"
    by (simp add: log_sum_def fold interv_sum_list_conv_sum_set_nat)
  also have "\<dots> = (\<Sum>i \<in> unat ` set s. log_term (hist s ! i))"
  proof (rule sum.mono_neutral_cong_right)
    show "unat ` set s \<subseteq> {0..<256}" using unat_bound[where 'a = 8] by auto
    show "\<forall>i \<in> {0..<256} - unat ` set s. (if 0 < hist s ! i then log_term (hist s ! i) else 0) = 0"
    proof
      fix i assume i: "i \<in> {0..<256} - unat ` set s"
      then have "word_of_nat i \<notin> set s" by (auto simp: image_iff unat_of_nat dest: bspec[of _ _ "word_of_nat i"])
      then show "(if 0 < hist s ! i then log_term (hist s ! i) else 0) = 0" using i hist_pos[OF assms, of i] by simp
    qed
    fix i assume "i \<in> unat ` set s"
    then show "(if 0 < hist s ! i then log_term (hist s ! i) else 0) = log_term (hist s ! i)"
      using hist_pos[OF assms, of i] unat_bound[where 'a = 8] by auto
  qed simp
  also have "\<dots> = (\<Sum>b \<in> set s. log_term (word_of_nat (count_list s b)))"
    by (subst sum.reindex) (simp_all add: inj_on_def word_unat_eq_iff hist_nth)
  finally show ?thesis .
qed

lemma profile_payload_ok:
  fixes d :: bytes and len0 :: u64
  assumes "length d < 2 ^ 32"
  defines "s \<equiv> take (unat len0) d"
  shows "profile_payload d len0 = Ret \<lparr>Entropy_q8 = entropy_of s, Char_mask = mask_of s, Distinct_count = word_of_nat (card (set s)),
       Payload_class = (if s = [] then 0 else payload_kind s (entropy_of s)), Len_ = word_of_nat (length s)\<rparr>
     \<and> C2bt_calc_entropy_8_8 d len0 = Ret (entropy_of s)"
proof -
  define n where "n = min (unat len0) (length d)"
  have s: "s = take n d" "length s = n" by (simp_all add: s_def n_def min_def)
  have n: "n \<le> length d" "length s < 2 ^ 32" using assms(1) by (simp_all add: n_def s(2))
  show ?thesis
  proof (cases "n = 0")
    case True
    then have "s = []" using s(2) by simp
    then show ?thesis using True
      by (simp add: profile_payload_def C2bt_calc_entropy_8_8_def n_def[symmetric] entropy_of_def mask_of_def or_classes_def)
  next
    case False
    then have ne: "s \<noteq> []" using s(2) by auto
    have start: "hist (take 0 d) = replicate 256 0" "mask_of (take 0 d) = 0" by (simp_all add: hist_Nil mask_of_def or_classes_def)
    obtain i where i: "profile_by_eight d n 0 (replicate 256 0) 0 = Ret (i, hist (take i d), mask_of (take i d))" "i \<le> n"
      using profile_by_eight_ok[OF n(1), of 0] unfolding start by blast
    obtain j where j: "count_by_eight d n 0 (replicate 256 0) = Ret (j, hist (take j d))" "j \<le> n"
      using count_by_eight_ok[OF n(1), of 0] unfolding start by blast
    have e: "entropy_of s = (let a = Arch_log2_q8_8 (word_of_nat n); c = ucast (log_sum (hist s) div word_of_nat n) in if c \<le> a then a - c else 0)"
      using ne by (simp add: entropy_of_def s(2) log_sum_hist[OF n(2)])
    have t: "tally_all (hist s) = tally_of s" "v114_log (tally_of s) = log_sum (hist s)" "v116_distinct (tally_of s) = word_of_nat (card (set s))"
      using tally_all_hist[OF n(2)] by (simp_all add: tally_of_def)
    have k: "payload_class_of (word_of_nat n) (tally_of s) x = payload_kind s x" for x using payload_class_kind[OF n(2)] by (simp add: s(2))
    show ?thesis using False ne profile_rest_ok[OF n(1) i(2)] count_rest_ok[OF n(1) j(2)]
      by (simp add: profile_payload_def C2bt_calc_entropy_8_8_def n_def[symmetric] i(1) j(1) s(1)[symmetric] s(2) t k e Let_def)
  qed
qed

text \<open>
  C24.  The profile of a payload never goes out of bounds.  The unrolled loops count every octet once:
  the mask is the union of the classes of the octets, the distinct count is the number of different
  octets, the entropy is the one of the separate entropy routine and depends only on how often each
  octet occurs, and the class is hexadecimal, base64, token, binary or text according to the octets
  that are present, as \<open>payload_kind\<close> says; an empty payload has class 0.
\<close>
theorem entropy_profile_exact:
  fixes d :: bytes and len0 :: u64
  assumes "length d < 2 ^ 32"
  defines "s \<equiv> take (unat len0) d"
  shows "profile_payload d len0 = Ret \<lparr>Entropy_q8 = entropy_of s, Char_mask = mask_of s, Distinct_count = word_of_nat (card (set s)),
       Payload_class = (if s = [] then 0 else payload_kind s (entropy_of s)), Len_ = word_of_nat (length s)\<rparr>
     \<and> C2bt_calc_entropy_8_8 d len0 = Ret (entropy_of s)"
  unfolding s_def using assms(1) by (rule profile_payload_ok)

theorem entropy_profile_exact_witness:
  "profile_payload (ascii ''deadbeef00c0ffee!'') 16 = Ret \<lparr>Entropy_q8 = 655, Char_mask = 7, Distinct_count = 7, Payload_class = 2, Len_ = 16\<rparr>"
proof -
  let ?d = "ascii ''deadbeef00c0ffee!''" let ?s = "ascii ''deadbeef00c0ffee''"
  have "take (unat (16 :: u64)) ?d = ?s" "length ?d < 2 ^ 32" by simp_all
  moreover have "entropy_of ?s = 655" "mask_of ?s = 7" "card (set ?s) = 7" "payload_kind ?s 655 = 2" by code_simp+
  moreover have "length ?s = 16" "?s \<noteq> []" by simp_all
  ultimately show ?thesis using entropy_profile_exact[of ?d 16] by (simp del: ascii_Cons)
qed

end
