(* ===== verification/TemporalTracker.thy ===== *)
theory TemporalTracker
  imports Fnv
begin

text \<open>
  The temporal tracker of \<open>temporal_tracker.go\<close>: a table of 8192 domain histories probed at eight
  places, each history a ring of sixteen timestamps with a 256-bit filter of its sub-domains.  The
  coefficient of variation of the intervals is floating point; it is a parameter applied to the
  intervals in order of time.
\<close>

abbreviation MaxTrackedDomains :: nat where "MaxTrackedDomains \<equiv> 8192"
abbreviation HistoryWindowSize :: nat where "HistoryWindowSize \<equiv> 16"
abbreviation MaxInactivitySec :: u32 where "MaxInactivitySec \<equiv> 3600"

record DomainTrack =
  DomainHash :: u64
  tDomain :: bytes
  DomainLen :: byte
  Timestamps :: "u32 list"
  tHead :: byte
  QueryCount :: u16
  LastSeen :: u32
  SubdomainBloom :: "u64 list"
  UniqueSubdomains :: u16

definition zero_track :: DomainTrack where
  "zero_track = \<lparr>DomainHash = 0, tDomain = replicate 253 0, DomainLen = 0, Timestamps = replicate 16 0, tHead = 0,
     QueryCount = 0, LastSeen = 0, SubdomainBloom = replicate 4 0, UniqueSubdomains = 0\<rparr>"

record TemporalTracker =
  slots :: "nat \<Rightarrow> DomainTrack"
  evictions :: u64

definition NewTemporalTracker :: TemporalTracker where
  "NewTemporalTracker = \<lparr>slots = (\<lambda>_. zero_track), evictions = 0\<rparr>"

definition Evictions :: "TemporalTracker \<Rightarrow> u64" where
  "Evictions tr = evictions tr"

definition resetWindow :: "DomainTrack \<Rightarrow> DomainTrack" where
  "resetWindow d = d\<lparr>tHead := 0, QueryCount := 0, LastSeen := 0, SubdomainBloom := replicate 4 0, UniqueSubdomains := 0\<rparr>"

definition mix64 :: "u64 \<Rightarrow> u64" where
  "mix64 x = (let x = x + 0x9e3779b97f4a7c15;
       x = (x XOR drop_bit 30 x) * 0xbf58476d1ce4e5b9;
       x = (x XOR drop_bit 27 x) * 0x94d049bb133111eb in
     x XOR drop_bit 31 x)"

text \<open>\<open>stringEqualBytes\<close>: the lengths, then the bytes one by one.\<close>

fun equal_loop :: "bytes \<Rightarrow> bytes \<Rightarrow> bool" where
  "equal_loop (x # xs) (y # ys) = (if x \<noteq> y then False else equal_loop xs ys)"
| "equal_loop _ _ = True"

definition stringEqualBytes :: "bytes \<Rightarrow> bytes \<Rightarrow> bool" where
  "stringEqualBytes s b = (if length s \<noteq> length b then False else equal_loop s b)"

section \<open>Recording a query\<close>

text \<open>The eight probes: the slot of the domain, a recyclable slot, the least recently seen slot.\<close>

definition is_slot_of :: "bytes \<Rightarrow> u64 \<Rightarrow> DomainTrack \<Rightarrow> bool outcome" where
  "is_slot_of parentDomain h cnd =
     (if DomainLen cnd \<noteq> 0 \<and> DomainHash cnd = h
      then obind (slice_at (tDomain cnd) 0 (unat (DomainLen cnd))) (\<lambda>d. Ret (stringEqualBytes parentDomain d))
      else Ret False)"

fun probe_loop :: "(nat \<Rightarrow> DomainTrack) \<Rightarrow> bytes \<Rightarrow> u64 \<Rightarrow> u32 \<Rightarrow> (nat \<Rightarrow> nat) \<Rightarrow> nat list \<Rightarrow> nat option \<Rightarrow> nat
    \<Rightarrow> (nat option \<times> nat option \<times> nat) outcome" where
  "probe_loop sl parentDomain h nowSec place [] recyclable victim = Ret (None, recyclable, victim)"
| "probe_loop sl parentDomain h nowSec place (i # ix) recyclable victim =
     (let c = place i; cnd = sl c in
      obind (is_slot_of parentDomain h cnd) (\<lambda>same.
      if same then Ret (Some c, recyclable, victim)
      else let recyclable = (if recyclable = None \<and> (DomainLen cnd = 0 \<or> (LastSeen cnd \<le> nowSec \<and> MaxInactivitySec \<le> nowSec - LastSeen cnd))
                             then Some c else recyclable);
               victim = (if LastSeen cnd < LastSeen (sl victim) then c else victim) in
        probe_loop sl parentDomain h nowSec place ix recyclable victim))"

definition slot_index :: "u64 \<Rightarrow> nat" where
  "slot_index h = unat (h mod 8192)"

definition probe_step :: "u64 \<Rightarrow> nat" where
  "probe_step h = unat ((mix64 h AND 7) OR 1)"

definition probe_place :: "u64 \<Rightarrow> nat \<Rightarrow> nat" where
  "probe_place h i = (slot_index h + i * probe_step h) mod MaxTrackedDomains"

definition fresh_track :: "u64 \<Rightarrow> bytes \<Rightarrow> DomainTrack" where
  "fresh_track h parentDomain = zero_track\<lparr>DomainHash := h, DomainLen := word_of_nat (length parentDomain),
     tDomain := parentDomain @ drop (length parentDomain) (replicate 253 0)\<rparr>"

definition push_timestamp :: "DomainTrack \<Rightarrow> u32 \<Rightarrow> DomainTrack outcome" where
  "push_timestamp slot nowSec = obind (write_at (Timestamps slot) (unat (tHead slot)) nowSec) (\<lambda>ts.
     Ret (slot\<lparr>Timestamps := ts, tHead := (tHead slot + 1) mod 16,
               QueryCount := (if QueryCount slot < 16 then QueryCount slot + 1 else QueryCount slot), LastSeen := nowSec\<rparr>))"

text \<open>The two positions of a sub-domain in the filter, as word index and mask.\<close>

definition bloom_places :: "bytes \<Rightarrow> (nat \<times> u64) \<times> (nat \<times> u64)" where
  "bloom_places subdomain = (let h1 = FNV1a64 subdomain; h2 = mix64 h1 in
     ((unat (drop_bit 6 h1 AND 3), push_bit (unat (h1 AND 63)) 1),
      (unat (drop_bit 6 (h1 + h2) AND 3), push_bit (unat ((h1 + h2) AND 63)) 1)))"

definition add_subdomain :: "DomainTrack \<Rightarrow> bytes \<Rightarrow> DomainTrack outcome" where
  "add_subdomain slot subdomain =
     (if subdomain = [] then Ret slot
      else case bloom_places subdomain of ((w1, m1), (w2, m2)) \<Rightarrow>
        obind (get_at (SubdomainBloom slot) w1) (\<lambda>b1. obind (get_at (SubdomainBloom slot) w2) (\<lambda>b2.
        if b1 AND m1 = 0 \<or> b2 AND m2 = 0 then
          obind (write_at (SubdomainBloom slot) w1 (b1 OR m1)) (\<lambda>bl.
          obind (get_at bl w2) (\<lambda>b2. obind (write_at bl w2 (b2 OR m2)) (\<lambda>bl.
          Ret (slot\<lparr>SubdomainBloom := bl, UniqueSubdomains := UniqueSubdomains slot + 1\<rparr>))))
        else Ret slot)))"

text \<open>The timestamps in order of time, and the intervals between them, zero where the clock went back.\<close>

definition chronological :: "DomainTrack \<Rightarrow> u32 list outcome" where
  "chronological slot = (let n = unat (QueryCount slot); head = unat (tHead slot) in
     foldr (\<lambda>i r. obind (get_at (Timestamps slot) (nat ((int head - int n + int i + 16) mod 16))) (\<lambda>t. obind r (\<lambda>ts. Ret (t # ts)))) [0..<n] (Ret []))"

fun deltas :: "u32 list \<Rightarrow> nat list" where
  "deltas (t # t' # ts) = (if t \<le> t' then unat (t' - t) else 0) # deltas (t' # ts)"
| "deltas _ = []"

text \<open>
  The mean of the intervals is below one half exactly when twice their sum is below their number; the
  sum is exact in a float64.  The ratio of the deviation to the mean is the parameter \<open>cv\<close>.
\<close>

definition jitter_of :: "(nat list \<Rightarrow> u16) \<Rightarrow> u32 list \<Rightarrow> u16" where
  "jitter_of cv ts = (if 2 * sum_list (deltas ts) < length (deltas ts) then 100 else cv (deltas ts))"

definition calculateJitter :: "(nat list \<Rightarrow> u16) \<Rightarrow> DomainTrack \<Rightarrow> u16 outcome" where
  "calculateJitter cv slot = (if QueryCount slot < 4 then Ret 100 else obind (chronological slot) (\<lambda>ts. Ret (jitter_of cv ts)))"

definition choose_slot :: "TemporalTracker \<Rightarrow> bytes \<Rightarrow> u32 \<Rightarrow> (nat \<times> DomainTrack \<times> u64) outcome" where
  "choose_slot tr parentDomain nowSec = (let h = FNV1a64 parentDomain in
     obind (probe_loop (slots tr) parentDomain h nowSec (probe_place h) [0..<8] None (slot_index h)) (\<lambda>(slot, recyclable, victim).
     case slot of
       Some k \<Rightarrow> Ret (k, slots tr k, evictions tr)
     | None \<Rightarrow> (case recyclable of
         Some k \<Rightarrow> Ret (k, fresh_track h parentDomain, evictions tr)
       | None \<Rightarrow> Ret (victim, fresh_track h parentDomain, evictions tr + 1))))"

definition expire_window :: "DomainTrack \<Rightarrow> u32 \<Rightarrow> DomainTrack" where
  "expire_window slot nowSec =
     (if 0 < QueryCount slot \<and> (nowSec < LastSeen slot \<or> MaxInactivitySec \<le> nowSec - LastSeen slot) then resetWindow slot else slot)"

definition RecordQuery :: "(nat list \<Rightarrow> u16) \<Rightarrow> TemporalTracker \<Rightarrow> bytes \<Rightarrow> bytes \<Rightarrow> u32
    \<Rightarrow> ((u16 \<times> u16 \<times> u16) \<times> TemporalTracker) outcome" where
  "RecordQuery cv tr parentDomain subdomain nowSec =
     (if parentDomain = [] \<or> 253 < length parentDomain then Ret ((100, 0, 0), tr)
      else obind (choose_slot tr parentDomain nowSec) (\<lambda>(k, slot, ev).
        obind (push_timestamp (expire_window slot nowSec) nowSec) (\<lambda>slot.
        obind (add_subdomain slot subdomain) (\<lambda>slot.
        obind (if 4 \<le> QueryCount slot then calculateJitter cv slot else Ret 100) (\<lambda>jitter.
        Ret ((jitter, UniqueSubdomains slot, QueryCount slot), tr\<lparr>slots := (slots tr)(k := slot), evictions := ev\<rparr>))))))"

section \<open>Histories\<close>

definition bloom_set :: "u64 list \<Rightarrow> (nat \<times> nat) set" where
  "bloom_set bl = {(w, i). w < length bl \<and> i < 64 \<and> bit (bl ! w) i}"

definition track_ok :: "DomainTrack \<Rightarrow> bool" where
  "track_ok s \<longleftrightarrow> length (tDomain s) = 253 \<and> unat (DomainLen s) \<le> 253 \<and> length (Timestamps s) = 16 \<and> unat (tHead s) < 16
     \<and> unat (QueryCount s) \<le> 16 \<and> length (SubdomainBloom s) = 4 \<and> unat (UniqueSubdomains s) \<le> card (bloom_set (SubdomainBloom s))"

definition tracks :: "bytes \<Rightarrow> DomainTrack \<Rightarrow> bool" where
  "tracks parent s \<longleftrightarrow> DomainLen s \<noteq> 0 \<and> DomainHash s = FNV1a64 parent \<and> take (unat (DomainLen s)) (tDomain s) = parent"

text \<open>The timestamps a history holds, oldest first.\<close>

definition window :: "DomainTrack \<Rightarrow> u32 list" where
  "window s = map (\<lambda>i. Timestamps s ! ((unat (tHead s) + 16 - unat (QueryCount s) + i) mod 16)) [0..<unat (QueryCount s)]"

lemma length_track_window [simp]: "length (window s) = unat (QueryCount s)"
  by (simp add: window_def)

lemma chronological_window:
  assumes "track_ok s"
  shows "chronological s = Ret (window s)"
proof -
  define n where "n = unat (QueryCount s)"
  define head where "head = unat (tHead s)"
  have n: "n \<le> 16" and ts: "length (Timestamps s) = 16" using assms by (simp_all add: track_ok_def n_def)
  have idx: "nat ((int head - int n + int i + 16) mod 16) = (head + 16 - n + i) mod 16" for i
  proof -
    have "int head - int n + int i + 16 = int (head + 16 - n + i)" using n by simp
    then show ?thesis by (simp only: nat_mod_as_int nat_int) (simp add: nat_mod_distrib)
  qed
  have get: "get_at (Timestamps s) ((head + 16 - n + i) mod 16) = Ret (Timestamps s ! ((head + 16 - n + i) mod 16))" for i
    using ts by simp
  have "foldr (\<lambda>i r. obind (get_at (Timestamps s) (nat ((int head - int n + int i + 16) mod 16))) (\<lambda>t. obind r (\<lambda>ts. Ret (t # ts)))) ix (Ret [])
      = Ret (map (\<lambda>i. Timestamps s ! ((head + 16 - n + i) mod 16)) ix)" for ix
    unfolding idx get by (induction ix) simp_all
  then show ?thesis by (simp only: chronological_def Let_def n_def[symmetric] head_def[symmetric] window_def)
qed

lemma ring_index:
  assumes "h < (16 :: nat)" "0 < d" "d < 16"
  shows "(h + d) mod 16 \<noteq> h"
proof (cases "h + d < 16")
  case False
  then have "(h + d) mod 16 = h + d - 16" using assms by (simp add: mod_if)
  then show ?thesis using False assms by simp
qed (use assms in simp)

lemma push_timestamp_ok:
  assumes "track_ok s"
  shows "\<exists>s'. push_timestamp s now = Ret s' \<and> track_ok s' \<and> LastSeen s' = now \<and> window s' = drop (unat (QueryCount s) - 15) (window s @ [now])
     \<and> DomainHash s' = DomainHash s \<and> DomainLen s' = DomainLen s \<and> tDomain s' = tDomain s \<and> UniqueSubdomains s' = UniqueSubdomains s
     \<and> SubdomainBloom s' = SubdomainBloom s"
proof -
  define h where "h = unat (tHead s)"
  define n where "n = unat (QueryCount s)"
  define ts where "ts = (Timestamps s)[h := now]"
  define s' where "s' = s\<lparr>Timestamps := ts, tHead := (tHead s + 1) mod 16,
     QueryCount := (if QueryCount s < 16 then QueryCount s + 1 else QueryCount s), LastSeen := now\<rparr>"
  have ok: "length (Timestamps s) = 16" "h < 16" "n \<le> 16" using assms by (simp_all add: track_ok_def h_def n_def)
  have push: "push_timestamp s now = Ret s'" using ok by (simp add: push_timestamp_def write_at_def s'_def ts_def h_def)
  have h': "unat (tHead s') = (h + 1) mod 16"
    using ok(2) unat_plus_one[of "tHead s"] by (simp add: s'_def h_def unat_mod)
  define N where "N = min (n + 1) 16"
  have n': "unat (QueryCount s') = N" unfolding N_def
    using ok(3) unat_plus_one[of "QueryCount s"] by (auto simp: s'_def n_def word_less_nat_alt min_def)
  have nth: "ts ! ((h + d) mod 16) = Timestamps s ! ((h + d) mod 16)" if "0 < d" "d < 16" for d
    using ring_index[OF ok(2) that] by (simp add: ts_def)
  have now: "ts ! h = now" using ok by (simp add: ts_def)
  have wn: "window s ! i = Timestamps s ! ((h + 16 - n + i) mod 16)" if "i < n" for i using that by (simp add: window_def h_def n_def)
  have "window s' = drop (n - 15) (window s @ [now])"
  proof (rule nth_equalityI)
    show "length (window s') = length (drop (n - 15) (window s @ [now]))" using ok(3) by (simp add: n' N_def n_def[symmetric])
    fix i assume "i < length (window s')"
    then have i: "i < N" by (simp add: n')
    then have w': "window s' ! i = ts ! (((h + 1) mod 16 + 16 - N + i) mod 16)" unfolding window_def n' h' using i by (simp add: s'_def)
    have "N \<le> 16" by (simp add: N_def)
    then have "(h + 1) mod 16 + 16 - N + i = (h + 1) mod 16 + (16 - N + i)" by simp
    then have "((h + 1) mod 16 + 16 - N + i) mod 16 = (h + 1 + (16 - N + i)) mod 16"
      by (simp only: mod_add_left_eq)
    then have w: "window s' ! i = ts ! ((h + 1 + (16 - N + i)) mod 16)" using w' by simp
    show "window s' ! i = drop (n - 15) (window s @ [now]) ! i"
    proof (cases "n < 16")
      case True
      then have e: "h + 1 + (16 - N + i) = h + (16 - n + i)" using i by (simp add: N_def)
      show ?thesis
      proof (cases "i < n")
        case lt: True
        have "h + 16 - n + i = h + (16 - n + i)" using True by simp
        then have "window s ! i = ts ! ((h + (16 - n + i)) mod 16)" using nth[of "16 - n + i"] wn[OF lt] lt True by simp
        then show ?thesis using w e lt True by (simp add: nth_append n_def[symmetric])
      next
        case False
        then have "i = n" using i by (simp add: N_def)
        then show ?thesis using w e now ok(2) True by (simp add: nth_append n_def[symmetric])
      qed
    next
      case False
      then have n16: "n = 16" using ok(3) by simp
      have e: "h + 1 + (16 - N + i) = h + (i + 1)" using n16 by (simp add: N_def)
      show ?thesis
      proof (cases "i < 15")
        case lt: True
        then show ?thesis using w e nth[of "i + 1"] wn[of "i + 1"] n16 by (simp add: nth_append n_def[symmetric])
      next
        case ge: False
        then have "i = 15" using i by (simp add: N_def)
        then show ?thesis using w e now ok(2) n16 by (simp add: nth_append n_def[symmetric])
      qed
    qed
  qed
  moreover have "track_ok s'" using assms h' n' by (simp add: track_ok_def N_def) (simp add: s'_def ts_def)
  ultimately show ?thesis using push by (auto simp: s'_def n_def)
qed

section \<open>The filter of sub-domains\<close>

lemma bloom_set_finite: "finite (bloom_set bl)" "card (bloom_set bl) \<le> length bl * 64"
proof -
  have sub: "bloom_set bl \<subseteq> {0..<length bl} \<times> {0..<64}" by (auto simp: bloom_set_def)
  show "finite (bloom_set bl)" using sub by (rule finite_subset) simp
  show "card (bloom_set bl) \<le> length bl * 64" using card_mono[OF _ sub] by simp
qed

lemma bloom_set_or:
  assumes "w < length bl" "p < 64"
  shows "bloom_set (bl[w := bl ! w OR push_bit p 1]) = insert (w, p) (bloom_set bl)"
proof (rule set_eqI)
  fix x
  obtain v i :: nat where x: "x = (v, i)" by (cases x)
  have b: "bit (bl ! w OR push_bit p 1) i \<longleftrightarrow> bit (bl ! w) i \<or> i = p" if "i < 64"
    using that by (auto simp: bit_or_iff bit_exp_iff)
  show "x \<in> bloom_set (bl[w := bl ! w OR push_bit p 1]) \<longleftrightarrow> x \<in> insert (w, p) (bloom_set bl)"
    using assms b unfolding x bloom_set_def by (cases "v = w") auto
qed

lemma and_exp_zero: "p < 64 \<Longrightarrow> (b :: u64) AND 2 ^ p = 0 \<longleftrightarrow> \<not> bit b p"
  by (auto simp: bit_eq_iff[of "b AND 2 ^ p" 0] bit_and_iff bit_exp_iff)

text \<open>The positions of a sub-domain and whether the filter already has them both.\<close>

definition sub_bits :: "bytes \<Rightarrow> (nat \<times> nat) set" where
  "sub_bits subdomain = (let h1 = FNV1a64 subdomain; h = h1 + mix64 h1 in
     {(unat (drop_bit 6 h1 AND 3), unat (h1 AND 63)), (unat (drop_bit 6 h AND 3), unat (h AND 63))})"

lemma unat_and_3: "unat ((x :: u64) AND 3) < 4"
  using unat_and_mask[of x 2] by (simp add: mask_eq_exp_minus_1)

lemma unat_and_63: "unat ((x :: u64) AND 63) < 64"
  using unat_and_mask[of x 6] by (simp add: mask_eq_exp_minus_1)

lemma add_subdomain_ok:
  fixes sub :: bytes
  assumes "track_ok s"
  defines "known \<equiv> sub = [] \<or> sub_bits sub \<subseteq> bloom_set (SubdomainBloom s)"
  shows "\<exists>s'. add_subdomain s sub = Ret s' \<and> track_ok s' \<and> unat (UniqueSubdomains s') = unat (UniqueSubdomains s) + (if known then 0 else 1)
     \<and> bloom_set (SubdomainBloom s') = bloom_set (SubdomainBloom s) \<union> (if sub = [] then {} else sub_bits sub)
     \<and> s' = s\<lparr>SubdomainBloom := SubdomainBloom s', UniqueSubdomains := UniqueSubdomains s'\<rparr>"
proof (cases "sub = []")
  case True
  then show ?thesis using assms by (simp add: add_subdomain_def known_def)
next
  case False
  define h1 where "h1 = FNV1a64 sub"
  define h where "h = h1 + mix64 h1"
  define w1 p1 w2 p2 where "w1 = unat (drop_bit 6 h1 AND 3)" and "p1 = unat (h1 AND 63)"
    and "w2 = unat (drop_bit 6 h AND 3)" and "p2 = unat (h AND 63)"
  define bl where "bl = SubdomainBloom s"
  have lt: "w1 < 4" "w2 < 4" "p1 < 64" "p2 < 64"
    unfolding w1_def w2_def p1_def p2_def by (rule unat_and_3 unat_and_63)+
  have len: "length bl = 4" using assms(1) by (simp add: track_ok_def bl_def)
  have bits: "sub_bits sub = {(w1, p1), (w2, p2)}"
    by (simp add: sub_bits_def Let_def h1_def h_def w1_def w2_def p1_def p2_def)
  have places: "bloom_places sub = ((w1, push_bit p1 1), (w2, push_bit p2 1))"
    by (simp add: bloom_places_def Let_def h1_def h_def w1_def w2_def p1_def p2_def)
  have zero: "bl ! w1 AND push_bit p1 1 = 0 \<or> bl ! w2 AND push_bit p2 1 = 0 \<longleftrightarrow> \<not> sub_bits sub \<subseteq> bloom_set bl"
    using lt len by (auto simp: and_exp_zero bits bloom_set_def)
  show ?thesis
  proof (cases "sub_bits sub \<subseteq> bloom_set bl")
    case True
    then have "add_subdomain s sub = Ret s"
      using False zero lt len by (simp add: add_subdomain_def places bl_def[symmetric])
    then show ?thesis using True assms(1) False by (auto simp: known_def bl_def)
  next
    case new: False
    define bl1 where "bl1 = bl[w1 := bl ! w1 OR push_bit p1 1]"
    define bl2 where "bl2 = bl1[w2 := bl1 ! w2 OR push_bit p2 1]"
    define s' where "s' = s\<lparr>SubdomainBloom := bl2, UniqueSubdomains := UniqueSubdomains s + 1\<rparr>"
    have l: "length bl1 = 4" "length bl2 = 4" using len by (simp_all add: bl1_def bl2_def)
    have "add_subdomain s sub = Ret s'"
      using False zero new lt len l by (simp add: add_subdomain_def places bl_def[symmetric] write_at_def bl1_def bl2_def s'_def)
    moreover have set: "bloom_set bl2 = bloom_set bl \<union> sub_bits sub"
      using lt len l bloom_set_or[of w1 bl p1] bloom_set_or[of w2 bl1 p2] by (auto simp: bl1_def bl2_def bits)
    moreover have grow: "card (bloom_set bl) + 1 \<le> card (bloom_set bl2)"
    proof -
      have "bloom_set bl \<subset> bloom_set bl2" using new set by auto
      then show ?thesis using psubset_card_mono[OF bloom_set_finite(1)] by (simp add: Suc_le_eq)
    qed
    moreover have u: "unat (UniqueSubdomains s + 1) = unat (UniqueSubdomains s) + 1"
    proof -
      have "unat (UniqueSubdomains s) \<le> 256" using assms(1) bloom_set_finite(2)[of bl] len by (simp add: track_ok_def bl_def)
      then show ?thesis using unat_plus_one[of "UniqueSubdomains s"] by simp
    qed
    moreover have "track_ok s'" using assms(1) grow u l by (simp add: track_ok_def s'_def bl_def)
    ultimately show ?thesis using new False by (auto simp: known_def s'_def bl_def)
  qed
qed

section \<open>Choosing a slot\<close>

lemma equal_loop_iff: "length s = length b \<Longrightarrow> equal_loop s b \<longleftrightarrow> s = b"
  by (induction s b rule: list_induct2) auto

lemma stringEqualBytes_iff: "stringEqualBytes s b \<longleftrightarrow> s = b"
  by (auto simp: stringEqualBytes_def equal_loop_iff)

lemma is_slot_of_eq: "track_ok s \<Longrightarrow> is_slot_of parent (FNV1a64 parent) s = Ret (tracks parent s)"
  by (auto simp: is_slot_of_def tracks_def track_ok_def stringEqualBytes_iff slice_at_def subslice_def)

text \<open>A slot that may be recycled: it is empty, or its domain was last seen an hour ago or more.\<close>

definition stale :: "u32 \<Rightarrow> DomainTrack \<Rightarrow> bool" where
  "stale now s \<longleftrightarrow> DomainLen s = 0 \<or> unat (LastSeen s) + 3600 \<le> unat now"

lemma hour_passed: "(LastSeen s \<le> now \<and> MaxInactivitySec \<le> now - LastSeen s) \<longleftrightarrow> unat (LastSeen s) + 3600 \<le> unat now"
proof (cases "LastSeen s \<le> now")
  case True
  then have "unat (now - LastSeen s) = unat now - unat (LastSeen s)" by (rule unat_sub)
  moreover have "unat (LastSeen s) \<le> unat now" using True by (simp add: word_le_nat_alt)
  ultimately show ?thesis using True by (auto simp: word_le_nat_alt)
next
  case False
  then show ?thesis by (simp add: word_le_nat_alt)
qed

text \<open>
  The probes, by positions: the first slot of the domain stops them; without one,
  the recyclable slot is the first stale one, and the victim the first of the
  least recently seen.
\<close>

definition first_oldest :: "(nat \<Rightarrow> DomainTrack) \<Rightarrow> (nat \<Rightarrow> nat) \<Rightarrow> nat list \<Rightarrow> nat \<Rightarrow> nat \<Rightarrow> bool" where
  "first_oldest sl place ix vic v \<longleftrightarrow>
     (v = vic \<and> (\<forall>i \<in> set ix. LastSeen (sl vic) \<le> LastSeen (sl (place i))))
   \<or> (\<exists>k < length ix. v = place (ix ! k) \<and> LastSeen (sl v) < LastSeen (sl vic)
        \<and> (\<forall>i \<in> set ix. LastSeen (sl v) \<le> LastSeen (sl (place i))) \<and> (\<forall>j < k. LastSeen (sl v) < LastSeen (sl (place (ix ! j)))))"

lemma first_oldest_Cons:
  assumes "first_oldest sl place ix (if LastSeen (sl (place i)) < LastSeen (sl vic) then place i else vic) v"
  shows "first_oldest sl place (i # ix) vic v"
proof -
  let ?vic = "if LastSeen (sl (place i)) < LastSeen (sl vic) then place i else vic"
  have le: "LastSeen (sl ?vic) \<le> LastSeen (sl vic)" "LastSeen (sl ?vic) \<le> LastSeen (sl (place i))" by (auto simp: not_less)
  consider (same) "v = ?vic" "\<forall>i \<in> set ix. LastSeen (sl ?vic) \<le> LastSeen (sl (place i))"
    | (older) k where "k < length ix" "v = place (ix ! k)" "LastSeen (sl v) < LastSeen (sl ?vic)"
        "\<forall>i \<in> set ix. LastSeen (sl v) \<le> LastSeen (sl (place i))" "\<forall>j < k. LastSeen (sl v) < LastSeen (sl (place (ix ! j)))"
    using assms unfolding first_oldest_def by blast
  then show ?thesis
  proof cases
    case same
    show ?thesis
    proof (cases "LastSeen (sl (place i)) < LastSeen (sl vic)")
      case True
      then show ?thesis using same unfolding first_oldest_def by (intro disjI2 exI[of _ 0]) auto
    next
      case False
      then have e: "?vic = vic" by simp
      show ?thesis using same[unfolded e] False unfolding first_oldest_def by (auto simp: not_less)
    qed
  next
    case older
    have "LastSeen (sl v) < LastSeen (sl vic)" "LastSeen (sl v) < LastSeen (sl (place i))" using older(3) le by auto
    then show ?thesis using older unfolding first_oldest_def
      by (intro disjI2 exI[of _ "Suc k"]) (auto simp: nth_Cons split: nat.splits)
  qed
qed

lemma probe_loop_ok:
  assumes "\<forall>k. track_ok (sl k)"
  shows "\<exists>so r v. probe_loop sl parent (FNV1a64 parent) now place ix rec vic = Ret (so, r, v)
     \<and> so = map_option place (find (\<lambda>i. tracks parent (sl (place i))) ix)
     \<and> (so = None \<longrightarrow> r = (if rec = None then map_option place (find (\<lambda>i. stale now (sl (place i))) ix) else rec)
          \<and> first_oldest sl place ix vic v)"
proof (induction ix arbitrary: rec vic)
  case Nil
  then show ?case by (auto simp: first_oldest_def)
next
  case (Cons i ix)
  have eq: "is_slot_of parent (FNV1a64 parent) (sl (place i)) = Ret (tracks parent (sl (place i)))"
    using assms by (simp add: is_slot_of_eq)
  show ?case
  proof (cases "tracks parent (sl (place i))")
    case True
    then show ?thesis by (simp add: eq)
  next
    case False
    define rec' where "rec' = (if rec = None \<and> stale now (sl (place i)) then Some (place i) else rec)"
    define vic' where "vic' = (if LastSeen (sl (place i)) < LastSeen (sl vic) then place i else vic)"
    have step: "probe_loop sl parent (FNV1a64 parent) now place (i # ix) rec vic = probe_loop sl parent (FNV1a64 parent) now place ix rec' vic'"
      using False by (simp add: eq Let_def rec'_def vic'_def stale_def hour_passed)
    obtain so r w where IH: "probe_loop sl parent (FNV1a64 parent) now place ix rec' vic' = Ret (so, r, w)"
      "so = map_option place (find (\<lambda>i. tracks parent (sl (place i))) ix)"
      "so = None \<longrightarrow> r = (if rec' = None then map_option place (find (\<lambda>i. stale now (sl (place i))) ix) else rec')
          \<and> first_oldest sl place ix vic' w"
      using Cons.IH[of rec' vic'] by (elim exE conjE) rule
    have "so = None \<longrightarrow> r = (if rec = None then map_option place (find (\<lambda>i. stale now (sl (place i))) (i # ix)) else rec)
          \<and> first_oldest sl place (i # ix) vic w"
      using IH(3) first_oldest_Cons[of sl place ix i vic w] unfolding vic'_def rec'_def by auto
    then show ?thesis using step IH(1,2) False by simp
  qed
qed

lemma fresh_track_ok:
  assumes "parent \<noteq> []" "length parent \<le> 253"
  shows "track_ok (fresh_track (FNV1a64 parent) parent)" "tracks parent (fresh_track (FNV1a64 parent) parent)"
    "window (fresh_track (FNV1a64 parent) parent) = []" "UniqueSubdomains (fresh_track (FNV1a64 parent) parent) = 0"
    "QueryCount (fresh_track (FNV1a64 parent) parent) = 0" "bloom_set (SubdomainBloom (fresh_track (FNV1a64 parent) parent)) = {}"
proof -
  have n: "unat (word_of_nat (length parent) :: byte) = length parent" using assms(2) by (simp add: unat_of_nat)
  then have "(word_of_nat (length parent) :: byte) \<noteq> 0" using assms(1) by (metis length_0_conv unat_0)
  then show "track_ok (fresh_track (FNV1a64 parent) parent)" "tracks parent (fresh_track (FNV1a64 parent) parent)"
    "window (fresh_track (FNV1a64 parent) parent) = []" "UniqueSubdomains (fresh_track (FNV1a64 parent) parent) = 0"
    "QueryCount (fresh_track (FNV1a64 parent) parent) = 0" "bloom_set (SubdomainBloom (fresh_track (FNV1a64 parent) parent)) = {}"
    using assms n by (auto simp: fresh_track_def zero_track_def track_ok_def tracks_def window_def bloom_set_def nth_Cons split: nat.splits)
qed

definition places :: "bytes \<Rightarrow> nat set" where
  "places parent = probe_place (FNV1a64 parent) ` {0..<8}"

lemma slot_index_place: "slot_index h = probe_place h 0"
  using unat_bound[of h] by (simp add: slot_index_def probe_place_def unat_mod)

text \<open>
  The slot a domain gets, among its eight places in the order of the probes: the
  first that tracks it; else the first that may be recycled; else the first of
  the least recently seen, and only then is a history evicted.
\<close>

definition chosen_slot :: "TemporalTracker \<Rightarrow> bytes \<Rightarrow> u32 \<Rightarrow> nat \<Rightarrow> u64 \<Rightarrow> bool" where
  "chosen_slot tr parent now k ev \<longleftrightarrow> (let place = probe_place (FNV1a64 parent); at = (\<lambda>i. slots tr (place i)) in
     \<exists>i < 8. k = place i
       \<and> (if \<exists>j < 8. tracks parent (at j)
          then tracks parent (at i) \<and> (\<forall>j < i. \<not> tracks parent (at j)) \<and> ev = evictions tr
          else if \<exists>j < 8. stale now (at j)
          then stale now (at i) \<and> (\<forall>j < i. \<not> stale now (at j)) \<and> ev = evictions tr
          else (\<forall>j < 8. LastSeen (at i) \<le> LastSeen (at j)) \<and> (\<forall>j < i. LastSeen (at i) < LastSeen (at j))
             \<and> ev = evictions tr + 1))"

lemma find_upt: "find P [0..<n] = Some i \<longleftrightarrow> i < n \<and> P i \<and> (\<forall>j < i. \<not> P j)"
  by (auto simp: find_Some_iff)

lemma find_upt_None: "find P [0..<n] = None \<longleftrightarrow> (\<forall>j < n. \<not> P j)"
  by (auto simp: find_None_iff)

lemma choose_slot_ok:
  assumes ok: "\<forall>k. track_ok (slots tr k)" and p: "parent \<noteq> []" "length parent \<le> 253"
  shows "\<exists>k s ev. choose_slot tr parent now = Ret (k, s, ev) \<and> chosen_slot tr parent now k ev \<and> track_ok s \<and> tracks parent s
     \<and> s = (if tracks parent (slots tr k) then slots tr k else fresh_track (FNV1a64 parent) parent)"
proof -
  define h where "h = FNV1a64 parent"
  define pl where "pl = probe_place h"
  let ?at = "\<lambda>i. slots tr (pl i)"
  have "\<exists>so r v. probe_loop (slots tr) parent h now pl [0..<8] None (slot_index h) = Ret (so, r, v)
     \<and> so = map_option pl (find (\<lambda>i. tracks parent (?at i)) [0..<8])
     \<and> (so = None \<longrightarrow> r = (if (None :: nat option) = None then map_option pl (find (\<lambda>i. stale now (?at i)) [0..<8]) else None)
          \<and> first_oldest (slots tr) pl [0..<8] (slot_index h) v)"
    unfolding h_def by (rule probe_loop_ok[OF ok])
  then obtain so r v where P: "probe_loop (slots tr) parent h now pl [0..<8] None (slot_index h) = Ret (so, r, v)"
    "so = map_option pl (find (\<lambda>i. tracks parent (?at i)) [0..<8])"
    "so = None \<longrightarrow> r = (if (None :: nat option) = None then map_option pl (find (\<lambda>i. stale now (?at i)) [0..<8]) else None)
       \<and> first_oldest (slots tr) pl [0..<8] (slot_index h) v"
    by (elim exE conjE) rule
  have step: "choose_slot tr parent now = (case so of Some k \<Rightarrow> Ret (k, slots tr k, evictions tr)
     | None \<Rightarrow> (case r of Some k \<Rightarrow> Ret (k, fresh_track h parent, evictions tr) | None \<Rightarrow> Ret (v, fresh_track h parent, evictions tr + 1)))"
    using P(1) by (simp add: choose_slot_def h_def[symmetric] pl_def)
  note chosen = chosen_slot_def[of tr parent now, unfolded Let_def h_def[symmetric] pl_def[symmetric]]
  note f = fresh_track_ok[OF p, folded h_def]
  show ?thesis
  proof (cases "find (\<lambda>i. tracks parent (?at i)) [0..<8]")
    case (Some i)
    then have i: "i < 8" "tracks parent (?at i)" "\<forall>j < i. \<not> tracks parent (?at j)" by (simp_all add: find_upt)
    then have ex: "\<exists>j < 8. tracks parent (?at j)" by blast
    have "chosen_slot tr parent now (pl i) (evictions tr)" unfolding chosen using i ex
      by (intro exI[of _ i]) simp
    then show ?thesis using step P(2) Some i(2) ok by simp
  next
    case None
    then have no: "\<forall>j < 8. \<not> tracks parent (?at j)" by (simp add: find_upt_None)
    have so: "so = None" using P(2) None by simp
    note n = P(3)[rule_format, OF so, unfolded if_True simp_thms]
    show ?thesis
    proof (cases "find (\<lambda>i. stale now (?at i)) [0..<8]")
      case (Some i)
      then have i: "i < 8" "stale now (?at i)" "\<forall>j < i. \<not> stale now (?at j)" by (simp_all add: find_upt)
      then have ex: "\<exists>j < 8. stale now (?at j)" by blast
      have "chosen_slot tr parent now (pl i) (evictions tr)" unfolding chosen using no i ex
        by (intro exI[of _ i]) simp
      then show ?thesis using step so n Some f(1,2) no i(1) unfolding h_def[symmetric] by auto
    next
      case r: None
      then have live: "\<forall>j < 8. \<not> stale now (?at j)" by (simp add: find_upt_None)
      have zero: "slot_index h = pl 0" by (simp add: slot_index_place pl_def)
      obtain i where i: "i < 8" "v = pl i" "\<forall>j < 8. LastSeen (?at i) \<le> LastSeen (?at j)" "\<forall>j < i. LastSeen (?at i) < LastSeen (?at j)"
      proof -
        consider "v = pl 0" "\<forall>i < 8. LastSeen (?at 0) \<le> LastSeen (?at i)"
          | k where "k < 8" "v = pl k" "\<forall>i < 8. LastSeen (?at k) \<le> LastSeen (?at i)" "\<forall>j < k. LastSeen (?at k) < LastSeen (?at j)"
          using n zero unfolding first_oldest_def by auto
        then show thesis using that[of 0] that by cases simp_all
      qed
      have "chosen_slot tr parent now v (evictions tr + 1)" unfolding chosen using no live i
        by (intro exI[of _ i] conjI) simp_all
      then show ?thesis using step so n r f(1,2) no i(1,2) unfolding h_def[symmetric] by auto
    qed
  qed
qed

section \<open>Properties\<close>

text \<open>
  What is left of the history of a slot when its domain is seen again: all of it
  within the hour; nothing later, or when the clock went back.  A slot taken
  from another domain has no history.
\<close>

definition remembered :: "u32 \<Rightarrow> DomainTrack \<Rightarrow> bool" where
  "remembered now s \<longleftrightarrow> QueryCount s = 0 \<or> unat (LastSeen s) \<le> unat now \<and> unat now < unat (LastSeen s) + 3600"

lemma expire_window_ok:
  assumes "track_ok s"
  shows "track_ok (expire_window s now)" "tracks parent (expire_window s now) = tracks parent s"
    "window (expire_window s now) = (if remembered now s then window s else [])"
    "bloom_set (SubdomainBloom (expire_window s now)) = (if remembered now s then bloom_set (SubdomainBloom s) else {})"
    "unat (UniqueSubdomains (expire_window s now)) = (if remembered now s then unat (UniqueSubdomains s) else 0)"
proof -
  have z: "bloom_set (replicate 4 0) = {}" by (auto simp: bloom_set_def)
  show "track_ok (expire_window s now)" using assms by (simp add: expire_window_def resetWindow_def track_ok_def z)
  show "tracks parent (expire_window s now) = tracks parent s" by (simp add: expire_window_def resetWindow_def tracks_def)
  have "(now < LastSeen s \<or> MaxInactivitySec \<le> now - LastSeen s)
      \<longleftrightarrow> \<not> (unat (LastSeen s) \<le> unat now \<and> unat now < unat (LastSeen s) + 3600)"
    using hour_passed[of s now] by (auto simp: word_less_nat_alt word_le_nat_alt)
  then have r: "expire_window s now = (if remembered now s then s else resetWindow s)"
    by (auto simp: expire_window_def remembered_def word_gt_0)
  show "window (expire_window s now) = (if remembered now s then window s else [])"
    "bloom_set (SubdomainBloom (expire_window s now)) = (if remembered now s then bloom_set (SubdomainBloom s) else {})"
    "unat (UniqueSubdomains (expire_window s now)) = (if remembered now s then unat (UniqueSubdomains s) else 0)"
    unfolding r by (simp_all add: resetWindow_def window_def z)
qed

lemma RecordQuery_ok:
  assumes "\<forall>k. track_ok (slots tr k)"
  shows "if parent = [] \<or> 253 < length parent then RecordQuery cv tr parent sub now = Ret ((100, 0, 0), tr)
     else \<exists>k s ev. RecordQuery cv tr parent sub now
       = Ret ((if 4 \<le> length (window s) then jitter_of cv (window s) else 100, UniqueSubdomains s, QueryCount s), tr\<lparr>slots := (slots tr)(k := s), evictions := ev\<rparr>)
     \<and> chosen_slot tr parent now k ev \<and> track_ok s \<and> tracks parent s \<and> LastSeen s = now \<and> unat (UniqueSubdomains s) \<le> 256
     \<and> unat (QueryCount s) = length (window s)
     \<and> (let kept = (tracks parent (slots tr k) \<and> remembered now (slots tr k));
            times = (if kept then window (slots tr k) else []);
            filter = (if kept then bloom_set (SubdomainBloom (slots tr k)) else {});
            count = (if kept then unat (UniqueSubdomains (slots tr k)) else 0) in
        window s = drop (length times - 15) (times @ [now])
      \<and> bloom_set (SubdomainBloom s) = filter \<union> (if sub = [] then {} else sub_bits sub)
      \<and> unat (UniqueSubdomains s) = count + (if sub = [] \<or> sub_bits sub \<subseteq> filter then 0 else 1))"
proof (cases "parent = [] \<or> 253 < length parent")
  case True
  then show ?thesis by (auto simp: RecordQuery_def)
next
  case False
  then have p: "parent \<noteq> []" "length parent \<le> 253" by auto
  obtain k s0 ev where c: "choose_slot tr parent now = Ret (k, s0, ev)" "chosen_slot tr parent now k ev" "track_ok s0" "tracks parent s0"
    and how: "s0 = (if tracks parent (slots tr k) then slots tr k else fresh_track (FNV1a64 parent) parent)"
    using choose_slot_ok[OF assms p] by blast
  define s1 where "s1 = expire_window s0 now"
  note e = expire_window_ok[OF c(3), where now = now, folded s1_def]
  let ?kept = "tracks parent (slots tr k) \<and> remembered now (slots tr k)"
  have s1: "window s1 = (if ?kept then window (slots tr k) else [])"
    "bloom_set (SubdomainBloom s1) = (if ?kept then bloom_set (SubdomainBloom (slots tr k)) else {})"
    "unat (UniqueSubdomains s1) = (if ?kept then unat (UniqueSubdomains (slots tr k)) else 0)"
    using e(3-5) how fresh_track_ok(3,4,6)[OF p] by auto
  obtain s2 where q: "push_timestamp s1 now = Ret s2" "track_ok s2" "LastSeen s2 = now"
    "window s2 = drop (unat (QueryCount s1) - 15) (window s1 @ [now])" "DomainHash s2 = DomainHash s1" "DomainLen s2 = DomainLen s1" "tDomain s2 = tDomain s1"
    "UniqueSubdomains s2 = UniqueSubdomains s1" "SubdomainBloom s2 = SubdomainBloom s1"
    using push_timestamp_ok[OF e(1), of now] by blast
  obtain s where a: "add_subdomain s2 sub = Ret s" "track_ok s" "s = s2\<lparr>SubdomainBloom := SubdomainBloom s, UniqueSubdomains := UniqueSubdomains s\<rparr>"
    "unat (UniqueSubdomains s) = unat (UniqueSubdomains s2) + (if sub = [] \<or> sub_bits sub \<subseteq> bloom_set (SubdomainBloom s2) then 0 else 1)"
    "bloom_set (SubdomainBloom s) = bloom_set (SubdomainBloom s2) \<union> (if sub = [] then {} else sub_bits sub)"
    using add_subdomain_ok[OF q(2), of sub] by blast
  have same: "window s = window s2" "LastSeen s = now" "QueryCount s = QueryCount s2" "tracks parent s = tracks parent s2"
    using q(3) by (subst a(3), simp add: window_def tracks_def)+
  have tr: "tracks parent s" using e(2) c(4) q(5,6,7) unfolding same(4) by (simp add: tracks_def)
  have "unat (UniqueSubdomains s) \<le> card (bloom_set (SubdomainBloom s))" "length (SubdomainBloom s) = 4" using a(2) by (simp_all add: track_ok_def)
  then have u: "unat (UniqueSubdomains s) \<le> 256" using bloom_set_finite(2)[of "SubdomainBloom s"] by simp
  have w: "window s = drop (length (window s1) - 15) (window s1 @ [now])" using same(1) q(4) by simp
  have jit: "(if 4 \<le> QueryCount s then calculateJitter cv s else Ret 100) = Ret (if 4 \<le> length (window s) then jitter_of cv (window s) else 100)"
    using chronological_window[OF a(2)] by (simp add: calculateJitter_def word_le_nat_alt word_less_nat_alt)
  have rec: "RecordQuery cv tr parent sub now
       = Ret ((if 4 \<le> length (window s) then jitter_of cv (window s) else 100, UniqueSubdomains s, QueryCount s), tr\<lparr>slots := (slots tr)(k := s), evictions := ev\<rparr>)"
    using p unfolding RecordQuery_def c(1) by (simp add: s1_def[symmetric] q(1) a(1) jit)
  have fin: "let kept = ?kept;
            times = (if kept then window (slots tr k) else []);
            filter = (if kept then bloom_set (SubdomainBloom (slots tr k)) else {});
            count = (if kept then unat (UniqueSubdomains (slots tr k)) else 0) in
        window s = drop (length times - 15) (times @ [now])
      \<and> bloom_set (SubdomainBloom s) = filter \<union> (if sub = [] then {} else sub_bits sub)
      \<and> unat (UniqueSubdomains s) = count + (if sub = [] \<or> sub_bits sub \<subseteq> filter then 0 else 1)"
    using w a(4,5) unfolding Let_def q(8,9) s1 by blast
  have cnt: "unat (QueryCount s) = length (window s)" by simp
  show ?thesis unfolding if_not_P[OF False] using rec c(2) a(2) tr same(2) u cnt fin by blast
qed

text \<open>
  C19.  Recording a query never panics, refuses a domain name of no octet or of
  more than 253 with the table untouched, and keeps every history well formed.
  It changes one slot, one of the eight places of the domain in the order of the
  probes: the first that tracks the domain; else the first that is empty or was
  silent for an hour; and only when all eight are live, the first of the least
  recently seen, which counts one eviction, the only case that does.  The slot
  then tracks the domain.  It holds the last sixteen timestamps since the last
  hour of silence, the new one at the end, and the filter of the sub-domains seen
  since, which gains exactly the two bits of this sub-domain and counts it when
  one of them was not set; a slot taken from another domain starts from nothing.
  The count returned is the number of timestamps, the jitter is computed on them
  in order of time once there are four, and the number of sub-domains never
  exceeds the 256 bits of the filter, so it cannot wrap.
\<close>

theorem tracker_record:
  assumes "\<forall>k. track_ok (slots tr k)"
  shows "if parent = [] \<or> 253 < length parent then RecordQuery cv tr parent sub now = Ret ((100, 0, 0), tr)
     else \<exists>k s ev. RecordQuery cv tr parent sub now
       = Ret ((if 4 \<le> length (window s) then jitter_of cv (window s) else 100, UniqueSubdomains s, QueryCount s), tr\<lparr>slots := (slots tr)(k := s), evictions := ev\<rparr>)
     \<and> chosen_slot tr parent now k ev \<and> track_ok s \<and> tracks parent s \<and> LastSeen s = now \<and> unat (UniqueSubdomains s) \<le> 256
     \<and> unat (QueryCount s) = length (window s)
     \<and> (let kept = (tracks parent (slots tr k) \<and> remembered now (slots tr k));
            times = (if kept then window (slots tr k) else []);
            filter = (if kept then bloom_set (SubdomainBloom (slots tr k)) else {});
            count = (if kept then unat (UniqueSubdomains (slots tr k)) else 0) in
        window s = drop (length times - 15) (times @ [now])
      \<and> bloom_set (SubdomainBloom s) = filter \<union> (if sub = [] then {} else sub_bits sub)
      \<and> unat (UniqueSubdomains s) = count + (if sub = [] \<or> sub_bits sub \<subseteq> filter then 0 else 1))"
  using assms by (rule RecordQuery_ok)

text \<open>The empty tracker, then the same domain again after more than an hour.\<close>

lemma tracker_zero_ok: "track_ok (slots NewTemporalTracker k)"
  by (simp add: NewTemporalTracker_def zero_track_def track_ok_def)

theorem tracker_record_witness:
  "\<exists>k s. track_ok s \<and> tracks [97, 98] s
     \<and> RecordQuery (\<lambda>_. 7) NewTemporalTracker [97, 98] [99] 5
       = Ret ((100, UniqueSubdomains s, QueryCount s), NewTemporalTracker\<lparr>slots := (slots NewTemporalTracker)(k := s)\<rparr>)
     \<and> window s = [5] \<and> UniqueSubdomains s = 1"
proof -
  have un: "\<not> tracks [97, 98] (slots NewTemporalTracker j)" "stale 5 (slots NewTemporalTracker j)" for j
    by (simp_all add: tracks_def stale_def NewTemporalTracker_def zero_track_def)
  have H: "\<forall>k. track_ok (slots NewTemporalTracker k)" using tracker_zero_ok by simp
  have np: "\<not> (([97, 98] :: bytes) = [] \<or> 253 < length ([97, 98] :: bytes))" by simp
  have ns: "sub_bits [99] \<noteq> {}" by (simp add: sub_bits_def Let_def)
  obtain k s ev where r: "RecordQuery (\<lambda>_. 7) NewTemporalTracker [97, 98] [99] 5
       = Ret ((if 4 \<le> length (window s) then jitter_of (\<lambda>_. 7) (window s) else 100, UniqueSubdomains s, QueryCount s),
           NewTemporalTracker\<lparr>slots := (slots NewTemporalTracker)(k := s), evictions := ev\<rparr>)"
      "chosen_slot NewTemporalTracker [97, 98] 5 k ev" "track_ok s" "tracks [97, 98] s"
      "let kept = (tracks [97, 98] (slots NewTemporalTracker k) \<and> remembered 5 (slots NewTemporalTracker k));
            times = (if kept then window (slots NewTemporalTracker k) else []);
            filter = (if kept then bloom_set (SubdomainBloom (slots NewTemporalTracker k)) else {});
            count = (if kept then unat (UniqueSubdomains (slots NewTemporalTracker k)) else 0) in
        window s = drop (length times - 15) (times @ [5])
      \<and> bloom_set (SubdomainBloom s) = filter \<union> (if ([99] :: bytes) = [] then {} else sub_bits [99])
      \<and> unat (UniqueSubdomains s) = count + (if ([99] :: bytes) = [] \<or> sub_bits [99] \<subseteq> filter then 0 else 1)"
    using tracker_record[OF H, of "[97, 98]" "\<lambda>_. 7" "[99]" 5, unfolded if_not_P[OF np]] by (elim exE conjE) rule
  have w: "window s = [5]" "unat (UniqueSubdomains s) = 1" using r(5) un(1)[of k] ns by (simp_all add: Let_def)
  have "\<exists>i < (8 :: nat). True" by (intro exI[of _ 0]) simp
  then have "ev = evictions NewTemporalTracker" using r(2) un unfolding chosen_slot_def Let_def by auto
  moreover have "UniqueSubdomains s = 1" using w(2) by (metis unat_1 word_unat_eq_iff)
  ultimately show ?thesis using r w by (intro exI[of _ k] exI[of _ s]) simp
qed

end
