(* ===== verification/Pipeline.thy ===== *)
theory Pipeline
  imports Veto Entropy TemporalTracker DnsWire Events
begin

text \<open>
  The evaluation pipeline of \<open>pipeline.go\<close> with its seeds (\<open>seeds.go\<close>): a packet is decoded, matched
  against the reputation table, profiled, recorded in the temporal tracker and judged; suspicious
  ones go to a bounded queue for arbitration, and verdicts to a bounded audit queue.  A call of the
  API runs under the life-cycle lock and is one step; the worker and the audit writer are steps of
  their own.
\<close>

section \<open>State\<close>

datatype pipe_error = ErrPipelineClosed | ErrSLMQueueFull | ErrSLMAbandoned | ErrAuditQueueFull
  | ErrDNS dns_error | ErrRep rep_error | ErrOpen | ErrEncode | ErrSync

abbreviation DecisionFastPass :: byte where "DecisionFastPass \<equiv> 1"
abbreviation DecisionFastDrop :: byte where "DecisionFastDrop \<equiv> 2"
abbreviation DecisionEscalateSLM :: byte where "DecisionEscalateSLM \<equiv> 3"
abbreviation RepClassAllowTranco :: byte where "RepClassAllowTranco \<equiv> 2"

record PipelineConfig =
  LogPath :: bytes
  EntropyThresholdQ8 :: u32
  BeaconJitterMax :: u16
  UniqueSubThreshold :: u16

record auditRecord =
  aTime :: int
  aDomain :: bytes
  aAction :: bytes
  aReason :: bytes
  aConfidence :: go_float

record Pipeline =
  cfg :: PipelineConfig
  rep :: AtomicReputation
  tracker :: TemporalTracker
  slmQueue :: "SLMIncident list"
  pclosed :: bool
  workerStarted :: bool
  auditQueue :: "auditRecord list option"
  auditClosed :: bool
  auditErr :: "pipe_error option"
  slmRejected :: u64
  slmAbandoned :: u64
  arbitrationErrors :: u64
  auditRejected :: u64
  auditErrors :: u64

record PipelineStats =
  sSLMRejected :: u64
  sSLMAbandoned :: u64
  sArbitrationErrors :: u64
  sAuditRejected :: u64
  sAuditErrors :: u64
  sTrackerEvictions :: u64

definition Stats :: "Pipeline \<Rightarrow> PipelineStats" where
  "Stats p = \<lparr>sSLMRejected = slmRejected p, sSLMAbandoned = slmAbandoned p, sArbitrationErrors = arbitrationErrors p,
     sAuditRejected = auditRejected p, sAuditErrors = auditErrors p, sTrackerEvictions = Evictions (tracker p)\<rparr>"

definition AuditError :: "Pipeline \<Rightarrow> pipe_error option" where
  "AuditError p = auditErr p"

record EvaluationResult =
  Decision :: byte
  rMatchedDomain :: bytes
  MatchedCategory :: byte
  rEntropyQ8 :: u32
  rPayloadClass :: u16
  JitterPct :: u16
  rUniqueSubdomains :: u16
  Incident :: "SLMIncident option"
  ArbitrationQueued :: bool

definition zero_result :: EvaluationResult where
  "zero_result = \<lparr>Decision = 0, rMatchedDomain = [], MatchedCategory = 0, rEntropyQ8 = 0, rPayloadClass = 0, JitterPct = 0,
     rUniqueSubdomains = 0, Incident = None, ArbitrationQueued = False\<rparr>"

section \<open>Seeds and creation\<close>

definition vendor_subtrees :: "string list" where
  "vendor_subtrees = [''sophosxl.com'', ''sophosxl.net'', ''avts.mcafee.com'', ''mcafee.com'', ''rep.trendmicro.com'', ''trendmicro.com'',
     ''barracudabrts.com'', ''spamexperts.com'', ''appsechcl.com'', ''zen.spamhaus.org'', ''dnsbl.sorbs.net'']"

definition tranco_entries :: "(string \<times> byte) list" where
  "tranco_entries = [(''google.com'', MatchSubtree), (''googleapis.com'', MatchExact), (''1e100.net'', MatchSubtree), (''microsoft.com'', MatchSubtree),
     (''azure.com'', MatchExact), (''trafficmanager.net'', MatchExact), (''cloudflare.com'', MatchSubtree), (''cloudflare.net'', MatchSubtree),
     (''akamai.net'', MatchExact), (''akamaiedge.net'', MatchExact), (''github.com'', MatchSubtree), (''githubusercontent.com'', MatchExact),
     (''amazon.com'', MatchSubtree), (''amazonaws.com'', MatchExact), (''cloudfront.net'', MatchExact), (''apple.com'', MatchSubtree),
     (''icloud.com'', MatchSubtree)]"

definition block_subtrees :: "string list" where
  "block_subtrees = [''dnscat2.net'', ''tunnel.dnscat2.org'', ''iodine.test-c2.org'', ''dns2tcp.attacker.org'', ''almacommunicator.net'',
     ''decoydog.tunnel.org'', ''c2-beacon.threatfox.ch'', ''bad-exfil-test.xyz'', ''sliver-c2-dns.net'']"

definition DefaultBuildEntries :: "BuildEntry list" where
  "DefaultBuildEntries =
     map (\<lambda>d. \<lparr>Domain = ascii d, Classification = RepClassAllowVendor, MatchKind = MatchSubtree\<rparr>) vendor_subtrees
     @ map (\<lambda>(d, k). \<lparr>Domain = ascii d, Classification = RepClassAllowTranco, MatchKind = k\<rparr>) tranco_entries
     @ map (\<lambda>d. \<lparr>Domain = ascii d, Classification = RepClassBlockC2, MatchKind = MatchSubtree\<rparr>) block_subtrees"

definition GetDefaultReputationTable :: "unicode \<Rightarrow> (rep_error + ReputationTable) outcome" where
  "GetDefaultReputationTable U = (case CompileReputationSnapshot U DefaultBuildEntries of
     Inl _ \<Rightarrow> Ret (Inl ErrCorruptSnapshot)
   | Inr snap \<Rightarrow> NewReputationTable U snap)"

definition effective_config :: "PipelineConfig \<Rightarrow> PipelineConfig" where
  "effective_config c = c\<lparr>EntropyThresholdQ8 := (if EntropyThresholdQ8 c = 0 then 1024 else EntropyThresholdQ8 c),
     BeaconJitterMax := (if BeaconJitterMax c = 0 then 20 else BeaconJitterMax c),
     UniqueSubThreshold := (if UniqueSubThreshold c = 0 then 5 else UniqueSubThreshold c)\<rparr>"

text \<open>\<open>can_open\<close> tells whether the audit file can be opened for appending.\<close>

definition NewPipeline :: "unicode \<Rightarrow> (bytes \<Rightarrow> bool) \<Rightarrow> PipelineConfig \<Rightarrow> ReputationTable option \<Rightarrow> (pipe_error + Pipeline) outcome" where
  "NewPipeline U can_open c repTable =
     obind (case repTable of None \<Rightarrow> GetDefaultReputationTable U | Some t \<Rightarrow> Ret (Inr t)) (\<lambda>r. case r of
       Inl err \<Rightarrow> Ret (Inl (ErrRep err))
     | Inr t \<Rightarrow>
       let c = effective_config c in
       if LogPath c \<noteq> [] \<and> \<not> can_open (LogPath c) then Ret (Inl ErrOpen)
       else Ret (Inr \<lparr>cfg = c, rep = NewAtomicReputation (Some t), tracker = NewTemporalTracker, slmQueue = [], pclosed = False,
              workerStarted = False, auditQueue = (if LogPath c = [] then None else Some []), auditClosed = False, auditErr = None,
              slmRejected = 0, slmAbandoned = 0, arbitrationErrors = 0, auditRejected = 0, auditErrors = 0\<rparr>))"

section \<open>Evaluation\<close>

definition consonant_step :: "nat \<times> nat \<Rightarrow> byte \<Rightarrow> nat \<times> nat" where
  "consonant_step st c0 = (case st of (alphaLen, vowelCount) \<Rightarrow>
     let c = (if 0x41 \<le> c0 \<and> c0 \<le> 0x5A then c0 + 32 else c0) in
     if 0x61 \<le> c \<and> c \<le> 0x7A
     then (alphaLen + 1, if c \<in> {0x61, 0x65, 0x69, 0x6F, 0x75, 0x79} then vowelCount + 1 else vowelCount)
     else (alphaLen, vowelCount))"

definition hasConsonantDrought :: "bytes \<Rightarrow> bool" where
  "hasConsonantDrought sub = (case foldl consonant_step (0, 0) sub of (alphaLen, vowelCount) \<Rightarrow> 15 \<le> alphaLen \<and> vowelCount * 10 < alphaLen)"

definition parentCertified :: "unicode \<Rightarrow> Pipeline \<Rightarrow> bytes \<Rightarrow> bool outcome" where
  "parentCertified U p parent =
     (if parent = [] \<or> isSharedHostingDomain parent then Ret False
      else obind (Atomic_Match U (rep p) parent) (\<lambda>(match, ok).
        Ret (ok \<and> (mClassification match = RepClassAllowVendor \<or> mClassification match = RepClassAllowTranco))))"

definition logEvent :: "int \<Rightarrow> Pipeline \<Rightarrow> bytes \<Rightarrow> bytes \<Rightarrow> bytes \<Rightarrow> go_float \<Rightarrow> pipe_error option \<times> Pipeline" where
  "logEvent clock p domain action reason conf = (case auditQueue p of
     None \<Rightarrow> (None, p)
   | Some q \<Rightarrow>
     if auditClosed p then (Some ErrPipelineClosed, p)
     else if length q < 64
     then (auditErr p, p\<lparr>auditQueue := Some (q @ [\<lparr>aTime = clock, aDomain = domain, aAction = action, aReason = reason, aConfidence = conf\<rparr>])\<rparr>)
     else (Some ErrAuditQueueFull, p\<lparr>auditRejected := auditRejected p + 1, auditErr := Some ErrAuditQueueFull\<rparr>))"

text \<open>The conditions of the fifth stage, and the indicator of an escalation.\<close>

record signals =
  isHexOrB64Dense :: bool
  isHighEntropy :: bool
  isBeaconing :: bool
  isSubdomainFlood :: bool
  isTunnelRecord :: bool
  isDeepMultilabel :: bool
  isConsonantDrought :: bool
  isExoticTunnel :: bool
  protocolOverBound :: bool

definition signals_of :: "PipelineConfig \<Rightarrow> DNSEvent \<Rightarrow> u16 \<Rightarrow> u32 \<Rightarrow> u16 \<times> u16 \<times> u16 \<Rightarrow> bool \<Rightarrow> signals" where
  "signals_of c ev cls e trk over = (case trk of (jitter, uniqueSubs, queryCount) \<Rightarrow>
     \<lparr>isHexOrB64Dense = (cls = 2 \<or> cls = 3) \<and> (15 \<le> SubdomainLen ev \<or> 25 \<le> NameLen ev),
      isHighEntropy = EntropyThresholdQ8 c \<le> e \<and> (15 \<le> SubdomainLen ev \<or> 25 \<le> NameLen ev),
      isBeaconing = jitter \<le> BeaconJitterMax c \<and> 4 \<le> queryCount,
      isSubdomainFlood = UniqueSubThreshold c \<le> uniqueSubs,
      isTunnelRecord = (QType ev = TypeTXT \<or> QType ev = TypeNULL) \<and> 40 \<le> NameLen ev,
      isDeepMultilabel = 5 \<le> LabelCount ev \<or> 35 \<le> SubdomainLen ev,
      isConsonantDrought = hasConsonantDrought (take (unat (SubdomainLen ev)) (Subdomain ev)),
      isExoticTunnel = (QType ev = TypeNULL \<and> 25 \<le> NameLen ev) \<or> (QType ev = TypeCNAME \<and> 45 \<le> NameLen ev),
      protocolOverBound = over\<rparr>)"

definition suspicious :: "signals \<Rightarrow> bool" where
  "suspicious s \<longleftrightarrow> isHexOrB64Dense s \<or> isHighEntropy s \<or> isBeaconing s \<or> isSubdomainFlood s \<or> isTunnelRecord s \<or> isDeepMultilabel s
     \<or> protocolOverBound s \<or> isConsonantDrought s \<or> isExoticTunnel s"

definition indicator_of :: "DNSEvent \<Rightarrow> u32 \<Rightarrow> signals \<Rightarrow> bytes" where
  "indicator_of ev e s =
     (if isConsonantDrought s then ascii ''CONSONANT_DROUGHT_PAYLOAD''
      else if isExoticTunnel s \<and> QType ev = TypeCNAME then ascii ''CNAME_QUESTION_LONG''
      else if isExoticTunnel s \<and> QType ev = TypeNULL then ascii ''DNS_TUNNEL_RECORD_TYPE''
      else if protocolOverBound s \<and> MinTunnelEntropyQ8 \<le> e then ascii ''HEX_BASE64_PAYLOAD_DENSE''
      else if protocolOverBound s then ascii ''DNS_TUNNEL_RECORD_TYPE''
      else if isHexOrB64Dense s then ascii ''HEX_BASE64_PAYLOAD_DENSE''
      else if isBeaconing s then ascii ''BEACONING_JITTER_LOW''
      else if isSubdomainFlood s then ascii ''SUBDOMAIN_EXFIL_FLOOD''
      else if isTunnelRecord s then ascii ''DNS_TUNNEL_RECORD_TYPE''
      else if isDeepMultilabel s then ascii ''DEEP_MULTILABEL_SUBDOMAIN''
      else ascii ''HIGH_ENTROPY'')"

definition incident_of :: "DNSEvent \<Rightarrow> u32 \<Rightarrow> u32 \<Rightarrow> u16 \<Rightarrow> u16 \<times> u16 \<times> u16 \<Rightarrow> signals \<Rightarrow> SLMIncident" where
  "incident_of ev nowSec e cls trk s = (case trk of (jitter, uniqueSubs, queryCount) \<Rightarrow>
     \<lparr>iTimestamp = ucast nowSec, iFQDN = take (unat (NameLen ev)) (Name ev), iParentDomain = take (unat (ParentDomainLen ev)) (ParentDomain ev),
      iSubdomain = take (unat (SubdomainLen ev)) (Subdomain ev), iQType = QType ev, iEntropyQ8 = e, EntropyBits = FNum False (of_nat (unat e) / 256),
      iPayloadClass = cls, iJitterPct = jitter, iUniqueSubdomains = uniqueSubs, iQueryCount = queryCount, SuspectedIndicator = indicator_of ev e s,
      HumanSummary = [], RecommendedAction = []\<rparr>)"

text \<open>The non-blocking send to the arbitration queue.\<close>

definition escalate :: "Pipeline \<Rightarrow> EvaluationResult \<Rightarrow> SLMIncident \<Rightarrow> (EvaluationResult \<times> pipe_error option) \<times> Pipeline" where
  "escalate p res inc = (let res = res\<lparr>Decision := DecisionEscalateSLM, Incident := Some inc\<rparr> in
     if length (slmQueue p) < 64 then ((res\<lparr>ArbitrationQueued := True\<rparr>, None), p\<lparr>slmQueue := slmQueue p @ [inc]\<rparr>)
     else ((res, Some ErrSLMQueueFull), p\<lparr>slmRejected := slmRejected p + 1\<rparr>))"

text \<open>Stages two to six, once the reputation does not block the name.\<close>

definition judge :: "unicode \<Rightarrow> (nat list \<Rightarrow> u16) \<Rightarrow> Pipeline \<Rightarrow> DNSEvent \<Rightarrow> u32 \<Rightarrow> EvaluationResult
    \<Rightarrow> ((EvaluationResult \<times> pipe_error option) \<times> Pipeline) outcome" where
  "judge U cv p ev nowSec res = (let parent = Parent ev; sub = Sub ev in
     obind (if 0 < SubdomainLen ev then profile_payload (take (unat (SubdomainLen ev)) (Subdomain ev)) (ucast (SubdomainLen ev))
            else profile_payload (take (unat (NameLen ev)) (Name ev)) (ucast (NameLen ev))) (\<lambda>profile.
     let e = Entropy_q8 profile; cls = Payload_class profile; res = res\<lparr>rEntropyQ8 := e, rPayloadClass := cls\<rparr> in
     obind (hasProtocolPrefixLabel U sub) (\<lambda>protocolLabelPresent.
     let protocolBounded = length sub \<le> MaxProtocolPrefixLen \<and> e < MinTunnelEntropyQ8 in
     obind (RecordQuery cv (tracker p) parent sub nowSec) (\<lambda>(trk, tr).
     let res = res\<lparr>JitterPct := fst trk, rUniqueSubdomains := fst (snd trk)\<rparr>; p = p\<lparr>tracker := tr\<rparr>;
         s = signals_of (cfg p) ev cls e trk (protocolLabelPresent \<and> \<not> protocolBounded) in
     obind (if QType ev = TypeTXT \<and> protocolLabelPresent \<and> protocolBounded then parentCertified U p parent else Ret False) (\<lambda>certified.
     if certified \<and> \<not> isBeaconing s \<and> \<not> isSubdomainFlood s \<and> \<not> isTunnelRecord s \<and> \<not> isDeepMultilabel s \<and> \<not> isConsonantDrought s
     then Ret ((res\<lparr>Decision := DecisionFastPass\<rparr>, None), p)
     else if suspicious s then Ret (escalate p res (incident_of ev nowSec e cls trk s))
     else Ret ((res\<lparr>Decision := DecisionFastPass\<rparr>, None), p))))))"

definition EvaluatePacket :: "unicode \<Rightarrow> (nat list \<Rightarrow> u16) \<Rightarrow> int \<Rightarrow> Pipeline \<Rightarrow> bytes \<Rightarrow> u32
    \<Rightarrow> ((EvaluationResult \<times> pipe_error option) \<times> Pipeline) outcome" where
  "EvaluatePacket U cv clock p rawPacket nowSec =
     (if pclosed p then Ret ((zero_result, Some ErrPipelineClosed), p)
      else obind (ParseDNSQuery rawPacket (Some (fresh_event 0 (replicate 16 0)))) (\<lambda>(err, evp). case (err, evp) of
        (Some e, _) \<Rightarrow> Ret ((zero_result, Some (ErrDNS e)), p)
      | (None, None) \<Rightarrow> Panic
      | (None, Some ev) \<Rightarrow>
        let fqdn = FQDN ev in
        if fqdn = [] then Ret ((zero_result\<lparr>Decision := DecisionFastPass\<rparr>, None), p)
        else obind (Atomic_Match U (rep p) fqdn) (\<lambda>(match, ok).
          let res = (if ok then zero_result\<lparr>rMatchedDomain := MatchedDomain match, MatchedCategory := mClassification match\<rparr> else zero_result) in
          if ok \<and> mClassification match = RepClassBlockC2
          then (case logEvent clock p (MatchedDomain match) (ascii ''DROP_REPUTATION_POLICY'') (MatchedDomain match) (FNum False 0) of
                  (lerr, p) \<Rightarrow> Ret ((res\<lparr>Decision := DecisionFastDrop\<rparr>, lerr), p))
          else judge U cv p ev nowSec res)))"

text \<open>\<open>Reputation\<close> gives the container, in which the table can be replaced while the pipeline runs.\<close>

definition pipe_Reputation :: "Pipeline \<Rightarrow> AtomicReputation" where
  "pipe_Reputation p = rep p"

definition EvaluateChannelEvent :: "unicode \<Rightarrow> (nat list \<Rightarrow> u16) \<Rightarrow> int \<Rightarrow> Pipeline \<Rightarrow> probe_event_t \<Rightarrow> u32
    \<Rightarrow> ((EvaluationResult \<times> pipe_error option) \<times> Pipeline) outcome" where
  "EvaluateChannelEvent U cv clock p ev nowSec = EvaluatePacket U cv clock p (Payload ev) nowSec"

section \<open>Arbitration\<close>

record SLMArbitrationResponse =
  Verdict :: bytes
  Confidence :: go_float

definition StartArbitratorWorker :: "Pipeline \<Rightarrow> bool \<Rightarrow> Pipeline" where
  "StartArbitratorWorker p arb = (if pclosed p \<or> workerStarted p \<or> \<not> arb then p else p\<lparr>workerStarted := True\<rparr>)"

text \<open>
  One incident: the context is read before and after the arbitrator, which may change the incident
  and answers with a response or the text of an error.
\<close>

definition arbitrate :: "bytes option \<Rightarrow> (SLMIncident \<Rightarrow> (bytes + SLMArbitrationResponse) \<times> SLMIncident) \<Rightarrow> bytes option \<Rightarrow> SLMIncident
    \<Rightarrow> (bytes + SLMArbitrationResponse) \<times> SLMIncident" where
  "arbitrate ctx arb ctx' inc = (case ctx of
     Some m \<Rightarrow> (Inl m, inc)
   | None \<Rightarrow> (case arb inc of
       (Inl m, inc) \<Rightarrow> (Inl m, inc)
     | (Inr resp, inc) \<Rightarrow> (case ctx' of
         Some m \<Rightarrow> (Inl m, inc)
       | None \<Rightarrow> (if \<not> validSLMVerdict (Verdict resp) \<or> float_outside 1 (Confidence resp)
                  then Inl (ascii ''invalid arbitration response'') else Inr resp, inc))))"

definition worker_turn :: "unicode \<Rightarrow> int \<Rightarrow> Pipeline \<Rightarrow> (bytes + SLMArbitrationResponse) \<times> SLMIncident
    \<Rightarrow> ((SLMIncident \<times> bytes \<times> go_float \<times> bytes) \<times> Pipeline) outcome" where
  "worker_turn U clock p answer = (case answer of
     (Inl m, inc) \<Rightarrow>
       let p = p\<lparr>arbitrationErrors := arbitrationErrors p + 1\<rparr>; v = ascii ''INSUFFICIENT_EVIDENCE'';
           reason = ascii ''ARBITRATION_UNAVAILABLE: '' @ m; inc = complete_incident inc v in
       Ret ((inc, v, FNum False 0, reason), snd (logEvent clock p (iFQDN inc) v reason (FNum False 0)))
   | (Inr resp, inc) \<Rightarrow> obind (ApplyDeterministicVeto U (pclosed p) (Some inc) (Verdict resp)) (\<lambda>((v, c, reason), inc').
       let conf = (if reason = ascii ''MODEL_PROPOSAL_NOT_PROOF'' \<and> v = Verdict resp then Confidence resp else c);
           inc = (case inc' of None \<Rightarrow> inc | Some i \<Rightarrow> i) in
       Ret ((inc, v, conf, reason), snd (logEvent clock p (iFQDN inc) v reason conf))))"

section \<open>Life cycle\<close>

text \<open>
  The pipeline with what has left it: incidents accepted for arbitration, refused, handled by the
  worker or abandoned; the verdicts given to the callback; the audit records entered and taken by
  the writer.
\<close>

record psys =
  pipe :: Pipeline
  accepted :: "SLMIncident list"
  refused :: nat
  handled :: "SLMIncident list"
  outputs :: "(SLMIncident \<times> bytes \<times> go_float \<times> bytes) list"
  abandoned :: "SLMIncident list"
  entered :: "auditRecord list"
  written :: "auditRecord list"

definition audit_pending :: "Pipeline \<Rightarrow> auditRecord list" where
  "audit_pending p = (case auditQueue p of None \<Rightarrow> [] | Some q \<Rightarrow> q)"

definition entered_by :: "Pipeline \<Rightarrow> Pipeline \<Rightarrow> auditRecord list" where
  "entered_by p p' = drop (length (audit_pending p)) (audit_pending p')"

definition start_sys :: "Pipeline \<Rightarrow> psys" where
  "start_sys p = \<lparr>pipe = p, accepted = [], refused = 0, handled = [], outputs = [], abandoned = [], entered = [], written = []\<rparr>"

inductive pipe_step :: "unicode \<Rightarrow> (nat list \<Rightarrow> u16) \<Rightarrow> psys \<Rightarrow> psys \<Rightarrow> bool" for U cv where
  evaluate: "EvaluatePacket U cv clock (pipe s) raw now = Ret ((res, err), p') \<Longrightarrow>
     pipe_step U cv s (s\<lparr>pipe := p', accepted := accepted s @ (case Incident res of Some inc \<Rightarrow> if ArbitrationQueued res then [inc] else [] | None \<Rightarrow> []),
       refused := (if Decision res = DecisionEscalateSLM \<and> \<not> ArbitrationQueued res then Suc (refused s) else refused s),
       entered := entered s @ entered_by (pipe s) p'\<rparr>)"
| start: "pipe_step U cv s (s\<lparr>pipe := StartArbitratorWorker (pipe s) arb\<rparr>)"
| work: "workerStarted (pipe s) \<Longrightarrow> slmQueue (pipe s) = inc # q \<Longrightarrow>
     worker_turn U clock ((pipe s)\<lparr>slmQueue := q\<rparr>) (arbitrate ctx arb ctx' inc) = Ret (out, p') \<Longrightarrow>
     pipe_step U cv s (s\<lparr>pipe := p', handled := handled s @ [inc], outputs := outputs s @ [out], entered := entered s @ entered_by (pipe s) p'\<rparr>)"
| audit: "auditQueue (pipe s) = Some (r # q) \<Longrightarrow>
     pipe_step U cv s (s\<lparr>pipe := (if ok then (pipe s)\<lparr>auditQueue := Some q\<rparr>
         else (pipe s)\<lparr>auditQueue := Some q, auditErrors := auditErrors (pipe s) + 1, auditErr := Some ErrEncode\<rparr>), written := written s @ [r]\<rparr>)"
| close_begin: "\<not> pclosed (pipe s) \<Longrightarrow> pipe_step U cv s (s\<lparr>pipe := (pipe s)\<lparr>pclosed := True\<rparr>\<rparr>)"
| close_abandon: "pclosed (pipe s) \<Longrightarrow> \<not> workerStarted (pipe s) \<Longrightarrow> slmQueue (pipe s) = inc # q \<Longrightarrow>
     pipe_step U cv s (s\<lparr>pipe := (pipe s)\<lparr>slmQueue := q, slmAbandoned := slmAbandoned (pipe s) + 1\<rparr>, abandoned := abandoned s @ [inc]\<rparr>)"
| close_audit: "pclosed (pipe s) \<Longrightarrow> slmQueue (pipe s) = [] \<Longrightarrow>
     pipe_step U cv s (s\<lparr>pipe := (pipe s)\<lparr>auditClosed := True\<rparr>\<rparr>)"

text \<open>What \<open>Close\<close> returns once everything is drained; \<open>sync_ok\<close> tells whether the file was synchronised and closed.\<close>

definition close_error :: "Pipeline \<Rightarrow> bool \<Rightarrow> pipe_error list" where
  "close_error p sync_ok = (if slmAbandoned p \<noteq> 0 then [ErrSLMAbandoned] else [])
     @ (if auditQueue p = None then [] else (case AuditError p of None \<Rightarrow> [] | Some e \<Rightarrow> [e]) @ (if sync_ok then [] else [ErrSync]))"


section \<open>Evaluation of a packet\<close>

definition pipe_ok :: "Pipeline \<Rightarrow> bool" where
  "pipe_ok p \<longleftrightarrow> (\<forall>t. rep_ptr (rep p) = Some t \<longrightarrow> table_ok t) \<and> (\<forall>k. track_ok (slots (tracker p) k))
     \<and> length (slmQueue p) \<le> 64 \<and> length (audit_pending p) \<le> 64"

text \<open>What the reputation says of a name: the best covering entry of the installed table.\<close>

definition reputation_of :: "unicode \<Rightarrow> Pipeline \<Rightarrow> bytes \<Rightarrow> MatchResult \<Rightarrow> bool" where
  "reputation_of U p f r \<longleftrightarrow> (case rep_ptr (rep p) of
     None \<Rightarrow> r = no_match
   | Some t \<Rightarrow> best {e \<in> set (table_list t). validReputationDomain (cleanDomain U f) \<and> covers (cleanDomain U f) e} r)"

lemma Atomic_Match_ok:
  assumes "pipe_ok p"
  shows "\<exists>r. Atomic_Match U (rep p) f = Ret (r, mClassification r \<noteq> 0) \<and> reputation_of U p f r"
proof (cases "rep_ptr (rep p)")
  case None
  then show ?thesis by (simp add: Atomic_Match_def rep_Load_def reputation_of_def no_match_def)
next
  case (Some t)
  then have t: "table_ok t" using assms by (simp add: pipe_ok_def)
  show ?thesis
  proof (cases "validReputationDomain (cleanDomain U f)")
    case True
    then show ?thesis using Match_ok[OF t True] Some by (auto simp: Atomic_Match_def rep_Load_def reputation_of_def)
  next
    case False
    then have "Match U (Some t) f = Ret (no_match, False)" by (simp add: Match_def Let_def)
    then show ?thesis using Some False by (auto simp: Atomic_Match_def rep_Load_def reputation_of_def best_def no_match_def)
  qed
qed


lemma RecordQuery_total:
  assumes "\<forall>k. track_ok (slots tr k)"
  shows "\<exists>trk tr'. RecordQuery cv tr parent sub now = Ret (trk, tr') \<and> (\<forall>k. track_ok (slots tr' k))"
proof (cases "parent = [] \<or> 253 < length parent")
  case True
  then show ?thesis using assms by (auto simp: RecordQuery_def)
next
  case False
  from RecordQuery_ok[OF assms, of parent cv sub now, unfolded if_not_P[OF this]]
  obtain k s ev x where "RecordQuery cv tr parent sub now = Ret (x, tr\<lparr>slots := (slots tr)(k := s), evictions := ev\<rparr>)" "track_ok s"
    by blast
  then show ?thesis using assms by (cases x) simp
qed

lemma logEvent_ok:
  assumes "logEvent clock p d a r c = (err, p')"
  shows "\<exists>new. auditQueue p' = map_option (\<lambda>q. q @ new) (auditQueue p) \<and> (auditClosed p \<longrightarrow> new = [])
     \<and> (length (audit_pending p) \<le> 64 \<longrightarrow> length (audit_pending p') \<le> 64)
     \<and> p' = p\<lparr>auditQueue := auditQueue p', auditRejected := auditRejected p', auditErr := auditErr p'\<rparr>"
proof (cases "auditQueue p")
  case None
  then show ?thesis using assms by (intro exI[of _ "[]"]) (auto simp: logEvent_def)
next
  case (Some q)
  define e where "e = \<lparr>aTime = clock, aDomain = d, aAction = a, aReason = r, aConfidence = c\<rparr>"
  show ?thesis
  proof (cases "\<not> auditClosed p \<and> length q < 64")
    case True
    then show ?thesis using assms Some by (intro exI[of _ "[e]"]) (auto simp: logEvent_def audit_pending_def e_def)
  next
    case False
    then show ?thesis using assms Some by (intro exI[of _ "[]"]) (auto simp: logEvent_def audit_pending_def split: if_splits)
  qed
qed

text \<open>The octets that are measured, and the exemption of a short selector under an allowed parent.\<close>

definition payload_of :: "DNSEvent \<Rightarrow> bytes" where
  "payload_of ev = (if SubdomainLen ev = 0 then FQDN ev else Sub ev)"

definition kind_of :: "bytes \<Rightarrow> u16" where
  "kind_of s = (if s = [] then 0 else payload_kind s (entropy_of s))"

definition allowed_parent :: "unicode \<Rightarrow> Pipeline \<Rightarrow> bytes \<Rightarrow> bool" where
  "allowed_parent U p parent \<longleftrightarrow> parent \<noteq> [] \<and> \<not> isSharedHostingDomain parent
     \<and> (\<exists>r. Atomic_Match U (rep p) parent = Ret (r, True) \<and> (mClassification r = RepClassAllowVendor \<or> mClassification r = RepClassAllowTranco))"

definition over_bound :: "unicode \<Rightarrow> DNSEvent \<Rightarrow> bool" where
  "over_bound U ev \<longleftrightarrow> protocol_name U (Sub ev) \<and> (45 < length (Sub ev) \<or> 1024 \<le> entropy_of (payload_of ev))"

definition judged :: "unicode \<Rightarrow> PipelineConfig \<Rightarrow> DNSEvent \<Rightarrow> u16 \<times> u16 \<times> u16 \<Rightarrow> signals" where
  "judged U c ev trk = signals_of c ev (kind_of (payload_of ev)) (entropy_of (payload_of ev)) trk (over_bound U ev)"

definition exempt :: "unicode \<Rightarrow> Pipeline \<Rightarrow> DNSEvent \<Rightarrow> signals \<Rightarrow> bool" where
  "exempt U p ev s \<longleftrightarrow> QType ev = TypeTXT \<and> protocol_name U (Sub ev) \<and> length (Sub ev) \<le> 45 \<and> entropy_of (payload_of ev) < 1024
     \<and> allowed_parent U p (Parent ev)
     \<and> \<not> isBeaconing s \<and> \<not> isSubdomainFlood s \<and> \<not> isTunnelRecord s \<and> \<not> isDeepMultilabel s \<and> \<not> isConsonantDrought s"

definition measured_result :: "EvaluationResult \<Rightarrow> DNSEvent \<Rightarrow> u16 \<times> u16 \<times> u16 \<Rightarrow> EvaluationResult" where
  "measured_result res ev trk = res\<lparr>rEntropyQ8 := entropy_of (payload_of ev), rPayloadClass := kind_of (payload_of ev),
     JitterPct := fst trk, rUniqueSubdomains := fst (snd trk)\<rparr>"

lemma parentCertified_ok:
  assumes "pipe_ok p"
  shows "parentCertified U (p\<lparr>tracker := tr\<rparr>) parent = Ret (allowed_parent U p parent)"
proof -
  obtain r where "Atomic_Match U (rep p) parent = Ret (r, mClassification r \<noteq> 0)" using Atomic_Match_ok[OF assms] by blast
  then show ?thesis by (auto simp: parentCertified_def allowed_parent_def)
qed

lemma profile_of_prefix:
  "profile_payload (take (unat (n :: byte)) xs) (ucast n) = Ret \<lparr>Entropy_q8 = entropy_of (take (unat n) xs), Char_mask = mask_of (take (unat n) xs),
     Distinct_count = word_of_nat (card (set (take (unat n) xs))), Payload_class = kind_of (take (unat n) xs), Len_ = word_of_nat (length (take (unat n) xs))\<rparr>"
proof -
  have u: "unat (ucast n :: u64) = unat n" using unat_bound[of n] by (simp add: unat_ucast_mod)
  have "length (take (unat n) xs) < 2 ^ 32" using unat_bound[of n] by simp
  from profile_payload_ok[OF this, of "ucast n"] show ?thesis by (simp add: u kind_of_def)
qed

lemma judge_ok:
  assumes "pipe_ok p"
  shows "\<exists>trk tr'. RecordQuery cv (tracker p) (Parent ev) (Sub ev) now = Ret (trk, tr') \<and> (\<forall>k. track_ok (slots tr' k))
     \<and> judge U cv p ev now res = Ret (let s = judged U (cfg p) ev trk; res = measured_result res ev trk; p' = p\<lparr>tracker := tr'\<rparr> in
         if suspicious s \<and> \<not> exempt U p ev s
         then escalate p' res (incident_of ev now (entropy_of (payload_of ev)) (kind_of (payload_of ev)) trk s)
         else ((res\<lparr>Decision := DecisionFastPass\<rparr>, None), p'))"
proof -
  obtain trk tr' where r: "RecordQuery cv (tracker p) (Parent ev) (Sub ev) now = Ret (trk, tr')" "\<forall>k. track_ok (slots tr' k)"
    using RecordQuery_total assms unfolding pipe_ok_def by meson
  define pay where "pay = payload_of ev"
  obtain m d l where prof: "(if 0 < SubdomainLen ev then profile_payload (take (unat (SubdomainLen ev)) (Subdomain ev)) (ucast (SubdomainLen ev))
      else profile_payload (take (unat (NameLen ev)) (Name ev)) (ucast (NameLen ev)))
    = Ret \<lparr>Entropy_q8 = entropy_of pay, Char_mask = m, Distinct_count = d, Payload_class = kind_of pay, Len_ = l\<rparr>"
    unfolding profile_of_prefix pay_def payload_of_def Sub_def FQDN_def by (cases "SubdomainLen ev = 0") (auto simp: word_gt_0)
  define s where "s = judged U (cfg p) ev trk"
  have sig: "signals_of (cfg p) ev (kind_of pay) (entropy_of pay) trk (protocol_name U (Sub ev) \<and> \<not> (length (Sub ev) \<le> 45 \<and> entropy_of pay < 1024)) = s"
    by (simp add: s_def judged_def pay_def over_bound_def not_le not_less)
  have cert: "(if QType ev = TypeTXT \<and> protocol_name U (Sub ev) \<and> length (Sub ev) \<le> 45 \<and> entropy_of pay < 1024
      then parentCertified U (p\<lparr>tracker := tr'\<rparr>) (Parent ev) else Ret False)
    = Ret (QType ev = TypeTXT \<and> protocol_name U (Sub ev) \<and> length (Sub ev) \<le> 45 \<and> entropy_of pay < 1024 \<and> allowed_parent U p (Parent ev))"
    unfolding parentCertified_ok[OF assms] by auto
  have c: "cfg (p\<lparr>tracker := tr'\<rparr>) = cfg p" by simp
  have "judge U cv p ev now res = Ret (let res = measured_result res ev trk; p' = p\<lparr>tracker := tr'\<rparr> in
         if exempt U p ev s then ((res\<lparr>Decision := DecisionFastPass\<rparr>, None), p')
         else if suspicious s then escalate p' res (incident_of ev now (entropy_of pay) (kind_of pay) trk s)
         else ((res\<lparr>Decision := DecisionFastPass\<rparr>, None), p'))"
    unfolding judge_def Let_def prof protocol_prefix_ok obind.simps r(1) split entropy_profile.select_convs c sig cert
    by (simp add: measured_result_def pay_def exempt_def)
  then show ?thesis using r unfolding s_def pay_def Let_def by auto
qed


lemma ParseDNSQuery_ok:
  "\<exists>err ev. ParseDNSQuery raw (Some (fresh_event 0 (replicate 16 0))) = Ret (err, Some ev) \<and> (err = None \<longrightarrow> (\<exists>ls. question_event ls ev))"
proof -
  obtain r where r: "query_body raw (fresh_event 0 (replicate 16 0)) False = Ret r" "\<forall>e. r = Inr e \<longrightarrow> (\<exists>ls. question_event ls e)"
    using query_body_safe by blast
  show ?thesis by (cases r) (use r in \<open>auto simp: ParseDNSQuery_def parseDNSQueryWire_def Let_def fresh_event_def[of 0]\<close>)
qed

lemma question_fqdn: "question_event ls ev \<Longrightarrow> FQDN ev \<noteq> []"
  unfolding question_event_def dns_labels_def by (cases ls rule: dotted.cases) auto

text \<open>The three ways out of an accepted question.\<close>

lemma EvaluatePacket_question:
  assumes "pipe_ok p" "\<not> pclosed p" "ParseDNSQuery raw (Some (fresh_event 0 (replicate 16 0))) = Ret (None, Some ev)"
  shows "\<exists>r. reputation_of U p (FQDN ev) r \<and> EvaluatePacket U cv clock p raw now =
     (let res = (if mClassification r \<noteq> 0 then zero_result\<lparr>rMatchedDomain := MatchedDomain r, MatchedCategory := mClassification r\<rparr> else zero_result) in
      if mClassification r = RepClassBlockC2
      then (case logEvent clock p (MatchedDomain r) (ascii ''DROP_REPUTATION_POLICY'') (MatchedDomain r) (FNum False 0) of
              (lerr, p') \<Rightarrow> Ret ((res\<lparr>Decision := DecisionFastDrop\<rparr>, lerr), p'))
      else judge U cv p ev now res)"
proof -
  obtain ls where "question_event ls ev" using ParseDNSQuery_ok[of raw] assms(3) by auto
  then have f: "FQDN ev \<noteq> []" by (rule question_fqdn)
  obtain r where r: "Atomic_Match U (rep p) (FQDN ev) = Ret (r, mClassification r \<noteq> 0)" "reputation_of U p (FQDN ev) r"
    using Atomic_Match_ok[OF assms(1)] by blast
  have "EvaluatePacket U cv clock p raw now =
     (let res = (if mClassification r \<noteq> 0 then zero_result\<lparr>rMatchedDomain := MatchedDomain r, MatchedCategory := mClassification r\<rparr> else zero_result) in
      if mClassification r = RepClassBlockC2
      then (case logEvent clock p (MatchedDomain r) (ascii ''DROP_REPUTATION_POLICY'') (MatchedDomain r) (FNum False 0) of
              (lerr, p') \<Rightarrow> Ret ((res\<lparr>Decision := DecisionFastDrop\<rparr>, lerr), p'))
      else judge U cv p ev now res)"
    using assms(2,3) f r(1) by (simp add: EvaluatePacket_def Let_def del: ascii_Cons)
  then show ?thesis using r(2) by blast
qed


lemma pipe_ok_updates:
  assumes "pipe_ok p"
  shows "\<forall>k. track_ok (slots tr k) \<Longrightarrow> pipe_ok (p\<lparr>tracker := tr\<rparr>)"
    "pipe_ok (p\<lparr>slmRejected := x\<rparr>)"
    "length q \<le> 64 \<Longrightarrow> pipe_ok (p\<lparr>slmQueue := q\<rparr>)"
  using assms by (simp_all add: pipe_ok_def audit_pending_def)

lemma logEvent_pipe_ok:
  assumes "pipe_ok p" "logEvent clock p d a r c = (err, p')"
  shows "pipe_ok p' \<and> tracker p' = tracker p \<and> slmQueue p' = slmQueue p \<and> pclosed p' = pclosed p \<and> workerStarted p' = workerStarted p
    \<and> slmRejected p' = slmRejected p \<and> slmAbandoned p' = slmAbandoned p \<and> auditClosed p' = auditClosed p"
proof -
  obtain new where "length (audit_pending p) \<le> 64 \<longrightarrow> length (audit_pending p') \<le> 64"
    and e: "p' = p\<lparr>auditQueue := auditQueue p', auditRejected := auditRejected p', auditErr := auditErr p'\<rparr>"
    using logEvent_ok[OF assms(2)] by blast
  then have l: "length (audit_pending p') \<le> 64" using assms(1) by (simp add: pipe_ok_def)
  have f: "rep p' = rep p" "tracker p' = tracker p" "slmQueue p' = slmQueue p" "pclosed p' = pclosed p" "workerStarted p' = workerStarted p"
    "slmRejected p' = slmRejected p" "slmAbandoned p' = slmAbandoned p" "auditClosed p' = auditClosed p"
    by (subst e, simp)+
  then show ?thesis using assms(1) l by (simp add: pipe_ok_def)
qed

lemma escalate_ok:
  assumes "pipe_ok p" "escalate p res inc = ((res', err), p')"
  shows "pipe_ok p' \<and> Decision res' = DecisionEscalateSLM \<and> Incident res' = Some inc \<and> tracker p' = tracker p
     \<and> (if length (slmQueue p) < 64
        then err = None \<and> ArbitrationQueued res' \<and> slmQueue p' = slmQueue p @ [inc] \<and> slmRejected p' = slmRejected p
        else err = Some ErrSLMQueueFull \<and> (ArbitrationQueued res' \<longleftrightarrow> ArbitrationQueued res) \<and> slmQueue p' = slmQueue p \<and> slmRejected p' = slmRejected p + 1)"
proof -
  have "pipe_ok (p\<lparr>slmQueue := slmQueue p @ [inc]\<rparr>)" if "length (slmQueue p) < 64" using that by (intro pipe_ok_updates(3)[OF assms(1)]) simp
  then show ?thesis using assms(2) pipe_ok_updates(2)[OF assms(1)] by (auto simp: escalate_def Let_def split: if_splits)
qed

lemma evaluate_question_ok:
  assumes "pipe_ok p" "\<not> pclosed p" "ParseDNSQuery raw (Some (fresh_event 0 (replicate 16 0))) = Ret (None, Some ev)"
  shows "\<exists>r res err p'. reputation_of U p (FQDN ev) r \<and> EvaluatePacket U cv clock p raw now = Ret ((res, err), p') \<and> pipe_ok p'
     \<and> (if mClassification r = RepClassBlockC2
        then Decision res = DecisionFastDrop \<and> rMatchedDomain res = MatchedDomain r \<and> Incident res = None \<and> tracker p' = tracker p \<and> slmQueue p' = slmQueue p
        else \<exists>trk. RecordQuery cv (tracker p) (Parent ev) (Sub ev) now = Ret (trk, tracker p')
          \<and> (let s = judged U (cfg p) ev trk;
                 inc = incident_of ev now (entropy_of (payload_of ev)) (kind_of (payload_of ev)) trk s in
             if suspicious s \<and> \<not> exempt U p ev s
             then Decision res = DecisionEscalateSLM \<and> Incident res = Some inc
               \<and> (if length (slmQueue p) < 64
                  then err = None \<and> ArbitrationQueued res \<and> slmQueue p' = slmQueue p @ [inc] \<and> slmRejected p' = slmRejected p
                  else err = Some ErrSLMQueueFull \<and> \<not> ArbitrationQueued res \<and> slmQueue p' = slmQueue p \<and> slmRejected p' = slmRejected p + 1)
             else Decision res = DecisionFastPass \<and> err = None \<and> Incident res = None \<and> slmQueue p' = slmQueue p))"
proof -
  define res0 where "res0 r = (if mClassification r \<noteq> 0 then zero_result\<lparr>rMatchedDomain := MatchedDomain r, MatchedCategory := mClassification r\<rparr> else zero_result)" for r :: MatchResult
  have z: "ArbitrationQueued (res0 r) = False" "Incident (res0 r) = None" for r :: MatchResult by (simp_all add: res0_def zero_result_def)
  obtain r where r: "reputation_of U p (FQDN ev) r" and E: "EvaluatePacket U cv clock p raw now =
     (if mClassification r = RepClassBlockC2
      then (case logEvent clock p (MatchedDomain r) (ascii ''DROP_REPUTATION_POLICY'') (MatchedDomain r) (FNum False 0) of
              (lerr, p') \<Rightarrow> Ret (((res0 r)\<lparr>Decision := DecisionFastDrop\<rparr>, lerr), p'))
      else judge U cv p ev now (res0 r))"
    using EvaluatePacket_question[OF assms, of U cv clock now] unfolding Let_def res0_def by blast
  show ?thesis
  proof (cases "mClassification r = RepClassBlockC2")
    case True
    obtain lerr p' where l: "logEvent clock p (MatchedDomain r) (ascii ''DROP_REPUTATION_POLICY'') (MatchedDomain r) (FNum False 0) = (lerr, p')" by fastforce
    have "rMatchedDomain (res0 r) = MatchedDomain r" using True by (simp add: res0_def)
    then show ?thesis using r E True l logEvent_pipe_ok[OF assms(1) l] z(2) by (simp del: ascii_Cons) blast
  next
    case False
    obtain trk tr' where t: "RecordQuery cv (tracker p) (Parent ev) (Sub ev) now = Ret (trk, tr')" "\<forall>k. track_ok (slots tr' k)"
      and j: "judge U cv p ev now (res0 r) = Ret (let s = judged U (cfg p) ev trk; res = measured_result (res0 r) ev trk; p' = p\<lparr>tracker := tr'\<rparr> in
         if suspicious s \<and> \<not> exempt U p ev s
         then escalate p' res (incident_of ev now (entropy_of (payload_of ev)) (kind_of (payload_of ev)) trk s)
         else ((res\<lparr>Decision := DecisionFastPass\<rparr>, None), p'))"
      using judge_ok[OF assms(1)] by blast
    define s where "s = judged U (cfg p) ev trk"
    define inc where "inc = incident_of ev now (entropy_of (payload_of ev)) (kind_of (payload_of ev)) trk s"
    define res where "res = measured_result (res0 r) ev trk"
    define p1 where "p1 = p\<lparr>tracker := tr'\<rparr>"
    have p1: "pipe_ok p1" "tracker p1 = tr'" "slmQueue p1 = slmQueue p" "slmRejected p1 = slmRejected p"
      using pipe_ok_updates(1)[OF assms(1) t(2)] by (simp_all add: p1_def)
    have q: "\<not> ArbitrationQueued res" "Incident res = None" by (simp_all add: res_def measured_result_def z)
    show ?thesis
    proof (cases "suspicious s \<and> \<not> exempt U p ev s")
      case True
      obtain res' err p' where e: "escalate p1 res inc = ((res', err), p')" by (metis surj_pair)
      have E': "EvaluatePacket U cv clock p raw now = Ret ((res', err), p')"
        using E j True False e unfolding s_def inc_def res_def p1_def by (simp add: Let_def)
      note f = escalate_ok[OF p1(1) e]
      show ?thesis using r E' False True t(1) f p1(2,3,4) q(1)
        by (intro exI[of _ r] exI[of _ res'] exI[of _ err] exI[of _ p']) (auto simp: s_def[symmetric] inc_def[symmetric] Let_def split: if_splits)
    next
      case pass: False
      have E': "EvaluatePacket U cv clock p raw now = Ret ((res\<lparr>Decision := DecisionFastPass\<rparr>, None), p1)"
        using E j pass False unfolding s_def res_def p1_def by (simp add: Let_def)
      show ?thesis using r E' False pass t(1) p1 q
        by (intro exI[of _ r] exI[of _ "res\<lparr>Decision := DecisionFastPass\<rparr>"] exI[of _ None] exI[of _ p1]) (simp add: s_def[symmetric] Let_def)
    qed
  qed
qed


section \<open>The life cycle\<close>

text \<open>What a step leaves alone, and what it adds to the audit queue.\<close>

definition keeps_life :: "Pipeline \<Rightarrow> Pipeline \<Rightarrow> bool" where
  "keeps_life p p' \<longleftrightarrow> pclosed p' = pclosed p \<and> workerStarted p' = workerStarted p \<and> auditClosed p' = auditClosed p \<and> slmAbandoned p' = slmAbandoned p
     \<and> (\<exists>new. auditQueue p' = map_option (\<lambda>q. q @ new) (auditQueue p))"

lemma keeps_life_refl: "auditQueue p' = auditQueue p \<Longrightarrow> pclosed p' = pclosed p \<Longrightarrow> workerStarted p' = workerStarted p \<Longrightarrow>
    auditClosed p' = auditClosed p \<Longrightarrow> slmAbandoned p' = slmAbandoned p \<Longrightarrow> keeps_life p p'"
  by (cases "auditQueue p") (auto simp: keeps_life_def intro: exI[of _ "[]"])

lemma logEvent_keeps:
  assumes "pipe_ok p" "logEvent clock p d a r c = (err, p')"
  shows "keeps_life p p'"
  using logEvent_pipe_ok[OF assms] logEvent_ok[OF assms(2)] by (auto simp: keeps_life_def)

lemma audit_entered: "keeps_life p p' \<Longrightarrow> audit_pending p' = audit_pending p @ entered_by p p'"
  by (auto simp: keeps_life_def entered_by_def audit_pending_def split: option.splits)

definition queued_by :: "EvaluationResult \<Rightarrow> SLMIncident list" where
  "queued_by res = (case Incident res of Some inc \<Rightarrow> if ArbitrationQueued res then [inc] else [] | None \<Rightarrow> [])"

definition refuses :: "EvaluationResult \<Rightarrow> bool" where
  "refuses res \<longleftrightarrow> Decision res = DecisionEscalateSLM \<and> \<not> ArbitrationQueued res"

definition evaluated :: "Pipeline \<Rightarrow> EvaluationResult \<Rightarrow> Pipeline \<Rightarrow> bool" where
  "evaluated p res p' \<longleftrightarrow> pipe_ok p' \<and> keeps_life p p' \<and> slmQueue p' = slmQueue p @ queued_by res
     \<and> slmRejected p' = slmRejected p + (if refuses res then 1 else 0) \<and> (pclosed p \<longrightarrow> p' = p)"

lemma evaluated_escalate:
  assumes "pipe_ok p" "\<not> pclosed p" "\<forall>k. track_ok (slots tr k)" "\<not> ArbitrationQueued res" "escalate (p\<lparr>tracker := tr\<rparr>) res inc = ((res', err), p')"
  shows "evaluated p res' p'"
proof -
  have "keeps_life p p'" by (rule keeps_life_refl) (use assms(5) in \<open>auto simp: escalate_def Let_def split: if_splits\<close>)
  moreover note escalate_ok[OF pipe_ok_updates(1)[OF assms(1,3)] assms(5)]
  ultimately show ?thesis using assms(2,4) by (auto simp: evaluated_def queued_by_def refuses_def split: if_splits)
qed

lemma evaluated_plain:
  assumes "pipe_ok p'" "keeps_life p p'" "\<not> pclosed p" "slmQueue p' = slmQueue p" "slmRejected p' = slmRejected p"
    and "Incident res = None" "Decision res \<noteq> DecisionEscalateSLM"
  shows "evaluated p res p'"
  using assms by (simp add: evaluated_def queued_by_def refuses_def)

lemma evaluated_same:
  assumes "pipe_ok p" "Incident res = None" "Decision res \<noteq> DecisionEscalateSLM"
  shows "evaluated p res p"
  using assms keeps_life_refl[of p p] by (simp add: evaluated_def queued_by_def refuses_def)

lemma evaluate_total:
  assumes "pipe_ok p"
  shows "\<exists>res err p'. EvaluatePacket U cv clock p raw now = Ret ((res, err), p') \<and> evaluated p res p'"
proof (cases "pclosed p")
  case True
  then show ?thesis using evaluated_same[OF assms, of zero_result] by (simp add: EvaluatePacket_def zero_result_def)
next
  case live: False
  obtain err ev where P: "ParseDNSQuery raw (Some (fresh_event 0 (replicate 16 0))) = Ret (err, Some ev)" using ParseDNSQuery_ok by blast
  show ?thesis
  proof (cases err)
    case (Some e)
    then show ?thesis using evaluated_same[OF assms, of zero_result] P live by (simp add: EvaluatePacket_def zero_result_def)
  next
    case None
    define res0 where "res0 r = (if mClassification r \<noteq> 0 then zero_result\<lparr>rMatchedDomain := MatchedDomain r, MatchedCategory := mClassification r\<rparr> else zero_result)"
      for r :: MatchResult
    obtain r where E0: "EvaluatePacket U cv clock p raw now =
       (if mClassification r = RepClassBlockC2
        then (case logEvent clock p (MatchedDomain r) (ascii ''DROP_REPUTATION_POLICY'') (MatchedDomain r) (FNum False 0) of
                (lerr, p') \<Rightarrow> Ret (((res0 r)\<lparr>Decision := DecisionFastDrop\<rparr>, lerr), p'))
        else judge U cv p ev now (res0 r))"
      using EvaluatePacket_question[OF assms live P[unfolded None], of U cv clock now] unfolding Let_def res0_def by blast
    define res where "res = res0 r"
    note E = E0[folded res_def]
    have z: "\<not> ArbitrationQueued res" "Incident res = None" by (simp_all add: res_def res0_def zero_result_def)
    show ?thesis
    proof (cases "mClassification r = RepClassBlockC2")
      case True
      obtain lerr p' where l: "logEvent clock p (MatchedDomain r) (ascii ''DROP_REPUTATION_POLICY'') (MatchedDomain r) (FNum False 0) = (lerr, p')" by fastforce
      have "evaluated p (res\<lparr>Decision := DecisionFastDrop\<rparr>) p'"
        using evaluated_plain[of p' p "res\<lparr>Decision := DecisionFastDrop\<rparr>"] logEvent_pipe_ok[OF assms l] logEvent_keeps[OF assms l] live z by simp
      then show ?thesis using E True l by (simp del: ascii_Cons)
    next
      case False
      obtain trk tr' where t: "\<forall>k. track_ok (slots tr' k)"
        and j: "judge U cv p ev now res = Ret (let s = judged U (cfg p) ev trk; res = measured_result res ev trk; p' = p\<lparr>tracker := tr'\<rparr> in
           if suspicious s \<and> \<not> exempt U p ev s
           then escalate p' res (incident_of ev now (entropy_of (payload_of ev)) (kind_of (payload_of ev)) trk s)
           else ((res\<lparr>Decision := DecisionFastPass\<rparr>, None), p'))"
        using judge_ok[OF assms] by blast
      define s where "s = judged U (cfg p) ev trk"
      define res1 where "res1 = measured_result res ev trk"
      have q: "\<not> ArbitrationQueued res1" "Incident res1 = None" using z by (simp_all add: res1_def measured_result_def)
      show ?thesis
      proof (cases "suspicious s \<and> \<not> exempt U p ev s")
        case True
        obtain res' err' p' where e: "escalate (p\<lparr>tracker := tr'\<rparr>) res1 (incident_of ev now (entropy_of (payload_of ev)) (kind_of (payload_of ev)) trk s) = ((res', err'), p')"
          by (metis surj_pair)
        then show ?thesis using E j False True evaluated_escalate[OF assms live t q(1) e] by (simp add: Let_def s_def res1_def)
      next
        case pass: False
        have "evaluated p (res1\<lparr>Decision := DecisionFastPass\<rparr>) (p\<lparr>tracker := tr'\<rparr>)"
          using pipe_ok_updates(1)[OF assms t] live q(2) by (intro evaluated_plain keeps_life_refl) simp_all
        moreover have "EvaluatePacket U cv clock p raw now = Ret ((res1\<lparr>Decision := DecisionFastPass\<rparr>, None), p\<lparr>tracker := tr'\<rparr>)"
          using E j pass False unfolding s_def res1_def by (simp add: Let_def)
        ultimately show ?thesis by blast
      qed
    qed
  qed
qed

lemma applyVetoRules_valid: "\<exists>v c reason. applyVetoRules U (Some inc) proposed = Ret (v, c, reason) \<and> validSLMVerdict v"
  unfolding applyVetoRules_ok
  by (cases "measured (EntropyBits inc)"; cases "validSLMVerdict proposed") (simp_all add: validSLMVerdict_def del: ascii_Cons)

lemma worker_turn_total:
  assumes "pipe_ok p"
  shows "\<exists>out p'. worker_turn U clock p answer = Ret (out, p') \<and> pipe_ok p' \<and> keeps_life p p' \<and> slmQueue p' = slmQueue p \<and> slmRejected p' = slmRejected p
    \<and> validSLMVerdict (fst (snd out))"
proof (cases "fst answer")
  case (Inl m)
  define p1 where "p1 = p\<lparr>arbitrationErrors := arbitrationErrors p + 1\<rparr>"
  define inc where "inc = complete_incident (snd answer) (ascii ''INSUFFICIENT_EVIDENCE'')"
  have p1: "pipe_ok p1" "keeps_life p p1" using assms by (auto simp: p1_def pipe_ok_def audit_pending_def intro!: keeps_life_refl)
  obtain lerr p' where l: "logEvent clock p1 (iFQDN inc) (ascii ''INSUFFICIENT_EVIDENCE'') (ascii ''ARBITRATION_UNAVAILABLE: '' @ m) (FNum False 0) = (lerr, p')"
    by fastforce
  have w: "worker_turn U clock p answer = Ret ((inc, ascii ''INSUFFICIENT_EVIDENCE'', FNum False 0, ascii ''ARBITRATION_UNAVAILABLE: '' @ m), p')"
    using Inl l unfolding worker_turn_def inc_def p1_def by (cases answer) (simp add: Let_def del: ascii_Cons)
  have "keeps_life p p'" using p1(2) logEvent_keeps[OF p1(1) l] by (auto simp: keeps_life_def p1_def)
  then show ?thesis using w logEvent_pipe_ok[OF p1(1) l] by (simp add: p1_def validSLMVerdict_def del: ascii_Cons)
next
  case (Inr resp)
  define inc where "inc = snd answer"
  have a: "answer = (Inr resp, inc)" using Inr by (cases answer) (simp add: inc_def)
  define decided where "decided = (if pclosed p then Ret (ascii ''INSUFFICIENT_EVIDENCE'', FNum False 0, ascii ''PIPELINE_CLOSED'') else applyVetoRules U (Some inc) (Verdict resp))"
  have ins: "validSLMVerdict (ascii ''INSUFFICIENT_EVIDENCE'')" by (simp add: validSLMVerdict_def)
  have "\<exists>v c reason. decided = Ret (v, c, reason) \<and> validSLMVerdict v"
    using applyVetoRules_valid[of U inc "Verdict resp"] ins by (cases "pclosed p") (simp_all add: decided_def del: ascii_Cons)
  then obtain v c reason where V: "decided = Ret (v, c, reason)" "validSLMVerdict v" by blast
  obtain inc' where D: "ApplyDeterministicVeto U (pclosed p) (Some inc) (Verdict resp) = Ret ((v, c, reason), Some inc')"
    using V(1) by (cases "pclosed p") (simp_all add: ApplyDeterministicVeto_def decided_def del: ascii_Cons)
  define conf where "conf = (if reason = ascii ''MODEL_PROPOSAL_NOT_PROOF'' \<and> v = Verdict resp then Confidence resp else c)"
  obtain lerr p' where l: "logEvent clock p (iFQDN inc') v reason conf = (lerr, p')" by fastforce
  have "worker_turn U clock p answer = Ret ((inc', v, conf, reason), p')"
    unfolding worker_turn_def a using D l by (simp add: Let_def conf_def del: ascii_Cons)
  then show ?thesis using logEvent_pipe_ok[OF assms l] logEvent_keeps[OF assms l] V(2) by simp
qed


text \<open>The books of the pipeline balance.\<close>

definition books :: "psys \<Rightarrow> bool" where
  "books s \<longleftrightarrow> pipe_ok (pipe s) \<and> accepted s = handled s @ abandoned s @ slmQueue (pipe s) \<and> length (outputs s) = length (handled s)
     \<and> list_all (\<lambda>(inc, v, conf, reason). validSLMVerdict v) (outputs s)
     \<and> slmRejected (pipe s) = word_of_nat (refused s) \<and> slmAbandoned (pipe s) = word_of_nat (length (abandoned s))
     \<and> (abandoned s \<noteq> [] \<longrightarrow> pclosed (pipe s) \<and> \<not> workerStarted (pipe s)) \<and> (auditClosed (pipe s) \<longrightarrow> pclosed (pipe s) \<and> slmQueue (pipe s) = [])
     \<and> entered s = written s @ audit_pending (pipe s)"

lemma books_evaluate:
  assumes "books s" "EvaluatePacket U cv clock (pipe s) raw now = Ret ((res, err), p')"
  shows "books (s\<lparr>pipe := p', accepted := accepted s @ queued_by res, refused := (if refuses res then Suc (refused s) else refused s),
       entered := entered s @ entered_by (pipe s) p'\<rparr>)"
proof -
  have ok: "pipe_ok (pipe s)" using assms(1) by (simp add: books_def)
  obtain res1 err1 p1 where "EvaluatePacket U cv clock (pipe s) raw now = Ret ((res1, err1), p1)" "evaluated (pipe s) res1 p1"
    using evaluate_total[OF ok] by blast
  then have e: "evaluated (pipe s) res p'" using assms(2) by simp
  then have k: "keeps_life (pipe s) p'" by (simp add: evaluated_def)
  have q: "queued_by res = [] \<and> \<not> refuses res" if "pclosed (pipe s)" using that assms(2) by (auto simp: EvaluatePacket_def zero_result_def queued_by_def refuses_def)
  show ?thesis using assms(1) e audit_entered[OF k] k q unfolding books_def evaluated_def keeps_life_def by (auto simp: add.commute)
qed

lemma books_work:
  assumes "books s" "workerStarted (pipe s)" "slmQueue (pipe s) = inc # q" "worker_turn U clock ((pipe s)\<lparr>slmQueue := q\<rparr>) answer = Ret (out, p')"
  shows "books (s\<lparr>pipe := p', handled := handled s @ [inc], outputs := outputs s @ [out], entered := entered s @ entered_by (pipe s) p'\<rparr>)"
proof -
  have ok: "pipe_ok (pipe s)" "length q \<le> 64" using assms(1,3) by (simp_all add: books_def pipe_ok_def)
  define p0 where "p0 = (pipe s)\<lparr>slmQueue := q\<rparr>"
  have p0: "pipe_ok p0" using pipe_ok_updates(3)[OF ok] by (simp add: p0_def)
  have w: "pipe_ok p'" "keeps_life p0 p'" "slmQueue p' = q" "slmRejected p' = slmRejected (pipe s)" "validSLMVerdict (fst (snd out))"
    using worker_turn_total[OF p0, of U clock answer] assms(4) by (auto simp: p0_def)
  have k: "keeps_life (pipe s) p'" using w(2) by (simp add: keeps_life_def p0_def)
  have "abandoned s = []" "\<not> auditClosed (pipe s)" using assms(1,2,3) by (auto simp: books_def)
  then show ?thesis using assms(1,3) w k audit_entered[OF k] unfolding books_def keeps_life_def by (cases out) auto
qed

lemma books_step: "pipe_step U cv s s' \<Longrightarrow> books s \<Longrightarrow> books s'"
proof (induction rule: pipe_step.induct)
  case (evaluate clock s raw now res err p')
  then show ?case using books_evaluate[OF evaluate(2,1)] unfolding queued_by_def refuses_def by simp
next
  case (start s arb)
  then show ?case by (auto simp: books_def StartArbitratorWorker_def pipe_ok_def audit_pending_def)
next
  case (work s inc q clock ctx arb ctx' out p')
  then show ?case by (intro books_work)
next
  case (audit s r q ok)
  then show ?case by (auto simp: books_def pipe_ok_def audit_pending_def)
next
  case (close_begin s)
  then show ?case by (auto simp: books_def pipe_ok_def audit_pending_def)
next
  case (close_abandon s inc q)
  then show ?case by (auto simp: books_def pipe_ok_def audit_pending_def)
next
  case (close_audit s)
  then show ?case by (auto simp: books_def pipe_ok_def audit_pending_def)
qed

lemma books_steps:
  assumes "(pipe_step U cv)\<^sup>*\<^sup>* s s'" "books s"
  shows "books s'"
  using assms by (induction rule: rtranclp_induct) (auto intro: books_step)

text \<open>From every state in which closing has begun, the drain can be completed.\<close>

lemma drain_incidents:
  "books s \<Longrightarrow> pclosed (pipe s) \<Longrightarrow> \<exists>s'. (pipe_step U cv)\<^sup>*\<^sup>* s s' \<and> pclosed (pipe s') \<and> slmQueue (pipe s') = []"
proof (induction "slmQueue (pipe s)" arbitrary: s)
  case Nil
  then show ?case by (metis rtranclp.rtrancl_refl)
next
  case (Cons inc q)
  have "\<exists>s1. pipe_step U cv s s1 \<and> slmQueue (pipe s1) = q \<and> pclosed (pipe s1)"
  proof (cases "workerStarted (pipe s)")
    case True
    have "pipe_ok ((pipe s)\<lparr>slmQueue := q\<rparr>)" using Cons.prems(1) Cons.hyps(2)[symmetric] by (simp add: books_def pipe_ok_def audit_pending_def)
    from worker_turn_total[OF this] obtain out p' where
      w: "worker_turn U 0 ((pipe s)\<lparr>slmQueue := q\<rparr>) (arbitrate (Some []) undefined None inc) = Ret (out, p')"
        "keeps_life ((pipe s)\<lparr>slmQueue := q\<rparr>) p'" "slmQueue p' = q" by fastforce
    show ?thesis using pipe_step.work[OF True Cons.hyps(2)[symmetric] w(1)] w(2,3) Cons.prems(2) by (fastforce simp: keeps_life_def)
  next
    case False
    show ?thesis using pipe_step.close_abandon[OF Cons.prems(2) False Cons.hyps(2)[symmetric], of U cv] Cons.prems(2) by fastforce
  qed
  then obtain s1 where s1: "pipe_step U cv s s1" "slmQueue (pipe s1) = q" "pclosed (pipe s1)" by blast
  then obtain s' where "(pipe_step U cv)\<^sup>*\<^sup>* s1 s'" "pclosed (pipe s')" "slmQueue (pipe s') = []"
    using Cons.hyps(1)[of s1] books_step[OF s1(1) Cons.prems(1)] by blast
  then show ?case using s1(1) by (meson converse_rtranclp_into_rtranclp)
qed

lemma drain_audit:
  "auditClosed (pipe s) \<Longrightarrow> slmQueue (pipe s) = [] \<Longrightarrow>
     \<exists>s'. (pipe_step U cv)\<^sup>*\<^sup>* s s' \<and> auditClosed (pipe s') \<and> slmQueue (pipe s') = [] \<and> audit_pending (pipe s') = []"
proof (induction "audit_pending (pipe s)" arbitrary: s)
  case Nil
  then show ?case by (metis rtranclp.rtrancl_refl)
next
  case (Cons r q)
  then have a: "auditQueue (pipe s) = Some (r # q)" by (simp add: audit_pending_def split: option.splits)
  define s1 where "s1 = s\<lparr>pipe := (pipe s)\<lparr>auditQueue := Some q\<rparr>, written := written s @ [r]\<rparr>"
  have st: "pipe_step U cv s s1" using pipe_step.audit[OF a, of U cv True] by (simp add: s1_def)
  obtain s' where "(pipe_step U cv)\<^sup>*\<^sup>* s1 s'" "auditClosed (pipe s')" "slmQueue (pipe s') = []" "audit_pending (pipe s') = []"
    using Cons.hyps(1)[of s1] Cons.prems by (auto simp: s1_def audit_pending_def)
  then show ?case using st by (meson converse_rtranclp_into_rtranclp)
qed

lemma close_completes_ok:
  assumes "books s" "pclosed (pipe s)"
  shows "\<exists>s'. (pipe_step U cv)\<^sup>*\<^sup>* s s' \<and> auditClosed (pipe s') \<and> slmQueue (pipe s') = [] \<and> audit_pending (pipe s') = []"
proof -
  obtain s1 where s1: "(pipe_step U cv)\<^sup>*\<^sup>* s s1" "pclosed (pipe s1)" "slmQueue (pipe s1) = []" using drain_incidents[OF assms] by blast
  define s2 where "s2 = s1\<lparr>pipe := (pipe s1)\<lparr>auditClosed := True\<rparr>\<rparr>"
  have s2: "pipe_step U cv s1 s2" "auditClosed (pipe s2)" "slmQueue (pipe s2) = []"
    using pipe_step.close_audit[OF s1(2,3)] s1(3) by (simp_all add: s2_def)
  obtain s3 where "(pipe_step U cv)\<^sup>*\<^sup>* s2 s3" "auditClosed (pipe s3)" "slmQueue (pipe s3) = []" "audit_pending (pipe s3) = []"
    using drain_audit[OF s2(2,3)] by blast
  then show ?thesis using s1(1) s2(1) by (meson rtranclp.rtrancl_into_rtrancl rtranclp_trans)
qed

section \<open>The default table\<close>

lemma default_entries_ok: "list_all build_ok DefaultBuildEntries" "sum_list (map (\<lambda>e. length (Domain e)) DefaultBuildEntries) \<le> 1000" "length DefaultBuildEntries = 37"
  by code_simp+

lemma default_clean:
  assumes "e \<in> set DefaultBuildEntries"
  shows "Domain (clean_entry U e) = Domain e" "Classification (clean_entry U e) = Classification e" "acceptable U e"
proof -
  have b: "build_ok e" using assms default_entries_ok(1) by (simp add: list_all_iff)
  then have v: "validReputationDomain (Domain e)" by (simp add: build_ok_def)
  note pl = valid_plain[OF v]
  show "Domain (clean_entry U e) = Domain e" "Classification (clean_entry U e) = Classification e" by (simp_all add: clean_entry_def Let_def pl)
  show "acceptable U e" using b by (simp add: acceptable_def build_ok_def pl)
qed

lemma default_admissible: "admissible U DefaultBuildEntries"
proof -
  have "sum_list (map (\<lambda>e. length (Domain (clean_entry U e))) DefaultBuildEntries) = sum_list (map (\<lambda>e. length (Domain e)) DefaultBuildEntries)"
    by (rule arg_cong[where f = sum_list], rule map_cong) (simp_all add: default_clean)
  then show ?thesis using default_entries_ok(2,3) default_clean(3) unfolding admissible_def list_all_iff by simp
qed

lemma default_table:
  "\<exists>t. GetDefaultReputationTable U = Ret (Inr t) \<and> table_ok t
     \<and> (\<forall>e \<in> set DefaultBuildEntries. \<exists>e' \<in> set (table_list t). Domain e' = Domain e \<and> MatchKind e' = MatchKind (clean_entry U e)
          \<and> reputationRank (Classification e) \<le> reputationRank (Classification e'))"
proof -
  obtain t where t: "ReloadFromEntries U (NewAtomicReputation None) DefaultBuildEntries = Ret (rep_Store (NewAtomicReputation None) (Some t), None)" "table_ok t"
    and up: "\<forall>e \<in> set DefaultBuildEntries. \<exists>e' \<in> set (table_list t). Domain e' = Domain (clean_entry U e) \<and> MatchKind e' = MatchKind (clean_entry U e)
          \<and> reputationRank (Classification (clean_entry U e)) \<le> reputationRank (Classification e')"
    using reload_ok[OF default_admissible, of U "NewAtomicReputation None"] by blast
  have "GetDefaultReputationTable U = Ret (Inr t)"
    using t(1) by (auto simp: ReloadFromEntries_def GetDefaultReputationTable_def rep_Store_def NewAtomicReputation_def NewReputationTable_eq split: sum.splits if_splits)
  then show ?thesis using t(2) up by (auto simp: default_clean)
qed

lemma books_start:
  assumes "NewPipeline U can_open c tbl = Ret (Inr p)" "\<And>t. tbl = Some t \<Longrightarrow> table_ok t"
  shows "books (start_sys p)"
proof -
  obtain t where t: "table_ok t" "rep p = NewAtomicReputation (Some t)" and p: "tracker p = NewTemporalTracker" "slmQueue p = []" "\<not> pclosed p" "\<not> auditClosed p"
    "audit_pending p = []" "slmRejected p = 0" "slmAbandoned p = 0"
  proof -
    obtain d where d: "GetDefaultReputationTable U = Ret (Inr d)" "table_ok d" using default_table by blast
    show thesis
      using assms that d by (cases tbl) (auto simp: NewPipeline_def Let_def audit_pending_def split: if_splits)
  qed
  then show ?thesis using tracker_zero_ok by (simp add: books_def start_sys_def pipe_ok_def NewAtomicReputation_def)
qed


section \<open>Properties\<close>


text \<open>The default table always compiles.  With it, every question for a blocked domain of the seeds
  or one of its sub-domains is dropped, whatever its type, time and history, provided the name is
  one the reputation table accepts as a domain.
\<close>

lemma pipeline_default_blocks:
  "\<exists>t. GetDefaultReputationTable U = Ret (Inr t) \<and> table_ok t
     \<and> (\<forall>p raw ev d cv clock now. pipe_ok p \<and> rep_ptr (rep p) = Some t \<and> \<not> pclosed p
          \<and> ParseDNSQuery raw (Some (fresh_event 0 (replicate 16 0))) = Ret (None, Some ev)
          \<and> d \<in> set block_subtrees \<and> (FQDN ev = ascii d \<or> suffix (0x2E # ascii d) (FQDN ev)) \<and> validReputationDomain (FQDN ev)
        \<longrightarrow> (\<exists>res err p'. EvaluatePacket U cv clock p raw now = Ret ((res, err), p') \<and> Decision res = DecisionFastDrop \<and> tracker p' = tracker p))"
proof -
  obtain t where t: "GetDefaultReputationTable U = Ret (Inr t)" "table_ok t"
    and up: "\<forall>e \<in> set DefaultBuildEntries. \<exists>e' \<in> set (table_list t). Domain e' = Domain e \<and> MatchKind e' = MatchKind (clean_entry U e)
          \<and> reputationRank (Classification e) \<le> reputationRank (Classification e')"
    using default_table by blast
  have "\<exists>res err p'. EvaluatePacket U cv clock p raw now = Ret ((res, err), p') \<and> Decision res = DecisionFastDrop \<and> tracker p' = tracker p"
    if p: "pipe_ok p" "rep_ptr (rep p) = Some t" "\<not> pclosed p" and P: "ParseDNSQuery raw (Some (fresh_event 0 (replicate 16 0))) = Ret (None, Some ev)"
      and d: "d \<in> set block_subtrees" "FQDN ev = ascii d \<or> suffix (0x2E # ascii d) (FQDN ev)" and v: "validReputationDomain (FQDN ev)"
    for p raw ev d cv clock now
  proof -
    define e where "e = \<lparr>Domain = ascii d, Classification = RepClassBlockC2, MatchKind = MatchSubtree\<rparr>"
    have e: "e \<in> set DefaultBuildEntries" using d(1) by (auto simp: e_def DefaultBuildEntries_def)
    then obtain e' where e': "e' \<in> set (table_list t)" "Domain e' = ascii d" "MatchKind e' = MatchSubtree" "10 \<le> reputationRank (Classification e')"
      using up[rule_format, OF e] by (auto simp: e_def clean_entry_def Let_def reputationRank_def)
    have c: "cleanDomain U (FQDN ev) = FQDN ev"
      using valid_plain(2)[OF v, of U] valid_plain(4)[OF v] v by (simp add: cleanDomain_def validReputationDomain_def)
    obtain r res err p' where r: "reputation_of U p (FQDN ev) r" "EvaluatePacket U cv clock p raw now = Ret ((res, err), p')"
      and dr: "mClassification r = RepClassBlockC2 \<longrightarrow> Decision res = DecisionFastDrop \<and> tracker p' = tracker p"
      using evaluate_question_ok[OF p(1,3) P, of U cv clock now] by (auto split: if_splits)
    have "mClassification r = RepClassBlockC2"
      by (rule block_is_best[OF t(2) e'(1,4), of "FQDN ev"]) (use d(2) e'(2,3) r(1) p(2) v c in \<open>auto simp: boundary_def reputation_of_def\<close>)
    then show ?thesis using r(2) dr by blast
  qed
  then show ?thesis using t by blast
qed

text \<open>
  C21.  Over the whole life of a pipeline, in every interleaving of evaluations, arbitration, audit
  writing and closing: the incidents accepted for arbitration are, in order, the ones handled by the
  worker, the ones counted as abandoned, and the ones still waiting, of which there are at most 64;
  every handled incident got one verdict of the vocabulary; refusals are counted; incidents are
  abandoned only by closing without a worker; once the audit is closed nothing waits; and the audit
  records entered are, in order, those taken by the writer and those still waiting.
\<close>
theorem pipeline_accounting:
  assumes "NewPipeline U can_open c tbl = Ret (Inr p)" "tbl \<noteq> None \<longrightarrow> NewReputationTable U raw = Ret (Inr (the tbl))"
    and "(pipe_step U cv)\<^sup>*\<^sup>* (start_sys p) s"
  shows "accepted s = handled s @ abandoned s @ slmQueue (pipe s) \<and> length (slmQueue (pipe s)) \<le> 64
     \<and> length (outputs s) = length (handled s) \<and> list_all (\<lambda>(inc, v, conf, reason). validSLMVerdict v) (outputs s)
     \<and> slmRejected (pipe s) = word_of_nat (refused s) \<and> slmAbandoned (pipe s) = word_of_nat (length (abandoned s))
     \<and> (abandoned s \<noteq> [] \<longrightarrow> pclosed (pipe s) \<and> \<not> workerStarted (pipe s))
     \<and> (auditClosed (pipe s) \<longrightarrow> accepted s = handled s @ abandoned s)
     \<and> entered s = written s @ audit_pending (pipe s) \<and> length (audit_pending (pipe s)) \<le> 64"
proof -
  have "table_ok t" if "tbl = Some t" for t using assms(2) that by (auto simp: NewReputationTable_eq split: if_splits)
  then have "books s" using books_steps[OF assms(3)] books_start[OF assms(1)] by blast
  then show ?thesis by (auto simp: books_def pipe_ok_def)
qed



section \<open>Examples\<close>

lemma empty_table: "\<exists>raw t. NewReputationTable U raw = Ret (Inr t) \<and> table_ok t \<and> table_list t = []"
proof -
  have "admissible U []" by (simp add: admissible_def)
  from reload_ok[OF this, of "NewAtomicReputation None"] obtain t where
    t: "ReloadFromEntries U (NewAtomicReputation None) [] = Ret (rep_Store (NewAtomicReputation None) (Some t), None)" "table_ok t" "table_list t = []"
    by auto
  then obtain raw where "NewReputationTable U raw = Ret (Inr t)"
    by (auto simp: ReloadFromEntries_def rep_Store_def NewAtomicReputation_def NewReputationTable_eq split: sum.splits if_splits)
  then show ?thesis using t(2,3) by blast
qed

definition deep_query :: bytes where
  "deep_query = wire_query 1 0x100 (map ascii [''a'', ''b'', ''c'', ''d'', ''ex'', ''org'']) 1"

definition blocked_query :: bytes where
  "blocked_query = wire_query 1 0x100 (map ascii [''x'', ''dnscat2'', ''net'']) 1"

definition hyphen_query :: bytes where
  "hyphen_query = wire_query 1 0x100 (map ascii [''-a'', ''dnscat2'', ''net'']) 1"

lemma deep_query_parsed:
  "\<exists>ev. ParseDNSQuery deep_query (Some (fresh_event 0 (replicate 16 0))) = Ret (None, Some ev) \<and> LabelCount ev = 6"
proof -
  have "case ParseDNSQuery deep_query (Some (fresh_event 0 (replicate 16 0))) of Ret (None, Some ev) \<Rightarrow> LabelCount ev = 6 | _ \<Rightarrow> False" by code_simp
  then show ?thesis by (auto split: outcome.splits option.splits prod.splits)
qed

lemma name_query_parsed:
  "\<exists>ev. ParseDNSQuery blocked_query (Some (fresh_event 0 (replicate 16 0))) = Ret (None, Some ev) \<and> FQDN ev = ascii ''x.dnscat2.net''"
  "\<exists>ev. ParseDNSQuery hyphen_query (Some (fresh_event 0 (replicate 16 0))) = Ret (None, Some ev) \<and> FQDN ev = ascii ''-a.dnscat2.net''"
proof -
  have "case ParseDNSQuery blocked_query (Some (fresh_event 0 (replicate 16 0))) of Ret (None, Some ev) \<Rightarrow> FQDN ev = ascii ''x.dnscat2.net'' | _ \<Rightarrow> False"
    by code_simp
  then show "\<exists>ev. ParseDNSQuery blocked_query (Some (fresh_event 0 (replicate 16 0))) = Ret (None, Some ev) \<and> FQDN ev = ascii ''x.dnscat2.net''"
    by (auto split: outcome.splits option.splits prod.splits)
  have "case ParseDNSQuery hyphen_query (Some (fresh_event 0 (replicate 16 0))) of Ret (None, Some ev) \<Rightarrow> FQDN ev = ascii ''-a.dnscat2.net'' | _ \<Rightarrow> False"
    by code_simp
  then show "\<exists>ev. ParseDNSQuery hyphen_query (Some (fresh_event 0 (replicate 16 0))) = Ret (None, Some ev) \<and> FQDN ev = ascii ''-a.dnscat2.net''"
    by (auto split: outcome.splits option.splits prod.splits)
qed

definition plain_config :: PipelineConfig where
  "plain_config = \<lparr>LogPath = [], EntropyThresholdQ8 = 0, BeaconJitterMax = 0, UniqueSubThreshold = 0\<rparr>"

lemma new_plain:
  assumes "table_ok t"
  shows "\<exists>p. NewPipeline U can_open plain_config (Some t) = Ret (Inr p) \<and> rep_ptr (rep p) = Some t \<and> \<not> pclosed p \<and> slmQueue p = [] \<and> pipe_ok p"
proof -
  obtain p where p: "NewPipeline U can_open plain_config (Some t) = Ret (Inr p)" "rep_ptr (rep p) = Some t" "\<not> pclosed p" "slmQueue p = []"
    by (simp add: NewPipeline_def plain_config_def effective_config_def Let_def NewAtomicReputation_def)
  moreover have "pipe_ok p" using books_start[OF p(1)] assms by (simp add: books_def start_sys_def)
  ultimately show ?thesis by blast
qed


lemma life_example:
  "\<exists>raw t p s. NewReputationTable ascii_only raw = Ret (Inr t) \<and> NewPipeline ascii_only (\<lambda>_. True) plain_config (Some t) = Ret (Inr p)
     \<and> (pipe_step ascii_only (\<lambda>_. 50))\<^sup>*\<^sup>* (start_sys p) s \<and> pclosed (pipe s) \<and> length (accepted s) = 1 \<and> handled s = [] \<and> abandoned s = []"
proof -
  obtain raw t where t: "NewReputationTable ascii_only raw = Ret (Inr t)" "table_ok t" "table_list t = []" using empty_table by blast
  obtain p where p: "NewPipeline ascii_only (\<lambda>_. True) plain_config (Some t) = Ret (Inr p)" "rep_ptr (rep p) = Some t" "\<not> pclosed p" "slmQueue p = []" "pipe_ok p"
    using new_plain[OF t(2)] by blast
  obtain ev where ev: "ParseDNSQuery deep_query (Some (fresh_event 0 (replicate 16 0))) = Ret (None, Some ev)" "LabelCount ev = 6"
    using deep_query_parsed by blast
  have r: "mClassification r \<noteq> RepClassBlockC2" if "reputation_of ascii_only p (FQDN ev) r" for r
    using that p(2) t(3) by (simp add: reputation_of_def best_def no_match_def)
  have "isDeepMultilabel (judged U c ev trk)" for U c trk using ev(2) by (simp add: judged_def signals_of_def split: prod.splits)
  then have "suspicious (judged U c ev trk)" "\<not> exempt U p ev (judged U c ev trk)" for U c trk by (simp_all add: suspicious_def exempt_def)
  then obtain res err p' inc where e: "EvaluatePacket ascii_only (\<lambda>_. 50) 0 (pipe (start_sys p)) deep_query 7 = Ret ((res, err), p')"
    "Incident res = Some inc" "ArbitrationQueued res"
    using evaluate_question_ok[OF p(5,3) ev(1), of ascii_only "\<lambda>_. 50" 0 7] p(4) r by (auto simp: Let_def start_sys_def)
  note s1 = pipe_step.evaluate[OF e(1)]
  obtain s where s: "pipe_step ascii_only (\<lambda>_. 50) (start_sys p) s" "accepted s = [inc]" "handled s = []" "abandoned s = []"
    using s1 e(2,3) by (auto simp: start_sys_def)
  have "\<exists>s'. (pipe_step ascii_only (\<lambda>_. 50))\<^sup>*\<^sup>* (start_sys p) s' \<and> pclosed (pipe s') \<and> length (accepted s') = 1 \<and> handled s' = [] \<and> abandoned s' = []"
  proof (cases "pclosed (pipe s)")
    case True
    then show ?thesis using s by (intro exI[of _ s]) auto
  next
    case False
    have "(pipe_step ascii_only (\<lambda>_. 50))\<^sup>*\<^sup>* (start_sys p) (s\<lparr>pipe := (pipe s)\<lparr>pclosed := True\<rparr>\<rparr>)"
      using s(1) pipe_step.close_begin[OF False] by (meson rtranclp.rtrancl_into_rtrancl r_into_rtranclp)
    then show ?thesis using s by (intro exI[of _ "s\<lparr>pipe := (pipe s)\<lparr>pclosed := True\<rparr>\<rparr>"]) simp
  qed
  then show ?thesis using t(1) p(1) by blast
qed

theorem pipeline_accounting_witness:
  "\<exists>p s. (pipe_step ascii_only (\<lambda>_. 50))\<^sup>*\<^sup>* (start_sys p) s \<and> accepted s = slmQueue (pipe s) \<and> length (accepted s) = 1"
proof -
  obtain raw t p s where l: "NewReputationTable ascii_only raw = Ret (Inr t)" "NewPipeline ascii_only (\<lambda>_. True) plain_config (Some t) = Ret (Inr p)"
    "(pipe_step ascii_only (\<lambda>_. 50))\<^sup>*\<^sup>* (start_sys p) s" "length (accepted s) = 1" "handled s = []" "abandoned s = []"
    using life_example by blast
  have "Some t \<noteq> None \<longrightarrow> NewReputationTable ascii_only raw = Ret (Inr (the (Some t)))" using l(1) by simp
  then have "accepted s = slmQueue (pipe s)" using pipeline_accounting[OF l(2) _ l(3), of raw] l(5,6) by simp
  then show ?thesis using l by blast
qed


text \<open>
  A name with a label that starts with a hyphen is decoded but is not a domain for the reputation
  table, so the entry that blocks the whole subtree does not drop it.
\<close>

lemma hyphen_evades_block:
  assumes "pipe_ok p" "\<not> pclosed p" "EvaluatePacket U cv clock p hyphen_query now = Ret ((res, err), p')"
  shows "Decision res \<noteq> DecisionFastDrop"
proof -
  obtain ev where ev: "ParseDNSQuery hyphen_query (Some (fresh_event 0 (replicate 16 0))) = Ret (None, Some ev)" "FQDN ev = ascii ''-a.dnscat2.net''"
    using name_query_parsed(2) by blast
  have "cleanDomain U (FQDN ev) = FQDN ev" unfolding ev(2) by (simp add: cleanDomain_def is_upper_def TrimSuffix_dot_def)
  moreover have "\<not> validReputationDomain (FQDN ev)" unfolding ev(2) by code_simp
  ultimately have "mClassification r \<noteq> RepClassBlockC2" if "reputation_of U p (FQDN ev) r" for r
    using that by (auto simp: reputation_of_def best_def no_match_def split: option.splits)
  then show ?thesis using evaluate_question_ok[OF assms(1,2) ev(1), of U cv clock now] assms(3) by (auto simp: Let_def split: if_splits)
qed

end
