(* ===== verification/Grammar.thy ===== *)
theory Grammar
  imports Entropy Events
begin

text \<open>
  The catalogue of tool grammars of \<open>grammar.go\<close> with its facade in \<open>c2blue55.go\<close>: a sample of a
  tool's arguments is kept as a histogram scaled to 256, and later arguments are refused when they
  use a character class outside the tool's mask or when the integer Jensen-Shannon divergence of
  their histogram is above the tool's threshold.
\<close>

section \<open>Catalogue\<close>

record grammar_profile =
  Tool_name :: bytes
  Q_dist :: bytes
  Char_mask_allowed :: u32
  Threshold_djs_q8 :: u16
  Sample_count :: u16
  gFlags :: u32

record grammar_table =
  Tools :: "grammar_profile list"
  ToolCount :: u32

definition zero_profile_slot :: grammar_profile where
  "zero_profile_slot = \<lparr>Tool_name = replicate 32 0, Q_dist = replicate 256 0, Char_mask_allowed = 0, Threshold_djs_q8 = 0, Sample_count = 0, gFlags = 0\<rparr>"

definition C2bt_grammar_init :: "grammar_table option \<Rightarrow> grammar_table option" where
  "C2bt_grammar_init tbl = (case tbl of None \<Rightarrow> None | Some _ \<Rightarrow> Some \<lparr>Tools = replicate 32 zero_profile_slot, ToolCount = 0\<rparr>)"

text \<open>The comparison loop over the octets of the name.\<close>

fun same_octets :: "bytes \<Rightarrow> bytes \<Rightarrow> bool" where
  "same_octets stored [] = True"
| "same_octets (s # stored) (b # name) = (if s \<noteq> b then False else same_octets stored name)"
| "same_octets [] (b # name) = False"

fun find_tool_loop :: "grammar_profile list \<Rightarrow> bytes \<Rightarrow> nat list \<Rightarrow> nat option outcome" where
  "find_tool_loop tools name [] = Ret None"
| "find_tool_loop tools name (i # ix) = obind (get_at tools i) (\<lambda>t.
     if same_octets (Tool_name t) name \<and> Tool_name t ! length name = 0 then Ret (Some i) else find_tool_loop tools name ix)"

definition grammarFindTool :: "grammar_table \<Rightarrow> bytes \<Rightarrow> nat option outcome" where
  "grammarFindTool tbl name =
     (if name = [] \<or> 32 \<le> length name then Ret None else find_tool_loop (Tools tbl) name [0..<unat (ToolCount tbl)])"

section \<open>Histograms\<close>

text \<open>One turn of the scaling loop: the scaled counts, their sum, the highest count and its octet.\<close>

definition scale_step :: "u32 list \<Rightarrow> u64 \<Rightarrow> u32 list \<times> u32 \<times> u32 \<times> nat \<Rightarrow> nat \<Rightarrow> u32 list \<times> u32 \<times> u32 \<times> nat" where
  "scale_step freq n st i = (case st of (raw, sumv, maxF, maxI) \<Rightarrow>
     let v = min (ucast (ucast (freq ! i) * 256 div n)) 255 in
     (raw[i := v], sumv + v, if maxF < freq ! i then freq ! i else maxF, if maxF < freq ! i then i else maxI))"

fun place_rest :: "u32 list \<Rightarrow> u32 \<Rightarrow> nat list \<Rightarrow> u32 list" where
  "place_rest raw rem [] = raw"
| "place_rest raw rem (i # ix) =
     (if rem = 0 then raw else if raw ! i < 255 then place_rest (raw[i := raw ! i + 1]) (rem - 1) ix else place_rest raw rem ix)"

definition fill_up :: "u32 list \<Rightarrow> u32 \<Rightarrow> nat \<Rightarrow> u32 list" where
  "fill_up raw sumv maxI =
     (if sumv < 256 then let rem = 256 - sumv; room = 255 - raw ! maxI; add = min rem room in
        place_rest (raw[maxI := raw ! maxI + add]) (rem - add) [0..<256]
      else raw)"

text \<open>The output array has 256 octets, so only an empty sample is refused.\<close>

definition histNormalize256 :: "bytes \<Rightarrow> bytes option outcome" where
  "histNormalize256 sample = (if sample = [] then Ret None
     else let n = length sample in
       obind (count_by_eight sample n 0 (replicate 256 0)) (\<lambda>(off, freq).
       obind (count_rest sample n off freq) (\<lambda>freq.
       case foldl (scale_step freq (word_of_nat n)) (replicate 256 0, 0, 0, 0) [0..<256] of (raw, sumv, maxF, maxI) \<Rightarrow>
         Ret (Some (map ucast (fill_up raw sumv maxI))))))"

section \<open>Divergence\<close>

text \<open>
  The logarithms are below 4096, so the 32-bit difference and the 64-bit sum are exact integers.  The
  distributions are arrays of the callers, never nil.
\<close>

definition log2SymQ8 :: "u32 \<Rightarrow> u32" where
  "log2SymQ8 c = (if c \<le> 1 then 0 else if c \<le> 256 then c_log2_c_table ! unat c div c else Arch_log2_q8_8 (ucast c))"

definition klTermDiffQ8 :: "u32 \<Rightarrow> u32 \<Rightarrow> int" where
  "klTermDiffQ8 pi mi = int (unat (log2SymQ8 pi)) - int (unat (log2SymQ8 mi)) + 256"

definition klPmQ8 :: "bytes \<Rightarrow> bytes \<Rightarrow> u32" where
  "klPmQ8 p q = (let acc = foldl (\<lambda>acc i. let pi = ucast (p ! i) :: u32; mi = ucast (p ! i) + ucast (q ! i) in
       if pi = 0 then acc else if mi = 0 then acc else acc + int (unat pi) * klTermDiffQ8 pi mi) 0 [0..<256] in
     if acc < 0 then 0 else word_of_int (acc div 256))"

definition C2bt_calc_djs_q8 :: "bytes \<Rightarrow> bytes \<Rightarrow> u32" where
  "C2bt_calc_djs_q8 p q = (klPmQ8 p q + klPmQ8 q p) div 2"

section \<open>Registration and evaluation\<close>

definition valid_tool :: "bytes \<Rightarrow> bool" where
  "valid_tool name \<longleftrightarrow> name \<noteq> [] \<and> length name < 32 \<and> 0 \<notin> set name"

text \<open>The slot of a known tool, or the next free one, cleared.\<close>

definition reserve_slot :: "grammar_table \<Rightarrow> nat option \<Rightarrow> (nat \<times> grammar_table) option" where
  "reserve_slot tbl idx = (case idx of
     Some i \<Rightarrow> Some (i, tbl)
   | None \<Rightarrow> if 32 \<le> ToolCount tbl then None
       else let i = unat (ToolCount tbl) in Some (i, tbl\<lparr>ToolCount := ToolCount tbl + 1, Tools := (Tools tbl)[i := zero_profile_slot]\<rparr>))"

definition C2bt_grammar_register_tool :: "grammar_table option \<Rightarrow> bytes \<Rightarrow> bytes \<Rightarrow> u32 \<Rightarrow> u16 \<Rightarrow> (int \<times> grammar_table option) outcome" where
  "C2bt_grammar_register_tool tbl name sample charMask thresholdQ8 = (case tbl of
     None \<Rightarrow> Ret (-1, None)
   | Some t \<Rightarrow>
     if \<not> valid_tool name \<or> sample = [] then Ret (-1, Some t)
     else obind (grammarFindTool t name) (\<lambda>idx. case reserve_slot t idx of
       None \<Rightarrow> Ret (-2, Some t)
     | Some (i, t) \<Rightarrow>
       obind (get_at (Tools t) i) (\<lambda>slot.
       let slot = slot\<lparr>Tool_name := name @ drop (length name) (replicate 32 0)\<rparr> in
       obind (histNormalize256 sample) (\<lambda>h. case h of
         None \<Rightarrow> Ret (-1, Some (t\<lparr>Tools := (Tools t)[i := slot]\<rparr>))
       | Some q \<Rightarrow>
         let slot = slot\<lparr>Q_dist := q, Char_mask_allowed := charMask, Threshold_djs_q8 := thresholdQ8,
                         Sample_count := (if Sample_count slot < 0xFFFF then Sample_count slot + 1 else Sample_count slot), gFlags := 0\<rparr> in
         Ret (0, Some (t\<lparr>Tools := (Tools t)[i := slot]\<rparr>))))))"

definition class_allowed :: "u32 \<Rightarrow> byte \<Rightarrow> bool" where
  "class_allowed m b \<longleftrightarrow> ucast (char_class b) AND m \<noteq> 0"

text \<open>The divergence and the flags are written through two pointers; \<open>outs\<close> is false when one of them is nil.\<close>

definition C2bt_grammar_eval :: "grammar_table option \<Rightarrow> bytes \<Rightarrow> bytes \<Rightarrow> bool \<Rightarrow> (int \<times> u32 \<times> u32) outcome" where
  "C2bt_grammar_eval tbl toolName args outs =
     (if \<not> outs then Ret (-1, 0, 0)
      else case tbl of None \<Rightarrow> Ret (-1, 0, 0)
      | Some t \<Rightarrow>
        if toolName = [] then Ret (-1, 0, 0)
        else obind (grammarFindTool t toolName) (\<lambda>idx. case idx of
          None \<Rightarrow> Ret (-1, 0, 0)
        | Some i \<Rightarrow> obind (get_at (Tools t) i) (\<lambda>slot.
          if args = [] then Ret (0, 0, 0)
          else if list_ex (\<lambda>b. \<not> class_allowed (Char_mask_allowed slot) b) args then Ret (1, 256, 0x0004 OR 0x0400)
          else obind (histNormalize256 args) (\<lambda>h. case h of
            None \<Rightarrow> Ret (-1, 0, 0)
          | Some p \<Rightarrow>
            let djs = C2bt_calc_djs_q8 p (Q_dist slot) in
            if ucast (Threshold_djs_q8 slot) < djs then Ret (1, djs, 0x0004 OR 0x0400) else Ret (0, djs, 0)))))"

abbreviation FlagSuspiciousMCP :: u32 where "FlagSuspiciousMCP \<equiv> 0x400"

datatype grammar_error = ErrInvalidToolGrammar | ErrGrammarTableFull

definition RegisterToolGrammar :: "grammar_table \<Rightarrow> bytes \<Rightarrow> bytes \<Rightarrow> u32 \<Rightarrow> u16 \<Rightarrow> (grammar_error option \<times> grammar_table) outcome" where
  "RegisterToolGrammar tbl tool sample m thresholdQ8 =
     obind (C2bt_grammar_register_tool (Some tbl) tool sample m thresholdQ8) (\<lambda>(rc, t).
       Ret (if rc = -2 then Some ErrGrammarTableFull else if rc \<noteq> 0 then Some ErrInvalidToolGrammar else None,
            case t of None \<Rightarrow> tbl | Some t \<Rightarrow> t))"

text \<open>The two answers that are sent instead of the tool's call.\<close>

datatype veto_json = vetoGrammarJSON | vetoUnknownGrammarJSON

definition EvalGrammar :: "grammar_table \<Rightarrow> bytes \<Rightarrow> bytes \<Rightarrow> (u32 \<times> u32 \<times> veto_json option) outcome" where
  "EvalGrammar tbl tool payload = obind (C2bt_grammar_eval (Some tbl) tool payload True) (\<lambda>(rc, djsQ8, flags).
     Ret (if rc < 0 then (djsQ8, FlagBlocked OR FlagAnomaly OR FlagSuspiciousMCP, Some vetoUnknownGrammarJSON)
          else if rc = 1 then (djsQ8, flags, Some vetoGrammarJSON)
          else (djsQ8, flags, None)))"

definition EvalToolCall :: "grammar_table \<Rightarrow> bytes \<Rightarrow> bytes \<Rightarrow> (u32 \<times> u32 \<times> veto_json option) outcome" where
  "EvalToolCall tbl tool payload = EvalGrammar tbl tool payload"


section \<open>The scaled histogram\<close>

definition octet_count :: "bytes \<Rightarrow> nat \<Rightarrow> nat" where
  "octet_count s i = count_list s (word_of_nat i)"

definition scaled :: "bytes \<Rightarrow> nat \<Rightarrow> nat" where
  "scaled s i = min (octet_count s i * 256 div length s) 255"

lemma octet_count_sum: "(\<Sum>i\<leftarrow>[0..<256]. octet_count s i) = length s"
  using sum_over_octets[of "\<lambda>_. True" s] by (simp add: octet_count_def num_def)

lemma sum_div_le: "(n :: nat) * (\<Sum>i\<leftarrow>xs. f i div n) \<le> (\<Sum>i\<leftarrow>xs. f i)"
proof (induction xs)
  case (Cons x xs)
  have "n * (f x div n) \<le> f x" by simp
  then have "n * (f x div n) + n * (\<Sum>i\<leftarrow>xs. f i div n) \<le> f x + (\<Sum>i\<leftarrow>xs. f i)" using Cons by (rule add_mono)
  then show ?case by (simp add: distrib_left)
qed simp

lemma scaled_sum:
  assumes "s \<noteq> []"
  shows "(\<Sum>i\<leftarrow>[0..<256]. scaled s i) \<le> 256"
proof -
  have "(\<Sum>i\<leftarrow>[0..<256]. scaled s i) \<le> (\<Sum>i\<leftarrow>[0..<256]. octet_count s i * 256 div length s)"
    by (rule sum_list_mono) (simp add: scaled_def)
  moreover have "length s * (\<Sum>i\<leftarrow>[0..<256]. octet_count s i * 256 div length s) \<le> length s * 256"
  proof -
    have "(\<Sum>i\<leftarrow>[0..<256]. octet_count s i * 256) = length s * 256"
      by (simp only: octet_count_sum[of s, symmetric] sum_list_mult_const)
    then show ?thesis using sum_div_le[of "length s" "\<lambda>i. octet_count s i * 256" "[0..<256]"] by linarith
  qed
  ultimately show ?thesis using assms by simp
qed

lemma scale_value:
  assumes "s \<noteq> []" "length s < 2 ^ 32" "i < 256"
  shows "min (ucast (ucast (hist s ! i) * 256 div word_of_nat (length s) :: u64)) 255 = (word_of_nat (scaled s i) :: u32)"
proof -
  define c where "c = octet_count s i"
  have c: "c \<le> length s" by (simp add: c_def octet_count_def count_le_length)
  have h: "unat (hist s ! i) = c" using assms(3) c assms(2) by (simp add: hist_def c_def octet_count_def unat_of_nat)
  have u: "unat (ucast (hist s ! i) :: u64) = c" using h c assms(2) by (simp add: unat_ucast_mod)
  have "unat (ucast (hist s ! i) * 256 :: u64) = c * 256" using u c assms(2) by (simp add: unat_word_ariths)
  moreover have "unat (word_of_nat (length s) :: u64) = length s" using assms(2) by (simp add: unat_of_nat)
  ultimately have d: "unat (ucast (hist s ! i) * 256 div word_of_nat (length s) :: u64) = c * 256 div length s" by (simp add: unat_div)
  have le: "c * 256 div length s \<le> 256"
  proof -
    have "c * 256 div length s \<le> length s * 256 div length s" using c by (intro div_le_mono) simp
    then show ?thesis using assms(1) by simp
  qed
  then have "unat (ucast (ucast (hist s ! i) * 256 div word_of_nat (length s) :: u64) :: u32) = c * 256 div length s" using d by (simp add: unat_ucast_mod)
  then have "unat (min (ucast (ucast (hist s ! i) * 256 div word_of_nat (length s) :: u64)) 255 :: u32) = scaled s i"
    by (simp add: min_def word_le_nat_alt scaled_def c_def)
  moreover have "unat (word_of_nat (scaled s i) :: u32) = scaled s i" by (simp add: unat_of_nat scaled_def)
  ultimately show ?thesis by (simp add: word_unat_eq_iff)
qed

lemma scale_fold:
  assumes "s \<noteq> []" "length s < 2 ^ 32" "m \<le> 256"
  shows "\<exists>mf mi. foldl (scale_step (hist s) (word_of_nat (length s))) (replicate 256 0, 0, 0, 0) [0..<m]
    = (map (\<lambda>i. word_of_nat (scaled s i)) [0..<m] @ replicate (256 - m) 0, word_of_nat (\<Sum>i\<leftarrow>[0..<m]. scaled s i), mf, mi) \<and> mi < 256"
  using assms(3)
proof (induction m)
  case (Suc m)
  then obtain mf mi where f: "foldl (scale_step (hist s) (word_of_nat (length s))) (replicate 256 0, 0, 0, 0) [0..<m]
    = (map (\<lambda>i. word_of_nat (scaled s i)) [0..<m] @ replicate (256 - m) 0, word_of_nat (\<Sum>i\<leftarrow>[0..<m]. scaled s i), mf, mi)" "mi < 256"
    by auto
  have r: "replicate (256 - m) (0 :: u32) = 0 # replicate (256 - Suc m) 0" using Suc.prems by (simp add: Suc_diff_Suc flip: replicate_Suc)
  have "foldl (scale_step (hist s) (word_of_nat (length s))) (replicate 256 0, 0, 0, 0) [0..<Suc m]
      = scale_step (hist s) (word_of_nat (length s)) (map (\<lambda>i. word_of_nat (scaled s i)) [0..<m] @ replicate (256 - m) 0,
          word_of_nat (\<Sum>i\<leftarrow>[0..<m]. scaled s i), mf, mi) m"
    using f(1) by simp
  moreover have "scale_step (hist s) (word_of_nat (length s)) (map (\<lambda>i. word_of_nat (scaled s i)) [0..<m] @ replicate (256 - m) 0,
          word_of_nat (\<Sum>i\<leftarrow>[0..<m]. scaled s i), mf, mi) m
      = (map (\<lambda>i. word_of_nat (scaled s i)) [0..<Suc m] @ replicate (256 - Suc m) 0, word_of_nat (\<Sum>i\<leftarrow>[0..<Suc m]. scaled s i),
          if mf < hist s ! m then hist s ! m else mf, if mf < hist s ! m then m else mi)"
    using Suc.prems scale_value[OF assms(1,2), of m] by (simp add: scale_step_def Let_def r list_update_append)
  ultimately show ?case using f(2) Suc.prems by (simp only:) auto
qed simp

lemma place_one:
  assumes "\<exists>i \<in> set ix. raw ! i < 255"
  shows "\<exists>j \<in> set ix. raw ! j < 255 \<and> place_rest raw 1 ix = raw[j := raw ! j + 1]"
  using assms
proof (induction ix)
  case (Cons i ix)
  have z: "place_rest r 0 js = r" for r js by (cases js) simp_all
  show ?case
  proof (cases "raw ! i < 255")
    case True
    then show ?thesis by (simp add: z)
  next
    case False
    then show ?thesis using Cons by auto
  qed
qed simp

lemma fill_up_ok:
  assumes "length raw = 256" "\<forall>v \<in> set raw. v \<le> 255" "sum_list (map unat raw) \<le> 256" "sumv = word_of_nat (sum_list (map unat raw))" "mi < 256"
  shows "length (fill_up raw sumv mi) = 256" "\<forall>v \<in> set (fill_up raw sumv mi). v \<le> 255" "sum_list (map unat (fill_up raw sumv mi)) = 256"
proof -
  define S where "S = sum_list (map unat raw)"
  have sv: "unat sumv = S" "S \<le> 256" using assms(3,4) by (simp_all add: S_def unat_of_nat)
  have upd: "sum_list (map unat (r[k := x])) = sum_list (map unat r) + unat x - unat (r ! k)" if "k < length r" for r :: "u32 list" and k x
    using that by (simp add: map_update sum_list_update)
  have elem: "unat (r ! k) \<le> sum_list (map unat r)" if "k < length r" for r :: "u32 list" and k
    using that by (metis elem_le_sum_list length_map nth_map)
  have "length (fill_up raw sumv mi) = 256 \<and> (\<forall>v \<in> set (fill_up raw sumv mi). v \<le> 255) \<and> sum_list (map unat (fill_up raw sumv mi)) = 256"
  proof (cases "S = 256")
    case True
    then have "fill_up raw sumv mi = raw" using sv by (simp add: fill_up_def word_less_nat_alt)
    then show ?thesis using assms(1,2) True by (simp add: S_def)
  next
    case False
    then have lt: "S < 256" using sv(2) by simp
    define x where "x = unat (raw ! mi)"
    have x: "x \<le> 255" "x \<le> S" using assms(1,2,5) elem[of mi raw] by (auto simp: x_def S_def word_le_nat_alt)
    define rem where "rem = 256 - sumv"
    define room where "room = 255 - raw ! mi"
    have "sumv \<le> 256" using sv lt by (simp add: word_le_nat_alt)
    then have rem: "unat rem = 256 - S" using sv(1) by (simp add: rem_def unat_minus_le)
    have "raw ! mi \<le> 255" using x(1) by (simp add: x_def word_le_nat_alt)
    then have room: "unat room = 255 - x" by (simp add: room_def unat_minus_le x_def)
    define add where "add = min rem room"
    have add: "unat add = min (256 - S) (255 - x)" using rem room by (simp add: add_def min_def word_le_nat_alt)
    define raw1 where "raw1 = raw[mi := raw ! mi + add]"
    have val: "unat (raw ! mi + add) = x + unat add" using add x by (simp add: unat_word_ariths x_def[symmetric])
    have l1: "length raw1 = 256" by (simp add: raw1_def assms(1))
    have s1: "sum_list (map unat raw1) = S + unat add" using upd[of mi raw] assms(1,5) val x(2) by (simp add: raw1_def S_def x_def)
    have b1: "\<forall>v \<in> set raw1. v \<le> 255"
      using assms(1,2,5) val add x(1) set_update_subset_insert[of raw mi "raw ! mi + add"] by (auto simp: raw1_def word_le_nat_alt)
    have fill: "fill_up raw sumv mi = place_rest raw1 (rem - add) [0..<256]"
      using sv(1) lt by (simp add: fill_up_def Let_def rem_def room_def add_def raw1_def word_less_nat_alt)
    show ?thesis
    proof (cases "256 - S \<le> 255 - x")
      case True
      then have "unat add = 256 - S" using add by simp
      then have "add = rem" using rem by (simp add: word_unat_eq_iff)
      moreover have "place_rest r 0 js = r" for r js by (cases js) simp_all
      ultimately show ?thesis using fill l1 b1 s1 lt \<open>unat add = 256 - S\<close> by simp
    next
      case False
      then have a: "unat add = 255 - x" "S = x" using add x(2) lt by auto
      have "add \<le> rem" by (simp add: add_def)
      then have "unat (rem - add) = 1" using a rem x(1) lt by (simp add: unat_minus_le)
      then have one: "rem - add = 1" by (simp add: word_unat_eq_iff)
      have "raw1 ! j < 255" if "j < 256" "j \<noteq> mi" for j
      proof -
        have "unat (raw1 ! j) + unat (raw1 ! mi) \<le> sum_list (map unat raw1)"
        proof -
          have "sum_list (map unat (raw1[mi := 0])) = sum_list (map unat raw1) - unat (raw1 ! mi)" using upd[of mi raw1 0] l1 assms(5) by simp
          moreover have "unat (raw1[mi := 0] ! j) \<le> sum_list (map unat (raw1[mi := 0]))" using elem[of j "raw1[mi := 0]"] l1 that by simp
          ultimately show ?thesis using elem[of mi raw1] l1 assms(5) that by simp
        qed
        moreover have "unat (raw1 ! mi) = 255" using val a x(1) assms(1,5) by (simp add: raw1_def)
        ultimately have "unat (raw1 ! j) = 0" using s1 a x(1) by simp
        then show ?thesis by (simp add: word_less_nat_alt)
      qed
      moreover obtain j where "j < 256" "j \<noteq> mi" using that[of "if mi = 0 then 1 else 0"] by auto
      ultimately have "\<exists>i \<in> set [0..<256]. raw1 ! i < 255" by (intro bexI[of _ j]) simp_all
      from place_one[OF this] obtain k where k: "k < 256" "raw1 ! k < 255" "place_rest raw1 1 [0..<256] = raw1[k := raw1 ! k + 1]" by auto
      have vk: "unat (raw1 ! k + 1) = unat (raw1 ! k) + 1" "raw1 ! k + 1 \<le> 255"
        using k(2) unat_plus_one[of "raw1 ! k"] by (auto simp: word_less_nat_alt word_le_nat_alt)
      have "sum_list (map unat (raw1[k := raw1 ! k + 1])) = 256" using upd[of k raw1] l1 k(1) vk(1) s1 a x(1) elem[of k raw1] by simp
      moreover have "\<forall>v \<in> set (raw1[k := raw1 ! k + 1]). v \<le> 255" using b1 vk(2) set_update_subset_insert[of raw1 k] by auto
      ultimately show ?thesis using fill one k(3) l1 by simp
    qed
  qed
  then show "length (fill_up raw sumv mi) = 256" "\<forall>v \<in> set (fill_up raw sumv mi). v \<le> 255" "sum_list (map unat (fill_up raw sumv mi)) = 256" by simp_all
qed


definition dist_ok :: "bytes \<Rightarrow> bool" where
  "dist_ok q \<longleftrightarrow> length q = 256 \<and> sum_list (map unat q) = 256"

lemma histNormalize_ok:
  assumes "s \<noteq> []" "length s < 2 ^ 32"
  shows "\<exists>q. histNormalize256 s = Ret (Some q) \<and> dist_ok q"
proof -
  have start: "hist (take 0 s) = replicate 256 0" by (simp add: hist_Nil)
  obtain j where j: "count_by_eight s (length s) 0 (replicate 256 0) = Ret (j, hist (take j s))" "j \<le> length s"
    using count_by_eight_ok[of "length s" s 0] unfolding start by auto
  have c: "count_rest s (length s) j (hist (take j s)) = Ret (hist s)" using count_rest_ok[OF order_refl j(2)] by simp
  define raw where "raw = map (\<lambda>i. word_of_nat (scaled s i) :: u32) [0..<256]"
  obtain mf mi where f: "foldl (scale_step (hist s) (word_of_nat (length s))) (replicate 256 0, 0, 0, 0) [0..<256]
      = (raw, word_of_nat (\<Sum>i\<leftarrow>[0..<256]. scaled s i), mf, mi)" "mi < 256"
    using scale_fold[OF assms order_refl] by (auto simp: raw_def)
  have u: "map unat raw = map (scaled s) [0..<256]" by (simp add: raw_def unat_of_nat scaled_def)
  have len: "length raw = 256" by (simp add: raw_def)
  have "\<forall>v \<in> set raw. v \<le> 255" by (auto simp: raw_def word_le_nat_alt unat_of_nat scaled_def)
  note fill = fill_up_ok[OF len this _ _ f(2), of "word_of_nat (\<Sum>i\<leftarrow>[0..<256]. scaled s i)", unfolded u, OF scaled_sum[OF assms(1)] refl]
  define out where "out = fill_up raw (word_of_nat (\<Sum>i\<leftarrow>[0..<256]. scaled s i)) mi"
  have "map unat (map ucast out :: bytes) = map unat out"
  proof -
    have "unat (ucast v :: byte) = unat v" if "v \<in> set out" for v using fill(2) that by (auto simp: out_def[symmetric] word_le_nat_alt unat_ucast_mod)
    then show ?thesis by simp
  qed
  then have "dist_ok (map ucast out)" using fill(1,3) by (simp add: dist_ok_def out_def[symmetric] del: map_map)
  moreover have "histNormalize256 s = Ret (Some (map ucast out))" using assms(1) by (simp add: histNormalize256_def j(1) c f(1) out_def Let_def)
  ultimately show ?thesis by blast
qed

section \<open>Logarithms of small numbers\<close>

definition small_logs :: "int list" where
  "small_logs = map2 (\<lambda>x i. if i \<le> 1 then 0 else uint x div i) c_log2_c_table [0..256] @ map (\<lambda>m. 2048 + uint m) (tl log2_mantissa_q8)"

fun evens :: "'a list \<Rightarrow> 'a list" where
  "evens (x # _ # xs) = x # evens xs"
| "evens xs = xs"

lemma evens_nth: "2 * i < length xs \<Longrightarrow> evens xs ! i = xs ! (2 * i)"
proof (induction xs arbitrary: i rule: evens.induct)
  case (1 x y xs)
  then show ?case by (cases i) simp_all
qed simp_all

lemma length_evens: "length (evens xs) = (length xs + 1) div 2"
  by (induction xs rule: evens.induct) simp_all

lemma small_logs_steps: "list_all2 (\<le>) (butlast small_logs) (tl small_logs)" "length small_logs = 512"
  by code_simp+

lemma small_logs_sorted: "sorted small_logs"
proof -
  have "small_logs ! i \<le> small_logs ! Suc i" if "Suc i < length small_logs" for i
    using list_all2_nthD[OF small_logs_steps(1), of i] that by (simp add: nth_butlast nth_tl)
  then show ?thesis by (simp add: sorted_iff_nth_Suc)
qed

lemma small_logs_double: "list_all2 (\<lambda>a b. b \<le> a + 257 \<and> a + 255 \<le> b) (tl (take 256 small_logs)) (tl (evens small_logs))"
  by code_simp+

lemma log2_tables: "length c_log2_c_table = 257" "length log2_mantissa_q8 = 256"
  by (simp_all add: c_log2_c_table_def log2_mantissa_q8_def)

lemma nat_len_eq: "2 ^ k \<le> n \<Longrightarrow> n < 2 ^ Suc k \<Longrightarrow> nat_len n = Suc k"
proof (induction k arbitrary: n)
  case 0
  then have "n = 1" by simp
  then show ?case by (simp add: nat_len.simps)
next
  case (Suc k)
  then have "nat_len (n div 2) = Suc k" by (intro Suc.IH) auto
  moreover have "n \<noteq> 0"
  proof -
    have "(0 :: nat) < 2 ^ Suc k" by simp
    then show ?thesis using Suc.prems(1) by linarith
  qed
  ultimately show ?case by (subst nat_len.simps) simp
qed

lemma small_logs_parts:
  "n \<le> 256 \<Longrightarrow> small_logs ! n = (if n \<le> 1 then 0 else uint (c_log2_c_table ! n) div int n)"
  "256 < n \<Longrightarrow> n < 512 \<Longrightarrow> small_logs ! n = 2048 + uint (log2_mantissa_q8 ! (n - 256))"
proof -
  define ix where "ix = [0..256 :: int]"
  have ix: "length ix = 257" "k < 257 \<Longrightarrow> ix ! k = int k" for k by (simp add: ix_def, simp only: ix_def, subst nth_upto, simp_all)
  note d = small_logs_def[folded ix_def]
  show "n \<le> 256 \<Longrightarrow> small_logs ! n = (if n \<le> 1 then 0 else uint (c_log2_c_table ! n) div int n)"
    unfolding d by (simp add: nth_append log2_tables ix)
  show "256 < n \<Longrightarrow> n < 512 \<Longrightarrow> small_logs ! n = 2048 + uint (log2_mantissa_q8 ! (n - 256))"
  proof -
    assume n: "256 < n" "n < 512"
    define k where "k = n - 257"
    have k: "n = k + 257" "k < 255" using n by (simp_all add: k_def)
    have "tl log2_mantissa_q8 ! k = log2_mantissa_q8 ! (k + 1)" using k(2) by (simp add: nth_tl log2_tables)
    then show ?thesis unfolding d k(1) using k(2) by (simp add: nth_append log2_tables ix)
  qed
qed

lemma log2Sym_list:
  assumes "unat c < 512"
  shows "int (unat (log2SymQ8 c)) = small_logs ! unat c"
proof -
  define n where "n = unat c"
  show ?thesis
  proof (cases "n \<le> 256")
    case True
    then have "small_logs ! n = (if n \<le> 1 then 0 else uint (c_log2_c_table ! n) div int n)" by (rule small_logs_parts(1))
    moreover have "c \<le> 256" "c \<le> 1 \<longleftrightarrow> n \<le> 1" using True by (simp_all add: word_le_nat_alt n_def)
    moreover have "unat (c_log2_c_table ! n div c) = unat (c_log2_c_table ! n) div n" by (simp add: unat_div n_def)
    then have "int (unat (c_log2_c_table ! n div c)) = int (unat (c_log2_c_table ! n)) div int n" by (simp only: zdiv_int)
    ultimately show ?thesis by (simp only: log2SymQ8_def n_def[symmetric] if_True uint_nat) simp
  next
    case False
    then have n: "256 < n" "n < 512" using assms by (simp_all add: n_def)
    then have s: "small_logs ! n = 2048 + uint (log2_mantissa_q8 ! (n - 256))"
      by (rule small_logs_parts(2))
    define d :: u64 where "d = ucast c"
    have d: "unat d = n" by (simp add: d_def n_def unat_ucast_mod unat_bound[THEN less_trans])
    have lz: "LeadingZeros64 d = 55" using n nat_len_eq[of 8 n] by (simp add: LeadingZeros64_def d)
    have idx: "unat (drop_bit 56 (push_bit 56 d)) = n - 256"
    proof -
      have "unat (drop_bit 56 (push_bit 56 d)) = unat (take_bit 8 d)" by (rule arg_cong[where f = unat], rule bit_word_eqI) (auto simp: bit_simps)
      also have "\<dots> = n mod 256" by (simp only: unsigned_take_bit_eq d) (simp add: take_bit_eq_mod)
      finally show ?thesis using n by (simp add: mod_if)
    qed
    have "\<not> d \<le> 1" "\<not> d \<le> 0x100" using n d by (simp_all add: word_le_nat_alt)
    then have "Arch_log2_q8_8 d = word_of_nat (2048 + unat (log2_mantissa_q8 ! (n - 256)))" by (simp add: Arch_log2_q8_8_def lz idx)
    moreover have "unat (word_of_nat (2048 + v) :: u32) = 2048 + v" if "v < 256" for v using that by (simp only: unat_of_nat) simp
    moreover have "unat (log2_mantissa_q8 ! (n - 256)) < 256" using unat_bound[of "log2_mantissa_q8 ! (n - 256)"] by simp
    ultimately have "unat (Arch_log2_q8_8 d) = 2048 + unat (log2_mantissa_q8 ! (n - 256))" by (simp only:)
    moreover have "\<not> c \<le> 1" "\<not> c \<le> 256" using n by (simp_all add: word_le_nat_alt n_def)
    ultimately show ?thesis using s by (simp add: log2SymQ8_def d_def[symmetric] n_def[symmetric])
  qed
qed


section \<open>Bounds of the divergence\<close>

definition kl_term :: "nat \<Rightarrow> nat \<Rightarrow> int" where
  "kl_term a b = (if a = 0 then 0 else int a * (small_logs ! a - small_logs ! (a + b) + 256))"

lemma klPm_sum:
  "klPmQ8 p q = (let acc = (\<Sum>i\<leftarrow>[0..<256]. kl_term (unat (p ! i)) (unat (q ! i))) in if acc < 0 then 0 else word_of_int (acc div 256))"
proof -
  have step: "(let pi = ucast (p ! i) :: u32; mi = ucast (p ! i) + ucast (q ! i) in
       if pi = 0 then acc else if mi = 0 then acc else acc + int (unat pi) * klTermDiffQ8 pi mi) = acc + kl_term (unat (p ! i)) (unat (q ! i))" for acc i
  proof -
    define a b where "a = unat (p ! i)" and "b = unat (q ! i)"
    have ab: "a < 256" "b < 256" using unat_bound[of "p ! i"] unat_bound[of "q ! i"] by (simp_all add: a_def b_def)
    have u: "unat (ucast (p ! i) :: u32) = a" "unat (ucast (q ! i) :: u32) = b" using ab by (simp_all add: unat_ucast_mod a_def b_def)
    then have m: "unat (ucast (p ! i) + ucast (q ! i) :: u32) = a + b" using ab by (simp add: unat_word_ariths)
    have z: "(ucast (p ! i) :: u32) = 0 \<longleftrightarrow> a = 0" "(ucast (p ! i) + ucast (q ! i) :: u32) = 0 \<longleftrightarrow> a + b = 0"
      using u(1) m by (metis unat_0 unat_eq_zero)+
    have k: "klTermDiffQ8 (ucast (p ! i)) (ucast (p ! i) + ucast (q ! i)) = small_logs ! a - small_logs ! (a + b) + 256"
      unfolding klTermDiffQ8_def using log2Sym_list[of "ucast (p ! i) :: u32"] log2Sym_list[of "ucast (p ! i) + ucast (q ! i) :: u32"] ab unfolding u(1) m by simp
    show ?thesis unfolding Let_def z k u(1) a_def[symmetric] b_def[symmetric] kl_term_def by simp
  qed
  have fold: "foldl (\<lambda>acc i. acc + f i) a ix = a + (\<Sum>i\<leftarrow>ix. f i)" for f :: "nat \<Rightarrow> int" and a ix
    by (induction ix arbitrary: a) simp_all
  show ?thesis unfolding klPmQ8_def step fold by simp
qed

lemma kl_term_le: "a < 256 \<Longrightarrow> b < 256 \<Longrightarrow> kl_term a b \<le> 256 * int a"
proof -
  assume ab: "a < 256" "b < 256"
  have "small_logs ! a \<le> small_logs ! (a + b)" by (rule sorted_nth_mono[OF small_logs_sorted]) (use ab small_logs_steps(2) in simp_all)
  then have "int a * (small_logs ! a - small_logs ! (a + b) + 256) \<le> int a * 256" by (intro mult_left_mono) simp_all
  then show ?thesis by (simp add: kl_term_def mult.commute)
qed

lemma kl_term_self: "a < 256 \<Longrightarrow> kl_term a a \<le> int a"
proof (cases "a = 0")
  case False
  assume a: "a < 256"
  define k where "k = a - 1"
  have k: "a = Suc k" "k < 255" using False a by (simp_all add: k_def)
  note n = list_all2_nthD[OF small_logs_double, of k]
  have "tl (take 256 small_logs) ! k = small_logs ! a" using k small_logs_steps(2) by (simp add: nth_tl)
  moreover have "tl (evens small_logs) ! k = small_logs ! (2 * a)"
  proof -
    have "tl (evens small_logs) ! k = evens small_logs ! a" using k small_logs_steps(2) by (simp add: nth_tl length_evens)
    then show ?thesis using evens_nth[of a small_logs] a small_logs_steps(2) by simp
  qed
  ultimately have "small_logs ! a + 255 \<le> small_logs ! (2 * a)" using n k small_logs_steps(2) by simp
  then have "int a * (small_logs ! a - small_logs ! (a + a) + 256) \<le> int a * 1" by (intro mult_left_mono) (simp_all add: mult_2)
  then show ?thesis using False by (simp add: kl_term_def)
qed (simp add: kl_term_def)

lemma dist_sum: "dist_ok p \<Longrightarrow> (\<Sum>i\<leftarrow>[0..<256]. int (unat (p ! i))) = 256"
proof -
  assume p: "dist_ok p"
  have "map unat p = map (\<lambda>i. unat (p ! i)) [0..<256]" using p by (intro nth_equalityI) (simp_all add: dist_ok_def)
  then have "(\<Sum>i\<leftarrow>[0..<256]. unat (p ! i)) = 256" using p by (simp add: dist_ok_def)
  then have "int (\<Sum>i\<leftarrow>[0..<256]. unat (p ! i)) = 256" by simp
  moreover have "int (\<Sum>i\<leftarrow>ix. f i) = (\<Sum>i\<leftarrow>ix. int (f i))" for f :: "nat \<Rightarrow> nat" and ix by (induction ix) simp_all
  ultimately show ?thesis by simp
qed

lemma klPm_bounds:
  assumes "dist_ok p"
  shows "unat (klPmQ8 p q) \<le> 256" "unat (klPmQ8 p p) \<le> 1"
proof -
  have b: "unat (x :: byte) < 256" for x using unat_bound[of x] by simp
  have fin: "unat (let acc = A in if acc < 0 then 0 else word_of_int (acc div 256) :: u32) \<le> nat m" if "A \<le> 256 * m" "0 \<le> m" "m \<le> 256" for A m :: int
  proof (cases "A < 0")
    case False
    have "A div 256 \<le> (256 * m) div 256" using that(1) by (intro zdiv_mono1) simp_all
    then have d: "0 \<le> A div 256" "A div 256 \<le> m" using False by simp_all
    then have "uint (word_of_int (A div 256) :: u32) = A div 256" using that(3) by (simp add: uint_word_of_int_eq take_bit_int_eq_self)
    then have "unat (word_of_int (A div 256) :: u32) = nat (A div 256)" by (simp add: unat_eq_nat_uint)
    then show ?thesis using False d by (simp add: nat_mono)
  qed simp
  have "(\<Sum>i\<leftarrow>[0..<256]. kl_term (unat (p ! i)) (unat (q ! i))) \<le> (\<Sum>i\<leftarrow>[0..<256]. 256 * int (unat (p ! i)))"
    by (rule sum_list_mono) (simp only: kl_term_le b)
  also have "\<dots> = 256 * 256" unfolding sum_list_const_mult dist_sum[OF assms] ..
  finally show "unat (klPmQ8 p q) \<le> 256" unfolding klPm_sum using fin[of _ 256] unfolding Let_def by simp
  have "(\<Sum>i\<leftarrow>[0..<256]. kl_term (unat (p ! i)) (unat (p ! i))) \<le> (\<Sum>i\<leftarrow>[0..<256]. int (unat (p ! i)))"
    by (rule sum_list_mono) (simp only: kl_term_self b)
  also have "\<dots> = 256 * 1" unfolding dist_sum[OF assms] by simp
  finally show "unat (klPmQ8 p p) \<le> 1" unfolding klPm_sum using fin[of _ 1] unfolding Let_def by simp
qed

lemma djs_bounds:
  assumes "dist_ok p" "dist_ok q"
  shows "unat (C2bt_calc_djs_q8 p q) \<le> 256" "unat (C2bt_calc_djs_q8 p p) \<le> 1" "C2bt_calc_djs_q8 p q = C2bt_calc_djs_q8 q p"
proof -
  have h: "unat ((a + b) div 2 :: u32) \<le> m" if "unat a \<le> m" "unat b \<le> m" "m \<le> 256" for a b m
  proof -
    have "unat (a + b) = unat a + unat b" using that by (simp add: unat_word_ariths)
    then show ?thesis using that by (simp add: unat_div)
  qed
  show "unat (C2bt_calc_djs_q8 p q) \<le> 256" unfolding C2bt_calc_djs_q8_def by (rule h) (simp_all add: klPm_bounds assms)
  show "unat (C2bt_calc_djs_q8 p p) \<le> 1" unfolding C2bt_calc_djs_q8_def by (rule h[OF klPm_bounds(2,2)[OF assms(1)]]) simp
  show "C2bt_calc_djs_q8 p q = C2bt_calc_djs_q8 q p" by (simp add: C2bt_calc_djs_q8_def add.commute)
qed


section \<open>The catalogue as a map\<close>

definition padded :: "bytes \<Rightarrow> bytes" where
  "padded name = name @ drop (length name) (replicate 32 0)"

definition slot_ok :: "grammar_profile \<Rightarrow> bool" where
  "slot_ok g \<longleftrightarrow> (\<exists>name. valid_tool name \<and> Tool_name g = padded name) \<and> dist_ok (Q_dist g)"

definition gram_ok :: "grammar_table \<Rightarrow> bool" where
  "gram_ok t \<longleftrightarrow> length (Tools t) = 32 \<and> unat (ToolCount t) \<le> 32 \<and> (\<forall>i < unat (ToolCount t). slot_ok (Tools t ! i))
     \<and> (\<forall>i j. i < unat (ToolCount t) \<longrightarrow> j < unat (ToolCount t) \<longrightarrow> Tool_name (Tools t ! i) = Tool_name (Tools t ! j) \<longrightarrow> i = j)"

definition tool_index :: "grammar_table \<Rightarrow> bytes \<Rightarrow> nat option" where
  "tool_index t name = find (\<lambda>i. Tool_name (Tools t ! i) = padded name) [0..<unat (ToolCount t)]"

definition lookup_tool :: "grammar_table \<Rightarrow> bytes \<Rightarrow> grammar_profile option" where
  "lookup_tool t name = map_option (\<lambda>i. Tools t ! i) (tool_index t name)"

lemma padded_inj:
  assumes "valid_tool a" "valid_tool b" "padded a = padded b"
  shows "a = b"
proof -
  have strip: "takeWhile (\<lambda>x. x \<noteq> 0) (padded n) = n" if "valid_tool n" for n
  proof -
    have "32 - length n = Suc (31 - length n)" using that by (auto simp: valid_tool_def)
    then have "drop (length n) (replicate 32 (0 :: byte)) = 0 # replicate (31 - length n) 0" by (simp only: drop_replicate replicate_Suc)
    moreover have "takeWhile (\<lambda>x. x \<noteq> 0) (n @ 0 # z) = n" for z :: bytes using that by (subst takeWhile_append2) (auto simp: valid_tool_def)
    ultimately show ?thesis by (simp add: padded_def)
  qed
  have "a = takeWhile (\<lambda>x. x \<noteq> 0) (padded b)" using strip[OF assms(1)] unfolding assms(3) by (rule sym)
  also have "\<dots> = b" by (rule strip[OF assms(2)])
  finally show ?thesis .
qed

lemma same_octets_iff: "same_octets stored name \<longleftrightarrow> prefix name stored"
  by (induction stored name rule: same_octets.induct) auto

lemma name_test:
  assumes "valid_tool nm" "valid_tool name"
  shows "same_octets (padded nm) name \<and> padded nm ! length name = 0 \<longleftrightarrow> padded nm = padded name"
proof
  assume m: "same_octets (padded nm) name \<and> padded nm ! length name = 0"
  then have p: "prefix name (padded nm)" by (simp add: same_octets_iff)
  have nz: "0 \<notin> set nm" "0 \<notin> set name" "length name < 32" using assms by (simp_all add: valid_tool_def)
  have "length name \<le> length nm"
  proof (rule ccontr)
    assume "\<not> length name \<le> length nm"
    then have l: "length nm < length name" by simp
    then have "name ! length nm = padded nm ! length nm" using p by (metis prefix_def nth_append)
    also have "\<dots> = 0" using l nz(3) by (simp add: padded_def nth_append)
    finally show False using l nz(2) by (metis nth_mem)
  qed
  moreover have "length nm \<le> length name"
  proof (rule ccontr)
    assume "\<not> length nm \<le> length name"
    then have "padded nm ! length name \<in> set nm" by (simp add: padded_def nth_append)
    then show False using m nz(1) by simp
  qed
  ultimately have l: "length name = length nm" by simp
  have "name = take (length name) (padded nm)" using p by (metis append_eq_conv_conj prefix_def)
  also have "\<dots> = nm" using l by (simp add: padded_def)
  finally show "padded nm = padded name" by simp
next
  assume "padded nm = padded name"
  then show "same_octets (padded nm) name \<and> padded nm ! length name = 0"
    using assms(2) by (simp add: same_octets_iff padded_def nth_append valid_tool_def)
qed

lemma find_tool_ok:
  assumes "gram_ok t" "valid_tool name"
  shows "grammarFindTool t name = Ret (tool_index t name)"
proof -
  have "find_tool_loop (Tools t) name ix = Ret (find (\<lambda>i. Tool_name (Tools t ! i) = padded name) ix)" if "\<forall>i \<in> set ix. i < unat (ToolCount t)" for ix
    using that
  proof (induction ix)
    case (Cons i ix)
    then have i: "i < length (Tools t)" "slot_ok (Tools t ! i)" using assms(1) by (auto simp: gram_ok_def)
    then obtain nm where nm: "valid_tool nm" "Tool_name (Tools t ! i) = padded nm" by (auto simp: slot_ok_def)
    show ?case using Cons i(1) nm(2) name_test[OF nm(1) assms(2)] by simp
  qed simp
  then show ?thesis using assms(2) by (simp add: grammarFindTool_def tool_index_def valid_tool_def)
qed

lemma tool_index_Some: "tool_index t name = Some i \<Longrightarrow> i < unat (ToolCount t) \<and> Tool_name (Tools t ! i) = padded name"
  by (auto simp: tool_index_def find_Some_iff)

lemma tool_index_None: "tool_index t name = None \<longleftrightarrow> (\<forall>i < unat (ToolCount t). Tool_name (Tools t ! i) \<noteq> padded name)"
  by (auto simp: tool_index_def find_None_iff)

lemma tool_index_eq:
  assumes "gram_ok t" "i < unat (ToolCount t)" "Tool_name (Tools t ! i) = padded name"
  shows "tool_index t name = Some i"
proof (cases "tool_index t name")
  case None
  then show ?thesis using assms(2,3) by (auto simp: tool_index_None)
next
  case (Some j)
  then show ?thesis using tool_index_Some[OF Some] assms by (auto simp: gram_ok_def)
qed

text \<open>Writing the slot of a tool: the map changes at its name only.\<close>

lemma write_slot:
  assumes t: "gram_ok t" and n: "n = (case tool_index t name of Some _ \<Rightarrow> ToolCount t | None \<Rightarrow> ToolCount t + 1)"
    and i: "i = (case tool_index t name of Some j \<Rightarrow> j | None \<Rightarrow> unat (ToolCount t))" "i < 32"
    and g: "valid_tool name" "Tool_name g = padded name" "dist_ok (Q_dist g)"
  defines "t' \<equiv> t\<lparr>Tools := (Tools t)[i := g], ToolCount := n\<rparr>"
  shows "gram_ok t'" "lookup_tool t' name = Some g" "valid_tool other \<Longrightarrow> other \<noteq> name \<Longrightarrow> lookup_tool t' other = lookup_tool t other"
proof -
  define c where "c = unat (ToolCount t)"
  have cnt: "unat n = (case tool_index t name of Some _ \<Rightarrow> c | None \<Rightarrow> c + 1)" "i < unat n"
    using n i tool_index_Some[of t name] unat_plus_one[of "ToolCount t"] by (auto simp: c_def split: option.splits)
  have le: "unat n \<le> 32" using cnt i t by (auto simp: gram_ok_def c_def split: option.splits)
  have len: "length (Tools t) = 32" using t by (simp add: gram_ok_def)
  have at: "Tools t' ! k = (if k = i then g else Tools t ! k)" if "k < unat n" for k using that le len by (simp add: t'_def nth_list_update)
  have old: "k < c" if "k < unat n" "k \<noteq> i" for k using that cnt i(1) by (auto simp: c_def split: option.splits)
  have fresh: "Tool_name (Tools t ! k) \<noteq> padded name" if "k < c" "k \<noteq> i" for k
  proof (cases "tool_index t name")
    case None
    then show ?thesis using that(1) by (simp add: tool_index_None c_def)
  next
    case (Some j)
    then show ?thesis using tool_index_Some[OF Some] that t i(1) by (auto simp: gram_ok_def c_def)
  qed
  have sl: "slot_ok g" using g by (auto simp: slot_ok_def)
  show ok: "gram_ok t'" unfolding gram_ok_def
  proof (intro conjI allI impI)
    show "length (Tools t') = 32" "unat (ToolCount t') \<le> 32" using len le by (simp_all add: t'_def)
    fix k assume "k < unat (ToolCount t')"
    then have k: "k < unat n" by (simp add: t'_def)
    show "slot_ok (Tools t' ! k)" using at[OF k] old[OF k] sl t by (auto simp: gram_ok_def c_def)
    fix l assume "l < unat (ToolCount t')" "Tool_name (Tools t' ! k) = Tool_name (Tools t' ! l)"
    then have l: "l < unat n" and eq: "Tool_name (Tools t' ! k) = Tool_name (Tools t' ! l)" by (simp_all add: t'_def)
    show "k = l"
      using eq at[OF k] at[OF l] old[OF k] old[OF l] fresh[of k] fresh[of l] g(2) t
      by (cases "k = i"; cases "l = i") (auto simp: gram_ok_def c_def)
  qed
  have tc: "ToolCount t' = n" by (simp add: t'_def)
  have "tool_index t' name = Some i" by (rule tool_index_eq[OF ok]) (use cnt(2) at[OF cnt(2)] g(2) tc in simp_all)
  then show "lookup_tool t' name = Some g" using at[OF cnt(2)] by (simp add: lookup_tool_def)
  assume o: "valid_tool other" "other \<noteq> name"
  have ne: "padded other \<noteq> padded name" using padded_inj[OF o(1) g(1)] o(2) by blast
  show "lookup_tool t' other = lookup_tool t other"
  proof (cases "tool_index t other")
    case None
    have "Tool_name (Tools t' ! k) \<noteq> padded other" if "k < unat n" for k
      using at[OF that] old[OF that] None ne g(2) by (auto simp: tool_index_None c_def)
    then have "tool_index t' other = None" by (simp add: tool_index_None tc)
    then show ?thesis using None by (simp add: lookup_tool_def)
  next
    case (Some k)
    note s = tool_index_Some[OF Some]
    have ki: "k \<noteq> i"
    proof
      assume "k = i"
      then have "tool_index t name = Some i" using s i(1) by (cases "tool_index t name") (auto simp: c_def)
      then show False using tool_index_Some[of t name i] s \<open>k = i\<close> ne by simp
    qed
    have kn: "k < unat n" using s cnt(1) by (auto simp: c_def split: option.splits)
    have "tool_index t' other = Some k" by (rule tool_index_eq[OF ok]) (use kn at[OF kn] ki s tc in simp_all)
    then show ?thesis using Some at[OF kn] ki by (simp add: lookup_tool_def)
  qed
qed


section \<open>Registering and evaluating a tool\<close>

lemma lookup_tool_index:
  "lookup_tool t name = None \<longleftrightarrow> tool_index t name = None"
  "tool_index t name = Some i \<Longrightarrow> lookup_tool t name = Some (Tools t ! i)"
  by (simp_all add: lookup_tool_def)

lemma lookup_tool_dist:
  assumes "gram_ok t" "lookup_tool t name = Some g"
  shows "dist_ok (Q_dist g)"
  using assms tool_index_Some[of t name] by (auto simp: lookup_tool_def gram_ok_def slot_ok_def)

definition learnt :: "grammar_profile option \<Rightarrow> bytes \<Rightarrow> bytes \<Rightarrow> u32 \<Rightarrow> u16 \<Rightarrow> grammar_profile" where
  "learnt old name q m th = \<lparr>Tool_name = padded name, Q_dist = q, Char_mask_allowed = m, Threshold_djs_q8 = th,
     Sample_count = (case old of None \<Rightarrow> 1 | Some g \<Rightarrow> if Sample_count g < 0xFFFF then Sample_count g + 1 else Sample_count g), gFlags = 0\<rparr>"

lemma register_known:
  assumes t: "gram_ok t" "valid_tool name" "sample \<noteq> []" "histNormalize256 sample = Ret (Some q)" and i: "tool_index t name = Some i"
  shows "RegisterToolGrammar t name sample m th = Ret (None, t\<lparr>Tools := (Tools t)[i := learnt (Some (Tools t ! i)) name q m th], ToolCount := ToolCount t\<rparr>)"
proof -
  have "i < length (Tools t)" using t(1) tool_index_Some[OF i] by (simp add: gram_ok_def)
  then show ?thesis
    using t find_tool_ok[OF t(1,2)] i
    by (cases "Tools t ! i") (simp add: RegisterToolGrammar_def C2bt_grammar_register_tool_def reserve_slot_def learnt_def padded_def Let_def)
qed

lemma register_fresh:
  assumes t: "gram_ok t" "valid_tool name" "sample \<noteq> []" "histNormalize256 sample = Ret (Some q)" and i: "tool_index t name = None"
    and room: "unat (ToolCount t) < 32"
  shows "RegisterToolGrammar t name sample m th
    = Ret (None, t\<lparr>Tools := (Tools t)[unat (ToolCount t) := learnt None name q m th], ToolCount := ToolCount t + 1\<rparr>)"
proof -
  have "unat (ToolCount t) < length (Tools t)" using t(1) room by (simp add: gram_ok_def)
  moreover have "\<not> 32 \<le> ToolCount t" using room by (simp add: word_le_nat_alt)
  ultimately show ?thesis
    using t find_tool_ok[OF t(1,2)] i
    by (simp add: RegisterToolGrammar_def C2bt_grammar_register_tool_def reserve_slot_def learnt_def padded_def zero_profile_slot_def Let_def)
qed

lemma register_refused:
  "\<not> valid_tool name \<or> sample = [] \<Longrightarrow> RegisterToolGrammar t name sample m th = Ret (Some ErrInvalidToolGrammar, t)"
  "gram_ok t \<Longrightarrow> valid_tool name \<Longrightarrow> sample \<noteq> [] \<Longrightarrow> tool_index t name = None \<Longrightarrow> unat (ToolCount t) = 32
    \<Longrightarrow> RegisterToolGrammar t name sample m th = Ret (Some ErrGrammarTableFull, t)"
  using find_tool_ok[of t name]
  by (auto simp: RegisterToolGrammar_def C2bt_grammar_register_tool_def reserve_slot_def word_le_nat_alt)

lemma register_ok:
  assumes t: "gram_ok t" "valid_tool name" "sample \<noteq> []" "histNormalize256 sample = Ret (Some q)" "dist_ok q"
    and room: "tool_index t name \<noteq> None \<or> unat (ToolCount t) < 32"
  shows "\<exists>t'. RegisterToolGrammar t name sample m th = Ret (None, t') \<and> gram_ok t' \<and> lookup_tool t' name = Some (learnt (lookup_tool t name) name q m th)
    \<and> (\<forall>other. valid_tool other \<and> other \<noteq> name \<longrightarrow> lookup_tool t' other = lookup_tool t other)"
proof -
  define g where "g = learnt (lookup_tool t name) name q m th"
  define i where "i = (case tool_index t name of Some j \<Rightarrow> j | None \<Rightarrow> unat (ToolCount t))"
  define n where "n = (case tool_index t name of Some _ \<Rightarrow> ToolCount t | None \<Rightarrow> ToolCount t + 1)"
  have i32: "i < 32" using room t(1) tool_index_Some[of t name] by (auto simp: i_def gram_ok_def split: option.splits)
  have g: "Tool_name g = padded name" "dist_ok (Q_dist g)" using t(5) by (simp_all add: g_def learnt_def)
  note w = write_slot[OF t(1) n_def i_def i32 t(2) g]
  have "RegisterToolGrammar t name sample m th = Ret (None, t\<lparr>Tools := (Tools t)[i := g], ToolCount := n\<rparr>)"
  proof (cases "tool_index t name")
    case None
    then show ?thesis using register_fresh[OF t(1-4) None] room lookup_tool_index(1)[of t name] by (simp add: i_def n_def g_def)
  next
    case (Some j)
    then show ?thesis using register_known[OF t(1-4) Some] lookup_tool_index(2)[OF Some] by (simp add: i_def n_def g_def)
  qed
  then show ?thesis using w unfolding g_def[symmetric] by blast
qed

lemma eval_known:
  assumes "gram_ok t" "valid_tool name" "lookup_tool t name = Some g"
  shows "EvalGrammar t name [] = Ret (0, 0, None)"
    "payload \<noteq> [] \<Longrightarrow> histNormalize256 payload = Ret (Some p) \<Longrightarrow> EvalGrammar t name payload =
      (if \<exists>b \<in> set payload. \<not> class_allowed (Char_mask_allowed g) b then Ret (256, FlagAnomaly OR FlagSuspiciousMCP, Some vetoGrammarJSON)
       else if ucast (Threshold_djs_q8 g) < C2bt_calc_djs_q8 p (Q_dist g) then Ret (C2bt_calc_djs_q8 p (Q_dist g), FlagAnomaly OR FlagSuspiciousMCP, Some vetoGrammarJSON)
       else Ret (C2bt_calc_djs_q8 p (Q_dist g), 0, None))"
proof -
  obtain i where i: "tool_index t name = Some i" "g = Tools t ! i" using assms(3) by (auto simp: lookup_tool_def)
  have "i < length (Tools t)" using assms(1) tool_index_Some[OF i(1)] by (simp add: gram_ok_def)
  moreover have "name \<noteq> []" using assms(2) by (auto simp: valid_tool_def)
  ultimately show "EvalGrammar t name [] = Ret (0, 0, None)"
    "payload \<noteq> [] \<Longrightarrow> histNormalize256 payload = Ret (Some p) \<Longrightarrow> EvalGrammar t name payload =
      (if \<exists>b \<in> set payload. \<not> class_allowed (Char_mask_allowed g) b then Ret (256, FlagAnomaly OR FlagSuspiciousMCP, Some vetoGrammarJSON)
       else if ucast (Threshold_djs_q8 g) < C2bt_calc_djs_q8 p (Q_dist g) then Ret (C2bt_calc_djs_q8 p (Q_dist g), FlagAnomaly OR FlagSuspiciousMCP, Some vetoGrammarJSON)
       else Ret (C2bt_calc_djs_q8 p (Q_dist g), 0, None))"
    using find_tool_ok[OF assms(1,2)] i
    by (simp_all add: EvalGrammar_def C2bt_grammar_eval_def Let_def list_ex_iff)
qed

lemma eval_unknown:
  assumes "gram_ok t" "valid_tool name" "lookup_tool t name = None"
  shows "EvalGrammar t name payload = Ret (0, FlagBlocked OR FlagAnomaly OR FlagSuspiciousMCP, Some vetoUnknownGrammarJSON)"
  using find_tool_ok[OF assms(1,2)] assms(3)
  by (simp add: EvalGrammar_def C2bt_grammar_eval_def lookup_tool_def)


lemma empty_catalogue_ok: "C2bt_grammar_init (Some t) = Some e \<Longrightarrow> gram_ok e \<and> lookup_tool e name = None"
  by (auto simp: C2bt_grammar_init_def gram_ok_def lookup_tool_def tool_index_def)

definition no_tools :: grammar_table where
  "no_tools = \<lparr>Tools = replicate 32 zero_profile_slot, ToolCount = 0\<rparr>"

lemma no_tools_ok: "gram_ok no_tools" "lookup_tool no_tools name = None" "tool_index no_tools name = None"
  using empty_catalogue_ok[of undefined no_tools name] by (simp_all add: C2bt_grammar_init_def no_tools_def lookup_tool_index(1)[symmetric])

text \<open>
  C25.  Registering a tool in a well-formed catalogue always ends and keeps it well-formed.  A bad
  name or an empty sample, and a new name in a full catalogue, are refused without any change.
  Otherwise the profile of the tool is the scaled histogram of the sample with the mask and the
  threshold, its registrations are counted up to 65535, the other tools keep their profiles, and
  with a threshold of at least one the sample itself then passes when its classes are allowed.\<close>

theorem grammar_register:
  assumes "gram_ok t" "length sample < 2 ^ 32"
  shows "\<exists>e t'. RegisterToolGrammar t name sample m th = Ret (e, t') \<and> gram_ok t'
    \<and> (e = Some ErrInvalidToolGrammar \<longleftrightarrow> \<not> valid_tool name \<or> sample = [])
    \<and> (e = Some ErrGrammarTableFull \<longleftrightarrow> valid_tool name \<and> sample \<noteq> [] \<and> lookup_tool t name = None \<and> ToolCount t = 32)
    \<and> (e \<noteq> None \<longrightarrow> t' = t)
    \<and> (e = None \<longrightarrow>
        (\<exists>q. histNormalize256 sample = Ret (Some q) \<and> lookup_tool t' name = Some (learnt (lookup_tool t name) name q m th))
        \<and> (\<forall>other. valid_tool other \<and> other \<noteq> name \<longrightarrow> lookup_tool t' other = lookup_tool t other)
        \<and> (1 \<le> th \<and> list_all (class_allowed m) sample \<longrightarrow> (\<exists>djs. EvalGrammar t' name sample = Ret (djs, 0, None) \<and> djs \<le> 1)))"
proof -
  have cap: "ToolCount t = 32 \<longleftrightarrow> unat (ToolCount t) = 32" by (simp add: word_unat_eq_iff)
  consider (bad) "\<not> valid_tool name \<or> sample = []"
    | (full) "valid_tool name" "sample \<noteq> []" "tool_index t name = None" "unat (ToolCount t) = 32"
    | (room) "valid_tool name" "sample \<noteq> []" "tool_index t name \<noteq> None \<or> unat (ToolCount t) < 32"
    using assms(1) by (auto simp: gram_ok_def le_less)
  then show ?thesis
  proof cases
    case bad
    then show ?thesis using assms(1) register_refused(1)[OF bad] by auto
  next
    case full
    then show ?thesis using assms(1) register_refused(2)[OF assms(1) full] cap by (auto simp: lookup_tool_index)
  next
    case room
    obtain q where q: "histNormalize256 sample = Ret (Some q)" "dist_ok q" using histNormalize_ok[OF room(2) assms(2)] by blast
    obtain t' where t': "RegisterToolGrammar t name sample m th = Ret (None, t')" "gram_ok t'"
        "lookup_tool t' name = Some (learnt (lookup_tool t name) name q m th)"
        "\<forall>other. valid_tool other \<and> other \<noteq> name \<longrightarrow> lookup_tool t' other = lookup_tool t other"
      using register_ok[OF assms(1) room(1,2) q room(3)] by blast
    have d: "C2bt_calc_djs_q8 q q \<le> 1" using djs_bounds(2)[OF q(2) q(2)] by (simp add: word_le_nat_alt)
    have "EvalGrammar t' name sample = Ret (C2bt_calc_djs_q8 q q, 0, None)" if th: "1 \<le> th" and l: "list_all (class_allowed m) sample"
    proof -
      have "unat (C2bt_calc_djs_q8 q q) \<le> unat th" using djs_bounds(2)[OF q(2) q(2)] th by (simp add: word_le_nat_alt)
      then have "\<not> (ucast th :: u32) < C2bt_calc_djs_q8 q q" using unat_bound[of th] by (simp add: word_less_nat_alt unat_ucast_mod)
      then show ?thesis using eval_known(2)[OF t'(2) room(1) t'(3) room(2) q(1)] l by (simp add: learnt_def list_all_iff)
    qed
    then show ?thesis using t' q(1) room cap d by (auto simp: lookup_tool_index)
  qed
qed

theorem grammar_register_witness:
  "(\<exists>e t'. RegisterToolGrammar no_tools [108, 115] [45, 108] 0xFF 1 = Ret (e, t') \<and> e = None \<and> (\<exists>djs. EvalGrammar t' [108, 115] [45, 108] = Ret (djs, 0, None) \<and> djs \<le> 1))
   \<and> list_all (class_allowed 0xFF) [45, 108]"
proof -
  have l: "list_all (class_allowed 0xFF) [45, 108]" by code_simp
  have v: "valid_tool [108, 115]" by (simp add: valid_tool_def)
  have c: "ToolCount no_tools \<noteq> 32" by (simp add: no_tools_def)
  have n: "length [45, 108 :: byte] < 2 ^ 32" by simp
  obtain e t' where r: "RegisterToolGrammar no_tools [108, 115] [45, 108] 0xFF 1 = Ret (e, t')"
      "e \<noteq> Some ErrInvalidToolGrammar" "e \<noteq> Some ErrGrammarTableFull"
      "e = None \<longrightarrow> (1 \<le> (1 :: u16) \<and> list_all (class_allowed 0xFF) [45, 108] \<longrightarrow> (\<exists>djs. EvalGrammar t' [108, 115] [45, 108] = Ret (djs, 0, None) \<and> djs \<le> 1))"
    using grammar_register[OF no_tools_ok(1) n, of "[108, 115]" "0xFF" 1] v c by blast
  then have "e = None" by (cases e) (auto intro: grammar_error.exhaust)
  then show ?thesis using r l by blast
qed

text \<open>In a well-formed catalogue a call with a name without NUL octets always ends with a verdict and a
  divergence of at most 256.  An unknown tool is blocked; a known one passes exactly when every octet of
  the payload has a class the tool allows and the divergence is not above the tool's threshold, and
  otherwise the call is answered by the veto and flagged.\<close>

lemma grammar_eval_exact:
  assumes "gram_ok t" "valid_tool name" "length payload < 2 ^ 32"
  shows "\<exists>djs flags v. EvalToolCall t name payload = Ret (djs, flags, v) \<and> djs \<le> 256
    \<and> (v = Some vetoUnknownGrammarJSON \<longleftrightarrow> lookup_tool t name = None)
    \<and> (v = None \<longleftrightarrow> (\<exists>g. lookup_tool t name = Some g \<and> list_all (class_allowed (Char_mask_allowed g)) payload \<and> djs \<le> ucast (Threshold_djs_q8 g)))
    \<and> (case v of None \<Rightarrow> flags = 0 | Some vetoUnknownGrammarJSON \<Rightarrow> flags = FlagBlocked OR FlagAnomaly OR FlagSuspiciousMCP
        | Some vetoGrammarJSON \<Rightarrow> flags = FlagAnomaly OR FlagSuspiciousMCP)
    \<and> (v = None \<and> payload \<noteq> [] \<longrightarrow> (\<exists>g p. lookup_tool t name = Some g \<and> histNormalize256 payload = Ret (Some p) \<and> djs = C2bt_calc_djs_q8 p (Q_dist g)))"
proof (cases "lookup_tool t name")
  case None
  then show ?thesis using eval_unknown[OF assms(1,2) None, of payload] by (simp add: EvalToolCall_def)
next
  case (Some g)
  show ?thesis
  proof (cases "payload = []")
    case True
    then show ?thesis using eval_known(1)[OF assms(1,2) Some] Some by (simp add: EvalToolCall_def)
  next
    case False
    obtain p where p: "histNormalize256 payload = Ret (Some p)" "dist_ok p" using histNormalize_ok[OF False assms(3)] by blast
    have d: "C2bt_calc_djs_q8 p (Q_dist g) \<le> 256"
      using djs_bounds(1)[OF p(2) lookup_tool_dist[OF assms(1) Some]] by (simp add: word_le_nat_alt)
    show ?thesis using eval_known(2)[OF assms(1,2) Some False p(1)] Some p(1) d
      by (auto simp: EvalToolCall_def list_all_iff linorder_not_less)
  qed
qed

text \<open>Registration refuses a name with a NUL octet, evaluation does not: such a name reaches the tool whose name stands before it.\<close>

lemma nul_name_test:
  assumes "valid_tool nm" "valid_tool name" "length name + 1 < 32"
  shows "same_octets (padded nm) (name @ [0]) \<and> padded nm ! length (name @ [0]) = 0 \<longleftrightarrow> padded nm = padded name"
proof -
  have len: "length (padded nm) = 32" using assms(1) by (simp add: padded_def valid_tool_def)
  have "prefix (name @ [0]) (padded nm) \<longleftrightarrow> prefix name (padded nm) \<and> padded nm ! length name = 0"
    using len assms(3) append_one_prefix[of name "padded nm"] by (auto simp: prefix_def)
  moreover have "padded name ! Suc (length name) = 0" using assms(3) by (simp add: padded_def nth_append)
  ultimately show ?thesis using name_test[OF assms(1,2)] by (auto simp: same_octets_iff)
qed

lemma nul_suffix_aliases:
  assumes "gram_ok t" "valid_tool name" "length name + 1 < 32"
  shows "EvalToolCall t (name @ [0]) payload = EvalToolCall t name payload"
proof -
  have "find_tool_loop (Tools t) (name @ [0]) ix = find_tool_loop (Tools t) name ix" if "\<forall>i \<in> set ix. i < unat (ToolCount t)" for ix
    using that
  proof (induction ix)
    case (Cons i ix)
    then have i: "i < length (Tools t)" "slot_ok (Tools t ! i)" using assms(1) by (auto simp: gram_ok_def)
    then obtain nm where nm: "valid_tool nm" "Tool_name (Tools t ! i) = padded nm" by (auto simp: slot_ok_def)
    show ?case using Cons i(1) nm(2) name_test[OF nm(1) assms(2)] nul_name_test[OF nm(1) assms(2,3)] by simp
  qed simp
  then have "grammarFindTool t (name @ [0]) = grammarFindTool t name" using assms(2,3) by (simp add: grammarFindTool_def valid_tool_def)
  then show ?thesis using assms(2) by (simp add: EvalToolCall_def EvalGrammar_def C2bt_grammar_eval_def valid_tool_def)
qed

end
