(* ===== verification/Trace.thy ===== *)
theory Trace
  imports Prelude
begin

text \<open>
  Runs of a tracker over a sequence of observations.  The trackers keep fixed tables whose contents
  come from the observations so far; locale \<open>traced\<close> is the contract that relates a state to its
  history, and its lemma carries the relation along a run.  \<open>adm\<close> restricts the histories, for
  example to instants that do not decrease.
\<close>

fun run_steps :: "('s \<Rightarrow> 'x \<Rightarrow> ('r \<times> 's) outcome) \<Rightarrow> 's \<Rightarrow> 'x list \<Rightarrow> 's outcome" where
  "run_steps step s [] = Ret s"
| "run_steps step s (x # xs) = obind (step s x) (\<lambda>(_, s). run_steps step s xs)"

lemma run_steps_snoc: "run_steps step s (xs @ [x]) = obind (run_steps step s xs) (\<lambda>s. obind (step s x) (\<lambda>(_, s). Ret s))"
proof (induction xs arbitrary: s)
  case Nil
  show ?case by (cases "step s x") auto
next
  case (Cons y xs)
  show ?case by (cases "step s y") (auto simp: Cons.IH)
qed

locale traced =
  fixes step :: "'s \<Rightarrow> 'x \<Rightarrow> ('r \<times> 's) outcome" and adm :: "'x list \<Rightarrow> bool" and inv :: "'x list \<Rightarrow> 's \<Rightarrow> bool"
  assumes adm_prefix: "adm (xs @ [x]) \<Longrightarrow> adm xs"
    and keeps: "adm (xs @ [x]) \<Longrightarrow> inv xs s \<Longrightarrow> \<exists>r s'. step s x = Ret (r, s') \<and> inv (xs @ [x]) s'"
begin

lemma run_inv: "adm xs \<Longrightarrow> inv [] s \<Longrightarrow> \<exists>s'. run_steps step s xs = Ret s' \<and> inv xs s'"
proof (induction xs rule: rev_induct)
  case (snoc x xs)
  then obtain s1 where s1: "run_steps step s xs = Ret s1" "inv xs s1" using adm_prefix by blast
  from keeps[OF snoc.prems(1) s1(2)] s1(1) show ?case by (auto simp: run_steps_snoc)
qed simp

end

end
