(* ===== verification/NonLdhGuard.thy ===== *)
theory NonLdhGuard
  imports DnsGrammar Veto Trace
begin

text \<open>
  The episode guard of \<open>nonldh_guard.go\<close>: per parent domain, in a table of 1024 cases probed at eight
  places, the questions with names outside letters, digits and hyphens are counted over a window of
  300 seconds, with the last 32 distinct fingerprints of their sub-domains.  Instants are 64-bit
  nanoseconds, whose differences wrap.
\<close>

section \<open>The guard\<close>

abbreviation capaciteGardeNonLDH :: u64 where "capaciteGardeNonLDH \<equiv> 1024"
abbreviation FenetreGardeNonLDHNs :: int where "FenetreGardeNonLDHNs \<equiv> 300000000000"

datatype nonldh_reason = ReasonV1NonLDHBinaryBurst | ReasonV1NonLDHTunnelQType | ReasonV1NonLDHUTF8UniqueBurst

text \<open>The indicator and the reason are two strings of the same rule; a verdict without a rule has neither.\<close>

record NonLDHVerdict =
  Hostile :: bool
  vReason :: "nonldh_reason option"
  QuestionsFenetre :: u16
  SousDistincts :: u16

definition Indicator :: "nonldh_reason \<Rightarrow> bytes" where
  "Indicator r = (case r of ReasonV1NonLDHBinaryBurst \<Rightarrow> ascii ''NON_LDH_BINARY_BURST'' | ReasonV1NonLDHTunnelQType \<Rightarrow> ascii ''NON_LDH_TUNNEL_QTYPE''
     | ReasonV1NonLDHUTF8UniqueBurst \<Rightarrow> ascii ''NON_LDH_UTF8_UNIQUE_BURST'')"

record caseGardeNonLDH =
  empreinteParent :: u64
  debutFenetreNs :: int
  derniereVueNs :: int
  questions :: u16
  sousDistincts :: u16
  questionsTunnel :: u16
  curseurEmpreinte :: byte
  occupee :: bool
  empreintesSous :: "u64 list"

definition zero_case :: caseGardeNonLDH where
  "zero_case = \<lparr>empreinteParent = 0, debutFenetreNs = 0, derniereVueNs = 0, questions = 0, sousDistincts = 0, questionsTunnel = 0,
     curseurEmpreinte = 0, occupee = False, empreintesSous = replicate 32 0\<rparr>"

definition opened_case :: "u64 \<Rightarrow> int \<Rightarrow> caseGardeNonLDH" where
  "opened_case fp instantNs = zero_case\<lparr>empreinteParent := fp, debutFenetreNs := instantNs, occupee := True\<rparr>"

record NonLDHBurstGuard =
  gcases :: "nat \<Rightarrow> caseGardeNonLDH"
  gevictions :: u64

definition guard_Reset :: "NonLDHBurstGuard \<Rightarrow> NonLDHBurstGuard" where
  "guard_Reset g = g\<lparr>gcases := (\<lambda>_. zero_case), gevictions := 0\<rparr>"

definition guard_Evictions :: "NonLDHBurstGuard \<Rightarrow> u64" where
  "guard_Evictions g = gevictions g"

definition IsTunnelQType :: "u16 \<Rightarrow> bool" where
  "IsTunnelQType qtype \<longleftrightarrow> qtype = TypeNULL \<or> 65280 \<le> qtype \<and> qtype \<le> 65534"

definition fnv64Msg :: "bytes \<Rightarrow> u64" where
  "fnv64Msg b = foldl (\<lambda>h c. (h XOR ucast c) * 1099511628211) 14695981039346656037 b"

text \<open>The probes: the case of the parent, or the candidate to reserve.\<close>

fun sonder :: "(nat \<Rightarrow> caseGardeNonLDH) \<Rightarrow> u64 \<Rightarrow> int \<Rightarrow> nat list \<Rightarrow> nat option \<Rightarrow> nat + nat option" where
  "sonder cs fp instantNs [] candidate = Inr candidate"
| "sonder cs fp instantNs (i # ix) candidate =
     (if occupee (cs i) \<and> empreinteParent (cs i) = fp then Inl i
      else let expiree = occupee (cs i) \<and> FenetreGardeNonLDHNs < go_int (instantNs - derniereVueNs (cs i)) in
        if \<not> occupee (cs i) \<or> expiree
        then sonder cs fp instantNs ix (case candidate of None \<Rightarrow> Some i | Some c \<Rightarrow> if occupee (cs c) then Some i else candidate)
        else sonder cs fp instantNs ix (case candidate of None \<Rightarrow> Some i
               | Some c \<Rightarrow> if occupee (cs c) \<and> derniereVueNs (cs i) < derniereVueNs (cs c) then Some i else candidate))"

definition probes :: "u64 \<Rightarrow> nat list" where
  "probes fp = map (\<lambda>sonde. unat (((fp AND (capaciteGardeNonLDH - 1)) + word_of_nat sonde) AND (capaciteGardeNonLDH - 1))) [0..<8]"

definition trouverOuReserver :: "NonLDHBurstGuard \<Rightarrow> u64 \<Rightarrow> int \<Rightarrow> (nat \<times> NonLDHBurstGuard) outcome" where
  "trouverOuReserver g fp instantNs = (case sonder (gcases g) fp instantNs (probes fp) None of
     Inl i \<Rightarrow> Ret (i, g)
   | Inr None \<Rightarrow> Panic
   | Inr (Some c) \<Rightarrow> Ret (c,
       \<lparr>gcases = (gcases g)(c := opened_case fp instantNs),
        gevictions = (if occupee (gcases g c) \<and> go_int (instantNs - derniereVueNs (gcases g c)) \<le> FenetreGardeNonLDHNs
                      then gevictions g + 1 else gevictions g)\<rparr>))"

definition empreinteRecente :: "caseGardeNonLDH \<Rightarrow> u64 \<Rightarrow> bool" where
  "empreinteRecente e fp \<longleftrightarrow> fp \<in> set (take (min (unat (sousDistincts e)) 32) (empreintesSous e))"

definition bump16 :: "u16 \<Rightarrow> u16" where
  "bump16 n = (if n < 0xFFFF then n + 1 else n)"

text \<open>A question noted in the case of its parent.\<close>

definition noter_sous :: "caseGardeNonLDH \<Rightarrow> u64 \<Rightarrow> caseGardeNonLDH outcome" where
  "noter_sous e fp = (if empreinteRecente e fp then Ret e
     else obind (write_at (empreintesSous e) (unat (curseurEmpreinte e)) fp) (\<lambda>fs.
       Ret (e\<lparr>empreintesSous := fs, curseurEmpreinte := (curseurEmpreinte e + 1) mod 32, sousDistincts := bump16 (sousDistincts e)\<rparr>)))"

definition noter :: "caseGardeNonLDH \<Rightarrow> u64 \<Rightarrow> u64 \<Rightarrow> u16 \<Rightarrow> int \<Rightarrow> caseGardeNonLDH outcome" where
  "noter e fp fps qtype instantNs0 =
     (let instantNs = (if instantNs0 < derniereVueNs e then derniereVueNs e else instantNs0);
          e = (if FenetreGardeNonLDHNs < go_int (instantNs - debutFenetreNs e) then opened_case fp instantNs else e);
          e = e\<lparr>derniereVueNs := instantNs, questions := bump16 (questions e),
                questionsTunnel := (if IsTunnelQType qtype then bump16 (questionsTunnel e) else questionsTunnel e)\<rparr> in
      noter_sous e fps)"

definition decider :: "caseGardeNonLDH \<Rightarrow> QNameGrammar \<Rightarrow> u16 \<Rightarrow> NonLDHVerdict" where
  "decider e cl qtype = (let v = \<lparr>Hostile = False, vReason = None, QuestionsFenetre = questions e, SousDistincts = sousDistincts e\<rparr> in
     if IsTunnelQType qtype \<and> 2 \<le> questionsTunnel e then v\<lparr>Hostile := True, vReason := Some ReasonV1NonLDHTunnelQType\<rparr>
     else if (cl = QNameGrammarBinary \<or> cl = QNameGrammarASCIIOutsideLDH) \<and> 3 \<le> sousDistincts e
     then v\<lparr>Hostile := True, vReason := Some ReasonV1NonLDHBinaryBurst\<rparr>
     else if cl = QNameGrammarUTF8Local \<and> 8 \<le> sousDistincts e \<and> (ucast (questions e) :: u32) * 9 \<le> ucast (sousDistincts e) * 10
     then v\<lparr>Hostile := True, vReason := Some ReasonV1NonLDHUTF8UniqueBurst\<rparr>
     else v)"

definition guard_Observe :: "NonLDHBurstGuard \<Rightarrow> bytes \<Rightarrow> bytes \<Rightarrow> QNameGrammarProfile \<Rightarrow> u16 \<Rightarrow> int \<Rightarrow> (NonLDHVerdict \<times> NonLDHBurstGuard) outcome" where
  "guard_Observe g parent sousDomaine profil qtype instantNs =
     (if Classe profil = QNameGrammarLDH \<or> Classe profil = QNameGrammarDNSSDInstance
      then Ret (\<lparr>Hostile = False, vReason = None, QuestionsFenetre = 0, SousDistincts = 0\<rparr>, g)
      else obind (trouverOuReserver g (fnv64Msg parent) instantNs) (\<lambda>(i, g).
        obind (noter (gcases g i) (fnv64Msg parent) (fnv64Msg sousDomaine) qtype instantNs) (\<lambda>e.
          Ret (decider e (Classe profil) qtype, g\<lparr>gcases := (gcases g)(i := e)\<rparr>))))"


section \<open>What the counters stand for\<close>

record question =
  oParent :: bytes
  oSous :: bytes
  oProfil :: QNameGrammarProfile
  oQType :: u16
  oInstant :: int

definition observe :: "NonLDHBurstGuard \<Rightarrow> question \<Rightarrow> (NonLDHVerdict \<times> NonLDHBurstGuard) outcome" where
  "observe g q = guard_Observe g (oParent q) (oSous q) (oProfil q) (oQType q) (oInstant q)"

definition counted :: "question \<Rightarrow> bool" where
  "counted q \<longleftrightarrow> Classe (oProfil q) \<noteq> QNameGrammarLDH \<and> Classe (oProfil q) \<noteq> QNameGrammarDNSSDInstance"

text \<open>The counted questions of a parent since an instant.\<close>

definition episode :: "question list \<Rightarrow> u64 \<Rightarrow> int \<Rightarrow> question list" where
  "episode qs fp since = filter (\<lambda>q. counted q \<and> fnv64Msg (oParent q) = fp \<and> since \<le> oInstant q) qs"

definition tunnels :: "question list \<Rightarrow> nat" where
  "tunnels qs = length (filter (\<lambda>q. IsTunnelQType (oQType q)) qs)"

definition sub_prints :: "question list \<Rightarrow> u64 set" where
  "sub_prints qs = (\<lambda>q. fnv64Msg (oSous q)) ` set qs"

definition kept :: "caseGardeNonLDH \<Rightarrow> u64 list" where
  "kept e = take (min (unat (sousDistincts e)) 32) (empreintesSous e)"

definition backed :: "question list \<Rightarrow> caseGardeNonLDH \<Rightarrow> bool" where
  "backed qs e \<longleftrightarrow> unat (questions e) \<le> length qs \<and> unat (questionsTunnel e) \<le> tunnels qs
     \<and> length (empreintesSous e) = 32 \<and> unat (curseurEmpreinte e) < 32 \<and> (unat (sousDistincts e) < 32 \<longrightarrow> unat (curseurEmpreinte e) = unat (sousDistincts e))
     \<and> distinct (kept e) \<and> set (kept e) \<subseteq> sub_prints qs"

lemma unat_bump16: "unat (bump16 n) = min (unat n + 1) 65535"
  using unat_plus_one[of n] unat_bound[of n] by (auto simp: bump16_def word_less_nat_alt)

lemma bump16_le: "unat n \<le> k \<Longrightarrow> unat (bump16 n) \<le> k + 1"
  by (simp add: unat_bump16)

lemma backed_opened: "backed qs (opened_case fp t)"
  by (simp add: backed_def opened_case_def zero_case_def kept_def)

lemma episode_append: "episode (qs @ rs) fp t = episode qs fp t @ episode rs fp t"
  by (simp add: episode_def)

lemma tunnels_append: "tunnels (qs @ rs) = tunnels qs + tunnels rs"
  by (simp add: tunnels_def)

lemma backed_more: "backed qs e \<Longrightarrow> backed (qs @ rs) e"
  by (auto simp: backed_def tunnels_append sub_prints_def)

lemma cursor_step:
  fixes c :: byte
  assumes "unat c < 32"
  shows "unat ((c + 1) mod 32) = (unat c + 1) mod 32"
  using assms unat_plus_one[of c] by (simp add: unat_mod)

text \<open>Writing a new fingerprint: the kept ones stay distinct.\<close>

lemma kept_write:
  assumes "length fs = 32" "c < (32 :: nat)" "n < 32 \<longrightarrow> c = n" "distinct (take (min n 32) fs)" "x \<notin> set (take (min n 32) fs)"
  shows "distinct (take (min (n + 1) 32) (fs[c := x]))" "set (take (min (n + 1) 32) (fs[c := x])) \<subseteq> insert x (set (take (min n 32) fs))"
proof -
  have "distinct (take (min (n + 1) 32) (fs[c := x])) \<and> set (take (min (n + 1) 32) (fs[c := x])) \<subseteq> insert x (set (take (min n 32) fs))"
  proof (cases "n < 32")
    case True
    then have "take (n + 1) (fs[n := x]) = take n fs @ [x]" using assms(1) by (simp add: take_Suc_conv_app_nth)
    then show ?thesis using assms True by simp
  next
    case False
    then have t: "take (min (n + 1) 32) (fs[c := x]) = fs[c := x]" "take (min n 32) fs = fs" using assms(1) by (simp_all add: min_def)
    then show ?thesis using assms set_update_subset_insert[of fs c x] by (simp add: distinct_list_update)
  qed
  then show "distinct (take (min (n + 1) 32) (fs[c := x]))" "set (take (min (n + 1) 32) (fs[c := x])) \<subseteq> insert x (set (take (min n 32) fs))" by simp_all
qed

lemma noter_sous_ok:
  assumes "backed qs e" "fnv64Msg (oSous q) = fp" "q \<in> set qs"
  shows "\<exists>e'. noter_sous e fp = Ret e' \<and> backed qs e' \<and> empreinteParent e' = empreinteParent e \<and> debutFenetreNs e' = debutFenetreNs e
    \<and> derniereVueNs e' = derniereVueNs e \<and> occupee e' = occupee e"
proof (cases "fp \<in> set (kept e)")
  case True
  then show ?thesis using assms(1) by (simp add: noter_sous_def empreinteRecente_def kept_def)
next
  case False
  let ?fs = "empreintesSous e" and ?c = "unat (curseurEmpreinte e)" and ?n = "unat (sousDistincts e)"
  define e' where "e' = e\<lparr>empreintesSous := ?fs[?c := fp], curseurEmpreinte := (curseurEmpreinte e + 1) mod 32, sousDistincts := bump16 (sousDistincts e)\<rparr>"
  have b: "length ?fs = 32" "?c < 32" "?n < 32 \<longrightarrow> ?c = ?n" "distinct (take (min ?n 32) ?fs)" "set (take (min ?n 32) ?fs) \<subseteq> sub_prints qs"
    using assms(1) by (auto simp: backed_def kept_def)
  have r: "noter_sous e fp = Ret e'" using False b by (simp add: noter_sous_def empreinteRecente_def kept_def write_at_def e'_def)
  have k: "kept e' = take (min (?n + 1) 32) (?fs[?c := fp])" by (simp add: kept_def e'_def unat_bump16 min_def)
  note w = kept_write[OF b(1-4) False[unfolded kept_def]]
  have fp: "fp \<in> sub_prints qs" using assms(2,3) by (auto simp: sub_prints_def)
  have m: "unat (curseurEmpreinte e') = (?c + 1) mod 32" using cursor_step[OF b(2)] by (simp add: e'_def)
  have "backed qs e'"
    unfolding backed_def
  proof (intro conjI)
    show "unat (sousDistincts e') < 32 \<longrightarrow> unat (curseurEmpreinte e') = unat (sousDistincts e')" using m b(2,3) by (simp add: e'_def unat_bump16)
    show "distinct (kept e')" "set (kept e') \<subseteq> sub_prints qs" using w k fp b(5) by auto
  qed (use assms(1) b m in \<open>simp_all add: backed_def e'_def\<close>)
  then show ?thesis using r by (simp add: e'_def)
qed


lemma noter_ok:
  assumes q: "counted q" "fnv64Msg (oParent q) = fp" "oInstant q < 2 ^ 62"
    and e: "empreinteParent e = fp" "occupee e" "0 \<le> debutFenetreNs e" "debutFenetreNs e \<le> oInstant q" "derniereVueNs e \<le> oInstant q"
      "backed (episode qs fp (debutFenetreNs e)) e"
  shows "\<exists>e'. noter e fp (fnv64Msg (oSous q)) (oQType q) (oInstant q) = Ret e' \<and> occupee e' \<and> empreinteParent e' = fp
    \<and> 0 \<le> debutFenetreNs e' \<and> debutFenetreNs e' \<le> oInstant q \<and> oInstant q - debutFenetreNs e' \<le> FenetreGardeNonLDHNs
    \<and> derniereVueNs e' = oInstant q \<and> backed (episode (qs @ [q]) fp (debutFenetreNs e')) e'"
proof -
  let ?t = "oInstant q"
  define e0 where "e0 = (if FenetreGardeNonLDHNs < ?t - debutFenetreNs e then opened_case fp ?t else e)"
  define e1 where "e1 = e0\<lparr>derniereVueNs := ?t, questions := bump16 (questions e0),
                questionsTunnel := (if IsTunnelQType (oQType q) then bump16 (questionsTunnel e0) else questionsTunnel e0)\<rparr>"
  have g: "go_int (?t - debutFenetreNs e) = ?t - debutFenetreNs e" using q(3) e(3,4) by simp
  have e0: "empreinteParent e0 = fp" "occupee e0" "0 \<le> debutFenetreNs e0" "debutFenetreNs e0 \<le> ?t" "?t - debutFenetreNs e0 \<le> FenetreGardeNonLDHNs"
      "backed (episode qs fp (debutFenetreNs e0)) e0"
    using e backed_opened[of "episode qs fp ?t" fp ?t] by (auto simp: e0_def opened_case_def)
  have ep: "episode (qs @ [q]) fp (debutFenetreNs e0) = episode qs fp (debutFenetreNs e0) @ [q]"
    using q e0(4) by (simp add: episode_def)
  have "backed (episode (qs @ [q]) fp (debutFenetreNs e0)) e1"
    using backed_more[OF e0(6), of "[q]"] e0(6) bump16_le unfolding ep by (auto simp: backed_def e1_def kept_def tunnels_append tunnels_def)
  from noter_sous_ok[OF this refl, of q] obtain e' where e': "noter_sous e1 (fnv64Msg (oSous q)) = Ret e'"
      "backed (episode (qs @ [q]) fp (debutFenetreNs e0)) e'" "empreinteParent e' = empreinteParent e1" "debutFenetreNs e' = debutFenetreNs e1"
      "derniereVueNs e' = derniereVueNs e1" "occupee e' = occupee e1"
    unfolding ep by auto
  have "noter e fp (fnv64Msg (oSous q)) (oQType q) ?t = noter_sous e1 (fnv64Msg (oSous q))"
    unfolding noter_def e1_def e0_def Let_def using e(5) g by simp
  then show ?thesis using e' e0 by (simp add: e1_def)
qed

lemma sonder_found: "sonder cs fp t ix c0 = Inl i \<Longrightarrow> occupee (cs i) \<and> empreinteParent (cs i) = fp"
  by (induction ix arbitrary: c0) (auto simp: Let_def split: if_splits)

lemma sonder_candidate: "sonder cs fp t ix c0 = Inr None \<Longrightarrow> ix = [] \<and> c0 = None"
proof (induction ix arbitrary: c0)
  case (Cons i ix)
  from Cons.prems have False
    by (auto simp: Let_def split: if_splits option.splits dest!: Cons.IH)
  then show ?case ..
qed simp

lemma trouver_ok:
  shows "\<exists>i g'. trouverOuReserver g fp t = Ret (i, g')
    \<and> (g' = g \<and> occupee (gcases g i) \<and> empreinteParent (gcases g i) = fp \<or> gcases g' = (gcases g)(i := opened_case fp t))"
proof (cases "sonder (gcases g) fp t (probes fp) None")
  case (Inl i)
  then show ?thesis using sonder_found[OF Inl] by (simp add: trouverOuReserver_def)
next
  case (Inr c)
  then show ?thesis using sonder_candidate[of "gcases g" fp t "probes fp" None] by (cases c) (auto simp: trouverOuReserver_def probes_def)
qed

definition guard_ok :: "question list \<Rightarrow> int \<Rightarrow> NonLDHBurstGuard \<Rightarrow> bool" where
  "guard_ok qs t g \<longleftrightarrow> (\<forall>i. occupee (gcases g i) \<longrightarrow> 0 \<le> debutFenetreNs (gcases g i) \<and> debutFenetreNs (gcases g i) \<le> t \<and> derniereVueNs (gcases g i) \<le> t
     \<and> backed (episode qs (empreinteParent (gcases g i)) (debutFenetreNs (gcases g i))) (gcases g i))"

lemma guard_ok_later: "guard_ok qs t g \<Longrightarrow> t \<le> t' \<Longrightarrow> guard_ok (qs @ rs) t' g"
  unfolding guard_ok_def episode_append by (auto intro: backed_more)

lemma observe_ok:
  assumes "guard_ok qs t g" "0 \<le> t" "t \<le> oInstant q" "oInstant q < 2 ^ 62"
  shows "\<exists>v g'. observe g q = Ret (v, g') \<and> guard_ok (qs @ [q]) (oInstant q) g'
    \<and> (\<not> counted q \<longrightarrow> \<not> Hostile v \<and> g' = g)
    \<and> (counted q \<longrightarrow> (\<exists>e since. v = decider e (Classe (oProfil q)) (oQType q) \<and> oInstant q - FenetreGardeNonLDHNs \<le> since
         \<and> backed (episode (qs @ [q]) (fnv64Msg (oParent q)) since) e))"
proof (cases "counted q")
  case False
  then show ?thesis using guard_ok_later[OF assms(1,3), of "[q]"] by (auto simp: observe_def guard_Observe_def counted_def)
next
  case True
  let ?fp = "fnv64Msg (oParent q)"
  obtain i g0 where g0: "trouverOuReserver g ?fp (oInstant q) = Ret (i, g0)"
      "g0 = g \<and> occupee (gcases g i) \<and> empreinteParent (gcases g i) = ?fp \<or> gcases g0 = (gcases g)(i := opened_case ?fp (oInstant q))"
    using trouver_ok by blast
  have i: "empreinteParent (gcases g0 i) = ?fp" "occupee (gcases g0 i)" "0 \<le> debutFenetreNs (gcases g0 i)" "debutFenetreNs (gcases g0 i) \<le> oInstant q"
      "derniereVueNs (gcases g0 i) \<le> oInstant q" "backed (episode qs ?fp (debutFenetreNs (gcases g0 i))) (gcases g0 i)"
    using g0(2) assms backed_opened[of "episode qs ?fp (oInstant q)" ?fp "oInstant q"]
    by (auto simp: guard_ok_def opened_case_def zero_case_def dest: spec[of _ i])
  obtain e where e: "noter (gcases g0 i) ?fp (fnv64Msg (oSous q)) (oQType q) (oInstant q) = Ret e" "occupee e" "empreinteParent e = ?fp"
      "0 \<le> debutFenetreNs e" "debutFenetreNs e \<le> oInstant q" "oInstant q - debutFenetreNs e \<le> FenetreGardeNonLDHNs"
      "derniereVueNs e = oInstant q" "backed (episode (qs @ [q]) ?fp (debutFenetreNs e)) e"
    using noter_ok[OF True refl assms(4) i] by blast
  define g' where "g' = g0\<lparr>gcases := (gcases g0)(i := e)\<rparr>"
  have r: "observe g q = Ret (decider e (Classe (oProfil q)) (oQType q), g')"
    using True g0(1) e(1) by (simp add: observe_def guard_Observe_def counted_def g'_def)
  have others: "gcases g' j = gcases g j" if "j \<noteq> i" for j using g0(2) that by (auto simp: g'_def)
  have "guard_ok (qs @ [q]) (oInstant q) g'" unfolding guard_ok_def
  proof (intro allI impI)
    fix j assume j: "occupee (gcases g' j)"
    show "0 \<le> debutFenetreNs (gcases g' j) \<and> debutFenetreNs (gcases g' j) \<le> oInstant q \<and> derniereVueNs (gcases g' j) \<le> oInstant q
      \<and> backed (episode (qs @ [q]) (empreinteParent (gcases g' j)) (debutFenetreNs (gcases g' j))) (gcases g' j)"
    proof (cases "j = i")
      case True
      then show ?thesis using e by (simp add: g'_def)
    next
      case False
      then show ?thesis using guard_ok_later[OF assms(1,3), of "[q]"] j others[OF False] by (simp add: guard_ok_def)
    qed
  qed
  moreover have "oInstant q - FenetreGardeNonLDHNs \<le> debutFenetreNs e" using e(6) by simp
  ultimately show ?thesis using r True e(8) by blast
qed


text \<open>Histories whose instants are 62-bit and do not decrease.\<close>

definition in_order :: "question list \<Rightarrow> bool" where
  "in_order qs \<longleftrightarrow> sorted (0 # map oInstant qs) \<and> (\<forall>q \<in> set qs. oInstant q < 2 ^ 62)"

definition last_instant :: "question list \<Rightarrow> int" where
  "last_instant qs = last (0 # map oInstant qs)"

lemma last_instant_le: "in_order (qs @ [q]) \<Longrightarrow> 0 \<le> last_instant qs \<and> last_instant qs \<le> oInstant q \<and> oInstant q < 2 ^ 62"
proof -
  have "last_instant qs \<in> set (0 # map oInstant qs)" unfolding last_instant_def by (rule last_in_set) simp
  then show "in_order (qs @ [q]) \<Longrightarrow> ?thesis" by (auto simp: in_order_def sorted_append)
qed

interpretation nonldh: traced observe in_order "\<lambda>qs. guard_ok qs (last_instant qs)"
proof
  show "in_order (qs @ [q]) \<Longrightarrow> in_order qs" for qs q by (auto simp: in_order_def sorted_append)
  show "\<exists>v g'. observe g q = Ret (v, g') \<and> guard_ok (qs @ [q]) (last_instant (qs @ [q])) g'"
    if "in_order (qs @ [q])" "guard_ok qs (last_instant qs) g" for qs q g
    using observe_ok[OF that(2), of q] last_instant_le[OF that(1)] by (auto simp: last_instant_def)
qed

lemma episode_longer:
  assumes "t \<le> t'"
  shows "tunnels (episode qs fp t') \<le> tunnels (episode qs fp t)" "sub_prints (episode qs fp t') \<subseteq> sub_prints (episode qs fp t)"
proof -
  show "tunnels (episode qs fp t') \<le> tunnels (episode qs fp t)"
    using assms by (induction qs) (auto simp: tunnels_def episode_def)
  show "sub_prints (episode qs fp t') \<subseteq> sub_prints (episode qs fp t)"
    using assms by (fastforce simp: sub_prints_def episode_def)
qed

lemma backed_distinct:
  assumes "backed qs e" "k \<le> unat (sousDistincts e)" "k \<le> 32"
  shows "k \<le> card (sub_prints qs)"
proof -
  have "k \<le> length (kept e)" using assms by (simp add: backed_def kept_def)
  also have "\<dots> = card (set (kept e))" using assms(1) by (simp add: backed_def distinct_card)
  also have "\<dots> \<le> card (sub_prints qs)" using assms(1) by (intro card_mono) (auto simp: backed_def sub_prints_def)
  finally show ?thesis .
qed

text \<open>
  C26.  After any sequence of questions whose instants do not decrease, the guard answers the next one
  without a panic.  Names of letters, digits and hyphens and service instances change nothing and are
  never hostile.  A hostile answer always has its evidence among the counted questions of the same
  parent fingerprint of the last 300 seconds: two of a tunnel type for the tunnel rule, three
  different sub-domain fingerprints for the binary rule, eight for the UTF-8 rule.\<close>

theorem nonldh_hostile_backed:
  assumes "in_order (qs @ [q])"
  shows "\<exists>g v g'. run_steps observe (guard_Reset g0) qs = Ret g \<and> observe g q = Ret (v, g')
    \<and> (\<not> counted q \<longrightarrow> \<not> Hostile v \<and> g' = g)
    \<and> (Hostile v \<longleftrightarrow> vReason v \<noteq> None)
    \<and> (let seen = episode (qs @ [q]) (fnv64Msg (oParent q)) (oInstant q - FenetreGardeNonLDHNs) in case vReason v of
         None \<Rightarrow> True
       | Some ReasonV1NonLDHTunnelQType \<Rightarrow> 2 \<le> tunnels seen \<and> IsTunnelQType (oQType q)
       | Some ReasonV1NonLDHBinaryBurst \<Rightarrow> 3 \<le> card (sub_prints seen)
       | Some ReasonV1NonLDHUTF8UniqueBurst \<Rightarrow> 8 \<le> card (sub_prints seen) \<and> Classe (oProfil q) = QNameGrammarUTF8Local)"
proof -
  have "guard_ok [] (last_instant []) (guard_Reset g0)" by (simp add: guard_ok_def guard_Reset_def zero_case_def)
  then obtain g where g: "run_steps observe (guard_Reset g0) qs = Ret g" "guard_ok qs (last_instant qs) g"
    using nonldh.run_inv nonldh.adm_prefix[OF assms] by blast
  note t = last_instant_le[OF assms]
  obtain v g' where o: "observe g q = Ret (v, g')" "\<not> counted q \<longrightarrow> \<not> Hostile v \<and> g' = g"
      "counted q \<longrightarrow> (\<exists>e since. v = decider e (Classe (oProfil q)) (oQType q) \<and> oInstant q - FenetreGardeNonLDHNs \<le> since
         \<and> backed (episode (qs @ [q]) (fnv64Msg (oParent q)) since) e)"
    using observe_ok[OF g(2), of q] t by blast
  show ?thesis
  proof (cases "counted q")
    case False
    then have "vReason v = None" "\<not> Hostile v" using o(1) by (auto simp: observe_def guard_Observe_def counted_def)
    then show ?thesis using g(1) o(1,2) by simp
  next
    case True
    define seen where "seen = episode (qs @ [q]) (fnv64Msg (oParent q)) (oInstant q - FenetreGardeNonLDHNs)"
    from True o(3) obtain e since where e: "v = decider e (Classe (oProfil q)) (oQType q)" "oInstant q - FenetreGardeNonLDHNs \<le> since"
      "backed (episode (qs @ [q]) (fnv64Msg (oParent q)) since) e" by blast
    have tn: "unat (questionsTunnel e) \<le> tunnels seen"
      using e(3) episode_longer(1)[OF e(2)] unfolding seen_def by (auto simp: backed_def intro: order_trans)
    have fin: "finite (sub_prints seen)" by (simp add: sub_prints_def)
    have sp: "k \<le> card (sub_prints seen)" if "k \<le> unat (sousDistincts e)" "k \<le> 32" for k
      using backed_distinct[OF e(3) that] card_mono[OF fin[unfolded seen_def] episode_longer(2)[OF e(2)]] unfolding seen_def by (rule order_trans)
    have "Hostile v \<longleftrightarrow> vReason v \<noteq> None" by (simp add: e(1) decider_def Let_def)
    moreover have "case vReason v of None \<Rightarrow> True | Some ReasonV1NonLDHTunnelQType \<Rightarrow> 2 \<le> tunnels seen \<and> IsTunnelQType (oQType q)
       | Some ReasonV1NonLDHBinaryBurst \<Rightarrow> 3 \<le> card (sub_prints seen)
       | Some ReasonV1NonLDHUTF8UniqueBurst \<Rightarrow> 8 \<le> card (sub_prints seen) \<and> Classe (oProfil q) = QNameGrammarUTF8Local"
      using tn sp[of 3] sp[of 8] by (simp add: e(1) decider_def Let_def word_le_nat_alt)
    ultimately show ?thesis using True g(1) o(1) unfolding seen_def Let_def by blast
  qed
qed


definition binary_question :: "byte \<Rightarrow> int \<Rightarrow> question" where
  "binary_question b t = \<lparr>oParent = [101, 46, 99], oSous = [b], oProfil = zero_profile\<lparr>Classe := QNameGrammarBinary\<rparr>, oQType = 1, oInstant = t\<rparr>"

definition empty_guard :: NonLDHBurstGuard where
  "empty_guard = guard_Reset \<lparr>gcases = (\<lambda>_. zero_case), gevictions = 0\<rparr>"

theorem nonldh_hostile_backed_witness:
  "\<exists>g v g'. run_steps observe empty_guard [binary_question 1 5, binary_question 2 6] = Ret g \<and> observe g (binary_question 3 7) = Ret (v, g')
    \<and> Hostile v \<and> 3 \<le> card (sub_prints (episode [binary_question 1 5, binary_question 2 6, binary_question 3 7] (fnv64Msg [101, 46, 99]) (7 - FenetreGardeNonLDHNs)))"
proof -
  let ?qs = "[binary_question 1 5, binary_question 2 6]" and ?q = "binary_question 3 7"
  have c: "case run_steps observe empty_guard ?qs of Panic \<Rightarrow> False
     | Ret g \<Rightarrow> (case observe g ?q of Panic \<Rightarrow> False | Ret (v, _) \<Rightarrow> vReason v = Some ReasonV1NonLDHBinaryBurst)"
    by code_simp
  have s: "in_order (?qs @ [?q])" by (simp add: in_order_def binary_question_def)
  obtain g v g' where r: "run_steps observe empty_guard ?qs = Ret g" "observe g ?q = Ret (v, g')" "Hostile v \<longleftrightarrow> vReason v \<noteq> None"
      "let seen = episode (?qs @ [?q]) (fnv64Msg (oParent ?q)) (oInstant ?q - FenetreGardeNonLDHNs) in case vReason v of
         None \<Rightarrow> True
       | Some ReasonV1NonLDHTunnelQType \<Rightarrow> 2 \<le> tunnels seen \<and> IsTunnelQType (oQType ?q)
       | Some ReasonV1NonLDHBinaryBurst \<Rightarrow> 3 \<le> card (sub_prints seen)
       | Some ReasonV1NonLDHUTF8UniqueBurst \<Rightarrow> 8 \<le> card (sub_prints seen) \<and> Classe (oProfil ?q) = QNameGrammarUTF8Local"
    using nonldh_hostile_backed[OF s] unfolding empty_guard_def by blast
  have v: "vReason v = Some ReasonV1NonLDHBinaryBurst" using c r(1,2) by simp
  have q: "oParent ?q = [101, 46, 99]" "oInstant ?q = 7" by (simp_all add: binary_question_def)
  show ?thesis using r v unfolding q by (auto simp: Let_def)
qed

end
