(* ===== verification/IcmpEcho.thy ===== *)
theory IcmpEcho
  imports Fnv Trace
begin

text \<open>
  The ICMP echo tracker of \<open>icmp_echo.go\<close>: requests are kept in a table of 1024 rows and, by
  identifier, in one of 256 rows, each of four places; a reply is compared with the request it
  answers.  Instants are 64-bit nanoseconds, whose differences wrap.
\<close>

section \<open>The tracker\<close>

datatype icmp_reason = ReasonNone | ReasonIC01ICMPEchoAsymmetry | ReasonIC02ICMPEchoUnsolicited

record creneauEchoICMP =
  cle :: u64
  empreinte :: u64
  horodatage :: int
  occupe :: bool

record creneauIdentifiantEchoICMP =
  icle :: u64
  ihorodatage :: int
  ioccupe :: bool

record ICMPEchoParityTracker =
  alveoles :: "nat \<Rightarrow> creneauEchoICMP list"
  identifiantsRequete :: "nat \<Rightarrow> creneauIdentifiantEchoICMP list"

definition empty_tracker :: ICMPEchoParityTracker where
  "empty_tracker = \<lparr>alveoles = (\<lambda>_. replicate 4 \<lparr>cle = 0, empreinte = 0, horodatage = 0, occupe = False\<rparr>),
     identifiantsRequete = (\<lambda>_. replicate 4 \<lparr>icle = 0, ihorodatage = 0, ioccupe = False\<rparr>)\<rparr>"

record echo =
  eRequest :: bool
  eCle :: u64
  eIdentifiant :: u64
  eEmpreinte :: u64

text \<open>The echo message of an IPv4 packet, with the keys hashed over the addresses in the order of the request.\<close>

definition echo_keys :: "bytes \<Rightarrow> bytes \<Rightarrow> echo outcome" where
  "echo_keys frame icmp = obind (get_at icmp 0) (\<lambda>t.
     let debut = (if t = 0 then 16 else 12); fin = (if t = 0 then 12 else 16) in
     obind (slice_at frame debut (debut + 4)) (\<lambda>a. obind (slice_at frame fin (fin + 4)) (\<lambda>b.
     obind (slice_at icmp 4 6) (\<lambda>ident. obind (slice_at icmp 6 8) (\<lambda>sq. obind (slice_at icmp 8 (length icmp)) (\<lambda>body.
     let cleIdentifiant = fnv_from (fnv_from (fnv_from 14695981039346656037 a) b) ident in
     Ret \<lparr>eRequest = (t = 8), eCle = fnv_from cleIdentifiant sq, eIdentifiant = cleIdentifiant,
          eEmpreinte = fnv_from 14695981039346656037 body\<rparr>))))))"

definition parse_echo :: "bytes \<Rightarrow> echo option outcome" where
  "parse_echo frame = (if length frame < 20 then Ret None
     else obind (get_at frame 0) (\<lambda>b0. obind (get_at frame 9) (\<lambda>b9.
       if drop_bit 4 b0 \<noteq> 4 \<or> b9 \<noteq> 1 then Ret None
       else obind (get_at frame 2) (\<lambda>b2. obind (get_at frame 3) (\<lambda>b3.
         let entete = unat (b0 AND 0x0f) * 4; longueur = unat b2 * 256 + unat b3 in
         if entete < 20 \<or> length frame < entete \<or> length frame < longueur \<or> longueur < entete + 8 then Ret None
         else obind (slice_at frame entete longueur) (\<lambda>icmp.
           obind (get_at icmp 0) (\<lambda>t. obind (get_at icmp 1) (\<lambda>code.
           if t \<noteq> 0 \<and> t \<noteq> 8 \<or> code \<noteq> 0 then Ret None
           else obind (echo_keys frame icmp) (\<lambda>e. Ret (Some e))))))))))"

text \<open>The place for a key: the one it has, or else a free one, or else the oldest; the two tables use the same loop.\<close>

fun choisir :: "(bool \<times> u64 \<times> int) list \<Rightarrow> u64 \<Rightarrow> nat list \<Rightarrow> nat \<Rightarrow> nat" where
  "choisir voies k [] choix = choix"
| "choisir voies k (i # ix) choix = (case voies ! i of (oc, c, h) \<Rightarrow>
     if oc \<and> c = k then i
     else choisir voies k ix (case voies ! choix of (oc', _, h') \<Rightarrow> if \<not> oc \<or> oc' \<and> h < h' then i else choix))"

definition place_of :: "creneauEchoICMP \<Rightarrow> bool \<times> u64 \<times> int" where
  "place_of v = (occupe v, cle v, horodatage v)"

definition iplace_of :: "creneauIdentifiantEchoICMP \<Rightarrow> bool \<times> u64 \<times> int" where
  "iplace_of v = (ioccupe v, icle v, ihorodatage v)"

definition note_request :: "ICMPEchoParityTracker \<Rightarrow> int \<Rightarrow> echo \<Rightarrow> ICMPEchoParityTracker" where
  "note_request tr tsNs e = (let r = unat (eCle e AND 1023); voies = alveoles tr r;
       s = unat (eIdentifiant e AND 255); ivoies = identifiantsRequete tr s in
     \<lparr>alveoles = (alveoles tr)(r := voies[choisir (map place_of voies) (eCle e) [0..<length voies] 0
          := \<lparr>cle = eCle e, empreinte = eEmpreinte e, horodatage = tsNs, occupe = True\<rparr>]),
      identifiantsRequete = (identifiantsRequete tr)(s := ivoies[choisir (map iplace_of ivoies) (eIdentifiant e) [0..<length ivoies] 0
          := \<lparr>icle = eIdentifiant e, ihorodatage = tsNs, ioccupe = True\<rparr>])\<rparr>)"

definition answer :: "ICMPEchoParityTracker \<Rightarrow> int \<Rightarrow> echo \<Rightarrow> bool \<times> icmp_reason" where
  "answer tr tsNs e = (case find (\<lambda>v. occupe v \<and> cle v = eCle e) (alveoles tr (unat (eCle e AND 1023))) of
     Some v \<Rightarrow>
       if tsNs < horodatage v \<or> 60000000000 < go_int (tsNs - horodatage v) then (False, ReasonNone)
       else if empreinte v \<noteq> eEmpreinte e then (True, ReasonIC01ICMPEchoAsymmetry)
       else (False, ReasonNone)
   | None \<Rightarrow>
       if list_ex (\<lambda>v. ioccupe v \<and> icle v = eIdentifiant e \<and> ihorodatage v \<le> tsNs \<and> go_int (tsNs - ihorodatage v) < 60000000000)
            (identifiantsRequete tr (unat (eIdentifiant e AND 255)))
       then (True, ReasonIC02ICMPEchoUnsolicited) else (False, ReasonNone))"

definition ObserveIPv4 :: "ICMPEchoParityTracker \<Rightarrow> int \<Rightarrow> bytes \<Rightarrow> ((bool \<times> icmp_reason) \<times> ICMPEchoParityTracker) outcome" where
  "ObserveIPv4 tr tsNs frame = obind (parse_echo frame) (\<lambda>e. case e of
     None \<Rightarrow> Ret ((False, ReasonNone), tr)
   | Some e \<Rightarrow> if eRequest e then Ret ((False, ReasonNone), note_request tr tsNs e) else Ret (answer tr tsNs e, tr))"


section \<open>Parsing\<close>

lemma slice_at_length: "slice_at xs i j = Ret ys \<Longrightarrow> length ys = j - i"
  by (auto simp: slice_at_def subslice_def split: if_splits)

lemma parse_echo_total: "\<exists>r. parse_echo frame = Ret r"
proof -
  have keys: "no_panic (echo_keys frame icmp)" if "20 \<le> length frame" "8 \<le> length icmp" for icmp
    unfolding echo_keys_def Let_def using that by (intro no_panic_rules) auto
  have "no_panic (parse_echo frame)"
    unfolding parse_echo_def Let_def by (intro no_panic_rules keys) (auto dest!: slice_at_length simp del: slice_at_in)
  then show ?thesis by (rule no_panicE)
qed

text \<open>An echo message of type \<open>t\<close> behind a header without options; \<open>w\<close>, \<open>ck\<close> and \<open>ick\<close> are the octets the tracker does not read.\<close>

definition echo_packet :: "byte \<Rightarrow> bytes \<Rightarrow> bytes \<Rightarrow> bytes \<Rightarrow> bytes \<Rightarrow> bytes \<Rightarrow> byte \<times> byte \<Rightarrow> byte \<Rightarrow> bytes \<Rightarrow> bytes \<Rightarrow> bytes \<Rightarrow> bytes" where
  "echo_packet t src dst ident sq body len tos w ck ick =
     [0x45, tos, fst len, snd len] @ w @ [1] @ ck @ src @ dst @ [t, 0] @ ick @ ident @ sq @ body"

definition packet_parts :: "bytes \<Rightarrow> bytes \<Rightarrow> bytes \<Rightarrow> bytes \<Rightarrow> bytes \<Rightarrow> byte \<times> byte \<Rightarrow> bytes \<Rightarrow> bytes \<Rightarrow> bytes \<Rightarrow> bool" where
  "packet_parts src dst ident sq body len w ck ick \<longleftrightarrow> length src = 4 \<and> length dst = 4 \<and> length ident = 2 \<and> length sq = 2 \<and> length w = 5
     \<and> length ck = 2 \<and> length ick = 2 \<and> unat (fst len) * 256 + unat (snd len) = 28 + length body"

lemma parse_echo_packet:
  assumes "packet_parts src dst ident sq body len w ck ick" "t = 0 \<or> t = 8"
  shows "parse_echo (echo_packet t src dst ident sq body len tos w ck ick)
    = Ret (Some \<lparr>eRequest = (t = 8), eCle = FNV1a64 ((if t = 8 then src @ dst else dst @ src) @ ident @ sq),
        eIdentifiant = FNV1a64 ((if t = 8 then src @ dst else dst @ src) @ ident), eEmpreinte = FNV1a64 body\<rparr>)"
proof -
  define frame where "frame = echo_packet t src dst ident sq body len tos w ck ick"
  define icmp where "icmp = [t, 0] @ ick @ ident @ sq @ body"
  have l: "length src = 4" "length dst = 4" "length ident = 2" "length sq = 2" "length w = 5" "length ck = 2" "length ick = 2"
      "unat (fst len) * 256 + unat (snd len) = 28 + length body" using assms(1) by (simp_all add: packet_parts_def)
  have len: "length frame = 28 + length body" using l by (simp add: frame_def echo_packet_def)
  have at: "frame ! 0 = 0x45" "frame ! 9 = 1" "frame ! 2 = fst len" "frame ! 3 = snd len"
    using l by (simp_all add: frame_def echo_packet_def nth_append)
  have sl: "subslice 12 16 frame = src" "subslice 16 20 frame = dst" "subslice 20 (28 + length body) frame = icmp"
    using l by (simp_all add: frame_def echo_packet_def icmp_def subslice_def)
  have ic: "length icmp = 8 + length body" "icmp ! 0 = t" "icmp ! Suc 0 = 0" "subslice 4 6 icmp = ident" "subslice 6 8 icmp = sq"
      "subslice 8 (8 + length body) icmp = body"
    using l by (simp_all add: icmp_def subslice_def)
  have v: "drop_bit 4 (0x45 :: byte) = 4" "unat ((0x45 :: byte) AND 0x0f) = 5" by simp_all
  show ?thesis unfolding frame_def[symmetric]
    using assms(2) l(8) by (auto simp: parse_echo_def echo_keys_def Let_def len at sl ic v FNV1a64_def fnv_from_append)
qed


section \<open>Requests and replies\<close>

definition tracker_ok :: "ICMPEchoParityTracker \<Rightarrow> bool" where
  "tracker_ok tr \<longleftrightarrow> (\<forall>r. length (alveoles tr r) = 4) \<and> (\<forall>s. length (identifiantsRequete tr s) = 4)"

lemma choisir_less: "\<forall>i \<in> set ix. i < n \<Longrightarrow> c < n \<Longrightarrow> choisir voies k ix c < n"
  by (induction voies k ix c rule: choisir.induct) (auto split: prod.splits)

text \<open>If a place has the key, the first such place is chosen.\<close>

lemma choisir_first:
  assumes "\<exists>i \<in> set ix. fst (voies ! i) \<and> fst (snd (voies ! i)) = k"
  shows "find (\<lambda>i. fst (voies ! i) \<and> fst (snd (voies ! i)) = k) ix = Some (choisir voies k ix c)"
  using assms
proof (induction ix arbitrary: c)
  case (Cons i ix)
  obtain oc k' h where "voies ! i = (oc, k', h)" by (cases "voies ! i")
  then show ?case using Cons by (cases "oc \<and> k' = k") (auto split: prod.splits)
qed simp

lemma find_at:
  assumes "i < length xs" "P (xs ! i)" "\<forall>j < i. \<not> P (xs ! j)"
  shows "find P xs = Some (xs ! i)"
  using assms by (auto simp: find_Some_iff)

lemma find_written:
  assumes v: "length voies = 4" and c: "c = choisir (map place_of voies) k [0..<length voies] 0" and w: "occupe w" "cle w = k"
  shows "find (\<lambda>v. occupe v \<and> cle v = k) (voies[c := w]) = Some w"
proof -
  have l: "c < length voies" unfolding c using v by (intro choisir_less) auto
  have "\<not> (occupe (voies[c := w] ! j) \<and> cle (voies[c := w] ! j) = k)" if "j < c" for j
  proof
    assume m: "occupe (voies[c := w] ! j) \<and> cle (voies[c := w] ! j) = k"
    let ?P = "\<lambda>i. fst (map place_of voies ! i) \<and> fst (snd (map place_of voies ! i)) = k"
    have j: "j < length voies" "j \<in> set [0..<length voies]" "?P j" using m that l by (auto simp: place_of_def)
    then have "find ?P [0..<length voies] = Some c" unfolding c by (intro choisir_first) blast
    then obtain i where "i < length voies" "[0..<length voies] ! i = c" "\<forall>j < i. \<not> ?P ([0..<length voies] ! j)" by (auto simp: find_Some_iff)
    then show False using j that by auto
  qed
  then show ?thesis using find_at[of c "voies[c := w]" "\<lambda>v. occupe v \<and> cle v = k"] l w by simp
qed

lemma note_request_ok: "tracker_ok tr \<Longrightarrow> tracker_ok (note_request tr ts e)"
  by (simp add: tracker_ok_def note_request_def Let_def)

lemma answer_request:
  assumes "tracker_ok tr" "eCle e = eCle e'"
  shows "answer (note_request tr ts e) ts' e' =
    (if ts' < ts \<or> 60000000000 < go_int (ts' - ts) \<or> eEmpreinte e = eEmpreinte e' then (False, ReasonNone) else (True, ReasonIC01ICMPEchoAsymmetry))"
proof -
  define w where "w = \<lparr>cle = eCle e', empreinte = eEmpreinte e, horodatage = ts, occupe = True\<rparr>"
  have "find (\<lambda>v. occupe v \<and> cle v = eCle e') (alveoles (note_request tr ts e) (unat (eCle e' AND 1023))) = Some w"
    using find_written[OF _ refl, of "alveoles tr (unat (eCle e' AND 1023))" w "eCle e'"] assms
    by (simp add: note_request_def Let_def tracker_ok_def w_def)
  then show ?thesis by (simp add: answer_def w_def)
qed

text \<open>Where the contents of the tables come from.\<close>

definition requested :: "(int \<times> bytes) list \<Rightarrow> int \<Rightarrow> (echo \<Rightarrow> bool) \<Rightarrow> bool" where
  "requested hist ts P \<longleftrightarrow> (\<exists>frame e. (ts, frame) \<in> set hist \<and> parse_echo frame = Ret (Some e) \<and> eRequest e \<and> P e)"

definition from_requests :: "(int \<times> bytes) list \<Rightarrow> ICMPEchoParityTracker \<Rightarrow> bool" where
  "from_requests hist tr \<longleftrightarrow> tracker_ok tr
     \<and> (\<forall>r. \<forall>v \<in> set (alveoles tr r). occupe v \<longrightarrow> requested hist (horodatage v) (\<lambda>e. eCle e = cle v \<and> eEmpreinte e = empreinte v))
     \<and> (\<forall>s. \<forall>v \<in> set (identifiantsRequete tr s). ioccupe v \<longrightarrow> requested hist (ihorodatage v) (\<lambda>e. eIdentifiant e = icle v))"

lemma requested_more: "requested hist ts P \<Longrightarrow> requested (hist @ later) ts P"
  by (auto simp: requested_def)

lemma from_requests_more: "from_requests hist tr \<Longrightarrow> from_requests (hist @ later) tr"
  unfolding from_requests_def by (blast intro: requested_more)

lemma note_request_from:
  assumes "from_requests hist tr" "parse_echo frame = Ret (Some e)" "eRequest e"
  shows "from_requests (hist @ [(ts, frame)]) (note_request tr ts e)"
proof -
  have new: "requested (hist @ [(ts, frame)]) ts P" if "P e" for P using assms(2,3) that by (auto simp: requested_def)
  have old: "from_requests (hist @ [(ts, frame)]) tr" using assms(1) by (rule from_requests_more)
  have a: "requested (hist @ [(ts, frame)]) (horodatage v) (\<lambda>e. eCle e = cle v \<and> eEmpreinte e = empreinte v)"
    if "v \<in> set (alveoles (note_request tr ts e) r)" "occupe v" for v r
  proof (cases "v \<in> set (alveoles tr r)")
    case True
    then show ?thesis using old that(2) by (simp add: from_requests_def)
  next
    case False
    then have "v = \<lparr>cle = eCle e, empreinte = eEmpreinte e, horodatage = ts, occupe = True\<rparr>"
      using that(1) by (auto simp: note_request_def Let_def split: if_splits dest!: subsetD[OF set_update_subset_insert])
    then show ?thesis by (simp add: new)
  qed
  have b: "requested (hist @ [(ts, frame)]) (ihorodatage v) (\<lambda>e. eIdentifiant e = icle v)"
    if "v \<in> set (identifiantsRequete (note_request tr ts e) s)" "ioccupe v" for v s
  proof (cases "v \<in> set (identifiantsRequete tr s)")
    case True
    then show ?thesis using old that(2) by (simp add: from_requests_def)
  next
    case False
    then have "v = \<lparr>icle = eIdentifiant e, ihorodatage = ts, ioccupe = True\<rparr>"
      using that(1) by (auto simp: note_request_def Let_def split: if_splits dest!: subsetD[OF set_update_subset_insert])
    then show ?thesis by (simp add: new)
  qed
  show ?thesis unfolding from_requests_def using a b note_request_ok old by (auto simp: from_requests_def)
qed


definition observe_frame :: "ICMPEchoParityTracker \<Rightarrow> int \<times> bytes \<Rightarrow> ((bool \<times> icmp_reason) \<times> ICMPEchoParityTracker) outcome" where
  "observe_frame tr x = ObserveIPv4 tr (fst x) (snd x)"

lemma observe_from:
  assumes "from_requests hist tr"
  shows "\<exists>r tr'. ObserveIPv4 tr ts frame = Ret (r, tr') \<and> from_requests (hist @ [(ts, frame)]) tr'"
proof -
  obtain e where "parse_echo frame = Ret e" using parse_echo_total by blast
  then show ?thesis
    using note_request_from[OF assms, of frame _ ts] from_requests_more[OF assms, of "[(ts, frame)]"]
    by (cases e) (auto simp: ObserveIPv4_def)
qed

interpretation icmp: traced observe_frame "\<lambda>_. True" from_requests
  by unfold_locales (use observe_from in \<open>auto simp: observe_frame_def\<close>)

lemma empty_tracker_from: "from_requests [] empty_tracker"
  by (simp add: from_requests_def tracker_ok_def empty_tracker_def)

lemma answer_backed:
  assumes "from_requests hist tr" "answer tr ts e = (fired, reason)"
  shows "fired \<longleftrightarrow> reason \<noteq> ReasonNone"
    "reason = ReasonIC01ICMPEchoAsymmetry \<Longrightarrow> \<exists>t0 \<le> ts. go_int (ts - t0) \<le> 60000000000 \<and> requested hist t0 (\<lambda>q. eCle q = eCle e \<and> eEmpreinte q \<noteq> eEmpreinte e)"
    "reason = ReasonIC02ICMPEchoUnsolicited \<Longrightarrow> \<exists>t0 \<le> ts. go_int (ts - t0) < 60000000000 \<and> requested hist t0 (\<lambda>q. eIdentifiant q = eIdentifiant e)"
proof -
  show "fired \<longleftrightarrow> reason \<noteq> ReasonNone" using assms(2) by (auto simp: answer_def split: option.splits if_splits)
  show "\<exists>t0 \<le> ts. go_int (ts - t0) \<le> 60000000000 \<and> requested hist t0 (\<lambda>q. eCle q = eCle e \<and> eEmpreinte q \<noteq> eEmpreinte e)"
    if r: "reason = ReasonIC01ICMPEchoAsymmetry"
  proof -
    obtain v where v: "find (\<lambda>v. occupe v \<and> cle v = eCle e) (alveoles tr (unat (eCle e AND 1023))) = Some v"
        "\<not> ts < horodatage v" "\<not> 60000000000 < go_int (ts - horodatage v)" "empreinte v \<noteq> eEmpreinte e"
      using assms(2) r by (auto simp: answer_def split: option.splits if_splits)
    then have m: "v \<in> set (alveoles tr (unat (eCle e AND 1023)))" "occupe v" "cle v = eCle e" by (auto simp: find_Some_iff)
    then have "requested hist (horodatage v) (\<lambda>q. eCle q = cle v \<and> eEmpreinte q = empreinte v)" using assms(1) unfolding from_requests_def by blast
    then have "requested hist (horodatage v) (\<lambda>q. eCle q = eCle e \<and> eEmpreinte q \<noteq> eEmpreinte e)" using v(4) m(3) by (auto simp: requested_def)
    then show ?thesis using v(2,3) by (intro exI[of _ "horodatage v"]) simp
  qed
  show "\<exists>t0 \<le> ts. go_int (ts - t0) < 60000000000 \<and> requested hist t0 (\<lambda>q. eIdentifiant q = eIdentifiant e)"
    if r: "reason = ReasonIC02ICMPEchoUnsolicited"
  proof -
    obtain v where v: "v \<in> set (identifiantsRequete tr (unat (eIdentifiant e AND 255)))" "ioccupe v" "icle v = eIdentifiant e"
        "ihorodatage v \<le> ts" "go_int (ts - ihorodatage v) < 60000000000"
      using assms(2) r by (auto simp: answer_def list_ex_iff split: option.splits if_splits)
    then have "requested hist (ihorodatage v) (\<lambda>q. eIdentifiant q = icle v)" using assms(1) unfolding from_requests_def by blast
    then have "requested hist (ihorodatage v) (\<lambda>q. eIdentifiant q = eIdentifiant e)" using v(3) by simp
    then show ?thesis using v(4,5) by blast
  qed
qed

text \<open>The tracker never goes out of bounds on any sequence of packets, and what it reports has its
  cause in the sequence: an asymmetry report is about a reply whose request, with the same addresses,
  identifier and sequence number under the hash, was seen at most 60 seconds before with another
  payload fingerprint; an unsolicited report is about a reply for whose addresses and identifier a
  request was seen less than 60 seconds before.\<close>

lemma icmp_fired_backed:
  "\<exists>tr fired reason tr'. run_steps observe_frame empty_tracker hist = Ret tr \<and> ObserveIPv4 tr ts frame = Ret ((fired, reason), tr')
    \<and> (fired \<longleftrightarrow> reason \<noteq> ReasonNone)
    \<and> (case reason of ReasonNone \<Rightarrow> True
       | ReasonIC01ICMPEchoAsymmetry \<Rightarrow> \<exists>e t0. parse_echo frame = Ret (Some e) \<and> \<not> eRequest e \<and> t0 \<le> ts \<and> go_int (ts - t0) \<le> 60000000000
            \<and> requested hist t0 (\<lambda>q. eCle q = eCle e \<and> eEmpreinte q \<noteq> eEmpreinte e)
       | ReasonIC02ICMPEchoUnsolicited \<Rightarrow> \<exists>e t0. parse_echo frame = Ret (Some e) \<and> \<not> eRequest e \<and> t0 \<le> ts \<and> go_int (ts - t0) < 60000000000
            \<and> requested hist t0 (\<lambda>q. eIdentifiant q = eIdentifiant e))"
proof -
  obtain tr where tr: "run_steps observe_frame empty_tracker hist = Ret tr" "from_requests hist tr" using icmp.run_inv[OF TrueI empty_tracker_from] by blast
  obtain e where e: "parse_echo frame = Ret e" using parse_echo_total by blast
  show ?thesis
  proof (cases "e = None \<or> eRequest (the e)")
    case True
    then obtain tr' where "ObserveIPv4 tr ts frame = Ret ((False, ReasonNone), tr')" using e by (cases e) (auto simp: ObserveIPv4_def)
    then show ?thesis using tr(1) by auto
  next
    case False
    then obtain q where q: "e = Some q" "\<not> eRequest q" by auto
    obtain fired reason where a: "answer tr ts q = (fired, reason)" by force
    then have r: "ObserveIPv4 tr ts frame = Ret ((fired, reason), tr)" using e q by (simp add: ObserveIPv4_def)
    note b = answer_backed[OF tr(2) a]
    have "case reason of ReasonNone \<Rightarrow> True
       | ReasonIC01ICMPEchoAsymmetry \<Rightarrow> \<exists>e t0. parse_echo frame = Ret (Some e) \<and> \<not> eRequest e \<and> t0 \<le> ts \<and> go_int (ts - t0) \<le> 60000000000
            \<and> requested hist t0 (\<lambda>q. eCle q = eCle e \<and> eEmpreinte q \<noteq> eEmpreinte e)
       | ReasonIC02ICMPEchoUnsolicited \<Rightarrow> \<exists>e t0. parse_echo frame = Ret (Some e) \<and> \<not> eRequest e \<and> t0 \<le> ts \<and> go_int (ts - t0) < 60000000000
            \<and> requested hist t0 (\<lambda>q. eIdentifiant q = eIdentifiant e)"
      using b(2,3) e q by (cases reason) auto
    then show ?thesis using tr(1) r b(1) by blast
  qed
qed

text \<open>
  C27.  After a request, the reply to it, with the addresses exchanged and the same identifier and
  sequence number, is reported exactly when it comes no earlier than the request, at most 60 seconds
  after it, and with another payload fingerprint; the report is then the asymmetry report.\<close>

theorem icmp_pairing:
  assumes "tracker_ok tr" "packet_parts c s ident sq body len w ck ick" "packet_parts s c ident sq body' len' w' ck' ick'"
  shows "\<exists>tr'. ObserveIPv4 tr t0 (echo_packet 8 c s ident sq body len tos w ck ick) = Ret ((False, ReasonNone), tr') \<and> tracker_ok tr'
    \<and> ObserveIPv4 tr' t1 (echo_packet 0 s c ident sq body' len' tos' w' ck' ick')
      = Ret (if t0 \<le> t1 \<and> go_int (t1 - t0) \<le> 60000000000 \<and> FNV1a64 body \<noteq> FNV1a64 body' then (True, ReasonIC01ICMPEchoAsymmetry) else (False, ReasonNone), tr')"
proof -
  note p = parse_echo_packet[OF assms(2), of 8 tos] parse_echo_packet[OF assms(3), of 0 tos']
  define rq where "rq = \<lparr>eRequest = True, eCle = FNV1a64 ((c @ s) @ ident @ sq), eIdentifiant = FNV1a64 ((c @ s) @ ident), eEmpreinte = FNV1a64 body\<rparr>"
  define rp where "rp = \<lparr>eRequest = False, eCle = FNV1a64 ((c @ s) @ ident @ sq), eIdentifiant = FNV1a64 ((c @ s) @ ident), eEmpreinte = FNV1a64 body'\<rparr>"
  have "parse_echo (echo_packet 8 c s ident sq body len tos w ck ick) = Ret (Some rq)"
    "parse_echo (echo_packet 0 s c ident sq body' len' tos' w' ck' ick') = Ret (Some rp)" using p by (simp_all add: rq_def rp_def)
  then have "ObserveIPv4 tr t0 (echo_packet 8 c s ident sq body len tos w ck ick) = Ret ((False, ReasonNone), note_request tr t0 rq)"
    "ObserveIPv4 (note_request tr t0 rq) t1 (echo_packet 0 s c ident sq body' len' tos' w' ck' ick') = Ret (answer (note_request tr t0 rq) t1 rp, note_request tr t0 rq)"
    by (simp_all add: ObserveIPv4_def rq_def rp_def)
  moreover have "eCle rq = eCle rp" by (simp add: rq_def rp_def)
  ultimately show ?thesis using answer_request[OF assms(1), of rq rp t0 t1] note_request_ok[OF assms(1)] by (auto simp: rq_def rp_def)
qed

theorem icmp_pairing_witness:
  "\<exists>tr'. ObserveIPv4 empty_tracker 5 (echo_packet 8 [10, 0, 0, 1] [10, 0, 0, 2] [0, 7] [0, 1] [1] (0, 29) 0 [0, 0, 0, 0, 64] [0, 0] [0, 0]) = Ret ((False, ReasonNone), tr')
    \<and> ObserveIPv4 tr' 60000000005 (echo_packet 0 [10, 0, 0, 2] [10, 0, 0, 1] [0, 7] [0, 1] [2] (0, 29) 0 [0, 0, 0, 0, 64] [0, 0] [0, 0])
      = Ret ((True, ReasonIC01ICMPEchoAsymmetry), tr')"
proof -
  have t: "tracker_ok empty_tracker" using empty_tracker_from by (simp add: from_requests_def)
  have p: "packet_parts [10, 0, 0, 1] [10, 0, 0, 2] [0, 7] [0, 1] [1] (0, 29) [0, 0, 0, 0, 64] [0, 0] [0, 0]"
    "packet_parts [10, 0, 0, 2] [10, 0, 0, 1] [0, 7] [0, 1] [2] (0, 29) [0, 0, 0, 0, 64] [0, 0] [0, 0]" by (simp_all add: packet_parts_def)
  have "FNV1a64 [1] \<noteq> FNV1a64 [2]" by code_simp
  then show ?thesis using icmp_pairing[OF t p, of 5 0 60000000005 0] by auto
qed

end
