(* ===== verification/DnsNom.thy ===== *)
theory DnsNom
  imports DnsMessage
begin

text \<open>
  The name reader of the message evaluators, \<open>decompresserNomDNS\<close> of \<open>soa_negative.go\<close>: it follows at
  most eight compression pointers, keeps the inline part inside a bound and writes the lower-cased
  name into a buffer, marking the first octet of every label.
\<close>

text \<open>
  The buffer is the list of its octets up to \<open>longueurNom\<close>, each with its mark; \<open>keep\<close> is false for a
  nil buffer.  \<open>finInline\<close> is set before it is returned.
\<close>

function decompresser :: "bytes \<Rightarrow> nat \<Rightarrow> bool \<Rightarrow> bool \<Rightarrow> nat \<Rightarrow> nat \<Rightarrow> nat \<Rightarrow> nat \<Rightarrow> nat \<Rightarrow> (byte \<times> bool) list \<Rightarrow> (nat \<times> (byte \<times> bool) list) option outcome" where
  "decompresser w borne ignorer keep pos finInline sauts lf etiq nom =
     (if (if sauts = 0 then borne \<le> pos else length w \<le> pos) then Ret None
      else obind (get_at w pos) (\<lambda>b.
        if b = 0 then (if 255 < lf + 1 then Ret None else Ret (Some (if sauts = 0 then pos + 1 else finInline, nom)))
        else if b AND 0xC0 = 0xC0 then
          (if (if sauts = 0 then borne \<le> pos + 1 else length w \<le> pos + 1) then Ret None
           else if 8 < sauts + 1 then Ret None
           else obind (get_at w (pos + 1)) (\<lambda>b2.
             let cible = pointer_target b b2 in
             if length w \<le> cible then Ret None
             else decompresser w borne ignorer keep cible (if sauts = 0 then pos + 2 else finInline) (sauts + 1) lf etiq nom))
        else if b AND 0xC0 \<noteq> 0 then Ret None
        else let n = unat b in
          if (if sauts = 0 then borne < pos + 1 + n else length w < pos + 1 + n) then Ret None
          else if 255 < lf + (1 + n) then Ret None
          else if keep \<and> (\<not> ignorer \<or> 0 < etiq) then
            (if nom \<noteq> [] \<and> 255 \<le> length nom then Ret None
             else let nom1 = (if nom \<noteq> [] then nom @ [(0x2E, False)] else nom) in
               if 255 < length nom1 + n then Ret None
               else obind (slice_at w (pos + 1) (pos + 1 + n)) (\<lambda>l.
                 decompresser w borne ignorer keep (pos + 1 + n) finInline sauts (lf + (1 + n)) (etiq + 1)
                   (nom1 @ zip (map lower l) (True # replicate (n - 1) False))))
          else decompresser w borne ignorer keep (pos + 1 + n) finInline sauts (lf + (1 + n)) (etiq + 1) nom))"
  by pat_completeness auto

termination
  by (relation "measures [\<lambda>(w, borne, ignorer, keep, pos, fin, sauts, lf, etiq, nom). 8 - sauts, \<lambda>(w, borne, ignorer, keep, pos, fin, sauts, lf, etiq, nom). length w - pos]")
     (auto simp: get_at_def split: if_splits)

declare decompresser.simps [simp del]

definition decompresserNomDNS :: "bytes \<Rightarrow> nat \<Rightarrow> nat \<Rightarrow> bool \<Rightarrow> bool \<Rightarrow> (nat \<times> (byte \<times> bool) list) option outcome" where
  "decompresserNomDNS w decalageInitial borneInline ignorerPremierLabel keep = decompresser w borneInline ignorerPremierLabel keep decalageInitial 0 0 0 0 []"

section \<open>What is read\<close>

definition mark_label :: "bytes \<Rightarrow> (byte \<times> bool) list" where
  "mark_label l = zip (map lower l) (True # replicate (length l - 1) False)"

text \<open>The buffer that holds the labels \<open>ls\<close>.\<close>

fun marked :: "bytes list \<Rightarrow> (byte \<times> bool) list" where
  "marked [] = []"
| "marked [l] = mark_label l"
| "marked (l # m # ls) = mark_label l @ (0x2E, False) # marked (m # ls)"

lemma length_mark_label [simp]: "length (mark_label l) = length l"
  by (cases l) (simp_all add: mark_label_def)

lemma marked_snoc: "marked (ls @ [l]) = (if ls = [] then mark_label l else marked ls @ (0x2E, False) # mark_label l)"
  by (induction ls rule: marked.induct) simp_all

lemma marked_eq_Nil: "[] \<notin> set ls \<Longrightarrow> marked ls = [] \<longleftrightarrow> ls = []"
  by (induction ls rule: marked.induct) (auto simp: mark_label_def)

lemma octets_marked: "map fst (marked ls) = dotted (map (map lower) ls)"
  by (induction ls rule: marked.induct) (auto simp: mark_label_def map_fst_zip_take min_def)

lemma top_bits_clear: "b AND 0xC0 = (0 :: byte) \<Longrightarrow> unat b \<le> 63"
proof -
  assume z: "b AND 0xC0 = 0"
  have m: "bit (0xC0 :: byte) 6" "bit (0xC0 :: byte) 7" by code_simp+
  have "\<not> bit b n" if "6 \<le> n" "n < 8" for n
  proof -
    have "n = 6 \<or> n = 7" using that by linarith
    then show ?thesis using m arg_cong[OF z, of "\<lambda>x. bit x n"] by (auto simp: bit_and_iff)
  qed
  then have "take_bit 6 b = b" by (intro bit_word_eqI) (simp add: bit_take_bit_iff, meson linorder_not_le)
  then have "unat b = take_bit 6 (unat b)" by (metis unsigned_take_bit_eq)
  also have "\<dots> < 2 ^ 6" by (rule take_bit_nat_less_exp)
  finally show ?thesis by simp
qed


definition wire_size :: "bytes list \<Rightarrow> nat" where
  "wire_size ls = (\<Sum>l\<leftarrow>ls. length l + 1) + 1"

definition buffer_of :: "bool \<Rightarrow> bytes list \<Rightarrow> (byte \<times> bool) list" where
  "buffer_of keep ls = (if keep then marked ls else [])"

definition name_read :: "bytes \<Rightarrow> nat \<Rightarrow> bool \<Rightarrow> nat \<Rightarrow> nat \<Rightarrow> nat \<Rightarrow> nat \<Rightarrow> bytes list \<Rightarrow> nat \<times> (byte \<times> bool) list \<Rightarrow> bool" where
  "name_read w borne keep pos finInline sauts lf ps r \<longleftrightarrow> (\<exists>ls. wire_name_at w pos ls \<and> [] \<notin> set ls \<and> lf + wire_size ls \<le> 255
     \<and> snd r = buffer_of keep (ps @ ls) \<and> fst r \<le> borne \<and> (if sauts = 0 then pos < fst r else fst r = finInline))"

lemma name_read_label:
  assumes "name_read w borne keep (pos + 1 + n) fin sauts (lf + (1 + n)) (ps @ [l]) r" "n = unat (w ! pos)" "0 < n" "n \<le> 63"
    "pos + 1 + n \<le> length w" "l = subslice (pos + 1) (pos + 1 + n) w"
  shows "name_read w borne keep pos fin sauts lf ps r"
proof -
  obtain ls where ls: "wire_name_at w (pos + 1 + n) ls" "[] \<notin> set ls" "lf + (1 + n) + wire_size ls \<le> 255"
      "snd r = buffer_of keep ((ps @ [l]) @ ls)" "fst r \<le> borne" "if sauts = 0 then pos + 1 + n < fst r else fst r = fin"
    using assms(1) unfolding name_read_def by blast
  have n: "length l = n" using assms(5,6) by (simp add: subslice_def)
  have "wire_name_at w pos (l # ls)" unfolding assms(6) using wire_name_at.label[of pos w ls] ls(1) assms by simp
  moreover have "lf + wire_size (l # ls) \<le> 255" using ls(3) n by (simp add: wire_size_def)
  moreover have "[] \<notin> set (l # ls)" using ls(2) n assms(3) by auto
  ultimately show ?thesis unfolding name_read_def using ls(4-6) by (intro exI[of _ "l # ls"]) (auto split: if_splits)
qed

lemma name_read_pointer:
  assumes "name_read w borne keep (pointer_target (w ! pos) (w ! (pos + 1))) (if sauts = 0 then pos + 2 else fin) (sauts + 1) lf ps r"
    "pos + 1 < length w" "w ! pos AND 0xC0 = 0xC0"
  shows "name_read w borne keep pos fin sauts lf ps r"
proof -
  obtain ls where ls: "wire_name_at w (pointer_target (w ! pos) (w ! (pos + 1))) ls" "[] \<notin> set ls" "lf + wire_size ls \<le> 255"
      "snd r = buffer_of keep (ps @ ls)" "fst r \<le> borne" "fst r = (if sauts = 0 then pos + 2 else fin)"
    using assms(1) unfolding name_read_def by auto
  have "wire_name_at w pos ls" by (rule wire_name_at.pointer[OF assms(2,3) ls(1)])
  then show ?thesis unfolding name_read_def using ls(2-6) by (intro exI[of _ ls]) auto
qed

text \<open>A reader that does not panic, and what its value satisfies when it has one.\<close>

definition yields :: "'a option outcome \<Rightarrow> ('a \<Rightarrow> bool) \<Rightarrow> bool" where
  "yields x P \<longleftrightarrow> (\<exists>r. x = Ret r \<and> (case r of None \<Rightarrow> True | Some v \<Rightarrow> P v))"

lemma yields_Ret [simp]: "yields (Ret None) P" "yields (Ret (Some v)) P \<longleftrightarrow> P v"
  by (simp_all add: yields_def)

lemma yields_mono: "yields x P \<Longrightarrow> (\<And>v. P v \<Longrightarrow> Q v) \<Longrightarrow> yields x Q"
  by (auto simp: yields_def split: option.splits)

lemma yields_bind: "yields x P \<Longrightarrow> (\<And>v. P v \<Longrightarrow> yields (f (Some v)) Q) \<Longrightarrow> f None = Ret None \<Longrightarrow> yields (obind x f) Q"
  by (cases x rule: outcome.exhaust; cases "case x of Ret r \<Rightarrow> r | Panic \<Rightarrow> None") (auto simp: yields_def split: option.splits)

lemma yieldsE: "yields x P \<Longrightarrow> (x = Ret None \<Longrightarrow> R) \<Longrightarrow> (\<And>a b. x = Ret (Some (a, b)) \<Longrightarrow> P (a, b) \<Longrightarrow> R) \<Longrightarrow> R"
  unfolding yields_def by (elim exE conjE) (rename_tac r, case_tac r, auto)

lemma decompresser_ok:
  assumes "borne \<le> length w" "nom = buffer_of keep ps" "[] \<notin> set ps" "sauts \<noteq> 0 \<longrightarrow> finInline \<le> borne"
  shows "yields (decompresser w borne False keep pos finInline sauts lf etiq nom) (name_read w borne keep pos finInline sauts lf ps)"
  using assms
proof (induction w borne "False" keep pos finInline sauts lf etiq nom arbitrary: ps rule: decompresser.induct)
  case (1 w borne keep pos fin sauts lf etiq nom)
  define b where "b = w ! pos"
  let ?out = "\<lambda>k. if sauts = 0 then borne < k else length w < k"
  consider (outside) "if sauts = 0 then borne \<le> pos else length w \<le> pos"
    | (root) "\<not> (if sauts = 0 then borne \<le> pos else length w \<le> pos)" "b = 0"
    | (ptr) "\<not> (if sauts = 0 then borne \<le> pos else length w \<le> pos)" "b \<noteq> 0" "b AND 0xC0 = 0xC0"
    | (odd) "\<not> (if sauts = 0 then borne \<le> pos else length w \<le> pos)" "b \<noteq> 0" "b AND 0xC0 \<noteq> 0xC0" "b AND 0xC0 \<noteq> 0"
    | (lab) "\<not> (if sauts = 0 then borne \<le> pos else length w \<le> pos)" "b \<noteq> 0" "b AND 0xC0 = 0" by force
  then show ?case
  proof cases
    case outside
    then show ?thesis by (subst decompresser.simps) simp
  next
    case root
    then have p: "pos < length w" using "1.prems"(1) by (auto split: if_splits)
    have "wire_name_at w pos []" using p root(2) by (auto intro: wire_name_at.root simp: b_def)
    then have "name_read w borne keep pos fin sauts lf ps (if sauts = 0 then pos + 1 else fin, nom)" if "\<not> 255 < lf + 1"
      using that root(1) "1.prems" by (auto simp: name_read_def wire_size_def split: if_splits intro!: exI[of _ "[]"])
    then show ?thesis using root p by (subst decompresser.simps) (auto simp: b_def)
  next
    case ptr
    then have p: "pos < length w" using "1.prems"(1) by (auto split: if_splits)
    show ?thesis
    proof (cases "(if sauts = 0 then borne \<le> pos + 1 else length w \<le> pos + 1) \<or> 8 < sauts + 1 \<or> length w \<le> pointer_target b (w ! (pos + 1))")
      case True
      then show ?thesis using ptr p "1.prems"(1) by (subst decompresser.simps) (auto simp: b_def Let_def get_at_def)
    next
      case False
      then have p1: "pos + 1 < length w" using "1.prems"(1) by (auto split: if_splits)
      have fin: "sauts + 1 \<noteq> 0 \<longrightarrow> (if sauts = 0 then pos + 2 else fin) \<le> borne" using False "1.prems"(4) by (auto split: if_splits)
      have y: "yields (decompresser w borne False keep (pointer_target b (w ! (pos + 1))) (if sauts = 0 then pos + 2 else fin) (sauts + 1) lf etiq nom)
         (name_read w borne keep (pointer_target b (w ! (pos + 1))) (if sauts = 0 then pos + 2 else fin) (sauts + 1) lf ps)"
        using ptr False p p1 "1.prems" fin by (intro "1.hyps"(1)[of b "w ! (pos + 1)" _ ps]) (auto simp: b_def)
      have eq: "decompresser w borne False keep pos fin sauts lf etiq nom
          = decompresser w borne False keep (pointer_target b (w ! (pos + 1))) (if sauts = 0 then pos + 2 else fin) (sauts + 1) lf etiq nom"
        using ptr False p p1 by (subst decompresser.simps) (auto simp: b_def Let_def)
      show ?thesis unfolding eq using y by (rule yields_mono) (rule name_read_pointer[OF _ p1 ptr(3)[unfolded b_def], folded b_def])
    qed
  next
    case odd
    then have p: "pos < length w" using "1.prems"(1) by (auto split: if_splits)
    show ?thesis using odd p by (subst decompresser.simps) (auto simp: b_def)
  next
    case lab
    define n where "n = unat b"
    define nom1 where "nom1 = (if nom \<noteq> [] then nom @ [(0x2E, False)] else nom)"
    have p: "pos < length w" using lab(1) "1.prems"(1) by (auto split: if_splits)
    have n: "0 < n" "n \<le> 63" using lab(2,3) top_bits_clear[of b] by (simp_all add: n_def unat_gt_0)
    have np: "b AND 0xC0 \<noteq> 0xC0" using lab(3) by simp
    show ?thesis
    proof (cases "(if sauts = 0 then borne < pos + 1 + n else length w < pos + 1 + n) \<or> 255 < lf + (1 + n)
        \<or> keep \<and> (nom \<noteq> [] \<and> 255 \<le> length nom \<or> 255 < length nom1 + n)")
      case True
      then show ?thesis using lab np p by (subst decompresser.simps) (auto simp: b_def[symmetric] n_def nom1_def Let_def)
    next
      case False
      then have e: "pos + 1 + n \<le> length w" using "1.prems"(1) by (auto split: if_splits)
      define l where "l = subslice (pos + 1) (pos + 1 + n) w"
      define nom' where "nom' = (if keep then nom1 @ zip (map lower l) (True # replicate (n - 1) False) else nom)"
      have ll: "length l = n" "slice_at w (pos + 1) (pos + 1 + n) = Ret l" using e by (simp_all add: l_def subslice_def)
      have ps: "[] \<notin> set (ps @ [l])" using "1.prems"(3) ll(1) n(1) by auto
      have buf: "nom' = buffer_of keep (ps @ [l])"
        using "1.prems"(2) marked_eq_Nil[OF "1.prems"(3)] ll(1) by (auto simp: nom'_def nom1_def buffer_of_def marked_snoc mark_label_def)
      have y: "yields (decompresser w borne False keep (pos + 1 + n) fin sauts (lf + (1 + n)) (etiq + 1) nom')
         (name_read w borne keep (pos + 1 + n) fin sauts (lf + (1 + n)) (ps @ [l]))"
      proof (cases keep)
        case True
        have nm: "nom' = nom1 @ zip (map lower l) (True # replicate (n - 1) False)" using True by (simp add: nom'_def)
        show ?thesis unfolding nm using True lab np False p ll buf ps "1.prems"
          by (intro "1.hyps"(2)[of b n nom1 l "ps @ [l]"]) (auto simp: b_def n_def nom1_def nom'_def split: if_splits)
      next
        case k: False
        have nm: "nom' = nom" using k by (simp add: nom'_def)
        show ?thesis unfolding nm using k lab np False p ll buf ps "1.prems"
          by (intro "1.hyps"(3)[of b n "ps @ [l]"]) (auto simp: b_def n_def nom'_def split: if_splits)
      qed
      have eq: "decompresser w borne False keep pos fin sauts lf etiq nom
          = decompresser w borne False keep (pos + 1 + n) fin sauts (lf + (1 + n)) (etiq + 1) nom'"
        using lab np False p ll(2) by (subst decompresser.simps) (auto simp: b_def[symmetric] n_def[symmetric] nom1_def nom'_def Let_def)
      show ?thesis unfolding eq using y by (rule yields_mono) (rule name_read_label[OF _ n_def[unfolded b_def] n e l_def])
    qed
  qed
qed


text \<open>The name at \<open>pos\<close> whose inline part ends at \<open>fin\<close>, inside the bound.\<close>

definition name_at :: "bytes \<Rightarrow> nat \<Rightarrow> nat \<Rightarrow> bool \<Rightarrow> nat \<times> (byte \<times> bool) list \<Rightarrow> bool" where
  "name_at w pos borne keep r \<longleftrightarrow> pos < fst r \<and> fst r \<le> borne
     \<and> (\<exists>ls. wire_name_at w pos ls \<and> [] \<notin> set ls \<and> wire_size ls \<le> 255 \<and> snd r = buffer_of keep ls)"

lemma decompresserNomDNS_ok:
  assumes "borne \<le> length w"
  shows "yields (decompresserNomDNS w pos borne False keep) (name_at w pos borne keep)"
proof -
  have "[] = buffer_of keep []" by (simp add: buffer_of_def)
  then have "yields (decompresser w borne False keep pos 0 0 0 0 []) (name_read w borne keep pos 0 0 0 [])"
    by (intro decompresser_ok[OF assms]) simp_all
  then show ?thesis unfolding decompresserNomDNS_def by (rule yields_mono) (auto simp: name_read_def name_at_def)
qed

text \<open>The marks make the buffer determine the labels.\<close>

definition lowered :: "bytes list \<Rightarrow> bytes list" where
  "lowered ls = map (map lower) ls"

lemma mark_label_cons: "l \<noteq> [] \<Longrightarrow> mark_label l = (lower (hd l), True) # map (\<lambda>b. (lower b, False)) (tl l)"
proof -
  have "zip xs (replicate (length xs) False) = map (\<lambda>b. (b, False)) xs" for xs :: bytes by (induction xs) simp_all
  from this[of "map lower (tl l)"] show "l \<noteq> [] \<Longrightarrow> ?thesis" by (cases l) (simp_all add: mark_label_def comp_def)
qed

lemma mark_label_inj: "mark_label l = mark_label m \<Longrightarrow> map lower l = map lower m"
  using octets_marked[of "[l]"] octets_marked[of "[m]"] by simp

lemma marked_Cons: "marked (l # ls) = mark_label l @ (if ls = [] then [] else (0x2E, False) # marked ls)"
  by (cases ls) simp_all

lemma marks_count: "[] \<notin> set ls \<Longrightarrow> length (filter snd (marked ls)) = length ls"
  by (induction ls) (auto simp: marked_Cons mark_label_cons filter_map comp_def)

lemma marked_first_label:
  assumes "[] \<notin> set (l # ls)"
  shows "takeWhile (\<lambda>x. \<not> snd x) (tl (marked (l # ls))) = tl (mark_label l) @ (if ls = [] then [] else [(0x2E, False)])"
    "dropWhile (\<lambda>x. \<not> snd x) (tl (marked (l # ls))) = marked ls"
proof -
  have f: "\<not> snd x" if "x \<in> set (tl (mark_label l))" for x using that assms by (auto simp: mark_label_cons)
  have l: "mark_label l \<noteq> []" using assms by (auto simp: mark_label_cons)
  have m: "marked ls = [] \<or> snd (hd (marked ls))" using assms by (cases ls) (auto simp: marked_Cons mark_label_cons)
  show "takeWhile (\<lambda>x. \<not> snd x) (tl (marked (l # ls))) = tl (mark_label l) @ (if ls = [] then [] else [(0x2E, False)])"
    using f l m by (cases "marked ls") (auto simp: marked_Cons takeWhile_append2 takeWhile_eq_all_conv)
  show "dropWhile (\<lambda>x. \<not> snd x) (tl (marked (l # ls))) = marked ls"
    using f l m by (cases "marked ls") (auto simp: marked_Cons dropWhile_append2 dropWhile_eq_Nil_conv)
qed

lemma marked_inj: "[] \<notin> set xs \<Longrightarrow> [] \<notin> set ys \<Longrightarrow> marked xs = marked ys \<Longrightarrow> lowered xs = lowered ys"
proof (induction xs arbitrary: ys)
  case Nil
  then show ?case using marked_eq_Nil[of ys] by simp
next
  case (Cons x xs)
  have "length ys = length (x # xs)" using Cons.prems marks_count[of ys] marks_count[of "x # xs"] by simp
  then obtain y ys' where ys: "ys = y # ys'" "length ys' = length xs" by (cases ys) auto
  have h: "hd (mark_label x) = hd (mark_label y)" using Cons.prems ys by (auto simp: marked_Cons mark_label_cons)
  have "tl (mark_label x) @ (if xs = [] then [] else [(0x2E, False)]) = tl (mark_label y) @ (if ys' = [] then [] else [(0x2E, False)])"
    using marked_first_label(1)[of x xs] marked_first_label(1)[of y ys'] Cons.prems ys(1) by simp
  then have "tl (mark_label x) = tl (mark_label y)" using ys(2) by (cases xs; cases ys') auto
  then have x: "mark_label x = mark_label y" using h Cons.prems ys(1) by (metis length_0_conv length_mark_label list.expand list.set_intros(1))
  have "marked xs = marked ys'" using marked_first_label(2)[of x xs] marked_first_label(2)[of y ys'] Cons.prems ys(1) by simp
  then have "lowered xs = lowered ys'" using Cons.IH[of ys'] Cons.prems(1,2) ys(1) by simp
  then show ?case using mark_label_inj[OF x] unfolding ys(1) lowered_def by simp
qed

lemma marked_suffix:
  assumes "[] \<notin> set qs" "[] \<notin> set ls" "ls \<noteq> []" "suffix (marked ls) (marked qs)"
  shows "suffix (lowered ls) (lowered qs)"
  using assms(1,4)
proof (induction qs)
  case Nil
  then show ?case using marked_eq_Nil[OF assms(2)] assms(3) by simp
next
  case (Cons q qs)
  have first: "snd (hd (marked ls))" "marked ls \<noteq> []" using assms(2,3) by (cases ls; auto simp: marked_Cons mark_label_cons)+
  obtain zs where zs: "marked (q # qs) = zs @ marked ls" using Cons.prems(2) by (auto simp: suffix_def)
  show ?case
  proof (cases zs)
    case Nil
    then show ?thesis using zs marked_inj[of "q # qs" ls] Cons.prems(1) assms(2) by simp
  next
    case (Cons z zs')
    have t: "tl (marked (q # qs)) = zs' @ marked ls" using zs Cons by simp
    have "suffix (marked ls) (dropWhile (\<lambda>x. \<not> snd x) (zs' @ marked ls))"
    proof (cases "\<forall>x \<in> set zs'. \<not> snd x")
      case True
      then have "dropWhile (\<lambda>x. \<not> snd x) (zs' @ marked ls) = dropWhile (\<lambda>x. \<not> snd x) (marked ls)" by (simp add: dropWhile_append2)
      also have "\<dots> = marked ls" using first by (cases "marked ls") simp_all
      finally show ?thesis by simp
    next
      case False
      then have "dropWhile (\<lambda>x. \<not> snd x) (zs' @ marked ls) = dropWhile (\<lambda>x. \<not> snd x) zs' @ marked ls" by (auto simp: dropWhile_append)
      then show ?thesis by (simp add: suffix_def)
    qed
    then have "suffix (marked ls) (marked qs)" using marked_first_label(2)[OF Cons.prems(1)] t by simp
    then show ?thesis using Cons.IH Cons.prems(1) by (auto simp: lowered_def intro: suffix_ConsI)
  qed
qed

end
