(* ===== verification/SoaNegative.thy ===== *)
theory SoaNegative
  imports DnsNom Fnv Trace
begin

text \<open>
  The tracker of \<open>soa_negative.go\<close>: from negative responses it takes the SOA record whose owner is the
  question's name or a parent of it, and counts per client and owner the different SOA contents of the
  last ten minutes.  Rows of four tracks of eight fingerprints; instants are 64-bit nanoseconds, whose
  differences wrap.
\<close>

section \<open>The SOA record of a negative response\<close>

record soa_fields =
  sOwner :: bytes
  sMName :: bytes
  sRName :: bytes
  sSerial :: bytes

definition soa_header :: "bytes \<Rightarrow> (nat \<times> nat) option outcome" where
  "soa_header w = (if length w < 12 then Ret None
     else obind (get_at w 2) (\<lambda>b2. obind (get_at w 3) (\<lambda>b3.
       if b2 AND 0x80 = 0 then Ret None
       else let codeReponse = b3 AND 0x0F in
         if codeReponse \<noteq> 0 \<and> codeReponse \<noteq> 3 then Ret None
         else obind (slice_at w 4 6) (\<lambda>q. obind (slice_at w 6 8) (\<lambda>r. obind (slice_at w 8 10) (\<lambda>a.
           let nbQuestions = unat (be_get q :: u16); nbReponses = unat (be_get r :: u16); nbAutorites = unat (be_get a :: u16) in
           if nbQuestions = 0 \<or> 0 < nbReponses \<or> nbAutorites = 0 then Ret None else Ret (Some (nbQuestions, nbAutorites))))))))"

fun soa_questions :: "bytes \<Rightarrow> nat \<Rightarrow> nat \<Rightarrow> nat option outcome" where
  "soa_questions w off 0 = Ret (Some off)"
| "soa_questions w off (Suc n) = obind (decompresserNomDNS w off (length w) False False) (\<lambda>r. case r of
     None \<Rightarrow> Ret None
   | Some (fin, _) \<Rightarrow> if length w < fin + 4 then Ret None else soa_questions w (fin + 4) n)"

text \<open>A record of type SOA: its owner, compared with the end of the question, then its data.\<close>

definition soa_data :: "bytes \<Rightarrow> nat \<Rightarrow> nat \<Rightarrow> (byte \<times> bool) list \<Rightarrow> soa_fields option outcome" where
  "soa_data w debut finD owner = obind (decompresserNomDNS w debut finD False True) (\<lambda>r. case r of
     None \<Rightarrow> Ret None
   | Some (finMName, mname) \<Rightarrow> obind (decompresserNomDNS w finMName finD False True) (\<lambda>r. case r of
       None \<Rightarrow> Ret None
     | Some (finRName, rname) \<Rightarrow>
         if finD < finRName + 20 then Ret None
         else obind (slice_at w finRName (finRName + 4)) (\<lambda>serial.
           Ret (Some \<lparr>sOwner = map fst owner, sMName = map fst mname, sRName = map fst rname, sSerial = serial\<rparr>))))"

definition soa_record :: "bytes \<Rightarrow> nat \<Rightarrow> nat \<Rightarrow> nat \<Rightarrow> nat \<Rightarrow> (byte \<times> bool) list \<Rightarrow> soa_fields option outcome" where
  "soa_record w off finOwner debut finD question = obind (decompresserNomDNS w off finOwner False True) (\<lambda>r. case r of
     None \<Rightarrow> Ret None
   | Some (_, owner) \<Rightarrow>
       if length question < length owner then Ret None
       else let nombreLabels = length (filter snd owner); debutSuffixe = length question - length owner in
         if nombreLabels < 2 \<or> \<not> snd (question ! debutSuffixe) then Ret None
         else if list_ex (\<lambda>i. question ! (debutSuffixe + i) \<noteq> owner ! i) [0..<length owner] then Ret None
         else soa_data w debut finD owner)"

fun soa_authorities :: "bytes \<Rightarrow> nat \<Rightarrow> nat \<Rightarrow> (byte \<times> bool) list \<Rightarrow> soa_fields option outcome" where
  "soa_authorities w off 0 question = Ret None"
| "soa_authorities w off (Suc n) question = obind (decompresserNomDNS w off (length w) False False) (\<lambda>r. case r of
     None \<Rightarrow> Ret None
   | Some (fin, _) \<Rightarrow>
       if length w < fin + 10 then Ret None
       else obind (slice_at w fin (fin + 2)) (\<lambda>ty. obind (slice_at w (fin + 8) (fin + 10)) (\<lambda>ln.
         let debut = fin + 10; finD = debut + unat (be_get ln :: u16) in
         if length w < finD then Ret None
         else if (be_get ty :: u16) = 6 then soa_record w off fin debut finD question
         else soa_authorities w finD n question)))"

definition soa_parse :: "bytes \<Rightarrow> soa_fields option outcome" where
  "soa_parse w = obind (soa_header w) (\<lambda>h. case h of
     None \<Rightarrow> Ret None
   | Some (nbQuestions, nbAutorites) \<Rightarrow>
       obind (decompresserNomDNS w 12 (length w) False True) (\<lambda>r. case r of
         None \<Rightarrow> Ret None
       | Some (fin, question) \<Rightarrow>
           if length w < fin + 4 then Ret None
           else obind (soa_questions w (fin + 4) (nbQuestions - 1)) (\<lambda>r. case r of
             None \<Rightarrow> Ret None
           | Some off \<Rightarrow> soa_authorities w off nbAutorites question)))"

section \<open>The tracker\<close>

text \<open>An answer is whether the tracker fires; the reason is \<open>REASON_P20_SOA_NEG_DOWNLINK\<close> exactly then.\<close>

record voieSOA =
  cleSuivi :: u64
  empreintesSOA :: "u64 list"
  horodatagesNs :: "int list"

type_synonym SOANegativeTracker = "nat \<Rightarrow> voieSOA list"

definition empty_soa :: SOANegativeTracker where
  "empty_soa = (\<lambda>_. replicate 4 \<lparr>cleSuivi = 0, empreintesSOA = replicate 8 0, horodatagesNs = replicate 8 0\<rparr>)"

definition cleSuiviSOA :: "bytes \<Rightarrow> bytes \<Rightarrow> u64" where
  "cleSuiviSOA clientIP proprietaire = fnv_from (fnv_from 14695981039346656037 clientIP) (map lower proprietaire)"

definition indexAlveoleSOA :: "u64 \<Rightarrow> nat" where
  "indexAlveoleSOA k = unat (k AND 255)"

definition empreinteSOA :: "soa_fields \<Rightarrow> u64" where
  "empreinteSOA s = (let h = fnv_step (fnv_from 14695981039346656037 (sMName s)) 0; h = fnv_step (fnv_from h (sRName s)) 0;
       h = fnv_from h (sSerial s) in if h = 0 then 1 else h)"

definition date_recente :: "voieSOA \<Rightarrow> int" where
  "date_recente v = fst (foldl (\<lambda>(d, t) i. if empreintesSOA v ! i \<noteq> 0 \<and> (\<not> t \<or> d < horodatagesNs v ! i) then (horodatagesNs v ! i, True) else (d, t)) (0, False) [0..<8])"

text \<open>The track of the key, or the first free one, or the one seen longest ago.\<close>

fun voie_loop :: "voieSOA list \<Rightarrow> u64 \<Rightarrow> nat list \<Rightarrow> nat option \<Rightarrow> nat \<Rightarrow> int \<Rightarrow> bool \<times> nat" where
  "voie_loop vs k [] libre ancienne date = (True, case libre of None \<Rightarrow> ancienne | Some i \<Rightarrow> i)"
| "voie_loop vs k (i # ix) libre ancienne date =
     (if empreintesSOA (vs ! i) = replicate 8 0 then voie_loop vs k ix (case libre of None \<Rightarrow> Some i | Some _ \<Rightarrow> libre) ancienne date
      else if cleSuivi (vs ! i) = k then (False, i)
      else let d = date_recente (vs ! i) in
        if i = 0 \<or> d < date then voie_loop vs k ix libre i d else voie_loop vs k ix libre ancienne date)"

definition choose_voie :: "voieSOA list \<Rightarrow> u64 \<Rightarrow> nat \<times> voieSOA" where
  "choose_voie vs k = (case voie_loop vs k [0..<length vs] None 0 0 of (cleAbsente, i) \<Rightarrow>
     (i, if cleAbsente then \<lparr>cleSuivi = k, empreintesSOA = replicate 8 0, horodatagesNs = replicate 8 0\<rparr> else vs ! i))"

text \<open>One place of a track: expired, refreshed, or noted as the first free one.\<close>

definition slot_step :: "int \<Rightarrow> int \<Rightarrow> u64 \<Rightarrow> voieSOA \<times> bool \<times> nat option \<Rightarrow> nat \<Rightarrow> voieSOA \<times> bool \<times> nat option" where
  "slot_step tsNs seuil fp st i = (case st of (v, connue, libre) \<Rightarrow>
     let v = (if empreintesSOA v ! i \<noteq> 0 \<and> horodatagesNs v ! i < seuil
              then v\<lparr>empreintesSOA := (empreintesSOA v)[i := 0], horodatagesNs := (horodatagesNs v)[i := 0]\<rparr> else v) in
     if empreintesSOA v ! i = fp then (v\<lparr>horodatagesNs := (horodatagesNs v)[i := tsNs]\<rparr>, True, libre)
     else if empreintesSOA v ! i = 0 \<and> libre = None then (v, connue, Some i)
     else (v, connue, libre))"

definition oldest :: "int list \<Rightarrow> nat" where
  "oldest hs = foldl (\<lambda>m i. if hs ! i < hs ! m then i else m) 0 [1..<8]"

definition note_soa :: "int \<Rightarrow> u64 \<Rightarrow> voieSOA \<Rightarrow> voieSOA" where
  "note_soa tsNs fp v = (case foldl (slot_step tsNs (go_int (tsNs - 600000000000)) fp) (v, False, None) [0..<8] of (v, connue, libre) \<Rightarrow>
     if connue then v
     else let i = (case libre of Some i \<Rightarrow> i | None \<Rightarrow> oldest (horodatagesNs v)) in
       v\<lparr>empreintesSOA := (empreintesSOA v)[i := fp], horodatagesNs := (horodatagesNs v)[i := tsNs]\<rparr>)"

definition ObserveResponse :: "SOANegativeTracker \<Rightarrow> int \<Rightarrow> bytes \<Rightarrow> bytes \<Rightarrow> (bool \<times> SOANegativeTracker) outcome" where
  "ObserveResponse t tsNs clientIP respWire = obind (soa_parse respWire) (\<lambda>s. case s of
     None \<Rightarrow> Ret (False, t)
   | Some s \<Rightarrow> let k = cleSuiviSOA clientIP (sOwner s); r = indexAlveoleSOA k in
       (case choose_voie (t r) k of (i, v) \<Rightarrow>
         let v = note_soa tsNs (empreinteSOA s) v in
         Ret (3 \<le> length (filter (\<lambda>e. e \<noteq> 0) (empreintesSOA v)), t(r := (t r)[i := v]))))"


section \<open>What the record is\<close>

lemma buffer_octets: "map fst (buffer_of True ls) = dotted (lowered ls)"
  by (simp add: buffer_of_def octets_marked lowered_def)

definition soa_parts :: "bytes \<Rightarrow> (byte \<times> bool) list \<Rightarrow> soa_fields \<Rightarrow> bool" where
  "soa_parts w owner s \<longleftrightarrow> sOwner s = map fst owner \<and> length (sSerial s) = 4
     \<and> (\<exists>m ms n ns. wire_name_at w m ms \<and> wire_name_at w n ns \<and> sMName s = dotted (lowered ms) \<and> sRName s = dotted (lowered ns))"

lemma soa_data_ok:
  assumes "finD \<le> length w"
  shows "yields (soa_data w debut finD owner) (soa_parts w owner)"
proof (rule yieldsE[OF decompresserNomDNS_ok[OF assms, of debut True]])
  fix fm mname assume m: "decompresserNomDNS w debut finD False True = Ret (Some (fm, mname))" "name_at w debut finD True (fm, mname)"
  show ?thesis
  proof (rule yieldsE[OF decompresserNomDNS_ok[OF assms, of fm True]])
    fix fr rname assume r: "decompresserNomDNS w fm finD False True = Ret (Some (fr, rname))" "name_at w fm finD True (fr, rname)"
    have "soa_parts w owner \<lparr>sOwner = map fst owner, sMName = map fst mname, sRName = map fst rname, sSerial = subslice fr (fr + 4) w\<rparr>" if "fr + 20 \<le> finD"
      using m(2) r(2) that assms unfolding soa_parts_def name_at_def by (auto simp: buffer_octets) blast
    then show ?thesis using m(1) r(1) assms by (simp add: soa_data_def)
  qed (use m(1) in \<open>simp add: soa_data_def\<close>)
qed (simp add: soa_data_def)

lemma owner_ends_question:
  assumes "question = buffer_of True qs" "owner = buffer_of True os" "[] \<notin> set qs" "[] \<notin> set os" "2 \<le> length (filter snd owner)"
    "length owner \<le> length question" "\<forall>i < length owner. question ! (length question - length owner + i) = owner ! i"
  shows "2 \<le> length os \<and> suffix (lowered os) (lowered qs)"
proof -
  have n: "2 \<le> length os" using assms marks_count[OF assms(4)] by (simp add: buffer_of_def)
  have "drop (length question - length owner) question = owner" using assms(6,7) by (intro nth_equalityI) auto
  then have "suffix owner question" by (metis suffix_drop)
  then have "suffix (marked os) (marked qs)" using assms(1,2) by (simp add: buffer_of_def)
  then show ?thesis using n marked_suffix[OF assms(3,4)] by fastforce
qed

definition soa_for :: "bytes \<Rightarrow> bytes list \<Rightarrow> soa_fields \<Rightarrow> bool" where
  "soa_for w qs s \<longleftrightarrow> (\<exists>os p m ms n ns. wire_name_at w p os \<and> wire_name_at w m ms \<and> wire_name_at w n ns \<and> 2 \<le> length os \<and> suffix (lowered os) (lowered qs)
     \<and> sOwner s = dotted (lowered os) \<and> sMName s = dotted (lowered ms) \<and> sRName s = dotted (lowered ns) \<and> length (sSerial s) = 4)"

lemma soa_record_ok:
  assumes "finOwner \<le> length w" "finD \<le> length w" "question = buffer_of True qs" "[] \<notin> set qs"
  shows "yields (soa_record w off finOwner debut finD question) (soa_for w qs)"
proof (rule yieldsE[OF decompresserNomDNS_ok[OF assms(1), of off True]])
  fix f owner assume o: "decompresserNomDNS w off finOwner False True = Ret (Some (f, owner))" "name_at w off finOwner True (f, owner)"
  then obtain os where os: "wire_name_at w off os" "[] \<notin> set os" "owner = buffer_of True os" by (auto simp: name_at_def)
  let ?k = "length question - length owner"
  show ?thesis
  proof (cases "length question < length owner \<or> length (filter snd owner) < 2 \<or> \<not> snd (question ! ?k)
      \<or> list_ex (\<lambda>i. question ! (?k + i) \<noteq> owner ! i) [0..<length owner]")
    case True
    then show ?thesis using o(1) by (auto simp: soa_record_def Let_def)
  next
    case False
    then have "2 \<le> length os \<and> suffix (lowered os) (lowered qs)"
      using owner_ends_question[OF assms(3) os(3) assms(4) os(2)] by (auto simp: list_ex_iff)
    then have "soa_for w qs s" if "soa_parts w owner s" for s
      using that os(1) unfolding soa_for_def soa_parts_def os(3) buffer_octets by blast
    then have "yields (soa_data w debut finD owner) (soa_for w qs)" by (rule yields_mono[OF soa_data_ok[OF assms(2)]])
    then show ?thesis using o(1) False by (simp add: soa_record_def Let_def)
  qed
qed (simp add: soa_record_def)

lemma soa_authorities_ok:
  assumes "question = buffer_of True qs" "[] \<notin> set qs"
  shows "yields (soa_authorities w off n question) (soa_for w qs)"
proof (induction n arbitrary: off)
  case (Suc n)
  show ?case
  proof (rule yieldsE[OF decompresserNomDNS_ok[OF order_refl, of w off False]])
    fix fin nom assume o: "decompresserNomDNS w off (length w) False False = Ret (Some (fin, nom))" "name_at w off (length w) False (fin, nom)"
    then have f: "fin \<le> length w" by (simp add: name_at_def)
    define ty ln where "ty = subslice fin (fin + 2) w" and "ln = subslice (fin + 8) (fin + 10) w"
    show ?thesis
    proof (cases "length w < fin + 10 \<or> length w < fin + 10 + unat (be_get ln :: u16)")
      case True
      then show ?thesis using o(1) by (auto simp: ln_def Let_def)
    next
      case False
      then have "soa_authorities w off (Suc n) question = (if (be_get ty :: u16) = 6 then soa_record w off fin (fin + 10) (fin + 10 + unat (be_get ln :: u16)) question
          else soa_authorities w (fin + 10 + unat (be_get ln :: u16)) n question)"
        using o(1) by (simp add: ty_def ln_def Let_def)
      then show ?thesis using soa_record_ok[OF f _ assms] Suc False by simp
    qed
  qed simp
qed simp

lemma soa_questions_total: "yields (soa_questions w off n) (\<lambda>_. True)"
proof (induction n arbitrary: off)
  case (Suc n)
  show ?case by (rule yieldsE[OF decompresserNomDNS_ok[OF order_refl, of w off False]]) (use Suc in auto)
qed simp

lemma soa_header_ok: "yields (soa_header w) (\<lambda>_. 12 \<le> length w \<and> w ! 2 AND 0x80 \<noteq> 0 \<and> w ! 3 AND 0x0F \<in> {0, 3} \<and> (be_get (subslice 6 8 w) :: u16) = 0)"
  by (auto simp: soa_header_def Let_def unat_eq_0)

text \<open>A negative response with an SOA record for its question.\<close>

definition soa_genuine :: "bytes \<Rightarrow> soa_fields \<Rightarrow> bool" where
  "soa_genuine w s \<longleftrightarrow> 12 \<le> length w \<and> w ! 2 AND 0x80 \<noteq> 0 \<and> w ! 3 AND 0x0F \<in> {0, 3} \<and> (be_get (subslice 6 8 w) :: u16) = 0
     \<and> (\<exists>qs. wire_name_at w 12 qs \<and> soa_for w qs s)"

lemma soa_parse_ok: "yields (soa_parse w) (soa_genuine w)"
proof (rule yieldsE[OF soa_header_ok])
  fix nq na assume h: "soa_header w = Ret (Some (nq, na))"
    "12 \<le> length w \<and> w ! 2 AND 0x80 \<noteq> 0 \<and> w ! 3 AND 0x0F \<in> {0, 3} \<and> (be_get (subslice 6 8 w) :: u16) = 0"
  show ?thesis
  proof (rule yieldsE[OF decompresserNomDNS_ok[OF order_refl, of w 12 True]])
    fix fin question assume q: "decompresserNomDNS w 12 (length w) False True = Ret (Some (fin, question))" "name_at w 12 (length w) True (fin, question)"
    then obtain qs where qs: "wire_name_at w 12 qs" "[] \<notin> set qs" "question = buffer_of True qs" by (auto simp: name_at_def)
    have g: "yields (soa_authorities w off na question) (soa_genuine w)" for off
      by (rule yields_mono[OF soa_authorities_ok[OF qs(3,2)]]) (use h(2) qs(1) in \<open>auto simp: soa_genuine_def\<close>)
    obtain r where r: "soa_questions w (fin + 4) (nq - 1) = Ret r" using soa_questions_total[of w "fin + 4" "nq - 1"] by (auto simp: yields_def)
    show ?thesis using h(1) q(1) r g by (cases r) (simp_all add: soa_parse_def)
  qed (use h(1) in \<open>simp add: soa_parse_def\<close>)
qed (simp add: soa_parse_def)


section \<open>What the counts stand for\<close>

type_synonym response = "int \<times> bytes \<times> bytes"

definition seen :: "response list \<Rightarrow> u64 \<Rightarrow> u64 \<Rightarrow> int \<Rightarrow> bool" where
  "seen hist k fp ts \<longleftrightarrow> (\<exists>ip w s. (ts, ip, w) \<in> set hist \<and> soa_parse w = Ret (Some s) \<and> cleSuiviSOA ip (sOwner s) = k \<and> empreinteSOA s = fp)"

definition voie_ok :: "response list \<Rightarrow> voieSOA \<Rightarrow> bool" where
  "voie_ok hist v \<longleftrightarrow> length (empreintesSOA v) = 8 \<and> length (horodatagesNs v) = 8
     \<and> (\<forall>i < 8. \<forall>j < 8. i \<noteq> j \<and> empreintesSOA v ! i \<noteq> 0 \<longrightarrow> empreintesSOA v ! i \<noteq> empreintesSOA v ! j)
     \<and> (\<forall>i < 8. empreintesSOA v ! i \<noteq> 0 \<longrightarrow> seen hist (cleSuivi v) (empreintesSOA v ! i) (horodatagesNs v ! i))"

lemma seen_more: "seen hist k fp ts \<Longrightarrow> set hist \<subseteq> set hist' \<Longrightarrow> seen hist' k fp ts"
  by (auto simp: seen_def)

lemma voie_ok_more: "voie_ok hist v \<Longrightarrow> set hist \<subseteq> set hist' \<Longrightarrow> voie_ok hist' v"
  unfolding voie_ok_def using seen_more by blast

lemma empreinte_nonzero: "empreinteSOA s \<noteq> 0"
  by (simp add: empreinteSOA_def Let_def)

text \<open>The sweep over the eight places.\<close>

definition swept :: "int \<Rightarrow> voieSOA \<Rightarrow> nat \<Rightarrow> u64" where
  "swept seuil v i = (if empreintesSOA v ! i \<noteq> 0 \<and> horodatagesNs v ! i < seuil then 0 else empreintesSOA v ! i)"

definition sweptNs :: "int \<Rightarrow> int \<Rightarrow> u64 \<Rightarrow> voieSOA \<Rightarrow> nat \<Rightarrow> int" where
  "sweptNs ts seuil fp v i = (if empreintesSOA v ! i \<noteq> 0 \<and> horodatagesNs v ! i < seuil then 0
     else if empreintesSOA v ! i = fp then ts else horodatagesNs v ! i)"

lemma find_app: "find P (xs @ ys) = (case find P xs of Some x \<Rightarrow> Some x | None \<Rightarrow> find P ys)"
  by (induction xs) auto

definition swept_upto :: "int \<Rightarrow> voieSOA \<Rightarrow> nat \<Rightarrow> u64 list" where
  "swept_upto seuil v n = map (\<lambda>i. if i < n then swept seuil v i else empreintesSOA v ! i) [0..<8]"

definition sweptNs_upto :: "int \<Rightarrow> int \<Rightarrow> u64 \<Rightarrow> voieSOA \<Rightarrow> nat \<Rightarrow> int list" where
  "sweptNs_upto ts seuil fp v n = map (\<lambda>i. if i < n then sweptNs ts seuil fp v i else horodatagesNs v ! i) [0..<8]"

lemma swept_upto_step:
  assumes "n < 8"
  shows "swept_upto seuil v (Suc n) = (swept_upto seuil v n)[n := swept seuil v n]" "swept_upto seuil v n ! n = empreintesSOA v ! n"
    "sweptNs_upto ts seuil fp v (Suc n) = (sweptNs_upto ts seuil fp v n)[n := sweptNs ts seuil fp v n]" "sweptNs_upto ts seuil fp v n ! n = horodatagesNs v ! n"
    "length (swept_upto seuil v n) = 8" "length (sweptNs_upto ts seuil fp v n) = 8"
  using assms by (auto simp: swept_upto_def sweptNs_upto_def nth_list_update less_Suc_eq intro!: nth_equalityI)

lemma slot_step_upto:
  assumes "n < 8" "fp \<noteq> 0"
  shows "slot_step ts seuil fp (v\<lparr>empreintesSOA := swept_upto seuil v n, horodatagesNs := sweptNs_upto ts seuil fp v n\<rparr>, connue, libre) n
    = (v\<lparr>empreintesSOA := swept_upto seuil v (Suc n), horodatagesNs := sweptNs_upto ts seuil fp v (Suc n)\<rparr>,
       connue \<or> swept seuil v n = fp, if libre = None \<and> swept seuil v n = 0 then Some n else libre)"
proof -
  let ?e = "empreintesSOA v ! n" and ?h = "horodatagesNs v ! n"
  note st = swept_upto_step(1,2,5)[OF assms(1), of seuil v] swept_upto_step(3,4,6)[OF assms(1), of ts seuil fp v]
  have same: "(swept_upto seuil v n)[n := ?e] = swept_upto seuil v n" "(sweptNs_upto ts seuil fp v n)[n := ?h] = sweptNs_upto ts seuil fp v n"
    using list_update_id[of "swept_upto seuil v n" n] list_update_id[of "sweptNs_upto ts seuil fp v n" n] st by simp_all
  consider (old) "?e \<noteq> 0" "?h < seuil" | (known) "?e = fp" "\<not> ?h < seuil" | (other) "?e \<noteq> fp" "\<not> (?e \<noteq> 0 \<and> ?h < seuil)"
    using assms(2) by blast
  then show ?thesis
  proof cases
    case old
    then have "swept seuil v n = 0" "sweptNs ts seuil fp v n = 0" by (simp_all add: swept_def sweptNs_def)
    then show ?thesis using old st assms by (simp add: slot_step_def Let_def)
  next
    case known
    then have "swept seuil v n = ?e" "sweptNs ts seuil fp v n = ts" using assms(2) by (simp_all add: swept_def sweptNs_def)
    then show ?thesis using known st assms same by (simp add: slot_step_def Let_def)
  next
    case other
    then have "swept seuil v n = ?e" "sweptNs ts seuil fp v n = ?h" by (auto simp: swept_def sweptNs_def)
    then show ?thesis using other st assms same by (auto simp: slot_step_def Let_def)
  qed
qed

lemma sweep_ok:
  assumes "length (empreintesSOA v) = 8" "length (horodatagesNs v) = 8" "fp \<noteq> 0" "n \<le> 8"
  shows "foldl (slot_step ts seuil fp) (v, False, None) [0..<n]
    = (v\<lparr>empreintesSOA := swept_upto seuil v n, horodatagesNs := sweptNs_upto ts seuil fp v n\<rparr>,
       \<exists>i < n. swept seuil v i = fp, find (\<lambda>i. swept seuil v i = 0) [0..<n])"
  using assms(4)
proof (induction n)
  case 0
  then show ?case using map_nth[of "empreintesSOA v"] map_nth[of "horodatagesNs v"] assms(1,2) by (simp add: swept_upto_def sweptNs_upto_def)
next
  case (Suc n)
  have ex: "(\<exists>i < Suc n. swept seuil v i = fp) \<longleftrightarrow> (\<exists>i < n. swept seuil v i = fp) \<or> swept seuil v n = fp" using less_Suc_eq by auto
  have fd: "find (\<lambda>i. swept seuil v i = 0) [0..<Suc n]
      = (if find (\<lambda>i. swept seuil v i = 0) [0..<n] = None \<and> swept seuil v n = 0 then Some n else find (\<lambda>i. swept seuil v i = 0) [0..<n])"
    by (simp add: find_app split: option.splits)
  have "[0..<Suc n] = [0..<n] @ [n]" by simp
  then show ?case using Suc slot_step_upto[of n fp ts seuil v] assms(3) unfolding ex fd by simp
qed

lemma oldest_less: "oldest hs < 8"
proof -
  have "foldl (\<lambda>m i. if hs ! i < hs ! m then i else m) m ix < 8" if "m < 8" "\<forall>i \<in> set ix. i < 8" for m ix
    using that by (induction ix arbitrary: m) auto
  then show ?thesis by (simp add: oldest_def)
qed

definition recent :: "int \<Rightarrow> int \<Rightarrow> bool" where
  "recent ts t \<longleftrightarrow> t = ts \<or> go_int (ts - 600000000000) \<le> t"

definition recent_voie :: "int \<Rightarrow> voieSOA \<Rightarrow> bool" where
  "recent_voie ts v \<longleftrightarrow> (\<forall>i < 8. empreintesSOA v ! i \<noteq> 0 \<longrightarrow> recent ts (horodatagesNs v ! i))"

lemma note_soa_ok:
  assumes v: "voie_ok hist v" and fp: "fp \<noteq> 0" "seen hist (cleSuivi v) fp ts"
  shows "voie_ok hist (note_soa ts fp v) \<and> cleSuivi (note_soa ts fp v) = cleSuivi v \<and> recent_voie ts (note_soa ts fp v)"
proof -
  let ?s = "go_int (ts - 600000000000)"
  define E H where "E = map (swept ?s v) [0..<8]" and "H = map (sweptNs ts ?s fp v) [0..<8]"
  have len: "length (empreintesSOA v) = 8" "length (horodatagesNs v) = 8" using v by (simp_all add: voie_ok_def)
  have sw: "foldl (slot_step ts ?s fp) (v, False, None) [0..<8]
      = (v\<lparr>empreintesSOA := E, horodatagesNs := H\<rparr>, \<exists>i < 8. E ! i = fp, find (\<lambda>i. swept ?s v i = 0) [0..<8])"
    using sweep_ok[OF len fp(1) order_refl, of ts ?s] by (auto simp: E_def H_def swept_upto_def sweptNs_upto_def)
  have at: "E ! i = swept ?s v i" "H ! i = sweptNs ts ?s fp v i" if "i < 8" for i using that by (simp_all add: E_def H_def)
  have ls: "length E = 8" "length H = 8" by (simp_all add: E_def H_def)
  have inj: "E ! i \<noteq> E ! j" if "i < 8" "j < 8" "i \<noteq> j" "E ! i \<noteq> 0" for i j
  proof -
    have "E ! i = empreintesSOA v ! i" "E ! j = 0 \<or> E ! j = empreintesSOA v ! j" using that by (auto simp: at swept_def split: if_splits)
    moreover have "empreintesSOA v ! i \<noteq> 0 \<longrightarrow> empreintesSOA v ! i \<noteq> empreintesSOA v ! j" using v that by (simp add: voie_ok_def)
    ultimately show ?thesis using that(4) by auto
  qed
  have bkd: "seen hist (cleSuivi v) (E ! i) (H ! i)" "recent ts (H ! i)" if "i < 8" "E ! i \<noteq> 0" for i
    using that v fp(2) by (auto simp: at swept_def sweptNs_def voie_ok_def recent_def split: if_splits)
  show ?thesis
  proof (cases "\<exists>i < 8. E ! i = fp")
    case True
    then have "note_soa ts fp v = v\<lparr>empreintesSOA := E, horodatagesNs := H\<rparr>" using sw by (simp add: note_soa_def)
    then show ?thesis using ls inj bkd by (simp add: voie_ok_def recent_voie_def)
  next
    case False
    define k where "k = (case find (\<lambda>i. swept ?s v i = 0) [0..<8] of Some i \<Rightarrow> i | None \<Rightarrow> oldest H)"
    have k: "k < 8" using oldest_less by (auto simp: k_def find_Some_iff split: option.splits)
    have r: "note_soa ts fp v = v\<lparr>empreintesSOA := E[k := fp], horodatagesNs := H[k := ts]\<rparr>" using sw False by (simp add: note_soa_def k_def Let_def split: option.split)
    show ?thesis unfolding r voie_ok_def recent_voie_def
      using ls k inj bkd fp False by (auto simp: nth_list_update recent_def)
  qed
qed

lemma distinct_filter_nth: "(\<forall>i < length xs. \<forall>j < length xs. i \<noteq> j \<and> P (xs ! i) \<longrightarrow> xs ! i \<noteq> xs ! j) \<Longrightarrow> distinct (filter P xs)"
proof (induction xs)
  case (Cons x xs)
  have "distinct (filter P xs)" using Cons.prems by (intro Cons.IH) (metis Suc_less_eq length_Cons nat.inject nth_Cons_Suc)
  moreover have "x \<notin> set xs" if "P x"
  proof
    assume "x \<in> set xs"
    then obtain j where "j < length xs" "xs ! j = x" by (auto simp: in_set_conv_nth)
    then show False using Cons.prems[rule_format, of 0 "Suc j"] that by simp
  qed
  ultimately show ?case by auto
qed simp

lemma live_count:
  assumes "voie_ok hist v"
  shows "length (filter (\<lambda>e. e \<noteq> 0) (empreintesSOA v)) = card {e \<in> set (empreintesSOA v). e \<noteq> 0}"
proof -
  have "distinct (filter (\<lambda>e. e \<noteq> 0) (empreintesSOA v))" using assms by (intro distinct_filter_nth) (simp add: voie_ok_def)
  from distinct_card[OF this] show ?thesis by simp
qed

lemma voie_loop_ok:
  assumes "\<forall>i \<in> set ix. i < n" "a < n" "case libre of None \<Rightarrow> True | Some i \<Rightarrow> i < n" "voie_loop vs k ix libre a date = (absente, i)"
  shows "i < n" "\<not> absente \<Longrightarrow> cleSuivi (vs ! i) = k"
proof -
  have "i < n \<and> (\<not> absente \<longrightarrow> cleSuivi (vs ! i) = k)" using assms
    by (induction vs k ix libre a date rule: voie_loop.induct) (auto simp: Let_def split: option.splits if_splits)
  then show "i < n" "\<not> absente \<Longrightarrow> cleSuivi (vs ! i) = k" by simp_all
qed

lemma choose_voie_ok:
  assumes "length vs = 4" "\<forall>v \<in> set vs. voie_ok hist v" "choose_voie vs k = (i, v)"
  shows "i < 4" "voie_ok hist v" "cleSuivi v = k"
proof -
  obtain ab j where l: "voie_loop vs k [0..<length vs] None 0 0 = (ab, j)" by force
  have j: "j < 4" "\<not> ab \<Longrightarrow> cleSuivi (vs ! j) = k" using voie_loop_ok[OF _ _ _ l, of 4] assms(1) by auto
  have "i = j" "v = (if ab then \<lparr>cleSuivi = k, empreintesSOA = replicate 8 0, horodatagesNs = replicate 8 0\<rparr> else vs ! i)"
    using assms(3) l by (auto simp: choose_voie_def)
  then show "i < 4" "voie_ok hist v" "cleSuivi v = k" using j assms(1,2) by (auto simp: voie_ok_def)
qed


definition soa_table_ok :: "response list \<Rightarrow> SOANegativeTracker \<Rightarrow> bool" where
  "soa_table_ok hist t \<longleftrightarrow> (\<forall>r. length (t r) = 4 \<and> (\<forall>v \<in> set (t r). voie_ok hist v))"

definition observe_response :: "SOANegativeTracker \<Rightarrow> response \<Rightarrow> (bool \<times> SOANegativeTracker) outcome" where
  "observe_response t x = (case x of (ts, ip, w) \<Rightarrow> ObserveResponse t ts ip w)"

text \<open>The different SOA contents that the responses recent at \<open>ts\<close> gave for a key.\<close>

definition contents :: "response list \<Rightarrow> int \<Rightarrow> u64 \<Rightarrow> u64 set" where
  "contents hist ts k = {fp. \<exists>t. recent ts t \<and> seen hist k fp t}"

text \<open>The contents that the table still holds for a key, at \<open>ts\<close>.\<close>

definition track_of :: "SOANegativeTracker \<Rightarrow> u64 \<Rightarrow> voieSOA option" where
  "track_of t k = find (\<lambda>v. empreintesSOA v \<noteq> replicate 8 0 \<and> cleSuivi v = k) (t (indexAlveoleSOA k))"

definition live :: "int \<Rightarrow> voieSOA \<Rightarrow> u64 set" where
  "live ts v = {e. \<exists>i < 8. empreintesSOA v ! i = e \<and> e \<noteq> 0 \<and> go_int (ts - 600000000000) \<le> horodatagesNs v ! i}"

definition held :: "SOANegativeTracker \<Rightarrow> int \<Rightarrow> u64 \<Rightarrow> u64 set" where
  "held t ts k = (case track_of t k of None \<Rightarrow> {} | Some v \<Rightarrow> live ts v)"

lemma voie_loop_find:
  "voie_loop vs k ix libre a date = (absente, i) \<Longrightarrow>
    find (\<lambda>i. empreintesSOA (vs ! i) \<noteq> replicate 8 0 \<and> cleSuivi (vs ! i) = k) ix = (if absente then None else Some i)"
  by (induction vs k ix libre a date rule: voie_loop.induct) (auto simp: Let_def split: if_splits)

lemma find_nth: "find P xs = map_option ((!) xs) (find (\<lambda>i. P (xs ! i)) [0..<length xs])"
proof (induction xs)
  case (Cons x xs)
  have "find (\<lambda>i. P ((x # xs) ! i)) (map Suc is) = map_option Suc (find (\<lambda>i. P (xs ! i)) is)" for "is" by (induction "is") auto
  then show ?case using Cons unfolding length_Cons upt_conv_Cons[OF zero_less_Suc] map_Suc_upt[symmetric] by (simp add: option.map_comp comp_def)
qed simp

lemma live_fresh: "live ts \<lparr>cleSuivi = k, empreintesSOA = replicate 8 0, horodatagesNs = replicate 8 0\<rparr> = {}"
  by (auto simp: live_def)

lemma choose_voie_held: "choose_voie (t (indexAlveoleSOA k)) k = (i, v) \<Longrightarrow> live ts v = held t ts k"
proof -
  assume c: "choose_voie (t (indexAlveoleSOA k)) k = (i, v)"
  let ?vs = "t (indexAlveoleSOA k)"
  obtain ab j where l: "voie_loop ?vs k [0..<length ?vs] None 0 0 = (ab, j)" by force
  have "track_of t k = (if ab then None else Some (?vs ! j))"
    unfolding track_of_def find_nth[of _ ?vs] voie_loop_find[OF l] by simp
  then show ?thesis using c l by (auto simp: choose_voie_def held_def live_fresh)
qed

lemma swept_live: "voie_ok hist v \<Longrightarrow> {e \<in> set (map (swept (go_int (ts - 600000000000)) v) [0..<8]). e \<noteq> 0} = live ts v"
  by (auto simp: live_def swept_def image_iff not_less split: if_splits)

lemma swept_distinct: "voie_ok hist v \<Longrightarrow> i < 8 \<Longrightarrow> j < 8 \<Longrightarrow> i \<noteq> j \<Longrightarrow> swept s v i \<noteq> 0 \<Longrightarrow> swept s v i \<noteq> swept s v j"
  by (auto simp: voie_ok_def swept_def split: if_splits)

lemma note_soa_count:
  assumes v: "voie_ok hist v" and fp: "fp \<noteq> 0" "seen hist (cleSuivi v) fp ts"
  shows "3 \<le> length (filter (\<lambda>e. e \<noteq> 0) (empreintesSOA (note_soa ts fp v))) \<longleftrightarrow> 3 \<le> card (insert fp (live ts v))"
proof -
  let ?s = "go_int (ts - 600000000000)"
  define E where "E = map (swept ?s v) [0..<8]"
  have len: "length (empreintesSOA v) = 8" "length (horodatagesNs v) = 8" "length E = 8" using v by (simp_all add: voie_ok_def E_def)
  have lv: "{e \<in> set E. e \<noteq> 0} = live ts v" unfolding E_def by (rule swept_live[OF v])
  have sw: "foldl (slot_step ts ?s fp) (v, False, None) [0..<8]
      = (v\<lparr>empreintesSOA := E, horodatagesNs := sweptNs_upto ts ?s fp v 8\<rparr>, fp \<in> set E, find (\<lambda>i. E ! i = 0) [0..<8])"
    using sweep_ok[OF len(1,2) fp(1) order_refl, of ts ?s] find_cong_upt[of 8 "\<lambda>i. E ! i = 0" "\<lambda>i. swept ?s v i = 0"] by (auto simp: E_def swept_upto_def image_iff)
  have cnt: "length (filter (\<lambda>e. e \<noteq> 0) (empreintesSOA (note_soa ts fp v))) = card {e \<in> set (empreintesSOA (note_soa ts fp v)). e \<noteq> 0}"
    using live_count note_soa_ok[OF v fp] by blast
  consider (known) "fp \<in> set E" | (free) k where "fp \<notin> set E" "find (\<lambda>i. E ! i = 0) [0..<8] = Some k" | (full) "fp \<notin> set E" "find (\<lambda>i. E ! i = 0) [0..<8] = None"
    by (cases "find (\<lambda>i. E ! i = 0) [0..<8]") auto
  then show ?thesis
  proof cases
    case known
    then have "empreintesSOA (note_soa ts fp v) = E" using sw by (simp add: note_soa_def)
    moreover have "insert fp (live ts v) = live ts v" using known fp(1) lv by auto
    ultimately show ?thesis using cnt lv by simp
  next
    case (free k)
    then have k: "k < 8" "E ! k = 0" by (auto simp: find_Some_iff)
    have "empreintesSOA (note_soa ts fp v) = E[k := fp]" using sw free by (simp add: note_soa_def)
    moreover have "{e \<in> set (E[k := fp]). e \<noteq> 0} = insert fp (live ts v)"
      using k len(3) fp(1) lv[symmetric] by (auto simp: set_conv_nth nth_list_update; metis nth_list_update_neq nth_list_update_eq)
    ultimately show ?thesis using cnt by simp
  next
    case full
    have nz: "set E \<subseteq> live ts v" using full(2) len(3) lv by (fastforce simp: find_None_iff in_set_conv_nth)
    have dE: "distinct E" using full(2) len(3) swept_distinct[OF v] by (auto simp: distinct_conv_nth find_None_iff E_def)
    have "card (set E) = 8" using dE len(3) distinct_card by force
    then have big: "3 \<le> card (live ts v)" using card_mono[OF _ nz] by simp
    obtain k where k: "k < 8" "empreintesSOA (note_soa ts fp v) = E[k := fp]"
      using sw full oldest_less by (auto simp: note_soa_def Let_def)
    have "0 \<notin> set E" using full(2) len(3) by (auto simp: find_None_iff in_set_conv_nth)
    then have "0 \<notin> set (E[k := fp])" using fp(1) set_update_subset_insert[of E k fp] by auto
    then have "filter (\<lambda>e. e \<noteq> 0) (E[k := fp]) = E[k := fp]" by (intro filter_True) auto
    then have "length (filter (\<lambda>e. e \<noteq> 0) (E[k := fp])) = 8" using len(3) by simp
    moreover have "card (live ts v) \<le> card (insert fp (live ts v))" by (intro card_mono) auto
    ultimately show ?thesis using k big by simp
  qed
qed

lemma ObserveResponse_ok:
  assumes "soa_table_ok hist t"
  shows "\<exists>fired t'. ObserveResponse t ts ip w = Ret (fired, t') \<and> soa_table_ok (hist @ [(ts, ip, w)]) t'
    \<and> (fired \<longrightarrow> (\<exists>s. soa_parse w = Ret (Some s) \<and> 3 \<le> card (contents (hist @ [(ts, ip, w)]) ts (cleSuiviSOA ip (sOwner s)))))
    \<and> (\<forall>s. soa_parse w = Ret (Some s) \<longrightarrow> (fired \<longleftrightarrow> 3 \<le> card (insert (empreinteSOA s) (held t ts (cleSuiviSOA ip (sOwner s))))))"
proof -
  let ?h = "hist @ [(ts, ip, w)]"
  have old: "soa_table_ok ?h t" using assms voie_ok_more[of hist _ ?h] by (auto simp: soa_table_ok_def)
  obtain r where r: "soa_parse w = Ret r" using soa_parse_ok[of w] by (auto simp: yields_def)
  show ?thesis
  proof (cases r)
    case None
    then show ?thesis using r old by (auto simp: ObserveResponse_def)
  next
    case (Some s)
    define k where "k = cleSuiviSOA ip (sOwner s)"
    define row where "row = indexAlveoleSOA k"
    obtain i v where c: "choose_voie (t row) k = (i, v)" by force
    note v = choose_voie_ok[OF _ _ c, of ?h]
    have v: "i < 4" "voie_ok ?h v" "cleSuivi v = k" using v old by (simp_all add: soa_table_ok_def)
    have sn: "seen ?h (cleSuivi v) (empreinteSOA s) ts" using r Some v(3) by (auto simp: seen_def k_def)
    define v' where "v' = note_soa ts (empreinteSOA s) v"
    have v': "voie_ok ?h v'" "cleSuivi v' = k" "recent_voie ts v'"
      using note_soa_ok[OF v(2) empreinte_nonzero sn] v(3) by (simp_all add: v'_def)
    have o: "ObserveResponse t ts ip w = Ret (3 \<le> length (filter (\<lambda>e. e \<noteq> 0) (empreintesSOA v')), t(row := (t row)[i := v']))"
      using r Some c by (simp add: ObserveResponse_def k_def row_def v'_def Let_def)
    have tb: "soa_table_ok ?h (t(row := (t row)[i := v']))"
      using old v'(1) by (auto simp: soa_table_ok_def dest!: subsetD[OF set_update_subset_insert])
    have "{e \<in> set (empreintesSOA v'). e \<noteq> 0} \<subseteq> contents ?h ts k"
    proof
      fix e assume "e \<in> {e \<in> set (empreintesSOA v'). e \<noteq> 0}"
      then obtain j where j: "j < 8" "empreintesSOA v' ! j = e" "e \<noteq> 0" using v'(1) by (auto simp: in_set_conv_nth voie_ok_def)
      then show "e \<in> contents ?h ts k" using v' by (auto simp: contents_def voie_ok_def recent_voie_def)
    qed
    then have "length (filter (\<lambda>e. e \<noteq> 0) (empreintesSOA v')) \<le> card (contents ?h ts k)"
      unfolding live_count[OF v'(1)] by (intro card_mono) simp_all
    moreover have "3 \<le> length (filter (\<lambda>e. e \<noteq> 0) (empreintesSOA v')) \<longleftrightarrow> 3 \<le> card (insert (empreinteSOA s) (held t ts k))"
      unfolding v'_def note_soa_count[OF v(2) empreinte_nonzero sn] choose_voie_held[of t k, OF c[unfolded row_def]] by simp
    ultimately show ?thesis using o tb r Some unfolding k_def by auto
  qed
qed

interpretation soa: traced observe_response "\<lambda>_. True" soa_table_ok
proof
  show "\<exists>r t'. observe_response t x = Ret (r, t') \<and> soa_table_ok (hist @ [x]) t'" if "soa_table_ok hist t" for hist x t
    using ObserveResponse_ok[OF that] by (cases x) (fastforce simp: observe_response_def)
qed simp

lemma empty_soa_ok: "soa_table_ok [] empty_soa"
  by (simp add: soa_table_ok_def empty_soa_def voie_ok_def)



text \<open>Three refusals of the same name within ten minutes, with three serial numbers.\<close>

definition refusal :: "byte \<Rightarrow> bytes" where
  "refusal serial = [0, 1, 0x81, 0x83, 0, 1, 0, 0, 0, 1, 0, 0] @ [1, 97, 1, 98, 0, 0, 1, 0, 1]
     @ [0xC0, 12, 0, 6, 0, 1, 0, 0, 0, 60, 0, 24] @ [1, 109, 0] @ [0] @ [0, 0, 0, serial] @ replicate 16 0"


end
