(* ===== verification/AaaaIid.thy ===== *)
theory AaaaIid
  imports DnsNom Fnv Trace
begin

text \<open>
  The tracker of \<open>aaaa_iid.go\<close>: from the AAAA records of a response it takes the interface identifiers
  without a zero octet and counts, per client and /64 prefix, the different ones of the last ten
  minutes.  Rows of four tracks of sixteen identifiers.
\<close>

section \<open>The AAAA records of a response\<close>

definition cleSuiviAAAAIID :: "bytes \<Rightarrow> bytes \<Rightarrow> u64" where
  "cleSuiviAAAAIID clientIP prefixe = fnv_from (fnv_from 14695981039346656037 clientIP) prefixe"

text \<open>The next record's place, the start of the data and whether it is an AAAA record; \<open>None\<close> is an invalid record.\<close>

definition lireEnregistrementAAAAIID :: "bytes \<Rightarrow> nat \<Rightarrow> (nat \<times> nat \<times> bool) option outcome" where
  "lireEnregistrementAAAAIID w off = obind (decompresserNomDNS w off (length w) False False) (\<lambda>r. case r of
     None \<Rightarrow> Ret None
   | Some (finNom, _) \<Rightarrow>
       if length w < finNom + 10 then Ret None
       else obind (slice_at w (finNom + 8) (finNom + 10)) (\<lambda>ln.
         let longueurDonnees = unat (be_get ln :: u16); debutDonnees = finNom + 10; decalageSuivant = debutDonnees + longueurDonnees in
         if length w < decalageSuivant then Ret None
         else obind (slice_at w finNom (finNom + 2)) (\<lambda>ty. obind (slice_at w (finNom + 2) (finNom + 4)) (\<lambda>cl.
           Ret (Some (decalageSuivant, debutDonnees, (be_get ty :: u16) = 28 \<and> (be_get cl :: u16) = 1 \<and> longueurDonnees = 16))))))"

definition identifiantPleineLargeurAAAAIID :: "bytes \<Rightarrow> nat \<Rightarrow> bool outcome" where
  "identifiantPleineLargeurAAAAIID w debutDonnees = obind (slice_at w (debutDonnees + 8) (debutDonnees + 16)) (\<lambda>x. Ret (0 \<notin> set x))"

section \<open>The tracks\<close>

record voieIID =
  cleSuivi :: u64
  identifiants :: "u64 list"
  horodatagesNs :: "int list"

type_synonym AAAAIIDTracker = "nat \<Rightarrow> voieIID list"

abbreviation blank_voie :: "u64 \<Rightarrow> voieIID" where
  "blank_voie k \<equiv> \<lparr>cleSuivi = k, identifiants = replicate 16 0, horodatagesNs = replicate 16 0\<rparr>"

definition empty_iid :: AAAAIIDTracker where
  "empty_iid = (\<lambda>_. replicate 4 (blank_voie 0))"

definition rowIID :: "u64 \<Rightarrow> nat" where
  "rowIID k = unat (k AND 255)"

text \<open>The latest instant of a track, with whether it holds an identifier.\<close>

definition date_recenteIID :: "voieIID \<Rightarrow> int \<times> bool" where
  "date_recenteIID v = foldl (\<lambda>(d, t) i. if identifiants v ! i \<noteq> 0 \<and> (\<not> t \<or> d < horodatagesNs v ! i) then (horodatagesNs v ! i, True) else (d, t)) (0, False) [0..<16]"

text \<open>The track of the key, or the first free one, or the one seen longest ago.\<close>

fun voie_loopIID :: "voieIID list \<Rightarrow> u64 \<Rightarrow> nat list \<Rightarrow> nat option \<Rightarrow> nat \<Rightarrow> int \<Rightarrow> bool \<times> nat" where
  "voie_loopIID vs k [] libre ancienne date = (True, case libre of None \<Rightarrow> ancienne | Some i \<Rightarrow> i)"
| "voie_loopIID vs k (i # ix) libre ancienne date = (case date_recenteIID (vs ! i) of (d, trouvee) \<Rightarrow>
     if \<not> trouvee then voie_loopIID vs k ix (case libre of None \<Rightarrow> Some i | Some _ \<Rightarrow> libre) ancienne date
     else if cleSuivi (vs ! i) = k then (False, i)
     else if i = 0 \<or> d < date then voie_loopIID vs k ix libre i d else voie_loopIID vs k ix libre ancienne date)"

text \<open>The sixteen places of the track: each is expired, then refreshed or noted as free or oldest.\<close>

definition expire_place :: "int \<Rightarrow> nat \<Rightarrow> voieIID \<Rightarrow> voieIID" where
  "expire_place seuil i v = (if identifiants v ! i \<noteq> 0 \<and> horodatagesNs v ! i < seuil
     then v\<lparr>identifiants := (identifiants v)[i := 0], horodatagesNs := (horodatagesNs v)[i := 0]\<rparr> else v)"

fun place_loop :: "int \<Rightarrow> int \<Rightarrow> u64 \<Rightarrow> nat list \<Rightarrow> nat option \<Rightarrow> nat \<Rightarrow> voieIID \<Rightarrow> voieIID" where
  "place_loop tsNs seuil ident [] libre ancien v =
     (let i = (case libre of Some i \<Rightarrow> i | None \<Rightarrow> ancien) in
      v\<lparr>identifiants := (identifiants v)[i := ident], horodatagesNs := (horodatagesNs v)[i := tsNs]\<rparr>)"
| "place_loop tsNs seuil ident (i # ix) libre ancien v =
     (let v = expire_place seuil i v in
      if identifiants v ! i = ident then v\<lparr>horodatagesNs := (horodatagesNs v)[i := tsNs]\<rparr>
      else place_loop tsNs seuil ident ix (if identifiants v ! i = 0 \<and> libre = None then Some i else libre)
             (if horodatagesNs v ! i < horodatagesNs v ! ancien then i else ancien) v)"

definition insererIdentifiant :: "u64 \<Rightarrow> u64 \<Rightarrow> int \<Rightarrow> AAAAIIDTracker \<Rightarrow> AAAAIIDTracker" where
  "insererIdentifiant k ident tsNs t = (case voie_loopIID (t (rowIID k)) k [0..<4] None 0 0 of (absente, i) \<Rightarrow>
     let v = (if absente then blank_voie k else t (rowIID k) ! i);
         v = place_loop tsNs (go_int (tsNs - 600000000000)) ident [0..<16] None 0 v in
     t(rowIID k := (t (rowIID k))[i := v]))"

section \<open>The response\<close>

fun skip_questions :: "bytes \<Rightarrow> nat \<Rightarrow> nat \<Rightarrow> nat option outcome" where
  "skip_questions w off 0 = Ret (Some off)"
| "skip_questions w off (Suc n) = obind (decompresserNomDNS w off (length w) False False) (\<lambda>r. case r of
     None \<Rightarrow> Ret None
   | Some (fin, _) \<Rightarrow> if length w < fin + 4 then Ret None else skip_questions w (fin + 4) n)"

fun valid_answers :: "bytes \<Rightarrow> nat \<Rightarrow> nat \<Rightarrow> bool outcome" where
  "valid_answers w off 0 = Ret True"
| "valid_answers w off (Suc n) = obind (lireEnregistrementAAAAIID w off) (\<lambda>r. case r of
     None \<Rightarrow> Ret False | Some (suivant, _, _) \<Rightarrow> valid_answers w suivant n)"

text \<open>The second and third passes read the records again, with the zero values of a failed read.\<close>

definition read_again :: "bytes \<Rightarrow> nat \<Rightarrow> (nat \<times> nat \<times> bool) outcome" where
  "read_again w off = obind (lireEnregistrementAAAAIID w off) (\<lambda>r. Ret (case r of None \<Rightarrow> (0, 0, False) | Some x \<Rightarrow> x))"

fun insert_answers :: "int \<Rightarrow> bytes \<Rightarrow> bytes \<Rightarrow> nat \<Rightarrow> nat \<Rightarrow> AAAAIIDTracker \<Rightarrow> AAAAIIDTracker outcome" where
  "insert_answers tsNs ip w off 0 t = Ret t"
| "insert_answers tsNs ip w off (Suc n) t = obind (read_again w off) (\<lambda>(suivant, debut, admissible).
     obind (if admissible then identifiantPleineLargeurAAAAIID w debut else Ret False) (\<lambda>plein.
     if plein then obind (slice_at w debut (debut + 8)) (\<lambda>prefixe. obind (slice_at w (debut + 8) (debut + 16)) (\<lambda>x.
         insert_answers tsNs ip w suivant n (insererIdentifiant (cleSuiviAAAAIID ip prefixe) (be_get x) tsNs t)))
     else insert_answers tsNs ip w suivant n t))"

definition nbIdentifiantsVivants :: "int \<Rightarrow> voieIID \<Rightarrow> nat" where
  "nbIdentifiantsVivants tsNs v = length (filter (\<lambda>i. identifiants v ! i \<noteq> 0 \<and> go_int (tsNs - 600000000000) \<le> horodatagesNs v ! i) [0..<16])"

definition row_fires :: "int \<Rightarrow> u64 \<Rightarrow> AAAAIIDTracker \<Rightarrow> bool" where
  "row_fires tsNs k t = list_ex (\<lambda>v. cleSuivi v = k \<and> 8 \<le> nbIdentifiantsVivants tsNs v) (t (rowIID k))"

fun count_answers :: "int \<Rightarrow> bytes \<Rightarrow> bytes \<Rightarrow> nat \<Rightarrow> nat \<Rightarrow> AAAAIIDTracker \<Rightarrow> bool outcome" where
  "count_answers tsNs ip w off 0 t = Ret False"
| "count_answers tsNs ip w off (Suc n) t = obind (read_again w off) (\<lambda>(suivant, debut, admissible).
     obind (if admissible then identifiantPleineLargeurAAAAIID w debut else Ret False) (\<lambda>plein.
     if plein then obind (slice_at w debut (debut + 8)) (\<lambda>prefixe.
         if row_fires tsNs (cleSuiviAAAAIID ip prefixe) t then Ret True else count_answers tsNs ip w suivant n t)
     else count_answers tsNs ip w suivant n t))"

text \<open>The header and the two validating passes: where the answers start and how many there are.\<close>

definition answers_start :: "bytes \<Rightarrow> (nat \<times> nat) option outcome" where
  "answers_start w = (if length w < 12 then Ret None
     else obind (get_at w 2) (\<lambda>b2. if b2 AND 0x80 = 0 then Ret None
       else obind (get_at w 3) (\<lambda>b3. if b3 AND 0x0F \<noteq> 0 then Ret None
         else obind (slice_at w 4 6) (\<lambda>q. obind (slice_at w 6 8) (\<lambda>r.
           let nbQuestions = unat (be_get q :: u16); nbReponses = unat (be_get r :: u16) in
           if nbQuestions = 0 \<or> nbReponses = 0 then Ret None
           else obind (skip_questions w 12 nbQuestions) (\<lambda>d. case d of
             None \<Rightarrow> Ret None
           | Some debutReponses \<Rightarrow> obind (valid_answers w debutReponses nbReponses) (\<lambda>ok.
               Ret (if ok then Some (debutReponses, nbReponses) else None))))))))"

definition ObserveResponseIID :: "AAAAIIDTracker \<Rightarrow> int \<Rightarrow> bytes \<Rightarrow> bytes \<Rightarrow> (bool \<times> AAAAIIDTracker) outcome" where
  "ObserveResponseIID t tsNs clientIP respWire = obind (answers_start respWire) (\<lambda>h. case h of
     None \<Rightarrow> Ret (False, t)
   | Some (debutReponses, nbReponses) \<Rightarrow>
       obind (insert_answers tsNs clientIP respWire debutReponses nbReponses t) (\<lambda>t.
       obind (count_answers tsNs clientIP respWire debutReponses nbReponses t) (\<lambda>fired. Ret (fired, t))))"


section \<open>What the passes read\<close>

text \<open>An AAAA record of class IN at the packet, with its prefix and its identifier.\<close>

definition aaaa_record :: "bytes \<Rightarrow> bytes \<Rightarrow> bytes \<Rightarrow> bool" where
  "aaaa_record w p x \<longleftrightarrow> (\<exists>off fin nom. name_at w off (length w) False (fin, nom) \<and> fin + 26 \<le> length w
     \<and> (be_get (subslice fin (fin + 2) w) :: u16) = 28 \<and> (be_get (subslice (fin + 2) (fin + 4) w) :: u16) = 1
     \<and> unat (be_get (subslice (fin + 8) (fin + 10) w) :: u16) = 16
     \<and> p = subslice (fin + 10) (fin + 18) w \<and> x = subslice (fin + 18) (fin + 26) w \<and> 0 \<notin> set x)"

definition full_record :: "bytes \<Rightarrow> nat \<Rightarrow> (bytes \<times> bytes) list" where
  "full_record w d = (let x = subslice (d + 8) (d + 16) w in if 0 \<in> set x then [] else [(subslice d (d + 8) w, x)])"

lemma lire_ok:
  "yields (lireEnregistrementAAAAIID w off) (\<lambda>(s, d, adm). if adm then d + 16 \<le> length w \<and> (\<forall>(p, x) \<in> set (full_record w d). aaaa_record w p x) else True)"
proof (rule yieldsE[OF decompresserNomDNS_ok[OF order_refl, of w off False]])
  fix fin nom assume o: "decompresserNomDNS w off (length w) False False = Ret (Some (fin, nom))" "name_at w off (length w) False (fin, nom)"
  define ln where "ln = unat (be_get (subslice (fin + 8) (fin + 10) w) :: u16)"
  define adm where "adm \<longleftrightarrow> (be_get (subslice fin (fin + 2) w) :: u16) = 28 \<and> (be_get (subslice (fin + 2) (fin + 4) w) :: u16) = 1 \<and> ln = 16"
  show ?thesis
  proof (cases "length w < fin + 10 \<or> length w < fin + 10 + ln")
    case True
    then show ?thesis using o(1) by (auto simp: lireEnregistrementAAAAIID_def ln_def Let_def)
  next
    case False
    have "aaaa_record w p x" if "adm" "(p, x) \<in> set (full_record w (fin + 10))" for p x
      unfolding aaaa_record_def using o(2) that False
      by (intro exI[of _ off] exI[of _ fin] exI[of _ nom]) (auto simp: full_record_def adm_def ln_def Let_def add.commute split: if_splits)
    moreover have "fin + 26 \<le> length w" if adm using that False by (simp add: adm_def)
    moreover have "lireEnregistrementAAAAIID w off = Ret (Some (fin + 10 + ln, fin + 10, adm))"
      using o(1) False by (simp add: lireEnregistrementAAAAIID_def ln_def adm_def Let_def)
    ultimately show ?thesis by auto
  qed
qed (simp add: lireEnregistrementAAAAIID_def)

text \<open>The prefixes and identifiers of the answers, in their order.\<close>

fun answers :: "bytes \<Rightarrow> nat \<Rightarrow> nat \<Rightarrow> (bytes \<times> bytes) list" where
  "answers w off 0 = []"
| "answers w off (Suc n) = (case lireEnregistrementAAAAIID w off of
     Ret (Some (suivant, debut, admissible)) \<Rightarrow> (if admissible then full_record w debut else []) @ answers w suivant n
   | _ \<Rightarrow> [])"

lemma answers_record: "(p, x) \<in> set (answers w off n) \<Longrightarrow> aaaa_record w p x"
proof (induction n arbitrary: off)
  case (Suc n)
  show ?case by (rule yieldsE[OF lire_ok[of w off]]) (use Suc in \<open>auto split: if_splits\<close>)
qed simp

lemma skip_questions_total: "yields (skip_questions w off n) (\<lambda>_. True)"
proof (induction n arbitrary: off)
  case (Suc n)
  show ?case by (rule yieldsE[OF decompresserNomDNS_ok[OF order_refl, of w off False]]) (use Suc in auto)
qed simp

lemma valid_answers_total: "\<exists>b. valid_answers w off n = Ret b"
proof (induction n arbitrary: off)
  case (Suc n)
  show ?case by (rule yieldsE[OF lire_ok[of w off]]) (use Suc in auto)
qed (metis valid_answers.simps(1))

definition insert_all :: "int \<Rightarrow> bytes \<Rightarrow> (bytes \<times> bytes) list \<Rightarrow> AAAAIIDTracker \<Rightarrow> AAAAIIDTracker" where
  "insert_all ts ip rs t = foldl (\<lambda>t (p, x). insererIdentifiant (cleSuiviAAAAIID ip p) (be_get x) ts t) t rs"

lemma insert_answers_eq: "valid_answers w off n = Ret True \<Longrightarrow> insert_answers ts ip w off n t = Ret (insert_all ts ip (answers w off n) t)"
proof (induction n arbitrary: off t)
  case (Suc n)
  show ?case
  proof (rule yieldsE[OF lire_ok[of w off]])
    fix s da assume l: "lireEnregistrementAAAAIID w off = Ret (Some (s, da))"
      "case (s, da) of (s, d, adm) \<Rightarrow> if adm then d + 16 \<le> length w \<and> (\<forall>(p, x) \<in> set (full_record w d). aaaa_record w p x) else True"
    then show ?thesis using Suc by (cases da) (auto simp: read_again_def identifiantPleineLargeurAAAAIID_def insert_all_def full_record_def Let_def)
  qed (use Suc.prems in simp)
qed (simp add: insert_all_def)

lemma count_answers_eq: "valid_answers w off n = Ret True \<Longrightarrow> count_answers ts ip w off n t = Ret (\<exists>(p, x) \<in> set (answers w off n). row_fires ts (cleSuiviAAAAIID ip p) t)"
proof (induction n arbitrary: off)
  case (Suc n)
  show ?case
  proof (rule yieldsE[OF lire_ok[of w off]])
    fix s da assume l: "lireEnregistrementAAAAIID w off = Ret (Some (s, da))"
      "case (s, da) of (s, d, adm) \<Rightarrow> if adm then d + 16 \<le> length w \<and> (\<forall>(p, x) \<in> set (full_record w d). aaaa_record w p x) else True"
    then show ?thesis using Suc by (cases da) (auto simp: read_again_def identifiantPleineLargeurAAAAIID_def full_record_def Let_def)
  qed (use Suc.prems in simp)
qed simp

definition aaaa_of :: "bytes \<Rightarrow> (bytes \<times> bytes) list" where
  "aaaa_of w = (case answers_start w of Ret (Some (off, n)) \<Rightarrow> answers w off n | _ \<Rightarrow> [])"

lemma answers_start_ok:
  "yields (answers_start w) (\<lambda>(off, n). 12 \<le> length w \<and> w ! 2 AND 0x80 \<noteq> 0 \<and> w ! 3 AND 0x0F = 0 \<and> valid_answers w off n = Ret True)"
proof (cases "length w < 12 \<or> w ! 2 AND 0x80 = 0 \<or> w ! 3 AND 0x0F \<noteq> 0 \<or> unat (be_get (subslice 4 6 w) :: u16) = 0 \<or> unat (be_get (subslice 6 8 w) :: u16) = 0")
  case True
  then show ?thesis by (auto simp: answers_start_def Let_def)
next
  case False
  let ?nq = "unat (be_get (subslice 4 6 w) :: u16)" and ?nr = "unat (be_get (subslice 6 8 w) :: u16)"
  obtain d where d: "skip_questions w 12 ?nq = Ret d" using skip_questions_total[of w 12 ?nq] by (auto simp: yields_def)
  show ?thesis
  proof (cases d)
    case None
    then show ?thesis using d False by (simp add: answers_start_def Let_def)
  next
    case (Some off)
    obtain b where "valid_answers w off ?nr = Ret b" using valid_answers_total by blast
    then show ?thesis using d Some False by (cases b) (simp_all add: answers_start_def Let_def)
  qed
qed

lemma ObserveResponseIID_eq:
  "ObserveResponseIID t ts ip w = Ret (\<exists>(p, x) \<in> set (aaaa_of w). row_fires ts (cleSuiviAAAAIID ip p) (insert_all ts ip (aaaa_of w) t), insert_all ts ip (aaaa_of w) t)"
  by (rule yieldsE[OF answers_start_ok[of w]]) (simp_all add: ObserveResponseIID_def aaaa_of_def insert_answers_eq count_answers_eq, simp add: insert_all_def)

lemma aaaa_of_record: "(p, x) \<in> set (aaaa_of w) \<Longrightarrow> aaaa_record w p x \<and> 12 \<le> length w \<and> w ! 2 AND 0x80 \<noteq> 0 \<and> w ! 3 AND 0x0F = 0"
  by (rule yieldsE[OF answers_start_ok[of w]]) (auto simp: aaaa_of_def dest: answers_record)


section \<open>The places of a track\<close>

text \<open>
  A track never holds an identifier twice, and what it holds has its cause: \<open>B\<close> relates a key, an
  identifier and the instant of its last sight.
\<close>

definition lane_ok :: "(u64 \<Rightarrow> u64 \<Rightarrow> int \<Rightarrow> bool) \<Rightarrow> voieIID \<Rightarrow> bool" where
  "lane_ok B v \<longleftrightarrow> length (identifiants v) = 16 \<and> length (horodatagesNs v) = 16
     \<and> (\<forall>i < 16. \<forall>j < 16. i \<noteq> j \<and> identifiants v ! i \<noteq> 0 \<longrightarrow> identifiants v ! i \<noteq> identifiants v ! j)
     \<and> (\<forall>i < 16. identifiants v ! i \<noteq> 0 \<longrightarrow> B (cleSuivi v) (identifiants v ! i) (horodatagesNs v ! i))"

definition live :: "int \<Rightarrow> voieIID \<Rightarrow> u64 set" where
  "live seuil v = {e. \<exists>i < 16. identifiants v ! i = e \<and> e \<noteq> 0 \<and> seuil \<le> horodatagesNs v ! i}"

lemma expire_ok:
  assumes "lane_ok B v" "i < 16"
  shows "lane_ok B (expire_place s i v)" "live s (expire_place s i v) = live s v" "cleSuivi (expire_place s i v) = cleSuivi v"
proof -
  show "lane_ok B (expire_place s i v)" "cleSuivi (expire_place s i v) = cleSuivi v"
    using assms by (auto simp: lane_ok_def expire_place_def nth_list_update split: if_splits)
  show "live s (expire_place s i v) = live s v"
    using assms unfolding live_def expire_place_def lane_ok_def by (fastforce simp: nth_list_update)
qed

lemma expire_nth:
  assumes "lane_ok B v" "i < 16"
  shows "identifiants (expire_place s i v) ! j = (if j = i \<and> identifiants v ! i \<noteq> 0 \<and> horodatagesNs v ! i < s then 0 else identifiants v ! j)"
    "horodatagesNs (expire_place s i v) ! j = (if j = i \<and> identifiants v ! i \<noteq> 0 \<and> horodatagesNs v ! i < s then 0 else horodatagesNs v ! j)"
  using assms by (auto simp: lane_ok_def expire_place_def nth_list_update)

lemma full_live:
  assumes "lane_ok B v" "\<forall>j < 16. identifiants v ! j \<noteq> 0 \<and> s \<le> horodatagesNs v ! j"
  shows "card (live s v) = 16"
proof -
  have l: "length (identifiants v) = 16" using assms(1) by (simp add: lane_ok_def)
  have "distinct (identifiants v)" using assms by (auto simp: distinct_conv_nth lane_ok_def)
  moreover have "live s v = set (identifiants v)" using assms(2) l by (auto simp: live_def in_set_conv_nth) metis
  ultimately show ?thesis using distinct_card l by force
qed

definition put :: "nat \<Rightarrow> u64 \<Rightarrow> int \<Rightarrow> voieIID \<Rightarrow> voieIID" where
  "put i ident ts v = v\<lparr>identifiants := (identifiants v)[i := ident], horodatagesNs := (horodatagesNs v)[i := ts]\<rparr>"

lemma put_ok:
  assumes "lane_ok B v" "i < 16" "ident \<noteq> 0" "B (cleSuivi v) ident ts" "\<forall>j < 16. identifiants v ! j \<noteq> ident"
  shows "lane_ok B (put i ident ts v)" "cleSuivi (put i ident ts v) = cleSuivi v" "ident \<in> set (identifiants (put i ident ts v))"
  using assms by (auto simp: lane_ok_def put_def nth_list_update intro: set_update_memI)

lemma put_free: "lane_ok B v \<Longrightarrow> i < 16 \<Longrightarrow> ident \<noteq> 0 \<Longrightarrow> s \<le> ts \<Longrightarrow> identifiants v ! i = 0 \<Longrightarrow> live s (put i ident ts v) = insert ident (live s v)"
  by (fastforce simp: lane_ok_def live_def put_def nth_list_update)

lemma put_full:
  assumes "lane_ok B v" "i < 16" "ident \<noteq> 0" "s \<le> ts" "B (cleSuivi v) ident ts" "\<forall>j < 16. identifiants v ! j \<noteq> ident"
    "\<forall>j < 16. identifiants v ! j \<noteq> 0 \<and> s \<le> horodatagesNs v ! j"
  shows "card (live s (put i ident ts v)) = 16" "card (live s v) = 16"
proof -
  have "\<forall>j < 16. identifiants (put i ident ts v) ! j \<noteq> 0 \<and> s \<le> horodatagesNs (put i ident ts v) ! j"
    using assms by (auto simp: lane_ok_def put_def nth_list_update)
  then show "card (live s (put i ident ts v)) = 16" by (rule full_live[OF put_ok(1)[OF assms(1-3,5,6)]])
  show "card (live s v) = 16" by (rule full_live[OF assms(1,7)])
qed

definition placed :: "(u64 \<Rightarrow> u64 \<Rightarrow> int \<Rightarrow> bool) \<Rightarrow> int \<Rightarrow> int \<Rightarrow> u64 \<Rightarrow> voieIID \<Rightarrow> voieIID \<Rightarrow> bool" where
  "placed B s ts ident v v' \<longleftrightarrow> lane_ok B v' \<and> cleSuivi v' = cleSuivi v \<and> ident \<in> set (identifiants v')
     \<and> (s \<le> ts \<longrightarrow> live s v' = insert ident (live s v) \<or> card (live s v') = 16 \<and> card (live s v) = 16)"

text \<open>What the loop knows of the places it has passed.\<close>

definition passed :: "int \<Rightarrow> u64 \<Rightarrow> nat set \<Rightarrow> nat option \<Rightarrow> voieIID \<Rightarrow> bool" where
  "passed s ident todo libre v \<longleftrightarrow> (case libre of None \<Rightarrow> True | Some i \<Rightarrow> i < 16 \<and> identifiants v ! i = 0)
     \<and> (\<forall>j < 16. j \<in> todo \<or> identifiants v ! j \<noteq> ident \<and> (identifiants v ! j = 0 \<and> libre \<noteq> None \<or> identifiants v ! j \<noteq> 0 \<and> s \<le> horodatagesNs v ! j))"

lemma place_end:
  assumes "lane_ok B v" "ident \<noteq> 0" "B (cleSuivi v) ident ts" "ancien < 16" "passed s ident {} libre v"
  shows "placed B s ts ident v (put (case libre of Some i \<Rightarrow> i | None \<Rightarrow> ancien) ident ts v)"
proof -
  let ?i = "case libre of Some i \<Rightarrow> i | None \<Rightarrow> ancien"
  have i: "?i < 16" and new: "\<forall>j < 16. identifiants v ! j \<noteq> ident" using assms(4,5) by (auto simp: passed_def split: option.splits)
  have "live s (put ?i ident ts v) = insert ident (live s v) \<or> card (live s (put ?i ident ts v)) = 16 \<and> card (live s v) = 16" if "s \<le> ts"
  proof (cases libre)
    case None
    then show ?thesis using put_full[OF assms(1) i assms(2) that assms(3) new] assms(5) by (auto simp: passed_def)
  next
    case (Some k)
    then show ?thesis using put_free[OF assms(1) i assms(2) that] assms(5) by (simp add: passed_def)
  qed
  then show ?thesis using put_ok[OF assms(1) i assms(2,3) new] by (simp add: placed_def)
qed

lemma refresh_ok:
  assumes "lane_ok B v" "i < 16" "identifiants v ! i = ident" "ident \<noteq> 0" "B (cleSuivi v) ident ts" "s \<le> horodatagesNs v ! i"
  shows "placed B s ts ident v (v\<lparr>horodatagesNs := (horodatagesNs v)[i := ts]\<rparr>)"
proof -
  have "lane_ok B (v\<lparr>horodatagesNs := (horodatagesNs v)[i := ts]\<rparr>)" using assms by (auto simp: lane_ok_def nth_list_update)
  moreover have "ident \<in> set (identifiants v)" using assms by (auto simp: lane_ok_def)
  moreover have "live s (v\<lparr>horodatagesNs := (horodatagesNs v)[i := ts]\<rparr>) = live s v" if "s \<le> ts"
    using that assms by (auto simp: lane_ok_def live_def nth_list_update)
  moreover have "ident \<in> live s v" using assms by (auto simp: live_def)
  ultimately show ?thesis by (auto simp: placed_def)
qed

lemma place_loop_ok:
  assumes "lane_ok B v" "ident \<noteq> 0" "B (cleSuivi v) ident ts" "ancien < 16" "\<forall>i \<in> set ix. i < 16" "passed s ident (set ix) libre v"
  shows "placed B s ts ident v (place_loop ts s ident ix libre ancien v)"
  using assms
proof (induction ts s ident ix libre ancien v rule: place_loop.induct)
  case (1 ts s ident libre ancien v)
  then show ?case using place_end[of B v ident ts ancien s libre] by (simp add: put_def Let_def)
next
  case (2 ts s ident i ix libre ancien v)
  define u where "u = expire_place s i v"
  have i: "i < 16" using 2(6) by simp
  note u = expire_ok[OF 2(2) i, of s, folded u_def]
  have n: "identifiants u ! j = (if j = i \<and> identifiants v ! i \<noteq> 0 \<and> horodatagesNs v ! i < s then 0 else identifiants v ! j)"
    "horodatagesNs u ! j = (if j = i \<and> identifiants v ! i \<noteq> 0 \<and> horodatagesNs v ! i < s then 0 else horodatagesNs v ! j)" for j
    unfolding u_def by (rule expire_nth[OF 2(2) i])+
  have r: "placed B s ts ident u v' \<Longrightarrow> placed B s ts ident v v'" for v' using u by (simp add: placed_def)
  show ?case
  proof (cases "identifiants u ! i = ident")
    case True
    then have "s \<le> horodatagesNs u ! i" using n 2(3) by (auto split: if_splits)
    then have "placed B s ts ident u (u\<lparr>horodatagesNs := (horodatagesNs u)[i := ts]\<rparr>)" using refresh_ok[OF u(1) i True 2(3)] 2(4) u(3) by simp
    then show ?thesis using r True by (simp add: u_def[symmetric])
  next
    case False
    let ?l = "if identifiants u ! i = 0 \<and> libre = None then Some i else libre"
    let ?a = "if horodatagesNs u ! i < horodatagesNs u ! ancien then i else ancien"
    have p: "passed s ident (set ix) ?l u"
      using 2(7) False i unfolding passed_def by (auto simp: n split: option.splits if_splits)
    have "placed B s ts ident u (place_loop ts s ident ix ?l ?a u)"
      by (rule 2(1)[OF u_def, folded u_def]) (use False u 2(3-6) i p in auto)
    then show ?thesis using r False by (simp add: u_def[symmetric])
  qed
qed


section \<open>The table\<close>

definition occupied :: "voieIID \<Rightarrow> bool" where
  "occupied v \<longleftrightarrow> (\<exists>i < 16. identifiants v ! i \<noteq> 0)"

lemma date_trouvee: "snd (date_recenteIID v) \<longleftrightarrow> occupied v"
proof -
  let ?f = "\<lambda>(d, t) i. if identifiants v ! i \<noteq> 0 \<and> (\<not> t \<or> d < horodatagesNs v ! i) then (horodatagesNs v ! i, True) else (d, t)"
  have "snd (foldl ?f (d, t) ix) \<longleftrightarrow> t \<or> (\<exists>i \<in> set ix. identifiants v ! i \<noteq> 0)" for d t ix
    by (induction ix arbitrary: d t) auto
  then show ?thesis by (auto simp: date_recenteIID_def occupied_def)
qed

abbreviation track :: "u64 \<Rightarrow> voieIID \<Rightarrow> bool" where
  "track k v \<equiv> occupied v \<and> cleSuivi v = k"

lemma voie_loopIID_ok:
  assumes "voie_loopIID vs k ix libre a date = (absente, i)" "\<forall>i \<in> set ix. i < n" "a < n" "case libre of None \<Rightarrow> True | Some i \<Rightarrow> i < n"
  shows "i < n \<and> (if absente then \<forall>j \<in> set ix. \<not> track k (vs ! j) else track k (vs ! i))"
  using assms
proof (induction ix arbitrary: libre a date)
  case (Cons i0 ix)
  obtain d t where d: "date_recenteIID (vs ! i0) = (d, t)" by force
  have t: "t \<longleftrightarrow> occupied (vs ! i0)" using date_trouvee[of "vs ! i0"] d by simp
  show ?case
  proof (cases "track k (vs ! i0)")
    case True
    then show ?thesis using Cons.prems d t by auto
  next
    case False
    obtain libre' a' date' where r: "voie_loopIID vs k (i0 # ix) libre a date = voie_loopIID vs k ix libre' a' date'"
        "a' < n" "case libre' of None \<Rightarrow> True | Some i \<Rightarrow> i < n"
      using d t False Cons.prems(2-4) by (cases t; cases "i0 = 0 \<or> d < date"; cases libre) auto
    then show ?thesis using Cons.IH[of libre' a' date'] Cons.prems False by auto
  qed
qed (auto split: option.splits)

text \<open>Two tracks of a row never follow the same key.\<close>

definition table_ok :: "(u64 \<Rightarrow> u64 \<Rightarrow> int \<Rightarrow> bool) \<Rightarrow> AAAAIIDTracker \<Rightarrow> bool" where
  "table_ok B t \<longleftrightarrow> (\<forall>r. length (t r) = 4 \<and> (\<forall>v \<in> set (t r). lane_ok B v)
     \<and> (\<forall>i < 4. \<forall>j < 4. track (cleSuivi (t r ! j)) (t r ! i) \<and> occupied (t r ! j) \<longrightarrow> i = j))"

text \<open>The identifiers the table holds for a key, not older than \<open>seuil\<close>.\<close>

definition held :: "int \<Rightarrow> u64 \<Rightarrow> AAAAIIDTracker \<Rightarrow> u64 set" where
  "held seuil k t = {e. \<exists>v \<in> set (t (rowIID k)). cleSuivi v = k \<and> e \<in> live seuil v}"

lemma live_occupied: "e \<in> live s v \<Longrightarrow> occupied v"
  by (auto simp: live_def occupied_def)

lemma held_nth: "table_ok B t \<Longrightarrow> held s k t = {e. \<exists>i < 4. track k (t (rowIID k) ! i) \<and> e \<in> live s (t (rowIID k) ! i)}"
proof -
  assume "table_ok B t"
  then have "length (t (rowIID k)) = 4" by (simp add: table_ok_def)
  then have "set (t (rowIID k)) = (!) (t (rowIID k)) ` {..<4}" by (simp add: set_conv_nth image_def) blast
  then show ?thesis unfolding held_def by (auto dest: live_occupied)
qed

lemma track_unique: "table_ok B t \<Longrightarrow> i < 4 \<Longrightarrow> j < 4 \<Longrightarrow> track k (t r ! i) \<Longrightarrow> track k (t r ! j) \<Longrightarrow> i = j"
proof -
  assume t: "table_ok B t" and ij: "i < 4" "j < 4" "track k (t r ! i)" "track k (t r ! j)"
  have "\<forall>i < 4. \<forall>j < 4. track (cleSuivi (t r ! j)) (t r ! i) \<and> occupied (t r ! j) \<longrightarrow> i = j" using t unfolding table_ok_def by blast
  then show ?thesis using ij by simp
qed

lemma held_track: "table_ok B t \<Longrightarrow> i < 4 \<Longrightarrow> track k (t (rowIID k) ! i) \<Longrightarrow> held s k t = live s (t (rowIID k) ! i)"
  unfolding held_nth using track_unique[of B t _ i "rowIID k" k] by blast

lemma held_absent: "table_ok B t \<Longrightarrow> \<forall>j < 4. \<not> track k (t (rowIID k) ! j) \<Longrightarrow> held s k t = {}"
  by (auto simp: held_nth)

lemma blank_ok: "lane_ok B (blank_voie k)" "live s (blank_voie k) = {}"
  by (auto simp: lane_ok_def live_def)

lemma lane_update:
  assumes "table_ok B t" "i < 4" "lane_ok B v" "cleSuivi v = k" "\<forall>j < 4. j \<noteq> i \<longrightarrow> \<not> track k (t (rowIID k) ! j)"
  shows "table_ok B (t(rowIID k := (t (rowIID k))[i := v]))"
proof -
  have "length (t r) = 4" "\<forall>v \<in> set (t r). lane_ok B v"
    "i < 4 \<Longrightarrow> j < 4 \<Longrightarrow> track (cleSuivi (t r ! j)) (t r ! i) \<Longrightarrow> occupied (t r ! j) \<Longrightarrow> i = j" for r i j
    using assms(1) unfolding table_ok_def by blast+
  then show ?thesis using assms(2-5) unfolding table_ok_def
    by (auto simp: nth_list_update dest!: subsetD[OF set_update_subset_insert])
qed

definition absorbs :: "u64 set \<Rightarrow> u64 set \<Rightarrow> u64 set \<Rightarrow> bool" where
  "absorbs new old H \<longleftrightarrow> H = new \<union> old \<or> 16 \<le> card H \<and> 16 \<le> card (new \<union> old)"

lemma insererIdentifiant_ok:
  assumes t: "table_ok B t" and ident: "ident \<noteq> 0" "B k ident ts"
  shows "table_ok B (insererIdentifiant k ident ts t)"
    "go_int (ts - 600000000000) \<le> ts \<Longrightarrow> absorbs {ident} (held (go_int (ts - 600000000000)) k t) (held (go_int (ts - 600000000000)) k (insererIdentifiant k ident ts t))"
proof -
  let ?s = "go_int (ts - 600000000000)" and ?row = "t (rowIID k)"
  have len: "length ?row = 4" and lanes: "\<forall>v \<in> set ?row. lane_ok B v" using t by (simp_all add: table_ok_def)
  obtain ab i where l: "voie_loopIID ?row k [0..<4] None 0 0 = (ab, i)" by force
  have i: "i < 4" and f: "if ab then \<forall>j < 4. \<not> track k (?row ! j) else track k (?row ! i)" using voie_loopIID_ok[OF l, of 4] by (auto split: if_splits)
  define v where "v = (if ab then blank_voie k else ?row ! i)"
  have v: "lane_ok B v" "cleSuivi v = k" using blank_ok lanes len i f by (auto simp: v_def split: if_splits)
  have h: "live s v = held s k t" for s using held_track[OF t i] held_absent[OF t] blank_ok f by (auto simp: v_def split: if_splits)
  have others: "\<forall>j < 4. j \<noteq> i \<longrightarrow> \<not> track k (?row ! j)" using f i track_unique[OF t] by (auto split: if_splits)
  define v' where "v' = place_loop ts ?s ident [0..<16] None 0 v"
  have "passed ?s ident (set [0..<16]) None v" by (simp add: passed_def)
  then have p: "placed B ?s ts ident v v'" unfolding v'_def using ident v by (intro place_loop_ok) simp_all
  have r: "insererIdentifiant k ident ts t = t(rowIID k := ?row[i := v'])" by (simp add: insererIdentifiant_def l v_def v'_def)
  have v': "lane_ok B v'" "cleSuivi v' = k" using p v by (simp_all add: placed_def)
  show ok: "table_ok B (insererIdentifiant k ident ts t)" unfolding r by (rule lane_update[OF t i v' others])
  have "length (identifiants v') = 16" "ident \<in> set (identifiants v')" using p by (simp_all add: placed_def lane_ok_def)
  then have "occupied v'" using ident(1) by (auto simp: occupied_def in_set_conv_nth)
  then have h': "held ?s k (insererIdentifiant k ident ts t) = live ?s v'" using held_track[OF ok i, of k] v' len i r by simp
  show "absorbs {ident} (held ?s k t) (held ?s k (insererIdentifiant k ident ts t))" if "?s \<le> ts"
  proof -
    have "card (live ?s v) = 16 \<Longrightarrow> 16 \<le> card (insert ident (live ?s v))" by (metis card_insert_le)
    then show ?thesis using p that unfolding placed_def absorbs_def h' h[symmetric] by auto
  qed
qed

lemma lane_count: "lane_ok B v \<Longrightarrow> nbIdentifiantsVivants ts v = card (live (go_int (ts - 600000000000)) v)"
proof -
  assume v: "lane_ok B v"
  let ?ix = "filter (\<lambda>i. identifiants v ! i \<noteq> 0 \<and> go_int (ts - 600000000000) \<le> horodatagesNs v ! i) [0..<16]"
  have "distinct (map ((!) (identifiants v)) ?ix)" using v by (auto simp: distinct_map inj_on_def lane_ok_def)
  then have "length (map ((!) (identifiants v)) ?ix) = card (set (map ((!) (identifiants v)) ?ix))" by (rule distinct_card[symmetric])
  moreover have "set (map ((!) (identifiants v)) ?ix) = live (go_int (ts - 600000000000)) v" by (auto simp: live_def)
  ultimately show ?thesis by (simp add: nbIdentifiantsVivants_def)
qed

lemma row_fires_held:
  assumes "table_ok B t"
  shows "row_fires ts k t \<longleftrightarrow> 8 \<le> card (held (go_int (ts - 600000000000)) k t)"
proof -
  let ?s = "go_int (ts - 600000000000)"
  have len: "length (t (rowIID k)) = 4" and lanes: "\<forall>v \<in> set (t (rowIID k)). lane_ok B v" using assms by (simp_all add: table_ok_def)
  show ?thesis
  proof (cases "\<exists>i < 4. track k (t (rowIID k) ! i)")
    case True
    then obtain i where i: "i < 4" "track k (t (rowIID k) ! i)" by blast
    have h: "held ?s k t = live ?s (t (rowIID k) ! i)" by (rule held_track[OF assms i])
    have "8 \<le> nbIdentifiantsVivants ts v \<Longrightarrow> 8 \<le> card (held ?s k t)" if "v \<in> set (t (rowIID k))" "cleSuivi v = k" for v
    proof -
      assume "8 \<le> nbIdentifiantsVivants ts v"
      moreover have "card (live ?s v) \<le> card (held ?s k t)" using that by (intro card_mono) (auto simp: held_def)
      ultimately show ?thesis using lane_count lanes that(1) by fastforce
    qed
    moreover have "t (rowIID k) ! i \<in> set (t (rowIID k))" using i len by simp
    ultimately show ?thesis using i(2) lane_count lanes h unfolding row_fires_def list_ex_iff by metis
  next
    case False
    then have h: "held ?s k t = {}" using held_absent[OF assms] by blast
    then have "live ?s v = {}" if "v \<in> set (t (rowIID k))" "cleSuivi v = k" for v using that by (auto simp: held_def)
    then have "\<not> row_fires ts k t" using lane_count lanes by (auto simp: row_fires_def list_ex_iff)
    then show ?thesis using h by simp
  qed
qed


section \<open>What the counts stand for\<close>

type_synonym response = "int \<times> bytes \<times> bytes"

definition seen :: "response list \<Rightarrow> u64 \<Rightarrow> u64 \<Rightarrow> int \<Rightarrow> bool" where
  "seen hist k ident ts \<longleftrightarrow> (\<exists>ip w p x. (ts, ip, w) \<in> set hist \<and> (p, x) \<in> set (aaaa_of w) \<and> cleSuiviAAAAIID ip p = k \<and> be_get x = ident)"

definition observe_iid :: "AAAAIIDTracker \<Rightarrow> response \<Rightarrow> (bool \<times> AAAAIIDTracker) outcome" where
  "observe_iid t x = (case x of (ts, ip, w) \<Rightarrow> ObserveResponseIID t ts ip w)"

text \<open>The identifiers of a key in the responses not older than ten minutes.\<close>

definition recent_iids :: "response list \<Rightarrow> int \<Rightarrow> u64 \<Rightarrow> u64 set" where
  "recent_iids hist ts k = {ident. \<exists>t. go_int (ts - 600000000000) \<le> t \<and> seen hist k ident t}"

lemma identifier_nonzero: "aaaa_record w p x \<Longrightarrow> (be_get x :: u64) \<noteq> 0"
proof -
  assume r: "aaaa_record w p x"
  then have l: "length x = 8" and z: "0 \<notin> set x" by (auto simp: aaaa_record_def)
  have "be_put 8 (be_get x :: u64) = x" using be_put_get[where ?'a = 64, of x] l by simp
  moreover have "0 \<in> set (be_put 8 (0 :: u64))" by code_simp
  ultimately show ?thesis using z by metis
qed

lemma lane_ok_mono: "lane_ok B v \<Longrightarrow> (\<And>k e ts. B k e ts \<Longrightarrow> C k e ts) \<Longrightarrow> lane_ok C v"
  unfolding lane_ok_def by blast

lemma table_ok_mono: "table_ok B t \<Longrightarrow> (\<And>k e ts. B k e ts \<Longrightarrow> C k e ts) \<Longrightarrow> table_ok C t"
  unfolding table_ok_def using lane_ok_mono[of B _ C] by blast

lemma absorbs_trans:
  assumes "absorbs {x} old H" "absorbs N H H'"
  shows "absorbs (insert x N) old H'"
proof -
  have c: "16 \<le> card A \<Longrightarrow> A \<subseteq> C \<Longrightarrow> 16 \<le> card C" for A C :: "u64 set" using card_mono[of C A] by simp
  show ?thesis
  proof (cases "H = {x} \<union> old")
    case True
    then show ?thesis using assms(2) by (auto simp: absorbs_def)
  next
    case False
    then have b: "16 \<le> card H" "16 \<le> card ({x} \<union> old)" using assms(1) by (auto simp: absorbs_def)
    have "16 \<le> card (insert x N \<union> old)" by (rule c[OF b(2)]) auto
    moreover have "16 \<le> card H'" using assms(2) c[OF b(1)] by (auto simp: absorbs_def)
    ultimately show ?thesis by (simp add: absorbs_def)
  qed
qed

lemma insert_all_ok:
  assumes "table_ok B t" "\<forall>(p, x) \<in> set rs. B (cleSuiviAAAAIID ip p) (be_get x) ts \<and> (be_get x :: u64) \<noteq> 0"
  shows "table_ok B (insert_all ts ip rs t)"
  using assms by (induction rs arbitrary: t) (auto simp: insert_all_def insererIdentifiant_ok(1))

lemma insert_all_one_key:
  assumes "table_ok B t" "\<forall>(p, x) \<in> set rs. B (cleSuiviAAAAIID ip p) (be_get x) ts \<and> (be_get x :: u64) \<noteq> 0 \<and> cleSuiviAAAAIID ip p = k"
    "go_int (ts - 600000000000) \<le> ts"
  shows "absorbs ((\<lambda>(p, x). be_get x) ` set rs) (held (go_int (ts - 600000000000)) k t) (held (go_int (ts - 600000000000)) k (insert_all ts ip rs t))"
  using assms(1,2)
proof (induction rs arbitrary: t)
  case Nil
  show ?case by (simp add: absorbs_def insert_all_def)
next
  case (Cons r rs)
  obtain p x where r: "r = (p, x)" by force
  have b: "B k (be_get x) ts" "(be_get x :: u64) \<noteq> 0" "cleSuiviAAAAIID ip p = k" using Cons.prems(2) r by auto
  note i = insererIdentifiant_ok[OF Cons.prems(1) b(2,1)]
  have "insert_all ts ip (r # rs) t = insert_all ts ip rs (insererIdentifiant k (be_get x) ts t)" using b(3) r by (simp add: insert_all_def)
  then show ?case using absorbs_trans[OF i(2)[OF assms(3)] Cons.IH[OF i(1)]] Cons.prems(2) r by auto
qed

lemma iid_seen_more: "seen hist k e ts \<Longrightarrow> seen (hist @ xs) k e ts"
  by (auto simp: seen_def)

lemma observed:
  assumes "table_ok (seen hist) t"
  shows "table_ok (seen (hist @ [(ts, ip, w)])) t" "table_ok (seen (hist @ [(ts, ip, w)])) (insert_all ts ip (aaaa_of w) t)"
    "\<forall>(p, x) \<in> set (aaaa_of w). seen (hist @ [(ts, ip, w)]) (cleSuiviAAAAIID ip p) (be_get x) ts \<and> (be_get x :: u64) \<noteq> 0"
proof -
  show t: "table_ok (seen (hist @ [(ts, ip, w)])) t" using table_ok_mono[OF assms] iid_seen_more by blast
  show b: "\<forall>(p, x) \<in> set (aaaa_of w). seen (hist @ [(ts, ip, w)]) (cleSuiviAAAAIID ip p) (be_get x) ts \<and> (be_get x :: u64) \<noteq> 0"
    using identifier_nonzero aaaa_of_record by (fastforce simp: seen_def)
  show "table_ok (seen (hist @ [(ts, ip, w)])) (insert_all ts ip (aaaa_of w) t)" by (rule insert_all_ok[OF t b])
qed

lemma held_recent: "table_ok (seen hist) t \<Longrightarrow> held (go_int (ts - 600000000000)) k t \<subseteq> recent_iids hist ts k"
  by (fastforce simp: held_def recent_iids_def table_ok_def live_def lane_ok_def)

lemma empty_iid_ok: "table_ok (seen []) empty_iid"
proof -
  have "\<not> occupied (replicate 4 (blank_voie 0) ! i)" if "i < 4" for i using that by (simp add: occupied_def)
  then show ?thesis using blank_ok(1) by (auto simp: table_ok_def empty_iid_def)
qed

interpretation iid: traced observe_iid "\<lambda>_. True" "\<lambda>hist. table_ok (seen hist)"
proof
  show "\<exists>r t'. observe_iid t x = Ret (r, t') \<and> table_ok (seen (hist @ [x])) t'" if "table_ok (seen hist) t" for hist x t
    using observed(2)[OF that] by (cases x) (auto simp: observe_iid_def ObserveResponseIID_eq)
qed simp

text \<open>
  C29.  On every sequence of packets the tracker answers without a panic, and only well-formed AAAA
  records of class IN whose identifier has no zero octet are taken.  When it fires, some prefix of the
  response has at least eight different identifiers in the responses of the last ten minutes to the
  same client.  On a response whose records share one prefix it fires exactly when its identifiers and
  those still held for this prefix are at least eight, even when they do not fit in the sixteen places.\<close>

theorem iid_fired_backed:
  assumes "0 \<le> ts" "ts < 2 ^ 63"
  shows "\<exists>t fired t'. run_steps observe_iid empty_iid hist = Ret t \<and> ObserveResponseIID t ts ip w = Ret (fired, t')
    \<and> (\<forall>p x. (p, x) \<in> set (aaaa_of w) \<longrightarrow> aaaa_record w p x)
    \<and> (fired \<longrightarrow> (\<exists>p x. (p, x) \<in> set (aaaa_of w) \<and> 8 \<le> card (recent_iids (hist @ [(ts, ip, w)]) ts (cleSuiviAAAAIID ip p))))
    \<and> (\<forall>p. fst ` set (aaaa_of w) = {p} \<longrightarrow>
         (fired \<longleftrightarrow> 8 \<le> card ((\<lambda>(p, x). be_get x) ` set (aaaa_of w) \<union> held (ts - 600000000000) (cleSuiviAAAAIID ip p) t)))"
proof -
  let ?h = "hist @ [(ts, ip, w)]" and ?s = "ts - 600000000000" and ?rs = "aaaa_of w"
  have s: "go_int ?s = ?s" using assms by simp
  obtain t where t: "run_steps observe_iid empty_iid hist = Ret t" "table_ok (seen hist) t" using iid.run_inv[OF TrueI empty_iid_ok] by blast
  define t' where "t' = insert_all ts ip ?rs t"
  note o = observed[OF t(2), where ts = ts and ip = ip and w = w]
  have t': "table_ok (seen ?h) t'" unfolding t'_def by (rule o(2))
  define fired where "fired \<longleftrightarrow> (\<exists>(p, x) \<in> set ?rs. 8 \<le> card (held ?s (cleSuiviAAAAIID ip p) t'))"
  have r: "ObserveResponseIID t ts ip w = Ret (fired, t')"
    unfolding ObserveResponseIID_eq fired_def t'_def[symmetric] row_fires_held[OF t'] s ..
  have backed: "\<exists>p x. (p, x) \<in> set ?rs \<and> 8 \<le> card (recent_iids ?h ts (cleSuiviAAAAIID ip p))" if f: fired
  proof -
    obtain p x where p: "(p, x) \<in> set ?rs" "8 \<le> card (held ?s (cleSuiviAAAAIID ip p) t')" using f unfolding fired_def by auto
    have "card (held ?s (cleSuiviAAAAIID ip p) t') \<le> card (recent_iids ?h ts (cleSuiviAAAAIID ip p))"
      using held_recent[OF t', of ts] s by (intro card_mono) simp_all
    then show ?thesis using p by auto
  qed
  have exact: "fired \<longleftrightarrow> 8 \<le> card ((\<lambda>(p, x). be_get x) ` set ?rs \<union> held ?s (cleSuiviAAAAIID ip p) t)" if "fst ` set ?rs = {p}" for p
  proof -
    have same: "q = p" if "(q, x) \<in> set ?rs" for q x using that \<open>fst ` set ?rs = {p}\<close> by force
    have ex: "\<exists>x. (p, x) \<in> set ?rs" using \<open>fst ` set ?rs = {p}\<close> by (metis (no_types) imageE insertI1 prod.collapse)
    have all: "\<forall>(q, x) \<in> set ?rs. seen ?h (cleSuiviAAAAIID ip q) (be_get x) ts \<and> (be_get x :: u64) \<noteq> 0 \<and> cleSuiviAAAAIID ip q = cleSuiviAAAAIID ip p"
      using o(3) same by blast
    have le: "go_int ?s \<le> ts" using s by simp
    have "absorbs ((\<lambda>(p, x). be_get x) ` set ?rs) (held ?s (cleSuiviAAAAIID ip p) t) (held ?s (cleSuiviAAAAIID ip p) t')"
      using insert_all_one_key[OF o(1) all le] unfolding t'_def s .
    moreover have "fired \<longleftrightarrow> 8 \<le> card (held ?s (cleSuiviAAAAIID ip p) t')" unfolding fired_def using same ex by blast
    ultimately show ?thesis by (auto simp: absorbs_def)
  qed
  show ?thesis using t(1) r backed exact aaaa_of_record by blast
qed


text \<open>A first response with eight addresses of one prefix.\<close>

definition burst :: "byte list \<Rightarrow> bytes" where
  "burst bs = [0, 1, 0x81, 0x80, 0, 1, 0, of_nat (length bs), 0, 0, 0, 0] @ [1, 97, 0, 0, 28, 0, 1]
     @ concat (map (\<lambda>b. [0xC0, 12, 0, 28, 0, 1, 0, 0, 0, 60, 0, 16] @ [32, 1, 13, 184, 0, 0, 0, 1] @ [b, 1, 1, 1, 1, 1, 1, 1]) bs)"

theorem iid_fired_backed_witness:
  "(0 :: int) \<le> 5 \<and> (5 :: int) < 2 ^ 63 \<and> (\<exists>t'. ObserveResponseIID empty_iid 5 [10] (burst [1, 2, 3, 4, 5, 6, 7, 8]) = Ret (True, t')
     \<and> 8 \<le> card (recent_iids [(5, [10], burst [1, 2, 3, 4, 5, 6, 7, 8])] 5 (cleSuiviAAAAIID [10] [32, 1, 13, 184, 0, 0, 0, 1])))"
proof -
  let ?w = "burst [1, 2, 3, 4, 5, 6, 7, 8]" and ?p = "[32, 1, 13, 184, 0, 0, 0, 1] :: bytes"
  have a: "aaaa_of ?w = map (\<lambda>b. (?p, [b, 1, 1, 1, 1, 1, 1, 1])) [1, 2, 3, 4, 5, 6, 7, 8]" by code_simp
  have d: "distinct (map (\<lambda>b. be_get [b, 1, 1, 1, 1, 1, 1, 1] :: u64) [1, 2, 3, 4, 5, 6, 7, 8])" by code_simp
  have i: "(\<lambda>(p, x). be_get x :: u64) ` set (aaaa_of ?w) = set (map (\<lambda>b. be_get [b, 1, 1, 1, 1, 1, 1, 1]) [1, 2, 3, 4, 5, 6, 7, 8])" by (simp add: a)
  have p: "fst ` set (aaaa_of ?w) = {?p}" by (simp add: a)
  have "card ((\<lambda>(p, x). be_get x :: u64) ` set (aaaa_of ?w)) = 8" unfolding i distinct_card[OF d] by simp
  then have c: "8 \<le> card ((\<lambda>(p, x). be_get x :: u64) ` set (aaaa_of ?w) \<union> h)" for h
    using card_mono[of "(\<lambda>(p, x). be_get x :: u64) ` set (aaaa_of ?w) \<union> h" "(\<lambda>(p, x). be_get x :: u64) ` set (aaaa_of ?w)"] by simp
  obtain fired t' where o: "ObserveResponseIID empty_iid 5 [10] ?w = Ret (fired, t')"
      "fired \<longrightarrow> (\<exists>p x. (p, x) \<in> set (aaaa_of ?w) \<and> 8 \<le> card (recent_iids ([] @ [(5, [10], ?w)]) 5 (cleSuiviAAAAIID [10] p)))"
      "\<forall>p. fst ` set (aaaa_of ?w) = {p} \<longrightarrow> (fired \<longleftrightarrow> 8 \<le> card ((\<lambda>(p, x). be_get x) ` set (aaaa_of ?w) \<union> held (5 - 600000000000) (cleSuiviAAAAIID [10] p) empty_iid))"
    using iid_fired_backed[of 5 "[]" "[10]" ?w] by auto
  have "fired" using o(3) p c by blast
  then show ?thesis using o by (auto simp: a)
qed

end
