(* ===== verification/RdataRenewal.thy ===== *)
theory RdataRenewal
  imports DnsNom Fnv Trace "HOL-Library.Sublist"
begin

text \<open>
  The tracker of \<open>renouvellement_rdata.go\<close>: per client, apex and query type it keeps a ring of the last
  sixteen answer fingerprints and reports a window of at least eight responses whose answers are large
  and nearly all different.  Rows of four tracks; instants are 64-bit nanoseconds.
\<close>

section \<open>The fingerprint of an answer\<close>

definition melangerSplitMix64 :: "u64 \<Rightarrow> u64" where
  "melangerSplitMix64 entree = (let e = entree + 0x9e3779b97f4a7c15;
     e = (e XOR drop_bit 30 e) * 0xbf58476d1ce4e5b9; e = (e XOR drop_bit 27 e) * 0x94d049bb133111eb in e XOR drop_bit 31 e)"

definition hash_u16 :: "u64 \<Rightarrow> u16 \<Rightarrow> u64" where
  "hash_u16 h x = fnv_step (fnv_step h (ucast (drop_bit 8 x))) (ucast x)"

definition hash_raw :: "bytes \<Rightarrow> u64 \<Rightarrow> nat \<Rightarrow> nat \<Rightarrow> u64 outcome" where
  "hash_raw w h debut fin = obind (slice_at w debut fin) (\<lambda>s. Ret (fnv_from h s))"

text \<open>A name that fills the data is hashed in its canonical form, anything else as it is.\<close>

definition hash_name :: "bytes \<Rightarrow> u64 \<Rightarrow> nat \<Rightarrow> nat \<Rightarrow> u64 outcome" where
  "hash_name w h debut fin = obind (decompresserNomDNS w debut fin False True) (\<lambda>r. case r of
     None \<Rightarrow> hash_raw w h debut fin
   | Some (finInline, nom) \<Rightarrow> if finInline = fin then Ret (fnv_from h (map fst nom)) else hash_raw w h debut fin)"

definition hash_after :: "bytes \<Rightarrow> u64 \<Rightarrow> nat \<Rightarrow> nat \<Rightarrow> nat \<Rightarrow> u64 outcome" where
  "hash_after w h n debut fin = (if debut + n < fin
     then obind (hash_raw w h debut (debut + n)) (\<lambda>h. hash_name w (fnv_step h 0) (debut + n) fin)
     else hash_raw w h debut fin)"

definition hacherEnregistrementAnswerCanonique :: "bytes \<Rightarrow> u16 \<Rightarrow> u16 \<Rightarrow> nat \<Rightarrow> nat \<Rightarrow> u64 outcome" where
  "hacherEnregistrementAnswerCanonique w typeRR classeRR debut fin =
     (let h = hash_u16 (hash_u16 14695981039346656037 typeRR) classeRR in
      obind (if typeRR = 2 \<or> typeRR = 5 \<or> typeRR = 12 then hash_name w h debut fin
             else if typeRR = 15 then hash_after w h 2 debut fin
             else if typeRR = 33 then hash_after w h 6 debut fin
             else hash_raw w h debut fin)
        (\<lambda>h. let e = melangerSplitMix64 h in Ret (if e = 0 then 1 else e)))"

fun rdata_questions :: "bytes \<Rightarrow> nat \<Rightarrow> nat \<Rightarrow> nat option outcome" where
  "rdata_questions w off 0 = Ret (Some off)"
| "rdata_questions w off (Suc n) = obind (decompresserNomDNS w off (length w) False False) (\<lambda>r. case r of
     None \<Rightarrow> Ret None
   | Some (fin, _) \<Rightarrow> if length w < fin + 4 then Ret None else rdata_questions w (fin + 4) n)"

text \<open>The first sixteen different fingerprints, the sum, the total of the lengths, and the records kept.\<close>

record rrset =
  empreintesVues :: "u64 list"
  sommeCommutative :: u64
  sommeRDLength :: nat
  nbRRsRetenus :: nat

definition add_rr :: "u64 \<Rightarrow> nat \<Rightarrow> rrset \<Rightarrow> rrset" where
  "add_rr e longueur s = (let s = s\<lparr>nbRRsRetenus := nbRRsRetenus s + 1, sommeRDLength := sommeRDLength s + longueur\<rparr> in
     if e \<in> set (empreintesVues s) then s
     else s\<lparr>empreintesVues := (if length (empreintesVues s) < 16 then empreintesVues s @ [e] else empreintesVues s),
            sommeCommutative := sommeCommutative s + e\<rparr>)"

fun rdata_answers :: "bytes \<Rightarrow> nat \<Rightarrow> nat \<Rightarrow> rrset \<Rightarrow> rrset option outcome" where
  "rdata_answers w off 0 s = Ret (Some s)"
| "rdata_answers w off (Suc n) s = obind (decompresserNomDNS w off (length w) False False) (\<lambda>r. case r of
     None \<Rightarrow> Ret None
   | Some (fin, _) \<Rightarrow>
       if length w < fin + 10 then Ret None
       else obind (slice_at w fin (fin + 2)) (\<lambda>ty. obind (slice_at w (fin + 2) (fin + 4)) (\<lambda>cl. obind (slice_at w (fin + 8) (fin + 10)) (\<lambda>ln.
         let longueur = unat (be_get ln :: u16); debut = fin + 10; finR = debut + longueur in
         if length w < finR then Ret None
         else if (be_get ty :: u16) = 46 then rdata_answers w finR n s
         else obind (hacherEnregistrementAnswerCanonique w (be_get ty) (be_get cl) debut finR) (\<lambda>e.
           rdata_answers w finR n (add_rr e longueur s))))))"

definition extraireEmpreinteRRsetAnswer :: "bytes \<Rightarrow> (u64 \<times> u16) option outcome" where
  "extraireEmpreinteRRsetAnswer w = (if length w < 12 then Ret None
     else obind (slice_at w 2 4) (\<lambda>d. let drapeaux = be_get d :: u16 in
       if drapeaux AND 0x8000 = 0 \<or> drop_bit 11 drapeaux AND 0x0F \<noteq> 0 \<or> drapeaux AND 0x0200 \<noteq> 0 \<or> drapeaux AND 0x000F \<noteq> 0 then Ret None
       else obind (slice_at w 4 6) (\<lambda>q. obind (slice_at w 6 8) (\<lambda>r.
         let nbQuestions = unat (be_get q :: u16); nbReponses = unat (be_get r :: u16) in
         if nbQuestions = 0 \<or> nbReponses = 0 then Ret None
         else obind (rdata_questions w 12 nbQuestions) (\<lambda>c. case c of
           None \<Rightarrow> Ret None
         | Some curseur \<Rightarrow> obind (rdata_answers w curseur nbReponses \<lparr>empreintesVues = [], sommeCommutative = 0, sommeRDLength = 0, nbRRsRetenus = 0\<rparr>) (\<lambda>s. case s of
             None \<Rightarrow> Ret None
           | Some s \<Rightarrow> if nbRRsRetenus s = 0 then Ret None
               else Ret (Some (if sommeCommutative s = 0 then 1 else sommeCommutative s, word_of_nat (min (sommeRDLength s) 65535)))))))))"

section \<open>The key\<close>

definition qtypeAdmissibleRenouvellementRData :: "u16 \<Rightarrow> bool" where
  "qtypeAdmissibleRenouvellementRData q \<longleftrightarrow> q = 2 \<or> q = 15 \<or> q = 16 \<or> q = 33 \<or> q = 257"

text \<open>IPv4 addresses keep their four octets, IPv6 addresses their first eight.\<close>

definition normaliserCleClientRData :: "bytes \<Rightarrow> bytes" where
  "normaliserCleClientRData ip =
     (if ip ! 10 = 0xFF \<and> ip ! 11 = 0xFF \<and> list_all (\<lambda>i. ip ! i = 0) [0..<10] then subslice 12 16 ip @ replicate 12 0
      else if list_ex (\<lambda>i. ip ! i \<noteq> 0) [4..<16] then subslice 0 8 ip @ replicate 8 0
      else subslice 0 4 ip @ replicate 12 0)"

fun strip_dots :: "bytes \<Rightarrow> nat \<Rightarrow> nat" where
  "strip_dots apex 0 = 0"
| "strip_dots apex (Suc n) = (if apex ! n = 0x2E then strip_dots apex n else Suc n)"

definition calculerCleRenouvellementRData :: "bytes \<Rightarrow> bytes \<Rightarrow> u16 \<Rightarrow> u64" where
  "calculerCleRenouvellementRData ip apex qtype =
     (let h = fnv_step (fnv_from 14695981039346656037 (normaliserCleClientRData ip)) 0;
          h = fnv_step (fnv_from h (map lower (take (strip_dots apex (length apex)) apex))) 0;
          k = melangerSplitMix64 (hash_u16 h qtype) in if k = 0 then 1 else k)"


section \<open>The tracks\<close>

record RenouvellementRDataObs =
  Reponses :: u16
  Distinctes :: byte
  MoyenneRDLength :: u16
  Permille :: int
  Valide :: bool

definition zero_obs :: RenouvellementRDataObs where
  "zero_obs = \<lparr>Reponses = 0, Distinctes = 0, MoyenneRDLength = 0, Permille = 0, Valide = False\<rparr>"

record voieRenouvellementRData =
  cleCouple :: u64
  dernierAccesNs :: int
  empreintesAnneau :: "u64 list"
  horodatagesNs :: "int list"
  taillesRData :: "u16 list"
  debutAnneau :: nat
  nbEntrees :: nat

type_synonym RenouvellementRDataTracker = "nat \<Rightarrow> voieRenouvellementRData list"

definition fresh_lane :: "u64 \<Rightarrow> voieRenouvellementRData" where
  "fresh_lane k = \<lparr>cleCouple = k, dernierAccesNs = 0, empreintesAnneau = replicate 16 0, horodatagesNs = replicate 16 0,
     taillesRData = replicate 16 0, debutAnneau = 0, nbEntrees = 0\<rparr>"

definition empty_rdata :: RenouvellementRDataTracker where
  "empty_rdata = (\<lambda>_. replicate 4 (fresh_lane 0))"

definition expired :: "int \<Rightarrow> int \<Rightarrow> bool" where
  "expired tsNs h \<longleftrightarrow> h < tsNs \<and> 600000000000 < go_int (tsNs - h)"

definition ring_at :: "voieRenouvellementRData \<Rightarrow> nat \<Rightarrow> nat" where
  "ring_at v d = (debutAnneau v + d) mod 16"

definition purgerEntreesExpireesRData :: "int \<Rightarrow> voieRenouvellementRData \<Rightarrow> voieRenouvellementRData" where
  "purgerEntreesExpireesRData tsNs v =
     (if nbEntrees v = 0 then v
      else if \<not> list_ex (\<lambda>d. expired tsNs (horodatagesNs v ! ring_at v d)) [0..<nbEntrees v] then v
      else let kept = filter (\<lambda>d. \<not> expired tsNs (horodatagesNs v ! ring_at v d)) [0..<nbEntrees v]; n = length kept in
        v\<lparr>empreintesAnneau := map (\<lambda>d. empreintesAnneau v ! ring_at v d) kept @ replicate (16 - n) 0,
          horodatagesNs := map (\<lambda>d. horodatagesNs v ! ring_at v d) kept @ replicate (16 - n) 0,
          taillesRData := map (\<lambda>d. taillesRData v ! ring_at v d) kept @ replicate (16 - n) 0,
          debutAnneau := 0, nbEntrees := n\<rparr>)"

text \<open>The array of different fingerprints has sixteen places.\<close>

fun measure_loop :: "voieRenouvellementRData \<Rightarrow> nat list \<Rightarrow> u64 list \<Rightarrow> nat \<Rightarrow> (nat \<times> nat) outcome" where
  "measure_loop v [] vues somme = Ret (length vues, somme)"
| "measure_loop v (d # ds) vues somme =
     (let e = empreintesAnneau v ! ring_at v d; somme = somme + unat (taillesRData v ! ring_at v d) in
      if e \<in> set vues then measure_loop v ds vues somme
      else if length vues < 16 then measure_loop v ds (vues @ [e]) somme
      else Panic)"

definition mesurerFenetreAnneauRData :: "voieRenouvellementRData \<Rightarrow> nat \<Rightarrow> nat \<Rightarrow> RenouvellementRDataObs outcome" where
  "mesurerFenetreAnneauRData v decalage longueur =
     (if longueur = 0 then Ret zero_obs
      else obind (measure_loop v (map ((+) decalage) [0..<longueur]) [] 0) (\<lambda>(n, somme).
        Ret \<lparr>Reponses = word_of_nat longueur, Distinctes = word_of_nat n, MoyenneRDLength = word_of_nat (min (somme div longueur) 65535),
             Permille = int (n * 1000 div longueur), Valide = 8 \<le> longueur\<rparr>))"

text \<open>The track of the key; otherwise the first free one, or the one used longest ago, to be reset.\<close>

fun lane_search :: "voieRenouvellementRData list \<Rightarrow> u64 \<Rightarrow> int \<Rightarrow> nat list \<Rightarrow> nat option \<Rightarrow> nat \<Rightarrow> int \<Rightarrow> bool \<Rightarrow> bool \<times> nat" where
  "lane_search vs k tsNs [] libre victime date init = (False, case libre of None \<Rightarrow> victime | Some i \<Rightarrow> i)"
| "lane_search vs k tsNs (i # ix) libre victime date init =
     (let v = vs ! i in
      if cleCouple v = k then (True, i)
      else if cleCouple v = 0 \<or> nbEntrees v = 0 \<or> expired tsNs (dernierAccesNs v)
        then lane_search vs k tsNs ix (case libre of None \<Rightarrow> Some i | Some _ \<Rightarrow> libre) victime date init
      else if \<not> init \<or> dernierAccesNs v < date then lane_search vs k tsNs ix libre i (dernierAccesNs v) True
      else lane_search vs k tsNs ix libre victime date init)"

definition ring_write :: "u64 \<Rightarrow> int \<Rightarrow> u16 \<Rightarrow> voieRenouvellementRData \<Rightarrow> voieRenouvellementRData" where
  "ring_write e tsNs taille v =
     (let i = (if nbEntrees v < 16 then ring_at v (nbEntrees v) else debutAnneau v mod 16);
          v = v\<lparr>empreintesAnneau := (empreintesAnneau v)[i := e], horodatagesNs := (horodatagesNs v)[i := tsNs], taillesRData := (taillesRData v)[i := taille]\<rparr>;
          v = (if nbEntrees v < 16 then v\<lparr>nbEntrees := nbEntrees v + 1\<rparr> else v\<lparr>debutAnneau := (debutAnneau v + 1) mod 16\<rparr>) in
      v\<lparr>dernierAccesNs := tsNs\<rparr>)"

definition p15 :: "RenouvellementRDataObs \<Rightarrow> bool" where
  "p15 obs \<longleftrightarrow> Valide obs \<and> 750 \<le> Permille obs \<and> 128 \<le> MoyenneRDLength obs"

definition judge_lane :: "voieRenouvellementRData \<Rightarrow> (bool \<times> RenouvellementRDataObs) outcome" where
  "judge_lane v = obind (mesurerFenetreAnneauRData v 0 (nbEntrees v)) (\<lambda>obsAnneau.
     if p15 obsAnneau then Ret (True, obsAnneau)
     else if 8 < nbEntrees v then obind (mesurerFenetreAnneauRData v (nbEntrees v - 8) 8) (\<lambda>obsRecentes.
       Ret (if p15 obsRecentes then (True, obsRecentes) else (False, obsAnneau)))
     else Ret (False, obsAnneau))"

definition rowRD :: "u64 \<Rightarrow> nat" where
  "rowRD k = unat (k AND 255)"

definition ObserveRData :: "RenouvellementRDataTracker \<Rightarrow> int \<Rightarrow> bytes \<Rightarrow> bytes \<Rightarrow> u16 \<Rightarrow> bytes
    \<Rightarrow> ((bool \<times> RenouvellementRDataObs) \<times> RenouvellementRDataTracker) outcome" where
  "ObserveRData t tsNs clientIP parentApex qtype respWire =
     (if \<not> qtypeAdmissibleRenouvellementRData qtype then Ret ((False, zero_obs), t)
      else obind (extraireEmpreinteRRsetAnswer respWire) (\<lambda>r. case r of
        None \<Rightarrow> Ret ((False, zero_obs), t)
      | Some (empreinteRRset, tailleReponse) \<Rightarrow>
          let k = calculerCleRenouvellementRData clientIP parentApex qtype; row = t (rowRD k) in
          (case lane_search row k tsNs [0..<4] None 0 0 False of (trouve, i) \<Rightarrow>
            let v = ring_write empreinteRRset tsNs tailleReponse (if trouve then purgerEntreesExpireesRData tsNs (row ! i) else fresh_lane k) in
            obind (judge_lane v) (\<lambda>res. Ret (res, t(rowRD k := row[i := v]))))))"


section \<open>Reading never fails\<close>

lemma hash_raw_total: "debut \<le> fin \<Longrightarrow> fin \<le> length w \<Longrightarrow> \<exists>h'. hash_raw w h debut fin = Ret h'"
  by (simp add: hash_raw_def)

lemma hash_name_total: "debut \<le> fin \<Longrightarrow> fin \<le> length w \<Longrightarrow> \<exists>h'. hash_name w h debut fin = Ret h'"
proof -
  assume b: "debut \<le> fin" "fin \<le> length w"
  show ?thesis by (rule yieldsE[OF decompresserNomDNS_ok[OF b(2), of debut True]]) (use hash_raw_total[OF b, of h] in \<open>auto simp: hash_name_def\<close>)
qed

lemma hash_after_total: "debut \<le> fin \<Longrightarrow> fin \<le> length w \<Longrightarrow> \<exists>h'. hash_after w h n debut fin = Ret h'"
  using hash_raw_total[of debut fin w h] hash_name_total[of "debut + n" fin w] by (auto simp: hash_after_def hash_raw_def)

lemma canonique_total: "debut \<le> fin \<Longrightarrow> fin \<le> length w \<Longrightarrow> \<exists>e. hacherEnregistrementAnswerCanonique w ty cl debut fin = Ret e"
proof -
  assume b: "debut \<le> fin" "fin \<le> length w"
  define h where "h = hash_u16 (hash_u16 14695981039346656037 ty) cl"
  obtain h1 h2 h3 h4 where "hash_name w h debut fin = Ret h1" "hash_after w h 2 debut fin = Ret h2" "hash_after w h 6 debut fin = Ret h3" "hash_raw w h debut fin = Ret h4"
    using hash_name_total[OF b, of h] hash_after_total[OF b, of h 2] hash_after_total[OF b, of h 6] hash_raw_total[OF b, of h] by blast
  then show ?thesis by (simp add: hacherEnregistrementAnswerCanonique_def h_def[symmetric] Let_def)
qed

lemma rdata_questions_total: "yields (rdata_questions w off n) (\<lambda>_. True)"
proof (induction n arbitrary: off)
  case (Suc n)
  show ?case by (rule yieldsE[OF decompresserNomDNS_ok[OF order_refl, of w off False]]) (use Suc in auto)
qed simp

text \<open>The sum depends only on the set of the fingerprints, as long as they are at most sixteen.\<close>

definition rrset_ok :: "u64 set \<Rightarrow> rrset \<Rightarrow> bool" where
  "rrset_ok es s \<longleftrightarrow> finite es \<and> (card es \<le> 16 \<longrightarrow> set (empreintesVues s) = es \<and> distinct (empreintesVues s) \<and> sommeCommutative s = \<Sum>es)"

lemma add_rr_ok: "rrset_ok es s \<Longrightarrow> rrset_ok (insert e es) (add_rr e n s)"
proof -
  assume s: "rrset_ok es s"
  show ?thesis
  proof (cases "card (insert e es) \<le> 16")
    case True
    then have "card es \<le> 16" using s card_insert_le[of es e] by (simp add: rrset_ok_def)
    then have a: "set (empreintesVues s) = es" "distinct (empreintesVues s)" "sommeCommutative s = \<Sum>es" using s by (simp_all add: rrset_ok_def)
    have "length (empreintesVues s) < 16" if "e \<notin> es" using distinct_card[OF a(2)] a(1) that True s by (simp add: rrset_ok_def)
    then show ?thesis using a s by (auto simp: rrset_ok_def add_rr_def Let_def insert_absorb add.commute)
  qed (use s in \<open>simp add: rrset_ok_def\<close>)
qed

lemma rdata_answers_ok: "rrset_ok es s \<Longrightarrow> yields (rdata_answers w off n s) (\<lambda>s'. \<exists>es'. es \<subseteq> es' \<and> rrset_ok es' s')"
proof (induction n arbitrary: off s es)
  case (Suc n)
  show ?case
  proof (rule yieldsE[OF decompresserNomDNS_ok[OF order_refl, of w off False]])
    fix fin nom assume o: "decompresserNomDNS w off (length w) False False = Ret (Some (fin, nom))" "name_at w off (length w) False (fin, nom)"
    define ty cl ln where "ty = (be_get (subslice fin (fin + 2) w) :: u16)" and "cl = (be_get (subslice (fin + 2) (fin + 4) w) :: u16)"
      and "ln = unat (be_get (subslice (fin + 8) (fin + 10) w) :: u16)"
    show ?thesis
    proof (cases "length w < fin + 10 \<or> length w < fin + 10 + ln")
      case True
      then show ?thesis using o(1) by (auto simp: ln_def Let_def)
    next
      case False
      then obtain e where e: "hacherEnregistrementAnswerCanonique w ty cl (fin + 10) (fin + 10 + ln) = Ret e" using canonique_total[of "fin + 10" "fin + 10 + ln" w ty cl] by auto
      have r: "rdata_answers w off (Suc n) s = (if ty = 46 then rdata_answers w (fin + 10 + ln) n s else rdata_answers w (fin + 10 + ln) n (add_rr e ln s))"
        using o(1) False e by (simp add: ty_def cl_def ln_def Let_def)
      have "yields (rdata_answers w (fin + 10 + ln) n (add_rr e ln s)) (\<lambda>s'. \<exists>es'. es \<subseteq> es' \<and> rrset_ok es' s')"
        by (rule yields_mono[OF Suc.IH[OF add_rr_ok[OF Suc.prems]]]) blast
      then show ?thesis using r Suc.IH[OF Suc.prems] by simp
    qed
  qed simp
qed auto

lemma extraire_total: "yields (extraireEmpreinteRRsetAnswer w) (\<lambda>(e, n). e \<noteq> 0)"
proof -
  let ?s = "\<lparr>empreintesVues = [], sommeCommutative = 0, sommeRDLength = 0, nbRRsRetenus = 0\<rparr>"
  have s: "rrset_ok {} ?s" by (simp add: rrset_ok_def)
  show ?thesis
  proof (cases "length w < 12")
    case False
    let ?nq = "unat (be_get (subslice 4 6 w) :: u16)" and ?nr = "unat (be_get (subslice 6 8 w) :: u16)"
    obtain c where c: "rdata_questions w 12 ?nq = Ret c" using rdata_questions_total[of w 12 ?nq] by (auto simp: yields_def)
    have "\<exists>r. rdata_answers w off ?nr ?s = Ret r" for off using rdata_answers_ok[OF s, of w off ?nr] by (auto simp: yields_def)
    then obtain r where "rdata_answers w (the c) ?nr ?s = Ret r" by blast
    then show ?thesis using False c by (cases c; cases r) (auto simp: extraireEmpreinteRRsetAnswer_def Let_def)
  qed (simp add: extraireEmpreinteRRsetAnswer_def)
qed


section \<open>The ring is a bounded list\<close>

type_synonym entry = "u64 \<times> int \<times> u16"

definition entry_at :: "voieRenouvellementRData \<Rightarrow> nat \<Rightarrow> entry" where
  "entry_at v i = (empreintesAnneau v ! i, horodatagesNs v ! i, taillesRData v ! i)"

definition entries :: "voieRenouvellementRData \<Rightarrow> entry list" where
  "entries v = map (\<lambda>d. entry_at v (ring_at v d)) [0..<nbEntrees v]"

definition lane_wf :: "voieRenouvellementRData \<Rightarrow> bool" where
  "lane_wf v \<longleftrightarrow> length (empreintesAnneau v) = 16 \<and> length (horodatagesNs v) = 16 \<and> length (taillesRData v) = 16 \<and> debutAnneau v < 16 \<and> nbEntrees v \<le> 16"

definition unexpired :: "int \<Rightarrow> entry \<Rightarrow> bool" where
  "unexpired tsNs e \<longleftrightarrow> \<not> expired tsNs (fst (snd e))"

definition last_of :: "nat \<Rightarrow> 'a list \<Rightarrow> 'a list" where
  "last_of n xs = drop (length xs - n) xs"

lemma length_entries [simp]: "length (entries v) = nbEntrees v"
  by (simp add: entries_def)

lemma fresh_lane_wf [simp]: "lane_wf (fresh_lane k)" "entries (fresh_lane k) = []" "cleCouple (fresh_lane k) = k"
  by (simp_all add: lane_wf_def fresh_lane_def entries_def)

lemma purge_ok:
  assumes "lane_wf v"
  shows "entries (purgerEntreesExpireesRData ts v) = filter (unexpired ts) (entries v)" "lane_wf (purgerEntreesExpireesRData ts v)"
    "cleCouple (purgerEntreesExpireesRData ts v) = cleCouple v"
proof -
  let ?P = "\<lambda>d. expired ts (horodatagesNs v ! ring_at v d)" and ?n = "nbEntrees v"
  define kept where "kept = filter (\<lambda>d. \<not> ?P d) [0..<?n]"
  define v' where "v' = purgerEntreesExpireesRData ts v"
  have f: "filter (unexpired ts) (entries v) = map (\<lambda>d. entry_at v (ring_at v d)) kept"
    by (simp add: entries_def kept_def filter_map comp_def unexpired_def entry_at_def)
  have "entries v' = map (\<lambda>d. entry_at v (ring_at v d)) kept \<and> lane_wf v' \<and> cleCouple v' = cleCouple v"
  proof (cases "?n = 0 \<or> \<not> list_ex ?P [0..<?n]")
    case True
    then have "v' = v" "kept = [0..<?n]" by (auto simp: v'_def purgerEntreesExpireesRData_def kept_def list_ex_iff intro!: filter_True)
    then show ?thesis using assms by (simp add: entries_def)
  next
    case False
    have k: "length kept \<le> 16" using assms length_filter_le[of "\<lambda>d. \<not> ?P d" "[0..<?n]"] by (simp add: kept_def lane_wf_def)
    have v': "v' = v\<lparr>empreintesAnneau := map (\<lambda>d. empreintesAnneau v ! ring_at v d) kept @ replicate (16 - length kept) 0,
          horodatagesNs := map (\<lambda>d. horodatagesNs v ! ring_at v d) kept @ replicate (16 - length kept) 0,
          taillesRData := map (\<lambda>d. taillesRData v ! ring_at v d) kept @ replicate (16 - length kept) 0,
          debutAnneau := 0, nbEntrees := length kept\<rparr>"
      using False by (simp add: v'_def purgerEntreesExpireesRData_def kept_def Let_def)
    have "entry_at v' (ring_at v' d) = entry_at v (ring_at v (kept ! d))" if "d < length kept" for d
      using that k by (simp add: v' entry_at_def ring_at_def nth_append)
    moreover have "nbEntrees v' = length kept" by (simp add: v')
    ultimately have "entries v' = map (\<lambda>d. entry_at v (ring_at v d)) kept" by (auto simp: entries_def intro!: nth_equalityI)
    then show ?thesis using k by (simp add: v' lane_wf_def)
  qed
  then show "entries (purgerEntreesExpireesRData ts v) = filter (unexpired ts) (entries v)" "lane_wf (purgerEntreesExpireesRData ts v)"
    "cleCouple (purgerEntreesExpireesRData ts v) = cleCouple v" using f by (simp_all add: v'_def)
qed

lemma ring_apart: "d < n \<Longrightarrow> n < 16 \<Longrightarrow> (b + d) mod 16 \<noteq> (b + n) mod (16 :: nat)"
  using mod_eq_dvd_iff_nat[of "b + d" "b + n" 16] nat_dvd_not_less[of "n - d" 16] by auto

lemma write_ok:
  assumes "lane_wf v"
  shows "entries (ring_write e ts n v) = last_of 16 (entries v @ [(e, ts, n)])" "lane_wf (ring_write e ts n v)" "cleCouple (ring_write e ts n v) = cleCouple v"
proof -
  let ?nb = "nbEntrees v" and ?b = "debutAnneau v"
  define i where "i = (if ?nb < 16 then ring_at v ?nb else ?b mod 16)"
  have i: "i < 16" by (simp add: i_def ring_at_def)
  have l: "length (empreintesAnneau v) = 16" "length (horodatagesNs v) = 16" "length (taillesRData v) = 16" "?b < 16" "?nb \<le> 16" using assms by (simp_all add: lane_wf_def)
  define v' where "v' = ring_write e ts n v"
  have at: "entry_at v' j = (if j = i then (e, ts, n) else entry_at v j)" if "j < 16" for j
    using that l by (auto simp: v'_def ring_write_def entry_at_def i_def[symmetric] Let_def nth_list_update)
  have "entries v' = last_of 16 (entries v @ [(e, ts, n)])"
  proof (cases "?nb < 16")
    case True
    then have n': "nbEntrees v' = ?nb + 1" "debutAnneau v' = ?b" by (simp_all add: v'_def ring_write_def Let_def)
    have "entry_at v' (ring_at v' d) = (entries v @ [(e, ts, n)]) ! d" if "d < ?nb + 1" for d
      using that True at[of "ring_at v' d"] ring_apart[of d ?nb ?b] n'(2)
      by (auto simp: entries_def nth_append ring_at_def i_def less_Suc_eq)
    then show ?thesis using n'(1) True by (auto simp: last_of_def entries_def intro!: nth_equalityI simp del: upt_Suc)
  next
    case False
    then have nb: "?nb = 16" using l by simp
    have n': "nbEntrees v' = 16" "debutAnneau v' = (?b + 1) mod 16" using nb by (simp_all add: v'_def ring_write_def Let_def)
    have "entry_at v' (ring_at v' d) = (tl (entries v) @ [(e, ts, n)]) ! d" if d: "d < 16" for d
    proof -
      have r: "ring_at v' d = (?b + Suc d) mod 16" using n'(2) mod_add_left_eq[of "?b + 1" 16 d] by (simp add: ring_at_def)
      show ?thesis
      proof (cases "d = 15")
        case True
        then have "ring_at v' d = i" using r nb by (simp add: i_def)
        then show ?thesis using at[of i] i True nb by (simp add: nth_append)
      next
        case False
        then have "ring_at v' d \<noteq> i" using r nb d ring_apart[of 0 "Suc d" ?b] by (simp add: i_def)
        then show ?thesis using at[of "ring_at v' d"] r False d nb by (simp add: nth_append nth_tl entries_def ring_at_def del: upt_Suc)
      qed
    qed
    moreover have "length (tl (entries v) @ [(e, ts, n)]) = 16" using nb by simp
    ultimately have "entries v' = tl (entries v) @ [(e, ts, n)]" using n'(1) by (intro nth_equalityI) (simp_all add: entries_def)
    moreover have "last_of 16 (entries v @ [(e, ts, n)]) = tl (entries v) @ [(e, ts, n)]" using nb by (cases "entries v") (simp_all add: last_of_def flip: length_entries)
    ultimately show ?thesis by simp
  qed
  then show "entries (ring_write e ts n v) = last_of 16 (entries v @ [(e, ts, n)])" by (simp add: v'_def)
  show "lane_wf (ring_write e ts n v)" "cleCouple (ring_write e ts n v) = cleCouple v"
    using l by (simp_all add: lane_wf_def ring_write_def Let_def)
qed


section \<open>What a track reports\<close>

text \<open>Of a window: the different fingerprints, and the report.\<close>

definition obs_of :: "entry list \<Rightarrow> RenouvellementRDataObs" where
  "obs_of ws = (if ws = [] then zero_obs else
     \<lparr>Reponses = word_of_nat (length ws), Distinctes = word_of_nat (card (fst ` set ws)),
      MoyenneRDLength = word_of_nat ((\<Sum>(e, h, n)\<leftarrow>ws. unat n) div length ws),
      Permille = int (card (fst ` set ws) * 1000 div length ws), Valide = 8 \<le> length ws\<rparr>)"

text \<open>At least eight responses, three quarters of them different, with 128 octets on average.\<close>

definition renews :: "entry list \<Rightarrow> bool" where
  "renews ws \<longleftrightarrow> 8 \<le> length ws \<and> 3 * length ws \<le> 4 * card (fst ` set ws) \<and> 128 * length ws \<le> (\<Sum>(e, h, n)\<leftarrow>ws. unat n)"

lemma measure_ok:
  assumes "length vues + length ds \<le> 16" "distinct vues"
  shows "measure_loop v ds vues somme = Ret (card (set vues \<union> (\<lambda>d. empreintesAnneau v ! ring_at v d) ` set ds), somme + (\<Sum>d\<leftarrow>ds. unat (taillesRData v ! ring_at v d)))"
  using assms
proof (induction ds arbitrary: vues somme)
  case Nil
  then show ?case by (simp add: distinct_card)
next
  case (Cons d ds)
  then show ?case using Cons.IH[of vues] Cons.IH[of "vues @ [empreintesAnneau v ! ring_at v d]"] by (auto simp: Let_def insert_absorb)
qed

lemma mean_bound: "ws \<noteq> [] \<Longrightarrow> (\<Sum>(e, h, n :: u16)\<leftarrow>ws. unat n) div length ws \<le> 65535"
proof -
  assume "ws \<noteq> []"
  have "(\<Sum>(e, h, n :: u16)\<leftarrow>ws. unat n) \<le> 65535 * length ws"
  proof (induction ws)
    case (Cons x ws)
    obtain e h n where x: "x = (e, h, n)" by (cases x)
    have "unat n < 2 ^ LENGTH(16)" by (rule unsigned_less)
    then have "unat n \<le> 65535" by simp
    then show ?case using Cons x by simp
  qed simp
  from div_le_mono[OF this, of "length ws"] show ?thesis using \<open>ws \<noteq> []\<close> by simp
qed

lemma mesurer_ok:
  assumes "lane_wf v" "d + n \<le> nbEntrees v"
  shows "mesurerFenetreAnneauRData v d n = Ret (obs_of (take n (drop d (entries v))))"
proof (cases "n = 0")
  case True
  then show ?thesis by (simp add: mesurerFenetreAnneauRData_def obs_of_def)
next
  case False
  define ds where "ds = map ((+) d) [0..<n]"
  have n: "n \<le> 16" using assms by (simp add: lane_wf_def)
  have w: "take n (drop d (entries v)) = map (\<lambda>j. entry_at v (ring_at v j)) ds" (is "?w = _") using assms(2) by (auto simp: entries_def ds_def intro!: nth_equalityI)
  have ld: "length ds = n" by (simp add: ds_def)
  have m: "measure_loop v ds [] 0 = Ret (card (fst ` set ?w), \<Sum>(e, h, n)\<leftarrow>?w. unat n)"
    using measure_ok[of "[]" ds v 0] n ld unfolding w by (simp add: entry_at_def image_image comp_def)
  have lw: "length ?w = n" "?w \<noteq> []" using assms(2) False by auto
  have b: "min ((\<Sum>(e, h, n)\<leftarrow>?w. unat n) div n) 65535 = (\<Sum>(e, h, n)\<leftarrow>?w. unat n) div n" using mean_bound[OF lw(2)] lw(1) by simp
  show ?thesis using False lw m by (simp add: mesurerFenetreAnneauRData_def ds_def[symmetric] obs_of_def b del: take_eq_Nil drop_eq_Nil)
qed

lemma p15_obs: "p15 (obs_of ws) \<longleftrightarrow> renews ws"
proof (cases "8 \<le> length ws")
  case True
  then have ne: "ws \<noteq> []" by auto
  let ?m = "(\<Sum>(e, h, n)\<leftarrow>ws. unat n) div length ws" and ?c = "card (fst ` set ws)"
  have "unat (word_of_nat ?m :: u16) = ?m" using mean_bound[OF ne] by (simp add: unat_of_nat)
  then have "(128 :: u16) \<le> word_of_nat ?m \<longleftrightarrow> 128 \<le> ?m" by (simp add: word_le_nat_alt)
  also have "\<dots> \<longleftrightarrow> 128 * length ws \<le> (\<Sum>(e, h, n)\<leftarrow>ws. unat n)" using ne by (simp add: less_eq_div_iff_mult_less_eq)
  finally have m: "(128 :: u16) \<le> word_of_nat ?m \<longleftrightarrow> 128 * length ws \<le> (\<Sum>(e, h, n)\<leftarrow>ws. unat n)" .
  have "(750 :: int) \<le> int (?c * 1000 div length ws) \<longleftrightarrow> 750 \<le> ?c * 1000 div length ws" by linarith
  also have "\<dots> \<longleftrightarrow> 750 * length ws \<le> ?c * 1000" using ne by (simp add: less_eq_div_iff_mult_less_eq)
  also have "\<dots> \<longleftrightarrow> 3 * length ws \<le> 4 * ?c" by linarith
  finally show ?thesis using ne True m by (simp add: p15_def obs_of_def renews_def)
next
  case False
  then show ?thesis by (simp add: p15_def obs_of_def renews_def zero_obs_def)
qed

definition report :: "entry list \<Rightarrow> bool \<times> RenouvellementRDataObs" where
  "report ws = (if renews ws then (True, obs_of ws)
     else if 8 < length ws \<and> renews (last_of 8 ws) then (True, obs_of (last_of 8 ws)) else (False, obs_of ws))"

lemma judge_lane_ok: "lane_wf v \<Longrightarrow> judge_lane v = Ret (report (entries v))"
proof -
  assume v: "lane_wf v"
  have a: "mesurerFenetreAnneauRData v 0 (nbEntrees v) = Ret (obs_of (entries v))" using mesurer_ok[OF v, of 0 "nbEntrees v"] by simp
  have r: "mesurerFenetreAnneauRData v (nbEntrees v - 8) 8 = Ret (obs_of (last_of 8 (entries v)))" if "8 < nbEntrees v"
    using mesurer_ok[OF v, of "nbEntrees v - 8" 8] that by (simp add: last_of_def)
  show ?thesis using r by (simp add: judge_lane_def a p15_obs report_def)
qed

section \<open>The table and its history\<close>

type_synonym observation = "int \<times> bytes \<times> bytes \<times> u16 \<times> bytes"

text \<open>The key and the entry that an observation contributes.\<close>

definition arrival :: "observation \<Rightarrow> (u64 \<times> entry) option" where
  "arrival x = (case x of (ts, ip, apex, q, w) \<Rightarrow> if \<not> qtypeAdmissibleRenouvellementRData q then None
     else (case extraireEmpreinteRRsetAnswer w of Ret (Some (e, n)) \<Rightarrow> Some (calculerCleRenouvellementRData ip apex q, e, ts, n) | _ \<Rightarrow> None))"

definition entries_for :: "u64 \<Rightarrow> observation list \<Rightarrow> entry list" where
  "entries_for k hist = concat (map (\<lambda>x. case arrival x of None \<Rightarrow> [] | Some (k', e) \<Rightarrow> if k' = k then [e] else []) hist)"

definition held :: "u64 \<Rightarrow> RenouvellementRDataTracker \<Rightarrow> entry list" where
  "held k t = (case find (\<lambda>v. cleCouple v = k) (t (rowRD k)) of None \<Rightarrow> [] | Some v \<Rightarrow> entries v)"

definition rdata_ok :: "observation list \<Rightarrow> RenouvellementRDataTracker \<Rightarrow> bool" where
  "rdata_ok hist t \<longleftrightarrow> (\<forall>r. length (t r) = 4 \<and> (\<forall>v \<in> set (t r). lane_wf v \<and> subseq (entries v) (entries_for (cleCouple v) hist)))"

definition observe_rdata :: "RenouvellementRDataTracker \<Rightarrow> observation \<Rightarrow> ((bool \<times> RenouvellementRDataObs) \<times> RenouvellementRDataTracker) outcome" where
  "observe_rdata t x = (case x of (ts, ip, apex, q, w) \<Rightarrow> ObserveRData t ts ip apex q w)"

text \<open>The window after an arrival: what has not expired, then the arrival, at most sixteen.\<close>

definition window_after :: "entry list \<Rightarrow> entry \<Rightarrow> entry list" where
  "window_after es e = last_of 16 (filter (unexpired (fst (snd e))) es @ [e])"

lemma lane_search_ok:
  assumes "lane_search vs k ts ix libre victime date init = (trouve, i)" "\<forall>i \<in> set ix. i < n" "victime < n" "case libre of None \<Rightarrow> True | Some i \<Rightarrow> i < n"
  shows "i < n \<and> find (\<lambda>i. cleCouple (vs ! i) = k) ix = (if trouve then Some i else None)"
  using assms
proof (induction ix arbitrary: libre victime date init)
  case (Cons i0 ix)
  show ?case
  proof (cases "cleCouple (vs ! i0) = k")
    case True
    then show ?thesis using Cons.prems by (auto simp: Let_def)
  next
    case False
    obtain libre' victime' date' init' where r: "lane_search vs k ts (i0 # ix) libre victime date init = lane_search vs k ts ix libre' victime' date' init'"
        "victime' < n" "case libre' of None \<Rightarrow> True | Some i \<Rightarrow> i < n"
    proof (cases "cleCouple (vs ! i0) = 0 \<or> nbEntrees (vs ! i0) = 0 \<or> expired ts (dernierAccesNs (vs ! i0))")
      case True
      then show ?thesis using that[of "case libre of None \<Rightarrow> Some i0 | Some _ \<Rightarrow> libre" victime date init] False Cons.prems(2-4) by (simp add: Let_def split: option.splits)
    next
      case other: False
      then show ?thesis using that[of libre i0 "dernierAccesNs (vs ! i0)" True] that[of libre victime date init] False Cons.prems(2-4)
        by (cases "\<not> init \<or> dernierAccesNs (vs ! i0) < date") (simp_all add: Let_def)
    qed
    then show ?thesis using Cons.IH[of libre' victime' date' init'] Cons.prems False by auto
  qed
qed (auto split: option.splits)


lemma find_upto: "length xs = n \<Longrightarrow> find P xs = map_option ((!) xs) (find (\<lambda>i. P (xs ! i)) [0..<n])"
proof (induction xs arbitrary: n)
  case (Cons x xs)
  have "find (\<lambda>i. P ((x # xs) ! i)) (map Suc ix) = map_option Suc (find (\<lambda>i. P (xs ! i)) ix)" for ix by (induction ix) auto
  moreover have "[0..<n] = 0 # map Suc [0..<length xs]" using Cons.prems by (simp add: map_Suc_upt upt_conv_Cons del: upt_Suc)
  ultimately show ?case using Cons.IH[OF refl] by (simp add: option.map_comp comp_def)
qed simp

lemma find_update:
  assumes "i < length xs" "P v" "find P xs = None \<or> find (\<lambda>i. P (xs ! i)) [0..<length xs] = Some i"
  shows "find P (xs[i := v]) = Some v"
proof -
  have "\<not> P (xs ! j)" if "j < i" for j using assms that by (auto simp: find_None_iff find_Some_iff nth_mem)
  then have "\<not> P (xs[i := v] ! j)" if "j < i" for j using that by simp
  then show ?thesis using assms(1,2) by (auto simp: find_Some_iff intro!: exI[of _ i])
qed

lemma entries_for_snoc: "entries_for k (hist @ [x]) = entries_for k hist @ (case arrival x of None \<Rightarrow> [] | Some (k', e) \<Rightarrow> if k' = k then [e] else [])"
  by (simp add: entries_for_def)

lemma entries_for_more: "subseq es (entries_for k hist) \<Longrightarrow> subseq es (entries_for k (hist @ [x]))"
  unfolding entries_for_snoc by (rule subseq_order.order_trans) (auto intro: prefix_imp_subseq)

lemma ObserveRData_ok:
  assumes t: "rdata_ok hist t"
  shows "case arrival (ts, ip, apex, q, w) of
      None \<Rightarrow> ObserveRData t ts ip apex q w = Ret ((False, zero_obs), t)
    | Some (k, e) \<Rightarrow> \<exists>t'. ObserveRData t ts ip apex q w = Ret (report (window_after (held k t) e), t')
        \<and> held k t' = window_after (held k t) e \<and> rdata_ok (hist @ [(ts, ip, apex, q, w)]) t'"
proof (cases "arrival (ts, ip, apex, q, w)")
  case None
  obtain r where "extraireEmpreinteRRsetAnswer w = Ret r" using extraire_total[of w] by (auto simp: yields_def)
  then show ?thesis using None by (cases r) (auto simp: arrival_def ObserveRData_def split: if_splits)
next
  case (Some ke)
  let ?x = "(ts, ip, apex, q, w)"
  obtain k e n where ke: "ke = (k, e, ts, n)" and a: "qtypeAdmissibleRenouvellementRData q" "extraireEmpreinteRRsetAnswer w = Ret (Some (e, n))" "calculerCleRenouvellementRData ip apex q = k"
    using Some by (auto simp: arrival_def split: if_splits outcome.splits option.splits)
  let ?row = "t (rowRD k)"
  have len: "length ?row = 4" and lanes: "\<forall>v \<in> set ?row. lane_wf v \<and> subseq (entries v) (entries_for (cleCouple v) hist)" using t by (simp_all add: rdata_ok_def)
  obtain trouve i where l: "lane_search ?row k ts [0..<4] None 0 0 False = (trouve, i)" by force
  have i: "i < 4" and f: "find (\<lambda>i. cleCouple (?row ! i) = k) [0..<4] = (if trouve then Some i else None)" using lane_search_ok[OF l, of 4] by auto
  define u where "u = (if trouve then purgerEntreesExpireesRData ts (?row ! i) else fresh_lane k)"
  define v where "v = ring_write e ts n u"
  have fr: "find (\<lambda>v. cleCouple v = k) ?row = (if trouve then Some (?row ! i) else None)" using find_upto[OF len, of "\<lambda>v. cleCouple v = k"] f by simp
  have found: "lane_wf (?row ! i)" "subseq (entries (?row ! i)) (entries_for k hist)" "cleCouple (?row ! i) = k" if trouve
  proof -
    show c: "cleCouple (?row ! i) = k" using fr that by (auto simp: find_Some_iff)
    show "lane_wf (?row ! i)" "subseq (entries (?row ! i)) (entries_for k hist)" using bspec[OF lanes nth_mem[of i ?row]] i len c by auto
  qed
  have u: "lane_wf u" "entries u = filter (unexpired ts) (held k t)" "cleCouple u = k" "subseq (held k t) (entries_for k hist)"
    using found purge_ok fr by (auto simp: u_def held_def)
  have v: "lane_wf v" "entries v = window_after (held k t) (e, ts, n)" "cleCouple v = k"
    using write_ok[OF u(1), of e ts n] u(2,3) by (simp_all add: v_def window_after_def)
  have r: "ObserveRData t ts ip apex q w = Ret (report (window_after (held k t) (e, ts, n)), t(rowRD k := ?row[i := v]))"
    using a l judge_lane_ok[OF v(1)] v(2) by (simp add: ObserveRData_def v_def u_def Let_def)
  have "find (\<lambda>v. cleCouple v = k) (?row[i := v]) = Some v" using v(3) i len f fr by (intro find_update) (auto split: if_splits)
  then have h: "held k (t(rowRD k := ?row[i := v])) = window_after (held k t) (e, ts, n)" using v(2) by (simp add: held_def)
  have "subseq (entries v) (entries_for k (hist @ [?x]))"
  proof -
    have "subseq (filter (unexpired ts) (held k t)) (entries_for k hist)" using u(4) subseq_filter_left subseq_order.order_trans by blast
    then have "subseq (filter (unexpired ts) (held k t) @ [(e, ts, n)]) (entries_for k (hist @ [?x]))" using Some ke by (simp add: entries_for_snoc)
    moreover have "subseq (last_of 16 xs) xs" for xs :: "entry list" unfolding last_of_def by (intro suffix_imp_subseq suffix_drop)
    ultimately show ?thesis using v(2) subseq_order.order_trans by (simp add: window_after_def) blast
  qed
  then have "rdata_ok (hist @ [?x]) (t(rowRD k := ?row[i := v]))"
    using t v(1,3) entries_for_more unfolding rdata_ok_def by (auto dest!: subsetD[OF set_update_subset_insert])
  then show ?thesis using r h Some ke by simp
qed

lemma empty_rdata_ok: "rdata_ok [] empty_rdata"
  by (simp add: rdata_ok_def empty_rdata_def)

lemma rdata_ok_more: "rdata_ok hist t \<Longrightarrow> rdata_ok (hist @ [x]) t"
  using entries_for_more unfolding rdata_ok_def by blast

interpretation rdata: traced observe_rdata "\<lambda>_. True" rdata_ok
proof
  show "\<exists>r t'. observe_rdata t x = Ret (r, t') \<and> rdata_ok (hist @ [x]) t'" if "rdata_ok hist t" for hist x t
  proof -
    obtain ts ip apex q w where x: "x = (ts, ip, apex, q, w)" by (cases x)
    show ?thesis using ObserveRData_ok[OF that, of ts ip apex q w] rdata_ok_more[OF that, of x]
      by (cases "arrival x") (auto simp: x observe_rdata_def intro: prod.exhaust)
  qed
qed simp

lemma held_history: "rdata_ok hist t \<Longrightarrow> subseq (held k t) (entries_for k hist)"
proof -
  assume t: "rdata_ok hist t"
  show ?thesis
  proof (cases "find (\<lambda>v. cleCouple v = k) (t (rowRD k))")
    case (Some v)
    then have "v \<in> set (t (rowRD k))" "cleCouple v = k" by (auto simp: find_Some_iff)
    then show ?thesis using t Some by (auto simp: rdata_ok_def held_def)
  qed (simp add: held_def)
qed

text \<open>
  C30.  The tracker refines a list of entries per key.  On every sequence of observations it never
  panics, and what it holds for a key is a part, in order, of the answers observed for this key.  A
  usable answer is appended to what has not expired, of which the last sixteen are kept; the report is
  that of this window, and it fires exactly when the window, or its last eight entries, has at least
  eight responses, three quarters of them different, of 128 octets on average.  Anything else changes
  nothing.\<close>

theorem rdata_window_refines:
  "\<exists>t. run_steps observe_rdata empty_rdata hist = Ret t \<and> subseq (held k t) (entries_for k hist)
    \<and> (case arrival (ts, ip, apex, q, w) of
         None \<Rightarrow> ObserveRData t ts ip apex q w = Ret ((False, zero_obs), t)
       | Some (k, e) \<Rightarrow> let ws = window_after (held k t) e in
           \<exists>t' obs. ObserveRData t ts ip apex q w = Ret ((renews ws \<or> 8 < length ws \<and> renews (last_of 8 ws), obs), t')
             \<and> held k t' = ws \<and> obs = snd (report ws))"
proof -
  obtain t where t: "run_steps observe_rdata empty_rdata hist = Ret t" "rdata_ok hist t" using rdata.run_inv[OF TrueI empty_rdata_ok] by blast
  have "report ws = (renews ws \<or> 8 < length ws \<and> renews (last_of 8 ws), snd (report ws))" for ws by (simp add: report_def)
  then show ?thesis using t held_history[OF t(2)] ObserveRData_ok[OF t(2), of ts ip apex q w]
    by (auto simp: Let_def split: option.splits)
qed

end
