(* ===== verification/Syncer.thy ===== *)
theory Syncer
  imports Pipeline
begin

text \<open>
  The synchroniser of \<open>syncer.go\<close>: one pass reads every source, keeps the entries already learned when
  a source fails, compiles a new table and installs it.  What the outside gives (connections, files,
  their lines, clocks, cancellation, digests) is an argument.
\<close>

section \<open>Sources and receipts\<close>

record ReputationSource =
  srcName :: bytes
  srcURI :: bytes
  srcClassification :: byte
  srcMatchKind :: byte

text \<open>
  What reading the body of a source gives: its lines, whether the scanner ended with an error, whether
  the limit of 16 MiB was exhausted, whether the context was cancelled meanwhile, whether closing
  failed, and the digest of the octets read.
\<close>

record reading =
  rLines :: "bytes list"
  rScanFailed :: bool
  rExhausted :: bool
  rCancelled :: bool
  rCloseFailed :: bool
  rDigest :: bytes

datatype source_answer = OpenFailed | HttpStatus nat | Body reading

datatype fetch_error = ErrOpen | ErrStatus nat | ErrParse rep_error | ErrTooLarge | ErrContext | ErrClose

record SourceProvenance =
  pName :: bytes
  pURI :: bytes
  pFetchedAt :: int
  pSHA256 :: bytes
  pEntries :: nat
  pError :: "fetch_error list"

text \<open>A joined error is the list of its parts; no error is the empty list.\<close>

definition fetchSource :: "unicode \<Rightarrow> int \<Rightarrow> source_answer \<Rightarrow> ReputationSource \<Rightarrow> (BuildEntry list \<times> SourceProvenance \<times> fetch_error list) outcome" where
  "fetchSource U now op src =
     (let receipt = \<lparr>pName = srcName src, pURI = srcURI src, pFetchedAt = now, pSHA256 = [], pEntries = 0, pError = []\<rparr>;
          failed = (\<lambda>err. Ret ([], receipt\<lparr>pError := err\<rparr>, err)) in
      case op of
        OpenFailed \<Rightarrow> failed [ErrOpen]
      | HttpStatus c \<Rightarrow> failed [ErrStatus c]
      | Body r \<Rightarrow> obind (ParseDomainList U (rLines r) (rScanFailed r) (srcClassification src) (srcMatchKind src)) (\<lambda>(perr, entries).
          let err = (case perr of Some e \<Rightarrow> [ErrParse e] | None \<Rightarrow> if rExhausted r then [ErrTooLarge] else if rCancelled r then [ErrContext] else []);
              closing = (if rCloseFailed r then [ErrClose] else []) in
          if err \<noteq> [] then failed (err @ closing)
          else Ret (entries, receipt\<lparr>pSHA256 := rDigest r, pEntries := length entries, pError := closing\<rparr>, closing)))"

section \<open>One pass\<close>

datatype sync_error = ErrNoSource | ErrCancelled | ErrSource bytes bytes "fetch_error list" | ErrNoEntry | ErrCompile rep_error

datatype callback = OnSyncSuccess nat | OnSyncError "sync_error list"

record ReputationSyncer =
  cfgSources :: "ReputationSource list"
  SyncInterval :: int
  HTTPTimeout :: int
  sync_rep :: "AtomicReputation option"
  provenance :: "SourceProvenance list"

definition NewReputationSyncer :: "ReputationSource list \<Rightarrow> int \<Rightarrow> int \<Rightarrow> AtomicReputation option \<Rightarrow> ReputationSyncer" where
  "NewReputationSyncer sources interval timeout r =
     \<lparr>cfgSources = sources, SyncInterval = (if interval \<le> 0 then 24 * 3600000000000 else interval),
      HTTPTimeout = (if timeout \<le> 0 then 15 * 1000000000 else timeout), sync_rep = r, provenance = []\<rparr>"

record pass =
  allEntries :: "BuildEntry list"
  lastErr :: "sync_error list"
  receipts :: "SourceProvenance list"
  calls :: "callback list"

text \<open>The loop over the sources: \<open>io\<close> and \<open>clock\<close> give what each fetch meets.\<close>

fun fetch_all :: "unicode \<Rightarrow> (nat \<Rightarrow> int) \<Rightarrow> (nat \<Rightarrow> source_answer) \<Rightarrow> nat \<Rightarrow> ReputationSource list \<Rightarrow> pass \<Rightarrow> pass outcome" where
  "fetch_all U clock io i [] p = Ret p"
| "fetch_all U clock io i (src # srcs) p = obind (fetchSource U (clock i) (io i) src) (\<lambda>(entries, receipt, err).
     let p = p\<lparr>receipts := receipts p @ [receipt]\<rparr> in
     if err \<noteq> [] then let errs = lastErr p @ [ErrSource (srcName src) (srcURI src) err] in
       fetch_all U clock io (i + 1) srcs (p\<lparr>lastErr := errs, calls := calls p @ [OnSyncError errs]\<rparr>)
     else fetch_all U clock io (i + 1) srcs (p\<lparr>allEntries := allEntries p @ entries\<rparr>))"

type_synonym entryKey = "bytes \<times> byte \<times> byte"

definition entry_key :: "unicode \<Rightarrow> BuildEntry \<Rightarrow> entryKey" where
  "entry_key U e = (cleanDomain U (Domain e), Classification e, MatchKind e)"

fun merge_active :: "unicode \<Rightarrow> BuildEntry list \<Rightarrow> entryKey list \<Rightarrow> BuildEntry list \<Rightarrow> BuildEntry list" where
  "merge_active U [] seen all = all"
| "merge_active U (e # es) seen all =
     (let k = entry_key U e in if k \<in> set seen then merge_active U es seen all else merge_active U es (k # seen) (all @ [e]))"

definition keep_active :: "unicode \<Rightarrow> AtomicReputation \<Rightarrow> pass \<Rightarrow> BuildEntry list outcome" where
  "keep_active U ar p = (if lastErr p = [] then Ret (allEntries p)
     else case rep_Load ar of
       None \<Rightarrow> Ret (allEntries p)
     | Some active \<Rightarrow> obind (Entries active) (\<lambda>es. Ret (merge_active U es (map (entry_key U) (allEntries p)) (allEntries p))))"

definition SyncOnce :: "unicode \<Rightarrow> (nat \<Rightarrow> int) \<Rightarrow> (nat \<Rightarrow> source_answer) \<Rightarrow> bool \<Rightarrow> bool \<Rightarrow> ReputationSyncer
    \<Rightarrow> (ReputationSyncer \<times> nat \<times> sync_error list \<times> callback list) outcome" where
  "SyncOnce U clock io cancelledBefore cancelledAfter s =
     (if cancelledBefore then Ret (s, 0, [ErrCancelled], [])
      else case (sync_rep s, cfgSources s) of
        (Some ar, src # srcs) \<Rightarrow>
          obind (fetch_all U clock io 0 (src # srcs) \<lparr>allEntries = DefaultBuildEntries, lastErr = [], receipts = [], calls = []\<rparr>) (\<lambda>p.
          let s = s\<lparr>provenance := receipts p\<rparr> in
          if cancelledAfter then Ret (s, 0, [ErrCancelled], calls p)
          else obind (keep_active U ar p) (\<lambda>entries.
            if entries = [] then Ret (s, 0, [ErrNoEntry], calls p)
            else obind (ReloadFromEntries U ar entries) (\<lambda>(ar', err). case err of
              Some e \<Rightarrow> Ret (s, 0, [ErrCompile e], calls p)
            | None \<Rightarrow> (case rep_Load ar' of
                None \<Rightarrow> Panic
              | Some t \<Rightarrow> Ret (s\<lparr>sync_rep := Some ar'\<rparr>, numEntries t, lastErr p,
                  calls p @ (if lastErr p = [] then [OnSyncSuccess (numEntries t)] else []))))))
      | _ \<Rightarrow> Ret (s, 0, [ErrNoSource], [OnSyncError [ErrNoSource]]))"


section \<open>What a pass collects\<close>

definition readable :: "source_answer \<Rightarrow> bool" where
  "readable op \<longleftrightarrow> (case op of Body r \<Rightarrow> list_all is_ascii (rLines r) | _ \<Rightarrow> True)"

lemma fetchSource_ok:
  assumes "readable op"
  shows "\<exists>es rc err. fetchSource U now op src = Ret (es, rc, err) \<and> (err = [] \<longrightarrow> list_all build_ok es)"
proof (cases op)
  case (Body r)
  then obtain perr es where "ParseDomainList U (rLines r) (rScanFailed r) (srcClassification src) (srcMatchKind src) = Ret (perr, es)" "list_all build_ok es"
    using domain_list_build_ok[of "rLines r" U "rScanFailed r" "srcClassification src" "srcMatchKind src"] assms by (auto simp: readable_def)
  then show ?thesis using Body by (simp add: fetchSource_def Let_def split: option.splits)
qed (simp_all add: fetchSource_def Let_def)

text \<open>The entries of the sources that could be read, from index \<open>i\<close>, and whether one could not.\<close>

definition fetched :: "unicode \<Rightarrow> (nat \<Rightarrow> int) \<Rightarrow> (nat \<Rightarrow> source_answer) \<Rightarrow> nat \<Rightarrow> ReputationSource list \<Rightarrow> BuildEntry set" where
  "fetched U clock io i srcs = {e. \<exists>j < length srcs. \<exists>es rc. fetchSource U (clock (i + j)) (io (i + j)) (srcs ! j) = Ret (es, rc, []) \<and> e \<in> set es}"

definition some_failed :: "unicode \<Rightarrow> (nat \<Rightarrow> int) \<Rightarrow> (nat \<Rightarrow> source_answer) \<Rightarrow> nat \<Rightarrow> ReputationSource list \<Rightarrow> bool" where
  "some_failed U clock io i srcs \<longleftrightarrow> (\<exists>j < length srcs. \<exists>es rc err. fetchSource U (clock (i + j)) (io (i + j)) (srcs ! j) = Ret (es, rc, err) \<and> err \<noteq> [])"

lemma fetched_Cons:
  "fetchSource U (clock i) (io i) src = Ret (es, rc, err) \<Longrightarrow> fetched U clock io i (src # srcs) = (if err = [] then set es else {}) \<union> fetched U clock io (i + 1) srcs"
  "fetchSource U (clock i) (io i) src = Ret (es, rc, err) \<Longrightarrow> some_failed U clock io i (src # srcs) \<longleftrightarrow> err \<noteq> [] \<or> some_failed U clock io (i + 1) srcs"
  by (auto simp: fetched_def some_failed_def less_Suc_eq_0_disj ex_disj_distrib conj_disj_distribR)

lemma fetch_all_ok:
  assumes "\<forall>i. readable (io i)" "list_all build_ok (allEntries p)"
  shows "\<exists>p'. fetch_all U clock io i srcs p = Ret p' \<and> list_all build_ok (allEntries p') \<and> set (allEntries p') = set (allEntries p) \<union> fetched U clock io i srcs
    \<and> (lastErr p' = [] \<longleftrightarrow> lastErr p = [] \<and> \<not> some_failed U clock io i srcs)"
  using assms(2)
proof (induction srcs arbitrary: i p)
  case Nil
  then show ?case by (simp add: fetched_def some_failed_def)
next
  case (Cons src srcs)
  obtain es rc err where f: "fetchSource U (clock i) (io i) src = Ret (es, rc, err)" "err = [] \<longrightarrow> list_all build_ok es"
    using fetchSource_ok assms(1) by metis
  note fc = fetched_Cons[of U clock i io src es rc err srcs, OF f(1)]
  show ?case
  proof (cases "err = []")
    case True
    then show ?thesis using Cons.IH[of "p\<lparr>receipts := receipts p @ [rc], allEntries := allEntries p @ es\<rparr>" "i + 1"] Cons.prems f fc by (auto simp: Let_def Un_assoc)
  next
    case False
    let ?errs = "lastErr p @ [ErrSource (srcName src) (srcURI src) err]"
    show ?thesis using Cons.IH[of "p\<lparr>receipts := receipts p @ [rc], lastErr := ?errs, calls := calls p @ [OnSyncError ?errs]\<rparr>" "i + 1"] Cons.prems False f fc
      by (auto simp: Let_def)
  qed
qed

lemma entry_key_inj: "build_ok e \<Longrightarrow> build_ok e' \<Longrightarrow> entry_key U e = entry_key U e' \<longleftrightarrow> e = e'"
  by (cases e; cases e') (auto simp: entry_key_def build_ok_def)

lemma merge_active_set:
  assumes "list_all build_ok es" "list_all build_ok all" "set seen = entry_key U ` set all"
  shows "set (merge_active U es seen all) = set all \<union> set es"
  using assms
proof (induction es arbitrary: seen all)
  case (Cons e es)
  have mem: "entry_key U e \<in> set seen \<longleftrightarrow> e \<in> set all" using Cons.prems entry_key_inj[of e] by (auto simp: list_all_iff image_iff)
  then show ?case using Cons.IH[of all seen] Cons.IH[of "all @ [e]" "entry_key U e # seen"] Cons.prems by (auto simp: Let_def)
qed simp

definition learned :: "AtomicReputation \<Rightarrow> BuildEntry set" where
  "learned ar = (case rep_Load ar of None \<Rightarrow> {} | Some t \<Rightarrow> set (table_list t))"

lemma table_list_ok: "table_ok t \<Longrightarrow> list_all build_ok (table_list t)"
  using build_at_ok(1) by (auto simp: table_list_def list_all_iff)

lemma keep_active_ok:
  assumes "case rep_Load ar of None \<Rightarrow> True | Some t \<Rightarrow> table_ok t" "list_all build_ok (allEntries p)"
  shows "\<exists>es. keep_active U ar p = Ret es \<and> list_all build_ok es \<and> set es = set (allEntries p) \<union> (if lastErr p = [] then {} else learned ar)"
proof (cases "lastErr p = [] \<or> rep_Load ar = None")
  case True
  then show ?thesis using assms(2) by (auto simp: keep_active_def learned_def)
next
  case False
  then obtain t where t: "rep_Load ar = Some t" "table_ok t" using assms(1) by auto
  have s: "set (merge_active U (table_list t) (map (entry_key U) (allEntries p)) (allEntries p)) = set (allEntries p) \<union> set (table_list t)"
    using table_list_ok[OF t(2)] assms(2) by (intro merge_active_set) simp_all
  moreover have "list_all build_ok (merge_active U (table_list t) (map (entry_key U) (allEntries p)) (allEntries p))"
    using table_list_ok[OF t(2)] assms(2) s by (simp add: list_all_iff ball_Un)
  ultimately show ?thesis using False t Entries_ok[OF t(2)] by (simp add: keep_active_def learned_def)
qed

lemma clean_build_ok: "build_ok e \<Longrightarrow> Domain (clean_entry U e) = Domain e \<and> Classification (clean_entry U e) = Classification e"
  by (simp add: build_ok_def clean_entry_def Let_def valid_plain)

lemma clean_block: "build_ok e \<Longrightarrow> Classification e = RepClassBlockC2 \<Longrightarrow> clean_entry U e = e"
  by (cases e) (simp add: build_ok_def clean_entry_def Let_def valid_plain)

text \<open>A table that holds the entries \<open>given\<close>, each with one of at least its rank.\<close>

definition holds :: "unicode \<Rightarrow> ReputationTable \<Rightarrow> BuildEntry set \<Rightarrow> bool" where
  "holds U t given \<longleftrightarrow> table_ok t \<and> set (table_list t) \<subseteq> clean_entry U ` given
     \<and> (\<forall>e \<in> given. \<exists>e' \<in> set (table_list t). Domain e' = Domain e \<and> MatchKind e' = MatchKind (clean_entry U e) \<and> reputationRank (Classification e) \<le> reputationRank (Classification e'))
     \<and> (\<forall>e \<in> given. \<forall>f. Classification e = RepClassBlockC2 \<and> validReputationDomain f \<and> covers f e \<longrightarrow>
          (\<exists>d k. Match U (Some t) f = Ret (\<lparr>MatchedDomain = d, mClassification = RepClassBlockC2, mMatchKind = k\<rparr>, True)))"

lemma reload_holds:
  assumes "admissible U es" "list_all build_ok es"
  shows "\<exists>t. ReloadFromEntries U ar es = Ret (rep_Store ar (Some t), None) \<and> holds U t (set es)"
proof -
  obtain t where t: "ReloadFromEntries U ar es = Ret (rep_Store ar (Some t), None)" "table_ok t" "set (table_list t) \<subseteq> clean_entry U ` set es"
    and up: "\<forall>e \<in> set es. \<exists>e' \<in> set (table_list t). Domain e' = Domain (clean_entry U e) \<and> MatchKind e' = MatchKind (clean_entry U e)
          \<and> reputationRank (Classification (clean_entry U e)) \<le> reputationRank (Classification e')"
    using reload_ok[OF assms(1), of ar] by blast
  have ok: "build_ok e" if "e \<in> set es" for e using that assms(2) by (simp add: list_all_iff)
  have "\<exists>d k. Match U (Some t) f = Ret (\<lparr>MatchedDomain = d, mClassification = RepClassBlockC2, mMatchKind = k\<rparr>, True)"
    if "e \<in> set es" "Classification e = RepClassBlockC2" "validReputationDomain f" "covers f e" for e f
    using reload_block[OF t(1) that(1,2), of f] that clean_block[OF ok[OF that(1)] that(2), of U]
    by (simp add: Atomic_Match_def rep_Load_def rep_Store_def)
  then show ?thesis using t up clean_build_ok[OF ok] unfolding holds_def by (intro exI[of _ t]) simp
qed




end
