(* ===== verification/Cascade.thy ===== *)
theory Cascade
  imports Floppy GrayZone DnsGrammar
begin

text \<open>
  The inference cascade of \<open>internal/engine/inference_cascade.go\<close>: the context of a process from its
  provenance, the reflexes and axioms of layer 0, the conformal probe of layer 1a and the disk of
  layer 1b.  The floating-point kernels (features, quantiser, probe statistics, integer head) are the
  fields of a record of functions; the clock is the duration a call reports.
\<close>

abbreviation VerdictPass :: byte where "VerdictPass \<equiv> 1"
abbreviation VerdictBlock :: byte where "VerdictBlock \<equiv> 2"
abbreviation VerdictQuarantine :: byte where "VerdictQuarantine \<equiv> 3"
abbreviation FlagArenaInvalid :: u32 where "FlagArenaInvalid \<equiv> 0x2000"

record CascadeVerdict =
  Stage :: byte
  vAction :: byte
  vFlags :: u32
  vThreatID :: u32
  HammingDist :: int
  ConfidenceQ8 :: u16
  DurationNs :: int
  OntoSubject :: byte
  OntoContext :: byte

record CascadeContext =
  cSubject :: byte
  cContext :: byte

record ProcessProvenance =
  PID :: u32
  UID :: u32
  EUID :: u32
  LoginSession :: bool
  HasTTY :: bool
  SystemdUnit :: bool
  ExeTarget :: bytes
  IsMemfd :: bool
  IsDeleted :: bool
  HasWXAnon :: bool
  Comm :: bytes

definition DeriveCascadeContext :: "ProcessProvenance \<Rightarrow> CascadeContext" where
  "DeriveCascadeContext pv =
     (let subj = (if IsMemfd pv then SubjMemfdAnon
                  else if IsDeleted pv then SubjDeletedBinary
                  else if SystemdUnit pv \<and> \<not> LoginSession pv \<and> UID pv = 0 then SubjRootSystemd
                  else if SystemdUnit pv \<and> \<not> LoginSession pv then SubjServiceUnpriv
                  else if LoginSession pv \<and> HasTTY pv \<and> UID pv = 0 then SubjRootInteractive
                  else if LoginSession pv \<and> HasTTY pv then SubjUserInteractive
                  else SubjUnknown);
          hostile = DeriveOntoContext (ExeTarget pv) (IsMemfd pv) (IsDeleted pv) (HasWXAnon pv) (Comm pv) (PID pv) in
      if hostile \<noteq> CtxDefault then \<lparr>cSubject = subj, cContext = hostile\<rparr>
      else if EUID pv \<noteq> UID pv then \<lparr>cSubject = subj, cContext = CtxDefault\<rparr>
      else \<lparr>cSubject = subj,
        cContext = (if subj = SubjRootSystemd \<or> subj = SubjServiceUnpriv then CtxSystemdUnit
                    else if subj = SubjUserInteractive \<or> subj = SubjRootInteractive then CtxInteractiveTTY
                    else CtxDefault)\<rparr>)"

section \<open>Reflexes\<close>

definition dnsHasEncodingChars :: "bytes \<Rightarrow> bool" where
  "dnsHasEncodingChars qname \<longleftrightarrow> list_ex (\<lambda>c. c = 0x2B \<or> c = 0x2F \<or> c = 0x3D) qname"

definition twoLevelSuffixes :: "string list" where
  "twoLevelSuffixes =
     [''com.br'', ''net.br'', ''org.br'', ''gov.br'',
      ''co.uk'', ''org.uk'', ''ac.uk'', ''gov.uk'', ''me.uk'',
      ''com.au'', ''net.au'', ''org.au'', ''edu.au'',
      ''co.jp'', ''ne.jp'', ''or.jp'', ''ac.jp'',
      ''co.nz'', ''co.za'', ''co.in'', ''co.kr'', ''co.il'', ''co.id'', ''co.th'',
      ''com.cn'', ''net.cn'', ''org.cn'', ''com.hk'', ''com.tw'', ''com.sg'', ''com.my'',
      ''com.mx'', ''com.ar'', ''com.co'', ''com.pe'', ''com.tr'', ''com.ua'', ''com.pl'',
      ''com.eg'', ''com.sa'', ''com.ng'', ''com.pk'', ''com.vn'', ''com.ph'']"

definition equalFoldASCII :: "bytes \<Rightarrow> bytes \<Rightarrow> bool" where
  "equalFoldASCII b s \<longleftrightarrow> list_all (\<lambda>i. lower (b ! i) = s ! i) [0..<length b]"

text \<open>The loop over a name: the position, the number of labels, the last dot and the one before.\<close>

fun apex_loop :: "bytes \<Rightarrow> int \<Rightarrow> nat \<Rightarrow> int \<Rightarrow> int \<Rightarrow> (nat \<times> int \<times> int) option" where
  "apex_loop [] i labels lastDot prevDot = Some (labels, lastDot, prevDot)"
| "apex_loop (c # cs) i labels lastDot prevDot =
     (if c = 0x2E then (if i = 0 \<or> i = lastDot + 1 then None else apex_loop cs (i + 1) (labels + 1) i lastDot)
      else if 0x61 \<le> c \<and> c \<le> 0x7A \<or> 0x41 \<le> c \<and> c \<le> 0x5A \<or> 0x30 \<le> c \<and> c \<le> 0x39 \<or> c = 0x2D
        then apex_loop cs (i + 1) labels lastDot prevDot
      else None)"

definition isApexDomain :: "bytes \<Rightarrow> bool" where
  "isApexDomain name =
     (let name = (if name \<noteq> [] \<and> last name = 0x2E then butlast name else name) in
      if name = [] then False
      else case apex_loop name 0 1 (- 1) (- 1) of
        None \<Rightarrow> False
      | Some (labels, lastDot, prevDot) \<Rightarrow>
          if lastDot = int (length name) - 1 then False
          else if labels = 2 then True
          else if labels = 3 then (let suf = drop (nat (prevDot + 1)) name in
            list_ex (\<lambda>s. length suf = length s \<and> equalFoldASCII suf (ascii s)) twoLevelSuffixes)
          else False)"

definition isNetcatBinary :: "bytes \<Rightarrow> bool" where
  "isNetcatBinary tok = (let tok = rev (takeWhile (\<lambda>c. c \<noteq> 0x2F) (rev tok)); s = takeWhile (\<lambda>c. c \<noteq> 0x2E) tok in
     s = ascii ''nc'' \<or> s = ascii ''ncat'' \<or> s = ascii ''netcat'')"

definition isNetcatExecOption :: "bytes \<Rightarrow> bool" where
  "isNetcatExecOption tok =
     (if length tok < 2 \<or> tok ! 0 \<noteq> 0x2D then False
      else if tok ! 1 = 0x2D then (let s = takeWhile (\<lambda>c. c \<noteq> 0x3D) (drop 2 tok) in s = ascii ''exec'' \<or> s = ascii ''sh-exec'')
      else if tok ! 1 = 0x65 \<or> tok ! 1 = 0x63 then length tok = 2 \<or> tok ! 2 = 0x2F
      else if list_ex (\<lambda>c. \<not> (0x61 \<le> c \<and> c \<le> 0x7A \<or> 0x41 \<le> c \<and> c \<le> 0x5A)) (drop 1 tok) then False
      else last tok = 0x65)"

definition command_end :: "byte \<Rightarrow> bool" where
  "command_end c \<longleftrightarrow> c \<in> {0x7C, 0x3B, 0x26, 0x0A, 0x28, 0x29, 0x60}"

definition word_blank :: "byte \<Rightarrow> bool" where
  "word_blank c \<longleftrightarrow> c \<in> {0x20, 0x09, 0x0D, 0x22, 0x27}"

function netcat_loop :: "bool \<Rightarrow> bytes \<Rightarrow> bool" where
  "netcat_loop inNetcat [] = False"
| "netcat_loop inNetcat (c # cs) =
     (if command_end c then netcat_loop False cs
      else if word_blank c then netcat_loop inNetcat cs
      else let tok = c # takeWhile (\<lambda>d. \<not> command_end d \<and> \<not> word_blank d) cs;
               rest = dropWhile (\<lambda>d. \<not> command_end d \<and> \<not> word_blank d) cs in
        if inNetcat \<and> isNetcatExecOption tok then True
        else netcat_loop (inNetcat \<or> isNetcatBinary tok) rest)"
  by pat_completeness auto

termination
  by (relation "measure (\<lambda>(b, cs). length cs)") (auto simp: le_imp_less_Suc length_dropWhile_le)

definition netcatWithExec :: "bytes \<Rightarrow> bool" where
  "netcatWithExec cmd = netcat_loop False cmd"

definition deriveCascadeOntoKey :: "probe_event_t \<Rightarrow> CascadeContext \<Rightarrow> OntoKey" where
  "deriveCascadeOntoKey ev cctx =
     (let act = (if Action ev = 1 then ActExecve else if Action ev = 2 then ActWriteFile else if Action ev = 3 then ActConnectNet
                 else if Action ev = 7 then ActMprotectWX else ActUnknown);
          tgt = (if Subsystem ev = 1 then TgtBinSystem else if Subsystem ev = 2 then TgtTmpExec else if Subsystem ev = 3 then TgtNetExternal
                 else if Subsystem ev = 4 then TgtPipeInterpreter else TgtUnknown) in
      PackOntoKey (cSubject cctx) act tgt (cContext cctx))"

definition applyNonSoftening :: "byte \<Rightarrow> byte \<Rightarrow> byte" where
  "applyNonSoftening priorAction newAction =
     (if priorAction = VerdictBlock then VerdictBlock
      else if priorAction = VerdictQuarantine \<and> newAction = VerdictPass then VerdictQuarantine
      else newAction)"

section \<open>The engine\<close>

datatype ProbeVerdict = ProbeConfirm | ProbeContradiction | ProbeAnomaly

text \<open>
  \<open>Extract\<close> is \<open>ExtractResolvedTo\<close>, \<open>Quantize512\<close> is \<open>QuantizeFHT512\<close>, \<open>Probing\<close> is the verdict of
  \<open>Probe(_, 0, 1)\<close> when it gives no error and \<open>Predict\<close> the class and conformity of \<open>PredictINT8\<close>.
\<close>

record 'c numerics =
  Extract :: "probe_event_t \<Rightarrow> bytes \<Rightarrow> u32 list option"
  Quantize512 :: "u32 list \<Rightarrow> u64 list"
  Probing :: "'c RabitqProbe \<Rightarrow> u32 list \<Rightarrow> ProbeVerdict option"
  Predict :: "'c FloppyDisk option \<Rightarrow> u32 list \<Rightarrow> int \<times> bool"

record 'c CascadeEngine =
  ce_arena :: ArenaPool
  ce_codebook :: "Codebook option"
  ce_grayzone :: "GrayZoneDecider option"
  floppies :: "'c FloppySlot list"
  ce_probe :: "'c RabitqProbe option"

definition NewCascadeEngine :: "Codebook option \<Rightarrow> GrayZoneDecider option \<Rightarrow> ArenaPool \<Rightarrow> 'c CascadeEngine" where
  "NewCascadeEngine cb gz arena = \<lparr>ce_arena = arena, ce_codebook = cb, ce_grayzone = gz, floppies = replicate 4 NewFloppySlot,
     ce_probe = (case NewRabitqProbe 4 of Inl _ \<Rightarrow> None | Inr p \<Rightarrow> Some p)\<rparr>"

definition MountFloppy :: "u16 \<Rightarrow> 'c FloppyDisk option \<Rightarrow> 'c CascadeEngine \<Rightarrow> 'c CascadeEngine" where
  "MountFloppy family disk ce = (if 1 \<le> family \<and> unat family < length (floppies ce)
     then (case Slot_Swap (Some (floppies ce ! unat family)) disk of
       (Some s, _) \<Rightarrow> ce\<lparr>floppies := (floppies ce)[unat family := s]\<rparr>
     | (None, _) \<Rightarrow> ce)
     else ce)"

definition GetFloppy :: "u16 \<Rightarrow> 'c CascadeEngine \<Rightarrow> 'c FloppyDisk option" where
  "GetFloppy family ce = (if 1 \<le> family \<and> unat family < length (floppies ce) then Slot_Current (Some (floppies ce ! unat family)) else None)"

definition Cascade_AddPrototype :: "(u32 list \<Rightarrow> 'c) \<Rightarrow> int \<Rightarrow> u32 list \<Rightarrow> 'c CascadeEngine \<Rightarrow> probe_error + 'c CascadeEngine" where
  "Cascade_AddPrototype quantize cl features ce = (case ce_probe ce of
     None \<Rightarrow> Inr ce
   | Some p \<Rightarrow> (case AddPrototype quantize (Some p) cl features of
       Inl e \<Rightarrow> Inl e
     | Inr p' \<Rightarrow> Inr (ce\<lparr>ce_probe := Some p'\<rparr>)))"

definition diskFor :: "'c CascadeEngine \<Rightarrow> u16 \<Rightarrow> 'c FloppyDisk option" where
  "diskFor ce sub = (if sub = 1 then Slot_Current (Some (floppies ce ! 1))
     else if sub = 3 then Slot_Current (Some (floppies ce ! 2))
     else if sub = 4 then Slot_Current (Some (floppies ce ! 3))
     else None)"

definition disk_probe :: "'c FloppyDisk option \<Rightarrow> 'c RabitqProbe option" where
  "disk_probe d = (case d of None \<Rightarrow> None | Some d \<Rightarrow> dProbe d)"

text \<open>The probe of the mounted disk, else the fallback when it has prototypes of both classes.\<close>

definition cascade_probe :: "'c CascadeEngine \<Rightarrow> 'c FloppyDisk option \<Rightarrow> 'c RabitqProbe option" where
  "cascade_probe ce disk = (case disk_probe disk of
     Some p \<Rightarrow> Some p
   | None \<Rightarrow> if ce_probe ce \<noteq> None \<and> 0 < PrototypeCount (ce_probe ce) 0 \<and> 0 < PrototypeCount (ce_probe ce) 1 then ce_probe ce else None)"


section \<open>The layers\<close>

text \<open>A layer ends the evaluation with a verdict or hands the current one to the next.\<close>

definition layer0 :: "probe_event_t \<Rightarrow> bytes \<Rightarrow> CascadeContext \<Rightarrow> 'c FloppyDisk option \<Rightarrow> CascadeVerdict \<Rightarrow> CascadeVerdict + CascadeVerdict \<times> byte" where
  "layer0 ev payload cctx disk v =
     (if disk \<noteq> None \<and> snd (MatchKeyword disk payload)
      then Inl (v\<lparr>vAction := VerdictBlock, vFlags := vFlags v OR 0xA, ConfidenceQ8 := 256\<rparr>)
      else if Subsystem ev = 3 \<and> dnsHasEncodingChars payload \<or> Subsystem ev = 1 \<and> netcatWithExec payload
      then Inl (v\<lparr>vAction := VerdictBlock, vFlags := vFlags v OR 2, ConfidenceQ8 := 256\<rparr>)
      else let ontoVerdict = EvaluateOntology (deriveCascadeOntoKey ev cctx) in
        if ontoVerdict = OntoVerdictDeny then Inl (v\<lparr>vAction := VerdictBlock, vFlags := vFlags v OR 2, ConfidenceQ8 := 256\<rparr>)
        else if ontoVerdict = OntoVerdictAllow \<and> length payload < 32 then Inl (v\<lparr>vAction := VerdictPass\<rparr>)
        else Inr (v, ontoVerdict))"

definition layer1a :: "'c numerics \<Rightarrow> 'c CascadeEngine \<Rightarrow> probe_event_t \<Rightarrow> bytes \<Rightarrow> 'c FloppyDisk option \<Rightarrow> byte \<Rightarrow> CascadeVerdict
    \<Rightarrow> CascadeVerdict + CascadeVerdict \<times> u32 list \<times> u64 list" where
  "layer1a num ce ev payload disk ontoVerdict v0 =
     (let v = v0\<lparr>Stage := 1\<rparr> in
      case Extract num ev payload of
        None \<Rightarrow> Inl (v\<lparr>vAction := VerdictQuarantine, vFlags := vFlags v OR 4\<rparr>)
      | Some features \<Rightarrow>
          let bitcode = Quantize512 num features in
          case cascade_probe ce disk of
            None \<Rightarrow> Inr (v, features, bitcode)
          | Some p \<Rightarrow> (case Probing num p features of
              None \<Rightarrow> Inr (v, features, bitcode)
            | Some verdict \<Rightarrow>
                let nearRadius = (if ontoVerdict \<noteq> OntoVerdictAllow then max (BlockRadius disk) 24 else BlockRadius disk) in
                if verdict = ProbeConfirm \<and> \<not> nearThreatWithin disk (Some bitcode) nearRadius
                then Inl (v\<lparr>vAction := applyNonSoftening (vAction v) VerdictPass\<rparr>)
                else if verdict = ProbeAnomaly then Inr (v\<lparr>vFlags := vFlags v OR 4\<rparr>, features, bitcode)
                else Inr (v, features, bitcode)))"

text \<open>The nearest centroid: a veto, a suspicion or nothing.\<close>

definition centroid_verdict :: "'c numerics \<Rightarrow> probe_event_t \<Rightarrow> bytes \<Rightarrow> 'c FloppyDisk option \<Rightarrow> byte \<Rightarrow> u32 list \<Rightarrow> u64 list \<Rightarrow> CascadeVerdict
    \<Rightarrow> CascadeVerdict + CascadeVerdict" where
  "centroid_verdict num ev payload disk ontoVerdict features bitcode v0 =
     (case SearchCentroid disk (Some bitcode) 128 of (m, dist, found) \<Rightarrow>
      if \<not> found then Inr v0
      else let v = v0\<lparr>HammingDist := dist, vThreatID := ThreatID m\<rparr>;
               apexCertified = (if dist \<le> max (BlockRadius disk) 24 \<and> Subsystem ev = 3 \<and> isApexDomain payload
                 then (case Predict num disk features of (predClass, conforms) \<Rightarrow> predClass = 0 \<and> conforms) else False) in
        if dist \<le> BlockRadius disk \<and> \<not> apexCertified
        then Inl (v\<lparr>vAction := applyNonSoftening (vAction v) VerdictBlock, vFlags := vFlags v OR 2, ConfidenceQ8 := word_of_int ((128 - dist) * 2)\<rparr>)
        else if BlockRadius disk < dist \<and> dist \<le> 24 \<and> \<not> apexCertified \<and> ontoVerdict \<noteq> OntoVerdictAllow
        then Inr (v\<lparr>vAction := applyNonSoftening (vAction v) VerdictQuarantine, vFlags := vFlags v OR 4, ConfidenceQ8 := 160\<rparr>)
        else Inr v)"

definition layer1b :: "'c numerics \<Rightarrow> probe_event_t \<Rightarrow> bytes \<Rightarrow> 'c FloppyDisk option \<Rightarrow> byte \<Rightarrow> u32 list \<Rightarrow> u64 list \<Rightarrow> CascadeVerdict \<Rightarrow> CascadeVerdict" where
  "layer1b num ev payload disk ontoVerdict features bitcode v0 =
     (let v = v0\<lparr>Stage := 2\<rparr> in
      if disk = None then v\<lparr>vAction := applyNonSoftening (vAction v) VerdictPass\<rparr>
      else case centroid_verdict num ev payload disk ontoVerdict features bitcode v of
        Inl v \<Rightarrow> v
      | Inr v \<Rightarrow> (case Predict num disk features of (predClass, conforms) \<Rightarrow>
          if predClass = 1 \<and> conforms then v\<lparr>vAction := applyNonSoftening (vAction v) VerdictBlock, vFlags := vFlags v OR 2, ConfidenceQ8 := 220\<rparr>
          else if predClass = 1 \<and> \<not> conforms then v\<lparr>vAction := applyNonSoftening (vAction v) VerdictQuarantine, vFlags := vFlags v OR 4, ConfidenceQ8 := 128\<rparr>
          else v\<lparr>vAction := applyNonSoftening (vAction v) VerdictPass\<rparr>))"

definition evaluateResolved :: "'c numerics \<Rightarrow> 'c CascadeEngine \<Rightarrow> probe_event_t \<Rightarrow> bytes \<Rightarrow> CascadeContext \<Rightarrow> 'c FloppyDisk option \<Rightarrow> int \<Rightarrow> CascadeVerdict" where
  "evaluateResolved num ce ev payload cctx disk elapsed =
     (let v = \<lparr>Stage = 0, vAction = VerdictPass, vFlags = Flags ev, vThreatID = 0, HammingDist = 0, ConfidenceQ8 = 0,
               DurationNs = 0, OntoSubject = cSubject cctx, OntoContext = cContext cctx\<rparr> in
      (case layer0 ev payload cctx disk v of
         Inl v \<Rightarrow> v
       | Inr (v, ontoVerdict) \<Rightarrow> (case layer1a num ce ev payload disk ontoVerdict v of
           Inl v \<Rightarrow> v
         | Inr (v, features, bitcode) \<Rightarrow> layer1b num ev payload disk ontoVerdict features bitcode v))
      \<lparr>DurationNs := elapsed\<rparr>)"

definition EvaluateEventCtx :: "'c numerics \<Rightarrow> 'c CascadeEngine \<Rightarrow> probe_event_t option \<Rightarrow> CascadeContext \<Rightarrow> int \<Rightarrow> CascadeVerdict" where
  "EvaluateEventCtx num ce ev cctx elapsed = (case ev of
     None \<Rightarrow> \<lparr>Stage = 0, vAction = VerdictPass, vFlags = 0, vThreatID = 0, HammingDist = 0, ConfidenceQ8 = 0, DurationNs = 0, OntoSubject = 0, OntoContext = 0\<rparr>
   | Some e \<Rightarrow>
     let disk = diskFor ce (Subsystem e) in
     if Flags e AND FlagLongPayload = 0
     then evaluateResolved num ce e (take (inlinePayloadUsed (Payload e)) (Payload e)) cctx disk elapsed
     else case ResolvePayload (ce_arena ce) (Some e) True of
       Inl err \<Rightarrow>
         let v = \<lparr>Stage = 0, vAction = VerdictQuarantine, vFlags = Flags e OR 4 OR FlagArenaInvalid, vThreatID = 0, HammingDist = 0, ConfidenceQ8 = 0,
                  DurationNs = elapsed, OntoSubject = cSubject cctx, OntoContext = cContext cctx\<rparr> in
         if snd (MatchKeyword disk (take 80 (Payload e)))
         then v\<lparr>vAction := VerdictBlock, vFlags := vFlags v OR 0xA, ConfidenceQ8 := 256\<rparr> else v
     | Inr payload \<Rightarrow> evaluateResolved num ce e payload cctx disk elapsed)"

definition EvaluateEvent :: "'c numerics \<Rightarrow> 'c CascadeEngine \<Rightarrow> probe_event_t option \<Rightarrow> int \<Rightarrow> CascadeVerdict" where
  "EvaluateEvent num ce ev elapsed = EvaluateEventCtx num ce ev \<lparr>cSubject = 0, cContext = 0\<rparr> elapsed"


section \<open>The decision table\<close>

text \<open>Some centroid of the disk is within a distance of the code.\<close>

definition near :: "'c FloppyDisk option \<Rightarrow> u64 list \<Rightarrow> int \<Rightarrow> bool" where
  "near disk q r \<longleftrightarrow> (case disk of None \<Rightarrow> False | Some d \<Rightarrow> \<exists>e \<in> set (dEntries d). codebookHamming q e \<le> r)"

lemma BlockRadius_range: "0 \<le> BlockRadius disk" "BlockRadius disk < 256"
proof -
  have u: "uint x < 256" for x :: byte using unsigned_less[of x] by simp
  show "0 \<le> BlockRadius disk" "BlockRadius disk < 256" using u by (auto simp: BlockRadius_def split: option.splits)
qed

lemma small_range: "0 \<le> r \<Longrightarrow> r < 256 \<Longrightarrow> search_range r"
  by (simp add: search_range_def)

lemma nearThreatWithin_near: "0 \<le> r \<Longrightarrow> r < 256 \<Longrightarrow> nearThreatWithin disk (Some q) r \<longleftrightarrow> near disk q r"
proof (cases disk)
  case (Some d)
  assume r: "0 \<le> r" "r < 256"
  obtain e b f where s: "SearchCentroid (Some d) (Some q) r = (e, b, f)" by (metis surj_pair)
  show ?thesis using floppy_index.within_iff[OF small_range[OF r] order.refl s] s Some by (simp add: nearThreatWithin_def near_def)
qed (simp add: nearThreatWithin_def near_def)

lemma SearchCentroid_near:
  assumes "SearchCentroid (Some d) (Some q) 128 = (m, dist, found)"
  shows "found \<and> dist \<le> r \<longleftrightarrow> near (Some d) q (min r 128)"
proof -
  have s: "search_range 128" by (simp add: search_range_def)
  have w: "found \<and> dist \<le> r' \<longleftrightarrow> near (Some d) q r'" if "r' \<le> 128" for r' using floppy_index.within_iff[OF s that assms] by (simp add: near_def)
  show ?thesis
  proof (cases "r \<le> 128")
    case True
    then show ?thesis using w[of r] by simp
  next
    case False
    have "found \<Longrightarrow> dist \<le> 128" using floppy_index.hit[OF s, of d q m dist] assms by simp
    then show ?thesis using w[of 128] False by auto
  qed
qed

definition ontology_of :: "probe_event_t \<Rightarrow> CascadeContext \<Rightarrow> byte" where
  "ontology_of ev cctx = EvaluateOntology (deriveCascadeOntoKey ev cctx)"

text \<open>What layer 0 vetoes: a keyword of the disk, a structural reflex or an axiom.\<close>

definition reflex :: "probe_event_t \<Rightarrow> bytes \<Rightarrow> CascadeContext \<Rightarrow> 'c FloppyDisk option \<Rightarrow> bool" where
  "reflex ev payload cctx disk \<longleftrightarrow> snd (MatchKeyword disk payload) \<or> Subsystem ev = 3 \<and> dnsHasEncodingChars payload
     \<or> Subsystem ev = 1 \<and> netcatWithExec payload \<or> ontology_of ev cctx = OntoVerdictDeny"

definition confirmed :: "'c numerics \<Rightarrow> 'c CascadeEngine \<Rightarrow> 'c FloppyDisk option \<Rightarrow> u32 list \<Rightarrow> bool" where
  "confirmed num ce disk f \<longleftrightarrow> (\<exists>p. cascade_probe ce disk = Some p \<and> Probing num p f = Some ProbeConfirm)"

definition certified_apex :: "'c numerics \<Rightarrow> probe_event_t \<Rightarrow> bytes \<Rightarrow> 'c FloppyDisk option \<Rightarrow> u32 list \<Rightarrow> bool" where
  "certified_apex num ev payload disk f \<longleftrightarrow> Subsystem ev = 3 \<and> isApexDomain payload \<and> Predict num disk f = (0, True)"

text \<open>What the disk decides on a code that the probe does not clear.\<close>

definition disk_action :: "'c numerics \<Rightarrow> probe_event_t \<Rightarrow> bytes \<Rightarrow> 'c FloppyDisk option \<Rightarrow> byte \<Rightarrow> u32 list \<Rightarrow> u64 list \<Rightarrow> byte" where
  "disk_action num ev payload disk ov f q =
     (let veto = near disk q (min (BlockRadius disk) 128); apex = certified_apex num ev payload disk f in
      if disk = None then VerdictPass
      else if veto \<and> \<not> apex \<or> Predict num disk f = (1, True) then VerdictBlock
      else if near disk q 24 \<and> \<not> veto \<and> \<not> apex \<and> ov \<noteq> OntoVerdictAllow \<or> fst (Predict num disk f) = 1 then VerdictQuarantine
      else VerdictPass)"

abbreviation guard_radius :: "'c FloppyDisk option \<Rightarrow> byte \<Rightarrow> int" where
  "guard_radius disk ov \<equiv> (if ov = OntoVerdictAllow then BlockRadius disk else max (BlockRadius disk) 24)"

definition cleared :: "'c numerics \<Rightarrow> 'c CascadeEngine \<Rightarrow> 'c FloppyDisk option \<Rightarrow> byte \<Rightarrow> u32 list \<Rightarrow> bool" where
  "cleared num ce disk ov f \<longleftrightarrow> confirmed num ce disk f \<and> \<not> near disk (Quantize512 num f) (guard_radius disk ov)"

definition expected_action :: "'c numerics \<Rightarrow> 'c CascadeEngine \<Rightarrow> probe_event_t \<Rightarrow> bytes \<Rightarrow> CascadeContext \<Rightarrow> 'c FloppyDisk option \<Rightarrow> byte" where
  "expected_action num ce ev payload cctx disk =
     (let ov = ontology_of ev cctx in
      if reflex ev payload cctx disk then VerdictBlock
      else if ov = OntoVerdictAllow \<and> length payload < 32 then VerdictPass
      else case Extract num ev payload of
        None \<Rightarrow> VerdictQuarantine
      | Some f \<Rightarrow> if cleared num ce disk ov f then VerdictPass else disk_action num ev payload disk ov f (Quantize512 num f))"

text \<open>Flags are only added: the block flag on a veto, with the flag of a known binary or of an anomaly, else at most the anomaly flag.\<close>

definition flags_of :: "u32 \<Rightarrow> CascadeVerdict \<Rightarrow> bool" where
  "flags_of f v \<longleftrightarrow> (if vAction v = VerdictBlock then vFlags v \<in> {f OR 2, f OR 0xA, f OR 6} else vFlags v \<in> {f, f OR 4})"

lemma layer0_ok:
  assumes "vAction v = VerdictPass" "vFlags v = Flags ev"
  shows "case layer0 ev payload cctx disk v of
      Inl v' \<Rightarrow> vAction v' = (if reflex ev payload cctx disk then VerdictBlock else VerdictPass) \<and> flags_of (Flags ev) v'
        \<and> (reflex ev payload cctx disk \<or> ontology_of ev cctx = OntoVerdictAllow \<and> length payload < 32)
    | Inr (v', ov) \<Rightarrow> v' = v \<and> ov = ontology_of ev cctx \<and> \<not> reflex ev payload cctx disk \<and> \<not> (ontology_of ev cctx = OntoVerdictAllow \<and> length payload < 32)"
proof -
  have k: "snd (MatchKeyword None payload) = False" by (simp add: MatchKeyword_def)
  show ?thesis using assms unfolding layer0_def reflex_def ontology_of_def[symmetric] flags_of_def Let_def
    by (cases disk) (auto simp: k)
qed


lemma layer1a_ok:
  assumes "vAction v = VerdictPass" "vFlags v = f0"
  shows "case layer1a num ce ev payload disk ov v of
      Inl v' \<Rightarrow> flags_of f0 v' \<and> (case Extract num ev payload of None \<Rightarrow> vAction v' = VerdictQuarantine
          | Some f \<Rightarrow> vAction v' = VerdictPass \<and> cleared num ce disk ov f)
    | Inr (v', f, q) \<Rightarrow> vAction v' = VerdictPass \<and> (vFlags v' = f0 \<or> vFlags v' = f0 OR 4) \<and> Extract num ev payload = Some f \<and> q = Quantize512 num f
        \<and> \<not> cleared num ce disk ov f"
proof (cases "Extract num ev payload")
  case None
  then show ?thesis using assms by (simp add: layer1a_def flags_of_def)
next
  case (Some f)
  have n: "nearThreatWithin disk (Some q) (if ov \<noteq> OntoVerdictAllow then max (BlockRadius disk) 24 else BlockRadius disk) \<longleftrightarrow> near disk q (guard_radius disk ov)" for q
    using BlockRadius_range[of disk] by (simp add: nearThreatWithin_near)
  show ?thesis
  proof (cases "cascade_probe ce disk")
    case None
    then show ?thesis using Some assms by (simp add: layer1a_def cleared_def confirmed_def Let_def)
  next
    case p: (Some p)
    show ?thesis
    proof (cases "Probing num p f")
      case None
      then show ?thesis using Some p assms by (simp add: layer1a_def cleared_def confirmed_def Let_def)
    next
      case v: (Some verdict)
      then show ?thesis using Some p assms n by (cases verdict) (auto simp: layer1a_def cleared_def confirmed_def flags_of_def applyNonSoftening_def Let_def)
    qed
  qed
qed

lemma flag_or4: "(f OR 4) OR 4 = (f OR 4 :: u32)"
  by (simp add: or.assoc)

text \<open>The state of a verdict between the layers: passing or quarantined.\<close>

definition pending :: "u32 \<Rightarrow> byte \<Rightarrow> CascadeVerdict \<Rightarrow> bool" where
  "pending f0 a v \<longleftrightarrow> vAction v = a \<and> (vFlags v = f0 \<or> vFlags v = f0 OR 4)"

lemma centroid_verdict_ok:
  assumes "pending f0 VerdictPass v"
  shows "case centroid_verdict num ev payload (Some d) ov f q v of
      Inl v' \<Rightarrow> vAction v' = VerdictBlock \<and> flags_of f0 v' \<and> near (Some d) q (min (BlockRadius (Some d)) 128) \<and> \<not> certified_apex num ev payload (Some d) f
    | Inr v' \<Rightarrow> \<not> (near (Some d) q (min (BlockRadius (Some d)) 128) \<and> \<not> certified_apex num ev payload (Some d) f)
        \<and> pending f0 (if near (Some d) q 24 \<and> \<not> near (Some d) q (min (BlockRadius (Some d)) 128) \<and> \<not> certified_apex num ev payload (Some d) f \<and> ov \<noteq> OntoVerdictAllow
            then VerdictQuarantine else VerdictPass) v'"
proof -
  obtain m dist found where s: "SearchCentroid (Some d) (Some q) 128 = (m, dist, found)" by (metis surj_pair)
  let ?R = "BlockRadius (Some d)"
  have n: "near (Some d) q (min ?R 128) \<longleftrightarrow> found \<and> dist \<le> ?R" "near (Some d) q 24 \<longleftrightarrow> found \<and> dist \<le> 24"
    using SearchCentroid_near[OF s, of ?R] SearchCentroid_near[OF s, of 24] by simp_all
  define apex where "apex \<longleftrightarrow> certified_apex num ev payload (Some d) f"
  have ac: "(if dist \<le> max ?R 24 \<and> Subsystem ev = 3 \<and> isApexDomain payload
      then (case Predict num (Some d) f of (predClass, conforms) \<Rightarrow> predClass = 0 \<and> conforms) else False) \<longleftrightarrow> dist \<le> max ?R 24 \<and> apex"
    by (auto simp: apex_def certified_apex_def split: prod.splits)
  have fl: "(f0 OR 4) OR 2 = f0 OR 6" by (simp add: or.assoc)
  show ?thesis unfolding centroid_verdict_def s prod.case Let_def ac n apex_def[symmetric]
    using assms fl flag_or4[of f0] by (auto simp: pending_def applyNonSoftening_def flags_of_def)
qed

lemma layer1b_ok:
  assumes "pending f0 VerdictPass v"
  shows "flags_of f0 (layer1b num ev payload disk ov f q v)
    \<and> vAction (layer1b num ev payload disk ov f q v) = disk_action num ev payload disk ov f q"
proof (cases disk)
  case None
  then show ?thesis using assms by (auto simp: layer1b_def disk_action_def applyNonSoftening_def pending_def flags_of_def)
next
  case (Some d)
  have p: "pending f0 VerdictPass (v\<lparr>Stage := 2\<rparr>)" using assms by (simp add: pending_def)
  obtain pc co where pr: "Predict num (Some d) f = (pc, co)" by force
  have fl: "(f0 OR 4) OR 2 = f0 OR 6" by (simp add: or.assoc)
  note c = centroid_verdict_ok[OF p, where num = num and ev = ev and payload = payload and d = d and ov = ov and f = f and q = q]
  show ?thesis
  proof (cases "centroid_verdict num ev payload (Some d) ov f q (v\<lparr>Stage := 2\<rparr>)")
    case (Inl v')
    then show ?thesis using c Some by (simp add: layer1b_def disk_action_def Let_def)
  next
    case (Inr v')
    define qu where "qu \<longleftrightarrow> near (Some d) q 24 \<and> \<not> near (Some d) q (min (BlockRadius (Some d)) 128) \<and> \<not> certified_apex num ev payload (Some d) f \<and> ov \<noteq> OntoVerdictAllow"
    have v': "pending f0 (if qu then VerdictQuarantine else VerdictPass) v'" "\<not> (near (Some d) q (min (BlockRadius (Some d)) 128) \<and> \<not> certified_apex num ev payload (Some d) f)"
      using c Inr by (simp_all add: qu_def)
    have r: "layer1b num ev payload (Some d) ov f q v = (if pc = 1 \<and> co then v'\<lparr>vAction := applyNonSoftening (vAction v') VerdictBlock, vFlags := vFlags v' OR 2, ConfidenceQ8 := 220\<rparr>
        else if pc = 1 \<and> \<not> co then v'\<lparr>vAction := applyNonSoftening (vAction v') VerdictQuarantine, vFlags := vFlags v' OR 4, ConfidenceQ8 := 128\<rparr>
        else v'\<lparr>vAction := applyNonSoftening (vAction v') VerdictPass\<rparr>)"
      using Inr pr by (simp add: layer1b_def)
    show ?thesis unfolding Some r disk_action_def Let_def pr qu_def[symmetric] using v' fl flag_or4[of f0]
      by (auto simp: pending_def applyNonSoftening_def flags_of_def)
  qed
qed

lemma evaluateResolved_action:
  "vAction (evaluateResolved num ce ev payload cctx disk elapsed) = expected_action num ce ev payload cctx disk
    \<and> flags_of (Flags ev) (evaluateResolved num ce ev payload cctx disk elapsed)"
proof -
  define v where "v = \<lparr>Stage = 0, vAction = VerdictPass, vFlags = Flags ev, vThreatID = 0, HammingDist = 0, ConfidenceQ8 = 0,
               DurationNs = 0, OntoSubject = cSubject cctx, OntoContext = cContext cctx\<rparr>"
  have v: "vAction v = VerdictPass" "vFlags v = Flags ev" by (simp_all add: v_def)
  have dur: "flags_of f (w\<lparr>DurationNs := elapsed\<rparr>) \<longleftrightarrow> flags_of f w" for f w by (simp add: flags_of_def)
  note l0 = layer0_ok[OF v, where payload = payload and cctx = cctx and disk = disk]
  show ?thesis
  proof (cases "layer0 ev payload cctx disk v")
    case (Inl w)
    then show ?thesis using l0 by (auto simp: evaluateResolved_def v_def[symmetric] dur expected_action_def Let_def)
  next
    case (Inr wo)
    define ov where "ov = ontology_of ev cctx"
    have r: "layer0 ev payload cctx disk v = Inr (v, ov)" "\<not> reflex ev payload cctx disk" "\<not> (ov = OntoVerdictAllow \<and> length payload < 32)"
      using l0 Inr by (cases wo, auto simp: ov_def)+
    note l1 = layer1a_ok[OF v, where num = num and ce = ce and ev = ev and payload = payload and disk = disk and ov = ov]
    show ?thesis
    proof (cases "layer1a num ce ev payload disk ov v")
      case (Inl w)
      have "evaluateResolved num ce ev payload cctx disk elapsed = w\<lparr>DurationNs := elapsed\<rparr>" using r(1) Inl by (simp add: evaluateResolved_def v_def[symmetric])
      then show ?thesis using l1 Inl r(2,3)
        by (cases "Extract num ev payload") (simp_all add: dur expected_action_def ov_def[symmetric])
    next
      case (Inr x)
      obtain w f q where x: "x = (w, f, q)" by (cases x)
      have e: "evaluateResolved num ce ev payload cctx disk elapsed = (layer1b num ev payload disk ov f q w)\<lparr>DurationNs := elapsed\<rparr>"
        using r(1) Inr x by (simp add: evaluateResolved_def v_def[symmetric])
      have w: "pending (Flags ev) VerdictPass w" "Extract num ev payload = Some f" "q = Quantize512 num f" "\<not> cleared num ce disk ov f"
        using l1 Inr x by (simp_all add: pending_def)
      show ?thesis unfolding e using layer1b_ok[OF w(1), where num = num and ev = ev and payload = payload and disk = disk and ov = ov and f = f and q = q] w(2-4) r(2,3)
        by (auto simp: dur expected_action_def ov_def[symmetric])
    qed
  qed
qed


section \<open>Provenance\<close>

definition hostile_process :: "ProcessProvenance \<Rightarrow> bool" where
  "hostile_process pv \<longleftrightarrow> IsMemfd pv \<or> sublist (ascii ''/memfd:'') (ExeTarget pv) \<or> IsDeleted pv \<or> sublist (ascii ''(deleted)'') (ExeTarget pv)
     \<or> HasWXAnon pv \<or> (prefix (ascii ''kworker'') (Comm pv) \<and> (2 < PID pv \<or> ExeTarget pv \<noteq> []))"

text \<open>A service of root, or a login session with its terminal, without elevation.\<close>

definition benign_process :: "ProcessProvenance \<Rightarrow> bool" where
  "benign_process pv \<longleftrightarrow> EUID pv = UID pv \<and> (SystemdUnit pv \<and> \<not> LoginSession pv \<and> UID pv = 0 \<or> LoginSession pv \<and> HasTTY pv)"

lemma hostile_denied: "hostile_process pv \<Longrightarrow> ontology_of ev (DeriveCascadeContext pv) = OntoVerdictDeny"
proof -
  assume h: "hostile_process pv"
  let ?c = "DeriveOntoContext (ExeTarget pv) (IsMemfd pv) (IsDeleted pv) (HasWXAnon pv) (Comm pv) (PID pv)"
  have d: "EvaluateOntology (PackOntoKey s a t ?c) = OntoVerdictDeny" for s a t
    by (rule derived_context_denied) (use h in \<open>auto simp: hostile_process_def\<close>)
  have "?c \<noteq> CtxDefault"
  proof
    assume "?c = CtxDefault"
    then show False using d[of 0 0 0] onto_allow_iff[of 0 0 0 0] by (simp add: EvaluateOntology_def PackOntoKey_def Unpack_def)
  qed
  then have "cContext (DeriveCascadeContext pv) = ?c" by (simp add: DeriveCascadeContext_def Let_def)
  then show ?thesis using d by (simp add: ontology_of_def deriveCascadeOntoKey_def Let_def)
qed

lemma allowed_benign: "ontology_of ev (DeriveCascadeContext pv) = OntoVerdictAllow \<Longrightarrow> benign_process pv \<and> Subsystem ev = 1 \<and> Action ev = 1"
proof -
  assume a: "ontology_of ev (DeriveCascadeContext pv) = OntoVerdictAllow"
  let ?c = "DeriveCascadeContext pv"
  have k: "(cSubject ?c AND 0x3F = SubjRootSystemd \<and> cContext ?c AND 0x0F = CtxSystemdUnit
      \<or> cSubject ?c AND 0x3F \<in> {SubjUserInteractive, SubjRootInteractive} \<and> cContext ?c AND 0x0F = CtxInteractiveTTY) \<and> Subsystem ev = 1 \<and> Action ev = 1"
    using a unfolding ontology_of_def deriveCascadeOntoKey_def Let_def onto_allow_iff[THEN conjunct1] by (auto split: if_splits)
  define h where "h = DeriveOntoContext (ExeTarget pv) (IsMemfd pv) (IsDeleted pv) (HasWXAnon pv) (Comm pv) (PID pv)"
  have hc: "h = CtxDefault \<or> h AND 0x0F \<noteq> CtxSystemdUnit \<and> h AND 0x0F \<noteq> CtxInteractiveTTY" by (simp add: h_def DeriveOntoContext_def)
  show ?thesis
  proof (cases "h = CtxDefault")
    case True
    then show ?thesis using k by (auto simp: DeriveCascadeContext_def h_def[symmetric] benign_process_def Let_def split: if_splits)
  next
    case False
    then have "cContext ?c = h" by (simp add: DeriveCascadeContext_def h_def[symmetric] Let_def)
    then show ?thesis using k hc False by simp
  qed
qed

section \<open>Properties\<close>

text \<open>
  C32.  The action of the cascade is exactly this table.  A keyword of the mounted disk, an encoding
  character in a query name, a netcat with an execution option or a denied ontology key is a veto,
  whatever comes after; a certified short payload passes; a payload whose features cannot be computed
  is quarantined.  A code confirmed by the probe passes unless a centroid is within the guard radius.
  Else a centroid within the block radius vetoes, except for a certified registrable name, as does a
  conforming hostile class; a centroid within 24 or a hostile class quarantines.  The searches are
  exact, and the flags of the event are never removed.\<close>

theorem cascade_action_exact:
  "vAction (evaluateResolved num ce ev payload cctx disk elapsed) = expected_action num ce ev payload cctx disk
    \<and> expected_action num ce ev payload cctx disk \<in> {VerdictPass, VerdictBlock, VerdictQuarantine}
    \<and> flags_of (Flags ev) (evaluateResolved num ce ev payload cctx disk elapsed)"
  using evaluateResolved_action[of num ce ev payload cctx disk elapsed]
  by (simp add: expected_action_def disk_action_def Let_def split: option.splits)



text \<open>An instance of the kernels: no feature is available, so the event itself decides.\<close>

definition blind_numerics :: "unit numerics" where
  "blind_numerics = \<lparr>Extract = (\<lambda>_ _. None), Quantize512 = (\<lambda>_. []), Probing = (\<lambda>_ _. None), Predict = (\<lambda>_ _. (0, True))\<rparr>"


end
