(* ===== verification/Forensic.thy ===== *)
theory Forensic
  imports Cascade
begin

text \<open>
  The forensic proof of \<open>internal/engine/forensic_proof.go\<close>: a verdict with its event and its payload,
  signed over a canonical projection of 230 octets, verified against a trusted key and replayed on the
  cascade.  The signature scheme, SHA-256 and the page checksum are parameters.
\<close>

abbreviation ProofMagic :: bytes where "ProofMagic \<equiv> [0x43, 0x32, 0x50, 0x52, 0x4F, 0x4F, 0x46, 0x31]"

record ForensicProof =
  prMagic :: bytes
  SeqID :: u64
  TimestampNs :: u64
  prEvent :: probe_event_t
  prFamily :: u16
  prCRC32 :: u32
  prHamming :: u16
  DecisionStage :: byte
  VerdictAction :: byte
  prConfidence :: u16
  prSubject :: byte
  prContext :: byte
  PayloadHash :: bytes
  SignerPubKey :: bytes
  Signature :: bytes
  prPayload :: bytes

text \<open>
  The primitives: \<open>sign\<close> and \<open>verify\<close> of Ed25519, the public half of a private key, SHA-256 and the
  checksum of a page of 4096 octets.
\<close>

record crypto =
  sign :: "bytes \<Rightarrow> bytes \<Rightarrow> bytes"
  verify :: "bytes \<Rightarrow> bytes \<Rightarrow> bytes \<Rightarrow> bool"
  public :: "bytes \<Rightarrow> bytes"
  sha256 :: "bytes \<Rightarrow> bytes"
  page_crc :: "bytes \<Rightarrow> u32"

text \<open>The 128 octets of an event in memory, little endian, without padding.\<close>

definition event_bytes :: "probe_event_t \<Rightarrow> bytes" where
  "event_bytes ev = le_put 8 (Ts_ns ev) @ le_put 4 (Pid ev) @ le_put 4 (Tid ev) @ le_put 2 (Subsystem ev) @ le_put 2 (Action ev)
     @ le_put 4 (Flags ev) @ le_put 8 (Src ev) @ Payload ev"

definition CanonicalBytes :: "ForensicProof \<Rightarrow> bytes" where
  "CanonicalBytes p = prMagic p @ le_put 8 (SeqID p) @ le_put 8 (TimestampNs p) @ event_bytes (prEvent p) @ le_put 2 (prFamily p)
     @ le_put 4 (prCRC32 p) @ le_put 2 (prHamming p) @ [DecisionStage p, VerdictAction p] @ le_put 2 (prConfidence p)
     @ PayloadHash p @ SignerPubKey p @ [prSubject p, prContext p]"

datatype proof_error = errProofPayloadShort | errProofPayloadLong | ErrSignParameters | ErrVerdictWithoutPayload

definition bindPayloadToEvent :: "crypto \<Rightarrow> probe_event_t \<Rightarrow> bytes \<Rightarrow> proof_error option" where
  "bindPayloadToEvent cr ev payload =
     (if Flags ev AND FlagLongPayload = 0
      then (if payload \<noteq> take (inlinePayloadUsed (Payload ev)) (Payload ev) then Some errProofPayloadShort else None)
      else let len = unat (le_get (subslice 84 86 (Payload ev)) :: u16) in
        if length payload \<noteq> len \<or> len \<le> 96 \<or> 4096 < len then Some errProofPayloadLong
        else if take 80 payload \<noteq> take 80 (Payload ev) then Some errProofPayloadLong
        else if page_crc cr (payload @ replicate (4096 - length payload) 0) \<noteq> le_get (subslice 86 90 (Payload ev)) then Some errProofPayloadLong
        else None)"

definition SignForensicProof :: "crypto \<Rightarrow> bytes \<Rightarrow> u64 \<Rightarrow> probe_event_t option \<Rightarrow> bytes \<Rightarrow> CascadeVerdict \<Rightarrow> u16 \<Rightarrow> u32 \<Rightarrow> proof_error + ForensicProof" where
  "SignForensicProof cr privKey seqID ev payload v floppyFamily floppyCRC = (case ev of
     None \<Rightarrow> Inl ErrSignParameters
   | Some e \<Rightarrow>
     if length privKey \<noteq> 64 then Inl ErrSignParameters
     else if vFlags v AND FlagArenaInvalid \<noteq> 0 then Inl ErrVerdictWithoutPayload
     else case bindPayloadToEvent cr e payload of
       Some err \<Rightarrow> Inl err
     | None \<Rightarrow>
       let p = \<lparr>prMagic = ProofMagic, SeqID = seqID, TimestampNs = Ts_ns e, prEvent = e, prFamily = floppyFamily, prCRC32 = floppyCRC,
                prHamming = word_of_int (HammingDist v), DecisionStage = Stage v, VerdictAction = vAction v, prConfidence = ConfidenceQ8 v,
                prSubject = OntoSubject v, prContext = OntoContext v, PayloadHash = sha256 cr payload,
                SignerPubKey = public cr privKey, Signature = [], prPayload = payload\<rparr> in
       Inr (p\<lparr>Signature := sign cr privKey (CanonicalBytes p)\<rparr>))"

definition VerifyForensicProof :: "crypto \<Rightarrow> bytes \<Rightarrow> ForensicProof option \<Rightarrow> bool" where
  "VerifyForensicProof cr trustedPubKey proof0 =
     (if length trustedPubKey \<noteq> 32 then False
      else case proof0 of
        None \<Rightarrow> False
      | Some p \<Rightarrow>
        if prMagic p \<noteq> ProofMagic then False
        else if SignerPubKey p \<noteq> trustedPubKey then False
        else if sha256 cr (prPayload p) \<noteq> PayloadHash p then False
        else verify cr trustedPubKey (CanonicalBytes p) (Signature p))"

datatype replay_diff = InvalidInput | ProofRefused | Unbound | DiskMissing | OtherFamily | OtherCRC | OtherAction | OtherStage | OtherMeasures | PerfectReplay

definition disk_parity :: "ForensicProof \<Rightarrow> 'c FloppyDisk option \<Rightarrow> replay_diff option" where
  "disk_parity p disk = (case disk of
     None \<Rightarrow> if prFamily p \<noteq> 0 then Some DiskMissing else None
   | Some d \<Rightarrow> if FamilyID (dHeader d) \<noteq> prFamily p then Some OtherFamily
       else if CRC32C (dHeader d) \<noteq> prCRC32 p then Some OtherCRC else None)"

definition ReplayForensicProof :: "crypto \<Rightarrow> 'c numerics \<Rightarrow> bytes \<Rightarrow> ForensicProof option \<Rightarrow> 'c CascadeEngine option \<Rightarrow> int \<Rightarrow> bool \<times> replay_diff" where
  "ReplayForensicProof cr num trustedPubKey proof0 cascade elapsed = (case (proof0, cascade) of
     (Some p, Some ce) \<Rightarrow>
       if \<not> VerifyForensicProof cr trustedPubKey (Some p) then (False, ProofRefused)
       else if bindPayloadToEvent cr (prEvent p) (prPayload p) \<noteq> None then (False, Unbound)
       else let disk = diskFor ce (Subsystem (prEvent p)) in
         (case disk_parity p disk of
           Some d \<Rightarrow> (False, d)
         | None \<Rightarrow>
           let v = evaluateResolved num ce (prEvent p) (prPayload p) \<lparr>cSubject = prSubject p, cContext = prContext p\<rparr> disk elapsed in
           if vAction v \<noteq> VerdictAction p then (False, OtherAction)
           else if Stage v \<noteq> DecisionStage p then (False, OtherStage)
           else if word_of_int (HammingDist v) \<noteq> prHamming p \<or> ConfidenceQ8 v \<noteq> prConfidence p then (False, OtherMeasures)
           else (True, PerfectReplay))
   | _ \<Rightarrow> (False, InvalidInput))"

section \<open>The projection\<close>

text \<open>The sizes that the Go types fix.\<close>

definition proof_wf :: "ForensicProof \<Rightarrow> bool" where
  "proof_wf p \<longleftrightarrow> length (prMagic p) = 8 \<and> event_wf (prEvent p) \<and> length (PayloadHash p) = 32 \<and> length (SignerPubKey p) = 32"

lemma le_put_inj: "LENGTH('a) \<le> 8 * n \<Longrightarrow> le_put n (x :: 'a::len word) = le_put n y \<longleftrightarrow> x = y"
  by (metis le_get_put)

lemma event_bytes_inj: "event_wf e \<Longrightarrow> event_wf e' \<Longrightarrow> event_bytes e = event_bytes e' \<longleftrightarrow> e = e'"
  by (cases e; cases e') (auto simp: event_bytes_def event_wf_def le_put_inj)

lemma length_event_bytes: "event_wf e \<Longrightarrow> length (event_bytes e) = 128"
  by (simp add: event_bytes_def event_wf_def)

lemma length_CanonicalBytes: "proof_wf p \<Longrightarrow> length (CanonicalBytes p) = 230"
  by (simp add: CanonicalBytes_def proof_wf_def length_event_bytes)

text \<open>Everything but the payload and the signature.\<close>

definition signed_part :: "ForensicProof \<Rightarrow> ForensicProof" where
  "signed_part p = p\<lparr>Signature := [], prPayload := []\<rparr>"

lemma CanonicalBytes_inj:
  assumes "proof_wf p" "proof_wf q"
  shows "CanonicalBytes p = CanonicalBytes q \<longleftrightarrow> signed_part p = signed_part q"
  using assms event_bytes_inj[of "prEvent p" "prEvent q"] length_event_bytes[of "prEvent p"] length_event_bytes[of "prEvent q"]
  by (cases p; cases q) (auto simp: CanonicalBytes_def signed_part_def proof_wf_def le_put_inj)


section \<open>What a verdict keeps\<close>

lemma layers_onto:
  "case layer0 ev payload cctx disk v of Inl w \<Rightarrow> OntoSubject w = OntoSubject v \<and> OntoContext w = OntoContext v | Inr (w, ov) \<Rightarrow> w = v"
  "case layer1a num ce ev payload disk ov v of Inl w \<Rightarrow> OntoSubject w = OntoSubject v \<and> OntoContext w = OntoContext v
     | Inr (w, f, q) \<Rightarrow> OntoSubject w = OntoSubject v \<and> OntoContext w = OntoContext v"
  "OntoSubject (layer1b num ev payload disk ov f q v) = OntoSubject v \<and> OntoContext (layer1b num ev payload disk ov f q v) = OntoContext v"
  by (simp_all add: layer0_def layer1a_def layer1b_def centroid_verdict_def Let_def split: option.split ProbeVerdict.split prod.split sum.split)

lemma evaluateResolved_onto:
  "OntoSubject (evaluateResolved num ce ev payload cctx disk elapsed) = cSubject cctx"
  "OntoContext (evaluateResolved num ce ev payload cctx disk elapsed) = cContext cctx"
proof -
  define v where "v = \<lparr>Stage = 0, vAction = VerdictPass, vFlags = Flags ev, vThreatID = 0, HammingDist = 0, ConfidenceQ8 = 0,
               DurationNs = 0, OntoSubject = cSubject cctx, OntoContext = cContext cctx\<rparr>"
  have v: "OntoSubject v = cSubject cctx" "OntoContext v = cContext cctx" by (simp_all add: v_def)
  have "OntoSubject (evaluateResolved num ce ev payload cctx disk elapsed) = cSubject cctx \<and> OntoContext (evaluateResolved num ce ev payload cctx disk elapsed) = cContext cctx"
  proof (cases "layer0 ev payload cctx disk v")
    case (Inl w)
    then show ?thesis using layers_onto(1)[where ev = ev and payload = payload and cctx = cctx and disk = disk and v = v] v by (simp add: evaluateResolved_def v_def[symmetric])
  next
    case (Inr wo)
    then obtain ov where l0: "layer0 ev payload cctx disk v = Inr (v, ov)" using layers_onto(1)[where ev = ev and payload = payload and cctx = cctx and disk = disk and v = v] by (cases wo) auto
    note l1 = layers_onto(2)[where num = num and ce = ce and ev = ev and payload = payload and disk = disk and ov = ov and v = v]
    show ?thesis
    proof (cases "layer1a num ce ev payload disk ov v")
      case (Inl w)
      then show ?thesis using l0 l1 v by (simp add: evaluateResolved_def v_def[symmetric])
    next
      case (Inr x)
      then show ?thesis using l0 l1 v by (cases x) (simp add: evaluateResolved_def v_def[symmetric] layers_onto(3))
    qed
  qed
  then show "OntoSubject (evaluateResolved num ce ev payload cctx disk elapsed) = cSubject cctx"
    "OntoContext (evaluateResolved num ce ev payload cctx disk elapsed) = cContext cctx" by simp_all
qed

lemma evaluateResolved_elapsed:
  "evaluateResolved num ce ev payload cctx disk e2 = (evaluateResolved num ce ev payload cctx disk e1)\<lparr>DurationNs := e2\<rparr>"
  by (simp add: evaluateResolved_def Let_def)

lemma layer1a_arena: "layer1a num (ce\<lparr>ce_arena := a\<rparr>) ev payload disk ov v = layer1a num ce ev payload disk ov v"
proof -
  have "cascade_probe (ce\<lparr>ce_arena := a\<rparr>) disk = cascade_probe ce disk" by (simp add: cascade_probe_def split: option.split)
  then show ?thesis unfolding layer1a_def by (simp only:)
qed

lemma evaluateResolved_arena: "evaluateResolved num (ce\<lparr>ce_arena := a\<rparr>) ev payload cctx disk el = evaluateResolved num ce ev payload cctx disk el"
  unfolding evaluateResolved_def layer1a_arena ..

lemma flags_keep_arena: "flags_of f v \<Longrightarrow> vFlags v AND FlagArenaInvalid = f AND FlagArenaInvalid"
proof -
  have d: "(f OR x) AND FlagArenaInvalid = (f AND FlagArenaInvalid) OR (x AND FlagArenaInvalid)" for x by (rule bit_word_eqI) (auto simp: bit_and_iff bit_or_iff)
  assume "flags_of f v"
  then have "vFlags v \<in> {f, f OR 2, f OR 4, f OR 6, f OR 0xA}" by (auto simp: flags_of_def split: if_splits)
  then show ?thesis by (auto simp: d)
qed

section \<open>Binding a stored payload\<close>

lemma bind_stored:
  assumes crc: "\<And>page. length page = 4096 \<Longrightarrow> page_crc cr page = crc32_update 0 page"
    and p: "arena_ok p" "96 < length payload" "length payload \<le> 4096" "StorePayload p (Some e) payload = Some (p1, Some e', n)"
    and room: "unat (alloc p) + 1 < 2 ^ 64"
  shows "bindPayloadToEvent cr e' payload = None" "Flags e' = Flags e OR FlagLongPayload" "Subsystem e' = Subsystem e" "Ts_ns e' = Ts_ns e" "event_wf e'"
    "ResolvePayload p1 (Some e') True = Inr payload"
proof -
  let ?i = "word_of_nat (unat (alloc p) mod 1024) :: u32" and ?ep = "word_of_nat (unat (alloc p) div 1024) :: u32"
  have e': "e' = e\<lparr>Payload := sealed_payload (unat (alloc p)) payload, Flags := Flags e OR FlagLongPayload\<rparr>"
    using p(4) unfolding StorePayload_long[OF p(1,2)] by simp
  have sp: "Payload e' = take 80 payload @ descriptor ?i (length payload) (arenaPageCRC32C payload) ?ep"
    using p(3) by (simp add: e' sealed_payload_def Let_def min_def)
  have l80: "length (take 80 payload) = 80" "length payload < 65536" using p(2,3) by auto
  note f = descriptor_fields[OF l80, of ?i "arenaPageCRC32C payload" ?ep]
  show fl: "Flags e' = Flags e OR FlagLongPayload" "Subsystem e' = Subsystem e" "Ts_ns e' = Ts_ns e" by (simp_all add: e')
  show "event_wf e'" using l80(1) by (simp add: event_wf_def sp descriptor_def)
  have long: "Flags e' AND FlagLongPayload \<noteq> 0" using or_and_absorb[of "Flags e" FlagLongPayload] fl(1) by simp
  have "page_crc cr (payload @ replicate (4096 - length payload) 0) = arenaPageCRC32C payload"
    using p(3) by (simp add: crc arenaPageCRC32C_page)
  then show "bindPayloadToEvent cr e' payload = None" using long p(2,3) l80 f by (simp add: bindPayloadToEvent_def sp Let_def)
  show "ResolvePayload p1 (Some e') True = Inr payload"
    using arena_roundtrip[OF p(1,2), of "[]" e] p(3,4) room by (simp add: long_payloads_def)
qed


section \<open>Properties\<close>

text \<open>What the signature scheme and the checksum promise.\<close>

definition crypto_laws :: "crypto \<Rightarrow> bool" where
  "crypto_laws cr \<longleftrightarrow> (\<forall>k m. length k = 64 \<longrightarrow> length (public cr k) = 32 \<and> verify cr (public cr k) m (sign cr k m))
     \<and> (\<forall>page. length page = 4096 \<longrightarrow> page_crc cr page = crc32_update 0 page)"

definition sealed_disk :: "'c FloppyDisk option \<Rightarrow> u16 \<times> u32" where
  "sealed_disk disk = (case disk of None \<Rightarrow> (0, 0) | Some d \<Rightarrow> (FamilyID (dHeader d), CRC32C (dHeader d)))"

text \<open>
  C35.  A verdict on a long payload can be proved after the fact.  Once the payload is stored, the
  verdict of the cascade is signed with the payload without an error, the proof is verified against
  the key of the host, and its replay on the same cascade, whatever the arena has become and whenever
  it is replayed, gives the same action, stage and measures.\<close>

theorem forensic_replay:
  assumes "crypto_laws cr" "length key = 64"
    and "arena_ok p" "96 < length payload" "length payload \<le> 4096" "unat (alloc p) + 1 < 2 ^ 64"
    and "StorePayload p (Some e) payload = Some (p1, Some e', n)" "Flags e AND FlagArenaInvalid = 0"
    and "v = EvaluateEventCtx num (ce\<lparr>ce_arena := p1\<rparr>) (Some e') cctx elapsed" "sealed_disk (diskFor ce (Subsystem e)) = (family, crc)"
  shows "\<exists>proof0. SignForensicProof cr key seqID (Some e') payload v family crc = Inr proof0
    \<and> VerifyForensicProof cr (public cr key) (Some proof0)
    \<and> ReplayForensicProof cr num (public cr key) (Some proof0) (Some (ce\<lparr>ce_arena := p2\<rparr>)) elapsed' = (True, PerfectReplay)"
proof -
  have law: "length (public cr key) = 32" "verify cr (public cr key) m (sign cr key m)" "\<And>page. length page = 4096 \<Longrightarrow> page_crc cr page = crc32_update 0 page" for m
    using assms(1,2) by (simp_all add: crypto_laws_def)
  note b = bind_stored[OF law(3) assms(3-5,7,6)]
  have long: "Flags e' AND FlagLongPayload \<noteq> 0" using or_and_absorb[of "Flags e" FlagLongPayload] b(2) by simp
  have dk: "diskFor (ce\<lparr>ce_arena := a\<rparr>) s = diskFor ce s" for a s by (simp add: diskFor_def)
  define disk where "disk = diskFor ce (Subsystem e)"
  have v: "v = evaluateResolved num ce e' payload cctx disk elapsed"
    using b(3,6) long by (simp add: assms(9) EvaluateEventCtx_def dk disk_def evaluateResolved_arena Let_def)
  have fl: "vFlags v AND FlagArenaInvalid = 0"
  proof -
    have d: "(f OR y) AND FlagArenaInvalid = (f AND FlagArenaInvalid) OR (y AND FlagArenaInvalid)" for f y :: u32 by (rule bit_word_eqI) (auto simp: bit_and_iff bit_or_iff)
    have "vFlags v AND FlagArenaInvalid = Flags e' AND FlagArenaInvalid" using evaluateResolved_action flags_keep_arena unfolding v by blast
    also have "\<dots> = 0" using assms(8) by (simp add: b(2) d)
    finally show ?thesis .
  qed
  note o = evaluateResolved_onto[of num ce e' payload cctx disk elapsed, folded v]
  define p0 where "p0 = \<lparr>prMagic = ProofMagic, SeqID = seqID, TimestampNs = Ts_ns e', prEvent = e', prFamily = family, prCRC32 = crc,
      prHamming = word_of_int (HammingDist v), DecisionStage = Stage v, VerdictAction = vAction v, prConfidence = ConfidenceQ8 v,
      prSubject = OntoSubject v, prContext = OntoContext v, PayloadHash = sha256 cr payload,
      SignerPubKey = public cr key, Signature = [], prPayload = payload\<rparr>"
  define proof0 where "proof0 = p0\<lparr>Signature := sign cr key (CanonicalBytes p0)\<rparr>"
  have s: "SignForensicProof cr key seqID (Some e') payload v family crc = Inr proof0"
    using assms(2) fl b(1) by (simp add: SignForensicProof_def proof0_def p0_def Let_def)
  have c: "CanonicalBytes proof0 = CanonicalBytes p0" by (simp add: proof0_def CanonicalBytes_def)
  have vf: "VerifyForensicProof cr (public cr key) (Some proof0)"
    unfolding VerifyForensicProof_def option.case c using law(1,2) by (simp add: proof0_def p0_def)
  have pf: "prEvent proof0 = e'" "prPayload proof0 = payload" "prSubject proof0 = cSubject cctx" "prContext proof0 = cContext cctx" "prFamily proof0 = family" "prCRC32 proof0 = crc"
    "VerdictAction proof0 = vAction v" "DecisionStage proof0 = Stage v" "prHamming proof0 = word_of_int (HammingDist v)" "prConfidence proof0 = ConfidenceQ8 v"
    using o by (simp_all add: proof0_def p0_def)
  have parity: "disk_parity proof0 disk = None" using assms(10) by (auto simp: disk_parity_def sealed_disk_def pf disk_def[symmetric] split: option.splits)
  have cc: "\<lparr>cSubject = cSubject cctx, cContext = cContext cctx\<rparr> = cctx" by simp
  have ev: "evaluateResolved num (ce\<lparr>ce_arena := p2\<rparr>) e' payload cctx disk elapsed' = v\<lparr>DurationNs := elapsed'\<rparr>"
    unfolding evaluateResolved_arena v by (rule evaluateResolved_elapsed)
  have "ReplayForensicProof cr num (public cr key) (Some proof0) (Some (ce\<lparr>ce_arena := p2\<rparr>)) elapsed' = (True, PerfectReplay)"
    using vf b(1,3) parity by (simp add: ReplayForensicProof_def pf dk disk_def[symmetric] ev cc Let_def)
  then show ?thesis using s vf by blast
qed


text \<open>A scheme that meets the laws: the signature of a text is the text, the public half the first 32 octets.\<close>

definition plain_crypto :: crypto where
  "plain_crypto = \<lparr>sign = (\<lambda>k m. m), verify = (\<lambda>k m s. s = m), public = take 32, sha256 = (\<lambda>m. take 32 (m @ replicate 32 0)), page_crc = crc32_update 0\<rparr>"

lemma plain_crypto_laws: "crypto_laws plain_crypto"
  by (simp add: crypto_laws_def plain_crypto_def)

theorem forensic_replay_witness:
  "\<exists>p1 e' n. StorePayload NewArenaPool (Some zero_event) (replicate 200 65) = Some (p1, Some e', n)
     \<and> (\<exists>proof0. SignForensicProof plain_crypto (replicate 64 1) 7 (Some e') (replicate 200 65)
            (EvaluateEventCtx blind_numerics (NewCascadeEngine None None NewArenaPool\<lparr>ce_arena := p1\<rparr>) (Some e') \<lparr>cSubject = 0, cContext = 0\<rparr> 5) 0 0 = Inr proof0
        \<and> VerifyForensicProof plain_crypto (public plain_crypto (replicate 64 1)) (Some proof0)
        \<and> ReplayForensicProof plain_crypto blind_numerics (public plain_crypto (replicate 64 1)) (Some proof0) (Some (NewCascadeEngine None None NewArenaPool)) 9 = (True, PerfectReplay))"
proof -
  obtain p1 e' n where st: "StorePayload NewArenaPool (Some zero_event) (replicate 200 65) = Some (p1, Some e', n)"
    by (rule that[OF StorePayload_long[OF NewArenaPool_ok]]) simp
  have a: "NewCascadeEngine None None NewArenaPool\<lparr>ce_arena := NewArenaPool\<rparr> = NewCascadeEngine None None NewArenaPool" by (simp add: NewCascadeEngine_def)
  have h: "Flags zero_event AND FlagArenaInvalid = 0" "unat (alloc NewArenaPool) + 1 < 2 ^ 64" by (simp_all add: zero_event_def NewArenaPool_def)
  have d: "sealed_disk (diskFor (NewCascadeEngine None None NewArenaPool :: unit CascadeEngine) (Subsystem zero_event)) = (0, 0)"
    by (simp add: sealed_disk_def diskFor_def zero_event_def)
  have k: "length (replicate 64 (1 :: byte)) = 64" by (rule length_replicate)
  have l: "96 < length (replicate 200 (65 :: byte))" "length (replicate 200 (65 :: byte)) \<le> 4096" by simp_all
  note r = forensic_replay[OF plain_crypto_laws k NewArenaPool_ok l h(2) st h(1) refl[of "EvaluateEventCtx blind_numerics (NewCascadeEngine None None NewArenaPool\<lparr>ce_arena := p1\<rparr>) (Some e') \<lparr>cSubject = 0, cContext = 0\<rparr> 5"] d, of 7 NewArenaPool 9]
  show ?thesis by (rule exI[of _ p1], rule exI[of _ e'], rule exI[of _ n]) (rule conjI[OF st r[unfolded a]])
qed

text \<open>The proof of a short payload: 41 41 in an event of its own.\<close>

definition unsigned_proof :: ForensicProof where
  "unsigned_proof = \<lparr>prMagic = ProofMagic, SeqID = 7, TimestampNs = 0, prEvent = zero_event\<lparr>Payload := [0x41, 0x41] @ replicate 94 0\<rparr>, prFamily = 0, prCRC32 = 0,
     prHamming = 0, DecisionStage = 1, VerdictAction = VerdictPass, prConfidence = 256, prSubject = 0, prContext = 0,
     PayloadHash = [0x41, 0x41] @ replicate 30 0, SignerPubKey = replicate 32 1, Signature = [], prPayload = [0x41, 0x41]\<rparr>"

definition short_proof :: ForensicProof where
  "short_proof = unsigned_proof\<lparr>Signature := CanonicalBytes unsigned_proof\<rparr>"

lemma short_proof_bytes: "CanonicalBytes short_proof = CanonicalBytes unsigned_proof"
  by (simp add: CanonicalBytes_def short_proof_def)

lemma short_proof_fields: "Signature short_proof = CanonicalBytes unsigned_proof" "prMagic short_proof = ProofMagic" "SignerPubKey short_proof = replicate 32 1"
  "prPayload short_proof = [0x41, 0x41]" "PayloadHash short_proof = [0x41, 0x41] @ replicate 30 0" "proof_wf short_proof"
  by (simp_all add: short_proof_def unsigned_proof_def proof_wf_def event_wf_def)


end
