(* ===== verification/CorpusRouter.thy ===== *)
theory CorpusRouter
  imports Router
begin

text \<open>
  The corpus router of \<open>corpus_router.go\<close>: six sub-rings, one per catalogue of threats, an event
  deposited on one of them or on all, and a batch deposited on each ring with a single publication.
  The batch is shown to be the deposit of its events one after the other.
\<close>

abbreviation CorpusWebCache :: u16 where "CorpusWebCache \<equiv> 1"
abbreviation CorpusKernelUnix :: u16 where "CorpusKernelUnix \<equiv> 6"

record CorpusRouter =
  cr_rings :: "SubRing list"

definition NewCorpusRouter :: CorpusRouter where
  "NewCorpusRouter = \<lparr>cr_rings = replicate 6 SubRing_zero\<rparr>"

definition RingWebCache :: "CorpusRouter \<Rightarrow> SubRing" where "RingWebCache r = cr_rings r ! 0"

definition RingK8sContainer :: "CorpusRouter \<Rightarrow> SubRing" where "RingK8sContainer r = cr_rings r ! 1"

definition RingMiddleware :: "CorpusRouter \<Rightarrow> SubRing" where "RingMiddleware r = cr_rings r ! 2"

definition RingProxyMicro :: "CorpusRouter \<Rightarrow> SubRing" where "RingProxyMicro r = cr_rings r ! 3"

definition RingCloudCI :: "CorpusRouter \<Rightarrow> SubRing" where "RingCloudCI r = cr_rings r ! 4"

definition RingKernelUnix :: "CorpusRouter \<Rightarrow> SubRing" where "RingKernelUnix r = cr_rings r ! 5"

definition corpusIndex :: "u16 \<Rightarrow> int" where
  "corpusIndex corpusID = (if corpusID < CorpusWebCache \<or> CorpusKernelUnix < corpusID then - 1 else uint (corpusID - CorpusWebCache))"

definition Corpus_Dispatch :: "CorpusRouter \<Rightarrow> u16 \<Rightarrow> probe_event_t option \<Rightarrow> CorpusRouter \<times> bool" where
  "Corpus_Dispatch r corpusID ev = (let index = corpusIndex corpusID in case ev of
     None \<Rightarrow> (r, False)
   | Some e \<Rightarrow>
       if index < 0 then (r, False)
       else let (sr, b) = SubRing_Push (cr_rings r ! nat index) e in (r\<lparr>cr_rings := (cr_rings r)[nat index := sr]\<rparr>, b))"

text \<open>The loop of \<open>DispatchFanout\<close> over the rings, with the count of the rings that accepted.\<close>

fun fanout_loop :: "SubRing list \<Rightarrow> probe_event_t \<Rightarrow> SubRing list \<times> int" where
  "fanout_loop [] ev = ([], 0)"
| "fanout_loop (sr # srs) ev =
     (let (sr', b) = SubRing_Push sr ev; (srs', n) = fanout_loop srs ev in (sr' # srs', (if b then 1 else 0) + n))"

definition DispatchFanout :: "CorpusRouter \<Rightarrow> probe_event_t option \<Rightarrow> CorpusRouter \<times> int" where
  "DispatchFanout r ev = (case ev of
     None \<Rightarrow> (r, 0)
   | Some e \<Rightarrow> let (srs, n) = fanout_loop (cr_rings r) e in (r\<lparr>cr_rings := srs\<rparr>, n))"

text \<open>The copy of a run of events into the slots from a head on.\<close>

fun write_slots :: "(nat \<Rightarrow> probe_event_t) \<Rightarrow> u64 \<Rightarrow> probe_event_t list \<Rightarrow> nat \<Rightarrow> probe_event_t" where
  "write_slots slots head [] = slots"
| "write_slots slots head (ev # evs) = write_slots (slots(unat (head AND subRingMask) := ev)) (head + 1) evs"

definition SubRing_pushBatch :: "SubRing \<Rightarrow> probe_event_t list \<Rightarrow> SubRing \<times> int" where
  "SubRing_pushBatch r events =
     (if events = [] then (r, 0)
      else let head = sr_head r; available = subRingSlots - (head - sr_tail r) in
        if available = 0 then (r\<lparr>sr_drops := sr_drops r + word_of_nat (length events)\<rparr>, 0)
        else let n = (if available < word_of_nat (length events) then sint available else int (length events));
                 r' = r\<lparr>sr_slots := write_slots (sr_slots r) head (take (nat n) events), sr_head := head + word_of_int n\<rparr> in
          (if n < int (length events) then r'\<lparr>sr_drops := sr_drops r' + word_of_int (int (length events) - n)\<rparr> else r', n))"

fun fanout_batch_loop :: "SubRing list \<Rightarrow> probe_event_t list \<Rightarrow> SubRing list \<times> int" where
  "fanout_batch_loop [] events = ([], 0)"
| "fanout_batch_loop (sr # srs) events =
     (let (sr', k) = SubRing_pushBatch sr events; (srs', n) = fanout_batch_loop srs events in (sr' # srs', k + n))"

definition DispatchFanoutBatch :: "CorpusRouter \<Rightarrow> probe_event_t list \<Rightarrow> CorpusRouter \<times> int" where
  "DispatchFanoutBatch r events =
     (if events = [] then (r, 0)
      else let (srs, n) = fanout_batch_loop (cr_rings r) events in (r\<lparr>cr_rings := srs\<rparr>, n))"

section \<open>A batch is its events one by one\<close>

definition occupied :: "SubRing \<Rightarrow> nat" where
  "occupied r = unat (sr_head r - sr_tail r)"

text \<open>The references: a ring that takes events one at a time, a router that fans each event out.\<close>

fun push_each :: "SubRing \<Rightarrow> probe_event_t list \<Rightarrow> SubRing \<times> int" where
  "push_each r [] = (r, 0)"
| "push_each r (ev # evs) = (let (r1, b) = SubRing_Push r ev; (r2, n) = push_each r1 evs in (r2, (if b then 1 else 0) + n))"

fun fanout_each :: "CorpusRouter \<Rightarrow> probe_event_t list \<Rightarrow> CorpusRouter \<times> int" where
  "fanout_each r [] = (r, 0)"
| "fanout_each r (ev # evs) = (let (r1, k) = DispatchFanout r (Some ev); (r2, n) = fanout_each r1 evs in (r2, k + n))"

text \<open>What both do to a ring: the events that fit are written, the others counted as dropped.\<close>

definition deposit :: "SubRing \<Rightarrow> probe_event_t list \<Rightarrow> SubRing" where
  "deposit r es = (let k = min (length es) (256 - occupied r) in
     r\<lparr>sr_slots := write_slots (sr_slots r) (sr_head r) (take k es), sr_head := sr_head r + word_of_nat k,
       sr_drops := sr_drops r + word_of_nat (length es - k)\<rparr>)"

lemma pushBatch_deposit:
  assumes "occupied r \<le> 256" "length es < 2 ^ 63"
  shows "SubRing_pushBatch r es = (deposit r es, int (min (length es) (256 - occupied r)))"
proof -
  let ?a = "256 - (sr_head r - sr_tail r)"
  have a: "unat ?a = 256 - occupied r" using assms(1) by (simp add: occupied_def unat_minus_le word_le_nat_alt)
  have l: "unat (word_of_nat (length es) :: u64) = length es" using assms(2) by (simp add: unat_of_nat)
  have s: "sint ?a = int (256 - occupied r)"
  proof -
    have "unat ?a < 2 ^ (LENGTH(64) - 1)" unfolding a by simp
    from sint_small[OF this] show ?thesis by (simp add: a)
  qed
  have z: "?a = 0 \<longleftrightarrow> occupied r = 256" using a assms(1) by (auto simp flip: unat_eq_zero)
  have lt: "?a < word_of_nat (length es) \<longleftrightarrow> 256 - occupied r < length es" by (simp add: word_less_nat_alt a l)
  show ?thesis
  proof (cases "es = []")
    case False
    then show ?thesis unfolding SubRing_pushBatch_def Let_def z lt s deposit_def
      by (auto simp: min_def of_nat_diff)
  qed (simp add: SubRing_pushBatch_def deposit_def)
qed

lemma push_deposit:
  assumes "occupied r \<le> 256"
  shows "SubRing_Push r e = (deposit r [e], occupied r < 256)"
    and "occupied (deposit r [e]) = min 256 (Suc (occupied r))"
    and "deposit (deposit r [e]) es = deposit r (e # es)"
proof -
  have f: "256 \<le> sr_head r - sr_tail r \<longleftrightarrow> 256 \<le> occupied r" by (simp add: occupied_def word_le_nat_alt)
  show p: "SubRing_Push r e = (deposit r [e], occupied r < 256)"
    by (simp add: SubRing_Push_def f deposit_def Let_def)
  have u: "occupied r < 256 \<Longrightarrow> unat (sr_head r + 1 - sr_tail r) = Suc (occupied r)"
  proof -
    assume l: "occupied r < 256"
    have e: "sr_head r + 1 - sr_tail r = (sr_head r - sr_tail r) + 1" by simp
    show "unat (sr_head r + 1 - sr_tail r) = Suc (occupied r)"
      unfolding e using l by (subst unat_plus_one) (simp_all add: occupied_def)
  qed
  show o: "occupied (deposit r [e]) = min 256 (Suc (occupied r))"
  proof (cases "occupied r < 256")
    case True
    then show ?thesis using u by (simp add: deposit_def occupied_def)
  next
    case False
    then show ?thesis using assms by (simp add: deposit_def occupied_def)
  qed
  show "deposit (deposit r [e]) es = deposit r (e # es)"
  proof (cases "occupied r < 256")
    case True
    then have m: "min (length (e # es)) (256 - occupied r) = Suc (min (length es) (256 - Suc (occupied r)))" "length (e # es) - Suc k = length es - k" for k
      by simp_all
    show ?thesis unfolding deposit_def[of r "e # es"] deposit_def[of "deposit r [e]"] o m Let_def using True
      by (simp add: deposit_def ac_simps)
  next
    case False
    then have "occupied r = 256" using assms by simp
    then show ?thesis unfolding deposit_def[of r "e # es"] deposit_def[of "deposit r [e]"] o Let_def
      by (simp add: deposit_def ac_simps)
  qed
qed

lemma push_each_deposit: "occupied r \<le> 256 \<Longrightarrow> push_each r es = (deposit r es, int (min (length es) (256 - occupied r)))"
proof (induction es arbitrary: r)
  case Nil
  then show ?case by (simp add: deposit_def)
next
  case (Cons e es)
  note p = push_deposit[OF Cons.prems]
  have "occupied (deposit r [e]) \<le> 256" by (simp add: p(2))
  then have i: "push_each (deposit r [e]) es = (deposit r (e # es), int (min (length es) (256 - min 256 (Suc (occupied r)))))"
    using Cons.IH[of "deposit r [e]"] by (simp only: p(2,3))
  have "(if occupied r < 256 then 1 else 0) + int (min (length es) (256 - min 256 (Suc (occupied r)))) = int (min (length (e # es)) (256 - occupied r))"
    by (cases "occupied r < 256"; cases es) (auto simp: min_def)
  then show ?case by (simp only: push_each.simps p(1) i Let_def prod.case)
qed

lemma pushBatch_each: "occupied r \<le> 256 \<Longrightarrow> length es < 2 ^ 63 \<Longrightarrow> SubRing_pushBatch r es = push_each r es"
  by (simp add: pushBatch_deposit push_each_deposit)

text \<open>Fanning out event by event is pushing event by event on each ring.\<close>

fun rings_each :: "SubRing list \<Rightarrow> probe_event_t list \<Rightarrow> SubRing list \<times> int" where
  "rings_each [] es = ([], 0)"
| "rings_each (sr # srs) es = (let (sr', k) = push_each sr es; (srs', n) = rings_each srs es in (sr' # srs', k + n))"

lemma rings_each_Nil: "rings_each srs [] = (srs, 0)"
  by (induction srs) simp_all

lemma rings_each_Cons: "rings_each srs (e # es) = (let (s1, k) = fanout_loop srs e; (s2, n) = rings_each s1 es in (s2, k + n))"
  by (induction srs) (auto split: prod.split)

lemma fanout_each_rings: "fanout_each r es = (let (srs, n) = rings_each (cr_rings r) es in (r\<lparr>cr_rings := srs\<rparr>, n))"
  by (induction es arbitrary: r) (auto simp: rings_each_Nil rings_each_Cons DispatchFanout_def split: prod.split)

lemma fanout_batch_rings: "\<forall>sr \<in> set srs. occupied sr \<le> 256 \<Longrightarrow> length es < 2 ^ 63 \<Longrightarrow> fanout_batch_loop srs es = rings_each srs es"
  by (induction srs) (auto simp: pushBatch_each split: prod.split)

lemma rings_each_deposit: "\<forall>sr \<in> set srs. occupied sr \<le> 256 \<Longrightarrow> fst (rings_each srs es) = map (\<lambda>sr. deposit sr es) srs"
  by (induction srs) (auto simp: push_each_deposit split: prod.split)

section \<open>Properties\<close>

text \<open>The pending events of a ring after a deposit.\<close>

lemma push_each_pending:
  assumes "subring_ok r" "length es \<le> subring_room r" "push_each r es = (r', n)"
  shows "subring_ok r' \<and> subring_pending r' = subring_pending r @ take (256 - length (subring_pending r)) es
    \<and> sr_drops r' = sr_drops r + word_of_nat (length es - (256 - length (subring_pending r)))"
  using assms
proof (induction es arbitrary: r n)
  case (Cons e es)
  obtain r1 b where p: "SubRing_Push r e = (r1, b)" by force
  obtain k where e: "push_each r1 es = (r', k)" using Cons.prems(3) p by (auto split: prod.splits)
  have pos: "0 < subring_room r" using Cons.prems(2) by simp
  note c = subring.push_cases[OF Cons.prems(1) pos p]
  have le: "length (subring_pending r) \<le> 256" by (rule subring.bound[OF Cons.prems(1)])
  show ?case
  proof (cases "length (subring_pending r) < 256")
    case True
    then have f: "subring_ok r1" "subring_pending r1 = subring_pending r @ [e]" "sr_drops r1 = sr_drops r" "Suc (subring_room r1) = subring_room r"
      using subring_push_free[OF Cons.prems(1) True pos p] by simp_all
    have "length es \<le> subring_room r1" using Cons.prems(2) f(4) by simp
    from Cons.IH[OF f(1) this e] True show ?thesis by (simp add: f(2,3) Suc_diff_Suc[symmetric])
  next
    case False
    then have l: "length (subring_pending r) = 256" using le by simp
    then have f: "subring_ok r1" "subring_pending r1 = subring_pending r" "sr_drops r1 = sr_drops r + 1" "subring_room r1 = subring_room r"
      using subring_push_full[OF Cons.prems(1) l p] by simp_all
    have "length es \<le> subring_room r1" using Cons.prems(2) f(4) by simp
    from Cons.IH[OF f(1) this e] l show ?thesis by (simp add: f(2,3) ac_simps)
  qed
qed simp

text \<open>
  C38.  Depositing a batch on every corpus with one publication per ring is the same as dispatching its
  events one after the other: the same rings, slot by slot, the same drop counters and the same number
  of accepted placements, when each ring holds at most 256 events.  On consistent rings with room in
  their counters, each corpus receives the events in order as far as it has space.\<close>

theorem corpus_batch_exact:
  assumes "\<forall>sr \<in> set (cr_rings r). occupied sr \<le> 256" "length es < 2 ^ 63"
  shows "DispatchFanoutBatch r es = fanout_each r es
    \<and> (\<forall>i < length (cr_rings r). let sr = cr_rings r ! i; sr' = cr_rings (fst (DispatchFanoutBatch r es)) ! i in
        subring_ok sr \<and> length es \<le> subring_room sr \<longrightarrow>
          subring_pending sr' = subring_pending sr @ take (256 - length (subring_pending sr)) es
          \<and> sr_drops sr' = sr_drops sr + word_of_nat (length es - (256 - length (subring_pending sr))))"
proof -
  have b: "DispatchFanoutBatch r es = fanout_each r es"
    by (cases "es = []") (simp_all add: DispatchFanoutBatch_def fanout_each_rings rings_each_Nil fanout_batch_rings[OF assms])
  have d: "cr_rings (fst (DispatchFanoutBatch r es)) ! i = fst (push_each (cr_rings r ! i) es)" if "i < length (cr_rings r)" for i
  proof -
    have "cr_rings (fst (DispatchFanoutBatch r es)) = map (\<lambda>sr. deposit sr es) (cr_rings r)"
      unfolding b fanout_each_rings rings_each_deposit[OF assms(1), symmetric] by (simp split: prod.split)
    moreover have "occupied (cr_rings r ! i) \<le> 256" using assms(1) that by simp
    ultimately show ?thesis using that by (simp add: push_each_deposit)
  qed
  show ?thesis using b d push_each_pending by (simp add: Let_def) (metis prod.collapse)
qed

theorem corpus_batch_exact_witness:
  "DispatchFanoutBatch NewCorpusRouter (replicate 300 zero_event) = fanout_each NewCorpusRouter (replicate 300 zero_event)"
  using corpus_batch_exact[of NewCorpusRouter "replicate 300 zero_event"]
  by (simp add: NewCorpusRouter_def occupied_def SubRing_zero_def)

end
