(* ===== verification/Quarantine.thy ===== *)
theory Quarantine
  imports Veto GrayZone
begin

text \<open>
  The quarantine of \<open>internal/engine/feedback_quarantine.go\<close>: arbitrated incidents wait in a bounded
  chamber, are validated against a sealed set held out, and the approved ones are promoted into the
  active codebook.  SHA-256 and the rounded division of two counts are parameters; each call runs
  under the mutex of the chamber.
\<close>

abbreviation DefaultHammingThreshold :: int where "DefaultHammingThreshold \<equiv> 200"

datatype quarantine_error = ErrQuarantineFull | ErrHoldoutUnvalidated | ErrHoldoutSealMismatch

text \<open>What the seal absorbs of an entry.\<close>

definition seal_entry :: "CodebookEntry \<Rightarrow> bytes" where
  "seal_entry e = concat (map (le_put 8) (Bitcode e)) @ le_put 4 (ThreatID e) @ le_put 2 (ESubsystem e) @ le_put 2 (Severity e)"

definition ComputeHoldoutSeal :: "(bytes \<Rightarrow> bytes) \<Rightarrow> CodebookEntry list \<Rightarrow> bytes" where
  "ComputeHoldoutSeal sha es = sha (concat (map seal_entry es))"

record IncidentQuarantined =
  Fingerprint :: bytes
  qTimestampNs :: int
  qBitcode :: "u64 list"
  qOntoKey :: OntoKey
  qVerdict :: byte
  qThreatID :: u32
  qSubsystem :: u16
  qSeverity :: u16

record QuarantineChamber =
  incidents :: "IncidentQuarantined list"
  capacity :: int

definition NewQuarantineChamber :: "int \<Rightarrow> QuarantineChamber" where
  "NewQuarantineChamber cap = \<lparr>incidents = [], capacity = (if cap \<le> 0 then 1000 else cap)\<rparr>"

definition hex_digit :: "byte \<Rightarrow> byte" where
  "hex_digit n = (if n < 10 then 0x30 + n else 0x57 + n)"

definition EncodeToString :: "bytes \<Rightarrow> bytes" where
  "EncodeToString bs = concat (map (\<lambda>b. [hex_digit (b div 16), hex_digit (b mod 16)]) bs)"

definition EnqueueIncident :: "(bytes \<Rightarrow> bytes) \<Rightarrow> int \<Rightarrow> u64 list \<Rightarrow> OntoKey \<Rightarrow> byte \<Rightarrow> u32 \<Rightarrow> u16 \<Rightarrow> u16 \<Rightarrow> QuarantineChamber
    \<Rightarrow> QuarantineChamber \<times> (quarantine_error + bytes)" where
  "EnqueueIncident sha now bitcode key verdict threatID sub sev qc =
     (if capacity qc \<le> int (length (incidents qc)) then (qc, Inl ErrQuarantineFull)
      else let fp = sha (concat (map (le_put 8) bitcode) @ le_put 4 key @ [verdict] @ le_put 4 threatID);
               inc = \<lparr>Fingerprint = fp, qTimestampNs = now, qBitcode = bitcode, qOntoKey = key, qVerdict = verdict,
                      qThreatID = threatID, qSubsystem = sub, qSeverity = sev\<rparr> in
        (qc\<lparr>incidents := incidents qc @ [inc]\<rparr>, Inr (EncodeToString fp)))"

definition Chamber_Len :: "QuarantineChamber \<Rightarrow> nat" where
  "Chamber_Len qc = length (incidents qc)"

definition bitcodeHammingDistance :: "u64 list \<Rightarrow> u64 list \<Rightarrow> int" where
  "bitcodeHammingDistance a b = foldl (\<lambda>dist w. dist + OnesCount64 (a ! w XOR b ! w)) 0 [0..<8]"

text \<open>The tolerance is a float; \<open>quo\<close> gives the quotient of two counts rounded to a float.\<close>

definition holdout_refused :: "Codebook option \<Rightarrow> go_float \<Rightarrow> bool" where
  "holdout_refused holdoutRef maxAllowedRegression \<longleftrightarrow> holdoutRef = None \<or> Codebook_Len holdoutRef = 0
     \<or> float_less maxAllowedRegression 0 \<or> maxAllowedRegression = FNaN"

definition collision :: "bool \<Rightarrow> IncidentQuarantined \<Rightarrow> CodebookEntry \<Rightarrow> bool" where
  "collision sealed inc e \<longleftrightarrow> \<not> (ThreatID e \<noteq> 0 \<and> sealed) \<and> bitcodeHammingDistance (qBitcode inc) (Bitcode e) < DefaultHammingThreshold"

definition entry_of :: "IncidentQuarantined \<Rightarrow> CodebookEntry" where
  "entry_of inc = \<lparr>Bitcode = qBitcode inc, ThreatID = qThreatID inc, ESubsystem = qSubsystem inc, Severity = qSeverity inc\<rparr>"

text \<open>The loop over the incidents: the approved entries and the number of refusals.\<close>

fun validate_loop :: "(nat \<Rightarrow> nat \<Rightarrow> rat) \<Rightarrow> go_float \<Rightarrow> bool \<Rightarrow> CodebookEntry list \<Rightarrow> IncidentQuarantined list \<Rightarrow> CodebookEntry list \<times> nat" where
  "validate_loop quo tol sealed refEntries [] = ([], 0)"
| "validate_loop quo tol sealed refEntries (inc # incs) =
     (case validate_loop quo tol sealed refEntries incs of (approved, rejected) \<Rightarrow>
      if qVerdict inc \<noteq> CascadeFastDrop \<and> qVerdict inc \<noteq> OntoVerdictDeny then (approved, rejected)
      else let collisions = length (filter (collision sealed inc) refEntries) in
        if 0 < collisions \<and> float_less tol (quo collisions (length refEntries)) then (approved, Suc rejected)
        else (entry_of inc # approved, rejected))"

definition ValidateAgainstSealedHoldout :: "(bytes \<Rightarrow> bytes) \<Rightarrow> (nat \<Rightarrow> nat \<Rightarrow> rat) \<Rightarrow> Codebook option \<Rightarrow> bytes \<Rightarrow> go_float \<Rightarrow> QuarantineChamber
    \<Rightarrow> QuarantineChamber \<times> CodebookEntry list \<times> quarantine_error option" where
  "ValidateAgainstSealedHoldout sha quo holdoutRef expectedSeal tol qc =
     (let sealed = expectedSeal \<noteq> replicate 32 0 in
      if incidents qc = [] then (qc, [], if holdout_refused holdoutRef tol then Some ErrHoldoutUnvalidated else None)
      else if sealed \<and> (holdoutRef = None \<or> ComputeHoldoutSeal sha (Entries holdoutRef) \<noteq> expectedSeal) then (qc, [], Some ErrHoldoutSealMismatch)
      else if holdout_refused holdoutRef tol then (qc, [], Some ErrHoldoutUnvalidated)
      else case validate_loop quo tol sealed (Entries holdoutRef) (incidents qc) of (approved, rejected) \<Rightarrow>
        (qc\<lparr>incidents := []\<rparr>, approved, if 0 < rejected then Some ErrHoldoutUnvalidated else None))"

definition ValidateAgainstHoldoutSet :: "(bytes \<Rightarrow> bytes) \<Rightarrow> (nat \<Rightarrow> nat \<Rightarrow> rat) \<Rightarrow> Codebook option \<Rightarrow> go_float \<Rightarrow> QuarantineChamber
    \<Rightarrow> QuarantineChamber \<times> CodebookEntry list \<times> quarantine_error option" where
  "ValidateAgainstHoldoutSet sha quo holdoutRef tol qc = ValidateAgainstSealedHoldout sha quo holdoutRef (replicate 32 0) tol qc"

datatype promote_error = PromoteSave codebook_error | PromoteReload codebook_error

definition PromoteAndReload :: "(string \<rightharpoonup> bytes) \<Rightarrow> (string \<Rightarrow> bool) \<Rightarrow> string \<Rightarrow> AtomicCodebook option \<Rightarrow> CodebookEntry list
    \<Rightarrow> (string \<rightharpoonup> bytes) \<times> AtomicCodebook option \<times> promote_error option" where
  "PromoteAndReload fs creatable targetPath ac approvedEntries = (case ac of
     None \<Rightarrow> (fs, None, None)
   | Some a \<Rightarrow>
     if approvedEntries = [] then (fs, Some a, None)
     else case SaveCodebook fs creatable targetPath (Entries (Current a) @ approvedEntries) of
       (fs', Some err) \<Rightarrow> (fs', Some a, Some (PromoteSave err))
     | (fs', None) \<Rightarrow> (case ReloadFile fs' a targetPath of (a', err) \<Rightarrow> (fs', Some a', map_option PromoteReload err)))"

section \<open>Validation\<close>

lemma bitcode_codebook: "bitcodeHammingDistance q (Bitcode e) = codebookHamming q e"
  by (simp add: bitcodeHammingDistance_def codebookHamming_def upt_8 Let_def)

lemma seal_encodes: "entry_wf e \<Longrightarrow> seal_entry e = encodeCodebookEntry e"
proof -
  assume "entry_wf e"
  then have "map (le_put 8) (Bitcode e) = map (\<lambda>k. le_put 8 (Bitcode e ! k)) [0..<8]"
    by (intro nth_equalityI) (simp_all add: entry_wf_def)
  then show ?thesis by (simp only: seal_entry_def encodeCodebookEntry_def)
qed

definition admitted :: "(nat \<Rightarrow> nat \<Rightarrow> rat) \<Rightarrow> go_float \<Rightarrow> bool \<Rightarrow> CodebookEntry list \<Rightarrow> IncidentQuarantined \<Rightarrow> bool" where
  "admitted quo tol sealed refs inc \<longleftrightarrow> (let c = length (filter (collision sealed inc) refs) in c = 0 \<or> \<not> float_less tol (quo c (length refs)))"

lemma validate_loop_exact:
  "validate_loop quo tol sealed refs incs =
     (map entry_of (filter (\<lambda>i. qVerdict i = 2 \<and> admitted quo tol sealed refs i) incs), length (filter (\<lambda>i. qVerdict i = 2 \<and> \<not> admitted quo tol sealed refs i) incs))"
  by (induction incs) (auto simp: admitted_def Let_def split: prod.split)

text \<open>What a validation that approves something has checked.\<close>

lemma validated:
  assumes "ValidateAgainstSealedHoldout sha quo holdoutRef expectedSeal tol qc = (qc', approved, err)" "approved \<noteq> []"
  shows "expectedSeal = replicate 32 0 \<or> ComputeHoldoutSeal sha (Entries holdoutRef) = expectedSeal"
    and "approved = map entry_of (filter (\<lambda>i. qVerdict i = 2 \<and> admitted quo tol (expectedSeal \<noteq> replicate 32 0) (Entries holdoutRef) i) (incidents qc))"
    and "incidents qc' = []"
  using assms by (auto simp: ValidateAgainstSealedHoldout_def validate_loop_exact Let_def split: if_splits)

text \<open>At tolerance zero an approved entry is at a distance of 200 bits from every protected one.\<close>

lemma admitted_far:
  assumes "admitted quo (FNum neg 0) sealed refs inc" "\<And>c. 0 < c \<Longrightarrow> 0 < quo c (length refs)" "b \<in> set refs" "ThreatID b = 0 \<or> \<not> sealed"
  shows "200 \<le> codebookHamming (Bitcode b) (entry_of inc)"
proof -
  have "\<not> collision sealed inc b"
  proof
    assume "collision sealed inc b"
    then have "0 < length (filter (collision sealed inc) refs)" using assms(3) by (auto simp: filter_empty_conv)
    then show False using assms(1) assms(2)[of "length (filter (collision sealed inc) refs)"]
      by (auto simp: admitted_def Let_def float_less_def fnum_def split: if_splits)
  qed
  then have "200 \<le> codebookHamming (qBitcode inc) b" using assms(4) by (auto simp: collision_def bitcode_codebook)
  then show ?thesis by (simp add: codebookHamming_def entry_of_def Let_def xor.commute)
qed

lemma nearest_far: "\<forall>e \<in> set es. m < codebookHamming q e \<Longrightarrow> foldl (nearest_step q m) st es = st"
  by (induction es arbitrary: st) (auto simp: nearest_step_def entry_distance_exact Let_def split: prod.split)

section \<open>Property\<close>

text \<open>
  C37.  A promotion does not degrade the set held out.  When a batch validated at tolerance zero against a
  sealed set is promoted into the active codebook, the codebook has the former entries followed by
  the approved ones, on disk and in memory, and for every benign code of the set held out (every code
  when no seal is declared) a search of any radius below 200 gives what it gave before the promotion.\<close>

theorem promotion_keeps_holdout:
  assumes "ValidateAgainstSealedHoldout sha quo holdoutRef expectedSeal (FNum neg 0) qc = (qc', approved, err)" "approved \<noteq> []"
    and "\<And>c. 0 < c \<Longrightarrow> 0 < quo c (length (Entries holdoutRef))" "\<forall>i \<in> set (incidents qc). length (qBitcode i) = 8"
    and "list_all entry_wf (Entries (Current ac))" "length (Entries (Current ac)) + length (incidents qc) \<le> codebookMaxEntries" "creatable path"
  shows "\<exists>fs' ac'. PromoteAndReload fs creatable path (Some ac) approved = (fs', Some ac', None)
    \<and> Entries (Current ac') = Entries (Current ac) @ approved \<and> LoadCodebook fs' path = Inr (the (Current ac'))
    \<and> (\<forall>b \<in> set (Entries holdoutRef). \<forall>m. (ThreatID b = 0 \<or> expectedSeal = replicate 32 0) \<and> m < 200 \<longrightarrow>
        Atomic_SearchNearest ac' (Some (Bitcode b)) m = Atomic_SearchNearest ac (Some (Bitcode b)) m)"
proof -
  let ?old = "Entries (Current ac)"
  note v = validated[OF assms(1,2)]
  have wf: "list_all entry_wf (?old @ approved)" using assms(4,5) by (auto simp: v(2) list_all_iff entry_wf_def entry_of_def)
  have n: "length (?old @ approved) \<le> codebookMaxEntries"
    unfolding v(2) length_append length_map by (rule order_trans[OF add_left_mono[OF length_filter_le] assms(6)])
  define fs' ac' where "fs' = fs(path \<mapsto> codebook_file (?old @ approved))" and "ac' = Swap ac (Some \<lparr>entries = ?old @ approved\<rparr>)"
  have l: "LoadCodebook fs' path = Inr \<lparr>entries = ?old @ approved\<rparr>" using parse_codebook_file[OF wf n] by (simp add: LoadCodebook_def fs'_def)
  have p: "PromoteAndReload fs creatable path (Some ac) approved = (fs', Some ac', None)"
    using assms(2,7) l by (simp add: PromoteAndReload_def SaveCodebook_def ReloadFile_def fs'_def[symmetric] ac'_def)
  have c: "Current ac' = Some \<lparr>entries = ?old @ approved\<rparr>" by (simp add: ac'_def Swap_def Current_def)
  have s: "Atomic_SearchNearest ac' (Some (Bitcode b)) m = Atomic_SearchNearest ac (Some (Bitcode b)) m"
    if "b \<in> set (Entries holdoutRef)" "ThreatID b = 0 \<or> expectedSeal = replicate 32 0" "m < 200" for b m
  proof -
    have far: "\<forall>e \<in> set approved. m < codebookHamming (Bitcode b) e"
    proof
      fix e assume "e \<in> set approved"
      then obtain i where "e = entry_of i" "admitted quo (FNum neg 0) (expectedSeal \<noteq> replicate 32 0) (Entries holdoutRef) i" by (auto simp: v(2))
      moreover have "ThreatID b = 0 \<or> \<not> expectedSeal \<noteq> replicate 32 0" using that(2) by blast
      ultimately have "200 \<le> codebookHamming (Bitcode b) e" using admitted_far[of quo neg "expectedSeal \<noteq> replicate 32 0" "Entries holdoutRef" i b, OF _ assms(3) that(1)] by blast
      then show "m < codebookHamming (Bitcode b) e" using that(3) by linarith
    qed
    show ?thesis by (cases "Current ac") (simp_all add: Atomic_SearchNearest_def SearchNearest_def c Entries_def nearest_far[OF far])
  qed
  show ?thesis using p c l s by (auto simp: Entries_def)
qed

text \<open>One benign entry held out, and an incident at the other end of the space.\<close>

definition held_out :: CodebookEntry where
  "held_out = zero_entry\<lparr>Bitcode := replicate 8 (- 1)\<rparr>"

definition far_incident :: IncidentQuarantined where
  "far_incident = \<lparr>Fingerprint = [], qTimestampNs = 0, qBitcode = replicate 8 0, qOntoKey = 0, qVerdict = 2, qThreatID = 9, qSubsystem = 1, qSeverity = 2\<rparr>"

lemma far_validated:
  "ValidateAgainstSealedHoldout (\<lambda>_. replicate 32 7) (\<lambda>c n. of_nat c / of_nat n) (Some \<lparr>entries = [held_out]\<rparr>) (replicate 32 7) (FNum False 0)
     \<lparr>incidents = [far_incident], capacity = 10\<rparr> = (\<lparr>incidents = [], capacity = 10\<rparr>, [entry_of far_incident], None)"
proof -
  have "OnesCount64 (- 1) = 64" by (simp add: OnesCount64_def)
  then have "\<not> collision True far_incident held_out"
    by (simp add: collision_def bitcodeHammingDistance_def upt_8 far_incident_def held_out_def zero_entry_def)
  moreover have "replicate 32 (7 :: byte) \<noteq> replicate 32 0" by (simp add: replicate_eq_replicate)
  ultimately show ?thesis
    by (simp add: ValidateAgainstSealedHoldout_def ComputeHoldoutSeal_def holdout_refused_def Codebook_Len_def float_less_def fnum_def Entries_def)
      (simp add: far_incident_def)
qed

theorem promotion_keeps_holdout_witness:
  "\<exists>fs' ac'. PromoteAndReload (\<lambda>_. None) (\<lambda>_. True) ''book'' (Some (NewAtomicCodebook None)) [entry_of far_incident] = (fs', Some ac', None)
    \<and> Atomic_SearchNearest ac' (Some (Bitcode held_out)) 199 = Atomic_SearchNearest (NewAtomicCodebook None) (Some (Bitcode held_out)) 199"
  using promotion_keeps_holdout[OF far_validated, of "NewAtomicCodebook None" "\<lambda>_. True" "''book''" "\<lambda>_. None"]
  by (auto simp: Entries_def NewAtomicCodebook_def Current_def far_incident_def held_out_def zero_entry_def)

end
