(* ===== verification/SyntaxFilter.thy ===== *)
theory SyntaxFilter
  imports Entropy Veto
begin

text \<open>
  The source-code filter of \<open>internal/engine/syntax_filter.go\<close>: the normalisation that removes comments
  and collapses blanks without allocation, and the test for padding and low entropy.  The destination
  is its backing array; a write outside it is \<open>Panic\<close>.
\<close>

definition boilerplateBytes :: bytes where
  "boilerplateBytes = [0x00, 0x20, 0x90, 0x3D, 0x2D, 0x2A]"

definition isCodeSpace :: "byte \<Rightarrow> bool" where
  "isCodeSpace b \<longleftrightarrow> b \<in> {0x20, 0x09, 0x0D, 0x0A, 0x0B, 0x0C}"

definition hasHashCommentPrefix :: "bytes \<Rightarrow> nat \<Rightarrow> bool" where
  "hasHashCommentPrefix src i \<longleftrightarrow> i = 0 \<or> isCodeSpace (src ! (i - 1))"

section \<open>The loops\<close>

text \<open>The body of a literal, copied up to the closing quote: the new positions and the array.\<close>

function quote_loop :: "bytes \<Rightarrow> byte \<Rightarrow> nat \<Rightarrow> nat \<Rightarrow> bytes \<Rightarrow> (nat \<times> nat \<times> bytes) outcome" where
  "quote_loop src q i n dst =
     (if length src \<le> i then Ret (i, n, dst)
      else let ch = src ! i in
        obind (write_at dst n ch) (\<lambda>dst.
          if ch = 0x5C \<and> q \<noteq> 0x60 \<and> i + 1 < length src
          then obind (write_at dst (n + 1) (src ! (i + 1))) (\<lambda>dst. quote_loop src q (i + 2) (n + 2) dst)
          else if ch = q then Ret (i + 1, n + 1, dst)
          else quote_loop src q (i + 1) (n + 1) dst))"
  by pat_completeness auto

termination
  by (relation "measure (\<lambda>(src, q, i, n, dst). length src - i)") auto

function skip_line :: "bytes \<Rightarrow> nat \<Rightarrow> nat" where
  "skip_line src i = (if i < length src \<and> src ! i \<noteq> 0x0A then skip_line src (i + 1) else i)"
  by pat_completeness auto

termination
  by (relation "measure (\<lambda>(src, i). length src - i)") auto

function skip_block :: "bytes \<Rightarrow> nat \<Rightarrow> nat" where
  "skip_block src i = (if i + 1 < length src \<and> \<not> (src ! i = 0x2A \<and> src ! (i + 1) = 0x2F) then skip_block src (i + 1) else i)"
  by pat_completeness auto

termination
  by (relation "measure (\<lambda>(src, i). length src - i)") auto

function skip_space :: "bytes \<Rightarrow> nat \<Rightarrow> nat" where
  "skip_space src i = (if i < length src \<and> isCodeSpace (src ! i) then skip_space src (i + 1) else i)"
  by pat_completeness auto

termination
  by (relation "measure (\<lambda>(src, i). length src - i)") auto

declare quote_loop.simps [simp del] skip_line.simps [simp del] skip_block.simps [simp del] skip_space.simps [simp del]

lemma skip_ge: "i \<le> skip_line src i" "i \<le> skip_block src i" "i \<le> skip_space src i"
proof -
  show "i \<le> skip_line src i"
    by (induction src i rule: skip_line.induct) (subst skip_line.simps, auto)
  show "i \<le> skip_block src i"
    by (induction src i rule: skip_block.induct) (subst skip_block.simps, auto)
  show "i \<le> skip_space src i"
    by (induction src i rule: skip_space.induct) (subst skip_space.simps, auto)
qed

lemma skip_step:
  "i < length src \<Longrightarrow> src ! i \<noteq> 0x0A \<Longrightarrow> i < skip_line src i"
  "i < length src \<Longrightarrow> isCodeSpace (src ! i) \<Longrightarrow> i < skip_space src i"
  using skip_ge(1)[of "i + 1" src] skip_ge(3)[of "i + 1" src] by (simp_all add: skip_line.simps[of src i] skip_space.simps[of src i])

lemma quote_ge: "quote_loop src q i n dst = Ret (i', n', dst') \<Longrightarrow> i \<le> i'"
proof (induction src q i n dst arbitrary: i' n' dst' rule: quote_loop.induct)
  case (1 src q i n dst)
  show ?case
  proof (cases "length src \<le> i")
    case True
    then show ?thesis using "1.prems" by (simp add: quote_loop.simps[of src q i])
  next
    case False
    then obtain d1 where d1: "write_at dst n (src ! i) = Ret d1"
      and r: "(if src ! i = 0x5C \<and> q \<noteq> 0x60 \<and> i + 1 < length src
          then obind (write_at d1 (n + 1) (src ! (i + 1))) (\<lambda>dst. quote_loop src q (i + 2) (n + 2) dst)
          else if src ! i = q then Ret (i + 1, n + 1, d1)
          else quote_loop src q (i + 1) (n + 1) d1) = Ret (i', n', dst')"
      using "1.prems" by (auto simp: quote_loop.simps[of src q i] Let_def outcome_simps)
    show ?thesis using r "1.IH"[OF False refl d1] by (auto simp: outcome_simps split: if_splits) force+
  qed
qed

text \<open>One pass over the window; \<open>limit\<close> is the length of the source.\<close>

function norm_loop :: "bytes \<Rightarrow> nat \<Rightarrow> nat \<Rightarrow> bytes \<Rightarrow> (nat \<times> bytes) outcome" where
  "norm_loop src i n dst =
     (if length src \<le> i then Ret (n, dst)
      else let c = src ! i in
        if c = 0x22 \<or> c = 0x27 \<or> c = 0x60
        then obind (write_at dst n c) (\<lambda>dst. obind (quote_loop src c (i + 1) (n + 1) dst) (\<lambda>(i', n', dst). norm_loop src i' n' dst))
        else if c = 0x2F \<and> i + 1 < length src \<and> src ! (i + 1) = 0x2F then norm_loop src (skip_line src i) n dst
        else if c = 0x2F \<and> i + 1 < length src \<and> src ! (i + 1) = 0x2A
        then (let j = skip_block src (i + 2) in norm_loop src (if j + 1 < length src then j + 2 else length src) n dst)
        else if c = 0x23 \<and> hasHashCommentPrefix src i then norm_loop src (skip_line src i) n dst
        else if isCodeSpace c
        then (let j = skip_space src i in
          if n = 0 then obind (write_at dst n 0x20) (\<lambda>dst. norm_loop src j (n + 1) dst)
          else obind (get_at dst (n - 1)) (\<lambda>p.
            if p \<noteq> 0x20 then obind (write_at dst n 0x20) (\<lambda>dst. norm_loop src j (n + 1) dst) else norm_loop src j n dst))
        else obind (write_at dst n c) (\<lambda>dst. norm_loop src (i + 1) (n + 1) dst))"
  by pat_completeness auto

termination
proof (relation "measure (\<lambda>(src, i, n, dst). length src - i)", goal_cases)
  case (2 src i n dst c d1 x i' y n' d2)
  then show ?case using quote_ge[of src c "i + 1" "n + 1" d1] by auto
next
  case (3 src i n dst c)
  then show ?case using skip_step(1)[of i src] by auto
next
  case (4 src i n dst c j)
  then show ?case using skip_ge(2)[of "i + 2" src] by auto
next
  case (5 src i n dst c)
  then show ?case using skip_step(1)[of i src] by auto
next
  case (6 src i n dst c j)
  then show ?case using skip_step(2)[of i src] by auto
next
  case (7 src i n dst c j)
  then show ?case using skip_step(2)[of i src] by auto
next
  case (8 src i n dst c j)
  then show ?case using skip_step(2)[of i src] by auto
qed auto

declare norm_loop.simps [simp del]

definition NormalizeCodeWindow :: "bytes \<Rightarrow> bytes \<Rightarrow> (nat \<times> bytes) outcome" where
  "NormalizeCodeWindow src dst = (if length dst < length src then Ret (0, dst) else norm_loop src 0 0 dst)"

section \<open>Padding\<close>

definition CalculateEntropyQ8 :: "bytes \<Rightarrow> u32 outcome" where
  "CalculateEntropyQ8 payload = (if payload = [] then Ret 0 else C2bt_calc_entropy_8_8 payload (word_of_nat (length payload)))"

definition CalculateShannonEntropy :: "bytes \<Rightarrow> go_float outcome" where
  "CalculateShannonEntropy payload = obind (CalculateEntropyQ8 payload) (\<lambda>q. Ret (FNum False (of_nat (unat q) / 256)))"

text \<open>\<open>minEntropy > 0\<close>, and the test of the frequencies of the padding octets.\<close>

definition float_positive :: "go_float \<Rightarrow> bool" where
  "float_positive x = (case x of FNaN \<Rightarrow> False | FInf neg \<Rightarrow> \<not> neg | FNum neg r \<Rightarrow> 0 < fnum neg r)"

definition boilerplate_run :: "bytes \<Rightarrow> bool" where
  "boilerplate_run payload \<longleftrightarrow> list_ex (\<lambda>b. length payload * 3 < length (filter ((=) b) payload) * 4) boilerplateBytes"

definition IsBoilerplateOrLowEntropy :: "bytes \<Rightarrow> go_float \<Rightarrow> bool outcome" where
  "IsBoilerplateOrLowEntropy payload minEntropy =
     (if payload = [] then Ret True
      else if float_positive minEntropy
      then obind (CalculateEntropyQ8 payload) (\<lambda>q. Ret (q < float_q8 minEntropy \<or> boilerplate_run payload))
      else Ret (boilerplate_run payload))"

section \<open>Tokens\<close>

text \<open>The reference: a window is a list of tokens, cut off its front one by one.\<close>

datatype token = Literal bytes | Comment bytes | Blank bytes | Plain byte

fun token_text :: "token \<Rightarrow> bytes" where
  "token_text (Literal b) = b"
| "token_text (Comment b) = b"
| "token_text (Blank b) = b"
| "token_text (Plain c) = [c]"

text \<open>The rest of a literal after its quote, up to the first quote that is not escaped.\<close>

fun literal_body :: "byte \<Rightarrow> bytes \<Rightarrow> bytes" where
  "literal_body q [] = []"
| "literal_body q [c] = [c]"
| "literal_body q (c # d # cs) =
     (if c = 0x5C \<and> q \<noteq> 0x60 then c # d # literal_body q cs else if c = q then [c] else c # literal_body q (d # cs))"

fun block_body :: "bytes \<Rightarrow> bytes" where
  "block_body (c # d # cs) = (if c = 0x2A \<and> d = 0x2F then [c, d] else c # block_body (d # cs))"
| "block_body cs = cs"

text \<open>The first token of a non-empty window, after the octet \<open>prev\<close>.\<close>

definition first_token :: "byte option \<Rightarrow> bytes \<Rightarrow> token" where
  "first_token prev cs = (let c = hd cs; line = takeWhile (\<lambda>b. b \<noteq> 0x0A) cs in
     if c = 0x22 \<or> c = 0x27 \<or> c = 0x60 then Literal (c # literal_body c (tl cs))
     else if prefix [0x2F, 0x2F] cs then Comment line
     else if prefix [0x2F, 0x2A] cs then Comment (0x2F # 0x2A # block_body (drop 2 cs))
     else if c = 0x23 \<and> (case prev of None \<Rightarrow> True | Some b \<Rightarrow> isCodeSpace b) then Comment line
     else if isCodeSpace c then Blank (takeWhile isCodeSpace cs)
     else Plain c)"

lemma literal_body_prefix: "prefix (literal_body q cs) cs"
  by (induction q cs rule: literal_body.induct) auto

lemma block_body_prefix: "prefix (block_body cs) cs"
  by (induction cs rule: block_body.induct) auto

lemma first_token_prefix: "cs \<noteq> [] \<Longrightarrow> prefix (token_text (first_token prev cs)) cs \<and> token_text (first_token prev cs) \<noteq> []"
proof -
  assume ne: "cs \<noteq> []"
  have t: "prefix (takeWhile P cs) cs" for P by (metis prefixI takeWhile_dropWhile_id)
  have b: "prefix [a, d] cs \<Longrightarrow> prefix (a # d # block_body (drop 2 cs)) cs" for a d
    by (auto elim!: prefixE[of "[a, d]"] simp: block_body_prefix)
  have l: "prefix (hd cs # literal_body c (tl cs)) cs" for c using ne literal_body_prefix[of c "tl cs"] by (cases cs) auto
  have n: "prefix [0x2F, 0x2F] cs \<Longrightarrow> hd cs \<noteq> 0x0A" using ne by (auto elim!: prefixE)
  have w: "P (hd cs) \<Longrightarrow> takeWhile P cs \<noteq> []" for P using ne by (cases cs) auto
  show ?thesis using t b l n w[of "\<lambda>b. b \<noteq> 0x0A"] w[of isCodeSpace] ne
    by (auto simp: first_token_def Let_def split: option.split) (cases cs; simp)+
qed

function tokens :: "byte option \<Rightarrow> bytes \<Rightarrow> token list" where
  "tokens prev cs =
     (if cs = [] then []
      else let t = first_token prev cs in t # tokens (Some (last (token_text t))) (drop (length (token_text t)) cs))"
  by pat_completeness auto

termination
  by (relation "measure (\<lambda>(prev, cs). length cs)") (use first_token_prefix in auto)

declare tokens.simps [simp del]

text \<open>What is kept: literals as they are, a run of blanks as one space unless a space precedes, nothing of a comment.\<close>

fun render :: "bytes \<Rightarrow> token list \<Rightarrow> bytes" where
  "render out [] = out"
| "render out (Literal b # ts) = render (out @ b) ts"
| "render out (Comment b # ts) = render out ts"
| "render out (Blank b # ts) = render (if out \<noteq> [] \<and> last out = 0x20 then out else out @ [0x20]) ts"
| "render out (Plain c # ts) = render (out @ [c]) ts"

lemma tokens_text: "concat (map token_text (tokens prev cs)) = cs"
proof (induction prev cs rule: tokens.induct)
  case (1 prev cs)
  show ?case
  proof (cases "cs = []")
    case False
    obtain ys where "cs = token_text (first_token prev cs) @ ys" using first_token_prefix[OF False, of prev] by (auto elim: prefixE)
    then show ?thesis using "1.IH"[OF False refl] False by (subst tokens.simps) (simp add: Let_def, metis append_eq_conv_conj)
  qed (simp add: tokens.simps)
qed

section \<open>The loops cut tokens\<close>

text \<open>The array when \<open>out\<close> has been written.\<close>

definition buf :: "bytes \<Rightarrow> bytes \<Rightarrow> bytes" where
  "buf d out = out @ drop (length out) d"

lemma put_buf: "length out < length d \<Longrightarrow> n = length out \<Longrightarrow> write_at (buf d out) n c = Ret (buf d (out @ [c]))"
  by (simp add: write_at_def buf_def list_update_append Cons_nth_drop_Suc[symmetric])

lemma get_buf: "out \<noteq> [] \<Longrightarrow> n = length out - 1 \<Longrightarrow> get_at (buf d out) n = Ret (last out)"
  by (cases out rule: rev_cases) (simp_all add: buf_def get_at_def nth_append)

lemma drop_nth: "i < length src \<Longrightarrow> drop i src = src ! i # drop (Suc i) src"
  by (simp add: Cons_nth_drop_Suc)

lemma skip_line_take: "skip_line src i = i + length (takeWhile (\<lambda>b. b \<noteq> 0x0A) (drop i src))"
proof (induction src i rule: skip_line.induct)
  case (1 src i)
  show ?case
  proof (cases "i < length src")
    case True
    then show ?thesis using 1 by (subst skip_line.simps) (simp add: drop_nth)
  qed (simp add: skip_line.simps)
qed

lemma skip_space_take: "skip_space src i = i + length (takeWhile isCodeSpace (drop i src))"
proof (induction src i rule: skip_space.induct)
  case (1 src i)
  show ?case
  proof (cases "i < length src")
    case True
    then show ?thesis using 1 by (subst skip_space.simps) (simp add: drop_nth)
  qed (simp add: skip_space.simps)
qed

lemma skip_block_take:
  "i \<le> length src \<Longrightarrow> (let j = skip_block src i in if j + 1 < length src then j + 2 else length src) = i + length (block_body (drop i src))"
proof (induction src i rule: skip_block.induct)
  case (1 src i)
  show ?case
  proof (cases "i + 1 < length src")
    case True
    then have d: "drop i src = src ! i # src ! Suc i # drop (i + 2) src" "drop (Suc i) src = src ! Suc i # drop (i + 2) src"
      using drop_nth[of i src] drop_nth[of "i + 1" src] by simp_all
    show ?thesis using 1 True by (cases "src ! i = 0x2A \<and> src ! (i + 1) = 0x2F") (auto simp: d skip_block.simps[of src i] Let_def)
  next
    case False
    have "block_body cs = cs" if "length cs \<le> 1" for cs using that by (cases cs rule: block_body.cases) auto
    then have "block_body (drop i src) = drop i src" using False by simp
    then show ?thesis using False "1.prems" by (simp add: skip_block.simps[of src i])
  qed
qed

lemma quote_loop_body:
  "i \<le> length src \<Longrightarrow> length out + (length src - i) \<le> length d \<Longrightarrow>
   quote_loop src q i (length out) (buf d out) = (let b = literal_body q (drop i src) in Ret (i + length b, length out + length b, buf d (out @ b)))"
proof (induction "length src - i" arbitrary: i out rule: less_induct)
  case less
  show ?case
  proof (cases "i < length src")
    case False
    then have "drop i src = []" by simp
    then show ?thesis using False by (subst quote_loop.simps) simp
  next
    case True
    let ?c = "src ! i"
    have put: "write_at (buf d out) (length out) c = Ret (buf d (out @ [c]))" for c using less.prems True by (simp add: put_buf)
    show ?thesis
    proof (cases "i + 1 < length src")
      case False
      then have d: "drop i src = [?c]" using True drop_nth[OF True] by simp
      have e: "quote_loop src q (Suc i) (Suc (length out)) (buf d (out @ [?c])) = Ret (Suc i, Suc (length out), buf d (out @ [?c]))"
        using False True by (simp add: quote_loop.simps[of src q "Suc i"])
      show ?thesis using False True by (simp add: quote_loop.simps[of src q i] put d Let_def e)
    next
      case two: True
      let ?d = "src ! (i + 1)"
      have d: "drop i src = ?c # ?d # drop (i + 2) src" "drop (i + 1) src = ?d # drop (i + 2) src"
        using drop_nth[OF True] drop_nth[OF two] by simp_all
      have put2: "write_at (buf d (out @ [c])) (Suc (length out)) (src ! Suc i) = Ret (buf d (out @ [c, src ! Suc i]))" for c using less.prems two by (simp add: put_buf)
      have ih: "quote_loop src q (i + 1) (length out + 1) (buf d (out @ [?c])) =
          (let b = literal_body q (drop (i + 1) src) in Ret (i + 1 + length b, length out + 1 + length b, buf d (out @ ?c # b)))"
        using less.hyps[of "i + 1" "out @ [?c]"] less.prems two by (simp add: Let_def)
      have ih2: "quote_loop src q (i + 2) (length out + 2) (buf d (out @ [?c, ?d])) =
          (let b = literal_body q (drop (i + 2) src) in Ret (i + 2 + length b, length out + 2 + length b, buf d (out @ ?c # ?d # b)))"
        using less.hyps[of "i + 2" "out @ [?c, ?d]"] less.prems two by (simp add: Let_def)
      have u: "quote_loop src q i (length out) (buf d out) =
          (if ?c = 0x5C \<and> q \<noteq> 0x60 then quote_loop src q (i + 2) (length out + 2) (buf d (out @ [?c, ?d]))
           else if ?c = q then Ret (i + 1, length out + 1, buf d (out @ [?c])) else quote_loop src q (i + 1) (length out + 1) (buf d (out @ [?c])))"
        using two True put2 by (subst quote_loop.simps) (simp add: put Let_def)
      show ?thesis unfolding u ih ih2 d by (simp add: Let_def)
    qed
  qed
qed

section \<open>The pass renders the tokens\<close>

definition prev_octet :: "bytes \<Rightarrow> nat \<Rightarrow> byte option" where
  "prev_octet src i = (if i = 0 then None else Some (src ! (i - 1)))"

lemma tokens_at:
  assumes "i < length src"
  shows "tokens (prev_octet src i) (drop i src) =
    (let t = first_token (prev_octet src i) (drop i src) in t # tokens (prev_octet src (i + length (token_text t))) (drop (i + length (token_text t)) src))"
proof -
  define tx where "tx = token_text (first_token (prev_octet src i) (drop i src))"
  obtain ys where y: "drop i src = tx @ ys" "tx \<noteq> []"
    using first_token_prefix[of "drop i src" "prev_octet src i"] assms unfolding tx_def by (auto elim: prefixE)
  have l: "i + length tx \<le> length src" using arg_cong[OF y(1), of length] assms by simp
  have "last tx = drop i src ! (length tx - 1)" using y(2) by (simp add: y(1) last_conv_nth nth_append)
  also have "\<dots> = src ! (i + length tx - 1)" using l y(2) by (simp add: Suc_le_eq)
  finally have p: "prev_octet src (i + length tx) = Some (last tx)" using y(2) by (simp add: prev_octet_def)
  have d: "drop (length tx) (drop i src) = drop (i + length tx) src" by (simp add: add.commute)
  have ne: "drop i src \<noteq> []" using assms by simp
  show ?thesis using ne unfolding tokens.simps[of "prev_octet src i" "drop i src"] Let_def tx_def[symmetric] d p by simp
qed

lemma prefix_two: "i < length src \<Longrightarrow> prefix [a, b] (drop i src) \<longleftrightarrow> src ! i = a \<and> i + 1 < length src \<and> src ! (i + 1) = b"
  using drop_nth[of i src] drop_nth[of "Suc i" src] by (cases "Suc i < length src") auto

text \<open>One step: the token at a position is consumed and rendered.\<close>

lemma norm_loop_token:
  assumes "i < length src" "length out \<le> i" "length src \<le> length d"
  shows "\<exists>out'. let t = first_token (prev_octet src i) (drop i src) in
    norm_loop src i (length out) (buf d out) = norm_loop src (i + length (token_text t)) (length out') (buf d out')
    \<and> length out' \<le> i + length (token_text t) \<and> (\<forall>ts. render out (t # ts) = render out' ts)"
proof -
  let ?c = "src ! i" and ?t = "first_token (prev_octet src i) (drop i src)"
  have room: "length out < length d" using assms by simp
  note put = put_buf[OF room refl]
  have h: "hd (drop i src) = ?c" "tl (drop i src) = drop (Suc i) src" using drop_nth[OF assms(1)] by simp_all
  have pv: "(case prev_octet src i of None \<Rightarrow> True | Some b \<Rightarrow> isCodeSpace b) \<longleftrightarrow> hasHashCommentPrefix src i"
    by (simp add: prev_octet_def hasHashCommentPrefix_def)
  note ft = first_token_def[of "prev_octet src i" "drop i src", unfolded h pv Let_def]
  note nl = norm_loop.simps[of src i "length out" "buf d out", unfolded Let_def]
  consider (lit) "?c = 0x22 \<or> ?c = 0x27 \<or> ?c = 0x60"
    | (line) "\<not> (?c = 0x22 \<or> ?c = 0x27 \<or> ?c = 0x60)" "prefix [0x2F, 0x2F] (drop i src)"
    | (block) "\<not> (?c = 0x22 \<or> ?c = 0x27 \<or> ?c = 0x60)" "\<not> prefix [0x2F, 0x2F] (drop i src)" "prefix [0x2F, 0x2A] (drop i src)"
    | (hash) "\<not> (?c = 0x22 \<or> ?c = 0x27 \<or> ?c = 0x60)" "\<not> prefix [0x2F, 0x2F] (drop i src)" "\<not> prefix [0x2F, 0x2A] (drop i src)" "?c = 0x23" "hasHashCommentPrefix src i"
    | (space) "\<not> (?c = 0x22 \<or> ?c = 0x27 \<or> ?c = 0x60)" "\<not> prefix [0x2F, 0x2F] (drop i src)" "\<not> prefix [0x2F, 0x2A] (drop i src)" "\<not> (?c = 0x23 \<and> hasHashCommentPrefix src i)" "isCodeSpace ?c"
    | (plain) "\<not> (?c = 0x22 \<or> ?c = 0x27 \<or> ?c = 0x60)" "\<not> prefix [0x2F, 0x2F] (drop i src)" "\<not> prefix [0x2F, 0x2A] (drop i src)" "\<not> (?c = 0x23 \<and> hasHashCommentPrefix src i)" "\<not> isCodeSpace ?c"
    by blast
  then show ?thesis
  proof cases
    case lit
    let ?b = "literal_body ?c (drop (Suc i) src)"
    have t: "?t = Literal (?c # ?b)" using lit by (simp add: ft)
    have q: "quote_loop src ?c (Suc i) (Suc (length out)) (buf d (out @ [?c])) = Ret (Suc i + length ?b, Suc (length out) + length ?b, buf d (out @ ?c # ?b))"
      using quote_loop_body[of "Suc i" src "out @ [?c]" d ?c] assms by (simp add: Let_def)
    have "norm_loop src i (length out) (buf d out) = norm_loop src (i + length (?c # ?b)) (length (out @ ?c # ?b)) (buf d (out @ ?c # ?b))"
      using lit assms(1) by (subst nl) (simp add: put q)
    then show ?thesis using assms(2) by (intro exI[of _ "out @ ?c # ?b"]) (simp add: t)
  next
    case line
    then have t: "?t = Comment (takeWhile (\<lambda>b. b \<noteq> 0x0A) (drop i src))" by (simp add: ft)
    have "norm_loop src i (length out) (buf d out) = norm_loop src (skip_line src i) (length out) (buf d out)"
      using line assms(1) by (subst nl) (simp add: prefix_two)
    then show ?thesis using assms(2) by (intro exI[of _ out]) (simp add: t skip_line_take)
  next
    case block
    then have t: "?t = Comment (0x2F # 0x2A # block_body (drop (i + 2) src))" by (simp add: ft add.commute)
    have two: "i + 2 \<le> length src" using block(3) assms(1) by (simp add: prefix_two)
    have "norm_loop src i (length out) (buf d out) =
        norm_loop src (let j = skip_block src (i + 2) in if j + 1 < length src then j + 2 else length src) (length out) (buf d out)"
      using block assms(1) by (subst nl) (simp add: prefix_two Let_def)
    then show ?thesis using assms(2) unfolding skip_block_take[OF two] by (intro exI[of _ out]) (simp add: t)
  next
    case hash
    then have t: "?t = Comment (takeWhile (\<lambda>b. b \<noteq> 0x0A) (drop i src))" by (simp add: ft)
    have "norm_loop src i (length out) (buf d out) = norm_loop src (skip_line src i) (length out) (buf d out)"
      using hash assms(1) by (subst nl) (simp add: prefix_two)
    then show ?thesis using assms(2) by (intro exI[of _ out]) (simp add: t skip_line_take)
  next
    case space
    then have t: "?t = Blank (takeWhile isCodeSpace (drop i src))" by (simp add: ft)
    let ?o = "if out \<noteq> [] \<and> last out = 0x20 then out else out @ [0x20]"
    have g: "out \<noteq> [] \<Longrightarrow> get_at (buf d out) (length out - 1) = Ret (last out)" by (rule get_buf) simp_all
    have n: "norm_loop src i (length out) (buf d out) = norm_loop src (skip_space src i) (length ?o) (buf d ?o)"
    proof -
      have c: "?c \<noteq> 0x2F" "?c \<noteq> 0x23" using space(5) by (auto simp: isCodeSpace_def)
      show ?thesis
      proof (cases "out = []")
        case True
        then show ?thesis using space(1,4,5) c assms(1) put by (subst nl) simp
      next
        case False
        then show ?thesis using space(1,4,5) c assms(1) g put by (subst nl) simp
      qed
    qed
    have "takeWhile isCodeSpace (drop i src) \<noteq> []" using space(5) drop_nth[OF assms(1)] by simp
    then have "1 \<le> length (takeWhile isCodeSpace (drop i src))" by (cases "takeWhile isCodeSpace (drop i src)") simp_all
    then show ?thesis using n assms(2) by (intro exI[of _ ?o]) (auto simp: t skip_space_take)
  next
    case plain
    then have t: "?t = Plain ?c" by (simp add: ft)
    have "norm_loop src i (length out) (buf d out) = norm_loop src (Suc i) (length (out @ [?c])) (buf d (out @ [?c]))"
      using plain assms(1) by (subst nl) (auto simp: prefix_two put)
    then show ?thesis using assms(2) by (intro exI[of _ "out @ [?c]"]) (simp add: t)
  qed
qed

lemma norm_loop_render:
  assumes "i \<le> length src" "length out \<le> i" "length src \<le> length d"
  shows "let out' = render out (tokens (prev_octet src i) (drop i src)) in
    norm_loop src i (length out) (buf d out) = Ret (length out', buf d out') \<and> length out' \<le> length src"
  using assms(1,2)
proof (induction "length src - i" arbitrary: i out rule: less_induct)
  case less
  show ?case
  proof (cases "i < length src")
    case False
    then show ?thesis using less.prems by (subst norm_loop.simps) (simp add: tokens.simps)
  next
    case True
    let ?t = "first_token (prev_octet src i) (drop i src)"
    obtain out' where o: "norm_loop src i (length out) (buf d out) = norm_loop src (i + length (token_text ?t)) (length out') (buf d out')"
      "length out' \<le> i + length (token_text ?t)" "\<And>ts. render out (?t # ts) = render out' ts"
      using norm_loop_token[OF True less.prems(2) assms(3)] by (auto simp: Let_def)
    have p: "prefix (token_text ?t) (drop i src)" "token_text ?t \<noteq> []" using first_token_prefix[of "drop i src" "prev_octet src i"] True by simp_all
    have l: "i + length (token_text ?t) \<le> length src" using prefix_length_le[OF p(1)] True by simp
    have "length src - (i + length (token_text ?t)) < length src - i" using p(2) True by (simp add: diff_less_mono2)
    from less.hyps[OF this l o(2)] show ?thesis unfolding o(1) tokens_at[OF True] Let_def o(3) by simp
  qed
qed

section \<open>Property\<close>

text \<open>The shape of each token.\<close>

fun token_ok :: "token \<Rightarrow> bool" where
  "token_ok (Literal b) \<longleftrightarrow> b \<noteq> [] \<and> hd b \<in> {0x22, 0x27, 0x60}"
| "token_ok (Comment b) \<longleftrightarrow> prefix [0x2F, 0x2A] b \<or> (prefix [0x2F, 0x2F] b \<or> prefix [0x23] b) \<and> 0x0A \<notin> set b"
| "token_ok (Blank b) \<longleftrightarrow> b \<noteq> [] \<and> list_all isCodeSpace b"
| "token_ok (Plain c) \<longleftrightarrow> \<not> isCodeSpace c \<and> c \<notin> {0x22, 0x27, 0x60}"

lemma first_token_ok: "cs \<noteq> [] \<Longrightarrow> token_ok (first_token prev cs)"
proof -
  assume ne: "cs \<noteq> []"
  have s: "prefix [0x2F, 0x2F] cs \<Longrightarrow> prefix [0x2F, 0x2F] (takeWhile (\<lambda>b. b \<noteq> 0x0A) cs)" by (auto elim!: prefixE)
  have h: "hd cs = 0x23 \<Longrightarrow> prefix [0x23] (takeWhile (\<lambda>b. b \<noteq> 0x0A) cs)" using ne by (cases cs) simp_all
  have n: "0x0A \<notin> set (takeWhile (\<lambda>b. b \<noteq> 0x0A) cs)" using set_takeWhileD[of "0x0A" "\<lambda>b. b \<noteq> 0x0A" cs] by auto
  have b: "isCodeSpace (hd cs) \<Longrightarrow> takeWhile isCodeSpace cs \<noteq> [] \<and> list_all isCodeSpace (takeWhile isCodeSpace cs)"
    using ne by (cases cs) (auto simp: list_all_iff dest: set_takeWhileD)
  show ?thesis using s h n b by (simp add: first_token_def Let_def)
qed

lemma tokens_ok: "list_all token_ok (tokens prev cs)"
proof (induction prev cs rule: tokens.induct)
  case (1 prev cs)
  show ?case
  proof (cases "cs = []")
    case False
    then show ?thesis using "1.IH"[OF False refl] first_token_ok[OF False] unfolding tokens.simps[of prev cs] Let_def by simp
  qed (simp add: tokens.simps)
qed

text \<open>
  C39.  The normalisation of a window of source code is the rendering of its tokens.  The window is cut
  into string literals, comments, runs of blanks and single octets, with nothing lost; the output has
  the literals octet for octet, no comment, and one space for the blanks between two other tokens.  It
  never writes outside the destination, is no longer than the source and leaves the rest of the
  destination alone; a destination that is too small receives nothing.\<close>

theorem normalize_exact:
  "if length dst < length src then NormalizeCodeWindow src dst = Ret (0, dst)
   else let toks = tokens None src; out = render [] toks in
     NormalizeCodeWindow src dst = Ret (length out, out @ drop (length out) dst) \<and> length out \<le> length src
     \<and> concat (map token_text toks) = src \<and> list_all token_ok toks"
  using norm_loop_render[of 0 src "[]" dst] tokens_text[of None src] tokens_ok[of None src]
  by (simp add: NormalizeCodeWindow_def prev_octet_def buf_def Let_def)

end
