(* ===== verification/Locality.thy ===== *)
theory Locality
  imports Entropy Codebook
begin

text \<open>
  The 512-bit code of a server state of \<open>internal/engine/server_oracle_locality.go\<close>: categories are mixed,
  scales are thermometers, the hour is a window that turns.  The distance of two codes is shown to be
  the sum of the gaps of their fields.
\<close>

abbreviation SeverityCritical :: u16 where "SeverityCritical \<equiv> 4"
abbreviation localitySeverityMask :: u64 where "localitySeverityMask \<equiv> 0x00000000FFFFFFFF"

record ServerHealthSnapshot =
  sTimestampSec :: u64
  sSubsystem :: u16
  sAction :: u16
  sHealthScore :: u16
  sSeverity :: u16
  sCorrelatedCount :: u16
  sEntropyQ8 :: u32
  sEntityID :: u64
  sContextFlags :: u32
  sRawPayload :: bytes

definition mixSpatial64 :: "u64 \<Rightarrow> u64" where
  "mixSpatial64 x = (let x = x + 0x9E3779B97F4A7C15;
     x = (x XOR drop_bit 30 x) * 0xBF58476D1CE4E5B9;
     x = (x XOR drop_bit 27 x) * 0x94D049BB133111EB in
     x XOR drop_bit 31 x)"

definition thermo64 :: "nat \<Rightarrow> u64" where
  "thermo64 n = (if 64 \<le> n then NOT 0 else push_bit n 1 - 1)"

text \<open>The mixed trigram at a position, and the balance of a bit over the trigrams; 94 trigrams stay within \<open>int16\<close>.\<close>

definition trigram :: "bytes \<Rightarrow> nat \<Rightarrow> u64" where
  "trigram p i = mixSpatial64 (ucast (p ! i) OR push_bit 8 (ucast (p ! (i + 1))) OR push_bit 16 (ucast (p ! (i + 2))))"

definition simhash_acc :: "bytes \<Rightarrow> nat \<Rightarrow> nat \<Rightarrow> int" where
  "simhash_acc p n b = foldl (\<lambda>acc i. acc + (if bit (trigram p i) b then 1 else 0) * 2 - 1) 0 [0..<n - 2]"

definition payloadSimHash64 :: "bytes \<Rightarrow> u64" where
  "payloadSimHash64 p = (let n = length (takeWhile (\<lambda>b. b \<noteq> 0) p) in
     if n < 3 then 0 else foldl (\<lambda>out b. if 0 < simhash_acc p n b then out OR push_bit b 1 else out) 0 [0..<64])"

definition VectorizeServerHealthLocality :: "ServerHealthSnapshot \<Rightarrow> u64 list" where
  "VectorizeServerHealthLocality s =
     (let sev = unat (min (sSeverity s) SeverityCritical) * 8;
          corr = nat_len (unat (sCorrelatedCount s)) * 2;
          score = min (unat (sHealthScore s)) 1000 * 64 div 1000;
          ent = min (unat (sEntropyQ8 s)) 2048 * 64 div 2048;
          slot = unat (sTimestampSec s) mod 86400 * 64 div 86400 in
      [mixSpatial64 (ucast (sSubsystem s) XOR 0x5B5B000000000001), mixSpatial64 (ucast (sAction s) XOR 0x5B5B000000000002),
       thermo64 sev OR push_bit 32 (thermo64 corr), thermo64 score, thermo64 ent, word_rotl slot 0x00000000FFFFFFFF,
       mixSpatial64 (sEntityID s XOR 0x5B5B000000000006), payloadSimHash64 (sRawPayload s)])"

record LocalityDistance =
  Categorical :: int
  SeverityRise :: int
  Scalar :: int
  Entity :: int
  Content :: int

record LocalityThresholds =
  MaxSeverityRise :: int
  MaxScalar :: int
  MaxEntity :: int
  MaxContent :: int
  MaxContentSurpriseBits :: int

definition DefaultLocalityThresholds :: LocalityThresholds where
  "DefaultLocalityThresholds = \<lparr>MaxSeverityRise = 0, MaxScalar = 24, MaxEntity = 0, MaxContent = 24, MaxContentSurpriseBits = 24\<rparr>"

text \<open>Go's division rounds toward zero.\<close>

definition LocalityDistanceOf :: "u64 list \<Rightarrow> u64 list \<Rightarrow> LocalityDistance" where
  "LocalityDistanceOf target reference =
     (let rise = OnesCount64 (target ! 2 AND localitySeverityMask) - OnesCount64 (reference ! 2 AND localitySeverityMask) in
      \<lparr>Categorical = OnesCount64 (target ! 0 XOR reference ! 0) + OnesCount64 (target ! 1 XOR reference ! 1),
       SeverityRise = (if rise < 0 then - (- rise div 8) else rise div 8),
       Scalar = foldl (\<lambda>d w. d + OnesCount64 (target ! w XOR reference ! w)) 0 [2..<6],
       Entity = OnesCount64 (target ! 6 XOR reference ! 6),
       Content = OnesCount64 (target ! 7 XOR reference ! 7)\<rparr>)"

abbreviation MaxEntityToleranceBits :: int where "MaxEntityToleranceBits \<equiv> 16"

definition Within :: "LocalityDistance \<Rightarrow> LocalityThresholds \<Rightarrow> bool" where
  "Within d lt \<longleftrightarrow> Categorical d = 0 \<and> SeverityRise d \<le> MaxSeverityRise lt \<and> Scalar d \<le> MaxScalar lt
     \<and> Entity d \<le> min (MaxEntity lt) MaxEntityToleranceBits \<and> Content d \<le> MaxContent lt"

definition EvaluateLocalityMatch :: "u64 list option \<Rightarrow> u64 list option \<Rightarrow> LocalityThresholds \<Rightarrow> bool" where
  "EvaluateLocalityMatch target candidate lt = (case (target, candidate) of
     (Some t, Some c) \<Rightarrow> Within (LocalityDistanceOf t c) lt
   | _ \<Rightarrow> False)"

section \<open>Counting bits\<close>

lemma OnesCount64_card: "OnesCount64 x = int (card {i. i < 64 \<and> bit x i})"
  by (simp add: OnesCount64_def length_filter_conv_card cong: conj_cong)

lemma OnesCount64_xor_zero: "OnesCount64 (x XOR y) = 0 \<longleftrightarrow> x = y"
proof -
  have "finite {i. i < 64 \<and> bit (x XOR y) i}" by simp
  then have "OnesCount64 (x XOR y) = 0 \<longleftrightarrow> (\<forall>i < 64. \<not> bit (x XOR y) i)" by (auto simp: OnesCount64_card)
  also have "\<dots> \<longleftrightarrow> x = y" by (auto simp: bit_xor_iff intro!: bit_word_eqI)
  finally show ?thesis .
qed

lemma bit_thermo: "i < 64 \<Longrightarrow> bit (thermo64 n) i \<longleftrightarrow> i < n"
proof -
  assume i: "i < 64"
  have "thermo64 n = mask n" if "n < 64" using that by (simp add: thermo64_def mask_eq_exp_minus_1 push_bit_eq_mult)
  then show ?thesis using i by (cases "n < 64") (auto simp: thermo64_def bit_mask_iff bit_not_iff)
qed

lemma card_gap: "card {i. i < 64 \<and> (i < a) \<noteq> (i < b)} = nat \<bar>int a - int b\<bar>" if "a \<le> 64" "b \<le> (64 :: nat)"
proof -
  have "{i. i < 64 \<and> (i < a) \<noteq> (i < b)} = {min a b..<max a b}" using that by auto
  then show ?thesis by simp
qed

lemma thermo_gap: "a \<le> 64 \<Longrightarrow> b \<le> 64 \<Longrightarrow> OnesCount64 (thermo64 a XOR thermo64 b) = \<bar>int a - int b\<bar>"
  using card_gap[of a b] by (simp add: OnesCount64_card bit_xor_iff bit_thermo cong: conj_cong)

text \<open>Word 2 packs two thermometers of 32 bits.\<close>

abbreviation pack2 :: "nat \<Rightarrow> nat \<Rightarrow> u64" where "pack2 a c \<equiv> thermo64 a OR push_bit 32 (thermo64 c)"

lemma bit_pack2: "i < 64 \<Longrightarrow> a \<le> 32 \<Longrightarrow> bit (pack2 a c) i \<longleftrightarrow> (if i < 32 then i < a else i < c + 32)"
  by (auto simp: bit_or_iff bit_push_bit_iff bit_thermo)

lemma pack2_gap:
  assumes "a \<le> 32" "b \<le> 32" "c \<le> 32" "d \<le> 32"
  shows "OnesCount64 (pack2 a c XOR pack2 b d) = \<bar>int a - int b\<bar> + \<bar>int c - int d\<bar>"
proof -
  have "{i. i < 64 \<and> bit (pack2 a c XOR pack2 b d) i} = {min a b..<max a b} \<union> {32 + min c d..<32 + max c d}"
    using assms by (auto simp: bit_xor_iff bit_pack2 simp del: bit_or_iff split: if_splits)
  moreover have "{min a b..<max a b} \<inter> {32 + min c d..<32 + max c d} = {}" using assms by auto
  ultimately show ?thesis by (simp add: OnesCount64_card card_Un_disjoint)
qed

lemma mask32: "bit localitySeverityMask i \<longleftrightarrow> i < 32"
proof -
  have e: "localitySeverityMask = mask 32" by (simp add: mask_eq_exp_minus_1)
  show ?thesis unfolding e by (auto simp: bit_mask_iff)
qed

lemma mask32_int: "bit (4294967295 :: int) i \<longleftrightarrow> i < 32"
proof -
  have e: "4294967295 = (mask 32 :: int)" by (simp add: mask_eq_exp_minus_1)
  show ?thesis unfolding e by (auto simp: bit_mask_iff)
qed

lemma severity_bits: "a \<le> 32 \<Longrightarrow> OnesCount64 (pack2 a c AND localitySeverityMask) = int a"
proof -
  assume a: "a \<le> 32"
  have "{i. i < 64 \<and> bit (pack2 a c AND localitySeverityMask) i} = {..<a}" using a by (auto simp: bit_and_iff mask32_int bit_pack2 simp del: bit_or_iff)
  then show ?thesis by (simp add: OnesCount64_card)
qed

lemma nat_len_le: "n < 2 ^ k \<Longrightarrow> nat_len n \<le> k"
proof (induction k arbitrary: n)
  case 0
  then show ?case by (simp add: nat_len.simps)
next
  case (Suc k)
  then show ?case using Suc.IH[of "n div 2"] by (subst nat_len.simps) auto
qed

section \<open>The clock\<close>

text \<open>The shorter way round a dial of 64 steps.\<close>

definition dial :: "nat \<Rightarrow> nat \<Rightarrow> nat" where
  "dial a b = (let k = (a + 64 - b) mod 64 in min k (64 - k))"

lemma bit_window: "i < 64 \<Longrightarrow> s < 64 \<Longrightarrow> bit (word_rotl s localitySeverityMask) i \<longleftrightarrow> (i + (64 - s)) mod 64 < 32"
  by (simp add: bit_word_rotl_iff mask32_int)

lemma card_shifted: "k < 64 \<Longrightarrow> card {j. j < 64 \<and> (j < 32) \<noteq> ((j + k) mod 64 < 32)} = 2 * min k (64 - k)"
proof -
  assume k: "k < 64"
  have m: "(j + k) mod 64 = (if j + k < 64 then j + k else j + k - 64)" if "j < 64" for j using k that by (simp add: mod_if)
  show ?thesis
  proof (cases "k \<le> 32")
    case True
    have "{j. j < 64 \<and> (j < 32) \<noteq> ((j + k) mod 64 < 32)} = {32 - k..<32} \<union> {64 - k..<64}" using True k by (auto simp: m split: if_splits)
    moreover have "{32 - k..<32} \<inter> {64 - k..<64} = {}" using True by auto
    ultimately show ?thesis using True by (simp add: card_Un_disjoint)
  next
    case False
    have "{j. j < 64 \<and> (j < 32) \<noteq> ((j + k) mod 64 < 32)} = {..<64 - k} \<union> {32..<96 - k}" using False k by (auto simp: m split: if_splits)
    moreover have "{..<64 - k} \<inter> {32..<96 - k} = {}" using False by auto
    ultimately show ?thesis using False by (simp add: card_Un_disjoint)
  qed
qed

lemma window_gap:
  assumes "a < 64" "b < 64"
  shows "OnesCount64 (word_rotl a localitySeverityMask XOR word_rotl b localitySeverityMask) = 2 * int (dial a b)"
proof -
  let ?k = "(a + 64 - b) mod 64"
  let ?S = "{i. i < 64 \<and> bit (word_rotl a localitySeverityMask XOR word_rotl b localitySeverityMask) i}"
  let ?T = "{j. j < 64 \<and> (j < 32) \<noteq> ((j + ?k) mod 64 < 32)}"
  have sh: "((i + (64 - a)) mod 64 + ?k) mod 64 = (i + (64 - b)) mod 64" for i
  proof -
    have "((i + (64 - a)) mod 64 + ?k) mod 64 = (i + (64 - a) + (a + 64 - b)) mod 64" by (simp add: mod_simps)
    also have "i + (64 - a) + (a + 64 - b) = (i + (64 - b)) + 64" using assms by simp
    finally show ?thesis by simp
  qed
  have b: "i \<in> ?S \<longleftrightarrow> i < 64 \<and> ((i + (64 - a)) mod 64 < 32) \<noteq> ((i + (64 - b)) mod 64 < 32)" for i
    using assms by (auto simp: bit_xor_iff bit_window)
  have i1: "((i + (64 - a)) mod 64 + a) mod 64 = i" if "i < 64" for i
  proof -
    have "((i + (64 - a)) mod 64 + a) mod 64 = (i + (64 - a) + a) mod 64" by (simp add: mod_simps)
    also have "i + (64 - a) + a = i + 64" using assms by simp
    finally show ?thesis using that by simp
  qed
  have i2: "((j + a) mod 64 + (64 - a)) mod 64 = j" if "j < 64" for j
  proof -
    have "((j + a) mod 64 + (64 - a)) mod 64 = (j + a + (64 - a)) mod 64" by (simp add: mod_simps)
    also have "j + a + (64 - a) = j + 64" using assms by simp
    finally show ?thesis using that by simp
  qed
  have "bij_betw (\<lambda>i. (i + (64 - a)) mod 64) ?S ?T"
  proof (rule bij_betw_byWitness[where f' = "\<lambda>j. (j + a) mod 64"])
    show "\<forall>i \<in> ?S. ((i + (64 - a)) mod 64 + a) mod 64 = i" using i1 by blast
    show "\<forall>j \<in> ?T. ((j + a) mod 64 + (64 - a)) mod 64 = j" using i2 by blast
    show "(\<lambda>i. (i + (64 - a)) mod 64) ` ?S \<subseteq> ?T" using b sh by fastforce
    show "(\<lambda>j. (j + a) mod 64) ` ?T \<subseteq> ?S"
    proof
      fix i assume "i \<in> (\<lambda>j. (j + a) mod 64) ` ?T"
      then obtain j where j: "i = (j + a) mod 64" "j < 64" "(j < 32) \<noteq> ((j + ?k) mod 64 < 32)" by blast
      then show "i \<in> ?S" unfolding b using i2[OF j(2)] sh[of "(j + a) mod 64"] by simp
    qed
  qed
  then have "card ?S = card ?T" by (rule bij_betw_same_card)
  then show ?thesis using card_shifted[of ?k] by (simp add: OnesCount64_card dial_def Let_def)
qed

section \<open>Categories\<close>

lemma xor_shift_inj: "0 < k \<Longrightarrow> x XOR drop_bit k x = y XOR drop_bit k y \<longleftrightarrow> x = (y :: u64)"
proof
  assume k: "0 < k" and e: "x XOR drop_bit k x = y XOR drop_bit k y"
  have s: "bit x i = bit y i \<longleftrightarrow> bit x (k + i) = bit y (k + i)" if "i < 64" for i
    using arg_cong[OF e, of "\<lambda>w. bit w i"] that by (auto simp: bit_xor_iff bit_drop_bit_eq)
  have "bit x i = bit y i" for i
  proof (induction "64 - i" arbitrary: i rule: less_induct)
    case less
    show ?case
    proof (cases "i < 64")
      case True
      then have "bit x (k + i) = bit y (k + i)" using k by (intro less) simp
      then show ?thesis using s[OF True] by simp
    qed (auto dest: bit_imp_le_length)
  qed
  then show "x = y" by (intro bit_word_eqI) simp
qed simp

lemma odd_mult_inj: "c * d = (1 :: u64) \<Longrightarrow> x * c = y * c \<longleftrightarrow> x = y"
proof
  assume u: "c * d = 1" and e: "x * c = y * c"
  have "x * c * d = y * c * d" by (simp only: e)
  then show "x = y" by (simp add: mult.assoc u)
qed simp

lemma mixSpatial64_inj: "mixSpatial64 x = mixSpatial64 y \<longleftrightarrow> x = y"
proof -
  have c1: "(0xBF58476D1CE4E5B9 :: u64) * 0x96de1b173f119089 = 1" by simp
  have c2: "(0x94D049BB133111EB :: u64) * 0x319642b2d24d8ec3 = 1" by simp
  show ?thesis unfolding mixSpatial64_def Let_def
    by (simp add: xor_shift_inj odd_mult_inj[OF c1] odd_mult_inj[OF c2])
qed

lemma xor_cancel: "x XOR c = y XOR c \<longleftrightarrow> x = (y :: u64)"
proof
  assume e: "x XOR c = y XOR c"
  show "x = y"
  proof (rule bit_word_eqI)
    fix i assume "i < LENGTH(64)"
    show "bit x i = bit y i" using arg_cong[OF e, of "\<lambda>w. bit w i"] by (auto simp: bit_xor_iff)
  qed
qed simp

lemma category_inj: "mixSpatial64 (ucast x XOR c) = mixSpatial64 (ucast y XOR c) \<longleftrightarrow> x = (y :: u16)"
proof -
  have u: "ucast x = (ucast y :: u64) \<longleftrightarrow> x = y"
  proof
    assume e: "ucast x = (ucast y :: u64)"
    show "x = y"
    proof (rule bit_word_eqI)
      fix i assume "i < LENGTH(16)"
      then show "bit x i = bit y i" using arg_cong[OF e, of "\<lambda>w. bit w i"] by (simp add: bit_unsigned_iff)
    qed
  qed simp
  show ?thesis unfolding mixSpatial64_inj xor_cancel by (rule u)
qed

section \<open>Property\<close>

text \<open>The fields of a state as the code weighs them.\<close>

definition severity_level :: "ServerHealthSnapshot \<Rightarrow> nat" where
  "severity_level s = min (unat (sSeverity s)) 4"

definition octaves :: "ServerHealthSnapshot \<Rightarrow> nat" where
  "octaves s = nat_len (unat (sCorrelatedCount s))"

definition score_steps :: "ServerHealthSnapshot \<Rightarrow> nat" where
  "score_steps s = min (unat (sHealthScore s)) 1000 * 64 div 1000"

definition entropy_steps :: "ServerHealthSnapshot \<Rightarrow> nat" where
  "entropy_steps s = min (unat (sEntropyQ8 s)) 2048 * 64 div 2048"

definition day_slot :: "u64 \<Rightarrow> nat" where
  "day_slot t = unat t mod 86400 * 64 div 86400"

definition gap :: "nat \<Rightarrow> nat \<Rightarrow> int" where
  "gap a b = \<bar>int a - int b\<bar>"

definition scalar_gap :: "ServerHealthSnapshot \<Rightarrow> ServerHealthSnapshot \<Rightarrow> int" where
  "scalar_gap s t = 8 * gap (severity_level s) (severity_level t) + 2 * gap (octaves s) (octaves t)
     + gap (score_steps s) (score_steps t) + gap (entropy_steps s) (entropy_steps t)
     + 2 * int (dial (day_slot (sTimestampSec s)) (day_slot (sTimestampSec t)))"

lemma field_bounds: "severity_level s \<le> 4" "octaves s \<le> 16" "score_steps s \<le> 64" "entropy_steps s \<le> 64" "day_slot t < 64"
proof -
  have "unat (sCorrelatedCount s) < 2 ^ 16" using unat_bound[of "sCorrelatedCount s"] by simp
  then show "octaves s \<le> 16" unfolding octaves_def by (rule nat_len_le)
  have "unat t mod 86400 < 86400" by simp
  then show "day_slot t < 64" unfolding day_slot_def by linarith
qed (simp_all add: severity_level_def score_steps_def entropy_steps_def, (auto simp: min_def)?)

lemma vectorized:
  "VectorizeServerHealthLocality s =
     [mixSpatial64 (ucast (sSubsystem s) XOR 0x5B5B000000000001), mixSpatial64 (ucast (sAction s) XOR 0x5B5B000000000002),
      pack2 (severity_level s * 8) (octaves s * 2), thermo64 (score_steps s), thermo64 (entropy_steps s),
      word_rotl (day_slot (sTimestampSec s)) localitySeverityMask, mixSpatial64 (sEntityID s XOR 0x5B5B000000000006), payloadSimHash64 (sRawPayload s)]"
proof -
  have "unat (min (sSeverity s) SeverityCritical) = severity_level s" by (simp add: severity_level_def min_def word_le_nat_alt)
  then show ?thesis by (simp add: VectorizeServerHealthLocality_def octaves_def score_steps_def entropy_steps_def day_slot_def Let_def)
qed

lemma upt_2_6: "[2..<6] = [2, 3, 4, 5 :: nat]"
  by (simp add: upt_rec)

lemma OnesCount64_sum_zero: "OnesCount64 a + OnesCount64 b = 0 \<longleftrightarrow> OnesCount64 a = 0 \<and> OnesCount64 b = 0"
  using OnesCount64_bounds(1)[of a] OnesCount64_bounds(1)[of b] by linarith

text \<open>The distance of two states, field by field.\<close>

lemma locality_fields:
  fixes s t :: ServerHealthSnapshot
  defines "d \<equiv> LocalityDistanceOf (VectorizeServerHealthLocality s) (VectorizeServerHealthLocality t)"
  shows "Categorical d = 0 \<longleftrightarrow> sSubsystem s = sSubsystem t \<and> sAction s = sAction t"
    and "SeverityRise d = int (severity_level s) - int (severity_level t)"
    and "Scalar d = scalar_gap s t"
    and "Entity d = 0 \<longleftrightarrow> sEntityID s = sEntityID t"
    and "Content d = OnesCount64 (payloadSimHash64 (sRawPayload s) XOR payloadSimHash64 (sRawPayload t))"
    and "0 \<le> Entity d"
proof -
  note b = field_bounds(1-4)[of s] field_bounds(5)[of "sTimestampSec s"] field_bounds(1-4)[of t] field_bounds(5)[of "sTimestampSec t"]
  have l: "severity_level s * 8 \<le> 32" "severity_level t * 8 \<le> 32" "octaves s * 2 \<le> 32" "octaves t * 2 \<le> 32" using b by simp_all
  show "Categorical d = 0 \<longleftrightarrow> sSubsystem s = sSubsystem t \<and> sAction s = sAction t"
    by (simp add: d_def LocalityDistanceOf_def vectorized Let_def OnesCount64_sum_zero OnesCount64_xor_zero category_inj)
  show "SeverityRise d = int (severity_level s) - int (severity_level t)"
    unfolding d_def LocalityDistanceOf_def vectorized Let_def using severity_bits[OF l(1)] severity_bits[OF l(2)] by simp
  have sc: "\<bar>int (severity_level s) * 8 - int (severity_level t) * 8\<bar> = 8 * \<bar>int (severity_level s) - int (severity_level t)\<bar>"
    "\<bar>int (octaves s) * 2 - int (octaves t) * 2\<bar> = 2 * \<bar>int (octaves s) - int (octaves t)\<bar>" by (simp_all add: abs_if)
  show "Scalar d = scalar_gap s t"
    unfolding d_def LocalityDistanceOf_def vectorized Let_def
    using pack2_gap[OF l] thermo_gap[OF b(3,8)] thermo_gap[OF b(4,9)] window_gap[OF b(5,10)]
    by (simp add: upt_2_6 scalar_gap_def gap_def sc)
  show "Entity d = 0 \<longleftrightarrow> sEntityID s = sEntityID t"
    by (simp add: d_def LocalityDistanceOf_def vectorized Let_def OnesCount64_xor_zero mixSpatial64_inj xor_cancel)
  show "Content d = OnesCount64 (payloadSimHash64 (sRawPayload s) XOR payloadSimHash64 (sRawPayload t))"
    by (simp add: d_def LocalityDistanceOf_def vectorized Let_def)
  show "0 \<le> Entity d" by (simp add: d_def LocalityDistanceOf_def Let_def OnesCount64_bounds)
qed

text \<open>
  C40.  The distance of two server states is the sum of the gaps of their fields.  Eight bits per level of
  severity, two per octave of correlation, one per step of score and of entropy, two per step on the
  shorter way round the clock; the categories and the entity are told apart without a collision.
  Under the default thresholds a state is a neighbour of another exactly when subsystem, action and
  entity are the same, the severity does not rise, and scales and content drift by at most 24 bits.\<close>

theorem locality_distance_exact:
  "let d = LocalityDistanceOf (VectorizeServerHealthLocality s) (VectorizeServerHealthLocality t) in
    (Categorical d = 0 \<longleftrightarrow> sSubsystem s = sSubsystem t \<and> sAction s = sAction t)
    \<and> SeverityRise d = int (severity_level s) - int (severity_level t) \<and> Scalar d = scalar_gap s t
    \<and> (Entity d = 0 \<longleftrightarrow> sEntityID s = sEntityID t)
    \<and> (EvaluateLocalityMatch (Some (VectorizeServerHealthLocality s)) (Some (VectorizeServerHealthLocality t)) DefaultLocalityThresholds \<longleftrightarrow>
        sSubsystem s = sSubsystem t \<and> sAction s = sAction t \<and> sEntityID s = sEntityID t \<and> severity_level s \<le> severity_level t
        \<and> scalar_gap s t \<le> 24 \<and> OnesCount64 (payloadSimHash64 (sRawPayload s) XOR payloadSimHash64 (sRawPayload t)) \<le> 24)"
proof -
  note f = locality_fields[of s t]
  have e: "Entity (LocalityDistanceOf (VectorizeServerHealthLocality s) (VectorizeServerHealthLocality t)) \<le> 0 \<longleftrightarrow> sEntityID s = sEntityID t"
    using f(4,6) by linarith
  show ?thesis by (simp add: f(1-5) EvaluateLocalityMatch_def Within_def DefaultLocalityThresholds_def e Let_def) blast
qed

end
