(* ===== verification/Spec2Isabelle.thy ===== *)
theory Spec2Isabelle
  imports Spsc GrayZone Seqlock Supervisor DnsAgree PcapMsg Floppy Pipeline Grammar NonLdhGuard IcmpEcho SoaNegative AaaaIid RdataRenewal Syncer Forensic
    CorpusRouter Quarantine SyntaxFilter Locality
begin

text \<open>
  Verification of c2blue55, a detection engine for host and DNS observations written in Go.
  This theory imports the whole development; it has no definitions of its own.

  \<^bold>\<open>The program.\<close>  Probes on a host produce 128-byte observation events.  They pass through a
  global ring, a router distributes them over four sub-rings by subsystem, and workers consume the
  sub-rings.  A supervisor polls the global ring, evaluates rules and correlates the events of a
  process in time.  Long payloads live in an arena of sealed pages beside the ring.  A decision
  about an event comes from a four-axis ontology, a codebook of binary vectors searched by Hamming
  distance, sealed vector disks with a veto radius, and a gray-zone decider that rations
  escalations; an inference cascade composes them into a verdict per event, which can be signed as a
  proof and replayed, and arbitrated incidents reach the codebook through a quarantine.  On the DNS side, decoders turn packets and capture files into questions and
  messages, and a compact reputation table classifies names; a pipeline combines the table, an
  entropy profile and a temporal tracker into a verdict per packet, escalates suspicious names to an
  arbitrator over a bounded queue and applies a deterministic veto to its answers.  A catalogue of
  tool grammars judges the arguments of tool calls.  Trackers watch sequences of packets for hidden
  channels: names outside letters, digits and hyphens, ICMP echoes, negative DNS responses, interface
  identifiers in AAAA answers and the renewal of answers.

  \<^bold>\<open>Conventions.\<close>  Go's unsigned integers are words of their width; \<open>int\<close> counters that only
  count loop iterations are naturals, and where an \<open>int\<close> sum can wrap it is written with \<open>go_int\<close>.
  Byte slices and strings are lists of 8-bit words, fixed arrays are lists of their length or
  functions on indices, nil pointers are \<open>None\<close>.  A run-time panic is the value \<open>Panic\<close> of type
  \<open>outcome\<close>; slicing and indexing that the source does not guard by a constant length go through
  \<open>slice_at\<close> and \<open>get_at\<close>, so \<open>no panic\<close> is a theorem and not an assumption.  Errors are values of
  a datatype per component.  Loops are recursive functions with a termination proof: over the
  remaining input (pcap records, message labels, lines), over the distance of the two ends (binary
  search), over the name that is left (parent domains) or over a list of iterations; the endless
  loops of workers run over an explicit list of stop readings.  No fuel is used.

  \<^bold>\<open>Shared theories.\<close>  \<open>Prelude\<close> has the types, outcomes, word and codec lemmas, \<open>Codec\<close> the
  fixed-size records (locale \<open>fixed_codec\<close>), \<open>Fifo\<close> the abstract bounded queue and the
  interface of a ring that implements it.

  \<^bold>\<open>Events, rings and router\<close> (\<open>types_gen.go\<close>, \<open>ring_buffer_gen.go\<close>, \<open>router.go\<close>, \<open>c2blue55.go\<close>).
  \<open>Events\<close> is the record of an observation.  \<open>RingBuffer\<close> models every operation of the global
  channel and shows that it refines a bounded queue that counts its drops.  \<open>Router\<close> models the
  sub-rings, the dispatch by subsystem and the loops, and shows that each event reaches the ring of
  its subsystem once and in order.  \<open>Spsc\<close> models one producer and one consumer of a sub-ring, one
  step per atomic access, and shows for every interleaving that nothing is lost, repeated or
  reordered.  \<open>CorpusRouter\<close> (\<open>corpus_router.go\<close>) has the six rings of the threat catalogues and shows that
  a batch published once per ring equals its events dispatched one by one.

  \<^bold>\<open>Supervisor\<close> (\<open>rules.go\<close>, \<open>correlator.go\<close>, \<open>context.go\<close>).  \<open>Rules\<close>, \<open>Correlator\<close> and
  \<open>Supervisor\<close> give the verdict of a batch, the two-subsystem correlation, and the poll that
  composes them with the channels.

  \<^bold>\<open>Arena\<close> (\<open>arena_pool.go\<close>).  \<open>Arena\<close> runs store and resolve alone and shows the round trip and
  the refusal of stale descriptors; \<open>Seqlock\<close> runs any number of writers against a reader, one
  step per atomic access, and shows that no torn payload is returned.

  \<^bold>\<open>Decisions\<close> (\<open>ontology_table.go\<close>, \<open>codebook.go\<close>, \<open>grayzone.go\<close>, \<open>floppy_engine.go\<close>,
  \<open>rabitq_probe.go\<close>).  \<open>Ontology\<close> characterises the allowed keys.  \<open>Codebook\<close> has the file format
  and the early-exit search, which meets the contract \<open>nearest_index\<close>.  \<open>GrayZone\<close> uses that contract
  for its decision table and bounds escalations by its token buckets.  \<open>Floppy\<close> has the sealed disks:
  what loads is intact, what is saved loads, the veto is exact (again by \<open>nearest_index\<close>);
  \<open>RabitqProbe\<close> has the index of prototypes built by the loader.  \<open>Locality\<close>
  (\<open>server_oracle_locality.go\<close>) has the 512-bit code of a server state and shows that the distance of two
  codes is the sum of the gaps of their fields.

  \<^bold>\<open>Cascade and proof\<close> (\<open>inference_cascade.go\<close>, \<open>forensic_proof.go\<close>, \<open>feedback_quarantine.go\<close>).
  \<open>Cascade\<close> composes ontology, disks, probe and arena: its action equals a decision table, long payloads
  fail closed, and hostile provenance is always vetoed.  \<open>Forensic\<close> signs a verdict over a canonical
  projection: a proof of a stored payload replays to the same verdict whatever the arena has become, and
  an altered one is refused.  \<open>Quarantine\<close> validates arbitrated incidents against a sealed set and promotes
  them: at tolerance zero no search for a benign held-out code changes.

  \<^bold>\<open>Source filter\<close> (\<open>syntax_filter.go\<close>).  \<open>SyntaxFilter\<close> has the normalisation of source code, which renders
  the tokens of the window inside the destination, and the padding test.

  \<^bold>\<open>DNS\<close> (\<open>dns.go\<close>, \<open>dns_grammar.go\<close>, \<open>dns_message.go\<close>, \<open>dns_pcap.go\<close>, \<open>dns_pcap_msg.go\<close>).
  \<open>DnsGrammar\<close> has the survey of labels, \<open>DnsWire\<close> the question decoders and \<open>DnsMessage\<close> the
  message decoder with compressed names; each is shown to stay in bounds and to return what the
  packet denotes, by an inductive definition of the name at an offset.  \<open>DnsAgree\<close> shows that the two
  decoders agree.  \<open>Pcap\<close> and \<open>PcapMsg\<close> read capture files: the counters balance and the visitor
  sees exactly the accepted questions and genuine messages.

  \<^bold>\<open>Reputation\<close> (\<open>compact_reputation.go\<close>).  \<open>Reputation\<close> has the snapshot compiler, the loader, the
  search and the list reader: the hashed search equals the best covering entry, a compiled list
  always loads, and a block entry always wins.  \<open>Syncer\<close> (\<open>syncer.go\<close>) has one pass of the synchroniser: a
  source that cannot be read never removes what was learned.

  \<^bold>\<open>Pipeline\<close> (\<open>temporal_tracker.go\<close>, \<open>probe_entropy_gen.go\<close>, \<open>pipeline.go\<close>, \<open>seeds.go\<close>).
  \<open>TemporalTracker\<close> has the table of domains with its probing, eviction and expiry, and shows that
  a slot holds the last timestamps of its domain.  \<open>Entropy\<close> has the integer logarithm, the unrolled
  histograms and the payload classes, and shows that the profile is the one of the octet counts.
  \<open>Veto\<close> has the reserved labels, the veto rules and the analyst's summary; a \<open>float64\<close> is there NaN,
  an infinity or a signed rational, which is exact for the comparisons and the scaling by powers of
  two the code does.  \<open>Pipeline\<close> composes them: \<open>EvaluatePacket\<close> with its decision table, and the
  life of a pipeline as a step relation (evaluations, the arbitration worker, the audit writer,
  closing), with an account of every incident and record and a proof that closing completes.

  \<^bold>\<open>Tool grammars\<close> (\<open>grammar.go\<close>, \<open>c2blue55.go\<close>).  \<open>Grammar\<close> has the catalogue as an array of slots,
  shown to be a map from names to profiles; the scaled histogram always sums to 256, which bounds the
  divergence by 256 and lets a registered sample pass its own test.

  \<^bold>\<open>Trackers\<close> (\<open>nonldh_guard.go\<close>, \<open>icmp_echo.go\<close>, \<open>soa_negative.go\<close>,
  \<open>aaaa_iid.go\<close>, \<open>renouvellement_rdata.go\<close>).  Each keeps a fixed table whose
  contents come from earlier packets; \<open>Trace\<close> has the contract between a table and its history
  (locale \<open>traced\<close>), interpreted by every tracker.  \<open>NonLdhGuard\<close>, \<open>IcmpEcho\<close>, \<open>SoaNegative\<close> and \<open>AaaaIid\<close> show that
  no packet makes them panic and that each report has its cause in the packets of its time window;
  \<open>IcmpEcho\<close> also shows when the reply to a request is reported, and \<open>SoaNegative\<close> when the tracker fires.
  \<open>RdataRenewal\<close> shows that the rings of answers refine one list of entries per key.
  \<open>DnsNom\<close> has the name reader of the message evaluators, which reads exactly the name on the wire.

  \<^bold>\<open>Parameters.\<close>  Clock readings, HMAC-SHA256 (only its length is used), the Unicode tables of the
  string functions, the quantiser of the probe, the visitor of a capture, the ratio of the jitter, the
  arbitrator with the readings of its context, the success of opening the log, the readings of the
  synchroniser's sources, the kernels of the cascade (features, quantiser, probe, integer head), Ed25519,
  SHA-256, the page checksum and the rounded quotient of the quarantine are arguments.  A file is its
  bytes or an open error.

  \<^bold>\<open>Not modelled.\<close>  Floating-point code (feature extractors, classifiers, the integer head of a
  disk, calibration, the ratio of the jitter, training), system calls (kernel probes, attribution,
  sockets, HTTP services, command-line programs), the generators and reports of the laboratory,
  catalogues of literals and vendored packages.  Memory orders weaker than sequential consistency are
  not modelled either; the calls of the pipeline and of the grammar catalogue run under their locks
  and are single steps.  The delta catalogue (sealed dated exemptions) and the drivers that
  read captures into the trackers are integer code that is left out.
\<close>

end
